(* ===== verification/Prelude.thy ===== *)
theory Prelude
  imports Main "HOL-Library.Monad_Syntax"
begin

text \<open>
  What the component theories share: Rust's \<open>Ordering\<close>, fixed-capacity vectors
  (\<open>heapless::Vec\<close>, written \<open>ArrayVec\<close> in the sources), the reading of a panic as
  \<open>None\<close> in the option monad, generic list lemmas, and the collections of rewrite
  rules that the component proofs draw on.
\<close>

section \<open>Collections of rules\<close>

named_theorems panic_free \<open>operations that return under their precondition\<close>
named_theorems flat_simps \<open>what an operation does to the list a structure denotes\<close>

section \<open>Ordering\<close>

datatype ordering = Less | Equal | Greater

definition ord_cmp :: "'a::linorder \<Rightarrow> 'a \<Rightarrow> ordering" where
  "ord_cmp a b = (if a < b then Less else if a = b then Equal else Greater)"

lemma ord_cmp_simps [simp]:
  "ord_cmp a b = Less \<longleftrightarrow> a < b"
  "ord_cmp a b = Equal \<longleftrightarrow> a = b"
  "ord_cmp a b = Greater \<longleftrightarrow> b < a"
  by (auto simp: ord_cmp_def)

section \<open>Fixed-capacity vectors\<close>

text \<open>
  A vector of capacity \<open>cap\<close> is a list. Pushing onto a full one returns an error that the
  sources turn into a panic (\<open>unwrap_oob\<close>); collecting or extending beyond the capacity
  panics as well. A panic is \<open>None\<close>.
\<close>

definition array_push :: "nat \<Rightarrow> 'a list \<Rightarrow> 'a \<Rightarrow> 'a list option" where
  "array_push cap v x = (if length v < cap then Some (v @ [x]) else None)"

definition array_extend :: "nat \<Rightarrow> 'a list \<Rightarrow> 'a list \<Rightarrow> 'a list option" where
  "array_extend cap v xs = (if length v + length xs \<le> cap then Some (v @ xs) else None)"

definition array_collect :: "nat \<Rightarrow> 'a list \<Rightarrow> 'a list option" where
  "array_collect cap xs = array_extend cap [] xs"

lemma array_push_Some [panic_free]: "length v < cap \<Longrightarrow> array_push cap v x = Some (v @ [x])"
  by (simp add: array_push_def)

lemma array_extend_Some [panic_free]:
  "length v + length xs \<le> cap \<Longrightarrow> array_extend cap v xs = Some (v @ xs)"
  by (simp add: array_extend_def)

lemma array_collect_Some [panic_free]: "length xs \<le> cap \<Longrightarrow> array_collect cap xs = Some xs"
  by (simp add: array_collect_def array_extend_def)

section \<open>Lists\<close>

lemma butlast_snoc_last: "xs \<noteq> [] \<Longrightarrow> \<exists>ys y. xs = ys @ [y]"
  by (metis append_butlast_last_id)

lemma concat_map_nested: "concat (map (\<lambda>xs. concat (map f xs)) xss) = concat (map f (concat xss))"
  by (induction xss) auto

lemma nth_split_facts:
  "xs = us @ y # vs \<Longrightarrow> length us < length xs \<and> take (length us) xs = us \<and> xs ! length us = y \<and>
     drop (Suc (length us)) xs = vs"
  by simp

lemma filter_snoc_upt: "filter P [0..<Suc n] = filter P [0..<n] @ (if P n then [n] else [])"
  by simp

lemma sorted_wrt_distinct: "sorted_wrt R xs \<Longrightarrow> (\<And>x. \<not> R x x) \<Longrightarrow> distinct xs"
  by (induction xs) auto

text \<open>Indexing that panics out of range.\<close>

definition get_index :: "'a list \<Rightarrow> nat \<Rightarrow> 'a option" where
  "get_index xs i = (if i < length xs then Some (xs ! i) else None)"

section \<open>Stable sorting with a comparator\<close>

text \<open>\<open>sort_by\<close> of the standard library: stable, for a comparator that is a total preorder.\<close>

fun insert_by :: "('a \<Rightarrow> 'a \<Rightarrow> ordering) \<Rightarrow> 'a \<Rightarrow> 'a list \<Rightarrow> 'a list" where
  "insert_by cmp x [] = [x]"
| "insert_by cmp x (y # ys) = (if cmp x y = Greater then y # insert_by cmp x ys else x # y # ys)"

definition sort_by :: "('a \<Rightarrow> 'a \<Rightarrow> ordering) \<Rightarrow> 'a list \<Rightarrow> 'a list" where
  "sort_by cmp xs = foldr (insert_by cmp) xs []"

lemma set_insert_by [simp]: "set (insert_by cmp x ys) = insert x (set ys)"
  by (induction ys) auto

lemma length_insert_by [simp]: "length (insert_by cmp x ys) = Suc (length ys)"
  by (induction ys) auto

lemma sort_by_Nil [simp]: "sort_by cmp [] = []"
  by (simp add: sort_by_def)

lemma sort_by_Cons [simp]: "sort_by cmp (x # xs) = insert_by cmp x (sort_by cmp xs)"
  by (simp add: sort_by_def)

lemma set_sort_by [simp]: "set (sort_by cmp xs) = set xs"
  by (induction xs) auto

lemma length_sort_by [simp]: "length (sort_by cmp xs) = length xs"
  by (induction xs) auto

lemma distinct_insert_by: "distinct (insert_by cmp x ys) \<longleftrightarrow> x \<notin> set ys \<and> distinct ys"
  by (induction ys) auto

lemma distinct_sort_by [simp]: "distinct (sort_by cmp xs) = distinct xs"
  by (induction xs) (auto simp: distinct_insert_by)

text \<open>With a comparator that orders the elements strictly, the result is strictly ordered.\<close>

lemma sort_by_sorted:
  assumes "\<And>x y. x \<in> set xs \<Longrightarrow> y \<in> set xs \<Longrightarrow> x \<noteq> y \<Longrightarrow> cmp x y = Greater \<longleftrightarrow> R y x"
    and "\<And>x y. x \<in> set xs \<Longrightarrow> y \<in> set xs \<Longrightarrow> x \<noteq> y \<Longrightarrow> R x y \<or> R y x"
    and "\<And>x y z. R x y \<Longrightarrow> R y z \<Longrightarrow> R x z" and "distinct xs"
  shows "sorted_wrt R (sort_by cmp xs)"
proof -
  have ins: "sorted_wrt R (insert_by cmp x ys)"
    if "sorted_wrt R ys" "x \<notin> set ys" "insert x (set ys) \<subseteq> set xs" for x ys
    using that
  proof (induction ys)
    case (Cons y ys)
    have xy: "x \<in> set xs" "y \<in> set xs" "x \<noteq> y" using Cons.prems by auto
    show ?case
    proof (cases "cmp x y = Greater")
      case True
      then have "R y x" using assms(1) [OF xy] by simp
      then show ?thesis using Cons True by auto
    next
      case False
      then have "R x y" using assms(1,2) [OF xy] by blast
      then have "\<forall>z\<in>set ys. R x z" using Cons.prems(1) assms(3) by (metis sorted_wrt.simps(2))
      with \<open>R x y\<close> show ?thesis using Cons.prems(1) False by simp
    qed
  qed simp
  have "set ys \<subseteq> set xs \<Longrightarrow> distinct ys \<Longrightarrow> sorted_wrt R (sort_by cmp ys)" for ys
    by (induction ys) (simp_all add: ins)
  with assms(4) show ?thesis by simp
qed

end
