(* ===== verification/Sum_Tree.thy ===== *)
theory Sum_Tree
  imports Prelude
begin

text \<open>
  The data model of \<open>crates/sum_tree/src/sum_tree.rs\<close>: a B+ tree whose leaves hold items
  and whose nodes cache the summary of what is below them. An \<open>Arc\<close> is shared immutably
  and copied on write, so a tree is its node. This theory has the node type, its accessors,
  the summary interface (traits \<open>Item\<close> and \<open>Summary\<close>), the well-formedness invariant and
  the list of items a tree denotes.
\<close>

section \<open>Items and summaries\<close>

definition TREE_BASE :: nat where
  "TREE_BASE = 6"

text \<open>
  The operations of the traits \<open>Item\<close> and \<open>Summary\<close>, with the context argument already
  supplied: the summary of an item, the zero summary and \<open>add_summary\<close>.
\<close>

record ('t, 's) summary_ops =
  item_summary :: "'t \<Rightarrow> 's"
  summary_zero :: 's
  summary_add :: "'s \<Rightarrow> 's \<Rightarrow> 's"

text \<open>The function \<open>sum\<close> at the end of the file.\<close>

fun add_all :: "('t, 's) summary_ops \<Rightarrow> 's \<Rightarrow> 's list \<Rightarrow> 's" where
  "add_all I acc [] = acc"
| "add_all I acc (s # ss) = add_all I (summary_add I acc s) ss"

definition sum_summaries :: "('t, 's) summary_ops \<Rightarrow> 's list \<Rightarrow> 's" where
  "sum_summaries I ss = add_all I (summary_zero I) ss"

section \<open>Nodes\<close>

datatype ('t, 's) node =
  Internal nat 's "'s list" "('t, 's) node list"
| Leaf 's "'t list" "'s list"

fun is_leaf :: "('t, 's) node \<Rightarrow> bool" where
  "is_leaf (Leaf s its ss) = True"
| "is_leaf (Internal h s ss ts) = False"

fun node_height :: "('t, 's) node \<Rightarrow> nat" where
  "node_height (Internal h s ss ts) = h"
| "node_height (Leaf s its ss) = 0"

fun node_summary :: "('t, 's) node \<Rightarrow> 's" where
  "node_summary (Internal h s ss ts) = s"
| "node_summary (Leaf s its ss) = s"

fun child_summaries :: "('t, 's) node \<Rightarrow> 's list" where
  "child_summaries (Internal h s ss ts) = ss"
| "child_summaries (Leaf s its ss) = ss"

fun child_trees :: "('t, 's) node \<Rightarrow> ('t, 's) node list option" where
  "child_trees (Internal h s ss ts) = Some ts"
| "child_trees (Leaf s its ss) = None"

fun node_items :: "('t, 's) node \<Rightarrow> 't list option" where
  "node_items (Leaf s its ss) = Some its"
| "node_items (Internal h s ss ts) = None"

fun is_underflowing :: "('t, 's) node \<Rightarrow> bool" where
  "is_underflowing (Internal h s ss ts) = (length ts < TREE_BASE)"
| "is_underflowing (Leaf s its ss) = (length its < TREE_BASE)"

fun tree_is_empty :: "('t, 's) node \<Rightarrow> bool" where
  "tree_is_empty (Internal h s ss ts) = False"
| "tree_is_empty (Leaf s its ss) = (its = [])"

definition tree_new :: "('t, 's) summary_ops \<Rightarrow> ('t, 's) node" where
  "tree_new I = Leaf (summary_zero I) [] []"

definition tree_from_summary :: "'s \<Rightarrow> ('t, 's) node" where
  "tree_from_summary s = Leaf s [] []"

section \<open>What a tree denotes, and its invariant\<close>

text \<open>The items from left to right.\<close>

fun flat :: "('t, 's) node \<Rightarrow> 't list" where
  "flat (Leaf s its ss) = its"
| "flat (Internal h s ss ts) = concat (map flat ts)"

fun width :: "('t, 's) node \<Rightarrow> nat" where
  "width (Internal h s ss ts) = length ts"
| "width (Leaf s its ss) = length its"

text \<open>
  \<open>wf_node I k h t\<close>: the node has height \<open>h\<close>, is balanced, is not empty, holds at most
  \<open>2 * TREE_BASE\<close> children or items per node and at least \<open>k\<close> in every node below the
  root, and every cached summary is the sum of what it summarises.
\<close>

fun wf_node :: "('t, 's) summary_ops \<Rightarrow> nat \<Rightarrow> nat \<Rightarrow> ('t, 's) node \<Rightarrow> bool" where
  "wf_node I k 0 (Leaf s its ss) \<longleftrightarrow>
     its \<noteq> [] \<and> length its \<le> 2 * TREE_BASE \<and> ss = map (item_summary I) its \<and>
     s = sum_summaries I ss"
| "wf_node I k (Suc h) (Internal h' s ss ts) \<longleftrightarrow>
     h' = Suc h \<and> ts \<noteq> [] \<and> length ts \<le> 2 * TREE_BASE \<and> ss = map node_summary ts \<and>
     s = sum_summaries I ss \<and> (\<forall>t\<in>set ts. wf_node I k h t \<and> k \<le> width t)"
| "wf_node I k 0 (Internal h' s ss ts) \<longleftrightarrow> False"
| "wf_node I k (Suc h) (Leaf s its ss) \<longleftrightarrow> False"

definition wf_tree :: "('t, 's) summary_ops \<Rightarrow> nat \<Rightarrow> ('t, 's) node \<Rightarrow> bool" where
  "wf_tree I k t \<longleftrightarrow> t = tree_new I \<or> wf_node I k (node_height t) t"

section \<open>The laws of a summary\<close>

text \<open>
  \<open>add_summary\<close> is associative and zero is its left unit. Zero is in general no right
  unit: adding the zero summary of a map key replaces the key by nothing.
\<close>

locale summary_laws =
  fixes I :: "('t, 's) summary_ops"
  assumes add_assoc: "summary_add I (summary_add I a b) c = summary_add I a (summary_add I b c)"
    and add_zero_left: "summary_add I (summary_zero I) a = a"
begin

lemma add_all_append: "add_all I a (xs @ ys) = add_all I (add_all I a xs) ys"
  by (induction xs arbitrary: a) auto

lemma add_all_start: "add_all I (summary_add I a b) xs = summary_add I a (add_all I b xs)"
  by (induction xs arbitrary: b) (auto simp: add_assoc)

lemma sum_Cons: "sum_summaries I (x # xs) = add_all I x xs"
  by (simp add: sum_summaries_def add_zero_left)

lemma sum_Nil [simp]: "sum_summaries I [] = summary_zero I"
  by (simp add: sum_summaries_def)

lemma sum_single [simp]: "sum_summaries I [x] = x"
  by (simp add: sum_Cons)

lemma add_all_eq:
  assumes "xs \<noteq> []"
  shows "add_all I a xs = summary_add I a (sum_summaries I xs)"
proof -
  obtain y ys where "xs = y # ys" using assms by (cases xs) auto
  then show ?thesis by (simp add: add_all_start sum_Cons)
qed

lemma sum_append:
  "ys \<noteq> [] \<Longrightarrow> sum_summaries I (xs @ ys) = summary_add I (sum_summaries I xs) (sum_summaries I ys)"
  by (simp add: sum_summaries_def [of I "xs @ ys"] add_all_append add_all_eq)
    (simp add: sum_summaries_def)

lemma sum_append2:
  assumes "xs \<noteq> []" and "ys \<noteq> []"
  shows "summary_add I (sum_summaries I xs) (sum_summaries I ys) = sum_summaries I (xs @ ys)"
  using assms by (simp add: sum_append)

lemma sum_nonempty_concat:
  "(\<forall>xs\<in>set xss. xs \<noteq> []) \<Longrightarrow>
   sum_summaries I (map (sum_summaries I) xss) = sum_summaries I (concat xss)"
proof (induction xss rule: rev_induct)
  case Nil
  then show ?case by simp
next
  case (snoc ys xss)
  then show ?case by (simp add: sum_append)
qed

end

section \<open>Facts about well-formed nodes\<close>

lemma wf_node_height: "wf_node I k h t \<Longrightarrow> node_height t = h"
  by (cases t; cases h) auto

lemma wf_node_Internal:
  "wf_node I k h (Internal h' s ss ts) \<longleftrightarrow>
     (\<exists>h0. h = Suc h0 \<and> h' = Suc h0 \<and> ts \<noteq> [] \<and> length ts \<le> 2 * TREE_BASE \<and>
       ss = map node_summary ts \<and> s = sum_summaries I ss \<and>
       (\<forall>t\<in>set ts. wf_node I k h0 t \<and> k \<le> width t))"
  by (cases h) auto

lemma wf_node_Leaf:
  "wf_node I k h (Leaf s its ss) \<longleftrightarrow>
     h = 0 \<and> its \<noteq> [] \<and> length its \<le> 2 * TREE_BASE \<and> ss = map (item_summary I) its \<and>
     s = sum_summaries I ss"
  by (cases h) auto

lemma wf_node_flat_nonempty: "wf_node I k h t \<Longrightarrow> flat t \<noteq> []"
proof (induction t arbitrary: h)
  case (Internal h' s ss ts)
  then obtain c h0 where "c \<in> set ts" and "wf_node I k h0 c"
    by (cases ts) (auto simp: wf_node_Internal)
  then show ?case using Internal.IH by auto
next
  case (Leaf s its ss)
  then show ?case by (simp add: wf_node_Leaf)
qed

lemma wf_node_not_empty [simp]: "wf_node I k h t \<Longrightarrow> \<not> tree_is_empty t"
  by (cases t) (auto simp: wf_node_Leaf)

lemma wf_node_width_pos: "wf_node I k h t \<Longrightarrow> 0 < width t"
  by (cases t) (auto simp: wf_node_Leaf wf_node_Internal)

lemma wf_node_mono: "wf_node I k h t \<Longrightarrow> k' \<le> k \<Longrightarrow> wf_node I k' h t"
proof (induction t arbitrary: h)
  case (Internal h' s ss ts)
  then show ?case by (fastforce simp: wf_node_Internal)
next
  case (Leaf s its ss)
  then show ?case by (simp add: wf_node_Leaf)
qed

lemma is_underflowing_width: "is_underflowing t \<longleftrightarrow> width t < TREE_BASE"
  by (cases t) auto

lemma wf_tree_new [simp]: "wf_tree I k (tree_new I)"
  by (simp add: wf_tree_def)

lemma flat_tree_new [simp]: "flat (tree_new I) = []"
  by (simp add: tree_new_def)

lemma wf_tree_node: "wf_node I k h t \<Longrightarrow> wf_tree I k t"
  using wf_node_height wf_tree_def by metis

lemma wf_tree_empty_iff: "wf_tree I k t \<Longrightarrow> tree_is_empty t \<longleftrightarrow> flat t = []"
  by (auto simp: wf_tree_def tree_new_def wf_node_flat_nonempty)

lemma wf_tree_mono: "wf_tree I k t \<Longrightarrow> k' \<le> k \<Longrightarrow> wf_tree I k' t"
  by (auto simp: wf_tree_def intro: wf_node_mono)

text \<open>The cached summary is the sum of the summaries of the items.\<close>

context summary_laws
begin

lemma node_summary_flat:
  "wf_node I k h t \<Longrightarrow> node_summary t = sum_summaries I (map (item_summary I) (flat t))"
proof (induction t arbitrary: h)
  case (Internal h' s ss ts)
  then obtain h0 where ts: "ts \<noteq> []" and ss: "ss = map node_summary ts"
    and s: "s = sum_summaries I ss" and wf: "\<forall>t\<in>set ts. wf_node I k h0 t"
    by (auto simp: wf_node_Internal)
  have "map node_summary ts = map (sum_summaries I) (map (\<lambda>t. map (item_summary I) (flat t)) ts)"
    using Internal.IH wf by auto
  also have "sum_summaries I \<dots> = sum_summaries I (concat (map (\<lambda>t. map (item_summary I) (flat t)) ts))"
    using wf by (intro sum_nonempty_concat) (auto dest: wf_node_flat_nonempty)
  finally show ?case by (simp add: s ss map_concat comp_def)
next
  case (Leaf s its ss)
  then show ?case by (simp add: wf_node_Leaf)
qed

lemma wf_tree_summary:
  "wf_tree I k t \<Longrightarrow> node_summary t = sum_summaries I (map (item_summary I) (flat t))"
  by (auto simp: wf_tree_def tree_new_def sum_summaries_def dest: node_summary_flat)

end

end
