(* ===== verification/Sum_Tree_Append.thy ===== *)
theory Sum_Tree_Append
  imports Sum_Tree
begin

text \<open>
  Concatenation of sum trees (\<open>append\<close>, \<open>push\<close>, \<open>push_tree_recursive\<close>, \<open>append_large\<close>,
  \<open>merge_into_right\<close>, \<open>from_child_trees\<close> in \<open>crates/sum_tree/src/sum_tree.rs\<close>). Each
  operation on \<open>&mut self\<close> returns the new tree, paired with the tree split off where the
  code returns one; \<open>None\<close> is a panic.
\<close>

section \<open>The operations\<close>

text \<open>The second half of the internal case: split the children in two, or extend in place.\<close>

definition finish_internal :: "('t, 's) summary_ops \<Rightarrow> nat \<Rightarrow> 's \<Rightarrow> 's list \<Rightarrow> ('t, 's) node list \<Rightarrow>
    's list \<Rightarrow> ('t, 's) node list \<Rightarrow> (('t, 's) node \<times> ('t, 's) node option) option" where
  "finish_internal I h summary ss ts summaries_to_append trees_to_append =
     (let child_count = length ts + length trees_to_append in
      if child_count > 2 * TREE_BASE then
        let midpoint = (child_count + child_count mod 2) div 2;
            all_summaries = ss @ summaries_to_append;
            all_trees = ts @ trees_to_append
        in do {
          left_summaries \<leftarrow> array_collect (2 * TREE_BASE) (take midpoint all_summaries);
          right_summaries \<leftarrow> array_collect (2 * TREE_BASE) (drop midpoint all_summaries);
          left_trees \<leftarrow> array_collect (2 * TREE_BASE) (take midpoint all_trees);
          right_trees \<leftarrow> array_collect (2 * TREE_BASE) (drop midpoint all_trees);
          Some (Internal h (sum_summaries I left_summaries) left_summaries left_trees,
                Some (Internal h (sum_summaries I right_summaries) right_summaries right_trees))
        }
      else do {
        ss' \<leftarrow> array_extend (2 * TREE_BASE) ss summaries_to_append;
        ts' \<leftarrow> array_extend (2 * TREE_BASE) ts trees_to_append;
        Some (Internal h summary ss' ts', None)
      })"

text \<open>The leaf case of \<open>push_tree_recursive\<close>.\<close>

definition push_leaf :: "('t, 's) summary_ops \<Rightarrow> 's \<Rightarrow> 't list \<Rightarrow> 's list \<Rightarrow> ('t, 's) node \<Rightarrow>
    (('t, 's) node \<times> ('t, 's) node option) option" where
  "push_leaf I summary its ss other = do {
     other_items \<leftarrow> node_items other;
     let child_count = length its + length other_items;
     if child_count > 2 * TREE_BASE then
       let midpoint = (child_count + child_count mod 2) div 2;
           all_items = its @ other_items;
           all_summaries = ss @ child_summaries other
       in do {
         left_items \<leftarrow> array_collect (2 * TREE_BASE) (take midpoint all_items);
         right_items \<leftarrow> array_collect (2 * TREE_BASE) (drop midpoint all_items);
         left_summaries \<leftarrow> array_collect (2 * TREE_BASE) (take midpoint all_summaries);
         right_summaries \<leftarrow> array_collect (2 * TREE_BASE) (drop midpoint all_summaries);
         Some (Leaf (sum_summaries I left_summaries) left_items left_summaries,
               Some (Leaf (sum_summaries I right_summaries) right_items right_summaries))
       }
     else do {
       its' \<leftarrow> array_extend (2 * TREE_BASE) its other_items;
       ss' \<leftarrow> array_extend (2 * TREE_BASE) ss (child_summaries other);
       Some (Leaf (summary_add I summary (node_summary other)) its' ss', None)
     }
   }"

lemma size_last_child: "ts \<noteq> [] \<Longrightarrow> size (last ts) < Suc (n + size_list size ts)"
  by (metis last_in_set less_Suc_eq_le order_refl size_list_estimation' trans_le_add2)

lemma size_hd_child: "ts \<noteq> [] \<Longrightarrow> size (hd ts) < Suc (n + size_list size ts)"
  by (metis hd_in_set less_Suc_eq_le order_refl size_list_estimation' trans_le_add2)

function push_tree_recursive :: "('t, 's) summary_ops \<Rightarrow> ('t, 's) node \<Rightarrow> ('t, 's) node \<Rightarrow>
    (('t, 's) node \<times> ('t, 's) node option) option" where
  "push_tree_recursive I (Internal h s ss ts) other =
     (let summary = summary_add I s (node_summary other) in
      if h < node_height other then None
      else if h - node_height other = 0 then do {
        other_trees \<leftarrow> child_trees other;
        finish_internal I h summary ss ts (child_summaries other) other_trees
      }
      else if h - node_height other = 1 \<and> \<not> is_underflowing other then
        finish_internal I h summary ss ts [node_summary other] [other]
      else if ts = [] \<or> ss = [] then None
      else do {
        (child, tree_to_append) \<leftarrow> push_tree_recursive I (last ts) other;
        let ts' = butlast ts @ [child];
        let ss' = butlast ss @ [node_summary child];
        (case tree_to_append of
           Some split_tree \<Rightarrow> finish_internal I h summary ss' ts' [node_summary split_tree] [split_tree]
         | None \<Rightarrow> finish_internal I h summary ss' ts' [] [])
      })"
| "push_tree_recursive I (Leaf s its ss) other = push_leaf I s its ss other"
  by pat_completeness auto
termination
  by (relation "measure (\<lambda>(I, t, other). size t)") (auto simp: size_last_child)

definition merge_into_right :: "('t, 's) summary_ops \<Rightarrow> ('t, 's) node \<Rightarrow> ('t, 's) node \<Rightarrow>
    (('t, 's) node \<times> ('t, 's) node option) option" where
  "merge_into_right I small large =
     (case (small, large) of
        (Internal sh small_summary small_ss small_ts, Internal h summary ss ts) \<Rightarrow>
          (let total = length ts + length small_ts in
           if total \<le> 2 * TREE_BASE then do {
             ts' \<leftarrow> array_extend (2 * TREE_BASE) small_ts ts;
             ss' \<leftarrow> array_extend (2 * TREE_BASE) small_ss ss;
             Some (Internal h (summary_add I small_summary summary) ss' ts', None)
           }
           else let midpoint = (total + 1) div 2 in do {
             left_trees \<leftarrow> array_collect (2 * TREE_BASE) (take midpoint (small_ts @ ts));
             ts' \<leftarrow> array_collect (2 * TREE_BASE) (drop midpoint (small_ts @ ts));
             left_summaries \<leftarrow> array_collect (2 * TREE_BASE) (take midpoint (small_ss @ ss));
             ss' \<leftarrow> array_collect (2 * TREE_BASE) (drop midpoint (small_ss @ ss));
             Some (Internal h (sum_summaries I ss') ss' ts',
                   Some (Internal h (sum_summaries I left_summaries) left_summaries left_trees))
           })
      | (Leaf small_summary small_its small_ss, Leaf summary its ss) \<Rightarrow>
          (let total = length small_its + length its in
           if total \<le> 2 * TREE_BASE then do {
             its' \<leftarrow> array_extend (2 * TREE_BASE) small_its its;
             ss' \<leftarrow> array_extend (2 * TREE_BASE) small_ss ss;
             Some (Leaf (summary_add I small_summary summary) its' ss', None)
           }
           else let midpoint = (total + 1) div 2 in do {
             left_items \<leftarrow> array_collect (2 * TREE_BASE) (take midpoint (small_its @ its));
             its' \<leftarrow> array_collect (2 * TREE_BASE) (drop midpoint (small_its @ its));
             left_summaries \<leftarrow> array_collect (2 * TREE_BASE) (take midpoint (small_ss @ ss));
             ss' \<leftarrow> array_collect (2 * TREE_BASE) (drop midpoint (small_ss @ ss));
             Some (Leaf (sum_summaries I ss') its' ss',
                   Some (Leaf (sum_summaries I left_summaries) left_items left_summaries))
           })
      | _ \<Rightarrow> None)"

text \<open>\<open>large\<close> is updated in place; the result is the new \<open>large\<close> and the tree split off.\<close>

function append_large :: "('t, 's) summary_ops \<Rightarrow> ('t, 's) node \<Rightarrow> ('t, 's) node \<Rightarrow>
    (('t, 's) node \<times> ('t, 's) node option) option" where
  "append_large I small large =
     (if node_height small = node_height large then
        if \<not> is_underflowing small then Some (large, Some small)
        else merge_into_right I small large
      else case large of
        Leaf _ _ _ \<Rightarrow> None
      | Internal h s ss ts \<Rightarrow>
          let summary = summary_add I (node_summary small) s in
          if ts = [] \<or> ss = [] then None
          else do {
            (first, res) \<leftarrow> append_large I small (hd ts);
            let ts1 = first # tl ts;
            let ss1 = node_summary first # tl ss;
            (case res of
               None \<Rightarrow> Some (Internal h summary ss1 ts1, None)
             | Some tree \<Rightarrow>
                 if length ts1 < 2 * TREE_BASE then
                   Some (Internal h summary (node_summary tree # ss1) (tree # ts1), None)
                 else do {
                   new_ss \<leftarrow> array_extend (2 * TREE_BASE) [node_summary tree] (take TREE_BASE ss1);
                   new_ts \<leftarrow> array_extend (2 * TREE_BASE) [tree] (take TREE_BASE ts1);
                   Some (Internal h (sum_summaries I (drop TREE_BASE ss1)) (drop TREE_BASE ss1)
                           (drop TREE_BASE ts1),
                         Some (Internal h (sum_summaries I new_ss) new_ss new_ts))
                 })
          })"
  by pat_completeness auto
termination
  by (relation "measure (\<lambda>(I, small, t). size t)") (auto simp: size_hd_child)

declare push_tree_recursive.simps [simp del] append_large.simps [simp del]

definition from_child_trees :: "('t, 's) summary_ops \<Rightarrow> ('t, 's) node \<Rightarrow> ('t, 's) node \<Rightarrow>
    ('t, 's) node" where
  "from_child_trees I left right =
     (let ss = [node_summary left, node_summary right] in
      Internal (node_height left + 1) (sum_summaries I ss) ss [left, right])"

definition tree_append :: "('t, 's) summary_ops \<Rightarrow> ('t, 's) node \<Rightarrow> ('t, 's) node \<Rightarrow>
    ('t, 's) node option" where
  "tree_append I self other =
     (if tree_is_empty self then Some other
      else if \<not> is_leaf other \<or> node_items other \<noteq> Some [] then
        if node_height self < node_height other then do {
          (other', res) \<leftarrow> append_large I self other;
          (case res of Some tree \<Rightarrow> Some (from_child_trees I tree other') | None \<Rightarrow> Some other')
        }
        else do {
          (self', split) \<leftarrow> push_tree_recursive I self other;
          (case split of Some split_tree \<Rightarrow> Some (from_child_trees I self' split_tree)
           | None \<Rightarrow> Some self')
        }
      else Some self)"

definition tree_push :: "('t, 's) summary_ops \<Rightarrow> ('t, 's) node \<Rightarrow> 't \<Rightarrow> ('t, 's) node option" where
  "tree_push I self item =
     (let summary = item_summary I item in tree_append I self (Leaf summary [item] [summary]))"

definition tree_from_item :: "('t, 's) summary_ops \<Rightarrow> 't \<Rightarrow> ('t, 's) node option" where
  "tree_from_item I item = tree_push I (tree_new I) item"

section \<open>Concatenation keeps the invariant and never panics\<close>

text \<open>
  The outcome of concatenating at height \<open>h\<close>: one node that holds the items \<open>xs\<close> and is at
  least as wide as before, or two siblings that hold them in order, each wide enough to be
  a child.
\<close>

definition grown :: "('t, 's) summary_ops \<Rightarrow> nat \<Rightarrow> nat \<Rightarrow> nat \<Rightarrow> 't list \<Rightarrow> ('t, 's) node \<Rightarrow>
    ('t, 's) node option \<Rightarrow> bool" where
  "grown I k h n xs a r \<longleftrightarrow> wf_node I k h a \<and>
     (case r of
        None \<Rightarrow> flat a = xs \<and> n \<le> width a
      | Some b \<Rightarrow> wf_node I k h b \<and> k \<le> width a \<and> k \<le> width b \<and> flat a @ flat b = xs)"

lemma grown_simps:
  "grown I k h n xs a None \<longleftrightarrow> wf_node I k h a \<and> flat a = xs \<and> n \<le> width a"
  "grown I k h n xs a (Some b) \<longleftrightarrow> wf_node I k h a \<and> wf_node I k h b \<and> k \<le> width a \<and>
     k \<le> width b \<and> flat a @ flat b = xs"
  by (auto simp: grown_def)

definition kids :: "('t, 's) summary_ops \<Rightarrow> nat \<Rightarrow> nat \<Rightarrow> ('t, 's) node list \<Rightarrow> bool" where
  "kids I k h ts \<longleftrightarrow> (\<forall>t\<in>set ts. wf_node I k h t \<and> k \<le> width t)"

lemma kids_simps [simp]:
  "kids I k h []"
  "kids I k h (t # ts) \<longleftrightarrow> wf_node I k h t \<and> k \<le> width t \<and> kids I k h ts"
  "kids I k h (ts @ us) \<longleftrightarrow> kids I k h ts \<and> kids I k h us"
  by (auto simp: kids_def)

lemma kids_take_drop: "kids I k h ts \<Longrightarrow> kids I k h (take n ts) \<and> kids I k h (drop n ts)"
  by (auto simp: kids_def dest: in_set_takeD in_set_dropD)

lemma kids_last: "kids I k h ts \<Longrightarrow> ts \<noteq> [] \<Longrightarrow> wf_node I k h (last ts) \<and> k \<le> width (last ts)"
  by (auto simp: kids_def)

lemma kids_nth: "kids I k h ts \<Longrightarrow> i < length ts \<Longrightarrow> wf_node I k h (ts ! i) \<and> k \<le> width (ts ! i)"
  by (auto simp: kids_def)

lemma kids_butlast: "kids I k h ts \<Longrightarrow> kids I k h (butlast ts)"
  by (auto simp: kids_def dest: in_set_butlastD)

lemma wf_node_kids:
  "wf_node I k h (Internal h' s ss ts) \<longleftrightarrow>
     (\<exists>h0. h = Suc h0 \<and> h' = Suc h0 \<and> ts \<noteq> [] \<and> length ts \<le> 2 * TREE_BASE \<and>
       ss = map node_summary ts \<and> s = sum_summaries I (map node_summary ts) \<and> kids I k h0 ts)"
  by (auto simp: wf_node_Internal kids_def)

lemma flat_take_drop [simp]:
  "concat (map flat (take n ts)) @ concat (map flat (drop n ts)) = concat (map flat ts)"
  by (metis append_take_drop_id concat_append map_append)

lemma halves_bounds:
  fixes n m :: nat
  assumes "2 * TREE_BASE < n" and "n \<le> 4 * TREE_BASE" and "m = (n + n mod 2) div 2 \<or> m = (n + 1) div 2"
  shows "TREE_BASE \<le> m" and "m \<le> 2 * TREE_BASE" and "TREE_BASE \<le> n - m" and "n - m \<le> 2 * TREE_BASE"
    and "m < n"
  using assms by (auto simp: TREE_BASE_def)

text \<open>A node whose cached summaries are right, from its children or its items.\<close>

definition mk_internal :: "('t, 's) summary_ops \<Rightarrow> nat \<Rightarrow> ('t, 's) node list \<Rightarrow> ('t, 's) node" where
  "mk_internal I h ts = Internal h (sum_summaries I (map node_summary ts)) (map node_summary ts) ts"

definition mk_leaf :: "('t, 's) summary_ops \<Rightarrow> 't list \<Rightarrow> ('t, 's) node" where
  "mk_leaf I its = Leaf (sum_summaries I (map (item_summary I) its)) its (map (item_summary I) its)"

lemma mk_simps [simp]:
  "flat (mk_internal I h ts) = concat (map flat ts)"
  "flat (mk_leaf I its) = its"
  "width (mk_internal I h ts) = length ts"
  "width (mk_leaf I its) = length its"
  "node_height (mk_internal I h ts) = h"
  "node_height (mk_leaf I its) = 0"
  "node_summary (mk_internal I h ts) = sum_summaries I (map node_summary ts)"
  "node_summary (mk_leaf I its) = sum_summaries I (map (item_summary I) its)"
  "child_summaries (mk_internal I h ts) = map node_summary ts"
  "child_summaries (mk_leaf I its) = map (item_summary I) its"
  "child_trees (mk_internal I h ts) = Some ts"
  "child_trees (mk_leaf I its) = None"
  "node_items (mk_leaf I its) = Some its"
  "node_items (mk_internal I h ts) = None"
  "is_leaf (mk_leaf I its)"
  "\<not> is_leaf (mk_internal I h ts)"
  by (simp_all add: mk_internal_def mk_leaf_def)

lemma wf_mk_internal [simp]:
  "wf_node I k (Suc h) (mk_internal I h' ts) \<longleftrightarrow>
     h' = Suc h \<and> ts \<noteq> [] \<and> length ts \<le> 2 * TREE_BASE \<and> kids I k h ts"
  by (auto simp: mk_internal_def wf_node_kids)

lemma wf_mk_leaf [simp]:
  "wf_node I k 0 (mk_leaf I its) \<longleftrightarrow> its \<noteq> [] \<and> length its \<le> 2 * TREE_BASE"
  by (auto simp: mk_leaf_def wf_node_Leaf)

lemma wf_node_cases:
  assumes "wf_node I k h t"
  obtains (leaf) its where "h = 0" and "t = mk_leaf I its" and "its \<noteq> []" and "length its \<le> 2 * TREE_BASE"
  | (internal) h0 ts where "h = Suc h0" and "t = mk_internal I h ts" and "ts \<noteq> []"
      and "length ts \<le> 2 * TREE_BASE" and "kids I k h0 ts"
  using assms by (cases t) (auto simp: wf_node_kids wf_node_Leaf mk_internal_def mk_leaf_def)

text \<open>Splitting a list of children (or of items) in two gives two wide enough siblings.\<close>

lemma split_children:
  assumes "kids I k h ts" and "2 * TREE_BASE < length ts" and "length ts \<le> 4 * TREE_BASE"
    and "m = (length ts + length ts mod 2) div 2 \<or> m = (length ts + 1) div 2"
    and "k \<le> TREE_BASE"
  shows "grown I k (Suc h) n (concat (map flat ts)) (mk_internal I (Suc h) (take m ts))
           (Some (mk_internal I (Suc h) (drop m ts)))"
proof -
  note b = halves_bounds [OF assms(2-4)]
  have "take m ts \<noteq> []" and "drop m ts \<noteq> []" using b by (auto simp: TREE_BASE_def)
  then show ?thesis
    using b assms(5) kids_take_drop [OF assms(1)] by (auto simp: grown_simps min_def)
qed

lemma split_items:
  assumes "2 * TREE_BASE < length its" and "length its \<le> 4 * TREE_BASE"
    and "m = (length its + length its mod 2) div 2 \<or> m = (length its + 1) div 2"
    and "k \<le> TREE_BASE"
  shows "grown I k 0 n its (mk_leaf I (take m its)) (Some (mk_leaf I (drop m its)))"
proof -
  note b = halves_bounds [OF assms(1-3)]
  have "take m its \<noteq> []" and "drop m its \<noteq> []" using b by (auto simp: TREE_BASE_def)
  then show ?thesis
    using b assms(4) by (auto simp: grown_simps min_def)
qed

lemma collect_halves:
  fixes xs :: "'a list"
  assumes "2 * TREE_BASE < length xs" and "length xs \<le> 4 * TREE_BASE"
    and "m = (length xs + length xs mod 2) div 2 \<or> m = (length xs + 1) div 2"
  shows "array_collect (2 * TREE_BASE) (take m xs) = Some (take m xs)"
    and "array_collect (2 * TREE_BASE) (drop m xs) = Some (drop m xs)"
  using halves_bounds [OF assms] by (simp_all add: array_collect_Some)

lemma collect_map_halves:
  assumes "2 * TREE_BASE < length xs" and "length xs \<le> 4 * TREE_BASE"
    and "m = (length xs + length xs mod 2) div 2 \<or> m = (length xs + 1) div 2"
  shows "array_collect (2 * TREE_BASE) (take m (map f xs)) = Some (map f (take m xs))"
    and "array_collect (2 * TREE_BASE) (drop m (map f xs)) = Some (map f (drop m xs))"
  using collect_halves [of "map f xs" m] assms by (simp_all add: take_map drop_map)

lemma finish_internal_ok:
  assumes "kids I k h (ts @ us)" and "ts \<noteq> []" and "length ts \<le> 2 * TREE_BASE"
    and "length us \<le> 2 * TREE_BASE" and "k \<le> TREE_BASE"
    and "s = sum_summaries I (map node_summary (ts @ us))"
  shows "\<exists>a r. finish_internal I (Suc h) s (map node_summary ts) ts (map node_summary us) us = Some (a, r)
    \<and> grown I k (Suc h) (length ts) (concat (map flat (ts @ us))) a r"
proof (cases "length (ts @ us) > 2 * TREE_BASE")
  case True
  define m where "m = (length (ts @ us) + length (ts @ us) mod 2) div 2"
  have len: "length (ts @ us) \<le> 4 * TREE_BASE" using assms by simp
  have mm: "m = (length (ts @ us) + length (ts @ us) mod 2) div 2 \<or> m = (length (ts @ us) + 1) div 2"
    by (simp add: m_def)
  have "finish_internal I (Suc h) s (map node_summary ts) ts (map node_summary us) us =
     Some (mk_internal I (Suc h) (take m (ts @ us)), Some (mk_internal I (Suc h) (drop m (ts @ us))))"
    using True collect_halves [OF True len mm] collect_map_halves [OF True len mm, of node_summary]
    unfolding finish_internal_def Let_def mk_internal_def length_append [symmetric] map_append [symmetric]
      m_def [symmetric]
    by simp
  moreover note split_children [OF assms(1) True len mm assms(5)]
  ultimately show ?thesis by simp
next
  case False
  then have "finish_internal I (Suc h) s (map node_summary ts) ts (map node_summary us) us =
     Some (mk_internal I (Suc h) (ts @ us), None)"
    using assms by (simp add: finish_internal_def array_extend_Some mk_internal_def)
  with False show ?thesis using assms by (simp add: grown_simps)
qed

context summary_laws
begin

lemma sum_items_append:
  "xs \<noteq> [] \<Longrightarrow> ys \<noteq> [] \<Longrightarrow>
   summary_add I (sum_summaries I (map f xs)) (sum_summaries I (map f ys)) =
     sum_summaries I (map f (xs @ ys))"
  by (simp add: sum_append)

lemma push_leaf_ok:
  assumes "its \<noteq> []" and "length its \<le> 2 * TREE_BASE" and "ys \<noteq> []" and "length ys \<le> 2 * TREE_BASE"
    and "k \<le> TREE_BASE"
  shows "\<exists>a r. push_leaf I (sum_summaries I (map (item_summary I) its)) its (map (item_summary I) its)
      (mk_leaf I ys) = Some (a, r) \<and> grown I k 0 (length its) (its @ ys) a r"
proof (cases "length (its @ ys) > 2 * TREE_BASE")
  case True
  define m where "m = (length (its @ ys) + length (its @ ys) mod 2) div 2"
  have len: "length (its @ ys) \<le> 4 * TREE_BASE" using assms by simp
  have mm: "m = (length (its @ ys) + length (its @ ys) mod 2) div 2 \<or> m = (length (its @ ys) + 1) div 2"
    by (simp add: m_def)
  have "push_leaf I (sum_summaries I (map (item_summary I) its)) its (map (item_summary I) its) (mk_leaf I ys) =
     Some (mk_leaf I (take m (its @ ys)), Some (mk_leaf I (drop m (its @ ys))))"
    using True collect_halves [OF True len mm] collect_map_halves [OF True len mm, of "item_summary I"]
    unfolding push_leaf_def mk_leaf_def Let_def
    by (simp add: m_def [symmetric] del: map_append take_append drop_append flip: length_append map_append)
  with split_items [OF True len mm assms(5)] show ?thesis by simp
next
  case False
  then have "push_leaf I (sum_summaries I (map (item_summary I) its)) its (map (item_summary I) its) (mk_leaf I ys) =
     Some (mk_leaf I (its @ ys), None)"
    using assms by (simp add: push_leaf_def array_extend_Some mk_leaf_def sum_append)
  with False show ?thesis using assms by (simp add: grown_simps)
qed

text \<open>The cached summary of a list of children is the sum over the items below them.\<close>

lemma kids_flat_sum:
  assumes "kids I k h ts"
  shows "sum_summaries I (map node_summary ts) =
    sum_summaries I (map (item_summary I) (concat (map flat ts)))"
proof -
  have "map node_summary ts = map (sum_summaries I) (map (\<lambda>t. map (item_summary I) (flat t)) ts)"
    using assms by (auto simp: kids_def node_summary_flat)
  also have "sum_summaries I \<dots> = sum_summaries I (concat (map (\<lambda>t. map (item_summary I) (flat t)) ts))"
    using assms by (intro sum_nonempty_concat) (auto simp: kids_def dest: wf_node_flat_nonempty)
  finally show ?thesis by (simp add: map_concat comp_def)
qed

lemma push_tree_recursive_ok:
  "wf_node I k h t \<Longrightarrow> wf_node I k h' u \<Longrightarrow> h' \<le> h \<Longrightarrow> k \<le> TREE_BASE \<Longrightarrow>
   \<exists>a r. push_tree_recursive I t u = Some (a, r) \<and> grown I k h (width t) (flat t @ flat u) a r"
proof (induction h arbitrary: t)
  case 0
  from 0(1) obtain its where t: "t = mk_leaf I its" "its \<noteq> []" "length its \<le> 2 * TREE_BASE"
    by (cases rule: wf_node_cases) auto
  from 0(2,3) obtain ys where u: "u = mk_leaf I ys" "ys \<noteq> []" "length ys \<le> 2 * TREE_BASE"
    by (cases rule: wf_node_cases) auto
  have "push_tree_recursive I t u =
      push_leaf I (sum_summaries I (map (item_summary I) its)) its (map (item_summary I) its) u"
    by (simp add: t(1) mk_leaf_def push_tree_recursive.simps)
  then show ?case using push_leaf_ok [OF t(2,3) u(2,3) 0(4)] t(1) u(1) by simp
next
  case (Suc h)
  from Suc.prems(1) obtain ts where t: "t = mk_internal I (Suc h) ts" "ts \<noteq> []"
      "length ts \<le> 2 * TREE_BASE" "kids I k h ts"
    by (cases rule: wf_node_cases) auto
  let ?ss = "map node_summary ts" and ?sum = "summary_add I (sum_summaries I (map node_summary ts)) (node_summary u)"
  have hu: "node_height u = h'" using Suc.prems(2) by (rule wf_node_height)
  note step = push_tree_recursive.simps(1) [of I "Suc h" "sum_summaries I ?ss" ?ss ts u,
      folded mk_internal_def, folded t(1), unfolded Let_def hu]
  consider (same) "h' = Suc h" | (child) "h' = h" "\<not> is_underflowing u"
    | (down) "h' \<le> h" "\<not> (Suc h - h' = 1 \<and> \<not> is_underflowing u)"
    using Suc.prems(3) by linarith
  then show ?case
  proof cases
    case same
    with Suc.prems(2) obtain us where u: "u = mk_internal I (Suc h) us" "us \<noteq> []"
      "length us \<le> 2 * TREE_BASE" "kids I k h us"
      by (cases rule: wf_node_cases) auto
    have "push_tree_recursive I t u = finish_internal I (Suc h) ?sum ?ss ts (map node_summary us) us"
      unfolding step using same by (simp add: u(1))
    then show ?thesis
      using finish_internal_ok [of I k h ts us ?sum] t u Suc.prems(4)
      by (simp add: sum_items_append)
  next
    case child
    have "push_tree_recursive I t u = finish_internal I (Suc h) ?sum ?ss ts [node_summary u] [u]"
      unfolding step using child by simp
    moreover have "k \<le> width u"
      using child(2) Suc.prems(4) by (simp add: is_underflowing_width)
    ultimately show ?thesis
      using finish_internal_ok [of I k h ts "[u]" ?sum] t child Suc.prems(2,4)
      by (simp add: sum_append TREE_BASE_def)
  next
    case down
    from t have wl: "wf_node I k h (last ts)" "k \<le> width (last ts)"
      using kids_last by blast+
    from Suc.IH [OF wl(1) Suc.prems(2) down(1) Suc.prems(4)] obtain c r where
      c: "push_tree_recursive I (last ts) u = Some (c, r)"
      and g: "grown I k h (width (last ts)) (flat (last ts) @ flat u) c r" by blast
    let ?ts = "butlast ts @ [c]" and ?us = "case r of None \<Rightarrow> [] | Some b \<Rightarrow> [b]"
    have push: "push_tree_recursive I t u =
        finish_internal I (Suc h) ?sum (map node_summary ?ts) ?ts (map node_summary ?us) ?us"
      unfolding step using down t(2) by (auto simp: c map_butlast split: option.split)
    have kids: "kids I k h (?ts @ ?us)"
      using g wl(2) kids_butlast [OF t(4)] by (cases r) (auto simp: grown_simps)
    have ts: "ts = butlast ts @ [last ts]" using t(2) by simp
    have flat: "concat (map flat (?ts @ ?us)) = flat t @ flat u"
      using g arg_cong [OF ts, of "\<lambda>x. concat (map flat x)"]
      by (cases r) (simp_all add: grown_simps t(1))
    have ne: "flat t \<noteq> []" "flat u \<noteq> []"
      using Suc.prems(1,2) wf_node_flat_nonempty by blast+
    have sum: "?sum = sum_summaries I (map node_summary (?ts @ ?us))"
      unfolding kids_flat_sum [OF kids] kids_flat_sum [OF t(4)] flat node_summary_flat [OF Suc.prems(2)]
      using sum_items_append [OF ne] t(1) by simp
    show ?thesis
      unfolding push
      using finish_internal_ok [OF kids _ _ _ Suc.prems(4) sum] t flat
      by (cases r) (simp_all add: TREE_BASE_def)
  qed
qed

lemma merge_into_right_ok:
  assumes "wf_node I k h a" and "wf_node I k h b" and "k \<le> TREE_BASE"
  shows "\<exists>b' r. merge_into_right I a b = Some (b', r) \<and>
    (case r of None \<Rightarrow> grown I k h (width b) (flat a @ flat b) b' None
     | Some a' \<Rightarrow> grown I k h n (flat a @ flat b) a' (Some b'))"
  using assms(1)
proof (cases rule: wf_node_cases)
  case (leaf its)
  with assms(2) obtain ys where b: "b = mk_leaf I ys" "ys \<noteq> []" "length ys \<le> 2 * TREE_BASE"
    by (cases rule: wf_node_cases) auto
  show ?thesis
  proof (cases "length (its @ ys) > 2 * TREE_BASE")
    case True
    define m where "m = (length (its @ ys) + 1) div 2"
    have len: "length (its @ ys) \<le> 4 * TREE_BASE" using leaf b by simp
    have mm: "m = (length (its @ ys) + length (its @ ys) mod 2) div 2 \<or> m = (length (its @ ys) + 1) div 2"
      by (simp add: m_def)
    have half_its: "length (ys @ its) = length (its @ ys)" "Suc (length (its @ ys)) div 2 = m"
      by (simp_all add: m_def)
    have "merge_into_right I a b = Some (mk_leaf I (drop m (its @ ys)), Some (mk_leaf I (take m (its @ ys))))"
      using True collect_halves [OF True len mm] collect_map_halves [OF True len mm, of "item_summary I"]
      unfolding leaf b merge_into_right_def mk_leaf_def node.case prod.case Let_def
      by (simp add: half_its del: map_append take_append drop_append flip: length_append map_append)
    with split_items [OF True len mm assms(3)] show ?thesis by (simp add: leaf b)
  next
    case False
    then have "merge_into_right I a b = Some (mk_leaf I (its @ ys), None)"
      using leaf b by (simp add: merge_into_right_def mk_leaf_def array_extend_Some sum_append)
    with False show ?thesis using leaf b by (simp add: grown_simps)
  qed
next
  case (internal h0 ts)
  with assms(2) obtain us where b: "b = mk_internal I h us" "us \<noteq> []" "length us \<le> 2 * TREE_BASE"
      "kids I k h0 us"
    by (cases rule: wf_node_cases) auto
  show ?thesis
  proof (cases "length (ts @ us) > 2 * TREE_BASE")
    case True
    define m where "m = (length (ts @ us) + 1) div 2"
    have len: "length (ts @ us) \<le> 4 * TREE_BASE" using internal b by simp
    have mm: "m = (length (ts @ us) + length (ts @ us) mod 2) div 2 \<or> m = (length (ts @ us) + 1) div 2"
      by (simp add: m_def)
    have half_ts: "length (us @ ts) = length (ts @ us)" "Suc (length (ts @ us)) div 2 = m"
      by (simp_all add: m_def)
    have "merge_into_right I a b = Some (mk_internal I h (drop m (ts @ us)), Some (mk_internal I h (take m (ts @ us))))"
      using True collect_halves [OF True len mm] collect_map_halves [OF True len mm, of node_summary]
      unfolding internal(2) b(1) merge_into_right_def mk_internal_def node.case prod.case Let_def
      by (simp add: half_ts del: map_append take_append drop_append flip: length_append map_append)
    moreover have "kids I k h0 (ts @ us)" using internal b by simp
    note split_children [OF this True len mm assms(3)]
    ultimately show ?thesis by (simp add: internal b)
  next
    case False
    then have "merge_into_right I a b = Some (mk_internal I h (ts @ us), None)"
      using internal b by (simp add: merge_into_right_def mk_internal_def array_extend_Some sum_append)
    with False show ?thesis using internal b by (simp add: grown_simps)
  qed
qed

text \<open>The tree split off to the left comes first; \<open>large\<close> keeps what follows.\<close>

definition large_result :: "nat \<Rightarrow> nat \<Rightarrow> nat \<Rightarrow> 't list \<Rightarrow> ('t, 's) node \<Rightarrow> ('t, 's) node option \<Rightarrow> bool" where
  "large_result k h n xs b r \<longleftrightarrow>
     (case r of None \<Rightarrow> grown I k h n xs b None | Some a \<Rightarrow> grown I k h n xs a (Some b))"

lemma append_large_ok:
  "wf_node I k hs s \<Longrightarrow> wf_node I k h t \<Longrightarrow> hs \<le> h \<Longrightarrow> (hs = h \<Longrightarrow> k \<le> width t) \<Longrightarrow> k \<le> TREE_BASE \<Longrightarrow>
   \<exists>b r. append_large I s t = Some (b, r) \<and> large_result k h (width t) (flat s @ flat t) b r"
proof (induction h arbitrary: t)
  case 0
  then have "hs = 0" "node_height s = 0" "node_height t = 0" by (auto dest: wf_node_height)
  then show ?case
    using 0 merge_into_right_ok [of k 0 s t "width t"]
    by (auto simp: append_large.simps [of I s t] is_underflowing_width large_result_def grown_simps
        split: option.splits)
next
  case (Suc h)
  note hts = wf_node_height [OF Suc.prems(1)] wf_node_height [OF Suc.prems(2)]
  show ?case
  proof (cases "hs = Suc h")
    case True
    then show ?thesis
      using Suc.prems hts merge_into_right_ok [of k "Suc h" s t "width t"]
      by (auto simp: append_large.simps [of I s t] is_underflowing_width large_result_def grown_simps
          split: option.splits)
  next
    case False
    with Suc.prems(3) have le: "hs \<le> h" by simp
    from Suc.prems(2) obtain ts where t: "t = mk_internal I (Suc h) ts" "ts \<noteq> []"
        "length ts \<le> 2 * TREE_BASE" "kids I k h ts"
      by (cases rule: wf_node_cases) auto
    then have f: "wf_node I k h (hd ts)" "k \<le> width (hd ts)" and tl: "kids I k h (tl ts)"
      by (cases ts; simp)+
    from Suc.IH [OF Suc.prems(1) f(1) le f(2) Suc.prems(5)] obtain c r where
      c: "append_large I s (hd ts) = Some (c, r)"
      and g: "large_result k h (width (hd ts)) (flat s @ flat (hd ts)) c r" by blast
    let ?l = "(case r of None \<Rightarrow> [] | Some a \<Rightarrow> [a]) @ c # tl ts"
    have kids: "kids I k h ?l"
      using g f tl by (cases r) (auto simp: large_result_def grown_simps)
    have flat: "concat (map flat ?l) = flat s @ flat t"
      using g t(2) by (cases r; cases ts) (simp_all add: large_result_def grown_simps t(1))
    have sum: "summary_add I (node_summary s) (sum_summaries I (map node_summary ts)) =
        sum_summaries I (map node_summary ?l)"
      unfolding kids_flat_sum [OF kids] kids_flat_sum [OF t(4)] flat node_summary_flat [OF Suc.prems(1)]
      using sum_items_append [OF wf_node_flat_nonempty [OF Suc.prems(1)] wf_node_flat_nonempty [OF Suc.prems(2)]]
        t(1) by simp
    have hs: "node_height s \<noteq> Suc h" using hts(1) le by simp
    note step = append_large.simps [of I s t] hs t(1,2) c
    let ?new = "c # tl ts"
    have len: "length ?new = length ts" using t(2) by simp
    consider (none) "r = None" | (fits) a where "r = Some a" "length ts < 2 * TREE_BASE"
      | (split) a where "r = Some a" "length ts = 2 * TREE_BASE"
      using t(3) by (cases r; cases "length ts < 2 * TREE_BASE") auto
    then show ?thesis
    proof cases
      case none
      then have "append_large I s t = Some (mk_internal I (Suc h) ?l, None)"
        using sum step by (simp add: mk_internal_def map_tl)
      then show ?thesis
        using kids flat t(1,3) none len by (simp add: large_result_def grown_simps)
    next
      case fits
      then have "append_large I s t = Some (mk_internal I (Suc h) ?l, None)"
        using sum step len by (simp add: mk_internal_def map_tl)
      then show ?thesis
        using kids flat t(1,3) fits len by (simp add: large_result_def grown_simps)
    next
      case split
      let ?left = "a # take TREE_BASE ?new" and ?right = "drop TREE_BASE ?new"
      have "append_large I s t = Some (mk_internal I (Suc h) ?right, Some (mk_internal I (Suc h) ?left))"
        using split step len
        by (simp add: mk_internal_def array_extend_Some take_map drop_map map_tl [symmetric]
            TREE_BASE_def Let_def)
      moreover have l: "?l = ?left @ ?right" using split(1) by simp
      have "kids I k h (?left @ ?right)" using kids unfolding l .
      then have "kids I k h ?left" "kids I k h ?right" by (simp_all only: kids_simps(3))
      moreover have "concat (map flat ?left) @ concat (map flat ?right) = flat s @ flat t"
        using flat unfolding l by (simp only: map_append concat_append)
      moreover have "length ?right = TREE_BASE" "?right \<noteq> []" "length ?left = TREE_BASE + 1"
        using len split(2) by (auto simp: TREE_BASE_def)
      ultimately show ?thesis
        using Suc.prems(5) by (simp add: large_result_def grown_simps TREE_BASE_def)
    qed
  qed
qed

lemma from_child_trees_ok:
  assumes "wf_node I k h a" and "wf_node I k h b" and "k \<le> width a" and "k \<le> width b"
  shows "wf_node I k (Suc h) (from_child_trees I a b) \<and> flat (from_child_trees I a b) = flat a @ flat b"
proof -
  have "from_child_trees I a b = mk_internal I (Suc h) [a, b]"
    using wf_node_height [OF assms(1)] by (simp add: from_child_trees_def mk_internal_def Let_def)
  then show ?thesis using assms by (simp add: TREE_BASE_def)
qed

text \<open>Appending concatenates the items, keeps the invariant and does not panic.\<close>

lemma tree_append_ok:
  assumes "wf_tree I k a" and "wf_tree I k b" and "k \<le> TREE_BASE"
  shows "\<exists>c. tree_append I a b = Some c \<and> wf_tree I k c \<and> flat c = flat a @ flat b"
proof (cases "a = tree_new I \<or> b = tree_new I")
  case True
  then show ?thesis using assms
    by (cases "tree_is_empty a") (auto simp: tree_append_def wf_tree_empty_iff, auto simp: tree_new_def)
next
  case False
  define ha hb where "ha = node_height a" and "hb = node_height b"
  have wf: "wf_node I k ha a" "wf_node I k hb b"
    using False assms by (auto simp: wf_tree_def ha_def hb_def)
  then have ne: "\<not> tree_is_empty a" "\<not> is_leaf b \<or> node_items b \<noteq> Some []"
    using wf_node_flat_nonempty [OF wf(2)] by (auto, cases b, auto)
  show ?thesis
  proof (cases "ha < hb")
    case True
    from append_large_ok [OF wf _ _ assms(3)] True obtain c r where
      c: "append_large I a b = Some (c, r)" "large_result k hb (width b) (flat a @ flat b) c r" by auto
    then show ?thesis
      using ne True from_child_trees_ok [of k hb _ c]
      by (cases r) (auto simp: tree_append_def ha_def [symmetric] hb_def [symmetric] large_result_def
          grown_simps intro: wf_tree_node)
  next
    case False
    from push_tree_recursive_ok [OF wf _ assms(3)] False obtain c r where
      c: "push_tree_recursive I a b = Some (c, r)" "grown I k ha (width a) (flat a @ flat b) c r" by auto
    then show ?thesis
      using ne False from_child_trees_ok [of k ha c]
      by (cases r) (auto simp: tree_append_def ha_def [symmetric] hb_def [symmetric]
          grown_simps intro: wf_tree_node)
  qed
qed

lemma tree_append_some:
  assumes "wf_tree I k a" and "wf_tree I k b" and "k \<le> TREE_BASE"
  obtains c where "tree_append I a b = Some c" and "wf_tree I k c" and "flat c = flat a @ flat b"
  using tree_append_ok [OF assms] by blast

lemma wf_single_leaf: "wf_tree I k (Leaf (item_summary I x) [x] [item_summary I x])"
  by (auto simp: wf_tree_def TREE_BASE_def)

lemma tree_push_ok:
  assumes "wf_tree I k t" and "k \<le> TREE_BASE"
  shows "\<exists>t'. tree_push I t x = Some t' \<and> wf_tree I k t' \<and> flat t' = flat t @ [x]"
  using tree_append_ok [OF assms(1) wf_single_leaf assms(2), of x] by (simp add: tree_push_def Let_def)

end

section \<open>Height and size\<close>

text \<open>A tree whose nodes below the root are at least half full is logarithmically deep.\<close>

lemma length_concat_ge:
  "\<forall>x\<in>set xs. n \<le> length (f x) \<Longrightarrow> length xs * n \<le> length (concat (map f xs))"
  by (induction xs) auto

lemma wf_node_size:
  assumes "wf_node I k h t"
  shows "width t * k ^ h \<le> length (flat t)"
  using assms
proof (induction h arbitrary: t)
  case 0
  then show ?case by (cases rule: wf_node_cases) auto
next
  case (Suc h)
  from Suc.prems obtain ts where t: "t = mk_internal I (Suc h) ts" "kids I k h ts"
    by (cases rule: wf_node_cases) auto
  have "k * k ^ h \<le> length (flat c)" if "c \<in> set ts" for c
  proof -
    from t(2) that have "wf_node I k h c" "k \<le> width c" by (auto simp: kids_def)
    with Suc.IH [OF this(1)] show ?thesis by (meson le_trans mult_le_mono1)
  qed
  then show ?case using length_concat_ge [of ts "k * k ^ h" flat] t(1) by simp
qed

lemma wf_node_height_bound:
  assumes "wf_node I k h t" and "length (flat t) < k ^ n" and "0 < k"
  shows "h < n"
proof (rule ccontr)
  assume "\<not> h < n"
  then have "k ^ n \<le> k ^ h" using assms(3) by (intro power_increasing) auto
  also have "\<dots> \<le> width t * k ^ h" using wf_node_width_pos [OF assms(1)] by simp
  also have "\<dots> \<le> length (flat t)" by (rule wf_node_size [OF assms(1)])
  finally show False using assms(2) by simp
qed

end
