(* ===== verification/Sum_Tree_Build.thy ===== *)
theory Sum_Tree_Build
  imports Sum_Tree_Append
begin

text \<open>
  Bulk construction (\<open>from_iter\<close>, \<open>from_par_iter\<close>, \<open>extend\<close>), the items at the two ends
  and their update in place (\<open>first\<close>, \<open>last\<close>, \<open>last_summary\<close>, \<open>update_first\<close>,
  \<open>update_last\<close>) of \<open>crates/sum_tree/src/sum_tree.rs\<close>.
\<close>

section \<open>Bulk construction\<close>

text \<open>
  Consecutive chunks of at most \<open>n\<close> elements: what \<open>iter.by_ref().take(n)\<close> in a loop and
  rayon's \<open>chunks(n)\<close> deliver.
\<close>

function chunks :: "nat \<Rightarrow> 'a list \<Rightarrow> 'a list list" where
  "chunks n xs = (if xs = [] \<or> n = 0 then [] else take n xs # chunks n (drop n xs))"
  by pat_completeness auto
termination
  by (relation "measure (\<lambda>(n, xs). length xs)") auto

declare chunks.simps [simp del]

text \<open>A leaf summary starts from the first item summary and adds the others.\<close>

definition leaf_of_chunk :: "('t, 's) summary_ops \<Rightarrow> 't list \<Rightarrow> ('t, 's) node option" where
  "leaf_of_chunk I items = do {
     its \<leftarrow> array_collect (2 * TREE_BASE) items;
     ss \<leftarrow> array_collect (2 * TREE_BASE) (map (item_summary I) its);
     (case ss of [] \<Rightarrow> None | s # rest \<Rightarrow> Some (Leaf (add_all I s rest) its ss))
   }"

fun traverse :: "('a \<Rightarrow> 'b option) \<Rightarrow> 'a list \<Rightarrow> 'b list option" where
  "traverse f [] = Some []"
| "traverse f (x # xs) = do { y \<leftarrow> f x; ys \<leftarrow> traverse f xs; Some (y # ys) }"

text \<open>
  One pass of the \<open>for child_node in nodes.drain(..)\<close> loop: the parent being filled, if any,
  and the parents completed so far.
\<close>

definition add_child :: "('t, 's) summary_ops \<Rightarrow> nat \<Rightarrow> ('t, 's) node option \<Rightarrow> ('t, 's) node \<Rightarrow>
    ('t, 's) node option" where
  "add_child I height parent child =
     (case (case parent of None \<Rightarrow> Internal height (summary_zero I) [] [] | Some p \<Rightarrow> p) of
        Leaf _ _ _ \<Rightarrow> None
      | Internal h summary ss ts \<Rightarrow> do {
          ss' \<leftarrow> array_push (2 * TREE_BASE) ss (node_summary child);
          ts' \<leftarrow> array_push (2 * TREE_BASE) ts child;
          Some (Internal h (summary_add I summary (node_summary child)) ss' ts')
        })"

fun group_children :: "('t, 's) summary_ops \<Rightarrow> nat \<Rightarrow> ('t, 's) node option \<Rightarrow> ('t, 's) node list \<Rightarrow>
    ('t, 's) node list option" where
  "group_children I height current [] =
     Some (case current of None \<Rightarrow> [] | Some p \<Rightarrow> [p])"
| "group_children I height current (child # rest) = do {
     p \<leftarrow> add_child I height current child;
     if width p = 2 * TREE_BASE
     then do { ps \<leftarrow> group_children I height None rest; Some (p # ps) }
     else group_children I height (Some p) rest
   }"

text \<open>The \<open>while nodes.len() > 1\<close> loop; it need not end, so it is partial here.\<close>

partial_function (option) build_levels :: "('t, 's) summary_ops \<Rightarrow> nat \<Rightarrow> ('t, 's) node list \<Rightarrow>
    ('t, 's) node list option" where
  "build_levels I height nodes =
     (if length nodes > 1 then do {
        parents \<leftarrow> group_children I (height + 1) None nodes;
        build_levels I (height + 1) parents
      }
      else Some nodes)"

declare build_levels.simps [code]

definition tree_from_iter :: "('t, 's) summary_ops \<Rightarrow> 't list \<Rightarrow> ('t, 's) node option" where
  "tree_from_iter I iter = do {
     leaves \<leftarrow> traverse (leaf_of_chunk I) (chunks (2 * TREE_BASE) iter);
     nodes \<leftarrow> build_levels I 0 leaves;
     Some (if nodes = [] then tree_new I else last nodes)
   }"

text \<open>The parallel variant builds each parent from a chunk of nodes.\<close>

definition parent_of_chunk :: "('t, 's) summary_ops \<Rightarrow> nat \<Rightarrow> ('t, 's) node list \<Rightarrow> ('t, 's) node option" where
  "parent_of_chunk I height nodes = do {
     ts \<leftarrow> array_collect (2 * TREE_BASE) nodes;
     ss \<leftarrow> array_collect (2 * TREE_BASE) (map node_summary ts);
     (case ss of [] \<Rightarrow> None | s # rest \<Rightarrow> Some (Internal height (add_all I s rest) ss ts))
   }"

partial_function (option) build_par_levels :: "('t, 's) summary_ops \<Rightarrow> nat \<Rightarrow> ('t, 's) node list \<Rightarrow>
    ('t, 's) node list option" where
  "build_par_levels I height nodes =
     (if length nodes > 1 then do {
        parents \<leftarrow> traverse (parent_of_chunk I (height + 1)) (chunks (2 * TREE_BASE) nodes);
        build_par_levels I (height + 1) parents
      }
      else Some nodes)"

declare build_par_levels.simps [code]

definition tree_from_par_iter :: "('t, 's) summary_ops \<Rightarrow> 't list \<Rightarrow> ('t, 's) node option" where
  "tree_from_par_iter I iter = do {
     leaves \<leftarrow> traverse (leaf_of_chunk I) (chunks (2 * TREE_BASE) iter);
     nodes \<leftarrow> build_par_levels I 0 leaves;
     Some (if nodes = [] then tree_new I else last nodes)
   }"

definition tree_extend :: "('t, 's) summary_ops \<Rightarrow> ('t, 's) node \<Rightarrow> 't list \<Rightarrow> ('t, 's) node option" where
  "tree_extend I self iter = do { t \<leftarrow> tree_from_iter I iter; tree_append I self t }"

definition tree_par_extend :: "('t, 's) summary_ops \<Rightarrow> ('t, 's) node \<Rightarrow> 't list \<Rightarrow> ('t, 's) node option" where
  "tree_par_extend I self iter = do { t \<leftarrow> tree_from_par_iter I iter; tree_append I self t }"

section \<open>The two ends\<close>

text \<open>\<open>unwrap\<close> on the first or last child of an internal node is \<open>None\<close> when it has none.\<close>

function leftmost_leaf :: "('t, 's) node \<Rightarrow> ('t, 's) node option" where
  "leftmost_leaf (Leaf s its ss) = Some (Leaf s its ss)"
| "leftmost_leaf (Internal h s ss ts) = (if ts = [] then None else leftmost_leaf (hd ts))"
  by pat_completeness auto
termination
  by (relation "measure size") (auto simp: size_hd_child)

function rightmost_leaf :: "('t, 's) node \<Rightarrow> ('t, 's) node option" where
  "rightmost_leaf (Leaf s its ss) = Some (Leaf s its ss)"
| "rightmost_leaf (Internal h s ss ts) = (if ts = [] then None else rightmost_leaf (last ts))"
  by pat_completeness auto
termination
  by (relation "measure size") (auto simp: size_last_child)

text \<open>The outer option is the panic, the inner one the code's \<open>Option\<close>.\<close>

definition first_opt :: "'a list \<Rightarrow> 'a option" where
  "first_opt xs = (case xs of [] \<Rightarrow> None | x # _ \<Rightarrow> Some x)"

definition last_opt :: "'a list \<Rightarrow> 'a option" where
  "last_opt xs = (if xs = [] then None else Some (last xs))"

definition tree_first :: "('t, 's) node \<Rightarrow> 't option option" where
  "tree_first t = do { l \<leftarrow> leftmost_leaf t; its \<leftarrow> node_items l; Some (first_opt its) }"

definition tree_last :: "('t, 's) node \<Rightarrow> 't option option" where
  "tree_last t = do { l \<leftarrow> rightmost_leaf t; its \<leftarrow> node_items l; Some (last_opt its) }"

definition tree_last_summary :: "('t, 's) node \<Rightarrow> 's option option" where
  "tree_last_summary t = do { l \<leftarrow> rightmost_leaf t; Some (last_opt (child_summaries l)) }"

text \<open>The updated tree and the summary returned to the parent, if any.\<close>

function update_last_recursive :: "('t, 's) summary_ops \<Rightarrow> ('t \<Rightarrow> 't) \<Rightarrow> ('t, 's) node \<Rightarrow>
    (('t, 's) node \<times> 's option) option" where
  "update_last_recursive I f (Leaf s its ss) =
     (if its = [] \<or> ss = [] then Some (Leaf s its ss, None)
      else let item = f (last its); its' = butlast its @ [item];
               ss' = butlast ss @ [item_summary I item]; s' = sum_summaries I ss'
           in Some (Leaf s' its' ss', Some s'))"
| "update_last_recursive I f (Internal h s ss ts) =
     (if ss = [] \<or> ts = [] then None
      else do {
        (child, r) \<leftarrow> update_last_recursive I f (last ts);
        child_summary \<leftarrow> r;
        let ss' = butlast ss @ [child_summary];
        let s' = sum_summaries I ss';
        Some (Internal h s' ss' (butlast ts @ [child]), Some s')
      })"
  by pat_completeness auto
termination
  by (relation "measure (\<lambda>(I, f, t). size t)") (auto simp: size_last_child)

function update_first_recursive :: "('t, 's) summary_ops \<Rightarrow> ('t \<Rightarrow> 't) \<Rightarrow> ('t, 's) node \<Rightarrow>
    (('t, 's) node \<times> 's option) option" where
  "update_first_recursive I f (Leaf s its ss) =
     (if its = [] \<or> ss = [] then Some (Leaf s its ss, None)
      else let item = f (hd its); its' = item # tl its;
               ss' = item_summary I item # tl ss; s' = sum_summaries I ss'
           in Some (Leaf s' its' ss', Some s'))"
| "update_first_recursive I f (Internal h s ss ts) =
     (if ss = [] \<or> ts = [] then None
      else do {
        (child, r) \<leftarrow> update_first_recursive I f (hd ts);
        child_summary \<leftarrow> r;
        let ss' = child_summary # tl ss;
        let s' = sum_summaries I ss';
        Some (Internal h s' ss' (child # tl ts), Some s')
      })"
  by pat_completeness auto
termination
  by (relation "measure (\<lambda>(I, f, t). size t)") (auto simp: size_hd_child)

definition tree_update_last :: "('t, 's) summary_ops \<Rightarrow> ('t \<Rightarrow> 't) \<Rightarrow> ('t, 's) node \<Rightarrow> ('t, 's) node option" where
  "tree_update_last I f t = map_option fst (update_last_recursive I f t)"

definition tree_update_first :: "('t, 's) summary_ops \<Rightarrow> ('t \<Rightarrow> 't) \<Rightarrow> ('t, 's) node \<Rightarrow> ('t, 's) node option" where
  "tree_update_first I f t = map_option fst (update_first_recursive I f t)"

section \<open>The two ends are the ends of the list of items\<close>

lemma leftmost_leaf_ok:
  "wf_node I k h t \<Longrightarrow> \<exists>l rest. leftmost_leaf t = Some l \<and> wf_node I k 0 l \<and> flat t = flat l @ rest"
proof (induction h arbitrary: t)
  case 0
  then show ?case by (cases rule: wf_node_cases) (auto simp: mk_leaf_def wf_node_Leaf)
next
  case (Suc h)
  from Suc.prems obtain c ts where t: "t = mk_internal I (Suc h) (c # ts)" "wf_node I k h c"
    by (cases rule: wf_node_cases) (auto simp: neq_Nil_conv)
  with Suc.IH [OF t(2)] show ?case by (auto simp: mk_internal_def)
qed

lemma rightmost_leaf_ok:
  "wf_node I k h t \<Longrightarrow> \<exists>l rest. rightmost_leaf t = Some l \<and> wf_node I k 0 l \<and> flat t = rest @ flat l"
proof (induction h arbitrary: t)
  case 0
  then show ?case by (cases rule: wf_node_cases) (auto simp: mk_leaf_def wf_node_Leaf)
next
  case (Suc h)
  from Suc.prems obtain ts where t: "t = mk_internal I (Suc h) ts" "ts \<noteq> []" "kids I k h ts"
    by (cases rule: wf_node_cases) auto
  then obtain us c where u: "ts = us @ [c]" using butlast_snoc_last by blast
  with t have "wf_node I k h c" by simp
  with Suc.IH [OF this] t u show ?case by (auto simp: mk_internal_def)
qed

lemma tree_first_ok: "wf_tree I k t \<Longrightarrow> tree_first t = Some (first_opt (flat t))"
  using leftmost_leaf_ok [of I k "node_height t" t]
  by (auto simp: wf_tree_def tree_first_def tree_new_def first_opt_def split: list.split
      elim!: wf_node_cases)

lemma tree_last_ok: "wf_tree I k t \<Longrightarrow> tree_last t = Some (last_opt (flat t))"
  using rightmost_leaf_ok [of I k "node_height t" t]
  by (auto simp: wf_tree_def tree_last_def tree_new_def last_opt_def elim!: wf_node_cases)

lemma tree_last_summary_ok:
  "wf_tree I k t \<Longrightarrow> tree_last_summary t = Some (map_option (item_summary I) (last_opt (flat t)))"
  using rightmost_leaf_ok [of I k "node_height t" t]
  by (auto simp: wf_tree_def tree_last_summary_def tree_new_def last_opt_def last_map elim!: wf_node_cases)

section \<open>Chunks\<close>

lemma chunks_Nil [simp]: "chunks n [] = []"
  by (simp add: chunks.simps)

lemma chunks_short: "xs \<noteq> [] \<Longrightarrow> length xs \<le> n \<Longrightarrow> chunks n xs = [xs]"
  by (subst chunks.simps, cases xs) auto

lemma chunks_full: "length xs = n \<Longrightarrow> 0 < n \<Longrightarrow> chunks n (xs @ ys) = xs # chunks n ys"
  by (subst chunks.simps) auto

lemma concat_chunks: "0 < n \<Longrightarrow> concat (chunks n xs) = xs"
proof (induction n xs rule: chunks.induct)
  case (1 n xs)
  then show ?case by (subst chunks.simps) auto
qed

lemma chunks_bounds: "c \<in> set (chunks n xs) \<Longrightarrow> c \<noteq> [] \<and> length c \<le> n \<and> set c \<subseteq> set xs"
proof (induction n xs rule: chunks.induct)
  case (1 n xs)
  then show ?case
    by (subst (asm) (2) chunks.simps) (auto split: if_splits dest: in_set_takeD in_set_dropD)
qed

lemma length_chunks: "0 < n \<Longrightarrow> n * length (chunks n xs) < length xs + n"
proof (induction n xs rule: chunks.induct)
  case (1 n xs)
  then show ?case
    by (subst chunks.simps) (cases "length xs \<le> n"; auto simp: algebra_simps)
qed

lemma length_chunks_less: "1 < length xs \<Longrightarrow> 2 \<le> n \<Longrightarrow> length (chunks n xs) < length xs"
proof -
  assume len: "1 < length xs" and n: "2 \<le> n"
  have "n * length (chunks n xs) < length xs + n" using length_chunks [of n xs] n by simp
  also have "\<dots> \<le> n * length xs"
  proof -
    have "length xs + n \<le> n * (length xs - 1) + n"
      using len n mult_le_mono1 [of 2 n "length xs - 1"] by linarith
    then show ?thesis using len by (simp add: algebra_simps)
  qed
  finally show ?thesis by simp
qed

lemma traverse_map: "(\<And>x. x \<in> set xs \<Longrightarrow> f x = Some (g x)) \<Longrightarrow> traverse f xs = Some (map g xs)"
  by (induction xs) auto

section \<open>Bulk construction yields the given items\<close>

context summary_laws
begin

lemma leaf_of_chunk_ok:
  "c \<noteq> [] \<Longrightarrow> length c \<le> 2 * TREE_BASE \<Longrightarrow> leaf_of_chunk I c = Some (mk_leaf I c)"
  by (cases c) (simp_all add: leaf_of_chunk_def array_collect_Some mk_leaf_def sum_Cons)

lemma parent_of_chunk_ok:
  "c \<noteq> [] \<Longrightarrow> length c \<le> 2 * TREE_BASE \<Longrightarrow> parent_of_chunk I h c = Some (mk_internal I h c)"
  by (cases c) (simp_all add: parent_of_chunk_def array_collect_Some mk_internal_def sum_Cons)

lemma leaves_ok:
  "traverse (leaf_of_chunk I) (chunks (2 * TREE_BASE) xs) = Some (map (mk_leaf I) (chunks (2 * TREE_BASE) xs))"
  by (rule traverse_map) (auto dest: chunks_bounds simp: leaf_of_chunk_ok)

lemma parents_ok:
  "traverse (parent_of_chunk I h) (chunks (2 * TREE_BASE) ts) =
     Some (map (mk_internal I h) (chunks (2 * TREE_BASE) ts))"
  by (rule traverse_map) (auto dest: chunks_bounds simp: parent_of_chunk_ok)

lemma add_child_ok:
  "length us < 2 * TREE_BASE \<Longrightarrow>
   add_child I h (if us = [] then None else Some (mk_internal I h us)) c = Some (mk_internal I h (us @ [c]))"
  by (simp add: add_child_def mk_internal_def array_push_Some sum_append add_zero_left TREE_BASE_def)

text \<open>Filling parents one child at a time is grouping the children into full chunks.\<close>

lemma group_children_chunks:
  "length us < 2 * TREE_BASE \<Longrightarrow>
   group_children I h (if us = [] then None else Some (mk_internal I h us)) ts =
     Some (map (mk_internal I h) (chunks (2 * TREE_BASE) (us @ ts)))"
proof (induction ts arbitrary: us)
  case Nil
  then show ?case by (simp add: chunks_short)
next
  case (Cons c ts)
  note add = add_child_ok [OF Cons.prems, of h c]
  show ?case
  proof (cases "length (us @ [c]) = 2 * TREE_BASE")
    case True
    then have "chunks (2 * TREE_BASE) ((us @ [c]) @ ts) = (us @ [c]) # chunks (2 * TREE_BASE) ts"
      by (rule chunks_full) (simp add: TREE_BASE_def)
    then show ?thesis
      using True add Cons.IH [of "[]"] by (simp add: TREE_BASE_def)
  next
    case False
    then show ?thesis using add Cons.IH [of "us @ [c]"] Cons.prems by simp
  qed
qed

lemma group_children_ok:
  "group_children I h None ts = Some (map (mk_internal I h) (chunks (2 * TREE_BASE) ts))"
  using group_children_chunks [of "[]" h ts] by (simp add: TREE_BASE_def)

lemma chunks_parents:
  assumes "kids I 1 h ts"
  shows "kids I 1 (Suc h) (map (mk_internal I (Suc h)) (chunks (2 * TREE_BASE) ts))"
    and "concat (map flat (map (mk_internal I (Suc h)) (chunks (2 * TREE_BASE) ts))) = concat (map flat ts)"
proof -
  show "kids I 1 (Suc h) (map (mk_internal I (Suc h)) (chunks (2 * TREE_BASE) ts))"
    using assms by (fastforce simp: kids_def Suc_le_eq dest: chunks_bounds)
  have "concat (map (\<lambda>us. concat (map flat us)) (chunks (2 * TREE_BASE) ts)) =
      concat (map flat (concat (chunks (2 * TREE_BASE) ts)))"
    by (rule concat_map_nested)
  then show "concat (map flat (map (mk_internal I (Suc h)) (chunks (2 * TREE_BASE) ts))) = concat (map flat ts)"
    by (simp add: concat_chunks TREE_BASE_def comp_def)
qed

lemma build_levels_ok:
  "kids I 1 h ts \<Longrightarrow> \<exists>ns h'. build_levels I h ts = Some ns \<and> build_par_levels I h ts = Some ns \<and>
     length ns \<le> 1 \<and> kids I 1 h' ns \<and> concat (map flat ns) = concat (map flat ts)"
proof (induction "length ts" arbitrary: h ts rule: less_induct)
  case less
  show ?case
  proof (cases "length ts > 1")
    case False
    then show ?thesis
      using less.prems by (auto simp: build_levels.simps [of I h ts] build_par_levels.simps [of I h ts])
  next
    case True
    let ?ps = "map (mk_internal I (Suc h)) (chunks (2 * TREE_BASE) ts)"
    have "length ?ps < length ts"
      using length_chunks_less [OF True, of "2 * TREE_BASE"] by (simp add: TREE_BASE_def)
    from less.hyps [OF this chunks_parents(1) [OF less.prems]] True chunks_parents(2) [OF less.prems]
    show ?thesis
      by (simp add: build_levels.simps [of I h ts] build_par_levels.simps [of I h ts]
          group_children_ok parents_ok)
  qed
qed

lemma leaf_chunks_kids: "kids I 1 0 (map (mk_leaf I) (chunks (2 * TREE_BASE) xs))"
  by (auto simp: kids_def Suc_le_eq dest: chunks_bounds)

lemma tree_from_iter_ok:
  "\<exists>t. tree_from_iter I xs = Some t \<and> tree_from_par_iter I xs = Some t \<and> wf_tree I 1 t \<and> flat t = xs"
proof -
  from build_levels_ok [OF leaf_chunks_kids [of xs]] obtain ns h' where
    ns: "build_levels I 0 (map (mk_leaf I) (chunks (2 * TREE_BASE) xs)) = Some ns"
      "build_par_levels I 0 (map (mk_leaf I) (chunks (2 * TREE_BASE) xs)) = Some ns"
      "length ns \<le> 1" "kids I 1 h' ns" "concat (map flat ns) = xs"
    using concat_chunks [of "2 * TREE_BASE" xs] by (auto simp: comp_def TREE_BASE_def)
  then show ?thesis
    by (cases ns) (auto simp: tree_from_iter_def tree_from_par_iter_def leaves_ok intro: wf_tree_node)
qed

lemma tree_extend_ok:
  assumes "wf_tree I 1 t"
  shows "\<exists>t'. tree_extend I t xs = Some t' \<and> tree_par_extend I t xs = Some t' \<and> wf_tree I 1 t' \<and>
    flat t' = flat t @ xs"
proof -
  from tree_from_iter_ok obtain u where u: "tree_from_iter I xs = Some u" "tree_from_par_iter I xs = Some u"
    "wf_tree I 1 u" "flat u = xs" by blast
  from tree_append_ok [OF assms u(3)] u show ?thesis
    by (simp add: tree_extend_def tree_par_extend_def TREE_BASE_def)
qed

section \<open>Updating an end\<close>

lemma update_last_recursive_ok:
  "wf_node I k h t \<Longrightarrow> \<exists>t'. update_last_recursive I f t = Some (t', Some (node_summary t')) \<and>
     wf_node I k h t' \<and> width t' = width t \<and> flat t' = butlast (flat t) @ [f (last (flat t))]"
proof (induction h arbitrary: t)
  case 0
  then obtain its where "t = mk_leaf I its" "its \<noteq> []" "length its \<le> 2 * TREE_BASE"
    by (cases rule: wf_node_cases) auto
  then show ?case by (auto simp: mk_leaf_def map_butlast Let_def)
next
  case (Suc h)
  from Suc.prems obtain ts where t: "t = mk_internal I (Suc h) ts" "ts \<noteq> []"
      "length ts \<le> 2 * TREE_BASE" "kids I k h ts"
    by (cases rule: wf_node_cases) auto
  then obtain us c where u: "ts = us @ [c]" using butlast_snoc_last by blast
  with t(4) have "wf_node I k h c" by simp
  moreover have "flat c \<noteq> []" using \<open>wf_node I k h c\<close> by (rule wf_node_flat_nonempty)
  moreover note Suc.IH [OF \<open>wf_node I k h c\<close>]
  ultimately show ?case
    using t u by (fastforce simp: mk_internal_def Let_def butlast_append wf_node_kids)
qed

lemma update_first_recursive_ok:
  "wf_node I k h t \<Longrightarrow> \<exists>t'. update_first_recursive I f t = Some (t', Some (node_summary t')) \<and>
     wf_node I k h t' \<and> width t' = width t \<and> flat t' = f (hd (flat t)) # tl (flat t)"
proof (induction h arbitrary: t)
  case 0
  then obtain its where "t = mk_leaf I its" "its \<noteq> []" "length its \<le> 2 * TREE_BASE"
    by (cases rule: wf_node_cases) auto
  then show ?case by (cases its) (auto simp: mk_leaf_def Let_def wf_node_Leaf)
next
  case (Suc h)
  from Suc.prems obtain c us where t: "t = mk_internal I (Suc h) (c # us)"
      "length (c # us) \<le> 2 * TREE_BASE" "kids I k h (c # us)"
    by (cases rule: wf_node_cases) (auto simp: neq_Nil_conv)
  then have "wf_node I k h c" by simp
  moreover have "flat c \<noteq> []" using \<open>wf_node I k h c\<close> by (rule wf_node_flat_nonempty)
  moreover note Suc.IH [OF \<open>wf_node I k h c\<close>]
  ultimately show ?case
    using t by (fastforce simp: mk_internal_def Let_def wf_node_kids)
qed

end

end
