(* ===== verification/Sum_Tree_Find.thy ===== *)
theory Sum_Tree_Find
  imports Sum_Tree_Build
begin

text \<open>
  Searching a sum tree along a dimension (\<open>find\<close>, \<open>find_exact\<close>, \<open>find_with_prev\<close>, \<open>extent\<close>
  of \<open>crates/sum_tree/src/sum_tree.rs\<close>), with the traits \<open>Dimension\<close> and \<open>SeekTarget\<close> and the
  enum \<open>Bias\<close>. A tree search agrees with a linear search over the items wherever the target
  compares monotonically along them.
\<close>

section \<open>Dimensions, targets and bias\<close>

record ('s, 'd) dim_ops =
  dim_zero :: 'd
  dim_add :: "'d \<Rightarrow> 's \<Rightarrow> 'd"

datatype bias = LeftBias | RightBias

fun bias_invert :: "bias \<Rightarrow> bias" where
  "bias_invert LeftBias = RightBias"
| "bias_invert RightBias = LeftBias"

text \<open>A seek target is its comparison with a cursor location.\<close>

type_synonym 'd target = "'d \<Rightarrow> ordering"

definition ord_target :: "'d::linorder \<Rightarrow> 'd target" where
  "ord_target x = (\<lambda>location. ord_cmp x location)"

text \<open>The test made at the end of a child: is the target in it?\<close>

definition target_in :: "bias \<Rightarrow> ordering \<Rightarrow> bool" where
  "target_in bias comparison \<longleftrightarrow> comparison = Less \<or> (comparison = Equal \<and> bias = LeftBias)"

definition target_past :: "bias \<Rightarrow> ordering \<Rightarrow> bool" where
  "target_past bias comparison \<longleftrightarrow> comparison = Greater \<or> (comparison = Equal \<and> bias = RightBias)"

lemma target_past_iff [simp]: "target_past bias c \<longleftrightarrow> \<not> target_in bias c"
  by (cases c; cases bias) (auto simp: target_in_def target_past_def)

section \<open>Searching\<close>

text \<open>The \<open>for\<close> loop over the children: the child entered, if any, and the position.\<close>

fun enter_child :: "('s, 'd) dim_ops \<Rightarrow> 'd target \<Rightarrow> bias \<Rightarrow> 'd \<Rightarrow> ('c \<times> 's) list \<Rightarrow> 'c option \<times> 'd" where
  "enter_child D target bias position [] = (None, position)"
| "enter_child D target bias position ((child, summary) # rest) =
     (let child_end = dim_add D position summary in
      if target_in bias (target child_end) then (Some child, position)
      else enter_child D target bias child_end rest)"

text \<open>The loop over the items of a leaf; \<open>found\<close> is the test on the comparison.\<close>

fun scan_leaf :: "('s, 'd) dim_ops \<Rightarrow> 'd target \<Rightarrow> (ordering \<Rightarrow> bool) \<Rightarrow> 'd \<Rightarrow> ('t \<times> 's) list \<Rightarrow>
    ('t \<times> 'd) option \<times> 'd" where
  "scan_leaf D target found position [] = (None, position)"
| "scan_leaf D target found position ((item, summary) # rest) =
     (let child_end = dim_add D position summary in
      if found (target child_end) then (Some (item, child_end), position)
      else scan_leaf D target found child_end rest)"

definition entry_found :: "bool \<Rightarrow> bias \<Rightarrow> ordering \<Rightarrow> bool" where
  "entry_found exact bias comparison = (if exact then comparison = Equal else target_in bias comparison)"

lemma enter_child_mem: "enter_child D target bias p cs = (Some c, p') \<Longrightarrow> c \<in> fst ` set cs"
  by (induction D target bias p cs rule: enter_child.induct) (auto simp: Let_def split: if_splits)

lemma size_zip_child: "(c, s) \<in> set (zip ts ss) \<Longrightarrow> size c < Suc (n + size_list size ts)"
  by (auto simp: less_Suc_eq_le trans_le_add2 size_list_estimation' dest!: set_zip_leftD)

function find_iterate :: "('s, 'd) dim_ops \<Rightarrow> 'd target \<Rightarrow> bias \<Rightarrow> bool \<Rightarrow> 'd \<Rightarrow> ('t, 's) node \<Rightarrow>
    ('t \<times> 'd) option \<times> 'd" where
  "find_iterate D target bias exact position (Internal h s ss ts) =
     (case enter_child D target bias position (zip ts ss) of
        (Some child, position') \<Rightarrow> find_iterate D target bias exact position' child
      | (None, position') \<Rightarrow> (None, position'))"
| "find_iterate D target bias exact position (Leaf s its ss) =
     scan_leaf D target (entry_found exact bias) position (zip its ss)"
  by pat_completeness auto
termination
  by (relation "measure (\<lambda>(D, target, bias, exact, p, t). size t)")
    (auto simp: size_zip_child dest!: sym enter_child_mem)

definition tree_end :: "('s, 'd) dim_ops \<Rightarrow> ('t, 's) node \<Rightarrow> 'd" where
  "tree_end D t = dim_add D (dim_zero D) (node_summary t)"

definition tree_search :: "bool \<Rightarrow> ('s, 'd) dim_ops \<Rightarrow> ('t, 's) node \<Rightarrow> 'd target \<Rightarrow> bias \<Rightarrow>
    'd \<times> 'd \<times> 't option" where
  "tree_search exact D t target bias =
     (if target_past bias (target (tree_end D t)) then (tree_end D t, tree_end D t, None)
      else case find_iterate D target bias exact (dim_zero D) t of
        (Some (item, end), pos) \<Rightarrow> (pos, end, Some item)
      | (None, pos) \<Rightarrow> (pos, pos, None))"

definition tree_find_exact :: "('s, 'd) dim_ops \<Rightarrow> ('t, 's) node \<Rightarrow> 'd target \<Rightarrow> bias \<Rightarrow>
    'd \<times> 'd \<times> 't option" where
  "tree_find_exact = tree_search True"

definition tree_find :: "('s, 'd) dim_ops \<Rightarrow> ('t, 's) node \<Rightarrow> 'd target \<Rightarrow> bias \<Rightarrow>
    'd \<times> 'd \<times> 't option" where
  "tree_find = tree_search False"

definition tree_extent :: "('s, 'd) dim_ops \<Rightarrow> ('t, 's) node \<Rightarrow> 'd" where
  "tree_extent D t = dim_add D (dim_zero D) (node_summary t)"

text \<open>The variant that also returns the item before the one found.\<close>

fun enter_child_prev :: "('s, 'd) dim_ops \<Rightarrow> 'd target \<Rightarrow> bias \<Rightarrow> 't option \<Rightarrow> 'd \<Rightarrow>
    (('t, 's) node \<times> 's) list \<Rightarrow> (('t, 's) node option \<times> 't option \<times> 'd) option" where
  "enter_child_prev D target bias prev position [] = Some (None, prev, position)"
| "enter_child_prev D target bias prev position ((child, summary) # rest) =
     (let child_end = dim_add D position summary in
      if target_in bias (target child_end) then Some (Some child, prev, position)
      else do { prev' \<leftarrow> tree_last child; enter_child_prev D target bias prev' child_end rest })"

fun scan_leaf_prev :: "('s, 'd) dim_ops \<Rightarrow> 'd target \<Rightarrow> bias \<Rightarrow> 't option \<Rightarrow> 'd \<Rightarrow> ('t \<times> 's) list \<Rightarrow>
    ('t option \<times> 't \<times> 'd) option \<times> 'd" where
  "scan_leaf_prev D target bias prev position [] = (None, position)"
| "scan_leaf_prev D target bias prev position ((item, summary) # rest) =
     (let child_end = dim_add D position summary in
      if target_in bias (target child_end) then (Some (prev, item, child_end), position)
      else scan_leaf_prev D target bias (Some item) child_end rest)"

lemma enter_child_prev_mem:
  "enter_child_prev D target bias prev p cs = Some (Some c, prev', p') \<Longrightarrow> c \<in> fst ` set cs"
  by (induction D target bias prev p cs rule: enter_child_prev.induct)
    (auto simp: Let_def split: if_splits bind_splits)

function find_with_prev_iterate :: "('s, 'd) dim_ops \<Rightarrow> 'd target \<Rightarrow> bias \<Rightarrow> 't option \<Rightarrow> 'd \<Rightarrow>
    ('t, 's) node \<Rightarrow> (('t option \<times> 't \<times> 'd) option \<times> 'd) option" where
  "find_with_prev_iterate D target bias prev position (Internal h s ss ts) =
     (case enter_child_prev D target bias prev position (zip ts ss) of
        None \<Rightarrow> None
      | Some (Some child, prev', position') \<Rightarrow> find_with_prev_iterate D target bias prev' position' child
      | Some (None, prev', position') \<Rightarrow> Some (None, position'))"
| "find_with_prev_iterate D target bias prev position (Leaf s its ss) =
     Some (scan_leaf_prev D target bias prev position (zip its ss))"
  by pat_completeness auto
termination
  by (relation "measure (\<lambda>(D, target, bias, prev, p, t). size t)")
    (auto simp: size_zip_child dest!: sym [of "Some _"] enter_child_prev_mem)

definition tree_find_with_prev :: "('s, 'd) dim_ops \<Rightarrow> ('t, 's) node \<Rightarrow> 'd target \<Rightarrow> bias \<Rightarrow>
    ('d \<times> 'd \<times> ('t option \<times> 't) option) option" where
  "tree_find_with_prev D t target bias =
     (if target_past bias (target (tree_end D t)) then Some (tree_end D t, tree_end D t, None)
      else do {
        (found, pos) \<leftarrow> find_with_prev_iterate D target bias None (dim_zero D) t;
        Some (case found of
            Some (prev, item, end) \<Rightarrow> (pos, end, Some (prev, item))
          | None \<Rightarrow> (pos, pos, None))
      })"

section \<open>Positions along the items\<close>

text \<open>The position after each item, from a starting position.\<close>

fun advance :: "('t, 's) summary_ops \<Rightarrow> ('s, 'd) dim_ops \<Rightarrow> 'd \<Rightarrow> 't list \<Rightarrow> 'd" where
  "advance I D p [] = p"
| "advance I D p (x # xs) = advance I D (dim_add D p (item_summary I x)) xs"

fun item_ends :: "('t, 's) summary_ops \<Rightarrow> ('s, 'd) dim_ops \<Rightarrow> 'd \<Rightarrow> 't list \<Rightarrow> 'd list" where
  "item_ends I D p [] = []"
| "item_ends I D p (x # xs) =
     (let e = dim_add D p (item_summary I x) in e # item_ends I D e xs)"

lemma advance_append [simp]: "advance I D p (xs @ ys) = advance I D (advance I D p xs) ys"
  by (induction xs arbitrary: p) auto

lemma item_ends_append [simp]:
  "item_ends I D p (xs @ ys) = item_ends I D p xs @ item_ends I D (advance I D p xs) ys"
  by (induction xs arbitrary: p) (auto simp: Let_def)

lemma item_ends_last: "xs \<noteq> [] \<Longrightarrow> last (item_ends I D p xs) = advance I D p xs \<and> item_ends I D p xs \<noteq> []"
proof (induction xs arbitrary: p)
  case (Cons x xs)
  then show ?case by (cases "xs = []") (simp_all add: Let_def)
qed simp

lemma advance_in_ends: "xs \<noteq> [] \<Longrightarrow> advance I D p xs \<in> set (item_ends I D p xs)"
  by (metis item_ends_last last_in_set)

text \<open>
  A target is monotone along a list of positions when the comparisons read
  \<open>Greater \<dots> Equal \<dots> Less\<close>.
\<close>

fun cmp_rank :: "ordering \<Rightarrow> nat" where
  "cmp_rank Greater = 0"
| "cmp_rank Equal = 1"
| "cmp_rank Less = 2"

definition monotone_target :: "'d target \<Rightarrow> 'd list \<Rightarrow> bool" where
  "monotone_target target ps \<longleftrightarrow> sorted (map (\<lambda>p. cmp_rank (target p)) ps)"

lemma monotone_target_append:
  "monotone_target target (ps @ qs) \<longleftrightarrow> monotone_target target ps \<and> monotone_target target qs \<and>
     (\<forall>p\<in>set ps. \<forall>q\<in>set qs. cmp_rank (target p) \<le> cmp_rank (target q))"
  by (auto simp: monotone_target_def sorted_append)

lemma target_in_mono: "target_in bias c \<Longrightarrow> cmp_rank c \<le> cmp_rank c' \<Longrightarrow> target_in bias c'"
  by (cases c; cases c'; cases bias) (auto simp: target_in_def)

lemma not_in_before_last:
  assumes "monotone_target target (item_ends I D p xs)" and "\<not> target_in bias (target (advance I D p xs))"
    and "e \<in> set (item_ends I D p xs)"
  shows "\<not> target_in bias (target e)"
proof -
  from assms(3) have ne: "xs \<noteq> []" by auto
  then obtain ps where ps: "item_ends I D p xs = ps @ [advance I D p xs]"
    using item_ends_last [OF ne] by (metis append_butlast_last_id)
  show ?thesis
    using assms unfolding ps by (auto simp: monotone_target_append dest: target_in_mono)
qed

text \<open>The reference: a linear search over the items.\<close>

definition find_list :: "('t, 's) summary_ops \<Rightarrow> ('s, 'd) dim_ops \<Rightarrow> 'd target \<Rightarrow> (ordering \<Rightarrow> bool) \<Rightarrow>
    'd \<Rightarrow> 't list \<Rightarrow> ('t \<times> 'd) option \<times> 'd" where
  "find_list I D target found p xs = scan_leaf D target found p (zip xs (map (item_summary I) xs))"

lemma find_list_simps [simp]:
  "find_list I D target found p [] = (None, p)"
  "find_list I D target found p (x # xs) =
     (let e = dim_add D p (item_summary I x) in
      if found (target e) then (Some (x, e), p) else find_list I D target found e xs)"
  by (simp_all add: find_list_def Let_def)

lemma find_list_skip:
  "\<forall>e\<in>set (item_ends I D p xs). \<not> found (target e) \<Longrightarrow>
   find_list I D target found p (xs @ ys) = find_list I D target found (advance I D p xs) ys"
  by (induction xs arbitrary: p) (auto simp: Let_def)

lemma find_list_stop:
  "\<exists>e\<in>set (item_ends I D p xs). found (target e) \<Longrightarrow>
   find_list I D target found p (xs @ ys) = find_list I D target found p xs"
  by (induction xs arbitrary: p) (auto simp: Let_def)

text \<open>The linear search that also returns the item before the one found.\<close>

definition last_item :: "'t option \<Rightarrow> 't list \<Rightarrow> 't option" where
  "last_item prev xs = (if xs = [] then prev else Some (last xs))"

definition find_list_prev :: "('t, 's) summary_ops \<Rightarrow> ('s, 'd) dim_ops \<Rightarrow> 'd target \<Rightarrow> bias \<Rightarrow> 't option \<Rightarrow> 'd \<Rightarrow>
    't list \<Rightarrow> ('t option \<times> 't \<times> 'd) option \<times> 'd" where
  "find_list_prev I D target bias prev p xs = scan_leaf_prev D target bias prev p (zip xs (map (item_summary I) xs))"

section \<open>The laws of a dimension\<close>

locale dimension = summary_laws I for I :: "('t, 's) summary_ops" +
  fixes D :: "('s, 'd) dim_ops"
  assumes dim_add_add: "dim_add D (dim_add D p a) b = dim_add D p (summary_add I a b)"
    and dim_zero_zero: "dim_add D (dim_zero D) (summary_zero I) = dim_zero D"
begin

lemma dim_add_sum:
  "xs \<noteq> [] \<Longrightarrow> dim_add D p (sum_summaries I (map (item_summary I) xs)) = advance I D p xs"
proof (induction xs arbitrary: p)
  case Nil
  then show ?case by simp
next
  case (Cons x xs)
  then show ?case
    by (cases "xs = []") (simp_all add: sum_Cons add_all_eq dim_add_add [symmetric])
qed

lemma dim_add_node: "wf_node I k h t \<Longrightarrow> dim_add D p (node_summary t) = advance I D p (flat t)"
  by (simp add: node_summary_flat dim_add_sum wf_node_flat_nonempty)

lemma tree_end_ok: "wf_tree I k t \<Longrightarrow> tree_end D t = advance I D (dim_zero D) (flat t)"
  by (auto simp: wf_tree_def tree_end_def dim_add_node) (simp add: tree_new_def dim_zero_zero)

lemma tree_extent_ok: "wf_tree I k t \<Longrightarrow> tree_extent D t = advance I D (dim_zero D) (flat t)"
  using tree_end_ok by (simp add: tree_extent_def tree_end_def)

text \<open>The child the loop enters, in terms of the items below the children.\<close>

lemma enter_child_ok:
  assumes "kids I k h ts" and "monotone_target target (item_ends I D p (concat (map flat ts)))"
  shows "case enter_child D target bias p (zip ts (map node_summary ts)) of
     (None, q) \<Rightarrow> q = advance I D p (concat (map flat ts)) \<and>
       (\<forall>e\<in>set (item_ends I D p (concat (map flat ts))). \<not> target_in bias (target e))
   | (Some c, q) \<Rightarrow> \<exists>us vs. ts = us @ c # vs \<and> q = advance I D p (concat (map flat us)) \<and>
       (\<forall>e\<in>set (item_ends I D p (concat (map flat us))). \<not> target_in bias (target e)) \<and>
       target_in bias (target (advance I D q (flat c)))"
  using assms
proof (induction ts arbitrary: p)
  case Nil
  then show ?case by simp
next
  case (Cons c ts)
  let ?e = "advance I D p (flat c)"
  from Cons.prems have wf: "wf_node I k h c" and mono: "monotone_target target (item_ends I D p (flat c))"
    and IH: "case enter_child D target bias ?e (zip ts (map node_summary ts)) of
     (None, q) \<Rightarrow> q = advance I D ?e (concat (map flat ts)) \<and>
       (\<forall>e\<in>set (item_ends I D ?e (concat (map flat ts))). \<not> target_in bias (target e))
   | (Some c, q) \<Rightarrow> \<exists>us vs. ts = us @ c # vs \<and> q = advance I D ?e (concat (map flat us)) \<and>
       (\<forall>e\<in>set (item_ends I D ?e (concat (map flat us))). \<not> target_in bias (target e)) \<and>
       target_in bias (target (advance I D q (flat c)))"
    using Cons.IH [of ?e] by (auto simp: monotone_target_append)
  have e: "dim_add D p (node_summary c) = ?e" using wf by (rule dim_add_node)
  show ?case
  proof (cases "target_in bias (target ?e)")
    case True
    then show ?thesis by (simp add: e) (rule exI [of _ "[]"], simp)
  next
    case False
    note before = not_in_before_last [OF mono False]
    show ?thesis
    proof (cases "enter_child D target bias ?e (zip ts (map node_summary ts))")
      case (Pair found q)
      show ?thesis
      proof (cases found)
        case None
        then show ?thesis using Pair IH before False by (auto simp: e)
      next
        case (Some d)
        with IH Pair obtain us vs where "ts = us @ d # vs" "q = advance I D ?e (concat (map flat us))"
          "\<forall>e\<in>set (item_ends I D ?e (concat (map flat us))). \<not> target_in bias (target e)"
          "target_in bias (target (advance I D q (flat d)))" by auto
        then show ?thesis
          using Pair Some before False
          by (simp add: e) (rule exI [of _ "c # us"], auto)
      qed
    qed
  qed
qed

lemma find_iterate_ok:
  "wf_node I k h t \<Longrightarrow> monotone_target target (item_ends I D p (flat t)) \<Longrightarrow>
   find_iterate D target bias False p t = find_list I D target (target_in bias) p (flat t)"
proof (induction h arbitrary: t p)
  case 0
  then show ?case
    by (cases rule: wf_node_cases) (auto simp: mk_leaf_def find_list_def entry_found_def [abs_def])
next
  case (Suc h)
  from Suc.prems(1) obtain ts where t: "t = mk_internal I (Suc h) ts" "kids I k h ts"
    by (cases rule: wf_node_cases) auto
  let ?r = "enter_child D target bias p (zip ts (map node_summary ts))"
  obtain found q where r: "?r = (found, q)" by fastforce
  note enter = enter_child_ok [OF t(2), of target p bias] Suc.prems(2)
  have step: "find_iterate D target bias False p t =
     (case found of Some c \<Rightarrow> find_iterate D target bias False q c | None \<Rightarrow> (None, q))"
    by (simp add: t(1) mk_internal_def r split: option.split)
  show ?case
  proof (cases found)
    case None
    then show ?thesis
      using enter r step find_list_skip [of I D p "concat (map flat ts)" "target_in bias" target "[]"]
      by (simp add: t(1))
  next
    case (Some c)
    with enter r t(1) obtain us vs where u: "ts = us @ c # vs" "q = advance I D p (concat (map flat us))"
      "\<forall>e\<in>set (item_ends I D p (concat (map flat us))). \<not> target_in bias (target e)"
      "target_in bias (target (advance I D q (flat c)))" by auto
    have c: "wf_node I k h c" "flat c \<noteq> []" using t(2) u(1) wf_node_flat_nonempty by auto
    have "monotone_target target (item_ends I D q (flat c))"
      using Suc.prems(2) u(1,2) t(1) by (simp add: monotone_target_append)
    from Suc.IH [OF c(1) this] have "find_iterate D target bias False p t = find_list I D target (target_in bias) q (flat c)"
      using step Some by simp
    also have "\<dots> = find_list I D target (target_in bias) q (flat c @ concat (map flat vs))"
      by (rule find_list_stop [symmetric], rule bexI [OF _ advance_in_ends [OF c(2)]], rule u(4))
    also have "\<dots> = find_list I D target (target_in bias) p (flat t)"
      using find_list_skip [OF u(3), of "flat c @ concat (map flat vs)"] by (simp add: t(1) u(1,2))
    finally show ?thesis .
  qed
qed

lemma no_equal_after:
  assumes "monotone_target target (item_ends I D p xs)" and "xs \<noteq> []"
    and "monotone_target target (item_ends I D p (xs @ ys))"
    and "target_in LeftBias (target (advance I D p xs))"
    and "\<forall>e\<in>set (item_ends I D p xs). target e \<noteq> Equal"
  shows "\<forall>e\<in>set (item_ends I D (advance I D p xs) ys). target e \<noteq> Equal"
proof
  fix e assume "e \<in> set (item_ends I D (advance I D p xs) ys)"
  then have "cmp_rank (target (advance I D p xs)) \<le> cmp_rank (target e)"
    using assms(2,3) advance_in_ends by (fastforce simp: monotone_target_append)
  moreover have "target (advance I D p xs) = Less"
    using assms(2,4,5) advance_in_ends by (fastforce simp: target_in_def)
  ultimately show "target e \<noteq> Equal" by auto
qed

lemma find_exact_iterate_ok:
  "wf_node I k h t \<Longrightarrow> monotone_target target (item_ends I D p (flat t)) \<Longrightarrow>
   case find_list I D target (\<lambda>c. c = Equal) p (flat t) of
     (Some r, q) \<Rightarrow> find_iterate D target LeftBias True p t = (Some r, q)
   | (None, q) \<Rightarrow> fst (find_iterate D target LeftBias True p t) = None"
proof (induction h arbitrary: t p)
  case 0
  then show ?case
    by (cases rule: wf_node_cases)
      (auto simp: mk_leaf_def find_list_def entry_found_def [abs_def] split: option.split)
next
  case (Suc h)
  from Suc.prems(1) obtain ts where t: "t = mk_internal I (Suc h) ts" "kids I k h ts"
    by (cases rule: wf_node_cases) auto
  let ?r = "enter_child D target LeftBias p (zip ts (map node_summary ts))"
  let ?eq = "\<lambda>c. c = Equal"
  obtain found q where r: "?r = (found, q)" by fastforce
  note enter = enter_child_ok [OF t(2), of target p LeftBias] Suc.prems(2)
  have step: "find_iterate D target LeftBias True p t =
     (case found of Some c \<Rightarrow> find_iterate D target LeftBias True q c | None \<Rightarrow> (None, q))"
    by (simp add: t(1) mk_internal_def r split: option.split)
  have not_eq: "c \<noteq> Equal" if "\<not> target_in LeftBias c" for c
    using that by (auto simp: target_in_def)
  show ?case
  proof (cases found)
    case None
    then have "find_list I D target ?eq p (flat t) = (None, q)"
      using enter r not_eq find_list_skip [of I D p "concat (map flat ts)" ?eq target "[]"]
      by (simp add: t(1))
    then show ?thesis using None step by simp
  next
    case (Some c)
    with enter r t(1) obtain us vs where u: "ts = us @ c # vs" "q = advance I D p (concat (map flat us))"
      "\<forall>e\<in>set (item_ends I D p (concat (map flat us))). \<not> target_in LeftBias (target e)"
      "target_in LeftBias (target (advance I D q (flat c)))" by auto
    let ?vs = "concat (map flat vs)"
    have c: "wf_node I k h c" "flat c \<noteq> []" using t(2) u(1) wf_node_flat_nonempty by auto
    have mono: "monotone_target target (item_ends I D q (flat c @ ?vs))"
      "monotone_target target (item_ends I D q (flat c))"
      using Suc.prems(2) u(1,2) t(1) by (simp_all add: monotone_target_append)
    have start: "find_list I D target ?eq p (flat t) = find_list I D target ?eq q (flat c @ ?vs)"
      using u(3) not_eq find_list_skip [of I D p "concat (map flat us)" ?eq target "flat c @ ?vs"]
      by (simp add: t(1) u(1,2))
    show ?thesis
    proof (cases "\<exists>e\<in>set (item_ends I D q (flat c)). target e = Equal")
      case True
      then have "find_list I D target ?eq q (flat c @ ?vs) = find_list I D target ?eq q (flat c)"
        by (rule find_list_stop)
      then show ?thesis using Suc.IH [OF c(1) mono(2)] step start Some by (auto split: prod.splits option.splits)
    next
      case False
      from no_equal_after [OF mono(2) c(2) mono(1) u(4)] False
      have rest: "find_list I D target ?eq q (flat c @ ?vs) = (None, advance I D q (flat c @ ?vs))"
        using find_list_skip [of I D q "flat c @ ?vs" ?eq target "[]"] by auto
      have "find_list I D target ?eq q (flat c) = (None, advance I D q (flat c))"
        using False find_list_skip [of I D q "flat c" ?eq target "[]"] by auto
      then show ?thesis using Suc.IH [OF c(1) mono(2)] step start rest Some by simp
    qed
  qed
qed

text \<open>The whole search, the early exit past the end included.\<close>

lemma tree_find_ok:
  assumes "wf_tree I k t" and "monotone_target target (item_ends I D (dim_zero D) (flat t))"
  shows "tree_find D t target bias =
    (case find_list I D target (target_in bias) (dim_zero D) (flat t) of
        (Some (x, e), p) \<Rightarrow> (p, e, Some x)
      | (None, p) \<Rightarrow> (p, p, None))"
proof (cases "target_in bias (target (tree_end D t))")
  case False
  then have "\<forall>e\<in>set (item_ends I D (dim_zero D) (flat t)). \<not> target_in bias (target e)"
    using assms not_in_before_last by (metis tree_end_ok)
  then show ?thesis
    using False assms(1) find_list_skip [of I D "dim_zero D" "flat t" "target_in bias" target "[]"]
    by (simp add: tree_find_def tree_search_def tree_end_ok)
next
  case True
  show ?thesis
  proof (cases "t = tree_new I")
    case True
    then show ?thesis by (simp add: tree_find_def tree_search_def tree_end_ok) (simp add: tree_new_def)
  next
    case False
    then show ?thesis
      using True assms find_iterate_ok [of k "node_height t" t target "dim_zero D" bias]
      by (simp add: tree_find_def tree_search_def wf_tree_def)
  qed
qed

lemma find_list_prev_simps [simp]:
  "find_list_prev I D target bias prev p [] = (None, p)"
  "find_list_prev I D target bias prev p (x # xs) =
     (let e = dim_add D p (item_summary I x) in
      if target_in bias (target e) then (Some (prev, x, e), p) else find_list_prev I D target bias (Some x) e xs)"
  by (simp_all add: find_list_prev_def Let_def)

lemma find_list_prev_skip:
  "\<forall>e\<in>set (item_ends I D p xs). \<not> target_in bias (target e) \<Longrightarrow>
   find_list_prev I D target bias prev p (xs @ ys) = find_list_prev I D target bias (last_item prev xs) (advance I D p xs) ys"
  by (induction xs arbitrary: p prev) (auto simp: Let_def last_item_def)

lemma find_list_prev_stop:
  "\<exists>e\<in>set (item_ends I D p xs). target_in bias (target e) \<Longrightarrow>
   find_list_prev I D target bias prev p (xs @ ys) = find_list_prev I D target bias prev p xs"
  by (induction xs arbitrary: p prev) (auto simp: Let_def)

text \<open>It finds what \<open>find\<close> finds.\<close>

lemma find_list_prev_find:
  "find_list I D target (target_in bias) p xs =
     map_prod (map_option (\<lambda>(prev, x, e). (x, e))) id (find_list_prev I D target bias prev p xs)"
  by (induction xs arbitrary: p prev) (auto simp: Let_def)

text \<open>The item before it is the previous item of the tree.\<close>

lemma find_list_prev_item:
  "find_list_prev I D target bias prev p xs = (Some (prev', x, e), q) \<Longrightarrow>
   \<exists>us vs. xs = us @ x # vs \<and> prev' = last_item prev us \<and> q = advance I D p us \<and>
     e = dim_add D q (item_summary I x)"
proof (induction xs arbitrary: p prev)
  case Nil
  then show ?case by simp
next
  case (Cons y xs)
  show ?case
  proof (cases "target_in bias (target (dim_add D p (item_summary I y)))")
    case True
    with Cons.prems show ?thesis
      by (intro exI [of _ "[]"] exI [of _ xs]) (auto simp: Let_def last_item_def)
  next
    case False
    with Cons.prems Cons.IH [of "Some y" "dim_add D p (item_summary I y)"] obtain us vs where
      "xs = us @ x # vs" "prev' = last_item (Some y) us" "q = advance I D (dim_add D p (item_summary I y)) us"
      "e = dim_add D q (item_summary I x)" by (auto simp: Let_def)
    then show ?thesis by (intro exI [of _ "y # us"] exI [of _ vs]) (auto simp: last_item_def)
  qed
qed

lemma enter_child_prev_skip:
  "kids I k h us \<Longrightarrow> \<forall>e\<in>set (item_ends I D p (concat (map flat us))). \<not> target_in bias (target e) \<Longrightarrow>
   enter_child_prev D target bias prev p (zip (us @ vs) (map node_summary (us @ vs))) =
   enter_child_prev D target bias (last_item prev (concat (map flat us))) (advance I D p (concat (map flat us)))
     (zip vs (map node_summary vs))"
proof (induction us arbitrary: p prev)
  case Nil
  then show ?case by (simp add: last_item_def)
next
  case (Cons t us)
  from Cons.prems(1) have t: "wf_node I k h t" "kids I k h us" by simp_all
  from t(1) have ne: "flat t \<noteq> []" by (rule wf_node_flat_nonempty)
  have last: "tree_last t = Some (last_item prev (flat t))"
    using tree_last_ok [OF wf_tree_node [OF t(1)]] ne by (simp add: last_opt_def last_item_def)
  have "\<not> target_in bias (target (advance I D p (flat t)))"
    using Cons.prems(2) advance_in_ends [OF ne, of I D p] by auto
  then show ?case
    using Cons.IH [OF t(2), of "advance I D p (flat t)" "last_item prev (flat t)"] Cons.prems(2) ne last
    by (simp add: dim_add_node [OF t(1)] Let_def last_item_def)
qed

lemma find_with_prev_iterate_ok:
  "wf_node I k h t \<Longrightarrow> monotone_target target (item_ends I D p (flat t)) \<Longrightarrow>
   find_with_prev_iterate D target bias prev p t = Some (find_list_prev I D target bias prev p (flat t))"
proof (induction h arbitrary: t p prev)
  case 0
  then show ?case by (cases rule: wf_node_cases) (auto simp: mk_leaf_def find_list_prev_def)
next
  case (Suc h)
  from Suc.prems(1) obtain ts where t: "t = mk_internal I (Suc h) ts" "kids I k h ts"
    by (cases rule: wf_node_cases) auto
  obtain c q where r: "enter_child D target bias p (zip ts (map node_summary ts)) = (c, q)" by fastforce
  note enter = enter_child_ok [OF t(2), of target p bias] Suc.prems(2) r
  show ?case
  proof (cases c)
    case None
    with enter t(1) have all: "\<forall>e\<in>set (item_ends I D p (concat (map flat ts))). \<not> target_in bias (target e)"
      by simp
    show ?thesis
      using enter_child_prev_skip [OF t(2) all, of prev "[]"]
        find_list_prev_skip [of p "concat (map flat ts)" bias target prev "[]"] all
      by (simp add: t(1) mk_internal_def)
  next
    case (Some d)
    with enter t(1) obtain us vs where u: "ts = us @ d # vs" "q = advance I D p (concat (map flat us))"
      "\<forall>e\<in>set (item_ends I D p (concat (map flat us))). \<not> target_in bias (target e)"
      "target_in bias (target (advance I D q (flat d)))" by auto
    let ?prev = "last_item prev (concat (map flat us))"
    have d: "wf_node I k h d" "flat d \<noteq> []" "kids I k h us" using t(2) u(1) wf_node_flat_nonempty by auto
    have "enter_child_prev D target bias prev p (zip ts (map node_summary ts)) = Some (Some d, ?prev, q)"
      using enter_child_prev_skip [OF d(3) u(3), of prev "d # vs"] u(4) by (simp add: u(1,2) dim_add_node [OF d(1)])
    then have "find_with_prev_iterate D target bias prev p t = find_with_prev_iterate D target bias ?prev q d"
      by (simp add: t(1) mk_internal_def)
    also have "\<dots> = Some (find_list_prev I D target bias ?prev q (flat d))"
      using Suc.prems(2) u(1,2) t(1) by (intro Suc.IH d(1)) (simp add: monotone_target_append)
    also have "\<dots> = Some (find_list_prev I D target bias ?prev q (flat d @ concat (map flat vs)))"
      using find_list_prev_stop [OF bexI [where P = "\<lambda>e. target_in bias (target e)", OF u(4) advance_in_ends [OF d(2)]]]
      by simp
    also have "\<dots> = Some (find_list_prev I D target bias prev p (flat t))"
      using find_list_prev_skip [OF u(3), of prev "flat d @ concat (map flat vs)"] by (simp add: t(1) u(1,2))
    finally show ?thesis .
  qed
qed

lemma tree_find_with_prev_ok:
  assumes "wf_tree I k t" and "monotone_target target (item_ends I D (dim_zero D) (flat t))"
  shows "tree_find_with_prev D t target bias = Some
    (case find_list_prev I D target bias None (dim_zero D) (flat t) of
        (Some (prev, x, e), p) \<Rightarrow> (p, e, Some (prev, x))
      | (None, p) \<Rightarrow> (p, p, None))"
proof (cases "target_in bias (target (tree_end D t))")
  case False
  then have "\<forall>e\<in>set (item_ends I D (dim_zero D) (flat t)). \<not> target_in bias (target e)"
    using assms not_in_before_last by (metis tree_end_ok)
  then show ?thesis
    using False assms(1) find_list_prev_skip [of "dim_zero D" "flat t" bias target None "[]"]
    by (simp add: tree_find_with_prev_def tree_end_ok)
next
  case True
  show ?thesis
  proof (cases "t = tree_new I")
    case True
    then show ?thesis by (simp add: tree_find_with_prev_def tree_end_ok) (simp add: tree_new_def)
  next
    case False
    then show ?thesis
      using True assms find_with_prev_iterate_ok [of k "node_height t" t target "dim_zero D" bias None]
      by (simp add: tree_find_with_prev_def wf_tree_def split: prod.split option.split)
  qed
qed

end

section \<open>Stock dimensions\<close>

text \<open>A summary measures itself; \<open>Dimensions\<close> bundles three; a target on the first seeks in the bundle.\<close>

definition summary_dim :: "('t, 's) summary_ops \<Rightarrow> ('s, 's) dim_ops" where
  "summary_dim I = \<lparr>dim_zero = summary_zero I, dim_add = summary_add I\<rparr>"

definition dimensions :: "('s, 'a) dim_ops \<Rightarrow> ('s, 'b) dim_ops \<Rightarrow> ('s, 'c) dim_ops \<Rightarrow> ('s, 'a \<times> 'b \<times> 'c) dim_ops" where
  "dimensions D1 D2 D3 = \<lparr>dim_zero = (dim_zero D1, dim_zero D2, dim_zero D3),
     dim_add = (\<lambda>(a, b, c) s. (dim_add D1 a s, dim_add D2 b s, dim_add D3 c s))\<rparr>"

definition first_target :: "'a target \<Rightarrow> ('a \<times> 'b \<times> 'c) target" where
  "first_target target location = target (fst location)"

definition from_summary :: "('s, 'd) dim_ops \<Rightarrow> 's \<Rightarrow> 'd" where
  "from_summary D summary = dim_add D (dim_zero D) summary"

sublocale summary_laws \<subseteq> itself: dimension I "summary_dim I"
  by unfold_locales (auto simp: summary_dim_def add_assoc add_zero_left)

lemma dimensions_dimension:
  assumes "dimension I D1" and "dimension I D2" and "dimension I D3"
  shows "dimension I (dimensions D1 D2 D3)"
  unfolding dimension_def dimension_axioms_def
  using assms [THEN dimension.axioms(1)] assms [THEN dimension.dim_add_add] assms [THEN dimension.dim_zero_zero]
  by (simp add: dimensions_def)

lemma advance_dimensions:
  "advance I (dimensions D1 D2 D3) (a, b, c) xs = (advance I D1 a xs, advance I D2 b xs, advance I D3 c xs)"
  by (induction xs arbitrary: a b c) (auto simp: dimensions_def)

end
