(* ===== verification/Sum_Tree_Cursor.thy ===== *)
theory Sum_Tree_Cursor
  imports Sum_Tree_Find
begin

text \<open>
  Cursors over a sum tree (\<open>crates/sum_tree/src/cursor.rs\<close>): the explicit stack of tree
  entries, forward seeking with an aggregate (nothing, the traversed items as a tree, or
  their summary), and the search for the next or previous item that passes a filter. The
  stack is written top first. \<open>None\<close> is a panic (a failed assertion, an index out of range,
  a stack deeper than its capacity); the loops are partial functions, so a result also says
  that the loop ended.
\<close>

section \<open>State\<close>

record ('t, 's, 'd) stack_entry =
  entry_tree :: "('t, 's) node"
  entry_index :: nat
  entry_position :: 'd

record ('t, 's, 'd) cursor =
  cur_tree :: "('t, 's) node"
  cur_stack :: "('t, 's, 'd) stack_entry list"
  cur_position :: 'd
  did_seek :: bool
  at_end :: bool

definition STACK_CAP :: nat where
  "STACK_CAP = 16"

definition push_entry :: "('t, 's, 'd) stack_entry \<Rightarrow> ('t, 's, 'd) stack_entry list \<Rightarrow>
    ('t, 's, 'd) stack_entry list option" where
  "push_entry e stack = (if length stack < STACK_CAP then Some (e # stack) else None)"

definition cursor_new :: "('s, 'd) dim_ops \<Rightarrow> ('t, 's) node \<Rightarrow> ('t, 's, 'd) cursor" where
  "cursor_new D tree = \<lparr>cur_tree = tree, cur_stack = [], cur_position = dim_zero D, did_seek = False,
     at_end = tree_is_empty tree\<rparr>"

definition cursor_reset :: "('s, 'd) dim_ops \<Rightarrow> ('t, 's, 'd) cursor \<Rightarrow> ('t, 's, 'd) cursor" where
  "cursor_reset D c = c\<lparr>did_seek := False, at_end := tree_is_empty (cur_tree c), cur_stack := [],
     cur_position := dim_zero D\<rparr>"

section \<open>Reading at the cursor\<close>

definition index_opt :: "'a list \<Rightarrow> nat \<Rightarrow> 'a option" where
  "index_opt xs i = (if i < length xs then Some (xs ! i) else None)"

text \<open>The outer option is the panic, the inner one the code's \<open>Option\<close>.\<close>

definition cursor_item :: "('t, 's, 'd) cursor \<Rightarrow> 't option option" where
  "cursor_item c =
     (if \<not> did_seek c then None
      else case cur_stack c of
        [] \<Rightarrow> Some None
      | entry # _ \<Rightarrow>
          (case entry_tree entry of
             Internal _ _ _ _ \<Rightarrow> None
           | Leaf s its ss \<Rightarrow>
               if entry_index entry = length its then Some None
               else map_option Some (index_opt its (entry_index entry))))"

definition cursor_item_summary :: "('t, 's, 'd) cursor \<Rightarrow> 's option option" where
  "cursor_item_summary c =
     (if \<not> did_seek c then None
      else case cur_stack c of
        [] \<Rightarrow> Some None
      | entry # _ \<Rightarrow>
          (case entry_tree entry of
             Internal _ _ _ _ \<Rightarrow> None
           | Leaf s its ss \<Rightarrow>
               if entry_index entry = length ss then Some None
               else map_option Some (index_opt ss (entry_index entry))))"

definition cursor_end :: "('s, 'd) dim_ops \<Rightarrow> ('t, 's, 'd) cursor \<Rightarrow> 'd option" where
  "cursor_end D c = do {
     summary \<leftarrow> cursor_item_summary c;
     Some (case summary of
         Some s \<Rightarrow> dim_add D (cur_position c) s
       | None \<Rightarrow> cur_position c)
   }"

text \<open>The leaf after (before) the one on top of the stack, looked for up the stack.\<close>

fun next_leaf_of :: "('t, 's, 'd) stack_entry list \<Rightarrow> ('t, 's) node option option" where
  "next_leaf_of [] = Some None"
| "next_leaf_of (entry # rest) =
     (case entry_tree entry of
        Leaf _ _ _ \<Rightarrow> None
      | Internal h s ss ts \<Rightarrow>
          if entry_index entry < length ts - 1 then map_option Some (leftmost_leaf (ts ! (entry_index entry + 1)))
          else next_leaf_of rest)"

fun prev_leaf_of :: "('t, 's, 'd) stack_entry list \<Rightarrow> ('t, 's) node option option" where
  "prev_leaf_of [] = Some None"
| "prev_leaf_of (entry # rest) =
     (if entry_index entry \<noteq> 0 then
        case entry_tree entry of
          Leaf _ _ _ \<Rightarrow> None
        | Internal h s ss ts \<Rightarrow>
            do { t \<leftarrow> index_opt ts (entry_index entry - 1); l \<leftarrow> rightmost_leaf t; Some (Some l) }
      else prev_leaf_of rest)"

definition cursor_next_item :: "('t, 's, 'd) cursor \<Rightarrow> 't option option" where
  "cursor_next_item c =
     (if \<not> did_seek c then None
      else case cur_stack c of
        [] \<Rightarrow> if at_end c then Some None else tree_first (cur_tree c)
      | entry # rest \<Rightarrow> do {
          its \<leftarrow> node_items (entry_tree entry);
          (if its = [] then None
           else if entry_index entry = length its - 1 then do {
             leaf \<leftarrow> next_leaf_of rest;
             (case leaf of
                None \<Rightarrow> Some None
              | Some l \<Rightarrow> do { items \<leftarrow> node_items l; x \<leftarrow> first_opt items; Some (Some x) })
           }
           else map_option Some (index_opt its (entry_index entry + 1)))
        })"

definition cursor_prev_item :: "('t, 's, 'd) cursor \<Rightarrow> 't option option" where
  "cursor_prev_item c =
     (if \<not> did_seek c then None
      else case cur_stack c of
        [] \<Rightarrow> if at_end c then tree_last (cur_tree c) else Some None
      | entry # rest \<Rightarrow>
          if entry_index entry = 0 then do {
            leaf \<leftarrow> prev_leaf_of rest;
            (case leaf of
               None \<Rightarrow> Some None
             | Some l \<Rightarrow> do { items \<leftarrow> node_items l; x \<leftarrow> last_opt items; Some (Some x) })
          }
          else do {
            its \<leftarrow> node_items (entry_tree entry);
            map_option Some (index_opt its (entry_index entry - 1))
          })"

section \<open>Seeking forward with an aggregate\<close>

text \<open>The trait \<open>SeekAggregate\<close>: a record of its four methods over a state \<open>'g\<close>.\<close>

record ('t, 's, 'g) aggregate =
  begin_leaf :: "'g \<Rightarrow> 'g"
  end_leaf :: "'g \<Rightarrow> 'g option"
  push_item :: "'t \<Rightarrow> 's \<Rightarrow> 'g \<Rightarrow> 'g option"
  push_tree :: "('t, 's) node \<Rightarrow> 's \<Rightarrow> 'g \<Rightarrow> 'g option"

text \<open>
  The loop over the children of an internal node from the entry's index: index, entry
  position, cursor position and aggregate afterwards, and the child to descend into.
\<close>

fun seek_children :: "('s, 'd) dim_ops \<Rightarrow> ('t, 's, 'g) aggregate \<Rightarrow> 'd target \<Rightarrow> bias \<Rightarrow>
    (('t, 's) node \<times> 's) list \<Rightarrow> nat \<Rightarrow> 'd \<Rightarrow> 'd \<Rightarrow> 'g \<Rightarrow>
    (nat \<times> 'd \<times> 'd \<times> 'g \<times> ('t, 's) node option) option" where
  "seek_children D A target bias [] index entry_pos position g =
     Some (index, entry_pos, position, g, None)"
| "seek_children D A target bias ((child, summary) # rest) index entry_pos position g =
     (let child_end = dim_add D position summary in
      if target_past bias (target child_end) then do {
        g' \<leftarrow> push_tree A child summary g;
        seek_children D A target bias rest (index + 1) child_end child_end g'
      }
      else Some (index, entry_pos, position, g, Some child))"

text \<open>The loop over the items of a leaf; the last component tells whether it was left early.\<close>

fun seek_items :: "('s, 'd) dim_ops \<Rightarrow> ('t, 's, 'g) aggregate \<Rightarrow> 'd target \<Rightarrow> bias \<Rightarrow>
    ('t \<times> 's) list \<Rightarrow> nat \<Rightarrow> 'd \<Rightarrow> 'g \<Rightarrow> (nat \<times> 'd \<times> 'g \<times> bool) option" where
  "seek_items D A target bias [] index position g = Some (index, position, g, False)"
| "seek_items D A target bias ((item, summary) # rest) index position g =
     (let child_end = dim_add D position summary in
      if target_past bias (target child_end) then do {
        g' \<leftarrow> push_item A item summary g;
        seek_items D A target bias rest (index + 1) child_end g'
      }
      else Some (index, position, g, True))"

partial_function (option) seek_loop :: "('s, 'd) dim_ops \<Rightarrow> ('t, 's, 'g) aggregate \<Rightarrow> 'd target \<Rightarrow>
    bias \<Rightarrow> ('t, 's, 'd) stack_entry list \<Rightarrow> 'd \<Rightarrow> 'g \<Rightarrow> bool \<Rightarrow>
    (('t, 's, 'd) stack_entry list \<times> 'd \<times> 'g) option" where
  "seek_loop D A target bias stack position g ascending =
     (case stack of
        [] \<Rightarrow> Some ([], position, g)
      | entry # rest \<Rightarrow>
          (case entry_tree entry of
             Internal h s ss ts \<Rightarrow>
               (let index = (if ascending then entry_index entry + 1 else entry_index entry);
                    entry_pos = (if ascending then position else entry_position entry)
                in
                if index > length ts \<or> index > length ss then None
                else do {
                  (index', entry_pos', position', g', descend) \<leftarrow>
                    seek_children D A target bias (zip (drop index ts) (drop index ss)) index entry_pos position g;
                  (case descend of
                     Some child \<Rightarrow> do {
                       stack' \<leftarrow> push_entry \<lparr>entry_tree = child, entry_index = 0, entry_position = position'\<rparr>
                         (entry\<lparr>entry_index := index', entry_position := entry_pos'\<rparr> # rest);
                       seek_loop D A target bias stack' position' g' False
                     }
                   | None \<Rightarrow> seek_loop D A target bias rest position' g' True)
                })
           | Leaf s its ss \<Rightarrow>
               if entry_index entry > length its \<or> entry_index entry > length ss then None
               else do {
                 (index', position', g', stopped) \<leftarrow>
                   seek_items D A target bias
                     (zip (drop (entry_index entry) its) (drop (entry_index entry) ss))
                     (entry_index entry) position (begin_leaf A g);
                 g'' \<leftarrow> end_leaf A g';
                 (if stopped then Some (entry\<lparr>entry_index := index'\<rparr> # rest, position', g'')
                  else seek_loop D A target bias rest position' g'' True)
               }))"

declare seek_loop.simps [code]

definition seek_internal :: "('s, 'd) dim_ops \<Rightarrow> ('t, 's, 'g) aggregate \<Rightarrow> 'd target \<Rightarrow> bias \<Rightarrow> 'g \<Rightarrow>
    ('t, 's, 'd) cursor \<Rightarrow> (bool \<times> 'g \<times> ('t, 's, 'd) cursor) option" where
  "seek_internal D A target bias g c =
     (if target (cur_position c) = Less then None
      else do {
        let stack = (if did_seek c then cur_stack c
          else \<lparr>entry_tree = cur_tree c, entry_index = 0, entry_position = dim_zero D\<rparr> # cur_stack c);
        (stack', position', g') \<leftarrow> seek_loop D A target bias stack (cur_position c) g False;
        let c' = c\<lparr>did_seek := True, cur_stack := stack', cur_position := position', at_end := (stack' = [])\<rparr>;
        end \<leftarrow> (if bias = LeftBias then cursor_end D c' else Some position');
        Some (target end = Equal, g', c')
      })"

text \<open>The three aggregates.\<close>

definition unit_aggregate :: "('t, 's, unit) aggregate" where
  "unit_aggregate = \<lparr>begin_leaf = (\<lambda>g. g), end_leaf = (\<lambda>g. Some g), push_item = (\<lambda>x s g. Some g),
     push_tree = (\<lambda>t s g. Some g)\<rparr>"

record ('t, 's) slice_state =
  slice_tree :: "('t, 's) node"
  leaf_items :: "'t list"
  leaf_item_summaries :: "'s list"
  leaf_summary :: 's

definition slice_start :: "('t, 's) summary_ops \<Rightarrow> ('t, 's) slice_state" where
  "slice_start I = \<lparr>slice_tree = tree_new I, leaf_items = [], leaf_item_summaries = [],
     leaf_summary = summary_zero I\<rparr>"

definition slice_end_leaf :: "('t, 's) summary_ops \<Rightarrow> ('t, 's) slice_state \<Rightarrow> ('t, 's) slice_state option" where
  "slice_end_leaf I g = do {
     t \<leftarrow> tree_append I (slice_tree g) (Leaf (leaf_summary g) (leaf_items g) (leaf_item_summaries g));
     Some \<lparr>slice_tree = t, leaf_items = [], leaf_item_summaries = [], leaf_summary = summary_zero I\<rparr>
   }"

definition slice_push_item :: "('t, 's) summary_ops \<Rightarrow> 't \<Rightarrow> 's \<Rightarrow> ('t, 's) slice_state \<Rightarrow>
    ('t, 's) slice_state option" where
  "slice_push_item I item summary g = do {
     its \<leftarrow> array_push (2 * TREE_BASE) (leaf_items g) item;
     ss \<leftarrow> array_push (2 * TREE_BASE) (leaf_item_summaries g) summary;
     Some (g\<lparr>leaf_items := its, leaf_item_summaries := ss,
       leaf_summary := summary_add I (leaf_summary g) summary\<rparr>)
   }"

definition slice_push_tree :: "('t, 's) summary_ops \<Rightarrow> ('t, 's) node \<Rightarrow> 's \<Rightarrow> ('t, 's) slice_state \<Rightarrow>
    ('t, 's) slice_state option" where
  "slice_push_tree I tree summary g = do {
     t \<leftarrow> tree_append I (slice_tree g) tree;
     Some (g\<lparr>slice_tree := t\<rparr>)
   }"

definition slice_aggregate :: "('t, 's) summary_ops \<Rightarrow> ('t, 's, ('t, 's) slice_state) aggregate" where
  "slice_aggregate I = \<lparr>begin_leaf = (\<lambda>g. g), end_leaf = slice_end_leaf I,
     push_item = slice_push_item I, push_tree = slice_push_tree I\<rparr>"

definition summary_aggregate :: "('s, 'e) dim_ops \<Rightarrow> ('t, 's, 'e) aggregate" where
  "summary_aggregate E = \<lparr>begin_leaf = (\<lambda>g. g), end_leaf = (\<lambda>g. Some g),
     push_item = (\<lambda>x s g. Some (dim_add E g s)), push_tree = (\<lambda>t s g. Some (dim_add E g s))\<rparr>"

definition cursor_seek :: "('s, 'd) dim_ops \<Rightarrow> 'd target \<Rightarrow> bias \<Rightarrow> ('t, 's, 'd) cursor \<Rightarrow>
    (bool \<times> ('t, 's, 'd) cursor) option" where
  "cursor_seek D target bias c = do {
     (found, _, c') \<leftarrow> seek_internal D unit_aggregate target bias () (cursor_reset D c);
     Some (found, c')
   }"

definition cursor_seek_forward :: "('s, 'd) dim_ops \<Rightarrow> 'd target \<Rightarrow> bias \<Rightarrow> ('t, 's, 'd) cursor \<Rightarrow>
    (bool \<times> ('t, 's, 'd) cursor) option" where
  "cursor_seek_forward D target bias c = do {
     (found, _, c') \<leftarrow> seek_internal D unit_aggregate target bias () c;
     Some (found, c')
   }"

definition cursor_slice :: "('t, 's) summary_ops \<Rightarrow> ('s, 'd) dim_ops \<Rightarrow> 'd target \<Rightarrow> bias \<Rightarrow>
    ('t, 's, 'd) cursor \<Rightarrow> (('t, 's) node \<times> ('t, 's, 'd) cursor) option" where
  "cursor_slice I D target bias c = do {
     (_, g, c') \<leftarrow> seek_internal D (slice_aggregate I) target bias (slice_start I) c;
     Some (slice_tree g, c')
   }"

text \<open>The target \<open>End\<close>, greater than every location.\<close>

definition end_target :: "'d target" where
  "end_target = (\<lambda>location. Greater)"

definition cursor_suffix :: "('t, 's) summary_ops \<Rightarrow> ('s, 'd) dim_ops \<Rightarrow> ('t, 's, 'd) cursor \<Rightarrow>
    (('t, 's) node \<times> ('t, 's, 'd) cursor) option" where
  "cursor_suffix I D c = cursor_slice I D end_target RightBias c"

definition cursor_summary :: "('s, 'd) dim_ops \<Rightarrow> ('s, 'e) dim_ops \<Rightarrow> 'd target \<Rightarrow> bias \<Rightarrow>
    ('t, 's, 'd) cursor \<Rightarrow> ('e \<times> ('t, 's, 'd) cursor) option" where
  "cursor_summary D E target bias c = do {
     (_, g, c') \<leftarrow> seek_internal D (summary_aggregate E) target bias (dim_zero E) c;
     Some (g, c')
   }"

end
