(* ===== verification/Sum_Tree_Seek.thy ===== *)
theory Sum_Tree_Seek
  imports Sum_Tree_Cursor
begin

text \<open>
  Correctness of forward seeking: what the cursor's stack denotes, the laws of a seek
  aggregate as a locale, and the seek loop proved once over it: the cursor stops at the
  first item the target is in, and the aggregate has received exactly the items passed.
\<close>

section \<open>What a stack denotes\<close>

text \<open>
  \<open>locate I D t p stk us x vs\<close>: from the node \<open>t\<close>, entered at position \<open>p\<close>, the entries
  \<open>stk\<close> (top first) lead down to the item \<open>x\<close>, which has the items \<open>us\<close> before and \<open>vs\<close>
  after it below \<open>t\<close>; each internal entry records the position at which its current child
  starts.
\<close>

inductive locate :: "('t, 's) summary_ops \<Rightarrow> ('s, 'd) dim_ops \<Rightarrow> ('t, 's) node \<Rightarrow> 'd \<Rightarrow>
    ('t, 's, 'd) stack_entry list \<Rightarrow> 't list \<Rightarrow> 't \<Rightarrow> 't list \<Rightarrow> bool"
  for I :: "('t, 's) summary_ops" and D :: "('s, 'd) dim_ops" where
  at_leaf: "i < length its \<Longrightarrow>
    locate I D (Leaf s its ss) p [\<lparr>entry_tree = Leaf s its ss, entry_index = i, entry_position = q\<rparr>]
      (take i its) (its ! i) (drop (Suc i) its)"
| at_child: "i < length ts \<Longrightarrow> q = advance I D p (concat (map flat (take i ts))) \<Longrightarrow>
    locate I D (ts ! i) q stk us x vs \<Longrightarrow>
    locate I D (Internal h s ss ts) p
      (stk @ [\<lparr>entry_tree = Internal h s ss ts, entry_index = i, entry_position = q\<rparr>])
      (concat (map flat (take i ts)) @ us) x (vs @ concat (map flat (drop (Suc i) ts)))"

lemma concat_split_nth:
  "i < length ts \<Longrightarrow> concat (map flat ts) =
     concat (map flat (take i ts)) @ flat (ts ! i) @ concat (map flat (drop (Suc i) ts))"
  by (metis append_assoc concat_append concat.simps(2) list.map(2) map_append append_Nil2 concat.simps(1)
      id_take_nth_drop)

lemma locate_flat: "locate I D t p stk us x vs \<Longrightarrow> flat t = us @ x # vs"
  by (induction rule: locate.induct) (auto simp: concat_split_nth id_take_nth_drop [symmetric])

lemma locate_height: "locate I D t p stk us x vs \<Longrightarrow> wf_node I k h t \<Longrightarrow> length stk = Suc h"
proof (induction arbitrary: h rule: locate.induct)
  case (at_leaf i its s ss p q)
  then show ?case by (simp add: wf_node_Leaf)
next
  case (at_child i ts q p stk us x vs h' s ss)
  from at_child.prems at_child.hyps(1) obtain h0 where "h = Suc h0" "wf_node I k h0 (ts ! i)"
    using kids_nth by (fastforce simp: wf_node_kids)
  then show ?case using at_child.IH by simp
qed

lemma locate_top:
  "locate I D t p stk us x vs \<Longrightarrow> wf_node I k h t \<Longrightarrow>
   \<exists>e rest s its ss. stk = e # rest \<and> entry_tree e = Leaf s its ss \<and> ss = map (item_summary I) its \<and>
     entry_index e < length its \<and> its ! entry_index e = x"
proof (induction arbitrary: h rule: locate.induct)
  case (at_leaf i its s ss p q)
  then show ?case by (simp add: wf_node_Leaf)
next
  case (at_child i ts q p stk us x vs h' s ss)
  from at_child.prems at_child.hyps(1) obtain h0 where "wf_node I k h0 (ts ! i)"
    using kids_nth by (fastforce simp: wf_node_kids)
  from at_child.IH [OF this] show ?case by auto
qed

section \<open>The laws of an aggregate\<close>

text \<open>
  \<open>den g xs\<close>: between leaves, the aggregate has received the items \<open>xs\<close>;
  \<open>in_leaf g xs n\<close>: inside a leaf, \<open>n\<close> of them came from that leaf.
\<close>

locale seek_aggregate = dimension I D for I :: "('t, 's) summary_ops" and D :: "('s, 'd) dim_ops" +
  fixes A :: "('t, 's, 'g) aggregate" and k :: nat
    and den :: "'g \<Rightarrow> 't list \<Rightarrow> bool" and in_leaf :: "'g \<Rightarrow> 't list \<Rightarrow> nat \<Rightarrow> bool"
  assumes begin_leaf_law: "den g xs \<Longrightarrow> in_leaf (begin_leaf A g) xs 0"
    and push_item_law: "in_leaf g xs n \<Longrightarrow> n < 2 * TREE_BASE \<Longrightarrow>
      \<exists>g'. push_item A x (item_summary I x) g = Some g' \<and> in_leaf g' (xs @ [x]) (Suc n)"
    and end_leaf_law: "in_leaf g xs n \<Longrightarrow> \<exists>g'. end_leaf A g = Some g' \<and> den g' xs"
    and push_tree_law: "den g xs \<Longrightarrow> wf_node I k h t \<Longrightarrow>
      \<exists>g'. push_tree A t (node_summary t) g = Some g' \<and> den g' (xs @ flat t)"
begin

text \<open>
  The outcome of running the loop from below \<open>t\<close> with the items \<open>ws\<close> ahead of it (after
  \<open>us\<close>) and the entries \<open>rest\<close> under it: it stops in \<open>t\<close> at the first item that is hit, or
  leaves \<open>t\<close> and goes on with \<open>rest\<close>.
\<close>

definition seek_outcome :: "'d target \<Rightarrow> bias \<Rightarrow> ('t, 's) node \<Rightarrow> 'd \<Rightarrow> ('t, 's, 'd) stack_entry list \<Rightarrow>
    't list \<Rightarrow> 'd \<Rightarrow> 't list \<Rightarrow> 't list \<Rightarrow> (('t, 's, 'd) stack_entry list \<times> 'd \<times> 'g) option \<Rightarrow> bool" where
  "seek_outcome target bias t p rest us q ws xs r \<longleftrightarrow>
     (\<exists>us' y vs' stk g. ws = us' @ y # vs' \<and>
        (\<forall>e\<in>set (item_ends I D q us'). \<not> target_in bias (target e)) \<and>
        target_in bias (target (dim_add D (advance I D q us') (item_summary I y))) \<and>
        r = Some (stk @ rest, advance I D q us', g) \<and>
        locate I D t p stk (us @ us') y vs' \<and> den g (xs @ us')) \<or>
     (\<exists>g. (\<forall>e\<in>set (item_ends I D q ws). \<not> target_in bias (target e)) \<and>
        r = seek_loop D A target bias rest (advance I D q ws) g True \<and> den g (xs @ ws))"

lemma seek_outcome_skip:
  assumes "\<forall>e\<in>set (item_ends I D q ws0). \<not> target_in bias (target e)"
    and "seek_outcome target bias t p rest (us @ ws0) (advance I D q ws0) ws (xs @ ws0) r"
  shows "seek_outcome target bias t p rest us q (ws0 @ ws) xs r"
  using assms(2) [unfolded seek_outcome_def]
proof (elim disjE exE conjE)
  fix us' y vs' stk g
  assume a: "ws = us' @ y # vs'" "\<forall>e\<in>set (item_ends I D (advance I D q ws0) us'). \<not> target_in bias (target e)"
    "target_in bias (target (dim_add D (advance I D (advance I D q ws0) us') (item_summary I y)))"
    "r = Some (stk @ rest, advance I D (advance I D q ws0) us', g)"
    "locate I D t p stk ((us @ ws0) @ us') y vs'" "den g ((xs @ ws0) @ us')"
  show ?thesis
    unfolding seek_outcome_def
    using a assms(1) by (intro disjI1 exI [of _ "ws0 @ us'"] exI [of _ y] exI [of _ vs'] exI [of _ stk] exI [of _ g])
      auto
next
  fix g
  assume "\<forall>e\<in>set (item_ends I D (advance I D q ws0) ws). \<not> target_in bias (target e)"
    "r = seek_loop D A target bias rest (advance I D (advance I D q ws0) ws) g True" "den g ((xs @ ws0) @ ws)"
  then show ?thesis
    unfolding seek_outcome_def using assms(1) by (intro disjI2 exI [of _ g]) auto
qed

text \<open>The loop in a leaf.\<close>

lemma seek_items_ok:
  "in_leaf g xs n \<Longrightarrow> n + length ws \<le> 2 * TREE_BASE \<Longrightarrow>
   \<exists>us' g'. in_leaf g' (xs @ us') (n + length us') \<and>
     (\<forall>e\<in>set (item_ends I D q us'). \<not> target_in bias (target e)) \<and>
     (ws = us' \<and> seek_items D A target bias (zip ws (map (item_summary I) ws)) i q g =
        Some (i + length us', advance I D q us', g', False) \<or>
      (\<exists>y vs'. ws = us' @ y # vs' \<and>
        target_in bias (target (dim_add D (advance I D q us') (item_summary I y))) \<and>
        seek_items D A target bias (zip ws (map (item_summary I) ws)) i q g =
          Some (i + length us', advance I D q us', g', True)))"
proof (induction ws arbitrary: g xs n q i)
  case Nil
  then show ?case by (intro exI [of _ "[]"] exI [of _ g]) simp
next
  case (Cons w ws)
  let ?q = "dim_add D q (item_summary I w)"
  show ?case
  proof (cases "target_in bias (target ?q)")
    case True
    then show ?thesis using Cons.prems by (intro exI [of _ "[]"] exI [of _ g]) (simp add: Let_def)
  next
    case False
    from push_item_law [OF Cons.prems(1), of w] Cons.prems(2) obtain g1 where
      g1: "push_item A w (item_summary I w) g = Some g1" "in_leaf g1 (xs @ [w]) (Suc n)" by auto
    have step: "seek_items D A target bias (zip (w # ws) (map (item_summary I) (w # ws))) i q g =
        seek_items D A target bias (zip ws (map (item_summary I) ws)) (Suc i) ?q g1"
      using False g1(1) by (simp add: Let_def)
    from Cons.IH [OF g1(2), of ?q "Suc i"] Cons.prems(2)
    obtain us' g' where u: "in_leaf g' ((xs @ [w]) @ us') (Suc n + length us')"
      "\<forall>e\<in>set (item_ends I D ?q us'). \<not> target_in bias (target e)"
      and c: "ws = us' \<and> seek_items D A target bias (zip ws (map (item_summary I) ws)) (Suc i) ?q g1 =
        Some (Suc i + length us', advance I D ?q us', g', False) \<or>
      (\<exists>y vs'. ws = us' @ y # vs' \<and>
        target_in bias (target (dim_add D (advance I D ?q us') (item_summary I y))) \<and>
        seek_items D A target bias (zip ws (map (item_summary I) ws)) (Suc i) ?q g1 =
          Some (Suc i + length us', advance I D ?q us', g', True))"
      by auto
    have "\<forall>e\<in>set (item_ends I D q (w # us')). \<not> target_in bias (target e)"
      using u(2) False by (simp add: Let_def)
    then show ?thesis
      unfolding step using u(1) c by (intro exI [of _ "w # us'"] exI [of _ g']) auto
  qed
qed

lemma seek_leaf:
  assumes "its \<noteq> []" and "length its \<le> 2 * TREE_BASE" and "i \<le> length its" and "den g xs"
  shows "seek_outcome target bias (mk_leaf I its) p rest (take i its) q (drop i its) xs
    (seek_loop D A target bias (\<lparr>entry_tree = mk_leaf I its, entry_index = i, entry_position = ep\<rparr> # rest) q g asc)"
proof -
  have len: "0 + length (drop i its) \<le> 2 * TREE_BASE" using assms(2) by simp
  from seek_items_ok [OF begin_leaf_law [OF assms(4)] len, of q bias target i] obtain us' g' where
    u: "in_leaf g' (xs @ us') (length us')" "\<forall>e\<in>set (item_ends I D q us'). \<not> target_in bias (target e)"
    and c: "drop i its = us' \<and> seek_items D A target bias (zip (drop i its) (map (item_summary I) (drop i its))) i q
            (begin_leaf A g) = Some (i + length us', advance I D q us', g', False) \<or>
       (\<exists>y vs'. drop i its = us' @ y # vs' \<and>
          target_in bias (target (dim_add D (advance I D q us') (item_summary I y))) \<and>
          seek_items D A target bias (zip (drop i its) (map (item_summary I) (drop i its))) i q (begin_leaf A g) =
          Some (i + length us', advance I D q us', g', True))"
    unfolding add_0 by blast
  from end_leaf_law [OF u(1)] obtain g'' where g'': "end_leaf A g' = Some g''" "den g'' (xs @ us')" by blast
  note step = seek_loop.simps [of D A target bias
      "\<lparr>entry_tree = mk_leaf I its, entry_index = i, entry_position = ep\<rparr> # rest" q g asc]
  from c show ?thesis
  proof (elim disjE exE conjE)
    assume "drop i its = us'" and "seek_items D A target bias (zip (drop i its) (map (item_summary I) (drop i its)))
        i q (begin_leaf A g) = Some (i + length us', advance I D q us', g', False)"
    then show ?thesis
      using u g'' step assms(3) unfolding seek_outcome_def
      by (intro disjI2 exI [of _ g'']) (auto simp: mk_leaf_def drop_map)
  next
    fix y vs'
    assume d: "drop i its = us' @ y # vs'"
      and hit: "target_in bias (target (dim_add D (advance I D q us') (item_summary I y)))"
      and s: "seek_items D A target bias (zip (drop i its) (map (item_summary I) (drop i its))) i q
        (begin_leaf A g) = Some (i + length us', advance I D q us', g', True)"
    have its: "its = (take i its @ us') @ y # vs'" using d by (metis append_assoc append_take_drop_id)
    have len: "length (take i its @ us') = i + length us'" using assms(3) by simp
    have "i + length us' < length its" "take (i + length us') its = take i its @ us'"
      "its ! (i + length us') = y" "drop (Suc (i + length us')) its = vs'"
      using nth_split_facts [OF its] unfolding len by simp_all
    then have loc: "locate I D (mk_leaf I its) p
        [\<lparr>entry_tree = mk_leaf I its, entry_index = i + length us', entry_position = ep\<rparr>] (take i its @ us') y vs'"
      using locate.at_leaf [of "i + length us'" its I D "sum_summaries I (map (item_summary I) its)"
          "map (item_summary I) its" p ep] by (simp add: mk_leaf_def)
    show ?thesis
      using u g'' step assms(3) loc d hit s unfolding seek_outcome_def
      by (intro disjI1 exI [of _ us'] exI [of _ y] exI [of _ vs'] exI [of _ g'']
          exI [of _ "[\<lparr>entry_tree = mk_leaf I its, entry_index = i + length us', entry_position = ep\<rparr>]"])
        (auto simp: mk_leaf_def drop_map)
  qed
qed

text \<open>Returning to an internal entry from below is entering it at the next child.\<close>

lemma seek_loop_ascend:
  "seek_loop D A target bias (\<lparr>entry_tree = Internal h s ss ts, entry_index = i, entry_position = ep\<rparr> # rest) q g True =
   seek_loop D A target bias (\<lparr>entry_tree = Internal h s ss ts, entry_index = Suc i, entry_position = q\<rparr> # rest) q g False"
  by (subst (1 2) seek_loop.simps) (simp add: Let_def)

lemma seek_outcome_lift:
  assumes i: "i < length ts" and q: "q = advance I D p (concat (map flat (take i ts)))"
    and q0: "q0 = advance I D q us0"
    and child: "seek_outcome target bias (ts ! i) q
      (\<lparr>entry_tree = mk_internal I h ts, entry_index = i, entry_position = q\<rparr> # rest) us0 q0 ws xs r"
    and flat: "flat (ts ! i) = us0 @ ws"
    and cont: "\<And>g. den g (xs @ ws) \<Longrightarrow>
      seek_outcome target bias (mk_internal I h ts) p rest (concat (map flat (take (Suc i) ts)))
        (advance I D q0 ws) (concat (map flat (drop (Suc i) ts))) (xs @ ws)
        (seek_loop D A target bias (\<lparr>entry_tree = mk_internal I h ts, entry_index = i, entry_position = q\<rparr> # rest)
          (advance I D q0 ws) g True)"
  shows "seek_outcome target bias (mk_internal I h ts) p rest (concat (map flat (take i ts)) @ us0) q0
    (ws @ concat (map flat (drop (Suc i) ts))) xs r"
  using child [unfolded seek_outcome_def]
proof (elim disjE exE conjE)
  fix us' y vs' stk g
  let ?e = "\<lparr>entry_tree = mk_internal I h ts, entry_index = i, entry_position = q\<rparr>"
  assume a: "ws = us' @ y # vs'" "\<forall>e\<in>set (item_ends I D q0 us'). \<not> target_in bias (target e)"
    "target_in bias (target (dim_add D (advance I D q0 us') (item_summary I y)))"
    "r = Some (stk @ ?e # rest, advance I D q0 us', g)" "locate I D (ts ! i) q stk (us0 @ us') y vs'"
    "den g (xs @ us')"
  have "locate I D (mk_internal I h ts) p (stk @ [?e]) (concat (map flat (take i ts)) @ us0 @ us') y
      (vs' @ concat (map flat (drop (Suc i) ts)))"
    using locate.at_child [OF i q a(5)] by (simp add: mk_internal_def)
  then show ?thesis
    unfolding seek_outcome_def using a
    by (intro disjI1 exI [of _ us'] exI [of _ y] exI [of _ "vs' @ concat (map flat (drop (Suc i) ts))"]
        exI [of _ "stk @ [?e]"] exI [of _ g]) simp
next
  fix g
  assume a: "\<forall>e\<in>set (item_ends I D q0 ws). \<not> target_in bias (target e)"
    "r = seek_loop D A target bias (\<lparr>entry_tree = mk_internal I h ts, entry_index = i, entry_position = q\<rparr> # rest)
       (advance I D q0 ws) g True" "den g (xs @ ws)"
  have "concat (map flat (take (Suc i) ts)) = (concat (map flat (take i ts)) @ us0) @ ws"
    using i flat by (simp add: take_Suc_conv_app_nth)
  with cont [OF a(3)] seek_outcome_skip [OF a(1)] show ?thesis unfolding a(2) by simp
qed

text \<open>The loop in an internal node from child \<open>i\<close> on, given its correctness below.\<close>

lemma seek_internal_node:
  assumes below: "\<And>c q g xs rest. wf_node I k h c \<Longrightarrow> monotone_target target (item_ends I D q (flat c)) \<Longrightarrow>
      length rest + Suc h \<le> STACK_CAP \<Longrightarrow> den g xs \<Longrightarrow>
      seek_outcome target bias c q rest [] q (flat c) xs
        (seek_loop D A target bias (\<lparr>entry_tree = c, entry_index = 0, entry_position = q\<rparr> # rest) q g False)"
    and kids: "kids I k h ts" and cap: "length rest + Suc (Suc h) \<le> STACK_CAP"
  shows "i \<le> length ts \<Longrightarrow> q = advance I D p (concat (map flat (take i ts))) \<Longrightarrow>
    monotone_target target (item_ends I D q (concat (map flat (drop i ts)))) \<Longrightarrow> den g xs \<Longrightarrow>
    seek_outcome target bias (mk_internal I (Suc h) ts) p rest (concat (map flat (take i ts))) q
      (concat (map flat (drop i ts))) xs
      (seek_loop D A target bias
        (\<lparr>entry_tree = mk_internal I (Suc h) ts, entry_index = i, entry_position = q\<rparr> # rest) q g False)"
proof (induction "length ts - i" arbitrary: i q g xs)
  case 0
  then have "i = length ts" by simp
  then show ?case
    using 0 unfolding seek_outcome_def
    by (intro disjI2 exI [of _ g]) (simp add: seek_loop.simps [of D A target bias "_ # _"] mk_internal_def)
next
  case (Suc n)
  let ?t = "mk_internal I (Suc h) ts" and ?e = "\<lambda>i q. \<lparr>entry_tree = mk_internal I (Suc h) ts, entry_index = i, entry_position = q\<rparr>"
  from Suc.hyps(2) have i: "i < length ts" by simp
  then have d: "drop i ts = ts ! i # drop (Suc i) ts" by (rule Cons_nth_drop_Suc [symmetric])
  from kids_nth [OF kids i] have c: "wf_node I k h (ts ! i)" by simp
  let ?q = "advance I D q (flat (ts ! i))"
  have end_c: "dim_add D q (node_summary (ts ! i)) = ?q" using c by (rule dim_add_node)
  have mono: "monotone_target target (item_ends I D q (flat (ts ! i)))"
    "monotone_target target (item_ends I D ?q (concat (map flat (drop (Suc i) ts))))"
    using Suc.prems(3) by (simp_all add: d monotone_target_append)
  have q: "?q = advance I D p (concat (map flat (take (Suc i) ts)))"
    using Suc.prems(2) i by (simp add: take_Suc_conv_app_nth)
  have cont: "seek_outcome target bias ?t p rest (concat (map flat (take (Suc i) ts))) ?q
      (concat (map flat (drop (Suc i) ts))) (xs @ flat (ts ! i))
      (seek_loop D A target bias (?e (Suc i) ?q # rest) ?q g' False)" if "den g' (xs @ flat (ts ! i))" for g'
    using Suc.hyps(1) [of "Suc i" ?q] Suc.hyps(2) i q mono(2) that by simp
  show ?case
  proof (cases "target_in bias (target ?q)")
    case False
    from push_tree_law [OF Suc.prems(4) c] obtain g' where
      g': "push_tree A (ts ! i) (node_summary (ts ! i)) g = Some g'" "den g' (xs @ flat (ts ! i))" by blast
    have "seek_loop D A target bias (?e i q # rest) q g False =
        seek_loop D A target bias (?e (Suc i) ?q # rest) ?q g' False"
      using i g'(1) False end_c Suc_leI [OF i]
      by (subst (1 2) seek_loop.simps) (simp add: mk_internal_def d drop_map Let_def)
    with cont [OF g'(2)] not_in_before_last [OF mono(1) False] show ?thesis
      using seek_outcome_skip [of q "flat (ts ! i)" bias target ?t p rest "concat (map flat (take i ts))"] i
      by (simp add: d take_Suc_conv_app_nth)
  next
    case True
    have enter: "seek_loop D A target bias (?e i q # rest) q g False =
        seek_loop D A target bias (\<lparr>entry_tree = ts ! i, entry_index = 0, entry_position = q\<rparr> # ?e i q # rest) q g False"
      using i True end_c cap
      by (subst seek_loop.simps) (simp add: mk_internal_def d drop_map Let_def push_entry_def)
    have child: "seek_outcome target bias (ts ! i) q (?e i q # rest) [] q (flat (ts ! i)) xs
        (seek_loop D A target bias (?e i q # rest) q g False)"
      unfolding enter using cap by (intro below c mono(1) Suc.prems(4)) simp
    show ?thesis
      using seek_outcome_lift [OF i Suc.prems(2) _ child] cont
      by (simp add: d mk_internal_def seek_loop_ascend)
  qed
qed

lemma seek_fresh:
  "wf_node I k h c \<Longrightarrow> monotone_target target (item_ends I D q (flat c)) \<Longrightarrow>
   length rest + Suc h \<le> STACK_CAP \<Longrightarrow> den g xs \<Longrightarrow>
   seek_outcome target bias c q rest [] q (flat c) xs
     (seek_loop D A target bias (\<lparr>entry_tree = c, entry_index = 0, entry_position = q\<rparr> # rest) q g False)"
proof (induction h arbitrary: c q g xs rest)
  case 0
  from 0(1) obtain its where c: "c = mk_leaf I its" "its \<noteq> []" "length its \<le> 2 * TREE_BASE"
    by (cases rule: wf_node_cases) auto
  from seek_leaf [OF c(2,3), of 0 g xs target bias q rest q q False] 0(4) show ?case by (simp add: c(1))
next
  case (Suc h)
  from Suc.prems(1) obtain ts where c: "c = mk_internal I (Suc h) ts" "kids I k h ts"
    by (cases rule: wf_node_cases) auto
  from seek_internal_node [OF Suc.IH c(2), of rest 0 q q g xs] Suc.prems show ?case by (simp add: c(1))
qed

text \<open>Resuming from a stack that denotes a place in the tree.\<close>

lemma seek_resume:
  "locate I D t p stk us x vs \<Longrightarrow> wf_node I k h t \<Longrightarrow> q = advance I D p us \<Longrightarrow>
   monotone_target target (item_ends I D q (x # vs)) \<Longrightarrow> length rest + Suc h \<le> STACK_CAP \<Longrightarrow> den g xs \<Longrightarrow>
   seek_outcome target bias t p rest us q (x # vs) xs (seek_loop D A target bias (stk @ rest) q g False)"
proof (induction arbitrary: h q g xs rest rule: locate.induct)
  case (at_leaf i its s ss p ep)
  then have "Leaf s its ss = mk_leaf I its" "its \<noteq> []" "length its \<le> 2 * TREE_BASE" "i \<le> length its"
    by (auto simp: wf_node_Leaf mk_leaf_def)
  then show ?case
    using seek_leaf [of its i g xs target bias p rest q ep False] at_leaf
    by (simp add: Cons_nth_drop_Suc)
next
  case (at_child i ts q0 p stk us x vs h' s ss)
  from at_child.prems(1) obtain h0 where t: "h = Suc h0" "Internal h' s ss ts = mk_internal I h ts" "kids I k h0 ts"
    by (auto simp: wf_node_kids mk_internal_def)
  let ?e = "\<lparr>entry_tree = mk_internal I h ts, entry_index = i, entry_position = q0\<rparr>"
  let ?tail = "concat (map flat (drop (Suc i) ts))"
  from kids_nth [OF t(3) at_child.hyps(1)] have c: "wf_node I k h0 (ts ! i)" by simp
  have flat: "flat (ts ! i) = us @ x # vs" using at_child.hyps(3) by (rule locate_flat)
  have q: "q = advance I D q0 us" using at_child.prems(2) at_child.hyps(2) by simp
  have mono: "monotone_target target (item_ends I D q (x # vs))"
    "monotone_target target (item_ends I D (advance I D q (x # vs)) ?tail)"
    using at_child.prems(3) monotone_target_append [of target "item_ends I D q (x # vs)"]
      item_ends_append [of I D q "x # vs" ?tail] by (simp_all del: item_ends.simps)
  have child: "seek_outcome target bias (ts ! i) q0 (?e # rest) us q (x # vs) xs
      (seek_loop D A target bias (stk @ ?e # rest) q g False)"
    using at_child.IH [OF c q mono(1)] at_child.prems(4,5) t(1) by simp
  have "seek_outcome target bias (mk_internal I h ts) p rest (concat (map flat (take i ts)) @ us) q
      ((x # vs) @ ?tail) xs (seek_loop D A target bias (stk @ ?e # rest) q g False)"
  proof (rule seek_outcome_lift [OF at_child.hyps(1,2) q child flat])
    fix g' assume g': "den g' (xs @ x # vs)"
    have pos: "advance I D q (x # vs) = advance I D p (concat (map flat (take (Suc i) ts)))"
      using q at_child.hyps(1,2) flat by (simp add: take_Suc_conv_app_nth)
    show "seek_outcome target bias (mk_internal I h ts) p rest (concat (map flat (take (Suc i) ts)))
        (advance I D q (x # vs)) ?tail (xs @ x # vs)
        (seek_loop D A target bias (?e # rest) (advance I D q (x # vs)) g' True)"
      using seek_internal_node [OF seek_fresh t(3) _ _ pos mono(2) g'] at_child.hyps(1) at_child.prems(4) t(1)
      by (simp add: mk_internal_def seek_loop_ascend)
  qed
  then show ?case by (simp add: t(2))
qed

end

section \<open>Cursors\<close>

text \<open>
  \<open>cursor_at I D k c us ws\<close>: the cursor stands after the items \<open>us\<close> and before \<open>ws\<close>.
  \<open>cursor_fresh\<close>: nothing has been sought yet.
\<close>

definition cursor_at :: "('t, 's) summary_ops \<Rightarrow> ('s, 'd) dim_ops \<Rightarrow> nat \<Rightarrow> ('t, 's, 'd) cursor \<Rightarrow>
    't list \<Rightarrow> 't list \<Rightarrow> bool" where
  "cursor_at I D k c us ws \<longleftrightarrow> did_seek c \<and> wf_tree I k (cur_tree c) \<and>
     node_height (cur_tree c) < STACK_CAP \<and>
     flat (cur_tree c) = us @ ws \<and> cur_position c = advance I D (dim_zero D) us \<and>
     (case ws of
        [] \<Rightarrow> cur_stack c = [] \<and> at_end c
      | x # vs \<Rightarrow> locate I D (cur_tree c) (dim_zero D) (cur_stack c) us x vs \<and> \<not> at_end c)"

definition cursor_fresh :: "('t, 's) summary_ops \<Rightarrow> ('s, 'd) dim_ops \<Rightarrow> nat \<Rightarrow> ('t, 's, 'd) cursor \<Rightarrow> bool" where
  "cursor_fresh I D k c \<longleftrightarrow> \<not> did_seek c \<and> wf_tree I k (cur_tree c) \<and>
     node_height (cur_tree c) < STACK_CAP \<and> cur_stack c = [] \<and> cur_position c = dim_zero D \<and>
     at_end c = tree_is_empty (cur_tree c)"

text \<open>The items a forward seek passes: up to the first one the target is in.\<close>

fun passed :: "('t, 's) summary_ops \<Rightarrow> ('s, 'd) dim_ops \<Rightarrow> 'd target \<Rightarrow> bias \<Rightarrow> 'd \<Rightarrow> 't list \<Rightarrow> 't list" where
  "passed I D target bias q [] = []"
| "passed I D target bias q (x # xs) =
     (let e = dim_add D q (item_summary I x) in
      if target_in bias (target e) then [] else x # passed I D target bias e xs)"

lemma passed_stop:
  "\<forall>e\<in>set (item_ends I D q us). \<not> target_in bias (target e) \<Longrightarrow>
   target_in bias (target (dim_add D (advance I D q us) (item_summary I y))) \<Longrightarrow>
   passed I D target bias q (us @ y # vs) = us"
  by (induction us arbitrary: q) (auto simp: Let_def)

lemma passed_all:
  "\<forall>e\<in>set (item_ends I D q us). \<not> target_in bias (target e) \<Longrightarrow> passed I D target bias q us = us"
  by (induction us arbitrary: q) (auto simp: Let_def)

lemma passed_prefix: "passed I D target bias q xs @ drop (length (passed I D target bias q xs)) xs = xs"
  by (induction xs arbitrary: q) (auto simp: Let_def)

lemma passed_end [simp]: "passed I D end_target RightBias q xs = xs"
  by (induction xs arbitrary: q) (auto simp: Let_def end_target_def target_in_def)

definition not_passed :: "('t, 's) summary_ops \<Rightarrow> ('s, 'd) dim_ops \<Rightarrow> 'd target \<Rightarrow> bias \<Rightarrow> 'd \<Rightarrow> 't list \<Rightarrow> 't list" where
  "not_passed I D target bias q xs = drop (length (passed I D target bias q xs)) xs"

lemma passed_not_passed [simp]: "passed I D target bias q xs @ not_passed I D target bias q xs = xs"
  by (simp add: not_passed_def passed_prefix)

lemma cursor_fresh_new [simp]:
  "wf_tree I k t \<Longrightarrow> node_height t < STACK_CAP \<Longrightarrow> cursor_fresh I D k (cursor_new D t)"
  by (simp add: cursor_fresh_def cursor_new_def)

lemma cursor_fresh_reset:
  "cursor_fresh I D k c \<or> cursor_at I D k c us ws \<Longrightarrow> cursor_fresh I D k (cursor_reset D c)"
  by (auto simp: cursor_fresh_def cursor_at_def cursor_reset_def)

lemma cur_tree_simps [simp]:
  "cur_tree (cursor_new D t) = t"
  "cur_tree (cursor_reset D c) = cur_tree c"
  by (simp_all add: cursor_new_def cursor_reset_def)

lemma locate_wf_node:
  "locate I D t p stk us x vs \<Longrightarrow> wf_tree I k t \<Longrightarrow> wf_node I k (node_height t) t"
  by (auto simp: wf_tree_def tree_new_def elim: locate.cases)

lemma cursor_at_item:
  assumes "cursor_at I D k c us ws"
  shows "cursor_item c = Some (first_opt ws)"
    and "cursor_item_summary c = Some (map_option (item_summary I) (first_opt ws))"
proof -
  have "cursor_item c = Some (first_opt ws) \<and>
    cursor_item_summary c = Some (map_option (item_summary I) (first_opt ws))"
  proof (cases ws)
    case Nil
    then show ?thesis
      using assms by (simp add: cursor_at_def cursor_item_def cursor_item_summary_def first_opt_def)
  next
    case (Cons x vs)
    with assms have l: "locate I D (cur_tree c) (dim_zero D) (cur_stack c) us x vs"
      and wf: "wf_tree I k (cur_tree c)" and d: "did_seek c" by (auto simp: cursor_at_def)
    from locate_top [OF l locate_wf_node [OF l wf]] d show ?thesis
      by (auto simp: cursor_item_def cursor_item_summary_def first_opt_def index_opt_def Cons)
  qed
  then show "cursor_item c = Some (first_opt ws)"
    and "cursor_item_summary c = Some (map_option (item_summary I) (first_opt ws))" by auto
qed

lemma cursor_at_end:
  "cursor_at I D k c us ws \<Longrightarrow> cursor_end D c = Some (case ws of
     [] \<Rightarrow> advance I D (dim_zero D) us
   | x # _ \<Rightarrow> dim_add D (advance I D (dim_zero D) us) (item_summary I x))"
  using cursor_at_item(2) [of I D k c us ws]
  by (cases ws) (simp_all add: cursor_end_def first_opt_def, simp_all add: cursor_at_def)

context seek_aggregate
begin

lemma seek_empty:
  assumes "den g xs"
  shows "\<exists>g'. seek_loop D A target bias [\<lparr>entry_tree = tree_new I, entry_index = 0, entry_position = ep\<rparr>] q g asc =
    Some ([], q, g') \<and> den g' xs"
  using end_leaf_law [OF begin_leaf_law [OF assms]]
  by (auto simp: seek_loop.simps [of D A target bias] tree_new_def)

text \<open>The loop as \<open>seek_internal\<close> starts it.\<close>

lemma seek_loop_ok:
  fixes bias :: bias
  assumes c: "cursor_fresh I D k c \<and> us = [] \<and> ws = flat (cur_tree c) \<or> cursor_at I D k c us ws"
    and mono: "monotone_target target (item_ends I D (cur_position c) ws)" and den: "den g xs"
  defines "stack \<equiv> (if did_seek c then cur_stack c
      else \<lparr>entry_tree = cur_tree c, entry_index = 0, entry_position = dim_zero D\<rparr> # cur_stack c)"
    and "ps \<equiv> passed I D target bias (cur_position c) ws"
    and "rs \<equiv> not_passed I D target bias (cur_position c) ws"
  shows "\<exists>stk g'. seek_loop D A target bias stack (cur_position c) g False =
      Some (stk, advance I D (cur_position c) ps, g') \<and> den g' (xs @ ps) \<and>
      (case rs of [] \<Rightarrow> stk = []
       | y # vs \<Rightarrow> locate I D (cur_tree c) (dim_zero D) stk (us @ ps) y vs)"
proof -
  let ?t = "cur_tree c" and ?q = "cur_position c"
  have t: "wf_tree I k ?t" "node_height ?t < STACK_CAP" using c by (auto simp: cursor_fresh_def cursor_at_def)
  have q: "?q = advance I D (dim_zero D) us" using c by (auto simp: cursor_fresh_def cursor_at_def)
  consider (empty) "?t = tree_new I" "cursor_fresh I D k c" "ws = []"
    | (finished) "cursor_at I D k c us ws" "ws = []"
    | (run) "seek_outcome target bias ?t (dim_zero D) [] us ?q ws xs
        (seek_loop D A target bias stack ?q g False)"
  proof (cases "cursor_at I D k c us ws")
    case True
    then show ?thesis
    proof (cases ws)
      case Nil
      then show ?thesis using True that(2) by simp
    next
      case (Cons x vs)
      with True have l: "locate I D ?t (dim_zero D) (cur_stack c) us x vs" "stack = cur_stack c"
        by (auto simp: cursor_at_def stack_def)
      from seek_resume [OF l(1) locate_wf_node [OF l(1) t(1)] q, of target "[]" g xs bias] mono t(2) den
      show ?thesis using that(3) l(2) Cons by simp
    qed
  next
    case False
    with c have f: "cursor_fresh I D k c" "us = []" "ws = flat ?t" by auto
    show ?thesis
    proof (cases "?t = tree_new I")
      case True
      then show ?thesis using f that(1) by simp
    next
      case False
      with t have "wf_node I k (node_height ?t) ?t" by (simp add: wf_tree_def)
      from seek_fresh [OF this, of target ?q "[]" g xs bias] mono t(2) den f
      show ?thesis using that(3) by (simp add: cursor_fresh_def stack_def)
    qed
  qed
  then show ?thesis
  proof cases
    case empty
    then show ?thesis
      using seek_empty [OF den, of target bias "dim_zero D" ?q False]
      by (auto simp: stack_def ps_def rs_def not_passed_def cursor_fresh_def)
  next
    case finished
    then show ?thesis
      using den by (auto simp: stack_def ps_def rs_def not_passed_def cursor_at_def
          seek_loop.simps [of D A target bias "[]"])
  next
    case run
    then show ?thesis
      unfolding seek_outcome_def
    proof (elim disjE exE conjE)
      fix us' y vs' stk g'
      assume a: "ws = us' @ y # vs'" "\<forall>e\<in>set (item_ends I D ?q us'). \<not> target_in bias (target e)"
        "target_in bias (target (dim_add D (advance I D ?q us') (item_summary I y)))"
        "seek_loop D A target bias stack ?q g False = Some (stk @ [], advance I D ?q us', g')"
        "locate I D ?t (dim_zero D) stk (us @ us') y vs'" "den g' (xs @ us')"
      from passed_stop [OF a(2,3)] have "ps = us'" "rs = y # vs'"
        by (simp_all add: ps_def rs_def not_passed_def a(1))
      then show ?thesis using a by simp
    next
      fix g'
      assume a: "\<forall>e\<in>set (item_ends I D ?q ws). \<not> target_in bias (target e)"
        "seek_loop D A target bias stack ?q g False =
          seek_loop D A target bias [] (advance I D ?q ws) g' True" "den g' (xs @ ws)"
      from passed_all [OF a(1)] have "ps = ws" "rs = []" by (simp_all add: ps_def rs_def not_passed_def)
      then show ?thesis using a by (simp add: seek_loop.simps [of D A target bias "[]"])
    qed
  qed
qed

text \<open>
  The seek: it does not panic, passes exactly the items the target lies beyond, and
  tells whether the target is the location it ends at.
\<close>

lemma seek_internal_ok:
  fixes bias :: bias
  assumes c: "cursor_fresh I D k c \<and> us = [] \<and> ws = flat (cur_tree c) \<or> cursor_at I D k c us ws"
    and mono: "monotone_target target (item_ends I D (cur_position c) ws)" and den: "den g xs"
    and forward: "target (cur_position c) \<noteq> Less"
  defines "ps \<equiv> passed I D target bias (cur_position c) ws"
    and "rs \<equiv> not_passed I D target bias (cur_position c) ws"
  shows "\<exists>g' c'. seek_internal D A target bias g c =
      Some (target (case (bias, rs) of
          (LeftBias, y # _) \<Rightarrow> dim_add D (cur_position c') (item_summary I y)
        | _ \<Rightarrow> cur_position c') = Equal, g', c') \<and>
      cursor_at I D k c' (us @ ps) rs \<and> cur_tree c' = cur_tree c \<and> den g' (xs @ ps)"
proof -
  from seek_loop_ok [OF c mono den] obtain stk g' where
    l: "seek_loop D A target bias (if did_seek c then cur_stack c
      else \<lparr>entry_tree = cur_tree c, entry_index = 0, entry_position = dim_zero D\<rparr> # cur_stack c)
      (cur_position c) g False = Some (stk, advance I D (cur_position c) ps, g')"
    and d: "den g' (xs @ ps)" and stk: "case rs of [] \<Rightarrow> stk = []
       | y # vs \<Rightarrow> locate I D (cur_tree c) (dim_zero D) stk (us @ ps) y vs"
    unfolding ps_def rs_def by blast
  define c' where "c' = c\<lparr>did_seek := True, cur_stack := stk,
     cur_position := advance I D (cur_position c) ps, at_end := (stk = [])\<rparr>"
  have ne: "stk \<noteq> []" if "rs = y # vs" for y vs
    using stk that by (auto elim: locate.cases)
  have at: "cursor_at I D k c' (us @ ps) rs"
    using c stk ne by (auto simp: cursor_at_def cursor_fresh_def c'_def ps_def rs_def split: list.splits)
  have "seek_internal D A target bias g c = do {
        end \<leftarrow> (if bias = LeftBias then cursor_end D c' else Some (cur_position c'));
        Some (target end = Equal, g', c')
      }"
    using forward l by (simp add: seek_internal_def c'_def Let_def)
  with at d cursor_at_end [OF at] show ?thesis
    by (intro exI [of _ g'] exI [of _ c'])
      (cases bias; auto simp: c'_def cursor_at_def split: list.splits)
qed

end

section \<open>The three aggregates\<close>

definition slice_den :: "('t, 's) summary_ops \<Rightarrow> nat \<Rightarrow> ('t, 's) slice_state \<Rightarrow> 't list \<Rightarrow> bool" where
  "slice_den I k g xs \<longleftrightarrow> wf_tree I k (slice_tree g) \<and> flat (slice_tree g) = xs \<and> leaf_items g = [] \<and>
     leaf_item_summaries g = [] \<and> leaf_summary g = summary_zero I"

definition slice_in_leaf :: "('t, 's) summary_ops \<Rightarrow> nat \<Rightarrow> ('t, 's) slice_state \<Rightarrow> 't list \<Rightarrow> nat \<Rightarrow> bool" where
  "slice_in_leaf I k g xs n \<longleftrightarrow> wf_tree I k (slice_tree g) \<and> flat (slice_tree g) @ leaf_items g = xs \<and>
     length (leaf_items g) = n \<and> n \<le> 2 * TREE_BASE \<and>
     leaf_item_summaries g = map (item_summary I) (leaf_items g) \<and>
     leaf_summary g = sum_summaries I (map (item_summary I) (leaf_items g))"

lemma wf_tree_leaf:
  "length its \<le> 2 * TREE_BASE \<Longrightarrow>
   wf_tree I k (Leaf (sum_summaries I (map (item_summary I) its)) its (map (item_summary I) its))"
  by (cases "its = []") (auto simp: wf_tree_def tree_new_def sum_summaries_def)

context dimension
begin

lemma sum_snoc: "sum_summaries I (map f xs @ [s]) = summary_add I (sum_summaries I (map f xs)) s"
  by (simp add: sum_append)

lemma unit_aggregate_laws: "seek_aggregate I D unit_aggregate k (\<lambda>_ _. True) (\<lambda>_ _ _. True)"
  by unfold_locales (auto simp: unit_aggregate_def)

lemma slice_aggregate_laws:
  assumes "k \<le> TREE_BASE"
  shows "seek_aggregate I D (slice_aggregate I) k (slice_den I k) (slice_in_leaf I k)"
proof unfold_locales
  fix g xs assume "slice_den I k g xs"
  then show "slice_in_leaf I k (begin_leaf (slice_aggregate I) g) xs 0"
    by (auto simp: slice_den_def slice_in_leaf_def slice_aggregate_def)
next
  fix g xs n x assume "slice_in_leaf I k g xs n" and "n < 2 * TREE_BASE"
  then show "\<exists>g'. push_item (slice_aggregate I) x (item_summary I x) g = Some g' \<and>
      slice_in_leaf I k g' (xs @ [x]) (Suc n)"
    by (auto simp: slice_in_leaf_def slice_aggregate_def slice_push_item_def array_push_Some sum_snoc)
next
  fix g xs n assume g: "slice_in_leaf I k g xs n"
  then have "wf_tree I k (Leaf (leaf_summary g) (leaf_items g) (leaf_item_summaries g))"
    using wf_tree_leaf [of "leaf_items g" I k] by (simp add: slice_in_leaf_def)
  with g show "\<exists>g'. end_leaf (slice_aggregate I) g = Some g' \<and> slice_den I k g' xs"
    using tree_append_ok [of k "slice_tree g" "Leaf (leaf_summary g) (leaf_items g) (leaf_item_summaries g)"] assms
    by (auto simp: slice_in_leaf_def slice_aggregate_def slice_end_leaf_def slice_den_def)
next
  fix g xs h t assume g: "slice_den I k g xs" and t: "wf_node I k h t"
  from tree_append_ok [of k "slice_tree g" t] g wf_tree_node [OF t] assms
  show "\<exists>g'. push_tree (slice_aggregate I) t (node_summary t) g = Some g' \<and> slice_den I k g' (xs @ flat t)"
    by (auto simp: slice_aggregate_def slice_push_tree_def slice_den_def)
qed

lemma summary_aggregate_laws:
  assumes "dimension I E"
  shows "seek_aggregate I D (summary_aggregate E) k (\<lambda>g xs. g = advance I E (dim_zero E) xs)
     (\<lambda>g xs n. g = advance I E (dim_zero E) xs)"
  by unfold_locales
    (auto simp: summary_aggregate_def dimension.dim_add_node [OF assms])

text \<open>Where a seek may start: before anything was sought, or at a place in the tree.\<close>

abbreviation starts :: "nat \<Rightarrow> ('t, 's, 'd) cursor \<Rightarrow> 't list \<Rightarrow> 't list \<Rightarrow> bool" where
  "starts k c us ws \<equiv> cursor_fresh I D k c \<and> us = [] \<and> ws = flat (cur_tree c) \<or> cursor_at I D k c us ws"

abbreviation seek_end :: "bias \<Rightarrow> ('t, 's, 'd) cursor \<Rightarrow> 't list \<Rightarrow> 'd" where
  "seek_end bias c rs \<equiv> (case (bias, rs) of
     (LeftBias, y # _) \<Rightarrow> dim_add D (cur_position c) (item_summary I y)
   | _ \<Rightarrow> cur_position c)"

lemma cursor_seek_forward_ok:
  assumes "starts k c us ws" and "monotone_target target (item_ends I D (cur_position c) ws)"
    and "target (cur_position c) \<noteq> Less"
  shows "\<exists>c'. cursor_seek_forward D target bias c =
       Some (target (seek_end bias c' (not_passed I D target bias (cur_position c) ws)) = Equal, c') \<and>
     cursor_at I D k c' (us @ passed I D target bias (cur_position c) ws)
       (not_passed I D target bias (cur_position c) ws) \<and> cur_tree c' = cur_tree c"
proof -
  from seek_aggregate.seek_internal_ok [OF unit_aggregate_laws assms(1,2) TrueI assms(3),
      where bias = bias and g = "()"]
  show ?thesis by (auto simp: cursor_seek_forward_def)
qed

lemma cursor_seek_ok:
  assumes "cursor_fresh I D k c \<or> cursor_at I D k c us ws"
    and "monotone_target target (item_ends I D (dim_zero D) (flat (cur_tree c)))"
    and "target (dim_zero D) \<noteq> Less"
  defines "xs \<equiv> flat (cur_tree c)"
  shows "\<exists>c'. cursor_seek D target bias c =
       Some (target (seek_end bias c' (not_passed I D target bias (dim_zero D) xs)) = Equal, c') \<and>
     cursor_at I D k c' (passed I D target bias (dim_zero D) xs)
       (not_passed I D target bias (dim_zero D) xs) \<and> cur_tree c' = cur_tree c"
proof -
  have f: "cursor_fresh I D k (cursor_reset D c)" using assms(1) by (rule cursor_fresh_reset)
  then have "cur_position (cursor_reset D c) = dim_zero D" by (simp add: cursor_fresh_def)
  then show ?thesis
    using cursor_seek_forward_ok [of k "cursor_reset D c" "[]" xs target bias] f assms(2,3)
    by (auto simp: cursor_seek_def cursor_seek_forward_def xs_def)
qed

lemma cursor_slice_ok:
  assumes "k \<le> TREE_BASE" and "starts k c us ws"
    and "monotone_target target (item_ends I D (cur_position c) ws)" and "target (cur_position c) \<noteq> Less"
  shows "\<exists>t c'. cursor_slice I D target bias c = Some (t, c') \<and> wf_tree I k t \<and>
     flat t = passed I D target bias (cur_position c) ws \<and>
     cursor_at I D k c' (us @ passed I D target bias (cur_position c) ws)
       (not_passed I D target bias (cur_position c) ws) \<and> cur_tree c' = cur_tree c"
proof -
  have start: "slice_den I k (slice_start I) []" by (simp add: slice_den_def slice_start_def)
  from seek_aggregate.seek_internal_ok [OF slice_aggregate_laws [OF assms(1)] assms(2,3) start assms(4),
      where bias = bias]
  show ?thesis by (auto simp: cursor_slice_def slice_den_def)
qed

lemma cursor_suffix_ok:
  assumes "k \<le> TREE_BASE" and "starts k c us ws"
  shows "\<exists>t c'. cursor_suffix I D c = Some (t, c') \<and> wf_tree I k t \<and> flat t = ws \<and>
     cursor_at I D k c' (us @ ws) [] \<and> cur_tree c' = cur_tree c"
proof -
  have "monotone_target end_target ps" for ps :: "'d list"
    by (induction ps) (auto simp: monotone_target_def end_target_def)
  moreover have "end_target (cur_position c) \<noteq> Less" by (simp add: end_target_def)
  ultimately show ?thesis
    using cursor_slice_ok [OF assms, of end_target RightBias] by (simp add: cursor_suffix_def not_passed_def)
qed

lemma cursor_summary_ok:
  assumes "dimension I E" and "starts k c us ws"
    and "monotone_target target (item_ends I D (cur_position c) ws)" and "target (cur_position c) \<noteq> Less"
  shows "\<exists>c'. cursor_summary D E target bias c =
       Some (advance I E (dim_zero E) (passed I D target bias (cur_position c) ws), c') \<and>
     cursor_at I D k c' (us @ passed I D target bias (cur_position c) ws)
       (not_passed I D target bias (cur_position c) ws) \<and> cur_tree c' = cur_tree c"
proof -
  have start: "dim_zero E = advance I E (dim_zero E) []" by simp
  from seek_aggregate.seek_internal_ok [OF summary_aggregate_laws [OF assms(1)] assms(2,3) start assms(4),
      where bias = bias]
  show ?thesis by (auto simp: cursor_summary_def)
qed

end

end
