(* ===== verification/Sum_Tree_Walk.thy ===== *)
theory Sum_Tree_Walk
  imports Sum_Tree_Seek
begin

text \<open>
  Stepping a cursor (\<open>next\<close>, \<open>prev\<close>, \<open>search_forward\<close>, \<open>search_backward\<close> and the filter
  cursor of \<open>crates/sum_tree/src/cursor.rs\<close>) and the stand-alone iterator \<open>Iter\<close>. The filter
  closure is a predicate on summaries.
\<close>

section \<open>Searching forward\<close>

text \<open>
  The inner loops: move the entry over the children (or items) whose summary the filter
  rejects; the result is the index, the entry position and the cursor position.
\<close>

fun skip_rejected :: "('s, 'd) dim_ops \<Rightarrow> ('s \<Rightarrow> bool) \<Rightarrow> 's list \<Rightarrow> nat \<Rightarrow> 'd \<Rightarrow> 'd \<Rightarrow> nat \<times> 'd \<times> 'd" where
  "skip_rejected D filter_node [] index entry_pos position = (index, entry_pos, position)"
| "skip_rejected D filter_node (s # ss) index entry_pos position =
     (if filter_node s then (index, entry_pos, position)
      else skip_rejected D filter_node ss (index + 1) (dim_add D entry_pos s) (dim_add D position s))"

text \<open>The result is the stack, the position, and whether the function returned from the loop.\<close>

partial_function (option) forward_loop :: "('s, 'd) dim_ops \<Rightarrow> ('s \<Rightarrow> bool) \<Rightarrow>
    ('t, 's, 'd) stack_entry list \<Rightarrow> 'd \<Rightarrow> bool \<Rightarrow> (('t, 's, 'd) stack_entry list \<times> 'd \<times> bool) option" where
  "forward_loop D filter_node stack position descend =
     (case stack of
        [] \<Rightarrow> Some ([], position, False)
      | entry # rest \<Rightarrow>
          (case entry_tree entry of
             Internal h s ss ts \<Rightarrow>
               (let index = (if descend then entry_index entry else entry_index entry + 1);
                    entry_pos = (if descend then entry_position entry else position);
                    (index', entry_pos', position') =
                      skip_rejected D filter_node (drop index ss) index entry_pos position
                in case index_opt ts index' of
                  Some subtree \<Rightarrow> do {
                    stack' \<leftarrow> push_entry \<lparr>entry_tree = subtree, entry_index = 0, entry_position = position'\<rparr>
                      (entry\<lparr>entry_index := index', entry_position := entry_pos'\<rparr> # rest);
                    forward_loop D filter_node stack' position' True
                  }
                | None \<Rightarrow> forward_loop D filter_node rest position' False)
           | Leaf s its ss \<Rightarrow>
               if \<not> descend \<and> entry_index entry \<ge> length ss then None
               else
                 (let item_summary = ss ! entry_index entry;
                      index = (if descend then entry_index entry else entry_index entry + 1);
                      entry_pos = (if descend then entry_position entry
                        else dim_add D (entry_position entry) item_summary);
                      pos = (if descend then position else dim_add D position item_summary);
                      (index', entry_pos', position') =
                        skip_rejected D filter_node (drop index ss) index entry_pos pos
                  in if index' < length ss then
                    Some (entry\<lparr>entry_index := index', entry_position := entry_pos'\<rparr> # rest, position', True)
                  else forward_loop D filter_node rest position' False)))"

declare forward_loop.simps [code]

definition search_forward :: "('s, 'd) dim_ops \<Rightarrow> ('s \<Rightarrow> bool) \<Rightarrow> ('t, 's, 'd) cursor \<Rightarrow>
    ('t, 's, 'd) cursor option" where
  "search_forward D filter_node c = do {
     (stack, descend) \<leftarrow>
       (if cur_stack c = [] \<and> \<not> at_end c then do {
          stack \<leftarrow> push_entry \<lparr>entry_tree = cur_tree c, entry_index = 0, entry_position = dim_zero D\<rparr> [];
          Some (stack, True)
        }
        else Some (cur_stack c, False));
     let did = (if cur_stack c = [] then True else did_seek c);
     (stack', position', returned) \<leftarrow> forward_loop D filter_node stack (cur_position c) descend;
     Some (c\<lparr>did_seek := did, cur_stack := stack', cur_position := position',
       at_end := (if returned then at_end c else stack' = [])\<rparr>)
   }"

definition cursor_next :: "('s, 'd) dim_ops \<Rightarrow> ('t, 's, 'd) cursor \<Rightarrow> ('t, 's, 'd) cursor option" where
  "cursor_next D c = search_forward D (\<lambda>_. True) c"

section \<open>Searching backward\<close>

partial_function (option) backward_loop :: "('s, 'd) dim_ops \<Rightarrow> ('s \<Rightarrow> bool) \<Rightarrow>
    ('t, 's, 'd) stack_entry list \<Rightarrow> 'd \<Rightarrow> bool \<Rightarrow> (('t, 's, 'd) stack_entry list \<times> 'd) option" where
  "backward_loop D filter_node stack position descending =
     (case stack of
        [] \<Rightarrow> Some ([], position)
      | entry # rest \<Rightarrow>
          (let base = (case rest of [] \<Rightarrow> dim_zero D | parent # _ \<Rightarrow> entry_position parent) in
           if \<not> descending \<and> entry_index entry = 0 then backward_loop D filter_node rest base descending
           else
             (let index = (if descending then entry_index entry else entry_index entry - 1);
                  ss = child_summaries (entry_tree entry)
              in
              if index \<ge> length ss then None
              else
                (let position' = foldl (dim_add D) base (take index ss);
                     entry' = entry\<lparr>entry_index := index, entry_position := position'\<rparr>;
                     descending' = filter_node (ss ! index)
                 in case entry_tree entry of
                   Internal h s cs ts \<Rightarrow>
                     if descending' then do {
                       tree \<leftarrow> index_opt ts index;
                       (if child_summaries tree = [] then None
                        else do {
                          stack' \<leftarrow> push_entry \<lparr>entry_tree = tree,
                              entry_index = length (child_summaries tree) - 1, entry_position = dim_zero D\<rparr>
                            (entry' # rest);
                          backward_loop D filter_node stack' position' True
                        })
                     }
                     else backward_loop D filter_node (entry' # rest) position' False
                 | Leaf _ _ _ \<Rightarrow>
                     if descending' then Some (entry' # rest, position')
                     else backward_loop D filter_node (entry' # rest) position' False))))"

declare backward_loop.simps [code]

definition search_backward :: "('s, 'd) dim_ops \<Rightarrow> ('s \<Rightarrow> bool) \<Rightarrow> ('t, 's, 'd) cursor \<Rightarrow>
    ('t, 's, 'd) cursor option" where
  "search_backward D filter_node c =
     (let c1 = (if did_seek c then c else c\<lparr>did_seek := True, at_end := True\<rparr>) in do {
        c2 \<leftarrow> (if at_end c1 then
            (let c' = c1\<lparr>cur_position := dim_zero D, at_end := tree_is_empty (cur_tree c1)\<rparr> in
             if tree_is_empty (cur_tree c1) then Some c'
             else do {
               stack \<leftarrow> push_entry \<lparr>entry_tree = cur_tree c1,
                   entry_index = length (child_summaries (cur_tree c1)),
                   entry_position = dim_add D (dim_zero D) (node_summary (cur_tree c1))\<rparr> (cur_stack c');
               Some (c'\<lparr>cur_stack := stack\<rparr>)
             })
          else Some c1);
        (stack', position') \<leftarrow> backward_loop D filter_node (cur_stack c2) (cur_position c2) False;
        Some (c2\<lparr>cur_stack := stack', cur_position := position'\<rparr>)
      })"

definition cursor_prev :: "('s, 'd) dim_ops \<Rightarrow> ('t, 's, 'd) cursor \<Rightarrow> ('t, 's, 'd) cursor option" where
  "cursor_prev D c = search_backward D (\<lambda>_. True) c"

section \<open>Iterating with a cursor, and the iterator without positions\<close>

text \<open>\<open>Iterator::next\<close> of a filter cursor; a plain cursor iterates with the trivial filter.\<close>

definition filter_iter_next :: "('s, 'd) dim_ops \<Rightarrow> ('s \<Rightarrow> bool) \<Rightarrow> ('t, 's, 'd) cursor \<Rightarrow>
    ('t option \<times> ('t, 's, 'd) cursor) option" where
  "filter_iter_next D filter_node c = do {
     c1 \<leftarrow> (if did_seek c then Some c else search_forward D filter_node c);
     item \<leftarrow> cursor_item c1;
     (case item of
        None \<Rightarrow> Some (None, c1)
      | Some x \<Rightarrow> do { c2 \<leftarrow> search_forward D filter_node c1; Some (Some x, c2) })
   }"

text \<open>The items a cursor delivers from now on, as \<open>collect\<close> gathers them.\<close>

partial_function (option) iter_collect :: "('s, 'd) dim_ops \<Rightarrow> ('s \<Rightarrow> bool) \<Rightarrow> ('t, 's, 'd) cursor \<Rightarrow>
    't list option" where
  "iter_collect D filter_node c = do {
     (item, c') \<leftarrow> filter_iter_next D filter_node c;
     (case item of
        None \<Rightarrow> Some []
      | Some x \<Rightarrow> do { xs \<leftarrow> iter_collect D filter_node c'; Some (x # xs) })
   }"

declare iter_collect.simps [code]

text \<open>\<open>SumTree::items\<close>: a cursor of the unit dimension stepped to the end.\<close>

definition unit_dim :: "('s, unit) dim_ops" where
  "unit_dim = \<lparr>dim_zero = (), dim_add = (\<lambda>_ _. ())\<rparr>"

partial_function (option) items_loop :: "('s, 'd) dim_ops \<Rightarrow> ('t, 's, 'd) cursor \<Rightarrow> 't list option" where
  "items_loop D c = do {
     item \<leftarrow> cursor_item c;
     (case item of
        None \<Rightarrow> Some []
      | Some x \<Rightarrow> do { c' \<leftarrow> cursor_next D c; xs \<leftarrow> items_loop D c'; Some (x # xs) })
   }"

declare items_loop.simps [code]

definition tree_items :: "('t, 's) node \<Rightarrow> 't list option" where
  "tree_items t = do { c \<leftarrow> cursor_next unit_dim (cursor_new unit_dim t); items_loop unit_dim c }"

record ('t, 's) iter =
  iter_tree :: "('t, 's) node"
  iter_stack :: "(('t, 's) node \<times> nat) list"

definition iter_new :: "('t, 's) node \<Rightarrow> ('t, 's) iter" where
  "iter_new t = \<lparr>iter_tree = t, iter_stack = []\<rparr>"

partial_function (option) iter_loop :: "(('t, 's) node \<times> nat) list \<Rightarrow> bool \<Rightarrow>
    ('t option \<times> (('t, 's) node \<times> nat) list) option" where
  "iter_loop stack descend =
     (case stack of
        [] \<Rightarrow> Some (None, [])
      | (tree, i) # rest \<Rightarrow>
          (let index = (if descend then i else i + 1) in
           case tree of
             Internal h s ss ts \<Rightarrow>
               (case index_opt ts index of
                  Some subtree \<Rightarrow>
                    if length stack < STACK_CAP then iter_loop ((subtree, 0) # (tree, index) # rest) True
                    else None
                | None \<Rightarrow> iter_loop rest False)
           | Leaf s its ss \<Rightarrow>
               (case index_opt its index of
                  Some item \<Rightarrow> Some (Some item, (tree, index) # rest)
                | None \<Rightarrow> iter_loop rest False)))"

declare iter_loop.simps [code]

definition iter_next :: "('t, 's) iter \<Rightarrow> ('t option \<times> ('t, 's) iter) option" where
  "iter_next it =
     (let (stack, descend) = (if iter_stack it = [] then ([(iter_tree it, 0)], True) else (iter_stack it, False)) in do {
        (item, stack') \<leftarrow> iter_loop stack descend;
        Some (item, it\<lparr>iter_stack := stack'\<rparr>)
      })"

definition iter_size_hint :: "('t, 's) iter \<Rightarrow> (nat \<times> nat option) option" where
  "iter_size_hint it =
     (case iter_stack it of
        (tree, index) # _ \<Rightarrow>
          if index \<le> length (child_summaries tree) then Some (length (child_summaries tree) - index, None) else None
      | [] \<Rightarrow> Some (length (child_summaries (iter_tree it)), None))"

definition iter_last :: "('t, 's) iter \<Rightarrow> 't option option" where
  "iter_last it = do { l \<leftarrow> rightmost_leaf (iter_tree it); tree_last l }"

section \<open>Forward search finds the next item that passes\<close>

lemma skip_rejected_items:
  "skip_rejected D f (map (item_summary I) ws) i ep q =
     (let us = takeWhile (\<lambda>x. \<not> f (item_summary I x)) ws in (i + length us, advance I D ep us, advance I D q us))"
  by (induction ws arbitrary: i ep q) (auto simp: Let_def)

text \<open>
  A filter that never rejects the summary of a non-empty run of items one of which passes
  may be used to prune whole subtrees.
\<close>

definition prunes :: "('t, 's) summary_ops \<Rightarrow> ('s \<Rightarrow> bool) \<Rightarrow> bool" where
  "prunes I f \<longleftrightarrow> (\<forall>xs. \<forall>x\<in>set xs. f (item_summary I x) \<longrightarrow> f (sum_summaries I (map (item_summary I) xs)))"

lemma prunes_True [simp]: "prunes I (\<lambda>_. True)"
  by (simp add: prunes_def)

context dimension
begin

lemma skip_rejected_children:
  "kids I k h ts \<Longrightarrow> skip_rejected D f (map node_summary ts) i ep q =
     (let us = takeWhile (\<lambda>t. \<not> f (node_summary t)) ts in
      (i + length us, advance I D ep (concat (map flat us)), advance I D q (concat (map flat us))))"
  by (induction ts arbitrary: i ep q) (auto simp: Let_def dim_add_node)

lemma pruned_subtree:
  "prunes I f \<Longrightarrow> wf_node I k h t \<Longrightarrow> \<not> f (node_summary t) \<Longrightarrow> x \<in> set (flat t) \<Longrightarrow> \<not> f (item_summary I x)"
  by (auto simp: prunes_def node_summary_flat)

definition walk_outcome :: "('s \<Rightarrow> bool) \<Rightarrow> ('t, 's) node \<Rightarrow> 'd \<Rightarrow> ('t, 's, 'd) stack_entry list \<Rightarrow>
    't list \<Rightarrow> 'd \<Rightarrow> 't list \<Rightarrow> (('t, 's, 'd) stack_entry list \<times> 'd \<times> bool) option \<Rightarrow> bool" where
  "walk_outcome f t p rest us q ws r \<longleftrightarrow>
     (\<exists>us' y vs' stk. ws = us' @ y # vs' \<and> (\<forall>x\<in>set us'. \<not> f (item_summary I x)) \<and> f (item_summary I y) \<and>
        r = Some (stk @ rest, advance I D q us', True) \<and> locate I D t p stk (us @ us') y vs') \<or>
     (\<forall>x\<in>set ws. \<not> f (item_summary I x)) \<and> r = forward_loop D f rest (advance I D q ws) False"

lemma walk_outcome_skip:
  assumes "\<forall>x\<in>set ws0. \<not> f (item_summary I x)"
    and "walk_outcome f t p rest (us @ ws0) (advance I D q ws0) ws r"
  shows "walk_outcome f t p rest us q (ws0 @ ws) r"
  using assms(2) [unfolded walk_outcome_def]
proof (elim disjE exE conjE)
  fix us' y vs' stk
  assume a: "ws = us' @ y # vs'" "\<forall>x\<in>set us'. \<not> f (item_summary I x)" "f (item_summary I y)"
    "r = Some (stk @ rest, advance I D (advance I D q ws0) us', True)"
    "locate I D t p stk ((us @ ws0) @ us') y vs'"
  show ?thesis
    unfolding walk_outcome_def
    using a assms(1) by (intro disjI1 exI [of _ "ws0 @ us'"] exI [of _ y] exI [of _ vs'] exI [of _ stk]) auto
next
  assume "\<forall>x\<in>set ws. \<not> f (item_summary I x)"
    "r = forward_loop D f rest (advance I D (advance I D q ws0) ws) False"
  then show ?thesis
    unfolding walk_outcome_def using assms(1) by (intro disjI2) auto
qed

lemma walk_leaf:
  assumes "its \<noteq> []" and "length its \<le> 2 * TREE_BASE" and "i \<le> length its"
  shows "walk_outcome f (mk_leaf I its) p rest (take i its) q (drop i its)
    (forward_loop D f (\<lparr>entry_tree = mk_leaf I its, entry_index = i, entry_position = ep\<rparr> # rest) q True)"
proof -
  define us where "us = takeWhile (\<lambda>x. \<not> f (item_summary I x)) (drop i its)"
  have skip: "skip_rejected D f (drop i (map (item_summary I) its)) i ep q =
      (i + length us, advance I D ep us, advance I D q us)"
    using skip_rejected_items [of D f I "drop i its" i ep q] by (simp add: drop_map Let_def us_def)
  note step = forward_loop.simps [of D f "\<lparr>entry_tree = mk_leaf I its, entry_index = i, entry_position = ep\<rparr> # rest" q True]
  have rej: "\<forall>x\<in>set us. \<not> f (item_summary I x)" by (auto simp: us_def dest: set_takeWhileD)
  show ?thesis
  proof (cases "dropWhile (\<lambda>x. \<not> f (item_summary I x)) (drop i its)")
    case Nil
    then have us: "us = drop i its" unfolding us_def by (metis append_Nil2 takeWhile_dropWhile_id)
    then show ?thesis
      using rej step skip assms(3) unfolding walk_outcome_def
      by (intro disjI2) (simp add: mk_leaf_def Let_def us)
  next
    case (Cons y vs')
    then have d: "drop i its = us @ y # vs'" unfolding us_def by (metis takeWhile_dropWhile_id)
    have y: "f (item_summary I y)" using Cons by (metis hd_dropWhile list.sel(1) list.distinct(1))
    have its: "its = (take i its @ us) @ y # vs'" using d by (metis append_assoc append_take_drop_id)
    have len: "length (take i its @ us) = i + length us" using assms(3) by simp
    have at: "i + length us < length its" "take (i + length us) its = take i its @ us"
      "its ! (i + length us) = y" "drop (Suc (i + length us)) its = vs'"
      using nth_split_facts [OF its] unfolding len by simp_all
    let ?e = "\<lparr>entry_tree = mk_leaf I its, entry_index = i + length us, entry_position = advance I D ep us\<rparr>"
    have "locate I D (mk_leaf I its) p [?e] (take i its @ us) y vs'"
      using locate.at_leaf [OF at(1), of I D "sum_summaries I (map (item_summary I) its)"
          "map (item_summary I) its" p "advance I D ep us"] at by (simp add: mk_leaf_def)
    then show ?thesis
      using rej y d step skip at(1) unfolding walk_outcome_def
      by (intro disjI1 exI [of _ us] exI [of _ y] exI [of _ vs'] exI [of _ "[?e]"])
        (simp add: mk_leaf_def Let_def)
  qed
qed

lemma forward_loop_ascend:
  "forward_loop D f (\<lparr>entry_tree = Internal h s ss ts, entry_index = i, entry_position = ep\<rparr> # rest) q False =
   forward_loop D f (\<lparr>entry_tree = Internal h s ss ts, entry_index = Suc i, entry_position = q\<rparr> # rest) q True"
  by (subst (1 2) forward_loop.simps) (simp add: Let_def split: prod.split option.split)

lemma walk_outcome_lift:
  assumes i: "i < length ts" and q: "q = advance I D p (concat (map flat (take i ts)))"
    and child: "walk_outcome f (ts ! i) q
      (\<lparr>entry_tree = mk_internal I h ts, entry_index = i, entry_position = q\<rparr> # rest) us0 q0 ws r"
    and flat: "flat (ts ! i) = us0 @ ws"
    and cont: "walk_outcome f (mk_internal I h ts) p rest (concat (map flat (take (Suc i) ts)))
        (advance I D q0 ws) (concat (map flat (drop (Suc i) ts)))
        (forward_loop D f (\<lparr>entry_tree = mk_internal I h ts, entry_index = i, entry_position = q\<rparr> # rest)
          (advance I D q0 ws) False)"
  shows "walk_outcome f (mk_internal I h ts) p rest (concat (map flat (take i ts)) @ us0) q0
    (ws @ concat (map flat (drop (Suc i) ts))) r"
  using child [unfolded walk_outcome_def]
proof (elim disjE exE conjE)
  fix us' y vs' stk
  let ?e = "\<lparr>entry_tree = mk_internal I h ts, entry_index = i, entry_position = q\<rparr>"
  assume a: "ws = us' @ y # vs'" "\<forall>x\<in>set us'. \<not> f (item_summary I x)" "f (item_summary I y)"
    "r = Some (stk @ ?e # rest, advance I D q0 us', True)" "locate I D (ts ! i) q stk (us0 @ us') y vs'"
  have "locate I D (mk_internal I h ts) p (stk @ [?e]) (concat (map flat (take i ts)) @ us0 @ us') y
      (vs' @ concat (map flat (drop (Suc i) ts)))"
    using locate.at_child [OF i q a(5)] by (simp add: mk_internal_def)
  then show ?thesis
    unfolding walk_outcome_def using a
    by (intro disjI1 exI [of _ us'] exI [of _ y] exI [of _ "vs' @ concat (map flat (drop (Suc i) ts))"]
        exI [of _ "stk @ [?e]"]) simp
next
  assume a: "\<forall>x\<in>set ws. \<not> f (item_summary I x)"
    "r = forward_loop D f (\<lparr>entry_tree = mk_internal I h ts, entry_index = i, entry_position = q\<rparr> # rest)
       (advance I D q0 ws) False"
  have "concat (map flat (take (Suc i) ts)) = (concat (map flat (take i ts)) @ us0) @ ws"
    using i flat by (simp add: take_Suc_conv_app_nth)
  with cont walk_outcome_skip [OF a(1)] show ?thesis unfolding a(2) by simp
qed

lemma walk_internal_node:
  assumes below: "\<And>c q rest. wf_node I k h c \<Longrightarrow> length rest + Suc h \<le> STACK_CAP \<Longrightarrow>
      walk_outcome f c q rest [] q (flat c)
        (forward_loop D f (\<lparr>entry_tree = c, entry_index = 0, entry_position = q\<rparr> # rest) q True)"
    and kids: "kids I k h ts" and cap: "length rest + Suc (Suc h) \<le> STACK_CAP" and prunes: "prunes I f"
  shows "i \<le> length ts \<Longrightarrow> q = advance I D p (concat (map flat (take i ts))) \<Longrightarrow>
    walk_outcome f (mk_internal I (Suc h) ts) p rest (concat (map flat (take i ts))) q
      (concat (map flat (drop i ts)))
      (forward_loop D f
        (\<lparr>entry_tree = mk_internal I (Suc h) ts, entry_index = i, entry_position = q\<rparr> # rest) q True)"
proof (induction "length ts - i" arbitrary: i q)
  case 0
  then have "i = length ts" by simp
  then show ?case
    unfolding walk_outcome_def
    by (intro disjI2) (simp add: forward_loop.simps [of D f "_ # _"] mk_internal_def index_opt_def)
next
  case (Suc n)
  let ?t = "mk_internal I (Suc h) ts"
    and ?e = "\<lambda>i q. \<lparr>entry_tree = mk_internal I (Suc h) ts, entry_index = i, entry_position = q\<rparr>"
  from Suc.hyps(2) have i: "i < length ts" by simp
  then have d: "drop i ts = ts ! i # drop (Suc i) ts" by (rule Cons_nth_drop_Suc [symmetric])
  from kids_nth [OF kids i] have c: "wf_node I k h (ts ! i)" by simp
  let ?q = "advance I D q (flat (ts ! i))"
  have end_c: "dim_add D q (node_summary (ts ! i)) = ?q" using c by (rule dim_add_node)
  have q: "?q = advance I D p (concat (map flat (take (Suc i) ts)))"
    using Suc.prems(2) i by (simp add: take_Suc_conv_app_nth)
  have cont: "walk_outcome f ?t p rest (concat (map flat (take (Suc i) ts))) ?q
      (concat (map flat (drop (Suc i) ts))) (forward_loop D f (?e (Suc i) ?q # rest) ?q True)"
    using Suc.hyps(1) [of "Suc i" ?q] Suc.hyps(2) i q by simp
  show ?case
  proof (cases "f (node_summary (ts ! i))")
    case False
    have "forward_loop D f (?e i q # rest) q True = forward_loop D f (?e (Suc i) ?q # rest) ?q True"
      using i False end_c
      by (subst (1 2) forward_loop.simps)
        (simp add: mk_internal_def d drop_map Let_def split: prod.split option.split)
    moreover have "\<forall>x\<in>set (flat (ts ! i)). \<not> f (item_summary I x)"
      using pruned_subtree [OF prunes c False] by blast
    ultimately show ?thesis
      using cont walk_outcome_skip [of "flat (ts ! i)" f ?t p rest "concat (map flat (take i ts))" q] i
      by (simp add: d take_Suc_conv_app_nth)
  next
    case True
    have enter: "forward_loop D f (?e i q # rest) q True =
        forward_loop D f (\<lparr>entry_tree = ts ! i, entry_index = 0, entry_position = q\<rparr> # ?e i q # rest) q True"
      using i True end_c cap
      by (subst forward_loop.simps) (simp add: mk_internal_def d drop_map Let_def push_entry_def index_opt_def)
    have child: "walk_outcome f (ts ! i) q (?e i q # rest) [] q (flat (ts ! i))
        (forward_loop D f (?e i q # rest) q True)"
      unfolding enter using cap by (intro below c) simp
    show ?thesis
      using walk_outcome_lift [OF i Suc.prems(2) child] cont
      by (simp add: d mk_internal_def forward_loop_ascend)
  qed
qed

lemma walk_fresh:
  "prunes I f \<Longrightarrow> wf_node I k h c \<Longrightarrow> length rest + Suc h \<le> STACK_CAP \<Longrightarrow>
   walk_outcome f c q rest [] q (flat c)
     (forward_loop D f (\<lparr>entry_tree = c, entry_index = 0, entry_position = q\<rparr> # rest) q True)"
proof (induction h arbitrary: c q rest)
  case 0
  from 0(2) obtain its where c: "c = mk_leaf I its" "its \<noteq> []" "length its \<le> 2 * TREE_BASE"
    by (cases rule: wf_node_cases) auto
  from walk_leaf [OF c(2,3), of 0 f q rest q q] show ?case by (simp add: c(1))
next
  case (Suc h)
  from Suc.prems(2) obtain ts where c: "c = mk_internal I (Suc h) ts" "kids I k h ts"
    by (cases rule: wf_node_cases) auto
  from walk_internal_node [OF Suc.IH [OF Suc.prems(1)] c(2), of rest 0 q q] Suc.prems
  show ?case by (simp add: c(1))
qed

lemma walk_resume:
  "locate I D t p stk us x vs \<Longrightarrow> prunes I f \<Longrightarrow> wf_node I k h t \<Longrightarrow> q = advance I D p us \<Longrightarrow>
   length rest + Suc h \<le> STACK_CAP \<Longrightarrow>
   walk_outcome f t p rest (us @ [x]) (dim_add D q (item_summary I x)) vs (forward_loop D f (stk @ rest) q False)"
proof (induction arbitrary: h q rest rule: locate.induct)
  case (at_leaf i its s ss p ep)
  then have l: "Leaf s its ss = mk_leaf I its" "its \<noteq> []" "length its \<le> 2 * TREE_BASE" "Suc i \<le> length its"
    by (auto simp: wf_node_Leaf mk_leaf_def)
  let ?x = "item_summary I (its ! i)"
  have "forward_loop D f (\<lparr>entry_tree = mk_leaf I its, entry_index = i, entry_position = ep\<rparr> # rest) q False =
      forward_loop D f (\<lparr>entry_tree = mk_leaf I its, entry_index = Suc i, entry_position = dim_add D ep ?x\<rparr> # rest)
        (dim_add D q ?x) True"
    using at_leaf.hyps
    by (subst (1 2) forward_loop.simps) (simp add: mk_leaf_def Let_def split: prod.split)
  then show ?case
    using walk_leaf [OF l(2-4), of f p rest "dim_add D q ?x" "dim_add D ep ?x"] at_leaf.hyps
    by (simp add: l(1) take_Suc_conv_app_nth)
next
  case (at_child i ts q0 p stk us x vs h' s ss)
  from at_child.prems(2) obtain h0 where t: "h = Suc h0" "Internal h' s ss ts = mk_internal I h ts" "kids I k h0 ts"
    by (auto simp: wf_node_kids mk_internal_def)
  let ?e = "\<lparr>entry_tree = mk_internal I h ts, entry_index = i, entry_position = q0\<rparr>"
  let ?tail = "concat (map flat (drop (Suc i) ts))" and ?q = "dim_add D q (item_summary I x)"
  from kids_nth [OF t(3) at_child.hyps(1)] have c: "wf_node I k h0 (ts ! i)" by simp
  have flat: "flat (ts ! i) = (us @ [x]) @ vs" using locate_flat [OF at_child.hyps(3)] by simp
  have q: "q = advance I D q0 us" using at_child.prems(3) at_child.hyps(2) by simp
  have child: "walk_outcome f (ts ! i) q0 (?e # rest) (us @ [x]) ?q vs
      (forward_loop D f (stk @ ?e # rest) q False)"
    using at_child.IH [OF at_child.prems(1) c q] at_child.prems(4) t(1) by simp
  have pos: "advance I D ?q vs = advance I D p (concat (map flat (take (Suc i) ts)))"
    using q at_child.hyps(1,2) flat by (simp add: take_Suc_conv_app_nth)
  have "walk_outcome f (mk_internal I h ts) p rest (concat (map flat (take (Suc i) ts)))
        (advance I D ?q vs) ?tail (forward_loop D f (?e # rest) (advance I D ?q vs) False)"
    using walk_internal_node [OF walk_fresh [OF at_child.prems(1)] t(3) _ at_child.prems(1) _ pos]
      at_child.hyps(1) at_child.prems(4) t(1)
    by (simp add: mk_internal_def forward_loop_ascend)
  from walk_outcome_lift [OF at_child.hyps(1,2) child flat this] show ?case by (simp add: t(2))
qed

end

text \<open>A cursor that has run off the front of its tree.\<close>

definition cursor_front :: "('t, 's) summary_ops \<Rightarrow> ('s, 'd) dim_ops \<Rightarrow> nat \<Rightarrow> ('t, 's, 'd) cursor \<Rightarrow> bool" where
  "cursor_front I D k c \<longleftrightarrow> did_seek c \<and> wf_tree I k (cur_tree c) \<and> flat (cur_tree c) \<noteq> [] \<and>
     node_height (cur_tree c) < STACK_CAP \<and> cur_stack c = [] \<and> cur_position c = dim_zero D \<and> \<not> at_end c"

text \<open>\<open>ahead I D k c us ws\<close>: a step forward looks at the items \<open>ws\<close>, which follow \<open>us\<close>.\<close>

inductive ahead :: "('t, 's) summary_ops \<Rightarrow> ('s, 'd) dim_ops \<Rightarrow> nat \<Rightarrow> ('t, 's, 'd) cursor \<Rightarrow>
    't list \<Rightarrow> 't list \<Rightarrow> bool" for I D k c where
  ahead_fresh: "cursor_fresh I D k c \<Longrightarrow> ahead I D k c [] (flat (cur_tree c))"
| ahead_front: "cursor_front I D k c \<Longrightarrow> ahead I D k c [] (flat (cur_tree c))"
| ahead_end: "cursor_at I D k c us [] \<Longrightarrow> ahead I D k c us []"
| ahead_at: "cursor_at I D k c us (x # vs) \<Longrightarrow> ahead I D k c (us @ [x]) vs"

lemma ahead_at_iff: "cursor_at I D k c us ws \<Longrightarrow>
   ahead I D k c (us @ (case ws of [] \<Rightarrow> [] | x # _ \<Rightarrow> [x])) (tl ws)"
  by (cases ws) (auto intro: ahead.intros)

context dimension
begin

lemma forward_cursor_at:
  assumes "walk_outcome f (cur_tree c) (dim_zero D) [] us q ws r"
    and "q = advance I D (dim_zero D) us" and "wf_tree I k (cur_tree c)"
    and "node_height (cur_tree c) < STACK_CAP" and "flat (cur_tree c) = us @ ws" and "\<not> at_end c"
  shows "\<exists>stk q' b. r = Some (stk, q', b) \<and>
    cursor_at I D k (c\<lparr>did_seek := True, cur_stack := stk, cur_position := q',
        at_end := (if b then at_end c else stk = [])\<rparr>)
      (us @ takeWhile (\<lambda>x. \<not> f (item_summary I x)) ws) (dropWhile (\<lambda>x. \<not> f (item_summary I x)) ws)"
  using assms(1) [unfolded walk_outcome_def]
proof (elim disjE exE conjE)
  fix us' y vs' stk
  assume a: "ws = us' @ y # vs'" "\<forall>x\<in>set us'. \<not> f (item_summary I x)" "f (item_summary I y)"
    "r = Some (stk @ [], advance I D q us', True)" "locate I D (cur_tree c) (dim_zero D) stk (us @ us') y vs'"
  then have "takeWhile (\<lambda>x. \<not> f (item_summary I x)) ws = us'"
    "dropWhile (\<lambda>x. \<not> f (item_summary I x)) ws = y # vs'" by simp_all
  then show ?thesis
    using a assms(2-6)
    by (intro exI [of _ stk] exI [of _ "advance I D q us'"] exI [of _ True]) (simp add: cursor_at_def)
next
  assume a: "\<forall>x\<in>set ws. \<not> f (item_summary I x)" "r = forward_loop D f [] (advance I D q ws) False"
  then have us: "takeWhile (\<lambda>x. \<not> f (item_summary I x)) ws = ws"
    "dropWhile (\<lambda>x. \<not> f (item_summary I x)) ws = []" by simp_all
  show ?thesis
    unfolding us using a(2) assms(2-6)
    by (intro exI [of _ "[]"] exI [of _ "advance I D q ws"] exI [of _ False])
      (simp add: cursor_at_def forward_loop.simps [of D f "[]"])
qed

lemma search_forward_ok:
  assumes "prunes I f" and "ahead I D k c us ws"
  shows "\<exists>c'. search_forward D f c = Some c' \<and> cur_tree c' = cur_tree c \<and>
    cursor_at I D k c' (us @ takeWhile (\<lambda>x. \<not> f (item_summary I x)) ws)
      (dropWhile (\<lambda>x. \<not> f (item_summary I x)) ws)"
proof -
  let ?root = "\<lparr>entry_tree = cur_tree c, entry_index = 0, entry_position = dim_zero D\<rparr>"
  have root: ?thesis
    if c: "wf_tree I k (cur_tree c)" "node_height (cur_tree c) < STACK_CAP" "cur_stack c = []"
      "cur_position c = dim_zero D" "\<not> at_end c" "flat (cur_tree c) \<noteq> []" "us = []" "ws = flat (cur_tree c)"
  proof -
    from c have "wf_node I k (node_height (cur_tree c)) (cur_tree c)" by (auto simp: wf_tree_def)
    from walk_fresh [OF assms(1) this, of "[]" "dim_zero D"] c
    have "walk_outcome f (cur_tree c) (dim_zero D) [] us (dim_zero D) ws
      (forward_loop D f [?root] (dim_zero D) True)" by simp
    from forward_cursor_at [OF this _ c(1,2) _ c(5)] c show ?thesis
      by (auto simp: search_forward_def push_entry_def STACK_CAP_def Let_def)
  qed
  from assms(2) show ?thesis
  proof cases
    case ahead_fresh
    show ?thesis
    proof (cases "flat (cur_tree c) = []")
      case True
      with ahead_fresh have "at_end c" using wf_tree_empty_iff [of I k "cur_tree c"] by (simp add: cursor_fresh_def)
      with True ahead_fresh show ?thesis
        by (simp add: search_forward_def cursor_fresh_def forward_loop.simps [of D f "[]"] cursor_at_def)
    next
      case False
      with ahead_fresh have "\<not> at_end c" using wf_tree_empty_iff [of I k "cur_tree c"] by (simp add: cursor_fresh_def)
      with False ahead_fresh show ?thesis by (intro root) (simp_all add: cursor_fresh_def)
    qed
  next
    case ahead_front
    then show ?thesis by (intro root) (simp_all add: cursor_front_def)
  next
    case ahead_end
    then show ?thesis
      by (simp add: search_forward_def cursor_at_def forward_loop.simps [of D f "[]"])
  next
    case (ahead_at us0 x)
    then have l: "locate I D (cur_tree c) (dim_zero D) (cur_stack c) us0 x ws"
      and c: "wf_tree I k (cur_tree c)" "node_height (cur_tree c) < STACK_CAP" "\<not> at_end c"
        "cur_position c = advance I D (dim_zero D) us0" "did_seek c" "flat (cur_tree c) = us @ ws"
      by (auto simp: cursor_at_def)
    have ne: "cur_stack c \<noteq> []" using l by (auto elim: locate.cases)
    from walk_resume [OF l assms(1) locate_wf_node [OF l c(1)] c(4), of "[]"] c(2) ahead_at
    have "walk_outcome f (cur_tree c) (dim_zero D) [] us (dim_add D (cur_position c) (item_summary I x)) ws
      (forward_loop D f (cur_stack c) (cur_position c) False)" by simp
    from forward_cursor_at [OF this _ c(1,2) _ c(3)] c ne ahead_at show ?thesis
      by (auto simp: search_forward_def)
  qed
qed

lemma cursor_next_ok:
  assumes "ahead I D k c us ws"
  shows "\<exists>c'. cursor_next D c = Some c' \<and> cur_tree c' = cur_tree c \<and> cursor_at I D k c' us ws"
proof -
  have "takeWhile (\<lambda>x. \<not> True) ws = []" "dropWhile (\<lambda>x. \<not> True) ws = ws" by (cases ws; simp)+
  with search_forward_ok [OF prunes_True assms] show ?thesis by (simp add: cursor_next_def)
qed

text \<open>A cursor used as an iterator delivers the remaining items that pass.\<close>

lemma iter_collect_at:
  "prunes I f \<Longrightarrow> cursor_at I D k c us (x # ws) \<Longrightarrow>
   iter_collect D f c = Some (x # filter (\<lambda>x. f (item_summary I x)) ws)"
proof (induction "length ws" arbitrary: c us x ws rule: less_induct)
  case less
  let ?P = "\<lambda>x. \<not> f (item_summary I x)"
  from search_forward_ok [OF less.prems(1) ahead_at [OF less.prems(2)]] obtain c' where
    c': "search_forward D f c = Some c'" "cursor_at I D k c' ((us @ [x]) @ takeWhile ?P ws) (dropWhile ?P ws)"
    by blast
  have step: "iter_collect D f c = map_option ((#) x) (iter_collect D f c')"
    using cursor_at_item(1) [OF less.prems(2)] less.prems(2) c'(1)
    by (subst iter_collect.simps)
      (cases "iter_collect D f c'", simp_all add: filter_iter_next_def cursor_at_def first_opt_def)
  show ?case
  proof (cases "dropWhile ?P ws")
    case Nil
    with cursor_at_item(1) [OF c'(2)] c'(2) have "iter_collect D f c' = Some []"
      by (subst iter_collect.simps) (simp add: filter_iter_next_def cursor_at_def first_opt_def)
    moreover have "filter (\<lambda>x. f (item_summary I x)) ws = []" using Nil by (simp add: filter_empty_conv)
    ultimately show ?thesis using step by simp
  next
    case (Cons y vs)
    then have "length vs < length ws" using length_dropWhile_le [of ?P ws] by simp
    from less.hyps [OF this less.prems(1) c'(2) [unfolded Cons]]
    have "iter_collect D f c' = Some (y # filter (\<lambda>x. f (item_summary I x)) vs)" .
    moreover have "filter (\<lambda>x. f (item_summary I x)) ws = y # filter (\<lambda>x. f (item_summary I x)) vs"
    proof -
      have "ws = takeWhile ?P ws @ y # vs" using Cons by (metis takeWhile_dropWhile_id)
      moreover have "f (item_summary I y)" using Cons by (metis hd_dropWhile list.sel(1) list.distinct(1))
      moreover have "filter (\<lambda>x. f (item_summary I x)) (takeWhile ?P ws) = []"
        by (auto simp: filter_empty_conv dest: set_takeWhileD)
      ultimately show ?thesis by (metis append_Nil filter.simps(2) filter_append)
    qed
    ultimately show ?thesis using step by simp
  qed
qed

end

end
