(* ===== verification/Sum_Tree_Back.thy ===== *)
theory Sum_Tree_Back
  imports Sum_Tree_Walk
begin

text \<open>
  Searching backward (\<open>Cursor::search_backward\<close>, \<open>Cursor::prev\<close>) stops at the last item
  before the cursor that passes the filter, with the position of that item's start.
\<close>

text \<open>The items a step backward looks at.\<close>

inductive behind :: "('t, 's) summary_ops \<Rightarrow> ('s, 'd) dim_ops \<Rightarrow> nat \<Rightarrow> ('t, 's, 'd) cursor \<Rightarrow>
    't list \<Rightarrow> bool" for I D k c where
  behind_fresh: "cursor_fresh I D k c \<Longrightarrow> behind I D k c (flat (cur_tree c))"
| behind_at: "cursor_at I D k c us ws \<Longrightarrow> behind I D k c us"
| behind_front: "cursor_front I D k c \<Longrightarrow> behind I D k c []"

context dimension
begin

definition back_outcome :: "('s \<Rightarrow> bool) \<Rightarrow> ('t, 's) node \<Rightarrow> 'd \<Rightarrow> ('t, 's, 'd) stack_entry list \<Rightarrow>
    't list \<Rightarrow> (('t, 's, 'd) stack_entry list \<times> 'd) option \<Rightarrow> bool" where
  "back_outcome f t p rest us r \<longleftrightarrow>
     (\<exists>us' y vs' stk. us = us' @ y # vs' \<and> (\<forall>x\<in>set vs'. \<not> f (item_summary I x)) \<and> f (item_summary I y) \<and>
        r = Some (stk @ rest, advance I D p us') \<and>
        locate I D t p stk us' y (drop (Suc (length us')) (flat t))) \<or>
     (\<forall>x\<in>set us. \<not> f (item_summary I x)) \<and> r = backward_loop D f rest p False"

lemma back_outcome_skip:
  assumes "\<forall>x\<in>set ws. \<not> f (item_summary I x)" and "back_outcome f t p rest us r"
  shows "back_outcome f t p rest (us @ ws) r"
  using assms(2) [unfolded back_outcome_def]
proof (elim disjE exE conjE)
  fix us' y vs' stk
  assume a: "us = us' @ y # vs'" "\<forall>x\<in>set vs'. \<not> f (item_summary I x)" "f (item_summary I y)"
    "r = Some (stk @ rest, advance I D p us')" "locate I D t p stk us' y (drop (Suc (length us')) (flat t))"
  show ?thesis
    unfolding back_outcome_def
    using a assms(1) by (intro disjI1 exI [of _ us'] exI [of _ y] exI [of _ "vs' @ ws"] exI [of _ stk]) auto
next
  assume "\<forall>x\<in>set us. \<not> f (item_summary I x)" "r = backward_loop D f rest p False"
  then show ?thesis
    unfolding back_outcome_def using assms(1) by (intro disjI2) auto
qed

abbreviation base_of :: "('t, 's, 'd) stack_entry list \<Rightarrow> 'd" where
  "base_of rest \<equiv> (case rest of [] \<Rightarrow> dim_zero D | parent # _ \<Rightarrow> entry_position parent)"

text \<open>Arriving at an index from above and from its right neighbour is the same step.\<close>

lemma back_descend:
  "backward_loop D f (\<lparr>entry_tree = t, entry_index = i, entry_position = ep\<rparr> # rest) q True =
   backward_loop D f (\<lparr>entry_tree = t, entry_index = Suc i, entry_position = ep'\<rparr> # rest) q' False"
  by (subst (1 2) backward_loop.simps) (simp add: Let_def)

lemma back_pop:
  "backward_loop D f (\<lparr>entry_tree = t, entry_index = 0, entry_position = ep\<rparr> # rest) q False =
   backward_loop D f rest (base_of rest) False"
  by (subst backward_loop.simps) simp

lemma foldl_summaries: "foldl (dim_add D) p (map (item_summary I) xs) = advance I D p xs"
  by (induction xs arbitrary: p) auto

lemma foldl_children: "kids I k h ts \<Longrightarrow> foldl (dim_add D) p (map node_summary ts) = advance I D p (concat (map flat ts))"
  by (induction ts arbitrary: p) (auto simp: dim_add_node)

lemma back_leaf:
  assumes "i \<le> length its" and "p = base_of rest"
  shows "back_outcome f (mk_leaf I its) p rest (take i its)
    (backward_loop D f (\<lparr>entry_tree = mk_leaf I its, entry_index = i, entry_position = ep\<rparr> # rest) q False)"
  using assms(1)
proof (induction i arbitrary: ep q)
  case 0
  then show ?case using assms(2) by (auto simp: back_outcome_def back_pop)
next
  case (Suc i)
  then have i: "i < length its" by simp
  let ?e = "\<lparr>entry_tree = mk_leaf I its, entry_index = i, entry_position = advance I D p (take i its)\<rparr>"
  show ?case
  proof (cases "f (item_summary I (its ! i))")
    case True
    then have "backward_loop D f (\<lparr>entry_tree = mk_leaf I its, entry_index = Suc i, entry_position = ep\<rparr> # rest) q False =
        Some (?e # rest, advance I D p (take i its))"
      using i assms(2)
      by (subst backward_loop.simps) (simp add: mk_leaf_def Let_def take_map foldl_summaries)
    moreover have "locate I D (mk_leaf I its) p [?e] (take i its) (its ! i) (drop (Suc i) its)"
      using i by (simp add: mk_leaf_def locate.at_leaf)
    ultimately show ?thesis
      unfolding back_outcome_def using i True
      by (intro disjI1 exI [of _ "take i its"] exI [of _ "its ! i"] exI [of _ "[]"] exI [of _ "[?e]"])
        (simp add: take_Suc_conv_app_nth min_def)
  next
    case False
    then have "backward_loop D f (\<lparr>entry_tree = mk_leaf I its, entry_index = Suc i, entry_position = ep\<rparr> # rest) q False =
        backward_loop D f (?e # rest) (advance I D p (take i its)) False"
      using i assms(2)
      by (subst backward_loop.simps) (simp add: mk_leaf_def Let_def take_map foldl_summaries)
    with back_outcome_skip [of "[its ! i]" f _ p rest "take i its"] Suc.IH [of "advance I D p (take i its)"]
      Suc.prems False i show ?thesis by (simp add: take_Suc_conv_app_nth)
  qed
qed

lemma back_outcome_lift:
  assumes i: "i < length ts" and q: "q = advance I D p (concat (map flat (take i ts)))"
    and child: "back_outcome f (ts ! i) q
      (\<lparr>entry_tree = mk_internal I h ts, entry_index = i, entry_position = q\<rparr> # rest) us r"
    and us: "\<exists>vs. flat (ts ! i) = us @ vs"
    and cont: "back_outcome f (mk_internal I h ts) p rest (concat (map flat (take i ts)))
        (backward_loop D f (\<lparr>entry_tree = mk_internal I h ts, entry_index = i, entry_position = q\<rparr> # rest) q False)"
  shows "back_outcome f (mk_internal I h ts) p rest (concat (map flat (take i ts)) @ us) r"
  using child [unfolded back_outcome_def]
proof (elim disjE exE conjE)
  fix us' y vs' stk
  let ?e = "\<lparr>entry_tree = mk_internal I h ts, entry_index = i, entry_position = q\<rparr>"
    and ?pre = "concat (map flat (take i ts))"
  assume a: "us = us' @ y # vs'" "\<forall>x\<in>set vs'. \<not> f (item_summary I x)" "f (item_summary I y)"
    "r = Some (stk @ ?e # rest, advance I D q us')"
    "locate I D (ts ! i) q stk us' y (drop (Suc (length us')) (flat (ts ! i)))"
  have "locate I D (mk_internal I h ts) p (stk @ [?e]) (?pre @ us') y
      (drop (Suc (length us')) (flat (ts ! i)) @ concat (map flat (drop (Suc i) ts)))"
    using locate.at_child [OF i q a(5)] by (simp add: mk_internal_def)
  moreover have "drop (Suc (length us')) (flat (ts ! i)) @ concat (map flat (drop (Suc i) ts)) =
      drop (Suc (length (?pre @ us'))) (concat (map flat ts))"
    using us a(1) i by (auto simp: concat_split_nth)
  ultimately show ?thesis
    unfolding back_outcome_def using a q
    by (intro disjI1 exI [of _ "?pre @ us'"] exI [of _ y] exI [of _ vs'] exI [of _ "stk @ [?e]"]) simp
next
  assume a: "\<forall>x\<in>set us. \<not> f (item_summary I x)"
    "r = backward_loop D f (\<lparr>entry_tree = mk_internal I h ts, entry_index = i, entry_position = q\<rparr> # rest) q False"
  show ?thesis unfolding a(2) by (rule back_outcome_skip [OF a(1) cont])
qed

lemma back_internal_node:
  assumes below: "\<And>c q rest ep q'. wf_node I k h c \<Longrightarrow> length rest + Suc h \<le> STACK_CAP \<Longrightarrow> q = base_of rest \<Longrightarrow>
      back_outcome f c q rest (flat c)
        (backward_loop D f
          (\<lparr>entry_tree = c, entry_index = length (child_summaries c), entry_position = ep\<rparr> # rest) q' False)"
    and kids: "kids I k h ts" and cap: "length rest + Suc (Suc h) \<le> STACK_CAP" and prunes: "prunes I f"
    and p: "p = base_of rest"
  shows "i \<le> length ts \<Longrightarrow>
    back_outcome f (mk_internal I (Suc h) ts) p rest (concat (map flat (take i ts)))
      (backward_loop D f (\<lparr>entry_tree = mk_internal I (Suc h) ts, entry_index = i, entry_position = ep\<rparr> # rest) q False)"
proof (induction i arbitrary: ep q)
  case 0
  then show ?case using p by (auto simp: back_outcome_def back_pop)
next
  case (Suc i)
  then have i: "i < length ts" by simp
  let ?q = "advance I D p (concat (map flat (take i ts)))"
  let ?e = "\<lparr>entry_tree = mk_internal I (Suc h) ts, entry_index = i, entry_position = ?q\<rparr>"
  from kids_nth [OF kids i] have c: "wf_node I k h (ts ! i)" by simp
  have pos: "foldl (dim_add D) p (take i (map node_summary ts)) = ?q"
    using foldl_children [of k h "take i ts" p] kids_take_drop [OF kids, of i] by (simp add: take_map)
  have us: "concat (map flat (take (Suc i) ts)) = concat (map flat (take i ts)) @ flat (ts ! i)"
    using i by (simp add: take_Suc_conv_app_nth)
  have cont: "back_outcome f (mk_internal I (Suc h) ts) p rest (concat (map flat (take i ts)))
      (backward_loop D f (?e # rest) ?q False)"
    using Suc.IH [of ?q ?q] Suc.prems by simp
  show ?case
  proof (cases "f (node_summary (ts ! i))")
    case False
    have "backward_loop D f (\<lparr>entry_tree = mk_internal I (Suc h) ts, entry_index = Suc i, entry_position = ep\<rparr> # rest) q False =
        backward_loop D f (?e # rest) ?q False"
      using i False p pos by (subst backward_loop.simps) (simp add: mk_internal_def Let_def)
    moreover have "\<forall>x\<in>set (flat (ts ! i)). \<not> f (item_summary I x)"
      using pruned_subtree [OF prunes c False] by blast
    ultimately show ?thesis using back_outcome_skip cont us by simp
  next
    case True
    from c have ne: "child_summaries (ts ! i) \<noteq> []" by (cases rule: wf_node_cases) auto
    have "backward_loop D f (\<lparr>entry_tree = mk_internal I (Suc h) ts, entry_index = Suc i, entry_position = ep\<rparr> # rest) q False =
        backward_loop D f (\<lparr>entry_tree = ts ! i, entry_index = length (child_summaries (ts ! i)) - 1,
            entry_position = dim_zero D\<rparr> # ?e # rest) ?q True"
      using i True p pos ne cap
      by (subst backward_loop.simps) (simp add: mk_internal_def Let_def index_opt_def push_entry_def)
    also have "\<dots> = backward_loop D f (\<lparr>entry_tree = ts ! i, entry_index = length (child_summaries (ts ! i)),
            entry_position = dim_zero D\<rparr> # ?e # rest) ?q False"
      using ne back_descend [where i = "length (child_summaries (ts ! i)) - 1"] by simp
    finally have enter: "back_outcome f (ts ! i) ?q (?e # rest) (flat (ts ! i))
        (backward_loop D f (\<lparr>entry_tree = mk_internal I (Suc h) ts, entry_index = Suc i, entry_position = ep\<rparr> # rest) q False)"
      using below [OF c, of "?e # rest" ?q] cap by simp
    show ?thesis using back_outcome_lift [OF i refl enter _ cont] us by simp
  qed
qed

lemma back_fresh:
  "prunes I f \<Longrightarrow> wf_node I k h c \<Longrightarrow> length rest + Suc h \<le> STACK_CAP \<Longrightarrow> q = base_of rest \<Longrightarrow>
   back_outcome f c q rest (flat c)
     (backward_loop D f
       (\<lparr>entry_tree = c, entry_index = length (child_summaries c), entry_position = ep\<rparr> # rest) q' False)"
proof (induction h arbitrary: c q rest ep q')
  case 0
  from 0(2) obtain its where c: "c = mk_leaf I its" by (cases rule: wf_node_cases) auto
  from back_leaf [of "length its" its q rest f ep q'] 0 show ?case by (simp add: c)
next
  case (Suc h)
  from Suc.prems(2) obtain ts where c: "c = mk_internal I (Suc h) ts" "kids I k h ts"
    by (cases rule: wf_node_cases) auto
  have "length rest + Suc (Suc h) \<le> STACK_CAP" using Suc.prems(3) .
  from back_internal_node [OF Suc.IH [OF Suc.prems(1)] c(2) this Suc.prems(1,4) le_refl]
  show ?case unfolding c(1) mk_simps length_map take_all [OF le_refl] .
qed

lemma back_resume:
  "locate I D t p stk us x vs \<Longrightarrow> prunes I f \<Longrightarrow> wf_node I k h t \<Longrightarrow> p = base_of rest \<Longrightarrow>
   length rest + Suc h \<le> STACK_CAP \<Longrightarrow> back_outcome f t p rest us (backward_loop D f (stk @ rest) q False)"
proof (induction arbitrary: h q rest rule: locate.induct)
  case (at_leaf i its s ss p ep)
  then have l: "Leaf s its ss = mk_leaf I its" "i \<le> length its" by (auto simp: wf_node_Leaf mk_leaf_def)
  from back_leaf [OF l(2) at_leaf.prems(3)] show ?case by (simp add: l(1))
next
  case (at_child i ts q0 p stk us x vs h' s ss)
  from at_child.prems(2) obtain h0 where t: "h = Suc h0" "Internal h' s ss ts = mk_internal I h ts" "kids I k h0 ts"
    by (auto simp: wf_node_kids mk_internal_def)
  let ?e = "\<lparr>entry_tree = mk_internal I h ts, entry_index = i, entry_position = q0\<rparr>"
  from kids_nth [OF t(3) at_child.hyps(1)] have c: "wf_node I k h0 (ts ! i)" by simp
  have child: "back_outcome f (ts ! i) q0 (?e # rest) us (backward_loop D f (stk @ ?e # rest) q False)"
    using at_child.IH [OF at_child.prems(1) c, of "?e # rest"] at_child.prems(4) t(1) by simp
  have cont: "back_outcome f (mk_internal I h ts) p rest (concat (map flat (take i ts)))
      (backward_loop D f (?e # rest) q0 False)"
  proof -
    have "length rest + Suc (Suc h0) \<le> STACK_CAP" "i \<le> length ts"
      using at_child.prems(4) at_child.hyps(1) t(1) by simp_all
    from back_internal_node [OF back_fresh [OF at_child.prems(1)] t(3) this(1) at_child.prems(1,3) this(2)]
    show ?thesis unfolding t(1) .
  qed
  show ?case
    using back_outcome_lift [OF at_child.hyps(1,2) child _ cont] locate_flat [OF at_child.hyps(3)] by (simp add: t(2))
qed

lemma backward_empty: "backward_loop D f [] q b = Some ([], q)"
  by (simp add: backward_loop.simps)

text \<open>The result for a whole tree: the last item that passes, or off the front.\<close>

definition backward_result :: "('s \<Rightarrow> bool) \<Rightarrow> nat \<Rightarrow> ('t, 's) node \<Rightarrow> 't list \<Rightarrow> ('t, 's, 'd) cursor \<Rightarrow> bool" where
  "backward_result f k t us c' \<longleftrightarrow> cur_tree c' = t \<and>
     (if \<forall>x\<in>set us. \<not> f (item_summary I x)
      then (if flat t = [] then cursor_at I D k c' [] [] else cursor_front I D k c')
      else \<exists>us' y vs'. us = us' @ y # vs' \<and> f (item_summary I y) \<and> (\<forall>x\<in>set vs'. \<not> f (item_summary I x)) \<and>
        cursor_at I D k c' us' (y # drop (Suc (length us')) (flat t)))"

lemma backward_cursor_at:
  assumes "back_outcome f (cur_tree c) (dim_zero D) [] us r" and "flat (cur_tree c) = us @ ws"
    and "wf_tree I k (cur_tree c)" and "node_height (cur_tree c) < STACK_CAP"
    and "flat (cur_tree c) \<noteq> []" and "did_seek c" and "\<not> at_end c"
  shows "\<exists>stk q. r = Some (stk, q) \<and>
    backward_result f k (cur_tree c) us (c\<lparr>cur_stack := stk, cur_position := q\<rparr>)"
  using assms(1) [unfolded back_outcome_def]
proof (elim disjE exE conjE)
  fix us' y vs' stk
  let ?c = "c\<lparr>cur_stack := stk, cur_position := advance I D (dim_zero D) us'\<rparr>"
  assume a: "us = us' @ y # vs'" "\<forall>x\<in>set vs'. \<not> f (item_summary I x)" "f (item_summary I y)"
    "r = Some (stk @ [], advance I D (dim_zero D) us')"
    "locate I D (cur_tree c) (dim_zero D) stk us' y (drop (Suc (length us')) (flat (cur_tree c)))"
  then have "cursor_at I D k ?c us' (y # drop (Suc (length us')) (flat (cur_tree c)))"
    using assms(2-) locate_flat by (fastforce simp: cursor_at_def)
  moreover have "\<not> (\<forall>x\<in>set us. \<not> f (item_summary I x))" using a(1,3) by auto
  ultimately have "backward_result f k (cur_tree c) us ?c" using a(1-3) unfolding backward_result_def by simp blast
  then show ?thesis using a(4) by auto
next
  assume "\<forall>x\<in>set us. \<not> f (item_summary I x)" "r = backward_loop D f [] (dim_zero D) False"
  then show ?thesis
    using assms(2-) by (intro exI [of _ "[]"] exI [of _ "dim_zero D"])
      (auto simp: backward_empty cursor_front_def backward_result_def)
qed

lemma search_backward_ok:
  assumes "prunes I f" and "behind I D k c us"
  shows "\<exists>c'. search_backward D f c = Some c' \<and> backward_result f k (cur_tree c) us c'"
proof -
  let ?t = "cur_tree c"
  have from_end: ?thesis
    if wf: "wf_tree I k ?t" "node_height ?t < STACK_CAP" and stk: "cur_stack c = []" and us: "us = flat ?t"
      and e: "at_end c \<or> \<not> did_seek c"
  proof (cases "flat ?t = []")
    case True
    with wf have "tree_is_empty ?t" using wf_tree_empty_iff by blast
    with True stk us wf e show ?thesis
      by (auto simp: search_backward_def Let_def backward_empty backward_result_def cursor_at_def)
  next
    case False
    with wf have ne: "\<not> tree_is_empty ?t" using wf_tree_empty_iff by blast
    with wf have node: "wf_node I k (node_height ?t) ?t" by (auto simp: wf_tree_def tree_new_def)
    let ?c = "c\<lparr>did_seek := True, cur_position := dim_zero D, at_end := False\<rparr>"
      and ?e = "\<lparr>entry_tree = ?t, entry_index = length (child_summaries ?t),
        entry_position = dim_add D (dim_zero D) (node_summary ?t)\<rparr>"
    have "back_outcome f (cur_tree ?c) (dim_zero D) [] us (backward_loop D f [?e] (dim_zero D) False)"
      using back_fresh [OF assms(1) node, of "[]"] wf(2) us by simp
    from backward_cursor_at [OF this, of "[]" k] wf us False obtain stk q where
      r: "backward_loop D f [?e] (dim_zero D) False = Some (stk, q)" and
      c': "backward_result f k ?t us (?c\<lparr>cur_stack := stk, cur_position := q\<rparr>)" by auto
    have "search_backward D f c = Some (?c\<lparr>cur_stack := stk, cur_position := q\<rparr>)"
      using r ne stk e by (auto simp: search_backward_def Let_def push_entry_def STACK_CAP_def)
    with c' show ?thesis by simp
  qed
  from assms(2) show ?thesis
  proof cases
    case behind_fresh
    then show ?thesis by (intro from_end) (simp_all add: cursor_fresh_def)
  next
    case behind_front
    then have "cursor_at I D k c [] [] \<or> cursor_front I D k c" by simp
    with behind_front show ?thesis
      by (auto simp: search_backward_def cursor_front_def Let_def backward_empty backward_result_def)
  next
    case (behind_at ws)
    show ?thesis
    proof (cases ws)
      case Nil
      with behind_at show ?thesis by (intro from_end) (auto simp: cursor_at_def)
    next
      case (Cons x vs)
      with behind_at have l: "locate I D ?t (dim_zero D) (cur_stack c) us x vs"
        and c: "wf_tree I k ?t" "node_height ?t < STACK_CAP" "\<not> at_end c" "did_seek c" "flat ?t = us @ ws"
        by (auto simp: cursor_at_def)
      have "back_outcome f ?t (dim_zero D) [] us (backward_loop D f (cur_stack c) (cur_position c) False)"
        using back_resume [OF l assms(1) locate_wf_node [OF l c(1)], of "[]"] c(2) by simp
      from backward_cursor_at [OF this c(5,1,2) _ c(4,3)] c(5) Cons obtain stk q where
        r: "backward_loop D f (cur_stack c) (cur_position c) False = Some (stk, q)" and
        c': "backward_result f k ?t us (c\<lparr>cur_stack := stk, cur_position := q\<rparr>)" by auto
      have "search_backward D f c = Some (c\<lparr>cur_stack := stk, cur_position := q\<rparr>)"
        using r c by (simp add: search_backward_def Let_def)
      with c' show ?thesis by simp
    qed
  qed
qed

lemma cursor_prev_ok:
  assumes "behind I D k c us"
  shows "\<exists>c'. cursor_prev D c = Some c' \<and> cur_tree c' = cur_tree c \<and>
    (if us = [] then (if flat (cur_tree c) = [] then cursor_at I D k c' [] [] else cursor_front I D k c')
     else cursor_at I D k c' (butlast us) (last us # drop (length us) (flat (cur_tree c))))"
proof -
  from search_backward_ok [OF prunes_True assms] obtain c' where
    c': "cursor_prev D c = Some c'" and r: "backward_result (\<lambda>_. True) k (cur_tree c) us c'"
    by (auto simp: cursor_prev_def)
  have "cursor_at I D k c' (butlast us) (last us # drop (length us) (flat (cur_tree c)))" if "us \<noteq> []"
  proof -
    have nz: "(\<forall>x\<in>set us. \<not> True) = False" using hd_in_set [OF that] by blast
    from r [unfolded backward_result_def nz if_False] obtain us' y vs' where "us = us' @ y # vs'" "\<forall>x\<in>set vs'. \<not> True"
      "cursor_at I D k c' us' (y # drop (Suc (length us')) (flat (cur_tree c)))"
      by blast
    moreover from this(2) have "vs' = []" using hd_in_set by blast
    ultimately have "cursor_at I D k c' us' (y # drop (Suc (length us')) (flat (cur_tree c)))" "us = us' @ [y]"
      by simp_all
    then show ?thesis by simp
  qed
  with c' r show ?thesis by (cases "us = []") (auto simp: backward_result_def)
qed

text \<open>Stepping forward and back returns to the same place.\<close>

lemma next_prev:
  assumes "cursor_at I D k c us (x # y # ws)"
  shows "\<exists>c1 c2. cursor_next D c = Some c1 \<and> cursor_prev D c1 = Some c2 \<and> cursor_at I D k c2 us (x # y # ws)"
proof -
  from cursor_next_ok [OF ahead_at [OF assms]] obtain c1 where
    c1: "cursor_next D c = Some c1" "cursor_at I D k c1 (us @ [x]) (y # ws)" by auto
  from cursor_prev_ok [OF behind_at [OF c1(2)]] obtain c2 where
    c2: "cursor_prev D c1 = Some c2" "cursor_at I D k c2 us (x # drop (Suc (length us)) (flat (cur_tree c1)))" by auto
  moreover have "drop (Suc (length us)) (flat (cur_tree c1)) = y # ws" using c1(2) by (auto simp: cursor_at_def)
  ultimately show ?thesis using c1(1) by auto
qed

end

end
