(* ===== verification/Sum_Tree_Items.thy ===== *)
theory Sum_Tree_Items
  imports Sum_Tree_Back
begin

text \<open>
  Whole traversals: \<open>SumTree::items\<close> and the stand-alone iterator \<open>Iter\<close> deliver the items
  of the tree in order. The position-free case is the dimension with one value, which every
  summary has.
\<close>

sublocale summary_laws \<subseteq> unit: dimension I unit_dim
  by unfold_locales (auto simp: unit_dim_def)

context dimension
begin

lemma items_loop_at: "cursor_at I D k c us ws \<Longrightarrow> items_loop D c = Some ws"
proof (induction ws arbitrary: c us)
  case Nil
  then show ?case using cursor_at_item(1) [OF Nil] by (simp add: items_loop.simps first_opt_def)
next
  case (Cons x ws)
  from cursor_next_ok [OF ahead_at [OF Cons.prems]] obtain c' where
    c': "cursor_next D c = Some c'" "cursor_at I D k c' (us @ [x]) ws" by auto
  with cursor_at_item(1) [OF Cons.prems] Cons.IH [OF c'(2)] show ?case
    by (subst items_loop.simps) (simp add: first_opt_def)
qed

end

context summary_laws
begin

lemma tree_items_ok:
  assumes "wf_tree I k t" and "node_height t < STACK_CAP"
  shows "tree_items t = Some (flat t)"
proof -
  have "cursor_fresh I unit_dim k (cursor_new unit_dim t)" using assms by simp
  from unit.cursor_next_ok [OF ahead_fresh [OF this]] obtain c' where
    "cursor_next unit_dim (cursor_new unit_dim t) = Some c'" "cursor_at I unit_dim k c' [] (flat t)" by auto
  with unit.items_loop_at show ?thesis by (auto simp: tree_items_def)
qed

end

section \<open>The stand-alone iterator\<close>

definition iter_entry :: "('t, 's, 'd) stack_entry \<Rightarrow> ('t, 's) node \<times> nat" where
  "iter_entry e = (entry_tree e, entry_index e)"

lemma unit_advance [simp]: "(advance I unit_dim p xs = q) \<longleftrightarrow> True"
  by simp

lemma iter_fresh:
  "wf_node I k h t \<Longrightarrow> length rest + Suc h \<le> STACK_CAP \<Longrightarrow>
   \<exists>stk y vs. iter_loop ((t, 0) # rest) True = Some (Some y, map iter_entry stk @ rest) \<and>
     locate I unit_dim t () stk [] y vs"
proof (induction h arbitrary: t rest)
  case 0
  from 0(1) obtain its where t: "t = mk_leaf I its" "its \<noteq> []" by (cases rule: wf_node_cases) auto
  let ?e = "\<lparr>entry_tree = t, entry_index = 0, entry_position = ()\<rparr>"
  have "locate I unit_dim t () [?e] (take 0 its) (its ! 0) (drop (Suc 0) its)"
    unfolding t(1) mk_leaf_def by (rule locate.at_leaf) (use t(2) in simp)
  moreover have "iter_loop ((t, 0) # rest) True = Some (Some (its ! 0), map iter_entry [?e] @ rest)"
    using t by (subst iter_loop.simps) (simp add: mk_leaf_def index_opt_def iter_entry_def)
  ultimately show ?case by (metis take_0)
next
  case (Suc h)
  from Suc.prems(1) obtain ts where t: "t = mk_internal I (Suc h) ts" "ts \<noteq> []" "kids I k h ts"
    by (cases rule: wf_node_cases) auto
  let ?e = "\<lparr>entry_tree = t, entry_index = 0, entry_position = ()\<rparr>"
  from t(2,3) have "wf_node I k h (ts ! 0)" by (simp add: kids_nth)
  from Suc.IH [OF this, of "(t, 0) # rest"] Suc.prems(2) obtain stk y vs where
    r: "iter_loop ((ts ! 0, 0) # (t, 0) # rest) True = Some (Some y, map iter_entry stk @ (t, 0) # rest)"
      "locate I unit_dim (ts ! 0) () stk [] y vs" by auto
  have "locate I unit_dim t () (stk @ [?e]) (concat (map flat (take 0 ts)) @ []) y
      (vs @ concat (map flat (drop (Suc 0) ts)))"
    unfolding t(1) mk_internal_def by (rule locate.at_child) (use t(2) r(2) in simp_all)
  moreover have "iter_loop ((t, 0) # rest) True = Some (Some y, map iter_entry (stk @ [?e]) @ rest)"
    using t r(1) Suc.prems(2) by (subst iter_loop.simps) (simp add: mk_internal_def index_opt_def iter_entry_def)
  ultimately show ?case by (auto intro!: exI [of _ "stk @ [?e]"])
qed

lemma iter_resume:
  "locate I unit_dim t p stk us x vs \<Longrightarrow> wf_node I k h t \<Longrightarrow> length rest + Suc h \<le> STACK_CAP \<Longrightarrow>
   (case vs of
      [] \<Rightarrow> iter_loop (map iter_entry stk @ rest) False = iter_loop rest False
    | y # ws \<Rightarrow> \<exists>stk'. iter_loop (map iter_entry stk @ rest) False = Some (Some y, map iter_entry stk' @ rest) \<and>
        locate I unit_dim t () stk' (us @ [x]) y ws)"
proof (induction arbitrary: h rest rule: locate.induct)
  case (at_leaf i its s ss p q)
  let ?t = "Leaf s its ss"
  show ?case
  proof (cases "drop (Suc i) its")
    case Nil
    then show ?thesis
      by (subst (1) iter_loop.simps) (simp add: iter_entry_def index_opt_def)
  next
    case (Cons y ws)
    then have i: "Suc i < length its" by (metis drop_eq_Nil list.distinct(1) not_le)
    with Cons have y: "y = its ! Suc i" "ws = drop (Suc (Suc i)) its"
      by (metis Cons_nth_drop_Suc list.inject)+
    let ?e = "\<lparr>entry_tree = ?t, entry_index = Suc i, entry_position = ()\<rparr>"
    have "locate I unit_dim ?t () [?e] (take (Suc i) its) y ws"
      unfolding y by (rule locate.at_leaf [OF i])
    then show ?thesis
      using i y Cons by (subst iter_loop.simps)
        (auto simp: iter_entry_def index_opt_def take_Suc_conv_app_nth intro!: exI [of _ "[?e]"])
  qed
next
  case (at_child i ts q p stk us x vs h' s ss)
  let ?t = "Internal h' s ss ts"
  from at_child.prems(1) obtain h0 where t: "h = Suc h0" "kids I k h0 ts" by (auto simp: wf_node_kids)
  from kids_nth [OF t(2) at_child.hyps(1)] have c: "wf_node I k h0 (ts ! i)" by simp
  have cap: "length ((?t, j) # rest) + Suc h0 \<le> STACK_CAP" for j using at_child.prems(2) t(1) by simp
  note inner = at_child.IH [OF c cap [of i]]
  have us: "concat (map flat (take (Suc i) ts)) = concat (map flat (take i ts)) @ us @ x # vs"
    using at_child.hyps(1) locate_flat [OF at_child.hyps(3)] by (simp add: take_Suc_conv_app_nth)
  show ?case
  proof (cases vs)
    case (Cons y ws)
    with inner obtain stk' where
      r: "iter_loop (map iter_entry stk @ (?t, i) # rest) False = Some (Some y, map iter_entry stk' @ (?t, i) # rest)"
        "locate I unit_dim (ts ! i) () stk' (us @ [x]) y ws" by auto
    have "locate I unit_dim ?t () (stk' @ [\<lparr>entry_tree = ?t, entry_index = i, entry_position = ()\<rparr>])
        (concat (map flat (take i ts)) @ us @ [x]) y (ws @ concat (map flat (drop (Suc i) ts)))"
      using locate.at_child [OF at_child.hyps(1) _ r(2)] by simp
    with r(1) Cons show ?thesis
      by (auto simp: iter_entry_def
        intro!: exI [of _ "stk' @ [\<lparr>entry_tree = ?t, entry_index = i, entry_position = ()\<rparr>]"])
  next
    case Nil
    with inner have pop: "iter_loop (map iter_entry stk @ (?t, i) # rest) False = iter_loop ((?t, i) # rest) False"
      by simp
    show ?thesis
    proof (cases "Suc i < length ts")
      case False
      then have "drop (Suc i) ts = []" by simp
      with Nil False pop show ?thesis
        by (subst (asm) (2) iter_loop.simps) (simp add: iter_entry_def index_opt_def)
    next
      case True
      from kids_nth [OF t(2) True] have c': "wf_node I k h0 (ts ! Suc i)" by simp
      from iter_fresh [OF c' cap [of "Suc i"]] obtain stk' y ws where
        r: "iter_loop ((ts ! Suc i, 0) # (?t, Suc i) # rest) True = Some (Some y, map iter_entry stk' @ (?t, Suc i) # rest)"
          "locate I unit_dim (ts ! Suc i) () stk' [] y ws" by blast
      have step: "iter_loop ((?t, i) # rest) False = Some (Some y, map iter_entry stk' @ (?t, Suc i) # rest)"
        using True r(1) at_child.prems(2) t(1) by (subst iter_loop.simps) (simp add: index_opt_def)
      have "locate I unit_dim ?t () (stk' @ [\<lparr>entry_tree = ?t, entry_index = Suc i, entry_position = ()\<rparr>])
          (concat (map flat (take (Suc i) ts)) @ []) y (ws @ concat (map flat (drop (Suc (Suc i)) ts)))"
        by (rule locate.at_child [OF True _ r(2)]) simp
      moreover have "concat (map flat (drop (Suc i) ts)) = y # ws @ concat (map flat (drop (Suc (Suc i)) ts))"
        using Cons_nth_drop_Suc [OF True, symmetric] locate_flat [OF r(2)] by simp
      ultimately show ?thesis
        using Nil pop step us
        by (auto simp: iter_entry_def
          intro!: exI [of _ "stk' @ [\<lparr>entry_tree = ?t, entry_index = Suc i, entry_position = ()\<rparr>]"])
    qed
  qed
qed

text \<open>
  \<open>iter_ahead I k it ws\<close>: the iterator's next items are \<open>ws\<close>. An iterator whose stack is
  empty starts from the front, also when it has already delivered everything.
\<close>

inductive iter_ahead :: "('t, 's) summary_ops \<Rightarrow> nat \<Rightarrow> ('t, 's) iter \<Rightarrow> 't list \<Rightarrow> bool" for I k it where
  iter_start: "wf_tree I k (iter_tree it) \<Longrightarrow> node_height (iter_tree it) < STACK_CAP \<Longrightarrow> iter_stack it = [] \<Longrightarrow>
    iter_ahead I k it (flat (iter_tree it))"
| iter_inside: "wf_tree I k (iter_tree it) \<Longrightarrow> node_height (iter_tree it) < STACK_CAP \<Longrightarrow>
    iter_stack it = map iter_entry stk \<Longrightarrow> locate I unit_dim (iter_tree it) () stk us x ws \<Longrightarrow>
    iter_ahead I k it ws"

lemma locate_stack [simp]: "locate I D t p [] us x ws \<longleftrightarrow> False"
  by (auto elim: locate.cases)

lemma iter_empty: "iter_loop [] b = Some (None, [])"
  by (simp add: iter_loop.simps)

lemma iter_next_ok:
  assumes "iter_ahead I k it ws"
  shows "\<exists>it'. iter_next it = Some (first_opt ws, it') \<and> iter_tree it' = iter_tree it \<and>
    iter_ahead I k it' (if ws = [] then flat (iter_tree it) else tl ws) \<and> (iter_stack it' = [] \<longleftrightarrow> ws = [])"
  using assms
proof cases
  case iter_start
  let ?t = "iter_tree it"
  show ?thesis
  proof (cases "flat ?t = []")
    case True
    with iter_start have "?t = tree_new I" using wf_node_flat_nonempty by (auto simp: wf_tree_def)
    then have "iter_next it = Some (None, it\<lparr>iter_stack := []\<rparr>)"
      using iter_start by (simp add: iter_next_def tree_new_def iter_loop.simps index_opt_def)
    with True iter_start show ?thesis
      using iter_ahead.iter_start [of I k "it\<lparr>iter_stack := []\<rparr>"] by (simp add: first_opt_def)
  next
    case False
    with iter_start have "wf_node I k (node_height ?t) ?t" by (auto simp: wf_tree_def)
    from iter_fresh [OF this, of "[]"] iter_start obtain stk y vs where
      r: "iter_loop [(?t, 0)] True = Some (Some y, map iter_entry stk)" "locate I unit_dim ?t () stk [] y vs" by auto
    then have "iter_next it = Some (Some y, it\<lparr>iter_stack := map iter_entry stk\<rparr>)"
      using iter_start by (simp add: iter_next_def)
    moreover have "iter_ahead I k (it\<lparr>iter_stack := map iter_entry stk\<rparr>) vs"
      by (rule iter_inside) (use iter_start r(2) in simp_all)
    moreover have "stk \<noteq> []" using r(2) by auto
    ultimately show ?thesis using locate_flat [OF r(2)] iter_start by (simp add: first_opt_def)
  qed
next
  case (iter_inside stk us x)
  let ?t = "iter_tree it"
  have ne: "iter_stack it \<noteq> []" using iter_inside by auto
  from iter_resume [OF iter_inside(4) locate_wf_node [OF iter_inside(4,1)], of "[]"] iter_inside(2)
  have r: "case ws of [] \<Rightarrow> iter_loop (iter_stack it) False = iter_loop [] False
    | y # vs \<Rightarrow> \<exists>stk'. iter_loop (iter_stack it) False = Some (Some y, map iter_entry stk') \<and>
        locate I unit_dim ?t () stk' (us @ [x]) y vs" by (cases ws) (simp_all add: iter_inside(3))
  show ?thesis
  proof (cases ws)
    case Nil
    with r ne have "iter_next it = Some (None, it\<lparr>iter_stack := []\<rparr>)" by (simp add: iter_next_def iter_empty)
    with Nil iter_inside show ?thesis
      using iter_ahead.iter_start [of I k "it\<lparr>iter_stack := []\<rparr>"] by (simp add: first_opt_def)
  next
    case (Cons y vs)
    with r obtain stk' where r': "iter_loop (iter_stack it) False = Some (Some y, map iter_entry stk')"
      "locate I unit_dim ?t () stk' (us @ [x]) y vs" by auto
    then have "iter_next it = Some (Some y, it\<lparr>iter_stack := map iter_entry stk'\<rparr>)"
      using ne by (simp add: iter_next_def)
    moreover have "iter_ahead I k (it\<lparr>iter_stack := map iter_entry stk'\<rparr>) vs"
      by (rule iter_ahead.iter_inside) (use iter_inside r'(2) in simp_all)
    moreover have "stk' \<noteq> []" using r'(2) by auto
    ultimately show ?thesis using Cons by (simp add: first_opt_def)
  qed
qed

text \<open>Collecting until the iterator first answers that nothing is left.\<close>

partial_function (option) iter_items :: "('t, 's) iter \<Rightarrow> ('t list \<times> ('t, 's) iter) option" where
  "iter_items it = do {
     (item, it') \<leftarrow> iter_next it;
     (case item of
        None \<Rightarrow> Some ([], it')
      | Some x \<Rightarrow> do { (xs, it'') \<leftarrow> iter_items it'; Some (x # xs, it'') })
   }"

declare iter_items.simps [code]

lemma iter_items_ok:
  "iter_ahead I k it ws \<Longrightarrow>
   \<exists>it'. iter_items it = Some (ws, it') \<and> iter_tree it' = iter_tree it \<and> iter_ahead I k it' (flat (iter_tree it))"
proof (induction ws arbitrary: it)
  case Nil
  from iter_next_ok [OF Nil] show ?case by (subst iter_items.simps) (auto simp: first_opt_def)
next
  case (Cons x ws)
  from iter_next_ok [OF Cons.prems] obtain it1 where
    it1: "iter_next it = Some (Some x, it1)" "iter_tree it1 = iter_tree it" "iter_ahead I k it1 ws"
    by (auto simp: first_opt_def)
  from Cons.IH [OF it1(3)] it1(1,2) show ?case by (subst iter_items.simps) auto
qed

text \<open>The iterator after a number of steps; as long as items were delivered it stands in the tree.\<close>

fun iter_advance :: "nat \<Rightarrow> ('t, 's) iter \<Rightarrow> ('t, 's) iter option" where
  "iter_advance 0 it = Some it"
| "iter_advance (Suc n) it = do { (_, it') \<leftarrow> iter_next it; iter_advance n it' }"

lemma iter_advance_ok:
  "iter_ahead I k it ws \<Longrightarrow> n \<le> length ws \<Longrightarrow>
   \<exists>it'. iter_advance n it = Some it' \<and> iter_ahead I k it' (drop n ws) \<and> (0 < n \<longrightarrow> iter_stack it' \<noteq> [])"
proof (induction n arbitrary: it ws)
  case 0
  then show ?case by simp
next
  case (Suc n)
  then obtain x vs where ws: "ws = x # vs" by (cases ws) auto
  from iter_next_ok [OF Suc.prems(1)] ws obtain it1 where
    it1: "iter_next it = Some (Some x, it1)" "iter_ahead I k it1 vs" "iter_stack it1 \<noteq> []"
    by (auto simp: first_opt_def)
  from Suc.IH [OF it1(2)] Suc.prems(2) ws it1 show ?case by (cases n) auto
qed

lemma iter_ahead_new: "wf_tree I k t \<Longrightarrow> node_height t < STACK_CAP \<Longrightarrow> iter_ahead I k (iter_new t) (flat t)"
  using iter_start [of I k "iter_new t"] by (simp add: iter_new_def)

text \<open>
  The size hint of an iterator standing on an item counts that item, already delivered,
  among the remaining ones.
\<close>

lemma size_hint_inside:
  assumes "wf_tree I k (iter_tree it)" and "iter_stack it = map iter_entry stk"
    and "locate I unit_dim (iter_tree it) () stk us x ws"
  shows "\<exists>n. iter_size_hint it = Some (Suc n, None) \<and> n \<le> length ws \<and> (ws = [] \<longrightarrow> n = 0)"
proof -
  have "\<exists>e rest. stk = e # rest \<and> entry_index e < length (child_summaries (entry_tree e)) \<and>
      length (child_summaries (entry_tree e)) - Suc (entry_index e) \<le> length ws"
    using assms(3) locate_wf_node [OF assms(3,1)]
  proof (induction arbitrary: k rule: locate.induct)
    case (at_leaf i its s ss p q)
    then show ?case by (simp add: wf_node_Leaf)
  next
    case (at_child i ts q p stk us x vs h s ss)
    from at_child.prems obtain h0 where "h = Suc h0" "kids I k h0 ts" by (auto simp: wf_node_kids)
    with kids_nth [OF this(2) at_child.hyps(1)] wf_node_height have
      "wf_node I k (node_height (ts ! i)) (ts ! i)" by metis
    from at_child.IH [OF this] show ?case by auto
  qed
  then obtain e rest where e: "stk = e # rest" "entry_index e < length (child_summaries (entry_tree e))"
    "length (child_summaries (entry_tree e)) - Suc (entry_index e) \<le> length ws" by blast
  then show ?thesis
    using assms(2)
    by (intro exI [of _ "length (child_summaries (entry_tree e)) - Suc (entry_index e)"])
      (auto simp: iter_size_hint_def iter_entry_def)
qed

end
