(* ===== verification/Sum_Tree_Keyed.thy ===== *)
theory Sum_Tree_Keyed
  imports Sum_Tree_Items "HOL-Library.Multiset"
begin

text \<open>
  Trees of keyed items (\<open>insert_or_replace\<close>, \<open>remove\<close>, \<open>edit\<close> and \<open>get\<close> of
  \<open>crates/sum_tree/src/sum_tree.rs\<close>) and the equality of trees. The key of an item is a
  dimension that adding the item's summary sets to its key. The sort of \<open>edit\<close> is
  \<open>sort_unstable_by_key\<close>, whose order of equal keys is not specified: it is a parameter.
\<close>

section \<open>Operations\<close>

text \<open>
  The step all three operations share: if the item under the cursor has the key, note it
  and move past it.
\<close>

definition take_equal :: "('s, 'k) dim_ops \<Rightarrow> ('t \<Rightarrow> 'k) \<Rightarrow> 'k \<Rightarrow> ('t, 's, 'k) cursor \<Rightarrow>
    ('t option \<times> ('t, 's, 'k) cursor) option" where
  "take_equal D key k c = do {
     item \<leftarrow> cursor_item c;
     (case item of
        Some x \<Rightarrow> if key x = k then do { c' \<leftarrow> cursor_next D c; Some (Some x, c') } else Some (None, c)
      | None \<Rightarrow> Some (None, c))
   }"

definition insert_or_replace :: "('t, 's) summary_ops \<Rightarrow> ('s, 'k::linorder) dim_ops \<Rightarrow> ('t \<Rightarrow> 'k) \<Rightarrow>
    ('t, 's) node \<Rightarrow> 't \<Rightarrow> ('t option \<times> ('t, 's) node) option" where
  "insert_or_replace I D key t item = do {
     (new_tree, c) \<leftarrow> cursor_slice I D (ord_target (key item)) LeftBias (cursor_new D t);
     (replaced, c) \<leftarrow> take_equal D key (key item) c;
     new_tree \<leftarrow> tree_push I new_tree item;
     (suffix, c) \<leftarrow> cursor_suffix I D c;
     new_tree \<leftarrow> tree_append I new_tree suffix;
     Some (replaced, new_tree)
   }"

definition tree_remove :: "('t, 's) summary_ops \<Rightarrow> ('s, 'k::linorder) dim_ops \<Rightarrow> ('t \<Rightarrow> 'k) \<Rightarrow>
    ('t, 's) node \<Rightarrow> 'k \<Rightarrow> ('t option \<times> ('t, 's) node) option" where
  "tree_remove I D key t k = do {
     (new_tree, c) \<leftarrow> cursor_slice I D (ord_target k) LeftBias (cursor_new D t);
     (removed, c) \<leftarrow> take_equal D key k c;
     (suffix, c) \<leftarrow> cursor_suffix I D c;
     new_tree \<leftarrow> tree_append I new_tree suffix;
     Some (removed, new_tree)
   }"

datatype ('t, 'k) edit = Insert 't | Remove 'k

fun edit_key :: "('t \<Rightarrow> 'k) \<Rightarrow> ('t, 'k) edit \<Rightarrow> 'k" where
  "edit_key key (Insert item) = key item"
| "edit_key key (Remove k) = k"

fun edit_loop :: "('t, 's) summary_ops \<Rightarrow> ('s, 'k::linorder) dim_ops \<Rightarrow> ('t \<Rightarrow> 'k) \<Rightarrow> ('t, 'k) edit list \<Rightarrow>
    ('t, 's) node \<Rightarrow> 't list \<Rightarrow> ('t, 's, 'k) cursor \<Rightarrow> 't list \<Rightarrow>
    (('t, 's) node \<times> 't list \<times> ('t, 's, 'k) cursor \<times> 't list) option" where
  "edit_loop I D key [] new_tree buffered c removed = Some (new_tree, buffered, c, removed)"
| "edit_loop I D key (e # edits) new_tree buffered c removed =
     (let new_key = edit_key key e in do {
        old_item \<leftarrow> cursor_item c;
        (new_tree, buffered, c) \<leftarrow>
          (if (case old_item of None \<Rightarrow> False | Some x \<Rightarrow> key x < new_key) then do {
             new_tree \<leftarrow> tree_extend I new_tree buffered;
             (slice, c) \<leftarrow> cursor_slice I D (ord_target new_key) LeftBias c;
             new_tree \<leftarrow> tree_append I new_tree slice;
             Some (new_tree, [], c)
           }
           else Some (new_tree, buffered, c));
        (old, c) \<leftarrow> take_equal D key new_key c;
        edit_loop I D key edits new_tree
          (case e of Insert item \<Rightarrow> buffered @ [item] | Remove _ \<Rightarrow> buffered) c
          (removed @ (case old of None \<Rightarrow> [] | Some x \<Rightarrow> [x]))
      })"

definition tree_edit :: "(('t, 'k) edit list \<Rightarrow> ('t, 'k) edit list) \<Rightarrow> ('t, 's) summary_ops \<Rightarrow>
    ('s, 'k::linorder) dim_ops \<Rightarrow> ('t \<Rightarrow> 'k) \<Rightarrow> ('t, 's) node \<Rightarrow> ('t, 'k) edit list \<Rightarrow>
    ('t list \<times> ('t, 's) node) option" where
  "tree_edit sort_by_key I D key t edits =
     (if edits = [] then Some ([], t)
      else do {
        (_, c) \<leftarrow> cursor_seek D (ord_target (dim_zero D)) LeftBias (cursor_new D t);
        (new_tree, buffered, c, removed) \<leftarrow> edit_loop I D key (sort_by_key edits) (tree_new I) [] c [];
        new_tree \<leftarrow> tree_extend I new_tree buffered;
        (suffix, c) \<leftarrow> cursor_suffix I D c;
        new_tree \<leftarrow> tree_append I new_tree suffix;
        Some (removed, new_tree)
      })"

definition tree_get :: "('s, 'k::linorder) dim_ops \<Rightarrow> ('t, 's) node \<Rightarrow> 'k \<Rightarrow> 't option" where
  "tree_get D t k = (case tree_find_exact D t (ord_target k) LeftBias of (_, _, found) \<Rightarrow> found)"

text \<open>What \<open>sort_unstable_by_key\<close> promises: a permutation sorted by key.\<close>

definition sorts_by_key :: "('t \<Rightarrow> 'k::linorder) \<Rightarrow> (('t, 'k) edit list \<Rightarrow> ('t, 'k) edit list) \<Rightarrow> bool" where
  "sorts_by_key key sorter \<longleftrightarrow>
     (\<forall>es. mset (sorter es) = mset es \<and> sorted (map (edit_key key) (sorter es)))"

text \<open>\<open>PartialEq\<close> compares the iterators.\<close>

definition tree_eq :: "('t, 's) node \<Rightarrow> ('t, 's) node \<Rightarrow> bool option" where
  "tree_eq t u = do {
     (xs, _) \<leftarrow> iter_items (iter_new t);
     (ys, _) \<leftarrow> iter_items (iter_new u);
     Some (xs = ys)
   }"

lemma tree_eq_ok:
  assumes "wf_tree I k t" and "node_height t < STACK_CAP" and "wf_tree I k' u" and "node_height u < STACK_CAP"
  shows "tree_eq t u = Some (flat t = flat u)"
  using iter_items_ok [OF iter_ahead_new [OF assms(1,2)]] iter_items_ok [OF iter_ahead_new [OF assms(3,4)]]
  by (auto simp: tree_eq_def)

section \<open>The laws of a key\<close>

text \<open>
  Every summary of an item sets the key dimension to the item's key, and the initial value
  is below every key.
\<close>

locale keyed = dimension I D for I :: "('t, 's) summary_ops" and D :: "('s, 'k::linorder) dim_ops" +
  fixes key :: "'t \<Rightarrow> 'k"
  assumes dim_key: "dim_add D p (item_summary I x) = key x"
    and zero_le: "dim_zero D \<le> key x"
begin

lemma item_ends_key [simp]: "item_ends I D p xs = map key xs"
  by (induction xs arbitrary: p) (auto simp: dim_key)

lemma advance_key: "advance I D p xs = (if xs = [] then p else key (last xs))"
  by (induction xs arbitrary: p) (auto simp: dim_key)

lemma monotone_key: "sorted (map key xs) \<Longrightarrow> monotone_target (ord_target q) (map key xs)"
proof -
  assume s: "sorted (map key xs)"
  have mono: "cmp_rank (ord_target q a) \<le> cmp_rank (ord_target q b)" if "a \<le> b" for a b :: 'k
    using that by (auto simp: ord_target_def ord_cmp_def)
  from s show ?thesis
    unfolding monotone_target_def
    by (simp add: sorted_map comp_def sorted_wrt_map) (erule sorted_wrt_mono_rel [rotated], rule mono)
qed

lemma target_in_key [simp]:
  "target_in LeftBias (ord_target q p) \<longleftrightarrow> q \<le> p"
  "target_in RightBias (ord_target q p) \<longleftrightarrow> q < p"
  by (auto simp: target_in_def ord_target_def ord_cmp_def)

lemma ord_target_Less [simp]: "ord_target q p = Less \<longleftrightarrow> q < p"
  and ord_target_Equal [simp]: "ord_target q p = Equal \<longleftrightarrow> q = p"
  by (auto simp: ord_target_def ord_cmp_def)

lemma passed_key:
  "passed I D (ord_target q) LeftBias p xs = takeWhile (\<lambda>x. key x < q) xs"
  "passed I D (ord_target q) RightBias p xs = takeWhile (\<lambda>x. key x \<le> q) xs"
  by (induction xs arbitrary: p) (auto simp: dim_key Let_def)

lemma not_passed_key:
  "not_passed I D (ord_target q) LeftBias p xs = dropWhile (\<lambda>x. key x < q) xs"
  "not_passed I D (ord_target q) RightBias p xs = dropWhile (\<lambda>x. key x \<le> q) xs"
  by (simp_all add: not_passed_def passed_key dropWhile_eq_drop)

text \<open>Slicing up to a key that is not behind the cursor.\<close>

lemma slice_key:
  assumes "k \<le> TREE_BASE" and "starts k c us ws" and "sorted (map key ws)" and "us \<noteq> [] \<Longrightarrow> key (last us) \<le> q"
    and "dim_zero D \<le> q"
  shows "\<exists>t c'. cursor_slice I D (ord_target q) LeftBias c = Some (t, c') \<and> wf_tree I k t \<and>
     flat t = takeWhile (\<lambda>x. key x < q) ws \<and>
     cursor_at I D k c' (us @ takeWhile (\<lambda>x. key x < q) ws) (dropWhile (\<lambda>x. key x < q) ws) \<and>
     cur_tree c' = cur_tree c"
proof -
  have "cur_position c = advance I D (dim_zero D) us"
    using assms(2) by (auto simp: cursor_fresh_def cursor_at_def)
  then have "ord_target q (cur_position c) \<noteq> Less" using assms(4,5) by (auto simp: advance_key)
  with cursor_slice_ok [OF assms(1,2), of "ord_target q" LeftBias] monotone_key [OF assms(3)] show ?thesis
    by (simp add: passed_key not_passed_key)
qed

lemma take_equal_ok:
  assumes "cursor_at I D k c us ws"
  shows "\<exists>r c'. take_equal D key q c = Some (r, c') \<and> cur_tree c' = cur_tree c \<and>
    (case ws of
       x # vs \<Rightarrow> if key x = q then r = Some x \<and> cursor_at I D k c' (us @ [x]) vs
         else r = None \<and> cursor_at I D k c' us ws
     | [] \<Rightarrow> r = None \<and> cursor_at I D k c' us ws)"
proof (cases ws)
  case Nil
  with assms cursor_at_item(1) [OF assms] show ?thesis by (simp add: take_equal_def first_opt_def)
next
  case (Cons x vs)
  from cursor_next_ok [OF ahead_at [OF assms [unfolded Cons]]] cursor_at_item(1) [OF assms] assms Cons
  show ?thesis by (auto simp: take_equal_def first_opt_def)
qed

text \<open>Dropping the head with the key.\<close>

definition drop_equal :: "'k \<Rightarrow> 't list \<Rightarrow> 't list" where
  "drop_equal q xs = (case xs of x # vs \<Rightarrow> if key x = q then vs else xs | [] \<Rightarrow> [])"

definition head_equal :: "'k \<Rightarrow> 't list \<Rightarrow> 't option" where
  "head_equal q xs = (case xs of x # vs \<Rightarrow> if key x = q then Some x else None | [] \<Rightarrow> None)"

lemma take_equal_drop:
  assumes "cursor_at I D k c us ws"
  shows "\<exists>us' c'. take_equal D key q c = Some (head_equal q ws, c') \<and> cur_tree c' = cur_tree c \<and>
     cursor_at I D k c' us' (drop_equal q ws) \<and> (\<forall>x\<in>set us'. x \<in> set us \<or> key x = q)"
proof (cases ws)
  case Nil
  with take_equal_ok [OF assms, of q] show ?thesis by (auto simp: head_equal_def drop_equal_def)
next
  case (Cons x vs)
  show ?thesis
  proof (cases "key x = q")
    case True
    with take_equal_ok [OF assms, of q] Cons show ?thesis
      by (auto simp: head_equal_def drop_equal_def intro!: exI [of _ "us @ [x]"])
  next
    case False
    with take_equal_ok [OF assms, of q] Cons show ?thesis by (auto simp: head_equal_def drop_equal_def)
  qed
qed

section \<open>Inserting, removing, reading\<close>

text \<open>The items split at a key: below, equal, above.\<close>

lemma split_at_key:
  assumes "sorted_wrt (<) (map key xs)"
  shows "takeWhile (\<lambda>x. key x < q) xs = filter (\<lambda>x. key x < q) xs"
    and "drop_equal q (dropWhile (\<lambda>x. key x < q) xs) = filter (\<lambda>x. q < key x) xs"
    and "head_equal q (dropWhile (\<lambda>x. key x < q) xs) = find (\<lambda>x. key x = q) xs"
proof -
  have "takeWhile (\<lambda>x. key x < q) xs = filter (\<lambda>x. key x < q) xs \<and>
    drop_equal q (dropWhile (\<lambda>x. key x < q) xs) = filter (\<lambda>x. q < key x) xs \<and>
    head_equal q (dropWhile (\<lambda>x. key x < q) xs) = find (\<lambda>x. key x = q) xs"
    using assms
  proof (induction xs)
    case Nil
    then show ?case by (simp add: drop_equal_def head_equal_def)
  next
    case (Cons y ys)
    show ?case
    proof (cases "key y < q")
      case True
      with Cons show ?thesis by auto
    next
      case False
      then have "filter (\<lambda>x. key x < q) ys = []" "\<forall>x\<in>set ys. q < key x"
        using Cons.prems by (force simp: filter_empty_conv)+
      moreover from this have "find (\<lambda>x. key x = q) ys = None" by (auto simp: find_None_iff)
      ultimately show ?thesis using False by (auto simp: drop_equal_def head_equal_def)
    qed
  qed
  then show "takeWhile (\<lambda>x. key x < q) xs = filter (\<lambda>x. key x < q) xs"
    and "drop_equal q (dropWhile (\<lambda>x. key x < q) xs) = filter (\<lambda>x. q < key x) xs"
    and "head_equal q (dropWhile (\<lambda>x. key x < q) xs) = find (\<lambda>x. key x = q) xs" by simp_all
qed

lemma strict_sorted_imp: "sorted_wrt (<) (map key xs) \<Longrightarrow> sorted (map key xs)"
  by (rule strict_sorted_imp_sorted)

text \<open>The slice up to the key, the item there, and the suffix after it.\<close>

lemma open_at_key:
  assumes "wf_tree I k t" and "node_height t < STACK_CAP" and "k \<le> TREE_BASE" and "sorted (map key (flat t))"
    and "dim_zero D \<le> q"
  shows "\<exists>a c1 c2 u c3.
    cursor_slice I D (ord_target q) LeftBias (cursor_new D t) = Some (a, c1) \<and> wf_tree I k a \<and>
    flat a = takeWhile (\<lambda>x. key x < q) (flat t) \<and>
    take_equal D key q c1 = Some (head_equal q (dropWhile (\<lambda>x. key x < q) (flat t)), c2) \<and>
    cursor_suffix I D c2 = Some (u, c3) \<and> wf_tree I k u \<and>
    flat u = drop_equal q (dropWhile (\<lambda>x. key x < q) (flat t))"
proof -
  have "starts k (cursor_new D t) [] (flat t)" using assms by simp
  from slice_key [OF assms(3) this assms(4) _ assms(5)] obtain a c1 where
    a: "cursor_slice I D (ord_target q) LeftBias (cursor_new D t) = Some (a, c1)" "wf_tree I k a"
      "flat a = takeWhile (\<lambda>x. key x < q) (flat t)"
      "cursor_at I D k c1 (takeWhile (\<lambda>x. key x < q) (flat t)) (dropWhile (\<lambda>x. key x < q) (flat t))"
    by auto
  from take_equal_drop [OF a(4), of q] obtain us c2 where
    c2: "take_equal D key q c1 = Some (head_equal q (dropWhile (\<lambda>x. key x < q) (flat t)), c2)"
      "cursor_at I D k c2 us (drop_equal q (dropWhile (\<lambda>x. key x < q) (flat t)))" by blast
  from cursor_suffix_ok [OF assms(3) disjI2 [OF c2(2)]] a c2(1) show ?thesis by blast
qed

lemma insert_or_replace_ok:
  assumes "wf_tree I k t" and "node_height t < STACK_CAP" and "k \<le> TREE_BASE"
    and "sorted_wrt (<) (map key (flat t))"
  shows "\<exists>t'. insert_or_replace I D key t item = Some (find (\<lambda>x. key x = key item) (flat t), t') \<and>
    wf_tree I k t' \<and>
    flat t' = filter (\<lambda>x. key x < key item) (flat t) @ item # filter (\<lambda>x. key item < key x) (flat t)"
proof -
  from open_at_key [OF assms(1-3) strict_sorted_imp [OF assms(4)] zero_le [of item]] obtain a c1 c2 u c3 where
    o: "cursor_slice I D (ord_target (key item)) LeftBias (cursor_new D t) = Some (a, c1)" "wf_tree I k a"
      "flat a = filter (\<lambda>x. key x < key item) (flat t)"
      "take_equal D key (key item) c1 = Some (find (\<lambda>x. key x = key item) (flat t), c2)"
      "cursor_suffix I D c2 = Some (u, c3)" "wf_tree I k u" "flat u = filter (\<lambda>x. key item < key x) (flat t)"
    unfolding split_at_key [OF assms(4)] by blast
  from tree_push_ok [OF o(2) assms(3), of item] obtain b where
    b: "tree_push I a item = Some b" "wf_tree I k b" "flat b = flat a @ [item]" by blast
  from tree_append_ok [OF b(2) o(6) assms(3)] o b show ?thesis by (auto simp: insert_or_replace_def)
qed

lemma tree_remove_ok:
  assumes "wf_tree I k t" and "node_height t < STACK_CAP" and "k \<le> TREE_BASE"
    and "sorted_wrt (<) (map key (flat t))" and "dim_zero D \<le> q"
  shows "\<exists>t'. tree_remove I D key t q = Some (find (\<lambda>x. key x = q) (flat t), t') \<and> wf_tree I k t' \<and>
    flat t' = filter (\<lambda>x. key x \<noteq> q) (flat t)"
proof -
  from open_at_key [OF assms(1-3) strict_sorted_imp [OF assms(4)] assms(5)] obtain a c1 c2 u c3 where
    o: "cursor_slice I D (ord_target q) LeftBias (cursor_new D t) = Some (a, c1)" "wf_tree I k a"
      "flat a = filter (\<lambda>x. key x < q) (flat t)"
      "take_equal D key q c1 = Some (find (\<lambda>x. key x = q) (flat t), c2)"
      "cursor_suffix I D c2 = Some (u, c3)" "wf_tree I k u" "flat u = filter (\<lambda>x. q < key x) (flat t)"
    unfolding split_at_key [OF assms(4)] by blast
  have "filter (\<lambda>x. key x < q) xs @ filter (\<lambda>x. q < key x) xs = filter (\<lambda>x. key x \<noteq> q) xs"
    if "sorted_wrt (<) (map key xs)" for xs
    using that
  proof (induction xs)
    case (Cons y ys)
    show ?case
    proof (cases "key y < q")
      case True
      with Cons show ?thesis by auto
    next
      case False
      then have "filter (\<lambda>x. key x < q) ys = []" using Cons.prems by (force simp: filter_empty_conv)
      moreover have "filter (\<lambda>x. q < key x) ys = filter (\<lambda>x. key x \<noteq> q) ys"
        using False Cons.prems by (intro filter_cong) force+
      ultimately show ?thesis using False by auto
    qed
  qed simp
  note this [OF assms(4)]
  with tree_append_ok [OF o(2,6) assms(3)] o show ?thesis by (auto simp: tree_remove_def)
qed

lemma tree_get_ok:
  assumes "wf_tree I k t" and "sorted (map key (flat t))"
  shows "tree_get D t q = find (\<lambda>x. key x = q) (flat t)"
proof -
  have list: "map_option fst (fst (find_list I D (ord_target q) (\<lambda>c. c = Equal) p xs)) = find (\<lambda>x. key x = q) xs" for p xs
    by (induction xs arbitrary: p) (auto simp: dim_key Let_def)
  have e: "tree_end D t = advance I D (dim_zero D) (flat t)" using assms(1) by (rule tree_end_ok)
  show ?thesis
  proof (cases "t = tree_new I")
    case True
    then show ?thesis
      by (auto simp: tree_get_def tree_find_exact_def tree_search_def tree_new_def)
  next
    case False
    with assms(1) have node: "wf_node I k (node_height t) t" by (simp add: wf_tree_def)
    then have ne: "flat t \<noteq> []" by (rule wf_node_flat_nonempty)
    have mono: "monotone_target (ord_target q) (item_ends I D (dim_zero D) (flat t))"
      using monotone_key [OF assms(2)] by simp
    show ?thesis
    proof (cases "target_past LeftBias (ord_target q (tree_end D t))")
      case True
      then have "key (last (flat t)) < q" using e ne by (simp add: advance_key not_le)
      moreover have "key x \<le> key (last (flat t))" if "x \<in> set (flat t)" for x
        using assms(2) that ne by (cases "flat t" rule: rev_cases) (auto simp: sorted_append)
      ultimately have "\<forall>x\<in>set (flat t). key x \<noteq> q" by force
      then have "find (\<lambda>x. key x = q) (flat t) = None" by (auto simp: find_None_iff)
      with True show ?thesis by (simp add: tree_get_def tree_find_exact_def tree_search_def del: target_past_iff)
    next
      case False
      then show ?thesis
        using find_exact_iterate_ok [OF node mono] list [of "dim_zero D" "flat t"]
        by (cases "find_list I D (ord_target q) (\<lambda>c. c = Equal) (dim_zero D) (flat t)")
          (auto simp: tree_get_def tree_find_exact_def tree_search_def split: option.splits prod.splits)
    qed
  qed
qed

section \<open>Batches of edits\<close>

text \<open>What a batch of edits in key order does to the items ahead of the cursor.\<close>

fun apply_edits :: "('t, 'k) edit list \<Rightarrow> 't list \<Rightarrow> 't list" where
  "apply_edits [] ws = ws"
| "apply_edits (e # es) ws =
     takeWhile (\<lambda>x. key x < edit_key key e) ws @ (case e of Insert x \<Rightarrow> [x] | Remove _ \<Rightarrow> []) @
     apply_edits es (drop_equal (edit_key key e) (dropWhile (\<lambda>x. key x < edit_key key e) ws))"

fun removed_items :: "('t, 'k) edit list \<Rightarrow> 't list \<Rightarrow> 't list" where
  "removed_items [] ws = []"
| "removed_items (e # es) ws =
     (let vs = dropWhile (\<lambda>x. key x < edit_key key e) ws in
      (case head_equal (edit_key key e) vs of None \<Rightarrow> [] | Some x \<Rightarrow> [x]) @
      removed_items es (drop_equal (edit_key key e) vs))"

lemma sorted_drop_equal: "sorted (map key ws) \<Longrightarrow> sorted (map key (drop_equal q (dropWhile P ws)))"
proof -
  assume s: "sorted (map key ws)"
  have "sorted (map key (dropWhile P ws))"
    using s by (metis dropWhile_eq_drop drop_map sorted_wrt_drop)
  then have "sorted (map key (drop_equal q vs))" if "vs = dropWhile P ws" for vs
    unfolding that [symmetric] by (cases vs) (auto simp: drop_equal_def)
  then show ?thesis by simp
qed

text \<open>The optional slice in front of an edit.\<close>

lemma edit_flush:
  assumes "cursor_at I D 1 c us ws" and "wf_tree I 1 nt" and "sorted (map key ws)"
    and "\<forall>x\<in>set us. key x \<le> q" and "dim_zero D \<le> q"
  shows "\<exists>nt' buf' c' us'.
    (if (case first_opt ws of None \<Rightarrow> False | Some x \<Rightarrow> key x < q) then do {
       new_tree \<leftarrow> tree_extend I nt buf;
       (slice, c) \<leftarrow> cursor_slice I D (ord_target q) LeftBias c;
       new_tree \<leftarrow> tree_append I new_tree slice;
       Some (new_tree, [], c)
     }
     else Some (nt, buf, c)) = Some (nt', buf', c') \<and>
    wf_tree I 1 nt' \<and> flat nt' @ buf' = flat nt @ buf @ takeWhile (\<lambda>x. key x < q) ws \<and>
    cursor_at I D 1 c' us' (dropWhile (\<lambda>x. key x < q) ws) \<and> (\<forall>x\<in>set us'. key x \<le> q)"
proof (cases "case first_opt ws of None \<Rightarrow> False | Some x \<Rightarrow> key x < q")
  case False
  then have "takeWhile (\<lambda>x. key x < q) ws = [] \<and> dropWhile (\<lambda>x. key x < q) ws = ws"
    by (cases ws) (auto simp: first_opt_def)
  with False assms show ?thesis by auto
next
  case True
  have last: "us \<noteq> [] \<Longrightarrow> key (last us) \<le> q" using assms(4) by simp
  have le: "1 \<le> TREE_BASE" by (simp add: TREE_BASE_def)
  from tree_extend_ok [OF assms(2), of buf] obtain a where
    a: "tree_extend I nt buf = Some a" "wf_tree I 1 a" "flat a = flat nt @ buf" by blast
  from slice_key [OF le disjI2 [OF assms(1)] assms(3) last assms(5)] obtain b c' where
    b: "cursor_slice I D (ord_target q) LeftBias c = Some (b, c')" "wf_tree I 1 b"
      "flat b = takeWhile (\<lambda>x. key x < q) ws"
      "cursor_at I D 1 c' (us @ takeWhile (\<lambda>x. key x < q) ws) (dropWhile (\<lambda>x. key x < q) ws)" by blast
  from tree_append_ok [OF a(2) b(2) le] obtain t where
    t: "tree_append I a b = Some t" "wf_tree I 1 t" "flat t = flat a @ flat b" by blast
  have "\<forall>x\<in>set (us @ takeWhile (\<lambda>x. key x < q) ws). key x \<le> q"
    using assms(4) by (auto dest: set_takeWhileD)
  with True a b t show ?thesis by auto
qed

lemma edit_loop_ok:
  "cursor_at I D 1 c us ws \<Longrightarrow> wf_tree I 1 nt \<Longrightarrow> sorted (map key ws) \<Longrightarrow>
   sorted (map (edit_key key) es) \<Longrightarrow> \<forall>x\<in>set us. \<forall>e\<in>set es. key x \<le> edit_key key e \<Longrightarrow>
   \<forall>e\<in>set es. dim_zero D \<le> edit_key key e \<Longrightarrow>
   \<exists>nt' buf' c' us' ws'. edit_loop I D key es nt buf c rem = Some (nt', buf', c', rem @ removed_items es ws) \<and>
     wf_tree I 1 nt' \<and> cursor_at I D 1 c' us' ws' \<and> flat nt' @ buf' @ ws' = flat nt @ buf @ apply_edits es ws"
proof (induction es arbitrary: c us ws nt buf rem)
  case Nil
  then show ?case by auto
next
  case (Cons e es)
  let ?q = "edit_key key e"
  let ?ds = "dropWhile (\<lambda>x. key x < ?q) ws"
  have item: "cursor_item c = Some (first_opt ws)" using cursor_at_item(1) [OF Cons.prems(1)] .
  have "\<forall>x\<in>set us. key x \<le> ?q" "dim_zero D \<le> ?q" using Cons.prems(5,6) by auto
  from edit_flush [OF Cons.prems(1-3) this] obtain nt1 buf1 c1 us1 where
    f: "(if (case first_opt ws of None \<Rightarrow> False | Some x \<Rightarrow> key x < ?q) then do {
       new_tree \<leftarrow> tree_extend I nt buf;
       (slice, c) \<leftarrow> cursor_slice I D (ord_target ?q) LeftBias c;
       new_tree \<leftarrow> tree_append I new_tree slice;
       Some (new_tree, [], c)
     }
     else Some (nt, buf, c)) = Some (nt1, buf1, c1)"
      "wf_tree I 1 nt1" "flat nt1 @ buf1 = flat nt @ buf @ takeWhile (\<lambda>x. key x < ?q) ws"
      "cursor_at I D 1 c1 us1 ?ds" "\<forall>x\<in>set us1. key x \<le> ?q" by blast
  from take_equal_drop [OF f(4), of ?q] obtain us2 c2 where
    g: "take_equal D key ?q c1 = Some (head_equal ?q ?ds, c2)" "cursor_at I D 1 c2 us2 (drop_equal ?q ?ds)"
      "\<forall>x\<in>set us2. x \<in> set us1 \<or> key x = ?q" by blast
  let ?buf = "case e of Insert item \<Rightarrow> buf1 @ [item] | Remove _ \<Rightarrow> buf1"
    and ?rem = "rem @ (case head_equal ?q ?ds of None \<Rightarrow> [] | Some x \<Rightarrow> [x])"
  have step: "edit_loop I D key (e # es) nt buf c rem = edit_loop I D key es nt1 ?buf c2 ?rem"
    unfolding edit_loop.simps Let_def item bind.bind_lunit f(1) g(1) prod.case ..
  have "\<forall>x\<in>set us2. key x \<le> ?q" using f(5) g(3) by auto
  then have "\<forall>x\<in>set us2. \<forall>e\<in>set es. key x \<le> edit_key key e" using Cons.prems(4) by force
  from Cons.IH [OF g(2) f(2) sorted_drop_equal [OF Cons.prems(3)] _ this, of ?buf ?rem] Cons.prems(4,6)
  obtain nt' buf' c' us' ws' where
    "edit_loop I D key es nt1 ?buf c2 ?rem = Some (nt', buf', c', ?rem @ removed_items es (drop_equal ?q ?ds))"
    "wf_tree I 1 nt'" "cursor_at I D 1 c' us' ws'"
    "flat nt' @ buf' @ ws' = flat nt1 @ ?buf @ apply_edits es (drop_equal ?q ?ds)" by auto
  moreover have "flat nt1 @ buf1 @ R = flat nt @ buf @ takeWhile (\<lambda>x. key x < ?q) ws @ R" for R
    using f(3) by (metis append_assoc)
  ultimately have "edit_loop I D key es nt1 ?buf c2 ?rem = Some (nt', buf', c', ?rem @ removed_items es (drop_equal ?q ?ds))"
    "wf_tree I 1 nt'" "cursor_at I D 1 c' us' ws'" "flat nt' @ buf' @ ws' = flat nt @ buf @ apply_edits (e # es) ws"
    by (cases e; simp)+
  then show ?case unfolding step by (auto simp: Let_def)
qed

lemma tree_edit_ok:
  assumes "wf_tree I 1 t" and "node_height t < STACK_CAP" and "sorted (map key (flat t))"
    and "sorted (map (edit_key key) (sort_by_key es))" and "es \<noteq> []"
    and "\<forall>e\<in>set (sort_by_key es). dim_zero D \<le> edit_key key e"
  shows "\<exists>t'. tree_edit sort_by_key I D key t es = Some (removed_items (sort_by_key es) (flat t), t') \<and>
    wf_tree I 1 t' \<and> flat t' = apply_edits (sort_by_key es) (flat t)"
proof -
  have le: "1 \<le> TREE_BASE" by (simp add: TREE_BASE_def)
  have fresh: "cursor_fresh I D 1 (cursor_new D t)" using assms(1,2) by simp
  have none: "takeWhile (\<lambda>x. key x < dim_zero D) xs = []" "dropWhile (\<lambda>x. key x < dim_zero D) xs = xs" for xs
    using zero_le by (cases xs; auto simp: not_less)+
  from cursor_seek_ok [OF disjI1 [OF fresh], where target = "ord_target (dim_zero D)" and bias = LeftBias]
    monotone_key [OF assms(3)] obtain b c where
    c: "cursor_seek D (ord_target (dim_zero D)) LeftBias (cursor_new D t) = Some (b, c)"
      "cursor_at I D 1 c [] (flat t)"
    by (auto simp: passed_key not_passed_key none)
  from edit_loop_ok [OF c(2) wf_tree_new assms(3,4) _ assms(6), of "[]" "[]"] obtain nt buf c' us' ws' where
    l: "edit_loop I D key (sort_by_key es) (tree_new I) [] c [] =
         Some (nt, buf, c', removed_items (sort_by_key es) (flat t))"
      "wf_tree I 1 nt" "cursor_at I D 1 c' us' ws'" "flat nt @ buf @ ws' = apply_edits (sort_by_key es) (flat t)"
    by auto
  from tree_extend_ok [OF l(2), of buf] obtain a where
    a: "tree_extend I nt buf = Some a" "wf_tree I 1 a" "flat a = flat nt @ buf" by blast
  from cursor_suffix_ok [OF le disjI2 [OF l(3)]] obtain u c'' where
    u: "cursor_suffix I D c' = Some (u, c'')" "wf_tree I 1 u" "flat u = ws'" by blast
  from tree_append_ok [OF a(2) u(2) le] a u l c(1) assms(5) show ?thesis by (auto simp: tree_edit_def)
qed

text \<open>
  With distinct keys, the batch replaces and removes by key: the result is the strictly
  sorted list of the inserted items and the old items no edit names.
\<close>

definition inserted :: "('t, 'k) edit list \<Rightarrow> 't set" where
  "inserted es = {x. Insert x \<in> set es}"

lemma inserted_simps [simp]:
  "inserted [] = {}"
  "inserted (e # es) = (case e of Insert x \<Rightarrow> insert x (inserted es) | Remove _ \<Rightarrow> inserted es)"
  by (auto simp: inserted_def split: edit.splits)

lemma inserted_key: "x \<in> inserted es \<Longrightarrow> key x \<in> edit_key key ` set es"
  by (force simp: inserted_def image_iff)

lemma apply_edits_distinct:
  "sorted_wrt (<) (map key ws) \<Longrightarrow> sorted_wrt (<) (map (edit_key key) es) \<Longrightarrow>
   set (apply_edits es ws) = {x \<in> set ws. key x \<notin> edit_key key ` set es} \<union> inserted es \<and>
   sorted_wrt (<) (map key (apply_edits es ws)) \<and>
   removed_items es ws = filter (\<lambda>x. key x \<in> edit_key key ` set es) ws"
proof (induction es arbitrary: ws)
  case Nil
  then show ?case by (simp add: inserted_def)
next
  case (Cons e es)
  let ?q = "edit_key key e"
  let ?lo = "filter (\<lambda>x. key x < ?q) ws" and ?hi = "filter (\<lambda>x. ?q < key x) ws"
  note split = split_at_key [OF Cons.prems(1), of ?q]
  have hi: "sorted_wrt (<) (map key ?hi)" using Cons.prems(1) by (induction ws) auto
  have es: "\<forall>e'\<in>set es. ?q < edit_key key e'" and es': "sorted_wrt (<) (map (edit_key key) es)"
    using Cons.prems(2) by auto
  from Cons.IH [OF hi es'] have
    IH: "set (apply_edits es ?hi) = {x \<in> set ?hi. key x \<notin> edit_key key ` set es} \<union> inserted es"
      "sorted_wrt (<) (map key (apply_edits es ?hi))"
      "removed_items es ?hi = filter (\<lambda>x. key x \<in> edit_key key ` set es) ?hi" by simp_all
  have above: "\<forall>x\<in>set (apply_edits es ?hi). ?q < key x"
    using IH(1) es by (auto dest!: inserted_key)
  have lo: "sorted_wrt (<) (map key ?lo)" using Cons.prems(1) by (induction ws) auto
  let ?ins = "case e of Insert x \<Rightarrow> [x] | Remove _ \<Rightarrow> []"
  have app: "apply_edits (e # es) ws = ?lo @ ?ins @ apply_edits es ?hi" by (simp add: split)
  have ins: "\<forall>x\<in>set ?ins. key x = ?q" by (cases e) auto
  have "sorted_wrt (<) (map key (apply_edits (e # es) ws))"
  proof -
    have "sorted_wrt (<) (map key ?ins)" by (cases e) auto
    moreover have "key a < key b" if "a \<in> set ?lo" "b \<in> set ?ins \<union> set (apply_edits es ?hi)" for a b
      using that ins above by fastforce
    moreover have "key a < key b" if "a \<in> set ?ins" "b \<in> set (apply_edits es ?hi)" for a b
      using that ins above by fastforce
    ultimately show ?thesis
      unfolding app sorted_wrt_map using lo IH(2) by (simp only: sorted_wrt_append sorted_wrt_map set_append) blast
  qed
  moreover have "set (apply_edits (e # es) ws) =
      {x \<in> set ws. key x \<notin> edit_key key ` set (e # es)} \<union> inserted (e # es)"
  proof -
    have "{x \<in> set ws. key x \<notin> edit_key key ` set (e # es)} = set ?lo \<union> {x \<in> set ?hi. key x \<notin> edit_key key ` set es}"
      using es by (auto dest: less_asym)
    then show ?thesis unfolding app using IH(1) by (cases e) auto
  qed
  moreover have "removed_items (e # es) ws = filter (\<lambda>x. key x \<in> edit_key key ` set (e # es)) ws"
  proof -
    have "(case find (\<lambda>x. key x = ?q) ws of None \<Rightarrow> [] | Some x \<Rightarrow> [x]) @
        filter (\<lambda>x. key x \<in> edit_key key ` set es) (filter (\<lambda>x. ?q < key x) ws) =
        filter (\<lambda>x. key x \<in> edit_key key ` set (e # es)) ws"
      using Cons.prems(1)
    proof (induction ws)
      case (Cons w ws)
      show ?case
      proof (cases "key w = ?q")
        case True
        with Cons.prems have "\<forall>x\<in>set ws. ?q < key x" by auto
        then have "filter (\<lambda>x. key x \<in> edit_key key ` set (e # es)) ws =
            filter (\<lambda>x. key x \<in> edit_key key ` set es) (filter (\<lambda>x. ?q < key x) ws)"
          by (induction ws) auto
        with True show ?thesis by auto
      next
        case False
        show ?thesis
        proof (cases "key w < ?q")
          case True
          then have "key w \<notin> edit_key key ` set (e # es)" using es by auto
          with Cons False True show ?thesis by auto
        next
          case False
          with \<open>key w \<noteq> ?q\<close> have "?q < key w" by simp
          moreover from this Cons.prems have "find (\<lambda>x. key x = ?q) ws = None" by (force simp: find_None_iff)
          ultimately show ?thesis using Cons \<open>key w \<noteq> ?q\<close> by auto
        qed
      qed
    qed simp
    then show ?thesis by (simp add: split IH(3) Let_def)
  qed
  ultimately show ?case by simp
qed

section \<open>Seeking and finding by key\<close>

lemma tree_find_key:
  assumes "wf_tree I k t" and "sorted (map key (flat t))"
  shows "snd (snd (tree_find D t (ord_target q) LeftBias)) = find (\<lambda>x. q \<le> key x) (flat t)"
proof -
  have "map_option fst (fst (find_list I D (ord_target q) (target_in LeftBias) p xs)) = find (\<lambda>x. q \<le> key x) xs" for p xs
    by (induction xs arbitrary: p) (auto simp: dim_key Let_def)
  from this [of "dim_zero D" "flat t"] tree_find_ok [OF assms(1)] monotone_key [OF assms(2)] show ?thesis
    by (auto split: option.split prod.split)
qed

text \<open>A cursor stopped at a key ends at that key exactly if the item there has it.\<close>

lemma cursor_end_key:
  assumes "cursor_at I D k c us ws" and "\<forall>x\<in>set us. key x < q" and "dim_zero D < q"
  shows "\<exists>e. cursor_end D c = Some e \<and> (e = q \<longleftrightarrow> head_equal q ws \<noteq> None)"
proof -
  have "advance I D (dim_zero D) us < q" using assms(2,3) by (simp add: advance_key)
  then show ?thesis
    using cursor_at_end [OF assms(1)] by (cases ws) (auto simp: dim_key head_equal_def)
qed

lemma seek_key_left:
  assumes "cursor_fresh I D k c" and "sorted (map key (flat (cur_tree c)))" and "dim_zero D \<le> q"
  shows "\<exists>b c'. cursor_seek D (ord_target q) LeftBias c = Some (b, c') \<and> cur_tree c' = cur_tree c \<and>
    cursor_at I D k c' (takeWhile (\<lambda>x. key x < q) (flat (cur_tree c))) (dropWhile (\<lambda>x. key x < q) (flat (cur_tree c)))"
  using cursor_seek_ok [OF disjI1 [OF assms(1)], where target = "ord_target q" and bias = LeftBias]
    monotone_key [OF assms(2)] assms(3)
  by (auto simp: passed_key not_passed_key not_less)

lemma seek_key_right:
  assumes "cursor_fresh I D k c" and "sorted (map key (flat (cur_tree c)))" and "dim_zero D \<le> q"
  shows "\<exists>b c'. cursor_seek D (ord_target q) RightBias c = Some (b, c') \<and> cur_tree c' = cur_tree c \<and>
    cursor_at I D k c' (takeWhile (\<lambda>x. key x \<le> q) (flat (cur_tree c))) (dropWhile (\<lambda>x. key x \<le> q) (flat (cur_tree c)))"
  using cursor_seek_ok [OF disjI1 [OF assms(1)], where target = "ord_target q" and bias = RightBias]
    monotone_key [OF assms(2)] assms(3)
  by (auto simp: passed_key not_passed_key not_less)

lemma takeWhile_le_key:
  "sorted_wrt (<) (map key xs) \<Longrightarrow> takeWhile (\<lambda>x. key x \<le> q) xs = filter (\<lambda>x. key x \<le> q) xs"
proof (induction xs)
  case (Cons y ys)
  have "filter (\<lambda>x. key x \<le> q) ys = []" if "\<not> key y \<le> q"
    using Cons.prems that by (force simp: filter_empty_conv)
  with Cons show ?case by auto
qed simp

end

end
