(* ===== verification/Tree_Map.thy ===== *)
theory Tree_Map
  imports Sum_Tree_Keyed "HOL-Library.Option_ord"
begin

text \<open>
  The ordered map and set of \<open>crates/sum_tree/src/tree_map.rs\<close>: a sum tree of entries whose
  summary is the greatest key below a node. \<open>MapKey\<close> and \<open>MapKeyRef\<close> wrap an optional key,
  ordered with \<open>None\<close> least; they are the option type. Each operation refines the
  corresponding operation on finite maps.
\<close>

section \<open>Entries and keys\<close>

record ('k, 'v) map_entry =
  me_key :: 'k
  me_value :: 'v

definition entry_map_key :: "('k, 'v) map_entry \<Rightarrow> 'k option" where
  "entry_map_key e = Some (me_key e)"

definition map_key_ops :: "(('k, 'v) map_entry, 'k option) summary_ops" where
  "map_key_ops = \<lparr>item_summary = entry_map_key, summary_zero = None, summary_add = (\<lambda>_ summary. summary)\<rparr>"

definition map_key_dim :: "('k option, 'k option) dim_ops" where
  "map_key_dim = \<lparr>dim_zero = None, dim_add = (\<lambda>_ summary. summary)\<rparr>"

lemma map_key_simps [simp]:
  "item_summary map_key_ops = entry_map_key"
  "dim_zero map_key_dim = None"
  by (simp_all add: map_key_ops_def map_key_dim_def)

type_synonym ('k, 'v) tree_map = "(('k, 'v) map_entry, 'k option) node"

interpretation map_tree: keyed "map_key_ops :: (('k::linorder, 'v) map_entry, 'k option) summary_ops"
  map_key_dim entry_map_key
  by unfold_locales (simp_all add: map_key_ops_def map_key_dim_def entry_map_key_def)

text \<open>Slices of a map's tree, and plain seeks in it, obey the laws of a seek aggregate.\<close>

interpretation map_slice: seek_aggregate "map_key_ops :: (('k::linorder, 'v) map_entry, 'k option) summary_ops"
  map_key_dim "slice_aggregate map_key_ops" TREE_BASE "slice_den map_key_ops TREE_BASE" "slice_in_leaf map_key_ops TREE_BASE"
  by (rule map_tree.slice_aggregate_laws) (rule order.refl)

interpretation map_seek: seek_aggregate "map_key_ops :: (('k::linorder, 'v) map_entry, 'k option) summary_ops"
  map_key_dim unit_aggregate TREE_BASE "\<lambda>_ _. True" "\<lambda>_ _ _. True"
  by (rule map_tree.unit_aggregate_laws)

section \<open>Operations\<close>

definition entry_pair :: "('k, 'v) map_entry \<Rightarrow> 'k \<times> 'v" where
  "entry_pair e = (me_key e, me_value e)"

definition mk_entry :: "'k \<times> 'v \<Rightarrow> ('k, 'v) map_entry" where
  "mk_entry kv = (case kv of (key, value) \<Rightarrow> \<lparr>me_key = key, me_value = value\<rparr>)"

definition map_default :: "('k, 'v) tree_map" where
  "map_default = tree_new map_key_ops"

definition map_from_ordered_entries :: "('k \<times> 'v) list \<Rightarrow> ('k, 'v) tree_map option" where
  "map_from_ordered_entries entries = tree_from_iter map_key_ops (map mk_entry entries)"

definition map_is_empty :: "('k, 'v) tree_map \<Rightarrow> bool" where
  "map_is_empty m = tree_is_empty m"

definition map_get :: "('k::linorder, 'v) tree_map \<Rightarrow> 'k \<Rightarrow> 'v option" where
  "map_get m key =
     (case tree_find map_key_dim m (ord_target (Some key)) LeftBias of
        (_, _, Some item) \<Rightarrow> if Some key = entry_map_key item then Some (me_value item) else None
      | (_, _, None) \<Rightarrow> None)"

definition map_contains_key :: "('k::linorder, 'v) tree_map \<Rightarrow> 'k \<Rightarrow> bool" where
  "map_contains_key m key = (map_get m key \<noteq> None)"

definition map_insert_or_replace :: "('k::linorder, 'v) tree_map \<Rightarrow> 'k \<Rightarrow> 'v \<Rightarrow>
    ('v option \<times> ('k, 'v) tree_map) option" where
  "map_insert_or_replace m key value = do {
     (replaced, m') \<leftarrow> insert_or_replace map_key_ops map_key_dim entry_map_key m (mk_entry (key, value));
     Some (map_option me_value replaced, m')
   }"

definition map_insert :: "('k::linorder, 'v) tree_map \<Rightarrow> 'k \<Rightarrow> 'v \<Rightarrow> ('k, 'v) tree_map option" where
  "map_insert m key value = do {
     (_, m') \<leftarrow> insert_or_replace map_key_ops map_key_dim entry_map_key m (mk_entry (key, value));
     Some m'
   }"

type_synonym ('k, 'v) map_edit = "(('k, 'v) map_entry, 'k option) edit"

definition map_extend :: "(('k, 'v) map_edit list \<Rightarrow> ('k, 'v) map_edit list) \<Rightarrow> ('k::linorder, 'v) tree_map \<Rightarrow>
    ('k \<times> 'v) list \<Rightarrow> ('k, 'v) tree_map option" where
  "map_extend sort_by_key m kvs = do {
     (_, m') \<leftarrow> tree_edit sort_by_key map_key_ops map_key_dim entry_map_key m (map (\<lambda>kv. Insert (mk_entry kv)) kvs);
     Some m'
   }"

definition map_clear :: "('k, 'v) tree_map \<Rightarrow> ('k, 'v) tree_map" where
  "map_clear m = map_default"

definition map_remove :: "('k::linorder, 'v) tree_map \<Rightarrow> 'k \<Rightarrow> ('v option \<times> ('k, 'v) tree_map) option" where
  "map_remove m key = (let target = ord_target (Some key) in do {
     (new_tree, c) \<leftarrow> cursor_slice map_key_ops map_key_dim target LeftBias (cursor_new map_key_dim m);
     end \<leftarrow> cursor_end map_key_dim c;
     (removed, c) \<leftarrow>
       (if target end = Equal then do {
          item \<leftarrow> cursor_item c;
          item \<leftarrow> item;
          c \<leftarrow> cursor_next map_key_dim c;
          Some (Some (me_value item), c)
        }
        else Some (None, c));
     (suffix, c) \<leftarrow> cursor_suffix map_key_ops map_key_dim c;
     new_tree \<leftarrow> tree_append map_key_ops new_tree suffix;
     Some (removed, new_tree)
   })"

text \<open>\<open>MapSeekTarget\<close>: a comparison with a key, adapted to cursor locations.\<close>

definition seek_target_adaptor :: "('k \<Rightarrow> ordering) \<Rightarrow> 'k option target" where
  "seek_target_adaptor cmp_cursor location =
     (case location of Some key \<Rightarrow> cmp_cursor key | None \<Rightarrow> Greater)"

definition map_remove_range :: "('k::linorder, 'v) tree_map \<Rightarrow> ('k \<Rightarrow> ordering) \<Rightarrow> ('k \<Rightarrow> ordering) \<Rightarrow>
    ('k, 'v) tree_map option" where
  "map_remove_range m start end = do {
     (new_tree, c) \<leftarrow>
       cursor_slice map_key_ops map_key_dim (seek_target_adaptor start) LeftBias (cursor_new map_key_dim m);
     (_, c) \<leftarrow> cursor_seek map_key_dim (seek_target_adaptor end) LeftBias c;
     (suffix, c) \<leftarrow> cursor_suffix map_key_ops map_key_dim c;
     tree_append map_key_ops new_tree suffix
   }"

definition map_closest :: "('k::linorder, 'v) tree_map \<Rightarrow> 'k \<Rightarrow> ('k \<times> 'v) option option" where
  "map_closest m key = do {
     (_, c) \<leftarrow> cursor_seek map_key_dim (ord_target (Some key)) RightBias (cursor_new map_key_dim m);
     c \<leftarrow> cursor_prev map_key_dim c;
     item \<leftarrow> cursor_item c;
     Some (map_option entry_pair item)
   }"

text \<open>The items of the iterator that is returned.\<close>

definition map_iter_from :: "('k::linorder, 'v) tree_map \<Rightarrow> 'k \<Rightarrow> ('k \<times> 'v) list option" where
  "map_iter_from m from_key = do {
     (_, c) \<leftarrow> cursor_seek map_key_dim (ord_target (Some from_key)) LeftBias (cursor_new map_key_dim m);
     xs \<leftarrow> iter_collect map_key_dim (\<lambda>_. True) c;
     Some (map entry_pair xs)
   }"

definition map_update :: "('k::linorder, 'v) tree_map \<Rightarrow> 'k \<Rightarrow> ('v \<Rightarrow> 'v \<times> 'r) \<Rightarrow>
    ('r option \<times> ('k, 'v) tree_map) option" where
  "map_update m key f = (let target = ord_target (Some key) in do {
     (new_tree, c) \<leftarrow> cursor_slice map_key_ops map_key_dim target LeftBias (cursor_new map_key_dim m);
     end \<leftarrow> cursor_end map_key_dim c;
     (result, new_tree, c) \<leftarrow>
       (if target end = Equal then do {
          item \<leftarrow> cursor_item c;
          updated \<leftarrow> item;
          let (value, r) = f (me_value updated);
          new_tree \<leftarrow> tree_push map_key_ops new_tree (updated\<lparr>me_value := value\<rparr>);
          c \<leftarrow> cursor_next map_key_dim c;
          Some (Some r, new_tree, c)
        }
        else Some (None, new_tree, c));
     (suffix, c) \<leftarrow> cursor_suffix map_key_ops map_key_dim c;
     new_tree \<leftarrow> tree_append map_key_ops new_tree suffix;
     Some (result, new_tree)
   })"

text \<open>The predicate of \<open>retain\<close> is a closure with state.\<close>

partial_function (option) retain_loop :: "('p \<Rightarrow> 'k \<Rightarrow> 'v \<Rightarrow> bool \<times> 'p) \<Rightarrow> 'p \<Rightarrow> ('k, 'v) tree_map \<Rightarrow>
    (('k, 'v) map_entry, 'k option, 'k option) cursor \<Rightarrow> (('k, 'v) tree_map \<times> 'p) option" where
  "retain_loop predicate p new_map c = do {
     item \<leftarrow> cursor_item c;
     (case item of
        None \<Rightarrow> Some (new_map, p)
      | Some x \<Rightarrow> (case predicate p (me_key x) (me_value x) of (keep, p') \<Rightarrow> do {
          new_map' \<leftarrow> (if keep then tree_push map_key_ops new_map x else Some new_map);
          c' \<leftarrow> cursor_next map_key_dim c;
          retain_loop predicate p' new_map' c'
        }))
   }"

declare retain_loop.simps [code]

definition map_retain :: "('p \<Rightarrow> 'k \<Rightarrow> 'v \<Rightarrow> bool \<times> 'p) \<Rightarrow> 'p \<Rightarrow> ('k, 'v) tree_map \<Rightarrow>
    (('k, 'v) tree_map \<times> 'p) option" where
  "map_retain predicate p m = do {
     c \<leftarrow> cursor_next map_key_dim (cursor_new map_key_dim m);
     retain_loop predicate p map_default c
   }"

definition map_iter :: "('k, 'v) tree_map \<Rightarrow> ('k \<times> 'v) list option" where
  "map_iter m = do { (xs, _) \<leftarrow> iter_items (iter_new m); Some (map entry_pair xs) }"

definition map_values :: "('k, 'v) tree_map \<Rightarrow> 'v list option" where
  "map_values m = do { (xs, _) \<leftarrow> iter_items (iter_new m); Some (map me_value xs) }"

definition map_first :: "('k, 'v) tree_map \<Rightarrow> ('k \<times> 'v) option option" where
  "map_first m = map_option (map_option entry_pair) (tree_first m)"

definition map_last :: "('k, 'v) tree_map \<Rightarrow> ('k \<times> 'v) option option" where
  "map_last m = map_option (map_option entry_pair) (tree_last m)"

definition map_insert_tree :: "(('k, 'v) map_edit list \<Rightarrow> ('k, 'v) map_edit list) \<Rightarrow> ('k::linorder, 'v) tree_map \<Rightarrow>
    ('k, 'v) tree_map \<Rightarrow> ('k, 'v) tree_map option" where
  "map_insert_tree sort_by_key m other = do {
     kvs \<leftarrow> map_iter other;
     (_, m') \<leftarrow> tree_edit sort_by_key map_key_ops map_key_dim entry_map_key m (map (\<lambda>kv. Insert (mk_entry kv)) kvs);
     Some m'
   }"

text \<open>The set is a map to the unit type.\<close>

type_synonym 'k tree_set = "('k, unit) tree_map"

definition set_from_ordered_entries :: "'k list \<Rightarrow> 'k tree_set option" where
  "set_from_ordered_entries entries = map_from_ordered_entries (map (\<lambda>key. (key, ())) entries)"

definition set_insert :: "'k::linorder tree_set \<Rightarrow> 'k \<Rightarrow> 'k tree_set option" where
  "set_insert s key = map_insert s key ()"

definition set_remove :: "'k::linorder tree_set \<Rightarrow> 'k \<Rightarrow> (bool \<times> 'k tree_set) option" where
  "set_remove s key = do { (removed, s') \<leftarrow> map_remove s key; Some (removed \<noteq> None, s') }"

definition set_extend :: "(('k, unit) map_edit list \<Rightarrow> ('k, unit) map_edit list) \<Rightarrow> 'k::linorder tree_set \<Rightarrow>
    'k list \<Rightarrow> 'k tree_set option" where
  "set_extend sort_by_key s keys = map_extend sort_by_key s (map (\<lambda>key. (key, ())) keys)"

definition set_contains :: "'k::linorder tree_set \<Rightarrow> 'k \<Rightarrow> bool" where
  "set_contains s key = (map_get s key \<noteq> None)"

definition set_iter :: "'k tree_set \<Rightarrow> 'k list option" where
  "set_iter s = map_option (map fst) (map_iter s)"

definition set_iter_from :: "'k::linorder tree_set \<Rightarrow> 'k \<Rightarrow> 'k list option" where
  "set_iter_from s key = map_option (map fst) (map_iter_from s key)"

end
