(* ===== verification/Tree_Map_Correct.thy ===== *)
theory Tree_Map_Correct
  imports Tree_Map
begin

text \<open>
  The tree map refines finite maps: every operation acts on \<open>map_of_tree\<close> as the map
  operation of the same name, on maps whose entries are strictly sorted by key.
\<close>

definition map_entries :: "('k, 'v) tree_map \<Rightarrow> ('k \<times> 'v) list" where
  "map_entries m = map entry_pair (flat m)"

definition map_of_tree :: "('k, 'v) tree_map \<Rightarrow> 'k \<rightharpoonup> 'v" where
  "map_of_tree m = map_of (map_entries m)"

text \<open>The invariant, with the fan-out \<open>k\<close> below the root and the bound on the height.\<close>

definition map_ok :: "nat \<Rightarrow> ('k::linorder, 'v) tree_map \<Rightarrow> bool" where
  "map_ok k m \<longleftrightarrow> wf_tree map_key_ops k m \<and> k \<le> TREE_BASE \<and> sorted_wrt (<) (map me_key (flat m))"

lemma entry_key_less [simp]:
  "entry_map_key a < entry_map_key b \<longleftrightarrow> me_key a < me_key b"
  "entry_map_key a \<le> entry_map_key b \<longleftrightarrow> me_key a \<le> me_key b"
  "entry_map_key a < Some k \<longleftrightarrow> me_key a < k"
  "entry_map_key a \<le> Some k \<longleftrightarrow> me_key a \<le> k"
  "Some k < entry_map_key a \<longleftrightarrow> k < me_key a"
  "Some k \<le> entry_map_key a \<longleftrightarrow> k \<le> me_key a"
  "entry_map_key a = Some k \<longleftrightarrow> me_key a = k"
  "Some k = entry_map_key a \<longleftrightarrow> me_key a = k"
  "entry_map_key a = entry_map_key b \<longleftrightarrow> me_key a = me_key b"
  by (auto simp: entry_map_key_def less_option_Some)

lemma sorted_entry_key [simp]:
  "sorted_wrt (<) (map entry_map_key xs) \<longleftrightarrow> sorted_wrt (<) (map me_key xs)"
  by (simp add: sorted_wrt_map)

lemma mk_entry_simps [simp]:
  "me_key (mk_entry (k, v)) = k" "me_value (mk_entry (k, v)) = v" "entry_pair (mk_entry kv) = kv"
  "entry_map_key (mk_entry (k, v)) = Some k"
  by (auto simp: mk_entry_def entry_pair_def entry_map_key_def split: prod.split)

text \<open>Looking up in the list of entries.\<close>

lemma map_of_entries:
  "map_of (map entry_pair xs) k = map_option me_value (find (\<lambda>e. me_key e = k) xs)"
  by (induction xs) (auto simp: entry_pair_def)

lemma map_of_filter_key:
  "(\<And>e. me_key e = k \<Longrightarrow> P e = b) \<Longrightarrow>
   map_of (map entry_pair (filter P xs)) k = (if b then map_of (map entry_pair xs) k else None)"
  by (induction xs) (auto simp: entry_pair_def)

lemma map_of_tree_find: "map_of_tree m k = map_option me_value (find (\<lambda>e. me_key e = k) (flat m))"
  by (simp add: map_of_tree_def map_entries_def map_of_entries)

lemma map_of_split:
  fixes e :: "('k::linorder, 'v) map_entry"
  assumes that: "me_key e = k"
  shows "map_of (map entry_pair (filter (\<lambda>e. me_key e < k) xs @ e # filter (\<lambda>e. k < me_key e) xs)) =
   (map_of (map entry_pair xs))(me_key e \<mapsto> me_value e)"
proof
  fix k'
  have "map_of (map entry_pair (filter (\<lambda>e. me_key e < k) xs)) k' =
      (if k' < k then map_of (map entry_pair xs) k' else None)"
    and "map_of (map entry_pair (filter (\<lambda>e. k < me_key e) xs)) k' =
      (if k < k' then map_of (map entry_pair xs) k' else None)"
    by (rule map_of_filter_key, simp)+
  then show "map_of (map entry_pair (filter (\<lambda>e. me_key e < k) xs @ e # filter (\<lambda>e. k < me_key e) xs)) k' =
      ((map_of (map entry_pair xs))(me_key e \<mapsto> me_value e)) k'"
    using that by (cases k' k rule: linorder_cases) (auto simp: map_add_def entry_pair_def split: option.split)
qed

lemma sorted_split:
  fixes e :: "('k::linorder, 'v) map_entry"
  shows "sorted_wrt (<) (map me_key xs) \<Longrightarrow> me_key e = k \<Longrightarrow>
   sorted_wrt (<) (map me_key (filter (\<lambda>e. me_key e < k) xs @ e # filter (\<lambda>e. k < me_key e) xs))"
  by (auto simp: sorted_wrt_append sorted_wrt_map intro: sorted_wrt_filter less_trans [of _ k])

text \<open>A strictly sorted list is its part below a key, the entry with the key, and its part above.\<close>

lemma sorted_parts:
  fixes xs :: "('k::linorder, 'v) map_entry list"
  shows "sorted_wrt (<) (map me_key xs) \<Longrightarrow>
   filter (\<lambda>e. me_key e < k) xs @ filter (\<lambda>e. k < me_key e) xs = filter (\<lambda>e. me_key e \<noteq> k) xs"
proof (induction xs)
  case (Cons y ys)
  show ?case
  proof (cases "me_key y < k")
    case False
    then have above: "\<forall>x\<in>set ys. k < me_key x" using Cons.prems by fastforce
    then have "filter (\<lambda>e. me_key e < k) ys = []" by (auto simp: filter_empty_conv)
    with above Cons False show ?thesis by auto
  qed (use Cons in auto)
qed simp

lemma sorted_parts_mid:
  fixes xs :: "('k::linorder, 'v) map_entry list"
  shows "sorted_wrt (<) (map me_key xs) \<Longrightarrow> find (\<lambda>e. me_key e = k) xs = Some x \<Longrightarrow>
   xs = filter (\<lambda>e. me_key e < k) xs @ x # filter (\<lambda>e. k < me_key e) xs"
proof (induction xs)
  case (Cons y ys)
  show ?case
  proof (cases "me_key y < k")
    case True
    with Cons have "ys = filter (\<lambda>e. me_key e < k) ys @ x # filter (\<lambda>e. k < me_key e) ys"
      by (auto split: if_splits)
    with True show ?thesis by auto
  next
    case False
    then have above: "\<forall>x\<in>set ys. k < me_key x" using Cons.prems(1) by fastforce
    then have "filter (\<lambda>e. me_key e < k) ys = []" "filter (\<lambda>e. k < me_key e) ys = ys"
      "find (\<lambda>e. me_key e = k) ys = None" by (auto simp: filter_empty_conv find_None_iff)
    with False Cons.prems(2) show ?thesis by (auto split: if_splits)
  qed
qed simp

lemma map_height:
  "map_ok TREE_BASE m \<Longrightarrow> length (flat m) < TREE_BASE ^ STACK_CAP \<Longrightarrow> node_height m < STACK_CAP"
  using wf_node_height_bound [of map_key_ops TREE_BASE "node_height m" m STACK_CAP]
  by (auto simp: map_ok_def wf_tree_def tree_new_def TREE_BASE_def STACK_CAP_def)

section \<open>Operations refine map operations\<close>

lemma map_okD:
  assumes "map_ok k m"
  shows "wf_tree map_key_ops k m" and "k \<le> TREE_BASE" and "sorted_wrt (<) (map entry_map_key (flat m))"
    and "sorted (map entry_map_key (flat m))" and "sorted_wrt (<) (map me_key (flat m))"
  using assms by (auto simp: map_ok_def intro: strict_sorted_imp_sorted)

lemma find_ge_eq:
  fixes key :: "'k::linorder"
  shows "sorted_wrt (<) (map me_key es) \<Longrightarrow>
   find (\<lambda>e. me_key e = key) es =
     (case find (\<lambda>e. key \<le> me_key e) es of Some e \<Rightarrow> if me_key e = key then Some e else None | None \<Rightarrow> None)"
proof (induction es)
  case (Cons e es)
  have "find (\<lambda>e. me_key e = key) es = None" if "key \<le> me_key e"
  proof -
    have "\<forall>x\<in>set es. key < me_key x" using Cons.prems that by fastforce
    then show ?thesis by (auto simp: find_None_iff)
  qed
  with Cons show ?case by auto
qed simp

lemma map_get_ok: "map_ok k m \<Longrightarrow> map_get m key = map_of_tree m key"
  using map_tree.tree_find_key [OF map_okD(1,4), of k m k "Some key"]
  by (auto simp: map_get_def map_of_tree_find find_ge_eq [OF map_okD(5)] split: prod.split option.split)

lemma map_insert_or_replace_ok:
  assumes "map_ok k m" and "node_height m < STACK_CAP"
  shows "\<exists>m'. map_insert_or_replace m key value = Some (map_of_tree m key, m') \<and> map_insert m key value = Some m' \<and>
    map_ok k m' \<and> map_of_tree m' = (map_of_tree m)(key \<mapsto> value) \<and> length (flat m') \<le> Suc (length (flat m))"
proof -
  let ?e = "mk_entry (key, value)"
  from map_tree.insert_or_replace_ok [OF map_okD(1) [OF assms(1)] assms(2) map_okD(2,3) [OF assms(1)], of ?e]
  obtain m' where m': "insert_or_replace map_key_ops map_key_dim entry_map_key m ?e =
      Some (find (\<lambda>e. me_key e = key) (flat m), m')" "wf_tree map_key_ops k m'"
    "flat m' = filter (\<lambda>e. me_key e < key) (flat m) @ ?e # filter (\<lambda>e. key < me_key e) (flat m)"
    by auto
  have "map_of_tree m' = (map_of_tree m)(key \<mapsto> value)"
    using map_of_split [of ?e key "flat m"] by (simp add: map_of_tree_def map_entries_def m'(3) del: map_append list.map)
  moreover have "map_ok k m'"
    using sorted_split [OF map_okD(5) [OF assms(1)], of ?e key] m'(2,3) assms(1)
    by (simp add: map_ok_def del: map_append list.map)
  moreover have "length (filter (\<lambda>e. me_key e < key) xs) + length (filter (\<lambda>e. key < me_key e) xs) \<le> length xs" for xs :: "('a, 'b) map_entry list"
    by (induction xs) auto
  ultimately show ?thesis
    using m'(1,3) by (simp add: map_insert_or_replace_def map_insert_def map_of_tree_find)
qed

text \<open>The part \<open>remove\<close> and \<open>update\<close> share: slice to the key and compare with the end.\<close>

lemma open_map:
  assumes "map_ok k m" and "node_height m < STACK_CAP"
  shows "\<exists>a c e. cursor_slice map_key_ops map_key_dim (ord_target (Some key)) LeftBias (cursor_new map_key_dim m) = Some (a, c) \<and>
    wf_tree map_key_ops k a \<and> flat a = filter (\<lambda>e. me_key e < key) (flat m) \<and>
    cursor_end map_key_dim c = Some e \<and>
    (ord_target (Some key) e = Equal \<longleftrightarrow> map_of_tree m key \<noteq> None) \<and>
    (case find (\<lambda>e. me_key e = key) (flat m) of
       None \<Rightarrow> \<exists>u c'. cursor_suffix map_key_ops map_key_dim c = Some (u, c') \<and> wf_tree map_key_ops k u \<and>
         flat u = filter (\<lambda>e. key < me_key e) (flat m)
     | Some x \<Rightarrow> cursor_item c = Some (Some x) \<and> me_key x = key \<and>
         (\<exists>c' u c''. cursor_next map_key_dim c = Some c' \<and> cursor_suffix map_key_ops map_key_dim c' = Some (u, c'') \<and>
           wf_tree map_key_ops k u \<and> flat u = filter (\<lambda>e. key < me_key e) (flat m)))"
proof -
  note m = map_okD [OF assms(1)]
  let ?lo = "filter (\<lambda>e. me_key e < key) (flat m)"
  define ds where "ds = dropWhile (\<lambda>e. me_key e < key) (flat m)"
  note split = map_tree.split_at_key [OF m(3), of "Some key", simplified, folded ds_def]
  have st: "cursor_fresh map_key_ops map_key_dim k (cursor_new map_key_dim m)" using m(1) assms(2) by simp
  from map_tree.slice_key [OF m(2), of "cursor_new map_key_dim m" "[]" "flat m" "Some key"] st m(4) obtain a c where
    a: "cursor_slice map_key_ops map_key_dim (ord_target (Some key)) LeftBias (cursor_new map_key_dim m) = Some (a, c)"
      "wf_tree map_key_ops k a" "flat a = ?lo" "cursor_at map_key_ops map_key_dim k c ?lo ds"
    by (auto simp: split(1) ds_def)
  from map_tree.cursor_end_key [OF a(4), of "Some key"] obtain e where
    e: "cursor_end map_key_dim c = Some e" "e = Some key \<longleftrightarrow> find (\<lambda>e. me_key e = key) (flat m) \<noteq> None"
    by (auto simp: split(3))
  show ?thesis
  proof (cases ds)
    case Nil
    then have "find (\<lambda>e. me_key e = key) (flat m) = None" using split(3) by (simp add: map_tree.head_equal_def)
    moreover from map_tree.cursor_suffix_ok [OF m(2) disjI2 [OF a(4)]] obtain u c' where
      "cursor_suffix map_key_ops map_key_dim c = Some (u, c')" "wf_tree map_key_ops k u" "flat u = ds" by blast
    moreover have "ds = filter (\<lambda>e. key < me_key e) (flat m)" using Nil split(2) by (simp add: map_tree.drop_equal_def)
    ultimately show ?thesis using a e by (auto simp: map_of_tree_find)
  next
    case (Cons x vs)
    show ?thesis
    proof (cases "me_key x = key")
      case False
      then have "find (\<lambda>e. me_key e = key) (flat m) = None" using Cons split(3) by (simp add: map_tree.head_equal_def)
      moreover from map_tree.cursor_suffix_ok [OF m(2) disjI2 [OF a(4)]] obtain u c' where
        "cursor_suffix map_key_ops map_key_dim c = Some (u, c')" "wf_tree map_key_ops k u" "flat u = ds" by blast
      moreover have "ds = filter (\<lambda>e. key < me_key e) (flat m)"
        using Cons False split(2) by (simp add: map_tree.drop_equal_def)
      ultimately show ?thesis using a e by (auto simp: map_of_tree_find)
    next
      case True
      then have "find (\<lambda>e. me_key e = key) (flat m) = Some x" "filter (\<lambda>e. key < me_key e) (flat m) = vs"
        using Cons split(2,3) by (simp_all add: map_tree.head_equal_def map_tree.drop_equal_def)
      moreover from map_tree.cursor_next_ok [OF ahead_at [OF a(4) [unfolded Cons]]] obtain c1 where
        c1: "cursor_next map_key_dim c = Some c1" "cursor_at map_key_ops map_key_dim k c1 (?lo @ [x]) vs" by blast
      moreover from map_tree.cursor_suffix_ok [OF m(2) disjI2 [OF c1(2)]] obtain u c' where
        "cursor_suffix map_key_ops map_key_dim c1 = Some (u, c')" "wf_tree map_key_ops k u" "flat u = vs" by blast
      moreover have "cursor_item c = Some (Some x)" using cursor_at_item(1) [OF a(4)] Cons by (simp add: first_opt_def)
      ultimately show ?thesis using a e True by (auto simp: map_of_tree_find)
    qed
  qed
qed

lemma map_remove_ok:
  assumes "map_ok k m" and "node_height m < STACK_CAP"
  shows "\<exists>m'. map_remove m key = Some (map_of_tree m key, m') \<and> map_ok k m' \<and>
    map_of_tree m' = (map_of_tree m)(key := None) \<and> flat m' = filter (\<lambda>e. me_key e \<noteq> key) (flat m)"
proof -
  let ?lo = "filter (\<lambda>e. me_key e < key) (flat m)" and ?hi = "filter (\<lambda>e. key < me_key e) (flat m)"
  from open_map [OF assms, of key] obtain a c e where
    o: "cursor_slice map_key_ops map_key_dim (ord_target (Some key)) LeftBias (cursor_new map_key_dim m) = Some (a, c)"
      "wf_tree map_key_ops k a" "flat a = ?lo" "cursor_end map_key_dim c = Some e"
      "ord_target (Some key) e = Equal \<longleftrightarrow> map_of_tree m key \<noteq> None" and
    f: "case find (\<lambda>e. me_key e = key) (flat m) of
       None \<Rightarrow> \<exists>u c'. cursor_suffix map_key_ops map_key_dim c = Some (u, c') \<and> wf_tree map_key_ops k u \<and> flat u = ?hi
     | Some x \<Rightarrow> cursor_item c = Some (Some x) \<and> me_key x = key \<and>
         (\<exists>c' u c''. cursor_next map_key_dim c = Some c' \<and> cursor_suffix map_key_ops map_key_dim c' = Some (u, c'') \<and>
           wf_tree map_key_ops k u \<and> flat u = ?hi)" by blast
  have "\<exists>u. wf_tree map_key_ops k u \<and> flat u = ?hi \<and>
      map_remove m key = do { t \<leftarrow> tree_append map_key_ops a u; Some (map_of_tree m key, t) }"
    using f o by (cases "find (\<lambda>e. me_key e = key) (flat m)") (auto simp: map_remove_def Let_def map_of_tree_find)
  then obtain u m' where m': "map_remove m key = Some (map_of_tree m key, m')" "wf_tree map_key_ops k m'"
    "flat m' = ?lo @ ?hi"
    using map_tree.tree_append_ok [OF o(2) _ map_okD(2) [OF assms(1)]] o(3) by fastforce
  have flat: "flat m' = filter (\<lambda>e. me_key e \<noteq> key) (flat m)"
    using sorted_parts [OF map_okD(5) [OF assms(1)]] m'(3) by simp
  moreover have "map_of_tree m' = (map_of_tree m)(key := None)"
  proof
    fix k'
    show "map_of_tree m' k' = ((map_of_tree m)(key := None)) k'"
      unfolding map_of_tree_def map_entries_def flat
      using map_of_filter_key [of k' "\<lambda>e. me_key e \<noteq> key" "k' \<noteq> key" "flat m"] by auto
  qed
  moreover have "map_ok k m'"
    using m'(2) map_okD(2,5) [OF assms(1)] unfolding map_ok_def flat
    by (simp add: sorted_wrt_map sorted_wrt_filter)
  ultimately show ?thesis using m'(1) by blast
qed

lemma map_update_ok:
  assumes "map_ok k m" and "node_height m < STACK_CAP"
  shows "\<exists>m'. map_update m key f = Some (map_option (\<lambda>v. snd (f v)) (map_of_tree m key), m') \<and> map_ok k m' \<and>
    map_of_tree m' = (map_of_tree m)(key := map_option (\<lambda>v. fst (f v)) (map_of_tree m key)) \<and>
    map me_key (flat m') = map me_key (flat m)"
proof -
  let ?lo = "filter (\<lambda>e. me_key e < key) (flat m)" and ?hi = "filter (\<lambda>e. key < me_key e) (flat m)"
  from open_map [OF assms, of key] obtain a c e where
    o: "cursor_slice map_key_ops map_key_dim (ord_target (Some key)) LeftBias (cursor_new map_key_dim m) = Some (a, c)"
      "wf_tree map_key_ops k a" "flat a = ?lo" "cursor_end map_key_dim c = Some e"
      "ord_target (Some key) e = Equal \<longleftrightarrow> map_of_tree m key \<noteq> None" and
    f: "case find (\<lambda>e. me_key e = key) (flat m) of
       None \<Rightarrow> \<exists>u c'. cursor_suffix map_key_ops map_key_dim c = Some (u, c') \<and> wf_tree map_key_ops k u \<and> flat u = ?hi
     | Some x \<Rightarrow> cursor_item c = Some (Some x) \<and> me_key x = key \<and>
         (\<exists>c' u c''. cursor_next map_key_dim c = Some c' \<and> cursor_suffix map_key_ops map_key_dim c' = Some (u, c'') \<and>
           wf_tree map_key_ops k u \<and> flat u = ?hi)" by blast
  note app = map_tree.tree_append_ok [OF _ _ map_okD(2) [OF assms(1)]]
  note parts = sorted_parts [OF map_okD(5) [OF assms(1)], of key]
  show ?thesis
  proof (cases "find (\<lambda>e. me_key e = key) (flat m)")
    case None
    with f obtain u c' where
      u: "cursor_suffix map_key_ops map_key_dim c = Some (u, c')" "wf_tree map_key_ops k u" "flat u = ?hi" by auto
    from app [OF o(2) u(2)] obtain m' where m': "tree_append map_key_ops a u = Some m'" "wf_tree map_key_ops k m'"
      "flat m' = ?lo @ ?hi" using o(3) u(3) by auto
    have "map_update m key f = Some (None, m')"
      using o u(1) m'(1) None by (simp add: map_update_def Let_def map_of_tree_find)
    moreover have "flat m' = flat m" using m'(3) parts None by (auto simp: find_None_iff intro: filter_True)
    ultimately show ?thesis
      using m'(2) assms(1) None by (auto simp: map_ok_def map_of_tree_find)
  next
    case (Some x)
    with f obtain c' u c'' where
      u: "cursor_item c = Some (Some x)" "me_key x = key" "cursor_next map_key_dim c = Some c'"
        "cursor_suffix map_key_ops map_key_dim c' = Some (u, c'')" "wf_tree map_key_ops k u" "flat u = ?hi" by auto
    let ?x = "x\<lparr>me_value := fst (f (me_value x))\<rparr>"
    from map_tree.tree_push_ok [OF o(2) map_okD(2) [OF assms(1)], of ?x] obtain b where
      b: "tree_push map_key_ops a ?x = Some b" "wf_tree map_key_ops k b" "flat b = ?lo @ [?x]" using o(3) by auto
    from app [OF b(2) u(5)] obtain m' where m': "tree_append map_key_ops b u = Some m'" "wf_tree map_key_ops k m'"
      "flat m' = ?lo @ ?x # ?hi" using b(3) u(6) by auto
    have "map_update m key f = Some (Some (snd (f (me_value x))), m')"
      using o u b(1) m'(1) Some
      by (cases "f (me_value x)") (simp add: map_update_def Let_def map_of_tree_find)
    moreover have "map_of_tree m' = (map_of_tree m)(key \<mapsto> fst (f (me_value x)))"
      using map_of_split [of ?x key "flat m"] u(2)
      by (simp add: map_of_tree_def map_entries_def m'(3) del: map_append list.map)
    moreover have "map_ok k m'"
      using sorted_split [OF map_okD(5) [OF assms(1)], of ?x key] u(2) m'(2,3) assms(1)
      by (simp add: map_ok_def del: map_append list.map)
    moreover have "map me_key (flat m') = map me_key (flat m)"
    proof -
      from sorted_parts_mid [OF map_okD(5) [OF assms(1)] Some] have "flat m = ?lo @ x # ?hi" .
      then have "map me_key (flat m) = map me_key (?lo @ x # ?hi)" by simp
      then show ?thesis by (simp add: m'(3))
    qed
    ultimately show ?thesis using Some by (auto simp: map_of_tree_find)
  qed
qed

text \<open>Ranges: what is kept is the prefix before the start and the suffix from the end.\<close>

definition monotone_cmp :: "('k::linorder \<Rightarrow> ordering) \<Rightarrow> bool" where
  "monotone_cmp f \<longleftrightarrow> (\<forall>a b. a \<le> b \<longrightarrow> cmp_rank (f a) \<le> cmp_rank (f b))"

lemma monotone_adaptor:
  assumes "monotone_cmp f" and "sorted (map entry_map_key xs)"
  shows "monotone_target (seek_target_adaptor f) (map entry_map_key xs)"
proof -
  have "sorted_wrt (\<lambda>a b. cmp_rank (seek_target_adaptor f (entry_map_key a)) \<le> cmp_rank (seek_target_adaptor f (entry_map_key b))) xs"
    using assms(2) unfolding sorted_wrt_map
    by (rule sorted_wrt_mono_rel [rotated])
      (use assms(1) in \<open>auto simp: monotone_cmp_def seek_target_adaptor_def entry_map_key_def\<close>)
  then show ?thesis by (simp add: monotone_target_def sorted_wrt_map)
qed

lemma passed_adaptor:
  "passed map_key_ops map_key_dim (seek_target_adaptor f) LeftBias p xs = takeWhile (\<lambda>e. f (me_key e) = Greater) xs"
proof (induction xs arbitrary: p)
  case (Cons x xs)
  have "target_in LeftBias c \<longleftrightarrow> c \<noteq> Greater" for c by (cases c) (auto simp: target_in_def)
  with Cons show ?case by (simp add: Let_def map_key_dim_def seek_target_adaptor_def entry_map_key_def)
qed simp

lemma map_remove_range_list:
  assumes "map_ok k m" and "node_height m < STACK_CAP" and "monotone_cmp start" and "monotone_cmp end_cmp"
  shows "\<exists>m'. map_remove_range m start end_cmp = Some m' \<and> wf_tree map_key_ops k m' \<and>
    flat m' = takeWhile (\<lambda>e. start (me_key e) = Greater) (flat m) @ dropWhile (\<lambda>e. end_cmp (me_key e) = Greater) (flat m)"
proof -
  note m = map_okD [OF assms(1)]
  have fresh: "cursor_fresh map_key_ops map_key_dim k (cursor_new map_key_dim m)" using m(1) assms(2) by simp
  then have pos: "cur_position (cursor_new map_key_dim m) = None" by (simp add: cursor_fresh_def)
  have greater: "seek_target_adaptor f None \<noteq> Less" for f :: "'a \<Rightarrow> ordering" by (simp add: seek_target_adaptor_def)
  have np: "not_passed map_key_ops map_key_dim (seek_target_adaptor f) LeftBias p xs = dropWhile (\<lambda>e. f (me_key e) = Greater) xs"
    for f p and xs :: "('a, 'b) map_entry list" by (simp add: not_passed_def passed_adaptor dropWhile_eq_drop)
  from map_tree.cursor_slice_ok [OF m(2), of "cursor_new map_key_dim m" "[]" "flat m" "seek_target_adaptor start" LeftBias]
    fresh greater monotone_adaptor [OF assms(3) m(4)]
  obtain a c where a: "cursor_slice map_key_ops map_key_dim (seek_target_adaptor start) LeftBias (cursor_new map_key_dim m) = Some (a, c)"
    "wf_tree map_key_ops k a" "flat a = takeWhile (\<lambda>e. start (me_key e) = Greater) (flat m)"
    "cursor_at map_key_ops map_key_dim k c (takeWhile (\<lambda>e. start (me_key e) = Greater) (flat m))
       (dropWhile (\<lambda>e. start (me_key e) = Greater) (flat m))" "cur_tree c = m"
    by (auto simp: pos passed_adaptor np)
  from map_tree.cursor_seek_ok [OF disjI2 [OF a(4)], where target = "seek_target_adaptor end_cmp" and bias = LeftBias]
    a(5) greater monotone_adaptor [OF assms(4) m(4)]
  obtain b c' where c': "cursor_seek map_key_dim (seek_target_adaptor end_cmp) LeftBias c = Some (b, c')"
    "cursor_at map_key_ops map_key_dim k c' (takeWhile (\<lambda>e. end_cmp (me_key e) = Greater) (flat m))
       (dropWhile (\<lambda>e. end_cmp (me_key e) = Greater) (flat m))"
    by (auto simp: passed_adaptor np)
  from map_tree.cursor_suffix_ok [OF m(2) disjI2 [OF c'(2)]] obtain u c'' where
    u: "cursor_suffix map_key_ops map_key_dim c' = Some (u, c'')" "wf_tree map_key_ops k u"
      "flat u = dropWhile (\<lambda>e. end_cmp (me_key e) = Greater) (flat m)" by blast
  from map_tree.tree_append_ok [OF a(2) u(2) m(2)] a(1,3) c'(1) u(1,3) show ?thesis
    by (auto simp: map_remove_range_def)
qed

lemma takeWhile_filter_key:
  fixes xs :: "('k::linorder, 'v) map_entry list"
  assumes "sorted_wrt (<) (map me_key xs)" and "\<And>a b. a \<le> b \<Longrightarrow> P b \<Longrightarrow> P a"
  shows "takeWhile (\<lambda>e. P (me_key e)) xs = filter (\<lambda>e. P (me_key e)) xs \<and>
    dropWhile (\<lambda>e. P (me_key e)) xs = filter (\<lambda>e. \<not> P (me_key e)) xs"
  using assms(1)
proof (induction xs)
  case (Cons y ys)
  show ?case
  proof (cases "P (me_key y)")
    case False
    have "me_key y \<le> me_key x" if "x \<in> set ys" for x using Cons.prems that by auto
    with False assms(2) have "\<forall>x\<in>set ys. \<not> P (me_key x)" by blast
    then show ?thesis using False by (auto simp: filter_empty_conv)
  qed (use Cons in auto)
qed simp

text \<open>A range given in order is removed; one given backwards duplicates what it spans.\<close>

lemma map_remove_range_ok:
  assumes "map_ok k m" and "node_height m < STACK_CAP" and "monotone_cmp start" and "monotone_cmp end_cmp"
    and "\<forall>q. start q = Greater \<longrightarrow> end_cmp q = Greater"
  shows "\<exists>m'. map_remove_range m start end_cmp = Some m' \<and> map_ok k m' \<and>
    map_of_tree m' = map_of_tree m |` {q. start q = Greater \<or> end_cmp q \<noteq> Greater}"
proof -
  have P: "f a = Greater" if "monotone_cmp f" "a \<le> b" "f b = Greater" for f and a b :: 'a
  proof -
    have "cmp_rank (f a) \<le> cmp_rank (f b)" using that(1,2) by (simp add: monotone_cmp_def)
    then show ?thesis using that(3) by (cases "f a") simp_all
  qed
  from map_remove_range_list [OF assms(1-4)] obtain m' where
    m': "map_remove_range m start end_cmp = Some m'" "wf_tree map_key_ops k m'"
    "flat m' = takeWhile (\<lambda>e. start (me_key e) = Greater) (flat m) @ dropWhile (\<lambda>e. end_cmp (me_key e) = Greater) (flat m)"
    by blast
  have s: "sorted_wrt (<) (map me_key (flat m))" using assms(1) by (rule map_okD)
  have "flat m' = filter (\<lambda>e. start (me_key e) = Greater) (flat m) @ filter (\<lambda>e. end_cmp (me_key e) \<noteq> Greater) (flat m)"
    unfolding m'(3) using takeWhile_filter_key [OF s, of "\<lambda>q. start q = Greater"] P [OF assms(3)]
      takeWhile_filter_key [OF s, of "\<lambda>q. end_cmp q = Greater"] P [OF assms(4)] by auto
  also have "\<dots> = filter (\<lambda>e. start (me_key e) = Greater \<or> end_cmp (me_key e) \<noteq> Greater) (flat m)"
    using s
  proof (induction "flat m" arbitrary: m)
    case (Cons y ys)
    have "filter (\<lambda>e. start (me_key e) = Greater \<or> end_cmp (me_key e) \<noteq> Greater) zs =
      filter (\<lambda>e. start (me_key e) = Greater) zs @ filter (\<lambda>e. end_cmp (me_key e) \<noteq> Greater) zs"
      if "sorted_wrt (<) (map me_key zs)" for zs :: "('a, 'b) map_entry list"
      using that
    proof (induction zs)
      case (Cons z zs)
      have "\<forall>x\<in>set zs. end_cmp (me_key x) \<noteq> Greater" if "end_cmp (me_key z) \<noteq> Greater"
        using Cons.prems that P [OF assms(4)] by (auto dest: less_imp_le)
      moreover from this have "filter (\<lambda>e. start (me_key e) = Greater) zs = []" if "end_cmp (me_key z) \<noteq> Greater"
        using assms(5) that by (auto simp: filter_empty_conv)
      ultimately show ?case using Cons assms(5) by auto
    qed simp
    from this [OF Cons.prems] show ?case by simp
  qed simp
  finally have flat: "flat m' = filter (\<lambda>e. start (me_key e) = Greater \<or> end_cmp (me_key e) \<noteq> Greater) (flat m)" .
  moreover have "map_of_tree m' = map_of_tree m |` {q. start q = Greater \<or> end_cmp q \<noteq> Greater}"
  proof
    fix q
    show "map_of_tree m' q = (map_of_tree m |` {q. start q = Greater \<or> end_cmp q \<noteq> Greater}) q"
      unfolding map_of_tree_def map_entries_def flat restrict_map_def
      using map_of_filter_key [of q "\<lambda>e. start (me_key e) = Greater \<or> end_cmp (me_key e) \<noteq> Greater"
          "start q = Greater \<or> end_cmp q \<noteq> Greater" "flat m"] by simp
  qed
  moreover have "map_ok k m'"
    using m'(2) map_okD(2) [OF assms(1)] s unfolding map_ok_def flat by (simp add: sorted_wrt_map sorted_wrt_filter)
  ultimately show ?thesis using m'(1) by blast
qed

lemma map_iter_from_ok:
  assumes "map_ok k m" and "node_height m < STACK_CAP"
  shows "map_iter_from m key = Some (filter (\<lambda>(q, _). key \<le> q) (map_entries m))"
proof -
  note m = map_okD [OF assms(1)]
  have "cursor_fresh map_key_ops map_key_dim k (cursor_new map_key_dim m)" using m(1) assms(2) by simp
  from map_tree.seek_key_left [OF this, of "Some key"] m(4) obtain b c where
    c: "cursor_seek map_key_dim (ord_target (Some key)) LeftBias (cursor_new map_key_dim m) = Some (b, c)"
      "cursor_at map_key_ops map_key_dim k c (takeWhile (\<lambda>e. me_key e < key) (flat m)) (dropWhile (\<lambda>e. me_key e < key) (flat m))"
    by auto
  have "iter_collect map_key_dim (\<lambda>_. True) c = Some (dropWhile (\<lambda>e. me_key e < key) (flat m))"
  proof (cases "dropWhile (\<lambda>e. me_key e < key) (flat m)")
    case (Cons x ws)
    from map_tree.iter_collect_at [OF prunes_True c(2) [unfolded Cons]] show ?thesis by (simp add: Cons)
  next
    case Nil
    with c(2) cursor_at_item(1) [OF c(2)] show ?thesis
      unfolding Nil by (subst iter_collect.simps) (simp add: filter_iter_next_def cursor_at_def first_opt_def)
  qed
  moreover have "map entry_pair (dropWhile (\<lambda>e. me_key e < key) (flat m)) = filter (\<lambda>(q, _). key \<le> q) (map_entries m)"
    using takeWhile_filter_key [OF m(5), of "\<lambda>q. q < key"]
    by (auto simp: map_entries_def filter_map comp_def entry_pair_def not_less)
  ultimately show ?thesis using c(1) by (simp add: map_iter_from_def)
qed

lemma last_opt_map: "last_opt (map f xs) = map_option f (last_opt xs)"
  by (simp add: last_opt_def last_map)

lemma map_closest_ok:
  assumes "map_ok k m" and "node_height m < STACK_CAP"
  shows "map_closest m key = Some (last_opt (filter (\<lambda>(q, _). q \<le> key) (map_entries m)))"
proof -
  note m = map_okD [OF assms(1)]
  let ?us = "takeWhile (\<lambda>e. me_key e \<le> key) (flat m)"
  have "cursor_fresh map_key_ops map_key_dim k (cursor_new map_key_dim m)" using m(1) assms(2) by simp
  from map_tree.seek_key_right [OF this, of "Some key"] m(4) obtain b c where
    c: "cursor_seek map_key_dim (ord_target (Some key)) RightBias (cursor_new map_key_dim m) = Some (b, c)"
      "cursor_at map_key_ops map_key_dim k c ?us (dropWhile (\<lambda>e. me_key e \<le> key) (flat m))" "cur_tree c = m"
    by auto
  from map_tree.cursor_prev_ok [OF behind_at [OF c(2)]] obtain c' where
    p: "cursor_prev map_key_dim c = Some c'"
      "if ?us = [] then (if flat m = [] then cursor_at map_key_ops map_key_dim k c' [] [] else cursor_front map_key_ops map_key_dim k c')
       else cursor_at map_key_ops map_key_dim k c' (butlast ?us) (last ?us # drop (length ?us) (flat m))"
    using c(3) by auto
  have "cursor_item c' = Some (last_opt ?us)"
  proof (cases "?us = []")
    case False
    with p(2) cursor_at_item(1) show ?thesis by (fastforce simp: first_opt_def last_opt_def)
  next
    case True
    with p(2) have "cur_stack c' = [] \<and> did_seek c'" by (auto simp: cursor_front_def cursor_at_def split: if_splits)
    with True show ?thesis by (simp add: cursor_item_def last_opt_def)
  qed
  moreover have "map entry_pair ?us = filter (\<lambda>(q, _). q \<le> key) (map_entries m)"
    using takeWhile_filter_key [OF m(5), of "\<lambda>q. q \<le> key"]
    by (auto simp: map_entries_def filter_map comp_def entry_pair_def)
  ultimately show ?thesis
    using c(1) p(1) last_opt_map [of entry_pair ?us] by (simp add: map_closest_def)
qed

lemma map_iter_ok:
  assumes "map_ok k m" and "node_height m < STACK_CAP"
  shows "map_iter m = Some (map_entries m)" and "map_values m = Some (map snd (map_entries m))"
    and "map_first m = Some (first_opt (map_entries m))" and "map_last m = Some (last_opt (map_entries m))"
proof -
  from iter_items_ok [OF iter_ahead_new [OF map_okD(1) [OF assms(1)] assms(2)]] obtain it where
    "iter_items (iter_new m) = Some (flat m, it)" by auto
  then show "map_iter m = Some (map_entries m)" and "map_values m = Some (map snd (map_entries m))"
    by (auto simp: map_iter_def map_values_def map_entries_def entry_pair_def)
  show "map_first m = Some (first_opt (map_entries m))"
    using tree_first_ok [OF map_okD(1) [OF assms(1)]]
    by (cases "flat m") (auto simp: map_first_def map_entries_def first_opt_def)
  show "map_last m = Some (last_opt (map_entries m))"
    using tree_last_ok [OF map_okD(1) [OF assms(1)]]
    by (auto simp: map_last_def map_entries_def last_opt_def last_map)
qed

section \<open>Retain\<close>

fun retained :: "('p \<Rightarrow> 'k \<Rightarrow> 'v \<Rightarrow> bool \<times> 'p) \<Rightarrow> 'p \<Rightarrow> ('k, 'v) map_entry list \<Rightarrow> ('k, 'v) map_entry list \<times> 'p" where
  "retained P p [] = ([], p)"
| "retained P p (x # xs) =
     (let (keep, p') = P p (me_key x) (me_value x); (ys, p'') = retained P p' xs in (if keep then x # ys else ys, p''))"

lemma retained_pure: "retained (\<lambda>p k v. (Q k v, p)) p xs = (filter (\<lambda>x. Q (me_key x) (me_value x)) xs, p)"
  by (induction xs) auto

lemma retained_set: "set (fst (retained P p xs)) \<subseteq> set xs"
  by (induction P p xs rule: retained.induct) (auto simp: Let_def split: prod.splits if_splits, blast+)

lemma retained_sorted:
  "sorted_wrt (<) (map me_key xs) \<Longrightarrow> sorted_wrt (<) (map me_key (fst (retained P p xs)))"
proof (induction P p xs rule: retained.induct)
  case (2 P p x xs)
  obtain keep p' where P: "P p (me_key x) (me_value x) = (keep, p')" by fastforce
  obtain ys p'' where r: "retained P p' xs = (ys, p'')" by fastforce
  have "sorted_wrt (<) (map me_key ys)" using 2(1) [of "(keep, p')" keep p'] 2(2) P r by simp
  moreover have "set ys \<subseteq> set xs" using retained_set [of P p' xs] r by simp
  ultimately show ?case using 2(2) P r by auto
qed simp

lemma retain_loop_ok:
  fixes n :: "('k::linorder, 'v) tree_map"
  shows "cursor_at map_key_ops map_key_dim k c us ws \<Longrightarrow> wf_tree map_key_ops TREE_BASE n \<Longrightarrow>
   \<exists>n'. retain_loop P p n c = Some (n', snd (retained P p ws)) \<and> wf_tree map_key_ops TREE_BASE n' \<and>
     flat n' = flat n @ fst (retained P p ws)"
proof (induction ws arbitrary: c us n p)
  case Nil
  then show ?case using cursor_at_item(1) [OF Nil(1)] by (simp add: retain_loop.simps first_opt_def)
next
  case (Cons x ws)
  obtain keep p' where P: "P p (me_key x) (me_value x) = (keep, p')" by fastforce
  obtain ys p'' where r: "retained P p' ws = (ys, p'')" by fastforce
  from map_tree.tree_push_ok [OF Cons.prems(2) order.refl, of x] obtain t where
    t: "tree_push map_key_ops n x = Some t" "wf_tree map_key_ops TREE_BASE t" "flat t = flat n @ [x]" by blast
  from map_tree.cursor_next_ok [OF ahead_at [OF Cons.prems(1)]] obtain c' where
    c': "cursor_next map_key_dim c = Some c'" "cursor_at map_key_ops map_key_dim k c' (us @ [x]) ws" by blast
  let ?n = "if keep then t else n"
  have "wf_tree map_key_ops TREE_BASE ?n" using t(2) Cons.prems(2) by simp
  from Cons.IH [OF c'(2) this, of p'] obtain n' where
    "retain_loop P p' ?n c' = Some (n', p'')" "wf_tree map_key_ops TREE_BASE n'" "flat n' = flat ?n @ ys"
    using r by auto
  moreover have "retain_loop P p n c = retain_loop P p' ?n c'"
    using cursor_at_item(1) [OF Cons.prems(1)] P t(1) c'(1)
    by (subst retain_loop.simps) (simp add: first_opt_def)
  ultimately show ?case using P r t(3) by (auto simp: Let_def)
qed

lemma map_retain_ok:
  assumes "map_ok k m" and "node_height m < STACK_CAP"
  shows "\<exists>m'. map_retain P p m = Some (m', snd (retained P p (flat m))) \<and> map_ok TREE_BASE m' \<and>
    flat m' = fst (retained P p (flat m))"
proof -
  have "cursor_fresh map_key_ops map_key_dim k (cursor_new map_key_dim m)" using map_okD(1) [OF assms(1)] assms(2) by simp
  from map_tree.cursor_next_ok [OF ahead_fresh [OF this]] obtain c where
    c: "cursor_next map_key_dim (cursor_new map_key_dim m) = Some c" "cursor_at map_key_ops map_key_dim k c [] (flat m)" by auto
  from retain_loop_ok [OF c(2) wf_tree_new, of P p] c(1) retained_sorted [OF map_okD(5) [OF assms(1)], of P p]
  show ?thesis by (auto simp: map_retain_def map_default_def map_ok_def)
qed

section \<open>Batches\<close>

lemma sorts_stable: "sorts_by_key entry_map_key (sort_key (edit_key entry_map_key))"
  by (simp add: sorts_by_key_def)

lemma map_okI1: "map_ok k m \<Longrightarrow> 1 \<le> k \<Longrightarrow> map_ok 1 m"
  by (auto simp: map_ok_def TREE_BASE_def intro: wf_tree_mono)

text \<open>The edit of a list of insertions, whatever their keys.\<close>

lemma map_edit_inserts:
  assumes "map_ok 1 m" and "node_height m < STACK_CAP" and "sorts_by_key entry_map_key sort_by_key"
    and "es = map (\<lambda>kv. Insert (mk_entry kv)) kvs"
  shows "\<exists>r m'. tree_edit sort_by_key map_key_ops map_key_dim entry_map_key m es = Some (r, m') \<and>
    wf_tree map_key_ops 1 m' \<and> flat m' = map_tree.apply_edits (sort_by_key es) (flat m)"
proof (cases "es = []")
  case True
  with assms(3) have "sort_by_key es = []" by (metis sorts_by_key_def mset_zero_iff_right)
  with True show ?thesis using map_okD(1) [OF assms(1)] by (simp add: tree_edit_def)
next
  case False
  have "sorted (map (edit_key entry_map_key) (sort_by_key es))" using assms(3) by (simp add: sorts_by_key_def)
  from map_tree.tree_edit_ok [of m sort_by_key es] this False map_okD(1,4) [OF assms(1)] assms(2) show ?thesis
    by auto
qed

lemma map_of_tree_mem:
  fixes m :: "('k::linorder, 'v) tree_map"
  assumes "sorted_wrt (<) (map me_key (flat m))"
  shows "map_of_tree m k = Some v \<longleftrightarrow> \<lparr>me_key = k, me_value = v\<rparr> \<in> set (flat m)"
proof -
  have "distinct (map fst (map_entries m))"
    using assms strict_sorted_iff [of "map me_key (flat m)"] by (simp add: map_entries_def comp_def entry_pair_def)
  then have "map_of_tree m k = Some v \<longleftrightarrow> (k, v) \<in> set (map_entries m)"
    unfolding map_of_tree_def by (rule map_of_eq_Some_iff)
  also have "\<dots> \<longleftrightarrow> \<lparr>me_key = k, me_value = v\<rparr> \<in> set (flat m)"
  proof
    assume "(k, v) \<in> set (map_entries m)"
    then obtain e where "e \<in> set (flat m)" "entry_pair e = (k, v)" by (auto simp: map_entries_def)
    moreover from this(2) have "e = \<lparr>me_key = k, me_value = v\<rparr>" by (auto simp: entry_pair_def)
    ultimately show "\<lparr>me_key = k, me_value = v\<rparr> \<in> set (flat m)" by simp
  qed (force simp: map_entries_def entry_pair_def)
  finally show ?thesis .
qed

lemma map_eqI: "(\<And>k v. f k = Some v \<longleftrightarrow> g k = Some v) \<Longrightarrow> f = g"
  by (rule ext) (metis option.exhaust)

lemma map_edit_ok:
  assumes "map_ok 1 m" and "node_height m < STACK_CAP" and "sorts_by_key entry_map_key sort_by_key" and "distinct (map fst kvs)"
  shows "\<exists>r m'. tree_edit sort_by_key map_key_ops map_key_dim entry_map_key m (map (\<lambda>kv. Insert (mk_entry kv)) kvs) =
      Some (r, m') \<and> map_ok 1 m' \<and> map_of_tree m' = map_of_tree m ++ map_of kvs"
proof -
  let ?es = "map (\<lambda>kv. Insert (mk_entry kv)) kvs :: ('a, 'b) map_edit list"
  let ?s = "sort_by_key ?es"
  from map_edit_inserts [OF assms(1-3) refl, of kvs] obtain r m' where
    m': "tree_edit sort_by_key map_key_ops map_key_dim entry_map_key m ?es = Some (r, m')" "wf_tree map_key_ops 1 m'"
      "flat m' = map_tree.apply_edits ?s (flat m)" by blast
  have perm: "mset ?s = mset ?es" "sorted (map (edit_key entry_map_key) ?s)" using assms(3) by (auto simp: sorts_by_key_def)
  from perm(1) have set: "set ?s = set ?es" by (rule mset_eq_setD)
  have "mset (map (edit_key entry_map_key) ?s) = mset (map (edit_key entry_map_key) ?es)"
    using perm(1) by (metis mset_map)
  moreover have "map (edit_key entry_map_key) ?es = map Some (map fst kvs)"
    by (auto simp: comp_def entry_map_key_def mk_entry_def split: prod.split)
  ultimately have "distinct (map (edit_key entry_map_key) ?s)"
    using assms(4) by (metis mset_eq_imp_distinct_iff distinct_map inj_Some inj_on_subset subset_UNIV)
  with perm(2) have strict: "sorted_wrt (<) (map (edit_key entry_map_key) ?s)" by (simp add: strict_sorted_iff)
  note app = map_tree.apply_edits_distinct [OF map_okD(3) [OF assms(1)] strict]
  have ins: "map_tree.inserted ?s = mk_entry ` set kvs" by (auto simp: map_tree.inserted_def set)
  have keys: "edit_key entry_map_key ` set ?s = Some ` fst ` set kvs"
    unfolding set by (force simp: entry_map_key_def mk_entry_def)
  have sorted': "sorted_wrt (<) (map me_key (flat m'))" using app m'(3) by simp
  have mem: "set (flat m') = {x \<in> set (flat m). me_key x \<notin> fst ` set kvs} \<union> mk_entry ` set kvs"
    using app m'(3) by (auto simp: ins keys entry_map_key_def)
  have "map_of_tree m' = map_of_tree m ++ map_of kvs"
  proof (intro map_eqI)
    fix k v
    have "map_of_tree m' k = Some v \<longleftrightarrow> \<lparr>me_key = k, me_value = v\<rparr> \<in> set (flat m')"
      using sorted' by (rule map_of_tree_mem)
    also have "\<dots> \<longleftrightarrow> (k \<notin> fst ` set kvs \<and> map_of_tree m k = Some v) \<or> map_of kvs k = Some v"
      using map_of_tree_mem [OF map_okD(5) [OF assms(1)], of k v] assms(4)
      by (force simp: mem mk_entry_def image_iff)
    also have "\<dots> \<longleftrightarrow> (map_of_tree m ++ map_of kvs) k = Some v"
      by (auto simp: map_add_Some_iff map_of_eq_None_iff dest: map_of_SomeD)
    finally show "map_of_tree m' k = Some v \<longleftrightarrow> (map_of_tree m ++ map_of kvs) k = Some v" .
  qed
  with m' sorted' show ?thesis by (auto simp: map_ok_def TREE_BASE_def)
qed

end
