(* ===== verification/Sum_Tree_Theorems.thy ===== *)
theory Sum_Tree_Theorems
  imports Tree_Map_Correct
begin

text \<open>
  The properties of the sum tree and the tree map, each with a witness on a small map.
\<close>

definition sample_entries :: "(nat, nat) map_entry list" where
  "sample_entries = [\<lparr>me_key = 1, me_value = 10\<rparr>, \<lparr>me_key = 2, me_value = 20\<rparr>, \<lparr>me_key = 4, me_value = 40\<rparr>]"

definition sample_map :: "(nat, nat) tree_map" where
  "sample_map = Leaf (Some 4) sample_entries [Some 1, Some 2, Some 4]"

lemma sample_map_facts [simp]:
  "wf_tree map_key_ops k sample_map" "flat sample_map = sample_entries" "node_height sample_map = 0"
  "length sample_entries = 3" "sorted_wrt (<) (map me_key sample_entries)"
proof -
  have s: "sample_map = mk_leaf map_key_ops sample_entries"
    by (simp add: sample_map_def mk_leaf_def sample_entries_def entry_map_key_def sum_summaries_def map_key_ops_def)
  show "wf_tree map_key_ops k sample_map" and "flat sample_map = sample_entries" and "node_height sample_map = 0"
    unfolding s by (simp_all add: wf_tree_def sample_entries_def TREE_BASE_def)
  show "length sample_entries = 3" and "sorted_wrt (<) (map me_key sample_entries)"
    by (simp_all add: sample_entries_def)
qed

lemma sample_map_ok [simp]: "map_ok TREE_BASE sample_map" "map_ok 1 sample_map" "0 < STACK_CAP"
  by (simp_all add: map_ok_def TREE_BASE_def STACK_CAP_def)

section \<open>Sum trees\<close>

text \<open>C1: appending two well-formed trees never overflows a node and never fails; the result is
  well formed with the same fan-out, all leaves at one depth and every cached summary right,
  and holds the items of the first tree followed by those of the second.\<close>

theorem sum_tree_append:
  assumes "summary_laws I" and "wf_tree I k a" and "wf_tree I k b" and "k \<le> TREE_BASE"
  shows "\<exists>c. tree_append I a b = Some c \<and> wf_tree I k c \<and> flat c = flat a @ flat b"
  using assms by (rule summary_laws.tree_append_ok)

theorem sum_tree_append_witness:
  "\<exists>c. tree_append map_key_ops sample_map sample_map = Some c \<and> wf_tree map_key_ops TREE_BASE c \<and>
     flat c = sample_entries @ sample_entries"
  using sum_tree_append [OF map_tree.summary_laws_axioms, of TREE_BASE sample_map sample_map] by simp

text \<open>C2: building a tree from a list succeeds, sequentially and in parallel with the same
  result; extending a tree appends the list; the trees hold the items in order.\<close>

theorem sum_tree_build:
  assumes "summary_laws I" and "wf_tree I 1 t"
  shows "(\<exists>u. tree_from_iter I xs = Some u \<and> tree_from_par_iter I xs = Some u \<and> wf_tree I 1 u \<and> flat u = xs) \<and>
    (\<exists>t'. tree_extend I t xs = Some t' \<and> tree_par_extend I t xs = Some t' \<and> wf_tree I 1 t' \<and>
      flat t' = flat t @ xs)"
  by (rule conjI [OF summary_laws.tree_from_iter_ok [OF assms(1)] summary_laws.tree_extend_ok [OF assms]])

theorem sum_tree_build_witness:
  "\<exists>t'. tree_extend map_key_ops sample_map sample_entries = Some t' \<and>
     tree_par_extend map_key_ops sample_map sample_entries = Some t' \<and> wf_tree map_key_ops 1 t' \<and>
     flat t' = sample_entries @ sample_entries"
  using sum_tree_build [OF map_tree.summary_laws_axioms, of sample_map sample_entries] by simp

text \<open>A tree grown by pushes and appends that holds fewer than \<open>6 ^ 16\<close> items is less than
  16 levels high, so the fixed stack of a cursor or an iterator never overflows on it.\<close>

lemma sum_tree_height:
  assumes "wf_tree I TREE_BASE t" and "length (flat t) < TREE_BASE ^ STACK_CAP"
  shows "node_height t < STACK_CAP"
  using assms wf_node_height_bound [of I TREE_BASE "node_height t" t STACK_CAP]
  by (auto simp: wf_tree_def tree_new_def TREE_BASE_def STACK_CAP_def)

lemma sum_tree_height_witness: "node_height sample_map < STACK_CAP"
  using sum_tree_height [of map_key_ops sample_map] by (simp add: TREE_BASE_def STACK_CAP_def)

text \<open>C3: searching the tree along a dimension finds what a linear search of the items finds,
  with the same positions, for every target that compares monotonically along the items; the
  variant that also reports the previous item reports the item just before it.\<close>

theorem sum_tree_find:
  assumes "dimension I D" and "wf_tree I k t"
    and "monotone_target target (item_ends I D (dim_zero D) (flat t))"
  shows "tree_find D t target bias =
      (case find_list I D target (target_in bias) (dim_zero D) (flat t) of
         (Some (x, e), p) \<Rightarrow> (p, e, Some x) | (None, p) \<Rightarrow> (p, p, None)) \<and>
    tree_find_with_prev D t target bias = Some
      (case find_list_prev I D target bias None (dim_zero D) (flat t) of
         (Some (prev, x, e), p) \<Rightarrow> (p, e, Some (prev, x)) | (None, p) \<Rightarrow> (p, p, None)) \<and>
    (\<forall>prev x e p. find_list_prev I D target bias None (dim_zero D) (flat t) = (Some (prev, x, e), p) \<longrightarrow>
      (\<exists>us vs. flat t = us @ x # vs \<and> prev = last_opt us \<and> p = advance I D (dim_zero D) us))"
  using dimension.tree_find_ok [OF assms] dimension.tree_find_with_prev_ok [OF assms]
    dimension.find_list_prev_item [OF assms(1)] by (fastforce simp: last_item_def last_opt_def)

theorem sum_tree_find_witness:
  "tree_find map_key_dim sample_map (ord_target (Some 3)) LeftBias =
     (Some 2, Some 4, Some \<lparr>me_key = 4, me_value = 40\<rparr>)"
proof -
  have "monotone_target (ord_target (Some 3)) (item_ends map_key_ops map_key_dim (dim_zero map_key_dim) (flat sample_map))"
    by (simp add: sample_entries_def monotone_target_def ord_target_def ord_cmp_def entry_map_key_def map_key_dim_def)
  from sum_tree_find [OF map_tree.dimension_axioms sample_map_facts(1) this, of LeftBias] show ?thesis
    by (simp add: sample_entries_def ord_target_def ord_cmp_def entry_map_key_def target_in_def map_key_dim_def)
qed

text \<open>Seeking a target moves the cursor past exactly the items the target is beyond, sets its
  position to their end, leaves it on the next item (or at the end), and answers whether the
  target was met.\<close>

lemma cursor_seek_position:
  assumes "dimension I D" and "wf_tree I k t" and "node_height t < STACK_CAP"
    and "monotone_target target (item_ends I D (dim_zero D) (flat t))" and "target (dim_zero D) \<noteq> Less"
  shows "\<exists>c us ws found. cursor_seek D target bias (cursor_new D t) = Some (found, c) \<and> flat t = us @ ws \<and>
    us = passed I D target bias (dim_zero D) (flat t) \<and>
    cur_position c = advance I D (dim_zero D) us \<and> cursor_item c = Some (first_opt ws) \<and>
    found = (target (case (bias, ws) of (LeftBias, y # _) \<Rightarrow> dim_add D (cur_position c) (item_summary I y)
      | _ \<Rightarrow> cur_position c) = Equal)"
proof -
  have "cursor_fresh I D k (cursor_new D t)" using assms by simp
  from dimension.cursor_seek_ok [OF assms(1) disjI1 [OF this], of target bias] assms(4,5) obtain c where
    c: "cursor_seek D target bias (cursor_new D t) =
      Some (target (case (bias, not_passed I D target bias (dim_zero D) (flat t)) of
        (LeftBias, y # _) \<Rightarrow> dim_add D (cur_position c) (item_summary I y) | _ \<Rightarrow> cur_position c) = Equal, c)"
      "cursor_at I D k c (passed I D target bias (dim_zero D) (flat t)) (not_passed I D target bias (dim_zero D) (flat t))"
    by auto
  moreover from c(2) have "cur_position c = advance I D (dim_zero D) (passed I D target bias (dim_zero D) (flat t))"
    by (simp add: cursor_at_def)
  ultimately show ?thesis
    using cursor_at_item(1) [OF c(2)] passed_not_passed [of I D target bias "dim_zero D" "flat t"]
    by (intro exI [of _ c] exI [of _ "passed I D target bias (dim_zero D) (flat t)"]
        exI [of _ "not_passed I D target bias (dim_zero D) (flat t)"] exI conjI) (assumption | rule refl | simp)+
qed

lemma cursor_seek_position_witness:
  "\<exists>c. cursor_seek map_key_dim (ord_target (Some 2)) RightBias (cursor_new map_key_dim sample_map) = Some (True, c) \<and>
     cur_position c = Some 2 \<and> cursor_item c = Some (Some \<lparr>me_key = 4, me_value = 40\<rparr>)"
proof -
  have "monotone_target (ord_target (Some 2)) (item_ends map_key_ops map_key_dim (dim_zero map_key_dim) (flat sample_map))"
    by (simp add: sample_entries_def monotone_target_def ord_target_def ord_cmp_def entry_map_key_def map_key_dim_def)
  from cursor_seek_position [OF map_tree.dimension_axioms sample_map_facts(1) _ this, of RightBias] obtain c us ws found where
    c: "cursor_seek map_key_dim (ord_target (Some 2)) RightBias (cursor_new map_key_dim sample_map) = Some (found, c)"
      "flat sample_map = us @ ws" "us = passed map_key_ops map_key_dim (ord_target (Some 2)) RightBias None (flat sample_map)"
      "cur_position c = advance map_key_ops map_key_dim None us" "cursor_item c = Some (first_opt ws)"
      "found = (ord_target (Some 2) (cur_position c) = Equal)"
    by (auto simp: STACK_CAP_def ord_target_def ord_cmp_def)
  from c(3) have us: "us = take 2 sample_entries"
    by (simp add: sample_entries_def ord_target_def ord_cmp_def target_in_def entry_map_key_def map_key_dim_def Let_def)
  have ws: "ws = drop 2 sample_entries" using c(2) unfolding us by (simp add: sample_entries_def)
  have pos: "cur_position c = Some 2"
    using c(4) unfolding us by (simp add: sample_entries_def entry_map_key_def map_key_dim_def)
  show ?thesis
    using c(1,5,6) pos unfolding ws by (simp add: sample_entries_def first_opt_def ord_target_def ord_cmp_def)
qed

text \<open>C4: a slice up to a target and the suffix after it split the items at the first one the target
  is in; both are well-formed trees, so slicing is a lossless cut.\<close>

theorem cursor_slice_suffix:
  assumes "dimension I D" and "wf_tree I k t" and "node_height t < STACK_CAP" and "k \<le> TREE_BASE"
    and "monotone_target target (item_ends I D (dim_zero D) (flat t))" and "target (dim_zero D) \<noteq> Less"
  shows "\<exists>a c b c'. cursor_slice I D target bias (cursor_new D t) = Some (a, c) \<and> cursor_suffix I D c = Some (b, c') \<and>
    wf_tree I k a \<and> wf_tree I k b \<and> flat a = passed I D target bias (dim_zero D) (flat t) \<and>
    flat a @ flat b = flat t \<and> cur_position c = advance I D (dim_zero D) (flat a) \<and> at_end c' "
proof -
  have f: "cursor_fresh I D k (cursor_new D t)" using assms by simp
  then have pos: "cur_position (cursor_new D t) = dim_zero D" by (simp add: cursor_fresh_def)
  from dimension.cursor_slice_ok [OF assms(1,4), of "cursor_new D t" "[]" "flat t" target bias] f assms(5,6)
  obtain a c where a: "cursor_slice I D target bias (cursor_new D t) = Some (a, c)" "wf_tree I k a"
    "flat a = passed I D target bias (dim_zero D) (flat t)"
    "cursor_at I D k c (flat a) (not_passed I D target bias (dim_zero D) (flat t))"
    by (auto simp: pos)
  from dimension.cursor_suffix_ok [OF assms(1,4) disjI2 [OF a(4)]] obtain b c' where
    b: "cursor_suffix I D c = Some (b, c')" "wf_tree I k b"
      "flat b = not_passed I D target bias (dim_zero D) (flat t)" "at_end c'"
    by (auto simp: cursor_at_def)
  moreover have "flat a @ flat b = flat t" unfolding a(3) b(3) by (rule passed_not_passed)
  moreover have "cur_position c = advance I D (dim_zero D) (flat a)" using a(4) by (simp add: cursor_at_def)
  ultimately show ?thesis using a by blast
qed

theorem cursor_slice_suffix_witness:
  "\<exists>a c b c'. cursor_slice map_key_ops map_key_dim (ord_target (Some 3)) LeftBias (cursor_new map_key_dim sample_map) =
       Some (a, c) \<and> cursor_suffix map_key_ops map_key_dim c = Some (b, c') \<and>
     flat a = take 2 sample_entries \<and> flat a @ flat b = sample_entries"
proof -
  have "monotone_target (ord_target (Some 3)) (item_ends map_key_ops map_key_dim (dim_zero map_key_dim) (flat sample_map))"
    by (simp add: sample_entries_def monotone_target_def ord_target_def ord_cmp_def entry_map_key_def map_key_dim_def)
  from cursor_slice_suffix [OF map_tree.dimension_axioms sample_map_facts(1) _ _ this, of TREE_BASE LeftBias]
  obtain a c b c' where
    c: "cursor_slice map_key_ops map_key_dim (ord_target (Some 3)) LeftBias (cursor_new map_key_dim sample_map) = Some (a, c)"
      "cursor_suffix map_key_ops map_key_dim c = Some (b, c')"
      "flat a = passed map_key_ops map_key_dim (ord_target (Some 3)) LeftBias None (flat sample_map)"
      "flat a @ flat b = flat sample_map"
    by (auto simp: STACK_CAP_def ord_target_def ord_cmp_def)
  from c(3) have "flat a = take 2 sample_entries"
    by (simp add: sample_entries_def ord_target_def ord_cmp_def target_in_def entry_map_key_def map_key_dim_def Let_def)
  with c(1,2,4) show ?thesis by auto
qed

text \<open>C5: searching forward from an item lands on the next item the filter passes, skipping whole
  subtrees whose summary it rejects, for every filter that never rejects the summary of items
  one of which passes; searching backward from there lands on the last passing item before it.\<close>

theorem cursor_search:
  assumes "dimension I D" and "prunes I f" and "cursor_at I D k c us (x # ws)"
  shows "(\<exists>c'. search_forward D f c = Some c' \<and>
      cursor_at I D k c' (us @ x # takeWhile (\<lambda>y. \<not> f (item_summary I y)) ws)
        (dropWhile (\<lambda>y. \<not> f (item_summary I y)) ws)) \<and>
    (\<exists>c'. search_backward D f c = Some c' \<and>
      (if \<forall>y\<in>set us. \<not> f (item_summary I y) then cursor_front I D k c'
       else \<exists>us' y vs. us = us' @ y # vs \<and> f (item_summary I y) \<and> (\<forall>z\<in>set vs. \<not> f (item_summary I z)) \<and>
         cursor_at I D k c' us' (y # vs @ x # ws)))"
proof
  from dimension.search_forward_ok [OF assms(1,2) ahead_at [OF assms(3)]] show
    "\<exists>c'. search_forward D f c = Some c' \<and>
      cursor_at I D k c' (us @ x # takeWhile (\<lambda>y. \<not> f (item_summary I y)) ws)
        (dropWhile (\<lambda>y. \<not> f (item_summary I y)) ws)" by auto
  have flat: "flat (cur_tree c) = us @ x # ws" using assms(3) by (simp add: cursor_at_def)
  from dimension.search_backward_ok [OF assms(1,2) behind_at [OF assms(3)]] obtain c' where
    c': "search_backward D f c = Some c'" "dimension.backward_result I D f k (cur_tree c) us c'" by blast
  have "drop (Suc (length us')) (flat (cur_tree c)) = vs @ x # ws" if "us = us' @ y # vs" for us' y vs
    using that by (simp add: flat)
  note drop = this
  show "\<exists>c'. search_backward D f c = Some c' \<and>
      (if \<forall>y\<in>set us. \<not> f (item_summary I y) then cursor_front I D k c'
       else \<exists>us' y vs. us = us' @ y # vs \<and> f (item_summary I y) \<and> (\<forall>z\<in>set vs. \<not> f (item_summary I z)) \<and>
         cursor_at I D k c' us' (y # vs @ x # ws))"
  proof (cases "\<forall>y\<in>set us. \<not> f (item_summary I y)")
    case True
    with c' show ?thesis unfolding dimension.backward_result_def [OF assms(1)] by (auto simp: flat)
  next
    case False
    with c'(2) obtain us' y vs where
      r: "us = us' @ y # vs" "f (item_summary I y)" "\<forall>z\<in>set vs. \<not> f (item_summary I z)"
        "cursor_at I D k c' us' (y # drop (Suc (length us')) (flat (cur_tree c)))"
      unfolding dimension.backward_result_def [OF assms(1)] if_not_P [OF False] by blast
    from r(4) have "cursor_at I D k c' us' (y # vs @ x # ws)" unfolding drop [OF r(1)] .
    with c'(1) False r(1-3) show ?thesis unfolding if_not_P [OF False] by blast
  qed
qed

text \<open>A summary that keeps the greatest item, for the witness.\<close>

definition max_ops :: "(nat, nat) summary_ops" where
  "max_ops = \<lparr>item_summary = (\<lambda>n. n), summary_zero = 0, summary_add = max\<rparr>"

definition max_dim :: "(nat, nat) dim_ops" where
  "max_dim = \<lparr>dim_zero = 0, dim_add = max\<rparr>"

interpretation max_tree: dimension max_ops max_dim
  by unfold_locales (auto simp: max_ops_def max_dim_def)

theorem cursor_search_witness:
  "\<exists>c c'. cursor_at max_ops max_dim 1 c [] [1, 7, 3, 9] \<and> search_forward max_dim (\<lambda>s. 8 \<le> s) c = Some c' \<and>
     cursor_at max_ops max_dim 1 c' [1, 7, 3] [9]"
proof -
  have wf: "wf_tree max_ops 1 (mk_leaf max_ops [1, 7, 3, 9])" by (simp add: wf_tree_def TREE_BASE_def)
  have "cursor_fresh max_ops max_dim 1 (cursor_new max_dim (mk_leaf max_ops [1, 7, 3, 9]))"
    by (rule cursor_fresh_new [OF wf]) (simp add: STACK_CAP_def)
  from max_tree.cursor_next_ok [OF ahead_fresh [OF this]] obtain c where
    "cursor_at max_ops max_dim 1 c [] (flat (mk_leaf max_ops [1, 7, 3, 9]))"
    unfolding cur_tree_simps by blast
  then have c: "cursor_at max_ops max_dim 1 c [] [1, 7, 3, 9]" unfolding mk_simps .
  have add: "summary_add max_ops a b = max a b" for a b by (simp add: max_ops_def)
  have "n \<le> a \<or> n \<in> set xs \<Longrightarrow> n \<le> add_all max_ops a xs" for n a xs
    by (induction xs arbitrary: a) (simp, simp only: add_all.simps add list.set insert_iff, fastforce)
  then have "n \<in> set xs \<Longrightarrow> n \<le> sum_summaries max_ops xs" for n xs
    unfolding sum_summaries_def by blast
  note sum = this
  have "prunes max_ops (\<lambda>s. 8 \<le> s)"
    unfolding prunes_def
  proof (intro allI ballI impI)
    fix xs x assume "x \<in> set xs" and "8 \<le> item_summary max_ops x"
    then have "8 \<le> x" "x \<le> sum_summaries max_ops xs" using sum by (simp_all add: max_ops_def)
    then show "8 \<le> sum_summaries max_ops (map (item_summary max_ops) xs)" by (simp add: max_ops_def)
  qed
  from cursor_search [OF max_tree.dimension_axioms this c] obtain c' where
    "search_forward max_dim (\<lambda>s. 8 \<le> s) c = Some c'"
    "cursor_at max_ops max_dim 1 c' ([] @ 1 # takeWhile (\<lambda>y. \<not> 8 \<le> item_summary max_ops y) [7, 3, 9])
       (dropWhile (\<lambda>y. \<not> 8 \<le> item_summary max_ops y) [7, 3, 9])" by blast
  moreover have "takeWhile (\<lambda>y. \<not> 8 \<le> item_summary max_ops y) [7, 3, 9] = [7, 3]"
    "dropWhile (\<lambda>y. \<not> 8 \<le> item_summary max_ops y) [7, 3, 9] = [9]" by (simp_all add: max_ops_def)
  ultimately have "cursor_at max_ops max_dim 1 c' ([] @ 1 # [7, 3]) [9]" by (simp only:)
  with c \<open>search_forward max_dim (\<lambda>s. 8 \<le> s) c = Some c'\<close> show ?thesis by (metis append_Nil)
qed

text \<open>The stand-alone iterator delivers the items in order and then answers that nothing is
  left; after that it starts over from the first item.\<close>

lemma iter_delivers:
  assumes "summary_laws I" and "wf_tree I k t" and "node_height t < STACK_CAP"
  shows "tree_items t = Some (flat t) \<and>
    (\<exists>it it'. iter_items (iter_new t) = Some (flat t, it) \<and> iter_next it = Some (first_opt (flat t), it'))"
proof -
  from iter_items_ok [OF iter_ahead_new [OF assms(2,3)]] obtain it where
    it: "iter_items (iter_new t) = Some (flat t, it)" "iter_tree it = t" "iter_ahead I k it (flat t)"
    by (auto simp: iter_new_def)
  with iter_next_ok [OF it(3)] summary_laws.tree_items_ok [OF assms] show ?thesis by blast
qed

lemma iter_delivers_witness:
  "tree_items sample_map = Some sample_entries \<and>
   (\<exists>it it'. iter_items (iter_new sample_map) = Some (sample_entries, it) \<and>
      iter_next it = Some (Some \<lparr>me_key = 1, me_value = 10\<rparr>, it'))"
  using iter_delivers [OF map_tree.summary_laws_axioms sample_map_facts(1)]
  by (simp add: first_opt_def STACK_CAP_def) (simp add: sample_entries_def)

text \<open>The lower bound of the iterator's size hint is too large once an item has been
  delivered: after as many steps as the tree has items it still promises one more, and there is
  none.\<close>

theorem iter_size_hint_too_large:
  assumes "wf_tree I k t" and "node_height t < STACK_CAP" and "flat t \<noteq> []"
  shows "\<exists>it it'. iter_advance (length (flat t)) (iter_new t) = Some it \<and> iter_size_hint it = Some (1, None) \<and>
    iter_next it = Some (None, it')"
proof -
  from iter_advance_ok [OF iter_ahead_new [OF assms(1,2)], of "length (flat t)"] assms(3) obtain it where
    it: "iter_advance (length (flat t)) (iter_new t) = Some it" "iter_ahead I k it []" "iter_stack it \<noteq> []"
    by auto
  from it(2,3) obtain stk us x where
    "wf_tree I k (iter_tree it)" "iter_stack it = map iter_entry stk" "locate I unit_dim (iter_tree it) () stk us x []"
    by (auto elim: iter_ahead.cases)
  from size_hint_inside [OF this] have "iter_size_hint it = Some (1, None)" by auto
  with it(1) iter_next_ok [OF it(2)] show ?thesis by (auto simp: first_opt_def)
qed

theorem iter_size_hint_too_large_witness:
  "\<exists>it it'. iter_advance 3 (iter_new sample_map) = Some it \<and> iter_size_hint it = Some (1, None) \<and>
     iter_next it = Some (None, it')"
  using iter_size_hint_too_large [OF sample_map_facts(1)] by (simp add: STACK_CAP_def) (simp add: sample_entries_def)

section \<open>Keyed trees and maps\<close>

text \<open>C6: a batch of edits with distinct keys, in whatever order it is given, removes the old items
  with those keys, inserts the new ones, keeps the tree strictly sorted by key and returns the
  removed items in order.\<close>

theorem keyed_edit:
  assumes "keyed I D key" and "wf_tree I 1 t" and "node_height t < STACK_CAP"
    and "sorted_wrt (<) (map key (flat t))" and "sorts_by_key key sorter" and "distinct (map (edit_key key) es)"
    and "\<forall>e\<in>set es. dim_zero D \<le> edit_key key e"
  shows "\<exists>removed t'. tree_edit sorter I D key t es = Some (removed, t') \<and> wf_tree I 1 t' \<and>
    sorted_wrt (<) (map key (flat t')) \<and>
    set (flat t') = {x \<in> set (flat t). key x \<notin> edit_key key ` set es} \<union> {x. Insert x \<in> set es} \<and>
    removed = filter (\<lambda>x. key x \<in> edit_key key ` set es) (flat t)"
proof (cases "es = []")
  case True
  with assms(2,4) show ?thesis by (simp add: tree_edit_def)
next
  case False
  have perm: "mset (sorter es) = mset es" "sorted (map (edit_key key) (sorter es))"
    using assms(5) by (auto simp: sorts_by_key_def)
  from perm(1) have set: "set (sorter es) = set es" by (rule mset_eq_setD)
  have "mset (map (edit_key key) (sorter es)) = mset (map (edit_key key) es)" using perm(1) by (metis mset_map)
  with assms(6) have "distinct (map (edit_key key) (sorter es))" by (metis mset_eq_imp_distinct_iff)
  with perm(2) have strict: "sorted_wrt (<) (map (edit_key key) (sorter es))" by (simp add: strict_sorted_iff)
  from assms(7) set have zero: "\<forall>e\<in>set (sorter es). dim_zero D \<le> edit_key key e" by simp
  from keyed.tree_edit_ok [OF assms(1-3) strict_sorted_imp_sorted [OF assms(4)], of sorter es] perm(2) False zero
  obtain t' where t': "tree_edit sorter I D key t es = Some (keyed.removed_items key (sorter es) (flat t), t')"
    "wf_tree I 1 t'" "flat t' = keyed.apply_edits key (sorter es) (flat t)" by blast
  with keyed.apply_edits_distinct [OF assms(1,4) strict] set show ?thesis
    by (simp add: keyed.inserted_def [OF assms(1)])
qed

theorem keyed_edit_witness:
  "\<exists>removed t'. tree_edit (sort_key (edit_key entry_map_key)) map_key_ops map_key_dim entry_map_key sample_map
       [Insert \<lparr>me_key = 3, me_value = 30\<rparr>, Remove (Some 1)] = Some (removed, t') \<and>
     removed = [\<lparr>me_key = 1, me_value = 10\<rparr>] \<and>
     set (flat t') = {\<lparr>me_key = 2, me_value = 20\<rparr>, \<lparr>me_key = 3, me_value = 30\<rparr>, \<lparr>me_key = 4, me_value = 40\<rparr>}"
proof -
  let ?es = "[Insert \<lparr>me_key = 3, me_value = 30\<rparr>, Remove (Some 1)] :: (nat, nat) map_edit list"
  have k: "keyed map_key_ops map_key_dim (entry_map_key :: (nat, nat) map_entry \<Rightarrow> nat option)"
    by (rule map_tree.keyed_axioms)
  have h: "node_height sample_map < STACK_CAP" and s: "sorted_wrt (<) (map entry_map_key (flat sample_map))"
    by (simp_all add: STACK_CAP_def)
  have d: "distinct (map (edit_key entry_map_key) ?es)"
    and z: "\<forall>e\<in>set ?es. dim_zero map_key_dim \<le> edit_key entry_map_key e"
    by (simp_all add: entry_map_key_def)
  from keyed_edit [OF k sample_map_facts(1) h s sorts_stable d z] obtain removed t' where r:
    "tree_edit (sort_key (edit_key entry_map_key)) map_key_ops map_key_dim entry_map_key sample_map ?es = Some (removed, t')"
    "set (flat t') = {x \<in> set (flat sample_map). entry_map_key x \<notin> edit_key entry_map_key ` set ?es} \<union> {x. Insert x \<in> set ?es}"
    "removed = filter (\<lambda>x. entry_map_key x \<in> edit_key entry_map_key ` set ?es) (flat sample_map)"
    by blast
  from r(2) have "set (flat t') = {\<lparr>me_key = 2, me_value = 20\<rparr>, \<lparr>me_key = 3, me_value = 30\<rparr>, \<lparr>me_key = 4, me_value = 40\<rparr>}"
  proof -
    have "{x \<in> set (flat sample_map). entry_map_key x \<notin> edit_key entry_map_key ` set ?es} =
        set (filter (\<lambda>x. me_key x \<noteq> 3 \<and> me_key x \<noteq> 1) sample_entries)" by (auto simp: entry_map_key_def)
    also have "\<dots> = {\<lparr>me_key = 2, me_value = 20\<rparr>, \<lparr>me_key = 4, me_value = 40\<rparr>}" by (simp add: sample_entries_def)
    finally have keep: "{x \<in> set (flat sample_map). entry_map_key x \<notin> edit_key entry_map_key ` set ?es} =
        {\<lparr>me_key = 2, me_value = 20\<rparr>, \<lparr>me_key = 4, me_value = 40\<rparr>}" .
    have "{x. Insert x \<in> set ?es} = {\<lparr>me_key = 3, me_value = 30\<rparr>}" by simp
    with r(2) keep show ?thesis by (simp only: insert_commute Un_insert_left Un_empty_left)
  qed
  moreover from r(3) have "removed = [\<lparr>me_key = 1, me_value = 10\<rparr>]"
    unfolding sample_map_facts(2) by (simp add: sample_entries_def entry_map_key_def)
  ultimately show ?thesis using r(1) by blast
qed

text \<open>C7: the map's \<open>get\<close>, \<open>insert\<close>, \<open>remove\<close> and \<open>update\<close> are lookup, update, deletion and
  modification of the finite map of its entries, return the old value, and keep the keys
  strictly sorted and the tree a B-tree of the same fan-out.\<close>

theorem tree_map_refines:
  assumes "map_ok k m" and "node_height m < STACK_CAP"
  shows "map_get m key = map_of_tree m key \<and>
    (\<exists>m'. map_insert_or_replace m key val = Some (map_of_tree m key, m') \<and> map_insert m key val = Some m' \<and>
      map_ok k m' \<and> map_of_tree m' = (map_of_tree m)(key \<mapsto> val)) \<and>
    (\<exists>m'. map_remove m key = Some (map_of_tree m key, m') \<and> map_ok k m' \<and>
      map_of_tree m' = (map_of_tree m)(key := None)) \<and>
    (\<exists>m'. map_update m key f = Some (map_option (\<lambda>v. snd (f v)) (map_of_tree m key), m') \<and> map_ok k m' \<and>
      map_of_tree m' = (map_of_tree m)(key := map_option (\<lambda>v. fst (f v)) (map_of_tree m key)))"
  using map_get_ok [OF assms(1)] map_insert_or_replace_ok [OF assms, of key val] map_remove_ok [OF assms, of key]
    map_update_ok [OF assms, of key f] by blast

theorem tree_map_refines_witness:
  "map_get sample_map 2 = Some 20 \<and>
   (\<exists>m'. map_remove sample_map 2 = Some (Some 20, m') \<and> map_of_tree m' 2 = None \<and> map_of_tree m' 4 = Some 40)"
  using tree_map_refines [OF sample_map_ok(1), of 2 0 "\<lambda>v. (v, ())"]
  by (auto simp: STACK_CAP_def map_of_tree_def map_entries_def sample_entries_def entry_pair_def)

text \<open>C8: \<open>closest\<close> answers the entry with the greatest key not above the argument, \<open>iter_from\<close>
  the entries from the argument on, and iteration, first and last follow the key order.\<close>

theorem tree_map_order:
  assumes "map_ok k m" and "node_height m < STACK_CAP"
  shows "map_closest m key = Some (last_opt (filter (\<lambda>(q, _). q \<le> key) (map_entries m))) \<and>
    map_iter_from m key = Some (filter (\<lambda>(q, _). key \<le> q) (map_entries m)) \<and>
    map_iter m = Some (map_entries m) \<and> sorted_wrt (<) (map fst (map_entries m)) \<and>
    map_first m = Some (first_opt (map_entries m)) \<and> map_last m = Some (last_opt (map_entries m))"
  using map_closest_ok [OF assms] map_iter_from_ok [OF assms] map_iter_ok [OF assms] map_okD(5) [OF assms(1)]
  by (simp add: map_entries_def comp_def entry_pair_def)

theorem tree_map_order_witness:
  "map_closest sample_map 3 = Some (Some (2, 20)) \<and> map_closest sample_map 0 = Some None \<and>
   map_iter_from sample_map 2 = Some [(2, 20), (4, 40)]"
  using tree_map_order [OF sample_map_ok(1), of 3] tree_map_order [OF sample_map_ok(1), of 0]
    tree_map_order [OF sample_map_ok(1), of 2]
  by (simp add: STACK_CAP_def map_entries_def sample_entries_def entry_pair_def last_opt_def)

text \<open>\<open>remove_range\<close> with a start not above its end removes exactly the keys from the start up
  to, but not including, the end.\<close>

lemma tree_map_remove_range:
  assumes "map_ok k m" and "node_height m < STACK_CAP" and "a \<le> b"
  shows "\<exists>m'. map_remove_range m (ord_target a) (ord_target b) = Some m' \<and> map_ok k m' \<and>
    map_of_tree m' = (map_of_tree m) |` {q. q < a \<or> b \<le> q}"
proof -
  have mono: "monotone_cmp (ord_target x)" for x :: 'a
    by (auto simp: monotone_cmp_def ord_target_def ord_cmp_def)
  have g: "ord_target x q = Greater \<longleftrightarrow> q < x" for x q :: 'a by (auto simp: ord_target_def ord_cmp_def)
  have "\<forall>q. ord_target a q = Greater \<longrightarrow> ord_target b q = Greater" using assms(3) by (auto simp: g)
  from map_remove_range_ok [OF assms(1,2) mono mono this] show ?thesis by (simp add: g not_less)
qed

lemma tree_map_remove_range_witness:
  "\<exists>m'. map_remove_range sample_map (ord_target 2) (ord_target 4) = Some m' \<and>
     map_of_tree m' = map_of_tree sample_map |` {q. q < 2 \<or> 4 \<le> q}"
  using tree_map_remove_range [OF sample_map_ok(1), of 2 4] by (auto simp: STACK_CAP_def)

text \<open>With a start above its end, \<open>remove_range\<close> removes nothing and stores every entry in
  between twice, so the keys are no longer distinct.\<close>

lemma tree_map_remove_range_inverted:
  assumes "map_ok k m" and "node_height m < STACK_CAP" and "b < a"
  shows "\<exists>m'. map_remove_range m (ord_target a) (ord_target b) = Some m' \<and>
    mset (map_entries m') = mset (map_entries m) + filter_mset (\<lambda>(q, _). b \<le> q \<and> q < a) (mset (map_entries m))"
proof -
  have mono: "monotone_cmp (ord_target x)" for x :: 'a
    by (auto simp: monotone_cmp_def ord_target_def ord_cmp_def)
  have g: "ord_target x q = Greater \<longleftrightarrow> q < x" for x q :: 'a by (auto simp: ord_target_def ord_cmp_def)
  note s = map_okD(5) [OF assms(1)]
  from map_remove_range_list [OF assms(1,2) mono mono, of a b] obtain m' where
    m': "map_remove_range m (ord_target a) (ord_target b) = Some m'"
      "flat m' = filter (\<lambda>e. me_key e < a) (flat m) @ filter (\<lambda>e. \<not> me_key e < b) (flat m)"
    using takeWhile_filter_key [OF s, of "\<lambda>q. q < a"] takeWhile_filter_key [OF s, of "\<lambda>q. q < b"] by (auto simp: g)
  have "mset (filter (\<lambda>e. me_key e < a) xs) + mset (filter (\<lambda>e. \<not> me_key e < b) xs) =
      mset xs + filter_mset (\<lambda>e. b \<le> me_key e \<and> me_key e < a) (mset xs)" for xs :: "('a, 'b) map_entry list"
    using assms(3) by (induction xs) auto
  from arg_cong [OF this [of "flat m"], of "image_mset entry_pair"] have "mset (map_entries m') =
      image_mset entry_pair (mset (flat m) + filter_mset (\<lambda>e. b \<le> me_key e \<and> me_key e < a) (mset (flat m)))"
    by (simp add: map_entries_def m'(2))
  also have "\<dots> = mset (map_entries m) + filter_mset (\<lambda>(q, _). b \<le> q \<and> q < a) (mset (map_entries m))"
    by (simp add: map_entries_def filter_mset_image_mset comp_def entry_pair_def case_prod_beta)
  finally show ?thesis using m'(1) by blast
qed

lemma tree_map_remove_range_inverted_witness:
  "\<exists>m'. map_remove_range sample_map (ord_target 3) (ord_target 2) = Some m' \<and>
     mset (map_entries m') = {# (1, 10), (2, 20), (2, 20), (4, 40) #}"
  using tree_map_remove_range_inverted [OF sample_map_ok(1), of 2 3]
  by (auto simp: STACK_CAP_def map_entries_def sample_entries_def entry_pair_def)

text \<open>Extending a map by pairs with distinct keys, or inserting another map, overrides the map
  with the pairs, for every order the unstable sort may produce; \<open>retain\<close> keeps the entries the
  predicate keeps, calling it once per entry in key order.\<close>

lemma tree_map_bulk:
  assumes "map_ok 1 m" and "node_height m < STACK_CAP" and "sorts_by_key entry_map_key sorter"
    and "distinct (map fst kvs)" and "map_ok k other" and "node_height other < STACK_CAP"
  shows "(\<exists>m'. map_extend sorter m kvs = Some m' \<and> map_ok 1 m' \<and> map_of_tree m' = map_of_tree m ++ map_of kvs) \<and>
    (\<exists>m'. map_insert_tree sorter m other = Some m' \<and> map_ok 1 m' \<and>
      map_of_tree m' = map_of_tree m ++ map_of_tree other) \<and>
    (\<exists>m'. map_retain P p m = Some (m', snd (retained P p (flat m))) \<and> map_ok TREE_BASE m' \<and>
      flat m' = fst (retained P p (flat m)))"
proof -
  have "distinct (map fst (map_entries other))"
    using map_okD(5) [OF assms(5)] strict_sorted_iff [of "map me_key (flat other)"]
    by (simp add: map_entries_def comp_def entry_pair_def)
  with map_edit_ok [OF assms(1-4)] map_edit_ok [OF assms(1-3), of "map_entries other"] map_iter_ok(1) [OF assms(5,6)]
    map_retain_ok [OF assms(1,2), of P p]
  show ?thesis by (auto simp: map_extend_def map_insert_tree_def map_of_tree_def)
qed

lemma tree_map_bulk_witness:
  "\<exists>m'. map_extend (sort_key (edit_key entry_map_key)) sample_map [(2, 21), (3, 30)] = Some m' \<and>
     map_of_tree m' 2 = Some 21 \<and> map_of_tree m' 3 = Some 30 \<and> map_of_tree m' 1 = Some 10"
proof -
  have "node_height sample_map < STACK_CAP" "distinct (map fst [(2::nat, 21::nat), (3, 30)])"
    by (simp_all add: STACK_CAP_def)
  from conjunct1 [OF tree_map_bulk [OF sample_map_ok(2) this(1) sorts_stable this(2) sample_map_ok(2) this(1)]]
  obtain m' where
    m': "map_extend (sort_key (edit_key entry_map_key)) sample_map [(2, 21), (3, 30)] = Some m'"
      "map_of_tree m' = map_of_tree sample_map ++ map_of [(2, 21), (3, 30)]" by blast
  have "map_of_tree sample_map 1 = Some 10" by (simp add: map_of_tree_find sample_entries_def)
  with m' show ?thesis by (simp add: map_add_def)
qed

text \<open>\<open>extend\<close> does not deduplicate: extending the empty map by pairs that repeat a key stores
  every pair, so the map holds the key more than once.\<close>

theorem tree_map_extend_duplicates:
  assumes "sorts_by_key entry_map_key sorter"
  shows "\<exists>m'. map_extend sorter map_default kvs = Some m' \<and> mset (map_entries m') = mset kvs"
proof -
  let ?es = "map (\<lambda>kv. Insert (mk_entry kv)) kvs :: ('a, 'b) map_edit list"
  have empty: "map_ok 1 (map_default :: ('a, 'b) tree_map)" "node_height (map_default :: ('a, 'b) tree_map) < STACK_CAP"
    by (auto simp: map_ok_def map_default_def TREE_BASE_def tree_new_def STACK_CAP_def wf_tree_def)
  from map_edit_inserts [OF empty assms refl, of kvs] obtain r m' where
    m': "tree_edit sorter map_key_ops map_key_dim entry_map_key map_default ?es = Some (r, m')"
      "flat m' = map_tree.apply_edits (sorter ?es) []" by (auto simp: map_default_def)
  have perm: "mset (sorter ?es) = mset ?es" using assms by (simp add: sorts_by_key_def)
  have all: "\<forall>e\<in>set (sorter ?es). \<exists>kv. e = Insert (mk_entry kv)"
    using mset_eq_setD [OF perm] by auto
  define pair where "pair = (\<lambda>e :: ('a, 'b) map_edit. case e of Insert x \<Rightarrow> entry_pair x | Remove k \<Rightarrow> undefined)"
  have "map entry_pair (map_tree.apply_edits es []) = map pair es"
    if "\<forall>e\<in>set es. \<exists>kv. e = Insert (mk_entry kv)" for es :: "('a, 'b) map_edit list"
    using that by (induction es) (auto simp: map_tree.drop_equal_def pair_def)
  from this [OF all] have "mset (map_entries m') = image_mset pair (mset (sorter ?es))" by (simp add: map_entries_def m'(2))
  also have "\<dots> = mset kvs" by (simp add: perm multiset.map_comp comp_def pair_def)
  finally show ?thesis using m'(1) by (auto simp: map_extend_def)
qed

theorem tree_map_extend_duplicates_witness:
  "\<exists>m'. map_extend (sort_key (edit_key entry_map_key)) map_default [(1::nat, 10::nat), (1, 11)] = Some m' \<and>
     mset (map_entries m') = {# (1, 10), (1, 11) #}"
  using tree_map_extend_duplicates [OF sorts_stable, of "[(1::nat, 10::nat), (1, 11)]"] by simp

end
