(* ===== verification/Key_Context.thy ===== *)
theory Key_Context
  imports Prelude
begin

text \<open>
  Key contexts and the predicates on them (\<open>crates/gpui/src/keymap/context.rs\<close>): the
  \<open>KeyContext\<close> operations and its parser, and the evaluation, depth and superset test of
  \<open>KeyBindingContextPredicate\<close>. Characters are the Unicode scalar values below 256.
\<close>

section \<open>Characters\<close>

definition is_alphanumeric :: "char \<Rightarrow> bool" where
  "is_alphanumeric c = (let n = (of_char c :: nat) in
     48 \<le> n \<and> n \<le> 57 \<or> 65 \<le> n \<and> n \<le> 90 \<or> 97 \<le> n \<and> n \<le> 122 \<or>
     n \<in> {170, 178, 179, 181, 185, 186, 188, 189, 190} \<or>
     192 \<le> n \<and> n \<noteq> 215 \<and> n \<noteq> 247)"

definition is_whitespace :: "char \<Rightarrow> bool" where
  "is_whitespace c = (let n = (of_char c :: nat) in
     9 \<le> n \<and> n \<le> 13 \<or> n = 32 \<or> n = 133 \<or> n = 160)"

definition is_identifier_char :: "char \<Rightarrow> bool" where
  "is_identifier_char c = (is_alphanumeric c \<or> c = CHR ''_'' \<or> c = CHR ''-'')"

definition is_vim_operator_char :: "char \<Rightarrow> bool" where
  "is_vim_operator_char c =
     (c = CHR ''>'' \<or> c = CHR ''<'' \<or> c = CHR ''~'' \<or> c = CHR 0x22 \<or> c = CHR ''?'')"

definition skip_whitespace :: "string \<Rightarrow> string" where
  "skip_whitespace source = dropWhile is_whitespace source"

lemma identifier_not_white: "is_identifier_char c \<Longrightarrow> \<not> is_whitespace c"
  by (auto simp: is_identifier_char_def is_alphanumeric_def is_whitespace_def Let_def)

lemma skip_whitespace_length: "length (skip_whitespace s) \<le> length s"
  by (simp add: skip_whitespace_def length_dropWhile_le)

lemma skip_whitespace_Cons: "\<not> is_whitespace c \<Longrightarrow> skip_whitespace (c # s) = c # s"
  by (simp add: skip_whitespace_def)

lemma skip_whitespace_Nil [simp]: "skip_whitespace [] = []"
  by (simp add: skip_whitespace_def)

section \<open>Key contexts\<close>

record context_entry =
  ce_key :: string
  ce_value :: "string option"

type_synonym key_context = "context_entry list"

definition context_contains :: "key_context \<Rightarrow> string \<Rightarrow> bool" where
  "context_contains ctx key = list_ex (\<lambda>entry. ce_key entry = key) ctx"

definition context_get :: "key_context \<Rightarrow> string \<Rightarrow> string option" where
  "context_get ctx key =
     do { entry \<leftarrow> find (\<lambda>entry. ce_key entry = key) ctx; ce_value entry }"

definition context_add :: "key_context \<Rightarrow> string \<Rightarrow> key_context" where
  "context_add ctx key =
     (if context_contains ctx key then ctx else ctx @ [\<lparr>ce_key = key, ce_value = None\<rparr>])"

definition context_set :: "key_context \<Rightarrow> string \<Rightarrow> string \<Rightarrow> key_context" where
  "context_set ctx key val =
     (if context_contains ctx key then ctx else ctx @ [\<lparr>ce_key = key, ce_value = Some val\<rparr>])"

definition context_is_empty :: "key_context \<Rightarrow> bool" where
  "context_is_empty ctx = (ctx = [])"

definition context_clear :: "key_context \<Rightarrow> key_context" where
  "context_clear ctx = []"

definition context_extend :: "key_context \<Rightarrow> key_context \<Rightarrow> key_context" where
  "context_extend ctx other =
     foldl (\<lambda>ctx entry. if context_contains ctx (ce_key entry) then ctx else ctx @ [entry])
       ctx other"

definition context_primary :: "key_context \<Rightarrow> context_entry option" where
  "context_primary ctx = find (\<lambda>p. ce_value p = None) ctx"

definition context_secondary :: "key_context \<Rightarrow> context_entry list" where
  "context_secondary ctx = (let primary = context_primary ctx in filter (\<lambda>p. Some p \<noteq> primary) ctx)"

text \<open>The operating system the code is compiled for is a parameter.\<close>

definition new_with_defaults :: "string \<Rightarrow> key_context" where
  "new_with_defaults target_os = context_set [] ''os''
     (if target_os = ''macos'' then ''macos''
      else if target_os = ''linux'' \<or> target_os = ''freebsd'' then ''linux''
      else if target_os = ''windows'' then ''windows''
      else ''unknown'')"

text \<open>The parser; it recurs on what is left, also when nothing was consumed.\<close>

partial_function (option) context_parse_expr :: "string \<Rightarrow> key_context \<Rightarrow> key_context option" where
  "context_parse_expr source ctx =
     (if source = [] then Some ctx
      else
        (let key = takeWhile is_identifier_char source;
             source1 = skip_whitespace (drop (length key) source)
         in case source1 of
           c # suffix \<Rightarrow>
             if c = CHR ''='' then
               (let source2 = skip_whitespace suffix;
                    val = takeWhile is_identifier_char source2;
                    source3 = skip_whitespace (drop (length val) source2)
                in context_parse_expr source3 (context_set ctx key val))
             else context_parse_expr source1 (context_add ctx key)
         | [] \<Rightarrow> context_parse_expr source1 (context_add ctx key)))"

declare context_parse_expr.simps [code]

definition context_parse :: "string \<Rightarrow> key_context option" where
  "context_parse source = context_parse_expr (skip_whitespace source) []"

text \<open>\<open>Debug\<close>: the entries separated by blanks.\<close>

fun context_debug :: "key_context \<Rightarrow> string" where
  "context_debug [] = []"
| "context_debug (entry # entries) =
     (case ce_value entry of Some val \<Rightarrow> ce_key entry @ ''='' @ val | None \<Rightarrow> ce_key entry) @
     (if entries \<noteq> [] then '' '' else []) @ context_debug entries"

text \<open>Every key is stored once.\<close>

definition context_ok :: "key_context \<Rightarrow> bool" where
  "context_ok ctx \<longleftrightarrow> distinct (map ce_key ctx)"

lemma context_contains_iff: "context_contains ctx key \<longleftrightarrow> key \<in> ce_key ` set ctx"
  by (auto simp: context_contains_def list_ex_iff)

lemma context_set_ok: "context_ok ctx \<Longrightarrow> context_ok (context_set ctx key val)"
  and context_add_ok: "context_ok ctx \<Longrightarrow> context_ok (context_add ctx key)"
  by (auto simp: context_ok_def context_set_def context_add_def context_contains_iff)

lemma context_extend_ok: "context_ok ctx \<Longrightarrow> context_ok (context_extend ctx other)"
  unfolding context_extend_def
  by (induction other arbitrary: ctx) (auto simp: context_ok_def context_contains_iff)

text \<open>\<open>context_extend\<close> keeps what is there and adds the new keys.\<close>

lemma find_append: "find P (xs @ ys) = (case find P xs of None \<Rightarrow> find P ys | Some x \<Rightarrow> Some x)"
  by (induction xs) auto

lemma context_get_extend:
  "context_get (context_extend ctx other) key =
     (if context_contains ctx key then context_get ctx key else context_get other key)"
proof -
  let ?f = "\<lambda>c. find (\<lambda>entry. ce_key entry = key) c"
  have "?f (context_extend ctx other) = (case ?f ctx of None \<Rightarrow> ?f other | Some e \<Rightarrow> Some e)"
  proof (induction other arbitrary: ctx)
    case Nil
    then show ?case by (simp add: context_extend_def split: option.split)
  next
    case (Cons e other)
    let ?c = "if context_contains ctx (ce_key e) then ctx else ctx @ [e]"
    have "context_extend ctx (e # other) = context_extend ?c other" by (simp add: context_extend_def)
    moreover have "?f ctx \<noteq> None" if "context_contains ctx key"
      using that by (auto simp: context_contains_def list_ex_iff find_None_iff)
    ultimately show ?case using Cons.IH [of ?c] by (auto simp: find_append split: option.split if_splits)
  qed
  moreover have "context_contains ctx key \<longleftrightarrow> ?f ctx \<noteq> None"
    by (auto simp: context_contains_def list_ex_iff find_None_iff)
  ultimately show ?thesis by (auto simp: context_get_def split: option.split)
qed

section \<open>Parsing contexts\<close>

text \<open>
  A place where parsing makes no progress: the next character is neither part of an
  identifier nor an equals sign (nor blank, since blanks were skipped).
\<close>

definition stuck :: "string \<Rightarrow> bool" where
  "stuck source \<longleftrightarrow> (case source of [] \<Rightarrow> False
     | c # _ \<Rightarrow> \<not> is_identifier_char c \<and> c \<noteq> CHR ''='' \<and> \<not> is_whitespace c)"

lemma context_parse_expr_stuck_aux:
  assumes "context_parse_expr source ctx = Some r"
  shows "\<not> stuck source"
proof (rule context_parse_expr.raw_induct [OF _ assms, where P = "\<lambda>source ctx r. \<not> stuck source"])
  fix rec :: "string \<Rightarrow> key_context \<Rightarrow> key_context option" and source ctx r
  assume IH: "\<And>source ctx r. rec source ctx = Some r \<Longrightarrow> \<not> stuck source"
    and body: "(if source = [] then Some ctx
      else
        (let key = takeWhile is_identifier_char source;
             source1 = skip_whitespace (drop (length key) source)
         in case source1 of
           c # suffix \<Rightarrow>
             if c = CHR ''='' then
               (let source2 = skip_whitespace suffix;
                    val = takeWhile is_identifier_char source2;
                    source3 = skip_whitespace (drop (length val) source2)
                in rec source3 (context_set ctx key val))
             else rec source1 (context_add ctx key)
         | [] \<Rightarrow> rec source1 (context_add ctx key))) = Some r"
  show "\<not> stuck source"
  proof
    assume s: "stuck source"
    then obtain c rest where c: "source = c # rest" "\<not> is_identifier_char c" "c \<noteq> CHR ''=''" "\<not> is_whitespace c"
      by (auto simp: stuck_def split: list.splits)
    from body c have "rec source (context_add ctx []) = Some r" by (simp add: skip_whitespace_def)
    with IH s show False by blast
  qed
qed

lemma context_parse_expr_stuck: "stuck source \<Longrightarrow> context_parse_expr source ctx = None"
  using context_parse_expr_stuck_aux by (cases "context_parse_expr source ctx") auto

text \<open>What \<open>Debug\<close> prints is parsed back.\<close>

definition ident_chars :: "string \<Rightarrow> bool" where
  "ident_chars s \<longleftrightarrow> s \<noteq> [] \<and> list_all is_identifier_char s"

definition printable_entry :: "context_entry \<Rightarrow> bool" where
  "printable_entry e \<longleftrightarrow> ident_chars (ce_key e) \<and> (case ce_value e of None \<Rightarrow> True | Some v \<Rightarrow> ident_chars v)"

lemma ident_span:
  assumes "list_all is_identifier_char s" and "case t of [] \<Rightarrow> True | c # _ \<Rightarrow> \<not> is_identifier_char c"
  shows "takeWhile is_identifier_char (s @ t) = s"
  using assms by (cases t) (auto simp: list_all_iff takeWhile_append2)

lemma not_identifier [simp]:
  "\<not> is_identifier_char CHR ''=''" "\<not> is_identifier_char CHR '' ''" "\<not> is_identifier_char CHR '')''"
  "is_whitespace CHR '' ''" "\<not> is_whitespace CHR ''=''"
  by (simp_all add: is_identifier_char_def is_alphanumeric_def is_whitespace_def)

lemma skip_ident: "ident_chars s \<Longrightarrow> skip_whitespace (s @ t) = s @ t"
  by (cases s) (auto simp: ident_chars_def skip_whitespace_def identifier_not_white)

lemma context_debug_head:
  "list_all printable_entry c \<Longrightarrow> skip_whitespace (context_debug c) = context_debug c"
  using skip_ident [of _ "[]"] by (cases c) (auto simp: printable_entry_def skip_ident split: option.split)

lemma context_parse_key:
  assumes "ident_chars k" and "case t of [] \<Rightarrow> True | c # _ \<Rightarrow> \<not> is_identifier_char c"
    and "\<And>s. skip_whitespace t \<noteq> CHR ''='' # s"
  shows "context_parse_expr (k @ t) ctx = context_parse_expr (skip_whitespace t) (context_add ctx k)"
  using assms(1,3)
  by (subst context_parse_expr.simps)
    (simp add: ident_span [OF _ assms(2)] ident_chars_def Let_def split: list.split)

lemma context_parse_pair:
  assumes "ident_chars k" and "ident_chars v" and "case t of [] \<Rightarrow> True | c # _ \<Rightarrow> \<not> is_identifier_char c"
  shows "context_parse_expr (k @ CHR ''='' # v @ t) ctx = context_parse_expr (skip_whitespace t) (context_set ctx k v)"
proof -
  have "takeWhile is_identifier_char (k @ CHR ''='' # v @ t) = k"
    using assms(1) by (intro ident_span) (auto simp: ident_chars_def)
  then show ?thesis
    using assms(1,2)
    by (subst context_parse_expr.simps)
      (simp add: skip_whitespace_Cons skip_ident ident_span [OF _ assms(3)] ident_chars_def Let_def)
qed

lemma context_parse_debug:
  "list_all printable_entry c \<Longrightarrow> distinct (map ce_key (acc @ c)) \<Longrightarrow>
   context_parse_expr (context_debug c) acc = Some (acc @ c)"
proof (induction c arbitrary: acc)
  case Nil
  then show ?case by (simp add: context_parse_expr.simps)
next
  case (Cons e c)
  let ?rest = "(if c \<noteq> [] then '' '' else []) @ context_debug c"
  have key: "ident_chars (ce_key e)" and c: "list_all printable_entry c"
    using Cons.prems(1) by (simp_all add: printable_entry_def [of e])
  have rest: "skip_whitespace ?rest = context_debug c"
    using context_debug_head [OF c] by (auto simp: skip_whitespace_def)
  have stop: "case ?rest of [] \<Rightarrow> True | c # _ \<Rightarrow> \<not> is_identifier_char c" by (auto split: list.split)
  have fresh: "\<not> context_contains acc (ce_key e)" using Cons.prems(2) by (auto simp: context_contains_iff)
  have IH: "context_parse_expr (context_debug c) (acc @ [e]) = Some ((acc @ [e]) @ c)"
    using Cons.IH [OF c, of "acc @ [e]"] Cons.prems(2) by simp
  have no_eq: "context_debug c \<noteq> CHR ''='' # s" for s
  proof (cases c)
    case (Cons e' c')
    with c obtain x xs where "ce_key e' = x # xs" "is_identifier_char x"
      by (cases "ce_key e'") (auto simp: printable_entry_def ident_chars_def)
    with Cons show ?thesis by (auto split: option.split)
  qed simp
  show ?case
  proof (cases "ce_value e")
    case None
    have e: "e = \<lparr>ce_key = ce_key e, ce_value = None\<rparr>" using None by simp
    have "context_debug (e # c) = ce_key e @ ?rest" by (simp add: None)
    moreover have "context_parse_expr (ce_key e @ ?rest) acc = context_parse_expr (context_debug c) (context_add acc (ce_key e))"
      using context_parse_key [OF key stop] no_eq unfolding rest by blast
    moreover have "context_add acc (ce_key e) = acc @ [e]" using fresh e by (simp add: context_add_def)
    ultimately show ?thesis using IH by simp
  next
    case (Some v)
    have e: "e = \<lparr>ce_key = ce_key e, ce_value = Some v\<rparr>" using Some by simp
    have v: "ident_chars v" using Cons.prems(1) Some by (simp add: printable_entry_def)
    have "context_debug (e # c) = ce_key e @ CHR ''='' # v @ ?rest" by (simp add: Some)
    moreover have "context_parse_expr (ce_key e @ CHR ''='' # v @ ?rest) acc =
        context_parse_expr (context_debug c) (context_set acc (ce_key e) v)"
      using context_parse_pair [OF key v stop] unfolding rest .
    moreover have "context_set acc (ce_key e) v = acc @ [e]" using fresh e by (simp add: context_set_def)
    ultimately show ?thesis using IH by simp
  qed
qed

end
