(* ===== verification/Key_Predicate.thy ===== *)
theory Key_Predicate
  imports Key_Context
begin

text \<open>
  Key binding predicates (\<open>KeyBindingContextPredicate\<close> of
  \<open>crates/gpui/src/keymap/context.rs\<close>): evaluation on a stack of contexts, the deepest depth
  of a match, and the superset test with its soundness on predicates without negation.
\<close>

section \<open>Evaluation\<close>

datatype predicate =
  Identifier string
| Equal_To string string
| Not_Equal string string
| Descendant predicate predicate
| Negated predicate
| Conj predicate predicate
| Disj predicate predicate

text \<open>Slices are prefixes and suffixes; the first argument of the recursion is the predicate.\<close>

fun eval_inner :: "predicate \<Rightarrow> key_context list \<Rightarrow> key_context list \<Rightarrow> bool" where
  "eval_inner (Identifier name) contexts all_contexts =
     (contexts \<noteq> [] \<and> context_contains (last contexts) name)"
| "eval_inner (Equal_To left right) contexts all_contexts =
     (contexts \<noteq> [] \<and> (case context_get (last contexts) left of Some val \<Rightarrow> val = right | None \<Rightarrow> False))"
| "eval_inner (Not_Equal left right) contexts all_contexts =
     (contexts \<noteq> [] \<and> (case context_get (last contexts) left of Some val \<Rightarrow> val \<noteq> right | None \<Rightarrow> True))"
| "eval_inner (Negated pred) contexts all_contexts =
     (contexts \<noteq> [] \<and>
      \<not> list_ex (\<lambda>i. eval_inner pred (take (Suc i) all_contexts) all_contexts) [0..<length all_contexts])"
| "eval_inner (Descendant parent child) contexts all_contexts =
     (contexts \<noteq> [] \<and>
      (case find (\<lambda>i. eval_inner parent (take (Suc i) contexts) all_contexts) [0..<length contexts - 1] of
         Some i \<Rightarrow> eval_inner child (drop (Suc i) contexts) (drop (Suc i) contexts)
       | None \<Rightarrow> False))"
| "eval_inner (Conj left right) contexts all_contexts =
     (contexts \<noteq> [] \<and> eval_inner left contexts all_contexts \<and> eval_inner right contexts all_contexts)"
| "eval_inner (Disj left right) contexts all_contexts =
     (contexts \<noteq> [] \<and> (eval_inner left contexts all_contexts \<or> eval_inner right contexts all_contexts))"

definition eval :: "predicate \<Rightarrow> key_context list \<Rightarrow> bool" where
  "eval pred contexts = eval_inner pred contexts contexts"

text \<open>The deepest prefix of the stack on which the predicate holds.\<close>

definition depth_of :: "predicate \<Rightarrow> key_context list \<Rightarrow> nat option" where
  "depth_of pred contexts =
     find (\<lambda>depth. eval_inner pred (take depth contexts) contexts) (rev [0..<Suc (length contexts)])"

function is_superset :: "predicate \<Rightarrow> predicate \<Rightarrow> bool" where
  "is_superset self other =
     (if self = other then True
      else case self of
        Disj left right \<Rightarrow> is_superset left other \<or> is_superset right other
      | _ \<Rightarrow>
         (case other of
            Descendant parent child \<Rightarrow> is_superset self child
          | Conj left right \<Rightarrow> is_superset self left \<or> is_superset self right
          | Identifier _ \<Rightarrow> False
          | Equal_To _ _ \<Rightarrow> False
          | Not_Equal _ _ \<Rightarrow> False
          | Negated _ \<Rightarrow> False
          | Disj _ _ \<Rightarrow> False))"
  by pat_completeness auto
termination by (relation "measure (\<lambda>(self, other). size self + size other)") auto

declare is_superset.simps [simp del]

section \<open>Depth\<close>

lemma depth_of_Some:
  "depth_of pred contexts = Some d \<longleftrightarrow> d \<le> length contexts \<and> eval_inner pred (take d contexts) contexts \<and>
     (\<forall>d'. d < d' \<and> d' \<le> length contexts \<longrightarrow> \<not> eval_inner pred (take d' contexts) contexts)"
proof -
  let ?P = "\<lambda>d. eval_inner pred (take d contexts) contexts"
  have "find ?P (rev [0..<n]) = Some d \<longleftrightarrow> d < n \<and> ?P d \<and> (\<forall>d'. d < d' \<and> d' < n \<longrightarrow> \<not> ?P d')" for n
    by (induction n) (auto simp: less_Suc_eq)
  from this [of "Suc (length contexts)"] show ?thesis by (auto simp: depth_of_def less_Suc_eq_le)
qed

lemma eval_inner_empty [simp]: "\<not> eval_inner pred [] all"
  by (cases pred) auto

lemma depth_of_None: "depth_of pred contexts = None \<longleftrightarrow> (\<forall>d\<le>length contexts. \<not> eval_inner pred (take d contexts) contexts)"
  by (auto simp: depth_of_def find_None_iff less_Suc_eq_le simp del: upt_Suc)

lemma depth_of_pos: "depth_of pred contexts = Some d \<Longrightarrow> 0 < d"
  by (cases d) (auto simp: depth_of_Some)

section \<open>Predicates without negation\<close>

fun negation_free :: "predicate \<Rightarrow> bool" where
  "negation_free (Negated p) = False"
| "negation_free (Descendant p q) \<longleftrightarrow> negation_free p \<and> negation_free q"
| "negation_free (Conj p q) \<longleftrightarrow> negation_free p \<and> negation_free q"
| "negation_free (Disj p q) \<longleftrightarrow> negation_free p \<and> negation_free q"
| "negation_free _ \<longleftrightarrow> True"

lemma eval_inner_all:
  "negation_free p \<Longrightarrow> eval_inner p contexts all = eval_inner p contexts all'"
proof (induction p arbitrary: contexts all all')
  case (Descendant p q)
  then have "(\<lambda>i. eval_inner p (take (Suc i) contexts) all) = (\<lambda>i. eval_inner p (take (Suc i) contexts) all')" by auto
  then show ?case by simp
next
  case (Conj p q)
  then show ?case by (metis eval_inner.simps(6) negation_free.simps(3))
next
  case (Disj p q)
  then show ?case by (metis eval_inner.simps(7) negation_free.simps(4))
qed auto

lemma find_upt_Some: "find P [0..<n] = Some i \<longleftrightarrow> i < n \<and> P i \<and> (\<forall>j<i. \<not> P j)"
  by (auto simp: find_Some_iff)

lemma find_upt_least:
  assumes "P i" and "i < n"
  shows "\<exists>j\<le>i. find P [0..<n] = Some j"
proof (cases "find P [0..<n]")
  case None
  with assms show ?thesis by (auto simp: find_None_iff)
next
  case (Some j)
  then have "\<not> i < j" using assms by (auto simp: find_upt_Some)
  with Some show ?thesis by auto
qed

lemma drop_split: "j \<le> n \<Longrightarrow> drop j xs = drop j (take n xs) @ drop n xs"
  by (metis append_take_drop_id drop_drop drop_take le_add_diff_inverse2)

text \<open>
  A predicate without negation that holds on a stack holds when the stack grows at the root,
  so taking the first matching ancestor loses nothing.
\<close>

lemma eval_inner_prepend:
  "negation_free p \<Longrightarrow> eval_inner p contexts contexts \<Longrightarrow> eval_inner p (pre @ contexts) (pre @ contexts)"
proof (induction p arbitrary: contexts pre)
  case (Descendant p q)
  let ?all = "pre @ contexts"
  from Descendant.prems(2) obtain i where
    i: "i < length contexts - 1" "eval_inner p (take (Suc i) contexts) contexts"
      "eval_inner q (drop (Suc i) contexts) (drop (Suc i) contexts)"
    by (auto simp: find_upt_Some split: option.splits)
  have free: "negation_free p" "negation_free q" using Descendant.prems(1) by simp_all
  let ?n = "length pre + i"
  have "eval_inner p (pre @ take (Suc i) contexts) (pre @ take (Suc i) contexts)"
    using Descendant.IH(1) [OF free(1)] i(2) eval_inner_all [OF free(1)] by blast
  then have "eval_inner p (take (Suc ?n) ?all) ?all"
    using eval_inner_all [OF free(1), of "take (Suc ?n) ?all" ?all "take (Suc ?n) ?all"] by simp
  moreover have "?n < length ?all - 1" using i(1) by simp
  ultimately obtain j where j: "find (\<lambda>i. eval_inner p (take (Suc i) ?all) ?all) [0..<length ?all - 1] = Some j"
    "j \<le> ?n" using find_upt_least [of "\<lambda>i. eval_inner p (take (Suc i) ?all) ?all"] by blast
  have "drop (Suc j) ?all = drop (Suc j) (take (Suc ?n) ?all) @ drop (Suc i) contexts"
    using drop_split [of "Suc j" "Suc ?n" ?all] j(2) by simp
  then have "eval_inner q (drop (Suc j) ?all) (drop (Suc j) ?all)"
    using Descendant.IH(2) [OF free(2) i(3)] by metis
  moreover have "?all \<noteq> []" using i(1) by auto
  ultimately show ?case using j(1) by simp
next
  case (Conj p q)
  then show ?case by auto
next
  case (Disj p q)
  then show ?case by auto
qed auto

lemma eval_prepend: "negation_free p \<Longrightarrow> eval p contexts \<Longrightarrow> eval p (pre @ contexts)"
  by (simp add: eval_def eval_inner_prepend)

text \<open>Descent is then declarative: some proper ancestor matches, and the rest matches the child.\<close>

lemma eval_descendant:
  assumes "negation_free q"
  shows "eval (Descendant p q) contexts \<longleftrightarrow>
    (\<exists>i<length contexts - 1. eval_inner p (take (Suc i) contexts) contexts \<and> eval q (drop (Suc i) contexts))"
proof
  assume "eval (Descendant p q) contexts"
  then show "\<exists>i<length contexts - 1. eval_inner p (take (Suc i) contexts) contexts \<and> eval q (drop (Suc i) contexts)"
    by (auto simp: eval_def find_upt_Some split: option.splits)
next
  assume "\<exists>i<length contexts - 1. eval_inner p (take (Suc i) contexts) contexts \<and> eval q (drop (Suc i) contexts)"
  then obtain i where i: "i < length contexts - 1" "eval_inner p (take (Suc i) contexts) contexts"
    "eval q (drop (Suc i) contexts)" by blast
  from find_upt_least [of "\<lambda>i. eval_inner p (take (Suc i) contexts) contexts", OF i(2,1)] obtain j where
    j: "j \<le> i" "find (\<lambda>i. eval_inner p (take (Suc i) contexts) contexts) [0..<length contexts - 1] = Some j" by blast
  have "drop (Suc j) contexts = drop (Suc j) (take (Suc i) contexts) @ drop (Suc i) contexts"
    using j(1) by (intro drop_split) simp
  with eval_prepend [OF assms i(3)] have "eval q (drop (Suc j) contexts)" by metis
  moreover have "contexts \<noteq> []" using i(1) by auto
  ultimately show "eval (Descendant p q) contexts" using j(2) by (simp add: eval_def)
qed

section \<open>The superset test\<close>

lemma is_superset_sound:
  "is_superset self other \<Longrightarrow> negation_free self \<Longrightarrow> eval other contexts \<Longrightarrow> eval self contexts"
proof (induction "size self + size other" arbitrary: self other contexts rule: less_induct)
  case less
  note sup = less.prems(1) [unfolded is_superset.simps [of self other]]
  from less.prems(3) have ne: "contexts \<noteq> []" by (auto simp: eval_def)
  consider "self = other" | (disj) l r where "self = Disj l r" "self \<noteq> other" "is_superset l other \<or> is_superset r other"
    | (descendant) p c where "other = Descendant p c" "is_superset self c"
    | (conj) l r where "other = Conj l r" "is_superset self l \<or> is_superset self r"
    using sup by (cases self; cases other) (auto split: if_splits)
  then show ?case
  proof cases
    case 1
    with less.prems(3) show ?thesis by simp
  next
    case disj
    then have free: "negation_free l" "negation_free r" using less.prems(2) by simp_all
    have "eval l contexts \<or> eval r contexts"
      using disj(1,3) less.hyps [of l other contexts] less.hyps [of r other contexts] free less.prems(3) by auto
    with disj(1) ne show ?thesis by (auto simp: eval_def)
  next
    case descendant
    from less.prems(3) obtain i where "eval c (drop (Suc i) contexts)"
      by (auto simp: eval_def descendant(1) split: option.splits)
    with less.hyps [of self c] descendant less.prems(2) have "eval self (drop (Suc i) contexts)" by simp
    from eval_prepend [OF less.prems(2) this, of "take (Suc i) contexts"] show ?thesis by simp
  next
    case conj
    from less.prems(3) have "eval l contexts" "eval r contexts" by (auto simp: eval_def conj(1))
    with less.hyps [of self l contexts] less.hyps [of self r contexts] conj less.prems(2) show ?thesis by auto
  qed
qed

end
