(* ===== verification/Key_Parser.thy ===== *)
theory Key_Parser
  imports Key_Predicate
begin

text \<open>
  Parsing and printing of key binding predicates (\<open>parse\<close>, \<open>parse_expr\<close>, \<open>parse_primary\<close>
  and \<open>Display\<close> of \<open>crates/gpui/src/keymap/context.rs\<close>): a precedence-climbing parser whose
  termination needs that every call consumes input, and the fragment on which printing and
  parsing are inverse.
\<close>

section \<open>The parser\<close>

datatype parse_error =
  Unexpected_End
| Expected_Paren
| Unexpected_Character char
| Eq_Operands
| Neq_Operands

datatype operator = Op_Child | Op_And | Op_Or | Op_Eq | Op_Neq

fun precedence :: "operator \<Rightarrow> nat" where
  "precedence Op_Child = 1"
| "precedence Op_Or = 2"
| "precedence Op_And = 3"
| "precedence Op_Eq = 4"
| "precedence Op_Neq = 4"

definition PRECEDENCE_NOT :: nat where
  "PRECEDENCE_NOT = 5"

fun operator_string :: "operator \<Rightarrow> string" where
  "operator_string Op_Child = ''>''"
| "operator_string Op_And = ''&&''"
| "operator_string Op_Or = ''||''"
| "operator_string Op_Eq = ''==''"
| "operator_string Op_Neq = ''!=''"

fun strip_prefix :: "string \<Rightarrow> string \<Rightarrow> string option" where
  "strip_prefix [] source = Some source"
| "strip_prefix (p # ps) (c # source) = (if p = c then strip_prefix ps source else None)"
| "strip_prefix (p # ps) [] = None"

text \<open>The operators in the order in which they are tried.\<close>

fun try_operators :: "operator list \<Rightarrow> string \<Rightarrow> nat \<Rightarrow> (operator \<times> string) option" where
  "try_operators [] source min_precedence = None"
| "try_operators (op # ops) source min_precedence =
     (case strip_prefix (operator_string op) source of
        Some rest \<Rightarrow>
          if precedence op \<ge> min_precedence then Some (op, skip_whitespace rest)
          else try_operators ops source min_precedence
      | None \<Rightarrow> try_operators ops source min_precedence)"

definition match_operator :: "string \<Rightarrow> nat \<Rightarrow> (operator \<times> string) option" where
  "match_operator = try_operators [Op_Child, Op_And, Op_Or, Op_Eq, Op_Neq]"

fun construct :: "operator \<Rightarrow> predicate \<Rightarrow> predicate \<Rightarrow> parse_error + predicate" where
  "construct Op_Child left right = Inr (Descendant left right)"
| "construct Op_And left right = Inr (Conj left right)"
| "construct Op_Or left right = Inr (Disj left right)"
| "construct Op_Eq left right =
     (case (left, right) of (Identifier l, Identifier r) \<Rightarrow> Inr (Equal_To l r) | _ \<Rightarrow> Inl Eq_Operands)"
| "construct Op_Neq left right =
     (case (left, right) of (Identifier l, Identifier r) \<Rightarrow> Inr (Not_Equal l r) | _ \<Rightarrow> Inl Neq_Operands)"

lemma strip_prefix_length: "strip_prefix p s = Some r \<Longrightarrow> length s = length p + length r"
  by (induction p s rule: strip_prefix.induct) (auto split: if_splits)

lemma try_operators_length: "try_operators ops s m = Some (op, r) \<Longrightarrow> length r < length s"
proof (induction ops)
  case (Cons p ops)
  have pos: "0 < length (operator_string p)" by (cases p) auto
  show ?case
  proof (cases "strip_prefix (operator_string p) s")
    case None
    with Cons show ?thesis by simp
  next
    case (Some rest)
    have "length (skip_whitespace rest) < length s"
      using strip_prefix_length [OF Some] skip_whitespace_length [of rest] pos by linarith
    with Cons Some show ?thesis by (simp split: if_splits)
  qed
qed simp

lemma match_operator_length: "match_operator s m = Some (op, r) \<Longrightarrow> length r < length s"
  unfolding match_operator_def by (rule try_operators_length)

text \<open>\<open>parse_loop\<close> is the loop of \<open>parse_expr\<close>, entered with the predicate parsed so far.\<close>

function parse_expr :: "string \<Rightarrow> nat \<Rightarrow> parse_error + predicate \<times> string"
  and parse_loop :: "predicate \<Rightarrow> string \<Rightarrow> nat \<Rightarrow> parse_error + predicate \<times> string"
  and parse_primary :: "string \<Rightarrow> parse_error + predicate \<times> string" where
  "parse_expr source min_precedence =
     (case parse_primary source of
        Inl e \<Rightarrow> Inl e
      | Inr (pred, rest) \<Rightarrow> parse_loop pred rest min_precedence)"
| "parse_loop pred source min_precedence =
     (case match_operator source min_precedence of
        None \<Rightarrow> Inr (pred, source)
      | Some (op, source1) \<Rightarrow>
          (case parse_expr source1 (precedence op + 1) of
             Inl e \<Rightarrow> Inl e
           | Inr (right, rest) \<Rightarrow>
               (case construct op pred right of
                  Inl e \<Rightarrow> Inl e
                | Inr pred' \<Rightarrow> parse_loop pred' rest min_precedence)))"
| "parse_primary source =
     (case source of
        [] \<Rightarrow> Inl Unexpected_End
      | next_char # _ \<Rightarrow>
          if next_char = CHR ''('' then
            (case parse_expr (skip_whitespace (tl source)) 0 of
               Inl e \<Rightarrow> Inl e
             | Inr (pred, rest) \<Rightarrow>
                 (case strip_prefix '')'' rest of
                    None \<Rightarrow> Inl Expected_Paren
                  | Some stripped \<Rightarrow> Inr (pred, skip_whitespace stripped)))
          else if next_char = CHR ''!'' then
            (case parse_expr (skip_whitespace (tl source)) PRECEDENCE_NOT of
               Inl e \<Rightarrow> Inl e
             | Inr (pred, rest) \<Rightarrow> Inr (Negated pred, rest))
          else if is_identifier_char next_char then
            (let identifier = takeWhile (\<lambda>c. is_identifier_char c \<or> is_vim_operator_char c) source in
             Inr (Identifier identifier, skip_whitespace (drop (length identifier) source)))
          else if is_vim_operator_char next_char then
            Inr (Identifier [next_char], skip_whitespace (tl source))
          else Inl (Unexpected_Character next_char))"
  by pat_completeness auto

text \<open>Whatever a call returns, it has consumed some input; so the loop gets shorter each time.\<close>

lemma parse_consumes:
  "parse_expr_parse_loop_parse_primary_dom (Inl (s, m)) \<Longrightarrow> parse_expr s m = Inr (p, r) \<Longrightarrow> length r < length s"
  "parse_expr_parse_loop_parse_primary_dom (Inr (Inl (q, s, m))) \<Longrightarrow> parse_loop q s m = Inr (p, r) \<Longrightarrow> length r \<le> length s"
  "parse_expr_parse_loop_parse_primary_dom (Inr (Inr s)) \<Longrightarrow> parse_primary s = Inr (p, r) \<Longrightarrow> length r < length s"
proof (induction arbitrary: p r and p r and p r rule: parse_expr_parse_loop_parse_primary.pinduct)
  case (1 source m)
  then show ?case by (force simp: parse_expr.psimps split: sum.splits prod.splits)
next
  case (2 q source m)
  then show ?case
    by (simp add: parse_loop.psimps split: option.splits sum.splits prod.splits)
      (fastforce dest: match_operator_length)
next
  case (3 source)
  from 3(4) [unfolded parse_primary.psimps [OF 3(1)]] obtain c cs where source: "source = c # cs"
    by (cases source) auto
  have skip: "length (skip_whitespace t) \<le> length t" for t by (rule skip_whitespace_length)
  note body = 3(4) [unfolded parse_primary.psimps [OF 3(1)], unfolded source list.case list.sel]
  consider "c = CHR ''(''" | "c = CHR ''!''" | "c \<noteq> CHR ''(''" "c \<noteq> CHR ''!''" by blast
  then show ?case
  proof cases
    case 1
    with body obtain q rest t where expr: "parse_expr (skip_whitespace cs) 0 = Inr (q, rest)"
      and t: "strip_prefix '')'' rest = Some t" "r = skip_whitespace t"
      by (auto split: sum.splits option.splits)
    have "length rest < length (skip_whitespace cs)" using 3(2) [OF source 1] expr source by simp
    with strip_prefix_length [OF t(1)] skip [of cs] skip [of t] t(2) source show ?thesis by simp
  next
    case 2
    with body obtain q where expr: "parse_expr (skip_whitespace cs) PRECEDENCE_NOT = Inr (q, r)"
      by (auto split: sum.splits)
    have "length r < length (skip_whitespace cs)" using 3(3) [OF source _ 2] expr source 2 by simp
    with skip [of cs] source show ?thesis by simp
  next
    case 3
    let ?w = "takeWhile (\<lambda>c. is_identifier_char c \<or> is_vim_operator_char c) (c # cs)"
    have "r = skip_whitespace (drop (length ?w) (c # cs)) \<and> is_identifier_char c \<or> r = skip_whitespace cs"
      using body 3 by (auto simp: Let_def split: if_splits)
    then show ?thesis
      using skip [of "drop (length ?w) (c # cs)"] skip [of cs] source by (auto simp: less_Suc_eq_le)
  qed
qed

termination parse_expr
proof (relation "measure (\<lambda>x. case x of Inl (s, _) \<Rightarrow> 2 * length s + 1
    | Inr (Inl (_, s, _)) \<Rightarrow> 2 * length s | Inr (Inr s) \<Rightarrow> 2 * length s)", goal_cases)
  case (3 source m a pred rest)
  then show ?case using parse_consumes(3) [of source pred rest] by simp
qed (auto dest!: match_operator_length parse_consumes simp: less_Suc_eq_le
      intro: le_less_trans [OF skip_whitespace_length] le_trans [OF skip_whitespace_length])

definition parse :: "string \<Rightarrow> parse_error + predicate" where
  "parse source =
     (case parse_expr (skip_whitespace source) 0 of
        Inl e \<Rightarrow> Inl e
      | Inr (pred, rest) \<Rightarrow>
          (case rest of next_char # _ \<Rightarrow> Inl (Unexpected_Character next_char) | [] \<Rightarrow> Inr pred))"

declare parse_expr.simps [simp del] parse_loop.simps [simp del] parse_primary.simps [simp del]

section \<open>Printing\<close>

datatype logical_operator = L_And | L_Or

definition separator :: "logical_operator \<Rightarrow> string" where
  "separator operator = (case operator of L_And \<Rightarrow> '' && '' | L_Or \<Rightarrow> '' || '')"

definition needs_parens :: "logical_operator \<Rightarrow> predicate \<Rightarrow> bool" where
  "needs_parens operator node =
     (case operator of
        L_And \<Rightarrow> (case node of Disj _ _ \<Rightarrow> True | _ \<Rightarrow> False)
      | L_Or \<Rightarrow> (case node of Conj _ _ \<Rightarrow> True | _ \<Rightarrow> False))"

text \<open>The third argument of \<open>fmt_joined_inner\<close> is the flag \<open>first\<close>, returned updated.\<close>

function fmt_predicate :: "predicate \<Rightarrow> string"
  and fmt_joined_inner :: "logical_operator \<Rightarrow> predicate \<Rightarrow> bool \<Rightarrow> string \<times> bool" where
  "fmt_predicate self =
     (case self of
        Identifier name \<Rightarrow> name
      | Equal_To left right \<Rightarrow> left @ '' == '' @ right
      | Not_Equal left right \<Rightarrow> left @ '' != '' @ right
      | Descendant parent child \<Rightarrow> fmt_predicate parent @ '' > '' @ fmt_predicate child
      | Negated pred \<Rightarrow>
          (case pred of Identifier name \<Rightarrow> ''!'' @ name | _ \<Rightarrow> ''!('' @ fmt_predicate pred @ '')'')
      | Conj _ _ \<Rightarrow> fst (fmt_joined_inner L_And self True)
      | Disj _ _ \<Rightarrow> fst (fmt_joined_inner L_Or self True))"
| "fmt_joined_inner operator self first =
     (case (operator, self) of
        (L_And, Conj left right) \<Rightarrow>
          (let (out1, first1) = fmt_joined_inner operator left first;
               (out2, first2) = fmt_joined_inner operator right first1 in (out1 @ out2, first2))
      | (L_Or, Disj left right) \<Rightarrow>
          (let (out1, first1) = fmt_joined_inner operator left first;
               (out2, first2) = fmt_joined_inner operator right first1 in (out1 @ out2, first2))
      | (_, node) \<Rightarrow>
          ((if first then [] else separator operator) @
           (if needs_parens operator node then ''('' @ fmt_predicate node @ '')'' else fmt_predicate node),
           False))"
  by pat_completeness auto

definition joins :: "logical_operator \<Rightarrow> predicate \<Rightarrow> bool" where
  "joins operator node =
     (case (operator, node) of (L_And, Conj _ _) \<Rightarrow> True | (L_Or, Disj _ _) \<Rightarrow> True | _ \<Rightarrow> False)"

termination fmt_predicate
  by (relation "measure (\<lambda>x. case x of Inl p \<Rightarrow> 3 * size p + 1
      | Inr (operator, p, _) \<Rightarrow> if joins operator p then 3 * size p else 3 * size p + 2)")
    (auto simp: joins_def)

declare fmt_predicate.simps [simp del] fmt_joined_inner.simps [simp del]

definition node_string :: "logical_operator \<Rightarrow> predicate \<Rightarrow> string" where
  "node_string operator node =
     (if needs_parens operator node then ''('' @ fmt_predicate node @ '')'' else fmt_predicate node)"

lemma fmt_leaf:
  "\<not> joins operator node \<Longrightarrow>
   fmt_joined_inner operator node first = ((if first then [] else separator operator) @ node_string operator node, False)"
  by (subst fmt_joined_inner.simps)
    (auto simp: joins_def node_string_def split: logical_operator.splits predicate.splits)

lemma fmt_simps:
  "fmt_predicate (Identifier name) = name"
  "fmt_predicate (Equal_To left right) = left @ '' == '' @ right"
  "fmt_predicate (Not_Equal left right) = left @ '' != '' @ right"
  "fmt_predicate (Descendant p q) = fmt_predicate p @ '' > '' @ fmt_predicate q"
  by (simp_all add: fmt_predicate.simps)

lemma fmt_negated:
  "fmt_predicate (Negated (Identifier name)) = ''!'' @ name"
  "(\<And>name. p \<noteq> Identifier name) \<Longrightarrow> fmt_predicate (Negated p) = ''!('' @ fmt_predicate p @ '')''"
  by (simp_all add: fmt_predicate.simps [of "Negated _"] split: predicate.split)

lemma fmt_join:
  "fmt_joined_inner L_And (Conj p q) first =
     (fst (fmt_joined_inner L_And p first) @ fst (fmt_joined_inner L_And q (snd (fmt_joined_inner L_And p first))),
      snd (fmt_joined_inner L_And q (snd (fmt_joined_inner L_And p first))))"
  "fmt_joined_inner L_Or (Disj p q) first =
     (fst (fmt_joined_inner L_Or p first) @ fst (fmt_joined_inner L_Or q (snd (fmt_joined_inner L_Or p first))),
      snd (fmt_joined_inner L_Or q (snd (fmt_joined_inner L_Or p first))))"
  by (simp_all add: fmt_joined_inner.simps [of _ "Conj _ _"] fmt_joined_inner.simps [of _ "Disj _ _"] case_prod_beta)

lemma fmt_first: "\<not> snd (fmt_joined_inner operator node first)"
proof (induction node arbitrary: first)
  case (Conj p q)
  then show ?case by (cases operator) (simp_all add: fmt_join fmt_leaf joins_def)
next
  case (Disj p q)
  then show ?case by (cases operator) (simp_all add: fmt_join fmt_leaf joins_def)
qed (cases operator; simp add: fmt_leaf joins_def)+

lemma fmt_start: "fst (fmt_joined_inner operator node True) = node_string operator node"
proof (cases "joins operator node")
  case True
  then show ?thesis
    by (auto simp: joins_def node_string_def needs_parens_def fmt_predicate.simps [of "Conj _ _"]
        fmt_predicate.simps [of "Disj _ _"] split: logical_operator.splits predicate.splits)
qed (simp add: fmt_leaf)

lemma fmt_conj:
  "\<not> joins L_And q \<Longrightarrow> fmt_predicate (Conj p q) = node_string L_And p @ '' && '' @ node_string L_And q"
  by (simp add: fmt_predicate.simps [of "Conj _ _"] fmt_join fmt_first fmt_start fmt_leaf separator_def)

lemma fmt_disj:
  "\<not> joins L_Or q \<Longrightarrow> fmt_predicate (Disj p q) = node_string L_Or p @ '' || '' @ node_string L_Or q"
  by (simp add: fmt_predicate.simps [of "Disj _ _"] fmt_join fmt_first fmt_start fmt_leaf separator_def)

section \<open>Printing, then parsing\<close>

text \<open>An identifier that is read back whole, and the predicates that print without losing structure.\<close>

definition name_ok :: "string \<Rightarrow> bool" where
  "name_ok name \<longleftrightarrow> (case name of [] \<Rightarrow> False
     | c # cs \<Rightarrow> is_identifier_char c \<and> list_all (\<lambda>c. is_identifier_char c \<or> is_vim_operator_char c) cs \<or>
         is_vim_operator_char c \<and> cs = [])"

fun level :: "predicate \<Rightarrow> nat" where
  "level (Descendant _ _) = 1"
| "level (Disj _ _) = 2"
| "level (Conj _ _) = 3"
| "level (Equal_To _ _) = 4"
| "level (Not_Equal _ _) = 4"
| "level _ = 5"

fun printable :: "predicate \<Rightarrow> bool" where
  "printable (Identifier name) = name_ok name"
| "printable (Equal_To left right) = (name_ok left \<and> name_ok right)"
| "printable (Not_Equal left right) = (name_ok left \<and> name_ok right)"
| "printable (Negated p) = printable p"
| "printable (Descendant p q) = (printable p \<and> printable q \<and> 1 < level q)"
| "printable (Conj p q) = (printable p \<and> printable q \<and> level p \<noteq> 1 \<and> level q \<noteq> 1 \<and> level q \<noteq> 3)"
| "printable (Disj p q) = (printable p \<and> printable q \<and> level p \<noteq> 1 \<and> level q \<noteq> 1 \<and> level q \<noteq> 2)"

text \<open>What may follow a printed predicate.\<close>

definition delimiter :: "string \<Rightarrow> bool" where
  "delimiter t \<longleftrightarrow> (case t of [] \<Rightarrow> True | c # _ \<Rightarrow> c = CHR '' '' \<or> c = CHR '')'')"

lemma vim_not_white: "is_vim_operator_char c \<Longrightarrow> \<not> is_whitespace c"
  by (auto simp: is_vim_operator_char_def is_whitespace_def)

lemma name_chars:
  assumes "is_identifier_char c \<or> is_vim_operator_char c"
  shows "c \<noteq> CHR ''('' \<and> c \<noteq> CHR ''!'' \<and> c \<noteq> CHR '' '' \<and> c \<noteq> CHR '')'' \<and> \<not> is_whitespace c"
proof -
  have "\<not> is_identifier_char CHR ''(''" "\<not> is_identifier_char CHR ''!''"
    by (simp_all add: is_identifier_char_def is_alphanumeric_def)
  moreover have "\<not> is_vim_operator_char CHR ''(''" "\<not> is_vim_operator_char CHR ''!''"
    "\<not> is_vim_operator_char CHR '' ''" "\<not> is_vim_operator_char CHR '')''"
    by (simp_all add: is_vim_operator_char_def)
  moreover have "\<not> is_whitespace c" using assms identifier_not_white vim_not_white by blast
  ultimately show ?thesis using assms by (metis not_identifier(2,3))
qed

lemma parse_primary_name:
  assumes "name_ok name" and "delimiter t"
  shows "parse_primary (name @ t) = Inr (Identifier name, skip_whitespace t)"
proof -
  obtain c cs where name: "name = c # cs" using assms(1) by (cases name) (auto simp: name_ok_def)
  let ?P = "\<lambda>c. is_identifier_char c \<or> is_vim_operator_char c"
  have c: "?P c" using assms(1) by (auto simp: name_ok_def name)
  note head = name_chars [OF c]
  show ?thesis
  proof (cases "is_identifier_char c")
    case True
    have "list_all ?P name" using assms(1) by (auto simp: name_ok_def name)
    moreover have "case t of [] \<Rightarrow> True | d # _ \<Rightarrow> \<not> ?P d"
      using assms(2) name_chars by (cases t) (auto simp: delimiter_def)
    ultimately have "takeWhile ?P (name @ t) = name"
      by (cases t) (auto simp: list_all_iff takeWhile_append2)
    then show ?thesis using head True by (subst parse_primary.simps) (simp add: name Let_def)
  next
    case False
    then have "is_vim_operator_char c" "cs = []" using assms(1) by (auto simp: name_ok_def name)
    then show ?thesis using head False by (subst parse_primary.simps) (simp add: name)
  qed
qed

lemma match_operator_mono: "match_operator s k = None \<Longrightarrow> k \<le> m \<Longrightarrow> match_operator s m = None"
  by (auto simp: match_operator_def split: option.splits if_splits)

lemma match_operator_high: "4 < m \<Longrightarrow> match_operator s m = None"
  by (auto simp: match_operator_def split: option.splits)

lemma match_operator_close: "match_operator (CHR '')'' # s) m = None"
  by (simp add: match_operator_def)

lemma parse_loop_stop: "match_operator s m = None \<Longrightarrow> parse_loop p s m = Inr (p, s)"
  by (simp add: parse_loop.simps)

text \<open>The text of a printable predicate starts with no blank.\<close>

lemma skip_parens: "skip_whitespace (CHR ''('' # s) = CHR ''('' # s" "skip_whitespace (CHR ''!'' # s) = CHR ''!'' # s"
  "skip_whitespace (CHR '' '' # s) = skip_whitespace s" "skip_whitespace (CHR '')'' # s) = CHR '')'' # s"
  "skip_whitespace (CHR ''='' # s) = CHR ''='' # s" "skip_whitespace (CHR ''&'' # s) = CHR ''&'' # s"
  "skip_whitespace (CHR ''|'' # s) = CHR ''|'' # s" "skip_whitespace (CHR ''>'' # s) = CHR ''>'' # s"
  by (simp_all add: skip_whitespace_def is_whitespace_def)

lemma skip_name: "name_ok name \<Longrightarrow> skip_whitespace (name @ t) = name @ t"
  using name_chars by (cases name) (auto simp: name_ok_def skip_whitespace_def)

lemma skip_node:
  "(\<And>t. skip_whitespace (fmt_predicate p @ t) = fmt_predicate p @ t) \<Longrightarrow>
   skip_whitespace (node_string operator p @ t) = node_string operator p @ t"
  by (simp add: node_string_def skip_parens)

lemma joins_level: "joins L_And q \<longleftrightarrow> level q = 3" "joins L_Or q \<longleftrightarrow> level q = 2"
  by (cases q; simp add: joins_def)+

lemma skip_fmt: "printable p \<Longrightarrow> skip_whitespace (fmt_predicate p @ t) = fmt_predicate p @ t"
proof (induction p arbitrary: t)
  case (Negated p)
  then show ?case
    by (cases "\<exists>name. p = Identifier name") (auto simp: fmt_negated skip_parens)
next
  case (Conj p q)
  then show ?case using skip_node [of p L_And] by (simp add: fmt_conj joins_level)
next
  case (Disj p q)
  then show ?case using skip_node [of p L_Or] by (simp add: fmt_disj joins_level)
qed (simp_all add: fmt_simps skip_name)

definition reads_back :: "predicate \<Rightarrow> bool" where
  "reads_back p \<longleftrightarrow> (\<forall>t m. delimiter t \<and> m \<le> level p \<and> match_operator (skip_whitespace t) (Suc (level p)) = None \<longrightarrow>
     parse_expr (fmt_predicate p @ t) m = parse_loop p (skip_whitespace t) m)"

lemma reads_backD:
  "reads_back p \<Longrightarrow> delimiter t \<Longrightarrow> m \<le> level p \<Longrightarrow>
   match_operator (skip_whitespace t) (Suc (level p)) = None \<Longrightarrow>
   parse_expr (fmt_predicate p @ t) m = parse_loop p (skip_whitespace t) m"
  by (auto simp: reads_back_def)

lemma parse_primary_parens:
  assumes "reads_back p" and "printable p"
  shows "parse_primary (CHR ''('' # fmt_predicate p @ CHR '')'' # t) = Inr (p, skip_whitespace t)"
proof -
  have "parse_expr (fmt_predicate p @ CHR '')'' # t) 0 = Inr (p, CHR '')'' # t)"
    using reads_backD [OF assms(1), of "CHR '')'' # t" 0]
    by (simp add: delimiter_def skip_parens match_operator_close parse_loop_stop)
  then show ?thesis by (subst parse_primary.simps) (simp add: skip_fmt [OF assms(2)])
qed

text \<open>A node, in parentheses or not, is read back in front of a loop at precedence \<open>m\<close>.\<close>

lemma parse_node:
  assumes "reads_back p" and "printable p" and "delimiter t" and "needs_parens operator p \<or> m \<le> level p"
    and "needs_parens operator p \<or> match_operator (skip_whitespace t) (Suc (level p)) = None"
  shows "parse_expr (node_string operator p @ t) m = parse_loop p (skip_whitespace t) m"
proof (cases "needs_parens operator p")
  case True
  then show ?thesis
    by (subst parse_expr.simps) (simp add: node_string_def parse_primary_parens [OF assms(1,2)])
next
  case False
  with assms show ?thesis by (simp add: node_string_def reads_backD)
qed

lemma reads_back_primary:
  assumes "\<And>t. delimiter t \<Longrightarrow> parse_primary (fmt_predicate p @ t) = Inr (p, skip_whitespace t)"
  shows "reads_back p"
  unfolding reads_back_def by (auto simp: parse_expr.simps assms)

text \<open>A binary operator between two operands that are read back.\<close>

lemma match_own:
  "match_operator (operator_string op @ CHR '' '' # rest) m =
     (if m \<le> precedence op then Some (op, skip_whitespace rest) else None)"
  by (cases op) (simp_all add: match_operator_def skip_parens)

lemma skip_own: "skip_whitespace (CHR '' '' # operator_string op @ rest) = operator_string op @ rest"
  by (cases op) (simp_all add: skip_parens)

lemma delimiter_blank: "delimiter (CHR '' '' # s)"
  by (simp add: delimiter_def)

lemma reads_back_binary:
  assumes fmt: "fmt_predicate p = left @ CHR '' '' # operator_string op @ CHR '' '' # right"
    and level: "level p = precedence op"
    and left: "\<And>m rest. m \<le> precedence op \<Longrightarrow>
      parse_expr (left @ CHR '' '' # operator_string op @ CHR '' '' # rest) m =
      parse_loop l (operator_string op @ CHR '' '' # rest) m"
    and right: "\<And>t. delimiter t \<Longrightarrow> match_operator (skip_whitespace t) (Suc (precedence op)) = None \<Longrightarrow>
      parse_expr (right @ t) (Suc (precedence op)) = parse_loop r (skip_whitespace t) (Suc (precedence op))"
    and skip: "\<And>t. skip_whitespace (right @ t) = right @ t"
    and result: "construct op l r = Inr p"
  shows "reads_back p"
  unfolding reads_back_def
proof (intro allI impI, elim conjE)
  fix t m
  assume t: "delimiter t" "m \<le> level p" "match_operator (skip_whitespace t) (Suc (level p)) = None"
  have "parse_expr (fmt_predicate p @ t) m = parse_loop l (operator_string op @ CHR '' '' # right @ t) m"
    using left [of m "right @ t"] t(2) level by (simp add: fmt)
  also have "\<dots> = parse_loop p (skip_whitespace t) m"
    using t level right [OF t(1)] result by (subst parse_loop.simps) (simp add: match_own skip parse_loop_stop)
  finally show "parse_expr (fmt_predicate p @ t) m = parse_loop p (skip_whitespace t) m" .
qed

lemma reads_back_name: "name_ok name \<Longrightarrow> reads_back (Identifier name)"
  by (rule reads_back_primary) (simp add: fmt_simps parse_primary_name)

lemma level_pos: "0 < level p" "level p \<le> 5"
  by (cases p; simp)+

lemma needs_parens_level:
  "needs_parens L_And p \<longleftrightarrow> level p = 2" "needs_parens L_Or p \<longleftrightarrow> level p = 3"
  by (cases p; simp add: needs_parens_def)+

lemma reads_back_printable: "printable p \<Longrightarrow> reads_back p"
proof (induction p)
  case (Identifier name)
  then show ?case by (simp add: reads_back_name)
next
  case (Equal_To l r)
  then have "name_ok l" "name_ok r" by simp_all
  note names = this [THEN reads_back_name, THEN reads_backD, unfolded fmt_simps level.simps]
  show ?case
    by (rule reads_back_binary [where op = Op_Eq and l = "Identifier l" and r = "Identifier r" and left = l and right = r])
      (use names \<open>name_ok r\<close> in \<open>simp_all add: fmt_simps delimiter_blank skip_parens match_operator_high skip_name\<close>)
next
  case (Not_Equal l r)
  then have "name_ok l" "name_ok r" by simp_all
  note names = this [THEN reads_back_name, THEN reads_backD, unfolded fmt_simps level.simps]
  show ?case
    by (rule reads_back_binary [where op = Op_Neq and l = "Identifier l" and r = "Identifier r" and left = l and right = r])
      (use names \<open>name_ok r\<close> in \<open>simp_all add: fmt_simps delimiter_blank skip_parens match_operator_high skip_name\<close>)
next
  case (Descendant p q)
  then have p: "reads_back p" and q: "reads_back q" "printable q" "1 < level q" by simp_all
  show ?case
  proof (rule reads_back_binary [where op = Op_Child and l = p and r = q])
    fix m rest
    assume "m \<le> precedence Op_Child"
    then show "parse_expr (fmt_predicate p @ CHR '' '' # operator_string Op_Child @ CHR '' '' # rest) m =
        parse_loop p (operator_string Op_Child @ CHR '' '' # rest) m"
      using reads_backD [OF p delimiter_blank, of m "operator_string Op_Child @ CHR '' '' # rest"] level_pos [of p]
      by (simp only: skip_own match_own) simp
  next
    fix t
    assume "delimiter t" "match_operator (skip_whitespace t) (Suc (precedence Op_Child)) = None"
    then show "parse_expr (fmt_predicate q @ t) (Suc (precedence Op_Child)) =
        parse_loop q (skip_whitespace t) (Suc (precedence Op_Child))"
      using q by (intro reads_backD) (auto intro: match_operator_mono)
  qed (use q in \<open>simp_all add: fmt_simps skip_fmt\<close>)
next
  case (Conj p q)
  then have p: "reads_back p" "printable p" "level p \<noteq> 1" and q: "reads_back q" "printable q" "level q \<noteq> 1" "level q \<noteq> 3"
    by simp_all
  show ?case
  proof (rule reads_back_binary [where op = Op_And and l = p and r = q])
    fix m rest
    assume "m \<le> precedence Op_And"
    moreover have "level p = 2 \<or> 3 \<le> level p" using p(3) level_pos [of p] by linarith
    ultimately show "parse_expr (node_string L_And p @ CHR '' '' # operator_string Op_And @ CHR '' '' # rest) m =
        parse_loop p (operator_string Op_And @ CHR '' '' # rest) m"
      using parse_node [OF p(1,2) delimiter_blank, of L_And m "operator_string Op_And @ CHR '' '' # rest"]
      by (simp only: skip_own match_own needs_parens_level) auto
  next
    fix t
    assume t: "delimiter t" "match_operator (skip_whitespace t) (Suc (precedence Op_And)) = None"
    moreover have "level q = 2 \<or> 4 \<le> level q" using q(3,4) level_pos [of q] by linarith
    ultimately show "parse_expr (node_string L_And q @ t) (Suc (precedence Op_And)) =
        parse_loop q (skip_whitespace t) (Suc (precedence Op_And))"
      using q match_operator_mono [OF t(2), of "Suc (level q)"] by (intro parse_node) (auto simp: needs_parens_level)
  qed (use q in \<open>simp_all add: fmt_conj joins_level skip_fmt skip_node\<close>)
next
  case (Disj p q)
  then have p: "reads_back p" "printable p" "level p \<noteq> 1" and q: "reads_back q" "printable q" "level q \<noteq> 1" "level q \<noteq> 2"
    by simp_all
  show ?case
  proof (rule reads_back_binary [where op = Op_Or and l = p and r = q])
    fix m rest
    assume "m \<le> precedence Op_Or"
    moreover have "level p = 3 \<or> 2 \<le> level p" using p(3) level_pos [of p] by linarith
    ultimately show "parse_expr (node_string L_Or p @ CHR '' '' # operator_string Op_Or @ CHR '' '' # rest) m =
        parse_loop p (operator_string Op_Or @ CHR '' '' # rest) m"
      using parse_node [OF p(1,2) delimiter_blank, of L_Or m "operator_string Op_Or @ CHR '' '' # rest"]
      by (simp only: skip_own match_own needs_parens_level) auto
  next
    fix t
    assume t: "delimiter t" "match_operator (skip_whitespace t) (Suc (precedence Op_Or)) = None"
    moreover have "level q = 3 \<or> 3 \<le> level q" using q(3,4) level_pos [of q] by linarith
    ultimately show "parse_expr (node_string L_Or q @ t) (Suc (precedence Op_Or)) =
        parse_loop q (skip_whitespace t) (Suc (precedence Op_Or))"
      using q match_operator_mono [OF t(2), of "Suc (level q)"] by (intro parse_node) (auto simp: needs_parens_level)
  qed (use q in \<open>simp_all add: fmt_disj joins_level skip_fmt skip_node\<close>)
next
  case (Negated p)
  then have p: "reads_back p" "printable p" by simp_all
  show ?case
  proof (rule reads_back_primary)
    fix t
    assume t: "delimiter t"
    have stop: "parse_loop r s 5 = Inr (r, s)" for r s by (simp add: parse_loop_stop match_operator_high)
    show "parse_primary (fmt_predicate (Negated p) @ t) = Inr (Negated p, skip_whitespace t)"
    proof (cases "\<exists>name. p = Identifier name")
      case True
      then obtain name where name: "p = Identifier name" by blast
      then have "parse_primary (name @ t) = Inr (Identifier name, skip_whitespace t)"
        using p(2) t by (simp add: parse_primary_name)
      then show ?thesis
        using p(2) by (subst parse_primary.simps)
          (simp add: name fmt_negated skip_name PRECEDENCE_NOT_def parse_expr.simps [of _ 5] stop)
    next
      case False
      then have "fmt_predicate (Negated p) = ''!('' @ fmt_predicate p @ '')''" by (intro fmt_negated) blast
      then show ?thesis
        by (subst parse_primary.simps)
          (simp add: skip_parens PRECEDENCE_NOT_def parse_expr.simps [of _ 5] parse_primary_parens [OF p] stop)
    qed
  qed
qed

lemma parse_fmt:
  assumes "printable p"
  shows "parse (fmt_predicate p) = Inr p"
proof -
  have "parse_expr (fmt_predicate p @ []) 0 = Inr (p, [])"
    using reads_backD [OF reads_back_printable [OF assms], of "[]" 0]
    by (simp add: delimiter_def match_operator_def parse_loop_stop)
  with skip_fmt [OF assms, of "[]"] show ?thesis by (simp add: parse_def)
qed

end
