(* ===== verification/Keystroke.thy ===== *)
theory Keystroke
  imports Prelude "HOL-Library.Word"
begin

text \<open>
  Keystrokes (\<open>crates/gpui/src/platform/keystroke.rs\<close>): the modifier sets and their
  operations, parsing and unparsing of keystrokes, and the test whether a typed keystroke
  matches one of the keymap. The operating system the code is compiled for is a parameter, and
  characters are the Unicode scalar values below 256.
\<close>

section \<open>Modifiers\<close>

record modifiers =
  control :: bool
  alt :: bool
  shift :: bool
  platform :: bool
  function_key :: bool

definition no_modifiers :: modifiers where
  "no_modifiers = \<lparr>control = False, alt = False, shift = False, platform = False, function_key = False\<rparr>"

definition modified :: "modifiers \<Rightarrow> bool" where
  "modified m = (control m \<or> alt m \<or> shift m \<or> platform m \<or> function_key m)"

definition secondary :: "string \<Rightarrow> modifiers \<Rightarrow> bool" where
  "secondary target_os m = (if target_os = ''macos'' then platform m else control m)"

definition number_of_modifiers :: "modifiers \<Rightarrow> 8 word" where
  "number_of_modifiers m =
     of_bool (control m) + of_bool (alt m) + of_bool (shift m) + of_bool (platform m) + of_bool (function_key m)"

definition secondary_key :: "string \<Rightarrow> modifiers" where
  "secondary_key target_os =
     (if target_os = ''macos'' then no_modifiers\<lparr>platform := True\<rparr> else no_modifiers\<lparr>control := True\<rparr>)"

definition bitor_modifiers :: "modifiers \<Rightarrow> modifiers \<Rightarrow> modifiers" where
  "bitor_modifiers m other =
     \<lparr>control = (control m \<or> control other), alt = (alt m \<or> alt other), shift = (shift m \<or> shift other),
      platform = (platform m \<or> platform other), function_key = (function_key m \<or> function_key other)\<rparr>"

definition bitxor_modifiers :: "modifiers \<Rightarrow> modifiers \<Rightarrow> modifiers" where
  "bitxor_modifiers m rhs =
     \<lparr>control = (control m \<noteq> control rhs), alt = (alt m \<noteq> alt rhs), shift = (shift m \<noteq> shift rhs),
      platform = (platform m \<noteq> platform rhs), function_key = (function_key m \<noteq> function_key rhs)\<rparr>"

definition bitand_modifiers :: "modifiers \<Rightarrow> modifiers \<Rightarrow> modifiers" where
  "bitand_modifiers m rhs =
     \<lparr>control = (control m \<and> control rhs), alt = (alt m \<and> alt rhs), shift = (shift m \<and> shift rhs),
      platform = (platform m \<and> platform rhs), function_key = (function_key m \<and> function_key rhs)\<rparr>"

definition is_subset_of :: "modifiers \<Rightarrow> modifiers \<Rightarrow> bool" where
  "is_subset_of m other = (bitand_modifiers other m = m)"

lemma is_subset_of_iff:
  "is_subset_of m other \<longleftrightarrow> (control m \<longrightarrow> control other) \<and> (alt m \<longrightarrow> alt other) \<and> (shift m \<longrightarrow> shift other) \<and>
     (platform m \<longrightarrow> platform other) \<and> (function_key m \<longrightarrow> function_key other)"
  by (cases m; cases other) (auto simp: is_subset_of_def bitand_modifiers_def)

lemma is_subset_of_bitor: "is_subset_of m other \<longleftrightarrow> bitor_modifiers m other = other"
  by (cases m; cases other) (auto simp: is_subset_of_iff bitor_modifiers_def)

text \<open>The count fits its byte: at most five modifiers, and some exactly when it is positive.\<close>

lemma number_of_modifiers_unat:
  "unat (number_of_modifiers m) = length (filter id [control m, alt m, shift m, platform m, function_key m])"
  by (cases m) (auto simp: number_of_modifiers_def of_bool_def)

section \<open>Keystrokes\<close>

record keystroke =
  ks_modifiers :: modifiers
  ks_key :: string
  ks_key_char :: "string option"

text \<open>What is displayed is stored on Windows only.\<close>

record keybinding_keystroke =
  kk_inner :: keystroke
  kk_display :: "(modifiers \<times> string) option"

definition from_keystroke :: "string \<Rightarrow> keystroke \<Rightarrow> keybinding_keystroke" where
  "from_keystroke target_os keystroke =
     \<lparr>kk_inner = keystroke,
      kk_display = (if target_os = ''windows'' then Some (ks_modifiers keystroke, ks_key keystroke) else None)\<rparr>"

definition kk_modifiers :: "keybinding_keystroke \<Rightarrow> modifiers" where
  "kk_modifiers k = (case kk_display k of Some (display_modifiers, _) \<Rightarrow> display_modifiers
     | None \<Rightarrow> ks_modifiers (kk_inner k))"

definition kk_key :: "keybinding_keystroke \<Rightarrow> string" where
  "kk_key k = (case kk_display k of Some (_, display_key) \<Rightarrow> display_key | None \<Rightarrow> ks_key (kk_inner k))"

definition set_modifiers :: "keybinding_keystroke \<Rightarrow> modifiers \<Rightarrow> keybinding_keystroke" where
  "set_modifiers k m =
     (case kk_display k of
        None \<Rightarrow> k\<lparr>kk_inner := (kk_inner k)\<lparr>ks_modifiers := m\<rparr>\<rparr>
      | Some (_, display_key) \<Rightarrow>
          k\<lparr>kk_inner := (kk_inner k)\<lparr>ks_modifiers := m\<rparr>, kk_display := Some (m, display_key)\<rparr>)"

definition set_key :: "keybinding_keystroke \<Rightarrow> string \<Rightarrow> keybinding_keystroke" where
  "set_key k key =
     (case kk_display k of
        None \<Rightarrow> k\<lparr>kk_inner := (kk_inner k)\<lparr>ks_key := key\<rparr>\<rparr>
      | Some (display_modifiers, _) \<Rightarrow>
          k\<lparr>kk_display := Some (display_modifiers, key), kk_inner := (kk_inner k)\<lparr>ks_key := key\<rparr>\<rparr>)"

definition remove_key_char :: "keybinding_keystroke \<Rightarrow> keybinding_keystroke" where
  "remove_key_char k = k\<lparr>kk_inner := (kk_inner k)\<lparr>ks_key_char := None\<rparr>\<rparr>"

text \<open>
  A typed keystroke matches a target through the character it typed, when that differs from the
  key, or through its modifiers and key.
\<close>

definition should_match :: "string \<Rightarrow> keystroke \<Rightarrow> keybinding_keystroke \<Rightarrow> bool" where
  "should_match target_os typed target =
     ((case ks_key_char typed of
         Some key_char \<Rightarrow>
           key_char \<noteq> ks_key typed \<and> ks_key (kk_inner target) = key_char \<and>
           ks_modifiers (kk_inner target) =
             (if target_os = ''windows'' then no_modifiers
              else no_modifiers\<lparr>control := control (ks_modifiers typed), platform := platform (ks_modifiers typed)\<rparr>)
       | None \<Rightarrow> False) \<or>
      ks_modifiers (kk_inner target) = ks_modifiers typed \<and> ks_key (kk_inner target) = ks_key typed)"

definition is_printable_key :: "string \<Rightarrow> bool" where
  "is_printable_key key = (key \<notin> set
     [''f1'', ''f2'', ''f3'', ''f4'', ''f5'', ''f6'', ''f7'', ''f8'', ''f9'', ''f10'', ''f11'', ''f12'', ''f13'',
      ''f14'', ''f15'', ''f16'', ''f17'', ''f18'', ''f19'', ''f20'', ''f21'', ''f22'', ''f23'', ''f24'', ''f25'',
      ''f26'', ''f27'', ''f28'', ''f29'', ''f30'', ''f31'', ''f32'', ''f33'', ''f34'', ''f35'', ''backspace'',
      ''delete'', ''left'', ''right'', ''up'', ''down'', ''pageup'', ''pagedown'', ''insert'', ''home'', ''end'',
      ''back'', ''forward'', ''escape''])"

definition is_ime_in_progress :: "keystroke \<Rightarrow> bool" where
  "is_ime_in_progress k =
     (ks_key_char k = None \<and> (is_printable_key (ks_key k) \<or> ks_key k = []) \<and>
      \<not> (platform (ks_modifiers k) \<or> control (ks_modifiers k) \<or> function_key (ks_modifiers k) \<or> alt (ks_modifiers k)))"

section \<open>Parsing\<close>

definition ascii_lower :: "char \<Rightarrow> char" where
  "ascii_lower c = (let n = (of_char c :: nat) in if 65 \<le> n \<and> n \<le> 90 then char_of (n + 32) else c)"

definition is_ascii_uppercase :: "char \<Rightarrow> bool" where
  "is_ascii_uppercase c = (let n = (of_char c :: nat) in 65 \<le> n \<and> n \<le> 90)"

definition eq_ignore_ascii_case :: "string \<Rightarrow> string \<Rightarrow> bool" where
  "eq_ignore_ascii_case s t = (map ascii_lower s = map ascii_lower t)"

fun split_at_char :: "char \<Rightarrow> string \<Rightarrow> string list" where
  "split_at_char d [] = [[]]"
| "split_at_char d (c # s) =
     (if c = d then [] # split_at_char d s
      else (case split_at_char d s of w # ws \<Rightarrow> (c # w) # ws | [] \<Rightarrow> [[c]]))"

definition ends_with_dash :: "string \<Rightarrow> bool" where
  "ends_with_dash s = (s \<noteq> [] \<and> last s = CHR ''-'')"

text \<open>The loop over the components of the source; an error carries the source.\<close>

fun parse_components :: "string \<Rightarrow> string \<Rightarrow> string list \<Rightarrow> modifiers \<Rightarrow> string option \<Rightarrow> string option \<Rightarrow>
    string + modifiers \<times> string option \<times> string option" where
  "parse_components target_os source [] modifiers key key_char = Inr (modifiers, key, key_char)"
| "parse_components target_os source (component # components) modifiers key key_char =
     (if eq_ignore_ascii_case component ''ctrl'' then
        parse_components target_os source components (modifiers\<lparr>control := True\<rparr>) key key_char
      else if eq_ignore_ascii_case component ''alt'' then
        parse_components target_os source components (modifiers\<lparr>alt := True\<rparr>) key key_char
      else if eq_ignore_ascii_case component ''shift'' then
        parse_components target_os source components (modifiers\<lparr>shift := True\<rparr>) key key_char
      else if eq_ignore_ascii_case component ''fn'' then
        parse_components target_os source components (modifiers\<lparr>function_key := True\<rparr>) key key_char
      else if eq_ignore_ascii_case component ''secondary'' then
        parse_components target_os source components
          (if target_os = ''macos'' then modifiers\<lparr>platform := True\<rparr> else modifiers\<lparr>control := True\<rparr>) key key_char
      else if eq_ignore_ascii_case component ''cmd'' \<or> eq_ignore_ascii_case component ''super'' \<or>
              eq_ignore_ascii_case component ''win'' then
        parse_components target_os source components (modifiers\<lparr>platform := True\<rparr>) key key_char
      else
        (case components of
           peeked # rest \<Rightarrow>
             if peeked = [] \<and> ends_with_dash source then Inr (modifiers, Some ''-'', key_char)
             else if 1 < length peeked \<and> hd peeked = CHR ''>'' then
               parse_components target_os source rest modifiers (Some component) (Some (tl peeked))
             else Inl source
         | [] \<Rightarrow>
             parse_components target_os source []
               (if length component = 1 \<and> is_ascii_uppercase (hd component) then modifiers\<lparr>shift := True\<rparr>
                else modifiers)
               (Some (map ascii_lower component)) key_char))"

text \<open>A modifier alone is the key.\<close>

definition modifier_as_key :: "modifiers \<Rightarrow> modifiers \<times> string option" where
  "modifier_as_key m =
     (if shift m then (m\<lparr>shift := False\<rparr>, Some ''shift'')
      else if control m then (m\<lparr>control := False\<rparr>, Some ''control'')
      else if alt m then (m\<lparr>alt := False\<rparr>, Some ''alt'')
      else if platform m then (m\<lparr>platform := False\<rparr>, Some ''platform'')
      else if function_key m then (m\<lparr>function_key := False\<rparr>, Some ''function'')
      else (m, None))"

definition keystroke_parse :: "string \<Rightarrow> string \<Rightarrow> string + keystroke" where
  "keystroke_parse target_os source =
     (case parse_components target_os source (split_at_char (CHR ''-'') source) no_modifiers None None of
        Inl e \<Rightarrow> Inl e
      | Inr (modifiers, key, key_char) \<Rightarrow>
          (let (modifiers', key') = (case key of Some k \<Rightarrow> (modifiers, Some k) | None \<Rightarrow> modifier_as_key modifiers)
           in case key' of
                None \<Rightarrow> Inl source
              | Some k \<Rightarrow> Inr \<lparr>ks_modifiers = modifiers', ks_key = k, ks_key_char = key_char\<rparr>))"

definition unparse_parts :: "string \<Rightarrow> modifiers \<Rightarrow> string \<Rightarrow> string" where
  "unparse_parts target_os m key =
     (if function_key m then ''fn-'' else []) @
     (if control m then ''ctrl-'' else []) @
     (if alt m then ''alt-'' else []) @
     (if platform m then
        (if target_os = ''macos'' then ''cmd-''
         else if target_os = ''linux'' \<or> target_os = ''freebsd'' then ''super-''
         else if target_os = ''windows'' then ''win-'' else [])
      else []) @
     (if shift m then ''shift-'' else []) @ key"

definition unparse :: "string \<Rightarrow> keystroke \<Rightarrow> string" where
  "unparse target_os k = unparse_parts target_os (ks_modifiers k) (ks_key k)"

definition kk_unparse :: "string \<Rightarrow> keybinding_keystroke \<Rightarrow> string" where
  "kk_unparse target_os k = unparse_parts target_os (kk_modifiers k) (kk_key k)"

section \<open>Unparsing, then parsing\<close>

text \<open>The keys that are not read as a modifier, nor changed on the way.\<close>

definition reserved :: "string set" where
  "reserved = {''ctrl'', ''alt'', ''shift'', ''fn'', ''secondary'', ''cmd'', ''super'', ''win''}"

definition plain_key :: "string \<Rightarrow> bool" where
  "plain_key key \<longleftrightarrow> key = ''-'' \<or>
     CHR ''-'' \<notin> set key \<and> list_all (\<lambda>c. \<not> is_ascii_uppercase c) key \<and> key \<notin> reserved"

lemma split_at_char_ne: "split_at_char d s \<noteq> []"
  by (induction s) (auto split: list.split)

lemma split_at_char_word: "d \<notin> set w \<Longrightarrow> split_at_char d (w @ d # s) = w # split_at_char d s"
  by (induction w) auto

lemma split_at_char_last: "d \<notin> set w \<Longrightarrow> split_at_char d w = [w]"
  by (induction w) auto

lemma split_at_char_if: "split_at_char d ((if b then w else []) @ s) = (if b then split_at_char d (w @ s) else split_at_char d s)"
  by simp

lemma ascii_lower_fixed: "\<not> is_ascii_uppercase c \<Longrightarrow> ascii_lower c = c"
  by (auto simp: ascii_lower_def is_ascii_uppercase_def Let_def)

lemma lower_fixed: "list_all (\<lambda>c. \<not> is_ascii_uppercase c) s \<Longrightarrow> map ascii_lower s = s"
  by (induction s) (auto simp: ascii_lower_fixed)

lemma lower_names:
  "map ascii_lower ''ctrl'' = ''ctrl''" "map ascii_lower ''alt'' = ''alt''" "map ascii_lower ''shift'' = ''shift''"
  "map ascii_lower ''fn'' = ''fn''" "map ascii_lower ''secondary'' = ''secondary''" "map ascii_lower ''cmd'' = ''cmd''"
  "map ascii_lower ''super'' = ''super''" "map ascii_lower ''win'' = ''win''"
  by (simp_all add: ascii_lower_def)

lemma parse_modifier_components:
  "parse_components os src (''fn'' # ws) m k c = parse_components os src ws (m\<lparr>function_key := True\<rparr>) k c"
  "parse_components os src (''ctrl'' # ws) m k c = parse_components os src ws (m\<lparr>control := True\<rparr>) k c"
  "parse_components os src (''alt'' # ws) m k c = parse_components os src ws (m\<lparr>alt := True\<rparr>) k c"
  "parse_components os src (''shift'' # ws) m k c = parse_components os src ws (m\<lparr>shift := True\<rparr>) k c"
  "parse_components os src (''cmd'' # ws) m k c = parse_components os src ws (m\<lparr>platform := True\<rparr>) k c"
  "parse_components os src (''super'' # ws) m k c = parse_components os src ws (m\<lparr>platform := True\<rparr>) k c"
  "parse_components os src (''win'' # ws) m k c = parse_components os src ws (m\<lparr>platform := True\<rparr>) k c"
  by (simp_all only: parse_components.simps eq_ignore_ascii_case_def lower_names, simp_all)

definition has_target :: "string \<Rightarrow> bool" where
  "has_target target_os \<longleftrightarrow> target_os \<in> {''macos'', ''linux'', ''freebsd'', ''windows''}"

text \<open>The components of an unparsed keystroke: its modifiers in a fixed order, then its key.\<close>

lemma split_unparse_parts:
  assumes "has_target os"
  shows "split_at_char (CHR ''-'') (unparse_parts os m key) =
    (if function_key m then [''fn''] else []) @ (if control m then [''ctrl''] else []) @
    (if alt m then [''alt''] else []) @
    (if platform m then [if os = ''macos'' then ''cmd'' else if os = ''windows'' then ''win'' else ''super''] else []) @
    (if shift m then [''shift''] else []) @ split_at_char (CHR ''-'') key"
proof -
  have words: "split_at_char (CHR ''-'') ((if b then ''fn-'' else []) @ s) = (if b then [''fn''] else []) @ split_at_char (CHR ''-'') s"
    "split_at_char (CHR ''-'') ((if b then ''ctrl-'' else []) @ s) = (if b then [''ctrl''] else []) @ split_at_char (CHR ''-'') s"
    "split_at_char (CHR ''-'') ((if b then ''alt-'' else []) @ s) = (if b then [''alt''] else []) @ split_at_char (CHR ''-'') s"
    "split_at_char (CHR ''-'') ((if b then ''cmd-'' else []) @ s) = (if b then [''cmd''] else []) @ split_at_char (CHR ''-'') s"
    "split_at_char (CHR ''-'') ((if b then ''super-'' else []) @ s) = (if b then [''super''] else []) @ split_at_char (CHR ''-'') s"
    "split_at_char (CHR ''-'') ((if b then ''win-'' else []) @ s) = (if b then [''win''] else []) @ split_at_char (CHR ''-'') s"
    "split_at_char (CHR ''-'') ((if b then ''shift-'' else []) @ s) = (if b then [''shift''] else []) @ split_at_char (CHR ''-'') s" for b s
    by simp_all
  have system: "(if os = ''macos'' then ''cmd-'' else if os = ''linux'' \<or> os = ''freebsd'' then ''super-''
      else if os = ''windows'' then ''win-'' else []) =
    (if os = ''macos'' then ''cmd-'' else if os = ''windows'' then ''win-'' else ''super-'')"
    using assms by (auto simp: has_target_def)
  show ?thesis
    unfolding unparse_parts_def system
    by (cases "os = ''macos''"; cases "os = ''windows''") (simp_all only: words if_True if_False simp_thms)
qed

lemma parse_unparsed_modifiers:
  assumes "has_target os"
  shows "parse_components os src (split_at_char (CHR ''-'') (unparse_parts os m key)) no_modifiers None None =
    parse_components os src (split_at_char (CHR ''-'') key) m None None"
  unfolding split_unparse_parts [OF assms]
  by (cases m) (auto simp: parse_modifier_components no_modifiers_def simp del: parse_components.simps)

lemma parse_plain_key:
  assumes "plain_key key" and "src = pre @ key"
  shows "parse_components os src (split_at_char (CHR ''-'') key) m None None = Inr (m, Some key, None)"
proof (cases "key = ''-''")
  case True
  have "\<not> eq_ignore_ascii_case [] w" if "w \<noteq> []" for w
    using that by (simp add: eq_ignore_ascii_case_def)
  then show ?thesis using True assms(2) by (simp add: ends_with_dash_def)
next
  case False
  with assms(1) have key: "CHR ''-'' \<notin> set key" "list_all (\<lambda>c. \<not> is_ascii_uppercase c) key" "key \<notin> reserved"
    by (auto simp: plain_key_def)
  have "eq_ignore_ascii_case key w \<longleftrightarrow> key = w" if "w \<in> reserved" for w
    using that lower_names unfolding eq_ignore_ascii_case_def reserved_def lower_fixed [OF key(2)] by fastforce
  then have "\<not> eq_ignore_ascii_case key w" if "w \<in> reserved" for w using key(3) that by blast
  moreover have "\<not> (length key = 1 \<and> is_ascii_uppercase (hd key))" using key(2) by (cases key) auto
  ultimately show ?thesis
    by (auto simp: split_at_char_last [OF key(1)] reserved_def lower_fixed [OF key(2)])
qed

lemma keystroke_parse_unparse:
  assumes "has_target os" and "plain_key (ks_key k)" and "ks_key_char k = None"
  shows "keystroke_parse os (unparse os k) = Inr k"
proof -
  let ?src = "unparse_parts os (ks_modifiers k) (ks_key k)"
  have "\<exists>pre. ?src = pre @ ks_key k" unfolding unparse_parts_def by (metis append.assoc)
  then have "parse_components os ?src (split_at_char (CHR ''-'') ?src) no_modifiers None None =
      Inr (ks_modifiers k, Some (ks_key k), None)"
    using parse_plain_key [OF assms(2)] by (auto simp: parse_unparsed_modifiers [OF assms(1)])
  with assms(3) show ?thesis by (simp add: keystroke_parse_def unparse_def)
qed

end
