(* ===== verification/Keymap.thy ===== *)
theory Keymap
  imports Key_Parser Keystroke
begin

text \<open>
  The keymap (\<open>crates/gpui/src/keymap.rs\<close>, \<open>keymap/binding.rs\<close>): bindings with their context
  predicates, the indices kept beside them, and the lookups by action and by input. Actions are
  \<open>NoAction\<close>, \<open>Unbind\<close> and the application's own, reached through the \<open>Action\<close> trait.
\<close>

section \<open>Actions and bindings\<close>

datatype 'a action = No_Action | Unbind string | Other 'a

datatype type_id = No_Action_Type | Unbind_Type | Other_Type nat

text \<open>What the trait says of the application's own actions.\<close>

record 'a action_ops =
  ops_type_id :: "'a \<Rightarrow> nat"
  ops_name :: "'a \<Rightarrow> string"
  ops_partial_eq :: "'a \<Rightarrow> 'a \<Rightarrow> bool"

fun action_type_id :: "('a, 'z) action_ops_scheme \<Rightarrow> 'a action \<Rightarrow> type_id" where
  "action_type_id ops No_Action = No_Action_Type"
| "action_type_id ops (Unbind _) = Unbind_Type"
| "action_type_id ops (Other a) = Other_Type (ops_type_id ops a)"

fun action_name :: "('a, 'z) action_ops_scheme \<Rightarrow> 'a action \<Rightarrow> string" where
  "action_name ops No_Action = ''zed::NoAction''"
| "action_name ops (Unbind _) = ''zed::Unbind''"
| "action_name ops (Other a) = ops_name ops a"

fun action_eq :: "('a, 'z) action_ops_scheme \<Rightarrow> 'a action \<Rightarrow> 'a action \<Rightarrow> bool" where
  "action_eq ops No_Action No_Action = True"
| "action_eq ops (Unbind s) (Unbind t) = (s = t)"
| "action_eq ops (Other a) (Other b) = ops_partial_eq ops a b"
| "action_eq ops _ _ = False"

definition is_no_action :: "'a action \<Rightarrow> bool" where
  "is_no_action act = (case act of No_Action \<Rightarrow> True | _ \<Rightarrow> False)"

definition is_unbind :: "'a action \<Rightarrow> bool" where
  "is_unbind act = (case act of Unbind _ \<Rightarrow> True | _ \<Rightarrow> False)"

record 'a key_binding =
  kb_action :: "'a action"
  kb_keystrokes :: "keybinding_keystroke list"
  kb_predicate :: "predicate option"
  kb_meta :: "32 word option"
  kb_action_input :: "string option"

fun split_whitespace_from :: "string \<Rightarrow> string \<Rightarrow> string list" where
  "split_whitespace_from word [] = (if word = [] then [] else [word])"
| "split_whitespace_from word (c # s) =
     (if is_whitespace c then (if word = [] then [] else [word]) @ split_whitespace_from [] s
      else split_whitespace_from (word @ [c]) s)"

definition split_whitespace :: "string \<Rightarrow> string list" where
  "split_whitespace s = split_whitespace_from [] s"

fun load_keystrokes :: "string \<Rightarrow> (keystroke \<Rightarrow> bool \<Rightarrow> keybinding_keystroke) \<Rightarrow> bool \<Rightarrow> string list \<Rightarrow>
    string + keybinding_keystroke list" where
  "load_keystrokes target_os mapper use_key_equivalents [] = Inr []"
| "load_keystrokes target_os mapper use_key_equivalents (source # sources) =
     (case keystroke_parse target_os source of
        Inl e \<Rightarrow> Inl e
      | Inr keystroke \<Rightarrow>
          (case load_keystrokes target_os mapper use_key_equivalents sources of
             Inl e \<Rightarrow> Inl e
           | Inr rest \<Rightarrow> Inr (mapper keystroke use_key_equivalents # rest)))"

definition binding_load :: "string \<Rightarrow> string \<Rightarrow> 'a action \<Rightarrow> predicate option \<Rightarrow> bool \<Rightarrow> string option \<Rightarrow>
    (keystroke \<Rightarrow> bool \<Rightarrow> keybinding_keystroke) \<Rightarrow> string + 'a key_binding" where
  "binding_load target_os keystrokes act context_predicate use_key_equivalents action_input mapper =
     (case load_keystrokes target_os mapper use_key_equivalents (split_whitespace keystrokes) of
        Inl e \<Rightarrow> Inl e
      | Inr ks \<Rightarrow> Inr \<lparr>kb_action = act, kb_keystrokes = ks, kb_predicate = context_predicate,
          kb_meta = None, kb_action_input = action_input\<rparr>)"

text \<open>\<open>KeyBinding::new\<close> panics on a parse error.\<close>

definition binding_new :: "string \<Rightarrow> string \<Rightarrow> 'a action \<Rightarrow> string option \<Rightarrow> 'a key_binding option" where
  "binding_new target_os keystrokes act ctx =
     (case (case ctx of None \<Rightarrow> Inr None
            | Some source \<Rightarrow> (case parse source of Inl e \<Rightarrow> Inl e | Inr p \<Rightarrow> Inr (Some p))) of
        Inl _ \<Rightarrow> None
      | Inr context_predicate \<Rightarrow>
          (case binding_load target_os keystrokes act context_predicate False None
                  (\<lambda>keystroke _. from_keystroke target_os keystroke) of
             Inl _ \<Rightarrow> None
           | Inr binding \<Rightarrow> Some binding))"

definition set_meta :: "'a key_binding \<Rightarrow> 32 word \<Rightarrow> 'a key_binding" where
  "set_meta binding meta = binding\<lparr>kb_meta := Some meta\<rparr>"

text \<open>\<open>Some pending\<close> when the typed keystrokes match a prefix of the binding's.\<close>

definition match_keystrokes :: "string \<Rightarrow> 'a key_binding \<Rightarrow> keystroke list \<Rightarrow> bool option" where
  "match_keystrokes target_os binding typed =
     (if length (kb_keystrokes binding) < length typed then None
      else if list_ex (\<lambda>(target, typed). \<not> should_match target_os typed target) (zip (kb_keystrokes binding) typed)
      then None
      else Some (length (kb_keystrokes binding) > length typed))"

section \<open>The keymap\<close>

record 'a keymap =
  km_bindings :: "'a key_binding list"
  km_by_action :: "type_id \<rightharpoonup> nat list"
  km_disabled :: "nat list"
  km_version :: nat

definition keymap_default :: "'a keymap" where
  "keymap_default = \<lparr>km_bindings = [], km_by_action = Map.empty, km_disabled = [], km_version = 0\<rparr>"

definition disabled_binding_matches_context :: "'a key_binding \<Rightarrow> 'a key_binding \<Rightarrow> bool" where
  "disabled_binding_matches_context disabled_binding binding =
     (case (kb_predicate disabled_binding, kb_predicate binding) of
        (None, _) \<Rightarrow> True
      | (Some _, None) \<Rightarrow> False
      | (Some disabled_predicate, Some predicate) \<Rightarrow> is_superset disabled_predicate predicate)"

definition binding_is_unbound :: "('a, 'z) action_ops_scheme \<Rightarrow> 'a key_binding \<Rightarrow> 'a key_binding \<Rightarrow> bool" where
  "binding_is_unbound ops disabled_binding binding =
     (kb_keystrokes disabled_binding = kb_keystrokes binding \<and>
      (case kb_action disabled_binding of Unbind name \<Rightarrow> name = action_name ops (kb_action binding) | _ \<Rightarrow> False))"

definition add_binding :: "('a, 'z) action_ops_scheme \<Rightarrow> 'a keymap \<Rightarrow> 'a key_binding \<Rightarrow> 'a keymap" where
  "add_binding ops km binding =
     (let action_id = action_type_id ops (kb_action binding);
          km1 = (if is_no_action (kb_action binding) \<or> is_unbind (kb_action binding)
                 then km\<lparr>km_disabled := km_disabled km @ [length (km_bindings km)]\<rparr>
                 else km\<lparr>km_by_action := (km_by_action km)(action_id \<mapsto>
                        (case km_by_action km action_id of Some ixs \<Rightarrow> ixs | None \<Rightarrow> []) @ [length (km_bindings km)])\<rparr>)
      in km1\<lparr>km_bindings := km_bindings km1 @ [binding]\<rparr>)"

definition add_bindings :: "('a, 'z) action_ops_scheme \<Rightarrow> 'a keymap \<Rightarrow> 'a key_binding list \<Rightarrow> 'a keymap" where
  "add_bindings ops km bindings =
     (let km1 = foldl (add_binding ops) km bindings in km1\<lparr>km_version := km_version km1 + 1\<rparr>)"

definition keymap_new :: "('a, 'z) action_ops_scheme \<Rightarrow> 'a key_binding list \<Rightarrow> 'a keymap" where
  "keymap_new ops bindings = add_bindings ops keymap_default bindings"

definition keymap_clear :: "'a keymap \<Rightarrow> 'a keymap" where
  "keymap_clear km = km\<lparr>km_bindings := [], km_by_action := Map.empty, km_disabled := [],
     km_version := km_version km + 1\<rparr>"

text \<open>The loop over the disabling bindings: whether one of them, added later, hides the binding.\<close>

fun hidden_by :: "('a, 'z) action_ops_scheme \<Rightarrow> 'a keymap \<Rightarrow> nat \<Rightarrow> 'a key_binding \<Rightarrow> nat list \<Rightarrow> bool option" where
  "hidden_by ops km ix binding [] = Some False"
| "hidden_by ops km ix binding (disabled_ix # rest) =
     (if disabled_ix > ix then
        do {
          disabled_binding \<leftarrow> get_index (km_bindings km) disabled_ix;
          if kb_keystrokes disabled_binding \<noteq> kb_keystrokes binding then hidden_by ops km ix binding rest
          else if is_no_action (kb_action disabled_binding) then
            (if disabled_binding_matches_context disabled_binding binding then Some True
             else hidden_by ops km ix binding rest)
          else if is_unbind (kb_action disabled_binding) \<and>
                  disabled_binding_matches_context disabled_binding binding \<and>
                  binding_is_unbound ops disabled_binding binding then Some True
          else hidden_by ops km ix binding rest
        }
      else hidden_by ops km ix binding rest)"

fun filter_by_action :: "('a, 'z) action_ops_scheme \<Rightarrow> 'a keymap \<Rightarrow> 'a action \<Rightarrow> nat list \<Rightarrow> 'a key_binding list option" where
  "filter_by_action ops km act [] = Some []"
| "filter_by_action ops km act (ix # ixs) =
     do {
       binding \<leftarrow> get_index (km_bindings km) ix;
       hidden \<leftarrow> (if \<not> action_eq ops (kb_action binding) act then Some True
                 else hidden_by ops km ix binding (km_disabled km));
       rest \<leftarrow> filter_by_action ops km act ixs;
       Some (if hidden then rest else binding # rest)
     }"

definition bindings_for_action :: "('a, 'z) action_ops_scheme \<Rightarrow> 'a keymap \<Rightarrow> 'a action \<Rightarrow> 'a key_binding list option" where
  "bindings_for_action ops km act =
     filter_by_action ops km act
       (case km_by_action km (action_type_id ops act) of Some ixs \<Rightarrow> ixs | None \<Rightarrow> [])"

definition all_bindings_for_input :: "string \<Rightarrow> 'a keymap \<Rightarrow> keystroke list \<Rightarrow> 'a key_binding list" where
  "all_bindings_for_input target_os km input =
     filter (\<lambda>binding. match_keystrokes target_os binding input = Some False) (rev (km_bindings km))"

definition binding_enabled :: "'a key_binding \<Rightarrow> key_context list \<Rightarrow> nat option" where
  "binding_enabled binding contexts =
     (case kb_predicate binding of Some predicate \<Rightarrow> depth_of predicate contexts | None \<Rightarrow> Some (length contexts))"

type_synonym 'a ranked = "nat \<times> nat \<times> 'a key_binding"

definition precedence_cmp :: "'a ranked \<Rightarrow> 'a ranked \<Rightarrow> ordering" where
  "precedence_cmp a b =
     (case ord_cmp (fst b) (fst a) of
        Equal \<Rightarrow> ord_cmp (fst (snd b)) (fst (snd a))
      | cmp \<Rightarrow> cmp)"

fun collect_matches :: "string \<Rightarrow> keystroke list \<Rightarrow> key_context list \<Rightarrow> (nat \<times> 'a key_binding) list \<Rightarrow>
    'a ranked list \<Rightarrow> (nat \<times> 'a key_binding) list \<Rightarrow> 'a ranked list \<times> (nat \<times> 'a key_binding) list" where
  "collect_matches target_os input context_stack [] matched pendings = (matched, pendings)"
| "collect_matches target_os input context_stack ((ix, binding) # rest) matched pendings =
     (case binding_enabled binding context_stack of
        None \<Rightarrow> collect_matches target_os input context_stack rest matched pendings
      | Some depth \<Rightarrow>
          (case match_keystrokes target_os binding input of
             None \<Rightarrow> collect_matches target_os input context_stack rest matched pendings
           | Some pending \<Rightarrow>
               if \<not> pending
               then collect_matches target_os input context_stack rest (matched @ [(depth, ix, binding)]) pendings
               else collect_matches target_os input context_stack rest matched (pendings @ [(ix, binding)])))"

text \<open>The loop over the sorted matches: bindings, index of the first, and the unbind markers met.\<close>

fun select_bindings :: "('a, 'z) action_ops_scheme \<Rightarrow> 'a ranked list \<Rightarrow> 'a key_binding list \<Rightarrow> nat option \<Rightarrow>
    'a key_binding list \<Rightarrow> 'a key_binding list \<times> nat option" where
  "select_bindings ops [] bindings first_binding_index unbound_bindings = (bindings, first_binding_index)"
| "select_bindings ops ((_, ix, binding) # rest) bindings first_binding_index unbound_bindings =
     (if is_no_action (kb_action binding) then
        (case kb_meta binding of
           Some meta \<Rightarrow>
             if meta = 0 then (bindings, first_binding_index)
             else select_bindings ops rest bindings first_binding_index unbound_bindings
         | None \<Rightarrow> (bindings, first_binding_index))
      else if is_unbind (kb_action binding) then
        select_bindings ops rest bindings first_binding_index (unbound_bindings @ [binding])
      else if list_ex (\<lambda>disabled_binding. binding_is_unbound ops disabled_binding binding) unbound_bindings then
        select_bindings ops rest bindings first_binding_index unbound_bindings
      else select_bindings ops rest (bindings @ [binding])
        (case first_binding_index of Some i \<Rightarrow> Some i | None \<Rightarrow> Some ix) unbound_bindings)"

text \<open>The loop over the pending bindings, a set of keystroke sequences.\<close>

fun pending_step :: "nat option \<Rightarrow> nat \<times> 'a key_binding \<Rightarrow> keybinding_keystroke list set \<Rightarrow>
    keybinding_keystroke list set" where
  "pending_step first_binding_index (ix, binding) pending =
     (if (case first_binding_index of Some binding_ix \<Rightarrow> binding_ix > ix | None \<Rightarrow> False) then pending
      else if is_no_action (kb_action binding) \<or> is_unbind (kb_action binding) then pending - {kb_keystrokes binding}
      else insert (kb_keystrokes binding) pending)"

definition bindings_for_input :: "('a, 'z) action_ops_scheme \<Rightarrow> string \<Rightarrow> 'a keymap \<Rightarrow> keystroke list \<Rightarrow>
    key_context list \<Rightarrow> 'a key_binding list \<times> bool" where
  "bindings_for_input ops target_os km input context_stack =
     (let (matched_bindings, pending_bindings) =
            collect_matches target_os input context_stack (rev (enumerate 0 (km_bindings km))) [] [];
          (bindings, first_binding_index) =
            select_bindings ops (sort_by precedence_cmp matched_bindings) [] None [];
          pending = fold (pending_step first_binding_index) (rev pending_bindings) {}
      in (bindings, pending \<noteq> {}))"

definition possible_next_bindings_for_input :: "string \<Rightarrow> 'a keymap \<Rightarrow> keystroke list \<Rightarrow> key_context list \<Rightarrow>
    'a key_binding list" where
  "possible_next_bindings_for_input target_os km input context_stack =
     map (\<lambda>(_, _, binding). binding)
       (sort_by precedence_cmp
         (List.map_filter (\<lambda>(ix, binding).
             (case binding_enabled binding context_stack of
                None \<Rightarrow> None
              | Some depth \<Rightarrow>
                  (case match_keystrokes target_os binding input of
                     None \<Rightarrow> None
                   | Some is_pending \<Rightarrow>
                       if \<not> is_pending \<or> is_no_action (kb_action binding) \<or> is_unbind (kb_action binding)
                       then None else Some (depth, ix, binding))))
           (rev (enumerate 0 (km_bindings km)))))"

end
