(* ===== verification/Keymap_Correct.thy ===== *)
theory Keymap_Correct
  imports Keymap
begin

text \<open>
  What the keymap guarantees: the indices beside the bindings agree with them, a lookup by action
  returns the bindings that no later marker hides, and a lookup by input returns the visible
  matches in order of precedence.
\<close>

section \<open>Matching\<close>

lemma match_keystrokes_Some:
  "match_keystrokes os b typed = Some pending \<longleftrightarrow>
     length typed \<le> length (kb_keystrokes b) \<and> pending = (length typed < length (kb_keystrokes b)) \<and>
     (\<forall>i<length typed. should_match os (typed ! i) (kb_keystrokes b ! i))"
  by (auto simp: match_keystrokes_def list_ex_iff set_zip not_le)

section \<open>The indices\<close>

definition disabling :: "'a key_binding \<Rightarrow> bool" where
  "disabling b \<longleftrightarrow> is_no_action (kb_action b) \<or> is_unbind (kb_action b)"

definition indices_where :: "('a key_binding \<Rightarrow> bool) \<Rightarrow> 'a key_binding list \<Rightarrow> nat list" where
  "indices_where P bs = filter (\<lambda>i. P (bs ! i)) [0..<length bs]"

definition keymap_ok :: "('a, 'z) action_ops_scheme \<Rightarrow> 'a keymap \<Rightarrow> bool" where
  "keymap_ok ops km \<longleftrightarrow>
     km_disabled km = indices_where disabling (km_bindings km) \<and>
     (\<forall>t. (case km_by_action km t of Some ixs \<Rightarrow> ixs | None \<Rightarrow> []) =
       indices_where (\<lambda>b. \<not> disabling b \<and> action_type_id ops (kb_action b) = t) (km_bindings km))"

lemma indices_where_snoc:
  "indices_where P (bs @ [b]) = indices_where P bs @ (if P b then [length bs] else [])"
proof -
  have "filter (\<lambda>i. P ((bs @ [b]) ! i)) [0..<length bs] = filter (\<lambda>i. P (bs ! i)) [0..<length bs]"
    by (rule filter_cong) (auto simp: nth_append)
  then show ?thesis by (simp add: indices_where_def)
qed

lemma indices_where_Nil [simp]: "indices_where P [] = []"
  by (simp add: indices_where_def)

lemma keymap_default_ok: "keymap_ok ops keymap_default"
  by (simp add: keymap_ok_def keymap_default_def)

lemma keymap_clear_ok: "keymap_ok ops (keymap_clear km)"
  by (simp add: keymap_ok_def keymap_clear_def)

lemma add_binding_ok: "keymap_ok ops km \<Longrightarrow> keymap_ok ops (add_binding ops km b)"
  by (auto simp: keymap_ok_def add_binding_def Let_def indices_where_snoc disabling_def)

lemma add_binding_bindings: "km_bindings (add_binding ops km b) = km_bindings km @ [b]"
  by (simp add: add_binding_def Let_def)

lemma add_binding_version: "km_version (add_binding ops km b) = km_version km"
  by (simp add: add_binding_def Let_def)

lemma add_bindings_fold:
  "keymap_ok ops km \<Longrightarrow> keymap_ok ops (foldl (add_binding ops) km bs) \<and>
     km_bindings (foldl (add_binding ops) km bs) = km_bindings km @ bs \<and>
     km_version (foldl (add_binding ops) km bs) = km_version km"
  by (induction bs arbitrary: km) (simp_all add: add_binding_ok add_binding_bindings add_binding_version)

lemma add_bindings_ok:
  assumes "keymap_ok ops km"
  shows "keymap_ok ops (add_bindings ops km bs)" and "km_bindings (add_bindings ops km bs) = km_bindings km @ bs"
    and "km_version (add_bindings ops km bs) = Suc (km_version km)"
  using add_bindings_fold [OF assms, of bs] by (simp_all add: add_bindings_def Let_def keymap_ok_def)

section \<open>Lookup by action\<close>

text \<open>A marker that hides a binding wherever that binding applies.\<close>

definition hides :: "('a, 'z) action_ops_scheme \<Rightarrow> 'a key_binding \<Rightarrow> 'a key_binding \<Rightarrow> bool" where
  "hides ops d b \<longleftrightarrow> kb_keystrokes d = kb_keystrokes b \<and> disabled_binding_matches_context d b \<and>
     (is_no_action (kb_action d) \<or> binding_is_unbound ops d b)"

lemma hides_disabling: "hides ops d b \<Longrightarrow> disabling d"
  by (auto simp: hides_def disabling_def binding_is_unbound_def is_unbind_def split: action.splits)

lemma hidden_by_Some:
  "\<forall>j\<in>set js. j < length (km_bindings km) \<Longrightarrow>
   hidden_by ops km ix b js = Some (\<exists>j\<in>set js. ix < j \<and> hides ops (km_bindings km ! j) b)"
proof (induction js)
  case (Cons j js)
  then have j: "get_index (km_bindings km) j = Some (km_bindings km ! j)" by (simp add: get_index_def)
  have unbind: "is_unbind (kb_action d) \<and> disabled_binding_matches_context d b \<and> binding_is_unbound ops d b \<longleftrightarrow>
      disabled_binding_matches_context d b \<and> binding_is_unbound ops d b" for d
    by (auto simp: binding_is_unbound_def is_unbind_def split: action.splits)
  show ?case using Cons by (auto simp: j hides_def unbind)
qed simp

lemma filter_by_action_Some:
  assumes "\<forall>j\<in>set (km_disabled km). j < length (km_bindings km)" and "\<forall>i\<in>set ixs. i < length (km_bindings km)"
  shows "filter_by_action ops km act ixs =
    Some (map ((!) (km_bindings km)) (filter (\<lambda>i. action_eq ops (kb_action (km_bindings km ! i)) act \<and>
      \<not> (\<exists>j\<in>set (km_disabled km). i < j \<and> hides ops (km_bindings km ! j) (km_bindings km ! i))) ixs))"
  using assms(2)
  by (induction ixs) (auto simp: get_index_def hidden_by_Some [OF assms(1)])

lemma bindings_for_action_ok:
  assumes "keymap_ok ops km"
  shows "bindings_for_action ops km act = Some (map ((!) (km_bindings km)) (filter (\<lambda>i.
      let b = km_bindings km ! i in
      \<not> disabling b \<and> action_type_id ops (kb_action b) = action_type_id ops act \<and> action_eq ops (kb_action b) act \<and>
      \<not> (\<exists>j<length (km_bindings km). i < j \<and> hides ops (km_bindings km ! j) b)) [0..<length (km_bindings km)]))"
proof -
  let ?bs = "km_bindings km"
  have disabled: "set (km_disabled km) = {j. j < length ?bs \<and> disabling (?bs ! j)}"
    using assms by (auto simp: keymap_ok_def indices_where_def)
  have ixs: "(case km_by_action km (action_type_id ops act) of Some ixs \<Rightarrow> ixs | None \<Rightarrow> []) =
      indices_where (\<lambda>b. \<not> disabling b \<and> action_type_id ops (kb_action b) = action_type_id ops act) ?bs"
    using assms by (simp add: keymap_ok_def)
  have "filter_by_action ops km act (indices_where (\<lambda>b. \<not> disabling b \<and> action_type_id ops (kb_action b) = action_type_id ops act) ?bs) =
    Some (map ((!) ?bs) (filter (\<lambda>i. action_eq ops (kb_action (?bs ! i)) act \<and>
      \<not> (\<exists>j\<in>set (km_disabled km). i < j \<and> hides ops (?bs ! j) (?bs ! i)))
      (indices_where (\<lambda>b. \<not> disabling b \<and> action_type_id ops (kb_action b) = action_type_id ops act) ?bs)))"
    by (rule filter_by_action_Some) (auto simp: disabled indices_where_def)
  also have "filter (\<lambda>i. action_eq ops (kb_action (?bs ! i)) act \<and>
      \<not> (\<exists>j\<in>set (km_disabled km). i < j \<and> hides ops (?bs ! j) (?bs ! i)))
      (indices_where (\<lambda>b. \<not> disabling b \<and> action_type_id ops (kb_action b) = action_type_id ops act) ?bs) =
    filter (\<lambda>i. let b = ?bs ! i in
      \<not> disabling b \<and> action_type_id ops (kb_action b) = action_type_id ops act \<and> action_eq ops (kb_action b) act \<and>
      \<not> (\<exists>j<length ?bs. i < j \<and> hides ops (?bs ! j) b)) [0..<length ?bs]"
    unfolding indices_where_def filter_filter disabled
    by (rule filter_cong) (auto simp: Let_def dest: hides_disabling)
  finally show ?thesis by (simp add: bindings_for_action_def ixs)
qed

section \<open>Lookup by input: the matches\<close>

text \<open>The bindings, latest first, that apply in the context and match the whole input, or a longer one.\<close>

definition ranked_where :: "(bool \<Rightarrow> bool) \<Rightarrow> string \<Rightarrow> keystroke list \<Rightarrow> key_context list \<Rightarrow>
    nat \<times> 'a key_binding \<Rightarrow> 'a ranked option" where
  "ranked_where P os input ctxs = (\<lambda>(ix, b). case (binding_enabled b ctxs, match_keystrokes os b input) of
     (Some depth, Some pending) \<Rightarrow> if P pending then Some (depth, ix, b) else None | _ \<Rightarrow> None)"

lemma collect_matches_eq:
  "collect_matches os input ctxs l ms ps =
     (ms @ List.map_filter (ranked_where Not os input ctxs) l,
      ps @ map snd (List.map_filter (ranked_where id os input ctxs) l))"
  by (induction l arbitrary: ms ps)
    (simp_all add: ranked_where_def List.map_filter_simps split: option.split prod.split)

lemma ranked_where_Some:
  "ranked_where P os input ctxs (ix, b) = Some r \<longleftrightarrow> (\<exists>depth pending. r = (depth, ix, b) \<and>
     binding_enabled b ctxs = Some depth \<and> match_keystrokes os b input = Some pending \<and> P pending)"
  by (auto simp: ranked_where_def split: option.splits)

definition matches :: "(bool \<Rightarrow> bool) \<Rightarrow> string \<Rightarrow> 'a keymap \<Rightarrow> keystroke list \<Rightarrow> key_context list \<Rightarrow> 'a ranked set" where
  "matches P os km input ctxs = {(depth, ix, b) | depth ix b. ix < length (km_bindings km) \<and> b = km_bindings km ! ix \<and>
     binding_enabled b ctxs = Some depth \<and> (\<exists>pending. match_keystrokes os b input = Some pending \<and> P pending)}"

lemma set_map_filter: "set (List.map_filter f xs) = {y. \<exists>x\<in>set xs. f x = Some y}"
  by (induction xs) (auto simp: List.map_filter_def split: option.splits)

lemma set_ranked:
  "set (List.map_filter (ranked_where P os input ctxs) (rev (enumerate 0 (km_bindings km)))) = matches P os km input ctxs"
proof -
  have mem: "(ix, b) \<in> set (enumerate 0 (km_bindings km)) \<longleftrightarrow> ix < length (km_bindings km) \<and> b = km_bindings km ! ix" for ix b
    by (auto simp: in_set_enumerate_eq)
  show ?thesis
    unfolding set_map_filter set_rev matches_def Bex_def split_paired_Ex mem ranked_where_Some by blast
qed

lemma map_filter_ix: "sorted_wrt (\<lambda>x y. fst x > fst y) l \<Longrightarrow>
    sorted_wrt (\<lambda>x y. fst (snd x) > fst (snd y)) (List.map_filter (ranked_where P os input ctxs) l)"
proof (induction l)
  case (Cons x l)
  have "\<forall>y\<in>set (List.map_filter (ranked_where P os input ctxs) l). fst (snd y) < fst x"
    using Cons.prems by (auto simp: set_map_filter ranked_where_Some)
  moreover have "fst (snd r) = fst x" if "ranked_where P os input ctxs x = Some r" for r
    using that by (cases x) (auto simp: ranked_where_Some)
  ultimately show ?case
    using Cons by (cases "ranked_where P os input ctxs x") (simp_all add: List.map_filter_simps)
qed (simp add: List.map_filter_simps)

lemma enumerate_desc: "sorted_wrt (\<lambda>x y. fst x > fst y) (rev (enumerate 0 bs))"
  by (induction bs rule: rev_induct) (auto simp: enumerate_append_eq in_set_enumerate_eq)

text \<open>The order of precedence: deeper in the tree first, then later in the keymap.\<close>

definition precedes :: "'a ranked \<Rightarrow> 'a ranked \<Rightarrow> bool" where
  "precedes a b \<longleftrightarrow> fst b < fst a \<or> fst b = fst a \<and> fst (snd b) < fst (snd a)"

lemma sort_by_precedence:
  assumes "sorted_wrt (\<lambda>x y. fst (snd x) > fst (snd y)) l"
  shows "sorted_wrt precedes (sort_by precedence_cmp l)"
proof (rule sort_by_sorted)
  show "distinct l" by (rule sorted_wrt_distinct [OF assms]) simp
  have ix: "fst (snd x) \<noteq> fst (snd y)" if "x \<in> set l" "y \<in> set l" "x \<noteq> y" for x y
    using assms that by (induction l) auto
  show "precedence_cmp x y = Greater \<longleftrightarrow> precedes y x" for x y :: "'a ranked"
    by (auto simp: precedence_cmp_def precedes_def split: ordering.splits)
  show "precedes x y \<or> precedes y x" if "x \<in> set l" "y \<in> set l" "x \<noteq> y" for x y
    using ix [OF that] by (auto simp: precedes_def)
qed (auto simp: precedes_def)

lemma sorted_matches:
  "sorted_wrt precedes (sort_by precedence_cmp (List.map_filter (ranked_where P os input ctxs) (rev (enumerate 0 bs))))"
  by (rule sort_by_precedence [OF map_filter_ix [OF enumerate_desc]])

section \<open>Lookup by input: what is visible\<close>

text \<open>A user's \<open>NoAction\<close>, or one of unknown origin, ends the search.\<close>

definition user_no_action :: "'a key_binding \<Rightarrow> bool" where
  "user_no_action b \<longleftrightarrow> is_no_action (kb_action b) \<and> (case kb_meta b of None \<Rightarrow> True | Some meta \<Rightarrow> meta = 0)"

definition bound :: "'a ranked \<Rightarrow> 'a key_binding" where
  "bound r = snd (snd r)"

definition visible :: "('a, 'z) action_ops_scheme \<Rightarrow> 'a ranked set \<Rightarrow> 'a ranked \<Rightarrow> bool" where
  "visible ops M r \<longleftrightarrow> \<not> disabling (bound r) \<and>
     (\<forall>x\<in>M. precedes x r \<longrightarrow> \<not> user_no_action (bound x) \<and> \<not> binding_is_unbound ops (bound x) (bound r))"

lemma precedes_asym: "precedes x y \<Longrightarrow> \<not> precedes y x"
  by (auto simp: precedes_def)

lemma precedes_irrefl: "\<not> precedes x x"
  by (simp add: precedes_def)

lemma unbound_is_unbind: "binding_is_unbound ops d b \<Longrightarrow> is_unbind (kb_action d)"
  by (auto simp: binding_is_unbound_def is_unbind_def split: action.splits)

lemma no_action_not_unbind: "is_no_action act \<Longrightarrow> \<not> is_unbind act"
  by (auto simp: is_no_action_def is_unbind_def split: action.splits)

text \<open>What precedes an element of an ordered list is what stands before it.\<close>

lemma visible_split:
  assumes "sorted_wrt precedes (pre @ r # suf)"
  shows "visible ops (set (pre @ r # suf)) r \<longleftrightarrow> \<not> disabling (bound r) \<and>
    (\<forall>x\<in>set pre. \<not> user_no_action (bound x) \<and> \<not> binding_is_unbound ops (bound x) (bound r))"
proof -
  have "precedes x r \<longleftrightarrow> x \<in> set pre" if "x \<in> set (pre @ r # suf)" for x
    using assms that by (auto simp: sorted_wrt_append precedes_irrefl dest: precedes_asym)
  then show ?thesis by (auto simp: visible_def)
qed

lemma not_visible_after:
  assumes "sorted_wrt precedes (pre @ r # suf)" and "user_no_action (bound r)" and "y \<in> set (r # suf)"
  shows "\<not> visible ops (set (pre @ r # suf)) y"
  using assms by (auto simp: visible_def sorted_wrt_append user_no_action_def disabling_def)

lemma select_bindings_eq:
  assumes "sorted_wrt precedes (pre @ ms)" and "\<forall>x\<in>set pre. \<not> user_no_action (bound x)"
  shows "select_bindings ops ms acc first (map bound (filter (\<lambda>r. is_unbind (kb_action (bound r))) pre)) =
    (let vs = filter (visible ops (set (pre @ ms))) ms
     in (acc @ map bound vs,
         case first of Some i \<Rightarrow> Some i | None \<Rightarrow> (case vs of [] \<Rightarrow> None | v # _ \<Rightarrow> Some (fst (snd v)))))"
  using assms
proof (induction ms arbitrary: pre acc first)
  case Nil
  then show ?case by (simp split: option.split)
next
  case (Cons r ms)
  obtain d ix b where r: "r = (d, ix, b)" by (cases r)
  have b: "bound r = b" by (simp add: r bound_def)
  let ?unb = "\<lambda>pre. map bound (filter (\<lambda>r. is_unbind (kb_action (bound r))) pre)"
  let ?V = "visible ops (set (pre @ r # ms))"
  have snoc: "sorted_wrt precedes ((pre @ [r]) @ ms)" using Cons.prems(1) by simp
  have unbound: "list_ex (\<lambda>d. binding_is_unbound ops d b) (?unb pre) \<longleftrightarrow> (\<exists>x\<in>set pre. binding_is_unbound ops (bound x) b)"
    by (auto simp: list_ex_iff dest: unbound_is_unbind)
  have head: "?V r \<longleftrightarrow> \<not> disabling b \<and> \<not> list_ex (\<lambda>d. binding_is_unbound ops d b) (?unb pre)"
    using visible_split [OF Cons.prems(1), of ops] Cons.prems(2) unfolding unbound b by blast
  show ?case
  proof (cases "user_no_action b")
    case True
    then have "\<not> ?V y" if "y \<in> set (r # ms)" for y
      using not_visible_after [OF Cons.prems(1) _ that] b by simp
    then have "filter ?V (r # ms) = []" by (simp add: filter_empty_conv)
    moreover have "select_bindings ops (r # ms) acc first (?unb pre) = (acc, first)"
      using True by (auto simp: r user_no_action_def split: option.splits)
    ultimately show ?thesis by (simp add: Let_def split: option.split)
  next
    case False
    then have "\<forall>x\<in>set (pre @ [r]). \<not> user_no_action (bound x)" using Cons.prems(2) b by auto
    note IH = Cons.IH [OF snoc this]
    have same: "set ((pre @ [r]) @ ms) = set (pre @ r # ms)" by simp
    consider (no_action) "is_no_action (kb_action b)" | (unbind) "is_unbind (kb_action b)"
      | (hidden) "\<not> disabling b" "list_ex (\<lambda>d. binding_is_unbound ops d b) (?unb pre)"
      | (real) "\<not> disabling b" "\<not> list_ex (\<lambda>d. binding_is_unbound ops d b) (?unb pre)"
      by (auto simp: disabling_def)
    then show ?thesis
    proof cases
      case no_action
      then have "\<not> ?V r" "\<not> is_unbind (kb_action b)" unfolding head by (simp_all add: disabling_def no_action_not_unbind)
      moreover have "select_bindings ops (r # ms) acc first (?unb pre) = select_bindings ops ms acc first (?unb pre)"
        using no_action False by (auto simp: r user_no_action_def split: option.splits)
      ultimately show ?thesis using IH [of acc first] unfolding same by (simp add: b)
    next
      case unbind
      then have "\<not> ?V r" unfolding head by (simp add: disabling_def)
      moreover from unbind have "\<not> is_no_action (kb_action b)" by (auto dest: no_action_not_unbind)
      ultimately have "select_bindings ops (r # ms) acc first (?unb pre) = select_bindings ops ms acc first (?unb pre @ [b])"
        using unbind by (simp add: r)
      then show ?thesis using IH [of acc first] unbind \<open>\<not> ?V r\<close> unfolding same by (simp add: b)
    next
      case hidden
      then have "\<not> ?V r" unfolding head by blast
      moreover have "select_bindings ops (r # ms) acc first (?unb pre) = select_bindings ops ms acc first (?unb pre)"
        using hidden by (simp add: r disabling_def)
      ultimately show ?thesis using IH [of acc first] hidden(1) unfolding same by (simp add: b disabling_def)
    next
      case real
      then have "?V r" unfolding head by blast
      moreover have step: "select_bindings ops (r # ms) acc first (?unb pre) =
          select_bindings ops ms (acc @ [b]) (case first of Some i \<Rightarrow> Some i | None \<Rightarrow> Some ix) (?unb pre)"
        using real by (simp add: r disabling_def)
      moreover have "?unb (pre @ [r]) = ?unb pre" using real(1) by (simp add: b disabling_def)
      moreover have "fst (snd r) = ix" by (simp add: r)
      ultimately show ?thesis
        unfolding step using IH [of "acc @ [b]" "case first of Some i \<Rightarrow> Some i | None \<Rightarrow> Some ix"] unfolding same
        by (cases first) (simp_all add: b Let_def)
    qed
  qed
qed

text \<open>
  The flag: some longer binding, not before the first binding found, is not disabled by a later
  marker for the same keystrokes.
\<close>

definition from_first :: "nat option \<Rightarrow> nat \<Rightarrow> bool" where
  "from_first first ix \<longleftrightarrow> (case first of None \<Rightarrow> True | Some i \<Rightarrow> i \<le> ix)"

definition erased :: "(nat \<times> 'a key_binding) set \<Rightarrow> nat \<Rightarrow> keybinding_keystroke list \<Rightarrow> bool" where
  "erased Q ix ks \<longleftrightarrow> (\<exists>(jx, d)\<in>Q. ix < jx \<and> disabling d \<and> kb_keystrokes d = ks)"

definition keeps :: "nat option \<Rightarrow> (nat \<times> 'a key_binding) set \<Rightarrow> keybinding_keystroke list \<Rightarrow> bool" where
  "keeps first Q ks \<longleftrightarrow> (\<exists>(ix, b)\<in>Q. from_first first ix \<and> \<not> disabling b \<and> kb_keystrokes b = ks \<and> \<not> erased Q ix ks)"

lemma pending_fold:
  assumes "sorted_wrt (\<lambda>x y. fst x < fst y) ps"
  shows "ks \<in> fold (pending_step first) ps S \<longleftrightarrow> keeps first (set ps) ks \<or>
    ks \<in> S \<and> \<not> (\<exists>(jx, d)\<in>set ps. from_first first jx \<and> disabling d \<and> kb_keystrokes d = ks)"
  using assms
proof (induction ps arbitrary: S)
  case Nil
  then show ?case by (simp add: keeps_def)
next
  case (Cons p ps)
  obtain ix b where p: "p = (ix, b)" by (cases p)
  have later: "ix < fst q" if "q \<in> set ps" for q using Cons.prems that by (auto simp: p)
  have IH: "ks \<in> fold (pending_step first) ps S' \<longleftrightarrow> keeps first (set ps) ks \<or>
    ks \<in> S' \<and> \<not> (\<exists>(jx, d)\<in>set ps. from_first first jx \<and> disabling d \<and> kb_keystrokes d = ks)" for S'
    using Cons by simp
  have step: "pending_step first p S =
    (if \<not> from_first first ix then S else if disabling b then S - {kb_keystrokes b} else insert (kb_keystrokes b) S)"
    by (auto simp: p disabling_def from_first_def split: option.splits)
  have order: "from_first first (fst q)" if "from_first first ix" "q \<in> set ps" for q
    using that later by (fastforce simp: from_first_def split: option.splits)
  have same: "erased (set (p # ps)) (fst q) ks = erased (set ps) (fst q) ks" if "q \<in> set ps" for q
    using later [OF that] by (auto simp: erased_def p)
  have head: "erased (set (p # ps)) ix ks \<longleftrightarrow> (\<exists>(jx, d)\<in>set ps. disabling d \<and> kb_keystrokes d = ks)"
    using later by (fastforce simp: erased_def p)
  have rest: "(\<exists>(ix, b)\<in>set ps. from_first first ix \<and> \<not> disabling b \<and> kb_keystrokes b = ks \<and> \<not> erased (set (p # ps)) ix ks) \<longleftrightarrow>
      keeps first (set ps) ks"
    unfolding keeps_def by (rule bex_cong [OF refl]) (use same in auto)
  have keeps: "keeps first (set (p # ps)) ks \<longleftrightarrow> keeps first (set ps) ks \<or>
      from_first first ix \<and> \<not> disabling b \<and> kb_keystrokes b = ks \<and> \<not> (\<exists>(jx, d)\<in>set ps. disabling d \<and> kb_keystrokes d = ks)"
    unfolding rest [symmetric] head [symmetric] keeps_def [of first "set (p # ps)"] by (auto simp: p)
  have fold: "fold (pending_step first) (p # ps) S = fold (pending_step first) ps (pending_step first p S)" by simp
  show ?case
  proof (cases "from_first first ix")
    case False
    then have "fold (pending_step first) (p # ps) S = fold (pending_step first) ps S" unfolding fold step by simp
    moreover from False have "keeps first (set (p # ps)) ks \<longleftrightarrow> keeps first (set ps) ks" unfolding keeps by simp
    ultimately show ?thesis using False IH [of S] by (simp del: fold_simps add: p)
  next
    case True
    then have later: "(\<exists>(jx, d)\<in>set ps. from_first first jx \<and> disabling d \<and> kb_keystrokes d = ks) \<longleftrightarrow>
      (\<exists>(jx, d)\<in>set ps. disabling d \<and> kb_keystrokes d = ks)" using order by fastforce
    have "ks \<in> fold (pending_step first) (p # ps) S \<longleftrightarrow> keeps first (set ps) ks \<or>
        ks \<in> (if disabling b then S - {kb_keystrokes b} else insert (kb_keystrokes b) S) \<and>
        \<not> (\<exists>(jx, d)\<in>set ps. disabling d \<and> kb_keystrokes d = ks)"
      unfolding fold step using True by (simp only: IH later not_True_eq_False if_False)
    moreover have "(\<exists>(jx, d)\<in>set (p # ps). from_first first jx \<and> disabling d \<and> kb_keystrokes d = ks) \<longleftrightarrow>
        disabling b \<and> kb_keystrokes b = ks \<or> (\<exists>(jx, d)\<in>set ps. disabling d \<and> kb_keystrokes d = ks)"
      using later True by (simp add: p)
    ultimately show ?thesis unfolding keeps using True by (cases "disabling b") auto
  qed
qed

section \<open>Lookup by input: the result\<close>

text \<open>The longer matches, with their indices.\<close>

definition longer :: "string \<Rightarrow> 'a keymap \<Rightarrow> keystroke list \<Rightarrow> key_context list \<Rightarrow> (nat \<times> 'a key_binding) set" where
  "longer os km input ctxs = snd ` matches id os km input ctxs"

lemma bindings_for_input_ok:
  obtains ms where "set ms = matches Not os km input ctxs" and "sorted_wrt precedes ms"
    and "bindings_for_input ops os km input ctxs =
      (let vs = filter (visible ops (set ms)) ms;
           first = (case vs of [] \<Rightarrow> None | v # _ \<Rightarrow> Some (fst (snd v)))
       in (map bound vs, \<exists>ks. keeps first (longer os km input ctxs) ks))"
proof -
  let ?l = "rev (enumerate 0 (km_bindings km))"
  define ms where "ms = sort_by precedence_cmp (List.map_filter (ranked_where Not os input ctxs) ?l)"
  define ps where "ps = rev (map snd (List.map_filter (ranked_where id os input ctxs) ?l))"
  define vs where "vs = filter (visible ops (set ms)) ms"
  define first where "first = (case vs of [] \<Rightarrow> None | v # _ \<Rightarrow> Some (fst (snd v)))"
  have sorted: "sorted_wrt precedes ms" unfolding ms_def by (rule sorted_matches)
  have "sorted_wrt (\<lambda>x y. fst (snd x) > fst (snd y)) (List.map_filter (ranked_where id os input ctxs) ?l)"
    by (rule map_filter_ix [OF enumerate_desc])
  then have "sorted_wrt (\<lambda>x y. fst x < fst y) ps"
    by (simp add: ps_def sorted_wrt_rev sorted_wrt_map)
  moreover have "set ps = longer os km input ctxs"
    unfolding ps_def longer_def by (simp only: set_rev set_map set_ranked)
  ultimately have flag: "(fold (pending_step first) ps {} \<noteq> {}) = (\<exists>ks. keeps first (longer os km input ctxs) ks)"
    using pending_fold [of ps _ first "{}"] by auto
  have "select_bindings ops ms [] None [] = (map bound vs, first)"
    using select_bindings_eq [of "[]" ms ops "[]" None] sorted by (simp add: Let_def vs_def first_def)
  then have "bindings_for_input ops os km input ctxs = (map bound vs, \<exists>ks. keeps first (longer os km input ctxs) ks)"
    using flag by (simp add: bindings_for_input_def collect_matches_eq ms_def [symmetric] ps_def rev_map)
  moreover have "set ms = matches Not os km input ctxs" unfolding ms_def by (simp only: set_sort_by set_ranked)
  ultimately show thesis using that [of ms] sorted by (simp add: Let_def vs_def first_def)
qed

lemma possible_next_ok:
  obtains ms where "set ms = {r \<in> matches id os km input ctxs. \<not> disabling (bound r)}" and "sorted_wrt precedes ms"
    and "possible_next_bindings_for_input os km input ctxs = map bound ms"
proof -
  let ?l = "rev (enumerate 0 (km_bindings km))"
  let ?r = "filter (\<lambda>r. \<not> disabling (bound r)) (List.map_filter (ranked_where id os input ctxs) ?l)"
  have same: "List.map_filter (\<lambda>(ix, binding).
        (case binding_enabled binding ctxs of
           None \<Rightarrow> None
         | Some depth \<Rightarrow>
             (case match_keystrokes os binding input of
                None \<Rightarrow> None
              | Some is_pending \<Rightarrow>
                  if \<not> is_pending \<or> is_no_action (kb_action binding) \<or> is_unbind (kb_action binding)
                  then None else Some (depth, ix, binding)))) l =
      filter (\<lambda>r. \<not> disabling (bound r)) (List.map_filter (ranked_where id os input ctxs) l)" for l
    by (induction l)
      (simp_all add: List.map_filter_simps ranked_where_def bound_def disabling_def split: option.split prod.split)
  have "sorted_wrt precedes (sort_by precedence_cmp ?r)"
    by (intro sort_by_precedence sorted_wrt_filter map_filter_ix enumerate_desc)
  moreover have "set (sort_by precedence_cmp ?r) = {r \<in> matches id os km input ctxs. \<not> disabling (bound r)}"
    unfolding set_sort_by set_filter set_ranked ..
  moreover have "possible_next_bindings_for_input os km input ctxs = map bound (sort_by precedence_cmp ?r)"
    unfolding possible_next_bindings_for_input_def same by (simp add: bound_def case_prod_beta)
  ultimately show thesis using that by blast
qed

end
