(* ===== verification/Keymap_Theorems.thy ===== *)
theory Keymap_Theorems
  imports Keymap_Correct
begin

text \<open>
  The properties of key contexts, predicates, keystrokes and the keymap, each with a witness on
  concrete contexts, predicates and bindings.
\<close>

section \<open>Contexts\<close>

definition sample_context :: key_context where
  "sample_context = [\<lparr>ce_key = ''Editor'', ce_value = None\<rparr>, \<lparr>ce_key = ''mode'', ce_value = Some ''full''\<rparr>]"

lemma sample_context_printable: "list_all printable_entry sample_context" "context_ok sample_context"
  by (simp_all add: sample_context_def printable_entry_def ident_chars_def is_identifier_char_def
      is_alphanumeric_def context_ok_def)

text \<open>
  Parsing what \<open>Debug\<close> prints of a key context gives the context back, entries, values and
  their order, provided its keys are distinct and its keys and values are identifiers.
\<close>

lemma context_roundtrip:
  assumes "list_all printable_entry ctx" and "context_ok ctx"
  shows "context_parse (context_debug ctx) = Some ctx"
  using context_parse_debug [OF assms(1), of "[]"] assms(2)
  by (simp add: context_parse_def context_debug_head [OF assms(1)] context_ok_def)

lemma context_roundtrip_witness: "context_parse (context_debug sample_context) = Some sample_context"
  by (rule context_roundtrip [OF sample_context_printable])

text \<open>
  Parsing a context does not return when the first character that is not blank is neither
  part of an identifier nor an equals sign: the recursion consumes nothing and calls itself on
  the same text.
\<close>

lemma context_parse_diverges:
  assumes "stuck (skip_whitespace source)"
  shows "context_parse source = None"
  unfolding context_parse_def by (rule context_parse_expr_stuck [OF assms])

lemma context_parse_diverges_witness: "context_parse '' !'' = None"
  by (rule context_parse_diverges)
    (simp add: skip_whitespace_def is_whitespace_def stuck_def is_identifier_char_def is_alphanumeric_def)

section \<open>Predicates\<close>

text \<open>
  The depth of a predicate is the length of the longest prefix of the context stack on which
  it holds, and there is none exactly when it holds on no prefix; it is never zero. For a child
  without negation, descent means that some proper prefix satisfies the parent and what lies
  below it satisfies the child.
\<close>

lemma depth_deepest:
  "(depth_of p ctxs = Some d \<longleftrightarrow> 0 < d \<and> d \<le> length ctxs \<and> eval_inner p (take d ctxs) ctxs \<and>
      (\<forall>d'. d < d' \<and> d' \<le> length ctxs \<longrightarrow> \<not> eval_inner p (take d' ctxs) ctxs)) \<and>
   (depth_of p ctxs = None \<longleftrightarrow> (\<forall>d\<le>length ctxs. \<not> eval_inner p (take d ctxs) ctxs)) \<and>
   (negation_free q \<longrightarrow> eval (Descendant p q) ctxs \<longleftrightarrow>
      (\<exists>i<length ctxs - 1. eval_inner p (take (Suc i) ctxs) ctxs \<and> eval q (drop (Suc i) ctxs)))"
  using depth_of_Some [of p ctxs d] depth_of_pos [of p ctxs d] depth_of_None [of p ctxs] eval_descendant [of q p ctxs]
  by blast

definition named :: "string \<Rightarrow> key_context" where
  "named name = [\<lparr>ce_key = name, ce_value = None\<rparr>]"

lemma depth_deepest_witness:
  "depth_of (Identifier ''Pane'') [named ''Pane'', named ''Editor''] = Some 1 \<and>
   eval (Descendant (Identifier ''Pane'') (Identifier ''Editor'')) [named ''Pane'', named ''Editor'']"
proof
  show "depth_of (Identifier ''Pane'') [named ''Pane'', named ''Editor''] = Some 1"
    using depth_deepest [of "Identifier ''Pane''" "[named ''Pane'', named ''Editor'']" 1]
    by (auto simp: named_def context_contains_def less_Suc_eq_le le_Suc_eq numeral_2_eq_2 split: if_splits)
  show "eval (Descendant (Identifier ''Pane'') (Identifier ''Editor'')) [named ''Pane'', named ''Editor'']"
    using depth_deepest [of "Identifier ''Pane''" "[named ''Pane'', named ''Editor'']" 1 "Identifier ''Editor''"]
    by (simp add: named_def context_contains_def eval_def)
qed

text \<open>
  C9. When the superset test answers yes for a predicate without negation, that predicate holds
  on every context stack on which the other one holds.
\<close>

theorem superset_sound:
  assumes "is_superset self other" and "negation_free self" and "eval other ctxs"
  shows "eval self ctxs"
  by (rule is_superset_sound [OF assms])

theorem superset_sound_witness:
  "eval (Identifier ''Editor'') [named ''Pane'', named ''Editor'']"
  by (rule superset_sound [of _ "Descendant (Identifier ''Pane'') (Identifier ''Editor'')"])
    (simp_all add: is_superset.simps eval_def named_def context_contains_def)

text \<open>With negation the test answers yes although the predicate fails on a stack of the other.\<close>

lemma superset_negation:
  "is_superset (Negated (Identifier ''X'')) (Descendant (Identifier ''X'') (Negated (Identifier ''X''))) \<and>
   eval (Descendant (Identifier ''X'') (Negated (Identifier ''X''))) [named ''X'', named ''Y''] \<and>
   \<not> eval (Negated (Identifier ''X'')) [named ''X'', named ''Y'']"
  by (simp add: is_superset.simps eval_def named_def context_contains_def)

text \<open>
  C10. Parsing what is printed of a predicate gives the predicate back, for every predicate whose
  names are identifiers, whose conjunctions and disjunctions nest to the left, and which has no
  descent below a conjunction, a disjunction or a descent on the right.
\<close>

theorem predicate_roundtrip:
  assumes "printable p"
  shows "parse (fmt_predicate p) = Inr p"
  by (rule parse_fmt [OF assms])

definition sample_predicate :: predicate where
  "sample_predicate = Descendant (Identifier ''Pane'')
     (Conj (Conj (Identifier ''Editor'') (Disj (Equal_To ''mode'' ''full'') (Identifier ''?'')))
       (Negated (Not_Equal ''os'' ''linux'')))"

theorem predicate_roundtrip_witness: "parse (fmt_predicate sample_predicate) = Inr sample_predicate"
  by (rule predicate_roundtrip)
    (simp add: sample_predicate_def name_ok_def is_identifier_char_def is_alphanumeric_def is_vim_operator_char_def)

text \<open>A descent inside a conjunction is printed without parentheses, and read back as another predicate.\<close>

lemma descent_in_conjunction:
  "fmt_predicate (Conj (Descendant (Identifier ''a'') (Identifier ''b'')) (Identifier ''c'')) = ''a > b && c'' \<and>
   parse ''a > b && c'' = Inr (Descendant (Identifier ''a'') (Conj (Identifier ''b'') (Identifier ''c'')))"
proof
  let ?p = "Descendant (Identifier ''a'') (Conj (Identifier ''b'') (Identifier ''c''))"
  show "fmt_predicate (Conj (Descendant (Identifier ''a'') (Identifier ''b'')) (Identifier ''c'')) = ''a > b && c''"
    by (simp add: fmt_conj joins_level node_string_def needs_parens_level fmt_simps)
  have "fmt_predicate ?p = ''a > b && c''"
    by (simp add: fmt_conj joins_level node_string_def needs_parens_level fmt_simps)
  moreover have "parse (fmt_predicate ?p) = Inr ?p"
    by (rule parse_fmt) (simp add: name_ok_def is_identifier_char_def is_alphanumeric_def)
  ultimately show "parse ''a > b && c'' = Inr ?p" by simp
qed

section \<open>Keystrokes\<close>

text \<open>
  C11. Parsing what \<open>unparse\<close> produces gives the keystroke back, on every target system, for every
  combination of modifiers, when no character is stored beside the key and the key is a dash, or
  is in lower case, without a dash, and not the name of a modifier.
\<close>

theorem keystroke_roundtrip:
  assumes "has_target target_os" and "plain_key (ks_key k)" and "ks_key_char k = None"
  shows "keystroke_parse target_os (unparse target_os k) = Inr k"
  by (rule keystroke_parse_unparse [OF assms])

definition sample_keystroke :: keystroke where
  "sample_keystroke = \<lparr>ks_modifiers = \<lparr>control = True, alt = False, shift = True, platform = True, function_key = False\<rparr>,
     ks_key = ''-'', ks_key_char = None\<rparr>"

theorem keystroke_roundtrip_witness:
  "unparse ''linux'' sample_keystroke = ''ctrl-super-shift--'' \<and>
   keystroke_parse ''linux'' ''ctrl-super-shift--'' = Inr sample_keystroke"
proof -
  have printed: "unparse ''linux'' sample_keystroke = ''ctrl-super-shift--''"
    by (simp add: unparse_def unparse_parts_def sample_keystroke_def)
  have "keystroke_parse ''linux'' (unparse ''linux'' sample_keystroke) = Inr sample_keystroke"
    by (rule keystroke_roundtrip) (simp_all add: sample_keystroke_def has_target_def plain_key_def)
  with printed show ?thesis by simp
qed

text \<open>A key followed by a trailing dash is accepted, and the key is lost.\<close>

lemma keystroke_trailing_dash:
  "keystroke_parse ''linux'' ''a-'' = Inr \<lparr>ks_modifiers = no_modifiers, ks_key = ''-'', ks_key_char = None\<rparr>"
  by (simp add: keystroke_parse_def eq_ignore_ascii_case_def ascii_lower_def ends_with_dash_def)

section \<open>The keymap\<close>

text \<open>The keymaps that can be built.\<close>

inductive keymap_reachable :: "'a action_ops \<Rightarrow> 'a keymap \<Rightarrow> bool" for ops where
  start: "keymap_reachable ops keymap_default"
| extend: "keymap_reachable ops km \<Longrightarrow> keymap_reachable ops (add_bindings ops km bindings)"
| reset: "keymap_reachable ops km \<Longrightarrow> keymap_reachable ops (keymap_clear km)"

lemma keymap_reachable_ok: "keymap_reachable ops km \<Longrightarrow> keymap_ok ops km"
  by (induction rule: keymap_reachable.induct) (simp_all add: keymap_default_ok add_bindings_ok keymap_clear_ok)

lemma keymap_new_reachable: "keymap_reachable ops (keymap_new ops bindings)"
  by (simp add: keymap_new_def keymap_reachable.intros)

definition sample_actions :: "nat action_ops" where
  "sample_actions = \<lparr>ops_type_id = (\<lambda>n. n), ops_name = (\<lambda>n. if n = 0 then ''app::Save'' else ''app::Quit''),
     ops_partial_eq = (=)\<rparr>"

definition stroke :: "string \<Rightarrow> keybinding_keystroke" where
  "stroke key = \<lparr>kk_inner = \<lparr>ks_modifiers = no_modifiers\<lparr>control := True\<rparr>, ks_key = key, ks_key_char = None\<rparr>,
     kk_display = None\<rparr>"

definition bind_key :: "string \<Rightarrow> nat action \<Rightarrow> 32 word option \<Rightarrow> nat key_binding" where
  "bind_key key act meta = \<lparr>kb_action = act, kb_keystrokes = [stroke key], kb_predicate = None, kb_meta = meta,
     kb_action_input = None\<rparr>"

definition sample_keymap :: "nat keymap" where
  "sample_keymap = keymap_new sample_actions
     [bind_key ''s'' (Other 0) None, bind_key ''q'' (Other 1) None, bind_key ''s'' (Unbind ''app::Save'') None]"

text \<open>
  C12. In every keymap built by adding bindings and clearing, the indices kept beside the bindings
  are exact: the list of disabling markers and the list of each action type hold the positions of
  just those bindings, in order; adding appends the bindings and advances the version by one.
\<close>

theorem keymap_indices:
  assumes "keymap_reachable ops km"
  shows "keymap_ok ops km \<and> km_bindings (add_bindings ops km bs) = km_bindings km @ bs \<and>
    km_version (add_bindings ops km bs) = Suc (km_version km)"
  using keymap_reachable_ok [OF assms] add_bindings_ok by blast

theorem keymap_indices_witness:
  "keymap_ok sample_actions sample_keymap \<and> km_disabled sample_keymap = [2] \<and>
   km_by_action sample_keymap (Other_Type 0) = Some [0]"
proof -
  have "keymap_reachable sample_actions sample_keymap" by (simp add: sample_keymap_def keymap_new_reachable)
  then have "keymap_ok sample_actions sample_keymap" using keymap_indices by blast
  moreover have "km_disabled sample_keymap = [2] \<and> km_by_action sample_keymap (Other_Type 0) = Some [0]"
    by (simp add: sample_keymap_def keymap_new_def add_bindings_def add_binding_def keymap_default_def bind_key_def
        sample_actions_def is_no_action_def is_unbind_def)
  ultimately show ?thesis by blast
qed

text \<open>
  C13. The bindings for an action are, in the order they were added, those of that type that equal
  the action and that no later marker with the same keystrokes hides: a \<open>NoAction\<close>, or an \<open>Unbind\<close>
  naming the action, whose context covers the context of the binding. No index is out of range.
\<close>

theorem bindings_for_action_exact:
  assumes "keymap_reachable ops km"
  shows "bindings_for_action ops km act = Some (map ((!) (km_bindings km)) (filter (\<lambda>i.
      let b = km_bindings km ! i in
      \<not> disabling b \<and> action_type_id ops (kb_action b) = action_type_id ops act \<and> action_eq ops (kb_action b) act \<and>
      \<not> (\<exists>j<length (km_bindings km). i < j \<and> hides ops (km_bindings km ! j) b)) [0..<length (km_bindings km)]))"
  by (rule bindings_for_action_ok [OF keymap_reachable_ok [OF assms]])

lemma sample_keymap_bindings:
  "km_bindings sample_keymap =
     [bind_key ''s'' (Other 0) None, bind_key ''q'' (Other 1) None, bind_key ''s'' (Unbind ''app::Save'') None]"
  by (simp add: sample_keymap_def keymap_new_def add_bindings_def add_binding_def keymap_default_def bind_key_def
      is_no_action_def is_unbind_def)

theorem bindings_for_action_exact_witness:
  "bindings_for_action sample_actions sample_keymap (Other 0) = Some [] \<and>
   bindings_for_action sample_actions sample_keymap (Other 1) = Some [bind_key ''q'' (Other 1) None]"
proof -
  have r: "keymap_reachable sample_actions sample_keymap" by (simp add: sample_keymap_def keymap_new_reachable)
  show ?thesis
    unfolding bindings_for_action_exact [OF r] sample_keymap_bindings
    by (simp add: Ex_less_Suc upt_rec bind_key_def disabling_def is_no_action_def is_unbind_def sample_actions_def hides_def
        stroke_def disabled_binding_matches_context_def binding_is_unbound_def Let_def)
qed

text \<open>
  C14. The bindings for an input are the visible ones among the bindings that apply in the context
  and match the whole input, deepest context first and later bindings first at equal depth. A
  match is visible when it is not a marker and no match of higher precedence is a user's
  \<open>NoAction\<close> or an \<open>Unbind\<close> naming it for the same keystrokes. The flag is set exactly when some
  longer binding, not earlier in the keymap than the first one returned, is not followed by a
  marker for the same keystrokes.
\<close>

theorem bindings_for_input_exact:
  "\<exists>ms. set ms = matches Not os km input ctxs \<and> sorted_wrt precedes ms \<and>
     bindings_for_input ops os km input ctxs =
      (let vs = filter (visible ops (set ms)) ms;
           first = (case vs of [] \<Rightarrow> None | v # _ \<Rightarrow> Some (fst (snd v)))
       in (map bound vs, \<exists>ks. keeps first (longer os km input ctxs) ks))"
  by (rule bindings_for_input_ok [of os km input ctxs ops]) blast

text \<open>
  The bindings that can follow an input are the ones that apply in the context, of which the
  input is a proper prefix, and which are not markers, in order of precedence.
\<close>

lemma possible_next_exact:
  "\<exists>ms. set ms = {r \<in> matches id os km input ctxs. \<not> disabling (bound r)} \<and> sorted_wrt precedes ms \<and>
     possible_next_bindings_for_input os km input ctxs = map bound ms"
  by (rule possible_next_ok [of os km input ctxs]) blast

text \<open>
  A \<open>NoAction\<close> of the default keymap hides a default binding from the lookup by action, and leaves
  it in the lookup by input.
\<close>

definition default_keymap :: "nat keymap" where
  "default_keymap = keymap_new sample_actions [bind_key ''s'' (Other 0) (Some 3), bind_key ''s'' No_Action (Some 3)]"

lemma default_no_action:
  "bindings_for_action sample_actions default_keymap (Other 0) = Some [] \<and>
   bindings_for_input sample_actions ''linux'' default_keymap [kk_inner (stroke ''s'')] [] =
     ([bind_key ''s'' (Other 0) (Some 3)], False)"
proof -
  let ?bs = "[bind_key ''s'' (Other 0) (Some 3), bind_key ''s'' No_Action (Some 3)]"
  have bs: "km_bindings default_keymap = ?bs"
    by (simp add: default_keymap_def keymap_new_def add_bindings_def add_binding_def keymap_default_def bind_key_def
        is_no_action_def is_unbind_def)
  have by_action: "bindings_for_action sample_actions default_keymap (Other 0) = Some []"
    by (simp add: default_keymap_def keymap_new_def add_bindings_def add_binding_def keymap_default_def bind_key_def
        is_no_action_def is_unbind_def bindings_for_action_def sample_actions_def get_index_def
        disabled_binding_matches_context_def)
  have matching: "match_keystrokes ''linux'' b [kk_inner (stroke ''s'')] = Some False \<and> binding_enabled b [] = Some 0"
    if "b \<in> set ?bs" for b
    using that by (auto simp: match_keystrokes_def bind_key_def stroke_def should_match_def binding_enabled_def)
  have "bindings_for_input sample_actions ''linux'' default_keymap [kk_inner (stroke ''s'')] [] =
      ([bind_key ''s'' (Other 0) (Some 3)], False)"
    using matching
    by (simp add: bindings_for_input_def bs precedence_cmp_def)
      (simp add: bind_key_def is_no_action_def is_unbind_def)
  with by_action show ?thesis by blast
qed

end
