(* ===== verification/Geometry.thy ===== *)
theory Geometry
  imports Prelude
begin

text \<open>
  Points, sizes, rectangles, edges, corners and anchors
  (\<open>crates/gpui/src/geometry.rs\<close>). The unit is any ordered abelian group, so arithmetic is
  exact; halving is a parameter, as the \<open>Half\<close> trait has it.
\<close>

section \<open>Axes, points and sizes\<close>

datatype axis = Vertical | Horizontal

fun axis_invert :: "axis \<Rightarrow> axis" where
  "axis_invert Vertical = Horizontal"
| "axis_invert Horizontal = Vertical"

record 'u point =
  px :: 'u
  py :: 'u

record 'u size =
  width :: 'u
  height :: 'u

definition point_along :: "'u point \<Rightarrow> axis \<Rightarrow> 'u" where
  "point_along p ax = (case ax of Horizontal \<Rightarrow> px p | Vertical \<Rightarrow> py p)"

definition point_apply_along :: "'u point \<Rightarrow> axis \<Rightarrow> ('u \<Rightarrow> 'u) \<Rightarrow> 'u point" where
  "point_apply_along p ax f =
     (case ax of Horizontal \<Rightarrow> \<lparr>px = f (px p), py = py p\<rparr> | Vertical \<Rightarrow> \<lparr>px = px p, py = f (py p)\<rparr>)"

definition size_along :: "'u size \<Rightarrow> axis \<Rightarrow> 'u" where
  "size_along s ax = (case ax of Horizontal \<Rightarrow> width s | Vertical \<Rightarrow> height s)"

definition size_apply_along :: "'u size \<Rightarrow> axis \<Rightarrow> ('u \<Rightarrow> 'u) \<Rightarrow> 'u size" where
  "size_apply_along s ax f =
     (case ax of Horizontal \<Rightarrow> \<lparr>width = f (width s), height = height s\<rparr>
      | Vertical \<Rightarrow> \<lparr>width = width s, height = f (height s)\<rparr>)"

definition point_map :: "('u \<Rightarrow> 'v) \<Rightarrow> 'u point \<Rightarrow> 'v point" where
  "point_map f p = \<lparr>px = f (px p), py = f (py p)\<rparr>"

definition size_map :: "('u \<Rightarrow> 'v) \<Rightarrow> 'u size \<Rightarrow> 'v size" where
  "size_map f s = \<lparr>width = f (width s), height = f (height s)\<rparr>"

definition relative_to :: "'u::linordered_ab_group_add point \<Rightarrow> 'u point \<Rightarrow> 'u point" where
  "relative_to p origin = \<lparr>px = px p - px origin, py = py p - py origin\<rparr>"

definition point_max :: "'u::linordered_ab_group_add point \<Rightarrow> 'u point \<Rightarrow> 'u point" where
  "point_max p other =
     \<lparr>px = (if px p > px other then px p else px other), py = (if py p > py other then py p else py other)\<rparr>"

definition point_min :: "'u::linordered_ab_group_add point \<Rightarrow> 'u point \<Rightarrow> 'u point" where
  "point_min p other =
     \<lparr>px = (if px p \<le> px other then px p else px other), py = (if py p \<le> py other then py p else py other)\<rparr>"

definition point_clamp :: "'u::linordered_ab_group_add point \<Rightarrow> 'u point \<Rightarrow> 'u point \<Rightarrow> 'u point" where
  "point_clamp p lo hi = point_min (point_max p lo) hi"

definition size_center :: "('u \<Rightarrow> 'u) \<Rightarrow> 'u size \<Rightarrow> 'u point" where
  "size_center half s = \<lparr>px = half (width s), py = half (height s)\<rparr>"

definition size_max :: "'u::linordered_ab_group_add size \<Rightarrow> 'u size \<Rightarrow> 'u size" where
  "size_max s other =
     \<lparr>width = (if width s \<ge> width other then width s else width other),
      height = (if height s \<ge> height other then height s else height other)\<rparr>"

definition size_min :: "'u::linordered_ab_group_add size \<Rightarrow> 'u size \<Rightarrow> 'u size" where
  "size_min s other =
     \<lparr>width = (if width s \<ge> width other then width other else width s),
      height = (if height s \<ge> height other then height other else height s)\<rparr>"

lemma point_max_simps [simp]: "px (point_max p q) = max (px p) (px q)" "py (point_max p q) = max (py p) (py q)"
  by (auto simp: point_max_def max_def)

lemma point_min_simps [simp]: "px (point_min p q) = min (px p) (px q)" "py (point_min p q) = min (py p) (py q)"
  by (simp_all add: point_min_def min_def)

section \<open>Edges and anchors\<close>

record 'u edges =
  e_top :: 'u
  e_right :: 'u
  e_bottom :: 'u
  e_left :: 'u

definition edges_all :: "'u \<Rightarrow> 'u edges" where
  "edges_all v = \<lparr>e_top = v, e_right = v, e_bottom = v, e_left = v\<rparr>"

definition edges_map :: "('u \<Rightarrow> 'v) \<Rightarrow> 'u edges \<Rightarrow> 'v edges" where
  "edges_map f e = \<lparr>e_top = f (e_top e), e_right = f (e_right e), e_bottom = f (e_bottom e), e_left = f (e_left e)\<rparr>"

definition edges_any :: "('u \<Rightarrow> bool) \<Rightarrow> 'u edges \<Rightarrow> bool" where
  "edges_any predicate e = (predicate (e_top e) \<or> predicate (e_right e) \<or> predicate (e_bottom e) \<or> predicate (e_left e))"

datatype anchor =
  Top_Left | Top_Right | Bottom_Left | Bottom_Right | Top_Center | Bottom_Center | Left_Center | Right_Center

fun anchor_opposite :: "anchor \<Rightarrow> anchor" where
  "anchor_opposite Top_Left = Bottom_Right"
| "anchor_opposite Top_Right = Bottom_Left"
| "anchor_opposite Bottom_Left = Top_Right"
| "anchor_opposite Bottom_Right = Top_Left"
| "anchor_opposite Top_Center = Bottom_Center"
| "anchor_opposite Bottom_Center = Top_Center"
| "anchor_opposite Left_Center = Right_Center"
| "anchor_opposite Right_Center = Left_Center"

fun other_side_along :: "anchor \<Rightarrow> axis \<Rightarrow> anchor" where
  "other_side_along a Vertical =
     (case a of
        Top_Left \<Rightarrow> Bottom_Left | Top_Right \<Rightarrow> Bottom_Right | Bottom_Left \<Rightarrow> Top_Left | Bottom_Right \<Rightarrow> Top_Right
      | Top_Center \<Rightarrow> Bottom_Center | Bottom_Center \<Rightarrow> Top_Center
      | Left_Center \<Rightarrow> Left_Center | Right_Center \<Rightarrow> Right_Center)"
| "other_side_along a Horizontal =
     (case a of
        Top_Left \<Rightarrow> Top_Right | Top_Right \<Rightarrow> Top_Left | Bottom_Left \<Rightarrow> Bottom_Right | Bottom_Right \<Rightarrow> Bottom_Left
      | Top_Center \<Rightarrow> Top_Center | Bottom_Center \<Rightarrow> Bottom_Center
      | Left_Center \<Rightarrow> Right_Center | Right_Center \<Rightarrow> Left_Center)"

definition anchor_is_center :: "anchor \<Rightarrow> bool" where
  "anchor_is_center a = (a \<in> {Top_Center, Bottom_Center, Left_Center, Right_Center})"

section \<open>Rectangles\<close>

record 'u bounds =
  origin :: "'u point"
  bsize :: "'u size"

definition from_corners :: "'u::linordered_ab_group_add point \<Rightarrow> 'u point \<Rightarrow> 'u bounds" where
  "from_corners ul br =
     \<lparr>origin = \<lparr>px = px ul, py = py ul\<rparr>, bsize = \<lparr>width = px br - px ul, height = py br - py ul\<rparr>\<rparr>"

definition b_top :: "'u::linordered_ab_group_add bounds \<Rightarrow> 'u" where
  "b_top b = py (origin b)"

definition b_bottom :: "'u::linordered_ab_group_add bounds \<Rightarrow> 'u" where
  "b_bottom b = py (origin b) + height (bsize b)"

definition b_left :: "'u::linordered_ab_group_add bounds \<Rightarrow> 'u" where
  "b_left b = px (origin b)"

definition b_right :: "'u::linordered_ab_group_add bounds \<Rightarrow> 'u" where
  "b_right b = px (origin b) + width (bsize b)"

definition top_right :: "'u::linordered_ab_group_add bounds \<Rightarrow> 'u point" where
  "top_right b = \<lparr>px = px (origin b) + width (bsize b), py = py (origin b)\<rparr>"

definition bottom_right :: "'u::linordered_ab_group_add bounds \<Rightarrow> 'u point" where
  "bottom_right b = \<lparr>px = px (origin b) + width (bsize b), py = py (origin b) + height (bsize b)\<rparr>"

definition bottom_left :: "'u::linordered_ab_group_add bounds \<Rightarrow> 'u point" where
  "bottom_left b = \<lparr>px = px (origin b), py = py (origin b) + height (bsize b)\<rparr>"

definition top_center :: "('u \<Rightarrow> 'u) \<Rightarrow> 'u::linordered_ab_group_add bounds \<Rightarrow> 'u point" where
  "top_center half b = \<lparr>px = px (origin b) + half (width (bsize b)), py = py (origin b)\<rparr>"

definition bottom_center :: "('u \<Rightarrow> 'u) \<Rightarrow> 'u::linordered_ab_group_add bounds \<Rightarrow> 'u point" where
  "bottom_center half b = \<lparr>px = px (origin b) + half (width (bsize b)), py = py (origin b) + height (bsize b)\<rparr>"

definition left_center :: "('u \<Rightarrow> 'u) \<Rightarrow> 'u::linordered_ab_group_add bounds \<Rightarrow> 'u point" where
  "left_center half b = \<lparr>px = px (origin b), py = py (origin b) + half (height (bsize b))\<rparr>"

definition right_center :: "('u \<Rightarrow> 'u) \<Rightarrow> 'u::linordered_ab_group_add bounds \<Rightarrow> 'u point" where
  "right_center half b = \<lparr>px = px (origin b) + width (bsize b), py = py (origin b) + half (height (bsize b))\<rparr>"

definition center :: "('u \<Rightarrow> 'u) \<Rightarrow> 'u::linordered_ab_group_add bounds \<Rightarrow> 'u point" where
  "center half b = \<lparr>px = px (origin b) + half (width (bsize b)), py = py (origin b) + half (height (bsize b))\<rparr>"

fun corner :: "('u \<Rightarrow> 'u) \<Rightarrow> 'u::linordered_ab_group_add bounds \<Rightarrow> anchor \<Rightarrow> 'u point" where
  "corner half b Top_Left = origin b"
| "corner half b Top_Right = top_right b"
| "corner half b Bottom_Left = bottom_left b"
| "corner half b Bottom_Right = bottom_right b"
| "corner half b Top_Center = top_center half b"
| "corner half b Bottom_Center = bottom_center half b"
| "corner half b Left_Center = left_center half b"
| "corner half b Right_Center = right_center half b"

definition from_anchor_and_size :: "('u \<Rightarrow> 'u) \<Rightarrow> anchor \<Rightarrow> 'u::linordered_ab_group_add point \<Rightarrow> 'u size \<Rightarrow> 'u bounds" where
  "from_anchor_and_size half a p s =
     \<lparr>origin = (case a of
        Top_Left \<Rightarrow> p
      | Top_Right \<Rightarrow> \<lparr>px = px p - width s, py = py p\<rparr>
      | Bottom_Left \<Rightarrow> \<lparr>px = px p, py = py p - height s\<rparr>
      | Bottom_Right \<Rightarrow> \<lparr>px = px p - width s, py = py p - height s\<rparr>
      | Top_Center \<Rightarrow> \<lparr>px = px p - half (width s), py = py p\<rparr>
      | Bottom_Center \<Rightarrow> \<lparr>px = px p - half (width s), py = py p - height s\<rparr>
      | Left_Center \<Rightarrow> \<lparr>px = px p, py = py p - half (height s)\<rparr>
      | Right_Center \<Rightarrow> \<lparr>px = px p - width s, py = py p - half (height s)\<rparr>),
      bsize = s\<rparr>"

definition centered_at :: "('u \<Rightarrow> 'u) \<Rightarrow> 'u::linordered_ab_group_add point \<Rightarrow> 'u size \<Rightarrow> 'u bounds" where
  "centered_at half c s =
     \<lparr>origin = \<lparr>px = px c - half (width s), py = py c - half (height s)\<rparr>, bsize = s\<rparr>"

definition intersects :: "'u::linordered_ab_group_add bounds \<Rightarrow> 'u bounds \<Rightarrow> bool" where
  "intersects b other =
     (let my_lower_right = bottom_right b; their_lower_right = bottom_right other in
      px (origin b) < px their_lower_right \<and> px my_lower_right > px (origin other) \<and>
      py (origin b) < py their_lower_right \<and> py my_lower_right > py (origin other))"

definition half_perimeter :: "'u::linordered_ab_group_add bounds \<Rightarrow> 'u" where
  "half_perimeter b = width (bsize b) + height (bsize b)"

definition dilate :: "'u::linordered_ab_group_add bounds \<Rightarrow> 'u \<Rightarrow> 'u bounds" where
  "dilate b amount =
     (let double_amount = amount + amount in
      \<lparr>origin = \<lparr>px = px (origin b) - amount, py = py (origin b) - amount\<rparr>,
       bsize = \<lparr>width = width (bsize b) + double_amount, height = height (bsize b) + double_amount\<rparr>\<rparr>)"

definition bounds_extend :: "'u::linordered_ab_group_add bounds \<Rightarrow> 'u edges \<Rightarrow> 'u bounds" where
  "bounds_extend b amount =
     \<lparr>origin = \<lparr>px = px (origin b) - e_left amount, py = py (origin b) - e_top amount\<rparr>,
      bsize = \<lparr>width = width (bsize b) + (e_left amount + e_right amount),
              height = height (bsize b) + (e_top amount + e_bottom amount)\<rparr>\<rparr>"

definition inset :: "'u::linordered_ab_group_add bounds \<Rightarrow> 'u \<Rightarrow> 'u bounds" where
  "inset b amount = dilate b (- amount)"

definition bounds_intersect :: "'u::linordered_ab_group_add bounds \<Rightarrow> 'u bounds \<Rightarrow> 'u bounds" where
  "bounds_intersect b other =
     (let upper_left = point_max (origin b) (origin other);
          br = point_max (point_min (bottom_right b) (bottom_right other)) upper_left
      in from_corners upper_left br)"

definition bounds_union :: "'u::linordered_ab_group_add bounds \<Rightarrow> 'u bounds \<Rightarrow> 'u bounds" where
  "bounds_union b other =
     (let ul = point_min (origin b) (origin other); br = point_max (bottom_right b) (bottom_right other)
      in from_corners ul br)"

definition space_within :: "'u::linordered_ab_group_add bounds \<Rightarrow> 'u bounds \<Rightarrow> 'u edges" where
  "space_within b outer =
     \<lparr>e_top = b_top b - b_top outer, e_right = b_right outer - b_right b, e_bottom = b_bottom outer - b_bottom b,
      e_left = b_left b - b_left outer\<rparr>"

definition bounds_add :: "'u::linordered_ab_group_add bounds \<Rightarrow> 'u point \<Rightarrow> 'u bounds" where
  "bounds_add b rhs = \<lparr>origin = \<lparr>px = px (origin b) + px rhs, py = py (origin b) + py rhs\<rparr>, bsize = bsize b\<rparr>"

definition bounds_sub :: "'u::linordered_ab_group_add bounds \<Rightarrow> 'u point \<Rightarrow> 'u bounds" where
  "bounds_sub b rhs = \<lparr>origin = \<lparr>px = px (origin b) - px rhs, py = py (origin b) - py rhs\<rparr>, bsize = bsize b\<rparr>"

definition bounds_contains :: "'u::linordered_ab_group_add bounds \<Rightarrow> 'u point \<Rightarrow> bool" where
  "bounds_contains b p =
     (px p \<ge> px (origin b) \<and> px p < px (origin b) + width (bsize b) \<and>
      py p \<ge> py (origin b) \<and> py p < py (origin b) + height (bsize b))"

definition is_contained_within :: "'u::linordered_ab_group_add bounds \<Rightarrow> 'u bounds \<Rightarrow> bool" where
  "is_contained_within b other = (bounds_contains other (origin b) \<and> bounds_contains other (bottom_right b))"

definition bounds_map :: "('u \<Rightarrow> 'v) \<Rightarrow> 'u bounds \<Rightarrow> 'v bounds" where
  "bounds_map f b = \<lparr>origin = point_map f (origin b), bsize = size_map f (bsize b)\<rparr>"

definition map_origin :: "('u \<Rightarrow> 'u) \<Rightarrow> 'u bounds \<Rightarrow> 'u bounds" where
  "map_origin f b = \<lparr>origin = point_map f (origin b), bsize = bsize b\<rparr>"

definition map_size :: "('u \<Rightarrow> 'u) \<Rightarrow> 'u bounds \<Rightarrow> 'u bounds" where
  "map_size f b = \<lparr>origin = origin b, bsize = size_map f (bsize b)\<rparr>"

definition localize :: "'u::linordered_ab_group_add bounds \<Rightarrow> 'u point \<Rightarrow> 'u point option" where
  "localize b p = (if bounds_contains b p then Some (relative_to p (origin b)) else None)"

definition bounds_is_empty :: "'u::linordered_ab_group_add bounds \<Rightarrow> bool" where
  "bounds_is_empty b = (width (bsize b) \<le> 0 \<or> height (bsize b) \<le> 0)"

section \<open>Corners\<close>

record 'u corners =
  c_top_left :: 'u
  c_top_right :: 'u
  c_bottom_right :: 'u
  c_bottom_left :: 'u

definition corners_all :: "'u \<Rightarrow> 'u corners" where
  "corners_all v = \<lparr>c_top_left = v, c_top_right = v, c_bottom_right = v, c_bottom_left = v\<rparr>"

definition corners_corner :: "('u \<Rightarrow> 'u) \<Rightarrow> 'u::linordered_ab_group_add corners \<Rightarrow> anchor \<Rightarrow> 'u" where
  "corners_corner half c a =
     (case a of
        Top_Left \<Rightarrow> c_top_left c
      | Top_Right \<Rightarrow> c_top_right c
      | Bottom_Left \<Rightarrow> c_bottom_left c
      | Bottom_Right \<Rightarrow> c_bottom_right c
      | Top_Center \<Rightarrow> half (c_top_left c + c_top_right c)
      | Bottom_Center \<Rightarrow> half (c_bottom_left c + c_bottom_right c)
      | Left_Center \<Rightarrow> half (c_top_left c + c_bottom_left c)
      | Right_Center \<Rightarrow> half (c_top_right c + c_bottom_right c))"

text \<open>The radii are limited by half the shorter side; the division by two is the parameter.\<close>

definition clamp_radii_for_quad_size :: "('u \<Rightarrow> 'u) \<Rightarrow> 'u::linordered_ab_group_add corners \<Rightarrow> 'u size \<Rightarrow> 'u corners" where
  "clamp_radii_for_quad_size half c s =
     (let m = half (min (width s) (height s)) in
      \<lparr>c_top_left = min (c_top_left c) m, c_top_right = min (c_top_right c) m,
       c_bottom_right = min (c_bottom_right c) m, c_bottom_left = min (c_bottom_left c) m\<rparr>)"

definition corners_map :: "('u \<Rightarrow> 'v) \<Rightarrow> 'u corners \<Rightarrow> 'v corners" where
  "corners_map f c =
     \<lparr>c_top_left = f (c_top_left c), c_top_right = f (c_top_right c),
      c_bottom_right = f (c_bottom_right c), c_bottom_left = f (c_bottom_left c)\<rparr>"

section \<open>Rectangles as sets of points\<close>

lemmas bounds_defs = b_top_def b_bottom_def b_left_def b_right_def bottom_right_def from_corners_def Let_def

lemma intersect_simps:
  "b_left (bounds_intersect a b) = max (b_left a) (b_left b)" "b_top (bounds_intersect a b) = max (b_top a) (b_top b)"
  "b_right (bounds_intersect a b) = max (min (b_right a) (b_right b)) (max (b_left a) (b_left b))"
  "b_bottom (bounds_intersect a b) = max (min (b_bottom a) (b_bottom b)) (max (b_top a) (b_top b))"
  by (simp_all add: bounds_intersect_def bounds_defs)

lemma union_simps:
  "b_left (bounds_union a b) = min (b_left a) (b_left b)" "b_top (bounds_union a b) = min (b_top a) (b_top b)"
  "b_right (bounds_union a b) = max (b_right a) (b_right b)" "b_bottom (bounds_union a b) = max (b_bottom a) (b_bottom b)"
  by (simp_all add: bounds_union_def bounds_defs)

lemma contains_iff: "bounds_contains b p \<longleftrightarrow> b_left b \<le> px p \<and> px p < b_right b \<and> b_top b \<le> py p \<and> py p < b_bottom b"
  by (auto simp: bounds_contains_def bounds_defs)

lemma intersects_iff: "intersects a b \<longleftrightarrow> b_left a < b_right b \<and> b_left b < b_right a \<and> b_top a < b_bottom b \<and> b_top b < b_bottom a"
  by (auto simp: intersects_def bounds_defs)

lemma is_empty_iff: "bounds_is_empty b \<longleftrightarrow> b_right b \<le> b_left b \<or> b_bottom b \<le> b_top b"
  by (auto simp: bounds_is_empty_def bounds_defs)

text \<open>One rectangle inside another, edges included.\<close>

definition covers :: "'u::linordered_ab_group_add bounds \<Rightarrow> 'u bounds \<Rightarrow> bool" where
  "covers a b \<longleftrightarrow> b_left a \<le> b_left b \<and> b_right b \<le> b_right a \<and> b_top a \<le> b_top b \<and> b_bottom b \<le> b_bottom a"

lemma covers_refl [simp]: "covers a a"
  by (simp add: covers_def)

lemma covers_trans: "covers a b \<Longrightarrow> covers b c \<Longrightarrow> covers a c"
  by (auto simp: covers_def)

lemma covers_union [simp]: "covers (bounds_union a b) a" "covers (bounds_union a b) b"
  by (auto simp: covers_def union_simps)

lemma union_least: "covers c a \<Longrightarrow> covers c b \<Longrightarrow> covers c (bounds_union a b)"
  by (auto simp: covers_def union_simps)

lemma covers_intersects: "covers a b \<Longrightarrow> intersects q b \<Longrightarrow> intersects q a"
  by (auto simp: covers_def intersects_iff)

lemma contains_intersect: "bounds_contains (bounds_intersect a b) p \<longleftrightarrow> bounds_contains a p \<and> bounds_contains b p"
  by (auto simp: contains_iff intersect_simps less_max_iff_disj)

lemma bounds_eqI:
  "b_left a = b_left b \<Longrightarrow> b_right a = b_right b \<Longrightarrow> b_top a = b_top b \<Longrightarrow> b_bottom a = b_bottom b \<Longrightarrow> a = (b :: 'u::linordered_ab_group_add bounds)"
  by (cases a; cases b; cases "origin a"; cases "origin b"; cases "bsize a"; cases "bsize b") (simp add: bounds_defs)

lemma intersects_not_empty:
  assumes "\<not> bounds_is_empty a" and "\<not> bounds_is_empty b"
  shows "intersects a b \<longleftrightarrow> \<not> bounds_is_empty (bounds_intersect a b)"
  using assms by (auto simp: intersects_iff is_empty_iff intersect_simps not_le less_max_iff_disj)

lemma not_empty_contains: "\<not> bounds_is_empty a \<longleftrightarrow> bounds_contains a (origin a)"
  by (auto simp: is_empty_iff contains_iff) (auto simp: bounds_defs)

lemma corner_from_anchor: "corner half (from_anchor_and_size half a p s) a = p"
  by (cases a)
    (simp_all add: from_anchor_and_size_def top_right_def bottom_right_def bottom_left_def top_center_def
      bottom_center_def left_center_def right_center_def)

lemma dilate_inset: "inset (dilate b r) r = b"
  by (cases b; cases "origin b"; cases "bsize b") (simp add: inset_def dilate_def Let_def algebra_simps)

lemma extend_space_within: "bounds_extend b (space_within b outer) = outer"
  by (rule bounds_eqI) (simp_all add: bounds_extend_def space_within_def bounds_defs algebra_simps)

end
