(* ===== verification/Bounds_Tree.thy ===== *)
theory Bounds_Tree
  imports Geometry "HOL-Library.Multiset"
begin

text \<open>
  The spatial tree that assigns the draw order (\<open>crates/gpui/src/bounds_tree.rs\<close>): nodes in one
  vector, addressed by index; the search for the highest order among intersecting rectangles and
  the insertion of a leaf. The scratch vectors \<open>insert_path\<close> and \<open>search_stack\<close>, empty between
  calls, are arguments of the loops. Orders are natural numbers with the overflow of \<open>u32\<close>
  checked where one is added.
\<close>

section \<open>State\<close>

definition MAX_CHILDREN :: nat where
  "MAX_CHILDREN = 12"

datatype node_kind = Leaf (leaf_order: nat) | Internal (node_children: "nat list")

record 'u bnode =
  n_bounds :: "'u bounds"
  n_max_order :: nat
  n_kind :: node_kind

record 'u bounds_tree =
  bt_nodes :: "'u bnode list"
  bt_root :: "nat option"
  bt_max_leaf :: "nat option"

definition bt_default :: "'u bounds_tree" where
  "bt_default = \<lparr>bt_nodes = [], bt_root = None, bt_max_leaf = None\<rparr>"

definition bt_clear :: "'u bounds_tree \<Rightarrow> 'u bounds_tree" where
  "bt_clear t = t\<lparr>bt_nodes := [], bt_root := None, bt_max_leaf := None\<rparr>"

text \<open>Pushing a child beyond the array panics, as does swapping out of range.\<close>

definition children_push :: "nat list \<Rightarrow> nat \<Rightarrow> nat list option" where
  "children_push children index = (if length children < MAX_CHILDREN then Some (children @ [index]) else None)"

definition swap_indices :: "nat list \<Rightarrow> nat \<Rightarrow> nat \<Rightarrow> nat list option" where
  "swap_indices xs i j =
     (if i < length xs \<and> j < length xs then Some (xs[i := xs ! j, j := xs ! i]) else None)"

definition is_leaf_node :: "'u bnode \<Rightarrow> bool" where
  "is_leaf_node node = (case n_kind node of Leaf _ \<Rightarrow> True | Internal _ \<Rightarrow> False)"

section \<open>Searching\<close>

text \<open>The stack is written top first, so extending it in order puts the last child on top.\<close>

partial_function (option) search_loop ::
    "'u::linordered_ab_group_add bnode list \<Rightarrow> 'u bounds \<Rightarrow> nat \<Rightarrow> 'u bnode list \<Rightarrow> nat option" where
  "search_loop nodes query max_found stack =
     (case stack of
        [] \<Rightarrow> Some max_found
      | node # stack \<Rightarrow>
          if n_max_order node \<le> max_found then search_loop nodes query max_found stack
          else if \<not> intersects query (n_bounds node) then search_loop nodes query max_found stack
          else
            (case n_kind node of
               Leaf order \<Rightarrow> search_loop nodes query (max max_found order) stack
             | Internal children \<Rightarrow>
                 if list_all (\<lambda>i. i < length nodes) children then
                   search_loop nodes query max_found
                     (rev (filter (\<lambda>node. n_max_order node > max_found) (map ((!) nodes) children)) @ stack)
                 else None))"

declare search_loop.simps [code]

definition find_max_ordering :: "'u::linordered_ab_group_add bounds_tree \<Rightarrow> 'u bounds \<Rightarrow> nat option" where
  "find_max_ordering t query =
     (case bt_root t of
        None \<Rightarrow> Some 0
      | Some root_idx \<Rightarrow> do {
          fast \<leftarrow> (case bt_max_leaf t of
              None \<Rightarrow> Some None
            | Some max_idx \<Rightarrow> do {
                max_node \<leftarrow> get_index (bt_nodes t) max_idx;
                Some (if intersects query (n_bounds max_node) then Some (n_max_order max_node) else None)
              });
          case fast of
            Some order \<Rightarrow> Some order
          | None \<Rightarrow> do {
              root \<leftarrow> get_index (bt_nodes t) root_idx;
              search_loop (bt_nodes t) query 0 [root]
            }
        })"

section \<open>Inserting a leaf\<close>

text \<open>The child whose rectangle grows least, with its position; the first one on ties.\<close>

fun best_loop :: "'u::linordered_ab_group_add bnode list \<Rightarrow> 'u bounds \<Rightarrow> (nat \<times> nat) list \<Rightarrow> nat \<Rightarrow> nat \<Rightarrow> 'u \<Rightarrow>
    (nat \<times> nat) option" where
  "best_loop nodes bounds [] best_idx best_pos best_cost = Some (best_idx, best_pos)"
| "best_loop nodes bounds ((pos, child_idx) # rest) best_idx best_pos best_cost =
     do {
       child \<leftarrow> get_index nodes child_idx;
       let cost = half_perimeter (bounds_union bounds (n_bounds child));
       if cost < best_cost then best_loop nodes bounds rest child_idx pos cost
       else best_loop nodes bounds rest best_idx best_pos best_cost
     }"

definition best_child :: "'u::linordered_ab_group_add bnode list \<Rightarrow> 'u bounds \<Rightarrow> nat list \<Rightarrow> (nat \<times> nat) option" where
  "best_child nodes bounds children =
     do {
       first \<leftarrow> get_index children 0;
       child \<leftarrow> get_index nodes first;
       best_loop nodes bounds (tl (enumerate 0 children)) first 0
         (half_perimeter (bounds_union bounds (n_bounds child)))
     }"

text \<open>The descent: the path walked, the node reached, and its best child, which is a leaf.\<close>

partial_function (option) descend :: "'u::linordered_ab_group_add bnode list \<Rightarrow> 'u bounds \<Rightarrow> nat \<Rightarrow> nat list \<Rightarrow>
    (nat list \<times> nat \<times> nat \<times> nat) option" where
  "descend nodes bounds current_idx insert_path =
     do {
       current \<leftarrow> get_index nodes current_idx;
       (case n_kind current of
          Leaf _ \<Rightarrow> None
        | Internal children \<Rightarrow> do {
            (best_child_idx, best_child_pos) \<leftarrow> best_child nodes bounds children;
            best \<leftarrow> get_index nodes best_child_idx;
            if is_leaf_node best
            then Some (insert_path @ [current_idx], current_idx, best_child_idx, best_child_pos)
            else descend nodes bounds best_child_idx (insert_path @ [current_idx])
          })
     }"

declare descend.simps [code]

text \<open>Two children, the one with the higher order last.\<close>

definition pair_children :: "nat \<Rightarrow> nat \<Rightarrow> nat \<Rightarrow> nat \<Rightarrow> nat list option" where
  "pair_children order sibling_order sibling new_leaf_idx =
     (if order > sibling_order
      then do { c \<leftarrow> children_push [] sibling; children_push c new_leaf_idx }
      else do { c \<leftarrow> children_push [] new_leaf_idx; children_push c sibling })"

text \<open>The body of the loop when the best child is a leaf.\<close>

definition place_leaf :: "'u::linordered_ab_group_add bnode list \<Rightarrow> 'u bounds \<Rightarrow> nat \<Rightarrow> nat \<Rightarrow> nat \<Rightarrow> nat \<Rightarrow> nat \<Rightarrow>
    'u bnode list option" where
  "place_leaf nodes bounds order new_leaf_idx current_idx best_child_idx best_child_pos =
     do {
       node \<leftarrow> get_index nodes current_idx;
       (case n_kind node of
          Leaf _ \<Rightarrow> None
        | Internal children \<Rightarrow>
            if length children < MAX_CHILDREN then do {
              children1 \<leftarrow> children_push children new_leaf_idx;
              children2 \<leftarrow> (if order \<le> n_max_order node
                            then swap_indices children1 (length children1 - 1 - 1) (length children1 - 1)
                            else Some children1);
              Some (nodes[current_idx := node\<lparr>n_kind := Internal children2,
                n_bounds := bounds_union (n_bounds node) bounds, n_max_order := max (n_max_order node) order\<rparr>])
            } else do {
              sibling \<leftarrow> get_index nodes best_child_idx;
              let sibling_order = n_max_order sibling;
              new_children \<leftarrow> pair_children order sibling_order best_child_idx new_leaf_idx;
              let new_internal_idx = length nodes;
              let new_internal_max = max sibling_order order;
              let nodes1 = nodes @ [\<lparr>n_bounds = bounds_union (n_bounds sibling) bounds,
                n_max_order = new_internal_max, n_kind = Internal new_children\<rparr>];
              let children1 = children[best_child_pos := new_internal_idx];
              children2 \<leftarrow> (if new_internal_max > n_max_order node
                            then swap_indices children1 best_child_pos (length children - 1)
                            else Some children1);
              Some (nodes1[current_idx := node\<lparr>n_kind := Internal children2\<rparr>])
            })
     }"

fun position :: "nat list \<Rightarrow> nat \<Rightarrow> nat \<Rightarrow> nat option" where
  "position [] c pos = None"
| "position (x # xs) c pos = (if x = c then Some pos else position xs c (Suc pos))"

definition swap_to_end :: "nat list \<Rightarrow> nat \<Rightarrow> nat list option" where
  "swap_to_end children child_idx =
     (case position children child_idx 0 of
        None \<Rightarrow> Some children
      | Some pos \<Rightarrow>
          (let last_pos = length children - 1 in
           if pos \<noteq> last_pos then swap_indices children pos last_pos else Some children))"

text \<open>The loop back up the path, given in reverse.\<close>

fun propagate :: "'u::linordered_ab_group_add bounds \<Rightarrow> nat \<Rightarrow> nat list \<Rightarrow> 'u bnode list \<Rightarrow> nat option \<Rightarrow>
    'u bnode list option" where
  "propagate bounds order [] nodes updated_child_idx = Some nodes"
| "propagate bounds order (node_idx # rest) nodes updated_child_idx =
     do {
       node \<leftarrow> get_index nodes node_idx;
       let node1 = node\<lparr>n_bounds := bounds_union (n_bounds node) bounds\<rparr>;
       node2 \<leftarrow>
         (if n_max_order node1 < order then
            (case (updated_child_idx, n_kind node1) of
               (Some child_idx, Internal children) \<Rightarrow> do {
                 children1 \<leftarrow> swap_to_end children child_idx;
                 Some (node1\<lparr>n_max_order := order, n_kind := Internal children1\<rparr>)
               }
             | _ \<Rightarrow> Some (node1\<lparr>n_max_order := order\<rparr>))
          else Some node1);
       propagate bounds order rest (nodes[node_idx := node2]) (Some node_idx)
     }"

definition insert_leaf :: "'u::linordered_ab_group_add bounds_tree \<Rightarrow> 'u bounds \<Rightarrow> nat \<Rightarrow>
    ('u bounds_tree \<times> nat) option" where
  "insert_leaf t bounds order =
     (let new_leaf_idx = length (bt_nodes t);
          nodes = bt_nodes t @ [\<lparr>n_bounds = bounds, n_max_order = order, n_kind = Leaf order\<rparr>]
      in case bt_root t of
           None \<Rightarrow> Some (t\<lparr>bt_nodes := nodes, bt_root := Some new_leaf_idx\<rparr>, new_leaf_idx)
         | Some root_idx \<Rightarrow> do {
             root \<leftarrow> get_index nodes root_idx;
             if is_leaf_node root then do {
               children \<leftarrow> pair_children order (n_max_order root) root_idx new_leaf_idx;
               Some (t\<lparr>bt_nodes := nodes @ [\<lparr>n_bounds = bounds_union (n_bounds root) bounds,
                   n_max_order = max (n_max_order root) order, n_kind = Internal children\<rparr>],
                 bt_root := Some (length nodes)\<rparr>, new_leaf_idx)
             } else do {
               (insert_path, current_idx, best_child_idx, best_child_pos) \<leftarrow> descend nodes bounds root_idx [];
               nodes1 \<leftarrow> place_leaf nodes bounds order new_leaf_idx current_idx best_child_idx best_child_pos;
               nodes2 \<leftarrow> propagate bounds order (rev insert_path) nodes1 None;
               Some (t\<lparr>bt_nodes := nodes2\<rparr>, new_leaf_idx)
             }
           })"

definition bt_insert :: "'u::linordered_ab_group_add bounds_tree \<Rightarrow> 'u bounds \<Rightarrow> ('u bounds_tree \<times> nat) option" where
  "bt_insert t new_bounds =
     do {
       max_intersecting \<leftarrow> find_max_ordering t new_bounds;
       ordering \<leftarrow> (if max_intersecting + 1 < 2 ^ 32 then Some (max_intersecting + 1) else None);
       (t1, new_leaf_idx) \<leftarrow> insert_leaf t new_bounds ordering;
       max_leaf \<leftarrow> (case bt_max_leaf t1 of
           None \<Rightarrow> Some (Some new_leaf_idx)
         | Some old_idx \<Rightarrow> do {
             old \<leftarrow> get_index (bt_nodes t1) old_idx;
             Some (if n_max_order old < ordering then Some new_leaf_idx else Some old_idx)
           });
       Some (t1\<lparr>bt_max_leaf := max_leaf\<rparr>, ordering)
     }"

end
