(* ===== verification/Bounds_Tree_Correct.thy ===== *)
theory Bounds_Tree_Correct
  imports Bounds_Tree
begin

text \<open>
  Why the draw order is right: the vector of nodes represents a tree whose nodes cover their
  children and know the highest order below them, the pruned search finds the highest order among
  the intersecting leaves, and an insertion keeps the representation and adds one leaf.
\<close>

section \<open>The tree in the vector\<close>

text \<open>The shape of a tree: an index and the shapes of the children.\<close>

datatype shape = Shape (sid: nat) (skids: "shape list")

primrec ids :: "shape \<Rightarrow> nat list" where
  "ids (Shape i ss) = i # concat (map ids ss)"

lemma sid_in_ids [simp]: "sid s \<in> set (ids s)"
  by (cases s) simp

lemma ids_pos: "0 < length (ids s)"
  by (cases s) simp

fun holds :: "'u::linordered_ab_group_add bnode list \<Rightarrow> shape \<Rightarrow> bool" where
  "holds ns (Shape i ss) \<longleftrightarrow> i < length ns \<and>
     (case n_kind (ns ! i) of
        Leaf order \<Rightarrow> ss = [] \<and> n_max_order (ns ! i) = order
      | Internal children \<Rightarrow> children = map sid ss \<and> 2 \<le> length ss \<and> length ss \<le> MAX_CHILDREN \<and>
          n_max_order (ns ! i) = n_max_order (ns ! sid (last ss)) \<and>
          (\<forall>s\<in>set ss. holds ns s \<and> covers (n_bounds (ns ! i)) (n_bounds (ns ! sid s)) \<and>
             n_max_order (ns ! sid s) \<le> n_max_order (ns ! i)))"

lemma holds_index: "holds ns s \<Longrightarrow> j \<in> set (ids s) \<Longrightarrow> j < length ns"
  by (induction ns s rule: holds.induct) (auto split: node_kind.splits)

lemma holds_cong:
  assumes "holds ns s" and "length ns \<le> length ns'" and "\<And>j. j \<in> set (ids s) \<Longrightarrow> ns' ! j = ns ! j"
  shows "holds ns' s"
  using assms
proof (induction ns s rule: holds.induct)
  case (1 ns i ss)
  have i: "ns' ! i = ns ! i" using 1(4) by simp
  have kids: "ns' ! sid s = ns ! sid s" if "s \<in> set ss" for s using 1(4) that by (auto intro: sid_in_ids)
  show ?case
  proof (cases "n_kind (ns ! i)")
    case (Leaf order)
    then show ?thesis using 1(2,3) i by simp
  next
    case (Internal children)
    have "holds ns' s" if s: "s \<in> set ss" for s
      using 1(1) [OF Internal s] 1(2,3,4) s Internal by auto
    moreover have "ss \<noteq> []" using 1(2) Internal by auto
    then have "ns' ! sid (last ss) = ns ! sid (last ss)" by (intro kids) simp
    moreover from 1(2) Internal have "\<forall>s\<in>set ss. covers (n_bounds (ns ! i)) (n_bounds (ns ! sid s)) \<and>
        n_max_order (ns ! sid s) \<le> n_max_order (ns ! i)" "n_max_order (ns ! i) = n_max_order (ns ! sid (last ss))"
      "children = map sid ss" "2 \<le> length ss" "length ss \<le> MAX_CHILDREN" "i < length ns"
      by auto
    ultimately show ?thesis using 1(3) i kids Internal by simp
  qed
qed

lemma holds_covers:
  assumes "holds ns s" and "j \<in> set (ids s)"
  shows "covers (n_bounds (ns ! sid s)) (n_bounds (ns ! j)) \<and> n_max_order (ns ! j) \<le> n_max_order (ns ! sid s)"
  using assms
proof (induction ns s rule: holds.induct)
  case (1 ns i ss)
  show ?case
  proof (cases "j = i")
    case False
    then obtain s where s: "s \<in> set ss" "j \<in> set (ids s)" using 1(3) by auto
    then obtain children where kind: "n_kind (ns ! i) = Internal children"
      using 1(2) by (cases "n_kind (ns ! i)") auto
    then have "holds ns s" "covers (n_bounds (ns ! i)) (n_bounds (ns ! sid s))" "n_max_order (ns ! sid s) \<le> n_max_order (ns ! i)"
      using 1(2) s(1) by auto
    with 1(1) [OF kind s(1) _ s(2)] show ?thesis by (auto intro: covers_trans)
  qed simp
qed

section \<open>The search\<close>

text \<open>The orders of the leaves of a shape that intersect a rectangle.\<close>

definition hits :: "'u::linordered_ab_group_add bnode list \<Rightarrow> 'u bounds \<Rightarrow> shape \<Rightarrow> nat set" where
  "hits ns q s = {order. \<exists>j\<in>set (ids s). n_kind (ns ! j) = Leaf order \<and> intersects q (n_bounds (ns ! j))}"

definition is_max :: "nat \<Rightarrow> nat set \<Rightarrow> bool" where
  "is_max r S \<longleftrightarrow> r \<in> S \<and> (\<forall>x\<in>S. x \<le> r)"

lemma is_max_extend: "is_max r (insert m S) \<Longrightarrow> S \<subseteq> T \<Longrightarrow> (\<And>x. x \<in> T \<Longrightarrow> x \<notin> S \<Longrightarrow> x \<le> m) \<Longrightarrow> is_max r (insert m T)"
  unfolding is_max_def by (metis insert_iff order_trans subset_iff)

lemma holds_leaf_order: "holds ns s \<Longrightarrow> j \<in> set (ids s) \<Longrightarrow> n_kind (ns ! j) = Leaf order \<Longrightarrow> n_max_order (ns ! j) = order"
proof (induction ns s rule: holds.induct)
  case (1 ns i ss)
  then show ?case by (auto split: node_kind.splits)
qed

lemma hits_le: "holds ns s \<Longrightarrow> x \<in> hits ns q s \<Longrightarrow> x \<le> n_max_order (ns ! sid s)"
  unfolding hits_def using holds_covers holds_leaf_order by blast

lemma hits_none: "holds ns s \<Longrightarrow> \<not> intersects q (n_bounds (ns ! sid s)) \<Longrightarrow> hits ns q s = {}"
  unfolding hits_def using holds_covers covers_intersects by blast

lemma search_loop_ok:
  assumes "\<forall>s\<in>set ss. holds ns s"
  shows "\<exists>r. search_loop ns q m (map (\<lambda>s. ns ! sid s) ss) = Some r \<and> is_max r (insert m (\<Union>s\<in>set ss. hits ns q s))"
  using assms
proof (induction "sum_list (map (\<lambda>s. length (ids s)) ss)" arbitrary: ss m rule: less_induct)
  case less
  show ?case
  proof (cases ss)
    case Nil
    then show ?thesis by (simp add: search_loop.simps is_max_def)
  next
    case (Cons s rest)
    obtain i kids where s: "s = Shape i kids" by (cases s)
    let ?n = "ns ! i"
    have hs: "holds ns s" and hr: "\<forall>s\<in>set rest. holds ns s" using less.prems Cons by auto
    have smaller: "sum_list (map (\<lambda>s. length (ids s)) rest) < sum_list (map (\<lambda>s. length (ids s)) ss)"
      using ids_pos [of s] by (simp add: Cons)
    note rest = less.hyps [OF smaller hr]
    have skip: ?thesis if "search_loop ns q m (map (\<lambda>s. ns ! sid s) ss) = search_loop ns q m (map (\<lambda>s. ns ! sid s) rest)"
      and "\<forall>x\<in>hits ns q s. x \<le> m"
    proof -
      from rest [of m] obtain r where r: "search_loop ns q m (map (\<lambda>s. ns ! sid s) rest) = Some r"
        "is_max r (insert m (\<Union>s\<in>set rest. hits ns q s))" by blast
      have "is_max r (insert m (\<Union>s\<in>set ss. hits ns q s))"
        by (rule is_max_extend [OF r(2)]) (use that(2) in \<open>auto simp: Cons\<close>)
      with r(1) that(1) show ?thesis by auto
    qed
    consider (max) "n_max_order ?n \<le> m" | (apart) "\<not> n_max_order ?n \<le> m" "\<not> intersects q (n_bounds ?n)"
      | (leaf) order where "\<not> n_max_order ?n \<le> m" "intersects q (n_bounds ?n)" "n_kind ?n = Leaf order"
      | (inner) children where "\<not> n_max_order ?n \<le> m" "intersects q (n_bounds ?n)" "n_kind ?n = Internal children"
      by (cases "n_kind ?n") auto
    then show ?thesis
    proof cases
      case max
      then show ?thesis
        using hits_le [OF hs] by (intro skip) (auto simp: Cons s search_loop.simps intro: order_trans)
    next
      case apart
      then show ?thesis using hits_none [OF hs] by (intro skip) (simp_all add: Cons s search_loop.simps)
    next
      case leaf
      then have "kids = []" using hs by (simp add: s)
      with leaf have "hits ns q s = {order}" by (auto simp: hits_def s)
      then show ?thesis using rest [of "max m order"] leaf
        by (auto simp: Cons s search_loop.simps is_max_def max_def split: if_splits)
    next
      case inner
      let ?kept = "filter (\<lambda>s. n_max_order (ns ! sid s) > m) kids"
      have children: "children = map sid kids" and kids: "\<forall>s\<in>set kids. holds ns s" using hs inner by (auto simp: s)
      then have inside: "list_all (\<lambda>i. i < length ns) children"
        by (auto simp: list_all_iff dest: holds_index [OF _ sid_in_ids])
      have "rev (filter (\<lambda>node. n_max_order node > m) (map ((!) ns) children)) = map (\<lambda>s. ns ! sid s) (rev ?kept)"
        by (simp add: children filter_map rev_map o_def)
      then have step: "search_loop ns q m (map (\<lambda>s. ns ! sid s) ss) = search_loop ns q m (map (\<lambda>s. ns ! sid s) (rev ?kept @ rest))"
        using inner inside by (subst search_loop.simps) (simp add: Cons s)
      have "sum_list (map (\<lambda>s. length (ids s)) ?kept) \<le> sum_list (map (\<lambda>s. length (ids s)) kids)"
        by (induction kids) auto
      then have "sum_list (map (\<lambda>s. length (ids s)) (rev ?kept @ rest)) < sum_list (map (\<lambda>s. length (ids s)) ss)"
        by (simp add: Cons s length_concat o_def rev_map [symmetric] sum_list_rev)
      from less.hyps [OF this, of m] obtain r where r: "search_loop ns q m (map (\<lambda>s. ns ! sid s) ss) = Some r"
        "is_max r (insert m (\<Union>s\<in>set (rev ?kept @ rest). hits ns q s))"
        using step kids hr by auto
      have "hits ns q s = (\<Union>s\<in>set kids. hits ns q s)" using inner by (auto simp: hits_def s)
      moreover have "x \<le> m" if "k \<in> set kids" "k \<notin> set ?kept" "x \<in> hits ns q k" for k x
        using hits_le [of ns k x q] kids that by auto
      ultimately have "is_max r (insert m (\<Union>s\<in>set ss. hits ns q s))"
        by (intro is_max_extend [OF r(2)]) (auto simp: Cons)
      with r(1) show ?thesis by blast
    qed
  qed
qed

end
