(* ===== verification/Bounds_Tree_Insert.thy ===== *)
theory Bounds_Tree_Insert
  imports Bounds_Tree_Correct
begin

text \<open>
  Insertion into the spatial tree: descent, placement and propagation together turn a represented
  tree into a represented tree with one more leaf, and change no leaf.
\<close>

section \<open>What an insertion achieves\<close>

definition leaf_at :: "'u::linordered_ab_group_add bnode list \<Rightarrow> 'u bounds \<Rightarrow> nat \<Rightarrow> nat \<Rightarrow> bool" where
  "leaf_at ns b order k \<longleftrightarrow> k < length ns \<and> ns ! k = \<lparr>n_bounds = b, n_max_order = order, n_kind = Leaf order\<rparr>"

definition same_leaves :: "'u bnode list \<Rightarrow> 'u bnode list \<Rightarrow> bool" where
  "same_leaves ns ns' \<longleftrightarrow> length ns \<le> length ns' \<and>
     (\<forall>j<length ns'. if j < length ns \<and> is_leaf_node (ns ! j) then ns' ! j = ns ! j else \<not> is_leaf_node (ns' ! j))"

definition grown :: "'u::linordered_ab_group_add bnode list \<Rightarrow> 'u bounds \<Rightarrow> nat \<Rightarrow> nat \<Rightarrow> shape \<Rightarrow>
    'u bnode list \<Rightarrow> shape \<Rightarrow> bool" where
  "grown ns b order k s ns' s' \<longleftrightarrow> length ns \<le> length ns' \<and> sid s' = sid s \<and> holds ns' s' \<and> distinct (ids s') \<and>
     set (ids s') = set (ids s) \<union> {k} \<union> {length ns..<length ns'} \<and>
     (\<forall>j<length ns. j \<notin> set (ids s) \<longrightarrow> ns' ! j = ns ! j) \<and>
     n_bounds (ns' ! sid s) = bounds_union (n_bounds (ns ! sid s)) b \<and>
     n_max_order (ns' ! sid s) = max (n_max_order (ns ! sid s)) order \<and> same_leaves ns ns'"

lemma mset_ids: "mset ss = mset ts \<Longrightarrow> mset (concat (map ids ss)) = mset (concat (map ids ts))"
  by (simp add: mset_concat) (metis (no_types, lifting) mset_map sum_mset_sum_list)

lemma holds_Internal:
  "holds ns (Shape i ss) \<Longrightarrow> n_kind (ns ! i) = Internal children \<Longrightarrow>
   i < length ns \<and> children = map sid ss \<and> 2 \<le> length ss \<and> length ss \<le> MAX_CHILDREN \<and>
   n_max_order (ns ! i) = n_max_order (ns ! sid (last ss))"
  by simp

lemma holds_kid:
  "holds ns (Shape i ss) \<Longrightarrow> n_kind (ns ! i) = Internal children \<Longrightarrow> s \<in> set ss \<Longrightarrow>
   holds ns s \<and> covers (n_bounds (ns ! i)) (n_bounds (ns ! sid s)) \<and> n_max_order (ns ! sid s) \<le> n_max_order (ns ! i)"
proof -
  assume "holds ns (Shape i ss)" and kind: "n_kind (ns ! i) = Internal children" and "s \<in> set ss"
  then show ?thesis unfolding holds.simps kind node_kind.case by blast
qed

text \<open>
  The node at the root of a shape is rewritten for a new list of children, a permutation of \<open>ts\<close>;
  each of them is an old child that did not change, or is given to be right.
\<close>

lemma grown_intro:
  fixes b :: "'u::linordered_ab_group_add bounds"
  assumes hs: "holds ns (Shape i ss)" and kind: "n_kind (ns ! i) = Internal children"
    and le: "length ns \<le> length ns'"
    and node: "ns' ! i = \<lparr>n_bounds = bounds_union (n_bounds (ns ! i)) b,
        n_max_order = max (n_max_order (ns ! i)) order, n_kind = Internal (map sid ss')\<rparr>"
    and perm: "mset ss' = mset ts" and dist: "distinct (ids (Shape i ts))"
    and ids: "set (ids (Shape i ts)) = set (ids (Shape i ss)) \<union> {k} \<union> {length ns..<length ns'}"
    and kids: "\<And>s. s \<in> set ts \<Longrightarrow> s \<in> set ss \<and> (\<forall>j\<in>set (ids s). ns' ! j = ns ! j) \<or>
        holds ns' s \<and> covers (bounds_union (n_bounds (ns ! i)) b) (n_bounds (ns' ! sid s)) \<and>
        n_max_order (ns' ! sid s) \<le> max (n_max_order (ns ! i)) order"
    and len: "2 \<le> length ss'" "length ss' \<le> MAX_CHILDREN"
    and last: "n_max_order (ns' ! sid (last ss')) = max (n_max_order (ns ! i)) order"
    and frame: "\<And>j. j < length ns \<Longrightarrow> j \<notin> set (ids (Shape i ss)) \<Longrightarrow> ns' ! j = ns ! j"
    and leaves: "same_leaves ns ns'"
  shows "grown ns b order k (Shape i ss) ns' (Shape i ss')"
proof -
  note old = holds_kid [OF hs kind]
  have kids': "holds ns' s \<and> covers (n_bounds (ns' ! i)) (n_bounds (ns' ! sid s)) \<and>
      n_max_order (ns' ! sid s) \<le> n_max_order (ns' ! i)" if s: "s \<in> set ss'" for s
  proof -
    have "s \<in> set ts" using s perm by (metis set_mset_mset)
    from kids [OF this] show ?thesis
    proof
      assume a: "s \<in> set ss \<and> (\<forall>j\<in>set (ids s). ns' ! j = ns ! j)"
      have "covers (bounds_union (n_bounds (ns ! i)) b) (n_bounds (ns ! sid s))"
        by (rule covers_trans [OF covers_union(1)]) (use old a in blast)
      moreover have "holds ns' s" using old a by (intro holds_cong [OF _ le]) auto
      ultimately show ?thesis using old [of s] a by (auto simp: node)
    qed (simp add: node)
  qed
  have "mset (ids (Shape i ss')) = mset (ids (Shape i ts))" using mset_ids [OF perm] by simp
  then have "distinct (ids (Shape i ss'))" "set (ids (Shape i ss')) = set (ids (Shape i ts))"
    using dist by (metis mset_eq_imp_distinct_iff, metis mset_eq_setD)
  moreover have "holds ns' (Shape i ss')"
  proof -
    have "n_kind (ns' ! i) = Internal (map sid ss')" by (simp add: node)
    moreover have "n_max_order (ns' ! i) = n_max_order (ns' ! sid (last ss'))" by (simp add: node last)
    moreover have "i < length ns'" using hs le by simp
    ultimately show ?thesis using kids' len by (simp only: holds.simps node_kind.simps) blast
  qed
  ultimately show ?thesis
    unfolding grown_def using le ids frame leaves by (simp add: node del: holds.simps)
qed

section \<open>Choosing a child\<close>

lemma best_loop_ok:
  "\<forall>(p, i)\<in>set l. i < length ns \<Longrightarrow>
   \<exists>i p. best_loop ns b l i0 p0 cost = Some (i, p) \<and> ((p, i) \<in> set l \<or> i = i0 \<and> p = p0)"
proof (induction l arbitrary: i0 p0 cost)
  case (Cons x l)
  obtain p i where x: "x = (p, i)" by (cases x)
  then show ?case
    using Cons by (auto simp: get_index_def Let_def) (metis (no_types, lifting))+
qed simp

lemma best_child_ok:
  assumes "children \<noteq> []" and "\<forall>i\<in>set children. i < length ns"
  shows "\<exists>i p. best_child ns b children = Some (i, p) \<and> p < length children \<and> children ! p = i"
proof -
  let ?l = "tl (enumerate 0 children)"
  have l: "p < length children \<and> children ! p = i" if "(p, i) \<in> set ?l" for p i
    using that list.set_sel(2) [of "enumerate 0 children"] by (cases children) (auto simp: in_set_enumerate_eq)
  then have "\<forall>(p, i)\<in>set ?l. i < length ns" using assms(2) by (metis (no_types, lifting) case_prodI2 nth_mem)
  from best_loop_ok [OF this] show ?thesis
    using assms l by (fastforce simp: best_child_def get_index_def)
qed

section \<open>Swapping children\<close>

definition swap_list :: "'a list \<Rightarrow> nat \<Rightarrow> nat \<Rightarrow> 'a list" where
  "swap_list xs i j = xs[i := xs ! j, j := xs ! i]"

lemma swap_indices_map:
  "i < length xs \<Longrightarrow> j < length xs \<Longrightarrow> swap_indices (map f xs) i j = Some (map f (swap_list xs i j))"
  by (simp add: swap_indices_def swap_list_def map_update)

lemma swap_list_facts:
  assumes "i < length xs"
  shows "mset (swap_list xs i (length xs - 1)) = mset xs" and "length (swap_list xs i (length xs - 1)) = length xs"
    and "last (swap_list xs i (length xs - 1)) = xs ! i"
proof -
  have ne: "xs \<noteq> []" using assms by auto
  show "mset (swap_list xs i (length xs - 1)) = mset xs"
    unfolding swap_list_def using assms ne by (simp add: mset_swap)
  show "length (swap_list xs i (length xs - 1)) = length xs" by (simp add: swap_list_def)
  show "last (swap_list xs i (length xs - 1)) = xs ! i"
    using ne by (simp add: swap_list_def last_conv_nth nth_list_update)
qed

lemma position_middle: "c \<notin> set us \<Longrightarrow> position (us @ c # vs) c n = Some (n + length us)"
  by (induction us arbitrary: n) auto

text \<open>The child in the middle moved to the end.\<close>

definition moved :: "'a list \<Rightarrow> 'a \<Rightarrow> 'a list \<Rightarrow> 'a list" where
  "moved us x vs = swap_list (us @ x # vs) (length us) (length (us @ x # vs) - 1)"

lemma moved_facts:
  "mset (moved us x vs) = mset (us @ x # vs)" "length (moved us x vs) = Suc (length us + length vs)"
  "last (moved us x vs) = x"
  using swap_list_facts [of "length us" "us @ x # vs"] by (simp_all add: moved_def)

lemma moved_last: "moved us x [] = us @ [x]"
  by (simp add: moved_def swap_list_def list_update_append)

lemma swap_to_end_middle:
  assumes "distinct (map sid (us @ c # vs))" and "sid c' = sid c"
  shows "swap_to_end (map sid (us @ c # vs)) (sid c) = Some (map sid (moved us c' vs))"
proof -
  have same: "map sid (us @ c # vs) = map sid (us @ c' # vs)" using assms(2) by simp
  have "position (map sid (us @ c # vs)) (sid c) 0 = Some (length us)"
    using position_middle [of "sid c" "map sid us" "map sid vs" 0] assms(1) by auto
  then have "swap_to_end (map sid (us @ c # vs)) (sid c) =
      (if vs \<noteq> [] then swap_indices (map sid (us @ c' # vs)) (length us) (length us + length vs) else Some (map sid (us @ c' # vs)))"
    unfolding swap_to_end_def same by (simp add: Let_def)
  also have "\<dots> = Some (map sid (moved us c' vs))"
  proof (cases "vs = []")
    case False
    then show ?thesis
      using swap_indices_map [of "length us" "us @ c' # vs" "length us + length vs" sid] by (simp add: moved_def del: map_append)
  qed (simp add: moved_last)
  finally show ?thesis .
qed

section \<open>One node\<close>

lemma union_twice: "bounds_union (bounds_union a b) b = bounds_union a (b :: 'u::linordered_ab_group_add bounds)"
  by (rule bounds_eqI) (simp_all add: union_simps)

lemma is_leaf_node_simps:
  "n_kind n = Leaf ord \<Longrightarrow> is_leaf_node n" "n_kind n = Internal c \<Longrightarrow> \<not> is_leaf_node n"
  by (simp_all add: is_leaf_node_def)

lemma same_leaves_update:
  "i < length ns \<Longrightarrow> \<not> is_leaf_node (ns ! i) \<Longrightarrow> \<not> is_leaf_node n \<Longrightarrow> same_leaves ns (ns[i := n])"
  by (auto simp: same_leaves_def nth_list_update)

lemma same_leaves_append: "\<not> is_leaf_node n \<Longrightarrow> same_leaves ns (ns @ [n])"
  by (auto simp: same_leaves_def nth_append)

lemma same_leaves_trans: "same_leaves ns ns1 \<Longrightarrow> same_leaves ns1 ns2 \<Longrightarrow> same_leaves ns ns2"
  unfolding same_leaves_def by (smt (verit, best) le_trans less_le_trans)

lemma kid_not_root: "distinct (ids (Shape i ss)) \<Longrightarrow> s \<in> set ss \<Longrightarrow> j \<in> set (ids s) \<Longrightarrow> j \<noteq> i"
  by auto

lemma bnode_update:
  "n_kind n = kind \<Longrightarrow> n\<lparr>n_bounds := b\<rparr> = \<lparr>n_bounds = b, n_max_order = n_max_order n, n_kind = kind\<rparr>"
  "n\<lparr>n_bounds := b, n_max_order := m, n_kind := k\<rparr> = \<lparr>n_bounds = b, n_max_order = m, n_kind = k\<rparr>"
  "n_kind n = kind \<Longrightarrow> n\<lparr>n_bounds := b, n_max_order := m\<rparr> = \<lparr>n_bounds = b, n_max_order = m, n_kind = kind\<rparr>"
  "n\<lparr>n_kind := k, n_bounds := b, n_max_order := m\<rparr> = \<lparr>n_bounds = b, n_max_order = m, n_kind = k\<rparr>"
  "n\<lparr>n_kind := k, n_bounds := b\<rparr> = \<lparr>n_bounds = b, n_max_order = n_max_order n, n_kind = k\<rparr>"
  by (cases n; simp)+

text \<open>The child has grown: its parent takes the new rectangle, order and child.\<close>

lemma grow_parent:
  fixes b :: "'u::linordered_ab_group_add bounds"
  assumes hs: "holds ns (Shape i (us @ c # vs))" and kind: "n_kind (ns ! i) = Internal children"
    and dist: "distinct (ids (Shape i (us @ c # vs)))" and k: "k < length ns" "k \<notin> set (ids (Shape i (us @ c # vs)))"
    and c: "grown ns b order k c ns1 c'"
  shows "\<exists>ns2 s'. propagate b order [i] ns1 (Some (sid c)) = Some ns2 \<and> grown ns b order k (Shape i (us @ c # vs)) ns2 s'"
proof -
  let ?ss = "us @ c # vs" and ?ts = "us @ c' # vs"
  note inner = holds_Internal [OF hs kind] and old = holds_kid [OF hs kind]
  have c': "length ns \<le> length ns1" "sid c' = sid c" "holds ns1 c'" "distinct (ids c')"
    "set (ids c') = set (ids c) \<union> {k} \<union> {length ns..<length ns1}" "\<forall>j<length ns. j \<notin> set (ids c) \<longrightarrow> ns1 ! j = ns ! j"
    "n_bounds (ns1 ! sid c) = bounds_union (n_bounds (ns ! sid c)) b" "n_max_order (ns1 ! sid c) = max (n_max_order (ns ! sid c)) order"
    "same_leaves ns ns1"
    using c by (simp_all add: grown_def)
  have i: "i < length ns" "i \<notin> set (ids c)" using inner dist by auto
  then have node: "ns1 ! i = ns ! i" using c'(6) by blast
  define kids where "kids = (if n_max_order (ns ! i) < order then moved us c' vs else ?ts)"
  define n' where "n' = \<lparr>n_bounds = bounds_union (n_bounds (ns ! i)) b, n_max_order = max (n_max_order (ns ! i)) order,
    n_kind = Internal (map sid kids)\<rparr>"
  define ns2 where "ns2 = ns1[i := n']"
  have sids: "distinct (map sid ?ss)"
  proof -
    have "distinct (concat (map ids ts)) \<Longrightarrow> distinct (map sid ts)" for ts
      by (induction ts) (auto simp: disjoint_iff, metis sid_in_ids)
    moreover have "distinct (concat (map ids ?ss))" using dist unfolding ids.simps by (simp only: distinct.simps)
    ultimately show ?thesis by blast
  qed
  have step: "propagate b order [i] ns1 (Some (sid c)) = Some ns2"
    using swap_to_end_middle [OF sids c'(2)] inner i c'(1,2)
    by (cases "n_max_order (ns ! i) < order")
      (simp_all add: get_index_def node kind ns2_def n'_def kids_def Let_def bnode_update)
  have below: "j < length ns" if "s \<in> set ?ss" "j \<in> set (ids s)" for s j
    using old [OF that(1)] holds_index that(2) by blast
  have apart: "ns2 ! j = ns ! j" if "s \<in> set us \<union> set vs" "j \<in> set (ids s)" for s j
  proof -
    have "s \<in> set ?ss" using that(1) by auto
    moreover have "j \<notin> set (ids c)" using that dist by auto
    ultimately show ?thesis using c'(6) below [of s j] kid_not_root [OF dist, of s j] that(2) by (simp add: ns2_def)
  qed
  have sidc: "sid c \<noteq> i" using i(2) sid_in_ids [of c] by metis
  have csub: "covers (n_bounds (ns ! i)) (n_bounds (ns ! sid c))" "n_max_order (ns ! sid c) \<le> n_max_order (ns ! i)"
    using old [of c] by auto
  have child: "holds ns2 c' \<and> covers (bounds_union (n_bounds (ns ! i)) b) (n_bounds (ns2 ! sid c')) \<and>
      n_max_order (ns2 ! sid c') \<le> max (n_max_order (ns ! i)) order"
  proof (intro conjI)
    have "i \<notin> set (ids c')" using c'(5) i k by auto
    then have "ns2 ! j = ns1 ! j" if "j \<in> set (ids c')" for j
      using that unfolding ns2_def by (metis nth_list_update_neq)
    then show "holds ns2 c'" by (intro holds_cong [OF c'(3)]) (simp_all add: ns2_def)
    show "covers (bounds_union (n_bounds (ns ! i)) b) (n_bounds (ns2 ! sid c'))"
      using csub(1) sidc c'(2,7) covers_trans [OF covers_union(1) csub(1)]
      by (auto simp: ns2_def intro: union_least)
    show "n_max_order (ns2 ! sid c') \<le> max (n_max_order (ns ! i)) order"
      using csub(2) sidc c'(2,8) by (auto simp: ns2_def)
  qed
  have "grown ns b order k (Shape i ?ss) ns2 (Shape i kids)"
  proof (rule grown_intro [OF hs kind, where ts = ?ts])
    show "length ns \<le> length ns2" using c'(1) by (simp add: ns2_def)
    show "ns2 ! i = \<lparr>n_bounds = bounds_union (n_bounds (ns ! i)) b, n_max_order = max (n_max_order (ns ! i)) order,
        n_kind = Internal (map sid kids)\<rparr>" using i c'(1) by (simp add: ns2_def n'_def)
    show "mset kids = mset ?ts" by (simp add: kids_def moved_facts)
    have fresh: "j \<notin> set (ids s)" if "s \<in> set us \<union> set vs" "j \<in> set (ids c')" for s j
      using that c'(5) k dist below [of s j] by auto
    show "distinct (ids (Shape i ?ts))"
      using dist c'(4,5) fresh i(1) k by auto
    show "set (ids (Shape i ?ts)) = set (ids (Shape i ?ss)) \<union> {k} \<union> {length ns..<length ns2}"
      using c'(5) by (auto simp: ns2_def)
    show "s \<in> set ?ss \<and> (\<forall>j\<in>set (ids s). ns2 ! j = ns ! j) \<or>
        holds ns2 s \<and> covers (bounds_union (n_bounds (ns ! i)) b) (n_bounds (ns2 ! sid s)) \<and>
        n_max_order (ns2 ! sid s) \<le> max (n_max_order (ns ! i)) order" if "s \<in> set ?ts" for s
      using that child apart by auto
    show "2 \<le> length kids" "length kids \<le> MAX_CHILDREN" using inner by (auto simp: kids_def moved_facts)
    show "n_max_order (ns2 ! sid (last kids)) = max (n_max_order (ns ! i)) order"
    proof (cases "n_max_order (ns ! i) < order \<or> vs = []")
      case True
      have "last kids = c'" using True by (auto simp: kids_def moved_facts)
      moreover have "max (n_max_order (ns ! sid c)) order = max (n_max_order (ns ! i)) order"
        using True csub(2) inner by auto
      ultimately show ?thesis using c'(2,8) sidc by (simp add: ns2_def)
    next
      case False
      then have "last kids = last vs" "last ?ss = last vs" "last vs \<in> set vs" by (auto simp: kids_def)
      then show ?thesis using inner apart [of "last vs" "sid (last vs)"] False by auto
    qed
    show "ns2 ! j = ns ! j" if "j < length ns" "j \<notin> set (ids (Shape i ?ss))" for j
      using that c'(6) by (auto simp: ns2_def)
    show "same_leaves ns ns2"
      unfolding ns2_def using i c'(1,9) kind node
      by (intro same_leaves_trans [OF c'(9) same_leaves_update]) (auto simp: is_leaf_node_def n'_def)
  qed
  with step show ?thesis by blast
qed

section \<open>Placing the leaf\<close>

lemma leaf_shape:
  "leaf_at ns b order k \<Longrightarrow> ns' ! k = ns ! k \<Longrightarrow> length ns \<le> length ns' \<Longrightarrow>
   holds ns' (Shape k []) \<and> n_bounds (ns' ! k) = b \<and> n_max_order (ns' ! k) = order"
  by (simp add: leaf_at_def)

lemma pair_children_ok:
  "pair_children order so c k = Some (if order > so then [c, k] else [k, c])"
  by (simp add: pair_children_def children_push_def MAX_CHILDREN_def)

text \<open>There is room: the leaf becomes the last child, or the one before it.\<close>

lemma place_with_room:
  fixes b :: "'u::linordered_ab_group_add bounds"
  assumes hs: "holds ns (Shape i ss)" and kind: "n_kind (ns ! i) = Internal children"
    and dist: "distinct (ids (Shape i ss))" and leaf: "leaf_at ns b order k" and k: "k \<notin> set (ids (Shape i ss))"
    and room: "length ss < MAX_CHILDREN"
  shows "\<exists>ns1 ns2 s'. place_leaf ns b order k i best pos = Some ns1 \<and>
    propagate b order [i] ns1 None = Some ns2 \<and> grown ns b order k (Shape i ss) ns2 s'"
proof -
  note inner = holds_Internal [OF hs kind] and old = holds_kid [OF hs kind]
  obtain ss0 sl where ss: "ss = ss0 @ [sl]" using inner by (cases ss rule: rev_cases) auto
  let ?ts = "ss @ [Shape k []]"
  define kids where "kids = (if order \<le> n_max_order (ns ! i) then ss0 @ [Shape k [], sl] else ?ts)"
  define n' where "n' = \<lparr>n_bounds = bounds_union (n_bounds (ns ! i)) b, n_max_order = max (n_max_order (ns ! i)) order,
    n_kind = Internal (map sid kids)\<rparr>"
  have i: "i < length ns" "k < length ns" "i \<noteq> k" using inner leaf k by (auto simp: leaf_at_def)
  have "swap_indices (map sid ss0 @ [sid sl, k]) (length ss0) (Suc (length ss0)) = Some (map sid ss0 @ [k, sid sl])"
    by (simp add: swap_indices_def list_update_append nth_append)
  then have place: "place_leaf ns b order k i best pos = Some (ns[i := n'])"
    using inner room i
    by (auto simp: place_leaf_def get_index_def kind children_push_def ss n'_def kids_def bnode_update)
  have twice: "propagate b order [i] (ns[i := n']) None = Some (ns[i := n'])"
    using i by (simp add: get_index_def n'_def union_twice)
  have below: "j < length ns" if "s \<in> set ss" "j \<in> set (ids s)" for s j
    using old [OF that(1)] holds_index that(2) by blast
  have same: "ns[i := n'] ! j = ns ! j" if "j \<noteq> i" for j using that by simp
  have "grown ns b order k (Shape i ss) (ns[i := n']) (Shape i kids)"
  proof (rule grown_intro [OF hs kind, where ts = ?ts])
    show "mset kids = mset ?ts" by (simp add: kids_def ss)
    show "s \<in> set ss \<and> (\<forall>j\<in>set (ids s). ns[i := n'] ! j = ns ! j) \<or>
        holds (ns[i := n']) s \<and> covers (bounds_union (n_bounds (ns ! i)) b) (n_bounds (ns[i := n'] ! sid s)) \<and>
        n_max_order (ns[i := n'] ! sid s) \<le> max (n_max_order (ns ! i)) order" if "s \<in> set ?ts" for s
    proof (cases "s \<in> set ss")
      case True
      then show ?thesis using kid_not_root [OF dist True] same by blast
    next
      case False
      then have "s = Shape k []" using that by simp
      then show ?thesis using leaf_shape [OF leaf, of "ns[i := n']"] i by simp
    qed
    show "n_max_order (ns[i := n'] ! sid (last kids)) = max (n_max_order (ns ! i)) order"
    proof (cases "order \<le> n_max_order (ns ! i)")
      case True
      have "sid sl \<noteq> i" using kid_not_root [OF dist, of sl "sid sl"] by (simp add: ss)
      then show ?thesis using True inner by (simp add: kids_def ss)
    next
      case False
      then show ?thesis using leaf i by (simp add: kids_def leaf_at_def)
    qed
    show "same_leaves ns (ns[i := n'])"
      using i kind by (intro same_leaves_update) (auto simp: is_leaf_node_def n'_def)
  qed (use inner room i dist k in \<open>auto simp: n'_def kids_def ss\<close>)
  with place twice show ?thesis by blast
qed

text \<open>The node is full: a leaf and the new one become the children of a new node in its place.\<close>

lemma place_full:
  fixes b :: "'u::linordered_ab_group_add bounds"
  assumes hs: "holds ns (Shape i (us @ c # vs))" and kind: "n_kind (ns ! i) = Internal children"
    and dist: "distinct (ids (Shape i (us @ c # vs)))" and leaf: "leaf_at ns b order k"
    and k: "k \<notin> set (ids (Shape i (us @ c # vs)))" and full: "length (us @ c # vs) = MAX_CHILDREN"
    and c: "is_leaf_node (ns ! sid c)"
  shows "\<exists>ns1 ns2 s'. place_leaf ns b order k i (sid c) (length us) = Some ns1 \<and>
    propagate b order [i] ns1 None = Some ns2 \<and> grown ns b order k (Shape i (us @ c # vs)) ns2 s'"
proof -
  let ?ss = "us @ c # vs" and ?m = "length ns" and ?so = "n_max_order (ns ! sid c)"
  note inner = holds_Internal [OF hs kind] and old = holds_kid [OF hs kind]
  have c_sub: "holds ns c" "covers (n_bounds (ns ! i)) (n_bounds (ns ! sid c))" "?so \<le> n_max_order (ns ! i)"
    using old [of c] by auto
  obtain cs where c_shape: "c = Shape (sid c) cs" by (cases c) simp
  have "cs = []" using c_sub(1) c by (subst (asm) c_shape) (auto simp: is_leaf_node_def split: node_kind.splits)
  with c_shape have c_leaf: "c = Shape (sid c) []" by simp
  have i: "i < ?m" "k < ?m" "sid c < ?m" "i \<noteq> k" "sid c \<noteq> i" "sid c \<noteq> k"
    using inner leaf k dist holds_index [OF c_sub(1) sid_in_ids] by (auto simp: leaf_at_def)
  define pair where "pair = (if order > ?so then [c, Shape k []] else [Shape k [], c])"
  define x where "x = Shape ?m pair"
  let ?ts = "us @ x # vs"
  define new where "new = \<lparr>n_bounds = bounds_union (n_bounds (ns ! sid c)) b, n_max_order = max ?so order,
    n_kind = Internal (map sid pair)\<rparr>"
  define kids where "kids = (if max ?so order > n_max_order (ns ! i) then moved us x vs else ?ts)"
  define n' where "n' = \<lparr>n_bounds = bounds_union (n_bounds (ns ! i)) b, n_max_order = max (n_max_order (ns ! i)) order,
    n_kind = Internal (map sid kids)\<rparr>"
  define ns1 where "ns1 = (ns @ [new])[i := (ns ! i)\<lparr>n_kind := Internal (map sid kids)\<rparr>]"
  define ns2 where "ns2 = (ns @ [new])[i := n']"
  define chs where "chs = map sid ?ts"
  have len: "length children = MAX_CHILDREN" using inner full by simp
  have upd: "children[length us := ?m] = chs"
    using inner list_update_length [of "map sid us" "sid c" "map sid vs" ?m] by (simp add: x_def chs_def)
  have swap: "swap_indices chs (length us) (MAX_CHILDREN - Suc 0) = Some (map sid (moved us x vs))"
  proof -
    have "MAX_CHILDREN - Suc 0 = length us + length vs" using full by simp
    then show ?thesis
      using swap_indices_map [of "length us" ?ts "length us + length vs" sid] by (simp add: moved_def chs_def del: map_append)
  qed
  have kids_chs: "Internal (map sid kids) = Internal (if max ?so order > n_max_order (ns ! i) then map sid (moved us x vs) else chs)"
    by (simp add: kids_def chs_def)
  have place: "place_leaf ns b order k i (sid c) (length us) = Some ns1"
    using i swap unfolding ns1_def kids_chs
    by (simp add: place_leaf_def get_index_def kind len pair_children_ok Let_def upd new_def pair_def)
  have up: "propagate b order [i] ns1 None = Some ns2"
    using i by (cases "n_max_order (ns ! i) < order")
      (auto simp: get_index_def ns1_def ns2_def n'_def nth_append max_def bnode_update Let_def)
  have at: "ns2 ! i = n'" "ns2 ! ?m = new" "\<And>j. j < ?m \<Longrightarrow> j \<noteq> i \<Longrightarrow> ns2 ! j = ns ! j" "length ns2 = Suc ?m"
    using i by (simp_all add: ns2_def nth_append)
  have below: "j < ?m" if "s \<in> set ?ss" "j \<in> set (ids s)" for s j
    using old [OF that(1)] holds_index that(2) by blast
  have hx: "holds ns2 x"
  proof -
    have "ids c = [sid c]" by (subst c_leaf) simp
    then have "holds ns2 c" using at(3) i by (intro holds_cong [OF c_sub(1)]) (auto simp: at(4))
    moreover have "holds ns2 (Shape k [])" "n_bounds (ns2 ! k) = b" "n_max_order (ns2 ! k) = order"
      using leaf_shape [OF leaf, of ns2] at i by auto
    ultimately show ?thesis using at i by (auto simp: x_def pair_def new_def MAX_CHILDREN_def)
  qed
  have cov: "covers (bounds_union (n_bounds (ns ! i)) b) (n_bounds new)"
    unfolding new_def using covers_trans [OF covers_union(1) c_sub(2)] by (auto intro: union_least)
  have "grown ns b order k (Shape i ?ss) ns2 (Shape i kids)"
  proof (rule grown_intro [OF hs kind, where ts = ?ts])
    show "mset kids = mset ?ts" by (simp add: kids_def moved_facts)
    show "distinct (ids (Shape i ?ts))" "set (ids (Shape i ?ts)) = set (ids (Shape i ?ss)) \<union> {k} \<union> {length ns..<length ns2}"
    proof -
      have "ids x = ?m # (if order > ?so then [sid c, k] else [k, sid c])"
        by (subst x_def) (simp add: pair_def, subst (1 2) c_leaf, simp)
      moreover have "ids c = [sid c]" by (subst c_leaf) simp
      ultimately show "distinct (ids (Shape i ?ts))"
        "set (ids (Shape i ?ts)) = set (ids (Shape i ?ss)) \<union> {k} \<union> {length ns..<length ns2}"
        using dist k i below by (auto simp: at(4))
    qed
    show "s \<in> set ?ss \<and> (\<forall>j\<in>set (ids s). ns2 ! j = ns ! j) \<or>
        holds ns2 s \<and> covers (bounds_union (n_bounds (ns ! i)) b) (n_bounds (ns2 ! sid s)) \<and>
        n_max_order (ns2 ! sid s) \<le> max (n_max_order (ns ! i)) order" if "s \<in> set ?ts" for s
    proof (cases "s = x")
      case True
      then show ?thesis using hx cov c_sub(3) at(2) by (auto simp: x_def new_def)
    next
      case False
      then have "s \<in> set ?ss" using that by auto
      then show ?thesis using at(3) below kid_not_root [OF dist] by blast
    qed
    show "n_max_order (ns2 ! sid (last kids)) = max (n_max_order (ns ! i)) order"
    proof (cases "max ?so order > n_max_order (ns ! i) \<or> vs = []")
      case True
      then have "last kids = x" by (auto simp: kids_def moved_facts)
      then show ?thesis using True c_sub(3) inner by (auto simp: x_def at(2) new_def)
    next
      case False
      then have l: "last kids = last vs" "last ?ss = last vs" "last vs \<in> set ?ss" by (auto simp: kids_def)
      then have "ns2 ! sid (last vs) = ns ! sid (last vs)"
        using at(3) below [of "last vs" "sid (last vs)"] kid_not_root [OF dist, of "last vs" "sid (last vs)"] by simp
      then show ?thesis using inner False l by auto
    qed
    show "same_leaves ns ns2"
      unfolding ns2_def using i kind
      by (intro same_leaves_trans [OF same_leaves_append same_leaves_update])
        (auto simp: is_leaf_node_def n'_def new_def nth_append)
  qed (use at inner i full in \<open>auto simp: n'_def kids_def moved_facts MAX_CHILDREN_def\<close>)
  with place up show ?thesis by blast
qed

end
