(* ===== verification/Bounds_Tree_Order.thy ===== *)
theory Bounds_Tree_Order
  imports Bounds_Tree_Insert
begin

text \<open>
  The operations of the spatial tree against their specification: the tree is the list of its
  leaves, an insertion appends one, with one more than the highest order among those it intersects.
\<close>

section \<open>The whole insertion\<close>

lemma propagate_append:
  "xs \<noteq> [] \<Longrightarrow> propagate b order (xs @ ys) ns u =
     (case propagate b order xs ns u of None \<Rightarrow> None | Some ns' \<Rightarrow> propagate b order ys ns' (Some (last xs)))"
proof (induction xs arbitrary: ns u)
  case (Cons x xs)
  then show ?case
    by (cases "xs = []") (simp_all add: Let_def split: Option.bind_split option.split node_kind.split)
qed simp

lemma descend_grow:
  fixes b :: "'u::linordered_ab_group_add bounds"
  assumes "holds ns s" and "\<not> is_leaf_node (ns ! sid s)" and "distinct (ids s)" and "leaf_at ns b order k"
    and "k \<notin> set (ids s)"
  shows "\<exists>p cur best pos ns1 ns2 s'. p \<noteq> [] \<and> hd p = sid s \<and>
    descend ns b (sid s) path = Some (path @ p, cur, best, pos) \<and>
    place_leaf ns b order k cur best pos = Some ns1 \<and> propagate b order (rev p) ns1 None = Some ns2 \<and>
    grown ns b order k s ns2 s'"
  using assms
proof (induction s arbitrary: path)
  case (Shape i ss)
  obtain children where kind: "n_kind (ns ! i) = Internal children"
    using Shape.prems(2) by (cases "n_kind (ns ! i)") (auto simp: is_leaf_node_def)
  note hs = Shape.prems(1) and dist = Shape.prems(3) and leaf = Shape.prems(4) and k = Shape.prems(5)
  note inner = holds_Internal [OF hs kind] and old = holds_kid [OF hs kind]
  have "children \<noteq> []" "\<forall>j\<in>set children. j < length ns"
    using inner holds_index [OF _ sid_in_ids] old by auto
  from best_child_ok [OF this] obtain best pos where best: "best_child ns b children = Some (best, pos)"
    and "pos < length children" "children ! pos = best" by blast
  then have pos: "pos < length ss" "sid (ss ! pos) = best" using inner by auto
  define us where "us = take pos ss"
  define c where "c = ss ! pos"
  define vs where "vs = drop (Suc pos) ss"
  have ss: "ss = us @ c # vs" "length us = pos" "sid c = best"
    using pos by (simp_all add: us_def c_def vs_def id_take_nth_drop)
  have c: "c \<in> set ss" "holds ns c" using old [of c] ss(1) by auto
  then have c_idx: "best < length ns" using holds_index sid_in_ids ss(3) by blast
  have down: "descend ns b i path =
      (if is_leaf_node (ns ! best) then Some (path @ [i], i, best, pos) else descend ns b best (path @ [i]))" for path
    using conjunct1 [OF inner] c_idx by (subst descend.simps) (simp add: get_index_def kind best)
  show ?case
  proof (cases "is_leaf_node (ns ! best)")
    case True
    have "\<exists>ns1 ns2 s'. place_leaf ns b order k i best pos = Some ns1 \<and>
        propagate b order [i] ns1 None = Some ns2 \<and> grown ns b order k (Shape i ss) ns2 s'"
    proof (cases "length ss < MAX_CHILDREN")
      case True
      then show ?thesis by (rule place_with_room [OF hs kind dist leaf k])
    next
      case False
      then have "length (us @ c # vs) = MAX_CHILDREN" using inner ss(1) by auto
      moreover have "is_leaf_node (ns ! sid c)" using \<open>is_leaf_node (ns ! best)\<close> ss(3) by simp
      ultimately show ?thesis
        using place_full [OF hs [unfolded ss(1)] kind dist [unfolded ss(1)] leaf k [unfolded ss(1)]] ss by metis
    qed
    then obtain ns1 ns2 s' where "place_leaf ns b order k i best pos = Some ns1"
      "propagate b order [i] ns1 None = Some ns2" "grown ns b order k (Shape i ss) ns2 s'" by blast
    then show ?thesis
      using down [of path] True by (intro exI [of _ "[i]"] exI [of _ i] exI [of _ best] exI [of _ pos] exI) auto
  next
    case False
    have "distinct (ids c)" "k \<notin> set (ids c)" using dist k ss(1) by auto
    then obtain p cur bst ps ns1 ns2 c' where p: "p \<noteq> []" "hd p = sid c"
      "descend ns b (sid c) (path @ [i]) = Some ((path @ [i]) @ p, cur, bst, ps)"
      "place_leaf ns b order k cur bst ps = Some ns1" "propagate b order (rev p) ns1 None = Some ns2"
      "grown ns b order k c ns2 c'"
      using Shape.IH [OF c(1) c(2) _ _ leaf, of "path @ [i]"] False ss(3) by blast
    have "k < length ns" using leaf by (simp add: leaf_at_def)
    from grow_parent [OF hs [unfolded ss(1)] kind dist [unfolded ss(1)] this k [unfolded ss(1)] p(6)]
    obtain ns3 s' where up: "propagate b order [i] ns2 (Some (sid c)) = Some ns3"
      "grown ns b order k (Shape i ss) ns3 s'" unfolding ss(1) by blast
    have "propagate b order (rev (i # p)) ns1 None = Some ns3"
      using propagate_append [of "rev p" b order "[i]" ns1 None] p(1,2,5) up(1) by (simp add: last_rev del: propagate.simps)
    with p(4) up(2) down [of path] False p(3) ss(3) show ?thesis
      by (intro exI [of _ "i # p"] exI [of _ cur] exI [of _ bst] exI [of _ ps] exI [of _ ns1] exI [of _ ns3] exI [of _ s']) simp
  qed
qed

section \<open>The tree as the list of its leaves\<close>

definition leaves_of :: "'u bnode list \<Rightarrow> ('u bounds \<times> nat) list" where
  "leaves_of ns = map (\<lambda>n. (n_bounds n, n_max_order n)) (filter is_leaf_node ns)"

definition leaves :: "'u bounds_tree \<Rightarrow> ('u bounds \<times> nat) list" where
  "leaves t = leaves_of (bt_nodes t)"

definition holds_all :: "'u::linordered_ab_group_add bnode list \<Rightarrow> nat \<Rightarrow> bool" where
  "holds_all ns r \<longleftrightarrow> (\<exists>s. sid s = r \<and> holds ns s \<and> distinct (ids s) \<and> set (ids s) = {..<length ns})"

definition bt_ok :: "'u::linordered_ab_group_add bounds_tree \<Rightarrow> bool" where
  "bt_ok t \<longleftrightarrow>
     (case bt_root t of
        None \<Rightarrow> bt_nodes t = [] \<and> bt_max_leaf t = None
      | Some r \<Rightarrow> holds_all (bt_nodes t) r \<and>
          (\<exists>m<length (bt_nodes t). bt_max_leaf t = Some m \<and> is_leaf_node (bt_nodes t ! m) \<and>
             (\<forall>(b, order)\<in>set (leaves t). order \<le> n_max_order (bt_nodes t ! m))))"

lemma same_leaves_filter: "same_leaves ns ns' \<Longrightarrow> filter is_leaf_node ns' = filter is_leaf_node ns"
proof (induction ns arbitrary: ns')
  case Nil
  then show ?case by (auto simp: same_leaves_def filter_empty_conv in_set_conv_nth)
next
  case (Cons n ns)
  obtain n' ms where ns': "ns' = n' # ms" using Cons.prems by (cases ns') (auto simp: same_leaves_def)
  have at: "if j < length (n # ns) \<and> is_leaf_node ((n # ns) ! j) then ns' ! j = (n # ns) ! j else \<not> is_leaf_node (ns' ! j)"
    if "j < length ns'" for j using Cons.prems that by (simp add: same_leaves_def)
  have "if j < length ns \<and> is_leaf_node (ns ! j) then ms ! j = ns ! j else \<not> is_leaf_node (ms ! j)" if "j < length ms" for j
    using at [of "Suc j"] that unfolding ns' by (auto split: if_splits)
  then have "same_leaves ns ms" using Cons.prems by (simp add: same_leaves_def ns')
  with Cons.IH at [of 0] show ?case by (auto simp: ns' split: if_splits)
qed

lemma leaves_of_cong: "same_leaves ns ns' \<Longrightarrow> leaves_of ns' = leaves_of ns"
  by (simp add: leaves_of_def same_leaves_filter)

lemma leaves_of_snoc:
  "leaves_of (ns @ [n]) = leaves_of ns @ (if is_leaf_node n then [(n_bounds n, n_max_order n)] else [])"
  by (simp add: leaves_of_def)

text \<open>The orders of the leaves that intersect a rectangle.\<close>

definition orders_meeting :: "('u::linordered_ab_group_add bounds \<times> nat) list \<Rightarrow> 'u bounds \<Rightarrow> nat set" where
  "orders_meeting ls q = {order. \<exists>b. (b, order) \<in> set ls \<and> intersects q b}"

lemma hits_leaves:
  assumes "holds ns s" and "set (ids s) = {..<length ns}"
  shows "hits ns q s = orders_meeting (leaves_of ns) q"
proof -
  have kind: "is_leaf_node (ns ! j) \<longleftrightarrow> n_kind (ns ! j) = Leaf (n_max_order (ns ! j))" if "j < length ns" for j
    using holds_leaf_order [OF assms(1), of j] assms(2) that by (cases "n_kind (ns ! j)") (auto simp: is_leaf_node_def)
  show ?thesis
  proof (rule set_eqI)
    fix order
    have "order \<in> hits ns q s \<longleftrightarrow> (\<exists>j<length ns. n_kind (ns ! j) = Leaf order \<and> intersects q (n_bounds (ns ! j)))"
      unfolding hits_def assms(2) by auto
    also have "\<dots> \<longleftrightarrow> (\<exists>j<length ns. is_leaf_node (ns ! j) \<and> n_max_order (ns ! j) = order \<and> intersects q (n_bounds (ns ! j)))"
      using kind by (metis is_leaf_node_simps(1) node_kind.inject(1))
    also have "\<dots> \<longleftrightarrow> order \<in> orders_meeting (leaves_of ns) q"
      by (auto simp: orders_meeting_def leaves_of_def in_set_conv_nth)
    finally show "order \<in> hits ns q s \<longleftrightarrow> order \<in> orders_meeting (leaves_of ns) q" .
  qed
qed

lemma find_max_ordering_ok:
  assumes "bt_ok t"
  shows "\<exists>r. find_max_ordering t q = Some r \<and> is_max r (insert 0 (orders_meeting (leaves t) q))"
proof (cases "bt_root t")
  case None
  with assms show ?thesis by (simp add: find_max_ordering_def bt_ok_def leaves_def leaves_of_def orders_meeting_def is_max_def)
next
  case (Some root)
  let ?ns = "bt_nodes t"
  from assms Some obtain s m where s: "sid s = root" "holds ?ns s" "set (ids s) = {..<length ?ns}"
    and m: "m < length ?ns" "bt_max_leaf t = Some m" "is_leaf_node (?ns ! m)"
      "\<forall>(b, order)\<in>set (leaves t). order \<le> n_max_order (?ns ! m)"
    by (auto simp: bt_ok_def holds_all_def)
  have root: "root < length ?ns" using holds_index [OF s(2) sid_in_ids] s(1) by simp
  show ?thesis
  proof (cases "intersects q (n_bounds (?ns ! m))")
    case True
    have "(n_bounds (?ns ! m), n_max_order (?ns ! m)) \<in> set (leaves t)"
      using m(1,3) by (auto simp: leaves_def leaves_of_def intro!: image_eqI [of _ _ "?ns ! m"])
    then have "is_max (n_max_order (?ns ! m)) (insert 0 (orders_meeting (leaves t) q))"
      using True m(4) by (auto simp: is_max_def orders_meeting_def)
    then show ?thesis using True Some m(1,2) by (simp add: find_max_ordering_def get_index_def)
  next
    case False
    from search_loop_ok [of "[s]" ?ns q 0] s
    obtain r where "search_loop ?ns q 0 [?ns ! root] = Some r" "is_max r (insert 0 (orders_meeting (leaves t) q))"
      by (auto simp: hits_leaves [OF s(2,3)] leaves_def)
    then show ?thesis using False Some m(1,2) root by (simp add: find_max_ordering_def get_index_def)
  qed
qed

lemma insert_leaf_ok:
  fixes t :: "'u::linordered_ab_group_add bounds_tree"
  assumes "bt_ok t"
  shows "\<exists>t' r. insert_leaf t b order = Some (t', length (bt_nodes t)) \<and> bt_root t' = Some r \<and>
    holds_all (bt_nodes t') r \<and> bt_max_leaf t' = bt_max_leaf t \<and>
    same_leaves (bt_nodes t @ [\<lparr>n_bounds = b, n_max_order = order, n_kind = Leaf order\<rparr>]) (bt_nodes t')"
proof -
  let ?old = "bt_nodes t" and ?new = "\<lparr>n_bounds = b, n_max_order = order, n_kind = Leaf order\<rparr>"
  let ?k = "length ?old" and ?ns = "bt_nodes t @ [\<lparr>n_bounds = b, n_max_order = order, n_kind = Leaf order\<rparr>]"
  show ?thesis
  proof (cases "bt_root t")
    case None
    then have "?old = []" using assms by (simp add: bt_ok_def)
    then have "holds_all ?ns ?k" unfolding holds_all_def by (intro exI [of _ "Shape 0 []"]) (auto simp: lessThan_Suc)
    then show ?thesis using None by (auto simp: insert_leaf_def Let_def same_leaves_def)
  next
    case (Some root)
    with assms obtain s where s: "sid s = root" "holds ?old s" "distinct (ids s)" "set (ids s) = {..<?k}"
      by (auto simp: bt_ok_def holds_all_def)
    have root: "root < ?k" using holds_index [OF s(2) sid_in_ids] s(1) by simp
    have hs: "holds ?ns s" by (rule holds_cong [OF s(2)]) (use s(4) in \<open>auto simp: nth_append\<close>)
    have leaf: "leaf_at ?ns b order ?k" by (simp add: leaf_at_def)
    show ?thesis
    proof (cases "is_leaf_node (?ns ! root)")
      case True
      obtain cs where shape: "s = Shape root cs" using s(1) by (cases s) auto
      have "cs = []" using hs True by (auto simp: shape is_leaf_node_def split: node_kind.splits)
      then have "card {..<?k} = 1" using s(4) by (simp add: shape flip: s(4))
      then have k1: "?k = 1" "root = 0" using root by simp_all
      then obtain n0 where old: "?old = [n0]" by (auto simp: length_Suc_conv)
      let ?so = "n_max_order n0"
      define kids where "kids = (if order > ?so then [Shape 0 [], Shape 1 []] else [Shape 1 [], Shape 0 []])"
      define inner where "inner = \<lparr>n_bounds = bounds_union (n_bounds n0) b, n_max_order = max ?so order, n_kind = Internal (map sid kids)\<rparr>"
      have n0: "is_leaf_node n0" "holds [n0, ?new, inner] (Shape 0 [])"
        using True holds_cong [OF s(2), of "[n0, ?new, inner]"] by (simp_all add: old k1 shape \<open>cs = []\<close>)
      let ?ns3 = "[n0, ?new, inner]"
      have "holds ?ns3 s \<and> covers (n_bounds inner) (n_bounds (?ns3 ! sid s)) \<and> n_max_order (?ns3 ! sid s) \<le> n_max_order inner"
        if "s \<in> set kids" for s
      proof -
        have "holds ?ns3 (Shape 1 [])" by simp
        then show ?thesis using that n0(2) by (auto simp: kids_def inner_def simp del: holds.simps split: if_splits)
      qed
      moreover have "n_max_order inner = n_max_order (?ns3 ! sid (last kids))" by (auto simp: inner_def kids_def)
      moreover have "2 \<le> length kids" "length kids \<le> MAX_CHILDREN" "n_kind (?ns3 ! 2) = Internal (map sid kids)" "?ns3 ! 2 = inner"
        by (auto simp: inner_def kids_def MAX_CHILDREN_def)
      ultimately have "holds ?ns3 (Shape 2 kids)" by (simp only: holds.simps node_kind.simps) simp
      then have "holds_all [n0, ?new, inner] 2"
        unfolding holds_all_def by (intro exI [of _ "Shape 2 kids"]) (auto simp: kids_def)
      moreover have "insert_leaf t b order = Some (t\<lparr>bt_nodes := [n0, ?new, inner], bt_root := Some 2\<rparr>, 1)"
        using Some k1 n0(1) True
        by (simp add: insert_leaf_def Let_def get_index_def old pair_children_ok inner_def kids_def numeral_2_eq_2)
      moreover have "same_leaves ?ns [n0, ?new, inner]"
        using same_leaves_append [of inner ?ns] by (simp add: old inner_def is_leaf_node_def)
      ultimately show ?thesis using k1 old by auto
    next
      case False
      from descend_grow [OF hs _ s(3) leaf, of "[]"] False s(1,4)
      obtain p cur best pos ns1 ns2 s' where p: "descend ?ns b root [] = Some (p, cur, best, pos)"
        "place_leaf ?ns b order ?k cur best pos = Some ns1" "propagate b order (rev p) ns1 None = Some ns2"
        "grown ?ns b order ?k s ns2 s'" by auto
      have "holds_all ns2 root"
        unfolding holds_all_def using p(4) s(1,4) by (intro exI [of _ s']) (auto simp: grown_def)
      moreover have "insert_leaf t b order = Some (t\<lparr>bt_nodes := ns2\<rparr>, ?k)"
        using Some root False p(1-3) by (simp add: insert_leaf_def Let_def get_index_def)
      ultimately show ?thesis using Some p(4) by (auto simp: grown_def)
    qed
  qed
qed

section \<open>Insertion\<close>

text \<open>The specification: one more than the highest order among the leaves met, zero when none is.\<close>

definition next_order :: "('u::linordered_ab_group_add bounds \<times> nat) list \<Rightarrow> 'u bounds \<Rightarrow> nat" where
  "next_order ls b = Suc (Max (insert 0 (orders_meeting ls b)))"

lemma finite_orders: "finite (orders_meeting ls b)"
proof -
  have "orders_meeting ls b \<subseteq> snd ` set ls" by (force simp: orders_meeting_def)
  then show ?thesis by (rule finite_subset) simp
qed

lemma is_max_Max: "is_max r S \<Longrightarrow> finite S \<Longrightarrow> r = Max S"
  by (auto simp: is_max_def intro!: Max_eqI [symmetric])

lemma bt_default_ok: "bt_ok bt_default" "leaves bt_default = []"
  by (simp_all add: bt_ok_def bt_default_def leaves_def leaves_of_def)

lemma bt_clear_ok: "bt_ok (bt_clear t)" "leaves (bt_clear t) = []"
  by (simp_all add: bt_ok_def bt_clear_def leaves_def leaves_of_def)

lemma same_leaves_nth: "same_leaves ns ns' \<Longrightarrow> j < length ns \<Longrightarrow> is_leaf_node (ns ! j) \<Longrightarrow> j < length ns' \<and> ns' ! j = ns ! j"
  by (auto simp: same_leaves_def)

lemma bt_insert_ok:
  assumes ok: "bt_ok t" and room: "next_order (leaves t) b < 2 ^ 32"
  shows "\<exists>t'. bt_insert t b = Some (t', next_order (leaves t) b) \<and> bt_ok t' \<and>
    leaves t' = leaves t @ [(b, next_order (leaves t) b)]"
proof -
  let ?o = "next_order (leaves t) b" and ?k = "length (bt_nodes t)"
  let ?ns = "bt_nodes t @ [\<lparr>n_bounds = b, n_max_order = ?o, n_kind = Leaf ?o\<rparr>]"
  from find_max_ordering_ok [OF ok, of b] obtain r where r: "find_max_ordering t b = Some r"
    "is_max r (insert 0 (orders_meeting (leaves t) b))" by blast
  then have o: "?o = Suc r" using is_max_Max [OF r(2)] finite_orders [of "leaves t" b] by (simp add: next_order_def)
  from insert_leaf_ok [OF ok, of b ?o] obtain t1 root where t1: "insert_leaf t b ?o = Some (t1, ?k)"
    "bt_root t1 = Some root" "holds_all (bt_nodes t1) root" "bt_max_leaf t1 = bt_max_leaf t" "same_leaves ?ns (bt_nodes t1)"
    by blast
  have new: "?k < length (bt_nodes t1)" "is_leaf_node (bt_nodes t1 ! ?k)" "n_max_order (bt_nodes t1 ! ?k) = ?o"
    using same_leaves_nth [OF t1(5), of ?k] by (simp_all add: is_leaf_node_def)
  have ls: "leaves_of (bt_nodes t1) = leaves t @ [(b, ?o)]"
    using leaves_of_cong [OF t1(5)] by (simp add: leaves_of_snoc is_leaf_node_def leaves_def)
  have "\<exists>m<length (bt_nodes t1). is_leaf_node (bt_nodes t1 ! m) \<and>
      (\<forall>(b', ord)\<in>set (leaves t @ [(b, ?o)]). ord \<le> n_max_order (bt_nodes t1 ! m)) \<and>
      (case bt_max_leaf t of None \<Rightarrow> Some (Some ?k) | Some old \<Rightarrow>
         get_index (bt_nodes t1) old \<bind> (\<lambda>n. Some (if n_max_order n < ?o then Some ?k else Some old))) = Some (Some m)"
  proof (cases "bt_root t")
    case None
    then have "bt_max_leaf t = None" "leaves t = []" using ok by (simp_all add: bt_ok_def leaves_def leaves_of_def)
    then show ?thesis using new by (intro exI [of _ ?k]) simp
  next
    case (Some _)
    then obtain m where m: "m < ?k" "bt_max_leaf t = Some m" "is_leaf_node (bt_nodes t ! m)"
      "\<forall>(b, ord)\<in>set (leaves t). ord \<le> n_max_order (bt_nodes t ! m)" using ok by (auto simp: bt_ok_def)
    have old: "m < length (bt_nodes t1)" "bt_nodes t1 ! m = bt_nodes t ! m"
      using same_leaves_nth [OF t1(5), of m] m(1,3) by (auto simp: nth_append)
    show ?thesis
    proof (cases "n_max_order (bt_nodes t ! m) < ?o")
      case True
      then have "\<forall>(b', ord)\<in>set (leaves t @ [(b, ?o)]). ord \<le> ?o" using m(4) by fastforce
      then show ?thesis using True new m(2) old by (intro exI [of _ ?k]) (simp add: get_index_def)
    next
      case False
      then show ?thesis using m old by (intro exI [of _ m]) (auto simp: get_index_def)
    qed
  qed
  then obtain m where m: "m < length (bt_nodes t1)" "is_leaf_node (bt_nodes t1 ! m)"
    "\<forall>(b', ord)\<in>set (leaves t @ [(b, ?o)]). ord \<le> n_max_order (bt_nodes t1 ! m)"
    "(case bt_max_leaf t of None \<Rightarrow> Some (Some ?k) | Some old \<Rightarrow>
       get_index (bt_nodes t1) old \<bind> (\<lambda>n. Some (if n_max_order n < ?o then Some ?k else Some old))) = Some (Some m)"
    by blast
  have "bt_insert t b = Some (t1\<lparr>bt_max_leaf := Some m\<rparr>, ?o)"
    using r(1) room t1(1,4) m(4) unfolding o by (simp add: bt_insert_def)
  moreover have "bt_ok (t1\<lparr>bt_max_leaf := Some m\<rparr>)" using t1(2,3) m(1-3) ls by (simp add: bt_ok_def leaves_def)
  moreover have "leaves (t1\<lparr>bt_max_leaf := Some m\<rparr>) = leaves t @ [(b, ?o)]" using ls by (simp add: leaves_def)
  ultimately show ?thesis by blast
qed

section \<open>A sequence of insertions\<close>

fun bt_insert_all :: "'u::linordered_ab_group_add bounds_tree \<Rightarrow> 'u bounds list \<Rightarrow> ('u bounds_tree \<times> nat list) option" where
  "bt_insert_all t [] = Some (t, [])"
| "bt_insert_all t (b # bs) = do { (t1, order) \<leftarrow> bt_insert t b; (t2, orders) \<leftarrow> bt_insert_all t1 bs; Some (t2, order # orders) }"

text \<open>The orders the specification gives.\<close>

fun spec_orders :: "('u::linordered_ab_group_add bounds \<times> nat) list \<Rightarrow> 'u bounds list \<Rightarrow> nat list" where
  "spec_orders ls [] = []"
| "spec_orders ls (b # bs) = next_order ls b # spec_orders (ls @ [(b, next_order ls b)]) bs"

definition orders_bounded :: "('u bounds \<times> nat) list \<Rightarrow> bool" where
  "orders_bounded ls \<longleftrightarrow> (\<forall>(b, order)\<in>set ls. order \<le> length ls)"

lemma next_order_bound: "orders_bounded ls \<Longrightarrow> next_order ls b \<le> Suc (length ls)"
  using finite_orders [of ls b] by (auto simp: next_order_def orders_bounded_def orders_meeting_def Max_le_iff)

lemma orders_bounded_snoc: "orders_bounded ls \<Longrightarrow> orders_bounded (ls @ [(b, next_order ls b)])"
  using next_order_bound [of ls b] by (auto simp: orders_bounded_def intro: le_SucI)

lemma bt_insert_all_ok:
  "bt_ok t \<Longrightarrow> orders_bounded (leaves t) \<Longrightarrow> length (leaves t) + length bs < 2 ^ 32 \<Longrightarrow>
   \<exists>t'. bt_insert_all t bs = Some (t', spec_orders (leaves t) bs) \<and> bt_ok t' \<and>
     leaves t' = leaves t @ zip bs (spec_orders (leaves t) bs)"
proof (induction bs arbitrary: t)
  case (Cons b bs)
  have "next_order (leaves t) b < 2 ^ 32" using next_order_bound [OF Cons.prems(2), of b] Cons.prems(3) by simp
  from bt_insert_ok [OF Cons.prems(1) this] obtain t1 where t1: "bt_insert t b = Some (t1, next_order (leaves t) b)"
    "bt_ok t1" "leaves t1 = leaves t @ [(b, next_order (leaves t) b)]" by blast
  from Cons.IH [OF t1(2)] orders_bounded_snoc [OF Cons.prems(2)] Cons.prems(3) t1 show ?case by auto
qed simp

lemma length_spec_orders [simp]: "length (spec_orders ls bs) = length bs"
  by (induction ls bs rule: spec_orders.induct) simp_all

lemma spec_orders_nth:
  "j < length bs \<Longrightarrow> spec_orders ls bs ! j = next_order (ls @ zip (take j bs) (spec_orders ls bs)) (bs ! j)"
proof (induction bs arbitrary: ls j)
  case (Cons b bs)
  then show ?case by (cases j) simp_all
qed simp

lemma spec_orders_above:
  assumes "i < j" and "j < length bs" and "intersects (bs ! j) (bs ! i)"
  shows "spec_orders ls bs ! i < spec_orders ls bs ! j"
proof -
  let ?os = "spec_orders ls bs" and ?ls = "ls @ zip (take j bs) (spec_orders ls bs)"
  have "(bs ! i, ?os ! i) \<in> set (zip (take j bs) ?os)"
    using assms(1,2) by (force simp: in_set_zip)
  then have "?os ! i \<in> orders_meeting ?ls (bs ! j)" using assms(3) by (auto simp: orders_meeting_def)
  then have "?os ! i \<le> Max (insert 0 (orders_meeting ?ls (bs ! j)))" using finite_orders by (intro Max_ge) auto
  then show ?thesis using spec_orders_nth [OF assms(2), of ls] by (simp add: next_order_def)
qed

end
