(* ===== verification/Bounds_Theorems.thy ===== *)
theory Bounds_Theorems
  imports Bounds_Tree_Order
begin

text \<open>
  The properties of rectangles and of the tree that orders them for drawing, with witnesses on
  integer rectangles.
\<close>

definition rect :: "int \<Rightarrow> int \<Rightarrow> int \<Rightarrow> int \<Rightarrow> int bounds" where
  "rect x y w h = \<lparr>origin = \<lparr>px = x, py = y\<rparr>, bsize = \<lparr>width = w, height = h\<rparr>\<rparr>"

section \<open>The draw order\<close>

text \<open>
  C15. Inserting fewer than 2 to the 32 rectangles into the empty tree, or into a cleared one,
  never panics and never overflows: each gets one more than the highest order among the earlier
  rectangles it intersects, as a scan over all of them would give, and the tree keeps its
  invariant and holds the rectangles with their orders. The rectangle of every node covers those
  below it, its highest order is that of its last child, and no node has more than twelve children.
\<close>

theorem draw_order_refines:
  assumes "length bs < 2 ^ 32"
  shows "\<exists>t'. bt_insert_all (bt_clear t) bs = Some (t', spec_orders [] bs) \<and>
      bt_insert_all bt_default bs = Some (t', spec_orders [] bs) \<and> bt_ok t' \<and> leaves t' = zip bs (spec_orders [] bs)"
proof -
  have "bt_clear t = bt_default" by (simp add: bt_clear_def bt_default_def)
  then show ?thesis
    using bt_insert_all_ok [OF bt_default_ok(1), of bs] assms by (simp add: bt_default_ok(2) orders_bounded_def)
qed

theorem draw_order_refines_witness:
  "\<exists>t. bt_insert_all bt_default [rect 0 0 10 10, rect 5 5 10 10, rect 20 20 5 5] = Some (t, [1, 2, 1])"
proof -
  have "spec_orders [] [rect 0 0 10 10, rect 5 5 10 10, rect 20 20 5 5] = [1, 2, 1]"
  proof -
    have meet: "orders_meeting [] q = {}" "orders_meeting ((b, ord) # ls) q =
        (if intersects q b then insert ord (orders_meeting ls q) else orders_meeting ls q)" for q b :: "int bounds" and ord ls
      by (auto simp: orders_meeting_def)
    show ?thesis by (simp add: next_order_def meet intersects_iff b_left_def b_right_def b_top_def b_bottom_def rect_def)
  qed
  moreover have "length [rect 0 0 10 10, rect 5 5 10 10, rect 20 20 5 5] < 2 ^ 32" by simp
  ultimately show ?thesis using draw_order_refines [of "[rect 0 0 10 10, rect 5 5 10 10, rect 20 20 5 5]"] by metis
qed

text \<open>
  A rectangle drawn later over an earlier one gets a strictly higher order, and no order
  exceeds the number of rectangles.
\<close>

lemma draw_order_above:
  assumes "length bs < 2 ^ 32" and "i < j" and "j < length bs" and "intersects (bs ! j) (bs ! i)"
  shows "\<exists>t orders. bt_insert_all bt_default bs = Some (t, orders) \<and> length orders = length bs \<and>
    orders ! i < orders ! j \<and> (\<forall>order\<in>set orders. 1 \<le> order \<and> order \<le> length bs)"
proof -
  have "orders_bounded ls \<Longrightarrow> \<forall>ord\<in>set (spec_orders ls bs). 1 \<le> ord \<and> ord \<le> length ls + length bs" for ls
  proof (induction bs arbitrary: ls)
    case (Cons b bs)
    then show ?case
      using Cons.IH [OF orders_bounded_snoc [OF Cons.prems, of b]] next_order_bound [OF Cons.prems, of b]
      by (auto simp: next_order_def)
  qed simp
  from this [of "[]"] show ?thesis
    using bt_insert_all_ok [OF bt_default_ok(1), of bs] assms spec_orders_above [OF assms(2-4), of "[]"]
    by (auto simp: bt_default_ok(2) orders_bounded_def)
qed

lemma draw_order_above_witness:
  "\<exists>t orders. bt_insert_all bt_default [rect 0 0 10 10, rect 20 0 5 5, rect 9 9 20 20] = Some (t, orders) \<and>
     orders ! 0 < orders ! 2"
proof -
  let ?bs = "[rect 0 0 10 10, rect 20 0 5 5, rect 9 9 20 20]"
  have "length ?bs < 2 ^ 32" "(0::nat) < 2" "2 < length ?bs" "intersects (?bs ! 2) (?bs ! 0)"
    by (simp_all add: intersects_iff b_left_def b_right_def b_top_def b_bottom_def rect_def)
  from draw_order_above [OF this] show ?thesis by metis
qed

section \<open>Rectangles\<close>

text \<open>
  The intersection of two rectangles contains exactly the points in both. The union covers
  both and is covered by every rectangle that covers both. Two rectangles that are not empty
  intersect exactly when their intersection is not empty, that is, when they share a point.
\<close>

lemma bounds_lattice:
  fixes a b c :: "'u::linordered_ab_group_add bounds"
  shows "(bounds_contains (bounds_intersect a b) p \<longleftrightarrow> bounds_contains a p \<and> bounds_contains b p) \<and>
    (covers c (bounds_union a b) \<longleftrightarrow> covers c a \<and> covers c b) \<and>
    (\<not> bounds_is_empty a \<and> \<not> bounds_is_empty b \<longrightarrow>
      (intersects a b \<longleftrightarrow> \<not> bounds_is_empty (bounds_intersect a b)) \<and>
      (intersects a b \<longleftrightarrow> (\<exists>p. bounds_contains a p \<and> bounds_contains b p)))"
proof (intro conjI impI, goal_cases)
  case 1
  show ?case by (rule contains_intersect)
next
  case 2
  show ?case using union_least covers_union covers_trans by blast
next
  case 3
  then show ?case by (intro intersects_not_empty) auto
next
  case 4
  then have "intersects a b \<longleftrightarrow> \<not> bounds_is_empty (bounds_intersect a b)" by (intro intersects_not_empty) auto
  moreover have "\<exists>p. bounds_contains c p \<Longrightarrow> \<not> bounds_is_empty c" for c :: "'u bounds"
    by (auto simp: contains_iff is_empty_iff)
  ultimately show ?case using not_empty_contains contains_intersect by metis
qed

lemma bounds_lattice_witness:
  "intersects (rect 0 0 10 10) (rect 9 9 5 5) \<and> \<not> intersects (rect 0 0 10 10) (rect 10 0 5 5)"
proof -
  have e: "\<not> bounds_is_empty (rect 0 0 10 10)" "\<not> bounds_is_empty (rect 9 9 5 5)" "\<not> bounds_is_empty (rect 10 0 5 5)"
    by (simp_all add: bounds_is_empty_def rect_def)
  have "bounds_contains (rect 0 0 10 10) \<lparr>px = 9, py = 9\<rparr>" "bounds_contains (rect 9 9 5 5) \<lparr>px = 9, py = 9\<rparr>"
    by (simp_all add: bounds_contains_def rect_def)
  moreover have "bounds_is_empty (bounds_intersect (rect 0 0 10 10) (rect 10 0 5 5))"
    by (simp add: bounds_is_empty_def bounds_intersect_def from_corners_def bottom_right_def rect_def)
  ultimately show ?thesis
    using bounds_lattice [of "rect 0 0 10 10" "rect 9 9 5 5"] bounds_lattice [of "rect 0 0 10 10" "rect 10 0 5 5"] e by blast
qed

text \<open>
  Placing a rectangle by an anchor puts that anchor at the given point, for every anchor and
  whatever halving does; growing and shrinking by the same amount, and extending by the space
  within an outer rectangle, give the rectangle back and the outer one.
\<close>

lemma bounds_roundtrips:
  fixes b outer :: "'u::linordered_ab_group_add bounds"
  shows "corner half (from_anchor_and_size half a p s) a = p \<and> bsize (from_anchor_and_size half a p s) = s \<and>
    inset (dilate b r) r = b \<and> bounds_extend b (space_within b outer) = outer \<and>
    anchor_opposite (anchor_opposite a) = a \<and> other_side_along (other_side_along a ax) ax = a"
  using corner_from_anchor [of half a p s] dilate_inset [of b r] extend_space_within [of b outer]
  by (cases a; cases ax) (simp_all add: from_anchor_and_size_def)

text \<open>A point on the right edge is not inside; the documentation says that edges are included.\<close>

lemma contains_right_edge: "\<not> bounds_contains (rect 0 0 10 10) \<lparr>px = 10, py = 5\<rparr>"
  by (simp add: bounds_contains_def rect_def)

text \<open>Apart in one direction only, the intersection keeps its extent in the other.\<close>

lemma intersect_apart: "bounds_intersect (rect 0 0 10 10) (rect 20 0 10 10) = rect 20 0 0 10"
  by (simp add: bounds_intersect_def from_corners_def bottom_right_def rect_def point_max_def point_min_def)

text \<open>A rectangle without area intersects one around it.\<close>

lemma intersects_no_area: "intersects (rect 5 5 0 0) (rect 0 0 10 10)"
  by (simp add: intersects_iff b_left_def b_right_def b_top_def b_bottom_def rect_def)

end
