(* ===== verification/Priority_Queue.thy ===== *)
theory Priority_Queue
  imports Prelude "HOL-Library.Word"
begin

text \<open>
  The dispatch queue of the background executors (\<open>gpui/src/queue.rs\<close>) with the
  priorities of \<open>scheduler/src/scheduler.rs\<close>. A panic is \<open>None\<close>. The random generator is
  not part of the repository: \<open>random_ratio\<close> is a parameter \<open>ratio\<close> on an abstract
  generator state, and its documented panics (a zero denominator, a numerator above the
  denominator) are branches of \<open>flip\<close>. Counters of handles are 64-bit words.
\<close>

section \<open>Priorities\<close>

datatype priority = RealtimeAudio | High | Medium | Low

fun weight :: "priority \<Rightarrow> 32 word" where
  "weight High = 60"
| "weight Medium = 30"
| "weight Low = 10"
| "weight RealtimeAudio = 0"

section \<open>The queues\<close>

record 'a queues =
  high_priority :: "'a list"
  medium_priority :: "'a list"
  low_priority :: "'a list"

definition queues_empty :: "'a queues \<Rightarrow> bool" where
  "queues_empty q \<longleftrightarrow> high_priority q = [] \<and> medium_priority q = [] \<and> low_priority q = []"

record 'a channel =
  queues :: "'a queues"
  receiver_count :: "64 word"
  sender_count :: "64 word"

datatype 'a send_error = SendError 'a

datatype recv_error = RecvError

fun queues_push :: "'a queues \<Rightarrow> priority \<Rightarrow> 'a \<Rightarrow> 'a queues option" where
  "queues_push q RealtimeAudio item = None"
| "queues_push q High item = Some (q\<lparr>high_priority := high_priority q @ [item]\<rparr>)"
| "queues_push q Medium item = Some (q\<lparr>medium_priority := medium_priority q @ [item]\<rparr>)"
| "queues_push q Low item = Some (q\<lparr>low_priority := low_priority q @ [item]\<rparr>)"

text \<open>
  Sending returns the error or the new state. The lock is held from the check of the
  count to the end only in \<open>push_locked\<close>; the check before it is a step of its own in the
  system of threads below.
\<close>

definition push_locked :: "'a channel \<Rightarrow> priority \<Rightarrow> 'a \<Rightarrow> 'a channel option" where
  "push_locked ch p item =
     do { q \<leftarrow> queues_push (queues ch) p item; Some (ch\<lparr>queues := q\<rparr>) }"

definition send :: "'a channel \<Rightarrow> priority \<Rightarrow> 'a \<Rightarrow> ('a send_error + 'a channel) option" where
  "send ch p item =
     (if receiver_count ch = 0 then Some (Inl (SendError item))
      else do { ch \<leftarrow> push_locked ch p item; Some (Inr ch) })"

text \<open>
  Spinning: \<open>try_lock\<close> is asked until it succeeds. The answers, which depend on the other
  threads, are the sequence \<open>free\<close>; the result is the number of the attempt that got the
  lock, and \<open>None\<close> when none ever does.
\<close>

partial_function (option) spin :: "(nat \<Rightarrow> bool) \<Rightarrow> nat \<Rightarrow> nat option" where
  "spin free k = (if free k then Some k else spin free (k + 1))"

declare spin.simps [code]

definition spin_send ::
  "(nat \<Rightarrow> bool) \<Rightarrow> 'a channel \<Rightarrow> priority \<Rightarrow> 'a \<Rightarrow> ('a send_error + 'a channel) option" where
  "spin_send free ch p item =
     (if receiver_count ch = 0 then Some (Inl (SendError item))
      else do { _ \<leftarrow> spin free 0; ch \<leftarrow> push_locked ch p item; Some (Inr ch) })"

section \<open>Receiving\<close>

text \<open>
  \<open>recv\<close> holds the lock when it returns; \<open>Waits\<close> is the call parked on the condition
  variable. \<open>try_recv\<close> answers whether the locked queues have an element.
\<close>

datatype lock = Locked | Waits

definition recv :: "'a channel \<Rightarrow> recv_error + lock" where
  "recv ch =
     (if queues_empty (queues ch) \<and> sender_count ch = 0 then Inl RecvError
      else if queues_empty (queues ch) then Inr Waits
      else Inr Locked)"

definition recv_woken :: "'a channel \<Rightarrow> lock" where
  "recv_woken ch = (if queues_empty (queues ch) then Waits else Locked)"

definition try_recv :: "'a channel \<Rightarrow> recv_error + unit option" where
  "try_recv ch =
     (if queues_empty (queues ch) \<and> sender_count ch = 0 then Inl RecvError
      else if queues_empty (queues ch) then Inr None
      else Inr (Some ()))"

definition spin_try_recv :: "(nat \<Rightarrow> bool) \<Rightarrow> 'a channel \<Rightarrow> (recv_error + unit option) option" where
  "spin_try_recv free ch =
     do { _ \<leftarrow> spin free 0;
          Some (if queues_empty (queues ch) \<and> sender_count ch = 0 then Inl RecvError
                else if queues_empty (queues ch) then Inr None
                else Inr (Some ())) }"

section \<open>Popping\<close>

type_synonym 'r ratio = "'r \<Rightarrow> 32 word \<Rightarrow> 32 word \<Rightarrow> bool \<times> 'r"

definition flip :: "'r ratio \<Rightarrow> 'r \<Rightarrow> 32 word \<Rightarrow> 32 word \<Rightarrow> (bool \<times> 'r) option" where
  "flip ratio r num den = (if den = 0 \<or> den < num then None else Some (ratio r num den))"

definition checked_sub :: "32 word \<Rightarrow> 32 word \<Rightarrow> 32 word option" where
  "checked_sub a b = (if b \<le> a then Some (a - b) else None)"

fun pop_front :: "'a list \<Rightarrow> 'a option \<times> 'a list" where
  "pop_front [] = (None, [])"
| "pop_front (x # xs) = (Some x, xs)"

definition present :: "priority \<Rightarrow> 'a list \<Rightarrow> 32 word" where
  "present p xs = weight p * of_bool (xs \<noteq> [])"

text \<open>
  The loaded die: one biased coin per nonempty queue, the mass shrinking by the weight of
  every queue that was passed over.
\<close>

definition pop_low :: "'r ratio \<Rightarrow> 'a queues \<Rightarrow> 32 word \<Rightarrow> 'r \<Rightarrow> ('a option \<times> 'a queues \<times> 'r) option" where
  "pop_low ratio q mass r =
     (if low_priority q \<noteq> [] then
        do { (heads, r) \<leftarrow> flip ratio r (weight Low) mass;
             if heads then
               let (x, rest) = pop_front (low_priority q) in Some (x, q\<lparr>low_priority := rest\<rparr>, r)
             else Some (None, q, r) }
      else Some (None, q, r))"

definition pop_medium :: "'r ratio \<Rightarrow> 'a queues \<Rightarrow> 32 word \<Rightarrow> 'r \<Rightarrow> ('a option \<times> 'a queues \<times> 'r) option" where
  "pop_medium ratio q mass r =
     (if medium_priority q \<noteq> [] then
        do { (heads, r) \<leftarrow> flip ratio r (weight Medium) mass;
             if heads then
               let (x, rest) = pop_front (medium_priority q) in Some (x, q\<lparr>medium_priority := rest\<rparr>, r)
             else do { mass \<leftarrow> checked_sub mass (weight Medium); pop_low ratio q mass r } }
      else pop_low ratio q mass r)"

definition pop_high :: "'r ratio \<Rightarrow> 'a queues \<Rightarrow> 32 word \<Rightarrow> 'r \<Rightarrow> ('a option \<times> 'a queues \<times> 'r) option" where
  "pop_high ratio q mass r =
     (if high_priority q \<noteq> [] then
        do { (heads, r) \<leftarrow> flip ratio r (weight High) mass;
             if heads then
               let (x, rest) = pop_front (high_priority q) in Some (x, q\<lparr>high_priority := rest\<rparr>, r)
             else do { mass \<leftarrow> checked_sub mass (weight High); pop_medium ratio q mass r } }
      else pop_medium ratio q mass r)"

definition pop_queues :: "'r ratio \<Rightarrow> 'a queues \<Rightarrow> 'r \<Rightarrow> ('a option \<times> 'a queues \<times> 'r) option" where
  "pop_queues ratio q r =
     (let high = present High (high_priority q);
          medium = present Medium (medium_priority q);
          low = present Low (low_priority q);
          mass = high + medium + low in
      pop_high ratio q mass r)"

record 'r receiver =
  rand :: 'r
  disconnected :: bool

text \<open>
  One call of \<open>pop_inner\<close>: it panics, blocks, or returns with the new state. The part
  after the lock is shared by the blocking, the non-blocking and the spinning call.
\<close>

datatype ('a, 'r) popped =
  Panics | Blocks | Returns "recv_error + 'a option" "'a channel" "'r receiver"

definition pop_locked :: "'r ratio \<Rightarrow> 'a channel \<Rightarrow> 'r receiver \<Rightarrow> ('a, 'r) popped" where
  "pop_locked ratio ch rc =
     (case pop_queues ratio (queues ch) (rand rc) of
        None \<Rightarrow> Panics
      | Some (x, q, r) \<Rightarrow> Returns (Inr x) (ch\<lparr>queues := q\<rparr>) (rc\<lparr>rand := r\<rparr>))"

definition pop_inner :: "'r ratio \<Rightarrow> bool \<Rightarrow> 'a channel \<Rightarrow> 'r receiver \<Rightarrow> ('a, 'r) popped" where
  "pop_inner ratio block ch rc =
     (if \<not> block then
        (case try_recv ch of
           Inl e \<Rightarrow> Returns (Inl e) ch rc
         | Inr None \<Rightarrow> Returns (Inr None) ch rc
         | Inr (Some _) \<Rightarrow> pop_locked ratio ch rc)
      else
        (case recv ch of
           Inl e \<Rightarrow> Returns (Inl e) ch rc
         | Inr Waits \<Rightarrow> Blocks
         | Inr Locked \<Rightarrow> pop_locked ratio ch rc))"

definition try_pop :: "'r ratio \<Rightarrow> 'a channel \<Rightarrow> 'r receiver \<Rightarrow> ('a, 'r) popped" where
  "try_pop ratio ch rc = pop_inner ratio False ch rc"

definition spin_try_pop ::
  "(nat \<Rightarrow> bool) \<Rightarrow> 'r ratio \<Rightarrow> 'a channel \<Rightarrow> 'r receiver \<Rightarrow> ('a, 'r) popped" where
  "spin_try_pop free ratio ch rc =
     (case spin_try_recv free ch of
        None \<Rightarrow> Blocks
      | Some (Inl e) \<Rightarrow> Returns (Inl e) ch rc
      | Some (Inr None) \<Rightarrow> Returns (Inr None) ch rc
      | Some (Inr (Some _)) \<Rightarrow> pop_locked ratio ch rc)"

text \<open>\<open>pop\<close> unwraps the element: nothing popped is a panic.\<close>

definition pop :: "'r ratio \<Rightarrow> 'a channel \<Rightarrow> 'r receiver \<Rightarrow> ('a, 'r) popped" where
  "pop ratio ch rc =
     (case pop_inner ratio True ch rc of
        Returns (Inr None) _ _ \<Rightarrow> Panics
      | other \<Rightarrow> other)"

section \<open>Handles and iterators\<close>

definition queue_new :: "'r \<Rightarrow> 'a channel \<times> 'r receiver" where
  "queue_new seed0 =
     (\<lparr>queues = \<lparr>high_priority = [], medium_priority = [], low_priority = []\<rparr>,
       receiver_count = 1, sender_count = 1\<rparr>,
      \<lparr>rand = seed0, disconnected = False\<rparr>)"

definition is_empty :: "'a channel \<Rightarrow> bool" where
  "is_empty ch = queues_empty (queues ch)"

definition drop_sender :: "'a channel \<Rightarrow> 'a channel" where
  "drop_sender ch = ch\<lparr>sender_count := sender_count ch - 1\<rparr>"

definition drop_receiver :: "'a channel \<Rightarrow> 'a channel" where
  "drop_receiver ch = ch\<lparr>receiver_count := receiver_count ch - 1\<rparr>"

definition clone_receiver :: "'r \<Rightarrow> 'a channel \<Rightarrow> 'r receiver \<Rightarrow> 'a channel \<times> 'r receiver" where
  "clone_receiver seed0 ch rc =
     (ch\<lparr>receiver_count := receiver_count ch + 1\<rparr>,
      \<lparr>rand = seed0, disconnected = disconnected rc\<rparr>)"

record 'r try_iterator =
  it_receiver :: "'r receiver"
  ended :: bool

definition try_iter :: "'r receiver \<Rightarrow> 'r try_iterator" where
  "try_iter rc = \<lparr>it_receiver = rc, ended = False\<rparr>"

text \<open>The outer option is the panic of the call below.\<close>

definition try_iter_next ::
  "'r ratio \<Rightarrow> 'a channel \<Rightarrow> 'r try_iterator
   \<Rightarrow> ((recv_error + 'a) option \<times> 'a channel \<times> 'r try_iterator) option" where
  "try_iter_next ratio ch it =
     (if ended it then Some (None, ch, it)
      else case try_pop ratio ch (it_receiver it) of
             Returns (Inl e) ch rc \<Rightarrow> Some (Some (Inl e), ch, \<lparr>it_receiver = rc, ended = True\<rparr>)
           | Returns (Inr None) ch rc \<Rightarrow> Some (None, ch, \<lparr>it_receiver = rc, ended = False\<rparr>)
           | Returns (Inr (Some x)) ch rc \<Rightarrow> Some (Some (Inr x), ch, \<lparr>it_receiver = rc, ended = False\<rparr>)
           | _ \<Rightarrow> None)"

text \<open>The blocking iterator: \<open>None\<close> outside when the call blocks or panics.\<close>

definition blocking_iter_next ::
  "'r ratio \<Rightarrow> 'a channel \<Rightarrow> 'r receiver \<Rightarrow> ('a option \<times> 'a channel \<times> 'r receiver) option" where
  "blocking_iter_next ratio ch rc =
     (case pop ratio ch rc of
        Returns (Inl e) ch rc \<Rightarrow> Some (None, ch, rc)
      | Returns (Inr x) ch rc \<Rightarrow> Some (x, ch, rc)
      | _ \<Rightarrow> None)"

end
