(* ===== verification/Priority_Queue_Threads.thy ===== *)
theory Priority_Queue_Threads
  imports Complex_Main Priority_Queue
begin

text \<open>
  Correctness of the dispatch queue: what one pop takes and with which chance, and the
  system of threads that share a channel as a step relation with its invariant.
\<close>

section \<open>The queue of a priority\<close>

fun queue_of :: "'a queues \<Rightarrow> priority \<Rightarrow> 'a list" where
  "queue_of q RealtimeAudio = []"
| "queue_of q High = high_priority q"
| "queue_of q Medium = medium_priority q"
| "queue_of q Low = low_priority q"

definition queued :: "'a queues \<Rightarrow> nat" where
  "queued q = length (queue_of q High) + length (queue_of q Medium) + length (queue_of q Low)"

lemma queues_empty_iff: "queues_empty q \<longleftrightarrow> queued q = 0"
  by (auto simp: queues_empty_def queued_def)

lemma all_priorities: "(\<forall>p. P p) \<longleftrightarrow> P RealtimeAudio \<and> P High \<and> P Medium \<and> P Low"
  by (metis priority.exhaust)

lemma queues_push_ok:
  assumes "queues_push q p x = Some q'"
  shows "queue_of q' = (queue_of q)(p := queue_of q p @ [x])" "queued q' = Suc (queued q)"
  using assms by (cases p; auto simp: fun_eq_iff all_priorities queued_def)+

text \<open>What popping did: the front of the queue of \<open>p\<close> was taken, the others are as before.\<close>

definition took :: "'a queues \<Rightarrow> priority \<Rightarrow> 'a \<Rightarrow> 'a queues \<Rightarrow> bool" where
  "took q p x q' \<longleftrightarrow> queue_of q p = x # queue_of q' p \<and> (\<forall>p'. p' \<noteq> p \<longrightarrow> queue_of q' p' = queue_of q p')"

lemma tookI:
  "high_priority q = x # xs \<Longrightarrow> took q High x (q\<lparr>high_priority := xs\<rparr>)"
  "medium_priority q = x # xs \<Longrightarrow> took q Medium x (q\<lparr>medium_priority := xs\<rparr>)"
  "low_priority q = x # xs \<Longrightarrow> took q Low x (q\<lparr>low_priority := xs\<rparr>)"
  by (auto simp: took_def all_priorities)

lemma took_total: "took q p x q' \<Longrightarrow> queued q = Suc (queued q')"
  by (cases p) (auto simp: took_def queued_def all_priorities)

section \<open>One pop\<close>

text \<open>The documented behaviour of a biased coin with equal numerator and denominator.\<close>

definition certain :: "'r ratio \<Rightarrow> bool" where
  "certain ratio \<longleftrightarrow> (\<forall>r d. d \<noteq> 0 \<longrightarrow> fst (ratio r d d))"

lemma certainD: "certain ratio \<Longrightarrow> ratio r d d = (False, r') \<Longrightarrow> d = 0"
  by (metis certain_def fst_conv)

definition popped_front :: "'a queues \<Rightarrow> ('a option \<times> 'a queues \<times> 'r) option \<Rightarrow> bool" where
  "popped_front q out \<longleftrightarrow>
     (\<forall>res q' r'. out = Some (res, q', r') \<longrightarrow>
        (res = None \<and> q' = q) \<or> (\<exists>p x. res = Some x \<and> took q p x q'))"

lemma popped_front_simps [simp]:
  "popped_front q None"
  "popped_front q (Some (None, q, r))"
  "popped_front q (Some (Some x, q', r)) \<longleftrightarrow> (\<exists>p. took q p x q')"
  by (auto simp: popped_front_def)

lemma pop_low_front: "popped_front q (pop_low ratio q m r)"
  by (cases "low_priority q") (auto simp: pop_low_def split: Option.bind_split intro: tookI)

lemma pop_medium_front: "popped_front q (pop_medium ratio q m r)"
  by (cases "medium_priority q")
    (auto simp: pop_medium_def pop_low_front split: Option.bind_split intro: tookI)

lemma pop_high_front: "popped_front q (pop_high ratio q m r)"
  by (cases "high_priority q")
    (auto simp: pop_high_def pop_medium_front split: Option.bind_split intro: tookI)

lemma pop_queues_cases:
  assumes "pop_queues ratio q r = Some (res, q', r')"
  shows "(res = None \<and> q' = q) \<or> (\<exists>p x. res = Some x \<and> took q p x q')"
  using assms pop_high_front [of q ratio _ r]
  by (auto simp: pop_queues_def Let_def popped_front_def)

lemma pop_queues_empty: "queues_empty q \<Longrightarrow> pop_queues ratio q r = Some (None, q, r)"
  by (simp add: pop_queues_def queues_empty_def pop_high_def pop_medium_def pop_low_def Let_def)

lemma pop_queues_nonempty:
  assumes "certain ratio" "\<not> queues_empty q"
  shows "\<exists>p x q' r'. pop_queues ratio q r = Some (Some x, q', r') \<and> took q p x q'"
proof -
  have "\<exists>res q' r'. pop_queues ratio q r = Some (res, q', r') \<and> res \<noteq> None"
    using assms unfolding pop_queues_def Let_def pop_high_def pop_medium_def pop_low_def
    by (cases "high_priority q"; cases "medium_priority q"; cases "low_priority q")
      (auto simp: queues_empty_def present_def flip_def checked_sub_def
        split: prod.splits dest: certainD)
  then show ?thesis
    using pop_queues_cases by (metis not_None_eq option.distinct(1))
qed

section \<open>The chance of a priority\<close>

text \<open>
  An instrumented generator notes every coin with its outcome. The likelihood of a run is
  the product over its coins of the chance of the side each one showed.
\<close>

type_synonym coins = "(32 word \<times> 32 word \<times> bool) list"

definition logged :: "'r ratio \<Rightarrow> ('r \<times> coins) ratio" where
  "logged ratio = (\<lambda>(r, coins) num den.
     let (heads, r') = ratio r num den in (heads, (r', coins @ [(num, den, heads)])))"

fun likelihood :: "coins \<Rightarrow> rat" where
  "likelihood [] = 1"
| "likelihood ((num, den, heads) # coins) =
     (let chance = of_nat (unat num) / of_nat (unat den) in
      (if heads then chance else 1 - chance) * likelihood coins)"

definition share :: "priority \<Rightarrow> 'a queues \<Rightarrow> nat" where
  "share p q = (if queue_of q p = [] then 0 else unat (weight p))"

lemma logged_flip:
  "flip (logged ratio) (r, coins) num den =
     map_option (\<lambda>(heads, r'). (heads, (r', coins @ [(num, den, heads)]))) (flip ratio r num den)"
  by (auto simp: flip_def logged_def Let_def split: prod.splits)

text \<open>
  Two runs from \<open>r\<close>, plain and instrumented, take the same element from the queue of some
  \<open>p\<close>, with the likelihood that \<open>p\<close> has among the shares \<open>w\<close>.
\<close>

definition fair_run ::
  "'a queues \<Rightarrow> nat \<Rightarrow> 'r \<Rightarrow> ('r \<Rightarrow> ('a option \<times> 'a queues \<times> 'r) option) \<Rightarrow>
   ('r \<times> coins \<Rightarrow> ('a option \<times> 'a queues \<times> 'r \<times> coins) option) \<Rightarrow> bool" where
  "fair_run q w r run run_logged \<longleftrightarrow>
     (\<exists>p x q' r' cs. run r = Some (Some x, q', r') \<and> took q p x q' \<and>
        (\<forall>c. run_logged (r, c) = Some (Some x, q', (r', c @ cs))) \<and>
        likelihood cs = of_nat (share p q) / of_nat w)"

lemma fair_low:
  assumes "certain ratio" "low_priority q \<noteq> []"
  shows "fair_run q 10 r (pop_low ratio q 10) (pop_low (logged ratio) q 10)"
proof (cases "ratio r 10 10")
  case (Pair heads r')
  then have "ratio r 10 10 = (True, r')" using certainD [OF assms(1), of r 10 r'] by (cases heads) auto
  then have "flip ratio r 10 10 = Some (True, r')" by (simp add: flip_def)
  then show ?thesis
    using assms(2) unfolding fair_run_def
    by (cases "low_priority q")
      (auto simp: pop_low_def logged_flip share_def tookI
        intro!: exI [of _ Low] exI [of _ "[(10, 10, True)]"])
qed

lemma fair_medium:
  assumes "certain ratio" "medium_priority q \<noteq> [] \<or> low_priority q \<noteq> []"
  shows "fair_run q (share Medium q + share Low q) r
    (pop_medium ratio q (present Medium (medium_priority q) + present Low (low_priority q)))
    (pop_medium (logged ratio) q (present Medium (medium_priority q) + present Low (low_priority q)))"
proof (cases "medium_priority q")
  case Nil
  then show ?thesis
    using assms fair_low [OF assms(1), of q r]
    by (simp add: fair_run_def pop_medium_def share_def present_def)
next
  case (Cons y ys)
  define m where "m = present Medium (medium_priority q) + present Low (low_priority q)"
  have m: "m = (if low_priority q = [] then 30 else 40)"
    using Cons by (simp add: m_def present_def)
  obtain heads r1 where coin: "ratio r 30 m = (heads, r1)" by force
  then have flip: "flip ratio r 30 m = Some (heads, r1)"
    using m by (simp add: flip_def)
  have w: "share Medium q + share Low q = unat m"
    using Cons m by (simp add: share_def)
  show ?thesis
  proof (cases heads)
    case True
    then show ?thesis
      using Cons flip unfolding fair_run_def w m_def [symmetric]
      by (auto simp: pop_medium_def logged_flip share_def tookI
          intro!: exI [of _ Medium] exI [of _ "[(30, m, True)]"])
  next
    case False
    then have low: "low_priority q \<noteq> []"
      using coin m certainD [OF assms(1), of r 30 r1] by (cases "low_priority q") auto
    then have "m = 40" using m by simp
    obtain p x q' r' cs where run: "pop_low ratio q 10 r1 = Some (Some x, q', r')" "took q p x q'"
      "\<And>c. pop_low (logged ratio) q 10 (r1, c) = Some (Some x, q', (r', c @ cs))"
      "likelihood cs = of_nat (share p q) / 10"
      using fair_low [OF assms(1) low, of r1] unfolding fair_run_def by auto
    show ?thesis
      using False Cons flip run \<open>m = 40\<close> unfolding fair_run_def w m_def [symmetric]
      by (auto simp: pop_medium_def logged_flip checked_sub_def
          intro!: exI [of _ p] exI [of _ "(30, 40, False) # cs"])
  qed
qed

lemma fair_high:
  assumes "certain ratio" "\<not> queues_empty q"
  shows "fair_run q (share High q + share Medium q + share Low q) r
    (pop_queues ratio q) (pop_queues (logged ratio) q)"
proof (cases "high_priority q")
  case Nil
  then show ?thesis
    using assms fair_medium [OF assms(1), of q r]
    by (simp add: fair_run_def pop_queues_def pop_high_def share_def present_def queues_empty_def Let_def)
next
  case (Cons y ys)
  define m where "m = present High (high_priority q) + present Medium (medium_priority q)
    + present Low (low_priority q)"
  define n where "n = present Medium (medium_priority q) + present Low (low_priority q)"
  have n: "n = (if medium_priority q = [] then 0 else 30) + (if low_priority q = [] then 0 else 10)"
    by (simp add: n_def present_def)
  have m: "m = 60 + n"
    using Cons by (simp add: m_def n_def present_def)
  obtain heads r1 where coin: "ratio r 60 m = (heads, r1)" by force
  then have flip: "flip ratio r 60 m = Some (heads, r1)"
    using m n by (simp add: flip_def)
  have w: "share High q + share Medium q + share Low q = unat m"
    using Cons m n by (simp add: share_def)
  show ?thesis
  proof (cases heads)
    case True
    then show ?thesis
      using Cons flip unfolding fair_run_def w pop_queues_def Let_def m_def [symmetric]
      by (auto simp: pop_high_def logged_flip share_def tookI
          intro!: exI [of _ High] exI [of _ "[(60, m, True)]"])
  next
    case False
    then have rest: "medium_priority q \<noteq> [] \<or> low_priority q \<noteq> []"
      using coin m n certainD [OF assms(1), of r 60 r1]
      by (cases "medium_priority q"; cases "low_priority q") auto
    obtain p x q' r' cs where run: "pop_medium ratio q n r1 = Some (Some x, q', r')" "took q p x q'"
      "\<And>c. pop_medium (logged ratio) q n (r1, c) = Some (Some x, q', (r', c @ cs))"
      "likelihood cs = of_nat (share p q) / of_nat (share Medium q + share Low q)"
      using fair_medium [OF assms(1) rest, of r1] unfolding fair_run_def n_def by auto
    have sub: "checked_sub m 60 = Some n"
      using m n rest by (auto simp: checked_sub_def split: if_splits)
    have chance: "(1 - 60 / of_nat (unat m)) * likelihood cs = of_nat (share p q) / of_nat (unat m)"
      using run(4) rest m n by (auto simp: share_def split: if_splits)
    show ?thesis
      using False Cons flip run sub chance unfolding fair_run_def w pop_queues_def Let_def m_def [symmetric]
      by (auto simp: pop_high_def logged_flip
          intro!: exI [of _ p] exI [of _ "(60, m, False) # cs"])
  qed
qed

section \<open>Calls on the channel\<close>

lemma pop_locked_nonempty:
  assumes "certain ratio" "\<not> is_empty ch"
  shows "\<exists>p x q' r'. pop_locked ratio ch rc = Returns (Inr (Some x)) (ch\<lparr>queues := q'\<rparr>) (rc\<lparr>rand := r'\<rparr>)
    \<and> took (queues ch) p x q'"
  using pop_queues_nonempty [OF assms(1), of "queues ch" "rand rc"] assms(2)
  by (force simp: pop_locked_def is_empty_def)

lemma pop_inner_eq:
  "pop_inner ratio block ch rc =
     (if \<not> is_empty ch then pop_locked ratio ch rc
      else if sender_count ch = 0 then Returns (Inl RecvError) ch rc
      else if block then Blocks else Returns (Inr None) ch rc)"
  by (simp add: pop_inner_def try_recv_def recv_def is_empty_def)

lemma pop_locked_Returns:
  assumes "pop_locked ratio ch rc = Returns res ch' rc'"
  shows "\<exists>q' r'. ch' = ch\<lparr>queues := q'\<rparr> \<and> rc' = rc\<lparr>rand := r'\<rparr> \<and>
    ((res = Inr None \<and> q' = queues ch) \<or> (\<exists>p x. res = Inr (Some x) \<and> took (queues ch) p x q'))"
  using assms pop_queues_cases unfolding pop_locked_def
  by (fastforce split: option.splits prod.splits)

lemma spin_free: "spin free k = Some n \<Longrightarrow> free n"
  by (erule spin.raw_induct [rotated, where P = "\<lambda>free _ n. free n"]) (auto split: if_splits)

lemma spin_stops: "free (k + d) \<Longrightarrow> \<exists>n. spin free k = Some n"
proof (induction d arbitrary: k)
  case (Suc d)
  then show ?case
    using Suc.IH [of "Suc k"] by (subst spin.simps) auto
qed (subst spin.simps, simp)

lemma spin_Some_iff: "(\<exists>n. spin free 0 = Some n) \<longleftrightarrow> (\<exists>n. free n)"
  using spin_free [of free 0] spin_stops [of free 0] by auto

lemma spin_try_pop_eq:
  "spin_try_pop free ratio ch rc = (if \<exists>n. free n then try_pop ratio ch rc else Blocks)"
proof (cases "spin free 0")
  case None
  then show ?thesis
    using spin_Some_iff [of free] by (auto simp: spin_try_pop_def spin_try_recv_def)
next
  case (Some n)
  then show ?thesis
    using spin_Some_iff [of free]
    by (auto simp: spin_try_pop_def spin_try_recv_def try_pop_def pop_inner_def try_recv_def)
qed

lemma spin_send_eq:
  "receiver_count ch = 0 \<or> (\<exists>n. free n) \<Longrightarrow> spin_send free ch p x = send ch p x"
  using spin_Some_iff [of free] by (auto simp: spin_send_def send_def)

lemma pop_takes:
  assumes "certain ratio" "\<not> is_empty ch"
  shows "\<exists>p x q' rc'. took (queues ch) p x q' \<and>
      try_pop ratio ch rc = Returns (Inr (Some x)) (ch\<lparr>queues := q'\<rparr>) rc' \<and>
      pop ratio ch rc = Returns (Inr (Some x)) (ch\<lparr>queues := q'\<rparr>) rc'"
  using pop_locked_nonempty [OF assms, of rc] assms(2)
  by (force simp: try_pop_def pop_def pop_inner_eq)

lemma pop_empty:
  assumes "is_empty ch"
  shows "try_pop ratio ch rc = Returns (if sender_count ch = 0 then Inl RecvError else Inr None) ch rc"
    "pop ratio ch rc = (if sender_count ch = 0 then Returns (Inl RecvError) ch rc else Blocks)"
  using assms by (auto simp: try_pop_def pop_def pop_inner_eq)

lemma send_result:
  assumes "p \<noteq> RealtimeAudio"
  shows "\<exists>q. queues_push (queues ch) p x = Some q \<and>
    send ch p x = Some (if receiver_count ch = 0 then Inl (SendError x) else Inr (ch\<lparr>queues := q\<rparr>))"
  using assms by (cases p) (auto simp: send_def push_locked_def)

section \<open>The system of threads\<close>

text \<open>
  The handles of one channel, each receiver with its status, the elements whose sender has
  passed the check of \<open>send\<close> and not yet the lock, and for the statements the elements
  pushed and taken so far, per priority.
\<close>

datatype status = Ready | Waiting | Woken | Gone

record ('a, 'r) system =
  chan :: "'a channel"
  sender_live :: bool
  pending :: "(priority \<times> 'a) list"
  handles :: "('r receiver \<times> status) list"
  pushed :: "priority \<Rightarrow> 'a list"
  taken :: "priority \<Rightarrow> 'a list"

definition note_taken :: "'a queues \<Rightarrow> 'a queues \<Rightarrow> (priority \<Rightarrow> 'a list) \<Rightarrow> priority \<Rightarrow> 'a list" where
  "note_taken q q' done_so_far p =
     done_so_far p @ (if queue_of q' p = queue_of q p then [] else take 1 (queue_of q p))"

definition system_new :: "'r \<Rightarrow> ('a, 'r) system" where
  "system_new seed0 =
     (let (ch, rc) = queue_new seed0 in
      \<lparr>chan = ch, sender_live = True, pending = [], handles = [(rc, Ready)],
        pushed = (\<lambda>_. []), taken = (\<lambda>_. [])\<rparr>)"

definition waiting :: "('a, 'r) system \<Rightarrow> nat \<Rightarrow> bool" where
  "waiting s i \<longleftrightarrow> i < length (handles s) \<and> snd (handles s ! i) = Waiting"

text \<open>
  The atomic steps. \<open>notify_one\<close> wakes one of the parked receivers, any of them, and
  nobody when none is parked. A woken receiver checks the queues again. A handle that is
  in a call is borrowed, so it is neither cloned nor dropped.
\<close>

inductive step :: "'r ratio \<Rightarrow> 'r \<Rightarrow> ('a, 'r) system \<Rightarrow> ('a, 'r) system \<Rightarrow> bool"
  for ratio seed0 where
  Send_check: "\<lbrakk>sender_live s; receiver_count (chan s) \<noteq> 0\<rbrakk>
    \<Longrightarrow> step ratio seed0 s (s\<lparr>pending := pending s @ [(p, x)]\<rparr>)"
| Push_wake: "\<lbrakk>pending s = ps @ (p, x) # ps'; push_locked (chan s) p x = Some ch;
      waiting s i; handles s ! i = (rc, st)\<rbrakk>
    \<Longrightarrow> step ratio seed0 s (s\<lparr>chan := ch, pending := ps @ ps', handles := (handles s)[i := (rc, Woken)],
          pushed := (pushed s)(p := pushed s p @ [x])\<rparr>)"
| Push_quiet: "\<lbrakk>pending s = ps @ (p, x) # ps'; push_locked (chan s) p x = Some ch; \<forall>i. \<not> waiting s i\<rbrakk>
    \<Longrightarrow> step ratio seed0 s (s\<lparr>chan := ch, pending := ps @ ps',
          pushed := (pushed s)(p := pushed s p @ [x])\<rparr>)"
| Pop: "\<lbrakk>i < length (handles s); handles s ! i = (rc, Ready);
      pop_inner ratio block (chan s) rc = Returns res ch rc'\<rbrakk>
    \<Longrightarrow> step ratio seed0 s (s\<lparr>chan := ch, handles := (handles s)[i := (rc', Ready)],
          taken := note_taken (queues (chan s)) (queues ch) (taken s)\<rparr>)"
| Park: "\<lbrakk>i < length (handles s); handles s ! i = (rc, Ready);
      pop_inner ratio True (chan s) rc = Blocks\<rbrakk>
    \<Longrightarrow> step ratio seed0 s (s\<lparr>handles := (handles s)[i := (rc, Waiting)]\<rparr>)"
| Wake_pop: "\<lbrakk>i < length (handles s); handles s ! i = (rc, Woken);
      recv_woken (chan s) = Locked; pop_locked ratio (chan s) rc = Returns res ch rc'\<rbrakk>
    \<Longrightarrow> step ratio seed0 s (s\<lparr>chan := ch, handles := (handles s)[i := (rc', Ready)],
          taken := note_taken (queues (chan s)) (queues ch) (taken s)\<rparr>)"
| Wake_park: "\<lbrakk>i < length (handles s); handles s ! i = (rc, Woken); recv_woken (chan s) = Waits\<rbrakk>
    \<Longrightarrow> step ratio seed0 s (s\<lparr>handles := (handles s)[i := (rc, Waiting)]\<rparr>)"
| Clone: "\<lbrakk>i < length (handles s); handles s ! i = (rc, Ready);
      clone_receiver seed0 (chan s) rc = (ch, rc')\<rbrakk>
    \<Longrightarrow> step ratio seed0 s (s\<lparr>chan := ch, handles := handles s @ [(rc', Ready)]\<rparr>)"
| Drop_receiver: "\<lbrakk>i < length (handles s); handles s ! i = (rc, Ready)\<rbrakk>
    \<Longrightarrow> step ratio seed0 s (s\<lparr>chan := drop_receiver (chan s), handles := (handles s)[i := (rc, Gone)]\<rparr>)"
| Drop_sender: "\<lbrakk>sender_live s; pending s = []\<rbrakk>
    \<Longrightarrow> step ratio seed0 s (s\<lparr>chan := drop_sender (chan s), sender_live := False\<rparr>)"

abbreviation steps :: "'r ratio \<Rightarrow> 'r \<Rightarrow> ('a, 'r) system \<Rightarrow> ('a, 'r) system \<Rightarrow> bool" where
  "steps ratio seed0 \<equiv> (step ratio seed0)\<^sup>*\<^sup>*"

section \<open>The invariant of the system\<close>

definition with_status :: "status set \<Rightarrow> ('r receiver \<times> status) list \<Rightarrow> nat" where
  "with_status S hs = length (filter (\<lambda>h. snd h \<in> S) hs)"

definition system_ok :: "('a, 'r) system \<Rightarrow> bool" where
  "system_ok s \<longleftrightarrow>
     receiver_count (chan s) = of_nat (with_status {Ready, Waiting, Woken} (handles s)) \<and>
     sender_count (chan s) = of_bool (sender_live s) \<and>
     (\<not> sender_live s \<longrightarrow> pending s = []) \<and>
     (\<forall>p. pushed s p = taken s p @ queue_of (queues (chan s)) p) \<and>
     ((\<exists>i. waiting s i) \<longrightarrow> queued (queues (chan s)) \<le> with_status {Woken} (handles s))"

lemma with_status_split:
  "with_status S (hs @ h # hs') = with_status S hs + of_bool (snd h \<in> S) + with_status S hs'"
  by (simp add: with_status_def)

lemma with_status_update:
  assumes "i < length hs"
  shows "with_status S (hs[i := h]) + of_bool (snd (hs ! i) \<in> S) = with_status S hs + of_bool (snd h \<in> S)"
proof -
  have "with_status S hs = with_status S (take i hs @ hs ! i # drop (Suc i) hs)"
    by (rule arg_cong [OF id_take_nth_drop [OF assms]])
  then show ?thesis
    using assms by (simp add: upd_conv_take_nth_drop with_status_split)
qed

lemma with_status_append: "with_status S (hs @ [h]) = with_status S hs + of_bool (snd h \<in> S)"
  by (simp add: with_status_def)

lemma waiting_update:
  "waiting (s\<lparr>handles := (handles s)[i := (rc, st)]\<rparr>) j \<longleftrightarrow>
     (if j = i \<and> i < length (handles s) then st = Waiting else waiting s j)"
  by (auto simp: waiting_def nth_list_update)

lemma waiting_cong: "handles s = handles s' \<Longrightarrow> waiting s = waiting s'"
  by (auto simp: waiting_def)

lemma note_taken_ok:
  assumes "\<forall>p. done_so_far p @ queue_of q p = xs p" "q' = q \<or> took q p0 x q'"
  shows "\<forall>p. note_taken q q' done_so_far p @ queue_of q' p = xs p"
proof
  fix p
  show "note_taken q q' done_so_far p @ queue_of q' p = xs p"
    using assms(1) [THEN spec, of p] assms(2) by (cases "p = p0") (auto simp: note_taken_def took_def)
qed

lemma pop_keeps:
  assumes "system_ok s" "i < length (handles s)" "handles s ! i = (rc, st)" "st \<in> {Ready, Woken}"
    and popped: "ch = (chan s)\<lparr>queues := q'\<rparr>"
    "(q' = queues (chan s) \<and> st = Ready) \<or> took (queues (chan s)) p x q'"
  shows "system_ok (s\<lparr>chan := ch, handles := (handles s)[i := (rc', Ready)],
          taken := note_taken (queues (chan s)) (queues ch) (taken s)\<rparr>)"
proof -
  let ?s = "s\<lparr>chan := ch, handles := (handles s)[i := (rc', Ready)],
          taken := note_taken (queues (chan s)) (queues ch) (taken s)\<rparr>"
  have w: "with_status {Ready, Waiting, Woken} (handles ?s) = with_status {Ready, Waiting, Woken} (handles s)"
    "with_status {Woken} (handles ?s) + of_bool (st = Woken) = with_status {Woken} (handles s)"
    using with_status_update [OF assms(2), of "{Ready, Waiting, Woken}" "(rc', Ready)"]
      with_status_update [OF assms(2), of "{Woken}" "(rc', Ready)"] assms(3,4) by auto
  have "waiting ?s j \<Longrightarrow> waiting s j" for j
    using assms(2,3) by (cases "j = i") (auto simp: waiting_def)
  moreover have "queued (queues (chan s)) \<le> with_status {Woken} (handles s) \<Longrightarrow> queued q' \<le> with_status {Woken} (handles ?s)"
    using w(2) popped(2) took_total [of "queues (chan s)" p x q'] by (auto simp: of_bool_def split: if_splits)
  moreover have "\<forall>p. note_taken (queues (chan s)) q' (taken s) p @ queue_of q' p = pushed s p"
    using assms(1) popped(2) by (intro note_taken_ok [of _ "queues (chan s)" _ q' p x]) (auto simp: system_ok_def)
  ultimately show ?thesis
    using assms(1) w(1) by (auto simp: system_ok_def popped(1))
qed

lemma system_new_ok: "system_ok (system_new seed0)"
  by (auto simp: system_ok_def system_new_def queue_new_def with_status_def waiting_def queued_def
      all_priorities)

lemma park_keeps:
  assumes "system_ok s" "i < length (handles s)" "handles s ! i = (rc, st)"
    "st \<noteq> Gone" "queues_empty (queues (chan s))"
  shows "system_ok (s\<lparr>handles := (handles s)[i := (rc, Waiting)]\<rparr>)"
  using assms with_status_update [OF assms(2), of "{Ready, Waiting, Woken}" "(rc, Waiting)"]
  by (cases st) (auto simp: system_ok_def queues_empty_iff)

lemma push_keeps:
  assumes "system_ok s" "pending s = ps @ (p, x) # ps'" "push_locked (chan s) p x = Some ch"
    and hs: "(\<exists>i rc st. waiting s i \<and> handles s ! i = (rc, st) \<and> hs = (handles s)[i := (rc, Woken)])
      \<or> ((\<forall>i. \<not> waiting s i) \<and> hs = handles s)"
  shows "system_ok (s\<lparr>chan := ch, pending := ps @ ps', handles := hs,
          pushed := (pushed s)(p := pushed s p @ [x])\<rparr>)"
proof -
  let ?s = "s\<lparr>chan := ch, pending := ps @ ps', handles := hs, pushed := (pushed s)(p := pushed s p @ [x])\<rparr>"
  obtain q where q: "queues_push (queues (chan s)) p x = Some q" "ch = (chan s)\<lparr>queues := q\<rparr>"
    using assms(3) by (auto simp: push_locked_def split: Option.bind_splits)
  note q_ok = queues_push_ok [OF q(1)]
  have live: "with_status {Ready, Waiting, Woken} hs = with_status {Ready, Waiting, Woken} (handles s)"
    using hs
  proof (elim disjE exE conjE)
    fix i rc st
    assume "waiting s i" "handles s ! i = (rc, st)" "hs = (handles s)[i := (rc, Woken)]"
    then show ?thesis
      using with_status_update [of i "handles s" "{Ready, Waiting, Woken}" "(rc, Woken)"]
      by (simp add: waiting_def)
  qed simp
  have "queued q \<le> with_status {Woken} hs" if "\<exists>i. waiting ?s i"
  proof -
    have w: "\<exists>i. waiting s i"
      using that hs by (auto simp: waiting_def)
    then obtain i rc where i: "waiting s i" "handles s ! i = (rc, Waiting)" "hs = (handles s)[i := (rc, Woken)]"
      using hs by (auto simp: waiting_def)
    then have "with_status {Woken} hs = Suc (with_status {Woken} (handles s))"
      using with_status_update [of i "handles s" "{Woken}" "(rc, Woken)"] by (simp add: waiting_def)
    then show ?thesis
      using assms(1) w q_ok(2) by (auto simp: system_ok_def)
  qed
  then show ?thesis
    using assms(1,2) live q_ok(1) by (auto simp: system_ok_def q(2))
qed

lemma pop_locked_took:
  assumes "certain ratio" "\<not> is_empty ch" "pop_locked ratio ch rc = Returns res ch' rc'"
  shows "\<exists>q' p x. ch' = ch\<lparr>queues := q'\<rparr> \<and> took (queues ch) p x q' \<and> res = Inr (Some x)"
  using pop_locked_nonempty [OF assms(1,2), of rc] assms(3) by auto

lemma step_ok:
  assumes "certain ratio" "step ratio seed0 s s'" "system_ok s"
  shows "system_ok s'"
  using assms(2,3)
proof cases
  case (Send_check p x)
  then show ?thesis using assms(3) by (simp add: system_ok_def waiting_def)
next
  case (Push_wake ps p x ps' ch i rc st)
  then show ?thesis using push_keeps [OF assms(3) Push_wake(2,3)] by blast
next
  case (Push_quiet ps p x ps' ch)
  then show ?thesis using push_keeps [OF assms(3) Push_quiet(2,3), of "handles s"] by auto
next
  case (Pop i rc block res ch rc')
  show ?thesis
  proof (cases "is_empty (chan s)")
    case True
    then have "ch = (chan s)\<lparr>queues := queues (chan s)\<rparr>"
      using Pop(4) by (auto simp: pop_inner_eq split: if_splits)
    then show ?thesis
      unfolding Pop(1) by (intro pop_keeps [OF assms(3) Pop(2,3)]) auto
  next
    case False
    then obtain q' p x where "ch = (chan s)\<lparr>queues := q'\<rparr>" "took (queues (chan s)) p x q'"
      using pop_locked_took [OF assms(1) False, of rc res ch rc'] Pop(4) by (auto simp: pop_inner_eq)
    then show ?thesis
      unfolding Pop(1) by (intro pop_keeps [OF assms(3) Pop(2,3)]) auto
  qed
next
  case (Park i rc)
  then show ?thesis
    unfolding Park(1) by (intro park_keeps [OF assms(3) Park(2,3)])
      (auto simp: pop_inner_eq is_empty_def pop_locked_def split: if_splits option.splits prod.splits)
next
  case (Wake_pop i rc res ch rc')
  then have "\<not> is_empty (chan s)" by (simp add: recv_woken_def is_empty_def split: if_splits)
  then obtain q' p x where "ch = (chan s)\<lparr>queues := q'\<rparr>" "took (queues (chan s)) p x q'"
    using pop_locked_took [OF assms(1) _ Wake_pop(5)] by auto
  then show ?thesis
    unfolding Wake_pop(1) by (intro pop_keeps [OF assms(3) Wake_pop(2,3)]) auto
next
  case (Wake_park i rc)
  then show ?thesis
    unfolding Wake_park(1) by (intro park_keeps [OF assms(3) Wake_park(2,3)])
      (auto simp: recv_woken_def split: if_splits)
next
  case (Clone i rc ch rc')
  moreover have "waiting s' j \<Longrightarrow> waiting s j" for j
    using Clone by (auto simp: waiting_def nth_append split: if_splits)
  ultimately show ?thesis
    using assms(3) by (auto simp: system_ok_def clone_receiver_def with_status_append)
next
  case (Drop_receiver i rc)
  moreover have "waiting s' j \<Longrightarrow> waiting s j" for j
    using Drop_receiver by (cases "j = i") (auto simp: waiting_def)
  moreover have live: "with_status {Ready, Waiting, Woken} (handles s) =
      Suc (with_status {Ready, Waiting, Woken} ((handles s)[i := (rc, Gone)]))"
    using with_status_update [OF Drop_receiver(2), of "{Ready, Waiting, Woken}" "(rc, Gone)"]
      Drop_receiver(3) by simp
  ultimately show ?thesis
    using assms(3) live with_status_update [OF Drop_receiver(2), of "{Woken}" "(rc, Gone)"]
    by (auto simp: system_ok_def drop_receiver_def)
next
  case Drop_sender
  then show ?thesis
    using assms(3) by (simp add: system_ok_def drop_sender_def waiting_def)
qed

lemma steps_ok: "certain ratio \<Longrightarrow> steps ratio seed0 s s' \<Longrightarrow> system_ok s \<Longrightarrow> system_ok s'"
  by (rotate_tac, induction rule: rtranclp_induct) (auto intro: step_ok)

section \<open>Progress, and where there is none\<close>

lemma with_status_pos: "0 < with_status {st} hs \<Longrightarrow> \<exists>i rc. i < length hs \<and> hs ! i = (rc, st)"
  by (auto simp: with_status_def filter_empty_conv in_set_conv_nth) metis

text \<open>With an element queued and a receiver left, some receiver can take an element at once.\<close>

lemma system_progress:
  assumes "certain ratio" "system_ok s" "\<not> is_empty (chan s)"
    and "i < length (handles s)" "snd (handles s ! i) \<noteq> Gone"
  shows "\<exists>s' p x. step ratio seed0 s s' \<and> took (queues (chan s)) p x (queues (chan s'))"
proof -
  obtain j rc st where j: "j < length (handles s)" "handles s ! j = (rc, st)" "st = Ready \<or> st = Woken"
  proof (cases "snd (handles s ! i) = Waiting")
    case True
    then have "0 < with_status {Woken} (handles s)"
      using assms(2,3,4) queues_empty_iff [of "queues (chan s)"]
      by (auto simp: system_ok_def waiting_def is_empty_def)
    then show thesis
      using with_status_pos that by blast
  next
    case False
    then show thesis
      using that [of i "fst (handles s ! i)" "snd (handles s ! i)"] assms(4,5)
      by (cases "snd (handles s ! i)") (auto simp: prod_eq_iff)
  qed
  obtain p x q' r' where taken: "took (queues (chan s)) p x q'"
    "pop_locked ratio (chan s) rc = Returns (Inr (Some x)) ((chan s)\<lparr>queues := q'\<rparr>) (rc\<lparr>rand := r'\<rparr>)"
    using pop_locked_nonempty [OF assms(1,3), of rc] by blast
  from j(3) show ?thesis
  proof
    assume "st = Ready"
    then show ?thesis
      using step.Pop [of j s rc ratio True] j taken assms(3) by (fastforce simp: pop_inner_eq)
  next
    assume "st = Woken"
    moreover have "recv_woken (chan s) = Locked"
      using assms(3) by (simp add: recv_woken_def is_empty_def)
    ultimately show ?thesis
      using step.Wake_pop [of j s rc ratio] j taken by fastforce
  qed
qed

definition orphaned :: "('a, 'r) system \<Rightarrow> nat \<Rightarrow> bool" where
  "orphaned s i \<longleftrightarrow> waiting s i \<and> \<not> sender_live s \<and> pending s = [] \<and> is_empty (chan s)"

lemma pop_locked_empty:
  "is_empty ch \<Longrightarrow> pop_locked ratio ch rc = Returns (Inr None) ch rc"
  by (simp add: pop_locked_def is_empty_def pop_queues_empty)

lemma orphaned_step:
  assumes "step ratio seed0 s s'" "orphaned s i"
  shows "orphaned s' i"
  using assms
proof cases
  case (Pop j rc block res ch rc')
  then have "ch = chan s"
    using assms(2) by (auto simp: pop_inner_eq orphaned_def split: if_splits)
  then show ?thesis
    using Pop(1-3) assms(2) by (cases "i = j") (auto simp: orphaned_def waiting_def)
next
  case (Wake_pop j rc res ch rc')
  then show ?thesis
    using assms(2) by (simp add: orphaned_def recv_woken_def is_empty_def)
next
  case (Clone j rc ch rc')
  then show ?thesis
    using assms(2) by (auto simp: orphaned_def waiting_def clone_receiver_def is_empty_def nth_append)
qed (use assms(2) in \<open>auto simp: orphaned_def waiting_def nth_list_update drop_receiver_def is_empty_def\<close>)

lemma orphaned_steps: "steps ratio seed0 s s' \<Longrightarrow> orphaned s i \<Longrightarrow> orphaned s' i"
  by (induction rule: rtranclp_induct) (auto intro: orphaned_step)

lemma waiting_orphaned:
  assumes "certain ratio" "steps ratio seed0 (system_new seed0) s"
    and "waiting s i" "\<not> sender_live s" "with_status {Woken} (handles s) = 0"
  shows "orphaned s i"
  using steps_ok [OF assms(1,2) system_new_ok] assms(3-5) queues_empty_iff [of "queues (chan s)"]
  by (auto simp: system_ok_def orphaned_def is_empty_def)

section \<open>A generator\<close>

definition counting_ratio :: "nat ratio" where
  "counting_ratio r num den = (r mod unat den < unat num, Suc r)"

lemma certain_counting: "certain counting_ratio"
  by (auto simp: certain_def counting_ratio_def unat_gt_0)

end
