(* ===== verification/Priority_Queue_Theorems.thy ===== *)
theory Priority_Queue_Theorems
  imports Priority_Queue_Threads "HOL-Library.Multiset"
begin

text \<open>
  The properties of the dispatch queue.
\<close>

section \<open>Inputs of the witnesses\<close>

definition sample_channel :: "nat channel" where
  "sample_channel =
     \<lparr>queues = \<lparr>high_priority = [1, 2], medium_priority = [], low_priority = [7]\<rparr>,
      receiver_count = 1, sender_count = 1\<rparr>"

definition sample_receiver :: "nat receiver" where
  "sample_receiver = \<lparr>rand = 0, disconnected = False\<rparr>"

definition new_channel :: "nat channel" where
  "new_channel = fst (queue_new (0 :: nat))"

section \<open>Popping\<close>

text \<open>
  C16. What a call returns. On a channel with elements, every form of popping takes the
  front of the queue of some priority and never panics, given a coin that is certain when
  numerator and denominator agree. On an empty channel it is an error exactly when the sender
  is gone; otherwise the blocking call waits and the others answer with no element.
  Spinning agrees with the plain calls once the lock is free. Sending fails exactly when
  no receiver is left, and hands the element back.
\<close>

theorem pop_contract:
  assumes "certain ratio" "p \<noteq> RealtimeAudio"
  shows "(\<not> is_empty ch \<longrightarrow> (\<exists>p x q' rc'. took (queues ch) p x q' \<and>
        try_pop ratio ch rc = Returns (Inr (Some x)) (ch\<lparr>queues := q'\<rparr>) rc' \<and>
        pop ratio ch rc = Returns (Inr (Some x)) (ch\<lparr>queues := q'\<rparr>) rc')) \<and>
    (is_empty ch \<longrightarrow>
        try_pop ratio ch rc = Returns (if sender_count ch = 0 then Inl RecvError else Inr None) ch rc \<and>
        pop ratio ch rc = (if sender_count ch = 0 then Returns (Inl RecvError) ch rc else Blocks)) \<and>
    spin_try_pop free ratio ch rc = (if \<exists>n. free n then try_pop ratio ch rc else Blocks) \<and>
    (\<exists>q. queues_push (queues ch) p x = Some q \<and>
        send ch p x = Some (if receiver_count ch = 0 then Inl (SendError x) else Inr (ch\<lparr>queues := q\<rparr>))) \<and>
    ((\<exists>n. free n) \<longrightarrow> spin_send free ch p x = send ch p x)"
  using pop_takes [OF assms(1), of ch rc] pop_empty [of ch ratio rc] spin_try_pop_eq [of free ratio ch rc]
    send_result [OF assms(2), of ch x] spin_send_eq [of ch free p x]
  by (intro conjI impI) simp_all

theorem pop_contract_witness:
  "(\<exists>p x q' rc'. took (queues sample_channel) p x q' \<and>
     try_pop counting_ratio sample_channel sample_receiver = Returns (Inr (Some x)) (sample_channel\<lparr>queues := q'\<rparr>) rc') \<and>
   pop counting_ratio new_channel sample_receiver = Blocks \<and>
   spin_send (\<lambda>n. n = 5) sample_channel Low 3 = send sample_channel Low 3"
proof -
  have e: "\<not> is_empty sample_channel" "is_empty new_channel" "sender_count new_channel \<noteq> 0"
    by (simp_all add: new_channel_def is_empty_def queues_empty_def sample_channel_def queue_new_def)
  have "Low \<noteq> RealtimeAudio" by simp
  from pop_contract [OF certain_counting this, of sample_channel sample_receiver "\<lambda>n. n = 5" 3]
    pop_contract [OF certain_counting this, of new_channel sample_receiver "\<lambda>n. n = 5" 3] e
  show ?thesis by (auto split: if_splits)
qed

text \<open>
  The chances. A pop takes an element of priority \<open>p\<close> along a run of coins whose
  likelihood is the weight of \<open>p\<close> over the sum of the weights of the priorities that have
  an element: 60, 30 and 10 in the hundred when all have one, and a queue with elements is
  never starved by weight zero.
\<close>

lemma pop_chances:
  assumes "certain ratio" "\<not> queues_empty q"
  shows "\<exists>p x q' r' coins.
      pop_queues ratio q r = Some (Some x, q', r') \<and>
      pop_queues (logged ratio) q (r, []) = Some (Some x, q', (r', coins)) \<and> took q p x q' \<and>
      likelihood coins = of_nat (unat (weight p)) /
        of_nat (\<Sum>p' \<leftarrow> [High, Medium, Low]. if queue_of q p' = [] then 0 else unat (weight p'))"
proof -
  obtain p x q' r' cs where run: "pop_queues ratio q r = Some (Some x, q', r')" "took q p x q'"
    "\<forall>c. pop_queues (logged ratio) q (r, c) = Some (Some x, q', (r', c @ cs))"
    "likelihood cs = of_nat (share p q) / of_nat (share High q + share Medium q + share Low q)"
    using fair_high [OF assms, of r] unfolding fair_run_def by blast
  have "share p q = unat (weight p)"
    using run(2) by (auto simp: share_def took_def)
  then show ?thesis
    using run by (intro exI [of _ p] exI [of _ x] exI [of _ q'] exI [of _ r'] exI [of _ cs])
      (simp add: share_def add.assoc)
qed

lemma pop_chances_witness:
  "\<exists>p x q' r' coins.
     pop_queues counting_ratio (queues sample_channel) 0 = Some (Some x, q', r') \<and>
     pop_queues (logged counting_ratio) (queues sample_channel) (0, []) = Some (Some x, q', (r', coins)) \<and>
     took (queues sample_channel) p x q' \<and> likelihood coins = of_nat (unat (weight p)) / 70"
  using pop_chances [OF certain_counting, of "queues sample_channel" 0]
  by (simp add: sample_channel_def queues_empty_def)

section \<open>Threads\<close>

text \<open>
  C17. In every state the threads can reach from a new channel: per priority, the elements
  taken followed by those queued are the elements pushed, in order, so nothing is lost,
  duplicated or reordered within a priority; the counters count the handles; a receiver is
  parked only while every queued element has a woken receiver coming for it; and as long
  as an element is queued and a receiver exists, some receiver can take one at once.
\<close>

theorem channel_safety:
  assumes "certain ratio" "steps ratio seed0 (system_new seed0) s"
  shows "(\<forall>p. pushed s p = taken s p @ queue_of (queues (chan s)) p) \<and>
    receiver_count (chan s) = of_nat (length (filter (\<lambda>h. snd h \<noteq> Gone) (handles s))) \<and>
    sender_count (chan s) = (if sender_live s then 1 else 0) \<and>
    (\<forall>i. waiting s i \<longrightarrow> queued (queues (chan s)) \<le> length (filter (\<lambda>h. snd h = Woken) (handles s))) \<and>
    (\<forall>i < length (handles s). \<not> is_empty (chan s) \<and> snd (handles s ! i) \<noteq> Gone \<longrightarrow>
      (\<exists>s' p x. step ratio seed0 s s' \<and> took (queues (chan s)) p x (queues (chan s'))))"
proof -
  have ok: "system_ok s"
    using steps_ok [OF assms system_new_ok] .
  have "(\<lambda>h :: 'a receiver \<times> status. snd h \<noteq> Gone) = (\<lambda>h. snd h \<in> {Ready, Waiting, Woken})"
    by (auto simp: fun_eq_iff) (metis status.exhaust)
  then have "receiver_count (chan s) = of_nat (length (filter (\<lambda>h. snd h \<noteq> Gone) (handles s)))"
    using ok by (simp add: system_ok_def with_status_def)
  then show ?thesis
    using ok system_progress [OF assms(1) ok] by (auto simp: system_ok_def with_status_def)
qed

text \<open>The run of the witness: the receiver parks, an element is sent and wakes it, and it pops.\<close>

definition park_state :: "(nat, nat) system" where
  "park_state = (system_new 0)\<lparr>handles := [(sample_receiver, Waiting)]\<rparr>"

lemma park_state_reached: "step counting_ratio 0 (system_new 0) park_state"
  using step.Park [of 0 "system_new 0" sample_receiver counting_ratio 0]
  by (simp add: system_new_def queue_new_def sample_receiver_def park_state_def pop_inner_eq
      is_empty_def queues_empty_def)

lemma park_state_waiting: "waiting park_state 0" "with_status {Woken} (handles park_state) = 0"
  by (simp_all add: waiting_def park_state_def with_status_def)

theorem channel_safety_witness:
  "waiting park_state 0 \<and> queued (queues (chan park_state)) = 0 \<and> receiver_count (chan park_state) = 1"
proof -
  have "steps counting_ratio 0 (system_new 0) park_state"
    using park_state_reached by blast
  from channel_safety [OF certain_counting this] park_state_waiting(1) show ?thesis
    by (auto simp: park_state_def)
qed

text \<open>
  C18. A receiver that is parked when the last sender goes away, with no wake-up under
  way, stays parked in every continuation: dropping the sender notifies nobody, and the
  loop of \<open>recv\<close> does not look at the sender count again. The blocking \<open>pop\<close> is
  documented to fail when the sender was dropped.
\<close>

theorem parked_forever:
  assumes "certain ratio" "steps ratio seed0 (system_new seed0) s"
    and "waiting s i" "\<not> sender_live s" "\<forall>j < length (handles s). snd (handles s ! j) \<noteq> Woken"
    and "steps ratio seed0 s s'"
  shows "waiting s' i \<and> is_empty (chan s') \<and> sender_count (chan s') = 0"
proof -
  have "with_status {Woken} (handles s) = 0"
    using assms(5) unfolding with_status_def by (metis (no_types, lifting) filter_False in_set_conv_nth
        list.size(3) singletonD)
  then have "orphaned s' i"
    using orphaned_steps [OF assms(6)] waiting_orphaned [OF assms(1-4)] by blast
  moreover have "system_ok s'"
    using steps_ok [OF assms(1) _ system_new_ok] rtranclp_trans [OF assms(2,6)] by blast
  ultimately show ?thesis
    by (simp add: orphaned_def system_ok_def)
qed

theorem parked_forever_witness:
  "\<exists>s. steps counting_ratio 0 (system_new 0) s \<and>
    (\<forall>s'. steps counting_ratio 0 s (s' :: (nat, nat) system) \<longrightarrow>
       waiting s' 0 \<and> is_empty (chan s') \<and> sender_count (chan s') = 0)"
proof -
  let ?s = "park_state\<lparr>chan := drop_sender (chan park_state), sender_live := False\<rparr>"
  have run: "steps counting_ratio 0 (system_new 0) ?s"
    using park_state_reached step.Drop_sender [of park_state counting_ratio 0]
    by (simp add: park_state_def system_new_def queue_new_def)
  have "waiting ?s 0" "\<not> sender_live ?s" "\<forall>j < length (handles ?s). snd (handles ?s ! j) \<noteq> Woken"
    using park_state_waiting by (simp_all add: waiting_def park_state_def)
  from parked_forever [OF certain_counting run this] run show ?thesis by blast
qed

section \<open>The fused iterator\<close>

text \<open>
  \<open>TryIter\<close> is declared to be fused, which promises that after a \<open>None\<close> every further
  call answers \<open>None\<close>. The flag \<open>ended\<close> is set by an error only, so an element sent after
  a \<open>None\<close> is delivered.
\<close>

lemma try_iter_not_fused:
  "\<exists>ch it. try_iter_next counting_ratio new_channel (try_iter sample_receiver) = Some (None, new_channel, it) \<and>
     send new_channel High 5 = Some (Inr ch) \<and>
     map_option fst (try_iter_next counting_ratio ch it) = Some (Some (Inr 5))"
  by (simp add: new_channel_def queue_new_def try_iter_def try_iter_next_def try_pop_def pop_inner_eq
      is_empty_def queues_empty_def send_def push_locked_def pop_locked_def pop_queues_def pop_high_def
      present_def flip_def counting_ratio_def sample_receiver_def)

lemma try_iter_error_ends:
  assumes "is_empty ch" "sender_count ch = 0"
  shows "\<exists>it'. try_iter_next ratio ch (try_iter rc) = Some (Some (Inl RecvError), ch, it') \<and>
    try_iter_next ratio ch' it' = Some (None, ch', it')"
  using pop_empty [OF assms(1), of ratio rc] assms(2) by (simp add: try_iter_next_def try_iter_def)

end
