(* ===== verification/Subscription.thy ===== *)
theory Subscription
  imports Prelude
begin

text \<open>
  Subscriptions (\<open>gpui/src/subscription.rs\<close>): the set of subscribers per emitter, the
  handles that cancel them, and \<open>retain\<close>, which calls every subscriber of an emitter while
  the callbacks may use the set themselves. A callback is data of type \<open>'c\<close>; the function
  that \<open>retain\<close> is given is a parameter that takes the callback and the state of the set
  and returns whether to keep the subscriber, the callback it leaves and the new state.
\<close>

section \<open>The set\<close>

text \<open>
  The shared cells \<open>active\<close> and \<open>dropped\<close> of a subscriber are looked up by its identifier,
  which is never given twice, because the handle and \<open>retain\<close> reach them while the
  subscriber is in no map. The inner ordered map is the list of its entries by identifier;
  \<open>Some None\<close> is an emitter whose subscribers are being called.
\<close>

record ('k, 'c) subscriber_set =
  subscribers :: "'k \<Rightarrow> (nat \<times> 'c) list option option"
  next_subscriber_id :: nat
  active :: "nat \<Rightarrow> bool"
  dropped :: "nat \<Rightarrow> bool"

fun btree_insert :: "nat \<Rightarrow> 'c \<Rightarrow> (nat \<times> 'c) list \<Rightarrow> (nat \<times> 'c) list" where
  "btree_insert i c [] = [(i, c)]"
| "btree_insert i c ((j, d) # m) =
     (if i < j then (i, c) # (j, d) # m
      else if i = j then (i, c) # m
      else (j, d) # btree_insert i c m)"

definition btree_remove :: "nat \<Rightarrow> (nat \<times> 'c) list \<Rightarrow> (nat \<times> 'c) list" where
  "btree_remove i m = filter (\<lambda>(j, _). j \<noteq> i) m"

definition btree_extend :: "(nat \<times> 'c) list \<Rightarrow> (nat \<times> 'c) list \<Rightarrow> (nat \<times> 'c) list" where
  "btree_extend m new = fold (\<lambda>(i, c) m. btree_insert i c m) new m"

definition subscriber_set_new :: "('k, 'c) subscriber_set" where
  "subscriber_set_new =
     \<lparr>subscribers = (\<lambda>_. None), next_subscriber_id = 0, active = (\<lambda>_. False), dropped = (\<lambda>_. False)\<rparr>"

section \<open>Handles\<close>

text \<open>A handle holds the closure to run when it is dropped, a function on the state.\<close>

record 's subscription =
  unsubscribe :: "('s \<Rightarrow> 's) option"

definition subscription_new :: "('s \<Rightarrow> 's) \<Rightarrow> 's subscription" where
  "subscription_new f = \<lparr>unsubscribe = Some f\<rparr>"

definition subscription_drop :: "'s subscription \<Rightarrow> 's \<Rightarrow> 's" where
  "subscription_drop h s = (case unsubscribe h of Some f \<Rightarrow> f s | None \<Rightarrow> s)"

text \<open>Detaching takes the closure out, and the drop at the end of the call runs nothing.\<close>

definition subscription_detach :: "'s subscription \<Rightarrow> 's \<Rightarrow> 's" where
  "subscription_detach h s = (let h = h\<lparr>unsubscribe := None\<rparr> in subscription_drop h s)"

definition subscription_join :: "'s subscription \<Rightarrow> 's subscription \<Rightarrow> 's subscription" where
  "subscription_join a b =
     (let a_unsubscribe = unsubscribe a; b_unsubscribe = unsubscribe b in
      \<lparr>unsubscribe = Some (\<lambda>s.
         let s = (case a_unsubscribe of Some f \<Rightarrow> f s | None \<Rightarrow> s) in
         case b_unsubscribe of Some f \<Rightarrow> f s | None \<Rightarrow> s)\<rparr>)"

section \<open>Operations\<close>

text \<open>The closure of the handle that \<open>insert\<close> returns.\<close>

definition sub_unsubscribe :: "'k \<Rightarrow> nat \<Rightarrow> ('k, 'c, 'z) subscriber_set_scheme \<Rightarrow> ('k, 'c, 'z) subscriber_set_scheme" where
  "sub_unsubscribe k i s =
     (let s = s\<lparr>dropped := (dropped s)(i := True)\<rparr> in
      case subscribers s k of
        None \<Rightarrow> s
      | Some None \<Rightarrow> s
      | Some (Some m) \<Rightarrow>
          let m = btree_remove i m in
          if m = [] then s\<lparr>subscribers := (subscribers s)(k := None)\<rparr>
          else s\<lparr>subscribers := (subscribers s)(k := Some (Some m))\<rparr>)"

definition sub_activate :: "nat \<Rightarrow> ('k, 'c, 'z) subscriber_set_scheme \<Rightarrow> ('k, 'c, 'z) subscriber_set_scheme" where
  "sub_activate i s = s\<lparr>active := (active s)(i := True)\<rparr>"

text \<open>
  Inserting returns the handle, the closure that activates the subscriber and, for the
  statements, its identifier.
\<close>

definition sub_insert ::
  "'k \<Rightarrow> 'c \<Rightarrow> ('k, 'c, 'z) subscriber_set_scheme \<Rightarrow>
   ('k, 'c, 'z) subscriber_set_scheme subscription \<times> (('k, 'c, 'z) subscriber_set_scheme \<Rightarrow> ('k, 'c, 'z) subscriber_set_scheme) \<times>
   nat \<times> ('k, 'c, 'z) subscriber_set_scheme" where
  "sub_insert k c s =
     (let i = next_subscriber_id s;
          m = (case subscribers s k of Some (Some m) \<Rightarrow> m | _ \<Rightarrow> []);
          s = s\<lparr>next_subscriber_id := i + 1,
                subscribers := (subscribers s)(k := Some (Some (btree_insert i c m))),
                active := (active s)(i := False),
                dropped := (dropped s)(i := False)\<rparr> in
      (subscription_new (sub_unsubscribe k i), sub_activate i, i, s))"

text \<open>
  Removing an emitter hands out an iterator over the callbacks, which looks at the
  activity of each subscriber when it reaches it.
\<close>

definition sub_remove :: "'k \<Rightarrow> ('k, 'c, 'z) subscriber_set_scheme \<Rightarrow> (nat \<times> 'c) list \<times> ('k, 'c, 'z) subscriber_set_scheme" where
  "sub_remove k s =
     ((case subscribers s k of Some (Some m) \<Rightarrow> m | _ \<Rightarrow> []),
      s\<lparr>subscribers := (subscribers s)(k := None)\<rparr>)"

fun removed_next :: "('k, 'c, 'z) subscriber_set_scheme \<Rightarrow> (nat \<times> 'c) list \<Rightarrow> ('c \<times> (nat \<times> 'c) list) option" where
  "removed_next s [] = None"
| "removed_next s ((i, c) # m) = (if active s i then Some (c, m) else removed_next s m)"

text \<open>
  The loop of \<open>retain\<close> returns the subscribers kept, the state the callbacks leave, and
  for the statements the identifiers whose callback was called, in order.
\<close>

type_synonym ('k, 'c, 'z) handler = "'c \<Rightarrow> ('k, 'c, 'z) subscriber_set_scheme \<Rightarrow> bool \<times> 'c \<times> ('k, 'c, 'z) subscriber_set_scheme"

fun call_loop ::
  "('k, 'c, 'z) handler \<Rightarrow> (nat \<times> 'c) list \<Rightarrow> ('k, 'c, 'z) subscriber_set_scheme \<Rightarrow>
   (nat \<times> 'c) list \<times> ('k, 'c, 'z) subscriber_set_scheme \<times> nat list" where
  "call_loop f [] s = ([], s, [])"
| "call_loop f ((i, c) # m) s =
     (if \<not> active s i then
        let (kept, s, calls) = call_loop f m s in ((i, c) # kept, s, calls)
      else if dropped s i then call_loop f m s
      else
        let (keep, c, s) = f c s;
            stays = (keep \<and> \<not> dropped s i);
            (kept, s, calls) = call_loop f m s in
        (if stays then (i, c) # kept else kept, s, i # calls))"

definition sub_retain ::
  "('k, 'c, 'z) handler \<Rightarrow> 'k \<Rightarrow> ('k, 'c, 'z) subscriber_set_scheme \<Rightarrow> ('k, 'c, 'z) subscriber_set_scheme \<times> nat list" where
  "sub_retain f k s =
     (case subscribers s k of
        Some (Some m) \<Rightarrow>
          let s = s\<lparr>subscribers := (subscribers s)(k := Some None)\<rparr>;
              (kept, s, calls) = call_loop f m s;
              new = (case subscribers s k of Some (Some new) \<Rightarrow> new | _ \<Rightarrow> []);
              s = s\<lparr>subscribers := (subscribers s)(k := None)\<rparr>;
              kept = btree_extend kept new in
          (if kept \<noteq> [] then s\<lparr>subscribers := (subscribers s)(k := Some (Some kept))\<rparr> else s, calls)
      | _ \<Rightarrow> (s, []))"

end
