(* ===== verification/Subscription_Correct.thy ===== *)
theory Subscription_Correct
  imports Subscription "HOL-Library.Sublist"
begin

text \<open>
  What every history of calls keeps of a subscriber set, callbacks that use the set while
  they are called included.
\<close>

section \<open>Ordered maps\<close>

abbreviation ordered :: "(nat \<times> 'c) list \<Rightarrow> bool" where
  "ordered m \<equiv> sorted_wrt (<) (map fst m)"

abbreviation keys_of :: "(nat \<times> 'c) list \<Rightarrow> nat set" where
  "keys_of m \<equiv> fst ` set m"

lemma keys_btree_insert [simp]: "keys_of (btree_insert i c m) = insert i (keys_of m)"
  by (induction i c m rule: btree_insert.induct) (auto simp: insert_commute)

lemma ordered_btree_insert: "ordered m \<Longrightarrow> ordered (btree_insert i c m)"
proof (induction i c m rule: btree_insert.induct)
  case (2 i c j d m)
  have "x \<in> keys_of (btree_insert i c m) \<Longrightarrow> x = i \<or> x \<in> keys_of m" for x by simp
  then show ?case using 2 by (fastforce simp del: keys_btree_insert)
qed simp

lemma btree_insert_not_Nil [simp]: "btree_insert i c m \<noteq> []"
  by (cases "(i, c, m)" rule: btree_insert.cases) auto

lemma btree_insert_last: "\<forall>j \<in> keys_of m. j < i \<Longrightarrow> btree_insert i c m = m @ [(i, c)]"
  by (induction m) auto

lemma keys_btree_remove [simp]: "keys_of (btree_remove i m) = keys_of m - {i}"
  by (force simp: btree_remove_def)

lemma ordered_btree_remove: "ordered m \<Longrightarrow> ordered (btree_remove i m)"
  by (simp add: btree_remove_def sorted_wrt_map sorted_wrt_filter)

lemma btree_remove_insert_last:
  "\<forall>j \<in> keys_of m. j < i \<Longrightarrow> btree_remove i (btree_insert i c m) = m"
  by (auto simp: btree_insert_last btree_remove_def filter_id_conv)

lemma btree_extend_ok:
  "keys_of (btree_extend m new) = keys_of m \<union> keys_of new \<and> (ordered m \<longrightarrow> ordered (btree_extend m new))"
  unfolding btree_extend_def
  by (induction new arbitrary: m) (auto simp: ordered_btree_insert split: prod.splits)

lemma btree_extend_Nil [simp]: "btree_extend m [] = m"
  by (simp add: btree_extend_def)

section \<open>Well-formed sets and their histories\<close>

definition ids :: "('k, 'c, 'z) subscriber_set_scheme \<Rightarrow> 'k \<Rightarrow> nat set" where
  "ids s k = (case subscribers s k of Some (Some m) \<Rightarrow> keys_of m | _ \<Rightarrow> {})"

definition subs_ok :: "('k, 'c, 'z) subscriber_set_scheme \<Rightarrow> bool" where
  "subs_ok s \<longleftrightarrow>
     (\<forall>k m. subscribers s k = Some (Some m) \<longrightarrow> m \<noteq> [] \<and> ordered m) \<and>
     (\<forall>k. \<forall>i \<in> ids s k. i < next_subscriber_id s) \<and>
     (\<forall>k k'. k \<noteq> k' \<longrightarrow> ids s k \<inter> ids s k' = {})"

lemma subs_ok_apart: "subs_ok s \<Longrightarrow> i \<in> ids s k \<Longrightarrow> i \<in> ids s k' \<Longrightarrow> k = k'"
  unfolding subs_ok_def by (metis IntI empty_iff)

text \<open>A later state: identifiers are never given back, cells are never reset.\<close>

definition later :: "('k, 'c, 'z) subscriber_set_scheme \<Rightarrow> ('k, 'c, 'z) subscriber_set_scheme \<Rightarrow> bool" where
  "later s s' \<longleftrightarrow>
     next_subscriber_id s \<le> next_subscriber_id s' \<and>
     (\<forall>i < next_subscriber_id s. (active s i \<longrightarrow> active s' i) \<and> (dropped s i \<longrightarrow> dropped s' i)) \<and>
     (\<forall>k. \<forall>i \<in> ids s' k. i < next_subscriber_id s \<longrightarrow> i \<in> ids s k)"

lemma later_refl: "later s s"
  by (simp add: later_def)

lemma later_trans: "later s s' \<Longrightarrow> later s' s'' \<Longrightarrow> later s s''"
  by (auto simp: later_def)

text \<open>The histories: sequences of calls, where a callback is itself a history.\<close>

inductive history :: "('k, 'c, 'z) subscriber_set_scheme \<Rightarrow> ('k, 'c, 'z) subscriber_set_scheme \<Rightarrow> bool" where
  Start: "history s s"
| Insert: "history s s1 \<Longrightarrow> sub_insert k c s1 = (h, act, i, s2) \<Longrightarrow> history s s2"
| Activate: "history s s1 \<Longrightarrow> history s (sub_activate i s1)"
| Unsubscribe: "history s s1 \<Longrightarrow> history s (sub_unsubscribe k i s1)"
| Remove: "history s s1 \<Longrightarrow> sub_remove k s1 = (removed, s2) \<Longrightarrow> history s s2"
| Retain: "history s s1 \<Longrightarrow> \<forall>c t. history t (snd (snd (f c t))) \<Longrightarrow> sub_retain f k s1 = (s2, calls)
    \<Longrightarrow> history s s2"

lemma subs_okD:
  assumes "subs_ok s" "subscribers s k = Some (Some m)"
  shows "m \<noteq> []" "ordered m" "i \<in> keys_of m \<Longrightarrow> i < next_subscriber_id s" "ids s k = keys_of m"
  using assms by (auto simp: subs_ok_def ids_def split: option.splits)

lemma subscribers_update_ids:
  "ids (s\<lparr>subscribers := (subscribers s)(k := e)\<rparr>) k' =
     (if k' = k then (case e of Some (Some m) \<Rightarrow> keys_of m | _ \<Rightarrow> {}) else ids s k')"
  by (simp add: ids_def)

text \<open>Replacing the entry of one emitter by subscribers it had before, or by fresh ones.\<close>

lemma replace_ok:
  assumes "subs_ok s"
    and "\<And>m. e = Some (Some m) \<Longrightarrow> m \<noteq> [] \<and> ordered m \<and>
      (\<forall>i \<in> keys_of m. i \<in> ids s k \<or> (i < next_subscriber_id s \<and> (\<forall>k'. i \<notin> ids s k')))"
  shows "subs_ok (s\<lparr>subscribers := (subscribers s)(k := e)\<rparr>)"
proof -
  let ?s = "s\<lparr>subscribers := (subscribers s)(k := e)\<rparr>"
  have new: "i \<in> ids s k \<or> (i < next_subscriber_id s \<and> (\<forall>k'. i \<notin> ids s k'))" if "i \<in> ids ?s k" for i
    using that assms(2) by (auto simp: subscribers_update_ids split: option.splits)
  have old: "ids ?s k' = ids s k'" if "k' \<noteq> k" for k'
    using that by (simp add: subscribers_update_ids)
  have "i < next_subscriber_id s" if "i \<in> ids ?s k'" for k' i
    using that new [of i] old [of k'] assms(1) by (cases "k' = k") (auto simp: subs_ok_def)
  moreover have apart: "j \<notin> ids s k'" if "j \<in> ids ?s k" "k' \<noteq> k" for j k'
  proof -
    have "ids s k \<inter> ids s k' = {}"
      using assms(1) that(2) by (auto simp: subs_ok_def)
    then show ?thesis using new [OF that(1)] by blast
  qed
  have "ids ?s k1 \<inter> ids ?s k2 = {}" if "k1 \<noteq> k2" for k1 k2
    using that apart old assms(1) by (cases "k1 = k"; cases "k2 = k") (auto simp: subs_ok_def)
  ultimately show ?thesis
    using assms by (auto simp: subs_ok_def)
qed

lemma replace_later:
  assumes "\<And>m i. e = Some (Some m) \<Longrightarrow> i \<in> keys_of m \<Longrightarrow> i < next_subscriber_id s \<Longrightarrow> i \<in> ids s k"
  shows "later s (s\<lparr>subscribers := (subscribers s)(k := e)\<rparr>)"
  using assms by (auto simp: later_def subscribers_update_ids split: option.splits if_splits)

lemma ids_cells [simp]:
  "ids (s\<lparr>active := a\<rparr>) = ids s" "ids (s\<lparr>dropped := d\<rparr>) = ids s" "ids (s\<lparr>next_subscriber_id := n\<rparr>) = ids s"
  by (auto simp: ids_def)

lemma subs_ok_cells [simp]:
  "subs_ok (s\<lparr>active := a\<rparr>) = subs_ok s" "subs_ok (s\<lparr>dropped := d\<rparr>) = subs_ok s"
  by (auto simp: subs_ok_def)

lemma activate_later: "subs_ok s \<Longrightarrow> subs_ok (sub_activate i s) \<and> later s (sub_activate i s)"
  by (auto simp: sub_activate_def later_def)

lemma unsubscribe_later:
  assumes "subs_ok s"
  shows "subs_ok (sub_unsubscribe k i s) \<and> later s (sub_unsubscribe k i s)"
proof -
  let ?s = "s\<lparr>dropped := (dropped s)(i := True)\<rparr>"
  have later: "later s ?s" and ok: "subs_ok ?s"
    using assms by (auto simp: later_def)
  show ?thesis
  proof (cases "subscribers s k")
    case None
    then show ?thesis using later ok by (simp add: sub_unsubscribe_def Let_def)
  next
    case (Some e)
    show ?thesis
    proof (cases e)
      case None
      then show ?thesis using later ok Some by (simp add: sub_unsubscribe_def Let_def)
    next
      case m: (Some m)
      let ?e = "if btree_remove i m = [] then None else Some (Some (btree_remove i m))"
      have u: "sub_unsubscribe k i s = ?s\<lparr>subscribers := (subscribers ?s)(k := ?e)\<rparr>"
        using Some m by (simp add: sub_unsubscribe_def Let_def)
      have idk: "ids s k = keys_of m"
        using Some m by (simp add: ids_def)
      have "subs_ok (?s\<lparr>subscribers := (subscribers ?s)(k := ?e)\<rparr>)"
      proof (rule replace_ok [OF ok])
        fix m' assume "?e = Some (Some m')"
        then show "m' \<noteq> [] \<and> ordered m' \<and> (\<forall>j \<in> keys_of m'. j \<in> ids ?s k \<or>
            (j < next_subscriber_id ?s \<and> (\<forall>k'. j \<notin> ids ?s k')))"
          using subs_okD(2) [OF assms, of k m] Some m idk keys_btree_remove [of i m]
          by (auto simp: ordered_btree_remove simp del: keys_btree_remove split: if_splits)
      qed
      moreover have "later ?s (?s\<lparr>subscribers := (subscribers ?s)(k := ?e)\<rparr>)"
        using idk keys_btree_remove [of i m]
        by (intro replace_later) (auto simp del: keys_btree_remove split: if_splits)
      ultimately show ?thesis
        unfolding u using later later_trans by blast
    qed
  qed
qed

lemma remove_later:
  assumes "subs_ok s" "sub_remove k s = (removed, s')"
  shows "subs_ok s' \<and> later s s'"
proof -
  have "s' = s\<lparr>subscribers := (subscribers s)(k := None)\<rparr>"
    using assms(2) by (simp add: sub_remove_def)
  then show ?thesis
    using replace_ok [OF assms(1), of None k] by (auto simp: later_def subscribers_update_ids)
qed

lemma insert_later:
  assumes "subs_ok s" "sub_insert k c s = (h, act, i, s')"
  shows "subs_ok s' \<and> later s s' \<and> i = next_subscriber_id s"
proof -
  define m where "m = (case subscribers s k of Some (Some m) \<Rightarrow> m | _ \<Rightarrow> [])"
  let ?s = "s\<lparr>next_subscriber_id := i + 1, active := (active s)(i := False), dropped := (dropped s)(i := False)\<rparr>"
  have i: "i = next_subscriber_id s"
    and s': "s' = ?s\<lparr>subscribers := (subscribers ?s)(k := Some (Some (btree_insert i c m)))\<rparr>"
    using assms(2) by (auto simp: sub_insert_def Let_def m_def)
  have m: "ordered m" "keys_of m = ids s k"
    using subs_okD(2) [OF assms(1)] by (auto simp: ids_def m_def split: option.splits)
  have keys: "\<forall>j \<in> keys_of (btree_insert i c m). j = i \<or> j \<in> ids s k"
    using m by simp
  have ok: "subs_ok ?s"
    using assms(1) i by (auto simp: subs_ok_def less_Suc_eq)
  have fresh: "i \<notin> ids s k'" for k'
    using assms(1) i by (auto simp: subs_ok_def)
  have "subs_ok s'"
    unfolding s'
  proof (rule replace_ok [OF ok])
    fix m' assume "Some (Some (btree_insert i c m)) = Some (Some m')"
    then show "m' \<noteq> [] \<and> ordered m' \<and> (\<forall>j \<in> keys_of m'. j \<in> ids ?s k \<or>
        (j < next_subscriber_id ?s \<and> (\<forall>k'. j \<notin> ids ?s k')))"
      using ordered_btree_insert [OF m(1), of i c] keys fresh by (auto simp del: keys_btree_insert)
  qed
  moreover have "ids s' k' = (if k' = k then insert i (ids s k) else ids s k')" for k'
    unfolding s' subscribers_update_ids using m by simp
  then have "later s s'"
    using i by (auto simp: later_def s' split: if_splits)
  ultimately show ?thesis using i by blast
qed

lemma subscriber_set_new_ok: "subs_ok subscriber_set_new"
  by (simp add: subs_ok_def subscriber_set_new_def ids_def)

section \<open>Calling the subscribers\<close>

lemma sorted_wrt_subseq: "subseq xs ys \<Longrightarrow> sorted_wrt P ys \<Longrightarrow> sorted_wrt P xs"
  by (induction rule: list_emb.induct) (auto dest: list_emb_set)

lemma subseq_subset: "subseq xs ys \<Longrightarrow> set xs \<subseteq> set ys"
  by (auto elim: list_emb_set)

definition handler_ok :: "('k, 'c, 'z) handler \<Rightarrow> bool" where
  "handler_ok f \<longleftrightarrow> (\<forall>c s. subs_ok s \<longrightarrow> subs_ok (snd (snd (f c s))) \<and> later s (snd (snd (f c s))))"

lemma handler_okD:
  "handler_ok f \<Longrightarrow> subs_ok s \<Longrightarrow> f c s = (keep, c', s') \<Longrightarrow> subs_ok s' \<and> later s s'"
  by (metis handler_ok_def snd_conv)

definition loop_ok :: "(nat \<times> 'c) list \<Rightarrow> ('k, 'c, 'z) subscriber_set_scheme \<Rightarrow>
   (nat \<times> 'c) list \<Rightarrow> ('k, 'c, 'z) subscriber_set_scheme \<Rightarrow> nat list \<Rightarrow> bool" where
  "loop_ok m s kept s' calls \<longleftrightarrow>
     subs_ok s' \<and> later s s' \<and> subseq (map fst kept) (map fst m) \<and> subseq calls (map fst m) \<and>
     (\<forall>i \<in> set calls. \<not> dropped s i \<and> active s' i) \<and>
     (\<forall>i \<in> keys_of m. active s i \<and> \<not> dropped s' i \<longrightarrow> i \<in> set calls) \<and>
     (\<forall>i \<in> keys_of m. \<not> active s' i \<longrightarrow> i \<in> keys_of kept)"

lemma laterD:
  assumes "later s s'" "i < next_subscriber_id s"
  shows "i < next_subscriber_id s'" "active s i \<Longrightarrow> active s' i" "dropped s i \<Longrightarrow> dropped s' i"
    "i \<in> ids s' k \<Longrightarrow> i \<in> ids s k"
  using assms by (auto simp: later_def)

lemma call_loop_ok:
  assumes "handler_ok f"
  shows "call_loop f m s = (kept, s', calls) \<Longrightarrow> subs_ok s \<Longrightarrow>
    \<forall>i \<in> keys_of m. i < next_subscriber_id s \<Longrightarrow> loop_ok m s kept s' calls"
proof (induction m arbitrary: s kept s' calls)
  case Nil
  then show ?case by (auto simp: loop_ok_def later_refl)
next
  case (Cons entry m)
  obtain i c where entry: "entry = (i, c)" by force
  note prems = Cons.prems [unfolded entry]
  have i: "i < next_subscriber_id s" "\<forall>j \<in> keys_of m. j < next_subscriber_id s"
    using prems by auto
  consider (inert) "\<not> active s i" | (gone) "active s i" "dropped s i" | (call) "active s i" "\<not> dropped s i"
    by blast
  then show ?case
  proof cases
    case inert
    then obtain kept1 where r: "call_loop f m s = (kept1, s', calls)" "kept = (i, c) # kept1"
      using prems(1) by (auto simp: Let_def split: prod.splits)
    have "loop_ok m s kept1 s' calls"
      using Cons.IH [OF r(1) prems(2) i(2)] .
    then show ?thesis
      using inert r(2) by (auto simp: loop_ok_def entry)
  next
    case gone
    then have "loop_ok m s kept s' calls"
      using Cons.IH [OF _ prems(2) i(2)] prems(1) by (auto simp: Let_def)
    then show ?thesis
      using gone i laterD [of s s' i] by (auto simp: loop_ok_def entry)
  next
    case call
    obtain keep c1 s1 where f: "f c s = (keep, c1, s1)" by (metis prod_cases3)
    obtain kept1 calls1 where r: "call_loop f m s1 = (kept1, s', calls1)" "calls = i # calls1"
      "kept = (if keep \<and> \<not> dropped s1 i then (i, c1) # kept1 else kept1)"
      using prems(1) call f by (auto simp: Let_def split: prod.splits)
    have s1: "subs_ok s1" "later s s1"
      using handler_okD [OF assms prems(2) f] by auto
    have m: "\<forall>j \<in> keys_of m. j < next_subscriber_id s1"
      using i(2) laterD(1) [OF s1(2)] by auto
    have IH: "loop_ok m s1 kept1 s' calls1"
      using Cons.IH [OF r(1) s1(1) m] .
    have "later s s'"
      using IH s1(2) later_trans by (auto simp: loop_ok_def)
    moreover have "set calls1 \<subseteq> keys_of m"
      using IH subseq_subset [of calls1 "map fst m"] by (simp add: loop_ok_def)
    moreover have "\<forall>j \<in> set calls1. \<not> dropped s j"
    proof
      fix j assume "j \<in> set calls1"
      moreover then have "j < next_subscriber_id s"
        using i(2) \<open>set calls1 \<subseteq> keys_of m\<close> by blast
      ultimately show "\<not> dropped s j"
        using IH laterD(3) [OF s1(2), of j] by (auto simp: loop_ok_def)
    qed
    ultimately show ?thesis
      using IH call r(2,3) i laterD [OF s1(2)] laterD(2) [OF \<open>later s s'\<close> i(1)]
      by (auto simp: loop_ok_def entry)
  qed
qed

text \<open>
  What the call of a subscriber does to the others of the same \<open>retain\<close>, and to itself: a
  subscriber it drops is not called later, and it is not kept when it drops itself or returns false.
\<close>

lemma call_loop_effects:
  assumes "handler_ok f"
  shows "call_loop f m s = (kept, s', calls) \<Longrightarrow> subs_ok s \<Longrightarrow> ordered m \<Longrightarrow>
    \<forall>i \<in> keys_of m. i < next_subscriber_id s \<Longrightarrow> (j, c) \<in> set m \<Longrightarrow> j \<in> set calls \<Longrightarrow>
    (j < i \<and> (\<forall>t. dropped (snd (snd (f c t))) i) \<longrightarrow> i \<notin> set calls) \<and>
    ((\<forall>t. \<not> fst (f c t) \<or> dropped (snd (snd (f c t))) j) \<longrightarrow> j \<notin> keys_of kept)"
proof (induction m arbitrary: s kept s' calls)
  case (Cons entry m)
  obtain i0 c0 where entry: "entry = (i0, c0)" by force
  note prems = Cons.prems [unfolded entry]
  have bound: "\<forall>i \<in> keys_of m. i < next_subscriber_id s" and ord: "ordered m" and less: "\<forall>i \<in> keys_of m. i0 < i"
    using prems(3,4) by auto
  consider (inert) "\<not> active s i0" | (gone) "active s i0" "dropped s i0" | (call) "active s i0" "\<not> dropped s i0"
    by blast
  then show ?case
  proof cases
    case inert
    then obtain kept1 where r: "call_loop f m s = (kept1, s', calls)" "kept = (i0, c0) # kept1"
      using prems(1) by (auto simp: Let_def split: prod.splits)
    have "set calls \<subseteq> keys_of m"
      using call_loop_ok [OF assms r(1) prems(2) bound] subseq_subset [of calls "map fst m"] by (simp add: loop_ok_def)
    then have "i0 \<noteq> j" "(j, c) \<in> set m" using prems(5,6) less by auto
    then show ?thesis using Cons.IH [OF r(1) prems(2) ord bound _ prems(6)] r(2) by auto
  next
    case gone
    then have r: "call_loop f m s = (kept, s', calls)" using prems(1) by (simp add: Let_def)
    have "set calls \<subseteq> keys_of m"
      using call_loop_ok [OF assms r prems(2) bound] subseq_subset [of calls "map fst m"] by (simp add: loop_ok_def)
    then have "(j, c) \<in> set m" using prems(5,6) less by auto
    then show ?thesis using Cons.IH [OF r prems(2) ord bound _ prems(6)] by blast
  next
    case call
    obtain keep c1 s1 where f: "f c0 s = (keep, c1, s1)" by (metis prod_cases3)
    obtain kept1 calls1 where r: "call_loop f m s1 = (kept1, s', calls1)" "calls = i0 # calls1"
      "kept = (if keep \<and> \<not> dropped s1 i0 then (i0, c1) # kept1 else kept1)"
      using prems(1) call f by (auto simp: Let_def split: prod.splits)
    have s1: "subs_ok s1" "later s s1"
      using handler_okD [OF assms prems(2) f] by auto
    have m: "\<forall>i \<in> keys_of m. i < next_subscriber_id s1"
      using bound laterD(1) [OF s1(2)] by auto
    have loop: "loop_ok m s1 kept1 s' calls1" by (rule call_loop_ok [OF assms r(1) s1(1) m])
    then have sub: "set calls1 \<subseteq> keys_of m" "keys_of kept1 \<subseteq> keys_of m"
      using subseq_subset [of calls1 "map fst m"] subseq_subset [of "map fst kept1" "map fst m"] by (auto simp: loop_ok_def)
    show ?thesis
    proof (cases "j = i0")
      case True
      then have c: "c = c0" using prems(5) less by auto
      have "i \<notin> set calls1" if "\<forall>t. dropped (snd (snd (f c t))) i"
        using that [rule_format, of s] loop f c by (auto simp: loop_ok_def)
      moreover have "j \<notin> keys_of kept" if "\<forall>t. \<not> fst (f c t) \<or> dropped (snd (snd (f c t))) j"
      proof -
        have "j \<notin> keys_of kept1" using sub(2) less True less_irrefl by blast
        then show ?thesis using that [rule_format, of s] f c True r(3) by auto
      qed
      ultimately show ?thesis using True r(2) by auto
    next
      case False
      then have "(j, c) \<in> set m" "j \<in> set calls1" using prems(5,6) r(2) by auto
      moreover from this have "i0 < j" using less by auto
      ultimately show ?thesis
        using Cons.IH [OF r(1) s1(1) ord m, of] r(2,3) False by auto
    qed
  qed
qed simp

lemma retain_cases:
  assumes "sub_retain f k s = (s', calls)"
  obtains (nothing) "s' = s" "calls = []" "ids s k = {}"
  | (ran) m kept s2 new where "subscribers s k = Some (Some m)"
      "call_loop f m (s\<lparr>subscribers := (subscribers s)(k := Some None)\<rparr>) = (kept, s2, calls)"
      "new = (case subscribers s2 k of Some (Some n) \<Rightarrow> n | _ \<Rightarrow> [])"
      "s' = s2\<lparr>subscribers := (subscribers s2)
         (k := if btree_extend kept new = [] then None else Some (Some (btree_extend kept new)))\<rparr>"
proof (cases "subscribers s k")
  case None
  show thesis by (rule nothing) (use assms None in \<open>auto simp: sub_retain_def ids_def\<close>)
next
  case (Some e)
  show thesis
  proof (cases e)
    case None
    show thesis by (rule nothing) (use assms Some None in \<open>auto simp: sub_retain_def ids_def\<close>)
  next
    case m: (Some m)
    obtain kept s2 calls2 where r: "call_loop f m (s\<lparr>subscribers := (subscribers s)(k := Some None)\<rparr>) = (kept, s2, calls2)"
      by (metis prod_cases3)
    then show thesis
      using assms Some m by (intro ran [OF _ _ refl]) (auto simp: sub_retain_def Let_def)
  qed
qed

text \<open>
  What a \<open>retain\<close> does to the set: identifiers called, and kept, among those it found.
\<close>

lemma retain_ok:
  assumes "handler_ok f" "subs_ok s" "sub_retain f k s = (s', calls)"
  shows "subs_ok s' \<and> later s s' \<and> sorted_wrt (<) calls \<and> set calls \<subseteq> ids s k \<and>
    (\<forall>i \<in> set calls. \<not> dropped s i \<and> active s' i) \<and>
    (\<forall>i \<in> ids s k. active s i \<and> \<not> dropped s' i \<longrightarrow> i \<in> set calls) \<and>
    (\<forall>i \<in> ids s k. \<not> active s' i \<longrightarrow> i \<in> ids s' k)"
  using assms(3)
proof (cases rule: retain_cases)
  case nothing
  then show ?thesis using assms(2) by (simp add: later_refl)
next
  case (ran m kept s2 new)
  let ?s1 = "s\<lparr>subscribers := (subscribers s)(k := Some None)\<rparr>"
  note m = subs_okD [OF assms(2) ran(1)]
  have s1: "subs_ok ?s1" "later s ?s1"
    using replace_ok [OF assms(2), of "Some None" k] replace_later [of "Some None" s k] by auto
  have loop: "loop_ok m ?s1 kept s2 calls"
    using call_loop_ok [OF assms(1) ran(2) s1(1)] m(3) by simp
  then have s2: "subs_ok s2" "later s s2"
    using s1(2) later_trans by (auto simp: loop_ok_def)
  have kept: "ordered kept" "keys_of kept \<subseteq> ids s k" "sorted_wrt (<) calls" "set calls \<subseteq> ids s k"
    using loop m(2,4) subseq_subset [of "map fst kept" "map fst m"] subseq_subset [of calls "map fst m"]
      sorted_wrt_subseq [of _ "map fst m" "(<)"] by (auto simp: loop_ok_def)
  have new: "keys_of new = ids s2 k"
    by (auto simp: ran(3) ids_def split: option.splits)
  let ?e = "if btree_extend kept new = [] then None else Some (Some (btree_extend kept new))"
  have old: "i \<notin> ids s2 k'" if "i \<in> ids s k" for i k'
  proof -
    have "i < next_subscriber_id s"
      using that assms(2) by (auto simp: subs_ok_def)
    moreover have "i \<notin> ids ?s1 k'"
      using that subs_ok_apart [OF assms(2), of i k k'] by (auto simp: subscribers_update_ids)
    ultimately show ?thesis
      using loop laterD(4) [of ?s1 s2 i k'] by (auto simp: loop_ok_def)
  qed
  have bound: "i < next_subscriber_id s2" if "i \<in> ids s k" for i
    using that assms(2) s2(2) laterD(1) [of s s2 i] by (auto simp: subs_ok_def)
  have keys: "keys_of (btree_extend kept new) = keys_of kept \<union> ids s2 k" "ordered (btree_extend kept new)"
    using btree_extend_ok [of kept new] kept(1) new by auto
  have placed: "\<forall>i \<in> keys_of (btree_extend kept new). i \<in> ids s2 k \<or>
      (i < next_subscriber_id s2 \<and> (\<forall>k'. i \<notin> ids s2 k'))"
    unfolding keys(1) using kept(2) old bound by blast
  have "subs_ok s'"
    unfolding ran(4)
  proof (rule replace_ok [OF s2(1)])
    fix e assume "?e = Some (Some e)"
    then show "e \<noteq> [] \<and> ordered e \<and> (\<forall>i \<in> keys_of e. i \<in> ids s2 k \<or>
        (i < next_subscriber_id s2 \<and> (\<forall>k'. i \<notin> ids s2 k')))"
      using keys(2) placed by (simp split: if_splits)
  qed
  moreover have ids': "ids s' k' = (if k' = k then keys_of kept \<union> ids s2 k else ids s2 k')" for k'
    unfolding ran(4) subscribers_update_ids using keys(1) by auto
  moreover have "later s s'"
    using s2(2) kept(2) ids' by (auto simp: later_def ran(4))
  ultimately show ?thesis
    using loop kept m(4) by (auto simp: loop_ok_def ran(4))
qed

lemma retain_effects:
  assumes "handler_ok f" "subs_ok s" "sub_retain f k s = (s', calls)"
    and "subscribers s k = Some (Some m)" "(j, c) \<in> set m" "j \<in> set calls"
  shows "j < i \<Longrightarrow> \<forall>t. dropped (snd (snd (f c t))) i \<Longrightarrow> i \<notin> set calls"
    and "\<forall>t. \<not> fst (f c t) \<or> dropped (snd (snd (f c t))) j \<Longrightarrow> j \<notin> ids s' k"
proof -
  let ?s1 = "s\<lparr>subscribers := (subscribers s)(k := Some None)\<rparr>"
  note m = subs_okD [OF assms(2,4)]
  have s1: "subs_ok ?s1" "later s ?s1"
    using replace_ok [OF assms(2), of "Some None" k] replace_later [of "Some None" s k] by auto
  obtain kept s2 where r: "call_loop f m ?s1 = (kept, s2, calls)"
    "ids s' k = keys_of kept \<union> ids s2 k"
    using assms(3)
  proof (cases rule: retain_cases)
    case nothing
    then show thesis using assms(6) by simp
  next
    case (ran m' kept s2 new)
    have new: "keys_of new = ids s2 k"
      by (auto simp: ran(3) ids_def split: option.splits)
    have "ids s' k = keys_of kept \<union> ids s2 k"
      unfolding ran(4) subscribers_update_ids using btree_extend_ok [of kept new] new by auto
    then show thesis using that ran(1,2) assms(4) by simp
  qed
  have bound: "\<forall>i \<in> keys_of m. i < next_subscriber_id ?s1" using m(3) by simp
  note e = call_loop_effects [OF assms(1) r(1) s1(1) m(2) bound assms(5,6)]
  show "i \<notin> set calls" if "j < i" "\<forall>t. dropped (snd (snd (f c t))) i"
    using e that by blast
  have j: "j \<in> keys_of m" using assms(5) by force
  have "later ?s1 s2"
    using call_loop_ok [OF assms(1) r(1) s1(1) bound] by (simp add: loop_ok_def)
  moreover have "j \<notin> ids ?s1 k" by (simp add: subscribers_update_ids)
  ultimately have "j \<notin> ids s2 k"
    using laterD(4) [of ?s1 s2 j k] bound j by auto
  then show "j \<notin> ids s' k" if "\<forall>t. \<not> fst (f c t) \<or> dropped (snd (snd (f c t))) j"
    using e that r(2) by blast
qed

lemma history_later: "history s s' \<Longrightarrow> subs_ok s \<Longrightarrow> subs_ok s' \<and> later s s'"
proof (induction rule: history.induct)
  case (Start s)
  then show ?case by (simp add: later_refl)
next
  case (Insert s s1 k c h act i s2)
  then show ?case using insert_later [of s1 k c h act i s2] later_trans by blast
next
  case (Activate s s1 i)
  then show ?case using activate_later [of s1 i] later_trans by blast
next
  case (Unsubscribe s s1 k i)
  then show ?case using unsubscribe_later [of s1 k i] later_trans by blast
next
  case (Remove s s1 k removed s2)
  then show ?case using remove_later [of s1 k removed s2] later_trans by blast
next
  case (Retain s s1 f k s2 calls)
  then have "handler_ok f" by (simp add: handler_ok_def)
  then show ?case
    using Retain.IH(1) [OF Retain.prems] Retain.hyps retain_ok [of f s1 k s2 calls] later_trans by blast
qed

lemma history_handler: "\<forall>c t. history t (snd (snd (f c t))) \<Longrightarrow> handler_ok f"
  using history_later by (auto simp: handler_ok_def)

end
