(* ===== verification/Subscription_Theorems.thy ===== *)
theory Subscription_Theorems
  imports Subscription_Correct
begin

text \<open>
  The properties of subscriptions.
\<close>

section \<open>Inputs of the witnesses\<close>

text \<open>Two active subscribers of one emitter, and the set after the second was dropped.\<close>

definition sample_two :: "(unit, nat) subscriber_set" where
  "sample_two =
     (let (_, act0, _, s) = sub_insert () 10 subscriber_set_new;
          (_, act1, _, s) = sub_insert () 11 s in
      act1 (act0 s))"

definition sample_one :: "(unit, nat) subscriber_set" where
  "sample_one = sub_unsubscribe () 1 sample_two"

text \<open>Its callbacks drop the handle of the second subscriber.\<close>

definition drop_handler :: "(unit, nat, unit) handler" where
  "drop_handler c s = (True, c, sub_unsubscribe () 1 s)"

lemma sample_two_eq:
  "sample_two = \<lparr>subscribers = (\<lambda>_. Some (Some [(0, 10), (1, 11)])), next_subscriber_id = 2,
     active = (\<lambda>i. i < 2), dropped = (\<lambda>_. False)\<rparr>"
  by (auto simp: sample_two_def sub_insert_def subscriber_set_new_def sub_activate_def Let_def fun_eq_iff)

lemma sample_one_eq:
  "sample_one = \<lparr>subscribers = (\<lambda>_. Some (Some [(0, 10)])), next_subscriber_id = 2,
     active = (\<lambda>i. i < 2), dropped = (\<lambda>i. i = 1)\<rparr>"
  by (auto simp: sample_one_def sample_two_eq sub_unsubscribe_def btree_remove_def Let_def fun_eq_iff)

lemma sample_two_history: "history subscriber_set_new sample_two"
proof -
  obtain h act s where first: "sub_insert () 10 (subscriber_set_new :: (unit, nat) subscriber_set) = (h, act, 0, s)"
    by (simp add: sub_insert_def subscriber_set_new_def Let_def)
  obtain h' act' s' where second: "sub_insert () 11 s = (h', act', 1, s')"
    using first by (auto simp: sub_insert_def subscriber_set_new_def Let_def)
  have "history subscriber_set_new (sub_activate 1 (sub_activate 0 s'))"
    by (rule history.Activate [OF history.Activate
          [OF history.Insert [OF history.Insert [OF history.Start first] second]]])
  moreover have "sub_activate 1 (sub_activate 0 s') = sample_two"
    using first second by (auto simp: sample_two_def sub_insert_def Let_def)
  ultimately show ?thesis by simp
qed

lemma sample_one_history: "history subscriber_set_new sample_one"
  unfolding sample_one_def by (rule history.Unsubscribe [OF sample_two_history])

section \<open>Cancellation\<close>

text \<open>
  C19. Whatever was done with the set before, and whatever the callbacks do with it: a
  \<open>retain\<close> never calls a subscriber whose handle was dropped at any earlier time, nor one that
  is not active; it calls subscribers of its own emitter that were there when it began, each at most
  once and in the order of insertion, all of them that are active and not dropped
  meanwhile; and subscribers that are not active yet survive it. A subscriber that a callback drops
  is not called after it, in the same \<open>retain\<close>, and one that drops itself or returns false is
  gone afterwards.
\<close>

theorem subscription_cancelled:
  assumes "history subscriber_set_new s" "history s s1"
    and "\<forall>c t. history t (snd (snd (f c t)))"
    and "sub_retain f k s1 = (s2, calls)"
  shows "(\<forall>i < next_subscriber_id s. dropped s i \<longrightarrow> i \<notin> set calls) \<and>
    (\<forall>i. \<not> active s2 i \<longrightarrow> i \<notin> set calls) \<and>
    sorted_wrt (<) calls \<and> set calls \<subseteq> ids s1 k \<and>
    (\<forall>i \<in> ids s1 k. active s1 i \<and> \<not> dropped s2 i \<longrightarrow> i \<in> set calls) \<and>
    (\<forall>i \<in> ids s1 k. \<not> active s2 i \<longrightarrow> i \<in> ids s2 k) \<and>
    (\<forall>m j c. subscribers s1 k = Some (Some m) \<and> (j, c) \<in> set m \<and> j \<in> set calls \<longrightarrow>
      (\<forall>i. j < i \<and> (\<forall>t. dropped (snd (snd (f c t))) i) \<longrightarrow> i \<notin> set calls) \<and>
      ((\<forall>t. \<not> fst (f c t) \<or> dropped (snd (snd (f c t))) j) \<longrightarrow> j \<notin> ids s2 k))"
proof -
  have ok: "subs_ok s" "subs_ok s1" "later s s1"
    using history_later [OF assms(1) subscriber_set_new_ok] history_later [OF assms(2)] by auto
  note handler = history_handler [OF assms(3)]
  have "(\<forall>m j c. subscribers s1 k = Some (Some m) \<and> (j, c) \<in> set m \<and> j \<in> set calls \<longrightarrow>
      (\<forall>i. j < i \<and> (\<forall>t. dropped (snd (snd (f c t))) i) \<longrightarrow> i \<notin> set calls) \<and>
      ((\<forall>t. \<not> fst (f c t) \<or> dropped (snd (snd (f c t))) j) \<longrightarrow> j \<notin> ids s2 k))"
    using retain_effects [OF handler ok(2) assms(4)] by blast
  then show ?thesis
    using retain_ok [OF handler ok(2) assms(4)] laterD(3) [OF ok(3)] by blast
qed

text \<open>The first of two active subscribers drops the handle of the second.\<close>

theorem subscription_cancelled_witness:
  "\<exists>s2 calls. sub_retain drop_handler () sample_two = (s2, calls) \<and> 0 \<in> set calls \<and> 1 \<notin> set calls \<and>
     active sample_two 1 \<and> \<not> dropped sample_two 1"
proof -
  obtain s2 calls where r: "sub_retain drop_handler () sample_two = (s2, calls)" by force
  have f: "\<forall>c t. history t (snd (snd (drop_handler c t)))"
    by (simp add: drop_handler_def history.Unsubscribe history.Start)
  have "\<not> dropped s2 0" "0 \<in> ids sample_two ()"
    using r by (auto simp: sample_two_eq sub_retain_def drop_handler_def sub_unsubscribe_def ids_def Let_def)
  then have called: "0 \<in> set calls"
    using subscription_cancelled [OF sample_two_history history.Start f r] by (auto simp: sample_two_eq)
  have m: "subscribers sample_two () = Some (Some [(0, 10), (1, 11)])" "(0, 10) \<in> set [(0, 10), (1, 11 :: nat)]"
    by (simp_all add: sample_two_eq)
  have drops: "\<forall>t. dropped (snd (snd (drop_handler 10 t))) 1"
    by (simp add: drop_handler_def sub_unsubscribe_def Let_def split: option.split)
  have "1 \<notin> set calls"
    using subscription_cancelled [OF sample_two_history history.Start f r] m called drops
    by (meson zero_less_one)
  then show ?thesis
    using r called by (simp add: sample_two_eq)
qed

section \<open>The function of \<open>retain\<close>\<close>

text \<open>
  With callbacks that leave the set alone, \<open>retain\<close> is a filter on the emitter it is
  called for: subscribers that are not active stay as they are, dropped ones go, the
  others are called and stay, with the callback as the call left it, when it returns true.
  An emitter without subscribers loses its entry, and the other emitters do not change.
\<close>

lemma retain_filters:
  "sub_retain (\<lambda>c t. (keep c, upd c, t)) k s =
    (case subscribers s k of
       Some (Some m) \<Rightarrow>
         let kept = map (\<lambda>(i, c). (i, if active s i then upd c else c))
                      (filter (\<lambda>(i, c). if active s i then \<not> dropped s i \<and> keep c else True) m) in
         (s\<lparr>subscribers := (subscribers s)(k := if kept = [] then None else Some (Some kept))\<rparr>,
          map fst (filter (\<lambda>(i, _). active s i \<and> \<not> dropped s i) m))
     | _ \<Rightarrow> (s, []))"
proof -
  have loop: "call_loop (\<lambda>c t. (keep c, upd c, t)) n t =
      (map (\<lambda>(i, c). (i, if active t i then upd c else c))
         (filter (\<lambda>(i, c). if active t i then \<not> dropped t i \<and> keep c else True) n), t,
       map fst (filter (\<lambda>(i, _). active t i \<and> \<not> dropped t i) n))" for n t
  proof (induction n)
    case (Cons entry n)
    then show ?case
      by (cases entry; cases "active t (fst entry)"; cases "dropped t (fst entry)"; cases "keep (snd entry)")
        (simp_all add: Let_def)
  qed simp
  show ?thesis
    by (auto simp: sub_retain_def loop Let_def split: option.splits)
qed

section \<open>Handles\<close>

text \<open>
  C20. Inserting gives a fresh identifier, and the subscriber is not active yet; dropping
  the handle takes exactly this subscriber out again, so that the subscribers of every
  emitter are as before, while the callbacks of the emitter are running included (its entry
  is then gone until they finish). A detached handle leaves the subscriber in
  place, and dropping two joined handles drops the first and then the second.
\<close>

theorem subscription_handles:
  assumes "history subscriber_set_new s" "sub_insert k c s = (h, act, i, s1)"
  shows "(\<forall>k. i \<notin> ids s k) \<and> ids s1 k = insert i (ids s k) \<and> \<not> active s1 i \<and> active (act s1) i \<and>
    subscribers (subscription_drop h s1) =
      (subscribers s)(k := if subscribers s k = Some None then None else subscribers s k) \<and>
    dropped (subscription_drop h s1) i \<and>
    subscription_detach h s1 = s1 \<and>
    subscription_drop (subscription_join h h') s1 = subscription_drop h' (subscription_drop h s1)"
proof -
  define m where "m = (case subscribers s k of Some (Some m) \<Rightarrow> m | _ \<Rightarrow> [])"
  have ok: "subs_ok s"
    using history_later [OF assms(1) subscriber_set_new_ok] by blast
  have h: "h = subscription_new (sub_unsubscribe k i)" "act = sub_activate i" "i = next_subscriber_id s"
    and s1: "s1 = s\<lparr>next_subscriber_id := i + 1, subscribers := (subscribers s)(k := Some (Some (btree_insert i c m))),
        active := (active s)(i := False), dropped := (dropped s)(i := False)\<rparr>"
    using assms(2) by (auto simp: sub_insert_def Let_def m_def)
  have bound: "\<forall>k. \<forall>j \<in> ids s k. j < i"
    using ok h(3) by (simp add: subs_ok_def)
  have keys: "keys_of m = ids s k"
    by (simp add: m_def ids_def split: option.splits)
  have fresh: "\<forall>k. i \<notin> ids s k" "\<forall>j \<in> keys_of m. j < i" "keys_of m = ids s k"
    using bound keys by auto
  have "m = [] \<longleftrightarrow> (\<forall>m'. subscribers s k \<noteq> Some (Some m'))"
    using subs_okD(1) [OF ok] by (auto simp: m_def split: option.splits)
  then have entry: "(if m = [] then None else Some (Some m)) =
      (if subscribers s k = Some None then None else subscribers s k)"
    by (auto simp: m_def split: option.splits)
  have "ids s1 k = insert i (ids s k)"
    using fresh(3) by (simp add: s1 ids_def)
  moreover have "subscribers (subscription_drop h s1) =
      (subscribers s)(k := if m = [] then None else Some (Some m))"
    using btree_remove_insert_last [OF fresh(2), of c]
    by (simp add: subscription_drop_def subscription_new_def h(1) sub_unsubscribe_def s1 Let_def)
  moreover have "dropped (subscription_drop h s1) i"
    by (simp add: subscription_drop_def subscription_new_def h(1) sub_unsubscribe_def Let_def split: option.splits)
  ultimately show ?thesis
    using fresh(1) entry
    by (simp add: h(2) s1 sub_activate_def subscription_detach_def subscription_join_def
        subscription_drop_def Let_def)
qed

theorem subscription_handles_witness:
  "\<exists>h act i s1. sub_insert () 12 sample_one = (h, act, i, s1) \<and>
     subscribers (subscription_drop h s1) = subscribers sample_one"
proof -
  obtain h act i s1 where r: "sub_insert () 12 sample_one = (h, act, i, s1)"
    by (metis prod_cases4)
  have "subscribers sample_one () \<noteq> Some None"
    by (simp add: sample_one_eq)
  then show ?thesis
    using subscription_handles [OF sample_one_history r, of h] r by (auto simp: fun_eq_iff)
qed

section \<open>Dropped while called\<close>

text \<open>
  A subscriber that a later callback of the same \<open>retain\<close> drops has been kept already and
  stays in the map. The next \<open>retain\<close> discards it, but \<open>remove\<close>, which only looks at the
  activity, still hands out its callback.
\<close>

lemma dropped_and_removed:
  "\<exists>s. sub_retain (\<lambda>c t. (True, c, if c = 11 then sub_unsubscribe () 0 t else t)) () sample_two = (s, [0, 1]) \<and>
     dropped s 0 \<and> map_option fst (removed_next s (fst (sub_remove () s))) = Some 10"
  by (simp add: sample_two_eq sub_retain_def sub_unsubscribe_def sub_remove_def Let_def)

end
