(* ===== verification/Tab_Stop.thy ===== *)
theory Tab_Stop
  imports Sum_Tree_Keyed "HOL-Library.List_Lexorder" "HOL-Library.AList"
begin

text \<open>
  The tab order of focus handles (\<open>gpui/src/tab_stop.rs\<close>): a sum tree of nodes ordered by
  their path of tab indices and then by insertion, a second instance of the keyed trees.
  A panic is \<open>None\<close>; debug assertions are not modelled.
\<close>

section \<open>Nodes and their order\<close>

text \<open>The handle with the fields the tab order reads; its other fields play no part here.\<close>

record 'f focus_handle =
  handle_id :: 'f
  tab_index :: int
  handle_tab_stop :: bool

datatype 'f tab_operation = TabInsert "'f focus_handle" | TabGroup int | TabGroupEnd

fun operation_handle :: "'f tab_operation \<Rightarrow> 'f focus_handle option" where
  "operation_handle (TabInsert h) = Some h"
| "operation_handle _ = None"

record tab_node =
  node_path :: "int list"
  node_insertion_index :: nat
  tab_stop :: bool

text \<open>
  Nodes are compared by path and insertion index; the comparison does not read whether the
  node is a tab stop. The pair of the two is the key, and also the position of a cursor,
  whose \<open>tab_stop\<close> the sources leave at its default and never read.
\<close>

datatype tab_key = Tab_key "int list" nat

definition tab_key_less :: "tab_key \<Rightarrow> tab_key \<Rightarrow> bool" where
  "tab_key_less a b = (case (a, b) of (Tab_key p i, Tab_key q j) \<Rightarrow> p < q \<or> (p = q \<and> i < j))"

definition tab_key_less_eq :: "tab_key \<Rightarrow> tab_key \<Rightarrow> bool" where
  "tab_key_less_eq a b = (case (a, b) of (Tab_key p i, Tab_key q j) \<Rightarrow> p < q \<or> (p = q \<and> i \<le> j))"

instantiation tab_key :: linorder
begin

definition less_tab_key :: "tab_key \<Rightarrow> tab_key \<Rightarrow> bool" where
  "less_tab_key = tab_key_less"

definition less_eq_tab_key :: "tab_key \<Rightarrow> tab_key \<Rightarrow> bool" where
  "less_eq_tab_key = tab_key_less_eq"

instance
  by standard
    (auto simp: less_tab_key_def less_eq_tab_key_def tab_key_less_def tab_key_less_eq_def split: tab_key.splits)

end

lemma tab_key_order [simp]:
  "Tab_key p i < Tab_key q j \<longleftrightarrow> p < q \<or> (p = q \<and> i < j)"
  "Tab_key p i \<le> Tab_key q j \<longleftrightarrow> p < q \<or> (p = q \<and> i \<le> j)"
  by (simp_all add: less_tab_key_def less_eq_tab_key_def tab_key_less_def tab_key_less_eq_def)

definition node_key :: "tab_node \<Rightarrow> tab_key" where
  "node_key n = Tab_key (node_path n) (node_insertion_index n)"

record tab_summary =
  max_index :: nat
  max_path :: "int list"
  tab_stops :: nat

definition tab_ops :: "(tab_node, tab_summary) summary_ops" where
  "tab_ops = \<lparr>
     item_summary = (\<lambda>n. \<lparr>max_index = node_insertion_index n, max_path = node_path n,
                         tab_stops = if tab_stop n then 1 else 0\<rparr>),
     summary_zero = \<lparr>max_index = 0, max_path = [], tab_stops = 0\<rparr>,
     summary_add = (\<lambda>s summary. s\<lparr>max_index := max_index summary, max_path := max_path summary,
                                  tab_stops := tab_stops s + tab_stops summary\<rparr>)\<rparr>"

definition tab_dim :: "(tab_summary, tab_key) dim_ops" where
  "tab_dim = \<lparr>dim_zero = Tab_key [] 0, dim_add = (\<lambda>_ s. Tab_key (max_path s) (max_index s))\<rparr>"

definition tab_count_dim :: "(tab_summary, nat) dim_ops" where
  "tab_count_dim = \<lparr>dim_zero = 0, dim_add = (\<lambda>n s. n + tab_stops s)\<rparr>"

interpretation tab_tree: keyed tab_ops tab_dim node_key
proof unfold_locales
  show "dim_zero tab_dim \<le> node_key x" for x
    by (cases "node_path x") (simp_all add: tab_dim_def node_key_def)
qed (simp_all add: tab_ops_def tab_dim_def node_key_def)

interpretation tab_count: dimension tab_ops tab_count_dim
  by unfold_locales (simp_all add: tab_ops_def tab_count_dim_def)

section \<open>The map\<close>

record 'f tab_stop_map =
  current_path :: "int list"
  insertion_history :: "'f tab_operation list"
  by_id :: "('f \<times> tab_node) list"
  order :: "(tab_node, tab_summary) node"

definition tab_default :: "'f tab_stop_map" where
  "tab_default = \<lparr>current_path = [], insertion_history = [], by_id = [], order = tree_new tab_ops\<rparr>"

definition tab_insert :: "'f focus_handle \<Rightarrow> 'f tab_stop_map \<Rightarrow> 'f tab_stop_map option" where
  "tab_insert h m =
     (let m = m\<lparr>insertion_history := insertion_history m @ [TabInsert h]\<rparr>;
          path = current_path m @ [tab_index h];
          node = \<lparr>node_path = path, node_insertion_index = length (insertion_history m) - 1,
                  tab_stop = handle_tab_stop h\<rparr>;
          m = m\<lparr>by_id := AList.update (handle_id h) node (by_id m)\<rparr> in
      do { (_, t) \<leftarrow> insert_or_replace tab_ops tab_dim node_key (order m) node;
           Some (m\<lparr>order := t\<rparr>) })"

definition begin_group :: "int \<Rightarrow> 'f tab_stop_map \<Rightarrow> 'f tab_stop_map" where
  "begin_group i m = m\<lparr>insertion_history := insertion_history m @ [TabGroup i],
     current_path := current_path m @ [i]\<rparr>"

definition end_group :: "'f tab_stop_map \<Rightarrow> 'f tab_stop_map" where
  "end_group m = m\<lparr>insertion_history := insertion_history m @ [TabGroupEnd],
     current_path := butlast (current_path m)\<rparr>"

definition tab_clear :: "'f tab_stop_map \<Rightarrow> 'f tab_stop_map" where
  "tab_clear m =
     tab_default\<lparr>current_path := [], insertion_history := [], by_id := [], order := tree_new tab_ops\<rparr>"

definition tab_apply :: "'f tab_operation \<Rightarrow> 'f tab_stop_map \<Rightarrow> 'f tab_stop_map option" where
  "tab_apply operation m =
     (case operation of
        TabInsert h \<Rightarrow> tab_insert h m
      | TabGroup i \<Rightarrow> Some (begin_group i m)
      | TabGroupEnd \<Rightarrow> Some (end_group m))"

fun tab_replay :: "'f tab_operation list \<Rightarrow> 'f tab_stop_map \<Rightarrow> 'f tab_stop_map option" where
  "tab_replay [] m = Some m"
| "tab_replay (operation # nodes) m = do { m \<leftarrow> tab_apply operation m; tab_replay nodes m }"

definition paint_index :: "'f tab_stop_map \<Rightarrow> nat" where
  "paint_index m = length (insertion_history m)"

definition tab_stop_count :: "'f tab_stop_map \<Rightarrow> nat" where
  "tab_stop_count m = length (filter (\<lambda>(_, n). tab_stop n) (by_id m))"

definition tab_node_for_focus_id :: "'f tab_stop_map \<Rightarrow> 'f \<Rightarrow> tab_node option" where
  "tab_node_for_focus_id m i = map_of (by_id m) i"

text \<open>Indexing the history out of range is a panic; an operation without a handle gives none.\<close>

definition focus_handle_for_order :: "'f tab_stop_map \<Rightarrow> tab_node \<Rightarrow> 'f focus_handle option option" where
  "focus_handle_for_order m n =
     (if node_insertion_index n < length (insertion_history m)
      then Some (operation_handle (insertion_history m ! node_insertion_index n)) else None)"

section \<open>Moving the focus\<close>

text \<open>
  The loops over nodes that are no tab stops, in either direction. They end because the cursor
  reaches an end of the tree, which is proved with their result.
\<close>

partial_function (option) skip_forward ::
  "(tab_node, tab_summary, tab_key) cursor \<Rightarrow> (tab_node, tab_summary, tab_key) cursor option" where
  "skip_forward c = do {
     item \<leftarrow> cursor_item c;
     (case item of
        Some n \<Rightarrow> if \<not> tab_stop n then do { c \<leftarrow> cursor_next tab_dim c; skip_forward c } else Some c
      | None \<Rightarrow> Some c)
   }"

declare skip_forward.simps [code]

partial_function (option) skip_backward ::
  "(tab_node, tab_summary, tab_key) cursor \<Rightarrow> (tab_node, tab_summary, tab_key) cursor option" where
  "skip_backward c = do {
     item \<leftarrow> cursor_item c;
     (case item of
        Some n \<Rightarrow> if \<not> tab_stop n then do { c \<leftarrow> cursor_prev tab_dim c; skip_backward c } else Some c
      | None \<Rightarrow> Some c)
   }"

declare skip_backward.simps [code]

definition next_inner :: "'f tab_stop_map \<Rightarrow> tab_node \<Rightarrow> tab_node option option" where
  "next_inner m n = do {
     (_, c) \<leftarrow> cursor_seek tab_dim (ord_target (node_key n)) LeftBias (cursor_new tab_dim (order m));
     c \<leftarrow> cursor_next tab_dim c;
     c \<leftarrow> skip_forward c;
     cursor_item c
   }"

definition prev_inner :: "'f tab_stop_map \<Rightarrow> tab_node \<Rightarrow> tab_node option option" where
  "prev_inner m n = do {
     (_, c) \<leftarrow> cursor_seek tab_dim (ord_target (node_key n)) LeftBias (cursor_new tab_dim (order m));
     c \<leftarrow> cursor_prev tab_dim c;
     c \<leftarrow> skip_backward c;
     cursor_item c
   }"

text \<open>\<open>and_then\<close> on an answer.\<close>

definition handle_for :: "'f tab_stop_map \<Rightarrow> tab_node option \<Rightarrow> 'f focus_handle option option" where
  "handle_for m answer =
     (case answer of Some n \<Rightarrow> focus_handle_for_order m n | None \<Rightarrow> Some None)"

definition tab_next_none :: "'f tab_stop_map \<Rightarrow> 'f focus_handle option option" where
  "tab_next_none m = do {
     first \<leftarrow> tree_first (order m);
     (case first of
        None \<Rightarrow> Some None
      | Some n \<Rightarrow>
          if tab_stop n then focus_handle_for_order m n
          else do { answer \<leftarrow> next_inner m n; handle_for m answer })
   }"

definition tab_next :: "'f tab_stop_map \<Rightarrow> 'f option \<Rightarrow> 'f focus_handle option option" where
  "tab_next m focused =
     (case focused of
        None \<Rightarrow> tab_next_none m
      | Some i \<Rightarrow>
          (case tab_node_for_focus_id m i of
             None \<Rightarrow> tab_next_none m
           | Some n \<Rightarrow> do {
               item \<leftarrow> next_inner m n;
               (case item of Some n \<Rightarrow> focus_handle_for_order m n | None \<Rightarrow> tab_next_none m) }))"

definition tab_prev_none :: "'f tab_stop_map \<Rightarrow> 'f focus_handle option option" where
  "tab_prev_none m = do {
     final \<leftarrow> tree_last (order m);
     (case final of
        None \<Rightarrow> Some None
      | Some n \<Rightarrow>
          if tab_stop n then focus_handle_for_order m n
          else do { answer \<leftarrow> prev_inner m n; handle_for m answer })
   }"

definition tab_prev :: "'f tab_stop_map \<Rightarrow> 'f option \<Rightarrow> 'f focus_handle option option" where
  "tab_prev m focused =
     (case focused of
        None \<Rightarrow> tab_prev_none m
      | Some i \<Rightarrow>
          (case tab_node_for_focus_id m i of
             None \<Rightarrow> tab_prev_none m
           | Some n \<Rightarrow> do {
               item \<leftarrow> prev_inner m n;
               (case item of Some n \<Rightarrow> focus_handle_for_order m n | None \<Rightarrow> tab_prev_none m) }))"

end
