(* ===== verification/Tab_Stop_Correct.thy ===== *)
theory Tab_Stop_Correct
  imports Tab_Stop
begin

text \<open>
  Correctness of the tab order: the nodes a history of operations denotes, the invariant of
  the map, and what the two loops of the cursor find.
\<close>

section \<open>What a history denotes\<close>

text \<open>The path after a history, and the nodes inserted by it, the first operation having index \<open>i\<close>.\<close>

fun path_after :: "int list \<Rightarrow> 'f tab_operation list \<Rightarrow> int list" where
  "path_after p [] = p"
| "path_after p (TabInsert h # nodes) = path_after p nodes"
| "path_after p (TabGroup t # nodes) = path_after (p @ [t]) nodes"
| "path_after p (TabGroupEnd # nodes) = path_after (butlast p) nodes"

definition node_at :: "nat \<Rightarrow> int list \<Rightarrow> 'f focus_handle \<Rightarrow> tab_node" where
  "node_at i p h = \<lparr>node_path = p @ [tab_index h], node_insertion_index = i, tab_stop = handle_tab_stop h\<rparr>"

definition nodes_of :: "'f tab_operation list \<Rightarrow> tab_node set" where
  "nodes_of ops = {node_at i (path_after [] (take i ops)) h | i h. i < length ops \<and> ops ! i = TabInsert h}"

lemma path_after_append: "path_after p (xs @ ys) = path_after (path_after p xs) ys"
  by (induction p xs rule: path_after.induct) auto

lemma nodes_of_snoc:
  "nodes_of (ops @ [operation]) =
     (case operation of TabInsert h \<Rightarrow> insert (node_at (length ops) (path_after [] ops) h) (nodes_of ops) | _ \<Rightarrow> nodes_of ops)"
  by (auto simp: nodes_of_def nth_append less_Suc_eq split: tab_operation.split if_splits)

lemma nodes_of_Nil [simp]: "nodes_of [] = {}"
  by (simp add: nodes_of_def)

section \<open>The invariant\<close>

definition tab_ok :: "'f tab_stop_map \<Rightarrow> bool" where
  "tab_ok m \<longleftrightarrow>
     wf_tree tab_ops TREE_BASE (order m) \<and>
     sorted_wrt (<) (map node_key (flat (order m))) \<and>
     set (flat (order m)) = nodes_of (insertion_history m) \<and>
     current_path m = path_after [] (insertion_history m) \<and>
     length (flat (order m)) \<le> length (insertion_history m) \<and>
     distinct (map fst (by_id m)) \<and>
     (\<forall>i n. map_of (by_id m) i = Some n \<longrightarrow> n \<in> nodes_of (insertion_history m) \<and>
        (\<exists>h. insertion_history m ! node_insertion_index n = TabInsert h \<and> handle_id h = i)) \<and>
     (\<forall>h. TabInsert h \<in> set (insertion_history m) \<longrightarrow> map_of (by_id m) (handle_id h) \<noteq> None)"

lemma tab_by_id:
  assumes "tab_ok m"
  shows "map_of (by_id m) i = Some n \<Longrightarrow> n \<in> nodes_of (insertion_history m) \<and>
      (\<exists>h. insertion_history m ! node_insertion_index n = TabInsert h \<and> handle_id h = i)"
    and "TabInsert h \<in> set (insertion_history m) \<Longrightarrow> \<exists>n. map_of (by_id m) (handle_id h) = Some n"
  using assms unfolding tab_ok_def by blast+

lemma tab_default_ok: "tab_ok tab_default"
  by (simp add: tab_ok_def tab_default_def)

lemma nodes_of_index: "n \<in> nodes_of ops \<Longrightarrow> node_insertion_index n < length ops"
  by (auto simp: nodes_of_def node_at_def)

lemma node_key_inj: "node_key n = node_key n' \<Longrightarrow> n \<in> nodes_of ops \<Longrightarrow> n' \<in> nodes_of ops \<Longrightarrow> n = n'"
  by (auto simp: nodes_of_def node_at_def node_key_def)

lemma tab_height:
  assumes "tab_ok m" "length (insertion_history m) < TREE_BASE ^ STACK_CAP"
  shows "node_height (order m) < STACK_CAP"
  using assms wf_node_height_bound [of tab_ops TREE_BASE "node_height (order m)" "order m" STACK_CAP]
  by (auto simp: tab_ok_def wf_tree_def tree_new_def TREE_BASE_def STACK_CAP_def)

lemma sorted_wrt_insert_key:
  fixes f :: "'a \<Rightarrow> 'b::linorder"
  assumes "sorted_wrt (<) (map f xs)"
  shows "sorted_wrt (<) (map f (filter (\<lambda>x. f x < f y) xs @ y # filter (\<lambda>x. f y < f x) xs))"
  using assms by (auto simp: sorted_wrt_append sorted_wrt_map sorted_wrt_filter intro: order.strict_trans)

lemma tab_insert_ok:
  assumes "tab_ok m" "length (insertion_history m) < TREE_BASE ^ STACK_CAP"
  shows "\<exists>m'. tab_insert h m = Some m' \<and> tab_ok m' \<and> insertion_history m' = insertion_history m @ [TabInsert h]"
proof -
  let ?n = "node_at (length (insertion_history m)) (current_path m) h"
  let ?xs = "flat (order m)"
  note ok = assms(1) [unfolded tab_ok_def]
  obtain t' where t': "insert_or_replace tab_ops tab_dim node_key (order m) ?n = Some (find (\<lambda>x. node_key x = node_key ?n) ?xs, t')"
    "wf_tree tab_ops TREE_BASE t'"
    "flat t' = filter (\<lambda>x. node_key x < node_key ?n) ?xs @ ?n # filter (\<lambda>x. node_key ?n < node_key x) ?xs"
    using tab_tree.insert_or_replace_ok [of TREE_BASE "order m" ?n] ok tab_height [OF assms] by auto
  have fresh: "node_key x \<noteq> node_key ?n" if "x \<in> set ?xs" for x
    using that ok nodes_of_index [of x "insertion_history m"] by (auto simp: node_key_def node_at_def)
  then have set: "set (flat t') = insert ?n (set ?xs)"
    by (auto simp: t'(3) neq_iff)
  have len: "length (filter (\<lambda>x. node_key x < node_key ?n) xs) + length (filter (\<lambda>x. node_key ?n < node_key x) xs) \<le> length xs" for xs
    by (induction xs) auto
  let ?m = "m\<lparr>insertion_history := insertion_history m @ [TabInsert h],
    by_id := AList.update (handle_id h) ?n (by_id m), order := t'\<rparr>"
  have "tab_insert h m = Some ?m"
    using t'(1) by (simp add: tab_insert_def node_at_def Let_def)
  moreover have "tab_ok ?m"
    unfolding tab_ok_def
  proof (intro conjI)
    show "sorted_wrt (<) (map node_key (flat (order ?m)))"
      using sorted_wrt_insert_key [of node_key ?xs ?n] ok t'(3) by simp
    show "set (flat (order ?m)) = nodes_of (insertion_history ?m)"
      using set ok by (simp add: nodes_of_snoc)
    show "current_path ?m = path_after [] (insertion_history ?m)"
      using ok by (simp add: path_after_append)
    show "length (flat (order ?m)) \<le> length (insertion_history ?m)"
      using len [of ?xs] ok by (simp add: t'(3) del: length_filter_less)
    show "distinct (map fst (by_id ?m))"
      using ok by (simp add: distinct_update)
    show "\<forall>i n. map_of (by_id ?m) i = Some n \<longrightarrow> n \<in> nodes_of (insertion_history ?m) \<and>
        (\<exists>h. insertion_history ?m ! node_insertion_index n = TabInsert h \<and> handle_id h = i)"
    proof (intro allI impI)
      fix i n assume n: "map_of (by_id ?m) i = Some n"
      show "n \<in> nodes_of (insertion_history ?m) \<and>
        (\<exists>h. insertion_history ?m ! node_insertion_index n = TabInsert h \<and> handle_id h = i)"
      proof (cases "i = handle_id h")
        case True
        then have "n = ?n" using n by (simp add: update_conv')
        then show ?thesis using True ok by (simp add: nodes_of_snoc node_at_def nth_append)
      next
        case False
        then have old: "n \<in> nodes_of (insertion_history m)"
          "\<exists>h. insertion_history m ! node_insertion_index n = TabInsert h \<and> handle_id h = i"
          using n ok by (simp_all add: update_conv')
        then show ?thesis
          using nodes_of_index [OF old(1)] by (simp add: nodes_of_snoc nth_append)
      qed
    qed
    show "\<forall>h. TabInsert h \<in> set (insertion_history ?m) \<longrightarrow> map_of (by_id ?m) (handle_id h) \<noteq> None"
      using ok by (auto simp: update_conv')
  qed (use t' in simp)
  ultimately show ?thesis by simp
qed

lemma tab_group_ok:
  assumes "tab_ok m"
  shows "tab_ok (begin_group i m)" "tab_ok (end_group m)"
  using assms
  by (auto simp: tab_ok_def begin_group_def end_group_def nodes_of_snoc path_after_append nth_append
      dest: nodes_of_index)

lemma tab_apply_ok:
  assumes "tab_ok m" "length (insertion_history m) < TREE_BASE ^ STACK_CAP"
  shows "\<exists>m'. tab_apply operation m = Some m' \<and> tab_ok m' \<and> insertion_history m' = insertion_history m @ [operation]"
  using tab_insert_ok [OF assms] tab_group_ok [OF assms(1)]
  by (cases operation) (auto simp: tab_apply_def begin_group_def end_group_def)

lemma tab_replay_ok:
  "tab_ok m \<Longrightarrow> length (insertion_history m) + length ops \<le> TREE_BASE ^ STACK_CAP \<Longrightarrow>
   \<exists>m'. tab_replay ops m = Some m' \<and> tab_ok m' \<and> insertion_history m' = insertion_history m @ ops"
proof (induction ops arbitrary: m)
  case (Cons operation ops)
  then have "length (insertion_history m) < TREE_BASE ^ STACK_CAP" by simp
  from tab_apply_ok [OF Cons.prems(1) this, of operation] obtain m' where
    m': "tab_apply operation m = Some m'" "tab_ok m'" "insertion_history m' = insertion_history m @ [operation]" by blast
  from Cons.IH [OF m'(2)] Cons.prems(2) m'(1,3) show ?case by auto
qed simp

section \<open>The loops\<close>

lemma cursor_item_at: "cursor_at tab_ops tab_dim k c us ws \<Longrightarrow> cursor_item c = Some (first_opt ws)"
  by (rule cursor_at_item(1))

lemma skip_forward_ok:
  "cursor_at tab_ops tab_dim k c us ws \<Longrightarrow>
   \<exists>c'. skip_forward c = Some c' \<and> cursor_item c' = Some (find tab_stop ws)"
proof (induction ws arbitrary: c us)
  case Nil
  then show ?case
    using cursor_item_at [OF Nil] by (subst skip_forward.simps) (simp add: first_opt_def)
next
  case (Cons x ws)
  note item = cursor_item_at [OF Cons.prems]
  show ?case
  proof (cases "tab_stop x")
    case True
    then show ?thesis using item by (subst skip_forward.simps) (simp add: first_opt_def)
  next
    case False
    from tab_tree.cursor_next_ok [OF ahead_at [OF Cons.prems]] obtain c' where
      c': "cursor_next tab_dim c = Some c'" "cursor_at tab_ops tab_dim k c' (us @ [x]) ws" by blast
    from Cons.IH [OF c'(2)] False item c'(1) show ?thesis
      by (subst skip_forward.simps) (simp add: first_opt_def)
  qed
qed

text \<open>A step back from behind \<open>us\<close>, and the skipping after it.\<close>

lemma skip_backward_ok:
  "behind tab_ops tab_dim k c us \<Longrightarrow>
   \<exists>c' c''. cursor_prev tab_dim c = Some c' \<and> skip_backward c' = Some c'' \<and>
     cursor_item c'' = Some (find tab_stop (rev us))"
proof (induction us arbitrary: c rule: rev_induct)
  case Nil
  from tab_tree.cursor_prev_ok [OF Nil] obtain c' where
    c': "cursor_prev tab_dim c = Some c'"
      "cursor_at tab_ops tab_dim k c' [] [] \<or> cursor_front tab_ops tab_dim k c'"
    by (auto split: if_splits)
  then have "cursor_item c' = Some None"
    by (auto simp: cursor_front_def cursor_at_def cursor_item_def)
  then show ?case using c'(1) by (simp add: skip_backward.simps [of c'])
next
  case (snoc x us)
  from tab_tree.cursor_prev_ok [OF snoc.prems] obtain c' ws where
    c': "cursor_prev tab_dim c = Some c'" "cursor_at tab_ops tab_dim k c' us (x # ws)"
    by (auto split: if_splits)
  have item: "cursor_item c' = Some (Some x)"
    using cursor_item_at [OF c'(2)] by (simp add: first_opt_def)
  show ?case
  proof (cases "tab_stop x")
    case True
    then show ?thesis using c'(1) item by (simp add: skip_backward.simps [of c'])
  next
    case False
    from snoc.IH [OF behind_at [OF c'(2)]] False item c'(1) show ?thesis
      by (auto simp: skip_backward.simps [of c'])
  qed
qed

section \<open>The stops\<close>

definition stops :: "'f tab_stop_map \<Rightarrow> tab_node list" where
  "stops m = filter tab_stop (flat (order m))"

lemma find_filter: "find P xs = first_opt (filter P xs)"
  by (induction xs) (auto simp: first_opt_def)

lemma first_opt_rev: "first_opt (rev xs) = last_opt xs"
  by (cases xs rule: rev_cases) (simp_all add: first_opt_def last_opt_def)

lemma split_at_node:
  assumes "sorted_wrt (<) (map node_key xs)" "n \<in> set xs"
  shows "\<exists>us ws. xs = us @ n # ws \<and> takeWhile (\<lambda>x. node_key x < node_key n) xs = us \<and>
    dropWhile (\<lambda>x. node_key x < node_key n) xs = n # ws \<and>
    us = filter (\<lambda>x. node_key x < node_key n) xs \<and> ws = filter (\<lambda>x. node_key n < node_key x) xs"
proof -
  obtain us ws where xs: "xs = us @ n # ws"
    using assms(2) by (meson split_list)
  have lo: "\<forall>x \<in> set us. node_key x < node_key n" and hi: "\<forall>x \<in> set ws. node_key n < node_key x"
    using assms(1) by (auto simp: xs sorted_wrt_append)
  have "filter (\<lambda>x. node_key x < node_key n) ws = []" "filter (\<lambda>x. node_key n < node_key x) us = []"
    "filter (\<lambda>x. node_key x < node_key n) us = us" "filter (\<lambda>x. node_key n < node_key x) ws = ws"
    using lo hi by (auto simp: filter_empty_conv filter_id_conv dest: order.asym)
  then show ?thesis
    using xs lo by (intro exI [of _ us] exI [of _ ws]) (simp add: takeWhile_append dropWhile_append)
qed

lemma open_node:
  assumes "tab_ok m" "node_height (order m) < STACK_CAP" "n \<in> set (flat (order m))"
  shows "\<exists>b c. cursor_seek tab_dim (ord_target (node_key n)) LeftBias (cursor_new tab_dim (order m)) = Some (b, c) \<and>
    cursor_at tab_ops tab_dim TREE_BASE c (filter (\<lambda>x. node_key x < node_key n) (flat (order m)))
      (n # filter (\<lambda>x. node_key n < node_key x) (flat (order m)))"
proof -
  have ok: "wf_tree tab_ops TREE_BASE (order m)" "sorted_wrt (<) (map node_key (flat (order m)))"
    using assms(1) by (auto simp: tab_ok_def)
  have fresh: "cursor_fresh tab_ops tab_dim TREE_BASE (cursor_new tab_dim (order m))"
    using ok(1) assms(2) by simp
  have tree: "cur_tree (cursor_new tab_dim (order m)) = order m"
    by (simp add: cursor_new_def)
  show ?thesis
    using tab_tree.seek_key_left [OF fresh _ tab_tree.zero_le [of n]] split_at_node [OF ok(2) assms(3)]
      tab_tree.strict_sorted_imp [OF ok(2)] unfolding tree by metis
qed

lemma next_inner_ok:
  assumes "tab_ok m" "node_height (order m) < STACK_CAP" "n \<in> set (flat (order m))"
  shows "next_inner m n = Some (first_opt (filter (\<lambda>x. node_key n < node_key x) (stops m)))"
proof -
  obtain b c where c: "cursor_seek tab_dim (ord_target (node_key n)) LeftBias (cursor_new tab_dim (order m)) = Some (b, c)"
    "cursor_at tab_ops tab_dim TREE_BASE c (filter (\<lambda>x. node_key x < node_key n) (flat (order m)))
      (n # filter (\<lambda>x. node_key n < node_key x) (flat (order m)))"
    using open_node [OF assms] by blast
  from tab_tree.cursor_next_ok [OF ahead_at [OF c(2)]] obtain c1 where
    c1: "cursor_next tab_dim c = Some c1" "cursor_at tab_ops tab_dim TREE_BASE c1
      (filter (\<lambda>x. node_key x < node_key n) (flat (order m)) @ [n]) (filter (\<lambda>x. node_key n < node_key x) (flat (order m)))"
    by blast
  from skip_forward_ok [OF c1(2)] c(1) c1(1) show ?thesis
    by (auto simp: next_inner_def find_filter stops_def conj_commute)
qed

lemma prev_inner_ok:
  assumes "tab_ok m" "node_height (order m) < STACK_CAP" "n \<in> set (flat (order m))"
  shows "prev_inner m n = Some (last_opt (filter (\<lambda>x. node_key x < node_key n) (stops m)))"
proof -
  obtain b c where c: "cursor_seek tab_dim (ord_target (node_key n)) LeftBias (cursor_new tab_dim (order m)) = Some (b, c)"
    "cursor_at tab_ops tab_dim TREE_BASE c (filter (\<lambda>x. node_key x < node_key n) (flat (order m)))
      (n # filter (\<lambda>x. node_key n < node_key x) (flat (order m)))"
    using open_node [OF assms] by blast
  from skip_backward_ok [OF behind_at [OF c(2)]] c(1) show ?thesis
    by (auto simp: prev_inner_def find_filter first_opt_rev stops_def conj_commute simp flip: rev_filter)
qed

section \<open>Moving the focus\<close>

definition handle_of :: "'f tab_stop_map \<Rightarrow> tab_node \<Rightarrow> 'f focus_handle" where
  "handle_of m n = the (operation_handle (insertion_history m ! node_insertion_index n))"

lemma first_opt_simps [simp]:
  "first_opt [] = None" "first_opt (x # xs) = Some x" "first_opt xs = None \<longleftrightarrow> xs = []"
  by (auto simp: first_opt_def split: list.split)

lemma last_opt_simps [simp]:
  "last_opt [] = None" "last_opt (xs @ [x]) = Some x" "last_opt xs = None \<longleftrightarrow> xs = []"
  by (auto simp: last_opt_def)

lemma opt_mem: "first_opt xs = Some x \<Longrightarrow> x \<in> set xs" "last_opt xs = Some x \<Longrightarrow> x \<in> set xs"
  by (auto simp: first_opt_def last_opt_def split: list.splits if_splits)

lemma focus_handle_ok:
  assumes "tab_ok m" "n \<in> set (flat (order m))"
  shows "focus_handle_for_order m n = Some (Some (handle_of m n))"
  using assms nodes_of_index [of n "insertion_history m"]
  by (auto simp: tab_ok_def focus_handle_for_order_def handle_of_def nodes_of_def node_at_def)

lemma handle_for_ok:
  assumes "tab_ok m" "\<And>n. answer = Some n \<Longrightarrow> n \<in> set (stops m)"
  shows "handle_for m answer = Some (map_option (handle_of m) answer)"
  using assms focus_handle_ok [OF assms(1)] by (auto simp: handle_for_def stops_def split: option.split)

lemma tab_next_none_ok:
  assumes "tab_ok m" "node_height (order m) < STACK_CAP"
  shows "tab_next_none m = Some (map_option (handle_of m) (first_opt (stops m)))"
proof (cases "flat (order m)")
  case Nil
  then show ?thesis
    using assms(1) tree_first_ok [of tab_ops TREE_BASE "order m"] by (simp add: tab_ok_def tab_next_none_def stops_def)
next
  case (Cons x xs)
  have first: "tree_first (order m) = Some (Some x)"
    using assms(1) tree_first_ok [of tab_ops TREE_BASE "order m"] Cons by (simp add: tab_ok_def)
  show ?thesis
  proof (cases "tab_stop x")
    case True
    then show ?thesis
      using first focus_handle_ok [OF assms(1), of x] Cons by (simp add: tab_next_none_def stops_def)
  next
    case False
    have "filter (\<lambda>y. node_key x < node_key y) (stops m) = stops m"
      using assms(1) Cons False by (auto simp: tab_ok_def stops_def intro!: filter_cong)
    then have "next_inner m x = Some (first_opt (stops m))"
      using next_inner_ok [OF assms, of x] Cons by simp
    then show ?thesis
      using first False handle_for_ok [OF assms(1) opt_mem(1)]
      by (simp add: tab_next_none_def)
  qed
qed

lemma tab_prev_none_ok:
  assumes "tab_ok m" "node_height (order m) < STACK_CAP"
  shows "tab_prev_none m = Some (map_option (handle_of m) (last_opt (stops m)))"
proof (cases "flat (order m)" rule: rev_cases)
  case Nil
  then show ?thesis
    using assms(1) tree_last_ok [of tab_ops TREE_BASE "order m"] by (simp add: tab_ok_def tab_prev_none_def stops_def)
next
  case (snoc xs x)
  have final: "tree_last (order m) = Some (Some x)"
    using assms(1) tree_last_ok [of tab_ops TREE_BASE "order m"] snoc by (simp add: tab_ok_def)
  show ?thesis
  proof (cases "tab_stop x")
    case True
    then show ?thesis
      using final focus_handle_ok [OF assms(1), of x] snoc by (simp add: tab_prev_none_def stops_def)
  next
    case False
    have "filter (\<lambda>y. node_key y < node_key x) (stops m) = stops m"
      using assms(1) snoc False by (auto simp: tab_ok_def stops_def sorted_wrt_append intro!: filter_cong)
    then have "prev_inner m x = Some (last_opt (stops m))"
      using prev_inner_ok [OF assms, of x] snoc by simp
    then show ?thesis
      using final False handle_for_ok [OF assms(1) opt_mem(2)]
      by (simp add: tab_prev_none_def)
  qed
qed

text \<open>The stop after, and before, a node; around the ends.\<close>

definition stop_after :: "tab_node list \<Rightarrow> tab_node \<Rightarrow> tab_node option" where
  "stop_after ns n = (case first_opt (filter (\<lambda>x. node_key n < node_key x) ns) of
     Some x \<Rightarrow> Some x | None \<Rightarrow> first_opt ns)"

definition stop_before :: "tab_node list \<Rightarrow> tab_node \<Rightarrow> tab_node option" where
  "stop_before ns n = (case last_opt (filter (\<lambda>x. node_key x < node_key n) ns) of
     Some x \<Rightarrow> Some x | None \<Rightarrow> last_opt ns)"

lemma tab_moves_ok:
  assumes "tab_ok m" "node_height (order m) < STACK_CAP" "map_of (by_id m) i = Some n"
  shows "tab_next m (Some i) = Some (map_option (handle_of m) (stop_after (stops m) n))"
    and "tab_prev m (Some i) = Some (map_option (handle_of m) (stop_before (stops m) n))"
proof -
  have n: "n \<in> set (flat (order m))"
    using assms(1,3) by (auto simp: tab_ok_def)
  have mem: "focus_handle_for_order m x = Some (Some (handle_of m x))" if "x \<in> set (stops m)" for x
    using that focus_handle_ok [OF assms(1), of x] by (simp add: stops_def)
  show "tab_next m (Some i) = Some (map_option (handle_of m) (stop_after (stops m) n))"
    using next_inner_ok [OF assms(1,2) n] tab_next_none_ok [OF assms(1,2)] assms(3) mem
    by (auto simp: tab_next_def tab_node_for_focus_id_def stop_after_def split: option.split dest!: opt_mem)
  show "tab_prev m (Some i) = Some (map_option (handle_of m) (stop_before (stops m) n))"
    using prev_inner_ok [OF assms(1,2) n] tab_prev_none_ok [OF assms(1,2)] assms(3) mem
    by (auto simp: tab_prev_def tab_node_for_focus_id_def stop_before_def split: option.split dest!: opt_mem)
qed

text \<open>Around the ring of stops and back.\<close>

lemma stop_after_before:
  assumes "sorted_wrt (<) (map node_key ns)" "n \<in> set ns"
  shows "\<exists>x. stop_after ns n = Some x \<and> x \<in> set ns \<and> stop_before ns x = Some n"
proof -
  obtain us ws where ns: "ns = us @ n # ws" "us = filter (\<lambda>x. node_key x < node_key n) ns"
    "ws = filter (\<lambda>x. node_key n < node_key x) ns"
    using split_at_node [OF assms] by blast
  show ?thesis
  proof (cases ws)
    case Nil
    obtain x xs where x: "ns = x # xs" by (cases ns) (use assms(2) in auto)
    have "filter (\<lambda>y. node_key y < node_key x) ns = []"
      using assms(1) by (auto simp: x filter_empty_conv dest: order.asym)
    moreover have "last_opt ns = Some n"
      using ns(1) Nil by simp
    ultimately show ?thesis
      using ns(3) Nil x by (auto simp: stop_after_def stop_before_def)
  next
    case (Cons x ws')
    have "\<forall>y \<in> set (us @ [n]). node_key y < node_key x" "\<forall>y \<in> set (x # ws'). \<not> node_key y < node_key x"
      using assms(1) by (auto simp: ns(1) Cons sorted_wrt_append dest: order.asym)
    then have "filter (\<lambda>y. node_key y < node_key x) (us @ [n]) = us @ [n]"
      "filter (\<lambda>y. node_key y < node_key x) (x # ws') = []"
      by (simp_all only: filter_id_conv filter_empty_conv)
    moreover have "ns = (us @ [n]) @ (x # ws')"
      using ns(1) Cons by simp
    ultimately have before: "filter (\<lambda>y. node_key y < node_key x) ns = us @ [n]"
      by (simp only: filter_append append_Nil2)
    have after: "filter (\<lambda>x. node_key n < node_key x) ns = x # ws'"
      unfolding ns(3) [symmetric] by (rule Cons)
    have "x \<in> set ns"
      unfolding ns(1) Cons by simp
    then show ?thesis
      by (simp add: stop_after_def stop_before_def before after)
  qed
qed

text \<open>Histories in which no handle is inserted twice.\<close>

definition inserted_once :: "'f tab_operation list \<Rightarrow> bool" where
  "inserted_once ops \<longleftrightarrow> (\<forall>i < length ops. \<forall>j < length ops. \<forall>h h'.
     ops ! i = TabInsert h \<longrightarrow> ops ! j = TabInsert h' \<longrightarrow> handle_id h = handle_id h' \<longrightarrow> i = j)"

lemma by_id_of_node:
  assumes "tab_ok m" "inserted_once (insertion_history m)" "n \<in> nodes_of (insertion_history m)"
  shows "map_of (by_id m) (handle_id (handle_of m n)) = Some n"
proof -
  obtain i h where i: "i < length (insertion_history m)" "insertion_history m ! i = TabInsert h"
    "n = node_at i (path_after [] (take i (insertion_history m))) h"
    using assms(3) by (auto simp: nodes_of_def)
  have h: "handle_of m n = h"
    using i by (simp add: handle_of_def node_at_def)
  have "TabInsert h \<in> set (insertion_history m)"
    using i(1,2) by (metis nth_mem)
  then obtain n' where n': "map_of (by_id m) (handle_id h) = Some n'"
    using tab_by_id(2) [OF assms(1)] by blast
  then obtain h' where h': "n' \<in> nodes_of (insertion_history m)"
    "insertion_history m ! node_insertion_index n' = TabInsert h'" "handle_id h' = handle_id h"
    using tab_by_id(1) [OF assms(1)] by blast
  then have "node_insertion_index n' = i"
    using assms(2) i(1,2) nodes_of_index [OF h'(1)] by (auto simp: inserted_once_def)
  then have "n' = n"
    using h'(1) i by (auto simp: nodes_of_def node_at_def)
  then show ?thesis using n' h by simp
qed

lemma tab_there_and_back:
  assumes "tab_ok m" "node_height (order m) < STACK_CAP" "inserted_once (insertion_history m)" "n \<in> set (stops m)"
  shows "\<exists>h. tab_next m (Some (handle_id (handle_of m n))) = Some (Some h) \<and>
    tab_prev m (Some (handle_id h)) = Some (Some (handle_of m n))"
proof -
  have sorted: "sorted_wrt (<) (map node_key (stops m))"
    using assms(1) by (simp add: tab_ok_def stops_def sorted_wrt_map sorted_wrt_filter)
  have nodes: "x \<in> nodes_of (insertion_history m)" if "x \<in> set (stops m)" for x
    using that assms(1) by (auto simp: tab_ok_def stops_def)
  obtain x where x: "stop_after (stops m) n = Some x" "x \<in> set (stops m)" "stop_before (stops m) x = Some n"
    using stop_after_before [OF sorted assms(4)] by blast
  show ?thesis
    using tab_moves_ok(1) [OF assms(1,2) by_id_of_node [OF assms(1,3) nodes [OF assms(4)]]]
      tab_moves_ok(2) [OF assms(1,2) by_id_of_node [OF assms(1,3) nodes [OF x(2)]]] x by auto
qed

end
