(* ===== verification/Tab_Stop_Theorems.thy ===== *)
theory Tab_Stop_Theorems
  imports Tab_Stop_Correct
begin

text \<open>
  The properties of the tab order.
\<close>

section \<open>Input of the witnesses\<close>

definition stop_handle :: "nat \<Rightarrow> int \<Rightarrow> nat focus_handle" where
  "stop_handle i t = \<lparr>handle_id = i, tab_index = t, handle_tab_stop = True\<rparr>"

definition sample_tab_operations :: "nat tab_operation list" where
  "sample_tab_operations =
     [TabInsert (stop_handle 0 1), TabGroup 0, TabInsert (stop_handle 1 5), TabGroupEnd, TabInsert (stop_handle 2 1)]"

section \<open>Order\<close>

text \<open>
  C21. Any sequence of operations builds, without a panic, a map whose tree holds one node
  for every handle inserted: the group indices open at that moment followed by the tab
  index of the handle, with the position in the history; the nodes stand strictly sorted
  by path and then by insertion. The history is the sequence of operations itself, so
  replaying the history of a map on a new one rebuilds the map, and a history of two parts
  can be replayed one after the other. Up to the capacity of the cursor stack.
\<close>

theorem tab_order:
  assumes "length ops \<le> TREE_BASE ^ STACK_CAP"
  shows "\<exists>m. tab_replay ops tab_default = Some m \<and> insertion_history m = ops \<and> paint_index m = length ops \<and>
    set (flat (order m)) =
      {node_at i (path_after [] (take i ops)) h | i h. i < length ops \<and> ops ! i = TabInsert h} \<and>
    sorted_wrt (<) (map (\<lambda>n. Tab_key (node_path n) (node_insertion_index n)) (flat (order m))) \<and>
    tab_replay (insertion_history m) tab_default = Some m \<and>
    (\<forall>k. tab_replay (take k ops) tab_default \<bind> tab_replay (drop k ops) = Some m)"
proof -
  obtain m where m: "tab_replay ops tab_default = Some m" "tab_ok m" "insertion_history m = ops"
    using tab_replay_ok [OF tab_default_ok, of ops] assms by (auto simp: tab_default_def)
  have split: "tab_replay (xs @ ys) m0 = tab_replay xs m0 \<bind> tab_replay ys" for xs ys and m0 :: "'a tab_stop_map"
  proof (induction xs arbitrary: m0)
    case (Cons x xs)
    then show ?case by (cases "tab_apply x m0") simp_all
  qed simp
  have parts: "tab_replay (take k ops) tab_default \<bind> tab_replay (drop k ops) = Some m" for k
    using split [of "take k ops" "drop k ops" tab_default] m(1) by simp
  have "node_key = (\<lambda>n. Tab_key (node_path n) (node_insertion_index n))"
    by (simp add: node_key_def fun_eq_iff)
  then have "sorted_wrt (<) (map (\<lambda>n. Tab_key (node_path n) (node_insertion_index n)) (flat (order m)))"
    using m(2) by (simp add: tab_ok_def)
  then show ?thesis
    using m parts by (auto simp: tab_ok_def nodes_of_def paint_index_def)
qed

theorem tab_order_witness:
  "\<exists>m. tab_replay sample_tab_operations tab_default = Some m \<and> paint_index m = 5"
proof -
  have "length sample_tab_operations \<le> TREE_BASE ^ STACK_CAP"
    by (simp add: sample_tab_operations_def TREE_BASE_def STACK_CAP_def)
  from tab_order [OF this] show ?thesis
    by (auto simp: sample_tab_operations_def)
qed

section \<open>Moving\<close>

text \<open>
  C22. The focus moves along the tab stops in this order and around its ends: from a
  focused handle of the map to the stop after (before) its node, or the first (last) stop when
  there is none, without a focus or with an unknown one to the first (last) stop; nothing
  panics and the answer is missing exactly when there is no stop. When every handle was
  inserted once, moving forward from a stop and back again returns to it.
\<close>

theorem tab_moves:
  assumes "tab_replay ops tab_default = Some m" "length ops < TREE_BASE ^ STACK_CAP"
  shows "tab_next m None = Some (map_option (handle_of m) (first_opt (stops m))) \<and>
    tab_prev m None = Some (map_option (handle_of m) (last_opt (stops m))) \<and>
    (case tab_node_for_focus_id m i of
       None \<Rightarrow> tab_next m (Some i) = tab_next m None \<and> tab_prev m (Some i) = tab_prev m None
     | Some n \<Rightarrow> n \<in> set (flat (order m)) \<and>
         tab_next m (Some i) = Some (map_option (handle_of m) (stop_after (stops m) n)) \<and>
         tab_prev m (Some i) = Some (map_option (handle_of m) (stop_before (stops m) n))) \<and>
    (inserted_once ops \<longrightarrow> (\<forall>n \<in> set (stops m). \<exists>h.
       tab_next m (Some (handle_id (handle_of m n))) = Some (Some h) \<and>
       tab_prev m (Some (handle_id h)) = Some (Some (handle_of m n))))"
proof -
  have m: "tab_ok m" "insertion_history m = ops"
    using tab_replay_ok [OF tab_default_ok, of ops] assms by (auto simp: tab_default_def)
  have height: "node_height (order m) < STACK_CAP"
    using tab_height [OF m(1)] m(2) assms(2) by simp
  have known: "n \<in> set (flat (order m))" if "tab_node_for_focus_id m i = Some n" for n
    using that m(1) by (auto simp: tab_ok_def tab_node_for_focus_id_def)
  have none: "tab_next m None = tab_next_none m" "tab_prev m None = tab_prev_none m"
    by (simp_all add: tab_next_def tab_prev_def)
  have unknown: "tab_next m (Some i) = tab_next_none m \<and> tab_prev m (Some i) = tab_prev_none m"
    if "tab_node_for_focus_id m i = None"
    using that by (simp add: tab_next_def tab_prev_def)
  show ?thesis
    using tab_next_none_ok [OF m(1) height] tab_prev_none_ok [OF m(1) height]
      tab_there_and_back [OF m(1) height] tab_moves_ok [OF m(1) height, of i] known unknown m(2)
    by (auto simp: none tab_node_for_focus_id_def split: option.split)
qed

theorem tab_moves_witness:
  "\<exists>m. tab_replay sample_tab_operations tab_default = Some m \<and> (\<forall>n \<in> set (stops m). \<exists>h.
     tab_next m (Some (handle_id (handle_of m n))) = Some (Some h) \<and>
     tab_prev m (Some (handle_id h)) = Some (Some (handle_of m n)))"
proof -
  have len: "length sample_tab_operations < TREE_BASE ^ STACK_CAP"
    by (simp add: sample_tab_operations_def TREE_BASE_def STACK_CAP_def)
  then obtain m where m: "tab_replay sample_tab_operations tab_default = Some m"
    using tab_replay_ok [OF tab_default_ok, of sample_tab_operations] by (auto simp: tab_default_def)
  have "inserted_once sample_tab_operations"
    by (auto simp: inserted_once_def sample_tab_operations_def stop_handle_def nth_Cons split: nat.splits)
  then show ?thesis
    using tab_moves [OF m len] m by blast
qed

end
