(* ===== verification/Entity_Map.thy ===== *)
theory Entity_Map
  imports Prelude "HOL-Library.Multiset"
begin

text \<open>
  The entities of an application and the handles that keep them alive
  (\<open>gpui/src/app/entity_map.rs\<close>, with the counter of \<open>gpui/src/util.rs\<close>). A panic is \<open>None\<close>.

  The slot maps are not part of the repository. They are read as finite maps, and the
  key a slot map gives out for an insertion is a parameter \<open>alloc\<close> on the keys given out
  so far, documented never to be one of them. Types are not modelled, so a downcast does
  not fail; the leak detector of test builds is left out, and a reference counter does not wrap.
\<close>

section \<open>State\<close>

record 'i ref_counts =
  counts :: "'i \<Rightarrow> nat option"
  dropped_entity_ids :: "'i list"
  issued :: "'i list"

record ('i, 'e) entity_map =
  entities :: "'i \<Rightarrow> 'e option"
  accessed_entities :: "'i set"
  ref_counts :: "'i ref_counts"

definition entity_map_new :: "('i, 'e) entity_map" where
  "entity_map_new = \<lparr>entities = (\<lambda>_. None), accessed_entities = {},
     ref_counts = \<lparr>counts = (\<lambda>_. None), dropped_entity_ids = [], issued = []\<rparr>\<rparr>"

section \<open>Counters\<close>

text \<open>
  The new value and the counter. The loop around the exchange is one atomic step: the
  exchange that succeeds, or the load that saw zero.
\<close>

definition atomic_incr_if_not_zero :: "nat \<Rightarrow> nat \<times> nat" where
  "atomic_incr_if_not_zero counter = (if counter = 0 then (0, counter) else (counter + 1, counter + 1))"

section \<open>The map\<close>

definition em_reserve :: "('i list \<Rightarrow> 'i) \<Rightarrow> ('i, 'e) entity_map \<Rightarrow> 'i \<times> ('i, 'e) entity_map" where
  "em_reserve alloc m =
     (let rc = ref_counts m; i = alloc (issued rc) in
      (i, m\<lparr>ref_counts := rc\<lparr>counts := (counts rc)(i \<mapsto> 1), issued := issued rc @ [i]\<rparr>\<rparr>))"

definition em_insert :: "'i \<Rightarrow> 'e \<Rightarrow> ('i, 'e) entity_map \<Rightarrow> ('i, 'e) entity_map" where
  "em_insert slot entity m =
     m\<lparr>accessed_entities := insert slot (accessed_entities m), entities := (entities m)(slot \<mapsto> entity)\<rparr>"

definition em_lease :: "'i \<Rightarrow> ('i, 'e) entity_map \<Rightarrow> ('e \<times> ('i, 'e) entity_map) option" where
  "em_lease pointer m =
     (let m = m\<lparr>accessed_entities := insert pointer (accessed_entities m)\<rparr> in
      case entities m pointer of
        None \<Rightarrow> None
      | Some entity \<Rightarrow> Some (entity, m\<lparr>entities := (entities m)(pointer := None)\<rparr>))"

definition em_end_lease :: "'i \<Rightarrow> 'e \<Rightarrow> ('i, 'e) entity_map \<Rightarrow> ('i, 'e) entity_map" where
  "em_end_lease lease_id entity m = m\<lparr>entities := (entities m)(lease_id \<mapsto> entity)\<rparr>"

definition em_read :: "'i \<Rightarrow> ('i, 'e) entity_map \<Rightarrow> ('e \<times> ('i, 'e) entity_map) option" where
  "em_read entity m =
     (let m = m\<lparr>accessed_entities := insert entity (accessed_entities m)\<rparr> in
      map_option (\<lambda>e. (e, m)) (entities m entity))"

definition extend_accessed :: "'i set \<Rightarrow> ('i, 'e) entity_map \<Rightarrow> ('i, 'e) entity_map" where
  "extend_accessed ids m = m\<lparr>accessed_entities := accessed_entities m \<union> ids\<rparr>"

definition clear_accessed :: "('i, 'e) entity_map \<Rightarrow> ('i, 'e) entity_map" where
  "clear_accessed m = m\<lparr>accessed_entities := {}\<rparr>"

text \<open>The loop over the drained identifiers: the entities it collects, in order.\<close>

fun take_loop :: "'i list \<Rightarrow> ('i, 'e) entity_map \<Rightarrow> (('i \<times> 'e) list \<times> ('i, 'e) entity_map) option" where
  "take_loop [] m = Some ([], m)"
| "take_loop (i # drained) m =
     (case counts (ref_counts m) i of
        None \<Rightarrow> None
      | Some removed \<Rightarrow>
          (let rc = ref_counts m;
               entity = entities m i;
               m = m\<lparr>ref_counts := rc\<lparr>counts := (counts rc)(i := None)\<rparr>,
                     accessed_entities := accessed_entities m - {i},
                     entities := (entities m)(i := None)\<rparr> in
           do { (taken, m) \<leftarrow> take_loop drained m;
                Some (case entity of Some e \<Rightarrow> (i, e) # taken | None \<Rightarrow> taken, m) }))"

definition take_dropped :: "('i, 'e) entity_map \<Rightarrow> (('i \<times> 'e) list \<times> ('i, 'e) entity_map) option" where
  "take_dropped m =
     (let rc = ref_counts m; drained = dropped_entity_ids rc in
      take_loop drained (m\<lparr>ref_counts := rc\<lparr>dropped_entity_ids := []\<rparr>\<rparr>))"

section \<open>Handles\<close>

text \<open>
  A handle is its identifier. It reaches the counts through a weak pointer: \<open>None\<close> when the
  map is gone.
\<close>

definition entity_clone :: "'i \<Rightarrow> 'i ref_counts option \<Rightarrow> 'i ref_counts option option" where
  "entity_clone i weak =
     (case weak of
        None \<Rightarrow> Some None
      | Some rc \<Rightarrow>
          (case counts rc i of
             None \<Rightarrow> None
           | Some prev_count \<Rightarrow>
               if prev_count = 0 then None
               else Some (Some (rc\<lparr>counts := (counts rc)(i \<mapsto> prev_count + 1)\<rparr>))))"

definition entity_drop :: "'i \<Rightarrow> 'i ref_counts option \<Rightarrow> 'i ref_counts option option" where
  "entity_drop i weak =
     (case weak of
        None \<Rightarrow> Some None
      | Some rc \<Rightarrow>
          (case counts rc i of
             None \<Rightarrow> None
           | Some prev_count \<Rightarrow>
               if prev_count = 0 then None
               else
                 let rc = rc\<lparr>counts := (counts rc)(i \<mapsto> prev_count - 1)\<rparr> in
                 Some (Some (if prev_count = 1
                             then rc\<lparr>dropped_entity_ids := dropped_entity_ids rc @ [i]\<rparr> else rc))))"

text \<open>The weak handle: whether it can be upgraded, and the upgrade.\<close>

definition is_upgradable :: "'i \<Rightarrow> 'i ref_counts option \<Rightarrow> bool" where
  "is_upgradable i weak =
     (let ref_count = (case weak of None \<Rightarrow> 0 | Some rc \<Rightarrow> (case counts rc i of None \<Rightarrow> 0 | Some c \<Rightarrow> c)) in
      ref_count > 0)"

definition weak_upgrade :: "'i \<Rightarrow> 'i ref_counts option \<Rightarrow> ('i \<times> 'i ref_counts) option" where
  "weak_upgrade i weak =
     do { rc \<leftarrow> weak;
          ref_count \<leftarrow> counts rc i;
          (let (incremented, ref_count) = atomic_incr_if_not_zero ref_count in
           if incremented = 0 then None
           else Some (i, rc\<lparr>counts := (counts rc)(i \<mapsto> ref_count)\<rparr>)) }"

text \<open>Updating an entity: it is moved out, changed by the callback with the map, and moved back.\<close>

definition update_entity ::
  "'i \<Rightarrow> ('e \<Rightarrow> ('i, 'e) entity_map \<Rightarrow> ('e \<times> 'r \<times> ('i, 'e) entity_map) option) \<Rightarrow>
   ('i, 'e) entity_map \<Rightarrow> ('r \<times> ('i, 'e) entity_map) option" where
  "update_entity handle update m =
     do { (entity, m) \<leftarrow> em_lease handle m;
          (entity, r, m) \<leftarrow> update entity m;
          Some (r, em_end_lease handle entity m) }"

end
