(* ===== verification/Entity_Map_Correct.thy ===== *)
theory Entity_Map_Correct
  imports Entity_Map
begin

text \<open>
  The life cycle of entities: a map with its live handles, reserved slots and leases as a
  step relation, with the invariant that ties the counters to the handles.
\<close>

section \<open>The system\<close>

text \<open>
  A slot holds a strong handle to an entity that is not inserted yet. A lease borrows a
  handle of its entity, so the last one cannot be dropped before the lease ends.
\<close>

record ('i, 'e) entity_system =
  emap :: "('i, 'e) entity_map"
  slots :: "'i multiset"
  held :: "'i multiset"
  leases :: "('i \<Rightarrow> 'e option)"
  released :: "('i \<times> 'e) list"

abbreviation refs :: "('i, 'e) entity_system \<Rightarrow> 'i ref_counts" where
  "refs s \<equiv> ref_counts (emap s)"

definition live :: "('i, 'e) entity_system \<Rightarrow> 'i multiset" where
  "live s = slots s + held s"

definition with_refs :: "'i ref_counts \<Rightarrow> ('i, 'e) entity_system \<Rightarrow> ('i, 'e) entity_system" where
  "with_refs rc s = s\<lparr>emap := (emap s)\<lparr>ref_counts := rc\<rparr>\<rparr>"

definition system_start :: "('i, 'e) entity_system" where
  "system_start = \<lparr>emap = entity_map_new, slots = {#}, held = {#}, leases = (\<lambda>_. None), released = []\<rparr>"

inductive entity_step :: "('i list \<Rightarrow> 'i) \<Rightarrow> ('i, 'e) entity_system \<Rightarrow> ('i, 'e) entity_system \<Rightarrow> bool"
  for alloc where
  Reserve: "em_reserve alloc (emap s) = (i, m)
    \<Longrightarrow> entity_step alloc s (s\<lparr>emap := m, slots := add_mset i (slots s)\<rparr>)"
| Insert_slot: "i \<in># slots s
    \<Longrightarrow> entity_step alloc s (s\<lparr>emap := em_insert i e (emap s), slots := slots s - {#i#}, held := add_mset i (held s)\<rparr>)"
| Clone_handle: "\<lbrakk>i \<in># live s; entity_clone i (Some (refs s)) = Some (Some rc)\<rbrakk>
    \<Longrightarrow> entity_step alloc s ((with_refs rc s)\<lparr>held := add_mset i (held s)\<rparr>)"
| Drop_handle: "\<lbrakk>i \<in># held s; leases s i \<noteq> None \<longrightarrow> 2 \<le> count (held s) i;
      entity_drop i (Some (refs s)) = Some (Some rc)\<rbrakk>
    \<Longrightarrow> entity_step alloc s ((with_refs rc s)\<lparr>held := held s - {#i#}\<rparr>)"
| Drop_slot: "\<lbrakk>i \<in># slots s; entity_drop i (Some (refs s)) = Some (Some rc)\<rbrakk>
    \<Longrightarrow> entity_step alloc s ((with_refs rc s)\<lparr>slots := slots s - {#i#}\<rparr>)"
| Upgrade: "weak_upgrade w (Some (refs s)) = Some (i, rc)
    \<Longrightarrow> entity_step alloc s ((with_refs rc s)\<lparr>held := add_mset i (held s)\<rparr>)"
| Lease: "\<lbrakk>i \<in># held s; em_lease i (emap s) = Some (e, m)\<rbrakk>
    \<Longrightarrow> entity_step alloc s (s\<lparr>emap := m, leases := (leases s)(i \<mapsto> e)\<rparr>)"
| End_lease: "leases s i = Some e
    \<Longrightarrow> entity_step alloc s (s\<lparr>emap := em_end_lease i e' (emap s), leases := (leases s)(i := None)\<rparr>)"
| Read: "\<lbrakk>i \<in># held s; em_read i (emap s) = Some (e, m)\<rbrakk> \<Longrightarrow> entity_step alloc s (s\<lparr>emap := m\<rparr>)"
| Take: "take_dropped (emap s) = Some (taken, m)
    \<Longrightarrow> entity_step alloc s (s\<lparr>emap := m, released := released s @ taken\<rparr>)"

abbreviation entity_steps ::
  "('i list \<Rightarrow> 'i) \<Rightarrow> ('i, 'e) entity_system \<Rightarrow> ('i, 'e) entity_system \<Rightarrow> bool" where
  "entity_steps alloc \<equiv> (entity_step alloc)\<^sup>*\<^sup>*"

text \<open>The documented promise of the slot map.\<close>

definition never_reused :: "('i list \<Rightarrow> 'i) \<Rightarrow> bool" where
  "never_reused alloc \<longleftrightarrow> (\<forall>given. alloc given \<notin> set given)"

section \<open>The invariant\<close>

definition is_stored :: "('i, 'e) entity_system \<Rightarrow> 'i \<Rightarrow> bool" where
  "is_stored s i \<longleftrightarrow> entities (emap s) i \<noteq> None \<or> leases s i \<noteq> None"

definition counts_ok :: "'i multiset \<Rightarrow> 'i ref_counts \<Rightarrow> bool" where
  "counts_ok hs rc \<longleftrightarrow>
     (\<forall>i c. counts rc i = Some c \<longrightarrow> c = count hs i \<and> i \<in> set (issued rc)) \<and>
     (\<forall>i. counts rc i = None \<longrightarrow> i \<notin># hs) \<and>
     distinct (dropped_entity_ids rc) \<and> (\<forall>i. i \<in> set (dropped_entity_ids rc) \<longleftrightarrow> counts rc i = Some 0)"

lemma counts_okD:
  assumes "counts_ok hs rc"
  shows "counts rc i = Some c \<Longrightarrow> c = count hs i \<and> i \<in> set (issued rc)"
    and "counts rc i = None \<Longrightarrow> i \<notin># hs"
    and "distinct (dropped_entity_ids rc)"
    and "i \<in> set (dropped_entity_ids rc) \<longleftrightarrow> counts rc i = Some 0"
  using assms unfolding counts_ok_def by blast+

lemma counts_ok_live:
  assumes "counts_ok hs rc" "i \<in># hs"
  shows "counts rc i = Some (count hs i)" "count hs i \<noteq> 0"
  using counts_okD(1,2) [OF assms(1), of i] assms(2) by (cases "counts rc i"; simp)+

definition entity_ok :: "('i, 'e) entity_system \<Rightarrow> bool" where
  "entity_ok s \<longleftrightarrow>
     counts_ok (live s) (refs s) \<and>
     (\<forall>i. is_stored s i \<longrightarrow> counts (refs s) i \<noteq> None \<and> i \<notin># slots s) \<and>
     (\<forall>i. leases s i \<noteq> None \<longrightarrow> i \<in># held s \<and> entities (emap s) i = None) \<and>
     (\<forall>i. count (slots s) i \<le> 1) \<and>
     distinct (map fst (released s)) \<and>
     (\<forall>i \<in> fst ` set (released s). counts (refs s) i = None \<and> i \<in> set (issued (refs s)))"

lemma system_start_ok: "entity_ok system_start"
  by (simp add: entity_ok_def system_start_def entity_map_new_def counts_ok_def live_def is_stored_def)

text \<open>The counters under the operations on handles.\<close>

lemma counts_ok_update:
  assumes "counts_ok hs rc" "counts rc i \<noteq> None"
    and rc': "counts rc' = (counts rc)(i \<mapsto> count hs' i)" "issued rc' = issued rc"
    and hs': "\<And>j. j \<noteq> i \<Longrightarrow> count hs' j = count hs j"
    and ids: "distinct (dropped_entity_ids rc')" "\<And>j. j \<in> set (dropped_entity_ids rc') \<longleftrightarrow> counts rc' j = Some 0"
  shows "counts_ok hs' rc' \<and> issued rc' = issued rc \<and> dom (counts rc') = dom (counts rc)"
proof -
  have "counts_ok hs' rc'"
    unfolding counts_ok_def
  proof (intro conjI allI impI)
    fix j c assume "counts rc' j = Some c"
    then have "c = count hs' j \<and> j \<in> set (issued rc)"
      using rc' hs' [of j] counts_okD(1) [OF assms(1)] assms(2) by (cases "j = i") auto
    then show "c = count hs' j" "j \<in> set (issued rc')"
      using rc'(2) by simp_all
  next
    fix j assume "counts rc' j = None"
    then have "j \<noteq> i" "counts rc j = None"
      using rc'(1) by (auto split: if_splits)
    then show "j \<notin># hs'"
      using counts_okD(2) [OF assms(1), of j] hs' [of j] by (simp add: not_in_iff)
  qed (use ids in simp_all)
  moreover have "dom (counts rc') = dom (counts rc)"
    using assms(2) by (auto simp: rc'(1))
  ultimately show ?thesis using rc'(2) by blast
qed

lemma counts_ok_obtain:
  assumes "counts_ok hs rc" "i \<in># hs"
  obtains n where "counts rc i = Some n" "count hs i = n" "0 < n"
  using that [OF counts_ok_live(1) [OF assms] refl] assms(2) by simp

lemma clone_counts:
  assumes "counts_ok hs rc" "i \<in># hs"
  shows "\<exists>rc'. entity_clone i (Some rc) = Some (Some rc') \<and> counts_ok (add_mset i hs) rc' \<and>
    issued rc' = issued rc \<and> dom (counts rc') = dom (counts rc)"
proof -
  obtain n where n: "counts rc i = Some n" "count hs i = n" "0 < n"
    using counts_ok_obtain [OF assms] .
  let ?rc = "rc\<lparr>counts := (counts rc)(i \<mapsto> n + 1)\<rparr>"
  have "entity_clone i (Some rc) = Some (Some ?rc)"
    using n by (simp add: entity_clone_def)
  moreover have "counts_ok (add_mset i hs) ?rc \<and> issued ?rc = issued rc \<and> dom (counts ?rc) = dom (counts rc)"
  proof (rule counts_ok_update [OF assms(1), of i])
    show "j \<in> set (dropped_entity_ids ?rc) \<longleftrightarrow> counts ?rc j = Some 0" for j
      using n counts_okD(4) [OF assms(1), of j] by simp
  qed (use n counts_okD(3) [OF assms(1)] in simp_all)
  ultimately show ?thesis by blast
qed

lemma drop_counts:
  assumes "counts_ok hs rc" "i \<in># hs"
  shows "\<exists>rc'. entity_drop i (Some rc) = Some (Some rc') \<and> counts_ok (hs - {#i#}) rc' \<and>
    issued rc' = issued rc \<and> dom (counts rc') = dom (counts rc)"
proof -
  obtain n where n: "counts rc i = Some n" "count hs i = n" "0 < n"
    using counts_ok_obtain [OF assms] .
  let ?ids = "if n = 1 then dropped_entity_ids rc @ [i] else dropped_entity_ids rc"
  let ?rc = "rc\<lparr>counts := (counts rc)(i \<mapsto> n - 1), dropped_entity_ids := ?ids\<rparr>"
  have "entity_drop i (Some rc) = Some (Some ?rc)"
    using n by (simp add: entity_drop_def Let_def)
  moreover have "counts_ok (hs - {#i#}) ?rc \<and> issued ?rc = issued rc \<and> dom (counts ?rc) = dom (counts rc)"
  proof (rule counts_ok_update [OF assms(1), of i])
    show "distinct (dropped_entity_ids ?rc)"
      using n counts_okD(3) [OF assms(1)] counts_okD(4) [OF assms(1), of i] by simp
    show "j \<in> set (dropped_entity_ids ?rc) \<longleftrightarrow> counts ?rc j = Some 0" for j
      using n counts_okD(4) [OF assms(1), of j] by (cases "j = i"; cases "n = 1") auto
  qed (use n in simp_all)
  ultimately show ?thesis by blast
qed

lemma upgrade_counts:
  assumes "counts_ok hs rc"
  shows "weak_upgrade i (Some rc) = (if i \<in># hs then
      Some (i, rc\<lparr>counts := (counts rc)(i \<mapsto> Suc (count hs i))\<rparr>) else None)"
    and "i \<in># hs \<Longrightarrow> entity_clone i (Some rc) = Some (Some (rc\<lparr>counts := (counts rc)(i \<mapsto> Suc (count hs i))\<rparr>))"
    and "is_upgradable i (Some rc) \<longleftrightarrow> i \<in># hs"
proof -
  show "weak_upgrade i (Some rc) = (if i \<in># hs then
      Some (i, rc\<lparr>counts := (counts rc)(i \<mapsto> Suc (count hs i))\<rparr>) else None)"
  proof (cases "counts rc i")
    case None
    then show ?thesis using counts_okD(2) [OF assms None] by (simp add: weak_upgrade_def)
  next
    case (Some c)
    then show ?thesis
      using counts_okD(1) [OF assms Some] by (simp add: weak_upgrade_def atomic_incr_if_not_zero_def not_in_iff)
  qed
  show "entity_clone i (Some rc) = Some (Some (rc\<lparr>counts := (counts rc)(i \<mapsto> Suc (count hs i))\<rparr>))" if "i \<in># hs"
    unfolding entity_clone_def using counts_ok_live [OF assms that] by simp
  show "is_upgradable i (Some rc) \<longleftrightarrow> i \<in># hs"
  proof (cases "counts rc i")
    case None
    then show ?thesis using counts_okD(2) [OF assms None] by (simp add: is_upgradable_def)
  next
    case (Some c)
    then show ?thesis
      using counts_okD(1) [OF assms Some] by (simp add: is_upgradable_def)
  qed
qed

section \<open>Taking what was dropped\<close>

lemma take_loop_ok:
  assumes "distinct drained" "\<forall>i \<in> set drained. counts (ref_counts m) i \<noteq> None"
  shows "\<exists>m'. take_loop drained m =
      Some (List.map_filter (\<lambda>i. map_option (Pair i) (entities m i)) drained, m') \<and>
    entities m' = (\<lambda>i. if i \<in> set drained then None else entities m i) \<and>
    counts (ref_counts m') = (\<lambda>i. if i \<in> set drained then None else counts (ref_counts m) i) \<and>
    dropped_entity_ids (ref_counts m') = dropped_entity_ids (ref_counts m) \<and>
    issued (ref_counts m') = issued (ref_counts m) \<and>
    accessed_entities m' = accessed_entities m - set drained"
  using assms
proof (induction drained arbitrary: m)
  case Nil
  then show ?case by (simp add: map_filter_simps)
next
  case (Cons i drained)
  obtain c where c: "counts (ref_counts m) i = Some c"
    using Cons.prems(2) by auto
  let ?m = "m\<lparr>ref_counts := (ref_counts m)\<lparr>counts := (counts (ref_counts m))(i := None)\<rparr>,
     accessed_entities := accessed_entities m - {i}, entities := (entities m)(i := None)\<rparr>"
  have "\<forall>j \<in> set drained. counts (ref_counts ?m) j \<noteq> None"
    using Cons.prems by auto
  from Cons.IH [OF _ this] Cons.prems(1) obtain m' where m':
    "take_loop drained ?m = Some (List.map_filter (\<lambda>j. map_option (Pair j) (entities ?m j)) drained, m')"
    "entities m' = (\<lambda>j. if j \<in> set drained then None else entities ?m j)"
    "counts (ref_counts m') = (\<lambda>j. if j \<in> set drained then None else counts (ref_counts ?m) j)"
    "dropped_entity_ids (ref_counts m') = dropped_entity_ids (ref_counts ?m)"
    "issued (ref_counts m') = issued (ref_counts ?m)"
    "accessed_entities m' = accessed_entities ?m - set drained" by auto
  have cong: "List.map_filter (\<lambda>j. map_option (Pair j) (entities ?m j)) drained =
      List.map_filter (\<lambda>j. map_option (Pair j) (entities m j)) drained"
    using Cons.prems(1) by (auto simp: map_filter_def intro!: map_cong filter_cong)
  have "take_loop (i # drained) m =
      Some (List.map_filter (\<lambda>j. map_option (Pair j) (entities m j)) (i # drained), m')"
    using c m'(1) cong by (cases "entities m i") (auto simp: map_filter_simps Let_def)
  then show ?case
    using m'(2-) by (auto simp: fun_eq_iff)
qed

lemma take_dropped_ok:
  assumes "counts_ok hs (ref_counts m)"
  shows "\<exists>m'. take_dropped m =
      Some (List.map_filter (\<lambda>i. map_option (Pair i) (entities m i)) (dropped_entity_ids (ref_counts m)), m') \<and>
    entities m' = (\<lambda>i. if counts (ref_counts m) i = Some 0 then None else entities m i) \<and>
    counts (ref_counts m') = (\<lambda>i. if counts (ref_counts m) i = Some 0 then None else counts (ref_counts m) i) \<and>
    issued (ref_counts m') = issued (ref_counts m) \<and> dropped_entity_ids (ref_counts m') = []"
proof -
  note ids = counts_okD(3,4) [OF assms]
  have "\<forall>i \<in> set (dropped_entity_ids (ref_counts m)).
      counts (ref_counts (m\<lparr>ref_counts := (ref_counts m)\<lparr>dropped_entity_ids := []\<rparr>\<rparr>)) i \<noteq> None"
    using ids(2) by simp
  from take_loop_ok [OF ids(1) this] show ?thesis
    by (auto simp: take_dropped_def Let_def ids(2) cong: if_cong)
qed

lemma take_dropped_counts:
  assumes "counts_ok hs (ref_counts m)" "take_dropped m = Some (taken, m')"
  shows "counts_ok hs (ref_counts m')"
proof -
  obtain m'' where m'': "take_dropped m = Some (List.map_filter (\<lambda>i. map_option (Pair i) (entities m i))
      (dropped_entity_ids (ref_counts m)), m'')"
    "counts (ref_counts m'') = (\<lambda>i. if counts (ref_counts m) i = Some 0 then None else counts (ref_counts m) i)"
    "issued (ref_counts m'') = issued (ref_counts m)" "dropped_entity_ids (ref_counts m'') = []"
    using take_dropped_ok [OF assms(1)] by blast
  have eq: "m' = m''"
    using m''(1) assms(2) by simp
  show ?thesis
    unfolding counts_ok_def eq m''(2-)
  proof (intro conjI allI impI)
    fix i c assume "(if counts (ref_counts m) i = Some 0 then None else counts (ref_counts m) i) = Some c"
    then show "c = count hs i" "i \<in> set (issued (ref_counts m))"
      using counts_okD(1) [OF assms(1), of i c] by (auto split: if_splits)
  next
    fix i assume "(if counts (ref_counts m) i = Some 0 then None else counts (ref_counts m) i) = None"
    then show "i \<notin># hs"
      using counts_okD(2) [OF assms(1), of i] counts_okD(1) [OF assms(1), of i 0]
      by (auto simp: not_in_iff split: if_splits)
  qed auto
qed

section \<open>The invariant is kept\<close>

lemma entity_okD:
  assumes "entity_ok s"
  shows "counts_ok (live s) (refs s)"
    and "is_stored s i \<Longrightarrow> counts (refs s) i \<noteq> None \<and> i \<notin># slots s"
    and "leases s i \<noteq> None \<Longrightarrow> i \<in># held s \<and> entities (emap s) i = None"
    and "count (slots s) i \<le> 1"
    and "distinct (map fst (released s))"
    and "i \<in> fst ` set (released s) \<Longrightarrow> counts (refs s) i = None \<and> i \<in> set (issued (refs s))"
proof -
  note ok = assms [unfolded entity_ok_def]
  show "counts_ok (live s) (refs s)" "distinct (map fst (released s))" "count (slots s) i \<le> 1"
    using ok by simp_all
  show "counts (refs s) i \<noteq> None \<and> i \<notin># slots s" if "is_stored s i"
    using ok that by simp
  show "i \<in># held s \<and> entities (emap s) i = None" if "leases s i \<noteq> None"
    using ok that by simp
  show "counts (refs s) i = None \<and> i \<in> set (issued (refs s))" if "i \<in> fst ` set (released s)"
  proof -
    have "\<forall>i \<in> fst ` set (released s). counts (refs s) i = None \<and> i \<in> set (issued (refs s))"
      using ok by (elim conjE)
    then show ?thesis using that by (rule bspec)
  qed
qed

text \<open>Steps that only change handles and counters.\<close>

lemma handles_keep:
  assumes "entity_ok s" "counts_ok (live s') (refs s')" "dom (counts (refs s')) = dom (counts (refs s))"
    and "issued (refs s') = issued (refs s)"
    and "entities (emap s') = entities (emap s)" "leases s' = leases s" "released s' = released s"
    and "\<And>i. count (slots s') i \<le> count (slots s) i"
    and "\<And>i. leases s i \<noteq> None \<Longrightarrow> i \<in># held s'"
  shows "entity_ok s'"
proof -
  have dom: "counts (refs s') i = None \<longleftrightarrow> counts (refs s) i = None" for i
    using assms(3) by (metis domIff)
  have slots: "i \<in># slots s' \<Longrightarrow> i \<in># slots s" for i
    using assms(8) [of i] by (metis count_greater_zero_iff less_le_trans)
  have is_stored: "is_stored s' i \<longleftrightarrow> is_stored s i" for i
    using assms(5,6) by (simp add: is_stored_def)
  show ?thesis
    unfolding entity_ok_def is_stored
  proof (intro conjI allI impI ballI)
    show "counts_ok (live s') (refs s')" by (rule assms(2))
    show "count (slots s') i \<le> 1" for i
      using assms(8) [of i] entity_okD(4) [OF assms(1), of i] by simp
    show "counts (refs s') i \<noteq> None" "i \<notin># slots s'" if "is_stored s i" for i
      using entity_okD(2) [OF assms(1) that] dom slots by auto
    show "i \<in># held s'" "entities (emap s') i = None" if "leases s' i \<noteq> None" for i
      using that assms(5,6,9) entity_okD(3) [OF assms(1), of i] by simp_all
    show "distinct (map fst (released s'))"
      using assms(7) entity_okD(5) [OF assms(1)] by simp
    show "counts (refs s') i = None" "i \<in> set (issued (refs s'))" if "i \<in> fst ` set (released s')" for i
      using that assms(4,7) dom entity_okD(6) [OF assms(1), of i] by simp_all
  qed
qed

lemma with_refs_simps [simp]:
  "refs (with_refs rc s) = rc" "live (with_refs rc s) = live s" "slots (with_refs rc s) = slots s"
  "held (with_refs rc s) = held s" "leases (with_refs rc s) = leases s" "released (with_refs rc s) = released s"
  "entities (emap (with_refs rc s)) = entities (emap s)"
  by (simp_all add: with_refs_def live_def)

lemma live_update [simp]:
  "live (s\<lparr>held := hs\<rparr>) = slots s + hs" "live (s\<lparr>slots := sl\<rparr>) = sl + held s"
  by (simp_all add: live_def)

lemma reserve_ok:
  assumes "never_reused alloc" "entity_ok s" "em_reserve alloc (emap s) = (i, m)"
  shows "entity_ok (s\<lparr>emap := m, slots := add_mset i (slots s)\<rparr>)"
proof -
  let ?s = "s\<lparr>emap := m, slots := add_mset i (slots s)\<rparr>"
  note ok = entity_okD [OF assms(2)]
  have i: "i \<notin> set (issued (refs s))"
    using assms(1,3) by (auto simp: never_reused_def em_reserve_def Let_def)
  have m: "entities m = entities (emap s)" "counts (ref_counts m) = (counts (refs s))(i \<mapsto> 1)"
    "issued (ref_counts m) = issued (refs s) @ [i]" "dropped_entity_ids (ref_counts m) = dropped_entity_ids (refs s)"
    using assms(3) by (auto simp: em_reserve_def Let_def)
  have none: "counts (refs s) i = None"
    using i counts_okD(1) [OF ok(1), of i] by (cases "counts (refs s) i") auto
  then have dead: "count (live s) i = 0"
    using counts_okD(2) [OF ok(1)] by (simp add: not_in_iff)
  have live: "live ?s = add_mset i (live s)"
    by (simp add: live_def)
  have "counts_ok (add_mset i (live s)) (ref_counts m)"
    unfolding counts_ok_def m
  proof (intro conjI allI impI)
    fix j c assume "((counts (refs s))(i \<mapsto> 1)) j = Some c"
    then show "c = count (add_mset i (live s)) j" "j \<in> set (issued (refs s) @ [i])"
      using dead counts_okD(1) [OF ok(1), of j c] by (auto split: if_splits)
  next
    fix j assume "((counts (refs s))(i \<mapsto> 1)) j = None"
    then show "j \<notin># add_mset i (live s)"
      using counts_okD(2) [OF ok(1), of j] by (auto split: if_splits)
  next
    fix j
    show "j \<in> set (dropped_entity_ids (refs s)) \<longleftrightarrow> ((counts (refs s))(i \<mapsto> 1)) j = Some 0"
      using none counts_okD(4) [OF ok(1), of j] by auto
  qed (rule counts_okD(3) [OF ok(1)])
  moreover have "\<not> is_stored s i"
    using none ok(2) by blast
  moreover have "i \<notin># slots s"
    using dead by (simp add: live_def not_in_iff)
  moreover have "i \<notin> fst ` set (released s)"
    using i ok(6) by blast
  moreover have "count (add_mset i (slots s)) j \<le> 1" for j
    using \<open>i \<notin># slots s\<close> ok(4) [of j] by (cases "j = i") (simp_all add: not_in_iff)
  moreover have "is_stored ?s j \<longleftrightarrow> is_stored s j" for j
    by (simp add: is_stored_def m(1))
  ultimately show ?thesis
    unfolding entity_ok_def live using ok m by auto
qed

lemma entity_okI:
  assumes "counts_ok (live s) (refs s)"
    and "\<And>i. is_stored s i \<Longrightarrow> counts (refs s) i \<noteq> None \<and> i \<notin># slots s"
    and "\<And>i. leases s i \<noteq> None \<Longrightarrow> i \<in># held s \<and> entities (emap s) i = None"
    and "\<And>i. count (slots s) i \<le> 1"
    and "distinct (map fst (released s))"
    and "\<And>i. i \<in> fst ` set (released s) \<Longrightarrow> counts (refs s) i = None \<and> i \<in> set (issued (refs s))"
  shows "entity_ok s"
  unfolding entity_ok_def
proof (intro conjI)
  show "\<forall>i. is_stored s i \<longrightarrow> counts (refs s) i \<noteq> None \<and> i \<notin># slots s"
    using assms(2) by (intro allI impI)
  show "\<forall>i. leases s i \<noteq> None \<longrightarrow> i \<in># held s \<and> entities (emap s) i = None"
    using assms(3) by (intro allI impI)
  show "\<forall>i. count (slots s) i \<le> 1"
    using assms(4) by (intro allI)
  show "\<forall>i \<in> fst ` set (released s). counts (refs s) i = None \<and> i \<in> set (issued (refs s))"
    using assms(6) by (intro ballI)
qed (rule assms(1), rule assms(5))

lemma live_counts:
  assumes "entity_ok s" "i \<in># live s"
  shows "counts (refs s) i \<noteq> None"
  using counts_ok_live(1) [OF entity_okD(1) [OF assms(1)] assms(2)] by simp

lemma insert_ok:
  assumes "entity_ok s" "i \<in># slots s"
  shows "entity_ok (s\<lparr>emap := em_insert i e (emap s), slots := slots s - {#i#}, held := add_mset i (held s)\<rparr>)"
proof -
  let ?s = "s\<lparr>emap := em_insert i e (emap s), slots := slots s - {#i#}, held := add_mset i (held s)\<rparr>"
  note ok = entity_okD [OF assms(1)]
  have one: "count (slots s) i = 1"
    using ok(4) [of i] assms(2) by (metis One_nat_def Suc_leI count_greater_zero_iff le_antisym)
  have live: "live ?s = live s"
    using assms(2) by (simp add: live_def)
  have "leases s i = None"
    by (rule ccontr) (use ok(2) [of i] assms(2) in \<open>simp add: is_stored_def\<close>)
  have refs: "refs ?s = refs s"
    by (simp add: em_insert_def)
  have is_stored: "is_stored ?s j \<longleftrightarrow> j = i \<or> is_stored s j" for j
    by (auto simp: is_stored_def em_insert_def)
  show ?thesis
  proof (rule entity_okI)
    show "counts_ok (live ?s) (refs ?s)"
      unfolding live refs by (rule ok(1))
    show "counts (refs ?s) j \<noteq> None \<and> j \<notin># slots ?s" if "is_stored ?s j" for j
    proof (cases "j = i")
      case True
      then show ?thesis
        unfolding refs using live_counts [OF assms(1), of i] assms(2) one
        by (simp add: live_def not_in_iff)
    next
      case False
      then show ?thesis
        unfolding refs using that is_stored ok(2) [of j] by (auto dest: in_diffD)
    qed
    show "j \<in># held ?s \<and> entities (emap ?s) j = None" if "leases ?s j \<noteq> None" for j
      using that ok(3) [of j] \<open>leases s i = None\<close> by (cases "j = i") (simp_all add: em_insert_def)
    show "count (slots ?s) j \<le> 1" for j
      using ok(4) [of j] by (simp add: le_diff_conv)
    show "counts (refs ?s) j = None \<and> j \<in> set (issued (refs ?s))" if "j \<in> fst ` set (released ?s)" for j
      unfolding refs using that ok(6) [of j] by simp
  qed (use ok(5) in simp)
qed

lemma lease_ok:
  assumes "entity_ok s" "i \<in># held s" "em_lease i (emap s) = Some (e, m)"
  shows "entity_ok (s\<lparr>emap := m, leases := (leases s)(i \<mapsto> e)\<rparr>)"
proof -
  let ?s = "s\<lparr>emap := m, leases := (leases s)(i \<mapsto> e)\<rparr>"
  note ok = entity_okD [OF assms(1)]
  have e: "entities (emap s) i = Some e" and m: "ref_counts m = refs s" "entities m = (entities (emap s))(i := None)"
    using assms(3) by (auto simp: em_lease_def Let_def split: option.splits)
  have same: "live ?s = live s" "refs ?s = refs s"
    by (simp_all add: live_def m(1))
  have is_stored: "is_stored ?s j \<longleftrightarrow> is_stored s j" for j
    using e by (auto simp: is_stored_def m(2))
  show ?thesis
  proof (rule entity_okI)
    show "j \<in># held ?s \<and> entities (emap ?s) j = None" if "leases ?s j \<noteq> None" for j
      using that ok(3) [of j] assms(2) by (cases "j = i") (simp_all add: m(2))
    show "counts (refs ?s) j \<noteq> None \<and> j \<notin># slots ?s" if "is_stored ?s j" for j
      unfolding same using that ok(2) [of j] is_stored by simp
    show "count (slots ?s) j \<le> 1" for j using ok(4) [of j] by simp
    show "counts (refs ?s) j = None \<and> j \<in> set (issued (refs ?s))" if "j \<in> fst ` set (released ?s)" for j
      unfolding same using that ok(6) [of j] by simp
  qed (use ok(1,5) same in simp_all)
qed

lemma end_lease_ok:
  assumes "entity_ok s" "leases s i = Some e"
  shows "entity_ok (s\<lparr>emap := em_end_lease i e' (emap s), leases := (leases s)(i := None)\<rparr>)"
proof -
  let ?s = "s\<lparr>emap := em_end_lease i e' (emap s), leases := (leases s)(i := None)\<rparr>"
  note ok = entity_okD [OF assms(1)]
  have same: "live ?s = live s" "refs ?s = refs s"
    by (simp_all add: live_def em_end_lease_def)
  have is_stored: "is_stored ?s j \<longleftrightarrow> is_stored s j" for j
    using assms(2) by (auto simp: is_stored_def em_end_lease_def)
  show ?thesis
  proof (rule entity_okI)
    show "j \<in># held ?s \<and> entities (emap ?s) j = None" if "leases ?s j \<noteq> None" for j
      using that ok(3) [of j] by (cases "j = i") (simp_all add: em_end_lease_def)
    show "counts (refs ?s) j \<noteq> None \<and> j \<notin># slots ?s" if "is_stored ?s j" for j
      unfolding same using that ok(2) [of j] is_stored by simp
    show "count (slots ?s) j \<le> 1" for j using ok(4) [of j] by simp
    show "counts (refs ?s) j = None \<and> j \<in> set (issued (refs ?s))" if "j \<in> fst ` set (released ?s)" for j
      unfolding same using that ok(6) [of j] by simp
  qed (use ok(1,5) same in simp_all)
qed

lemma map_filter_keys:
  "map fst (List.map_filter (\<lambda>i. map_option (Pair i) (f i)) xs) = filter (\<lambda>i. f i \<noteq> None) xs"
  by (induction xs) (auto simp: map_filter_simps)

lemma take_ok:
  assumes "entity_ok s" "take_dropped (emap s) = Some (taken, m)"
  shows "entity_ok (s\<lparr>emap := m, released := released s @ taken\<rparr>)"
proof -
  let ?s = "s\<lparr>emap := m, released := released s @ taken\<rparr>"
  note ok = entity_okD [OF assms(1)]
  obtain m' where m': "take_dropped (emap s) = Some (List.map_filter (\<lambda>i. map_option (Pair i) (entities (emap s) i))
      (dropped_entity_ids (refs s)), m')"
    "entities m' = (\<lambda>i. if counts (refs s) i = Some 0 then None else entities (emap s) i)"
    "counts (ref_counts m') = (\<lambda>i. if counts (refs s) i = Some 0 then None else counts (refs s) i)"
    "issued (ref_counts m') = issued (refs s)"
    using take_dropped_ok [OF ok(1)] by blast
  then have eq: "m = m'" and taken: "taken = List.map_filter (\<lambda>i. map_option (Pair i) (entities (emap s) i)) (dropped_entity_ids (refs s))"
    using assms(2) by simp_all
  have live: "live ?s = live s"
    by (simp add: live_def)
  have not_live: "i \<notin># held s" if "counts (refs s) i = Some 0" for i
    using counts_okD(1) [OF ok(1) that] by (simp add: live_def not_in_iff)
  have taken_ids: "map fst taken = filter (\<lambda>i. entities (emap s) i \<noteq> None) (dropped_entity_ids (refs s))"
    unfolding taken by (rule map_filter_keys)
  then have taken_set: "fst ` set taken = {i. counts (refs s) i = Some 0 \<and> entities (emap s) i \<noteq> None}"
  proof -
    have "fst ` set taken = set (map fst taken)" by simp
    also have "\<dots> = {i. counts (refs s) i = Some 0 \<and> entities (emap s) i \<noteq> None}"
      unfolding taken_ids set_filter counts_okD(4) [OF ok(1)] ..
    finally show ?thesis .
  qed
  show ?thesis
  proof (rule entity_okI)
    show "counts_ok (live ?s) (refs ?s)"
      using take_dropped_counts [OF ok(1) assms(2)] live by simp
    show "counts (refs ?s) j \<noteq> None \<and> j \<notin># slots ?s" if "is_stored ?s j" for j
    proof -
      have "is_stored s j" "counts (refs s) j \<noteq> Some 0"
        using that ok(3) [of j] not_live [of j]
        by (auto simp: is_stored_def eq m'(2) split: if_splits)
      then show ?thesis
        using ok(2) [of j] by (simp add: eq m'(3))
    qed
    show "j \<in># held ?s \<and> entities (emap ?s) j = None" if "leases ?s j \<noteq> None" for j
      using that ok(3) [of j] by (simp add: eq m'(2))
    show "count (slots ?s) j \<le> 1" for j using ok(4) [of j] by simp
    have "fst ` set (released s) \<inter> fst ` set taken = {}"
    proof (rule equals0I)
      fix i assume i: "i \<in> fst ` set (released s) \<inter> fst ` set taken"
      then have "counts (refs s) i = Some 0" unfolding taken_set by blast
      moreover have "counts (refs s) i = None" using ok(6) [OF IntD1 [OF i]] by simp
      ultimately show False by simp
    qed
    moreover have "distinct (map fst taken)"
      unfolding taken_ids using counts_okD(3) [OF ok(1)] by (rule distinct_filter)
    ultimately show "distinct (map fst (released ?s))"
      using ok(5) by simp
    show "counts (refs ?s) j = None \<and> j \<in> set (issued (refs ?s))" if "j \<in> fst ` set (released ?s)" for j
    proof -
      have "j \<in> fst ` set (released s) \<or> j \<in> fst ` set taken"
        using that by auto
      then show ?thesis
        using ok(6) [of j] counts_okD(1) [OF ok(1), of j 0] by (auto simp: eq m'(3,4) taken_set)
    qed
  qed
qed

lemma read_ok:
  assumes "entity_ok s" "em_read i (emap s) = Some (e, m)"
  shows "entity_ok (s\<lparr>emap := m\<rparr>)"
proof (rule handles_keep [OF assms(1)])
  show "counts_ok (live (s\<lparr>emap := m\<rparr>)) (refs (s\<lparr>emap := m\<rparr>))"
    using entity_okD(1) [OF assms(1)] assms(2) by (auto simp: live_def em_read_def Let_def)
qed (use assms(2) entity_okD(3) [OF assms(1)] in \<open>auto simp: em_read_def Let_def\<close>)

lemma count_diff_le: "count (hs - {#i#}) j \<le> count hs j"
  by simp

lemma entity_step_ok:
  assumes "never_reused alloc" "entity_step alloc s s'" "entity_ok s"
  shows "entity_ok s'"
  using assms(2)
proof cases
  case (Reserve i m)
  then show ?thesis using reserve_ok [OF assms(1,3)] by simp
next
  case (Insert_slot i e)
  then show ?thesis using insert_ok [OF assms(3)] by simp
next
  case (Clone_handle i rc)
  obtain rc' where "entity_clone i (Some (refs s)) = Some (Some rc')" "counts_ok (add_mset i (live s)) rc'"
    "issued rc' = issued (refs s)" "dom (counts rc') = dom (counts (refs s))"
    using clone_counts [OF entity_okD(1) [OF assms(3)] Clone_handle(2)] by blast
  then show ?thesis
    unfolding Clone_handle(1)
    by (intro handles_keep [OF assms(3)]) (use Clone_handle(3) entity_okD(3) [OF assms(3)] in \<open>simp_all add: live_def with_refs_def\<close>)
next
  case (Drop_handle i rc)
  have i: "i \<in># live s" using Drop_handle(2) by (simp add: live_def)
  obtain rc' where rc': "entity_drop i (Some (refs s)) = Some (Some rc')" "counts_ok (live s - {#i#}) rc'"
    "issued rc' = issued (refs s)" "dom (counts rc') = dom (counts (refs s))"
    using drop_counts [OF entity_okD(1) [OF assms(3)] i] by blast
  have eq: "rc = rc'" using rc'(1) Drop_handle(4) by simp
  have live: "live ((with_refs rc s)\<lparr>held := held s - {#i#}\<rparr>) = live s - {#i#}"
    using Drop_handle(2) by (simp add: live_def)
  have borrowed: "j \<in># held s - {#i#}" if "leases s j \<noteq> None" for j
    using that Drop_handle(3) entity_okD(3) [OF assms(3) that]
    by (cases "j = i") (auto simp: in_diff_count not_in_iff)
  show ?thesis
    unfolding Drop_handle(1)
    by (rule handles_keep [OF assms(3)]) (use rc'(2-) borrowed live in \<open>simp_all add: eq with_refs_def\<close>)
next
  case (Drop_slot i rc)
  have i: "i \<in># live s" using Drop_slot(2) by (simp add: live_def)
  obtain rc' where rc': "entity_drop i (Some (refs s)) = Some (Some rc')" "counts_ok (live s - {#i#}) rc'"
    "issued rc' = issued (refs s)" "dom (counts rc') = dom (counts (refs s))"
    using drop_counts [OF entity_okD(1) [OF assms(3)] i] by blast
  have eq: "rc = rc'" using rc'(1) Drop_slot(3) by simp
  have live: "live ((with_refs rc s)\<lparr>slots := slots s - {#i#}\<rparr>) = live s - {#i#}"
    using Drop_slot(2) by (simp add: live_def)
  show ?thesis
    unfolding Drop_slot(1)
    by (rule handles_keep [OF assms(3)])
      (use rc'(2-) live entity_okD(3) [OF assms(3)] in \<open>simp_all add: eq with_refs_def count_diff_le\<close>)
next
  case (Upgrade w i rc)
  have i: "i \<in># live s" "entity_clone i (Some (refs s)) = Some (Some rc)"
    using Upgrade(2) upgrade_counts(1,2) [OF entity_okD(1) [OF assms(3)], of w]
    by (auto split: if_splits)
  obtain rc' where "entity_clone i (Some (refs s)) = Some (Some rc')" "counts_ok (add_mset i (live s)) rc'"
    "issued rc' = issued (refs s)" "dom (counts rc') = dom (counts (refs s))"
    using clone_counts [OF entity_okD(1) [OF assms(3)] i(1)] by blast
  then show ?thesis
    unfolding Upgrade(1)
    by (intro handles_keep [OF assms(3)]) (use i(2) entity_okD(3) [OF assms(3)] in \<open>simp_all add: live_def with_refs_def\<close>)
next
  case (Lease i e m)
  then show ?thesis using lease_ok [OF assms(3)] by simp
next
  case (End_lease i e e')
  then show ?thesis using end_lease_ok [OF assms(3)] by simp
next
  case (Read i e m)
  then show ?thesis using read_ok [OF assms(3)] by simp
next
  case (Take taken m)
  then show ?thesis using take_ok [OF assms(3)] by simp
qed

lemma entity_steps_ok:
  "never_reused alloc \<Longrightarrow> entity_steps alloc s s' \<Longrightarrow> entity_ok s \<Longrightarrow> entity_ok s'"
  by (rotate_tac, induction rule: rtranclp_induct) (auto intro: entity_step_ok)

section \<open>What taking hands out\<close>

lemma take_dropped_content:
  assumes "entity_ok s" "take_dropped (emap s) = Some (taken, m)"
  shows "map fst taken = filter (\<lambda>i. entities (emap s) i \<noteq> None) (dropped_entity_ids (refs s))"
    and "(i, e) \<in> set taken \<longleftrightarrow> entities (emap s) i = Some e \<and> i \<notin># live s"
    and "entities m i = (if counts (refs s) i = Some 0 then None else entities (emap s) i)"
    and "counts (ref_counts m) i \<noteq> None \<longleftrightarrow> i \<in># live s"
proof -
  note ok = entity_okD [OF assms(1)]
  obtain m' where m': "take_dropped (emap s) = Some (List.map_filter (\<lambda>i. map_option (Pair i) (entities (emap s) i))
      (dropped_entity_ids (refs s)), m')"
    "entities m' = (\<lambda>i. if counts (refs s) i = Some 0 then None else entities (emap s) i)"
    "counts (ref_counts m') = (\<lambda>i. if counts (refs s) i = Some 0 then None else counts (refs s) i)"
    using take_dropped_ok [OF ok(1)] by blast
  then have m: "m = m'" and taken: "taken = List.map_filter (\<lambda>i. map_option (Pair i) (entities (emap s) i)) (dropped_entity_ids (refs s))"
    using assms(2) by simp_all
  show "map fst taken = filter (\<lambda>i. entities (emap s) i \<noteq> None) (dropped_entity_ids (refs s))"
    unfolding taken by (rule map_filter_keys)
  have zero: "counts (refs s) i = Some 0 \<longleftrightarrow> counts (refs s) i \<noteq> None \<and> i \<notin># live s"
    using counts_okD(1) [OF ok(1), of i] by (cases "counts (refs s) i") (auto simp: not_in_iff)
  show "(i, e) \<in> set taken \<longleftrightarrow> entities (emap s) i = Some e \<and> i \<notin># live s"
  proof
    assume "(i, e) \<in> set taken"
    then have "entities (emap s) i = Some e" "i \<in> set (dropped_entity_ids (refs s))"
      by (auto simp: taken map_filter_def)
    then show "entities (emap s) i = Some e \<and> i \<notin># live s"
      using counts_okD(4) [OF ok(1), of i] zero by simp
  next
    assume e: "entities (emap s) i = Some e \<and> i \<notin># live s"
    then have "counts (refs s) i \<noteq> None"
      using ok(2) [of i] by (simp add: is_stored_def)
    then have "i \<in> set (dropped_entity_ids (refs s))"
      using e zero counts_okD(4) [OF ok(1), of i] by simp
    then show "(i, e) \<in> set taken"
      using e by (force simp: taken map_filter_def)
  qed
  show "entities m i = (if counts (refs s) i = Some 0 then None else entities (emap s) i)"
    by (simp add: m m'(2))
  show "counts (ref_counts m) i \<noteq> None \<longleftrightarrow> i \<in># live s"
    using zero live_counts [OF assms(1), of i] by (auto simp: m m'(3))
qed

text \<open>An entity leaves the map by being taken only.\<close>

lemma step_present:
  assumes "entity_ok s" "entity_step alloc s s'" "is_stored s i" "\<not> is_stored s' i"
  shows "i \<notin># live s \<and> i \<in> fst ` set (released s')"
  using assms(2)
proof cases
  case (Take taken m)
  note content = take_dropped_content [OF assms(1) Take(2)]
  have "leases s i = None" "entities m i = None"
    using assms(4) by (auto simp: is_stored_def Take(1))
  then obtain e where e: "entities (emap s) i = Some e" "counts (refs s) i = Some 0"
    using assms(3) content(3) [of i] by (auto simp: is_stored_def split: if_splits)
  then have "i \<notin># live s"
    using counts_okD(1) [OF entity_okD(1) [OF assms(1)] e(2)] by (simp add: not_in_iff)
  then have "(i, e) \<in> set taken"
    using e(1) content(2) [of i e] by simp
  then show ?thesis
    using \<open>i \<notin># live s\<close> by (force simp: Take(1))
qed (use assms(3,4) in \<open>auto simp: is_stored_def em_reserve_def em_insert_def em_lease_def em_end_lease_def
    em_read_def with_refs_def Let_def split: if_splits option.splits\<close>)

end
