(* ===== verification/Entity_Map_Theorems.thy ===== *)
theory Entity_Map_Theorems
  imports Entity_Map_Correct
begin

text \<open>
  The properties of entities and their handles.
\<close>

section \<open>Inputs of the witnesses\<close>

definition next_key :: "nat list \<Rightarrow> nat" where
  "next_key given = Suc (sum_list given)"

lemma next_key_fresh: "never_reused next_key"
proof -
  have "x \<in> set given \<Longrightarrow> x \<le> sum_list given" for x :: nat and given
    by (induction given) auto
  then show ?thesis
    by (fastforce simp: never_reused_def next_key_def)
qed

text \<open>One entity with one handle, and the same after the handle was dropped.\<close>

definition one_entity :: "(nat, char) entity_system" where
  "one_entity =
     (let (i, m) = em_reserve next_key entity_map_new in
      \<lparr>emap = em_insert i (CHR ''e'') m, slots = {#}, held = {#i#}, leases = (\<lambda>_. None), released = []\<rparr>)"

definition dropped_entity :: "(nat, char) entity_system" where
  "dropped_entity =
     (with_refs \<lparr>counts = [1 \<mapsto> 0], dropped_entity_ids = [1], issued = [1]\<rparr> one_entity)\<lparr>held := {#}\<rparr>"

lemma one_entity_reached: "entity_steps next_key system_start one_entity"
proof -
  obtain m where r: "em_reserve next_key entity_map_new = (1, m :: (nat, char) entity_map)"
    by (simp add: em_reserve_def entity_map_new_def next_key_def Let_def)
  let ?s = "system_start\<lparr>emap := m, slots := {#1#}\<rparr>"
  have "entity_step next_key system_start ?s"
    using entity_step.Reserve [of next_key system_start 1 m] r by (simp add: system_start_def)
  moreover have "entity_step next_key ?s one_entity"
    using entity_step.Insert_slot [of 1 ?s next_key "CHR ''e''"] r
    by (simp add: system_start_def one_entity_def)
  ultimately show ?thesis by simp
qed

lemma one_entity_eq:
  "refs one_entity = \<lparr>counts = [1 \<mapsto> 1], dropped_entity_ids = [], issued = [1]\<rparr>"
  "entities (emap one_entity) = [1 \<mapsto> CHR ''e'']" "held one_entity = {#1#}"
  by (simp_all add: one_entity_def em_reserve_def em_insert_def entity_map_new_def next_key_def Let_def)

lemma dropped_entity_reached: "entity_steps next_key system_start dropped_entity"
proof -
  have "entity_drop 1 (Some (refs one_entity)) =
      Some (Some \<lparr>counts = [1 \<mapsto> 0], dropped_entity_ids = [1], issued = [1]\<rparr>)"
    by (simp add: one_entity_eq entity_drop_def)
  then have "entity_step next_key one_entity dropped_entity"
    using entity_step.Drop_handle [of 1 one_entity _ next_key]
    by (simp add: one_entity_eq dropped_entity_def) (simp add: one_entity_def split: prod.splits)
  then show ?thesis using one_entity_reached by simp
qed

section \<open>Counting\<close>

text \<open>
  C23. In every state reached from a new map by reserving, inserting, cloning, dropping,
  upgrading, leasing, reading and taking what was dropped, with a slot map that never gives
  a key twice: the count of an entity is the number of its strong handles, slots included;
  no operation on a live handle detects an over-release, and taking what was dropped does not
  panic; a weak handle can be upgraded exactly when a strong one exists; an
  entity that was inserted can be leased or read through its handle exactly when it is not leased
  already.
\<close>

theorem entity_counting:
  assumes "never_reused alloc" "entity_steps alloc system_start s"
  shows "(\<forall>i. i \<in># live s \<longrightarrow> counts (refs s) i = Some (count (live s) i) \<and>
      entity_clone i (Some (refs s)) \<noteq> None \<and> entity_drop i (Some (refs s)) \<noteq> None) \<and>
    take_dropped (emap s) \<noteq> None \<and>
    (\<forall>i. (is_upgradable i (Some (refs s)) \<longleftrightarrow> i \<in># live s) \<and>
      (weak_upgrade i (Some (refs s)) \<noteq> None \<longleftrightarrow> i \<in># live s)) \<and>
    (\<forall>i. is_stored s i \<longrightarrow>
      (em_lease i (emap s) = None \<longleftrightarrow> leases s i \<noteq> None) \<and> (em_read i (emap s) = None \<longleftrightarrow> leases s i \<noteq> None))"
proof -
  have ok: "entity_ok s"
    using entity_steps_ok [OF assms system_start_ok] .
  note counts = entity_okD(1) [OF ok]
  have "em_lease i (emap s) = None \<longleftrightarrow> leases s i \<noteq> None" "em_read i (emap s) = None \<longleftrightarrow> leases s i \<noteq> None"
    if "is_stored s i" for i
    using that entity_okD(3) [OF ok, of i] by (auto simp: is_stored_def em_lease_def em_read_def Let_def)
  moreover have "take_dropped (emap s) \<noteq> None"
    using take_dropped_ok [OF counts] by auto
  moreover have "counts (refs s) i = Some (count (live s) i) \<and>
      entity_clone i (Some (refs s)) \<noteq> None \<and> entity_drop i (Some (refs s)) \<noteq> None" if "i \<in># live s" for i
    using counts_ok_live(1) [OF counts that] clone_counts [OF counts that] drop_counts [OF counts that] by auto
  ultimately show ?thesis
    using upgrade_counts(1,3) [OF counts] by simp
qed

theorem entity_counting_witness:
  "entity_drop 1 (Some (refs one_entity)) \<noteq> None \<and> is_upgradable 1 (Some (refs one_entity)) \<and>
   em_read 1 (emap one_entity) \<noteq> None"
proof -
  have "1 \<in># live one_entity" "is_stored one_entity 1" "leases one_entity 1 = None"
    using one_entity_eq by (simp_all add: live_def is_stored_def one_entity_def split: prod.splits)
  then show ?thesis
    using entity_counting [OF next_key_fresh one_entity_reached] by blast
qed

section \<open>Release\<close>

text \<open>
  C24. An entity leaves the map only when it is taken after its last strong handle was
  dropped, and it is handed out exactly once. Taking what was dropped hands out precisely the
  entities in the map without a strong handle, in the order in which they lost the last
  one, and afterwards every entity in the map and every counter belongs to a live
  handle, so none is leaked.
\<close>

theorem entity_release:
  assumes "never_reused alloc" "entity_steps alloc system_start s" "take_dropped (emap s) = Some (taken, m)"
  shows "(\<forall>i s'. is_stored s i \<and> entity_step alloc s s' \<longrightarrow>
      is_stored s' i \<or> (i \<notin># live s \<and> i \<in> fst ` set (released s'))) \<and>
    distinct (map fst (released s @ taken)) \<and>
    map fst taken = filter (\<lambda>i. entities (emap s) i \<noteq> None) (dropped_entity_ids (refs s)) \<and>
    (\<forall>i e. (i, e) \<in> set taken \<longleftrightarrow> entities (emap s) i = Some e \<and> i \<notin># live s) \<and>
    (\<forall>i. entities m i \<noteq> None \<longrightarrow> i \<in># live s) \<and>
    (\<forall>i. counts (ref_counts m) i \<noteq> None \<longleftrightarrow> i \<in># live s)"
proof -
  have ok: "entity_ok s"
    using entity_steps_ok [OF assms(1,2) system_start_ok] .
  note content = take_dropped_content [OF ok assms(3)]
  have "distinct (map fst (released s @ taken))"
    using entity_okD(5) [OF take_ok [OF ok assms(3)]] by simp
  moreover have "i \<in># live s" if is_stored: "entities m i \<noteq> None" for i
  proof (rule ccontr)
    assume dead: "i \<notin># live s"
    obtain e where "entities (emap s) i = Some e" "counts (refs s) i \<noteq> Some 0"
      using is_stored content(3) [of i] by (auto split: if_splits)
    then show False
      using dead content(2) [of i e] content(4) [of i] entity_okD(2) [OF ok, of i]
        counts_okD(1) [OF entity_okD(1) [OF ok], of i]
      by (cases "counts (refs s) i") (auto simp: is_stored_def not_in_iff)
  qed
  ultimately show ?thesis
    using content(1,2,4) step_present [OF ok] by blast
qed

theorem entity_release_witness:
  "\<exists>taken m. take_dropped (emap dropped_entity) = Some (taken, m) \<and> (1, CHR ''e'') \<in> set taken \<and>
     distinct (map fst (released dropped_entity @ taken))"
proof -
  have "entity_ok dropped_entity"
    using entity_steps_ok [OF next_key_fresh dropped_entity_reached system_start_ok] .
  then obtain taken m where t: "take_dropped (emap dropped_entity) = Some (taken, m)"
    using take_dropped_ok [OF entity_okD(1)] by blast
  have "entities (emap dropped_entity) 1 = Some (CHR ''e'')" "1 \<notin># live dropped_entity"
    using one_entity_eq by (simp_all add: dropped_entity_def live_def) (simp add: one_entity_def split: prod.splits)
  then show ?thesis
    using entity_release [OF next_key_fresh dropped_entity_reached t] t by blast
qed

section \<open>Updating\<close>

text \<open>
  An entity being updated cannot be updated or read again through the map, and after the
  update the map holds what the callback left.
\<close>

lemma update_entity_exclusive:
  assumes "em_lease i m = Some (e, m')"
  shows "em_lease i m' = None" "em_read i m' = None"
    "update_entity i (\<lambda>e m. Some (f e, r, m)) m = Some (r, em_end_lease i (f e) m')"
  using assms by (auto simp: em_lease_def em_read_def update_entity_def Let_def split: option.splits)

end
