(* ===== verification/Key_Dispatch.thy ===== *)
theory Key_Dispatch
  imports Keymap
begin

text \<open>
  The dispatch tree (\<open>gpui/src/key_dispatch.rs\<close>): the nodes registered while a frame is
  drawn, with their contexts, focus handles, views and listeners, the paths through them,
  and the matching of key presses along a path by the keymap. A panic is \<open>None\<close>; debug
  assertions are not modelled. Vectors used as stacks have their top at the end. Listeners are
  data, focus handles and views are identifiers.
\<close>

section \<open>Nodes and the tree\<close>

record 'l dispatch_node =
  key_listeners :: "'l list"
  action_listeners :: "(type_id \<times> 'l) list"
  modifiers_changed_listeners :: "'l list"
  dn_context :: "key_context option"
  dn_focus_id :: "nat option"
  dn_view_id :: "nat option"
  dn_parent :: "nat option"

definition node_default :: "'l dispatch_node" where
  "node_default = \<lparr>key_listeners = [], action_listeners = [], modifiers_changed_listeners = [],
     dn_context = None, dn_focus_id = None, dn_view_id = None, dn_parent = None\<rparr>"

record 'l dispatch_tree =
  node_stack :: "nat list"
  context_stack :: "key_context list"
  view_stack :: "nat list"
  dt_nodes :: "'l dispatch_node list"
  focusable_node_ids :: "nat \<Rightarrow> nat option"
  view_node_ids :: "nat \<Rightarrow> nat option"

definition dispatch_tree_new :: "'l dispatch_tree" where
  "dispatch_tree_new = \<lparr>node_stack = [], context_stack = [], view_stack = [], dt_nodes = [],
     focusable_node_ids = (\<lambda>_. None), view_node_ids = (\<lambda>_. None)\<rparr>"

definition dispatch_tree_clear :: "'l dispatch_tree \<Rightarrow> 'l dispatch_tree" where
  "dispatch_tree_clear t = t\<lparr>node_stack := [], context_stack := [], view_stack := [], dt_nodes := [],
     focusable_node_ids := (\<lambda>_. None), view_node_ids := (\<lambda>_. None)\<rparr>"

definition vec_last :: "'a list \<Rightarrow> 'a option" where
  "vec_last xs = (if xs = [] then None else Some (last xs))"

definition dt_node :: "'l dispatch_tree \<Rightarrow> nat \<Rightarrow> 'l dispatch_node option" where
  "dt_node t i = (if i < length (dt_nodes t) then Some (dt_nodes t ! i) else None)"

definition active_node_id :: "'l dispatch_tree \<Rightarrow> nat option" where
  "active_node_id t = vec_last (node_stack t)"

text \<open>A change of the active node; without one, \<open>unwrap\<close> panics.\<close>

definition with_active_node ::
  "('l dispatch_node \<Rightarrow> 'l dispatch_node) \<Rightarrow> 'l dispatch_tree \<Rightarrow> 'l dispatch_tree option" where
  "with_active_node f t =
     do { i \<leftarrow> active_node_id t;
          n \<leftarrow> dt_node t i;
          Some (t\<lparr>dt_nodes := (dt_nodes t)[i := f n]\<rparr>) }"

definition push_node :: "'l dispatch_tree \<Rightarrow> nat \<times> 'l dispatch_tree" where
  "push_node t =
     (let parent = vec_last (node_stack t);
          node_id = length (dt_nodes t) in
      (node_id, t\<lparr>dt_nodes := dt_nodes t @ [node_default\<lparr>dn_parent := parent\<rparr>],
                  node_stack := node_stack t @ [node_id]\<rparr>))"

definition pop_node :: "'l dispatch_tree \<Rightarrow> 'l dispatch_tree option" where
  "pop_node t =
     do { i \<leftarrow> active_node_id t;
          n \<leftarrow> dt_node t i;
          (let t = (if dn_context n \<noteq> None then t\<lparr>context_stack := butlast (context_stack t)\<rparr> else t);
               t = (if dn_view_id n \<noteq> None then t\<lparr>view_stack := butlast (view_stack t)\<rparr> else t) in
           Some (t\<lparr>node_stack := butlast (node_stack t)\<rparr>)) }"

definition set_key_context :: "key_context \<Rightarrow> 'l dispatch_tree \<Rightarrow> 'l dispatch_tree option" where
  "set_key_context ctx t =
     do { t \<leftarrow> with_active_node (dn_context_update (\<lambda>_. Some ctx)) t;
          Some (t\<lparr>context_stack := context_stack t @ [ctx]\<rparr>) }"

definition set_focus_id :: "nat \<Rightarrow> 'l dispatch_tree \<Rightarrow> 'l dispatch_tree option" where
  "set_focus_id focus t =
     do { node_id \<leftarrow> vec_last (node_stack t);
          n \<leftarrow> dt_node t node_id;
          Some (t\<lparr>dt_nodes := (dt_nodes t)[node_id := n\<lparr>dn_focus_id := Some focus\<rparr>],
                  focusable_node_ids := (focusable_node_ids t)(focus \<mapsto> node_id)\<rparr>) }"

definition set_view_id :: "nat \<Rightarrow> 'l dispatch_tree \<Rightarrow> 'l dispatch_tree option" where
  "set_view_id view t =
     (if vec_last (view_stack t) \<noteq> Some view then
        do { node_id \<leftarrow> vec_last (node_stack t);
             n \<leftarrow> dt_node t node_id;
             Some (t\<lparr>dt_nodes := (dt_nodes t)[node_id := n\<lparr>dn_view_id := Some view\<rparr>],
                     view_node_ids := (view_node_ids t)(view \<mapsto> node_id),
                     view_stack := view_stack t @ [view]\<rparr>) }
      else Some t)"

definition on_key_event :: "'l \<Rightarrow> 'l dispatch_tree \<Rightarrow> 'l dispatch_tree option" where
  "on_key_event listener = with_active_node (key_listeners_update (\<lambda>ls. ls @ [listener]))"

definition on_modifiers_changed :: "'l \<Rightarrow> 'l dispatch_tree \<Rightarrow> 'l dispatch_tree option" where
  "on_modifiers_changed listener = with_active_node (modifiers_changed_listeners_update (\<lambda>ls. ls @ [listener]))"

definition on_action :: "type_id \<Rightarrow> 'l \<Rightarrow> 'l dispatch_tree \<Rightarrow> 'l dispatch_tree option" where
  "on_action action_type listener =
     with_active_node (action_listeners_update (\<lambda>ls. ls @ [(action_type, listener)]))"

section \<open>Moving to a node drawn later\<close>

text \<open>
  \<open>set_active_node\<close> pops down to the parent of the node, or rebuilds the stacks from the
  root when the parent is not on the stack. The loops are partial functions.
\<close>

partial_function (option) pop_until :: "nat option \<Rightarrow> 'l dispatch_tree \<Rightarrow> 'l dispatch_tree option" where
  "pop_until next_node_parent t =
     (if vec_last (node_stack t) \<noteq> next_node_parent \<and> node_stack t \<noteq> [] then
        do { t \<leftarrow> pop_node t; pop_until next_node_parent t }
      else Some t)"

declare pop_until.simps [code]

partial_function (option) climb :: "nat option \<Rightarrow> 'l dispatch_tree \<Rightarrow> 'l dispatch_tree option" where
  "climb current_node_id t =
     (case current_node_id of
        None \<Rightarrow> Some t
      | Some node_id \<Rightarrow>
          do { n \<leftarrow> dt_node t node_id;
               (let t = (case dn_context n of Some ctx \<Rightarrow> t\<lparr>context_stack := context_stack t @ [ctx]\<rparr> | None \<Rightarrow> t);
                    t = (case dn_view_id n of Some v \<Rightarrow> t\<lparr>view_stack := view_stack t @ [v]\<rparr> | None \<Rightarrow> t);
                    t = t\<lparr>node_stack := node_stack t @ [node_id]\<rparr> in
                climb (dn_parent n) t) })"

declare climb.simps [code]

definition set_active_node :: "nat \<Rightarrow> 'l dispatch_tree \<Rightarrow> 'l dispatch_tree option" where
  "set_active_node node_id t =
     do { n \<leftarrow> dt_node t node_id;
          t \<leftarrow> pop_until (dn_parent n) t;
          if vec_last (node_stack t) = dn_parent n then
            (let t = t\<lparr>node_stack := node_stack t @ [node_id]\<rparr> in
             do { active \<leftarrow> dt_node t node_id;
                  (let t = (case dn_view_id active of Some v \<Rightarrow> t\<lparr>view_stack := view_stack t @ [v]\<rparr> | None \<Rightarrow> t) in
                   Some (case dn_context active of
                           Some ctx \<Rightarrow> t\<lparr>context_stack := context_stack t @ [ctx]\<rparr> | None \<Rightarrow> t)) })
          else
            do { t \<leftarrow> climb (Some node_id) t;
                 Some (t\<lparr>context_stack := rev (context_stack t), view_stack := rev (view_stack t),
                         node_stack := rev (node_stack t)\<rparr>) } }"

section \<open>Reusing the nodes of the previous frame\<close>

definition move_node :: "'l dispatch_node \<Rightarrow> 'l dispatch_tree \<Rightarrow> 'l dispatch_tree option" where
  "move_node source t =
     (let t = snd (push_node t) in
      do { t \<leftarrow> (case dn_context source of Some ctx \<Rightarrow> set_key_context ctx t | None \<Rightarrow> Some t);
           t \<leftarrow> (case dn_focus_id source of Some f \<Rightarrow> set_focus_id f t | None \<Rightarrow> Some t);
           t \<leftarrow> (case dn_view_id source of Some v \<Rightarrow> set_view_id v t | None \<Rightarrow> Some t);
           with_active_node (\<lambda>target. target\<lparr>
             key_listeners := key_listeners source,
             action_listeners := action_listeners source,
             modifiers_changed_listeners := modifiers_changed_listeners source\<rparr>) t })"

text \<open>What \<open>mem::take\<close> leaves in the source.\<close>

definition moved_out :: "'l dispatch_node \<Rightarrow> 'l dispatch_node" where
  "moved_out source = source\<lparr>key_listeners := [], action_listeners := [], modifiers_changed_listeners := []\<rparr>"

fun unwind :: "nat option \<Rightarrow> nat list \<Rightarrow> 'l dispatch_tree \<Rightarrow> (nat list \<times> 'l dispatch_tree) option" where
  "unwind parent [] t = Some ([], t)"
| "unwind parent (source_ancestor # source_stack) t =
     (if parent = Some source_ancestor then Some (source_ancestor # source_stack, t)
      else do { t \<leftarrow> pop_node t; unwind parent source_stack t })"

text \<open>The loop over the nodes to reuse; the source stack is written with its top first.\<close>

fun reuse_loop ::
  "nat option \<Rightarrow> (nat \<times> 'l dispatch_node) list \<Rightarrow> nat list \<Rightarrow> bool \<Rightarrow> 'l dispatch_tree \<Rightarrow>
   (nat list \<times> bool \<times> 'l dispatch_tree) option" where
  "reuse_loop focus [] source_stack contains_focus t = Some (source_stack, contains_focus, t)"
| "reuse_loop focus ((source_node_id, source_node) # rest) source_stack contains_focus t =
     do { (source_stack, t) \<leftarrow> unwind (dn_parent source_node) source_stack t;
          t \<leftarrow> move_node source_node t;
          reuse_loop focus rest (source_node_id # source_stack)
            (contains_focus \<or> (dn_focus_id source_node \<noteq> None \<and> dn_focus_id source_node = focus)) t }"

fun pop_all :: "nat list \<Rightarrow> 'l dispatch_tree \<Rightarrow> 'l dispatch_tree option" where
  "pop_all [] t = Some t"
| "pop_all (_ # source_stack) t = do { t \<leftarrow> pop_node t; pop_all source_stack t }"

record reused_subtree =
  old_start :: nat
  old_end :: nat
  new_start :: nat
  new_end :: nat
  contains_focus :: bool

definition refresh_node_id :: "reused_subtree \<Rightarrow> nat \<Rightarrow> nat option" where
  "refresh_node_id r node_id =
     (if old_start r \<le> node_id then Some ((node_id - old_start r) + new_start r) else None)"

definition reuse_subtree ::
  "nat \<Rightarrow> nat \<Rightarrow> 'l dispatch_tree \<Rightarrow> nat option \<Rightarrow> 'l dispatch_tree \<Rightarrow>
   (reused_subtree \<times> 'l dispatch_tree \<times> 'l dispatch_tree) option" where
  "reuse_subtree start finish source focus t =
     (let len = finish - start;
          reused = take len (drop start (List.enumerate 0 (dt_nodes source))) in
      do { (source_stack, found, t') \<leftarrow> reuse_loop focus reused [] False t;
           t' \<leftarrow> pop_all source_stack t';
           Some (\<lparr>old_start = start, old_end = finish, new_start = length (dt_nodes t),
                   new_end = length (dt_nodes t) + len, contains_focus = found\<rparr>,
                 source\<lparr>dt_nodes := take start (dt_nodes source) @
                   map moved_out (take len (drop start (dt_nodes source))) @
                   drop len (drop start (dt_nodes source))\<rparr>,
                 t') })"

definition forget_node :: "'l dispatch_node \<Rightarrow> 'l dispatch_tree \<Rightarrow> 'l dispatch_tree" where
  "forget_node n t =
     (let t = (case dn_focus_id n of Some f \<Rightarrow> t\<lparr>focusable_node_ids := (focusable_node_ids t)(f := None)\<rparr> | None \<Rightarrow> t) in
      case dn_view_id n of Some v \<Rightarrow> t\<lparr>view_node_ids := (view_node_ids t)(v := None)\<rparr> | None \<Rightarrow> t)"

definition tree_truncate :: "nat \<Rightarrow> 'l dispatch_tree \<Rightarrow> 'l dispatch_tree option" where
  "tree_truncate index t =
     (if length (dt_nodes t) < index then None
      else Some ((fold forget_node (drop index (dt_nodes t)) t)\<lparr>dt_nodes := take index (dt_nodes t)\<rparr>))"

section \<open>Paths\<close>

text \<open>
  The loops from a node to the root. \<open>dispatch_path\<close> looks a node up with \<open>get\<close>, the other
  loops index the vector.
\<close>

partial_function (option) dispatch_path_reversed :: "'l dispatch_tree \<Rightarrow> nat option \<Rightarrow> nat list option" where
  "dispatch_path_reversed t current_node_id =
     (case current_node_id of
        None \<Rightarrow> Some []
      | Some node_id \<Rightarrow>
          do { rest \<leftarrow> dispatch_path_reversed t (Option.bind (dt_node t node_id) dn_parent);
               Some (node_id # rest) })"

declare dispatch_path_reversed.simps [code]

definition dispatch_path :: "'l dispatch_tree \<Rightarrow> nat \<Rightarrow> nat list option" where
  "dispatch_path t target = map_option rev (dispatch_path_reversed t (Some target))"

partial_function (option) focus_path_reversed :: "'l dispatch_tree \<Rightarrow> nat option \<Rightarrow> nat list option" where
  "focus_path_reversed t current_node_id =
     (case current_node_id of
        None \<Rightarrow> Some []
      | Some node_id \<Rightarrow>
          do { n \<leftarrow> dt_node t node_id;
               rest \<leftarrow> focus_path_reversed t (dn_parent n);
               Some (case dn_focus_id n of Some focus \<Rightarrow> focus # rest | None \<Rightarrow> rest) })"

declare focus_path_reversed.simps [code]

definition focus_path :: "'l dispatch_tree \<Rightarrow> nat \<Rightarrow> nat list option" where
  "focus_path t focus = map_option rev (focus_path_reversed t (focusable_node_ids t focus))"

partial_function (option) view_path_from :: "'l dispatch_tree \<Rightarrow> nat option \<Rightarrow> nat list option" where
  "view_path_from t current_node_id =
     (case current_node_id of
        None \<Rightarrow> Some []
      | Some node_id \<Rightarrow>
          do { n \<leftarrow> dt_node t node_id;
               rest \<leftarrow> view_path_from t (dn_parent n);
               Some (case dn_view_id n of Some v \<Rightarrow> v # rest | None \<Rightarrow> rest) })"

declare view_path_from.simps [code]

definition view_path_reversed :: "'l dispatch_tree \<Rightarrow> nat \<Rightarrow> nat list option" where
  "view_path_reversed t view = view_path_from t (view_node_ids t view)"

partial_function (option) climbs_to :: "'l dispatch_tree \<Rightarrow> nat \<Rightarrow> nat option \<Rightarrow> bool option" where
  "climbs_to t parent_node_id current_node_id =
     (case current_node_id of
        None \<Rightarrow> Some False
      | Some node_id \<Rightarrow>
          if node_id = parent_node_id then Some True
          else do { n \<leftarrow> dt_node t node_id; climbs_to t parent_node_id (dn_parent n) })"

declare climbs_to.simps [code]

definition focus_contains :: "'l dispatch_tree \<Rightarrow> nat \<Rightarrow> nat \<Rightarrow> bool option" where
  "focus_contains t parent child =
     (if parent = child then Some True
      else case focusable_node_ids t parent of
             None \<Rightarrow> Some False
           | Some parent_node_id \<Rightarrow> climbs_to t parent_node_id (focusable_node_ids t child))"

definition focusable_node_id :: "'l dispatch_tree \<Rightarrow> nat \<Rightarrow> nat option" where
  "focusable_node_id t target = focusable_node_ids t target"

section \<open>Actions of a path\<close>

text \<open>
  The vector is kept sorted by type id, whose order is that of \<open>rank\<close>; \<open>binary_search_by_key\<close>
  finds the type or the place of the first greater one. The registry is the parameter \<open>build\<close>.
\<close>

definition insert_action ::
  "('a, 'z) action_ops_scheme \<Rightarrow> (type_id \<Rightarrow> nat) \<Rightarrow> (type_id \<Rightarrow> 'a action option) \<Rightarrow> type_id \<Rightarrow>
   'a action list \<Rightarrow> 'a action list" where
  "insert_action ops rank build ty actions =
     (if list_ex (\<lambda>a. rank (action_type_id ops a) = rank ty) actions then actions
      else let ix = length (takeWhile (\<lambda>a. rank (action_type_id ops a) < rank ty) actions) in
        case build ty of None \<Rightarrow> actions | Some act \<Rightarrow> take ix actions @ act # drop ix actions)"

fun actions_along ::
  "('a, 'z) action_ops_scheme \<Rightarrow> (type_id \<Rightarrow> nat) \<Rightarrow> (type_id \<Rightarrow> 'a action option) \<Rightarrow> 'l dispatch_tree \<Rightarrow>
   nat list \<Rightarrow> 'a action list \<Rightarrow> 'a action list option" where
  "actions_along ops rank build t [] actions = Some actions"
| "actions_along ops rank build t (node_id # path) actions =
     do { n \<leftarrow> dt_node t node_id;
          actions_along ops rank build t path
            (fold (insert_action ops rank build) (map fst (action_listeners n)) actions) }"

definition available_actions ::
  "('a, 'z) action_ops_scheme \<Rightarrow> (type_id \<Rightarrow> nat) \<Rightarrow> (type_id \<Rightarrow> 'a action option) \<Rightarrow> 'l dispatch_tree \<Rightarrow>
   nat \<Rightarrow> 'a action list option" where
  "available_actions ops rank build t target =
     do { path \<leftarrow> dispatch_path t target; actions_along ops rank build t path [] }"

fun listened_along :: "'l dispatch_tree \<Rightarrow> type_id \<Rightarrow> nat list \<Rightarrow> bool option" where
  "listened_along t ty [] = Some False"
| "listened_along t ty (node_id # path) =
     do { n \<leftarrow> dt_node t node_id;
          if list_ex (\<lambda>(action_type, _). action_type = ty) (action_listeners n) then Some True
          else listened_along t ty path }"

definition is_action_available ::
  "('a, 'z) action_ops_scheme \<Rightarrow> 'l dispatch_tree \<Rightarrow> 'a action \<Rightarrow> nat \<Rightarrow> bool option" where
  "is_action_available ops t act target =
     do { path \<leftarrow> dispatch_path t target; listened_along t (action_type_id ops act) path }"

section \<open>Bindings shown for an action\<close>

definition binding_matches_predicate_and_not_shadowed ::
  "('a, 'z) action_ops_scheme \<Rightarrow> string \<Rightarrow> 'a keymap \<Rightarrow> key_context list \<Rightarrow> 'a key_binding \<Rightarrow> bool" where
  "binding_matches_predicate_and_not_shadowed ops target_os km contexts binding =
     (case fst (bindings_for_input ops target_os km (map kk_inner (kb_keystrokes binding)) contexts) of
        [] \<Rightarrow> False
      | found # _ \<Rightarrow> action_eq ops (kb_action found) (kb_action binding))"

definition tree_bindings_for_action ::
  "('a, 'z) action_ops_scheme \<Rightarrow> string \<Rightarrow> 'a keymap \<Rightarrow> 'a action \<Rightarrow> key_context list \<Rightarrow> 'a key_binding list option" where
  "tree_bindings_for_action ops target_os km act contexts =
     map_option (filter (binding_matches_predicate_and_not_shadowed ops target_os km contexts))
       (bindings_for_action ops km act)"

definition highest_precedence_binding_for_action ::
  "('a, 'z) action_ops_scheme \<Rightarrow> string \<Rightarrow> 'a keymap \<Rightarrow> 'a action \<Rightarrow> key_context list \<Rightarrow>
   'a key_binding option option" where
  "highest_precedence_binding_for_action ops target_os km act contexts =
     map_option (\<lambda>bindings. find (binding_matches_predicate_and_not_shadowed ops target_os km contexts)
         (rev bindings))
       (bindings_for_action ops km act)"

section \<open>Dispatching a key press\<close>

record 'a replay =
  replay_keystroke :: keystroke
  replay_bindings :: "'a key_binding list"

record 'a dispatch_result =
  dr_pending :: "keystroke list"
  dr_pending_has_binding :: bool
  dr_bindings :: "'a key_binding list"
  dr_to_replay :: "'a replay list"
  dr_context_stack :: "key_context list"

definition dispatch_result_default :: "'a dispatch_result" where
  "dispatch_result_default = \<lparr>dr_pending = [], dr_pending_has_binding = False, dr_bindings = [],
     dr_to_replay = [], dr_context_stack = []\<rparr>"

fun path_contexts :: "'l dispatch_tree \<Rightarrow> nat list \<Rightarrow> key_context list option" where
  "path_contexts t [] = Some []"
| "path_contexts t (node_id # path) =
     do { n \<leftarrow> dt_node t node_id;
          rest \<leftarrow> path_contexts t path;
          Some (case dn_context n of Some ctx \<Rightarrow> ctx # rest | None \<Rightarrow> rest) }"

definition tree_bindings_for_input ::
  "('a, 'z) action_ops_scheme \<Rightarrow> string \<Rightarrow> 'a keymap \<Rightarrow> 'l dispatch_tree \<Rightarrow> keystroke list \<Rightarrow> nat list \<Rightarrow>
   ('a key_binding list \<times> bool \<times> key_context list) option" where
  "tree_bindings_for_input ops target_os km t input path =
     do { contexts \<leftarrow> path_contexts t path;
          (let (bindings, partial) = bindings_for_input ops target_os km input contexts in
           Some (bindings, partial, contexts)) }"

text \<open>The loop over the ends of the prefixes, the longest first.\<close>

fun longest_bound ::
  "('a, 'z) action_ops_scheme \<Rightarrow> string \<Rightarrow> 'a keymap \<Rightarrow> 'l dispatch_tree \<Rightarrow> keystroke list \<Rightarrow> nat list \<Rightarrow>
   nat list \<Rightarrow> (nat \<times> 'a key_binding list) option option" where
  "longest_bound ops target_os km t input path [] = Some None"
| "longest_bound ops target_os km t input path (end_ix # rest) =
     do { (bindings, _, _) \<leftarrow> tree_bindings_for_input ops target_os km t (take (Suc end_ix) input) path;
          if bindings \<noteq> [] then Some (Some (end_ix, bindings))
          else longest_bound ops target_os km t input path rest }"

definition replay_prefix ::
  "('a, 'z) action_ops_scheme \<Rightarrow> string \<Rightarrow> 'a keymap \<Rightarrow> 'l dispatch_tree \<Rightarrow> keystroke list \<Rightarrow> nat list \<Rightarrow>
   (keystroke list \<times> 'a replay list) option" where
  "replay_prefix ops target_os km t input path =
     do { found \<leftarrow> longest_bound ops target_os km t input path (rev [0..<length input]);
          (case found of
             Some (end_ix, bindings) \<Rightarrow>
               Some (drop (Suc end_ix) input,
                     [\<lparr>replay_keystroke = input ! end_ix, replay_bindings = bindings\<rparr>])
           | None \<Rightarrow>
               (case input of
                  [] \<Rightarrow> None
                | k # rest \<Rightarrow> Some (rest, [\<lparr>replay_keystroke = k, replay_bindings = []\<rparr>]))) }"

lemma replay_prefix_shorter [dest]:
  assumes "replay_prefix ops target_os km t input path = Some (suffix, rs)"
  shows "length suffix < length input"
  using assms unfolding replay_prefix_def
  by (cases input) (auto simp: Option.bind_eq_Some_conv split: option.splits)

function dispatch_key ::
  "('a, 'z) action_ops_scheme \<Rightarrow> string \<Rightarrow> 'a keymap \<Rightarrow> 'l dispatch_tree \<Rightarrow> keystroke list \<Rightarrow> keystroke \<Rightarrow>
   nat list \<Rightarrow> 'a dispatch_result option" where
  "dispatch_key ops target_os km t input keystroke path =
     do { (bindings, pending, contexts) \<leftarrow>
            tree_bindings_for_input ops target_os km t (input @ [keystroke]) path;
          if pending then
            Some (dispatch_result_default\<lparr>dr_pending := input @ [keystroke],
              dr_pending_has_binding := bindings \<noteq> [], dr_context_stack := contexts\<rparr>)
          else if bindings \<noteq> [] then
            Some (dispatch_result_default\<lparr>dr_bindings := bindings, dr_context_stack := contexts\<rparr>)
          else if length (input @ [keystroke]) = 1 then
            Some (dispatch_result_default\<lparr>dr_context_stack := contexts\<rparr>)
          else
            do { (suffix, to_replay) \<leftarrow> replay_prefix ops target_os km t input path;
                 result \<leftarrow> dispatch_key ops target_os km t suffix keystroke path;
                 Some (result\<lparr>dr_to_replay := to_replay @ dr_to_replay result\<rparr>) } }"
  by pat_completeness auto

termination
  by (relation "measure (\<lambda>(_, _, _, _, input, _, _). length input)") auto

declare dispatch_key.simps [simp del]

function flush_dispatch ::
  "('a, 'z) action_ops_scheme \<Rightarrow> string \<Rightarrow> 'a keymap \<Rightarrow> 'l dispatch_tree \<Rightarrow> keystroke list \<Rightarrow> nat list \<Rightarrow>
   'a replay list option" where
  "flush_dispatch ops target_os km t input path =
     do { (suffix, to_replay) \<leftarrow> replay_prefix ops target_os km t input path;
          if suffix \<noteq> [] then
            do { more \<leftarrow> flush_dispatch ops target_os km t suffix path; Some (to_replay @ more) }
          else Some to_replay }"
  by pat_completeness auto

termination
  by (relation "measure (\<lambda>(_, _, _, _, input, _). length input)") auto

declare flush_dispatch.simps [simp del]

end
