(* ===== verification/Key_Dispatch_Correct.thy ===== *)
theory Key_Dispatch_Correct
  imports Key_Dispatch
begin

text \<open>
  The dispatch tree is correct: the segmentation of the typed keystrokes made by
  \<open>dispatch_key\<close> and \<open>flush_dispatch\<close>, the invariant of the stacks and of the node maps,
  the paths from a node to the root.
\<close>

section \<open>Segmenting the pending keystrokes\<close>

definition contexts_of :: "'l dispatch_tree \<Rightarrow> nat list \<Rightarrow> key_context list" where
  "contexts_of t path = List.map_filter (\<lambda>i. dn_context (dt_nodes t ! i)) path"

definition path_in_tree :: "'l dispatch_tree \<Rightarrow> nat list \<Rightarrow> bool" where
  "path_in_tree t path = list_all (\<lambda>i. i < length (dt_nodes t)) path"

lemma path_contexts_eq:
  assumes "path_in_tree t path"
  shows "path_contexts t path = Some (contexts_of t path)"
  using assms unfolding path_in_tree_def contexts_of_def
  by (induction path) (auto simp: dt_node_def List.map_filter_simps split: option.splits)

text \<open>One greedy segmentation: the longest bound prefix, or one keystroke alone when no prefix is bound.\<close>

definition none_after :: "('k list \<Rightarrow> bool) \<Rightarrow> 'k list \<Rightarrow> nat \<Rightarrow> bool" where
  "none_after bound input n \<longleftrightarrow> (\<forall>m. n < m \<and> m \<le> length input \<longrightarrow> \<not> bound (take m input))"

definition first_end :: "('k list \<Rightarrow> bool) \<Rightarrow> 'k list \<Rightarrow> nat \<Rightarrow> bool" where
  "first_end bound input n \<longleftrightarrow>
     0 < n \<and> n \<le> length input \<and>
     (if bound (take n input) then none_after bound input n else n = 1 \<and> none_after bound input 0)"

text \<open>
  \<open>segments bound live input segs rest\<close>: the input is cut into \<open>segs\<close> and \<open>rest\<close>, cutting as
  long as what is left is not live and not empty.
\<close>

inductive segments :: "('k list \<Rightarrow> bool) \<Rightarrow> ('k list \<Rightarrow> bool) \<Rightarrow> 'k list \<Rightarrow> 'k list list \<Rightarrow> 'k list \<Rightarrow> bool"
  for bound live where
  stop: "live rest \<or> rest = [] \<Longrightarrow> segments bound live rest [] rest"
| cut: "\<not> live input \<Longrightarrow> first_end bound input n \<Longrightarrow>
        segments bound live (drop n input) segs rest \<Longrightarrow> segments bound live input (take n input # segs) rest"

inductive_cases segments_NilE: "segments bound live input [] rest"
inductive_cases segments_ConsE: "segments bound live input (seg # segs) rest"

lemma segments_concat: "segments bound live input segs rest \<Longrightarrow> input = concat segs @ rest"
proof (induction rule: segments.induct)
  case (cut input n segs rest)
  show ?case by (simp flip: cut.IH)
qed simp

lemma segments_end: "segments bound live input segs rest \<Longrightarrow> live rest \<or> rest = []"
  by (induction rule: segments.induct) auto

lemma first_end_not_less:
  assumes n: "first_end bound input n" and n': "first_end bound input n'"
  shows "\<not> n < n'"
proof
  assume less: "n < n'"
  have le: "0 < n" "n' \<le> length input" using n n' by (simp_all add: first_end_def)
  have "\<exists>k. k \<le> n \<and> none_after bound input k"
    using n by (auto simp: first_end_def split: if_splits)
  then have "\<not> bound (take n' input)"
    using less le unfolding none_after_def by (meson order.strict_trans1)
  then have "n' = 1" using n' by (simp add: first_end_def)
  with less le show False by simp
qed

lemma first_end_unique: "first_end bound input n \<Longrightarrow> first_end bound input n' \<Longrightarrow> n = n'"
  using first_end_not_less linorder_neqE_nat by metis

lemma segments_unique:
  assumes "segments bound live input segs rest" "segments bound live input segs' rest'"
  shows "segs = segs' \<and> rest = rest'"
  using assms
proof (induction arbitrary: segs' rest' rule: segments.induct)
  case (stop rest)
  from stop.prems show ?case
    by (cases rule: segments.cases) (use stop.hyps in \<open>auto simp: first_end_def\<close>)
next
  case (cut input n segs rest)
  have "input \<noteq> []" using cut.hyps(2) by (auto simp: first_end_def)
  from cut.prems show ?case
  proof (cases rule: segments.cases)
    case stop
    then show ?thesis using cut.hyps(1) \<open>input \<noteq> []\<close> by simp
  next
    case (cut n' segs'')
    then have "n' = n" using first_end_unique cut.hyps(2) by metis
    then show ?thesis using cut cut.IH by auto
  qed
qed

section \<open>What the loops over the keystrokes return\<close>

lemma tree_bindings_for_input_eq:
  assumes "path_in_tree t path"
  shows "tree_bindings_for_input ops target_os km t input path =
     (let (bindings, partial) = bindings_for_input ops target_os km input (contexts_of t path) in
      Some (bindings, partial, contexts_of t path))"
  by (simp add: tree_bindings_for_input_def path_contexts_eq [OF assms])

lemma longest_bound_eq:
  assumes "path_in_tree t path"
  shows "longest_bound ops target_os km t input path ends =
     Some (map_option (\<lambda>e. (e, fst (bindings_for_input ops target_os km (take (Suc e) input) (contexts_of t path))))
       (find (\<lambda>e. fst (bindings_for_input ops target_os km (take (Suc e) input) (contexts_of t path)) \<noteq> []) ends))"
  by (induction ends) (auto simp: tree_bindings_for_input_eq [OF assms] case_prod_beta Let_def)

text \<open>The bound inputs at a path, and the inputs that end the cutting when a key follows.\<close>

definition is_bound where
  "is_bound ops target_os km contexts input \<longleftrightarrow> fst (bindings_for_input ops target_os km input contexts) \<noteq> []"

definition is_live where
  "is_live ops target_os km contexts key input \<longleftrightarrow>
     is_bound ops target_os km contexts (input @ [key]) \<or> snd (bindings_for_input ops target_os km (input @ [key]) contexts)"

definition replay_of where
  "replay_of ops target_os km contexts seg =
     \<lparr>replay_keystroke = last seg, replay_bindings = fst (bindings_for_input ops target_os km seg contexts)\<rparr>"

lemma find_rev_upt:
  assumes "find P (rev [0..<n]) = Some e"
  shows "e < n \<and> P e \<and> (\<forall>m. e < m \<and> m < n \<longrightarrow> \<not> P m)"
  using assms
  by (induction n) (auto split: if_splits simp: less_Suc_eq)

lemma find_rev_upt_None: "find P (rev [0..<n]) = None \<longleftrightarrow> (\<forall>m < n. \<not> P m)"
  by (auto simp: find_None_iff)

lemma replay_prefix_cut:
  assumes path: "path_in_tree t path" and "input \<noteq> []"
  obtains n where "first_end (is_bound ops target_os km (contexts_of t path)) input n"
    and "replay_prefix ops target_os km t input path =
           Some (drop n input, [replay_of ops target_os km (contexts_of t path) (take n input)])"
proof -
  let ?b = "\<lambda>e. is_bound ops target_os km (contexts_of t path) (take (Suc e) input)"
  have lb: "longest_bound ops target_os km t input path (rev [0..<length input]) =
      Some (map_option (\<lambda>e. (e, fst (bindings_for_input ops target_os km (take (Suc e) input) (contexts_of t path))))
        (find ?b (rev [0..<length input])))"
    unfolding longest_bound_eq [OF path] is_bound_def ..
  show ?thesis
  proof (cases "find ?b (rev [0..<length input])")
    case None
    then have none: "\<not> is_bound ops target_os km (contexts_of t path) (take m input)"
      if "0 < m" "m \<le> length input" for m
      using that unfolding find_rev_upt_None by (cases m) auto
    obtain k rest where input: "input = k # rest" using \<open>input \<noteq> []\<close> by (cases input) auto
    have "first_end (is_bound ops target_os km (contexts_of t path)) input 1"
      using none input by (simp add: first_end_def none_after_def)
    moreover have "fst (bindings_for_input ops target_os km [k] (contexts_of t path)) = []"
      using none [of 1] input by (simp add: is_bound_def)
    then have "replay_prefix ops target_os km t input path =
        Some (drop 1 input, [replay_of ops target_os km (contexts_of t path) (take 1 input)])"
      using lb None by (simp add: replay_prefix_def input replay_of_def del: upt_Suc)
    ultimately show ?thesis by (rule that)
  next
    case (Some e)
    note e = find_rev_upt [OF Some]
    have "\<not> is_bound ops target_os km (contexts_of t path) (take m input)"
      if "Suc e < m" "m \<le> length input" for m
      using that e by (cases m) auto
    then have "first_end (is_bound ops target_os km (contexts_of t path)) input (Suc e)"
      using e by (simp add: first_end_def none_after_def)
    moreover have "replay_prefix ops target_os km t input path =
        Some (drop (Suc e) input, [replay_of ops target_os km (contexts_of t path) (take (Suc e) input)])"
      using lb Some e by (simp add: replay_prefix_def replay_of_def take_Suc_conv_app_nth del: upt_Suc)
    ultimately show ?thesis by (rule that)
  qed
qed

text \<open>The result of \<open>dispatch_key\<close> when the input is cut into \<open>segs\<close> and \<open>rest\<close>.\<close>

definition dispatch_outcome where
  "dispatch_outcome ops target_os km contexts key segs rest =
     (let (bindings, pending) = bindings_for_input ops target_os km (rest @ [key]) contexts in
      \<lparr>dr_pending = (if pending then rest @ [key] else []),
       dr_pending_has_binding = (pending \<and> bindings \<noteq> []),
       dr_bindings = (if pending then [] else bindings),
       dr_to_replay = map (replay_of ops target_os km contexts) segs,
       dr_context_stack = contexts\<rparr>)"

lemma dispatch_outcome_cons:
  "(dispatch_outcome ops target_os km contexts key segs rest)\<lparr>dr_to_replay :=
      replay_of ops target_os km contexts seg # dr_to_replay (dispatch_outcome ops target_os km contexts key segs rest)\<rparr> =
   dispatch_outcome ops target_os km contexts key (seg # segs) rest"
  by (simp add: dispatch_outcome_def case_prod_beta Let_def)

lemma dispatch_key_live:
  assumes path: "path_in_tree t path"
    and live: "is_live ops target_os km (contexts_of t path) key input \<or> input = []"
  shows "dispatch_key ops target_os km t input key path =
    Some (dispatch_outcome ops target_os km (contexts_of t path) key [] input)"
  using live
  by (subst dispatch_key.simps)
     (auto simp: tree_bindings_for_input_eq [OF path] case_prod_beta Let_def dispatch_outcome_def
        dispatch_result_default_def is_live_def is_bound_def)

lemma dispatch_key_cut:
  assumes path: "path_in_tree t path"
    and dead: "\<not> is_live ops target_os km (contexts_of t path) key input" and "input \<noteq> []"
    and rp: "replay_prefix ops target_os km t input path = Some (suffix, replays)"
  shows "dispatch_key ops target_os km t input key path =
    map_option (\<lambda>r. r\<lparr>dr_to_replay := replays @ dr_to_replay r\<rparr>) (dispatch_key ops target_os km t suffix key path)"
  using dead \<open>input \<noteq> []\<close>
  by (subst dispatch_key.simps)
     (auto simp: tree_bindings_for_input_eq [OF path] case_prod_beta Let_def rp is_live_def is_bound_def
        map_option_case split: option.split)

lemma dispatch_key_segments_exist:
  assumes path: "path_in_tree t path"
  shows "\<exists>segs rest.
    segments (is_bound ops target_os km (contexts_of t path)) (is_live ops target_os km (contexts_of t path) key) input segs rest \<and>
    dispatch_key ops target_os km t input key path =
      Some (dispatch_outcome ops target_os km (contexts_of t path) key segs rest)"
proof (induction input rule: length_induct)
  case (1 input)
  let ?bound = "is_bound ops target_os km (contexts_of t path)"
  let ?live = "is_live ops target_os km (contexts_of t path) key"
  show ?case
  proof (cases "?live input \<or> input = []")
    case True
    then show ?thesis using segments.stop [of ?live input ?bound] dispatch_key_live [OF path] by blast
  next
    case False
    then obtain n where n: "first_end ?bound input n"
      and rp: "replay_prefix ops target_os km t input path =
        Some (drop n input, [replay_of ops target_os km (contexts_of t path) (take n input)])"
      using replay_prefix_cut [OF path] by metis
    have "0 < n" "input \<noteq> []" using n by (auto simp: first_end_def)
    then have "length (drop n input) < length input" by simp
    then obtain segs rest where IH: "segments ?bound ?live (drop n input) segs rest"
      "dispatch_key ops target_os km t (drop n input) key path =
         Some (dispatch_outcome ops target_os km (contexts_of t path) key segs rest)"
      using 1 by blast
    have "segments ?bound ?live input (take n input # segs) rest"
      using False n IH(1) by (blast intro: segments.cut)
    moreover have "dispatch_key ops target_os km t input key path =
        Some (dispatch_outcome ops target_os km (contexts_of t path) key (take n input # segs) rest)"
      using dispatch_key_cut [OF path _ _ rp] False
      by (simp add: IH(2) flip: dispatch_outcome_cons)
    ultimately show ?thesis by blast
  qed
qed

lemma dispatch_key_segments:
  assumes "path_in_tree t path"
    and "segments (is_bound ops target_os km (contexts_of t path)) (is_live ops target_os km (contexts_of t path) key)
           input segs rest"
  shows "dispatch_key ops target_os km t input key path =
    Some (dispatch_outcome ops target_os km (contexts_of t path) key segs rest)"
  using dispatch_key_segments_exist [OF assms(1)] segments_unique [OF assms(2)] by metis

text \<open>\<open>flush_dispatch\<close> cuts all of the input; an empty one is a panic.\<close>

lemma flush_dispatch_segments:
  assumes path: "path_in_tree t path" and "input \<noteq> []"
  shows "\<exists>segs. segments (is_bound ops target_os km (contexts_of t path)) (\<lambda>_. False) input segs [] \<and>
    flush_dispatch ops target_os km t input path = Some (map (replay_of ops target_os km (contexts_of t path)) segs)"
  using \<open>input \<noteq> []\<close>
proof (induction input rule: length_induct)
  case (1 input)
  let ?bound = "is_bound ops target_os km (contexts_of t path)"
  obtain n where n: "first_end ?bound input n"
    and rp: "replay_prefix ops target_os km t input path =
      Some (drop n input, [replay_of ops target_os km (contexts_of t path) (take n input)])"
    using replay_prefix_cut [OF path] \<open>input \<noteq> []\<close> by metis
  show ?case
  proof (cases "drop n input = []")
    case True
    then have "segments ?bound (\<lambda>_. False) (drop n input) [] []" by (simp add: segments.stop)
    then have "segments ?bound (\<lambda>_. False) input [take n input] []"
      using n by (blast intro: segments.cut)
    then show ?thesis using True by (subst flush_dispatch.simps) (auto simp: rp)
  next
    case False
    have "0 < n" "input \<noteq> []" using n by (auto simp: first_end_def)
    then have "length (drop n input) < length input" by simp
    then obtain segs where IH: "segments ?bound (\<lambda>_. False) (drop n input) segs []"
      "flush_dispatch ops target_os km t (drop n input) path =
         Some (map (replay_of ops target_os km (contexts_of t path)) segs)"
      using 1 False by blast
    have "segments ?bound (\<lambda>_. False) input (take n input # segs) []"
      using n IH(1) by (blast intro: segments.cut)
    moreover have "flush_dispatch ops target_os km t input path =
        Some (map (replay_of ops target_os km (contexts_of t path)) (take n input # segs))"
      using False by (subst flush_dispatch.simps) (simp add: rp IH(2))
    ultimately show ?thesis by blast
  qed
qed

lemma flush_dispatch_empty: "flush_dispatch ops target_os km t [] path = None"
  by (subst flush_dispatch.simps) (simp add: replay_prefix_def)

end
