(* ===== verification/Key_Dispatch_Stack.thy ===== *)
theory Key_Dispatch_Stack
  imports Key_Dispatch_Correct
begin

text \<open>
  The invariant of the dispatch tree: parents come before their children, the node stack is the
  chain of parents of its top, the context and view stacks are those of its nodes, and the maps
  by focus handle and by view lead to nodes with that handle and view.
\<close>

section \<open>Chains of parents\<close>

fun chain_from :: "'l dispatch_node list \<Rightarrow> nat option \<Rightarrow> nat list \<Rightarrow> bool" where
  "chain_from ns p [] = True"
| "chain_from ns p (i # is) = (i < length ns \<and> dn_parent (ns ! i) = p \<and> chain_from ns (Some i) is)"

definition parents_below :: "'l dispatch_node list \<Rightarrow> bool" where
  "parents_below ns = (\<forall>i < length ns. case dn_parent (ns ! i) of None \<Rightarrow> True | Some p \<Rightarrow> p < i)"

lemma parents_belowD: "parents_below ns \<Longrightarrow> i < length ns \<Longrightarrow> dn_parent (ns ! i) = Some p \<Longrightarrow> p < i"
  by (auto simp: parents_below_def split: option.splits)

lemma chain_from_append:
  "chain_from ns p (is @ js) \<longleftrightarrow>
     chain_from ns p is \<and> chain_from ns (if is = [] then p else Some (last is)) js"
  by (induction "is" arbitrary: p) auto

lemma chain_from_lt: "chain_from ns p is \<Longrightarrow> i \<in> set is \<Longrightarrow> i < length ns"
  by (induction "is" arbitrary: p) auto

lemma chain_from_cong:
  assumes "chain_from ns p is" "length ns \<le> length ms"
    and "\<And>i. i \<in> set is \<Longrightarrow> dn_parent (ms ! i) = dn_parent (ns ! i)"
  shows "chain_from ms p is"
  using assms by (induction "is" arbitrary: p) auto

lemma chain_from_sorted:
  assumes "parents_below ns" "chain_from ns p is"
  shows "sorted_wrt (<) is \<and> (case p of None \<Rightarrow> True | Some q \<Rightarrow> list_all (\<lambda>i. q < i) is)"
  using assms(2)
proof (induction "is" arbitrary: p)
  case (Cons i "is")
  then have IH: "sorted_wrt (<) is" "list_all (\<lambda>j. i < j) is" by fastforce+
  have "q < i" if "p = Some q" for q
    using Cons.prems that assms(1) by (auto dest: parents_belowD)
  then show ?case using IH by (auto simp: list_all_iff split: option.splits)
qed (simp split: option.split)

lemma chain_from_distinct: "parents_below ns \<Longrightarrow> chain_from ns p is \<Longrightarrow> distinct is"
  using chain_from_sorted strict_sorted_iff by blast

text \<open>The chain to a node is unique.\<close>

lemma chain_from_unique:
  assumes "chain_from ns None is" "chain_from ns None js" "is \<noteq> []" "js \<noteq> []" "last is = last js"
    and "parents_below ns"
  shows "is = js"
  using assms(1-5)
proof (induction "is" arbitrary: js rule: rev_induct)
  case (snoc i "is")
  obtain js' where js: "js = js' @ [i]" using snoc.prems by (metis append_butlast_last_id last_snoc)
  have par: "dn_parent (ns ! i) = (if is = [] then None else Some (last is))"
    "dn_parent (ns ! i) = (if js' = [] then None else Some (last js'))"
    "chain_from ns None is" "chain_from ns None js'"
    using snoc.prems by (auto simp: chain_from_append js)
  then show ?case using snoc.IH [of js'] js by (auto split: if_splits)
qed simp

section \<open>The invariant\<close>

definition contexts_on :: "'l dispatch_node list \<Rightarrow> nat list \<Rightarrow> key_context list" where
  "contexts_on ns is = List.map_filter (\<lambda>i. dn_context (ns ! i)) is"

definition views_on :: "'l dispatch_node list \<Rightarrow> nat list \<Rightarrow> nat list" where
  "views_on ns is = List.map_filter (\<lambda>i. dn_view_id (ns ! i)) is"

lemma contexts_on_simps [simp]:
  "contexts_on ns [] = []"
  "contexts_on ns (i # is) = (case dn_context (ns ! i) of None \<Rightarrow> [] | Some c \<Rightarrow> [c]) @ contexts_on ns is"
  "contexts_on ns (is @ js) = contexts_on ns is @ contexts_on ns js"
  by (auto simp: contexts_on_def List.map_filter_def split: option.split)

lemma views_on_simps [simp]:
  "views_on ns [] = []"
  "views_on ns (i # is) = (case dn_view_id (ns ! i) of None \<Rightarrow> [] | Some v \<Rightarrow> [v]) @ views_on ns is"
  "views_on ns (is @ js) = views_on ns is @ views_on ns js"
  by (auto simp: views_on_def List.map_filter_def split: option.split)

lemma contexts_on_cong: "(\<And>i. i \<in> set is \<Longrightarrow> dn_context (ms ! i) = dn_context (ns ! i)) \<Longrightarrow> contexts_on ms is = contexts_on ns is"
  by (induction "is") auto

lemma views_on_cong: "(\<And>i. i \<in> set is \<Longrightarrow> dn_view_id (ms ! i) = dn_view_id (ns ! i)) \<Longrightarrow> views_on ms is = views_on ns is"
  by (induction "is") auto

definition focus_map_ok :: "'l dispatch_tree \<Rightarrow> bool" where
  "focus_map_ok t = (\<forall>f i. focusable_node_ids t f = Some i \<longrightarrow>
     i < length (dt_nodes t) \<and> dn_focus_id (dt_nodes t ! i) = Some f)"

definition view_map_ok :: "'l dispatch_tree \<Rightarrow> bool" where
  "view_map_ok t = (\<forall>v i. view_node_ids t v = Some i \<longrightarrow>
     i < length (dt_nodes t) \<and> dn_view_id (dt_nodes t ! i) = Some v)"

definition stacks_ok :: "'l dispatch_tree \<Rightarrow> bool" where
  "stacks_ok t = (chain_from (dt_nodes t) None (node_stack t) \<and>
     context_stack t = contexts_on (dt_nodes t) (node_stack t) \<and>
     view_stack t = views_on (dt_nodes t) (node_stack t))"

definition dt_ok :: "'l dispatch_tree \<Rightarrow> bool" where
  "dt_ok t = (parents_below (dt_nodes t) \<and> stacks_ok t \<and> focus_map_ok t \<and> view_map_ok t)"

lemmas dt_ok_defs = dt_ok_def stacks_ok_def focus_map_ok_def view_map_ok_def

lemma dispatch_tree_new_ok: "dt_ok dispatch_tree_new"
  by (simp add: dt_ok_defs dispatch_tree_new_def parents_below_def)

lemma dispatch_tree_clear_ok: "dt_ok (dispatch_tree_clear t)"
  by (simp add: dt_ok_defs dispatch_tree_clear_def parents_below_def)

lemma dt_node_Some [simp]: "i < length (dt_nodes t) \<Longrightarrow> dt_node t i = Some (dt_nodes t ! i)"
  by (simp add: dt_node_def)

lemma vec_last_simps [simp]: "vec_last [] = None" "xs \<noteq> [] \<Longrightarrow> vec_last xs = Some (last xs)"
  by (simp_all add: vec_last_def)

lemma active_lt:
  assumes "dt_ok t" "node_stack t \<noteq> []"
  shows "last (node_stack t) < length (dt_nodes t)"
  using assms by (auto simp: dt_ok_defs intro: chain_from_lt)

section \<open>Every operation keeps it\<close>

lemma push_node_ok:
  assumes ok: "dt_ok t"
  shows "dt_ok (snd (push_node t))"
proof -
  have lt: "i < length (dt_nodes t)" if "i \<in> set (node_stack t)" for i
    using ok that by (auto simp: dt_ok_defs intro: chain_from_lt)
  have "last (node_stack t) < length (dt_nodes t)" if "node_stack t \<noteq> []"
    using active_lt [OF ok that] .
  then have below: "parents_below (dt_nodes t @ [node_default\<lparr>dn_parent := vec_last (node_stack t)\<rparr>])"
    using ok by (auto simp: dt_ok_def parents_below_def nth_append vec_last_def node_default_def less_Suc_eq
        split: option.splits)
  have chain: "chain_from (dt_nodes t @ [n]) None (node_stack t)" for n
    using ok by (auto simp: dt_ok_defs nth_append lt intro: chain_from_cong)
  have "contexts_on (dt_nodes t @ [n]) (node_stack t) = contexts_on (dt_nodes t) (node_stack t)"
    "views_on (dt_nodes t @ [n]) (node_stack t) = views_on (dt_nodes t) (node_stack t)" for n
    by (auto simp: nth_append lt intro: contexts_on_cong views_on_cong)
  then have "stacks_ok (snd (push_node t))"
    using ok chain by (auto simp: dt_ok_def stacks_ok_def push_node_def chain_from_append node_default_def
        vec_last_def Let_def)
  moreover have "focus_map_ok (snd (push_node t))" "view_map_ok (snd (push_node t))"
    using ok by (auto simp: dt_ok_def focus_map_ok_def view_map_ok_def push_node_def nth_append Let_def less_Suc_eq)
  ultimately show ?thesis using below by (simp add: dt_ok_def push_node_def Let_def)
qed

lemma snoc_stack:
  assumes "node_stack t \<noteq> []"
  obtains "is" i where "node_stack t = is @ [i]" "last (node_stack t) = i"
  using assms by (metis append_butlast_last_id last_snoc)

definition tree_popped :: "'l dispatch_tree \<Rightarrow> 'l dispatch_tree" where
  "tree_popped t = t\<lparr>context_stack := contexts_on (dt_nodes t) (butlast (node_stack t)),
     view_stack := views_on (dt_nodes t) (butlast (node_stack t)), node_stack := butlast (node_stack t)\<rparr>"

lemma tree_popped_simps [simp]:
  "node_stack (tree_popped t) = butlast (node_stack t)" "dt_nodes (tree_popped t) = dt_nodes t"
  "focusable_node_ids (tree_popped t) = focusable_node_ids t" "view_node_ids (tree_popped t) = view_node_ids t"
  by (simp_all add: tree_popped_def)

lemma pop_node_eq:
  assumes ok: "dt_ok t" and "node_stack t \<noteq> []"
  shows "pop_node t = Some (tree_popped t)"
proof -
  obtain "is" i where s: "node_stack t = is @ [i]" using assms(2) by (elim snoc_stack)
  have i: "i < length (dt_nodes t)" using active_lt [OF assms] s by simp
  have "context_stack t = contexts_on (dt_nodes t) is @ contexts_on (dt_nodes t) [i]"
    "view_stack t = views_on (dt_nodes t) is @ views_on (dt_nodes t) [i]"
    using ok s by (simp_all add: dt_ok_def stacks_ok_def)
  then show ?thesis using i
    by (auto simp: pop_node_def tree_popped_def active_node_id_def s split: option.splits)
qed

lemma tree_popped_ok:
  assumes "dt_ok t"
  shows "dt_ok (tree_popped t)"
proof (cases "node_stack t = []")
  case False
  then obtain "is" i where "node_stack t = is @ [i]" by (elim snoc_stack)
  then show ?thesis using assms
    by (simp add: dt_ok_def stacks_ok_def focus_map_ok_def view_map_ok_def tree_popped_def chain_from_append)
qed (use assms in \<open>simp add: dt_ok_def stacks_ok_def focus_map_ok_def view_map_ok_def tree_popped_def\<close>)

lemma pop_node_empty: "node_stack t = [] \<Longrightarrow> pop_node t = None"
  by (simp add: pop_node_def active_node_id_def)

text \<open>A change of the active node that keeps its parent.\<close>

lemma update_active:
  assumes ok: "dt_ok t" and s: "node_stack t = is @ [i]"
    and n: "dn_parent n = dn_parent (dt_nodes t ! i)"
  shows "parents_below ((dt_nodes t)[i := n])" "chain_from ((dt_nodes t)[i := n]) None (is @ [i])"
    "contexts_on ((dt_nodes t)[i := n]) is = contexts_on (dt_nodes t) is"
    "views_on ((dt_nodes t)[i := n]) is = views_on (dt_nodes t) is"
    "i < length (dt_nodes t)"
proof -
  show i: "i < length (dt_nodes t)" using active_lt [OF ok] s by simp
  show "parents_below ((dt_nodes t)[i := n])"
    using ok n i by (auto simp: dt_ok_def parents_below_def nth_list_update)
  have chain: "chain_from (dt_nodes t) None (is @ [i])" using ok s by (simp add: dt_ok_def stacks_ok_def)
  then show "chain_from ((dt_nodes t)[i := n]) None (is @ [i])"
    by (rule chain_from_cong) (auto simp: nth_list_update n i)
  have "i \<notin> set is" using chain_from_distinct [OF _ chain] ok by (simp add: dt_ok_def)
  then show "contexts_on ((dt_nodes t)[i := n]) is = contexts_on (dt_nodes t) is"
    "views_on ((dt_nodes t)[i := n]) is = views_on (dt_nodes t) is"
    by (auto simp: nth_list_update i intro: contexts_on_cong views_on_cong)
qed

lemma with_active_node_eq:
  assumes "dt_ok t" "node_stack t \<noteq> []"
  shows "with_active_node f t =
    Some (t\<lparr>dt_nodes := (dt_nodes t)[last (node_stack t) := f (dt_nodes t ! last (node_stack t))]\<rparr>)"
  using active_lt [OF assms] assms(2) by (simp add: with_active_node_def active_node_id_def)

definition active_node :: "'l dispatch_tree \<Rightarrow> 'l dispatch_node" where
  "active_node t = dt_nodes t ! last (node_stack t)"

lemma listeners_ok:
  assumes ok: "dt_ok t" and ne: "node_stack t \<noteq> []"
    and f: "\<And>n. dn_parent (f n) = dn_parent n" "\<And>n. dn_context (f n) = dn_context n"
      "\<And>n. dn_view_id (f n) = dn_view_id n" "\<And>n. dn_focus_id (f n) = dn_focus_id n"
  shows "\<exists>t'. with_active_node f t = Some t' \<and> dt_ok t' \<and> node_stack t' = node_stack t"
proof -
  obtain "is" i where s: "node_stack t = is @ [i]" using ne by (elim snoc_stack)
  note u = update_active [OF ok s, of "f (dt_nodes t ! i)", OF f(1)]
  show ?thesis
    using ok u s by (auto simp: with_active_node_eq [OF ok ne] dt_ok_defs nth_list_update f)
qed

lemma set_key_context_ok:
  assumes ok: "dt_ok t" and ne: "node_stack t \<noteq> []" and fresh: "dn_context (active_node t) = None"
  shows "\<exists>t'. set_key_context ctx t = Some t' \<and> dt_ok t' \<and> node_stack t' = node_stack t \<and>
    dt_nodes t' = (dt_nodes t)[last (node_stack t) := (active_node t)\<lparr>dn_context := Some ctx\<rparr>]"
proof -
  obtain "is" i where s: "node_stack t = is @ [i]" using ne by (elim snoc_stack)
  note u = update_active [OF ok s, of "(dt_nodes t ! i)\<lparr>dn_context := Some ctx\<rparr>"]
  show ?thesis
    using ok u s fresh
    by (auto simp: set_key_context_def with_active_node_eq [OF ok ne] dt_ok_defs nth_list_update active_node_def)
qed

lemma set_focus_id_ok:
  assumes ok: "dt_ok t" and ne: "node_stack t \<noteq> []"
    and fresh: "dn_focus_id (active_node t) = None \<or> dn_focus_id (active_node t) = Some focus"
  shows "\<exists>t'. set_focus_id focus t = Some t' \<and> dt_ok t' \<and> node_stack t' = node_stack t \<and>
    dt_nodes t' = (dt_nodes t)[last (node_stack t) := (active_node t)\<lparr>dn_focus_id := Some focus\<rparr>]"
proof -
  obtain "is" i where s: "node_stack t = is @ [i]" using ne by (elim snoc_stack)
  note u = update_active [OF ok s, of "(dt_nodes t ! i)\<lparr>dn_focus_id := Some focus\<rparr>"]
  show ?thesis
    using ok u s fresh
    by (auto simp: set_focus_id_def dt_ok_defs nth_list_update active_node_def)
qed

lemma set_view_id_ok:
  assumes ok: "dt_ok t" and ne: "node_stack t \<noteq> []" and fresh: "dn_view_id (active_node t) = None"
  shows "\<exists>t'. set_view_id view t = Some t' \<and> dt_ok t' \<and> node_stack t' = node_stack t \<and>
    dt_nodes t' = (if vec_last (view_stack t) = Some view then dt_nodes t
      else (dt_nodes t)[last (node_stack t) := (active_node t)\<lparr>dn_view_id := Some view\<rparr>])"
proof -
  obtain "is" i where s: "node_stack t = is @ [i]" using ne by (elim snoc_stack)
  note u = update_active [OF ok s, of "(dt_nodes t ! i)\<lparr>dn_view_id := Some view\<rparr>"]
  show ?thesis
    using ok u s fresh
    by (auto simp: set_view_id_def dt_ok_defs nth_list_update active_node_def)
qed

section \<open>Paths to the root\<close>

lemma dispatch_path_reversed_chain:
  assumes "parents_below (dt_nodes t)" "i < length (dt_nodes t)"
  shows "\<exists>is. dispatch_path_reversed t (Some i) = Some (rev (is @ [i])) \<and> chain_from (dt_nodes t) None (is @ [i])"
  using assms(2)
proof (induction i rule: less_induct)
  case (less i)
  show ?case
  proof (cases "dn_parent (dt_nodes t ! i)")
    case None
    have "dispatch_path_reversed t None = Some []" by (subst dispatch_path_reversed.simps) simp
    then show ?thesis using less.prems None
      by (intro exI [of _ "[]"]) (simp add: dispatch_path_reversed.simps [of t "Some i"])
  next
    case (Some p)
    then have "p < i" using assms(1) less.prems by (auto dest: parents_belowD)
    then obtain "is" where "dispatch_path_reversed t (Some p) = Some (rev (is @ [p]))"
      "chain_from (dt_nodes t) None (is @ [p])"
      using less by fastforce
    then show ?thesis using less.prems Some
      by (intro exI [of _ "is @ [p]"])
         (simp add: dispatch_path_reversed.simps [of t "Some i"] chain_from_append)
  qed
qed

lemma dispatch_path_chain:
  assumes "parents_below (dt_nodes t)" "i < length (dt_nodes t)"
  shows "\<exists>is. dispatch_path t i = Some (is @ [i]) \<and> chain_from (dt_nodes t) None (is @ [i])"
  using dispatch_path_reversed_chain [OF assms] by (auto simp: dispatch_path_def)

lemma dispatch_path_unique:
  assumes "parents_below (dt_nodes t)" "chain_from (dt_nodes t) None (is @ [i])"
  shows "dispatch_path t i = Some (is @ [i])"
proof -
  have "i < length (dt_nodes t)" using assms(2) by (auto intro: chain_from_lt)
  then obtain js where js: "dispatch_path t i = Some (js @ [i])" "chain_from (dt_nodes t) None (js @ [i])"
    using dispatch_path_chain assms(1) by blast
  then have "js @ [i] = is @ [i]"
    using assms by (intro chain_from_unique) auto
  with js show ?thesis by simp
qed

text \<open>The loops that index the vector return as well, with what the nodes of the path carry.\<close>

definition focus_on :: "'l dispatch_node list \<Rightarrow> nat list \<Rightarrow> nat list" where
  "focus_on ns is = List.map_filter (\<lambda>i. dn_focus_id (ns ! i)) is"

lemma focus_path_reversed_chain:
  assumes "chain_from (dt_nodes t) None is"
  shows "focus_path_reversed t (vec_last is) = Some (rev (focus_on (dt_nodes t) is))"
  using assms
proof (induction "is" rule: rev_induct)
  case Nil
  show ?case by (subst focus_path_reversed.simps) (simp add: focus_on_def List.map_filter_def)
next
  case (snoc i "is")
  then have "i < length (dt_nodes t)" "dn_parent (dt_nodes t ! i) = vec_last is"
    by (auto simp: chain_from_append vec_last_def)
  then show ?case using snoc
    by (subst focus_path_reversed.simps)
       (auto simp: chain_from_append focus_on_def List.map_filter_def split: option.split)
qed

lemma view_path_from_chain:
  assumes "chain_from (dt_nodes t) None is"
  shows "view_path_from t (vec_last is) = Some (rev (views_on (dt_nodes t) is))"
  using assms
proof (induction "is" rule: rev_induct)
  case Nil
  show ?case by (subst view_path_from.simps) simp
next
  case (snoc i "is")
  then have "i < length (dt_nodes t)" "dn_parent (dt_nodes t ! i) = vec_last is"
    by (auto simp: chain_from_append vec_last_def)
  then show ?case using snoc
    by (subst view_path_from.simps) (auto simp: chain_from_append split: option.split)
qed

lemma climbs_to_chain:
  assumes "chain_from (dt_nodes t) None is"
  shows "climbs_to t p (vec_last is) = Some (p \<in> set is)"
  using assms
proof (induction "is" rule: rev_induct)
  case Nil
  show ?case by (subst climbs_to.simps) simp
next
  case (snoc i "is")
  then have "i < length (dt_nodes t)" "dn_parent (dt_nodes t ! i) = vec_last is"
    by (auto simp: chain_from_append vec_last_def)
  then show ?case using snoc
    by (subst climbs_to.simps) (auto simp: chain_from_append)
qed

section \<open>Moving to a node\<close>

text \<open>The stacks that lead to a node, whatever they were before.\<close>

definition moved_to :: "'l dispatch_tree \<Rightarrow> nat list \<Rightarrow> 'l dispatch_tree" where
  "moved_to t is = t\<lparr>node_stack := is, context_stack := contexts_on (dt_nodes t) is,
     view_stack := views_on (dt_nodes t) is\<rparr>"

lemma moved_to_simps [simp]:
  "dt_nodes (moved_to t is) = dt_nodes t" "node_stack (moved_to t is) = is"
  "moved_to (moved_to t is) js = moved_to t js"
  by (simp_all add: moved_to_def)

lemma moved_to_self: "dt_ok t \<Longrightarrow> moved_to t (node_stack t) = t"
  by (simp add: moved_to_def dt_ok_def stacks_ok_def)

lemma tree_popped_moved_to: "tree_popped t = moved_to t (butlast (node_stack t))"
  by (simp add: tree_popped_def moved_to_def)

lemma moved_to_ok: "dt_ok t \<Longrightarrow> chain_from (dt_nodes t) None is \<Longrightarrow> dt_ok (moved_to t is)"
  by (simp add: dt_ok_defs moved_to_def)

lemma pop_until_eq:
  assumes "dt_ok t"
  shows "\<exists>is js. node_stack t = is @ js \<and> (is = [] \<or> vec_last is = p) \<and>
    pop_until p t = Some (moved_to t is)"
  using assms
proof (induction "node_stack t" arbitrary: t rule: rev_induct)
  case Nil
  then have "moved_to t [] = t" using moved_to_self [of t] by simp
  then show ?case using Nil by (subst pop_until.simps) simp
next
  case (snoc i "is")
  show ?case
  proof (cases "vec_last (node_stack t) = p")
    case True
    then show ?thesis using moved_to_self [OF snoc.prems]
      by (intro exI [of _ "node_stack t"] exI [of _ "[]"]) (simp add: pop_until.simps [of p t])
  next
    case False
    have pop: "pop_node t = Some (tree_popped t)" "is = node_stack (tree_popped t)" "dt_ok (tree_popped t)"
      using snoc.hyps(2) snoc.prems by (auto simp: pop_node_eq tree_popped_ok simp flip: snoc.hyps(2))
    then obtain ks js where "is = ks @ js" "ks = [] \<or> vec_last ks = p"
      "pop_until p (tree_popped t) = Some (moved_to (tree_popped t) ks)"
      using snoc.hyps(1) by metis
    then show ?thesis using False pop(1) snoc.hyps(2)
      by (intro exI [of _ ks] exI [of _ "js @ [i]"])
         (simp add: pop_until.simps [of p t] tree_popped_moved_to flip: snoc.hyps(2))
  qed
qed

lemma climb_eq:
  assumes "chain_from (dt_nodes t) None is"
  shows "climb (vec_last is) t = Some (t\<lparr>node_stack := node_stack t @ rev is,
    context_stack := context_stack t @ rev (contexts_on (dt_nodes t) is),
    view_stack := view_stack t @ rev (views_on (dt_nodes t) is)\<rparr>)"
  using assms
proof (induction "is" arbitrary: t rule: rev_induct)
  case Nil
  show ?case by (subst climb.simps) simp
next
  case (snoc i "is")
  then have i: "i < length (dt_nodes t)" "dn_parent (dt_nodes t ! i) = vec_last is"
    "chain_from (dt_nodes t) None is"
    by (auto simp: chain_from_append vec_last_def)
  show ?case using i
    by (subst climb.simps) (auto simp: snoc.IH Let_def split: option.split)
qed

lemma set_active_node_eq:
  assumes ok: "dt_ok t" and i: "i < length (dt_nodes t)"
  shows "\<exists>is. dispatch_path t i = Some is \<and> chain_from (dt_nodes t) None is \<and>
    set_active_node i t = Some (moved_to t is)"
proof -
  have below: "parents_below (dt_nodes t)" using ok by (simp add: dt_ok_def)
  obtain "is" where path: "dispatch_path t i = Some (is @ [i])" "chain_from (dt_nodes t) None (is @ [i])"
    using dispatch_path_chain [OF below i] by blast
  then have par: "dn_parent (dt_nodes t ! i) = vec_last is" by (auto simp: chain_from_append vec_last_def)
  obtain ks js where st: "node_stack t = ks @ js" "ks = [] \<or> vec_last ks = vec_last is"
    and pu: "pop_until (vec_last is) t = Some (moved_to t ks)"
    using pop_until_eq [OF ok] by metis
  have "set_active_node i t = Some (moved_to t (is @ [i]))"
  proof (cases "vec_last ks = vec_last is")
    case True
    have "ks = is"
    proof (cases "is = []")
      case False
      have "chain_from (dt_nodes t) None ks"
        using ok st(1) by (simp add: dt_ok_def stacks_ok_def chain_from_append)
      then show ?thesis using True False below path(2)
        by (intro chain_from_unique) (auto simp: chain_from_append vec_last_def split: if_splits)
    qed (use True in \<open>auto simp: vec_last_def split: if_splits\<close>)
    then show ?thesis using i par pu
      by (auto simp: set_active_node_def moved_to_def dt_node_def Let_def split: option.split)
  next
    case False
    then have "ks = []" using st(2) by simp
    then show ?thesis using False i par pu climb_eq [of "moved_to t []" "is @ [i]"] path(2)
      by (auto simp: set_active_node_def moved_to_def)
  qed
  then show ?thesis using path by blast
qed

section \<open>Truncation\<close>

lemma forget_node_simps [simp]:
  "dt_nodes (forget_node n t) = dt_nodes t" "node_stack (forget_node n t) = node_stack t"
  "context_stack (forget_node n t) = context_stack t" "view_stack (forget_node n t) = view_stack t"
  "focusable_node_ids (forget_node n t) f = (if dn_focus_id n = Some f then None else focusable_node_ids t f)"
  "view_node_ids (forget_node n t) v = (if dn_view_id n = Some v then None else view_node_ids t v)"
  by (auto simp: forget_node_def Let_def split: option.splits)

lemma forget_nodes_simps [simp]:
  "dt_nodes (fold forget_node ns t) = dt_nodes t" "node_stack (fold forget_node ns t) = node_stack t"
  "context_stack (fold forget_node ns t) = context_stack t" "view_stack (fold forget_node ns t) = view_stack t"
  "focusable_node_ids (fold forget_node ns t) f =
     (if \<exists>n \<in> set ns. dn_focus_id n = Some f then None else focusable_node_ids t f)"
  "view_node_ids (fold forget_node ns t) v =
     (if \<exists>n \<in> set ns. dn_view_id n = Some v then None else view_node_ids t v)"
  by (induction ns arbitrary: t) auto

lemma in_dropD:
  assumes "k \<le> i" "i < length xs" shows "xs ! i \<in> set (drop k xs)"
  using assms by (auto simp: in_set_conv_nth intro: exI [of _ "i - k"])

lemma tree_truncate_ok:
  assumes ok: "dt_ok t" and k: "k \<le> length (dt_nodes t)" and st: "list_all (\<lambda>i. i < k) (node_stack t)"
  shows "\<exists>t'. tree_truncate k t = Some t' \<and> dt_ok t' \<and> dt_nodes t' = take k (dt_nodes t) \<and>
    node_stack t' = node_stack t"
proof -
  let ?t = "(fold forget_node (drop k (dt_nodes t)) t)\<lparr>dt_nodes := take k (dt_nodes t)\<rparr>"
  have lt: "i < k" if "i \<in> set (node_stack t)" for i using st that by (simp add: list_all_iff)
  have chain_take: "chain_from (take k ns) p is"
    if "chain_from ns p is" "\<And>i. i \<in> set is \<Longrightarrow> i < k" for ns :: "'l dispatch_node list" and p "is"
    using that by (induction "is" arbitrary: p) auto
  have "parents_below (dt_nodes ?t)" using ok by (simp add: dt_ok_def parents_below_def)
  moreover have "stacks_ok ?t"
    using ok lt by (auto simp: dt_ok_def stacks_ok_def intro!: chain_take contexts_on_cong [symmetric] views_on_cong [symmetric])
  moreover have "focus_map_ok ?t"
    unfolding focus_map_ok_def
  proof (intro allI impI)
    fix f i assume i: "focusable_node_ids ?t f = Some i"
    then have a: "i < length (dt_nodes t)" "dn_focus_id (dt_nodes t ! i) = Some f"
      using ok by (auto simp: dt_ok_def focus_map_ok_def split: if_splits)
    then have "i < k" using i in_dropD [of k i "dt_nodes t"] by (force split: if_splits)
    then show "i < length (dt_nodes ?t) \<and> dn_focus_id (dt_nodes ?t ! i) = Some f" using a k by simp
  qed
  moreover have "view_map_ok ?t"
    unfolding view_map_ok_def
  proof (intro allI impI)
    fix v i assume i: "view_node_ids ?t v = Some i"
    then have a: "i < length (dt_nodes t)" "dn_view_id (dt_nodes t ! i) = Some v"
      using ok by (auto simp: dt_ok_def view_map_ok_def split: if_splits)
    then have "i < k" using i in_dropD [of k i "dt_nodes t"] by (force split: if_splits)
    then show "i < length (dt_nodes ?t) \<and> dn_view_id (dt_nodes ?t ! i) = Some v" using a k by simp
  qed
  ultimately show ?thesis using k by (simp add: tree_truncate_def dt_ok_def)
qed

end
