(* ===== verification/Key_Dispatch_Reuse.thy ===== *)
theory Key_Dispatch_Reuse
  imports Key_Dispatch_Stack
begin

text \<open>
  Reusing a subtree of the previous frame: the nodes of a range that lists a subtree with
  parents first and each subtree in one piece are copied with the same parents.
\<close>

section \<open>Moving one node\<close>

definition moved_copy :: "'l dispatch_node \<Rightarrow> nat option \<Rightarrow> nat option \<Rightarrow> 'l dispatch_node" where
  "moved_copy source parent top_view = source\<lparr>dn_parent := parent,
     dn_view_id := (if dn_view_id source = top_view then None else dn_view_id source)\<rparr>"

lemma moved_copy_simps [simp]:
  "dn_parent (moved_copy n p v) = p" "dn_context (moved_copy n p v) = dn_context n"
  "dn_focus_id (moved_copy n p v) = dn_focus_id n" "key_listeners (moved_copy n p v) = key_listeners n"
  "action_listeners (moved_copy n p v) = action_listeners n"
  "modifiers_changed_listeners (moved_copy n p v) = modifiers_changed_listeners n"
  by (simp_all add: moved_copy_def)

text \<open>The effect of the calls of \<open>move_node\<close> one after the other, on the last node.\<close>

lemma push_node_eq:
  "dt_nodes (snd (push_node t)) = dt_nodes t @ [node_default\<lparr>dn_parent := vec_last (node_stack t)\<rparr>]"
  "node_stack (snd (push_node t)) = node_stack t @ [length (dt_nodes t)]"
  "view_stack (snd (push_node t)) = view_stack t"
  by (simp_all add: push_node_def Let_def)

definition on_last :: "'l dispatch_tree \<Rightarrow> 'l dispatch_tree \<Rightarrow> 'l dispatch_node \<Rightarrow> bool" where
  "on_last t t' n = (dt_ok t' \<and> node_stack t' = node_stack t @ [length (dt_nodes t)] \<and> dt_nodes t' = dt_nodes t @ [n])"

lemma on_last_simps:
  assumes "on_last t t' n"
  shows "dt_ok t'" "node_stack t' \<noteq> []" "active_node t' = n" "last (node_stack t') = length (dt_nodes t)"
    "(dt_nodes t')[length (dt_nodes t) := m] = dt_nodes t @ [m]"
  using assms by (auto simp: on_last_def active_node_def list_update_append)

lemma move_context:
  assumes "on_last t t' n" "dn_context n = None"
  shows "\<exists>t''. (case c of Some ctx \<Rightarrow> set_key_context ctx t' | None \<Rightarrow> Some t') = Some t'' \<and>
    on_last t t'' (n\<lparr>dn_context := c\<rparr>) \<and> (dt_ok t' \<longrightarrow> view_stack t'' = view_stack t')"
proof (cases c)
  case None
  have e: "n\<lparr>dn_context := None\<rparr> = n" using assms(2) by simp
  show ?thesis using None assms by (simp add: e)
next
  case (Some ctx)
  note o = on_last_simps [OF assms(1)]
  obtain t'' where "set_key_context ctx t' = Some t''" "dt_ok t''" "node_stack t'' = node_stack t'"
    "dt_nodes t'' = (dt_nodes t')[last (node_stack t') := (active_node t')\<lparr>dn_context := Some ctx\<rparr>]"
    using set_key_context_ok [OF o(1,2), of ctx] o(3) assms(2) by auto
  moreover from this(1) have "view_stack t'' = view_stack t'"
    by (auto simp: set_key_context_def with_active_node_def split: bind_splits)
  ultimately show ?thesis using o assms(1) Some by (auto simp: on_last_def)
qed

lemma move_focus:
  assumes "on_last t t' n" "dn_focus_id n = None"
  shows "\<exists>t''. (case f of Some f \<Rightarrow> set_focus_id f t' | None \<Rightarrow> Some t') = Some t'' \<and>
    on_last t t'' (n\<lparr>dn_focus_id := f\<rparr>) \<and> view_stack t'' = view_stack t'"
proof (cases f)
  case None
  have e: "n\<lparr>dn_focus_id := None\<rparr> = n" using assms(2) by simp
  show ?thesis using None assms by (simp add: e)
next
  case (Some f)
  note o = on_last_simps [OF assms(1)]
  obtain t'' where "set_focus_id f t' = Some t''" "dt_ok t''" "node_stack t'' = node_stack t'"
    "dt_nodes t'' = (dt_nodes t')[last (node_stack t') := (active_node t')\<lparr>dn_focus_id := Some f\<rparr>]"
    using set_focus_id_ok [OF o(1,2), of f] o(3) assms(2) by auto
  moreover from this(1) have "view_stack t'' = view_stack t'"
    by (auto simp: set_focus_id_def split: bind_splits)
  ultimately show ?thesis using o assms(1) Some by (auto simp: on_last_def)
qed

lemma move_view:
  assumes "on_last t t' n" "dn_view_id n = None"
  shows "\<exists>t''. (case v of Some v \<Rightarrow> set_view_id v t' | None \<Rightarrow> Some t') = Some t'' \<and>
    on_last t t'' (n\<lparr>dn_view_id := (if v = vec_last (view_stack t') then None else v)\<rparr>)"
proof (cases v)
  case None
  have e: "n\<lparr>dn_view_id := None\<rparr> = n" using assms(2) by simp
  show ?thesis using None assms by (simp add: e cong: if_cong)
next
  case (Some v)
  note o = on_last_simps [OF assms(1)]
  have e: "n\<lparr>dn_view_id := None\<rparr> = n" using assms(2) by simp
  obtain t'' where "set_view_id v t' = Some t''" "dt_ok t''" "node_stack t'' = node_stack t'"
    "dt_nodes t'' = (if vec_last (view_stack t') = Some v then dt_nodes t'
      else (dt_nodes t')[last (node_stack t') := (active_node t')\<lparr>dn_view_id := Some v\<rparr>])"
    using set_view_id_ok [OF o(1,2), of v] o(3) assms(2) by auto
  then show ?thesis using o assms(1) Some by (auto simp: on_last_def e split: if_splits)
qed

lemma move_node_eq:
  assumes ok: "dt_ok t"
  shows "\<exists>t'. move_node source t = Some t' \<and>
    on_last t t' (moved_copy source (vec_last (node_stack t)) (vec_last (view_stack t)))"
proof -
  let ?n = "node_default\<lparr>dn_parent := vec_last (node_stack t)\<rparr>"
  let ?v = "if dn_view_id source = vec_last (view_stack t) then None else dn_view_id source"
  have 0: "on_last t (snd (push_node t)) ?n"
    using push_node_ok [OF ok] by (simp add: on_last_def push_node_eq)
  obtain t1 where 1: "(case dn_context source of Some ctx \<Rightarrow> set_key_context ctx (snd (push_node t)) | None \<Rightarrow> Some (snd (push_node t))) = Some t1"
      "on_last t t1 (?n\<lparr>dn_context := dn_context source\<rparr>)" "view_stack t1 = view_stack t"
    using move_context [OF 0] on_last_simps(1) [OF 0] by (auto simp: node_default_def push_node_eq)
  obtain t2 where 2: "(case dn_focus_id source of Some f \<Rightarrow> set_focus_id f t1 | None \<Rightarrow> Some t1) = Some t2"
      "on_last t t2 (?n\<lparr>dn_context := dn_context source, dn_focus_id := dn_focus_id source\<rparr>)" "view_stack t2 = view_stack t"
    using move_focus [OF 1(2)] 1(3) by (auto simp: node_default_def)
  obtain t3 where 3: "(case dn_view_id source of Some v \<Rightarrow> set_view_id v t2 | None \<Rightarrow> Some t2) = Some t3"
      "on_last t t3 (?n\<lparr>dn_context := dn_context source, dn_focus_id := dn_focus_id source, dn_view_id := ?v\<rparr>)"
    using move_view [OF 2(2)] 2(3) by (auto simp: node_default_def)
  let ?f = "\<lambda>target. target\<lparr>key_listeners := key_listeners source, action_listeners := action_listeners source,
      modifiers_changed_listeners := modifiers_changed_listeners source\<rparr>"
  note o = on_last_simps [OF 3(2)]
  obtain t4 where "with_active_node ?f t3 = Some t4" "dt_ok t4" "node_stack t4 = node_stack t3"
    using listeners_ok [OF o(1,2), of ?f] by auto
  moreover from this(1) have "dt_nodes t4 = dt_nodes t @ [?f (?n\<lparr>dn_context := dn_context source, dn_focus_id := dn_focus_id source, dn_view_id := ?v\<rparr>)]"
    using o by (auto simp: with_active_node_eq [OF o(1,2)] active_node_def)
  ultimately have "with_active_node ?f t3 = Some t4" "on_last t t4 (moved_copy source (vec_last (node_stack t)) (vec_last (view_stack t)))"
    using 3(2) by (simp_all add: on_last_def moved_copy_def node_default_def)
  then show ?thesis using 1(1) 2(1) 3(1) by (auto simp: move_node_def Let_def)
qed

section \<open>Moving a range\<close>

text \<open>
  \<open>open_stack ns a i \<sigma>\<close>: before node \<open>i\<close> of a range that starts at \<open>a\<close> is moved, the nodes still
  open are the chain from the node before it up to \<open>a\<close>, and none before the first.
\<close>

definition open_stack :: "'l dispatch_node list \<Rightarrow> nat \<Rightarrow> nat \<Rightarrow> nat list \<Rightarrow> bool" where
  "open_stack ns a i \<sigma> = (if i = a then \<sigma> = []
     else \<sigma> \<noteq> [] \<and> hd \<sigma> = i - 1 \<and> last \<sigma> = a \<and> chain_from ns (dn_parent (ns ! a)) (rev \<sigma>))"

text \<open>A range that lists one subtree in preorder: the parent of each further node is still open.\<close>

definition preorder_range :: "'l dispatch_node list \<Rightarrow> nat \<Rightarrow> nat \<Rightarrow> bool" where
  "preorder_range ns a b = (a \<le> b \<and> b \<le> length ns \<and>
     (\<forall>i. a < i \<and> i < b \<longrightarrow> (\<exists>\<sigma> p. open_stack ns a i \<sigma> \<and> p \<in> set \<sigma> \<and> dn_parent (ns ! i) = Some p)))"

lemma chain_above:
  assumes "parents_below ns" "i < length ns"
  obtains "is" where "chain_from ns None is" "vec_last is = dn_parent (ns ! i)"
proof -
  obtain "is" where "chain_from ns None (is @ [i])"
    using dispatch_path_chain [of "dispatch_tree_new\<lparr>dt_nodes := ns\<rparr>" i] assms by auto
  then have "chain_from ns None is" "vec_last is = dn_parent (ns ! i)"
    by (auto simp: chain_from_append vec_last_def)
  then show ?thesis by (rule that)
qed

lemma open_stack_unique:
  assumes below: "parents_below ns" and a: "a < length ns"
    and "open_stack ns a i \<sigma>" "open_stack ns a i \<tau>"
  shows "\<sigma> = \<tau>"
proof (cases "i = a")
  case False
  obtain "is" where "is": "chain_from ns None is" "vec_last is = dn_parent (ns ! a)"
    using chain_above [OF below a] .
  have st: "\<sigma> \<noteq> []" "\<tau> \<noteq> []" "hd \<sigma> = hd \<tau>" "chain_from ns (dn_parent (ns ! a)) (rev \<sigma>)"
    "chain_from ns (dn_parent (ns ! a)) (rev \<tau>)"
    using assms(3,4) False by (simp_all add: open_stack_def)
  then have "chain_from ns None (is @ rev \<sigma>)" "chain_from ns None (is @ rev \<tau>)"
    using "is" by (auto simp: chain_from_append vec_last_def split: if_splits)
  then have "is @ rev \<sigma> = is @ rev \<tau>"
    using st by (intro chain_from_unique [OF _ _ _ _ _ below]) (auto simp: last_rev)
  then show ?thesis by simp
qed (use assms in \<open>simp add: open_stack_def\<close>)

text \<open>The nodes of the stack that are still open when the next one is moved.\<close>

lemma unwind_eq:
  assumes "dt_ok t" "node_stack t = st @ map f (rev \<sigma>)"
  shows "unwind p \<sigma> t = Some (dropWhile (\<lambda>j. p \<noteq> Some j) \<sigma>,
    moved_to t (st @ map f (rev (dropWhile (\<lambda>j. p \<noteq> Some j) \<sigma>))))"
  using assms
proof (induction \<sigma> arbitrary: t)
  case Nil
  then have "moved_to t st = t" using moved_to_self [of t] by simp
  then show ?case by simp
next
  case (Cons j \<sigma>)
  have self: "moved_to t (node_stack t) = t" by (rule moved_to_self [OF Cons.prems(1)])
  have "unwind p \<sigma> (tree_popped t) = Some (dropWhile (\<lambda>j. p \<noteq> Some j) \<sigma>,
      moved_to (tree_popped t) (st @ map f (rev (dropWhile (\<lambda>j. p \<noteq> Some j) \<sigma>))))"
    using Cons.prems by (intro Cons.IH) (auto simp: tree_popped_ok butlast_append)
  moreover have "pop_node t = Some (tree_popped t)"
    using Cons.prems by (intro pop_node_eq) auto
  ultimately show ?case using self Cons.prems(2) by (auto simp: tree_popped_moved_to)
qed

lemma pop_all_eq:
  assumes "dt_ok t" "node_stack t = st @ map f (rev \<sigma>)"
  shows "pop_all \<sigma> t = Some (moved_to t st)"
  using assms
proof (induction \<sigma> arbitrary: t)
  case Nil
  then have "moved_to t st = t" using moved_to_self [of t] by simp
  then show ?case by simp
next
  case (Cons j \<sigma>)
  have "pop_all \<sigma> (tree_popped t) = Some (moved_to (tree_popped t) st)"
    using Cons.prems by (intro Cons.IH) (auto simp: tree_popped_ok butlast_append)
  moreover have "pop_node t = Some (tree_popped t)"
    using Cons.prems by (intro pop_node_eq) auto
  ultimately show ?case by (simp add: tree_popped_moved_to)
qed

lemma open_stack_chain:
  assumes "open_stack ns a i \<sigma>" "j \<in> set \<sigma>" "i \<noteq> a"
  obtains \<rho> where "dropWhile (\<lambda>k. Some j \<noteq> Some k) \<sigma> = j # \<rho>" "chain_from ns (dn_parent (ns ! a)) (rev (j # \<rho>))"
    "last (j # \<rho>) = a"
proof -
  have "\<exists>\<rho>. dropWhile (\<lambda>k. Some j \<noteq> Some k) \<sigma> = j # \<rho>"
    using assms(2) by (induction \<sigma>) auto
  then obtain \<rho> where d: "dropWhile (\<lambda>k. Some j \<noteq> Some k) \<sigma> = j # \<rho>" by blast
  then obtain \<pi> where \<sigma>: "\<sigma> = \<pi> @ j # \<rho>" by (metis takeWhile_dropWhile_id)
  show ?thesis
    using assms(1,3) by (intro that [OF d]) (auto simp: \<sigma> open_stack_def chain_from_append)
qed

lemma vec_last_append: "vec_last (xs @ ys) = (if ys = [] then vec_last xs else vec_last ys)"
  by (simp add: vec_last_def)

text \<open>One turn of the loop.\<close>

lemma unwind_to_parent:
  assumes below: "parents_below ns" and pre: "preorder_range ns a b" and i: "a \<le> i" "i < b"
    and open_i: "open_stack ns a i \<sigma>"
  defines "\<rho> \<equiv> dropWhile (\<lambda>j. dn_parent (ns ! i) \<noteq> Some j) \<sigma>"
  shows "open_stack ns a (Suc i) (i # \<rho>)"
    and "vec_last (map f (rev \<rho>)) = (if i = a then None else map_option f (dn_parent (ns ! i)))"
    and "i \<noteq> a \<Longrightarrow> \<rho> \<noteq> []"
proof -
  have b: "b \<le> length ns" using pre by (simp add: preorder_range_def)
  have "open_stack ns a (Suc i) (i # \<rho>) \<and>
    vec_last (map f (rev \<rho>)) = (if i = a then None else map_option f (dn_parent (ns ! i))) \<and> (i \<noteq> a \<longrightarrow> \<rho> \<noteq> [])"
  proof (cases "i = a")
    case True
    then have "\<rho> = []" using open_i by (simp add: open_stack_def \<rho>_def)
    then show ?thesis using True i b by (simp add: open_stack_def)
  next
    case False
    then obtain \<tau> p where p: "open_stack ns a i \<tau>" "p \<in> set \<tau>" "dn_parent (ns ! i) = Some p"
      using pre i unfolding preorder_range_def by (metis le_neq_implies_less)
    then have "\<tau> = \<sigma>" using open_stack_unique [OF below _ p(1) open_i] i b by simp
    with p obtain \<pi> where "\<rho> = p # \<pi>" "chain_from ns (dn_parent (ns ! a)) (rev (p # \<pi>))" "last (p # \<pi>) = a"
      using open_stack_chain [OF open_i, of p] False unfolding \<rho>_def by metis
    then show ?thesis using False p(3) i b
      by (auto simp: open_stack_def chain_from_append)
  qed
  then show "open_stack ns a (Suc i) (i # \<rho>)"
    "vec_last (map f (rev \<rho>)) = (if i = a then None else map_option f (dn_parent (ns ! i)))"
    "i \<noteq> a \<Longrightarrow> \<rho> \<noteq> []" by auto
qed

definition is_focus :: "nat option \<Rightarrow> 'l dispatch_node \<Rightarrow> bool" where
  "is_focus focus n = (dn_focus_id n \<noteq> None \<and> dn_focus_id n = focus)"

text \<open>Node \<open>i\<close> of the source was copied to its place among the nodes added behind \<open>st\<close>.\<close>

definition copied :: "'l dispatch_node list \<Rightarrow> nat \<Rightarrow> nat option \<Rightarrow> nat \<Rightarrow> 'l dispatch_node list \<Rightarrow> nat \<Rightarrow> bool" where
  "copied ns a root_parent k ms i = (\<exists>v. ms ! (i - a + k) =
     moved_copy (ns ! i) (if i = a then root_parent else map_option (\<lambda>p. p - a + k) (dn_parent (ns ! i))) v)"

lemma reuse_loop_eq:
  assumes below: "parents_below ns" and pre: "preorder_range ns a b"
    and "a \<le> i" "i \<le> b" "dt_ok t" "length (dt_nodes t) = i - a + k" "open_stack ns a i \<sigma>"
    and "node_stack t = st @ map (\<lambda>j. j - a + k) (rev \<sigma>)"
  shows "\<exists>\<sigma>' t'. reuse_loop focus (map (\<lambda>j. (j, ns ! j)) [i..<b]) \<sigma> found t =
      Some (\<sigma>', found \<or> list_ex (\<lambda>j. is_focus focus (ns ! j)) [i..<b], t') \<and>
    dt_ok t' \<and> node_stack t' = st @ map (\<lambda>j. j - a + k) (rev \<sigma>') \<and>
    length (dt_nodes t') = b - a + k \<and> take (i - a + k) (dt_nodes t') = dt_nodes t \<and>
    list_all (copied ns a (vec_last st) k (dt_nodes t')) [i..<b]"
  using assms(3-)
proof (induction "b - i" arbitrary: i t \<sigma> found)
  case 0
  then show ?case by simp
next
  case (Suc d)
  let ?f = "\<lambda>j. j - a + k"
  let ?\<rho> = "dropWhile (\<lambda>j. dn_parent (ns ! i) \<noteq> Some j) \<sigma>"
  let ?t = "moved_to t (st @ map ?f (rev ?\<rho>))"
  have i: "a \<le> i" "i < b" using Suc by simp_all
  note up = unwind_to_parent(1,3) [OF below pre i Suc.prems(5)]
    and last_up = unwind_to_parent(2) [OF below pre i Suc.prems(5), of ?f]
  have uw: "unwind (dn_parent (ns ! i)) \<sigma> t = Some (?\<rho>, ?t)"
    using unwind_eq [OF Suc.prems(3,6)] .
  obtain \<pi> where "\<sigma> = \<pi> @ ?\<rho>" by (metis takeWhile_dropWhile_id)
  then have "node_stack t = st @ map ?f (rev ?\<rho>) @ map ?f (rev \<pi>)"
    using Suc.prems(6) by (metis map_append rev_append)
  then have "chain_from (dt_nodes t) None (st @ map ?f (rev ?\<rho>))"
    using Suc.prems(3) by (simp add: dt_ok_def stacks_ok_def chain_from_append split: if_splits)
  then have ok: "dt_ok ?t" by (rule moved_to_ok [OF Suc.prems(3)])
  obtain t' where mv: "move_node (ns ! i) ?t = Some t'"
    "on_last ?t t' (moved_copy (ns ! i) (vec_last (node_stack ?t)) (vec_last (view_stack ?t)))"
    using move_node_eq [OF ok] by blast
  have par: "vec_last (node_stack ?t) = (if i = a then vec_last st else map_option ?f (dn_parent (ns ! i)))"
  proof (cases "i = a")
    case True
    then show ?thesis using Suc.prems(5) by (simp add: open_stack_def)
  next
    case False
    then show ?thesis using up(2) last_up by (auto simp add: vec_last_append simp del: vec_last_simps)
  qed
  have t': "dt_ok t'" "length (dt_nodes t') = Suc i - a + k"
    "node_stack t' = st @ map ?f (rev (i # ?\<rho>))"
    "dt_nodes t' = dt_nodes t @ [moved_copy (ns ! i) (vec_last (node_stack ?t)) (vec_last (view_stack ?t))]"
    using mv(2) Suc.prems(4) i by (auto simp: on_last_def)
  have d: "d = b - Suc i" and le: "a \<le> Suc i" "Suc i \<le> b" using Suc.hyps(2) i by auto
  obtain \<sigma>'' t'' where IH: "reuse_loop focus (map (\<lambda>j. (j, ns ! j)) [Suc i..<b]) (i # ?\<rho>)
        (found \<or> is_focus focus (ns ! i)) t' =
      Some (\<sigma>'', (found \<or> is_focus focus (ns ! i)) \<or> list_ex (\<lambda>j. is_focus focus (ns ! j)) [Suc i..<b], t'')"
    "dt_ok t''" "node_stack t'' = st @ map ?f (rev \<sigma>'')" "length (dt_nodes t'') = b - a + k"
    "take (Suc i - a + k) (dt_nodes t'') = dt_nodes t'"
    "list_all (copied ns a (vec_last st) k (dt_nodes t'')) [Suc i..<b]"
    using Suc.hyps(1) [OF d le t'(1,2) up(1) t'(3), of "found \<or> is_focus focus (ns ! i)"] by blast
  have step: "reuse_loop focus (map (\<lambda>j. (j, ns ! j)) [i..<b]) \<sigma> found t =
      Some (\<sigma>'', found \<or> list_ex (\<lambda>j. is_focus focus (ns ! j)) [i..<b], t'')"
    using i uw mv(1) IH(1) by (simp add: upt_conv_Cons is_focus_def disj_ac)
  have sub: "Suc i - a + k = Suc (i - a + k)" using i by simp
  have "dt_nodes t'' ! (i - a + k) = dt_nodes t' ! (i - a + k)"
    using IH(5) sub by (metis lessI nth_take)
  then have "copied ns a (vec_last st) k (dt_nodes t'') i"
    using t'(4) Suc.prems(4) par by (auto simp: copied_def nth_append)
  moreover have "take (i - a + k) (dt_nodes t'') = dt_nodes t"
    using arg_cong [OF IH(5), of "take (i - a + k)"] t'(4) Suc.prems(4) sub by (simp add: min_def)
  ultimately show ?case
    using step IH i by (auto simp: upt_conv_Cons)
qed

end
