(* ===== verification/Key_Dispatch_Theorems.thy ===== *)
theory Key_Dispatch_Theorems
  imports Key_Dispatch_Reuse Keymap_Theorems
begin

text \<open>
  The properties of the dispatch tree and of key dispatch.
\<close>

section \<open>The tree as a state machine\<close>

datatype 'l tree_op =
    Push_Node | Pop_Node | Set_Active nat | Set_Context key_context | Set_Focus nat | Set_View nat
  | Key_Listener 'l | Modifiers_Listener 'l | Action_Listener type_id 'l
  | Reuse nat nat "'l dispatch_tree" "nat option" | Truncate nat | Clear_Tree

fun tree_apply :: "'l tree_op \<Rightarrow> 'l dispatch_tree \<Rightarrow> 'l dispatch_tree option" where
  "tree_apply Push_Node t = Some (snd (push_node t))"
| "tree_apply Pop_Node t = pop_node t"
| "tree_apply (Set_Active i) t = set_active_node i t"
| "tree_apply (Set_Context ctx) t = set_key_context ctx t"
| "tree_apply (Set_Focus f) t = set_focus_id f t"
| "tree_apply (Set_View v) t = set_view_id v t"
| "tree_apply (Key_Listener l) t = on_key_event l t"
| "tree_apply (Modifiers_Listener l) t = on_modifiers_changed l t"
| "tree_apply (Action_Listener ty l) t = on_action ty l t"
| "tree_apply (Reuse start finish source focus) t =
     map_option (\<lambda>(_, _, t'). t') (reuse_subtree start finish source focus t)"
| "tree_apply (Truncate k) t = tree_truncate k t"
| "tree_apply Clear_Tree t = Some (dispatch_tree_clear t)"

text \<open>
  How the window uses the tree: the active node gets its context, focus handle and view once, a
  node made active exists, a reused range lists a subtree in preorder, and what is cut off is not open.
\<close>

fun tree_allows :: "'l dispatch_tree \<Rightarrow> 'l tree_op \<Rightarrow> bool" where
  "tree_allows t (Set_Active i) = (i < length (dt_nodes t))"
| "tree_allows t (Set_Context ctx) = (node_stack t \<noteq> [] \<and> dn_context (active_node t) = None)"
| "tree_allows t (Set_Focus f) =
     (node_stack t \<noteq> [] \<and> (dn_focus_id (active_node t) = None \<or> dn_focus_id (active_node t) = Some f))"
| "tree_allows t (Set_View v) = (node_stack t \<noteq> [] \<and> dn_view_id (active_node t) = None)"
| "tree_allows t (Reuse start finish source focus) =
     (parents_below (dt_nodes source) \<and> preorder_range (dt_nodes source) start finish)"
| "tree_allows t (Truncate k) = (k \<le> length (dt_nodes t) \<and> list_all (\<lambda>i. i < k) (node_stack t))"
| "tree_allows t Push_Node = True"
| "tree_allows t Clear_Tree = True"
| "tree_allows t _ = (node_stack t \<noteq> [])"

inductive tree_reachable :: "'l dispatch_tree \<Rightarrow> bool" where
  new: "tree_reachable dispatch_tree_new"
| step: "tree_reachable t \<Longrightarrow> tree_allows t op \<Longrightarrow> tree_apply op t = Some t' \<Longrightarrow> tree_reachable t'"

lemma reuse_subtree_eq:
  assumes below: "parents_below (dt_nodes source)" and pre: "preorder_range (dt_nodes source) a b"
    and ok: "dt_ok t"
  shows "\<exists>source' t'. reuse_subtree a b source focus t =
      Some (\<lparr>old_start = a, old_end = b, new_start = length (dt_nodes t), new_end = length (dt_nodes t) + (b - a),
              contains_focus = list_ex (\<lambda>i. is_focus focus (dt_nodes source ! i)) [a..<b]\<rparr>, source', t') \<and>
    dt_ok t' \<and> node_stack t' = node_stack t \<and> context_stack t' = context_stack t \<and> view_stack t' = view_stack t \<and>
    length (dt_nodes t') = length (dt_nodes t) + (b - a) \<and> take (length (dt_nodes t)) (dt_nodes t') = dt_nodes t \<and>
    list_all (copied (dt_nodes source) a (vec_last (node_stack t)) (length (dt_nodes t)) (dt_nodes t')) [a..<b]"
proof -
  let ?ns = "dt_nodes source" and ?k = "length (dt_nodes t)"
  have ab: "a \<le> b" "b \<le> length ?ns" using pre by (simp_all add: preorder_range_def)
  have enum: "take (b - a) (drop a (List.enumerate 0 ?ns)) = map (\<lambda>j. (j, ?ns ! j)) [a..<b]"
    using ab by (intro nth_equalityI) (auto simp: nth_enumerate_eq)
  obtain \<sigma> t1 where r: "reuse_loop focus (map (\<lambda>j. (j, ?ns ! j)) [a..<b]) [] False t =
      Some (\<sigma>, list_ex (\<lambda>j. is_focus focus (?ns ! j)) [a..<b], t1)"
    "dt_ok t1" "node_stack t1 = node_stack t @ map (\<lambda>j. j - a + ?k) (rev \<sigma>)"
    "length (dt_nodes t1) = b - a + ?k" "take ?k (dt_nodes t1) = dt_nodes t"
    "list_all (copied ?ns a (vec_last (node_stack t)) ?k (dt_nodes t1)) [a..<b]"
    using reuse_loop_eq [OF below pre order.refl ab(1) ok, of ?k "[]" "node_stack t" focus False]
    by (auto simp: open_stack_def)
  let ?t = "moved_to t1 (node_stack t)"
  have chain: "chain_from (dt_nodes t1) None (node_stack t)"
    using r(2,3) by (simp add: dt_ok_def stacks_ok_def chain_from_append)
  have "dt_nodes t1 ! i = dt_nodes t ! i" if "i \<in> set (node_stack t)" for i
  proof -
    have "i < ?k" using ok that by (auto simp: dt_ok_def stacks_ok_def intro: chain_from_lt)
    then show ?thesis using r(5) by (metis nth_take)
  qed
  then have same: "contexts_on (dt_nodes t1) (node_stack t) = contexts_on (dt_nodes t) (node_stack t)"
    "views_on (dt_nodes t1) (node_stack t) = views_on (dt_nodes t) (node_stack t)"
    by (auto intro: contexts_on_cong views_on_cong)
  have "context_stack ?t = context_stack t" "view_stack ?t = view_stack t"
    using ok same by (simp_all add: moved_to_def dt_ok_def stacks_ok_def)
  moreover have "pop_all \<sigma> t1 = Some ?t" using pop_all_eq [OF r(2,3)] .
  moreover have "dt_ok ?t" using moved_to_ok [OF r(2) chain] .
  ultimately show ?thesis using r by (auto simp: reuse_subtree_def enum Let_def)
qed

lemma tree_apply_ok:
  assumes ok: "dt_ok t" and "tree_allows t op"
  shows "\<exists>t'. tree_apply op t = Some t' \<and> dt_ok t'"
proof (cases op)
  case Pop_Node
  then show ?thesis using assms pop_node_eq [OF ok] tree_popped_ok [OF ok] by simp
next
  case (Set_Active i)
  then show ?thesis using assms(2) set_active_node_eq [OF ok, of i] moved_to_ok [OF ok] by auto
next
  case (Set_Context ctx)
  then show ?thesis using assms(2) set_key_context_ok [OF ok, of ctx] by auto
next
  case (Set_Focus f)
  then show ?thesis using assms(2) set_focus_id_ok [OF ok, of f] by auto
next
  case (Set_View v)
  then show ?thesis using assms(2) set_view_id_ok [OF ok, of v] by auto
next
  case (Key_Listener l)
  then show ?thesis using assms(2) listeners_ok [OF ok, of "key_listeners_update (\<lambda>ls. ls @ [l])"]
    by (auto simp: on_key_event_def)
next
  case (Modifiers_Listener l)
  then show ?thesis using assms(2) listeners_ok [OF ok, of "modifiers_changed_listeners_update (\<lambda>ls. ls @ [l])"]
    by (auto simp: on_modifiers_changed_def)
next
  case (Action_Listener ty l)
  then show ?thesis using assms(2) listeners_ok [OF ok, of "action_listeners_update (\<lambda>ls. ls @ [(ty, l)])"]
    by (auto simp: on_action_def)
next
  case (Reuse a b source focus)
  then show ?thesis using assms(2) reuse_subtree_eq [OF _ _ ok, of source a b focus] by auto
next
  case (Truncate k)
  then show ?thesis using assms(2) tree_truncate_ok [OF ok, of k] by auto
qed (use push_node_ok [OF ok] dispatch_tree_clear_ok in auto)

lemma tree_reachable_ok: "tree_reachable t \<Longrightarrow> dt_ok t"
proof (induction rule: tree_reachable.induct)
  case (step t op t')
  then show ?case using tree_apply_ok [OF step.IH step.hyps(2)] by auto
qed (rule dispatch_tree_new_ok)

section \<open>Inputs of the witnesses\<close>

definition pane_context :: key_context where
  "pane_context = [\<lparr>ce_key = ''Pane'', ce_value = None\<rparr>]"

text \<open>A root with a context, below it a node with a focus handle and a view.\<close>

definition sample_ops :: "nat tree_op list" where
  "sample_ops = [Push_Node, Set_Context pane_context, Set_Focus 3, Push_Node, Set_Focus 7, Set_View 5, Key_Listener 0]"

definition sample_tree :: "nat dispatch_tree" where
  "sample_tree = the (foldl (\<lambda>t op. Option.bind t (tree_apply op)) (Some dispatch_tree_new) sample_ops)"

lemma tree_reachable_run:
  assumes "tree_reachable t" "fold (\<lambda>op r. case r of None \<Rightarrow> None
      | Some t \<Rightarrow> if tree_allows t op then tree_apply op t else None) ops (Some t) = Some t'"
  shows "tree_reachable t'"
  using assms
proof (induction ops arbitrary: t)
  case (Cons op ops)
  have none: "fold (\<lambda>op r. case r of None \<Rightarrow> None
      | Some t \<Rightarrow> if tree_allows t op then tree_apply op t else None) ops None = None" for ops :: "'a tree_op list"
    by (induction ops) auto
  obtain t1 where "tree_allows t op" "tree_apply op t = Some t1"
    using Cons.prems(2) by (cases "tree_apply op t") (auto simp: none split: if_splits)
  then show ?case using Cons by (auto intro: tree_reachable.step)
qed simp

definition root_node :: "nat dispatch_node" where
  "root_node = node_default\<lparr>dn_context := Some pane_context, dn_focus_id := Some 3\<rparr>"

definition inner_node :: "nat dispatch_node" where
  "inner_node = node_default\<lparr>dn_parent := Some 0, dn_focus_id := Some 7, dn_view_id := Some 5, key_listeners := [0]\<rparr>"

lemma sample_tree_eq:
  "sample_tree = \<lparr>node_stack = [0, 1], context_stack = [pane_context], view_stack = [5],
     dt_nodes = [root_node, inner_node], focusable_node_ids = [3 \<mapsto> 0, 7 \<mapsto> 1], view_node_ids = [5 \<mapsto> 1]\<rparr>"
  by (simp add: sample_tree_def sample_ops_def dispatch_tree_new_def push_node_def set_key_context_def
      set_focus_id_def set_view_id_def on_key_event_def with_active_node_def active_node_id_def dt_node_def
      root_node_def inner_node_def node_default_def Let_def)

lemma sample_tree_reachable: "tree_reachable sample_tree"
proof (rule tree_reachable_run [OF tree_reachable.new])
  show "fold (\<lambda>op r. case r of None \<Rightarrow> None
      | Some t \<Rightarrow> if tree_allows t op then tree_apply op t else None) sample_ops (Some dispatch_tree_new) = Some sample_tree"
    by (simp add: sample_tree_eq sample_ops_def dispatch_tree_new_def push_node_def set_key_context_def
      set_focus_id_def set_view_id_def on_key_event_def with_active_node_def active_node_id_def dt_node_def
      active_node_def root_node_def inner_node_def node_default_def Let_def)
qed

definition sample_deeper :: "nat dispatch_tree" where
  "sample_deeper = snd (push_node sample_tree)"

lemma sample_deeper_eq:
  "sample_deeper = \<lparr>node_stack = [0, 1, 2], context_stack = [pane_context], view_stack = [5],
     dt_nodes = [root_node, inner_node, node_default\<lparr>dn_parent := Some 1\<rparr>],
     focusable_node_ids = [3 \<mapsto> 0, 7 \<mapsto> 1], view_node_ids = [5 \<mapsto> 1]\<rparr>"
  by (simp add: sample_deeper_def push_node_def sample_tree_eq Let_def)

lemma sample_deeper_reachable: "tree_reachable sample_deeper"
  by (rule tree_reachable.step [OF sample_tree_reachable, of Push_Node]) (simp_all add: sample_deeper_def)

section \<open>Properties\<close>

text \<open>
  C25. In every tree reached by drawing, reusing, truncating and clearing, no operation
  panics where the window may use it, and its result is reached as well; the node stack is the
  path to its top, and the context stack holds the contexts along it.
\<close>

theorem tree_invariant:
  assumes "tree_reachable t" "tree_allows t op"
  shows "(\<exists>t'. tree_apply op t = Some t' \<and> tree_reachable t') \<and>
    (if node_stack t = [] then context_stack t = []
     else dispatch_path t (last (node_stack t)) = Some (node_stack t) \<and>
       path_contexts t (node_stack t) = Some (context_stack t))"
proof -
  have ok: "dt_ok t" using tree_reachable_ok assms(1) .
  then have chain: "parents_below (dt_nodes t)" "chain_from (dt_nodes t) None (node_stack t)"
    "context_stack t = contexts_of t (node_stack t)"
    by (simp_all add: dt_ok_def stacks_ok_def contexts_of_def contexts_on_def)
  then have "path_in_tree t (node_stack t)"
    by (auto simp: path_in_tree_def list_all_iff intro: chain_from_lt)
  moreover have "dispatch_path t (last (node_stack t)) = Some (node_stack t)" if "node_stack t \<noteq> []"
    using dispatch_path_unique [OF chain(1), of "butlast (node_stack t)"] chain(2) that by simp
  ultimately show ?thesis
    using tree_apply_ok [OF ok assms(2)] assms chain(3) path_contexts_eq [of t "node_stack t"]
    by (auto intro: tree_reachable.step simp: contexts_of_def List.map_filter_def)
qed

theorem tree_invariant_witness:
  "(\<exists>t'. tree_apply (Truncate 2) sample_tree = Some t' \<and> tree_reachable t') \<and>
   dispatch_path sample_tree 1 = Some [0, 1] \<and> path_contexts sample_tree [0, 1] = Some [pane_context]"
  using tree_invariant [OF sample_tree_reachable, of "Truncate 2"] by (simp add: sample_tree_eq)

text \<open>
  C26. Making any node of the tree active, by popping to its parent or by climbing from it, leads to
  the stacks of its path: the nodes from a root down to the node, each the parent of the next,
  their contexts and their views. When the node carries a focus handle, the focus path of the
  handle lists the handles along that path and ends with it, and another handle contains it
  exactly when it is the same or a node of the path is the one it belongs to.
\<close>

theorem tree_paths:
  assumes "tree_reachable t" "i < length (dt_nodes t)"
  shows "\<exists>path ctxs. dispatch_path t i = Some path \<and> chain_from (dt_nodes t) None path \<and>
    path \<noteq> [] \<and> last path = i \<and> path_contexts t path = Some ctxs \<and>
    set_active_node i t = Some (t\<lparr>node_stack := path, context_stack := ctxs,
      view_stack := views_on (dt_nodes t) path\<rparr>) \<and>
    (\<forall>focus. focusable_node_id t focus = Some i \<longrightarrow>
      focus_path t focus = Some (focus_on (dt_nodes t) path) \<and> last (focus_on (dt_nodes t) path) = focus \<and>
      (\<forall>parent. focus_contains t parent focus =
        Some (parent = focus \<or> (\<exists>j. focusable_node_id t parent = Some j \<and> j \<in> set path))))"
proof -
  have ok: "dt_ok t" using tree_reachable_ok assms(1) .
  note i = assms(2)
  obtain path where path: "dispatch_path t i = Some path" "chain_from (dt_nodes t) None path"
    "set_active_node i t = Some (moved_to t path)"
    using set_active_node_eq [OF ok i] by blast
  obtain "is" where "is": "path = is @ [i]"
    using dispatch_path_chain [OF _ i] ok path(1) by (auto simp: dt_ok_def)
  then have last: "vec_last path = Some i" by simp
  have "path_in_tree t path" using path(2) by (auto simp: path_in_tree_def list_all_iff intro: chain_from_lt)
  then have ctxs: "path_contexts t path = Some (contexts_on (dt_nodes t) path)"
    by (simp add: path_contexts_eq contexts_of_def contexts_on_def)
  have focus: "focus_path t focus = Some (focus_on (dt_nodes t) path) \<and> last (focus_on (dt_nodes t) path) = focus \<and>
      (\<forall>parent. focus_contains t parent focus =
        Some (parent = focus \<or> (\<exists>j. focusable_node_id t parent = Some j \<and> j \<in> set path)))"
    if "focusable_node_id t focus = Some i" for focus
  proof -
    have f: "focusable_node_ids t focus = Some i" using that by (simp add: focusable_node_id_def)
    then have "dn_focus_id (dt_nodes t ! i) = Some focus"
      using ok by (auto simp: dt_ok_def focus_map_ok_def)
    then show ?thesis
      using focus_path_reversed_chain [OF path(2)] climbs_to_chain [OF path(2)]
      by (auto simp: focus_path_def f last "is" focus_on_def List.map_filter_def focus_contains_def
          focusable_node_id_def split: option.split)
  qed
  show ?thesis
    using path ctxs "is" focus by (intro exI [of _ path] exI [of _ "contexts_on (dt_nodes t) path"]) (simp add: moved_to_def)
qed

text \<open>The inner node has a focus handle; the node pushed below it has none.\<close>

theorem tree_paths_witness:
  "dispatch_path sample_tree 1 = Some [0, 1] \<and> focus_path sample_tree 7 = Some [3, 7] \<and>
   focus_contains sample_tree 3 7 = Some True \<and>
   set_active_node 2 sample_deeper = Some sample_deeper"
proof -
  have paths: "dispatch_path sample_tree 1 = Some [0, 1]" "dispatch_path sample_deeper 2 = Some [0, 1, 2]"
    by (simp_all add: sample_deeper_eq sample_tree_eq dispatch_path_def dispatch_path_reversed.simps root_node_def
        inner_node_def node_default_def dt_node_def)
  have "1 < length (dt_nodes sample_tree)" "2 < length (dt_nodes sample_deeper)"
    by (simp_all add: sample_deeper_eq sample_tree_eq)
  note inner = tree_paths [OF sample_tree_reachable this(1)] and deeper = tree_paths [OF sample_deeper_reachable this(2)]
  have "focusable_node_id sample_tree 7 = Some 1" "focusable_node_id sample_tree 3 = Some 0"
    by (simp_all add: focusable_node_id_def sample_tree_eq)
  then have "focus_path sample_tree 7 = Some (focus_on (dt_nodes sample_tree) [0, 1])"
    "focus_contains sample_tree 3 7 = Some True"
    using inner paths(1) by auto
  moreover have "set_active_node 2 sample_deeper = Some (sample_deeper\<lparr>node_stack := [0, 1, 2],
      context_stack := [pane_context], view_stack := [5]\<rparr>)"
  proof -
    have "path_contexts sample_deeper [0, 1, 2] = Some [pane_context]" "views_on (dt_nodes sample_deeper) [0, 1, 2] = [5]"
      by (simp_all add: views_on_def List.map_filter_simps dt_node_def sample_deeper_eq root_node_def
          inner_node_def node_default_def)
    then show ?thesis using deeper paths(2) by auto
  qed
  ultimately show ?thesis
    using paths(1) by (simp add: focus_on_def List.map_filter_def sample_deeper_eq sample_tree_eq root_node_def inner_node_def)
qed

lemma preorder_parent:
  assumes below: "parents_below ns" and pre: "preorder_range ns a b" and i: "a < i" "i < b"
  obtains p where "dn_parent (ns ! i) = Some p" "a \<le> p"
proof -
  obtain \<sigma> p where p: "open_stack ns a i \<sigma>" "p \<in> set \<sigma>" "dn_parent (ns ! i) = Some p"
    using pre i unfolding preorder_range_def by blast
  then have "sorted_wrt (<) (rev \<sigma>)" "\<sigma> \<noteq> []" "last \<sigma> = a"
    using chain_from_sorted [OF below] i by (auto simp: open_stack_def)
  then have "a \<le> p" using p(2)
    by (cases "rev \<sigma>") (auto simp: less_imp_le simp flip: set_rev [of \<sigma>] hd_rev)
  with p(3) show ?thesis by (rule that)
qed

text \<open>
  C27. Reusing a range of nodes of the previous frame that lists a subtree in preorder: each node
  arrives at its refreshed place with its listeners, context and focus handle, below the refreshed
  parent, the first one below the active node; the stacks are as before, and the focus is reported when a node has it.
\<close>

theorem reuse_copies:
  assumes "tree_reachable t" "tree_reachable source" "preorder_range (dt_nodes source) start finish"
  shows "\<exists>r source' t'. reuse_subtree start finish source focus t = Some (r, source', t') \<and>
    node_stack t' = node_stack t \<and> context_stack t' = context_stack t \<and> view_stack t' = view_stack t \<and>
    take (length (dt_nodes t)) (dt_nodes t') = dt_nodes t \<and>
    length (dt_nodes t') = length (dt_nodes t) + (finish - start) \<and>
    contains_focus r = (\<exists>i \<in> {start..<finish}. dn_focus_id (dt_nodes source ! i) \<noteq> None \<and>
      dn_focus_id (dt_nodes source ! i) = focus) \<and>
    (\<forall>i \<in> {start..<finish}. \<exists>j n. refresh_node_id r i = Some j \<and> dt_node t' j = Some n \<and>
      key_listeners n = key_listeners (dt_nodes source ! i) \<and>
      action_listeners n = action_listeners (dt_nodes source ! i) \<and>
      modifiers_changed_listeners n = modifiers_changed_listeners (dt_nodes source ! i) \<and>
      dn_context n = dn_context (dt_nodes source ! i) \<and> dn_focus_id n = dn_focus_id (dt_nodes source ! i) \<and>
      dn_parent n = (if i = start then active_node_id t
        else Option.bind (dn_parent (dt_nodes source ! i)) (refresh_node_id r)))"
proof -
  let ?ns = "dt_nodes source" and ?k = "length (dt_nodes t)"
  have ok: "dt_ok t" and below: "parents_below ?ns"
    using tree_reachable_ok assms(1,2) by (auto simp: dt_ok_def)
  obtain r source' t' where r: "reuse_subtree start finish source focus t = Some (r, source', t')"
    "node_stack t' = node_stack t" "context_stack t' = context_stack t" "view_stack t' = view_stack t"
    "length (dt_nodes t') = ?k + (finish - start)" "take ?k (dt_nodes t') = dt_nodes t"
    "list_all (copied ?ns start (vec_last (node_stack t)) ?k (dt_nodes t')) [start..<finish]"
    and focus_r: "contains_focus r = list_ex (\<lambda>i. is_focus focus (?ns ! i)) [start..<finish]"
    and refresh: "refresh_node_id r p = (if start \<le> p then Some (p - start + ?k) else None)" for p
    using reuse_subtree_eq [OF below assms(3) ok] by (fastforce simp: refresh_node_id_def)
  have "\<exists>j n. refresh_node_id r i = Some j \<and> dt_node t' j = Some n \<and>
      key_listeners n = key_listeners (?ns ! i) \<and> action_listeners n = action_listeners (?ns ! i) \<and>
      modifiers_changed_listeners n = modifiers_changed_listeners (?ns ! i) \<and>
      dn_context n = dn_context (?ns ! i) \<and> dn_focus_id n = dn_focus_id (?ns ! i) \<and>
      dn_parent n = (if i = start then active_node_id t else Option.bind (dn_parent (?ns ! i)) (refresh_node_id r))"
    if i: "i \<in> {start..<finish}" for i
  proof -
    have "copied ?ns start (vec_last (node_stack t)) ?k (dt_nodes t') i"
      using r(7) i by (simp add: list_all_iff)
    then obtain v where v: "dt_nodes t' ! (i - start + ?k) = moved_copy (?ns ! i)
        (if i = start then vec_last (node_stack t) else map_option (\<lambda>p. p - start + ?k) (dn_parent (?ns ! i))) v"
      unfolding copied_def by blast
    have "Option.bind (dn_parent (?ns ! i)) (refresh_node_id r) = map_option (\<lambda>p. p - start + ?k) (dn_parent (?ns ! i))"
      if "i \<noteq> start"
      using preorder_parent [OF below assms(3), of i] i that by (force simp: refresh)
    then show ?thesis using v i r(5)
      by (auto simp: refresh dt_node_def active_node_id_def)
  qed
  then show ?thesis using r focus_r by (auto simp: list_ex_iff is_focus_def)
qed

theorem reuse_copies_witness:
  "\<exists>r source' t'. reuse_subtree 0 2 sample_tree (Some 7) sample_tree = Some (r, source', t') \<and>
     node_stack t' = [0, 1] \<and> length (dt_nodes t') = 4 \<and> contains_focus r"
proof -
  have "open_stack (dt_nodes sample_tree) 0 1 [0]"
    by (simp add: open_stack_def sample_tree_eq root_node_def node_default_def)
  then have "preorder_range (dt_nodes sample_tree) 0 2"
    by (auto simp: preorder_range_def sample_tree_eq inner_node_def less_2_cases_iff)
  from reuse_copies [OF sample_tree_reachable sample_tree_reachable this, of "Some 7"]
  show ?thesis by (auto simp: sample_tree_eq inner_node_def intro!: bexI [of _ 1])
qed

section \<open>Dispatching keys\<close>

text \<open>
  C28. Along a path of the tree \<open>dispatch_key\<close> returns: the pending input is cut, as long as what is left
  does not match with the new key, into the longest bound prefix or one unbound keystroke; the segments
  are replayed in order, and what is left with the new key is pending, bound or unmatched alone.
\<close>

theorem dispatch_key_cuts:
  assumes "path_in_tree t path"
  shows "\<exists>segs rest r ctxs. dispatch_key ops target_os km t input key path = Some r \<and>
    path_contexts t path = Some ctxs \<and> dr_context_stack r = ctxs \<and>
    segments (is_bound ops target_os km ctxs) (is_live ops target_os km ctxs key) input segs rest \<and>
    input = concat segs @ rest \<and> map replay_keystroke (dr_to_replay r) = map last segs \<and>
    map replay_bindings (dr_to_replay r) = map (\<lambda>seg. fst (bindings_for_input ops target_os km seg ctxs)) segs \<and>
    (case bindings_for_input ops target_os km (rest @ [key]) ctxs of (bindings, pending) \<Rightarrow>
       if pending then dr_pending r = rest @ [key] \<and> dr_bindings r = [] \<and> dr_pending_has_binding r = (bindings \<noteq> [])
       else dr_pending r = [] \<and> dr_bindings r = bindings \<and> (if bindings = [] then rest = [] else True))"
proof -
  let ?ctxs = "contexts_of t path"
  obtain segs rest where sr: "segments (is_bound ops target_os km ?ctxs) (is_live ops target_os km ?ctxs key) input segs rest"
    "dispatch_key ops target_os km t input key path = Some (dispatch_outcome ops target_os km ?ctxs key segs rest)"
    using dispatch_key_segments_exist [OF assms] by blast
  have "is_live ops target_os km ?ctxs key rest \<or> rest = []" using segments_end [OF sr(1)] .
  then show ?thesis
    using sr segments_concat [OF sr(1)] path_contexts_eq [OF assms]
    by (intro exI [of _ segs] exI [of _ rest] exI [of _ "dispatch_outcome ops target_os km ?ctxs key segs rest"]
          exI [of _ ?ctxs])
       (auto simp: dispatch_outcome_def replay_of_def case_prod_beta Let_def is_live_def is_bound_def comp_def)
qed

theorem dispatch_key_cuts_witness:
  "\<exists>r. dispatch_key sample_actions ''linux'' sample_keymap sample_tree [kk_inner (stroke ''s'')]
     (kk_inner (stroke ''q'')) [0, 1] = Some r \<and> dr_context_stack r = [pane_context]"
proof -
  have path: "path_in_tree sample_tree [0, 1]" by (simp add: path_in_tree_def sample_tree_eq)
  have "path_contexts sample_tree [0, 1] = Some [pane_context]"
    by (simp add: dt_node_def sample_tree_eq root_node_def inner_node_def node_default_def)
  then show ?thesis
    using dispatch_key_cuts [OF path, of sample_actions "''linux''" sample_keymap "[kk_inner (stroke ''s'')]" "kk_inner (stroke ''q'')"]
    by auto
qed

text \<open>The callers of \<open>flush_dispatch\<close> pass pending input, which is not empty.\<close>

lemma flush_dispatch_cuts:
  assumes "path_in_tree t path"
  shows "if input = [] then flush_dispatch ops target_os km t input path = None
    else \<exists>segs. segments (is_bound ops target_os km (contexts_of t path)) (\<lambda>_. False) input segs [] \<and>
      concat segs = input \<and>
      flush_dispatch ops target_os km t input path = Some (map (replay_of ops target_os km (contexts_of t path)) segs)"
  using flush_dispatch_segments [OF assms] segments_concat flush_dispatch_empty by fastforce

text \<open>
  The binding shown for an action is the last of those that are not shadowed.
\<close>

lemma find_rev_filter: "find P (rev xs) = vec_last (filter P xs)"
  by (induction xs rule: rev_induct) (auto simp: vec_last_def)

lemma highest_precedence_last:
  "highest_precedence_binding_for_action ops target_os km act ctxs =
    map_option vec_last (tree_bindings_for_action ops target_os km act ctxs)"
  by (cases "bindings_for_action ops km act")
     (simp_all add: highest_precedence_binding_for_action_def tree_bindings_for_action_def find_rev_filter)

end
