(* ===== verification/List_State.thy ===== *)
theory List_State
  imports Sum_Tree_Items Sum_Tree_Back Geometry
begin

text \<open>
  The state of a list element (\<open>gpui/src/elements/list.rs\<close>): the items with their cached heights
  in a sum tree, the position scrolled to, and the operations of \<open>ListState\<close> on them. Pixels
  are elements of a linearly ordered field, focus handles are identifiers. A panic is \<open>None\<close>.
\<close>

section \<open>Items and their summaries\<close>

datatype ('h, 'f) list_item =
    Unmeasured (unmeasured_hint: "'h size option") (unmeasured_focus: "'f option")
  | Measured (measured_size: "'h size") (measured_focus: "'f option")

fun li_size :: "('h, 'f) list_item \<Rightarrow> 'h size option" where
  "li_size (Measured s _) = Some s"
| "li_size (Unmeasured _ _) = None"

fun li_size_hint :: "('h, 'f) list_item \<Rightarrow> 'h size option" where
  "li_size_hint (Measured s _) = Some s"
| "li_size_hint (Unmeasured hint _) = hint"

fun li_focus_handle :: "('h, 'f) list_item \<Rightarrow> 'f option" where
  "li_focus_handle (Measured _ f) = f"
| "li_focus_handle (Unmeasured _ f) = f"

definition li_contains_focused :: "('f \<Rightarrow> bool) \<Rightarrow> ('h, 'f) list_item \<Rightarrow> bool" where
  "li_contains_focused focused item = (case li_focus_handle item of Some f \<Rightarrow> focused f | None \<Rightarrow> False)"

record 'h list_summary =
  ls_count :: nat
  ls_rendered_count :: nat
  ls_unrendered_count :: nat
  ls_height :: 'h
  ls_has_focus_handles :: bool
  ls_has_unknown_height :: bool

fun li_summary :: "('h::linordered_field, 'f) list_item \<Rightarrow> 'h list_summary" where
  "li_summary (Unmeasured hint focus) =
     \<lparr>ls_count = 1, ls_rendered_count = 0, ls_unrendered_count = 1,
      ls_height = (case hint of Some s \<Rightarrow> size.height s | None \<Rightarrow> 0),
      ls_has_focus_handles = (focus \<noteq> None), ls_has_unknown_height = (hint = None)\<rparr>"
| "li_summary (Measured s focus) =
     \<lparr>ls_count = 1, ls_rendered_count = 1, ls_unrendered_count = 0, ls_height = size.height s,
      ls_has_focus_handles = (focus \<noteq> None), ls_has_unknown_height = False\<rparr>"

definition ls_zero :: "'h::linordered_field list_summary" where
  "ls_zero = \<lparr>ls_count = 0, ls_rendered_count = 0, ls_unrendered_count = 0, ls_height = 0,
     ls_has_focus_handles = False, ls_has_unknown_height = False\<rparr>"

definition ls_add :: "'h::linordered_field list_summary \<Rightarrow> 'h list_summary \<Rightarrow> 'h list_summary" where
  "ls_add s summary =
     \<lparr>ls_count = ls_count s + ls_count summary,
      ls_rendered_count = ls_rendered_count s + ls_rendered_count summary,
      ls_unrendered_count = ls_unrendered_count s + ls_unrendered_count summary,
      ls_height = ls_height s + ls_height summary,
      ls_has_focus_handles = (ls_has_focus_handles s \<or> ls_has_focus_handles summary),
      ls_has_unknown_height = (ls_has_unknown_height s \<or> ls_has_unknown_height summary)\<rparr>"

definition list_ops :: "(('h::linordered_field, 'f) list_item, 'h list_summary) summary_ops" where
  "list_ops = \<lparr>item_summary = li_summary, summary_zero = ls_zero, summary_add = ls_add\<rparr>"

text \<open>The dimensions \<open>Count\<close>, \<open>ListItemSummary\<close> and \<open>Dimensions<Count, Height>\<close>, and their targets.\<close>

definition count_dim :: "('h list_summary, nat) dim_ops" where
  "count_dim = \<lparr>dim_zero = 0, dim_add = (\<lambda>n s. n + ls_count s)\<rparr>"

definition list_sum_dim :: "('h::linordered_field list_summary, 'h list_summary) dim_ops" where
  "list_sum_dim = \<lparr>dim_zero = ls_zero, dim_add = ls_add\<rparr>"

definition count_height_dim :: "('h::linordered_field list_summary, nat \<times> 'h) dim_ops" where
  "count_height_dim = \<lparr>dim_zero = (0, 0), dim_add = (\<lambda>(n, h) s. (n + ls_count s, h + ls_height s))\<rparr>"

definition count_target :: "nat \<Rightarrow> 'h list_summary target" where
  "count_target n = (\<lambda>other. ord_cmp n (ls_count other))"

definition height_target :: "'h::linordered_field \<Rightarrow> 'h list_summary target" where
  "height_target y = (\<lambda>other. ord_cmp y (ls_height other))"

definition pair_count_target :: "nat \<Rightarrow> (nat \<times> 'h) target" where
  "pair_count_target n = (\<lambda>location. ord_cmp n (fst location))"

interpretation list_count: dimension list_ops count_dim
  by unfold_locales (auto simp: list_ops_def count_dim_def ls_add_def ls_zero_def)

interpretation list_sum: dimension list_ops list_sum_dim
  by unfold_locales (auto simp: list_ops_def list_sum_dim_def ls_add_def ls_zero_def)

interpretation list_pair: dimension list_ops count_height_dim
  by unfold_locales (auto simp: list_ops_def count_height_dim_def ls_add_def ls_zero_def)

section \<open>The state\<close>

record 'h list_offset =
  item_ix :: nat
  offset_in_item :: 'h

datatype 'h pending_scroll = Absolute nat 'h | Proportional nat 'h

datatype scroll_anchor = Absolute_Anchor | Proportional_Anchor

datatype follow_mode = Normal_Mode | Tail_Mode

datatype follow_state = Normal_Follow | Tail_Follow bool

datatype list_alignment = Align_Top | Align_Bottom

datatype measuring_behavior = Measure bool | Visible

fun is_following :: "follow_state \<Rightarrow> bool" where
  "is_following (Tail_Follow f) = f"
| "is_following Normal_Follow = False"

fun has_stopped_following :: "follow_state \<Rightarrow> bool" where
  "has_stopped_following (Tail_Follow f) = (\<not> f)"
| "has_stopped_following Normal_Follow = False"

fun start_following :: "follow_state \<Rightarrow> follow_state" where
  "start_following (Tail_Follow False) = Tail_Follow True"
| "start_following f = f"

fun stop_following :: "follow_state \<Rightarrow> follow_state" where
  "stop_following (Tail_Follow True) = Tail_Follow False"
| "stop_following f = f"

fun measuring_reset :: "measuring_behavior \<Rightarrow> measuring_behavior" where
  "measuring_reset (Measure _) = Measure False"
| "measuring_reset Visible = Visible"

record ('h, 'f) list_state =
  last_layout_bounds :: "'h bounds option"
  last_padding :: "'h edges option"
  items :: "(('h, 'f) list_item, 'h list_summary) node"
  logical_scroll_top :: "'h list_offset option"
  alignment :: list_alignment
  overdraw :: 'h
  ls_reset :: bool
  scrollbar_drag_start_height :: "'h option"
  measuring :: measuring_behavior
  pending_scroll :: "'h pending_scroll option"
  follow :: follow_state
  tail_reservation :: "(nat \<times> 'h) option"
  tail_extra :: 'h

definition bounds_zero :: "'h::linordered_field bounds" where
  "bounds_zero = \<lparr>origin = \<lparr>px = 0, py = 0\<rparr>, bsize = \<lparr>width = 0, height = 0\<rparr>\<rparr>"

definition layout_bounds :: "('h::linordered_field, 'f) list_state \<Rightarrow> 'h bounds" where
  "layout_bounds s = (case last_layout_bounds s of Some b \<Rightarrow> b | None \<Rightarrow> bounds_zero)"

definition padding_of :: "('h::linordered_field, 'f) list_state \<Rightarrow> 'h edges" where
  "padding_of s = (case last_padding s of Some p \<Rightarrow> p | None \<Rightarrow> edges_all 0)"

definition item_count :: "('h, 'f) list_state \<Rightarrow> nat" where
  "item_count s = ls_count (node_summary (items s))"

definition the_scroll_top :: "('h::linordered_field, 'f) list_state \<Rightarrow> 'h list_offset" where
  "the_scroll_top s =
     (case logical_scroll_top s of
        Some o' \<Rightarrow> o'
      | None \<Rightarrow> (case alignment s of
                   Align_Top \<Rightarrow> \<lparr>item_ix = 0, offset_in_item = 0\<rparr>
                 | Align_Bottom \<Rightarrow> \<lparr>item_ix = item_count s, offset_in_item = 0\<rparr>))"

text \<open>The pixel position of an offset.\<close>

definition scroll_top_pixels :: "('h::linordered_field, 'f) list_state \<Rightarrow> 'h list_offset \<Rightarrow> 'h" where
  "scroll_top_pixels s off =
     (case tree_find list_sum_dim (items s) (count_target (item_ix off)) RightBias of
        (start, _, _) \<Rightarrow> ls_height start + offset_in_item off)"

section \<open>Replacing items\<close>

definition clear_tail_extra :: "('h::linordered_field, 'f) list_state \<Rightarrow> ('h, 'f) list_state option" where
  "clear_tail_extra s =
     (if tail_extra s = 0 \<or> tree_is_empty (items s) then Some s
      else if item_count s = 0 then None
      else do {
        (new_items, c) \<leftarrow> cursor_slice list_ops count_dim (ord_target (item_count s - 1)) RightBias
          (cursor_new count_dim (items s));
        item \<leftarrow> cursor_item c;
        new_items \<leftarrow> (case item of
            Some item \<Rightarrow> tree_push list_ops new_items
              (Unmeasured (map_option (\<lambda>sz. sz\<lparr>height := max (size.height sz - tail_extra s) 0\<rparr>) (li_size_hint item))
                 (li_focus_handle item))
          | None \<Rightarrow> Some new_items);
        Some (s\<lparr>items := new_items, tail_extra := 0\<rparr>) })"

definition set_tail_reservation ::
  "(nat \<times> 'h::linordered_field) option \<Rightarrow> ('h, 'f) list_state \<Rightarrow> ('h, 'f) list_state option" where
  "set_tail_reservation reservation s =
     (if tail_reservation s = reservation then Some s
      else do { s \<leftarrow> clear_tail_extra s; Some (s\<lparr>tail_reservation := reservation\<rparr>) })"

text \<open>The index of the scroll position after a splice; the subtraction of the range may underflow.\<close>

definition spliced_top :: "nat \<Rightarrow> nat \<Rightarrow> nat \<Rightarrow> 'h::linordered_field list_offset \<Rightarrow> 'h list_offset option" where
  "spliced_top old_start old_end spliced_count off =
     (if old_start \<le> item_ix off \<and> item_ix off < old_end then Some \<lparr>item_ix = old_start, offset_in_item = 0\<rparr>
      else if old_end \<le> item_ix off then
        (if old_end < old_start then None
         else Some (off\<lparr>item_ix := item_ix off - (old_end - old_start) + spliced_count\<rparr>))
      else Some off)"

definition splice_focusable ::
  "nat \<Rightarrow> nat \<Rightarrow> 'f option list \<Rightarrow> ('h::linordered_field, 'f) list_state \<Rightarrow> ('h, 'f) list_state option" where
  "splice_focusable old_start old_end focus_handles s =
     do { s \<leftarrow> clear_tail_extra s;
          (new_items, c) \<leftarrow> cursor_slice list_ops count_dim (ord_target old_start) RightBias
            (cursor_new count_dim (items s));
          (_, c) \<leftarrow> cursor_seek_forward count_dim (ord_target old_end) RightBias c;
          new_items \<leftarrow> tree_extend list_ops new_items (map (Unmeasured None) focus_handles);
          (suffix, _) \<leftarrow> cursor_suffix list_ops count_dim c;
          new_items \<leftarrow> tree_append list_ops new_items suffix;
          (let s = s\<lparr>items := new_items\<rparr> in
           case logical_scroll_top s of
             None \<Rightarrow> Some s
           | Some off \<Rightarrow> do {
               off \<leftarrow> spliced_top old_start old_end (length focus_handles) off;
               Some (s\<lparr>logical_scroll_top := Some off\<rparr>) }) }"

definition list_splice ::
  "nat \<Rightarrow> nat \<Rightarrow> nat \<Rightarrow> ('h::linordered_field, 'f) list_state \<Rightarrow> ('h, 'f) list_state option" where
  "list_splice old_start old_end n s = splice_focusable old_start old_end (replicate n None) s"

definition list_state_new :: "nat \<Rightarrow> list_alignment \<Rightarrow> 'h::linordered_field \<Rightarrow> ('h, 'f) list_state option" where
  "list_state_new n align draw =
     list_splice 0 0 n
       \<lparr>last_layout_bounds = None, last_padding = None, items = tree_new list_ops, logical_scroll_top = None,
        alignment = align, overdraw = draw, ls_reset = False, scrollbar_drag_start_height = None,
        measuring = Visible, pending_scroll = None, follow = Normal_Follow, tail_reservation = None, tail_extra = 0\<rparr>"

definition list_reset :: "nat \<Rightarrow> ('h::linordered_field, 'f) list_state \<Rightarrow> ('h, 'f) list_state option" where
  "list_reset element_count s =
     list_splice 0 (item_count s) element_count
       (s\<lparr>ls_reset := True, measuring := measuring_reset (measuring s), logical_scroll_top := None,
          pending_scroll := None, scrollbar_drag_start_height := None\<rparr>)"

definition measure_all :: "('h, 'f) list_state \<Rightarrow> ('h, 'f) list_state" where
  "measure_all s = s\<lparr>measuring := Measure False\<rparr>"

text \<open>\<open>SumTree::iter().map(f).collect()\<close>.\<close>

definition collect_items :: "('t \<Rightarrow> 't) \<Rightarrow> ('t, 's) node \<Rightarrow> 't list option" where
  "collect_items f t = map_option (\<lambda>(xs, _). map f xs) (iter_items (iter_new t))"

definition apply_uniform_item_height ::
  "'h::linordered_field \<Rightarrow> ('h, 'f) list_state \<Rightarrow> ('h, 'f) list_state option" where
  "apply_uniform_item_height h s =
     (let size_hint = \<lparr>width = 0, height = h\<rparr> in
      do { new_items \<leftarrow> collect_items (\<lambda>item. Unmeasured
             (Some (case li_size_hint item of Some sz \<Rightarrow> sz | None \<Rightarrow> size_hint)) (li_focus_handle item)) (items s);
           t \<leftarrow> tree_extend list_ops (tree_new list_ops) new_items;
           Some (s\<lparr>items := t\<rparr>) })"

definition reset_with_uniform_height ::
  "nat \<Rightarrow> 'h::linordered_field \<Rightarrow> ('h, 'f) list_state \<Rightarrow> ('h, 'f) list_state option" where
  "reset_with_uniform_height element_count h s =
     do { s \<leftarrow> list_reset element_count s; apply_uniform_item_height h s }"

section \<open>Remeasuring\<close>

definition clamp_unit :: "'h::linordered_field \<Rightarrow> 'h" where
  "clamp_unit x = (if x < 0 then 0 else if x > 1 then 1 else x)"

definition remeasure_pending ::
  "scroll_anchor \<Rightarrow> 'h::linordered_field list_offset \<Rightarrow> ('h, 'f) list_state \<Rightarrow> 'h pending_scroll option option" where
  "remeasure_pending scroll_anchor off s =
     (case scroll_anchor of
        Absolute_Anchor \<Rightarrow> Some (Some (Absolute (item_ix off) (offset_in_item off)))
      | Proportional_Anchor \<Rightarrow>
          do { (_, c) \<leftarrow> cursor_seek count_dim (ord_target (item_ix off)) RightBias (cursor_new count_dim (items s));
               item \<leftarrow> cursor_item c;
               Some (case Option.bind item li_size of
                   Some sz \<Rightarrow> Some (Proportional (item_ix off)
                     (if size.height sz > 0 then clamp_unit (offset_in_item off / size.height sz) else 0))
                 | None \<Rightarrow> pending_scroll s) })"

definition remeasure_items_with_scroll_anchor ::
  "nat \<Rightarrow> nat \<Rightarrow> scroll_anchor \<Rightarrow> ('h::linordered_field, 'f) list_state \<Rightarrow> ('h, 'f) list_state option" where
  "remeasure_items_with_scroll_anchor start finish scroll_anchor s =
     do { pending \<leftarrow> (case logical_scroll_top s of
              Some off \<Rightarrow> if start \<le> item_ix off \<and> item_ix off < finish
                 then remeasure_pending scroll_anchor off s else Some (pending_scroll s)
            | None \<Rightarrow> Some (pending_scroll s));
          (new_items, c) \<leftarrow> cursor_slice list_ops count_dim (ord_target start) RightBias (cursor_new count_dim (items s));
          (invalidated, c) \<leftarrow> cursor_slice list_ops count_dim (ord_target finish) RightBias c;
          unmeasured \<leftarrow> collect_items (\<lambda>item. Unmeasured (li_size_hint item) (li_focus_handle item)) invalidated;
          new_items \<leftarrow> tree_extend list_ops new_items unmeasured;
          (suffix, _) \<leftarrow> cursor_suffix list_ops count_dim c;
          new_items \<leftarrow> tree_append list_ops new_items suffix;
          Some (s\<lparr>pending_scroll := pending, items := new_items, measuring := measuring_reset (measuring s)\<rparr>) }"

definition remeasure :: "('h::linordered_field, 'f) list_state \<Rightarrow> ('h, 'f) list_state option" where
  "remeasure s = remeasure_items_with_scroll_anchor 0 (item_count s) Proportional_Anchor s"

definition remeasure_items ::
  "nat \<Rightarrow> nat \<Rightarrow> ('h::linordered_field, 'f) list_state \<Rightarrow> ('h, 'f) list_state option" where
  "remeasure_items start finish s = remeasure_items_with_scroll_anchor start finish Absolute_Anchor s"

end
