(* ===== verification/List_Scroll.thy ===== *)
theory List_Scroll
  imports List_State
begin

text \<open>
  Scrolling a list and asking where its items are (\<open>gpui/src/elements/list.rs\<close>).
\<close>

section \<open>Pending adjustments\<close>

definition rebase_pending_scroll ::
  "'h::linordered_field list_offset \<Rightarrow> ('h, 'f) list_state \<Rightarrow> ('h, 'f) list_state option" where
  "rebase_pending_scroll off s =
     (case pending_scroll s of
        None \<Rightarrow> Some s
      | Some pending \<Rightarrow>
          if item_ix off \<ge> item_count s then Some (s\<lparr>pending_scroll := None\<rparr>)
          else (case pending of
             Absolute _ _ \<Rightarrow> Some (s\<lparr>pending_scroll := Some (Absolute (item_ix off) (offset_in_item off))\<rparr>)
           | Proportional _ _ \<Rightarrow>
               do { (_, c) \<leftarrow> cursor_seek count_dim (ord_target (item_ix off)) RightBias (cursor_new count_dim (items s));
                    item \<leftarrow> cursor_item c;
                    Some (s\<lparr>pending_scroll :=
                      (case Option.bind item li_size_hint of
                         Some sz \<Rightarrow> if size.height sz > 0
                           then Some (Proportional (item_ix off) (clamp_unit (offset_in_item off / size.height sz)))
                           else None
                       | None \<Rightarrow> None)\<rparr>) }))"

text \<open>The end of the scrolling operations.\<close>

definition set_scroll_top ::
  "'h::linordered_field list_offset \<Rightarrow> ('h, 'f) list_state \<Rightarrow> ('h, 'f) list_state option" where
  "set_scroll_top off s =
     do { s \<leftarrow> rebase_pending_scroll off s; Some (s\<lparr>logical_scroll_top := Some off\<rparr>) }"

section \<open>Scrolling\<close>

definition scroll_by :: "'h::linordered_field \<Rightarrow> ('h, 'f) list_state \<Rightarrow> ('h, 'f) list_state option" where
  "scroll_by distance s =
     (if distance = 0 then Some s
      else
        (let current_offset = the_scroll_top s;
             s = (if distance < 0 then s\<lparr>follow := stop_following (follow s)\<rparr> else s) in
         do { (_, c) \<leftarrow> cursor_seek list_sum_dim (count_target (item_ix current_offset)) RightBias
                (cursor_new list_sum_dim (items s));
              (let start_pixel_offset = ls_height (cur_position c) + offset_in_item current_offset;
                   new_pixel_offset = max (start_pixel_offset + distance) 0 in
               do { (_, c) \<leftarrow> (if new_pixel_offset \<ge> ls_height (cur_position c)
                      then cursor_seek_forward list_sum_dim (height_target new_pixel_offset) RightBias c
                      else cursor_seek list_sum_dim (height_target new_pixel_offset) RightBias c);
                    set_scroll_top \<lparr>item_ix = ls_count (cur_position c),
                      offset_in_item = new_pixel_offset - ls_height (cur_position c)\<rparr> s }) }))"

definition scroll_to_end :: "('h::linordered_field, 'f) list_state \<Rightarrow> ('h, 'f) list_state" where
  "scroll_to_end s =
     s\<lparr>pending_scroll := None, logical_scroll_top := Some \<lparr>item_ix = item_count s, offset_in_item = 0\<rparr>\<rparr>"

definition set_follow_mode :: "follow_mode \<Rightarrow> ('h::linordered_field, 'f) list_state \<Rightarrow> ('h, 'f) list_state" where
  "set_follow_mode mode s =
     (case mode of
        Normal_Mode \<Rightarrow> s\<lparr>follow := Normal_Follow\<rparr>
      | Tail_Mode \<Rightarrow> s\<lparr>follow := Tail_Follow True,
          logical_scroll_top := Some \<lparr>item_ix = item_count s, offset_in_item = 0\<rparr>\<rparr>)"

definition is_following_tail :: "('h, 'f) list_state \<Rightarrow> bool" where
  "is_following_tail s = (follow s = Tail_Follow True)"

definition scroll_to :: "'h::linordered_field list_offset \<Rightarrow> ('h, 'f) list_state \<Rightarrow> ('h, 'f) list_state option" where
  "scroll_to off s =
     (let off = (if item_ix off \<ge> item_count s then \<lparr>item_ix = item_count s, offset_in_item = 0\<rparr> else off);
          s = (if item_ix off < item_count s then s\<lparr>follow := stop_following (follow s)\<rparr> else s) in
      set_scroll_top off s)"

definition scroll_to_reveal_item :: "nat \<Rightarrow> ('h::linordered_field, 'f) list_state \<Rightarrow> ('h, 'f) list_state option" where
  "scroll_to_reveal_item ix s =
     (let off = the_scroll_top s;
          viewport = (case last_layout_bounds s of Some b \<Rightarrow> size.height (bsize b) | None \<Rightarrow> 0);
          padding = padding_of s in
      do { off \<leftarrow>
             (if ix \<le> item_ix off then Some \<lparr>item_ix = ix, offset_in_item = 0\<rparr>
              else
                do { (_, c) \<leftarrow> cursor_seek list_sum_dim (count_target (ix + 1)) RightBias
                       (cursor_new list_sum_dim (items s));
                     (let bottom = ls_height (cur_position c) + e_top padding;
                          goal_top = max 0 (bottom - viewport + e_bottom padding) in
                      do { (_, c) \<leftarrow> cursor_seek list_sum_dim (height_target goal_top) LeftBias c;
                           (let start_ix = ls_count (cur_position c); start_item_top = ls_height (cur_position c) in
                            Some (if start_ix \<ge> item_ix off
                                  then \<lparr>item_ix = start_ix, offset_in_item = goal_top - start_item_top\<rparr>
                                  else off)) }) });
           set_scroll_top off s })"

section \<open>The scrollbar\<close>

definition content_height :: "('h::linordered_field, 'f) list_state \<Rightarrow> 'h" where
  "content_height s =
     (case scrollbar_drag_start_height s of Some h \<Rightarrow> h | None \<Rightarrow> ls_height (node_summary (items s)))"

definition max_scroll_offset :: "('h::linordered_field, 'f) list_state \<Rightarrow> 'h" where
  "max_scroll_offset s = max (content_height s - size.height (bsize (layout_bounds s))) 0"

definition scrollbar_drag_started :: "('h::linordered_field, 'f) list_state \<Rightarrow> ('h, 'f) list_state" where
  "scrollbar_drag_started s = s\<lparr>scrollbar_drag_start_height := Some (ls_height (node_summary (items s)))\<rparr>"

definition scrollbar_drag_ended :: "('h, 'f) list_state \<Rightarrow> ('h, 'f) list_state" where
  "scrollbar_drag_ended s = s\<lparr>scrollbar_drag_start_height := None\<rparr>"

definition is_scrollbar_dragging :: "('h, 'f) list_state \<Rightarrow> bool" where
  "is_scrollbar_dragging s = (scrollbar_drag_start_height s \<noteq> None)"

definition max_offset_for_scrollbar :: "('h::linordered_field, 'f) list_state \<Rightarrow> 'h point" where
  "max_offset_for_scrollbar s = \<lparr>px = 0, py = max_scroll_offset s\<rparr>"

text \<open>The position in the items at a pixel offset from their top.\<close>

definition offset_at_pixel :: "'h::linordered_field \<Rightarrow> ('h, 'f) list_state \<Rightarrow> 'h list_offset" where
  "offset_at_pixel y s =
     (case tree_find list_sum_dim (items s) (height_target y) RightBias of
        (start, _, _) \<Rightarrow> \<lparr>item_ix = ls_count start, offset_in_item = y - ls_height start\<rparr>)"

definition set_offset_from_scrollbar ::
  "'h::linordered_field point \<Rightarrow> ('h, 'f) list_state \<Rightarrow> ('h, 'f) list_state option" where
  "set_offset_from_scrollbar p s =
     (case last_layout_bounds s of
        None \<Rightarrow> Some s
      | Some b \<Rightarrow>
          (let padding = padding_of s;
               scroll_max = max (content_height s + e_top padding + e_bottom padding - size.height (bsize b)) 0;
               new_scroll_top = min (max (- py p) 0) scroll_max;
               dragged_to_end = (scroll_max > 0 \<and> new_scroll_top \<ge> max (scroll_max - 1) 0) in
           if dragged_to_end \<and> (case follow s of Tail_Follow _ \<Rightarrow> True | Normal_Follow \<Rightarrow> False) then
             Some (s\<lparr>follow := Tail_Follow True, pending_scroll := None,
                     logical_scroll_top := Some \<lparr>item_ix = item_count s, offset_in_item = 0\<rparr>\<rparr>)
           else
             (let s = s\<lparr>follow := stop_following (follow s)\<rparr> in
              if alignment s = Align_Bottom \<and> new_scroll_top = scroll_max then
                Some (s\<lparr>pending_scroll := None, logical_scroll_top := None\<rparr>)
              else set_scroll_top (offset_at_pixel new_scroll_top s) s)))"

definition scroll_px_offset_for_scrollbar :: "('h::linordered_field, 'f) list_state \<Rightarrow> 'h point option" where
  "scroll_px_offset_for_scrollbar s =
     (if logical_scroll_top s = None \<and> alignment s = Align_Bottom then
        Some \<lparr>px = 0, py = - max_scroll_offset s\<rparr>
      else
        do { (summary, _) \<leftarrow> cursor_summary list_sum_dim list_sum_dim (count_target (item_ix (the_scroll_top s))) RightBias
               (cursor_new list_sum_dim (items s));
             Some \<lparr>px = 0, py = - (ls_height summary + offset_in_item (the_scroll_top s))\<rparr> })"

section \<open>Where items are\<close>

definition viewport_bounds :: "('h::linordered_field, 'f) list_state \<Rightarrow> 'h bounds" where
  "viewport_bounds s = layout_bounds s"

definition offset_for_item :: "nat \<Rightarrow> ('h::linordered_field, 'f) list_state \<Rightarrow> 'h option" where
  "offset_for_item ix s =
     map_option (\<lambda>(summary, _). ls_height summary)
       (cursor_summary list_sum_dim list_sum_dim (count_target ix) RightBias (cursor_new list_sum_dim (items s)))"

definition tail_reservation_filled :: "('h::linordered_field, 'f) list_state \<Rightarrow> bool option" where
  "tail_reservation_filled s =
     (case tail_reservation s of
        None \<Rightarrow> Some False
      | Some (start, margin) \<Rightarrow>
          (let minimum = max (size.height (bsize (layout_bounds s)) - margin) 0 in
           do { (prefix, _) \<leftarrow> cursor_summary list_sum_dim list_sum_dim (count_target start) RightBias
                  (cursor_new list_sum_dim (items s));
                Some (ls_height (node_summary (items s)) - tail_extra s - ls_height prefix \<ge> minimum) }))"

definition is_scrolled_to_end :: "('h::linordered_field, 'f) list_state \<Rightarrow> bool option" where
  "is_scrolled_to_end s =
     do { b \<leftarrow> last_layout_bounds s;
          (let summary = node_summary (items s); padding = padding_of s;
               scroll_max = max (ls_height summary + e_top padding + e_bottom padding - size.height (bsize b)) 0 in
           if ls_has_unknown_height summary then None
           else if scroll_max \<le> 0 then None
           else Some (scroll_top_pixels s (the_scroll_top s) \<ge> scroll_max)) }"

text \<open>The outer option is the panic, the inner one the answer.\<close>

definition bounds_for_item :: "nat \<Rightarrow> ('h::linordered_field, 'f) list_state \<Rightarrow> 'h bounds option option" where
  "bounds_for_item ix s =
     (let b = layout_bounds s; off = the_scroll_top s in
      if ix < item_ix off then Some None
      else
        do { (_, c) \<leftarrow> cursor_seek count_height_dim (pair_count_target (item_ix off)) RightBias
               (cursor_new count_height_dim (items s));
             (let scroll_top = snd (cur_position c) + offset_in_item off in
              do { (_, c) \<leftarrow> cursor_seek_forward count_height_dim (pair_count_target ix) RightBias c;
                   item \<leftarrow> cursor_item c;
                   Some (case item of
                     Some (Measured sz _) \<Rightarrow>
                       (if fst (cur_position c) = ix then
                          (let y = b_top b + snd (cur_position c) - scroll_top in
                           Some (from_corners \<lparr>px = b_left b, py = y\<rparr> \<lparr>px = b_right b, py = y + size.height sz\<rparr>))
                        else None)
                   | _ \<Rightarrow> None) }) })"

definition item_is_above_viewport :: "nat \<Rightarrow> ('h::linordered_field, 'f) list_state \<Rightarrow> bool option option" where
  "item_is_above_viewport ix s =
     (case last_layout_bounds s of
        None \<Rightarrow> Some None
      | Some viewport \<Rightarrow>
          if ix < item_ix (the_scroll_top s) then Some (Some True)
          else map_option (map_option (\<lambda>b. b_bottom b \<le> b_top viewport)) (bounds_for_item ix s))"

definition item_is_below_viewport :: "nat \<Rightarrow> ('h::linordered_field, 'f) list_state \<Rightarrow> bool option option" where
  "item_is_below_viewport ix s =
     (case last_layout_bounds s of
        None \<Rightarrow> Some None
      | Some viewport \<Rightarrow>
          if ix < item_ix (the_scroll_top s) then Some (Some False)
          else map_option (map_option (\<lambda>b. b_top b \<ge> b_bottom viewport)) (bounds_for_item ix s))"

section \<open>Wheel events\<close>

record scroll_event =
  visible_start :: nat
  visible_end :: nat
  event_count :: nat
  is_scrolled :: bool
  event_following :: bool

definition visible_range ::
  "(('h::linordered_field, 'f) list_item, 'h list_summary) node \<Rightarrow> 'h \<Rightarrow> 'h list_offset \<Rightarrow> (nat \<times> nat) option" where
  "visible_range its viewport off =
     do { (_, c) \<leftarrow> cursor_seek list_sum_dim (count_target (item_ix off)) RightBias (cursor_new list_sum_dim its);
          (let start_y = ls_height (cur_position c) + offset_in_item off in
           do { (_, c) \<leftarrow> cursor_seek_forward list_sum_dim (height_target (start_y + viewport)) LeftBias c;
                Some (item_ix off, ls_count (cur_position c) + 1) }) }"

text \<open>A wheel event moves by \<open>- delta\<close>; the event for the handler is computed when there is one.\<close>

definition list_scroll ::
  "bool \<Rightarrow> 'h::linordered_field list_offset \<Rightarrow> 'h \<Rightarrow> 'h point \<Rightarrow> ('h, 'f) list_state \<Rightarrow>
   (scroll_event option \<times> ('h, 'f) list_state) option" where
  "list_scroll has_handler off viewport delta s =
     (if ls_reset s then Some (None, s)
      else
        (let padding = padding_of s;
             scroll_max = max (ls_height (node_summary (items s)) + e_top padding + e_bottom padding - viewport) 0;
             new_scroll_top = min (max (scroll_top_pixels s off - py delta) 0) scroll_max in
         do { s \<leftarrow> (if alignment s = Align_Bottom \<and> new_scroll_top = scroll_max
                 then Some (s\<lparr>pending_scroll := None, logical_scroll_top := None\<rparr>)
                 else set_scroll_top (offset_at_pixel new_scroll_top s) s);
              (let s = (if py delta > 0 then s\<lparr>follow := stop_following (follow s)\<rparr> else s) in
               if has_handler then
                 do { (first, last) \<leftarrow> visible_range (items s) viewport off;
                      Some (Some \<lparr>visible_start = first, visible_end = last, event_count = item_count s,
                              is_scrolled = (logical_scroll_top s \<noteq> None),
                              event_following = is_following_tail s\<rparr>, s) }
               else Some (None, s)) }))"

end
