(* ===== verification/List_State_Correct.thy ===== *)
theory List_State_Correct
  imports List_Scroll
begin

text \<open>
  What the operations of a list do to the list of its items and to the position scrolled to.
\<close>

section \<open>Positions\<close>

definition li_height :: "('h::linordered_field, 'f) list_item \<Rightarrow> 'h" where
  "li_height x = ls_height (li_summary x)"

definition total_height :: "('h::linordered_field, 'f) list_item list \<Rightarrow> 'h" where
  "total_height xs = sum_list (map li_height xs)"

lemma total_height_simps [simp]:
  "total_height [] = 0" "total_height (x # xs) = li_height x + total_height xs"
  "total_height (xs @ ys) = total_height xs + total_height ys"
  by (simp_all add: total_height_def)

definition heights_ok :: "('h::linordered_field, 'f) list_item list \<Rightarrow> bool" where
  "heights_ok xs = list_all (\<lambda>x. 0 \<le> li_height x) xs"

lemma heights_ok_simps [simp]:
  "heights_ok []" "heights_ok (x # xs) \<longleftrightarrow> 0 \<le> li_height x \<and> heights_ok xs"
  "heights_ok (xs @ ys) \<longleftrightarrow> heights_ok xs \<and> heights_ok ys"
  by (simp_all add: heights_ok_def)

lemma total_height_nonneg: "heights_ok xs \<Longrightarrow> 0 \<le> total_height xs"
  by (induction xs) auto

lemma li_count [simp]: "ls_count (li_summary x) = 1"
  by (cases x) auto

lemma item_summary_list_ops [simp]: "item_summary list_ops = li_summary"
  by (simp add: list_ops_def)

lemma advance_count [simp]: "advance list_ops count_dim n xs = n + length xs"
  by (induction xs arbitrary: n) (auto simp: count_dim_def)

lemma advance_summary:
  "ls_count (advance list_ops list_sum_dim s xs) = ls_count s + length xs"
  "ls_height (advance list_ops list_sum_dim s xs) = ls_height s + total_height xs"
  "ls_has_unknown_height (advance list_ops list_sum_dim s xs) =
     (ls_has_unknown_height s \<or> list_ex (\<lambda>x. ls_has_unknown_height (li_summary x)) xs)"
  by (induction xs arbitrary: s) (auto simp: list_sum_dim_def ls_add_def li_height_def)

lemma advance_pair [simp]: "advance list_ops count_height_dim (n, h) xs = (n + length xs, h + total_height xs)"
  by (induction xs arbitrary: n h) (auto simp: count_height_dim_def li_height_def)

lemma ls_zero_simps [simp]: "ls_count ls_zero = 0" "ls_height ls_zero = 0" "ls_has_unknown_height ls_zero = False"
  by (simp_all add: ls_zero_def)

lemma dim_zero_simps [simp]:
  "dim_zero count_dim = 0" "dim_zero list_sum_dim = ls_zero" "dim_zero count_height_dim = (0, 0)"
  by (simp_all add: count_dim_def list_sum_dim_def count_height_dim_def)

text \<open>A target that compares with a growing measure of the positions is monotone.\<close>

lemma monotone_measure: "sorted (map f ps) \<Longrightarrow> monotone_target (\<lambda>p. ord_cmp y (f p)) ps"
  for f :: "'d \<Rightarrow> 'k::linorder"
proof -
  have "cmp_rank (ord_cmp y a) \<le> cmp_rank (ord_cmp y b)" if "a \<le> b" for a b
    using that by (auto simp: ord_cmp_def)
  then show "sorted (map f ps) \<Longrightarrow> monotone_target (\<lambda>p. ord_cmp y (f p)) ps"
    by (induction ps) (auto simp: monotone_target_def)
qed

lemma count_ends_sorted: "sorted (item_ends list_ops count_dim p xs)"
  "set (item_ends list_ops count_dim p xs) \<subseteq> {p..}"
proof -
  have "sorted (item_ends list_ops count_dim p xs) \<and> set (item_ends list_ops count_dim p xs) \<subseteq> {p..}"
    by (induction xs arbitrary: p) (fastforce simp: count_dim_def Let_def)+
  then show "sorted (item_ends list_ops count_dim p xs)" "set (item_ends list_ops count_dim p xs) \<subseteq> {p..}" by auto
qed

lemma summary_ends_sorted:
  "sorted (map ls_count (item_ends list_ops list_sum_dim p xs))"
  "heights_ok xs \<Longrightarrow> sorted (map ls_height (item_ends list_ops list_sum_dim p xs))"
proof -
  have "sorted (map ls_count (item_ends list_ops list_sum_dim p xs)) \<and>
    (\<forall>e \<in> set (item_ends list_ops list_sum_dim p xs). ls_count p \<le> ls_count e)"
    by (induction xs arbitrary: p) (fastforce simp: list_sum_dim_def ls_add_def Let_def)+
  then show "sorted (map ls_count (item_ends list_ops list_sum_dim p xs))" by blast
  have "heights_ok xs \<Longrightarrow> sorted (map ls_height (item_ends list_ops list_sum_dim p xs)) \<and>
    (\<forall>e \<in> set (item_ends list_ops list_sum_dim p xs). ls_height p \<le> ls_height e)"
  proof (induction xs arbitrary: p)
    case (Cons x xs)
    let ?e = "ls_add p (li_summary x)"
    have "ls_height p \<le> ls_height ?e" using Cons.prems by (simp add: ls_add_def li_height_def)
    then show ?case
      using Cons.IH [of ?e] Cons.prems by (auto simp: list_sum_dim_def Let_def intro: order_trans)
  qed simp
  then show "heights_ok xs \<Longrightarrow> sorted (map ls_height (item_ends list_ops list_sum_dim p xs))" by blast
qed

lemma pair_ends_sorted: "sorted (map fst (item_ends list_ops count_height_dim p xs))"
proof -
  have "sorted (map fst (item_ends list_ops count_height_dim p xs)) \<and>
    (\<forall>e \<in> set (item_ends list_ops count_height_dim p xs). fst p \<le> fst e)"
    by (induction xs arbitrary: p) (fastforce simp: count_height_dim_def Let_def split: prod.splits)+
  then show ?thesis by blast
qed

lemma mono_count [simp]: "monotone_target (ord_target n) (item_ends list_ops count_dim p xs)"
  using monotone_measure [of "\<lambda>p. p" "item_ends list_ops count_dim p xs" n] count_ends_sorted(1) [of p xs]
  by (simp add: ord_target_def)

lemma mono_count_target [simp]: "monotone_target (count_target n) (item_ends list_ops list_sum_dim p xs)"
  using monotone_measure [OF summary_ends_sorted(1)] by (simp add: count_target_def)

lemma mono_height_target: "heights_ok xs \<Longrightarrow> monotone_target (height_target y) (item_ends list_ops list_sum_dim p xs)"
  using monotone_measure [OF summary_ends_sorted(2)] by (simp add: height_target_def)

lemma mono_pair_target [simp]: "monotone_target (pair_count_target n) (item_ends list_ops count_height_dim p xs)"
  using monotone_measure [OF pair_ends_sorted] by (simp add: pair_count_target_def)

text \<open>What a seek by count passes.\<close>

lemma in_right: "target_in RightBias (ord_cmp a b) \<longleftrightarrow> a < b"
  by (auto simp: target_in_def ord_cmp_def)

lemma in_left: "target_in LeftBias (ord_cmp a b) \<longleftrightarrow> a \<le> b"
  by (auto simp: target_in_def ord_cmp_def)

lemma passed_count [simp]: "passed list_ops count_dim (ord_target n) RightBias p xs = take (n - p) xs"
proof (induction xs arbitrary: p)
  case (Cons x xs)
  have "n - p = Suc m \<Longrightarrow> n - Suc p = m" for m by simp
  with Cons show ?case by (cases "n - p") (auto simp: count_dim_def Let_def ord_target_def in_right)
qed simp

lemma passed_count_target [simp]:
  "passed list_ops list_sum_dim (count_target n) RightBias p xs = take (n - ls_count p) xs"
proof (induction xs arbitrary: p)
  case (Cons x xs)
  have "n - ls_count p = Suc m \<Longrightarrow> n - Suc (ls_count p) = m" for m by simp
  with Cons show ?case
    by (cases "n - ls_count p") (auto simp: list_sum_dim_def ls_add_def Let_def count_target_def in_right)
qed simp

lemma passed_pair_target [simp]:
  "passed list_ops count_height_dim (pair_count_target n) RightBias p xs = take (n - fst p) xs"
proof (induction xs arbitrary: p)
  case (Cons x xs)
  have "n - fst p = Suc m \<Longrightarrow> n - Suc (fst p) = m" for m by simp
  with Cons show ?case
    by (cases "n - fst p") (auto simp: count_height_dim_def Let_def pair_count_target_def in_right split: prod.splits)
qed simp

lemma not_passed_eq [simp]:
  "not_passed list_ops count_dim (ord_target n) RightBias p xs = drop (n - p) xs"
  "not_passed list_ops list_sum_dim (count_target n) RightBias s xs = drop (n - ls_count s) xs"
  "not_passed list_ops count_height_dim (pair_count_target n) RightBias q xs = drop (n - fst q) xs"
  by (auto simp: not_passed_def min_def)

text \<open>What a seek by height passes: the rows above a pixel, with bias \<open>Right\<close> those that end on it as well.\<close>

fun rows_above :: "'h::linordered_field \<Rightarrow> ('h, 'f) list_item list \<Rightarrow> ('h, 'f) list_item list" where
  "rows_above y [] = []"
| "rows_above y (x # xs) = (if li_height x \<le> y then x # rows_above (y - li_height x) xs else [])"

lemma passed_height [simp]:
  "passed list_ops list_sum_dim (height_target y) RightBias p xs = rows_above (y - ls_height p) xs"
proof (induction xs arbitrary: p)
  case (Cons x xs)
  have "dim_add list_sum_dim p (li_summary x) = ls_add p (li_summary x)"
    "ls_height (ls_add p (li_summary x)) = ls_height p + li_height x"
    by (simp_all add: list_sum_dim_def ls_add_def li_height_def)
  then show ?case
    using Cons.IH [of "ls_add p (li_summary x)"]
    by (auto simp: Let_def height_target_def in_right not_less le_diff_eq less_diff_eq add.commute algebra_simps)
qed simp

lemma rows_above_prefix: "rows_above y xs @ drop (length (rows_above y xs)) xs = xs"
  by (induction xs arbitrary: y) auto

lemma rows_above_le: "0 \<le> y \<Longrightarrow> total_height (rows_above y xs) \<le> y"
proof (induction xs arbitrary: y)
  case (Cons x xs)
  then show ?case using Cons.IH [of "y - li_height x"] by (auto simp: le_diff_eq add.commute)
qed simp

lemma rows_above_next:
  "drop (length (rows_above y xs)) xs = x # zs \<Longrightarrow> y < total_height (rows_above y xs) + li_height x"
proof (induction xs arbitrary: y)
  case (Cons z xs)
  then show ?case using Cons.IH [of "y - li_height z"] by (auto split: if_splits simp: algebra_simps)
qed simp

lemma rows_above_append:
  "heights_ok us \<Longrightarrow> total_height us \<le> y \<Longrightarrow> rows_above y (us @ ws) = us @ rows_above (y - total_height us) ws"
proof (induction us arbitrary: y)
  case (Cons x us)
  then have "li_height x \<le> y" using total_height_nonneg [of us] by auto
  then show ?case using Cons.IH [of "y - li_height x"] Cons.prems by (auto simp: algebra_simps)
qed simp

lemma not_passed_height [simp]:
  "not_passed list_ops list_sum_dim (height_target y) RightBias p xs =
     drop (length (rows_above (y - ls_height p) xs)) xs"
  by (simp add: not_passed_def)

text \<open>With bias \<open>Left\<close>, the rows that end above the pixel.\<close>

fun rows_before :: "'h::linordered_field \<Rightarrow> ('h, 'f) list_item list \<Rightarrow> ('h, 'f) list_item list" where
  "rows_before y [] = []"
| "rows_before y (x # xs) = (if li_height x < y then x # rows_before (y - li_height x) xs else [])"

lemma passed_height_left [simp]:
  "passed list_ops list_sum_dim (height_target y) LeftBias p xs = rows_before (y - ls_height p) xs"
proof (induction xs arbitrary: p)
  case (Cons x xs)
  have "dim_add list_sum_dim p (li_summary x) = ls_add p (li_summary x)"
    "ls_height (ls_add p (li_summary x)) = ls_height p + li_height x"
    by (simp_all add: list_sum_dim_def ls_add_def li_height_def)
  then show ?case
    using Cons.IH [of "ls_add p (li_summary x)"]
    by (auto simp: Let_def height_target_def in_left not_le le_diff_eq less_diff_eq add.commute algebra_simps)
qed simp

lemma length_rows: "length (rows_above y xs) \<le> length xs" "length (rows_before y xs) \<le> length xs"
  by (induction xs arbitrary: y) auto

lemma rows_above_take: "rows_above y xs = take (length (rows_above y xs)) xs"
  by (induction xs arbitrary: y) auto

lemma rows_before_take: "rows_before y xs = take (length (rows_before y xs)) xs"
  by (induction xs arbitrary: y) auto

lemma rows_before_le: "0 \<le> y \<Longrightarrow> total_height (rows_before y xs) \<le> y"
proof (induction xs arbitrary: y)
  case (Cons x xs)
  then show ?case using Cons.IH [of "y - li_height x"] by (auto simp: le_diff_eq add.commute)
qed simp

section \<open>The invariant\<close>

abbreviation rows :: "('h::linordered_field, 'f) list_state \<Rightarrow> ('h, 'f) list_item list" where
  "rows s \<equiv> flat (items s)"

definition list_ok :: "('h::linordered_field, 'f) list_state \<Rightarrow> bool" where
  "list_ok s = (wf_tree list_ops 1 (items s) \<and> heights_ok (rows s) \<and> 0 \<le> tail_extra s \<and>
     (case logical_scroll_top s of None \<Rightarrow> True | Some off \<Rightarrow> item_ix off \<le> length (rows s)))"

definition shallow :: "('h, 'f) list_state \<Rightarrow> bool" where
  "shallow s = (node_height (items s) < STACK_CAP)"

lemma wf_summary:
  assumes "wf_tree list_ops k t"
  shows "ls_count (node_summary t) = length (flat t)" "ls_height (node_summary t) = total_height (flat t)"
    "ls_has_unknown_height (node_summary t) = list_ex (\<lambda>x. ls_has_unknown_height (li_summary x)) (flat t)"
proof -
  have "ls_add ls_zero (node_summary t) = advance list_ops list_sum_dim ls_zero (flat t)"
    using list_sum.tree_end_ok [OF assms] by (simp add: tree_end_def list_sum_dim_def)
  then have "ls_add ls_zero (node_summary t) = advance list_ops list_sum_dim ls_zero (flat t)" .
  from arg_cong [OF this, of ls_count] arg_cong [OF this, of ls_height] arg_cong [OF this, of ls_has_unknown_height]
  show "ls_count (node_summary t) = length (flat t)" "ls_height (node_summary t) = total_height (flat t)"
    "ls_has_unknown_height (node_summary t) = list_ex (\<lambda>x. ls_has_unknown_height (li_summary x)) (flat t)"
    by (simp_all add: advance_summary ls_add_def)
qed

lemma item_count_eq: "list_ok s \<Longrightarrow> item_count s = length (rows s)"
  unfolding list_ok_def item_count_def using wf_summary(1) by blast

lemma scroll_top_le: "list_ok s \<Longrightarrow> item_ix (the_scroll_top s) \<le> length (rows s)"
  using item_count_eq [of s]
  by (auto simp: the_scroll_top_def list_ok_def split: option.splits list_alignment.splits)

lemma cursor_new_position [simp]: "cur_position (cursor_new D t) = dim_zero D"
  by (simp add: cursor_new_def)

lemma base_ge_1: "1 \<le> TREE_BASE"
  by (simp add: TREE_BASE_def)

lemma not_less_count: "p \<le> n \<Longrightarrow> ord_target n p \<noteq> Less"
  "ls_count p' \<le> n \<Longrightarrow> count_target n p' \<noteq> Less"
  "ls_height p' \<le> y \<Longrightarrow> height_target y p' \<noteq> Less"
  "fst q \<le> n \<Longrightarrow> pair_count_target n q \<noteq> Less"
  by (auto simp: ord_target_def count_target_def height_target_def pair_count_target_def ord_cmp_def)

text \<open>Slicing and seeking by count.\<close>

lemma at_position: "cursor_at I D k c us ws \<Longrightarrow> cur_position c = advance I D (dim_zero D) us"
  by (simp add: cursor_at_def)

lemma at_count: "cursor_at list_ops count_dim k c us ws \<Longrightarrow> cur_position c = length us"
  using at_position [of list_ops count_dim k c us ws] by simp

lemma count_slice:
  assumes "wf_tree list_ops 1 t" "node_height t < STACK_CAP"
  shows "\<exists>a c. cursor_slice list_ops count_dim (ord_target n) RightBias (cursor_new count_dim t) = Some (a, c) \<and>
    wf_tree list_ops 1 a \<and> flat a = take n (flat t) \<and>
    cursor_at list_ops count_dim 1 c (take n (flat t)) (drop n (flat t)) \<and> cur_tree c = t"
  using list_count.cursor_slice_ok [OF base_ge_1, of "cursor_new count_dim t" "[]" "flat t" "ord_target n" RightBias]
    not_less_count(1) [of 0 n] cursor_fresh_new [OF assms, of count_dim]
  by (simp del: One_nat_def)

lemma count_slice_on:
  assumes "cursor_at list_ops count_dim 1 c us ws" "length us \<le> n"
  shows "\<exists>a c'. cursor_slice list_ops count_dim (ord_target n) RightBias c = Some (a, c') \<and>
    wf_tree list_ops 1 a \<and> flat a = take (n - length us) ws \<and>
    cursor_at list_ops count_dim 1 c' (us @ take (n - length us) ws) (drop (n - length us) ws)"
  using list_count.cursor_slice_ok [OF base_ge_1 disjI2 [OF assms(1)], of "ord_target n" RightBias]
    not_less_count(1) [OF assms(2)]
  unfolding at_count [OF assms(1)] by (auto simp del: One_nat_def)

lemma count_seek_on:
  assumes "cursor_at list_ops count_dim 1 c us ws" "length us \<le> n"
  shows "\<exists>b c'. cursor_seek_forward count_dim (ord_target n) RightBias c = Some (b, c') \<and>
    cursor_at list_ops count_dim 1 c' (us @ take (n - length us) ws) (drop (n - length us) ws)"
  using list_count.cursor_seek_forward_ok [OF disjI2 [OF assms(1)], of "ord_target n" RightBias]
    not_less_count(1) [OF assms(2)]
  unfolding at_count [OF assms(1)] by (auto simp del: One_nat_def)

lemma count_suffix_on:
  assumes "cursor_at list_ops count_dim 1 c us ws"
  shows "\<exists>b c'. cursor_suffix list_ops count_dim c = Some (b, c') \<and> wf_tree list_ops 1 b \<and> flat b = ws"
  using list_count.cursor_suffix_ok [OF base_ge_1 disjI2 [OF assms]] by blast

lemma count_seek:
  assumes "wf_tree list_ops 1 t" "node_height t < STACK_CAP"
  shows "\<exists>b c. cursor_seek count_dim (ord_target n) RightBias (cursor_new count_dim t) = Some (b, c) \<and>
    cursor_at list_ops count_dim 1 c (take n (flat t)) (drop n (flat t))"
  using list_count.cursor_seek_ok [OF disjI1 [OF cursor_fresh_new [OF assms]], of "ord_target n" RightBias]
    not_less_count(1) [of 0 n]
  by (auto simp del: One_nat_def)

lemma summary_seek_count:
  assumes "cursor_fresh list_ops list_sum_dim 1 c \<or> cursor_at list_ops list_sum_dim 1 c us ws"
  shows "\<exists>b c'. cursor_seek list_sum_dim (count_target n) RightBias c = Some (b, c') \<and> cur_tree c' = cur_tree c \<and>
    cursor_at list_ops list_sum_dim 1 c' (take n (flat (cur_tree c))) (drop n (flat (cur_tree c)))"
  using list_sum.cursor_seek_ok [OF assms, of "count_target n" RightBias] not_less_count(2) [of ls_zero n]
  by (auto simp del: One_nat_def)

lemma summary_seek_height:
  assumes "cursor_fresh list_ops list_sum_dim 1 c \<or> cursor_at list_ops list_sum_dim 1 c us ws"
    and "heights_ok (flat (cur_tree c))" "0 \<le> y"
  shows "\<exists>b c'. cursor_seek list_sum_dim (height_target y) RightBias c = Some (b, c') \<and>
      cursor_at list_ops list_sum_dim 1 c' (rows_above y (flat (cur_tree c)))
        (drop (length (rows_above y (flat (cur_tree c)))) (flat (cur_tree c)))"
    and "\<exists>b c'. cursor_seek list_sum_dim (height_target y) LeftBias c = Some (b, c') \<and>
      cursor_at list_ops list_sum_dim 1 c' (rows_before y (flat (cur_tree c)))
        (drop (length (rows_before y (flat (cur_tree c)))) (flat (cur_tree c)))"
proof -
  have m: "monotone_target (height_target y) (item_ends list_ops list_sum_dim (dim_zero list_sum_dim) (flat (cur_tree c)))"
    using assms(2) by (rule mono_height_target)
  have z: "height_target y (dim_zero list_sum_dim) \<noteq> Less" using assms(3) by (intro not_less_count(3)) simp
  from list_sum.cursor_seek_ok [OF assms(1) m z, of RightBias]
  show "\<exists>b c'. cursor_seek list_sum_dim (height_target y) RightBias c = Some (b, c') \<and>
      cursor_at list_ops list_sum_dim 1 c' (rows_above y (flat (cur_tree c)))
        (drop (length (rows_above y (flat (cur_tree c)))) (flat (cur_tree c)))"
    by (auto simp del: One_nat_def)
  from list_sum.cursor_seek_ok [OF assms(1) m z, of LeftBias]
  show "\<exists>b c'. cursor_seek list_sum_dim (height_target y) LeftBias c = Some (b, c') \<and>
      cursor_at list_ops list_sum_dim 1 c' (rows_before y (flat (cur_tree c)))
        (drop (length (rows_before y (flat (cur_tree c)))) (flat (cur_tree c)))"
    by (auto simp: not_passed_def simp del: One_nat_def)
qed

lemma summary_at:
  assumes "cursor_at list_ops list_sum_dim 1 c us ws"
  shows "ls_count (cur_position c) = length us" "ls_height (cur_position c) = total_height us"
  using at_position [OF assms] by (simp_all add: advance_summary)

text \<open>Going forward from a place above the pixel ends where a search from the top does.\<close>

lemma summary_seek_forward_height:
  assumes c: "cursor_at list_ops list_sum_dim 1 c us ws" and "heights_ok (us @ ws)" "total_height us \<le> y"
  shows "\<exists>b c'. cursor_seek_forward list_sum_dim (height_target y) RightBias c = Some (b, c') \<and>
    cursor_at list_ops list_sum_dim 1 c' (rows_above y (us @ ws)) (drop (length (rows_above y (us @ ws))) (us @ ws))"
proof -
  have "height_target y (cur_position c) \<noteq> Less"
    using assms(3) summary_at [OF c] by (intro not_less_count(3)) simp
  then show ?thesis
    using list_sum.cursor_seek_forward_ok [OF disjI2 [OF c], of "height_target y" RightBias] assms(2,3) summary_at [OF c]
      mono_height_target [of ws]
    by (auto simp: rows_above_append simp del: One_nat_def)
qed

lemma offset_at_pixel_eq:
  assumes "list_ok s" "0 \<le> y"
  shows "offset_at_pixel y s =
    \<lparr>item_ix = length (rows_above y (rows s)), offset_in_item = y - total_height (rows_above y (rows s))\<rparr>"
proof -
  have pos: "snd (find_list list_ops list_sum_dim target (target_in RightBias) p xs) =
      advance list_ops list_sum_dim p (passed list_ops list_sum_dim target RightBias p xs)"
    for target p and xs :: "('a, 'b) list_item list"
    by (induction xs arbitrary: p) (auto simp: Let_def)
  have "fst (tree_find list_sum_dim (items s) (height_target y) RightBias) =
      advance list_ops list_sum_dim ls_zero (rows_above y (rows s))"
    using list_sum.tree_find_ok [of 1 "items s" "height_target y" RightBias] assms(1)
      mono_height_target [of "rows s" y ls_zero] pos [of "height_target y" ls_zero "rows s"]
    by (auto simp: list_ok_def split: prod.splits option.splits)
  then show ?thesis
    by (auto simp: offset_at_pixel_def advance_summary split: prod.splits)
qed

lemma scroll_top_pixels_eq:
  assumes "wf_tree list_ops 1 (items s)"
  shows "scroll_top_pixels s off = total_height (take (item_ix off) (rows s)) + offset_in_item off"
proof -
  have pos: "snd (find_list list_ops list_sum_dim target (target_in RightBias) p xs) =
      advance list_ops list_sum_dim p (passed list_ops list_sum_dim target RightBias p xs)"
    for target p and xs :: "('a, 'b) list_item list"
    by (induction xs arbitrary: p) (auto simp: Let_def)
  have "fst (tree_find list_sum_dim (items s) (count_target (item_ix off)) RightBias) =
      advance list_ops list_sum_dim ls_zero (take (item_ix off) (rows s))"
    using list_sum.tree_find_ok [of 1 "items s" "count_target (item_ix off)" RightBias] assms
      pos [of "count_target (item_ix off)" ls_zero "rows s"]
    by (auto split: prod.splits option.splits)
  then show ?thesis
    by (auto simp: scroll_top_pixels_def advance_summary split: prod.splits)
qed

end
