(* ===== verification/List_Correct.thy ===== *)
theory List_Correct
  imports List_State_Correct
begin

text \<open>
  The operations of a list against the list of its items: replacing a range, scrolling, the
  scrollbar and the queries (\<open>gpui/src/elements/list.rs\<close>).
\<close>

section \<open>Replacing a range\<close>

definition without_extra :: "'h::linordered_field \<Rightarrow> ('h, 'f) list_item list \<Rightarrow> ('h, 'f) list_item list" where
  "without_extra e xs =
     (if e = 0 \<or> xs = [] then xs
      else butlast xs @ [Unmeasured (map_option (\<lambda>sz. sz\<lparr>height := max (size.height sz - e) 0\<rparr>) (li_size_hint (last xs)))
        (li_focus_handle (last xs))])"

lemma last_at: "xs \<noteq> [] \<Longrightarrow> drop (length xs - 1) xs = [last xs] \<and> take (length xs - 1) xs = butlast xs"
  by (metis append_butlast_last_id append_eq_conv_conj butlast_conv_take length_butlast)

lemma heights_butlast: "heights_ok xs \<Longrightarrow> heights_ok (butlast xs)"
  by (auto simp: heights_ok_def list_all_iff dest: in_set_butlastD)

lemma heights_take_drop: "heights_ok xs \<Longrightarrow> heights_ok (take n xs)" "heights_ok xs \<Longrightarrow> heights_ok (drop n xs)"
  by (auto simp: heights_ok_def list_all_iff dest: in_set_takeD in_set_dropD)

lemma heights_without_extra: "heights_ok xs \<Longrightarrow> heights_ok (without_extra e xs)"
  using heights_butlast [of xs]
  by (cases "li_size_hint (last xs)") (auto simp: without_extra_def li_height_def)

lemma length_without_extra [simp]: "length (without_extra e xs) = length xs"
  by (cases xs) (auto simp: without_extra_def)

lemma is_empty_rows: "wf_tree list_ops 1 t \<Longrightarrow> tree_is_empty t \<longleftrightarrow> flat t = []"
  using wf_tree_empty_iff by blast

lemma clear_tail_extra_ok:
  assumes "list_ok s" "shallow s"
  shows "\<exists>t e. clear_tail_extra s = Some (s\<lparr>items := t, tail_extra := e\<rparr>) \<and>
    list_ok (s\<lparr>items := t, tail_extra := e\<rparr>) \<and> flat t = without_extra (tail_extra s) (rows s) \<and>
    (rows s \<noteq> [] \<longrightarrow> e = 0)"
proof (cases "tail_extra s = 0 \<or> rows s = []")
  case True
  have "s = s\<lparr>items := items s, tail_extra := tail_extra s\<rparr>" by simp
  moreover have "flat (items s) = without_extra (tail_extra s) (rows s)" using True by (auto simp: without_extra_def)
  moreover have "rows s \<noteq> [] \<longrightarrow> tail_extra s = 0" using True by blast
  moreover have "clear_tail_extra s = Some s"
    using True assms(1) is_empty_rows [of "items s"] unfolding clear_tail_extra_def list_ok_def by auto
  ultimately show ?thesis using assms(1) by metis
next
  case False
  then have ne: "rows s \<noteq> []" and e: "tail_extra s \<noteq> 0" by auto
  have wf: "wf_tree list_ops 1 (items s)" using assms(1) unfolding list_ok_def by blast
  have n: "item_count s = length (rows s)" by (rule item_count_eq [OF assms(1)])
  from count_slice [OF wf, of "length (rows s) - 1"] assms(2) obtain a c where
    a: "cursor_slice list_ops count_dim (ord_target (length (rows s) - 1)) RightBias
         (cursor_new count_dim (items s)) = Some (a, c)" "wf_tree list_ops 1 a" "flat a = butlast (rows s)"
      "cursor_at list_ops count_dim 1 c (butlast (rows s)) [last (rows s)]"
    unfolding shallow_def using last_at [OF ne] by metis
  have item: "cursor_item c = Some (Some (last (rows s)))"
    using cursor_at_item(1) [OF a(4)] by (simp add: first_opt_def)
  let ?x = "Unmeasured (map_option (\<lambda>sz. sz\<lparr>height := max (size.height sz - tail_extra s) 0\<rparr>) (li_size_hint (last (rows s))))
        (li_focus_handle (last (rows s)))"
  from list_count.tree_push_ok [OF a(2) base_ge_1, of ?x] obtain t where
    t: "tree_push list_ops a ?x = Some t" "wf_tree list_ops 1 t" "flat t = butlast (rows s) @ [?x]"
    unfolding a(3) by blast
  have flat: "flat t = without_extra (tail_extra s) (rows s)" using t(3) ne e by (simp add: without_extra_def)
  have "heights_ok (rows s)" using assms(1) unfolding list_ok_def by blast
  then have h: "heights_ok (flat t)" unfolding flat by (rule heights_without_extra)
  have "list_ok (s\<lparr>items := t, tail_extra := 0\<rparr>)"
    using assms(1) t(2) h flat unfolding list_ok_def by (auto split: option.splits)
  moreover have "clear_tail_extra s = Some (s\<lparr>items := t, tail_extra := 0\<rparr>)"
    using False n a(1) t(1) item wf is_empty_rows [OF wf] unfolding clear_tail_extra_def
    by (simp del: One_nat_def)
  ultimately show ?thesis using flat by blast
qed

text \<open>Where a splice moves the scroll position.\<close>

lemma spliced_top_cases:
  assumes "a \<le> b"
  shows "spliced_top a b n off = Some (if item_ix off < a then off else if item_ix off < b then \<lparr>item_ix = a, offset_in_item = 0\<rparr>
    else off\<lparr>item_ix := item_ix off - (b - a) + n\<rparr>)"
  using assms by (auto simp: spliced_top_def)

lemma spliced_top_le:
  assumes "a \<le> b" "item_ix off \<le> length xs" "spliced_top a b (length ys) off = Some off'"
  shows "item_ix off' \<le> length (take a xs @ ys @ drop b xs)"
  using assms by (auto simp: spliced_top_cases split: if_splits)

text \<open>The items from the scroll position on are the same, and so is the item before the range.\<close>

lemma spliced_top_keeps:
  assumes "a \<le> b" "item_ix off \<le> length xs" "spliced_top a b (length ys) off = Some off'"
  shows "b \<le> item_ix off \<Longrightarrow> drop (item_ix off') (take a xs @ ys @ drop b xs) = drop (item_ix off) xs"
    and "item_ix off < a \<Longrightarrow> item_ix off < length xs \<Longrightarrow> take (Suc (item_ix off')) (take a xs @ ys @ drop b xs) = take (Suc (item_ix off)) xs"
    and "item_ix off < a \<or> b \<le> item_ix off \<Longrightarrow> offset_in_item off' = offset_in_item off"
  using assms by (auto simp: spliced_top_cases min_def split: if_splits)

lemma splice_focusable_ok:
  assumes "clear_tail_extra s = Some s1" "list_ok s1" "shallow s1" "a \<le> b"
  shows "\<exists>t. splice_focusable a b fs s =
      Some (s1\<lparr>items := t, logical_scroll_top := Option.bind (logical_scroll_top s1) (spliced_top a b (length fs))\<rparr>) \<and>
    wf_tree list_ops 1 t \<and> flat t = take a (rows s1) @ map (Unmeasured None) fs @ drop b (rows s1)"
proof -
  have wf: "wf_tree list_ops 1 (items s1)" using assms(2) unfolding list_ok_def by blast
  from count_slice [OF wf, of a] assms(3) obtain u c where
    u: "cursor_slice list_ops count_dim (ord_target a) RightBias (cursor_new count_dim (items s1)) = Some (u, c)"
      "wf_tree list_ops 1 u" "flat u = take a (rows s1)"
      "cursor_at list_ops count_dim 1 c (take a (rows s1)) (drop a (rows s1))"
    unfolding shallow_def by blast
  have "length (take a (rows s1)) \<le> b" using assms(4) by simp
  from count_seek_on [OF u(4) this] obtain f c' where
    c': "cursor_seek_forward count_dim (ord_target b) RightBias c = Some (f, c')"
      "cursor_at list_ops count_dim 1 c' (take a (rows s1) @ take (b - length (take a (rows s1))) (drop a (rows s1)))
         (drop (b - length (take a (rows s1))) (drop a (rows s1)))" by blast
  have "drop (b - length (take a (rows s1))) (drop a (rows s1)) = drop b (rows s1)"
    using assms(4) by (cases "a \<le> length (rows s1)") auto
  with count_suffix_on [OF c'(2)] obtain v c'' where
    v: "cursor_suffix list_ops count_dim c' = Some (v, c'')" "wf_tree list_ops 1 v" "flat v = drop b (rows s1)" by auto
  from list_count.tree_extend_ok [OF u(2), of "map (Unmeasured None) fs"] obtain w where
    w: "tree_extend list_ops u (map (Unmeasured None) fs) = Some w" "wf_tree list_ops 1 w"
      "flat w = take a (rows s1) @ map (Unmeasured None) fs" unfolding u(3) by blast
  from list_count.tree_append_ok [OF w(2) v(2) base_ge_1] obtain t where
    t: "tree_append list_ops w v = Some t" "wf_tree list_ops 1 t"
      "flat t = take a (rows s1) @ map (Unmeasured None) fs @ drop b (rows s1)"
    unfolding w(3) v(3) append_assoc by blast
  have "splice_focusable a b fs s =
      Some (s1\<lparr>items := t, logical_scroll_top := Option.bind (logical_scroll_top s1) (spliced_top a b (length fs))\<rparr>)"
    by (cases "logical_scroll_top s1")
      (simp_all add: splice_focusable_def assms(1) u(1) c'(1) v(1) w(1) t(1) Let_def spliced_top_cases [OF assms(4)])
  with t(2,3) show ?thesis by blast
qed

lemma heights_unmeasured [simp]: "heights_ok (map (Unmeasured None) fs)"
  by (auto simp: heights_ok_def list_all_iff li_height_def)

lemma splice_list_ok:
  assumes "list_ok s" "a \<le> b" "wf_tree list_ops 1 t" "flat t = take a (rows s) @ map (Unmeasured None) fs @ drop b (rows s)"
  shows "list_ok (s\<lparr>items := t,
    logical_scroll_top := Option.bind (logical_scroll_top s) (spliced_top a b (length fs))\<rparr>)"
proof (cases "logical_scroll_top s")
  case None
  then show ?thesis using assms(1,3) unfolding list_ok_def by (simp add: assms(4) heights_take_drop)
next
  case (Some off)
  obtain off' where o': "spliced_top a b (length fs) off = Some off'" by (simp add: spliced_top_cases [OF assms(2)])
  have "item_ix off \<le> length (rows s)" using assms(1) Some unfolding list_ok_def by simp
  from spliced_top_le [OF assms(2) this, of "map (Unmeasured None) fs" off'] o'
  have "item_ix off' \<le> length (flat t)" unfolding assms(4) by simp
  then show ?thesis
    using assms(1,3) Some o' unfolding list_ok_def by (simp add: assms(4) heights_take_drop)
qed

section \<open>Scrolling\<close>

text \<open>What a change of the scroll position leaves of a pending adjustment.\<close>

definition rebased :: "('h::linordered_field, 'f) list_item list \<Rightarrow> 'h list_offset \<Rightarrow> 'h pending_scroll \<Rightarrow> 'h pending_scroll option" where
  "rebased xs off pending =
     (if length xs \<le> item_ix off then None
      else (case pending of
          Absolute _ _ \<Rightarrow> Some (Absolute (item_ix off) (offset_in_item off))
        | Proportional _ _ \<Rightarrow>
            (case li_size_hint (xs ! item_ix off) of
               Some sz \<Rightarrow> if size.height sz > 0
                 then Some (Proportional (item_ix off) (clamp_unit (offset_in_item off / size.height sz))) else None
             | None \<Rightarrow> None)))"

lemma rebase_ok:
  assumes "list_ok s" "shallow s"
  shows "rebase_pending_scroll off s = Some (s\<lparr>pending_scroll := Option.bind (pending_scroll s) (rebased (rows s) off)\<rparr>)"
proof (cases "pending_scroll s")
  case None
  then show ?thesis by (simp add: rebase_pending_scroll_def)
next
  case (Some pending)
  have n: "item_count s = length (rows s)" by (rule item_count_eq [OF assms(1)])
  have wf: "wf_tree list_ops 1 (items s)" using assms(1) unfolding list_ok_def by blast
  show ?thesis
  proof (cases "length (rows s) \<le> item_ix off")
    case True
    then show ?thesis using Some n by (simp add: rebase_pending_scroll_def rebased_def)
  next
    case False
    from count_seek [OF wf, of "item_ix off"] assms(2) obtain b c where
      c: "cursor_seek count_dim (ord_target (item_ix off)) RightBias (cursor_new count_dim (items s)) = Some (b, c)"
        "cursor_at list_ops count_dim 1 c (take (item_ix off) (rows s)) (drop (item_ix off) (rows s))"
      unfolding shallow_def by blast
    have "first_opt (drop (item_ix off) (rows s)) = Some (rows s ! item_ix off)"
      using False by (simp add: first_opt_def Cons_nth_drop_Suc [symmetric])
    with cursor_at_item(1) [OF c(2)] have "cursor_item c = Some (Some (rows s ! item_ix off))" by simp
    then show ?thesis
      using Some n False c(1)
      by (cases pending; cases "li_size_hint (rows s ! item_ix off)")
        (auto simp: rebase_pending_scroll_def rebased_def)
  qed
qed

lemma set_scroll_top_ok:
  assumes "list_ok s" "shallow s"
  shows "set_scroll_top off s = Some (s\<lparr>pending_scroll := Option.bind (pending_scroll s) (rebased (rows s) off),
    logical_scroll_top := Some off\<rparr>)"
  by (simp add: set_scroll_top_def rebase_ok [OF assms])

text \<open>The place of a pixel in the items.\<close>

definition at_pixel :: "'h::linordered_field \<Rightarrow> ('h, 'f) list_item list \<Rightarrow> 'h list_offset" where
  "at_pixel y xs = \<lparr>item_ix = length (rows_above y xs), offset_in_item = y - total_height (rows_above y xs)\<rparr>"

lemma at_pixel_le: "item_ix (at_pixel y xs) \<le> length xs"
  using length_rows(1) [of y xs] by (simp add: at_pixel_def)

lemma at_pixel_pixels: "total_height (take (item_ix (at_pixel y xs)) xs) + offset_in_item (at_pixel y xs) = y"
  using rows_above_take [of y xs] by (simp add: at_pixel_def)

lemma at_pixel_in_item:
  assumes "0 \<le> y"
  shows "0 \<le> offset_in_item (at_pixel y xs)"
    and "item_ix (at_pixel y xs) < length xs \<Longrightarrow> offset_in_item (at_pixel y xs) < li_height (xs ! item_ix (at_pixel y xs))"
proof -
  show "0 \<le> offset_in_item (at_pixel y xs)" using rows_above_le [OF assms] by (simp add: at_pixel_def)
  show "offset_in_item (at_pixel y xs) < li_height (xs ! item_ix (at_pixel y xs))" if "item_ix (at_pixel y xs) < length xs"
    using rows_above_next [of y xs "xs ! item_ix (at_pixel y xs)" "drop (Suc (item_ix (at_pixel y xs))) xs"] that
    by (simp add: at_pixel_def Cons_nth_drop_Suc algebra_simps)
qed

lemma list_ok_scroll:
  "list_ok s \<Longrightarrow> item_ix off \<le> length (rows s) \<Longrightarrow>
   list_ok (s\<lparr>follow := f, pending_scroll := p, logical_scroll_top := Some off\<rparr>)"
  by (simp add: list_ok_def)

lemma scroll_by_ok:
  assumes "list_ok s" "shallow s" "d \<noteq> 0"
  defines "y \<equiv> max (scroll_top_pixels s (the_scroll_top s) + d) 0"
  shows "scroll_by d s = Some (s\<lparr>follow := (if d < 0 then stop_following (follow s) else follow s),
    pending_scroll := Option.bind (pending_scroll s) (rebased (rows s) (at_pixel y (rows s))),
    logical_scroll_top := Some (at_pixel y (rows s))\<rparr>)"
proof -
  let ?off = "the_scroll_top s" and ?xs = "rows s"
  let ?s = "s\<lparr>follow := (if d < 0 then stop_following (follow s) else follow s)\<rparr>"
  have wf: "wf_tree list_ops 1 (items s)" and h: "heights_ok ?xs" using assms(1) unfolding list_ok_def by auto
  have f: "cursor_fresh list_ops list_sum_dim 1 (cursor_new list_sum_dim (items s))"
    using assms(2) unfolding shallow_def by (rule cursor_fresh_new [OF wf])
  from summary_seek_count [OF disjI1 [OF f], of "item_ix ?off"] obtain b c where
    c: "cursor_seek list_sum_dim (count_target (item_ix ?off)) RightBias (cursor_new list_sum_dim (items s)) = Some (b, c)"
      "cur_tree c = items s" "cursor_at list_ops list_sum_dim 1 c (take (item_ix ?off) ?xs) (drop (item_ix ?off) ?xs)"
    by auto
  have pos: "ls_height (cur_position c) = total_height (take (item_ix ?off) ?xs)" using summary_at(2) [OF c(3)] .
  have y: "y = max (ls_height (cur_position c) + offset_in_item ?off + d) 0"
    unfolding y_def pos scroll_top_pixels_eq [OF wf] ..
  have y0: "0 \<le> y" by (simp add: y_def)
  have hx: "heights_ok (take (item_ix ?off) ?xs @ drop (item_ix ?off) ?xs)" using h by simp
  have "\<exists>b' c'. (if y \<ge> ls_height (cur_position c)
        then cursor_seek_forward list_sum_dim (height_target y) RightBias c
        else cursor_seek list_sum_dim (height_target y) RightBias c) = Some (b', c') \<and>
      cursor_at list_ops list_sum_dim 1 c' (rows_above y ?xs) (drop (length (rows_above y ?xs)) ?xs)"
  proof (cases "y \<ge> ls_height (cur_position c)")
    case True
    then show ?thesis using summary_seek_forward_height [OF c(3) hx, of y] pos by simp
  next
    case False
    have "heights_ok (flat (cur_tree c))" using h c(2) by simp
    from summary_seek_height(1) [OF disjI2 [OF c(3)] this y0] False show ?thesis by (simp add: c(2))
  qed
  then obtain b' c' where
    c': "(if y \<ge> ls_height (cur_position c)
        then cursor_seek_forward list_sum_dim (height_target y) RightBias c
        else cursor_seek list_sum_dim (height_target y) RightBias c) = Some (b', c')"
      "cursor_at list_ops list_sum_dim 1 c' (rows_above y ?xs) (drop (length (rows_above y ?xs)) ?xs)" by blast
  have off: "\<lparr>item_ix = ls_count (cur_position c'), offset_in_item = y - ls_height (cur_position c')\<rparr> = at_pixel y ?xs"
    using summary_at [OF c'(2)] by (simp add: at_pixel_def)
  have ok: "list_ok ?s" "shallow ?s" using assms(1,2) unfolding list_ok_def shallow_def by (auto split: option.splits)
  have s: "(if d < 0 then s\<lparr>follow := stop_following (follow s)\<rparr> else s) = ?s" by simp
  have "scroll_by d s = set_scroll_top (at_pixel y ?xs) ?s"
    unfolding scroll_by_def Let_def s
    by (simp add: assms(3) c(1) c'(1) off y [symmetric] split del: if_split cong: if_cong)
  then show ?thesis using set_scroll_top_ok [OF ok] by simp
qed

lemma offset_at_pixel_at: "list_ok s \<Longrightarrow> 0 \<le> y \<Longrightarrow> offset_at_pixel y s = at_pixel y (rows s)"
  by (simp add: offset_at_pixel_eq at_pixel_def)

section \<open>Queries\<close>

lemma prefix_summary:
  assumes "list_ok s" "shallow s"
  shows "\<exists>c. cursor_summary list_sum_dim list_sum_dim (count_target n) RightBias (cursor_new list_sum_dim (items s)) =
    Some (advance list_ops list_sum_dim ls_zero (take n (rows s)), c)"
proof -
  have wf: "wf_tree list_ops 1 (items s)" using assms(1) unfolding list_ok_def by blast
  have f: "cursor_fresh list_ops list_sum_dim 1 (cursor_new list_sum_dim (items s))"
    using assms(2) unfolding shallow_def by (rule cursor_fresh_new [OF wf])
  have z: "count_target n (cur_position (cursor_new list_sum_dim (items s))) \<noteq> Less"
    by (rule not_less_count(2)) simp
  have st: "list_sum.starts 1 (cursor_new list_sum_dim (items s)) [] (rows s)" using f by simp
  from list_sum.cursor_summary_ok [OF list_sum.dimension_axioms st mono_count_target z, of RightBias]
  show ?thesis by (auto simp del: One_nat_def)
qed

lemma offset_for_item_ok:
  "list_ok s \<Longrightarrow> shallow s \<Longrightarrow> offset_for_item n s = Some (total_height (take n (rows s)))"
  using prefix_summary [of s n] by (auto simp: offset_for_item_def advance_summary)

lemma scroll_px_offset_ok:
  assumes "list_ok s" "shallow s"
  shows "scroll_px_offset_for_scrollbar s = Some \<lparr>px = 0, py =
    (if logical_scroll_top s = None \<and> alignment s = Align_Bottom then - max_scroll_offset s
     else - scroll_top_pixels s (the_scroll_top s))\<rparr>"
proof -
  have wf: "wf_tree list_ops 1 (items s)" using assms(1) unfolding list_ok_def by blast
  from prefix_summary [OF assms, of "item_ix (the_scroll_top s)"] show ?thesis
    by (auto simp: scroll_px_offset_for_scrollbar_def scroll_top_pixels_eq [OF wf] advance_summary)
qed

lemma bounds_for_item_ok:
  assumes "list_ok s" "shallow s" "n < length (rows s)"
  shows "bounds_for_item n s = Some
    (if n < item_ix (the_scroll_top s) then None
     else (case rows s ! n of
        Measured sz _ \<Rightarrow>
          (let y = b_top (layout_bounds s) + (total_height (take n (rows s)) - scroll_top_pixels s (the_scroll_top s)) in
           Some (from_corners \<lparr>px = b_left (layout_bounds s), py = y\<rparr>
             \<lparr>px = b_right (layout_bounds s), py = y + size.height sz\<rparr>))
      | Unmeasured _ _ \<Rightarrow> None))"
proof (cases "n < item_ix (the_scroll_top s)")
  case True
  then show ?thesis by (simp add: bounds_for_item_def Let_def)
next
  case False
  let ?off = "the_scroll_top s" and ?xs = "rows s"
  have wf: "wf_tree list_ops 1 (items s)" using assms(1) unfolding list_ok_def by blast
  have f: "cursor_fresh list_ops count_height_dim 1 (cursor_new count_height_dim (items s))"
    using assms(2) unfolding shallow_def by (rule cursor_fresh_new [OF wf])
  have z: "pair_count_target (item_ix ?off) (dim_zero count_height_dim) \<noteq> Less" by (rule not_less_count(4)) simp
  from list_pair.cursor_seek_ok [OF disjI1 [OF f] mono_pair_target z, of RightBias] obtain b c where
    c: "cursor_seek count_height_dim (pair_count_target (item_ix ?off)) RightBias
         (cursor_new count_height_dim (items s)) = Some (b, c)"
      "cursor_at list_ops count_height_dim 1 c (take (item_ix ?off) ?xs) (drop (item_ix ?off) ?xs)"
    by (auto simp del: One_nat_def)
  have le: "item_ix ?off \<le> length ?xs" using False assms(3) by simp
  have pos: "cur_position c = (item_ix ?off, total_height (take (item_ix ?off) ?xs))"
    using at_position [OF c(2)] le by simp
  have z2: "pair_count_target n (cur_position c) \<noteq> Less" by (rule not_less_count(4)) (use False pos in simp)
  have split: "take (item_ix ?off) ?xs @ take (n - item_ix ?off) (drop (item_ix ?off) ?xs) = take n ?xs"
    "drop (n - item_ix ?off + item_ix ?off) ?xs = drop n ?xs"
    using False take_add [of "item_ix ?off" "n - item_ix ?off" ?xs] by simp_all
  from list_pair.cursor_seek_forward_ok [OF disjI2 [OF c(2)] mono_pair_target z2, of RightBias] obtain b' c' where
    c': "cursor_seek_forward count_height_dim (pair_count_target n) RightBias c = Some (b', c')"
      "cursor_at list_ops count_height_dim 1 c' (take n ?xs) (drop n ?xs)"
    unfolding pos by (auto simp: split simp del: One_nat_def)
  have pos': "cur_position c' = (n, total_height (take n ?xs))" using at_position [OF c'(2)] assms(3) by simp
  have "first_opt (drop n ?xs) = Some (?xs ! n)"
    using assms(3) by (simp add: first_opt_def Cons_nth_drop_Suc [symmetric])
  with cursor_at_item(1) [OF c'(2)] have item: "cursor_item c' = Some (Some (?xs ! n))" by simp
  show ?thesis
    using False c(1) c'(1) item pos pos'
    by (auto simp: bounds_for_item_def Let_def scroll_top_pixels_eq [OF wf] algebra_simps split: list_item.splits)
qed

end
