(* ===== verification/List_Layout.thy ===== *)
theory List_Layout
  imports List_Scroll
begin

text \<open>
  Laying out a list: which items are rendered and measured for a viewport, the height reserved for
  the tail, and the position scrolled to afterwards (\<open>layout_all_items\<close>, \<open>reserve_tail\<close>,
  \<open>layout_items\<close>, \<open>prepaint_items\<close> and the state part of \<open>prepaint\<close> in
  \<open>gpui/src/elements/list.rs\<close>). Rendering and measuring an item for an available width is the
  parameter \<open>render\<close>, the focus of the window the parameter \<open>focused\<close>, and the autoscroll request an
  item makes when it is prepainted at an origin the parameter \<open>autoscroll\<close>. An element is known
  by the index of its item.
\<close>

record 'h item_layout =
  il_index :: nat
  il_size :: "'h size"

type_synonym 'h renderer = "'h option \<Rightarrow> nat \<Rightarrow> 'h size"

section \<open>Measuring all items\<close>

fun measure_items :: "'h renderer \<Rightarrow> 'h \<Rightarrow> nat \<Rightarrow> ('h, 'f) list_item list \<Rightarrow> ('h, 'f) list_item list" where
  "measure_items render w ix [] = []"
| "measure_items render w ix (x # xs) =
     Measured (case li_size x of Some sz \<Rightarrow> sz | None \<Rightarrow> render (Some w) ix) (li_focus_handle x) #
       measure_items render w (Suc ix) xs"

definition layout_all_items ::
  "'h::linordered_field renderer \<Rightarrow> 'h \<Rightarrow> ('h, 'f) list_state \<Rightarrow> ('h, 'f) list_state option" where
  "layout_all_items render w s =
     (case measuring s of
        Visible \<Rightarrow> Some s
      | Measure True \<Rightarrow> Some s
      | Measure False \<Rightarrow>
          do { xs \<leftarrow> iter_collect count_dim (\<lambda>_. True) (cursor_new count_dim (items s));
               t \<leftarrow> tree_from_iter list_ops (measure_items render w 0 xs);
               Some (s\<lparr>measuring := Measure True, items := t\<rparr>) })"

section \<open>The height reserved for the tail\<close>

fun update_last :: "('a \<Rightarrow> 'a) \<Rightarrow> 'a list \<Rightarrow> 'a list" where
  "update_last f [] = []"
| "update_last f [x] = [f x]"
| "update_last f (x # y # xs) = x # update_last f (y # xs)"

fun grow_item :: "'h::linordered_field \<Rightarrow> ('h, 'f) list_item \<Rightarrow> ('h, 'f) list_item" where
  "grow_item d (Measured sz f) = Measured (sz\<lparr>height := size.height sz + d\<rparr>) f"
| "grow_item d (Unmeasured hint f) = Unmeasured hint f"

definition grow_layout :: "nat \<Rightarrow> 'h::linordered_field \<Rightarrow> 'h item_layout \<Rightarrow> 'h item_layout" where
  "grow_layout n d l =
     (if il_index l + 1 = n then l\<lparr>il_size := (il_size l)\<lparr>height := size.height (il_size l) + d\<rparr>\<rparr> else l)"

text \<open>The measured items from \<open>start\<close> on; an item without a size panics.\<close>

fun natural_height :: "nat \<Rightarrow> nat \<Rightarrow> 'h::linordered_field \<Rightarrow> ('h, 'f) list_item list \<Rightarrow> 'h option" where
  "natural_height start ix acc [] = Some acc"
| "natural_height start ix acc (x # xs) =
     (if start \<le> ix
      then (case li_size x of
          Some sz \<Rightarrow> natural_height start (Suc ix) (acc + size.height sz) xs
        | None \<Rightarrow> None)
      else natural_height start (Suc ix) acc xs)"

record ('h, 'f) tail_layout =
  tail_measured :: "('h, 'f) list_item list"
  tail_layouts :: "'h item_layout list"
  tail_applied :: 'h

definition reserve_tail ::
  "(('h::linordered_field, 'f) list_item, 'h list_summary) node \<Rightarrow> nat \<Rightarrow> 'h \<Rightarrow> ('h, 'f) tail_layout \<Rightarrow>
   ('h, 'f) list_state \<Rightarrow> ('h \<times> ('h, 'f) tail_layout \<times> ('h, 'f) list_state) option" where
  "reserve_tail old_items measured_start viewport_height l s =
     (case tail_reservation s of
        None \<Rightarrow> Some (0, l, s)
      | Some (start, margin) \<Rightarrow>
          (let minimum = max (viewport_height - margin) 0;
               n = ls_count (node_summary old_items) in
           if tail_measured l = [] \<or> measured_start + length (tail_measured l) \<noteq> n \<or> start \<ge> n then Some (0, l, s)
           else
             do { (_, c) \<leftarrow> cursor_seek list_sum_dim (count_target start) RightBias (cursor_new list_sum_dim old_items);
                  (earlier, _) \<leftarrow> cursor_summary list_sum_dim list_sum_dim (count_target (max measured_start start)) RightBias c;
                  if ls_has_unknown_height earlier then Some (0, l, s\<lparr>tail_extra := 0\<rparr>)
                  else do {
                    natural \<leftarrow> natural_height start measured_start (ls_height earlier) (tail_measured l);
                    (let natural = natural - tail_applied l;
                         extra = max (minimum - natural) 0;
                         delta = extra - tail_applied l in
                     Some (delta,
                       \<lparr>tail_measured = update_last (grow_item delta) (tail_measured l),
                        tail_layouts = update_last (grow_layout n delta) (tail_layouts l), tail_applied = extra\<rparr>,
                       s\<lparr>tail_extra := extra\<rparr>)) } }))"

section \<open>Laying out the items in and around the viewport\<close>

record ('h, 'f) layout_acc =
  measured_items :: "('h, 'f) list_item list"
  item_layouts :: "'h item_layout list"
  rendered_height :: 'h
  max_item_width :: 'h
  la_scroll_top :: "'h list_offset"
  rendered_focused_item :: bool

text \<open>The pending adjustment, when it is for the item scrolled to, once that item is measured.\<close>

fun adjusted_top :: "'h::linordered_field pending_scroll \<Rightarrow> 'h size \<Rightarrow> 'h list_offset \<Rightarrow> 'h list_offset option" where
  "adjusted_top (Absolute ix off) sz st =
     (if ix = item_ix st then Some (st\<lparr>offset_in_item := min off (size.height sz)\<rparr>) else None)"
| "adjusted_top (Proportional ix fraction) sz st =
     (if ix = item_ix st then Some (st\<lparr>offset_in_item := fraction * size.height sz\<rparr>) else None)"

definition apply_pending ::
  "'h::linordered_field size \<Rightarrow> ('h, 'f) layout_acc \<times> ('h, 'f) list_state \<Rightarrow> ('h, 'f) layout_acc \<times> ('h, 'f) list_state" where
  "apply_pending sz = (\<lambda>(acc, s).
     case pending_scroll s of
       None \<Rightarrow> (acc, s)
     | Some pending \<Rightarrow>
         (let s = s\<lparr>pending_scroll := None\<rparr> in
          case adjusted_top pending sz (la_scroll_top acc) of
            None \<Rightarrow> (acc, s)
          | Some st \<Rightarrow> (acc\<lparr>la_scroll_top := st\<rparr>, s\<lparr>logical_scroll_top := Some st\<rparr>)))"

definition visible_height :: "('h::linordered_field, 'f) layout_acc \<Rightarrow> 'h" where
  "visible_height acc = rendered_height acc - offset_in_item (la_scroll_top acc)"

text \<open>One item below the scroll position, the \<open>ix\<close>-th from it.\<close>

definition layout_item_after ::
  "'h::linordered_field renderer \<Rightarrow> ('f \<Rightarrow> bool) \<Rightarrow> 'h option \<Rightarrow> 'h \<Rightarrow> nat \<Rightarrow> nat \<Rightarrow> ('h, 'f) list_item \<Rightarrow>
   ('h, 'f) layout_acc \<times> ('h, 'f) list_state \<Rightarrow> ('h, 'f) layout_acc \<times> ('h, 'f) list_state" where
  "layout_item_after render focused w avail n ix item = (\<lambda>(acc, s).
     (let visible = visible_height acc < avail;
          item_index = item_ix (la_scroll_top acc) + ix;
          measured = render w item_index;
          rendered = (visible \<or> li_size item = None \<or> (tail_reservation s \<noteq> None \<and> item_index + 1 = n));
          (acc, s) = (if rendered \<and> ix = 0 then apply_pending measured (acc, s) else (acc, s));
          acc = (if visible
            then acc\<lparr>item_layouts := item_layouts acc @ [\<lparr>il_index = item_index, il_size = measured\<rparr>],
                     rendered_focused_item := (rendered_focused_item acc \<or> li_contains_focused focused item)\<rparr>
            else acc);
          sz = (case li_size item of Some sz \<Rightarrow> (if rendered then measured else sz) | None \<Rightarrow> measured) in
      (acc\<lparr>rendered_height := rendered_height acc + size.height sz,
           max_item_width := max (max_item_width acc) (size.width sz),
           measured_items := measured_items acc @ [Measured sz (li_focus_handle item)]\<rparr>, s)))"

partial_function (option) layout_after ::
  "'h::linordered_field renderer \<Rightarrow> ('f \<Rightarrow> bool) \<Rightarrow> 'h option \<Rightarrow> 'h \<Rightarrow> nat \<Rightarrow> nat \<Rightarrow>
   (('h, 'f) list_item, 'h list_summary, nat) cursor \<Rightarrow> ('h, 'f) layout_acc \<times> ('h, 'f) list_state \<Rightarrow>
   ((('h, 'f) list_item, 'h list_summary, nat) cursor \<times> ('h, 'f) layout_acc \<times> ('h, 'f) list_state) option" where
  "layout_after render focused w avail n ix c acc_s = do {
     (item, c) \<leftarrow> filter_iter_next count_dim (\<lambda>_. True) c;
     (case item of
        None \<Rightarrow> Some (c, acc_s)
      | Some item \<Rightarrow>
          if visible_height (fst acc_s) \<ge> avail + overdraw (snd acc_s) then Some (c, acc_s)
          else layout_after render focused w avail n (Suc ix) c
            (layout_item_after render focused w avail n ix item acc_s)) }"

declare layout_after.simps [code]

text \<open>Walking upward while the viewport is not full.\<close>

definition layout_item_before ::
  "'h::linordered_field renderer \<Rightarrow> ('f \<Rightarrow> bool) \<Rightarrow> 'h option \<Rightarrow> nat \<Rightarrow> ('h, 'f) list_item \<Rightarrow>
   ('h, 'f) layout_acc \<Rightarrow> ('h, 'f) layout_acc" where
  "layout_item_before render focused w item_index item acc =
     (let sz = render w item_index in
      acc\<lparr>rendered_height := rendered_height acc + size.height sz,
          measured_items := Measured sz (li_focus_handle item) # measured_items acc,
          item_layouts := \<lparr>il_index = item_index, il_size = sz\<rparr> # item_layouts acc,
          rendered_focused_item := (rendered_focused_item acc \<or> li_contains_focused focused item)\<rparr>)"

partial_function (option) layout_before ::
  "'h::linordered_field renderer \<Rightarrow> ('f \<Rightarrow> bool) \<Rightarrow> 'h option \<Rightarrow> 'h \<Rightarrow>
   (('h, 'f) list_item, 'h list_summary, nat) cursor \<Rightarrow> ('h, 'f) layout_acc \<Rightarrow>
   ((('h, 'f) list_item, 'h list_summary, nat) cursor \<times> ('h, 'f) layout_acc) option" where
  "layout_before render focused w avail c acc =
     (if rendered_height acc < avail then
        do { c \<leftarrow> cursor_prev count_dim c;
             item \<leftarrow> cursor_item c;
             (case item of
                Some item \<Rightarrow> layout_before render focused w avail c
                  (layout_item_before render focused w (cur_position c) item acc)
              | None \<Rightarrow> Some (c, acc)) }
      else Some (c, acc))"

declare layout_before.simps [code]

text \<open>Measuring the items in the leading overdraw.\<close>

partial_function (option) overdraw_before ::
  "'h::linordered_field renderer \<Rightarrow> 'h option \<Rightarrow> 'h \<Rightarrow> 'h \<Rightarrow>
   (('h, 'f) list_item, 'h list_summary, nat) cursor \<Rightarrow> ('h, 'f) list_item list \<Rightarrow>
   ((('h, 'f) list_item, 'h list_summary, nat) cursor \<times> ('h, 'f) list_item list) option" where
  "overdraw_before render w draw leading c measured =
     (if leading < draw then
        do { c \<leftarrow> cursor_prev count_dim c;
             item \<leftarrow> cursor_item c;
             (case item of
                Some item \<Rightarrow>
                  (let sz = (case li_size item of Some sz \<Rightarrow> sz | None \<Rightarrow> render w (cur_position c)) in
                   overdraw_before render w draw (leading + size.height sz) c
                     (Measured sz (li_focus_handle item) # measured))
              | None \<Rightarrow> Some (c, measured)) }
      else Some (c, measured))"

declare overdraw_before.simps [code]

text \<open>\<open>reserve_tail\<close> on the lists of a layout; its result is added to the rendered height.\<close>

definition reserve_tail_acc ::
  "(('h::linordered_field, 'f) list_item, 'h list_summary) node \<Rightarrow> nat \<Rightarrow> 'h \<Rightarrow> 'h \<Rightarrow> ('h, 'f) layout_acc \<Rightarrow>
   ('h, 'f) list_state \<Rightarrow> ('h \<times> ('h, 'f) layout_acc \<times> ('h, 'f) list_state) option" where
  "reserve_tail_acc old_items measured_start avail applied acc s =
     do { (delta, l, s) \<leftarrow> reserve_tail old_items measured_start avail
            \<lparr>tail_measured = measured_items acc, tail_layouts = item_layouts acc, tail_applied = applied\<rparr> s;
          Some (tail_applied l, acc\<lparr>measured_items := tail_measured l, item_layouts := tail_layouts l,
            rendered_height := rendered_height acc + delta\<rparr>, s) }"

text \<open>The part below the scroll position.\<close>

definition layout_below ::
  "'h::linordered_field renderer \<Rightarrow> ('f \<Rightarrow> bool) \<Rightarrow> 'h option \<Rightarrow> 'h \<Rightarrow> 'h edges \<Rightarrow> ('h, 'f) list_state \<Rightarrow>
   ((('h, 'f) list_item, 'h list_summary, nat) cursor \<times> 'h \<times> ('h, 'f) layout_acc \<times> ('h, 'f) list_state) option" where
  "layout_below render focused w avail padding s =
     (let old_items = items s; n = item_count s;
          (st, s) = (if is_following (follow s)
            then (\<lparr>item_ix = n, offset_in_item = 0\<rparr>,
                  s\<lparr>logical_scroll_top := Some \<lparr>item_ix = n, offset_in_item = 0\<rparr>\<rparr>)
            else (the_scroll_top s, s));
          acc = \<lparr>measured_items = [], item_layouts = [], rendered_height = e_top padding, max_item_width = 0,
                 la_scroll_top = st, rendered_focused_item = False\<rparr> in
      do { (_, c) \<leftarrow> cursor_seek count_dim (ord_target (item_ix st)) RightBias (cursor_new count_dim old_items);
           (c, acc, s) \<leftarrow> layout_after render focused w avail n 0 c (acc, s);
           (applied, acc, s) \<leftarrow> reserve_tail_acc old_items (item_ix (la_scroll_top acc)) avail 0 acc s;
           (_, c) \<leftarrow> cursor_seek count_dim (ord_target (item_ix (la_scroll_top acc))) RightBias c;
           Some (c, applied, acc\<lparr>rendered_height := rendered_height acc + e_bottom padding\<rparr>, s) })"

text \<open>Moving the scroll position up when the items below it do not fill the viewport.\<close>

definition layout_above ::
  "'h::linordered_field renderer \<Rightarrow> ('f \<Rightarrow> bool) \<Rightarrow> 'h option \<Rightarrow> 'h \<Rightarrow>
   (('h, 'f) list_item, 'h list_summary) node \<Rightarrow>
   (('h, 'f) list_item, 'h list_summary, nat) cursor \<Rightarrow> 'h \<Rightarrow> ('h, 'f) layout_acc \<Rightarrow> ('h, 'f) list_state \<Rightarrow>
   ((('h, 'f) list_item, 'h list_summary, nat) cursor \<times> ('h, 'f) layout_acc \<times> ('h, 'f) list_state) option" where
  "layout_above render focused w avail old_items c applied acc s =
     (if visible_height acc < avail then
        do { (c, acc) \<leftarrow> layout_before render focused w avail c acc;
             (_, acc, s) \<leftarrow> reserve_tail_acc old_items (cur_position c) avail applied acc s;
             (let st = \<lparr>item_ix = cur_position c, offset_in_item = rendered_height acc - avail\<rparr> in
              Some (case alignment s of
                Align_Top \<Rightarrow>
                  (let st = st\<lparr>offset_in_item := max (offset_in_item st) 0\<rparr> in
                   (c, acc\<lparr>la_scroll_top := st\<rparr>, s\<lparr>logical_scroll_top := Some st\<rparr>))
              | Align_Bottom \<Rightarrow> (c, acc\<lparr>la_scroll_top := st\<rparr>, s\<lparr>logical_scroll_top := None\<rparr>))) }
      else Some (c, acc, s))"

text \<open>Putting the measured items into the tree, and following the tail again when it is in view.\<close>

definition store_measured ::
  "nat \<Rightarrow> ('h::linordered_field, 'f) list_item list \<Rightarrow> (('h, 'f) list_item, 'h list_summary) node \<Rightarrow>
   (('h, 'f) list_item, 'h list_summary) node option" where
  "store_measured start measured old_items =
     do { (new_items, c) \<leftarrow> cursor_slice list_ops count_dim (ord_target start) RightBias (cursor_new count_dim old_items);
          new_items \<leftarrow> tree_extend list_ops new_items measured;
          (_, c) \<leftarrow> cursor_seek count_dim (ord_target (start + length measured)) RightBias c;
          (suffix, _) \<leftarrow> cursor_suffix list_ops count_dim c;
          tree_append list_ops new_items suffix }"

definition resume_following ::
  "'h::linordered_field \<Rightarrow> 'h list_offset \<Rightarrow> ('h, 'f) list_state \<Rightarrow> ('h, 'f) list_state" where
  "resume_following avail st s =
     (if has_stopped_following (follow s) \<and>
         scroll_top_pixels s st + avail \<ge>
           ls_height (node_summary (items s)) + e_top (padding_of s) + e_bottom (padding_of s) - 1
      then s\<lparr>follow := start_following (follow s)\<rparr> else s)"

definition layout_visible ::
  "'h::linordered_field renderer \<Rightarrow> ('f \<Rightarrow> bool) \<Rightarrow> 'h option \<Rightarrow> 'h \<Rightarrow> 'h edges \<Rightarrow> ('h, 'f) list_state \<Rightarrow>
   (('h, 'f) layout_acc \<times> ('h, 'f) list_state) option" where
  "layout_visible render focused w avail padding s =
     (let old_items = items s in
      do { (c, applied, acc, s) \<leftarrow> layout_below render focused w avail padding s;
           (c, acc, s) \<leftarrow> layout_above render focused w avail old_items c applied acc s;
           (c, measured) \<leftarrow> overdraw_before render w (overdraw s) (offset_in_item (la_scroll_top acc)) c (measured_items acc);
           new_items \<leftarrow> store_measured (cur_position c) measured old_items;
           Some (acc, resume_following avail (la_scroll_top acc) (s\<lparr>items := new_items\<rparr>)) })"

text \<open>An item with the focus that is out of view is rendered after the visible ones.\<close>

partial_function (option) find_focused ::
  "('f \<Rightarrow> bool) \<Rightarrow> (('h::linordered_field, 'f) list_item, 'h list_summary, nat) cursor \<Rightarrow> nat option option" where
  "find_focused focused c =
     do { item \<leftarrow> cursor_item c;
          (case item of
             None \<Rightarrow> Some None
           | Some item \<Rightarrow>
               if li_contains_focused focused item then Some (Some (cur_position c))
               else do { c \<leftarrow> search_forward count_dim ls_has_focus_handles c; find_focused focused c }) }"

declare find_focused.simps [code]

record 'h layout_response =
  response_width :: 'h
  response_scroll_top :: "'h list_offset"
  response_layouts :: "'h item_layout list"

definition layout_items ::
  "'h::linordered_field renderer \<Rightarrow> ('f \<Rightarrow> bool) \<Rightarrow> 'h option \<Rightarrow> 'h \<Rightarrow> 'h edges \<Rightarrow> ('h, 'f) list_state \<Rightarrow>
   ('h layout_response \<times> ('h, 'f) list_state) option" where
  "layout_items render focused w avail padding s =
     do { (acc, s) \<leftarrow> layout_visible render focused w avail padding s;
          extra \<leftarrow> (if rendered_focused_item acc then Some []
            else do { c \<leftarrow> search_forward count_dim ls_has_focus_handles (cursor_new count_dim (items s));
                      found \<leftarrow> find_focused focused c;
                      Some (case found of None \<Rightarrow> [] | Some ix \<Rightarrow> [\<lparr>il_index = ix, il_size = render w ix\<rparr>]) });
          Some (\<lparr>response_width = max_item_width acc, response_scroll_top = la_scroll_top acc,
                 response_layouts = item_layouts acc @ extra\<rparr>, s) }"

section \<open>Prepainting\<close>

text \<open>Walking up from an item until an offset above it is inside an item.\<close>

partial_function (option) walk_above ::
  "'h::linordered_field renderer \<Rightarrow> 'h \<Rightarrow> (('h, 'f) list_item, 'h list_summary, nat) cursor \<Rightarrow> nat \<Rightarrow> 'h \<Rightarrow>
   'h list_offset option" where
  "walk_above render w c ix off =
     (if off < 0 then
        do { c \<leftarrow> cursor_prev count_dim c;
             item \<leftarrow> cursor_item c;
             (case item of
                None \<Rightarrow> Some \<lparr>item_ix = ix, offset_in_item = 0\<rparr>
              | Some item \<Rightarrow>
                  (let sz = (case li_size item of Some sz \<Rightarrow> sz | None \<Rightarrow> render (Some w) (cur_position c)) in
                   walk_above render w c (cur_position c) (off + size.height sz))) }
      else Some \<lparr>item_ix = ix, offset_in_item = off\<rparr>)"

declare walk_above.simps [code]

partial_function (option) fill_above ::
  "'h::linordered_field renderer \<Rightarrow> 'h \<Rightarrow> (('h, 'f) list_item, 'h list_summary, nat) cursor \<Rightarrow> 'h \<Rightarrow>
   'h list_offset option" where
  "fill_above render w c remaining =
     (if remaining > 0 then
        do { c \<leftarrow> cursor_prev count_dim c;
             item \<leftarrow> cursor_item c;
             (case item of
                None \<Rightarrow> Some \<lparr>item_ix = cur_position c, offset_in_item = 0\<rparr>
              | Some item \<Rightarrow>
                  (let sz = (case li_size item of Some sz \<Rightarrow> sz | None \<Rightarrow> render (Some w) (cur_position c)) in
                   fill_above render w c (remaining - size.height sz))) }
      else Some \<lparr>item_ix = cur_position c, offset_in_item = (if remaining < 0 then - remaining else 0)\<rparr>)"

declare fill_above.simps [code]

text \<open>The item layouts are prepainted from the top down; the position an autoscroll request asks for
  ends the walk.\<close>

fun prepaint_layouts ::
  "'h::linordered_field renderer \<Rightarrow> (nat \<Rightarrow> 'h point \<Rightarrow> 'h bounds option) \<Rightarrow> 'h bounds \<Rightarrow> 'h edges \<Rightarrow> bool \<Rightarrow>
   (('h, 'f) list_item, 'h list_summary) node \<Rightarrow> 'h point \<Rightarrow> 'h item_layout list \<Rightarrow> 'h list_offset option option" where
  "prepaint_layouts render request b padding autoscroll its item_origin [] = Some None"
| "prepaint_layouts render request b padding autoscroll its item_origin (l # ls) =
     (let next_origin = item_origin\<lparr>py := py item_origin + size.height (il_size l)\<rparr> in
      case (if autoscroll then request (il_index l) item_origin else None) of
        None \<Rightarrow> prepaint_layouts render request b padding autoscroll its next_origin ls
      | Some r \<Rightarrow>
          if b_top r < b_top b then
            (let off = b_top r - py item_origin in
             if off < 0 then
               do { (_, c) \<leftarrow> cursor_seek count_dim (ord_target (il_index l)) RightBias (cursor_new count_dim its);
                    map_option Some (walk_above render (size.width (bsize b)) c (il_index l) off) }
             else Some (Some \<lparr>item_ix = il_index l, offset_in_item = off\<rparr>))
          else if b_bottom r > b_bottom b then
            do { (_, c) \<leftarrow> cursor_seek count_dim (ord_target (il_index l)) RightBias (cursor_new count_dim its);
                 map_option Some (fill_above render (size.width (bsize b)) c
                   (size.height (bsize b) - e_top padding - e_bottom padding - (b_bottom r - py item_origin))) }
          else prepaint_layouts render request b padding autoscroll its next_origin ls)"

text \<open>\<open>Inl\<close> is the position asked for, after which the list is prepainted once more.\<close>

definition prepaint_items ::
  "'h::linordered_field renderer \<Rightarrow> ('f \<Rightarrow> bool) \<Rightarrow> (nat \<Rightarrow> 'h point \<Rightarrow> 'h bounds option) \<Rightarrow> 'h bounds \<Rightarrow> 'h edges \<Rightarrow>
   bool \<Rightarrow> ('h, 'f) list_state \<Rightarrow> (('h list_offset + 'h layout_response) \<times> ('h, 'f) list_state) option" where
  "prepaint_items render focused request b padding autoscroll s =
     do { s \<leftarrow> (if measuring s = Measure False then layout_all_items render (size.width (bsize b)) s else Some s);
          (response, s) \<leftarrow> layout_items render focused (Some (size.width (bsize b))) (size.height (bsize b)) padding s;
          if size.height (bsize b) > e_top padding + e_bottom padding then
            do { found \<leftarrow> prepaint_layouts render request b padding autoscroll (items s)
                   \<lparr>px = px (origin b), py = py (origin b) + e_top padding - offset_in_item (response_scroll_top response)\<rparr>
                   (response_layouts response);
                 Some (case found of Some off \<Rightarrow> (Inl off, s) | None \<Rightarrow> (Inr response, s)) }
          else Some (Inr (response\<lparr>response_layouts := []\<rparr>), s) }"

text \<open>The width of the list decides whether the cached heights are still valid.\<close>

definition invalidate_width :: "'h::linordered_field bounds \<Rightarrow> ('h, 'f) list_state \<Rightarrow> ('h, 'f) list_state option" where
  "invalidate_width b s =
     (if (case last_layout_bounds s of None \<Rightarrow> True | Some old \<Rightarrow> size.width (bsize old) \<noteq> size.width (bsize b)) then
        do { xs \<leftarrow> collect_items (\<lambda>item. Unmeasured None (li_focus_handle item)) (items s);
             t \<leftarrow> tree_from_iter list_ops xs;
             Some (s\<lparr>items := t, measuring := measuring_reset (measuring s)\<rparr>) }
      else Some s)"

definition list_prepaint ::
  "'h::linordered_field renderer \<Rightarrow> ('f \<Rightarrow> bool) \<Rightarrow> (nat \<Rightarrow> 'h point \<Rightarrow> 'h bounds option) \<Rightarrow> 'h bounds \<Rightarrow> 'h edges \<Rightarrow>
   ('h, 'f) list_state \<Rightarrow> ('h layout_response \<times> ('h, 'f) list_state) option" where
  "list_prepaint render focused request b padding s =
     do { s \<leftarrow> invalidate_width b (s\<lparr>ls_reset := False\<rparr>);
          (result, s) \<leftarrow> prepaint_items render focused request b padding True s;
          (response, s) \<leftarrow> (case result of
              Inr response \<Rightarrow> Some (response, s)
            | Inl off \<Rightarrow>
                do { (result, s) \<leftarrow> prepaint_items render focused request b padding False (s\<lparr>logical_scroll_top := Some off\<rparr>);
                     (case result of Inr response \<Rightarrow> Some (response, s) | Inl _ \<Rightarrow> None) });
          Some (response, s\<lparr>last_layout_bounds := Some b, last_padding := Some padding\<rparr>) }"

section \<open>A list sized by its content\<close>

datatype 'h available_space = Definite 'h | Min_Content | Max_Content

text \<open>The items are laid out for the height of the last layout, or the overdraw before the first.\<close>

definition request_inferred_layout ::
  "'h::linordered_field renderer \<Rightarrow> ('f \<Rightarrow> bool) \<Rightarrow> 'h edges \<Rightarrow> ('h, 'f) list_state \<Rightarrow>
   (('h \<times> 'h) \<times> ('h, 'f) list_state) option" where
  "request_inferred_layout render focused padding s =
     do { (response, s) \<leftarrow> layout_items render focused None
            (case last_layout_bounds s of Some b \<Rightarrow> size.height (bsize b) | None \<Rightarrow> overdraw s) padding s;
          Some ((response_width response, ls_height (node_summary (items s))), s) }"

definition inferred_size ::
  "'h::linordered_field \<times> 'h \<Rightarrow> 'h option \<Rightarrow> 'h available_space \<Rightarrow> 'h available_space \<Rightarrow> 'h size" where
  "inferred_size measured known_width available_width available_height =
     (case measured of (max_element_width, total_height) \<Rightarrow>
       \<lparr>width = (case known_width of Some w \<Rightarrow> w
          | None \<Rightarrow> (case available_width of Definite x \<Rightarrow> x | _ \<Rightarrow> max_element_width)),
        height = (case available_height of Definite h \<Rightarrow> min total_height h | _ \<Rightarrow> total_height)\<rparr>)"

end
