(* ===== verification/List_Layout_Correct.thy ===== *)
theory List_Layout_Correct
  imports List_Correct List_Layout
begin

text \<open>
  Which items a layout measures, and why they fill the viewport (\<open>layout_items\<close> in
  \<open>gpui/src/elements/list.rs\<close>).
\<close>

section \<open>Measured items\<close>

text \<open>Items measured in the place of others keep their focus handles and have no negative height.\<close>

definition measured_as :: "('h::linordered_field, 'f) list_item list \<Rightarrow> ('h, 'f) list_item list \<Rightarrow> bool" where
  "measured_as ys xs = list_all2 (\<lambda>y x. \<exists>sz. y = Measured sz (li_focus_handle x) \<and> 0 \<le> size.height sz) ys xs"

lemma measured_as_simps [simp]:
  "measured_as [] xs \<longleftrightarrow> xs = []"
  "measured_as (y # ys) (x # xs) \<longleftrightarrow> (\<exists>sz. y = Measured sz (li_focus_handle x) \<and> 0 \<le> size.height sz) \<and> measured_as ys xs"
  by (simp_all add: measured_as_def)

lemma measured_as_append: "measured_as ys xs \<Longrightarrow> measured_as ys' xs' \<Longrightarrow> measured_as (ys @ ys') (xs @ xs')"
  by (simp add: measured_as_def list_all2_appendI)

lemma measured_as_length: "measured_as ys xs \<Longrightarrow> length ys = length xs"
  by (auto simp: measured_as_def dest: list_all2_lengthD)

lemma li_height_measured [simp]: "li_height (Measured sz f) = size.height sz"
  by (simp add: li_height_def)

lemma measured_as_heights: "measured_as ys xs \<Longrightarrow> heights_ok ys"
  by (auto simp: measured_as_def list_all2_conv_all_nth heights_ok_def list_all_length)

lemma measured_as_size: "measured_as ys xs \<Longrightarrow> y \<in> set ys \<Longrightarrow> li_size y \<noteq> None"
  by (auto simp: measured_as_def list_all2_conv_all_nth in_set_conv_nth)

text \<open>
  \<open>measures_from R lim a xs ms ls\<close>: the measured items stand for those of \<open>xs\<close> from \<open>a\<close> on, and the
  layouts are the first of them. Before \<open>lim\<close> an item has the size it renders with or keeps the one it
  had, and a layout has the size it renders with.
\<close>

definition measures_from ::
  "(nat \<Rightarrow> 'h size) \<Rightarrow> nat \<Rightarrow> nat \<Rightarrow> ('h::linordered_field, 'f) list_item list \<Rightarrow> ('h, 'f) list_item list \<Rightarrow>
   'h item_layout list \<Rightarrow> bool" where
  "measures_from R lim a xs ms ls \<longleftrightarrow> a + length ms \<le> length xs \<and> measured_as ms (take (length ms) (drop a xs)) \<and>
     length ls \<le> length ms \<and> map il_index ls = [a..<a + length ls] \<and>
     map (\<lambda>l. Some (il_size l)) ls = map li_size (take (length ls) ms) \<and>
     (\<forall>k<length ms. a + k < lim \<longrightarrow> li_size (ms ! k) = Some (R (a + k)) \<or> li_size (ms ! k) = li_size (xs ! (a + k))) \<and>
     (\<forall>l\<in>set ls. il_index l < lim \<longrightarrow> il_size l = R (il_index l))"

lemma take_Suc_drop: "i < length xs \<Longrightarrow> take (Suc n) (drop i xs) = xs ! i # take n (drop (Suc i) xs)"
  by (simp add: Cons_nth_drop_Suc [symmetric])

lemma measures_from_empty: "a \<le> length xs \<Longrightarrow> measures_from R lim a xs [] []"
  by (simp add: measures_from_def)

lemma measures_from_push:
  assumes "measures_from R lim a xs ms ls" "a + length ms < length xs" "0 \<le> size.height sz"
    and "a + length ms < lim \<Longrightarrow> sz = R (a + length ms) \<or> Some sz = li_size (xs ! (a + length ms))"
  shows "measures_from R lim a xs (ms @ [Measured sz (li_focus_handle (xs ! (a + length ms)))]) ls"
    and "length ls = length ms \<Longrightarrow> (a + length ms < lim \<Longrightarrow> sz = R (a + length ms)) \<Longrightarrow>
      measures_from R lim a xs (ms @ [Measured sz (li_focus_handle (xs ! (a + length ms)))]) (ls @ [\<lparr>il_index = a + length ms, il_size = sz\<rparr>])"
proof -
  let ?x = "Measured sz (li_focus_handle (xs ! (a + length ms)))"
  have "measured_as (ms @ [?x]) (take (length ms) (drop a xs) @ [xs ! (a + length ms)])"
    using assms by (intro measured_as_append) (simp_all add: measures_from_def)
  moreover have "take (Suc (length ms)) (drop a xs) = take (length ms) (drop a xs) @ [xs ! (a + length ms)]"
    using assms(2) by (subst take_Suc_conv_app_nth) simp_all
  ultimately have m: "measured_as (ms @ [?x]) (take (length (ms @ [?x])) (drop a xs))" by simp
  have le: "length ls \<le> length ms" and ix: "map il_index ls = [a..<a + length ls]"
    and sz: "map (\<lambda>l. Some (il_size l)) ls = map li_size (take (length ls) ms)"
    and old: "\<forall>k<length ms. a + k < lim \<longrightarrow> li_size (ms ! k) = Some (R (a + k)) \<or> li_size (ms ! k) = li_size (xs ! (a + k))"
    and drawn: "\<forall>l\<in>set ls. il_index l < lim \<longrightarrow> il_size l = R (il_index l)"
    using assms(1) by (simp_all add: measures_from_def)
  have new: "\<forall>k<length (ms @ [?x]). a + k < lim \<longrightarrow>
      li_size ((ms @ [?x]) ! k) = Some (R (a + k)) \<or> li_size ((ms @ [?x]) ! k) = li_size (xs ! (a + k))"
    using old assms(4) by (auto simp: nth_append less_Suc_eq)
  show "measures_from R lim a xs (ms @ [?x]) ls"
    using m le ix sz new drawn assms(2) unfolding measures_from_def by simp
  show "measures_from R lim a xs (ms @ [?x]) (ls @ [\<lparr>il_index = a + length ms, il_size = sz\<rparr>])"
    if "length ls = length ms" "a + length ms < lim \<Longrightarrow> sz = R (a + length ms)"
    using m ix sz new drawn assms(2) that unfolding measures_from_def by simp
qed

lemma measures_from_front:
  assumes "measures_from R lim (Suc a) xs ms ls" "0 \<le> size.height sz" and "sz = R a \<or> Some sz = li_size (xs ! a)"
  shows "measures_from R lim a xs (Measured sz (li_focus_handle (xs ! a)) # ms) []"
    and "sz = R a \<Longrightarrow> measures_from R lim a xs (Measured sz (li_focus_handle (xs ! a)) # ms) (\<lparr>il_index = a, il_size = sz\<rparr> # ls)"
  using assms by (auto simp: measures_from_def take_Suc_drop upt_conv_Cons nth_Cons split: nat.split simp del: upt_Suc)

section \<open>Below the scroll position\<close>

lemma next_item_end: "cursor_at list_ops count_dim 1 c us [] \<Longrightarrow> filter_iter_next count_dim (\<lambda>_. True) c = Some (None, c)"
  using cursor_at_item(1) [of list_ops count_dim 1 c us "[]"]
  by (simp add: filter_iter_next_def cursor_at_def first_opt_def)

lemma next_item_at:
  assumes "cursor_at list_ops count_dim 1 c us (x # ws)"
  shows "\<exists>c'. filter_iter_next count_dim (\<lambda>_. True) c = Some (Some x, c') \<and> cur_tree c' = cur_tree c \<and>
    cursor_at list_ops count_dim 1 c' (us @ [x]) ws"
proof -
  have t: "takeWhile (\<lambda>y. \<not> True) ws = []" "dropWhile (\<lambda>y. \<not> True) ws = ws" by (cases ws, simp_all)+
  from list_count.search_forward_ok [OF prunes_True ahead_at [OF assms]] obtain c' where
    c': "search_forward count_dim (\<lambda>_. True) c = Some c'" "cur_tree c' = cur_tree c"
      "cursor_at list_ops count_dim 1 c' (us @ [x]) ws"
    unfolding t append_Nil2 by blast
  have "did_seek c" using assms by (simp add: cursor_at_def)
  with c' cursor_at_item(1) [OF assms] show ?thesis
    by (intro exI [of _ c']) (simp add: filter_iter_next_def first_opt_def)
qed

lemma apply_pending_facts:
  assumes "apply_pending sz (acc, s) = (acc1, s1)"
  shows "measured_items acc1 = measured_items acc" "rendered_height acc1 = rendered_height acc"
    "item_layouts acc1 = item_layouts acc" "item_ix (la_scroll_top acc1) = item_ix (la_scroll_top acc)"
    "\<exists>p l. s1 = s\<lparr>pending_scroll := p, logical_scroll_top := l\<rparr> \<and>
      (l = logical_scroll_top s \<or> l = Some (la_scroll_top acc1))"
proof -
  consider (unchanged) p where "acc1 = acc" "s1 = s\<lparr>pending_scroll := p\<rparr>"
    | (moved) st where "acc1 = acc\<lparr>la_scroll_top := st\<rparr>" "s1 = s\<lparr>pending_scroll := None, logical_scroll_top := Some st\<rparr>"
        "item_ix st = item_ix (la_scroll_top acc)"
  proof (cases "pending_scroll s")
    case None
    with assms have "acc1 = acc" "s1 = s\<lparr>pending_scroll := pending_scroll s\<rparr>" by (simp_all add: apply_pending_def)
    then show ?thesis by (rule unchanged)
  next
    case (Some q)
    show ?thesis
    proof (cases "adjusted_top q sz (la_scroll_top acc)")
      case None
      with assms Some show ?thesis by (intro unchanged [of None]) (simp_all add: apply_pending_def Let_def)
    next
      case (Some st)
      then have "item_ix st = item_ix (la_scroll_top acc)" by (cases q) (auto split: if_splits)
      with assms Some \<open>pending_scroll s = Some q\<close> show ?thesis
        by (intro moved [of st]) (auto simp: apply_pending_def Let_def)
    qed
  qed
  note cases = this
  show "measured_items acc1 = measured_items acc" "rendered_height acc1 = rendered_height acc"
    "item_layouts acc1 = item_layouts acc" "item_ix (la_scroll_top acc1) = item_ix (la_scroll_top acc)"
    by (cases rule: cases; simp)+
  show "\<exists>p l. s1 = s\<lparr>pending_scroll := p, logical_scroll_top := l\<rparr> \<and>
      (l = logical_scroll_top s \<or> l = Some (la_scroll_top acc1))"
  proof (cases rule: cases)
    case (unchanged p)
    then show ?thesis by (intro exI [of _ p] exI [of _ "logical_scroll_top s"]) simp
  next
    case (moved st)
    then show ?thesis by (intro exI [of _ None] exI [of _ "Some st"]) simp
  qed
qed

lemma item_after_facts:
  assumes r_def: "r = layout_item_after render focused w avail n ix item (acc, s)"
    and "0 \<le> size.height (render w (item_ix (la_scroll_top acc) + ix))" "0 \<le> li_height item"
  shows "\<exists>sz p l. 0 \<le> size.height sz \<and>
    (sz = render w (item_ix (la_scroll_top acc) + ix) \<or> Some sz = li_size item) \<and>
    (visible_height acc < avail \<longrightarrow> sz = render w (item_ix (la_scroll_top acc) + ix)) \<and>
    measured_items (fst r) = measured_items acc @ [Measured sz (li_focus_handle item)] \<and>
    rendered_height (fst r) = rendered_height acc + size.height sz \<and>
    item_ix (la_scroll_top (fst r)) = item_ix (la_scroll_top acc) \<and>
    (0 < ix \<longrightarrow> la_scroll_top (fst r) = la_scroll_top acc) \<and>
    item_layouts (fst r) = item_layouts acc @
      (if visible_height acc < avail then [\<lparr>il_index = item_ix (la_scroll_top acc) + ix, il_size = sz\<rparr>] else []) \<and>
    snd r = s\<lparr>pending_scroll := p, logical_scroll_top := l\<rparr> \<and>
    (l = logical_scroll_top s \<or> l = Some (la_scroll_top (fst r)))"
proof -
  let ?m = "render w (item_ix (la_scroll_top acc) + ix)"
  let ?r = "visible_height acc < avail \<or> li_size item = None \<or>
    (tail_reservation s \<noteq> None \<and> item_ix (la_scroll_top acc) + ix + 1 = n)"
  let ?sz = "case li_size item of Some sz \<Rightarrow> (if ?r then ?m else sz) | None \<Rightarrow> ?m"
  have sz0: "0 \<le> size.height ?sz"
    using assms(2,3) by (cases item) auto
  have vis: "visible_height acc < avail \<Longrightarrow> ?sz = ?m" by (auto split: option.splits)
  have from_render: "?sz = ?m \<or> Some ?sz = li_size item" by (auto split: option.splits)
  obtain acc1 s1 where a1: "(if ?r \<and> ix = 0 then apply_pending ?m (acc, s) else (acc, s)) = (acc1, s1)" by fastforce
  have "measured_items acc1 = measured_items acc \<and> rendered_height acc1 = rendered_height acc \<and>
    item_layouts acc1 = item_layouts acc \<and> item_ix (la_scroll_top acc1) = item_ix (la_scroll_top acc) \<and>
    (0 < ix \<longrightarrow> la_scroll_top acc1 = la_scroll_top acc) \<and>
    (\<exists>p l. s1 = s\<lparr>pending_scroll := p, logical_scroll_top := l\<rparr> \<and>
      (l = logical_scroll_top s \<or> l = Some (la_scroll_top acc1)))"
  proof (cases "?r \<and> ix = 0")
    case True
    then show ?thesis using apply_pending_facts [OF a1 [unfolded if_P [OF True]]] by blast
  next
    case False
    from a1 [unfolded if_not_P [OF False]] have "acc1 = acc" "s1 = s" by simp_all
    moreover have "s = s\<lparr>pending_scroll := pending_scroll s, logical_scroll_top := logical_scroll_top s\<rparr>" by simp
    ultimately show ?thesis by metis
  qed
  then have keep: "measured_items acc1 = measured_items acc" "rendered_height acc1 = rendered_height acc"
    "item_layouts acc1 = item_layouts acc" "item_ix (la_scroll_top acc1) = item_ix (la_scroll_top acc)"
    "0 < ix \<longrightarrow> la_scroll_top acc1 = la_scroll_top acc"
    and "\<exists>p l. s1 = s\<lparr>pending_scroll := p, logical_scroll_top := l\<rparr> \<and>
      (l = logical_scroll_top s \<or> l = Some (la_scroll_top acc1))" by blast+
  then obtain p l where pl: "s1 = s\<lparr>pending_scroll := p, logical_scroll_top := l\<rparr>"
    "l = logical_scroll_top s \<or> l = Some (la_scroll_top acc1)" by blast
  have r: "measured_items (fst r) = measured_items acc1 @ [Measured ?sz (li_focus_handle item)]"
    "rendered_height (fst r) = rendered_height acc1 + size.height ?sz" "la_scroll_top (fst r) = la_scroll_top acc1"
    "item_layouts (fst r) = item_layouts acc1 @
      (if visible_height acc < avail then [\<lparr>il_index = item_ix (la_scroll_top acc) + ix, il_size = ?m\<rparr>] else [])"
    "snd r = s1"
    unfolding r_def layout_item_after_def Let_def prod.case a1 by simp_all
  show ?thesis
    using r keep pl sz0 vis from_render by (intro exI [of _ ?sz] exI [of _ p] exI [of _ l] conjI) auto
qed

text \<open>While a layout is missing, those there fill the viewport.\<close>

definition pad_above :: "('h::linordered_field, 'f) layout_acc \<Rightarrow> 'h" where
  "pad_above acc = rendered_height acc - total_height (measured_items acc)"

definition fills :: "'h::linordered_field \<Rightarrow> ('h, 'f) layout_acc \<Rightarrow> bool" where
  "fills avail acc \<longleftrightarrow> (length (item_layouts acc) < length (measured_items acc) \<longrightarrow>
     avail \<le> pad_above acc + total_height (take (length (item_layouts acc)) (measured_items acc))
       - offset_in_item (la_scroll_top acc))"

text \<open>The last item was measured because those before it did not reach as far as needed.\<close>

definition close_fit :: "'h::linordered_field \<Rightarrow> ('h, 'f) layout_acc \<Rightarrow> bool" where
  "close_fit extent acc \<longleftrightarrow> (Suc 0 < length (measured_items acc) \<longrightarrow>
     pad_above acc + total_height (butlast (measured_items acc)) - offset_in_item (la_scroll_top acc) < extent)"

lemma take_total: "heights_ok xs \<Longrightarrow> total_height (take n xs) \<le> total_height xs"
  using total_height_nonneg [OF heights_take_drop(2), of xs n] total_height_simps(3) [of "take n xs" "drop n xs"] by simp

lemma fills_all:
  assumes "fills avail acc" "measures_from R lim a xs (measured_items acc) (item_layouts acc)" "visible_height acc < avail"
  shows "length (item_layouts acc) = length (measured_items acc)"
proof (rule ccontr)
  assume "\<not> ?thesis"
  then have "avail \<le> pad_above acc + total_height (take (length (item_layouts acc)) (measured_items acc))
       - offset_in_item (la_scroll_top acc)"
    using assms(1,2) by (auto simp: fills_def measures_from_def)
  moreover have "heights_ok (measured_items acc)"
    using assms(2) measured_as_heights unfolding measures_from_def by blast
  ultimately show False
    using assms(3) take_total [of "measured_items acc" "length (item_layouts acc)"]
    by (simp add: visible_height_def pad_above_def)
qed

lemma layout_after_ok:
  fixes render :: "'h::linordered_field renderer"
  assumes "\<And>i. 0 \<le> size.height (render w i)"
  shows "cursor_at list_ops count_dim 1 c us ws \<Longrightarrow> heights_ok ws \<Longrightarrow> length us = item_ix (la_scroll_top acc) + ix \<Longrightarrow>
    length (measured_items acc) = ix \<Longrightarrow>
    measures_from (render w) lim (item_ix (la_scroll_top acc)) (us @ ws) (measured_items acc) (item_layouts acc) \<Longrightarrow>
    fills avail acc \<Longrightarrow> close_fit (avail + overdraw s) acc \<Longrightarrow> (ix = 0 \<longrightarrow> visible_height acc < avail) \<Longrightarrow>
    \<exists>c' acc' p l us' ws'. layout_after render focused w avail n ix c (acc, s) =
        Some (c', acc', s\<lparr>pending_scroll := p, logical_scroll_top := l\<rparr>) \<and>
      cursor_at list_ops count_dim 1 c' us' ws' \<and> cur_tree c' = cur_tree c \<and>
      item_ix (la_scroll_top acc') = item_ix (la_scroll_top acc) \<and>
      (0 < ix \<longrightarrow> la_scroll_top acc' = la_scroll_top acc) \<and>
      measures_from (render w) lim (item_ix (la_scroll_top acc)) (us @ ws) (measured_items acc') (item_layouts acc') \<and>
      rendered_height acc' - total_height (measured_items acc') = rendered_height acc - total_height (measured_items acc) \<and>
      (l = logical_scroll_top s \<or> l = Some (la_scroll_top acc')) \<and> fills avail acc' \<and> close_fit (avail + overdraw s) acc' \<and>
      (item_ix (la_scroll_top acc') + length (measured_items acc') < length (us @ ws) \<longrightarrow>
        avail + overdraw s \<le> visible_height acc')"
proof (induction ws arbitrary: us c ix acc s)
  case Nil
  have "layout_after render focused w avail n ix c (acc, s) =
      Some (c, acc, s\<lparr>pending_scroll := pending_scroll s, logical_scroll_top := logical_scroll_top s\<rparr>)"
    by (subst layout_after.simps) (simp add: next_item_end [OF Nil.prems(1)])
  then show ?case using Nil.prems by (intro exI conjI) (assumption | rule refl | simp)+
next
  case (Cons x ws)
  let ?i = "item_ix (la_scroll_top acc)" and ?xs = "us @ x # ws"
  from next_item_at [OF Cons.prems(1)] obtain c1 where
    c1: "filter_iter_next count_dim (\<lambda>_. True) c = Some (Some x, c1)" "cur_tree c1 = cur_tree c"
      "cursor_at list_ops count_dim 1 c1 (us @ [x]) ws" by blast
  show ?case
  proof (cases "visible_height acc \<ge> avail + overdraw s")
    case True
    then have "layout_after render focused w avail n ix c (acc, s) =
        Some (c1, acc, s\<lparr>pending_scroll := pending_scroll s, logical_scroll_top := logical_scroll_top s\<rparr>)"
      by (subst layout_after.simps) (simp add: c1(1))
    then show ?thesis using Cons.prems c1(2,3) True by (intro exI conjI) (assumption | rule refl | simp)+
  next
    case False
    obtain acc1 s1 where r: "(acc1, s1) = layout_item_after render focused w avail n ix x (acc, s)"
      by (metis surj_pair)
    have h: "0 \<le> li_height x" using Cons.prems(2) by simp
    from item_after_facts [OF r assms h] obtain sz p l where
      b: "sz = render w (?i + ix) \<or> Some sz = li_size x" "visible_height acc < avail \<longrightarrow> sz = render w (?i + ix)" and
      a: "0 \<le> size.height sz" "measured_items acc1 = measured_items acc @ [Measured sz (li_focus_handle x)]"
        "rendered_height acc1 = rendered_height acc + size.height sz" "item_ix (la_scroll_top acc1) = ?i"
        "0 < ix \<longrightarrow> la_scroll_top acc1 = la_scroll_top acc"
        "item_layouts acc1 = item_layouts acc @ (if visible_height acc < avail then [\<lparr>il_index = ?i + ix, il_size = sz\<rparr>] else [])"
        "s1 = s\<lparr>pending_scroll := p, logical_scroll_top := l\<rparr>" "l = logical_scroll_top s \<or> l = Some (la_scroll_top acc1)"
      by auto
    have x: "?xs ! (?i + length (measured_items acc)) = x" "?i + length (measured_items acc) < length ?xs"
      using Cons.prems(3,4) by (simp_all add: nth_append)
    have le: "length (item_layouts acc) \<le> length (measured_items acc)" using Cons.prems(5) by (simp add: measures_from_def)
    have eq: "visible_height acc < avail \<Longrightarrow> length (item_layouts acc) = length (measured_items acc)"
      by (rule fills_all [OF Cons.prems(6,5)])
    have pad: "pad_above acc1 = pad_above acc" using a(2,3) by (simp add: pad_above_def)
    have cov: "measures_from (render w) lim (item_ix (la_scroll_top acc1)) ((us @ [x]) @ ws) (measured_items acc1) (item_layouts acc1)"
      using measures_from_push [OF Cons.prems(5) x(2) a(1)] eq b Cons.prems(4) unfolding a(2,4,6) x(1) by auto
    have fill: "fills avail acc1"
    proof (cases "visible_height acc < avail")
      case True
      then show ?thesis using eq by (simp add: fills_def a(2,6))
    next
      case F: False
      then have "0 < ix" using Cons.prems(8) by auto
      then have st: "la_scroll_top acc1 = la_scroll_top acc" using a(5) by simp
      show ?thesis
      proof (cases "length (item_layouts acc) < length (measured_items acc)")
        case True
        with Cons.prems(6) F show ?thesis by (simp add: fills_def pad st a(2,6))
      next
        case False
        with le F show ?thesis by (simp add: fills_def pad st a(2,6)) (simp add: visible_height_def pad_above_def)
      qed
    qed
    have close: "close_fit (avail + overdraw s1) acc1"
    proof (cases "ix = 0")
      case True
      then show ?thesis using Cons.prems(4) by (simp add: close_fit_def a(2))
    next
      case F: False
      then have "la_scroll_top acc1 = la_scroll_top acc" using a(5) by simp
      with False show ?thesis by (simp add: close_fit_def pad a(2,7) not_le) (simp add: visible_height_def pad_above_def)
    qed
    have "heights_ok ws" "length (us @ [x]) = item_ix (la_scroll_top acc1) + Suc ix"
      "length (measured_items acc1) = Suc ix" "Suc ix = 0 \<longrightarrow> visible_height acc1 < avail"
      using Cons.prems(2-4) a by simp_all
    from Cons.IH [OF c1(3) this(1-3) cov fill close this(4)] obtain c' acc' p' l' us' ws' where
      i: "layout_after render focused w avail n (Suc ix) c1 (acc1, s1) =
          Some (c', acc', s1\<lparr>pending_scroll := p', logical_scroll_top := l'\<rparr>)"
        "cursor_at list_ops count_dim 1 c' us' ws'" "cur_tree c' = cur_tree c1"
        "0 < Suc ix \<longrightarrow> la_scroll_top acc' = la_scroll_top acc1"
        "measures_from (render w) lim (item_ix (la_scroll_top acc1)) ((us @ [x]) @ ws) (measured_items acc') (item_layouts acc')"
        "rendered_height acc' - total_height (measured_items acc') = rendered_height acc1 - total_height (measured_items acc1)"
        "l' = logical_scroll_top s1 \<or> l' = Some (la_scroll_top acc')" "fills avail acc'"
        "close_fit (avail + overdraw s1) acc'"
        "item_ix (la_scroll_top acc') + length (measured_items acc') < length ((us @ [x]) @ ws) \<longrightarrow>
           avail + overdraw s1 \<le> visible_height acc'"
      by blast
    have st: "la_scroll_top acc' = la_scroll_top acc1" using i(4) by simp
    have step: "layout_after render focused w avail n ix c (acc, s) =
        Some (c', acc', s\<lparr>pending_scroll := p', logical_scroll_top := l'\<rparr>)"
      using False i(1) by (subst layout_after.simps) (simp add: c1(1) r [symmetric] a(7))
    have l: "l' = logical_scroll_top s \<or> l' = Some (la_scroll_top acc')"
      using st i(7) a(7,8) by auto
    have hd: "rendered_height acc' - total_height (measured_items acc') = rendered_height acc - total_height (measured_items acc)"
      using i(6) a(2,3) by simp
    show ?thesis
      using step i(2,3,5,8,9,10) st l hd a(4,5,7) c1(2)
      by (intro exI [of _ c'] exI [of _ acc'] exI [of _ p'] exI [of _ l'] exI [of _ us'] exI [of _ ws']) simp
  qed
qed

section \<open>Above the scroll position\<close>

lemma prev_item:
  assumes "behind list_ops count_dim 1 c us"
  shows "\<exists>c'. cursor_prev count_dim c = Some c' \<and> cur_tree c' = cur_tree c \<and>
    cursor_item c' = Some (if us = [] then None else Some (last us)) \<and>
    cur_position c' = length (butlast us) \<and> behind list_ops count_dim 1 c' (butlast us)"
proof -
  from list_count.cursor_prev_ok [OF assms] obtain c' where
    c': "cursor_prev count_dim c = Some c'" "cur_tree c' = cur_tree c"
      "if us = [] then (if flat (cur_tree c) = [] then cursor_at list_ops count_dim 1 c' [] []
         else cursor_front list_ops count_dim 1 c')
       else cursor_at list_ops count_dim 1 c' (butlast us) (last us # drop (length us) (flat (cur_tree c)))" by blast
  show ?thesis
  proof (cases "us = []")
    case False
    then have at: "cursor_at list_ops count_dim 1 c' (butlast us) (last us # drop (length us) (flat (cur_tree c)))"
      using c'(3) by simp
    then show ?thesis
      using c'(1,2) False cursor_at_item(1) [OF at] at_count [OF at] behind_at [OF at] by (simp add: first_opt_def)
  next
    case True
    show ?thesis
    proof (cases "flat (cur_tree c) = []")
      case e: True
      then have at: "cursor_at list_ops count_dim 1 c' [] []" using c'(3) True by simp
      then show ?thesis
        using c'(1,2) True cursor_at_item(1) [OF at] at_count [OF at] behind_at [OF at] by (simp add: first_opt_def)
    next
      case False
      then have f: "cursor_front list_ops count_dim 1 c'" using c'(3) True by simp
      then have "cursor_item c' = Some None" "cur_position c' = 0"
        by (auto simp: cursor_front_def cursor_item_def)
      with c'(1,2) True behind_front [OF f] show ?thesis by simp
    qed
  qed
qed

lemma measures_from_last:
  assumes "measures_from R lim (length us) (us @ ws) ms ls" "us \<noteq> []" "0 \<le> size.height sz"
    and "sz = R (length (butlast us)) \<or> Some sz = li_size (last us)"
  shows "sz = R (length (butlast us)) \<Longrightarrow> measures_from R lim (length (butlast us)) (us @ ws) (Measured sz (li_focus_handle (last us)) # ms)
      (\<lparr>il_index = length (butlast us), il_size = sz\<rparr> # ls)"
    and "measures_from R lim (length (butlast us)) (us @ ws) (Measured sz (li_focus_handle (last us)) # ms) []"
proof -
  have x: "(us @ ws) ! length (butlast us) = last us" using assms(2) by (simp add: nth_append last_conv_nth)
  have n: "Suc (length (butlast us)) = length us" using assms(2) by (cases us) simp_all
  note front = measures_from_front [of R lim "length (butlast us)" "us @ ws" ms ls sz, unfolded x n, OF assms(1,3,4)]
  show "sz = R (length (butlast us)) \<Longrightarrow> measures_from R lim (length (butlast us)) (us @ ws) (Measured sz (li_focus_handle (last us)) # ms)
      (\<lparr>il_index = length (butlast us), il_size = sz\<rparr> # ls)" by (rule front(2))
  show "measures_from R lim (length (butlast us)) (us @ ws) (Measured sz (li_focus_handle (last us)) # ms) []" by (rule front(1))
qed

lemma butlast_rest: "us \<noteq> [] \<Longrightarrow> us @ ws = butlast us @ last us # ws"
  by simp

lemma layout_before_ok:
  fixes render :: "'h::linordered_field renderer"
  assumes "\<And>i. 0 \<le> size.height (render w i)"
  shows "behind list_ops count_dim 1 c us \<Longrightarrow> cur_position c = length us \<Longrightarrow>
    measures_from (render w) lim (length us) (us @ ws) (measured_items acc) (item_layouts acc) \<Longrightarrow>
    length (item_layouts acc) = length (measured_items acc) \<Longrightarrow>
    \<exists>c' acc' us' vs. layout_before render focused w avail c acc = Some (c', acc') \<and>
      behind list_ops count_dim 1 c' us' \<and> cur_position c' = length us' \<and> us = us' @ vs \<and> cur_tree c' = cur_tree c \<and>
      measures_from (render w) lim (length us') (us @ ws) (measured_items acc') (item_layouts acc') \<and>
      length (item_layouts acc') = length (measured_items acc') \<and>
      rendered_height acc' - total_height (measured_items acc') = rendered_height acc - total_height (measured_items acc) \<and>
      (\<exists>ys. measured_items acc' = ys @ measured_items acc \<and> length ys = length vs) \<and>
      (avail \<le> rendered_height acc' \<or> us' = [])"
proof (induction us arbitrary: c acc ws rule: rev_induct)
  case Nil
  from prev_item [OF Nil.prems(1)] obtain c' where
    c': "cursor_prev count_dim c = Some c'" "cur_tree c' = cur_tree c" "cursor_item c' = Some None"
      "cur_position c' = 0" "behind list_ops count_dim 1 c' []" by auto
  show ?case
  proof (cases "rendered_height acc < avail")
    case True
    then have "layout_before render focused w avail c acc = Some (c', acc)"
      by (subst layout_before.simps) (simp add: c')
    then show ?thesis using Nil.prems c' by (intro exI conjI) (assumption | rule refl | simp)+
  next
    case False
    then have "layout_before render focused w avail c acc = Some (c, acc)"
      by (subst layout_before.simps) simp
    then show ?thesis using Nil.prems False by (intro exI conjI) (assumption | rule refl | simp)+
  qed
next
  case (snoc x us)
  show ?case
  proof (cases "rendered_height acc < avail")
    case False
    then have "layout_before render focused w avail c acc = Some (c, acc)"
      by (subst layout_before.simps) simp
    then show ?thesis using snoc.prems False by (intro exI conjI) (assumption | rule refl | simp)+
  next
    case True
    from prev_item [OF snoc.prems(1)] obtain c1 where
      c1: "cursor_prev count_dim c = Some c1" "cur_tree c1 = cur_tree c" "cursor_item c1 = Some (Some x)"
        "cur_position c1 = length us" "behind list_ops count_dim 1 c1 us" by auto
    let ?acc = "layout_item_before render focused w (length us) x acc"
    have m: "measured_items ?acc = Measured (render w (length us)) (li_focus_handle x) # measured_items acc"
      "item_layouts ?acc = \<lparr>il_index = length us, il_size = render w (length us)\<rparr> # item_layouts acc"
      "rendered_height ?acc = rendered_height acc + size.height (render w (length us))"
      by (simp_all add: layout_item_before_def Let_def)
    have mf: "measures_from (render w) lim (length us) (us @ x # ws) (measured_items ?acc) (item_layouts ?acc)"
    proof -
      have "us @ [x] \<noteq> []" "render w (length us) = render w (length (butlast (us @ [x])))" by simp_all
      from measures_from_last(1) [OF snoc.prems(3) this(1) assms disjI1 [OF this(2)] this(2)]
      show ?thesis unfolding m butlast_snoc last_snoc append_assoc append_Cons append_Nil .
    qed
    have len: "length (item_layouts ?acc) = length (measured_items ?acc)" using snoc.prems(4) by (simp add: m)
    from snoc.IH [OF c1(5,4) mf len] obtain c' acc' us' vs where
      i: "layout_before render focused w avail c1 ?acc = Some (c', acc')"
        "behind list_ops count_dim 1 c' us'" "cur_position c' = length us'" "us = us' @ vs" "cur_tree c' = cur_tree c1"
        "measures_from (render w) lim (length us') (us @ x # ws) (measured_items acc') (item_layouts acc')"
        "length (item_layouts acc') = length (measured_items acc')"
        "rendered_height acc' - total_height (measured_items acc') = rendered_height ?acc - total_height (measured_items ?acc)"
        "\<exists>ys. measured_items acc' = ys @ measured_items ?acc \<and> length ys = length vs" "avail \<le> rendered_height acc' \<or> us' = []"
      by blast
    have step: "layout_before render focused w avail c acc = Some (c', acc')"
      using True i(1) by (subst layout_before.simps) (simp add: c1)
    have "\<exists>ys. measured_items acc' = ys @ measured_items acc \<and> length ys = length (vs @ [x])"
      using i(9) unfolding m by auto
    moreover have "rendered_height acc' - total_height (measured_items acc') =
        rendered_height acc - total_height (measured_items acc)" using i(8) unfolding m by simp
    moreover have "us @ [x] = us' @ vs @ [x]" "cur_tree c' = cur_tree c"
      "measures_from (render w) lim (length us') ((us @ [x]) @ ws) (measured_items acc') (item_layouts acc')"
      using i(4-6) c1(2) by simp_all
    ultimately show ?thesis using step i(2,3,7,10) by blast
  qed
qed

lemma overdraw_before_ok:
  fixes render :: "'h::linordered_field renderer"
  assumes "\<And>i. 0 \<le> size.height (render w i)"
  shows "behind list_ops count_dim 1 c us \<Longrightarrow> cur_position c = length us \<Longrightarrow> heights_ok us \<Longrightarrow>
    measures_from (render w) lim (length us) (us @ ws) ms ls \<Longrightarrow>
    \<exists>c' us' vs ys. overdraw_before render w draw leading c ms = Some (c', ys @ ms) \<and>
      cur_position c' = length us' \<and> us = us' @ vs \<and> cur_tree c' = cur_tree c \<and> length ys = length vs \<and>
      (us' = [] \<or> draw \<le> leading + total_height ys) \<and> (ys \<noteq> [] \<longrightarrow> leading + total_height (tl ys) < draw) \<and>
      measures_from (render w) lim (length us') (us @ ws) (ys @ ms) []"
proof (induction us arbitrary: c leading ms ls ws rule: rev_induct)
  case Nil
  from prev_item [OF Nil.prems(1)] obtain c' where
    c': "cursor_prev count_dim c = Some c'" "cur_tree c' = cur_tree c" "cursor_item c' = Some None"
      "cur_position c' = 0" "behind list_ops count_dim 1 c' []" by auto
  have ls: "measures_from (render w) lim 0 ws ms []" using Nil.prems(4) by (simp add: measures_from_def)
  show ?case
  proof (cases "leading < draw")
    case True
    then have "overdraw_before render w draw leading c ms = Some (c', [] @ ms)"
      by (subst overdraw_before.simps) (simp add: c')
    then show ?thesis using c' ls by (intro exI [of _ c'] exI [of _ "[]"]) simp
  next
    case False
    then have "overdraw_before render w draw leading c ms = Some (c, [] @ ms)"
      by (subst overdraw_before.simps) simp
    then show ?thesis using Nil.prems ls by (intro exI [of _ c] exI [of _ "[]"]) simp
  qed
next
  case (snoc x us)
  have ls: "measures_from (render w) lim (length (us @ [x])) ((us @ [x]) @ ws) ms []"
    using snoc.prems(4) by (simp add: measures_from_def)
  show ?case
  proof (cases "leading < draw")
    case False
    then have "overdraw_before render w draw leading c ms = Some (c, [] @ ms)"
      by (subst overdraw_before.simps) simp
    then show ?thesis using snoc.prems(2) ls False
      by (intro exI [of _ c] exI [of _ "us @ [x]"] exI [of _ "[]"]) simp
  next
    case True
    from prev_item [OF snoc.prems(1)] obtain c1 where
      c1: "cursor_prev count_dim c = Some c1" "cur_tree c1 = cur_tree c" "cursor_item c1 = Some (Some x)"
        "cur_position c1 = length us" "behind list_ops count_dim 1 c1 us" by auto
    let ?sz = "case li_size x of Some sz \<Rightarrow> sz | None \<Rightarrow> render w (length us)"
    let ?m = "Measured ?sz (li_focus_handle x)"
    have "0 \<le> size.height ?sz" using assms snoc.prems(3) by (cases x) simp_all
    moreover have "?sz = render w (length us) \<or> Some ?sz = li_size x" by (cases x) simp_all
    ultimately have mf: "measures_from (render w) lim (length us) (us @ x # ws) (?m # ms) []"
      using measures_from_last(2) [OF snoc.prems(4), of ?sz] by simp
    have hu: "heights_ok us" using snoc.prems(3) by simp
    from snoc.IH [OF c1(5,4) hu mf, of "leading + size.height ?sz"] obtain c' us' vs ys where
      i: "overdraw_before render w draw (leading + size.height ?sz) c1 (?m # ms) = Some (c', ys @ ?m # ms)"
        "cur_position c' = length us'" "us = us' @ vs" "cur_tree c' = cur_tree c1" "length ys = length vs"
        "us' = [] \<or> draw \<le> leading + size.height ?sz + total_height ys"
        "ys \<noteq> [] \<longrightarrow> leading + size.height ?sz + total_height (tl ys) < draw"
        "measures_from (render w) lim (length us') (us @ x # ws) (ys @ ?m # ms) []"
      by blast
    have step: "overdraw_before render w draw leading c ms = Some (c', (ys @ [?m]) @ ms)"
      using True i(1) by (subst overdraw_before.simps) (simp add: c1 Let_def cong: option.case_cong)
    have "us' = [] \<or> draw \<le> leading + total_height (ys @ [?m])" using i(6) by (simp add: algebra_simps)
    moreover have "leading + total_height (tl (ys @ [?m])) < draw"
      using i(7) True by (cases ys) (simp_all add: algebra_simps)
    ultimately show ?thesis using step i(2-5,8) c1(2)
      by (intro exI [of _ c'] exI [of _ us'] exI [of _ "vs @ [x]"] exI [of _ "ys @ [?m]"]) simp
  qed
qed

section \<open>The reserved tail\<close>

lemma update_last_append [simp]: "update_last f (xs @ [x]) = xs @ [f x]"
proof (induction xs)
  case (Cons y xs)
  then show ?case by (cases xs) simp_all
qed simp

lemma natural_height_ok: "list_all (\<lambda>x. li_size x \<noteq> None) xs \<Longrightarrow> \<exists>y. natural_height start ix acc xs = Some y"
  by (induction xs arbitrary: ix acc) auto

lemma measures_from_snoc:
  assumes "measures_from R lim a xs (ms @ [m]) ls"
  obtains sz where "m = Measured sz (li_focus_handle (xs ! (a + length ms)))" "0 \<le> size.height sz"
    "a + length ms < length xs" "measures_from R lim a xs ms (take (length ms) ls)"
proof -
  have n: "a + length ms < length xs" using assms by (simp add: measures_from_def)
  then have t: "take (length (ms @ [m])) (drop a xs) = take (length ms) (drop a xs) @ [xs ! (a + length ms)]"
    by (simp add: take_Suc_conv_app_nth)
  have "measured_as (ms @ [m]) (take (length ms) (drop a xs) @ [xs ! (a + length ms)])"
    using assms unfolding measures_from_def t by blast
  then have m: "measured_as ms (take (length ms) (drop a xs)) \<and> measured_as [m] [xs ! (a + length ms)]"
    unfolding measured_as_def using n by (subst (asm) list_all2_append) auto
  then obtain sz where "m = Measured sz (li_focus_handle (xs ! (a + length ms)))" "0 \<le> size.height sz" by auto
  moreover have "measures_from R lim a xs ms (take (length ms) ls)"
  proof -
    have ls: "length ls \<le> Suc (length ms)" "map il_index ls = [a..<a + length ls]"
      "map (\<lambda>l. Some (il_size l)) ls = map li_size (take (length ls) (ms @ [m]))"
      using assms by (simp_all add: measures_from_def)
    have "map il_index (take (length ms) ls) = [a..<a + min (length ls) (length ms)]"
      unfolding take_map [symmetric] ls(2)
      by (cases "length ls \<le> length ms") (simp_all add: take_upt min_def)
    moreover have "map (\<lambda>l. Some (il_size l)) (take (length ms) ls) = map li_size (take (min (length ms) (length ls)) ms)"
      unfolding take_map [symmetric] ls(3) by (simp add: take_map min_def)
    moreover have "\<forall>k<length ms. a + k < lim \<longrightarrow> li_size (ms ! k) = Some (R (a + k)) \<or> li_size (ms ! k) = li_size (xs ! (a + k))"
    proof (intro allI impI)
      fix k
      assume k: "k < length ms" "a + k < lim"
      have "\<forall>k<length (ms @ [m]). a + k < lim \<longrightarrow>
          li_size ((ms @ [m]) ! k) = Some (R (a + k)) \<or> li_size ((ms @ [m]) ! k) = li_size (xs ! (a + k))"
        using assms unfolding measures_from_def by blast
      from this [rule_format, of k] k
      show "li_size (ms ! k) = Some (R (a + k)) \<or> li_size (ms ! k) = li_size (xs ! (a + k))" by (simp add: nth_append)
    qed
    moreover have "\<forall>l\<in>set (take (length ms) ls). il_index l < lim \<longrightarrow> il_size l = R (il_index l)"
      using assms set_take_subset [of "length ms" ls] by (auto simp: measures_from_def)
    ultimately show ?thesis using m n by (simp add: measures_from_def min.commute)
  qed
  ultimately show ?thesis using n that by blast
qed

lemma grow_measures:
  assumes c: "measures_from R lim a xs (ms @ [m]) ls" and n: "a + length (ms @ [m]) = n" "lim \<le> a + length ms" and h: "0 \<le> li_height m + d"
  shows "measures_from R lim a xs (ms @ [grow_item d m]) (update_last (grow_layout n d) ls)"
    and "li_height (grow_item d m) = li_height m + d"
proof -
  from measures_from_snoc [OF c] obtain sz where
    m: "m = Measured sz (li_focus_handle (xs ! (a + length ms)))" "0 \<le> size.height sz" "a + length ms < length xs"
      "measures_from R lim a xs ms (take (length ms) ls)" by blast
  show "li_height (grow_item d m) = li_height m + d" by (simp add: m(1))
  let ?sz = "sz\<lparr>height := size.height sz + d\<rparr>"
  have g: "grow_item d m = Measured ?sz (li_focus_handle (xs ! (a + length ms)))" by (simp add: m(1))
  have sz: "0 \<le> size.height ?sz" using h by (simp add: m(1))
  have ls: "length ls \<le> Suc (length ms)" "map il_index ls = [a..<a + length ls]"
      "map (\<lambda>l. Some (il_size l)) ls = map li_size (take (length ls) (ms @ [m]))"
    using c by (simp_all add: measures_from_def)
  show "measures_from R lim a xs (ms @ [grow_item d m]) (update_last (grow_layout n d) ls)"
  proof (cases "length ls = Suc (length ms)")
    case True
    then obtain l0 l where l: "ls = l0 @ [l]" "length l0 = length ms" by (cases ls rule: rev_cases) auto
    have "il_index l = a + length ms" using ls(2) True by (simp add: l)
    moreover have "il_size l = sz" using ls(3) True by (simp add: l m(1))
    ultimately have "update_last (grow_layout n d) ls = l0 @ [\<lparr>il_index = a + length ms, il_size = ?sz\<rparr>]"
      using n by (simp add: l grow_layout_def)
    moreover have "take (length ms) ls = l0" by (simp add: l)
    ultimately show ?thesis
      using measures_from_push(2) [OF m(4,3) sz] n(2) unfolding g by (simp add: l(2))
  next
    case False
    then have le: "length ls \<le> length ms" using ls(1) by simp
    have "update_last (grow_layout n d) ls = ls"
    proof (cases ls rule: rev_cases)
      case (snoc l0 l)
      have "il_index l = a + length l0" using ls(2) by (simp add: snoc)
      then show ?thesis using n le by (simp add: snoc grow_layout_def)
    qed simp
    then show ?thesis using measures_from_push(1) [OF m(4,3) sz] n(2) le unfolding g by simp
  qed
qed

definition tail_applied_ok :: "'h::linordered_field \<Rightarrow> ('h, 'f) list_item list \<Rightarrow> bool" where
  "tail_applied_ok applied ms \<longleftrightarrow> 0 \<le> applied \<and> applied \<le> (if ms = [] then 0 else li_height (last ms))"

lemma reserve_tail_ok:
  assumes "wf_tree list_ops 1 t" "node_height t < STACK_CAP"
    and "measures_from R lim a (flat t) (measured_items acc) (item_layouts acc)" "tail_applied_ok applied (measured_items acc)"
    and lim: "tail_reservation s \<noteq> None \<longrightarrow> lim \<le> length (flat t) - 1"
  shows "\<exists>applied' ms ls rh e. reserve_tail_acc t a avail applied acc s =
      Some (applied', acc\<lparr>measured_items := ms, item_layouts := ls, rendered_height := rh\<rparr>, s\<lparr>tail_extra := e\<rparr>) \<and>
    measures_from R lim a (flat t) ms ls \<and> tail_applied_ok applied' ms \<and>
    length ms = length (measured_items acc) \<and> length ls = length (item_layouts acc) \<and>
    rh - total_height ms = rendered_height acc - total_height (measured_items acc) \<and> (e = tail_extra s \<or> 0 \<le> e) \<and>
    (applied = 0 \<longrightarrow> rendered_height acc \<le> rh) \<and>
    (length ls < length ms \<longrightarrow> take (length ls) ms = take (length ls) (measured_items acc)) \<and>
    butlast ms = butlast (measured_items acc) \<and> (a + length ms < length (flat t) \<longrightarrow> ms = measured_items acc) \<and>
    (tail_reservation s = None \<longrightarrow> ms = measured_items acc \<and> ls = item_layouts acc \<and> rh = rendered_height acc)"
proof -
  let ?ms = "measured_items acc" and ?ls = "item_layouts acc" and ?n = "length (flat t)"
  have n: "ls_count (node_summary t) = ?n" by (rule wf_summary(1) [OF assms(1)])
  have unchanged: ?thesis
    if "\<And>l. \<lparr>tail_measured = ?ms, tail_layouts = ?ls, tail_applied = applied\<rparr> = l \<Longrightarrow>
      reserve_tail t a avail l s = Some (0, l, s\<lparr>tail_extra := e\<rparr>)" "e = tail_extra s \<or> 0 \<le> e" for e
  proof -
    have "reserve_tail_acc t a avail applied acc s =
      Some (applied, acc\<lparr>measured_items := ?ms, item_layouts := ?ls, rendered_height := rendered_height acc\<rparr>,
        s\<lparr>tail_extra := e\<rparr>)" using that(1) [OF refl] by (simp add: reserve_tail_acc_def)
    with assms(3,4) that(2) show ?thesis by (intro exI conjI) (assumption | rule refl | simp)+
  qed
  show ?thesis
  proof (cases "tail_reservation s")
    case None
    then show ?thesis by (intro unchanged [of "tail_extra s"]) (simp_all add: reserve_tail_def)
  next
    case (Some r)
    obtain start margin where r: "r = (start, margin)" by fastforce
    show ?thesis
    proof (cases "?ms = [] \<or> a + length ?ms \<noteq> ?n \<or> start \<ge> ?n")
      case True
      then show ?thesis using Some r n by (intro unchanged [of "tail_extra s"]) (auto simp: reserve_tail_def Let_def)
    next
      case False
      then obtain m0 m where m: "?ms = m0 @ [m]" by (cases ?ms rule: rev_cases) auto
      have f: "cursor_fresh list_ops list_sum_dim 1 (cursor_new list_sum_dim t)" by (rule cursor_fresh_new [OF assms(1,2)])
      from summary_seek_count [OF disjI1 [OF f], of start] obtain b c where
        c: "cursor_seek list_sum_dim (count_target start) RightBias (cursor_new list_sum_dim t) = Some (b, c)"
          "cursor_at list_ops list_sum_dim 1 c (take start (flat t)) (drop start (flat t))" by auto
      have z: "count_target (max a start) (cur_position c) \<noteq> Less"
        using summary_at(1) [OF c(2)] by (intro not_less_count(2)) simp
      from list_sum.cursor_summary_ok [OF list_sum.dimension_axioms disjI2 [OF c(2)] mono_count_target z, of RightBias]
      obtain earlier c' where
        e: "cursor_summary list_sum_dim list_sum_dim (count_target (max a start)) RightBias c = Some (earlier, c')" by auto
      show ?thesis
      proof (cases "ls_has_unknown_height earlier")
        case True
        then show ?thesis using Some r n False c(1) e by (intro unchanged [of 0]) (auto simp: reserve_tail_def Let_def)
      next
        case known: False
        have "list_all (\<lambda>x. li_size x \<noteq> None) ?ms"
          using assms(3) measured_as_size unfolding measures_from_def list_all_iff by blast
        from natural_height_ok [OF this] obtain y where
          y: "natural_height start a (ls_height earlier) ?ms = Some y" by blast
        define extra where "extra = max (max (avail - margin) 0 - (y - applied)) 0"
        let ?d = "extra - applied"
        have h: "0 \<le> li_height m + ?d"
          using assms(4) by (simp add: tail_applied_ok_def m extra_def add_nonneg_nonneg max_def)
        have nm: "a + length (m0 @ [m]) = ?n" "lim \<le> a + length m0" using False lim Some by (auto simp: m)
        note g = grow_measures [OF assms(3) [unfolded m] nm h]
        have "reserve_tail_acc t a avail applied acc s =
          Some (extra, acc\<lparr>measured_items := m0 @ [grow_item ?d m], item_layouts := update_last (grow_layout ?n ?d) ?ls,
            rendered_height := rendered_height acc + ?d\<rparr>, s\<lparr>tail_extra := extra\<rparr>)"
          using Some r n False c(1) e known y
          by (simp add: reserve_tail_acc_def reserve_tail_def Let_def m extra_def)
        moreover have "length (update_last (grow_layout ?n ?d) ?ls) = length ?ls"
          by (cases ?ls rule: rev_cases) simp_all
        moreover have e0: "0 \<le> extra" by (simp add: extra_def)
        moreover have "tail_applied_ok extra (m0 @ [grow_item ?d m])"
          using assms(4) g(2) e0 by (simp add: tail_applied_ok_def m)
        ultimately show ?thesis using g Some nm(1)
          by (intro exI [of _ extra] exI [of _ "m0 @ [grow_item ?d m]"] exI [of _ "update_last (grow_layout ?n ?d) ?ls"]
              exI [of _ "rendered_height acc + ?d"] conjI) (simp_all add: m)
      qed
    qed
  qed
qed

lemma store_measured_ok:
  assumes "wf_tree list_ops 1 t" "node_height t < STACK_CAP" "a + length ms \<le> length (flat t)"
  shows "\<exists>t'. store_measured a ms t = Some t' \<and> wf_tree list_ops 1 t' \<and>
    flat t' = take a (flat t) @ ms @ drop (a + length ms) (flat t)"
proof -
  from count_slice [OF assms(1,2), of a] obtain u c where
    u: "cursor_slice list_ops count_dim (ord_target a) RightBias (cursor_new count_dim t) = Some (u, c)"
      "wf_tree list_ops 1 u" "flat u = take a (flat t)"
      "cursor_at list_ops count_dim 1 c (take a (flat t)) (drop a (flat t))" "cur_tree c = t" by blast
  from list_count.tree_extend_ok [OF u(2), of ms] obtain w where
    w: "tree_extend list_ops u ms = Some w" "wf_tree list_ops 1 w" "flat w = take a (flat t) @ ms"
    unfolding u(3) by blast
  have z: "ord_target (a + length ms) (dim_zero count_dim) \<noteq> Less" by (rule not_less_count(1)) simp
  from list_count.cursor_seek_ok [OF disjI2 [OF u(4)] mono_count z, of RightBias] obtain b c' where
    c': "cursor_seek count_dim (ord_target (a + length ms)) RightBias c = Some (b, c')"
      "cursor_at list_ops count_dim 1 c' (take (a + length ms) (flat t)) (drop (a + length ms) (flat t))"
    by (auto simp: u(5) simp del: One_nat_def)
  from count_suffix_on [OF c'(2)] obtain v c'' where
    v: "cursor_suffix list_ops count_dim c' = Some (v, c'')" "wf_tree list_ops 1 v" "flat v = drop (a + length ms) (flat t)" by blast
  from list_count.tree_append_ok [OF w(2) v(2) base_ge_1] obtain t' where
    "tree_append list_ops w v = Some t'" "wf_tree list_ops 1 t'"
      "flat t' = take a (flat t) @ ms @ drop (a + length ms) (flat t)"
    unfolding w(3) v(3) append_assoc by blast
  then show ?thesis by (simp add: store_measured_def u(1) w(1) c'(1) v(1))
qed

section \<open>A layout\<close>

definition layout_start :: "('h::linordered_field, 'f) list_state \<Rightarrow> 'h list_offset" where
  "layout_start s = (if is_following (follow s) then \<lparr>item_ix = item_count s, offset_in_item = 0\<rparr> else the_scroll_top s)"

lemma layout_start_le: "list_ok s \<Longrightarrow> item_ix (layout_start s) \<le> length (rows s)"
  using scroll_top_le [of s] item_count_eq [of s] by (simp add: layout_start_def)

definition top_ok :: "nat \<Rightarrow> 'h list_offset option \<Rightarrow> bool" where
  "top_ok n pos = (case pos of None \<Rightarrow> True | Some off \<Rightarrow> item_ix off \<le> n)"

lemma layout_below_ok:
  fixes render :: "'h::linordered_field renderer" and s :: "('h, 'f) list_state"
  assumes "list_ok s" "shallow s" and r: "\<And>i. 0 \<le> size.height (render w i)" and "0 \<le> overdraw s"
    and "e_top padding - offset_in_item (layout_start s) < avail" and "0 \<le> e_bottom padding"
    and lim: "tail_reservation s \<noteq> None \<longrightarrow> lim \<le> length (rows s) - 1"
  shows "\<exists>c applied acc p l e i. layout_below render focused w avail padding s =
      Some (c, applied, acc, s\<lparr>pending_scroll := p, logical_scroll_top := l, tail_extra := e\<rparr>) \<and>
    i = item_ix (la_scroll_top acc) \<and> i \<le> length (rows s) \<and> cur_tree c = items s \<and>
    cursor_at list_ops count_dim 1 c (take i (rows s)) (drop i (rows s)) \<and>
    measures_from (render w) lim i (rows s) (measured_items acc) (item_layouts acc) \<and> tail_applied_ok applied (measured_items acc) \<and>
    rendered_height acc = e_top padding + total_height (measured_items acc) + e_bottom padding \<and>
    0 \<le> e \<and> top_ok (length (rows s)) l \<and>
    (length (item_layouts acc) < length (measured_items acc) \<longrightarrow>
       avail \<le> e_top padding + total_height (take (length (item_layouts acc)) (measured_items acc))
         - offset_in_item (la_scroll_top acc)) \<and>
    (i + length (measured_items acc) < length (rows s) \<longrightarrow>
       avail + overdraw s \<le> e_top padding + total_height (measured_items acc) - offset_in_item (la_scroll_top acc)) \<and>
    (Suc 0 < length (measured_items acc) \<longrightarrow>
       e_top padding + total_height (butlast (measured_items acc)) - offset_in_item (la_scroll_top acc) < avail + overdraw s)"
proof -
  let ?st = "layout_start s" and ?xs = "rows s"
  let ?acc = "\<lparr>measured_items = [] :: ('h, 'f) list_item list, item_layouts = [], rendered_height = e_top padding, max_item_width = 0,
    la_scroll_top = ?st, rendered_focused_item = False\<rparr>"
  obtain l0 where l0: "(if is_following (follow s)
            then (\<lparr>item_ix = item_count s, offset_in_item = 0\<rparr>,
                  s\<lparr>logical_scroll_top := Some \<lparr>item_ix = item_count s, offset_in_item = 0\<rparr>\<rparr>)
            else (the_scroll_top s, s)) = (?st, s\<lparr>logical_scroll_top := l0\<rparr>)" "top_ok (length ?xs) l0"
  proof (cases "is_following (follow s)")
    case True
    then show ?thesis using that [of "Some \<lparr>item_ix = item_count s, offset_in_item = 0\<rparr>"] item_count_eq [OF assms(1)]
      by (simp add: layout_start_def top_ok_def)
  next
    case False
    moreover have "top_ok (length ?xs) (logical_scroll_top s)" using assms(1) by (simp add: list_ok_def top_ok_def)
    ultimately show ?thesis using that [of "logical_scroll_top s"] by (simp add: layout_start_def)
  qed
  have wf: "wf_tree list_ops 1 (items s)" and h: "heights_ok ?xs" and e0: "0 \<le> tail_extra s"
    using assms(1) unfolding list_ok_def by auto
  have sh: "node_height (items s) < STACK_CAP" using assms(2) unfolding shallow_def .
  have le: "item_ix ?st \<le> length ?xs" by (rule layout_start_le [OF assms(1)])
  have f: "cursor_fresh list_ops count_dim 1 (cursor_new count_dim (items s))" by (rule cursor_fresh_new [OF wf sh])
  have z: "ord_target (item_ix ?st) (dim_zero count_dim) \<noteq> Less" by (rule not_less_count(1)) simp
  from list_count.cursor_seek_ok [OF disjI1 [OF f] mono_count z, of RightBias] obtain b c where
    c: "cursor_seek count_dim (ord_target (item_ix ?st)) RightBias (cursor_new count_dim (items s)) = Some (b, c)"
      "cursor_at list_ops count_dim 1 c (take (item_ix ?st) ?xs) (drop (item_ix ?st) ?xs)" "cur_tree c = items s"
    by (auto simp del: One_nat_def)
  have "heights_ok (drop (item_ix ?st) ?xs)" "length (take (item_ix ?st) ?xs) = item_ix (la_scroll_top ?acc) + 0"
    "length (measured_items ?acc) = 0"
    "measures_from (render w) lim (item_ix (la_scroll_top ?acc)) (take (item_ix ?st) ?xs @ drop (item_ix ?st) ?xs) (measured_items ?acc) (item_layouts ?acc)"
    "fills avail ?acc" "close_fit (avail + overdraw (s\<lparr>logical_scroll_top := l0\<rparr>)) ?acc" "0 = (0::nat) \<longrightarrow> visible_height ?acc < avail"
    using h le assms(5) by (simp_all add: heights_take_drop measures_from_empty fills_def close_fit_def visible_height_def)
  from layout_after_ok [where render = render and w = w and acc = ?acc and ix = 0 and avail = avail and n = "item_count s"
      and focused = focused and s = "s\<lparr>logical_scroll_top := l0\<rparr>", OF r c(2) this]
  obtain c1 acc1 p l1 us ws where
    a: "layout_after render focused w avail (item_count s) 0 c (?acc, s\<lparr>logical_scroll_top := l0\<rparr>) =
        Some (c1, acc1, s\<lparr>logical_scroll_top := l0, pending_scroll := p, logical_scroll_top := l1\<rparr>)"
      "cursor_at list_ops count_dim 1 c1 us ws" "cur_tree c1 = cur_tree c"
      "item_ix (la_scroll_top acc1) = item_ix (la_scroll_top ?acc)"
      "measures_from (render w) lim (item_ix (la_scroll_top ?acc)) (take (item_ix ?st) ?xs @ drop (item_ix ?st) ?xs) (measured_items acc1) (item_layouts acc1)"
      "rendered_height acc1 - total_height (measured_items acc1) = rendered_height ?acc - total_height (measured_items ?acc)"
      "l1 = logical_scroll_top (s\<lparr>logical_scroll_top := l0\<rparr>) \<or> l1 = Some (la_scroll_top acc1)" "fills avail acc1"
      "close_fit (avail + overdraw (s\<lparr>logical_scroll_top := l0\<rparr>)) acc1"
      "item_ix (la_scroll_top acc1) + length (measured_items acc1) < length (take (item_ix ?st) ?xs @ drop (item_ix ?st) ?xs) \<longrightarrow>
        avail + overdraw (s\<lparr>logical_scroll_top := l0\<rparr>) \<le> visible_height acc1"
    by (elim exE conjE) (rule that; assumption)
  let ?i = "item_ix (la_scroll_top acc1)"
  let ?s1 = "s\<lparr>logical_scroll_top := l0, pending_scroll := p, logical_scroll_top := l1\<rparr>"
  have i: "?i = item_ix ?st" using a(4) by simp
  have m: "measures_from (render w) lim ?i ?xs (measured_items acc1) (item_layouts acc1)" using a(4,5) by simp
  have pad: "pad_above acc1 = e_top padding" using a(6) by (simp add: pad_above_def)
  have t0: "tail_applied_ok 0 (measured_items acc1)"
  proof -
    have "heights_ok (measured_items acc1)" using m measured_as_heights unfolding measures_from_def by blast
    then show ?thesis by (cases "measured_items acc1" rule: rev_cases) (simp_all add: tail_applied_ok_def)
  qed
  have lim1: "tail_reservation ?s1 \<noteq> None \<longrightarrow> lim \<le> length ?xs - 1" using lim by simp
  from reserve_tail_ok [OF wf sh m t0 lim1, of avail] obtain applied ms ls rh e where
    t: "reserve_tail_acc (items s) ?i avail 0 acc1 ?s1 =
      Some (applied, acc1\<lparr>measured_items := ms, item_layouts := ls, rendered_height := rh\<rparr>, ?s1\<lparr>tail_extra := e\<rparr>)"
      "measures_from (render w) lim ?i ?xs ms ls" "tail_applied_ok applied ms" "length ms = length (measured_items acc1)"
      "length ls = length (item_layouts acc1)"
      "rh - total_height ms = rendered_height acc1 - total_height (measured_items acc1)" "e = tail_extra ?s1 \<or> 0 \<le> e"
      "(0::'h) = 0 \<longrightarrow> rendered_height acc1 \<le> rh"
      "length ls < length ms \<longrightarrow> take (length ls) ms = take (length ls) (measured_items acc1)"
      "butlast ms = butlast (measured_items acc1)"
    by blast
  let ?acc2 = "acc1\<lparr>measured_items := ms, item_layouts := ls, rendered_height := rh\<rparr>"
  from list_count.cursor_seek_ok [OF disjI2 [OF a(2)] mono_count, of "?i" RightBias] z
  obtain b' c2 where
    c2: "cursor_seek count_dim (ord_target ?i) RightBias c1 = Some (b', c2)"
      "cursor_at list_ops count_dim 1 c2 (take ?i ?xs) (drop ?i ?xs)" "cur_tree c2 = items s"
    by (auto simp: i a(3) c(3) simp del: One_nat_def)
  have rh: "rh = e_top padding + total_height ms" using t(6) pad by (simp add: pad_above_def algebra_simps)
  have grows: "total_height (measured_items acc1) \<le> total_height ms"
    using t(8) rh pad by (simp add: pad_above_def algebra_simps)
  have fill: "length ls < length ms \<longrightarrow>
      avail \<le> e_top padding + total_height (take (length ls) ms) - offset_in_item (la_scroll_top acc1)"
    using a(8) t(4,5,9) by (auto simp: fills_def pad)
  have more: "?i + length ms < length ?xs \<longrightarrow>
      avail + overdraw s \<le> e_top padding + total_height ms - offset_in_item (la_scroll_top acc1)"
    using a(10) t(4) pad grows by (auto simp: visible_height_def pad_above_def)
  have close: "Suc 0 < length ms \<longrightarrow>
      e_top padding + total_height (butlast ms) - offset_in_item (la_scroll_top acc1) < avail + overdraw s"
    using a(9) t(4,10) pad by (simp add: close_fit_def)
  have st: "?s1\<lparr>tail_extra := e\<rparr> = s\<lparr>pending_scroll := p, logical_scroll_top := l1, tail_extra := e\<rparr>" by simp
  have top: "top_ok (length ?xs) l1" using a(7) l0(2) i le by (auto simp: top_ok_def)
  have "layout_below render focused w avail padding s = Some (c2, applied,
      ?acc2\<lparr>rendered_height := rh + e_bottom padding\<rparr>,
      s\<lparr>pending_scroll := p, logical_scroll_top := l1, tail_extra := e\<rparr>)"
    unfolding layout_below_def Let_def l0(1) prod.case using t(1) by (simp add: c(1) a(1) c2(1))
  then show ?thesis
    using c2(2,3) t(2,3,7) rh fill more close top le i e0
    by (intro exI [of _ c2] exI [of _ applied] exI [of _ "?acc2\<lparr>rendered_height := rh + e_bottom padding\<rparr>"]
        exI [of _ p] exI [of _ l1] exI [of _ e] exI [of _ ?i]) auto
qed

lemma tail_applied_front:
  assumes "tail_applied_ok applied ms" "heights_ok (ys @ ms)"
  shows "tail_applied_ok applied (ys @ ms)"
proof (cases ms rule: rev_cases)
  case Nil
  with assms show ?thesis by (cases ys rule: rev_cases) (simp_all add: tail_applied_ok_def)
next
  case (snoc ms' m)
  with assms show ?thesis by (simp add: tail_applied_ok_def last_append)
qed

text \<open>The viewport is full: up to the last layout, or up to the end of the items unless all are shown.\<close>

definition viewport_full ::
  "'h::linordered_field \<Rightarrow> 'h edges \<Rightarrow> nat \<Rightarrow> nat \<Rightarrow> ('h, 'f) layout_acc \<Rightarrow> bool" where
  "viewport_full avail padding a n acc \<longleftrightarrow>
     (let shown = length (item_layouts acc);
          bottom = e_top padding + total_height (take shown (measured_items acc)) - offset_in_item (la_scroll_top acc) in
      (a + shown < n \<longrightarrow> avail \<le> bottom) \<and> (a + shown = n \<longrightarrow> avail \<le> bottom + e_bottom padding \<or> a = 0))"

text \<open>Below the viewport the items in the overdraw are measured, and none beyond it.\<close>

definition measured_below ::
  "'h::linordered_field \<Rightarrow> 'h edges \<Rightarrow> nat \<Rightarrow> nat \<Rightarrow> ('h, 'f) layout_acc \<Rightarrow> bool" where
  "measured_below extent padding a n acc \<longleftrightarrow>
     (a + length (measured_items acc) < n \<longrightarrow>
        extent \<le> e_top padding + total_height (measured_items acc) - offset_in_item (la_scroll_top acc)) \<and>
     (Suc 0 < length (measured_items acc) \<and> length (item_layouts acc) < length (measured_items acc) \<longrightarrow>
        e_top padding + total_height (butlast (measured_items acc)) - offset_in_item (la_scroll_top acc) < extent)"

lemma layout_above_ok:
  fixes render :: "'h::linordered_field renderer" and s :: "('h, 'f) list_state"
  assumes wf: "wf_tree list_ops 1 t" and sh: "node_height t < STACK_CAP" and tree: "cur_tree c = t"
    and r: "\<And>i. 0 \<le> size.height (render w i)" and b0: "0 \<le> e_bottom padding"
    and i: "i = item_ix (la_scroll_top acc)" "i \<le> length (flat t)"
    and c: "cursor_at list_ops count_dim 1 c (take i (flat t)) (drop i (flat t))"
    and m: "measures_from (render w) lim i (flat t) (measured_items acc) (item_layouts acc)"
    and a0: "tail_applied_ok applied (measured_items acc)"
    and rh: "rendered_height acc = e_top padding + total_height (measured_items acc) + e_bottom padding"
    and fill: "length (item_layouts acc) < length (measured_items acc) \<longrightarrow>
       avail \<le> e_top padding + total_height (take (length (item_layouts acc)) (measured_items acc))
         - offset_in_item (la_scroll_top acc)"
    and more: "i + length (measured_items acc) < length (flat t) \<longrightarrow>
       extent \<le> e_top padding + total_height (measured_items acc) - offset_in_item (la_scroll_top acc)"
    and close: "Suc 0 < length (measured_items acc) \<longrightarrow>
       e_top padding + total_height (butlast (measured_items acc)) - offset_in_item (la_scroll_top acc) < extent"
    and extent: "avail \<le> extent" and lim: "tail_reservation s \<noteq> None \<longrightarrow> lim \<le> length (flat t) - 1"
    and top: "top_ok (length (flat t)) (logical_scroll_top s)" and e0: "0 \<le> tail_extra s"
  shows "\<exists>c' acc' l e us ws. layout_above render focused w avail t c applied acc s =
      Some (c', acc', s\<lparr>logical_scroll_top := l, tail_extra := e\<rparr>) \<and>
    behind list_ops count_dim 1 c' us \<and> flat t = us @ ws \<and> cur_position c' = length us \<and>
    item_ix (la_scroll_top acc') = length us \<and>
    measures_from (render w) lim (length us) (flat t) (measured_items acc') (item_layouts acc') \<and>
    0 \<le> e \<and> top_ok (length (flat t)) l \<and> measured_below extent padding (length us) (length (flat t)) acc' \<and>
    (tail_reservation s = None \<longrightarrow> viewport_full avail padding (length us) (length (flat t)) acc')"
proof (cases "visible_height acc < avail")
  case False
  have "layout_above render focused w avail t c applied acc s =
      Some (c, acc, s\<lparr>logical_scroll_top := logical_scroll_top s, tail_extra := tail_extra s\<rparr>)"
    using False by (simp add: layout_above_def)
  moreover have "viewport_full avail padding (length (take i (flat t))) (length (flat t)) acc"
    using fill more extent m False rh i(2) unfolding viewport_full_def Let_def measures_from_def visible_height_def
    by (cases "length (item_layouts acc) < length (measured_items acc)") (auto simp: algebra_simps)
  moreover have "measured_below extent padding (length (take i (flat t))) (length (flat t)) acc"
    using more close i(2) by (simp add: measured_below_def)
  moreover have "measures_from (render w) lim (length (take i (flat t))) (flat t) (measured_items acc) (item_layouts acc)"
    using m i(2) by simp
  moreover have "cur_position c = length (take i (flat t))" using at_count [OF c] .
  moreover have "item_ix (la_scroll_top acc) = length (take i (flat t))" using i by simp
  moreover have "flat t = take i (flat t) @ drop i (flat t)" by simp
  ultimately show ?thesis using behind_at [OF c] top e0 by blast
next
  case True
  let ?us = "take i (flat t)" and ?ws = "drop i (flat t)"
  have hm: "heights_ok (measured_items acc)" using m measured_as_heights unfolding measures_from_def by blast
  have le: "length (item_layouts acc) \<le> length (measured_items acc)" "i + length (measured_items acc) \<le> length (flat t)"
    using m by (simp_all add: measures_from_def)
  have all: "length (item_layouts acc) = length (measured_items acc)"
    using fill True rh b0 le(1) take_total [OF hm, of "length (item_layouts acc)"]
    by (cases "length (item_layouts acc) < length (measured_items acc)") (auto simp: visible_height_def)
  have n: "i + length (measured_items acc) = length (flat t)"
    using more extent True rh b0 le(2)
    by (cases "i + length (measured_items acc) < length (flat t)") (auto simp: visible_height_def)
  have pos: "cur_position c = length ?us" using at_count [OF c] .
  have mu: "measures_from (render w) lim (length ?us) (?us @ ?ws) (measured_items acc) (item_layouts acc)" using m i(2) by simp
  from layout_before_ok [where render = render and w = w and avail = avail and focused = focused,
      OF r behind_at [OF c] pos mu all] obtain c1 acc1 us vs where
    u: "layout_before render focused w avail c acc = Some (c1, acc1)" "behind list_ops count_dim 1 c1 us"
      "cur_position c1 = length us" "?us = us @ vs" "cur_tree c1 = cur_tree c"
      "measures_from (render w) lim (length us) (?us @ ?ws) (measured_items acc1) (item_layouts acc1)"
      "length (item_layouts acc1) = length (measured_items acc1)"
      "rendered_height acc1 - total_height (measured_items acc1) = rendered_height acc - total_height (measured_items acc)"
      "\<exists>ys. measured_items acc1 = ys @ measured_items acc \<and> length ys = length vs"
      "avail \<le> rendered_height acc1 \<or> us = []"
    by blast
  have m1: "measures_from (render w) lim (length us) (flat t) (measured_items acc1) (item_layouts acc1)" using u(6) by simp
  obtain ys where ys: "measured_items acc1 = ys @ measured_items acc" "length ys = length vs" using u(9) by blast
  have "heights_ok (measured_items acc1)" using m1 measured_as_heights unfolding measures_from_def by blast
  then have a1: "tail_applied_ok applied (measured_items acc1)" unfolding ys(1) by (rule tail_applied_front [OF a0])
  from reserve_tail_ok [OF wf sh m1 a1 lim, of avail] obtain applied' ms ls rh' e where
    t: "reserve_tail_acc t (length us) avail applied acc1 s =
      Some (applied', acc1\<lparr>measured_items := ms, item_layouts := ls, rendered_height := rh'\<rparr>, s\<lparr>tail_extra := e\<rparr>)"
      "measures_from (render w) lim (length us) (flat t) ms ls" "e = tail_extra s \<or> 0 \<le> e"
      "length ms = length (measured_items acc1)" "length ls = length (item_layouts acc1)"
      "tail_reservation s = None \<longrightarrow> ms = measured_items acc1 \<and> ls = item_layouts acc1 \<and> rh' = rendered_height acc1"
    by (elim exE conjE) (rule that; assumption)
  let ?st = "\<lparr>item_ix = length us, offset_in_item = (case alignment s of
      Align_Top \<Rightarrow> max (rh' - avail) 0 | Align_Bottom \<Rightarrow> rh' - avail)\<rparr>"
  let ?acc = "acc1\<lparr>measured_items := ms, item_layouts := ls, rendered_height := rh', la_scroll_top := ?st\<rparr>"
  let ?l = "case alignment s of Align_Top \<Rightarrow> Some ?st | Align_Bottom \<Rightarrow> None"
  have ul: "length us \<le> length (flat t)" using t(2) by (simp add: measures_from_def)
  have res: "layout_above render focused w avail t c applied acc s =
      Some (c1, ?acc, s\<lparr>logical_scroll_top := ?l, tail_extra := e\<rparr>)"
    using True u(1) t(1) u(3) by (cases "alignment s") (simp_all add: layout_above_def Let_def)
  have full: "viewport_full avail padding (length us) (length (flat t)) ?acc" if "tail_reservation s = None"
  proof -
    have e: "ms = measured_items acc1" "ls = item_layouts acc1" "rh' = rendered_height acc1" using t(6) that by auto
    have "length us + length ls = length (flat t)"
      using arg_cong [OF u(4), of length] n i(2) ys u(7) unfolding e by simp
    moreover have "rh' = e_top padding + total_height ms + e_bottom padding" using u(8) rh unfolding e by simp
    moreover have "take (length ls) ms = ms" using u(7) unfolding e by simp
    ultimately show ?thesis
      using u(10) unfolding e(3) [symmetric] viewport_full_def Let_def
      by (cases "alignment s") (auto simp: max_def)
  qed
  have below: "measured_below extent padding (length us) (length (flat t)) ?acc"
    using arg_cong [OF u(4), of length] n i(2) ys u(7) t(4,5) by (simp add: measured_below_def)
  have flat: "flat t = us @ (vs @ ?ws)" using u(4) by (metis append_assoc append_take_drop_id)
  have "top_ok (length (flat t)) ?l" using ul by (cases "alignment s") (simp_all add: top_ok_def)
  moreover have "0 \<le> e" using t(3) e0 by auto
  ultimately show ?thesis
    using res u(2,3) flat t(2) full below
    by (intro exI [of _ c1] exI [of _ ?acc] exI [of _ ?l] exI [of _ e] exI [of _ us] exI [of _ "vs @ ?ws"]) simp
qed

lemma li_size_height: "li_size x = Some sz \<Longrightarrow> li_height x = size.height sz"
  by (cases x) simp_all

lemma layouts_height:
  "map (\<lambda>l. Some (il_size l)) ls = map li_size xs \<Longrightarrow> total_height xs = sum_list (map (\<lambda>l. size.height (il_size l)) ls)"
proof (induction xs arbitrary: ls)
  case (Cons x xs)
  then obtain l ls' where l: "ls = l # ls'" "li_size x = Some (il_size l)"
    "map (\<lambda>l. Some (il_size l)) ls' = map li_size xs" by (cases ls) auto
  show ?case using Cons.IH [OF l(3)] li_size_height [OF l(2)] by (simp add: l(1))
qed simp

lemma resume_following_eq: "\<exists>f. resume_following avail st s = s\<lparr>follow := f\<rparr>"
proof -
  have "s = s\<lparr>follow := follow s\<rparr>" by simp
  then show ?thesis unfolding resume_following_def by metis
qed

lemma layout_visible_ok:
  fixes render :: "'h::linordered_field renderer" and s :: "('h, 'f) list_state"
  assumes "list_ok s" "shallow s" and r: "\<And>i. 0 \<le> size.height (render w i)" and "0 \<le> overdraw s"
    and "e_top padding - offset_in_item (layout_start s) < avail" and "0 \<le> e_bottom padding"
    and lim: "tail_reservation s \<noteq> None \<longrightarrow> lim \<le> length (rows s) - 1"
  shows "\<exists>acc s' a ys ms. layout_visible render focused w avail padding s = Some (acc, s') \<and> list_ok s' \<and>
    rows s' = take a (rows s) @ ms @ drop (a + length ms) (rows s) \<and> a + length ms \<le> length (rows s) \<and>
    measures_from (render w) lim a (rows s) ms [] \<and>
    ms = ys @ measured_items acc \<and> item_ix (la_scroll_top acc) = a + length ys \<and>
    measures_from (render w) lim (item_ix (la_scroll_top acc)) (rows s) (measured_items acc) (item_layouts acc) \<and>
    (0 < a \<longrightarrow> overdraw s \<le> offset_in_item (la_scroll_top acc) + total_height ys) \<and>
    (ys \<noteq> [] \<longrightarrow> offset_in_item (la_scroll_top acc) + total_height (tl ys) < overdraw s) \<and>
    measured_below (avail + overdraw s) padding (item_ix (la_scroll_top acc)) (length (rows s)) acc \<and>
    (tail_reservation s = None \<longrightarrow>
      viewport_full avail padding (item_ix (la_scroll_top acc)) (length (rows s)) acc)"
proof -
  have wf: "wf_tree list_ops 1 (items s)" and h: "heights_ok (rows s)" using assms(1) unfolding list_ok_def by auto
  have sh: "node_height (items s) < STACK_CAP" using assms(2) unfolding shallow_def .
  from layout_below_ok [where render = render and w = w and focused = focused, OF assms] obtain c applied acc p l e i where
    b: "layout_below render focused w avail padding s =
        Some (c, applied, acc, s\<lparr>pending_scroll := p, logical_scroll_top := l, tail_extra := e\<rparr>)"
      "i = item_ix (la_scroll_top acc)" "i \<le> length (rows s)" "cur_tree c = items s"
      "cursor_at list_ops count_dim 1 c (take i (rows s)) (drop i (rows s))"
      "measures_from (render w) lim i (rows s) (measured_items acc) (item_layouts acc)" "tail_applied_ok applied (measured_items acc)"
      "rendered_height acc = e_top padding + total_height (measured_items acc) + e_bottom padding"
      "0 \<le> e" "top_ok (length (rows s)) l"
      "length (item_layouts acc) < length (measured_items acc) \<longrightarrow>
         avail \<le> e_top padding + total_height (take (length (item_layouts acc)) (measured_items acc))
           - offset_in_item (la_scroll_top acc)"
      "i + length (measured_items acc) < length (rows s) \<longrightarrow>
         avail + overdraw s \<le> e_top padding + total_height (measured_items acc) - offset_in_item (la_scroll_top acc)"
      "Suc 0 < length (measured_items acc) \<longrightarrow>
         e_top padding + total_height (butlast (measured_items acc)) - offset_in_item (la_scroll_top acc) < avail + overdraw s"
    by (elim exE conjE) (rule that; assumption)
  let ?s1 = "s\<lparr>pending_scroll := p, logical_scroll_top := l, tail_extra := e\<rparr>"
  have s1: "top_ok (length (rows s)) (logical_scroll_top ?s1)" "0 \<le> tail_extra ?s1" using b(9,10) by simp_all
  have more: "avail \<le> avail + overdraw s" "tail_reservation ?s1 \<noteq> None \<longrightarrow> lim \<le> length (rows s) - 1" using assms(4) lim by simp_all
  from layout_above_ok [where render = render and w = w and focused = focused and s = ?s1 and avail = avail,
      OF wf sh b(4) r assms(6) b(2,3,5,6,7,8,11,12,13) more s1] obtain c1 acc1 l1 e1 us ws where
    a: "layout_above render focused w avail (items s) c applied acc ?s1 =
        Some (c1, acc1, ?s1\<lparr>logical_scroll_top := l1, tail_extra := e1\<rparr>)"
      "behind list_ops count_dim 1 c1 us" "rows s = us @ ws" "cur_position c1 = length us"
      "item_ix (la_scroll_top acc1) = length us"
      "measures_from (render w) lim (length us) (rows s) (measured_items acc1) (item_layouts acc1)" "0 \<le> e1" "top_ok (length (rows s)) l1"
      "measured_below (avail + overdraw s) padding (length us) (length (rows s)) acc1"
      "tail_reservation ?s1 = None \<longrightarrow> viewport_full avail padding (length us) (length (rows s)) acc1"
    by (elim exE conjE) (rule that; assumption)
  have hu: "heights_ok us" using h unfolding a(3) by simp
  from overdraw_before_ok [where render = render and w = w, OF r a(2,4) hu a(6) [unfolded a(3)],
      of "overdraw s" "offset_in_item (la_scroll_top acc1)"] obtain c2 us' vs ys where
    o: "overdraw_before render w (overdraw s) (offset_in_item (la_scroll_top acc1)) c1 (measured_items acc1) =
        Some (c2, ys @ measured_items acc1)" "cur_position c2 = length us'" "us = us' @ vs" "length ys = length vs"
      "us' = [] \<or> overdraw s \<le> offset_in_item (la_scroll_top acc1) + total_height ys"
      "ys \<noteq> [] \<longrightarrow> offset_in_item (la_scroll_top acc1) + total_height (tl ys) < overdraw s"
      "measures_from (render w) lim (length us') (us @ ws) (ys @ measured_items acc1) []"
    by blast
  let ?ms = "ys @ measured_items acc1" and ?a = "length us'"
  have mf: "?a + length ?ms \<le> length (rows s)" "measured_as ?ms (take (length ?ms) (drop ?a (rows s)))"
    using o(7) unfolding a(3) measures_from_def by blast+
  have all: "measures_from (render w) lim ?a (rows s) ?ms []" using o(7) unfolding a(3) .
  from store_measured_ok [OF wf sh mf(1)] obtain t where
    t: "store_measured ?a ?ms (items s) = Some t" "wf_tree list_ops 1 t"
      "flat t = take ?a (rows s) @ ?ms @ drop (?a + length ?ms) (rows s)" by blast
  let ?s2 = "s\<lparr>pending_scroll := p, logical_scroll_top := l1, tail_extra := e1, items := t\<rparr>"
  obtain f where f: "resume_following avail (la_scroll_top acc1) ?s2 = ?s2\<lparr>follow := f\<rparr>"
    using resume_following_eq by blast
  have "layout_visible render focused w avail padding s = Some (acc1, ?s2\<lparr>follow := f\<rparr>)"
    using a(1) f by (simp add: layout_visible_def Let_def b(1) o(1,2) t(1))
  moreover have "list_ok (?s2\<lparr>follow := f\<rparr>)"
  proof -
    have len: "length (flat t) = length (rows s)" using mf(1) unfolding t(3) by simp
    have "heights_ok (flat t)" unfolding t(3) using h measured_as_heights [OF mf(2)] by (simp add: heights_take_drop)
    moreover have "case l1 of None \<Rightarrow> True | Some off \<Rightarrow> item_ix off \<le> length (flat t)"
      using a(8) unfolding top_ok_def len .
    ultimately show ?thesis using t(2) a(7) by (cases l1) (simp_all add: list_ok_def del: One_nat_def)
  qed
  moreover have "rows (?s2\<lparr>follow := f\<rparr>) = take ?a (rows s) @ ?ms @ drop (?a + length ?ms) (rows s)"
    using t(3) by simp
  moreover have "item_ix (la_scroll_top acc1) = ?a + length ys" using a(5) o(3,4) by simp
  moreover have "measures_from (render w) lim (item_ix (la_scroll_top acc1)) (rows s) (measured_items acc1) (item_layouts acc1)"
    using a(6) unfolding a(5) .
  moreover have "tail_reservation s = None \<longrightarrow>
      viewport_full avail padding (item_ix (la_scroll_top acc1)) (length (rows s)) acc1"
    using a(10) unfolding a(5) by simp
  moreover have "measured_below (avail + overdraw s) padding (item_ix (la_scroll_top acc1)) (length (rows s)) acc1"
    using a(9) unfolding a(5) .
  moreover have "0 < ?a \<longrightarrow> overdraw s \<le> offset_in_item (la_scroll_top acc1) + total_height ys" using o(5) by auto
  ultimately show ?thesis using mf(1) all o(6)
    by (intro exI [of _ acc1] exI [of _ "?s2\<lparr>follow := f\<rparr>"] exI [of _ ?a] exI [of _ ys] exI [of _ ?ms] conjI)
      (assumption | rule refl)+
qed

text \<open>The rows after a layout: kept or rendered anew.\<close>

lemma measures_from_rows:
  assumes "measures_from R lim a xs ms ls" "i < lim" "i < length xs"
  shows "(take a xs @ ms @ drop (a + length ms) xs) ! i = xs ! i \<or>
    (take a xs @ ms @ drop (a + length ms) xs) ! i = Measured (R i) (li_focus_handle (xs ! i))"
proof (cases "a \<le> i \<and> i < a + length ms")
  case True
  define k where "k = i - a"
  have k: "k < length ms" "i = a + k" using True unfolding k_def by linarith+
  have le: "a + length ms \<le> length xs" using assms(1) by (simp add: measures_from_def)
  have row: "(take a xs @ ms @ drop (a + length ms) xs) ! i = ms ! k" using k le by (simp add: nth_append)
  have "measured_as ms (take (length ms) (drop a xs))" using assms(1) by (simp add: measures_from_def)
  then obtain sz where sz: "ms ! k = Measured sz (li_focus_handle (xs ! i))"
    using k le unfolding measured_as_def by (auto simp: list_all2_conv_all_nth)
  have "li_size (ms ! k) = Some (R i) \<or> li_size (ms ! k) = li_size (xs ! i)"
    using assms(1,2) k unfolding measures_from_def by blast
  then show ?thesis unfolding row sz by (cases "xs ! i") auto
next
  case False
  have "a + length ms \<le> length xs" using assms(1) by (simp add: measures_from_def)
  then show ?thesis using False assms(3) by (auto simp: nth_append)
qed

end
