(* ===== verification/List_Theorems.thy ===== *)
theory List_Theorems
  imports Complex_Main List_Layout_Correct
begin

text \<open>
  What the operations of a list promise (\<open>gpui/src/elements/list.rs\<close>). A state is well-formed
  when its items form a sum tree without negative heights and the position scrolled to is not
  beyond them (\<open>list_ok\<close>), and shallow when the tree fits the fixed stack of a cursor.
\<close>

text \<open>A state with three items of heights 10, 20 and 30, scrolled to the second.\<close>

definition sample_rows :: "(rat, nat) list_item list" where
  "sample_rows = [Measured \<lparr>width = 100, height = 10\<rparr> None, Measured \<lparr>width = 100, height = 20\<rparr> (Some 7),
     Measured \<lparr>width = 100, height = 30\<rparr> None]"

definition sample_list :: "(rat, nat) list_state" where
  "sample_list =
     \<lparr>last_layout_bounds = Some \<lparr>origin = \<lparr>px = 0, py = 0\<rparr>, bsize = \<lparr>width = 100, height = 25\<rparr>\<rparr>,
      last_padding = None, items = mk_leaf list_ops sample_rows,
      logical_scroll_top = Some \<lparr>item_ix = 1, offset_in_item = 5\<rparr>, alignment = Align_Top, overdraw = 0,
      ls_reset = False, scrollbar_drag_start_height = None, measuring = Visible, pending_scroll = None,
      follow = Normal_Follow, tail_reservation = None, tail_extra = 0\<rparr>"

lemma sample_list_rows [simp]: "rows sample_list = sample_rows"
  by (simp add: sample_list_def)

lemma sample_list_ok: "list_ok sample_list" "shallow sample_list" "clear_tail_extra sample_list = Some sample_list"
  by (simp_all add: list_ok_def shallow_def sample_list_def sample_rows_def wf_tree_def TREE_BASE_def STACK_CAP_def
      li_height_def clear_tail_extra_def)

section \<open>Replacing items\<close>

text \<open>C29: replacing a range of the items keeps the state well-formed, replaces exactly that range, and
  keeps the view in place: the rows from the scroll position on are the rows they were when the
  position is behind the range, the rows before it and the position itself are when it is
  before, and when it is in the range the list shows the first of the new rows.\<close>

theorem list_splice_refines:
  assumes "list_ok s" and "shallow s" and "clear_tail_extra s = Some s1" and "shallow s1" and "a \<le> b"
  shows "\<exists>s'. splice_focusable a b fs s = Some s' \<and> list_ok s' \<and>
    rows s1 = without_extra (tail_extra s) (rows s) \<and>
    rows s' = take a (rows s1) @ map (Unmeasured None) fs @ drop b (rows s1) \<and>
    item_count s' = length (rows s') \<and> follow s' = follow s \<and> tail_extra s' = tail_extra s1 \<and>
    (case logical_scroll_top s of
       None \<Rightarrow> logical_scroll_top s' = None
     | Some off \<Rightarrow> \<exists>off'. logical_scroll_top s' = Some off' \<and>
         (if b \<le> item_ix off then
            drop (item_ix off') (rows s') = drop (item_ix off) (rows s1) \<and> offset_in_item off' = offset_in_item off
          else if a \<le> item_ix off then off' = \<lparr>item_ix = a, offset_in_item = 0\<rparr>
          else off' = off \<and> (item_ix off < length (rows s1) \<longrightarrow>
            take (Suc (item_ix off)) (rows s') = take (Suc (item_ix off)) (rows s1))))"
proof -
  from clear_tail_extra_ok [OF assms(1,2)] assms(3) obtain t0 e where
    s1: "s1 = s\<lparr>items := t0, tail_extra := e\<rparr>" "list_ok s1" "rows s1 = without_extra (tail_extra s) (rows s)"
    by auto
  from splice_focusable_ok [OF assms(3) s1(2) assms(4,5), of fs] obtain t where
    t: "splice_focusable a b fs s =
      Some (s1\<lparr>items := t, logical_scroll_top := Option.bind (logical_scroll_top s1) (spliced_top a b (length fs))\<rparr>)"
      "wf_tree list_ops 1 t" "flat t = take a (rows s1) @ map (Unmeasured None) fs @ drop b (rows s1)"
    by blast
  let ?s' = "s1\<lparr>items := t, logical_scroll_top := Option.bind (logical_scroll_top s1) (spliced_top a b (length fs))\<rparr>"
  have ok: "list_ok ?s'" by (rule splice_list_ok [OF s1(2) assms(5) t(2,3)])
  have same: "logical_scroll_top s1 = logical_scroll_top s" "follow s1 = follow s" using s1(1) by simp_all
  have pos: "case logical_scroll_top s of
       None \<Rightarrow> logical_scroll_top ?s' = None
     | Some off \<Rightarrow> \<exists>off'. logical_scroll_top ?s' = Some off' \<and>
         (if b \<le> item_ix off then
            drop (item_ix off') (rows ?s') = drop (item_ix off) (rows s1) \<and> offset_in_item off' = offset_in_item off
          else if a \<le> item_ix off then off' = \<lparr>item_ix = a, offset_in_item = 0\<rparr>
          else off' = off \<and> (item_ix off < length (rows s1) \<longrightarrow>
            take (Suc (item_ix off)) (rows ?s') = take (Suc (item_ix off)) (rows s1)))"
  proof (cases "logical_scroll_top s")
    case (Some off)
    obtain off' where o': "spliced_top a b (length fs) off = Some off'"
      by (simp add: spliced_top_cases [OF assms(5)])
    have le: "item_ix off \<le> length (rows s1)" using s1(2) Some same(1) unfolding list_ok_def by simp
    note keep = spliced_top_keeps [of a b off "rows s1" "map (Unmeasured None) fs" off', folded t(3)]
    have st: "logical_scroll_top ?s' = Some off'" using Some same(1) o' by simp
    show ?thesis
      unfolding Some option.case st
      using keep le o' spliced_top_cases [OF assms(5), of "length fs" off] assms(5)
      by (intro exI [of _ off']) (auto split: if_splits)
  qed (simp add: same)
  have r: "rows ?s' = take a (rows s1) @ map (Unmeasured None) fs @ drop b (rows s1)" using t(3) by simp
  have rest: "follow ?s' = follow s" "tail_extra ?s' = tail_extra s1" using same by simp_all
  show ?thesis by (intro exI [of _ ?s'] conjI t(1) ok s1(3) r item_count_eq [OF ok] rest pos)
qed

theorem list_splice_refines_witness:
  "\<exists>s'. splice_focusable 0 1 [None, None] sample_list = Some s' \<and>
     rows s' = [Unmeasured None None, Unmeasured None None] @ drop 1 sample_rows \<and>
     map_option offset_in_item (logical_scroll_top s') = Some 5"
proof -
  have "logical_scroll_top sample_list = Some \<lparr>item_ix = 1, offset_in_item = 5\<rparr>" by (simp add: sample_list_def)
  with list_splice_refines [OF sample_list_ok(1,2,3,2), of 0 1 "[None, None]"] show ?thesis by auto
qed

section \<open>Scrolling\<close>

text \<open>C30: scrolling by a distance moves the pixel position by exactly that distance, stopping at the
  top, and rewrites it as an item and an offset inside that item (beyond the last item only
  past the end of the content), without touching the items; scrolling up ends tail following.\<close>

theorem list_scroll_by:
  assumes "list_ok s" and "shallow s" and "d \<noteq> 0"
  shows "\<exists>s' off. scroll_by d s = Some s' \<and> list_ok s' \<and> items s' = items s \<and> logical_scroll_top s' = Some off \<and>
    scroll_top_pixels s' off = max (scroll_top_pixels s (the_scroll_top s) + d) 0 \<and>
    0 \<le> offset_in_item off \<and>
    (if item_ix off < length (rows s) then offset_in_item off < li_height (rows s ! item_ix off)
     else item_ix off = length (rows s)) \<and>
    follow s' = (if d < 0 then stop_following (follow s) else follow s)"
proof -
  let ?y = "max (scroll_top_pixels s (the_scroll_top s) + d) 0"
  let ?off = "at_pixel ?y (rows s)"
  have wf: "wf_tree list_ops 1 (items s)" using assms(1) unfolding list_ok_def by blast
  have y0: "0 \<le> ?y" by simp
  from scroll_by_ok [OF assms] obtain p where
    s': "scroll_by d s = Some (s\<lparr>follow := (if d < 0 then stop_following (follow s) else follow s),
      pending_scroll := p, logical_scroll_top := Some ?off\<rparr>)" by blast
  have "list_ok (s\<lparr>follow := (if d < 0 then stop_following (follow s) else follow s),
      pending_scroll := p, logical_scroll_top := Some ?off\<rparr>)"
    by (rule list_ok_scroll [OF assms(1) at_pixel_le])
  moreover have "scroll_top_pixels (s\<lparr>follow := (if d < 0 then stop_following (follow s) else follow s),
      pending_scroll := p, logical_scroll_top := Some ?off\<rparr>) ?off = ?y"
    using scroll_top_pixels_eq [OF wf, of ?off] at_pixel_pixels [of ?y "rows s"]
    by (simp add: scroll_top_pixels_def del: max.absorb1 max.absorb2)
  ultimately show ?thesis
    using s' at_pixel_in_item [OF y0, of "rows s"] at_pixel_le [of ?y "rows s"] by (intro exI conjI) auto
qed

theorem list_scroll_by_witness:
  "\<exists>s' off. scroll_by 20 sample_list = Some s' \<and> logical_scroll_top s' = Some off \<and> scroll_top_pixels s' off = 35"
proof -
  have "scroll_top_pixels sample_list (the_scroll_top sample_list) = 15"
  proof -
    have "wf_tree list_ops 1 (items sample_list)" using sample_list_ok(1) unfolding list_ok_def by blast
    from scroll_top_pixels_eq [OF this] show ?thesis
      unfolding sample_list_rows by (simp add: the_scroll_top_def sample_list_def sample_rows_def li_height_def)
  qed
  with list_scroll_by [OF sample_list_ok(1,2), of 20] show ?thesis by auto
qed

section \<open>The scrollbar\<close>

text \<open>The offset a scrollbar position is clamped to.\<close>

definition scrollbar_limit :: "('h::linordered_field, 'f) list_state \<Rightarrow> 'h bounds \<Rightarrow> 'h" where
  "scrollbar_limit s b =
     max (content_height s + e_top (padding_of s) + e_bottom (padding_of s) - size.height (bsize b)) 0"

text \<open>C31: a scrollbar position that is set is read back: after setting it, also while a drag keeps
  the content height frozen, the offset reported is the position clamped to the scrollable
  range. The two exceptions are the end of a list that follows its tail, which resumes
  following, and the end of a list aligned to the bottom, which is reported as the greatest
  offset without the padding.\<close>

theorem scrollbar_roundtrip:
  assumes "list_ok s" and "shallow s" and "last_layout_bounds s = Some b"
    and "y = min (max (- py p) 0) (scrollbar_limit s b)"
  shows "\<exists>s'. set_offset_from_scrollbar p s = Some s' \<and> list_ok s' \<and> items s' = items s \<and>
    (if scrollbar_limit s b > 0 \<and> y \<ge> max (scrollbar_limit s b - 1) 0 \<and> follow s \<noteq> Normal_Follow then
       is_following_tail s' \<and> the_scroll_top s' = \<lparr>item_ix = item_count s, offset_in_item = 0\<rparr>
     else
       \<not> is_following (follow s') \<and>
       scroll_px_offset_for_scrollbar s' = Some \<lparr>px = 0, py =
         (if alignment s = Align_Bottom \<and> y = scrollbar_limit s b then - max_scroll_offset s else - y)\<rparr>)"
proof -
  have wf: "wf_tree list_ops 1 (items s)" using assms(1) unfolding list_ok_def by blast
  have n: "item_count s = length (rows s)" by (rule item_count_eq [OF assms(1)])
  have y0: "0 \<le> y" by (simp add: assms(4) scrollbar_limit_def)
  have tail: "(case follow s of Tail_Follow _ \<Rightarrow> True | Normal_Follow \<Rightarrow> False) \<longleftrightarrow> follow s \<noteq> Normal_Follow"
    by (cases "follow s") auto
  have stop: "\<not> is_following (stop_following (follow s))" by (cases "follow s" rule: stop_following.cases) auto
  let ?stopped = "s\<lparr>follow := stop_following (follow s)\<rparr>"
  have unfold: "set_offset_from_scrollbar p s =
     (if scrollbar_limit s b > 0 \<and> y \<ge> max (scrollbar_limit s b - 1) 0 \<and> follow s \<noteq> Normal_Follow then
        Some (s\<lparr>follow := Tail_Follow True, pending_scroll := None,
          logical_scroll_top := Some \<lparr>item_ix = item_count s, offset_in_item = 0\<rparr>\<rparr>)
      else if alignment s = Align_Bottom \<and> y = scrollbar_limit s b then
        Some (?stopped\<lparr>pending_scroll := None, logical_scroll_top := None\<rparr>)
      else set_scroll_top (offset_at_pixel y ?stopped) ?stopped)"
    unfolding set_offset_from_scrollbar_def assms(3) option.case Let_def tail scrollbar_limit_def [symmetric]
      assms(4) [symmetric] by (simp add: conj_assoc split del: if_split cong: if_cong)
  have ok: "list_ok ?stopped" "shallow ?stopped" using assms(1,2) unfolding list_ok_def shallow_def by (auto split: option.splits)
  consider (tail) "scrollbar_limit s b > 0 \<and> y \<ge> max (scrollbar_limit s b - 1) 0 \<and> follow s \<noteq> Normal_Follow"
    | (bottom) "\<not> (scrollbar_limit s b > 0 \<and> y \<ge> max (scrollbar_limit s b - 1) 0 \<and> follow s \<noteq> Normal_Follow)"
        "alignment s = Align_Bottom \<and> y = scrollbar_limit s b"
    | (inside) "\<not> (scrollbar_limit s b > 0 \<and> y \<ge> max (scrollbar_limit s b - 1) 0 \<and> follow s \<noteq> Normal_Follow)"
        "\<not> (alignment s = Align_Bottom \<and> y = scrollbar_limit s b)" by blast
  then show ?thesis
  proof cases
    case tail
    show ?thesis unfolding unfold if_P [OF tail]
      using assms(1) n by (simp add: list_ok_def is_following_tail_def the_scroll_top_def)
  next
    case bottom
    let ?s' = "?stopped\<lparr>pending_scroll := None, logical_scroll_top := None\<rparr>"
    have ok': "list_ok ?s'" "shallow ?s'" using assms(1,2) unfolding list_ok_def shallow_def by auto
    have "max_scroll_offset ?s' = max_scroll_offset s"
      by (simp add: max_scroll_offset_def content_height_def layout_bounds_def cong: option.case_cong)
    then have "scroll_px_offset_for_scrollbar ?s' = Some \<lparr>px = 0, py = - max_scroll_offset s\<rparr>"
      using scroll_px_offset_ok [OF ok'] bottom(2) by simp
    then show ?thesis unfolding unfold if_not_P [OF bottom(1)] if_P [OF bottom(2)]
      using ok'(1) stop by simp
  next
    case inside
    let ?off = "at_pixel y (rows s)"
    have off: "offset_at_pixel y ?stopped = ?off" using offset_at_pixel_at [OF ok(1) y0] by simp
    obtain q where "set_scroll_top ?off ?stopped = Some (?stopped\<lparr>pending_scroll := q, logical_scroll_top := Some ?off\<rparr>)"
      using set_scroll_top_ok [OF ok] by blast
    moreover let ?s' = "?stopped\<lparr>pending_scroll := q, logical_scroll_top := Some ?off\<rparr>"
    have l: "list_ok ?s'" by (rule list_ok_scroll [OF assms(1) at_pixel_le])
    with assms(2) have ok': "list_ok ?s'" "shallow ?s'" unfolding shallow_def by simp_all
    moreover have "scroll_px_offset_for_scrollbar ?s' = Some \<lparr>px = 0, py = - y\<rparr>"
      using scroll_px_offset_ok [OF ok'] scroll_top_pixels_eq [of ?s' ?off] wf at_pixel_pixels [of y "rows s"]
      by (simp add: the_scroll_top_def del: One_nat_def)
    ultimately show ?thesis unfolding unfold if_not_P [OF inside(1)] if_not_P [OF inside(2)] off
      using stop by simp
  qed
qed

theorem scrollbar_roundtrip_witness:
  "\<exists>s'. set_offset_from_scrollbar \<lparr>px = 0, py = - 12\<rparr> sample_list = Some s' \<and>
     scroll_px_offset_for_scrollbar s' = Some \<lparr>px = 0, py = - 12\<rparr>"
proof -
  have b: "last_layout_bounds sample_list = Some \<lparr>origin = \<lparr>px = 0, py = 0\<rparr>, bsize = \<lparr>width = 100, height = 25\<rparr>\<rparr>"
    by (simp add: sample_list_def)
  have lim: "scrollbar_limit sample_list \<lparr>origin = \<lparr>px = 0, py = 0\<rparr>, bsize = \<lparr>width = 100, height = 25\<rparr>\<rparr> = 35"
  proof -
    have "wf_tree list_ops 1 (items sample_list)" using sample_list_ok(1) unfolding list_ok_def by blast
    from wf_summary(2) [OF this] have "ls_height (node_summary (items sample_list)) = 60"
      by (simp add: sample_rows_def li_height_def)
    moreover have "padding_of sample_list = edges_all 0" "scrollbar_drag_start_height sample_list = None"
      by (simp_all add: padding_of_def sample_list_def)
    ultimately show ?thesis by (simp add: scrollbar_limit_def content_height_def edges_all_def)
  qed
  have "follow sample_list = Normal_Follow" "alignment sample_list = Align_Top" by (simp_all add: sample_list_def)
  with scrollbar_roundtrip [OF sample_list_ok(1,2) b, of 12 "\<lparr>px = 0, py = - 12\<rparr>"] show ?thesis
    unfolding lim by auto
qed

section \<open>Layout\<close>

text \<open>C32: a layout measures the items of one range around the position scrolled to: those in the
  viewport and in the overdraw on both sides, and none beyond. Outside the range every item stays as
  it is, and in it an item keeps the size it had or gets the one it renders with; only the last item may
  grow, when a tail is reserved. The elements it returns are those of consecutive items from the new
  scroll position on, rendered anew, with the sizes recorded for their items. Without a reserved tail they
  fill the viewport: what is below the last of them is outside it, and when the last item is among
  them there is no empty space below it unless the list shows all of its items.\<close>

theorem list_layout:
  fixes render :: "'h::linordered_field renderer" and s :: "('h, 'f) list_state"
  assumes "list_ok s" and "shallow s" and "\<And>i. 0 \<le> size.height (render w i)" and "0 \<le> overdraw s"
    and "e_top padding - offset_in_item (layout_start s) < avail" and "0 \<le> e_bottom padding"
  shows "\<exists>acc s' a ms. layout_visible render focused w avail padding s = Some (acc, s') \<and> list_ok s' \<and>
    (let st = la_scroll_top acc; ls = item_layouts acc; n = length (rows s); first = item_ix st;
         bottom = e_top padding + sum_list (map (\<lambda>l. size.height (il_size l)) ls) - offset_in_item st in
    rows s' = take a (rows s) @ ms @ drop (a + length ms) (rows s) \<and> a + length ms \<le> n \<and>
    map li_focus_handle (rows s') = map li_focus_handle (rows s) \<and> (\<forall>x\<in>set ms. li_size x \<noteq> None) \<and>
    (\<forall>i<n. tail_reservation s = None \<or> Suc i < n \<longrightarrow>
       rows s' ! i = rows s ! i \<or> rows s' ! i = Measured (render w i) (li_focus_handle (rows s ! i))) \<and>
    a \<le> first \<and> first + length ls \<le> a + length ms \<and>
    (0 < a \<longrightarrow> overdraw s \<le> offset_in_item st + total_height (take (first - a) ms)) \<and>
    (a < first \<longrightarrow> offset_in_item st + total_height (tl (take (first - a) ms)) < overdraw s) \<and>
    (a + length ms < n \<longrightarrow>
       avail + overdraw s \<le> e_top padding + total_height (drop (first - a) ms) - offset_in_item st) \<and>
    (first + max 1 (length ls) < a + length ms \<longrightarrow>
       e_top padding + total_height (butlast (drop (first - a) ms)) - offset_in_item st < avail + overdraw s) \<and>
    map il_index ls = [first..<first + length ls] \<and>
    map (\<lambda>l. Some (il_size l)) ls = map li_size (take (length ls) (drop first (rows s'))) \<and>
    (\<forall>l\<in>set ls. tail_reservation s = None \<or> Suc (il_index l) < n \<longrightarrow> il_size l = render w (il_index l)) \<and>
    (tail_reservation s = None \<longrightarrow>
       (first + length ls < n \<longrightarrow> avail \<le> bottom) \<and>
       (first + length ls = n \<longrightarrow> avail \<le> bottom + e_bottom padding \<or> first = 0)))"
proof -
  let ?lim = "if tail_reservation s = None then length (rows s) else length (rows s) - 1"
  have lim: "tail_reservation s \<noteq> None \<longrightarrow> ?lim \<le> length (rows s) - 1" by simp
  from layout_visible_ok [where render = render and w = w and focused = focused, OF assms lim] obtain acc s' a ys ms where
    r: "layout_visible render focused w avail padding s = Some (acc, s')" "list_ok s'"
      "rows s' = take a (rows s) @ ms @ drop (a + length ms) (rows s)" "a + length ms \<le> length (rows s)"
      "measures_from (render w) ?lim a (rows s) ms []" "ms = ys @ measured_items acc"
      "item_ix (la_scroll_top acc) = a + length ys"
      "measures_from (render w) ?lim (item_ix (la_scroll_top acc)) (rows s) (measured_items acc) (item_layouts acc)"
      "0 < a \<longrightarrow> overdraw s \<le> offset_in_item (la_scroll_top acc) + total_height ys"
      "ys \<noteq> [] \<longrightarrow> offset_in_item (la_scroll_top acc) + total_height (tl ys) < overdraw s"
      "measured_below (avail + overdraw s) padding (item_ix (la_scroll_top acc)) (length (rows s)) acc"
      "tail_reservation s = None \<longrightarrow> viewport_full avail padding (item_ix (la_scroll_top acc)) (length (rows s)) acc"
    by (elim exE conjE) (rule that; assumption)
  let ?ls = "item_layouts acc" and ?first = "item_ix (la_scroll_top acc)"
  have m: "length ?ls \<le> length (measured_items acc)" "map il_index ?ls = [?first..<?first + length ?ls]"
    "map (\<lambda>l. Some (il_size l)) ?ls = map li_size (take (length ?ls) (measured_items acc))"
    and drawn: "\<forall>l\<in>set ?ls. il_index l < ?lim \<longrightarrow> il_size l = render w (il_index l)"
    using r(8) by (simp_all add: measures_from_def)
  have as: "measured_as ms (take (length ms) (drop a (rows s)))" using r(5) by (simp add: measures_from_def)
  have "map li_focus_handle ms = map li_focus_handle (take (length ms) (drop a (rows s)))"
    using as unfolding measured_as_def by (auto simp: list_all2_conv_all_nth intro!: nth_equalityI)
  then have "map li_focus_handle (rows s') =
      map li_focus_handle (take a (rows s) @ take (length ms) (drop a (rows s)) @ drop (length ms) (drop a (rows s)))"
    unfolding r(3) by (simp add: add.commute)
  then have focus: "map li_focus_handle (rows s') = map li_focus_handle (rows s)"
    unfolding append_take_drop_id .
  have drop: "drop ?first (rows s') = measured_items acc @ drop (a + length ms) (rows s)"
    unfolding r(3,6,7) using r(4) by (simp add: r(6))
  have sizes: "map (\<lambda>l. Some (il_size l)) ?ls = map li_size (take (length ?ls) (drop ?first (rows s')))"
    unfolding drop using m(1,3) by simp
  have full: "tail_reservation s = None \<longrightarrow>
      (?first + length ?ls < length (rows s) \<longrightarrow>
        avail \<le> e_top padding + sum_list (map (\<lambda>l. size.height (il_size l)) ?ls) - offset_in_item (la_scroll_top acc)) \<and>
      (?first + length ?ls = length (rows s) \<longrightarrow>
        avail \<le> e_top padding + sum_list (map (\<lambda>l. size.height (il_size l)) ?ls) - offset_in_item (la_scroll_top acc)
          + e_bottom padding \<or> ?first = 0)"
    using r(12) unfolding viewport_full_def Let_def layouts_height [OF m(3)] .
  have sure: "i < ?lim" if "i < length (rows s)" "tail_reservation s = None \<or> Suc i < length (rows s)" for i
    using that by auto
  have kept: "\<forall>i<length (rows s). tail_reservation s = None \<or> Suc i < length (rows s) \<longrightarrow>
      rows s' ! i = rows s ! i \<or> rows s' ! i = Measured (render w i) (li_focus_handle (rows s ! i))"
    using measures_from_rows [OF r(5)] sure unfolding r(3) by blast
  have "\<forall>l\<in>set ?ls. il_index l < length (rows s)"
  proof
    fix l
    assume "l \<in> set ?ls"
    then have "il_index l \<in> set [?first..<?first + length ?ls]" unfolding m(2) [symmetric] by simp
    then show "il_index l < length (rows s)" using m(1) r(4,6,7) by simp
  qed
  then have drawn': "\<forall>l\<in>set ?ls. tail_reservation s = None \<or> Suc (il_index l) < length (rows s) \<longrightarrow> il_size l = render w (il_index l)"
    using drawn sure by blast
  have parts: "take (?first - a) ms = ys" "drop (?first - a) ms = measured_items acc" using r(6,7) by simp_all
  have above: "0 < a \<longrightarrow> overdraw s \<le> offset_in_item (la_scroll_top acc) + total_height (take (?first - a) ms)"
    "a < ?first \<longrightarrow> offset_in_item (la_scroll_top acc) + total_height (tl (take (?first - a) ms)) < overdraw s"
    using r(7,9,10) unfolding parts by auto
  have below: "a + length ms < length (rows s) \<longrightarrow>
      avail + overdraw s \<le> e_top padding + total_height (drop (?first - a) ms) - offset_in_item (la_scroll_top acc)"
    "?first + max 1 (length ?ls) < a + length ms \<longrightarrow>
      e_top padding + total_height (butlast (drop (?first - a) ms)) - offset_in_item (la_scroll_top acc) < avail + overdraw s"
    using r(6,7,11) unfolding parts measured_below_def by auto
  have "\<forall>x\<in>set ms. li_size x \<noteq> None" using measured_as_size [OF as] by blast
  moreover have "a \<le> ?first" "?first + length ?ls \<le> a + length ms" using r(6,7) m(1) by simp_all
  ultimately show ?thesis
    unfolding Let_def using r(1-4) focus kept above below m(2) sizes drawn' full
    by (intro exI [of _ acc] exI [of _ s'] exI [of _ a] exI [of _ ms] conjI) assumption+
qed

theorem list_layout_witness:
  "\<exists>acc s'. layout_visible (\<lambda>_ _. \<lparr>width = 100, height = 20\<rparr>) (\<lambda>_. False) (Some 100) 25 (edges_all 0) sample_list =
      Some (acc, s') \<and> list_ok s' \<and>
      (\<forall>i<3. rows s' ! i = sample_rows ! i \<or>
         rows s' ! i = Measured \<lparr>width = 100, height = 20\<rparr> (li_focus_handle (sample_rows ! i))) \<and>
      map (size.height \<circ> the \<circ> li_size) (rows s') = [10, 20, 20] \<and>
      map (\<lambda>l. (il_index l, size.height (il_size l))) (item_layouts acc) = [(1, 20), (2, 20)]"
proof -
  let ?render = "\<lambda>_ _. \<lparr>width = 100, height = 20\<rparr> :: rat size"
  have start: "layout_start sample_list = \<lparr>item_ix = 1, offset_in_item = 5\<rparr>"
    by (simp add: layout_start_def sample_list_def the_scroll_top_def)
  have n: "length sample_rows = 3" "tail_reservation sample_list = None" by (simp_all add: sample_rows_def sample_list_def)
  have "0 \<le> overdraw sample_list" by (simp add: sample_list_def)
  moreover have "e_top (edges_all 0) - offset_in_item (layout_start sample_list) < 25" by (simp add: start edges_all_def)
  moreover have "0 \<le> e_bottom (edges_all (0 :: rat))" by (simp add: edges_all_def)
  moreover have "\<And>i. 0 \<le> size.height (?render (Some 100) i)" by simp
  ultimately obtain acc s' where l: "layout_visible ?render (\<lambda>_. False) (Some 100) 25 (edges_all 0) sample_list = Some (acc, s')"
      "list_ok s'"
      "\<forall>i<3. rows s' ! i = sample_rows ! i \<or>
        rows s' ! i = Measured \<lparr>width = 100, height = 20\<rparr> (li_focus_handle (sample_rows ! i))"
    using list_layout [OF sample_list_ok(1,2), of ?render "Some 100" "edges_all 0" 25 "\<lambda>_. False"]
    unfolding Let_def sample_list_rows n by blast
  have "map_option (\<lambda>(acc, s'). (map (size.height \<circ> the \<circ> li_size) (rows s'),
        map (\<lambda>l. (il_index l, size.height (il_size l))) (item_layouts acc)))
      (layout_visible ?render (\<lambda>_. False) (Some 100) 25 (edges_all 0) sample_list) = Some ([10, 20, 20], [(1, 20), (2, 20)])"
    by code_simp
  then show ?thesis using l by auto
qed

text \<open>With a reserved tail the viewport may stay unfilled for one layout: the items above the scroll
  position are walked while the last item has the extra height computed from old measurements,
  and the walk is not resumed when that height shrinks. Here seven items are estimated at height
  10, the list is scrolled to the last, and the sixth turns out to be 70 high: the two items laid
  out end at 80 of 100, although five more are above.\<close>

definition gap_list :: "(rat, nat) list_state" where
  "gap_list = sample_list
     \<lparr>items := mk_leaf list_ops (map (\<lambda>_. Unmeasured (Some \<lparr>width = 100, height = 10\<rparr>) None) [0..<7]),
      logical_scroll_top := Some \<lparr>item_ix = 6, offset_in_item = 0\<rparr>, tail_reservation := Some (5, 50)\<rparr>"

definition gap_render :: "rat renderer" where
  "gap_render _ i = \<lparr>width = 100, height = (if i = 5 then 70 else if i = 6 then 10 else 20)\<rparr>"

lemma reserved_tail_gap:
  "map_option (\<lambda>(acc, _). (visible_height acc, length (item_layouts acc), item_ix (la_scroll_top acc)))
     (layout_visible gap_render (\<lambda>_. False) (Some 100) 100 (edges_all 0) gap_list) = Some (80, 2, 5)"
  by code_simp

end
