(* ===== verification/Scene.thy ===== *)
theory Scene
  imports Bounds_Tree_Order "HOL-Library.Product_Lexorder"
begin

text \<open>
  The scene of a frame (\<open>gpui/src/scene.rs\<close>): primitives get their draw order from the tree of
  rectangles or from the layer they are in, are sorted when the scene is finished, and are
  handed to the renderer in batches. What a primitive holds besides its order, rectangle, mask
  and tile is the parameter type \<open>'d\<close>.
\<close>

section \<open>Primitives\<close>

datatype atlas_texture_kind = Monochrome_Texture | Polychrome_Texture | Subpixel_Texture

record atlas_texture_id =
  texture_index :: nat
  texture_kind :: atlas_texture_kind

record atlas_tile =
  texture_id :: atlas_texture_id
  tile_id :: nat

record ('u, 'd) painted =
  s_order :: nat
  s_bounds :: "'u bounds"
  s_mask :: "'u bounds"
  s_data :: 'd

datatype ('u, 'd) primitive =
    Shadow "('u, 'd) painted"
  | Quad "('u, 'd) painted"
  | Path_Primitive nat "('u, 'd) painted"
  | Underline "('u, 'd) painted"
  | Monochrome_Sprite atlas_tile "('u, 'd) painted"
  | Subpixel_Sprite atlas_tile "('u, 'd) painted"
  | Polychrome_Sprite atlas_tile "('u, 'd) painted"
  | Surface "('u, 'd) painted"

fun prim_shape :: "('u, 'd) primitive \<Rightarrow> ('u, 'd) painted" where
  "prim_shape (Shadow s) = s"
| "prim_shape (Quad s) = s"
| "prim_shape (Path_Primitive _ s) = s"
| "prim_shape (Underline s) = s"
| "prim_shape (Monochrome_Sprite _ s) = s"
| "prim_shape (Subpixel_Sprite _ s) = s"
| "prim_shape (Polychrome_Sprite _ s) = s"
| "prim_shape (Surface s) = s"

definition prim_bounds :: "('u, 'd) primitive \<Rightarrow> 'u bounds" where
  "prim_bounds p = s_bounds (prim_shape p)"

definition prim_content_mask :: "('u, 'd) primitive \<Rightarrow> 'u bounds" where
  "prim_content_mask p = s_mask (prim_shape p)"

datatype ('u, 'd) paint_operation =
    Paint_Primitive "('u, 'd) primitive"
  | Paint_Backdrop_Blur "('u, 'd) painted"
  | Start_Layer "'u bounds"
  | End_Layer

section \<open>The scene\<close>

record ('u, 'd) scene =
  paint_operations :: "('u, 'd) paint_operation list"
  primitive_bounds :: "'u bounds_tree"
  layer_stack :: "nat list"
  shadows :: "('u, 'd) painted list"
  quads :: "('u, 'd) painted list"
  paths :: "(nat \<times> ('u, 'd) painted) list"
  underlines :: "('u, 'd) painted list"
  monochrome_sprites :: "(atlas_tile \<times> ('u, 'd) painted) list"
  subpixel_sprites :: "(atlas_tile \<times> ('u, 'd) painted) list"
  polychrome_sprites :: "(atlas_tile \<times> ('u, 'd) painted) list"
  surfaces :: "('u, 'd) painted list"
  backdrop_blurs :: "('u, 'd) painted list"

definition scene_default :: "('u, 'd) scene" where
  "scene_default =
     \<lparr>paint_operations = [], primitive_bounds = bt_default, layer_stack = [], shadows = [], quads = [], paths = [],
      underlines = [], monochrome_sprites = [], subpixel_sprites = [], polychrome_sprites = [], surfaces = [],
      backdrop_blurs = []\<rparr>"

definition scene_clear :: "('u, 'd) scene \<Rightarrow> ('u, 'd) scene" where
  "scene_clear sc =
     \<lparr>paint_operations = [], primitive_bounds = bt_clear (primitive_bounds sc), layer_stack = [], shadows = [],
      quads = [], paths = [], underlines = [], monochrome_sprites = [], subpixel_sprites = [],
      polychrome_sprites = [], surfaces = [], backdrop_blurs = []\<rparr>"

definition scene_is_empty :: "('u, 'd) scene \<Rightarrow> bool" where
  "scene_is_empty sc = list_all (\<lambda>operation. case operation of Start_Layer _ \<Rightarrow> True | End_Layer \<Rightarrow> True | _ \<Rightarrow> False)
     (paint_operations sc)"

definition scene_len :: "('u, 'd) scene \<Rightarrow> nat" where
  "scene_len sc = length (paint_operations sc)"

definition push_layer :: "'u::linordered_ab_group_add bounds \<Rightarrow> ('u, 'd) scene \<Rightarrow> ('u, 'd) scene option" where
  "push_layer b sc =
     do { (t, order) \<leftarrow> bt_insert (primitive_bounds sc) b;
          Some (sc\<lparr>primitive_bounds := t, layer_stack := layer_stack sc @ [order],
                   paint_operations := paint_operations sc @ [Start_Layer b]\<rparr>) }"

definition pop_layer :: "('u, 'd) scene \<Rightarrow> ('u, 'd) scene" where
  "pop_layer sc =
     sc\<lparr>layer_stack := butlast (layer_stack sc), paint_operations := paint_operations sc @ [End_Layer]\<rparr>"

text \<open>The order of the innermost layer, or a new one from the tree.\<close>

definition draw_order :: "'u::linordered_ab_group_add bounds \<Rightarrow> ('u, 'd) scene \<Rightarrow> (nat \<times> ('u, 'd) scene) option" where
  "draw_order clipped_bounds sc =
     (if layer_stack sc \<noteq> [] then Some (last (layer_stack sc), sc)
      else do { (t, order) \<leftarrow> bt_insert (primitive_bounds sc) clipped_bounds;
                Some (order, sc\<lparr>primitive_bounds := t\<rparr>) })"

definition insert_backdrop_blur ::
  "('u::linordered_ab_group_add, 'd) painted \<Rightarrow> ('u, 'd) scene \<Rightarrow> ('u, 'd) scene option" where
  "insert_backdrop_blur blur sc =
     (let clipped_bounds = bounds_intersect (s_bounds blur) (s_mask blur) in
      if bounds_is_empty clipped_bounds then Some sc
      else do { (order, sc) \<leftarrow> draw_order clipped_bounds sc;
                (let blur = blur\<lparr>s_order := order\<rparr> in
                 Some (sc\<lparr>backdrop_blurs := backdrop_blurs sc @ [blur],
                          paint_operations := paint_operations sc @ [Paint_Backdrop_Blur blur]\<rparr>)) })"

text \<open>The primitive with its order (a path with its number) is stored with those of its kind.\<close>

fun store_primitive ::
  "nat \<Rightarrow> ('u, 'd) primitive \<Rightarrow> ('u, 'd) scene \<Rightarrow> ('u, 'd) primitive \<times> ('u, 'd) scene" where
  "store_primitive order (Shadow s) sc =
     (let s = s\<lparr>s_order := order\<rparr> in (Shadow s, sc\<lparr>shadows := shadows sc @ [s]\<rparr>))"
| "store_primitive order (Quad s) sc =
     (let s = s\<lparr>s_order := order\<rparr> in (Quad s, sc\<lparr>quads := quads sc @ [s]\<rparr>))"
| "store_primitive order (Path_Primitive _ s) sc =
     (let s = s\<lparr>s_order := order\<rparr>; i = length (paths sc) in
      (Path_Primitive i s, sc\<lparr>paths := paths sc @ [(i, s)]\<rparr>))"
| "store_primitive order (Underline s) sc =
     (let s = s\<lparr>s_order := order\<rparr> in (Underline s, sc\<lparr>underlines := underlines sc @ [s]\<rparr>))"
| "store_primitive order (Monochrome_Sprite tile s) sc =
     (let s = s\<lparr>s_order := order\<rparr> in
      (Monochrome_Sprite tile s, sc\<lparr>monochrome_sprites := monochrome_sprites sc @ [(tile, s)]\<rparr>))"
| "store_primitive order (Subpixel_Sprite tile s) sc =
     (let s = s\<lparr>s_order := order\<rparr> in
      (Subpixel_Sprite tile s, sc\<lparr>subpixel_sprites := subpixel_sprites sc @ [(tile, s)]\<rparr>))"
| "store_primitive order (Polychrome_Sprite tile s) sc =
     (let s = s\<lparr>s_order := order\<rparr> in
      (Polychrome_Sprite tile s, sc\<lparr>polychrome_sprites := polychrome_sprites sc @ [(tile, s)]\<rparr>))"
| "store_primitive order (Surface s) sc =
     (let s = s\<lparr>s_order := order\<rparr> in (Surface s, sc\<lparr>surfaces := surfaces sc @ [s]\<rparr>))"

definition insert_primitive ::
  "('u::linordered_ab_group_add, 'd) primitive \<Rightarrow> ('u, 'd) scene \<Rightarrow> ('u, 'd) scene option" where
  "insert_primitive p sc =
     (let clipped_bounds = bounds_intersect (prim_bounds p) (prim_content_mask p) in
      if bounds_is_empty clipped_bounds then Some sc
      else do { (order, sc) \<leftarrow> draw_order clipped_bounds sc;
                (let (p, sc) = store_primitive order p sc in
                 Some (sc\<lparr>paint_operations := paint_operations sc @ [Paint_Primitive p]\<rparr>)) })"

fun replay_operation ::
  "('u::linordered_ab_group_add, 'd) paint_operation \<Rightarrow> ('u, 'd) scene \<Rightarrow> ('u, 'd) scene option" where
  "replay_operation (Paint_Primitive p) sc = insert_primitive p sc"
| "replay_operation (Paint_Backdrop_Blur blur) sc = insert_backdrop_blur blur sc"
| "replay_operation (Start_Layer b) sc = push_layer b sc"
| "replay_operation End_Layer sc = Some (pop_layer sc)"

fun replay_operations ::
  "('u::linordered_ab_group_add, 'd) paint_operation list \<Rightarrow> ('u, 'd) scene \<Rightarrow> ('u, 'd) scene option" where
  "replay_operations [] sc = Some sc"
| "replay_operations (operation # operations) sc =
     do { sc \<leftarrow> replay_operation operation sc; replay_operations operations sc }"

text \<open>The range indexes the operations of the previous scene, and panics beyond them.\<close>

definition scene_replay ::
  "nat \<Rightarrow> nat \<Rightarrow> ('u::linordered_ab_group_add, 'd) scene \<Rightarrow> ('u, 'd) scene \<Rightarrow> ('u, 'd) scene option" where
  "scene_replay range_start range_end prev_scene sc =
     (if range_start \<le> range_end \<and> range_end \<le> length (paint_operations prev_scene)
      then replay_operations (drop range_start (take range_end (paint_operations prev_scene))) sc else None)"

definition finish :: "('u, 'd) scene \<Rightarrow> ('u, 'd) scene" where
  "finish sc = sc
     \<lparr>shadows := sort_key s_order (shadows sc), quads := sort_key s_order (quads sc),
      paths := sort_key (\<lambda>(_, path). s_order path) (paths sc), underlines := sort_key s_order (underlines sc),
      monochrome_sprites := sort_key (\<lambda>(tile, s). (s_order s, tile_id tile)) (monochrome_sprites sc),
      subpixel_sprites := sort_key (\<lambda>(tile, s). (s_order s, tile_id tile)) (subpixel_sprites sc),
      polychrome_sprites := sort_key (\<lambda>(tile, s). (s_order s, tile_id tile)) (polychrome_sprites sc),
      surfaces := sort_key s_order (surfaces sc), backdrop_blurs := sort_key s_order (backdrop_blurs sc)\<rparr>"

section \<open>Batches\<close>

datatype primitive_kind =
  Shadow_Kind | Quad_Kind | Path_Kind | Underline_Kind | Monochrome_Kind | Subpixel_Kind | Polychrome_Kind | Surface_Kind

definition all_kinds :: "primitive_kind list" where
  "all_kinds = [Shadow_Kind, Quad_Kind, Path_Kind, Underline_Kind, Monochrome_Kind, Subpixel_Kind, Polychrome_Kind,
     Surface_Kind]"

text \<open>The derived order is that of the declaration.\<close>

fun kind_rank :: "primitive_kind \<Rightarrow> nat" where
  "kind_rank Shadow_Kind = 0"
| "kind_rank Quad_Kind = 1"
| "kind_rank Path_Kind = 2"
| "kind_rank Underline_Kind = 3"
| "kind_rank Monochrome_Kind = 4"
| "kind_rank Subpixel_Kind = 5"
| "kind_rank Polychrome_Kind = 6"
| "kind_rank Surface_Kind = 7"

lemma kind_rank_inj: "kind_rank a = kind_rank b \<Longrightarrow> a = b"
  by (cases a; cases b) simp_all

instantiation primitive_kind :: linorder
begin

definition less_primitive_kind :: "primitive_kind \<Rightarrow> primitive_kind \<Rightarrow> bool" where
  "less_primitive_kind a b = (kind_rank a < kind_rank b)"

definition less_eq_primitive_kind :: "primitive_kind \<Rightarrow> primitive_kind \<Rightarrow> bool" where
  "less_eq_primitive_kind a b = (kind_rank a \<le> kind_rank b)"

instance
  by standard (auto simp: less_primitive_kind_def less_eq_primitive_kind_def intro: kind_rank_inj)

end

fun is_sprite :: "primitive_kind \<Rightarrow> bool" where
  "is_sprite Monochrome_Kind = True"
| "is_sprite Subpixel_Kind = True"
| "is_sprite Polychrome_Kind = True"
| "is_sprite _ = False"

datatype primitive_batch =
    Shadows nat nat
  | Quads nat nat
  | Paths nat nat
  | Underlines nat nat
  | Monochrome_Sprites "atlas_texture_id option" nat nat
  | Subpixel_Sprites "atlas_texture_id option" nat nat
  | Polychrome_Sprites "atlas_texture_id option" nat nat
  | Surfaces nat nat

text \<open>The elements an iterator over the primitives of a kind delivers: order, and texture for sprites.\<close>

type_synonym stream = "(nat \<times> atlas_texture_id option) list"

definition shape_stream :: "('u, 'd) painted list \<Rightarrow> stream" where
  "shape_stream = map (\<lambda>s. (s_order s, None))"

definition sprite_stream :: "(atlas_tile \<times> ('u, 'd) painted) list \<Rightarrow> stream" where
  "sprite_stream = map (\<lambda>(tile, s). (s_order s, Some (texture_id tile)))"

fun kind_stream :: "('u, 'd) scene \<Rightarrow> primitive_kind \<Rightarrow> stream" where
  "kind_stream sc Shadow_Kind = shape_stream (shadows sc)"
| "kind_stream sc Quad_Kind = shape_stream (quads sc)"
| "kind_stream sc Path_Kind = shape_stream (map snd (paths sc))"
| "kind_stream sc Underline_Kind = shape_stream (underlines sc)"
| "kind_stream sc Monochrome_Kind = sprite_stream (monochrome_sprites sc)"
| "kind_stream sc Subpixel_Kind = sprite_stream (subpixel_sprites sc)"
| "kind_stream sc Polychrome_Kind = sprite_stream (polychrome_sprites sc)"
| "kind_stream sc Surface_Kind = shape_stream (surfaces sc)"

text \<open>The iterator: for each kind the next index and the elements left, and the blurs left.\<close>

record batch_iterator =
  bi_start :: "primitive_kind \<Rightarrow> nat"
  bi_iter :: "primitive_kind \<Rightarrow> stream"
  bi_blurs :: "nat list"

definition U32_MAX :: nat where
  "U32_MAX = 2 ^ 32 - 1"

definition order_or_max :: "nat option \<Rightarrow> nat" where
  "order_or_max order = (case order of Some n \<Rightarrow> n | None \<Rightarrow> U32_MAX)"

definition peek_order :: "stream \<Rightarrow> nat option" where
  "peek_order st = (case st of [] \<Rightarrow> None | (n, _) # _ \<Rightarrow> Some n)"

fun make_batch :: "primitive_kind \<Rightarrow> atlas_texture_id option \<Rightarrow> nat \<Rightarrow> nat \<Rightarrow> primitive_batch" where
  "make_batch Shadow_Kind tex a b = Shadows a b"
| "make_batch Quad_Kind tex a b = Quads a b"
| "make_batch Path_Kind tex a b = Paths a b"
| "make_batch Underline_Kind tex a b = Underlines a b"
| "make_batch Monochrome_Kind tex a b = Monochrome_Sprites tex a b"
| "make_batch Subpixel_Kind tex a b = Subpixel_Sprites tex a b"
| "make_batch Polychrome_Kind tex a b = Polychrome_Sprites tex a b"
| "make_batch Surface_Kind tex a b = Surfaces a b"

definition orders_and_kinds :: "batch_iterator \<Rightarrow> (nat option \<times> primitive_kind) list" where
  "orders_and_kinds it =
     sort_key (\<lambda>(order, kind). (order_or_max order, kind)) (map (\<lambda>k. (peek_order (bi_iter it k), k)) all_kinds)"

text \<open>
  One batch: the first primitive of the kind that comes next, and those after it that come
  before every other kind and before the next blur, and are on the same texture.
\<close>

definition next_batch :: "batch_iterator \<Rightarrow> (primitive_batch \<times> batch_iterator) option" where
  "next_batch it =
     (let tagged = orders_and_kinds it; first = tagged ! 0; second = tagged ! 1 in
      case fst first of
        None \<Rightarrow> None
      | Some first_order \<Rightarrow>
          (let kind = snd first;
               blurs = dropWhile (\<lambda>order. order \<le> first_order) (bi_blurs it);
               limit = (order_or_max (fst second), snd second);
               limit = (case blurs of [] \<Rightarrow> limit | order # _ \<Rightarrow> min limit (order, Shadow_Kind)) in
           case bi_iter it kind of
             [] \<Rightarrow> None
           | (_, tex) # rest \<Rightarrow>
               (let n = length (takeWhile (\<lambda>(order, tex'). (order, kind) < limit \<and> (is_sprite kind \<longrightarrow> tex' = tex)) rest);
                    batch_end = bi_start it kind + 1 + n in
                Some (make_batch kind tex (bi_start it kind) batch_end,
                  \<lparr>bi_start = (bi_start it)(kind := batch_end), bi_iter = (bi_iter it)(kind := drop n rest),
                   bi_blurs = blurs\<rparr>))))"

definition batches_start :: "('u, 'd) scene \<Rightarrow> batch_iterator" where
  "batches_start sc = \<lparr>bi_start = (\<lambda>_. 0), bi_iter = kind_stream sc, bi_blurs = map s_order (backdrop_blurs sc)\<rparr>"

definition elements_left :: "batch_iterator \<Rightarrow> nat" where
  "elements_left it = sum_list (map (\<lambda>k. length (bi_iter it k)) all_kinds)"

lemma elements_left_update:
  "elements_left (it\<lparr>bi_iter := (bi_iter it)(k := xs)\<rparr>) + length (bi_iter it k) = elements_left it + length xs"
  by (cases k) (simp_all add: elements_left_def all_kinds_def)

lemma next_batch_less: "next_batch it = Some (b, it') \<Longrightarrow> elements_left it' < elements_left it"
proof -
  assume "next_batch it = Some (b, it')"
  then obtain k y rest n where "bi_iter it k = y # rest" "bi_iter it' = (bi_iter it)(k := drop n rest)"
    by (auto simp: next_batch_def Let_def split: option.splits list.splits)
  then show ?thesis
    using elements_left_update [of it k "drop n rest"] by (simp add: elements_left_def)
qed

function batches_from :: "batch_iterator \<Rightarrow> primitive_batch list" where
  "batches_from it = (case next_batch it of None \<Rightarrow> [] | Some (b, it') \<Rightarrow> b # batches_from it')"
  by pat_completeness auto

termination
  by (relation "measure elements_left") (auto dest: next_batch_less)

declare batches_from.simps [simp del]

definition batches :: "('u, 'd) scene \<Rightarrow> primitive_batch list" where
  "batches sc = batches_from (batches_start sc)"

text \<open>The first order of a batch; an index out of range panics.\<close>

fun batch_kind :: "primitive_batch \<Rightarrow> primitive_kind" where
  "batch_kind (Shadows _ _) = Shadow_Kind"
| "batch_kind (Quads _ _) = Quad_Kind"
| "batch_kind (Paths _ _) = Path_Kind"
| "batch_kind (Underlines _ _) = Underline_Kind"
| "batch_kind (Monochrome_Sprites _ _ _) = Monochrome_Kind"
| "batch_kind (Subpixel_Sprites _ _ _) = Subpixel_Kind"
| "batch_kind (Polychrome_Sprites _ _ _) = Polychrome_Kind"
| "batch_kind (Surfaces _ _) = Surface_Kind"

fun batch_range :: "primitive_batch \<Rightarrow> nat \<times> nat" where
  "batch_range (Shadows a b) = (a, b)"
| "batch_range (Quads a b) = (a, b)"
| "batch_range (Paths a b) = (a, b)"
| "batch_range (Underlines a b) = (a, b)"
| "batch_range (Monochrome_Sprites _ a b) = (a, b)"
| "batch_range (Subpixel_Sprites _ a b) = (a, b)"
| "batch_range (Polychrome_Sprites _ a b) = (a, b)"
| "batch_range (Surfaces a b) = (a, b)"

definition first_order :: "primitive_batch \<Rightarrow> ('u, 'd) scene \<Rightarrow> nat option" where
  "first_order b sc =
     (let st = kind_stream sc (batch_kind b); i = fst (batch_range b) in
      if i < length st then Some (fst (st ! i)) else None)"

end
