(* ===== verification/Scene_Correct.thy ===== *)
theory Scene_Correct
  imports Scene "HOL-Library.Multiset"
begin

text \<open>
  The batches of a scene as one painting sequence, and the orders its primitives get.
\<close>

section \<open>The next batch\<close>

lemma all_kinds_facts: "set all_kinds = UNIV" "distinct all_kinds" "length all_kinds = 8"
proof -
  show "set all_kinds = UNIV" unfolding all_kinds_def using primitive_kind.exhaust by auto
qed (simp_all add: all_kinds_def)

definition head_key :: "batch_iterator \<Rightarrow> primitive_kind \<Rightarrow> nat \<times> primitive_kind" where
  "head_key it k = (order_or_max (peek_order (bi_iter it k)), k)"

lemma tagged_facts:
  "\<exists>k1 k2 rest. orders_and_kinds it = (peek_order (bi_iter it k1), k1) # (peek_order (bi_iter it k2), k2) # rest \<and>
     k1 \<noteq> k2 \<and> (\<forall>k. head_key it k1 \<le> head_key it k) \<and> (\<forall>k. k \<noteq> k1 \<longrightarrow> head_key it k2 \<le> head_key it k)"
proof -
  let ?tag = "\<lambda>k. (peek_order (bi_iter it k), k)" and ?key = "\<lambda>(order, kind). (order_or_max order, kind)"
  let ?xs = "orders_and_kinds it"
  have key: "?key (?tag k) = head_key it k" for k by (simp add: head_key_def)
  have set: "set ?xs = range ?tag" unfolding orders_and_kinds_def by (simp add: all_kinds_facts)
  have len: "length ?xs = 8" unfolding orders_and_kinds_def by (simp add: all_kinds_facts)
  have dis: "distinct ?xs"
    unfolding orders_and_kinds_def by (simp add: distinct_map all_kinds_facts inj_on_def)
  have sorted: "sorted (map ?key ?xs)" unfolding orders_and_kinds_def by (rule sorted_sort_key)
  have "length ?xs = Suc (Suc 6)" using len by simp
  then obtain x y rest where xs: "?xs = x # y # rest" unfolding length_Suc_conv by blast
  have "x \<in> range ?tag" "y \<in> range ?tag" unfolding set [symmetric] xs by simp_all
  then obtain k1 k2 where k1: "x = ?tag k1" and k2: "y = ?tag k2" by blast
  have ne: "k1 \<noteq> k2" using dis unfolding xs k1 k2 by auto
  have tail: "\<forall>z\<in>set (y # rest). ?key x \<le> ?key z" "\<forall>z\<in>set rest. ?key y \<le> ?key z"
    using sorted unfolding xs by auto
  have "head_key it k1 \<le> head_key it k" for k
  proof -
    have "?tag k \<in> set (x # y # rest)" using set unfolding xs by blast
    then show ?thesis using tail(1) unfolding k1 key [symmetric] by fastforce
  qed
  moreover have "head_key it k2 \<le> head_key it k" if "k \<noteq> k1" for k
  proof -
    have "?tag k \<in> set (x # y # rest)" using set unfolding xs by blast
    then have "?tag k \<in> set (y # rest)" using that unfolding k1 by auto
    then show ?thesis using tail(2) unfolding k2 key [symmetric] by fastforce
  qed
  ultimately show ?thesis using xs ne unfolding k1 k2 by blast
qed

text \<open>An iterator over given streams: what is left of each, and the blurs left.\<close>

definition stream_key :: "(primitive_kind \<Rightarrow> stream) \<Rightarrow> primitive_kind \<times> nat \<Rightarrow> nat \<times> primitive_kind" where
  "stream_key S p = (fst (S (fst p) ! snd p), fst p)"

definition left :: "(primitive_kind \<Rightarrow> stream) \<Rightarrow> batch_iterator \<Rightarrow> (primitive_kind \<times> nat) set" where
  "left S it = {(k, i). bi_start it k \<le> i \<and> i < length (S k)}"

definition streams_ok :: "(primitive_kind \<Rightarrow> stream) \<Rightarrow> bool" where
  "streams_ok S \<longleftrightarrow> (\<forall>k. sorted (map fst (S k)) \<and> (\<forall>(order, _)\<in>set (S k). order < U32_MAX))"

definition iter_over :: "(primitive_kind \<Rightarrow> stream) \<Rightarrow> nat list \<Rightarrow> batch_iterator \<Rightarrow> bool" where
  "iter_over S blurs it \<longleftrightarrow> (\<forall>k. bi_start it k \<le> length (S k) \<and> bi_iter it k = drop (bi_start it k) (S k)) \<and>
     (\<forall>b\<in>set blurs. b \<in> set (bi_blurs it) \<or> (\<forall>p\<in>left S it. b \<le> fst (stream_key S p))) \<and> sorted (bi_blurs it)"

lemma stream_sorted: "streams_ok S \<Longrightarrow> i \<le> j \<Longrightarrow> j < length (S k) \<Longrightarrow> fst (S k ! i) \<le> fst (S k ! j)"
  using sorted_nth_mono [of "map fst (S k)" i j] by (simp add: streams_ok_def)

lemma stream_bound: "streams_ok S \<Longrightarrow> i < length (S k) \<Longrightarrow> fst (S k ! i) < U32_MAX"
  using nth_mem [of i "S k"] unfolding streams_ok_def by fastforce

lemma peek_Cons: "peek_order ((n, tex) # xs) = Some n"
  by (simp add: peek_order_def)

lemma head_key_left:
  assumes "streams_ok S" "iter_over S blurs it" "(k, i) \<in> left S it"
  shows "head_key it k \<le> stream_key S (k, i)"
proof -
  have i: "bi_start it k \<le> i" "i < length (S k)" using assms(3) by (simp_all add: left_def)
  have "bi_iter it k = S k ! bi_start it k # drop (Suc (bi_start it k)) (S k)"
    using assms(2) i by (simp add: iter_over_def Cons_nth_drop_Suc)
  then have "head_key it k = (fst (S k ! bi_start it k), k)"
    by (simp add: head_key_def peek_order_def order_or_max_def split: prod.splits)
  then show ?thesis using stream_sorted [OF assms(1) i] by (simp add: stream_key_def)
qed

lemma batch_facts [simp]:
  "batch_kind (make_batch k tex a b) = k" "batch_range (make_batch k tex a b) = (a, b)"
  by (cases k; simp)+

text \<open>What a batch covers.\<close>

definition batch_items :: "primitive_batch \<Rightarrow> (primitive_kind \<times> nat) list" where
  "batch_items b = map (Pair (batch_kind b)) [fst (batch_range b)..<snd (batch_range b)]"

lemma next_batch_none:
  assumes "streams_ok S" "iter_over S blurs it" "next_batch it = None"
  shows "left S it = {}"
proof -
  obtain k1 k2 rest where t: "orders_and_kinds it = (peek_order (bi_iter it k1), k1) # (peek_order (bi_iter it k2), k2) # rest"
    "\<forall>k. head_key it k1 \<le> head_key it k" using tagged_facts [of it] by blast
  have "peek_order (bi_iter it k1) = None"
    using assms(3) by (auto simp: next_batch_def Let_def t(1) peek_order_def split: option.splits list.splits prod.splits)
  then have k1: "head_key it k1 = (U32_MAX, k1)" by (simp add: head_key_def order_or_max_def)
  have False if "(k, i) \<in> left S it" for k i
  proof -
    have "i < length (S k)" using that by (simp add: left_def)
    then have "fst (S k ! i) < U32_MAX" by (rule stream_bound [OF assms(1)])
    moreover have "head_key it k1 \<le> stream_key S (k, i)"
      using t(2) head_key_left [OF assms(1,2) that] order_trans by blast
    ultimately show False unfolding k1 stream_key_def by (auto simp: less_eq_prod_def)
  qed
  then show ?thesis by auto
qed

lemma next_batch_some:
  assumes S: "streams_ok S" and it: "iter_over S blurs it" and nb: "next_batch it = Some (b, it')"
  defines "k \<equiv> batch_kind b" and "i \<equiv> fst (batch_range b)" and "j \<equiv> snd (batch_range b)"
  shows "i < j" "j \<le> length (S k)" "i = bi_start it k" "bi_start it' = (bi_start it)(k := j)" "iter_over S blurs it'"
    "p \<in> set (batch_items b) \<Longrightarrow> q \<in> left S it' \<Longrightarrow> stream_key S p \<le> stream_key S q"
    "is_sprite k \<Longrightarrow> i \<le> n \<Longrightarrow> n < j \<Longrightarrow> snd (S k ! n) = snd (S k ! i)"
    "blur \<in> set blurs \<Longrightarrow> blur \<le> fst (S k ! i) \<or> (\<forall>n\<in>{i..<j}. fst (S k ! n) < blur)"
    "b = make_batch k (snd (S k ! i)) i j"
proof -
  obtain k1 k2 rest where t: "orders_and_kinds it = (peek_order (bi_iter it k1), k1) # (peek_order (bi_iter it k2), k2) # rest"
    "k1 \<noteq> k2" "\<forall>k. head_key it k1 \<le> head_key it k" "\<forall>k. k \<noteq> k1 \<longrightarrow> head_key it k2 \<le> head_key it k"
    using tagged_facts [of it] by blast
  obtain o1 where o1: "peek_order (bi_iter it k1) = Some o1"
    using nb by (auto simp: next_batch_def Let_def t(1) split: option.splits)
  then obtain tex xs where xs: "bi_iter it k1 = (o1, tex) # xs" by (auto simp: peek_order_def split: list.splits)
  let ?a = "bi_start it k1"
  define bl where "bl = dropWhile (\<lambda>order. order \<le> o1) (bi_blurs it)"
  define limit where "limit = (case bl of [] \<Rightarrow> (order_or_max (peek_order (bi_iter it k2)), k2)
    | order # _ \<Rightarrow> min (order_or_max (peek_order (bi_iter it k2)), k2) (order, Shadow_Kind))"
  define P where "P = (\<lambda>(order, tex'). (order, k1) < limit \<and> (is_sprite k1 \<longrightarrow> tex' = tex))"
  define m where "m = length (takeWhile P xs)"
  have "next_batch it = Some (make_batch k1 tex ?a (?a + 1 + m),
      \<lparr>bi_start = (bi_start it)(k1 := ?a + 1 + m), bi_iter = (bi_iter it)(k1 := drop m xs), bi_blurs = bl\<rparr>)"
    unfolding next_batch_def m_def P_def limit_def bl_def by (simp add: t(1) o1 xs Let_def peek_Cons)
  then have res: "b = make_batch k1 tex ?a (?a + 1 + m)"
    "it' = \<lparr>bi_start = (bi_start it)(k1 := ?a + 1 + m), bi_iter = (bi_iter it)(k1 := drop m xs), bi_blurs = bl\<rparr>"
    using nb by simp_all
  have k: "k = k1" and i: "i = ?a" and j: "j = ?a + 1 + m" by (simp_all add: k_def i_def j_def res(1))
  have a: "?a \<le> length (S k1)" "drop ?a (S k1) = (o1, tex) # xs" using it xs by (auto simp: iter_over_def)
  have mlen: "m \<le> length xs" by (simp add: m_def length_takeWhile_le)
  have nth: "S k1 ! (?a + n) = ((o1, tex) # xs) ! n" if "n \<le> length xs" for n
  proof -
    have "S k1 ! (?a + n) = drop ?a (S k1) ! n" using a(1) by simp
    then show ?thesis using a(2) by simp
  qed
  have len: "length (S k1) = ?a + 1 + length xs" using arg_cong [OF a(2), of length] a(1) by simp
  have P: "P (S k1 ! n)" if "?a < n" "n < ?a + 1 + m" for n
  proof -
    have "n - ?a - 1 < m" using that by simp
    then have "P (takeWhile P xs ! (n - ?a - 1))" unfolding m_def by (metis nth_mem set_takeWhileD)
    moreover have "takeWhile P xs ! (n - ?a - 1) = xs ! (n - ?a - 1)"
      using that by (intro takeWhile_nth) (simp add: m_def)
    moreover have "S k1 ! n = xs ! (n - ?a - 1)" using nth [of "n - ?a"] that mlen by (simp add: nth_Cons')
    ultimately show ?thesis by simp
  qed
  have first: "S k1 ! ?a = (o1, tex)" using nth [of 0] by simp
  show "i < j" "i = bi_start it k" "bi_start it' = (bi_start it)(k := j)" by (simp_all add: i j k res(2))
  show jl: "j \<le> length (S k)" using len mlen by (simp add: j k)
  show "b = make_batch k (snd (S k ! i)) i j" using res(1) first by (simp add: k i j)
  show "snd (S k ! n) = snd (S k ! i)" if "is_sprite k" "i \<le> n" "n < j"
  proof (cases "n = ?a")
    case False
    with that have "P (S k1 ! n)" by (intro P) (simp_all add: i j)
    then show ?thesis using that(1) first by (simp add: P_def k i split: prod.splits)
  qed (simp add: i)
  have blur: "blur \<le> o1 \<or> (\<forall>n\<in>{i..<j}. fst (S k1 ! n) < blur)" if "blur \<in> set blurs" for blur
  proof (cases "blur \<in> set (bi_blurs it)")
    case False
    have "(k1, ?a) \<in> left S it" using len by (simp add: left_def)
    with False it that have "blur \<le> fst (stream_key S (k1, ?a))" unfolding iter_over_def by blast
    then show ?thesis by (simp add: stream_key_def first)
  next
    case True
    show ?thesis
    proof (cases "blur \<le> o1")
      case False
      then have mem: "blur \<in> set bl"
        using True unfolding bl_def by (metis takeWhile_dropWhile_id Un_iff set_append set_takeWhileD)
      then obtain b0 bs where bl: "bl = b0 # bs" by (cases bl) auto
      have "sorted bl" using it unfolding bl_def iter_over_def by (simp add: sorted_dropWhile)
      then have b0: "b0 \<le> blur" using mem unfolding bl by auto
      have "fst (S k1 ! n) < blur" if "n \<in> {i..<j}" for n
      proof (cases "n = ?a")
        case True
        then show ?thesis using False first by simp
      next
        case n: False
        have "P (S k1 ! n)" by (rule P) (use that n i j in auto)
        then have "(fst (S k1 ! n), k1) < (b0, Shadow_Kind)"
          unfolding P_def limit_def bl by (auto split: prod.splits)
        moreover have "\<not> k1 < Shadow_Kind" by (simp add: less_primitive_kind_def)
        ultimately show ?thesis using b0 by (auto simp: less_prod_def)
      qed
      then show ?thesis by blast
    qed simp
  qed
  then show "blur \<le> fst (S k ! i) \<or> (\<forall>n\<in>{i..<j}. fst (S k ! n) < blur)" if "blur \<in> set blurs" for blur
    using that first by (simp add: k i)
  have left': "q \<in> left S it" if "q \<in> left S it'" for q
    using that by (auto simp: left_def res(2) split: if_splits)
  show le: "stream_key S p \<le> stream_key S q" if "p \<in> set (batch_items b)" "q \<in> left S it'" for p q
  proof -
    have "p \<in> Pair k1 ` {i..<j}" using that(1) by (auto simp: batch_items_def res(1) i j)
    then obtain n where p: "p = (k1, n)" "i \<le> n" "n < j" by auto
    obtain k' n' where q: "q = (k', n')" by fastforce
    show ?thesis
    proof (cases "k' = k1")
      case True
      then have "j \<le> n'" "n' < length (S k1)" using that(2) by (simp_all add: q left_def res(2) j)
      then show ?thesis using stream_sorted [OF S, of n n' k1] p by (simp add: stream_key_def q True)
    next
      case False
      have ql: "(k', n') \<in> left S it" using left' that(2) q by blast
      have hq: "head_key it k' \<le> stream_key S q" using head_key_left [OF S it ql] q by simp
      show ?thesis
      proof (cases "n = ?a")
        case True
        have "stream_key S p = head_key it k1"
          by (simp add: stream_key_def p(1) True first head_key_def o1 order_or_max_def)
        then show ?thesis using t(3) hq order_trans by metis
      next
        case n: False
        have "P (S k1 ! n)" by (rule P) (use p n i j in auto)
        then have "stream_key S p < limit" by (auto simp: P_def stream_key_def p(1) split: prod.splits)
        moreover have "limit \<le> head_key it k2" by (simp add: limit_def head_key_def split: list.splits)
        moreover have "head_key it k2 \<le> head_key it k'" using t(4) False by blast
        ultimately show ?thesis using hq by order
      qed
    qed
  qed
  show "iter_over S blurs it'"
  proof -
    have "bi_iter it' q = drop (bi_start it' q) (S q) \<and> bi_start it' q \<le> length (S q)" for q
    proof (cases "q = k1")
      case True
      have "drop (?a + 1 + m) (S k1) = drop m (drop 1 (drop ?a (S k1)))" by (simp add: add.commute add.left_commute)
      then show ?thesis using a(2) jl by (simp add: res(2) True j k)
    qed (use it in \<open>simp add: iter_over_def res(2)\<close>)
    moreover have "x \<in> set bl \<or> (\<forall>p\<in>left S it'. x \<le> fst (stream_key S p))" if "x \<in> set blurs" for x
    proof (cases "x \<in> set (bi_blurs it)")
      case False
      then show ?thesis using it that left' unfolding iter_over_def by blast
    next
      case True
      show ?thesis
      proof (cases "x \<le> o1")
        case False
        then show ?thesis
          using True unfolding bl_def by (metis takeWhile_dropWhile_id Un_iff set_append set_takeWhileD)
      next
        case xo: True
        have "x \<le> fst (stream_key S q)" if "q \<in> left S it'" for q
        proof -
          have "(k1, ?a) \<in> set (batch_items b)" by (auto simp: batch_items_def res(1))
          from le [OF this that] have "o1 \<le> fst (stream_key S q)"
            by (cases "stream_key S q") (auto simp: stream_key_def first less_eq_prod_def)
          then show ?thesis using xo by simp
        qed
        then show ?thesis by blast
      qed
    qed
    moreover have "sorted bl" using it unfolding bl_def iter_over_def by (simp add: sorted_dropWhile)
    ultimately show ?thesis unfolding iter_over_def by (simp add: res(2))
  qed
qed


section \<open>All batches\<close>

definition batch_fine :: "(primitive_kind \<Rightarrow> stream) \<Rightarrow> nat list \<Rightarrow> primitive_batch \<Rightarrow> bool" where
  "batch_fine S blurs b =
     (let k = batch_kind b; i = fst (batch_range b); j = snd (batch_range b) in
      i < j \<and> j \<le> length (S k) \<and> b = make_batch k (snd (S k ! i)) i j \<and>
      (is_sprite k \<longrightarrow> (\<forall>n\<in>{i..<j}. snd (S k ! n) = snd (S k ! i))) \<and>
      (\<forall>blur\<in>set blurs. blur \<le> fst (S k ! i) \<or> (\<forall>n\<in>{i..<j}. fst (S k ! n) < blur)))"

lemma filter_kind_items:
  "filter (\<lambda>p. fst p = k) (batch_items b) = (if batch_kind b = k then batch_items b else [])"
  by (auto simp: batch_items_def filter_map comp_def)

lemma left_items:
  "(\<And>k. filter (\<lambda>p. fst p = k) xs = map (Pair k) [bi_start it k..<length (S k)]) \<Longrightarrow> set xs = left S it"
proof (rule set_eqI)
  fix p :: "primitive_kind \<times> nat"
  assume "\<And>k. filter (\<lambda>p. fst p = k) xs = map (Pair k) [bi_start it k..<length (S k)]"
  from arg_cong [OF this [of "fst p"], of set]
  have "{q \<in> set xs. fst q = fst p} = Pair (fst p) ` {bi_start it (fst p)..<length (S (fst p))}" by simp
  moreover have "p \<in> set xs \<longleftrightarrow> p \<in> {q \<in> set xs. fst q = fst p}" by simp
  ultimately show "p \<in> set xs \<longleftrightarrow> p \<in> left S it" by (cases p) (auto simp: left_def)
qed

lemma batches_from_correct:
  assumes S: "streams_ok S"
  shows "iter_over S blurs it \<Longrightarrow>
    (\<forall>k. filter (\<lambda>p. fst p = k) (concat (map batch_items (batches_from it))) = map (Pair k) [bi_start it k..<length (S k)]) \<and>
    sorted (map (stream_key S) (concat (map batch_items (batches_from it)))) \<and> list_all (batch_fine S blurs) (batches_from it)"
proof (induction it rule: batches_from.induct)
  case (1 it)
  show ?case
  proof (cases "next_batch it")
    case None
    then have "left S it = {}" using next_batch_none [OF S 1(2)] by blast
    then have "length (S k) \<le> bi_start it k" for k unfolding left_def by (auto simp: not_less [symmetric])
    moreover have "batches_from it = []" using None by (simp add: batches_from.simps [of it])
    ultimately show ?thesis by simp
  next
    case (Some r)
    obtain b it' where r: "r = (b, it')" by fastforce
    note step = next_batch_some [OF S 1(2) Some [unfolded r]]
    define xs where "xs = concat (map batch_items (batches_from it'))"
    have bf: "batches_from it = b # batches_from it'" using Some r by (simp add: batches_from.simps [of it])
    have IH: "\<And>k. filter (\<lambda>p. fst p = k) xs = map (Pair k) [bi_start it' k..<length (S k)]"
      "sorted (map (stream_key S) xs)" "list_all (batch_fine S blurs) (batches_from it')"
      using 1(1) [OF Some [unfolded r] refl step(5)] by (simp_all add: xs_def)
    have "filter (\<lambda>p. fst p = k) (batch_items b @ xs) = map (Pair k) [bi_start it k..<length (S k)]" for k
    proof (cases "batch_kind b = k")
      case True
      have "[fst (batch_range b)..<snd (batch_range b)] @ [snd (batch_range b)..<length (S k)] =
          [fst (batch_range b)..<length (S k)]"
        using step(1,2) upt_add_eq_append [of "fst (batch_range b)" "snd (batch_range b)" "length (S k) - snd (batch_range b)"]
        by (simp add: True)
      then show ?thesis using step(3,4) IH(1) True
        by (simp add: filter_kind_items) (simp add: batch_items_def flip: map_append)
    next
      case False
      then show ?thesis using step(4) IH(1) by (simp add: filter_kind_items)
    qed
    moreover have "sorted (map (stream_key S) (batch_items b))"
    proof -
      have "stream_key S (batch_kind b, m) \<le> stream_key S (batch_kind b, n)" if "m \<le> n" "n < snd (batch_range b)" for m n
        using stream_sorted [OF S, of m n "batch_kind b"] that step(2) by (simp add: stream_key_def)
      then show ?thesis by (auto simp: batch_items_def sorted_iff_nth_mono)
    qed
    moreover have "\<forall>p\<in>set (batch_items b). \<forall>q\<in>set xs. stream_key S p \<le> stream_key S q"
      using step(6) left_items [of xs it' S] IH(1) by blast
    ultimately have "sorted (map (stream_key S) (batch_items b @ xs))"
      "\<forall>k. filter (\<lambda>p. fst p = k) (batch_items b @ xs) = map (Pair k) [bi_start it k..<length (S k)]"
      using IH(2) by (auto simp: sorted_append)
    moreover have "batch_fine S blurs b"
      unfolding batch_fine_def Let_def using step(1,2,7-9) by (meson atLeastLessThan_iff)
    moreover have "concat (map batch_items (batches_from it)) = batch_items b @ xs" by (simp add: bf xs_def)
    ultimately show ?thesis using IH(3) unfolding bf by simp
  qed
qed

text \<open>The painting sequence is the stable sort of all primitives by order, then kind.\<close>

definition all_primitives :: "(primitive_kind \<Rightarrow> stream) \<Rightarrow> (primitive_kind \<times> nat) list" where
  "all_primitives S = concat (map (\<lambda>k. map (Pair k) [0..<length (S k)]) all_kinds)"

lemma filter_all_primitives: "filter (\<lambda>p. fst p = k) (all_primitives S) = map (Pair k) [0..<length (S k)]"
  by (cases k) (simp_all add: all_primitives_def all_kinds_def filter_map comp_def)

lemma sort_by_kinds:
  assumes kinds: "\<And>k. filter (\<lambda>p. fst p = k) ys = filter (\<lambda>p. fst p = k) xs" and sorted: "sorted (map (stream_key S) ys)"
  shows "sort_key (stream_key S) xs = ys"
proof (rule properties_for_sort_key)
  have f: "filter P zs = filter P (filter (\<lambda>p. fst p = fst q) zs)"
    if "\<And>p. P p \<Longrightarrow> fst p = fst q" for P and q :: "primitive_kind \<times> nat" and zs :: "(primitive_kind \<times> nat) list"
    using that by (auto intro: filter_cong)
  have same: "filter P ys = filter P xs" if "\<And>p. P p \<Longrightarrow> fst p = fst q" for P and q :: "primitive_kind \<times> nat"
    using f [of P q, OF that] kinds [of "fst q"] by metis
  show "filter (\<lambda>x. stream_key S q = stream_key S x) ys = filter (\<lambda>x. stream_key S q = stream_key S x) xs" for q
    by (rule same [of _ q]) (simp add: stream_key_def)
  have "count (mset ys) q = count (mset xs) q" for q
    using arg_cong [OF same [of "(=) q" q], of length] by (simp add: count_mset count_list_eq_length_filter)
  then show "mset ys = mset xs" by (simp add: multiset_eq_iff)
qed (rule sorted)

lemma batches_correct:
  assumes "streams_ok (kind_stream sc)" "sorted (map s_order (backdrop_blurs sc))"
  shows "concat (map batch_items (batches sc)) = sort_key (stream_key (kind_stream sc)) (all_primitives (kind_stream sc))"
    "list_all (batch_fine (kind_stream sc) (map s_order (backdrop_blurs sc))) (batches sc)"
proof -
  have "iter_over (kind_stream sc) (map s_order (backdrop_blurs sc)) (batches_start sc)"
    using assms(2) by (simp add: iter_over_def batches_start_def)
  note c = batches_from_correct [OF assms(1) this, folded batches_def]
  show "list_all (batch_fine (kind_stream sc) (map s_order (backdrop_blurs sc))) (batches sc)" using c by blast
  show "concat (map batch_items (batches sc)) = sort_key (stream_key (kind_stream sc)) (all_primitives (kind_stream sc))"
    using c by (intro sort_by_kinds [symmetric]) (simp_all add: filter_all_primitives batches_start_def)
qed

end
