(* ===== verification/Scene_Build.thy ===== *)
theory Scene_Build
  imports Scene_Correct
begin

text \<open>
  A scene as it is built: the orders its operations get, against a specification that scans all
  rectangles, the primitives stored against the operations recorded, and replaying.
\<close>

section \<open>What an operation records\<close>

fun op_rect :: "('u::linordered_ab_group_add, 'd) paint_operation \<Rightarrow> 'u bounds option" where
  "op_rect (Paint_Primitive p) = Some (bounds_intersect (prim_bounds p) (prim_content_mask p))"
| "op_rect (Paint_Backdrop_Blur blur) = Some (bounds_intersect (s_bounds blur) (s_mask blur))"
| "op_rect (Start_Layer b) = None"
| "op_rect End_Layer = None"

fun op_order :: "('u, 'd) paint_operation \<Rightarrow> nat" where
  "op_order (Paint_Primitive p) = s_order (prim_shape p)"
| "op_order (Paint_Backdrop_Blur blur) = s_order blur"
| "op_order (Start_Layer b) = 0"
| "op_order End_Layer = 0"

definition recorded :: "('u::linordered_ab_group_add, 'd) paint_operation \<Rightarrow> bool" where
  "recorded operation = (case op_rect operation of None \<Rightarrow> True | Some r \<Rightarrow> \<not> bounds_is_empty r)"

text \<open>An operation without what the scene assigns: the order, and the number of a path.\<close>

fun erase_prim :: "('u, 'd) primitive \<Rightarrow> ('u, 'd) primitive" where
  "erase_prim (Shadow s) = Shadow (s\<lparr>s_order := 0\<rparr>)"
| "erase_prim (Quad s) = Quad (s\<lparr>s_order := 0\<rparr>)"
| "erase_prim (Path_Primitive _ s) = Path_Primitive 0 (s\<lparr>s_order := 0\<rparr>)"
| "erase_prim (Underline s) = Underline (s\<lparr>s_order := 0\<rparr>)"
| "erase_prim (Monochrome_Sprite tile s) = Monochrome_Sprite tile (s\<lparr>s_order := 0\<rparr>)"
| "erase_prim (Subpixel_Sprite tile s) = Subpixel_Sprite tile (s\<lparr>s_order := 0\<rparr>)"
| "erase_prim (Polychrome_Sprite tile s) = Polychrome_Sprite tile (s\<lparr>s_order := 0\<rparr>)"
| "erase_prim (Surface s) = Surface (s\<lparr>s_order := 0\<rparr>)"

fun erase_op :: "('u, 'd) paint_operation \<Rightarrow> ('u, 'd) paint_operation" where
  "erase_op (Paint_Primitive p) = Paint_Primitive (erase_prim p)"
| "erase_op (Paint_Backdrop_Blur blur) = Paint_Backdrop_Blur (blur\<lparr>s_order := 0\<rparr>)"
| "erase_op (Start_Layer b) = Start_Layer b"
| "erase_op End_Layer = End_Layer"

text \<open>What a recorded primitive adds to the elements of its kind.\<close>

fun prim_entry :: "('u, 'd) primitive \<Rightarrow> primitive_kind \<times> nat \<times> atlas_texture_id option" where
  "prim_entry (Shadow s) = (Shadow_Kind, s_order s, None)"
| "prim_entry (Quad s) = (Quad_Kind, s_order s, None)"
| "prim_entry (Path_Primitive _ s) = (Path_Kind, s_order s, None)"
| "prim_entry (Underline s) = (Underline_Kind, s_order s, None)"
| "prim_entry (Monochrome_Sprite tile s) = (Monochrome_Kind, s_order s, Some (texture_id tile))"
| "prim_entry (Subpixel_Sprite tile s) = (Subpixel_Kind, s_order s, Some (texture_id tile))"
| "prim_entry (Polychrome_Sprite tile s) = (Polychrome_Kind, s_order s, Some (texture_id tile))"
| "prim_entry (Surface s) = (Surface_Kind, s_order s, None)"

fun op_entries :: "('u, 'd) paint_operation \<Rightarrow> (primitive_kind \<times> nat \<times> atlas_texture_id option) list" where
  "op_entries (Paint_Primitive p) = [prim_entry p]"
| "op_entries _ = []"

fun op_blurs :: "('u, 'd) paint_operation \<Rightarrow> nat list" where
  "op_blurs (Paint_Backdrop_Blur blur) = [s_order blur]"
| "op_blurs _ = []"

definition entries_of :: "primitive_kind \<Rightarrow> ('u, 'd) paint_operation list \<Rightarrow> stream" where
  "entries_of k ops = map snd (filter (\<lambda>e. fst e = k) (concat (map op_entries ops)))"

definition stored :: "('u, 'd) scene \<Rightarrow> bool" where
  "stored sc \<longleftrightarrow> (\<forall>k. kind_stream sc k = entries_of k (paint_operations sc)) \<and>
     map s_order (backdrop_blurs sc) = concat (map op_blurs (paint_operations sc))"

lemma store_primitive_facts:
  assumes "store_primitive order p sc = (p', sc')"
  shows "s_order (prim_shape p') = order" "prim_bounds p' = prim_bounds p" "prim_content_mask p' = prim_content_mask p"
    "erase_prim p' = erase_prim p" "paint_operations sc' = paint_operations sc" "layer_stack sc' = layer_stack sc"
    "primitive_bounds sc' = primitive_bounds sc" "backdrop_blurs sc' = backdrop_blurs sc"
    "kind_stream sc' k = kind_stream sc k @ (if fst (prim_entry p') = k then [snd (prim_entry p')] else [])"
    "store_primitive order p' sc = (p', sc')"
proof -
  have "s_order (prim_shape p') = order \<and> prim_bounds p' = prim_bounds p \<and> prim_content_mask p' = prim_content_mask p \<and>
    erase_prim p' = erase_prim p \<and> paint_operations sc' = paint_operations sc \<and> layer_stack sc' = layer_stack sc \<and>
    primitive_bounds sc' = primitive_bounds sc \<and> backdrop_blurs sc' = backdrop_blurs sc \<and>
    store_primitive order p' sc = (p', sc')"
    using assms by (cases p) (auto simp: Let_def prim_bounds_def prim_content_mask_def)
  then show "s_order (prim_shape p') = order" "prim_bounds p' = prim_bounds p" "prim_content_mask p' = prim_content_mask p"
    "erase_prim p' = erase_prim p" "paint_operations sc' = paint_operations sc" "layer_stack sc' = layer_stack sc"
    "primitive_bounds sc' = primitive_bounds sc" "backdrop_blurs sc' = backdrop_blurs sc"
    "store_primitive order p' sc = (p', sc')" by blast+
  show "kind_stream sc' k = kind_stream sc k @ (if fst (prim_entry p') = k then [snd (prim_entry p')] else [])"
    using assms by (cases p; cases k) (auto simp: Let_def shape_stream_def sprite_stream_def)
qed

lemma kind_stream_update [simp]:
  "kind_stream (sc\<lparr>paint_operations := ops\<rparr>) k = kind_stream sc k"
  "kind_stream (sc\<lparr>primitive_bounds := t\<rparr>) k = kind_stream sc k"
  "kind_stream (sc\<lparr>layer_stack := stack\<rparr>) k = kind_stream sc k"
  "kind_stream (sc\<lparr>backdrop_blurs := bs\<rparr>) k = kind_stream sc k"
  by (cases k; simp)+

lemma entries_snoc:
  "entries_of k (ops @ [operation]) = entries_of k ops @ map snd (filter (\<lambda>e. fst e = k) (op_entries operation))"
  by (simp add: entries_of_def)

section \<open>The orders, specified\<close>

type_synonym 'u regions = "('u bounds \<times> nat) list"

fun spec_step :: "('u::linordered_ab_group_add, 'd) paint_operation \<Rightarrow> 'u regions \<times> nat list \<Rightarrow> ('u regions \<times> nat list) \<times> nat list" where
  "spec_step (Start_Layer b) (ls, stack) = ((ls @ [(b, next_order ls b)], stack @ [next_order ls b]), [0])"
| "spec_step End_Layer (ls, stack) = ((ls, butlast stack), [0])"
| "spec_step operation (ls, stack) =
     (case op_rect operation of
        None \<Rightarrow> ((ls, stack), [])
      | Some r \<Rightarrow>
          if bounds_is_empty r then ((ls, stack), [])
          else if stack \<noteq> [] then ((ls, stack), [last stack])
          else ((ls @ [(r, next_order ls r)], stack), [next_order ls r]))"

fun spec_orders_of :: "'u regions \<times> nat list \<Rightarrow> ('u::linordered_ab_group_add, 'd) paint_operation list \<Rightarrow> nat list" where
  "spec_orders_of s [] = []"
| "spec_orders_of s (operation # ops) = snd (spec_step operation s) @ spec_orders_of (fst (spec_step operation s)) ops"

fun spec_state :: "'u regions \<times> nat list \<Rightarrow> ('u::linordered_ab_group_add, 'd) paint_operation list \<Rightarrow> 'u regions \<times> nat list" where
  "spec_state s [] = s"
| "spec_state s (operation # ops) = spec_state (fst (spec_step operation s)) ops"

definition scene_abs :: "('u, 'd) scene \<Rightarrow> 'u regions \<times> nat list" where
  "scene_abs sc = (leaves (primitive_bounds sc), layer_stack sc)"

definition scene_ok :: "('u::linordered_ab_group_add, 'd) scene \<Rightarrow> bool" where
  "scene_ok sc \<longleftrightarrow> bt_ok (primitive_bounds sc) \<and> orders_bounded (leaves (primitive_bounds sc)) \<and> stored sc \<and>
     (\<forall>order\<in>set (layer_stack sc). order \<le> length (leaves (primitive_bounds sc))) \<and>
     (\<forall>operation\<in>set (paint_operations sc). op_order operation \<le> length (leaves (primitive_bounds sc)))"

lemma kind_stream_default [simp]: "kind_stream scene_default k = []"
  by (cases k) (simp_all add: scene_default_def shape_stream_def sprite_stream_def)

lemma scene_default_ok: "scene_ok scene_default" "scene_abs scene_default = ([], [])"
  by (simp_all add: scene_ok_def scene_abs_def stored_def entries_of_def)
    (simp_all add: scene_default_def bt_default_ok orders_bounded_def)

text \<open>One operation keeps the invariant and does what the specification says.\<close>

definition step_refines :: "('u::linordered_ab_group_add, 'd) paint_operation \<Rightarrow> ('u, 'd) scene \<Rightarrow> ('u, 'd) scene \<Rightarrow> bool" where
  "step_refines operation sc sc' \<longleftrightarrow> scene_ok sc' \<and> scene_abs sc' = fst (spec_step operation (scene_abs sc)) \<and>
     length (leaves (primitive_bounds sc')) \<le> Suc (length (leaves (primitive_bounds sc))) \<and>
     map op_order (paint_operations sc') = map op_order (paint_operations sc) @ snd (spec_step operation (scene_abs sc)) \<and>
     map erase_op (paint_operations sc') =
       map erase_op (paint_operations sc) @ (if recorded operation then [erase_op operation] else [])"

lemma insert_region:
  assumes "scene_ok sc" "Suc (length (leaves (primitive_bounds sc))) < 2 ^ 32"
  shows "\<exists>t'. bt_insert (primitive_bounds sc) r = Some (t', next_order (leaves (primitive_bounds sc)) r) \<and> bt_ok t' \<and>
    leaves t' = leaves (primitive_bounds sc) @ [(r, next_order (leaves (primitive_bounds sc)) r)] \<and>
    orders_bounded (leaves t') \<and> next_order (leaves (primitive_bounds sc)) r \<le> length (leaves t')"
proof -
  have ok: "bt_ok (primitive_bounds sc)" "orders_bounded (leaves (primitive_bounds sc))"
    using assms(1) by (simp_all add: scene_ok_def)
  have "next_order (leaves (primitive_bounds sc)) r < 2 ^ 32"
    using next_order_bound [OF ok(2), of r] assms(2) by simp
  from bt_insert_ok [OF ok(1) this] show ?thesis
    using orders_bounded_snoc [OF ok(2), of r] next_order_bound [OF ok(2), of r] by auto
qed

text \<open>The order for a painted region, and the tree and layers after it.\<close>

lemma draw_order_ok:
  assumes "scene_ok sc" "Suc (length (leaves (primitive_bounds sc))) < 2 ^ 32"
  shows "\<exists>t order. draw_order r sc = Some (order, sc\<lparr>primitive_bounds := t\<rparr>) \<and> bt_ok t \<and> orders_bounded (leaves t) \<and>
    order \<le> length (leaves t) \<and> length (leaves (primitive_bounds sc)) \<le> length (leaves t) \<and>
    length (leaves t) \<le> Suc (length (leaves (primitive_bounds sc))) \<and>
    (leaves t, order) = (if layer_stack sc \<noteq> [] then (leaves (primitive_bounds sc), last (layer_stack sc))
      else (leaves (primitive_bounds sc) @ [(r, next_order (leaves (primitive_bounds sc)) r)],
        next_order (leaves (primitive_bounds sc)) r))"
proof (cases "layer_stack sc = []")
  case True
  from insert_region [OF assms, of r] obtain t where t:
    "bt_insert (primitive_bounds sc) r = Some (t, next_order (leaves (primitive_bounds sc)) r)" "bt_ok t"
    "leaves t = leaves (primitive_bounds sc) @ [(r, next_order (leaves (primitive_bounds sc)) r)]"
    "orders_bounded (leaves t)" "next_order (leaves (primitive_bounds sc)) r \<le> length (leaves t)" by blast
  show ?thesis
    by (rule exI [of _ t], rule exI [of _ "next_order (leaves (primitive_bounds sc)) r"])
      (use t True in \<open>simp add: draw_order_def\<close>)
next
  case False
  have "sc\<lparr>primitive_bounds := primitive_bounds sc\<rparr> = sc" by simp
  then show ?thesis
    using assms(1) False
    by (intro exI [of _ "primitive_bounds sc"] exI [of _ "last (layer_stack sc)"]) (simp add: draw_order_def scene_ok_def)
qed

lemma push_layer_refines:
  assumes "scene_ok sc" "Suc (length (leaves (primitive_bounds sc))) < 2 ^ 32"
  shows "\<exists>sc'. push_layer b sc = Some sc' \<and> step_refines (Start_Layer b) sc sc'"
proof -
  from insert_region [OF assms, of b] obtain t where t:
    "bt_insert (primitive_bounds sc) b = Some (t, next_order (leaves (primitive_bounds sc)) b)" "bt_ok t"
    "leaves t = leaves (primitive_bounds sc) @ [(b, next_order (leaves (primitive_bounds sc)) b)]"
    "orders_bounded (leaves t)" "next_order (leaves (primitive_bounds sc)) b \<le> length (leaves t)" by blast
  show ?thesis
    using assms(1) t
    by (auto simp: push_layer_def step_refines_def scene_ok_def scene_abs_def stored_def entries_snoc recorded_def
        intro: le_SucI)
qed

lemma pop_layer_refines: "scene_ok sc \<Longrightarrow> step_refines End_Layer sc (pop_layer sc)"
  by (auto simp: pop_layer_def step_refines_def scene_ok_def scene_abs_def stored_def entries_snoc recorded_def
      dest: in_set_butlastD)

lemma insert_primitive_refines:
  assumes "scene_ok sc" "Suc (length (leaves (primitive_bounds sc))) < 2 ^ 32"
  shows "\<exists>sc'. insert_primitive p sc = Some sc' \<and> step_refines (Paint_Primitive p) sc sc'"
proof -
  let ?r = "bounds_intersect (prim_bounds p) (prim_content_mask p)"
  show ?thesis
  proof (cases "bounds_is_empty ?r")
    case True
    then show ?thesis
      using assms(1) by (simp add: insert_primitive_def step_refines_def recorded_def scene_abs_def)
  next
    case False
    from draw_order_ok [OF assms, of ?r] obtain t order where d:
      "draw_order ?r sc = Some (order, sc\<lparr>primitive_bounds := t\<rparr>)" "bt_ok t" "orders_bounded (leaves t)"
      "order \<le> length (leaves t)" "length (leaves (primitive_bounds sc)) \<le> length (leaves t)"
      "length (leaves t) \<le> Suc (length (leaves (primitive_bounds sc)))"
      "(leaves t, order) = (if layer_stack sc \<noteq> [] then (leaves (primitive_bounds sc), last (layer_stack sc))
        else (leaves (primitive_bounds sc) @ [(?r, next_order (leaves (primitive_bounds sc)) ?r)],
          next_order (leaves (primitive_bounds sc)) ?r))" by blast
    obtain p' sc' where st: "store_primitive order p (sc\<lparr>primitive_bounds := t\<rparr>) = (p', sc')" by fastforce
    note f = store_primitive_facts [OF st]
    let ?sc = "sc'\<lparr>paint_operations := paint_operations sc' @ [Paint_Primitive p']\<rparr>"
    have ins: "insert_primitive p sc = Some ?sc" using False d(1) st by (simp add: insert_primitive_def)
    have "stored ?sc" using assms(1) f by (simp add: stored_def scene_ok_def entries_snoc)
    then have "scene_ok ?sc"
      using assms(1) d(2-5) f(1,5-7) order_trans [OF _ d(5)] by (auto simp: scene_ok_def)
    moreover have "spec_step (Paint_Primitive p) (scene_abs sc) = ((leaves t, layer_stack sc), [order])"
      using False d(7) by (auto simp: scene_abs_def split: if_splits)
    ultimately show ?thesis
      using ins d(6) f False by (simp add: step_refines_def recorded_def scene_abs_def)
  qed
qed

lemma insert_blur_refines:
  assumes "scene_ok sc" "Suc (length (leaves (primitive_bounds sc))) < 2 ^ 32"
  shows "\<exists>sc'. insert_backdrop_blur blur sc = Some sc' \<and> step_refines (Paint_Backdrop_Blur blur) sc sc'"
proof -
  let ?r = "bounds_intersect (s_bounds blur) (s_mask blur)"
  show ?thesis
  proof (cases "bounds_is_empty ?r")
    case True
    then show ?thesis
      using assms(1) by (simp add: insert_backdrop_blur_def step_refines_def recorded_def scene_abs_def)
  next
    case False
    from draw_order_ok [OF assms, of ?r] obtain t order where d:
      "draw_order ?r sc = Some (order, sc\<lparr>primitive_bounds := t\<rparr>)" "bt_ok t" "orders_bounded (leaves t)"
      "order \<le> length (leaves t)" "length (leaves (primitive_bounds sc)) \<le> length (leaves t)"
      "length (leaves t) \<le> Suc (length (leaves (primitive_bounds sc)))"
      "(leaves t, order) = (if layer_stack sc \<noteq> [] then (leaves (primitive_bounds sc), last (layer_stack sc))
        else (leaves (primitive_bounds sc) @ [(?r, next_order (leaves (primitive_bounds sc)) ?r)],
          next_order (leaves (primitive_bounds sc)) ?r))" by blast
    let ?b = "blur\<lparr>s_order := order\<rparr>"
    let ?sc = "sc\<lparr>primitive_bounds := t, backdrop_blurs := backdrop_blurs sc @ [?b],
      paint_operations := paint_operations sc @ [Paint_Backdrop_Blur ?b]\<rparr>"
    have ins: "insert_backdrop_blur blur sc = Some ?sc" using False d(1) by (simp add: insert_backdrop_blur_def Let_def)
    have "stored ?sc" using assms(1) by (simp add: stored_def scene_ok_def entries_snoc)
    then have "scene_ok ?sc"
      using assms(1) d(2-5) order_trans [OF _ d(5)] by (auto simp: scene_ok_def)
    moreover have "spec_step (Paint_Backdrop_Blur blur) (scene_abs sc) = ((leaves t, layer_stack sc), [order])"
      using False d(7) by (auto simp: scene_abs_def split: if_splits)
    ultimately show ?thesis using ins d(6) False by (simp add: step_refines_def recorded_def scene_abs_def)
  qed
qed

lemma replay_operation_refines:
  assumes "scene_ok sc" "Suc (length (leaves (primitive_bounds sc))) < 2 ^ 32"
  shows "\<exists>sc'. replay_operation operation sc = Some sc' \<and> step_refines operation sc sc'"
  using push_layer_refines [OF assms] pop_layer_refines [OF assms(1)] insert_primitive_refines [OF assms]
    insert_blur_refines [OF assms] by (cases operation) auto

lemma replay_operations_refines:
  "scene_ok sc \<Longrightarrow> length (leaves (primitive_bounds sc)) + length ops < 2 ^ 32 \<Longrightarrow>
   \<exists>sc'. replay_operations ops sc = Some sc' \<and> scene_ok sc' \<and> scene_abs sc' = spec_state (scene_abs sc) ops \<and>
     length (leaves (primitive_bounds sc')) \<le> length (leaves (primitive_bounds sc)) + length ops \<and>
     map op_order (paint_operations sc') = map op_order (paint_operations sc) @ spec_orders_of (scene_abs sc) ops \<and>
     map erase_op (paint_operations sc') = map erase_op (paint_operations sc) @ map erase_op (filter recorded ops)"
proof (induction ops arbitrary: sc)
  case (Cons operation ops)
  obtain sc1 where sc1: "replay_operation operation sc = Some sc1" "step_refines operation sc sc1"
    using replay_operation_refines [OF Cons.prems(1)] Cons.prems(2) by auto
  then have "scene_ok sc1" "length (leaves (primitive_bounds sc1)) + length ops < 2 ^ 32"
    using Cons.prems(2) by (auto simp: step_refines_def)
  from Cons.IH [OF this] sc1 show ?case by (auto simp: step_refines_def)
qed simp

text \<open>What is replayed from a scene's own operations: each stores what it recorded.\<close>

lemma replay_recorded:
  assumes "replay_operation operation sc = Some sc'"
  shows "sc' = sc \<or> (\<exists>operation'. paint_operations sc' = paint_operations sc @ [operation'] \<and>
    replay_operation operation' sc = Some sc')"
proof (cases operation)
  case (Paint_Primitive p)
  let ?r = "bounds_intersect (prim_bounds p) (prim_content_mask p)"
  show ?thesis
  proof (cases "bounds_is_empty ?r")
    case True
    then show ?thesis using assms Paint_Primitive by (simp add: insert_primitive_def)
  next
    case False
    then obtain order sc1 where o: "draw_order ?r sc = Some (order, sc1)"
      using assms Paint_Primitive by (auto simp: insert_primitive_def bind_eq_Some_conv)
    obtain p' sc2 where st: "store_primitive order p sc1 = (p', sc2)" by fastforce
    have "sc' = sc2\<lparr>paint_operations := paint_operations sc2 @ [Paint_Primitive p']\<rparr>"
      using assms Paint_Primitive o st False by (simp add: insert_primitive_def)
    note d = o st this
    note f = store_primitive_facts [OF d(2)]
    have "paint_operations sc1 = paint_operations sc"
      using d(1) by (auto simp: draw_order_def bind_eq_Some_conv split: if_splits)
    moreover have "replay_operation (Paint_Primitive p') sc = Some sc'"
      using d(1,3) f False by (simp add: insert_primitive_def)
    ultimately show ?thesis using d(3) f(5) by auto
  qed
next
  case (Paint_Backdrop_Blur blur)
  let ?r = "bounds_intersect (s_bounds blur) (s_mask blur)"
  show ?thesis
  proof (cases "bounds_is_empty ?r")
    case True
    then show ?thesis using assms Paint_Backdrop_Blur by (simp add: insert_backdrop_blur_def)
  next
    case False
    then obtain order sc1 where d: "draw_order ?r sc = Some (order, sc1)"
      "sc' = sc1\<lparr>backdrop_blurs := backdrop_blurs sc1 @ [blur\<lparr>s_order := order\<rparr>],
        paint_operations := paint_operations sc1 @ [Paint_Backdrop_Blur (blur\<lparr>s_order := order\<rparr>)]\<rparr>"
      using assms Paint_Backdrop_Blur by (auto simp: insert_backdrop_blur_def bind_eq_Some_conv Let_def)
    have "paint_operations sc1 = paint_operations sc"
      using d(1) by (auto simp: draw_order_def bind_eq_Some_conv split: if_splits)
    moreover have "replay_operation (Paint_Backdrop_Blur (blur\<lparr>s_order := order\<rparr>)) sc = Some sc'"
      using d False by (simp add: insert_backdrop_blur_def Let_def)
    ultimately show ?thesis using d(2) by auto
  qed
next
  case (Start_Layer b)
  then show ?thesis using assms by (auto simp: push_layer_def bind_eq_Some_conv)
next
  case End_Layer
  then show ?thesis using assms by (auto simp: pop_layer_def)
qed

lemma replay_operations_append:
  "replay_operations (xs @ ys) sc = replay_operations xs sc \<bind> replay_operations ys"
  by (induction xs arbitrary: sc) (simp_all split: bind_splits)

lemma replay_own_operations:
  "replay_operations ops scene_default = Some sc \<Longrightarrow> replay_operations (paint_operations sc) scene_default = Some sc"
proof (induction ops arbitrary: sc rule: rev_induct)
  case Nil
  then show ?case by (auto simp: scene_default_def)
next
  case (snoc operation ops)
  then obtain sc1 where sc1: "replay_operations ops scene_default = Some sc1" "replay_operation operation sc1 = Some sc"
    by (auto simp: replay_operations_append bind_eq_Some_conv)
  from snoc.IH [OF sc1(1)] replay_recorded [OF sc1(2)] show ?case
    by (auto simp: replay_operations_append)
qed

lemma replay_one:
  assumes "replay_operation operation sc = Some sc'" "replay_operations ops sc0 = Some sc"
  shows "\<exists>ops. replay_operations ops sc0 = Some sc'"
  using assms by (intro exI [of _ "ops @ [operation]"]) (simp add: replay_operations_append)

text \<open>
  The scenes a window draws: by the calls of the elements, and by reusing a range of an earlier
  scene that is finished.
\<close>

inductive scene_built :: "('u::linordered_ab_group_add, 'd) scene \<Rightarrow> bool" where
  Empty_Scene: "scene_built scene_default"
| Insert_Primitive: "scene_built sc \<Longrightarrow> insert_primitive p sc = Some sc' \<Longrightarrow> scene_built sc'"
| Insert_Blur: "scene_built sc \<Longrightarrow> insert_backdrop_blur blur sc = Some sc' \<Longrightarrow> scene_built sc'"
| Push_Layer: "scene_built sc \<Longrightarrow> push_layer b sc = Some sc' \<Longrightarrow> scene_built sc'"
| Pop_Layer: "scene_built sc \<Longrightarrow> scene_built (pop_layer sc)"
| Reuse_Range: "scene_built prev \<Longrightarrow> scene_built sc \<Longrightarrow> scene_replay i j (finish prev) sc = Some sc' \<Longrightarrow>
    scene_built sc'"

lemma built_replays: "scene_built sc \<Longrightarrow> \<exists>ops. replay_operations ops scene_default = Some sc"
proof (induction rule: scene_built.induct)
  case Empty_Scene
  show ?case by (rule exI [of _ "[]"]) simp
next
  case (Reuse_Range prev sc i j sc')
  then obtain ops where "replay_operations ops scene_default = Some sc" by blast
  then have "replay_operations (ops @ drop i (take j (paint_operations (finish prev)))) scene_default = Some sc'"
    using Reuse_Range.hyps(3) by (simp add: scene_replay_def replay_operations_append split: if_splits)
  then show ?case by blast
next
  case (Insert_Primitive sc p sc')
  then show ?case using replay_one [of "Paint_Primitive p" sc sc'] by auto
next
  case (Insert_Blur sc blur sc')
  then show ?case using replay_one [of "Paint_Backdrop_Blur blur" sc sc'] by auto
next
  case (Push_Layer sc b sc')
  then show ?case using replay_one [of "Start_Layer b" sc sc'] by auto
next
  case (Pop_Layer sc)
  then show ?case using replay_one [of End_Layer sc "pop_layer sc"] by auto
qed

lemma replayed_built: "scene_built sc \<Longrightarrow> replay_operations ops sc = Some sc' \<Longrightarrow> scene_built sc'"
proof (induction ops arbitrary: sc)
  case (Cons operation ops)
  then obtain sc1 where sc1: "replay_operation operation sc = Some sc1" "replay_operations ops sc1 = Some sc'"
    by (auto simp: bind_eq_Some_conv)
  have "scene_built sc1"
    using sc1(1) Cons.prems(1) by (cases operation) (auto intro: scene_built.intros)
  then show ?case using Cons.IH sc1(2) by blast
qed simp

text \<open>What a scene records is not clipped away, so replaying records it again, but for order and path number.\<close>

lemma replay_records:
  assumes "replay_operation operation sc = Some sc'"
  shows "paint_operations sc' = paint_operations sc \<and> \<not> recorded operation \<or>
    (\<exists>operation'. paint_operations sc' = paint_operations sc @ [operation'] \<and> recorded operation \<and>
      recorded operation' \<and> erase_op operation' = erase_op operation)"
proof (cases operation)
  case (Paint_Primitive p)
  let ?r = "bounds_intersect (prim_bounds p) (prim_content_mask p)"
  show ?thesis
  proof (cases "bounds_is_empty ?r")
    case True
    then show ?thesis using assms Paint_Primitive by (simp add: insert_primitive_def recorded_def)
  next
    case False
    then obtain order sc1 where o: "draw_order ?r sc = Some (order, sc1)"
      using assms Paint_Primitive by (auto simp: insert_primitive_def bind_eq_Some_conv)
    obtain p' sc2 where st: "store_primitive order p sc1 = (p', sc2)" by fastforce
    have sc': "sc' = sc2\<lparr>paint_operations := paint_operations sc2 @ [Paint_Primitive p']\<rparr>"
      using assms Paint_Primitive o st False by (simp add: insert_primitive_def)
    have "paint_operations sc1 = paint_operations sc"
      using o by (auto simp: draw_order_def bind_eq_Some_conv split: if_splits)
    then show ?thesis
      using False Paint_Primitive sc' store_primitive_facts [OF st] by (simp add: recorded_def)
  qed
next
  case (Paint_Backdrop_Blur blur)
  then show ?thesis
    using assms by (auto simp: insert_backdrop_blur_def draw_order_def bind_eq_Some_conv Let_def recorded_def split: if_splits)
qed (use assms in \<open>auto simp: push_layer_def pop_layer_def bind_eq_Some_conv recorded_def\<close>)

lemma built_recorded: "replay_operations ops sc = Some sc' \<Longrightarrow> list_all recorded (paint_operations sc) \<Longrightarrow>
    list_all recorded (paint_operations sc')"
proof (induction ops arbitrary: sc)
  case (Cons operation ops)
  then obtain sc1 where sc1: "replay_operation operation sc = Some sc1" "replay_operations ops sc1 = Some sc'"
    by (auto simp: bind_eq_Some_conv)
  then show ?case using Cons.IH [OF sc1(2)] Cons.prems(2) replay_records [OF sc1(1)] by auto
qed simp

lemma replay_appends:
  "replay_operations ops sc = Some sc' \<Longrightarrow> list_all recorded ops \<Longrightarrow>
    map erase_op (paint_operations sc') = map erase_op (paint_operations sc) @ map erase_op ops"
proof (induction ops arbitrary: sc)
  case (Cons operation ops)
  then obtain sc1 where sc1: "replay_operation operation sc = Some sc1" "replay_operations ops sc1 = Some sc'"
    by (auto simp: bind_eq_Some_conv)
  then show ?case using Cons.IH [OF sc1(2)] Cons.prems(2) replay_records [OF sc1(1)] by auto
qed simp

section \<open>The finished scene\<close>

lemma stored_order_bound:
  assumes "scene_ok sc" "e \<in> set (kind_stream sc k)"
  shows "fst e \<le> length (leaves (primitive_bounds sc))"
proof -
  have "kind_stream sc k = entries_of k (paint_operations sc)" using assms(1) by (simp add: scene_ok_def stored_def)
  then obtain operation e' where o: "operation \<in> set (paint_operations sc)" "e' \<in> set (op_entries operation)" "e = snd e'"
    using assms(2) by (auto simp: entries_of_def)
  moreover have "fst (snd e') = op_order operation"
  proof (cases operation)
    case (Paint_Primitive p)
    then show ?thesis using o(2) by (cases p) auto
  qed (use o(2) in auto)
  ultimately show ?thesis using assms(1) by (simp add: scene_ok_def)
qed

lemma sorted_fst: "sorted (map f xs) \<Longrightarrow> (\<And>x y. f x \<le> f y \<Longrightarrow> g x \<le> g y) \<Longrightarrow> sorted (map g xs)"
  by (simp add: sorted_wrt_map) (metis (mono_tags, lifting) sorted_wrt_mono_rel)

lemma finish_stream: "sorted (map fst (kind_stream (finish sc) k))" "mset (kind_stream (finish sc) k) = mset (kind_stream sc k)"
proof -
  have shape: "sorted (map fst (shape_stream (sort_key s_order xs)))" for xs :: "('u, 'd) painted list"
    using sorted_sort_key [of s_order xs] by (simp add: shape_stream_def comp_def)
  have path: "sorted (map fst (shape_stream (map snd (sort_key (\<lambda>(_, path). s_order path) xs))))"
    for xs :: "(nat \<times> ('u, 'd) painted) list"
  proof -
    have "sorted (map (\<lambda>p. s_order (snd p)) (sort_key (\<lambda>(_, path). s_order path) xs))"
      by (rule sorted_fst [OF sorted_sort_key]) auto
    then show ?thesis by (simp add: shape_stream_def comp_def)
  qed
  have sprite: "sorted (map fst (sprite_stream (sort_key (\<lambda>(tile, s). (s_order s, tile_id tile)) xs)))"
    for xs :: "(atlas_tile \<times> ('u, 'd) painted) list"
  proof -
    have "sorted (map (\<lambda>p. s_order (snd p)) (sort_key (\<lambda>(tile, s). (s_order s, tile_id tile)) xs))"
      by (rule sorted_fst [OF sorted_sort_key]) (auto simp: less_eq_prod_def)
    then show ?thesis by (simp add: sprite_stream_def comp_def case_prod_beta)
  qed
  show "sorted (map fst (kind_stream (finish sc) k))"
    by (cases k) (simp_all add: finish_def shape path sprite)
  show "mset (kind_stream (finish sc) k) = mset (kind_stream sc k)"
    by (cases k) (simp_all add: finish_def shape_stream_def sprite_stream_def)
qed

lemma finish_ok:
  assumes "scene_ok sc" "length (leaves (primitive_bounds sc)) < U32_MAX"
  shows "streams_ok (kind_stream (finish sc))" "sorted (map s_order (backdrop_blurs (finish sc)))"
proof -
  have "set (kind_stream (finish sc) k) = set (kind_stream sc k)" for k by (rule mset_eq_setD [OF finish_stream(2)])
  then show "streams_ok (kind_stream (finish sc))"
    using stored_order_bound [OF assms(1)] assms(2) finish_stream(1) unfolding streams_ok_def by fastforce
  show "sorted (map s_order (backdrop_blurs (finish sc)))" by (simp add: finish_def)
qed

lemma scene_default_facts: "leaves (primitive_bounds scene_default) = []" "paint_operations scene_default = []"
  by (simp_all add: scene_default_def bt_default_ok)

lemma built_scene:
  assumes "length ops < U32_MAX"
  shows "\<exists>sc. replay_operations ops scene_default = Some sc \<and> scene_ok sc \<and> length (leaves (primitive_bounds sc)) < U32_MAX \<and>
    map op_order (paint_operations sc) = spec_orders_of ([], []) ops \<and>
    map erase_op (paint_operations sc) = map erase_op (filter recorded ops)"
  using replay_operations_refines [OF scene_default_ok(1), of ops] assms
  by (fastforce simp: U32_MAX_def scene_default_ok(2) scene_default_facts)

section \<open>Outside of every layer\<close>

text \<open>The layers open after some operations.\<close>

fun layers_open :: "nat \<Rightarrow> ('u, 'd) paint_operation list \<Rightarrow> nat" where
  "layers_open n [] = n"
| "layers_open n (Start_Layer _ # ops) = layers_open (Suc n) ops"
| "layers_open n (End_Layer # ops) = layers_open (n - 1) ops"
| "layers_open n (_ # ops) = layers_open n ops"

lemma spec_step_paint:
  "op_rect operation = Some r \<Longrightarrow> \<not> bounds_is_empty r \<Longrightarrow>
   spec_step operation (ls, stack) = (if stack \<noteq> [] then ((ls, stack), [last stack])
     else ((ls @ [(r, next_order ls r)], stack), [next_order ls r]))"
  by (cases operation) auto

lemma spec_stack: "length (snd (spec_state s ops)) = layers_open (length (snd s)) ops"
proof (induction ops arbitrary: s)
  case (Cons operation ops)
  then show ?case by (cases s; cases operation) (simp_all split: if_splits)
qed simp

lemma spec_regions: "set (fst s) \<subseteq> set (fst (spec_state s ops))"
proof (induction ops arbitrary: s)
  case (Cons operation ops)
  have "set (fst s) \<subseteq> set (fst (fst (spec_step operation s)))"
    by (cases s; cases operation) (auto split: if_splits)
  then show ?case using Cons.IH [of "fst (spec_step operation s)"] by auto
qed simp

lemma spec_orders_append: "spec_orders_of s (xs @ ys) = spec_orders_of s xs @ spec_orders_of (spec_state s xs) ys"
  by (induction xs arbitrary: s) simp_all

lemma spec_state_append: "spec_state s (xs @ ys) = spec_state (spec_state s xs) ys"
  by (induction xs arbitrary: s) simp_all

lemma length_spec_orders_of: "length (spec_orders_of s ops) = length (filter recorded ops)"
proof (induction ops arbitrary: s)
  case (Cons operation ops)
  have "length (snd (spec_step operation s)) = (if recorded operation then 1 else 0)"
    by (cases s; cases operation) (auto simp: recorded_def)
  then show ?case using Cons.IH by simp
qed simp

lemma next_order_above:
  assumes "(r', order) \<in> set ls" "intersects r r'"
  shows "order < next_order ls r"
proof -
  have "order \<in> insert 0 (orders_meeting ls r)" using assms by (auto simp: orders_meeting_def)
  from Max_ge [OF _ this] show ?thesis using finite_orders [of ls r] by (simp add: next_order_def less_Suc_eq_le)
qed

lemma spec_orders_later:
  assumes ops: "ops = xs @ p # ys @ q # zs" and stack: "snd (spec_state s xs) = []" "snd (spec_state s (xs @ p # ys)) = []"
    and p: "op_rect p = Some a" "\<not> bounds_is_empty a" and q: "op_rect q = Some b" "\<not> bounds_is_empty b"
    and meet: "intersects b a"
  shows "spec_orders_of s ops ! length (filter recorded xs) < spec_orders_of s ops ! length (filter recorded (xs @ p # ys))"
proof -
  obtain ls where ls: "spec_state s xs = (ls, [])" using stack(1) by (cases "spec_state s xs") auto
  obtain ls' where ls': "spec_state s (xs @ p # ys) = (ls', [])" using stack(2) by (cases "spec_state s (xs @ p # ys)") auto
  note sp = spec_step_paint [OF p, of ls "[]"] and sq = spec_step_paint [OF q, of ls' "[]"]
  have "spec_orders_of s ops = spec_orders_of s xs @ next_order ls a # spec_orders_of (fst (spec_step p (ls, []))) (ys @ q # zs)"
    using ops ls sp by (simp add: spec_orders_append)
  then have first: "spec_orders_of s ops ! length (filter recorded xs) = next_order ls a"
    by (simp add: nth_append length_spec_orders_of)
  have "ops = (xs @ p # ys) @ q # zs" using ops by simp
  then have "spec_orders_of s ops = spec_orders_of s (xs @ p # ys) @ spec_orders_of (ls', []) (q # zs)"
    using spec_orders_append [of s "xs @ p # ys" "q # zs"] ls' by simp
  then have second: "spec_orders_of s ops ! length (filter recorded (xs @ p # ys)) = next_order ls' b"
    using sq by (simp add: nth_append length_spec_orders_of del: filter_append)
  have "(a, next_order ls a) \<in> set ls'"
    using ls ls' sp spec_regions [of "fst (spec_step p (ls, []))" ys] by (auto simp: spec_state_append)
  from next_order_above [OF this meet] show ?thesis by (simp only: first second)
qed

end
