(* ===== verification/Scene_Theorems.thy ===== *)
theory Scene_Theorems
  imports Scene_Build Bounds_Theorems
begin

text \<open>
  The properties of a scene, with witnesses on integer rectangles.
\<close>

definition quad :: "int bounds \<Rightarrow> (int, unit) paint_operation" where
  "quad r = Paint_Primitive (Quad \<lparr>s_order = 7, s_bounds = r, s_mask = rect 0 0 100 100, s_data = ()\<rparr>)"

definition glyph :: "int bounds \<Rightarrow> nat \<Rightarrow> nat \<Rightarrow> (int, unit) paint_operation" where
  "glyph r tex tile = Paint_Primitive (Monochrome_Sprite
     \<lparr>texture_id = \<lparr>texture_index = tex, texture_kind = Monochrome_Texture\<rparr>, tile_id = tile\<rparr>
     \<lparr>s_order = 7, s_bounds = r, s_mask = rect 0 0 100 100, s_data = ()\<rparr>)"

text \<open>What the witnesses need about these.\<close>

lemma orders_meeting_simps:
  "orders_meeting [] q = {}"
  "orders_meeting ((b, ord) # ls) q = (if intersects q b then insert ord (orders_meeting ls q) else orders_meeting ls q)"
  by (auto simp: orders_meeting_def)

lemma rect_meets:
  "intersects (rect x y w h) (rect x' y' w' h') \<longleftrightarrow> x < x' + w' \<and> x' < x + w \<and> y < y' + h' \<and> y' < y + h"
  by (auto simp: intersects_iff b_left_def b_right_def b_top_def b_bottom_def rect_def)

lemma rect_not_empty: "0 < w \<Longrightarrow> 0 < h \<Longrightarrow> \<not> bounds_is_empty (rect x y w h)"
  by (simp add: bounds_is_empty_def rect_def)

lemma quad_rect:
  "0 \<le> x \<Longrightarrow> 0 \<le> y \<Longrightarrow> 0 < w \<Longrightarrow> 0 < h \<Longrightarrow> x + w \<le> 100 \<Longrightarrow> y + h \<le> 100 \<Longrightarrow> op_rect (quad (rect x y w h)) = Some (rect x y w h)"
  by (simp add: quad_def prim_bounds_def prim_content_mask_def bounds_intersect_def from_corners_def
      bottom_right_def point_max_def point_min_def rect_def max_def min_def Let_def)

section \<open>The orders\<close>

text \<open>
  C33. Any sequence of fewer than 2 to the 32 minus 1 calls (primitives, blurs, layers opened and
  closed in any nesting) builds a scene without panic or overflow. Exactly the calls whose clipped
  rectangle is not empty, and the layer markers, are recorded, in order and unchanged but for the
  assigned order and path number. Each gets the order that a scan over the regions seen so far
  gives: that of the innermost open layer, or one more than the highest order met. The lists of
  each kind hold exactly the primitives recorded.
\<close>

theorem scene_orders_refine:
  fixes ops :: "('u::linordered_ab_group_add, 'd) paint_operation list"
  assumes "length ops < U32_MAX"
  shows "\<exists>sc. replay_operations ops scene_default = Some sc \<and>
    map op_order (paint_operations sc) = spec_orders_of ([], []) ops \<and>
    map erase_op (paint_operations sc) = map erase_op (filter recorded ops) \<and> stored sc"
  using built_scene [OF assms] by (auto simp: scene_ok_def)

theorem scene_orders_refine_witness:
  "\<exists>sc. replay_operations [Start_Layer (rect 0 0 50 50), quad (rect 0 0 10 10), End_Layer, quad (rect 5 5 10 10)] scene_default
     = Some sc \<and> map op_order (paint_operations sc) = [0, 1, 0, 2]"
proof -
  let ?ops = "[Start_Layer (rect 0 0 50 50), quad (rect 0 0 10 10), End_Layer, quad (rect 5 5 10 10)]"
  have "length ?ops < U32_MAX" by (simp add: U32_MAX_def)
  from scene_orders_refine [OF this] obtain sc where sc: "replay_operations ?ops scene_default = Some sc"
    "map op_order (paint_operations sc) = spec_orders_of ([], []) ?ops" by blast
  have r: "op_rect (quad (rect 0 0 10 10)) = Some (rect 0 0 10 10)" "op_rect (quad (rect 5 5 10 10)) = Some (rect 5 5 10 10)"
    by (simp_all add: quad_rect)
  have e: "\<not> bounds_is_empty (rect 0 0 10 10)" "\<not> bounds_is_empty (rect 5 5 10 10)"
    by (simp_all add: rect_not_empty)
  have "spec_orders_of ([], []) ?ops = [0, 1, 0, 2]"
    by (simp add: spec_step_paint [OF r(1) e(1)] spec_step_paint [OF r(2) e(2)])
      (simp add: next_order_def orders_meeting_simps rect_meets)
  then show ?thesis using sc by auto
qed

text \<open>
  C34. A primitive or blur painted over an earlier one, both outside of every layer, gets a
  strictly higher order: whatever is painted in between, it is drawn above.
\<close>

theorem scene_paint_above:
  assumes "length ops < U32_MAX" and "ops = xs @ p # ys @ q # zs"
    and "layers_open 0 xs = 0" and "layers_open 0 (xs @ p # ys) = 0"
    and "op_rect p = Some a" and "\<not> bounds_is_empty a" and "op_rect q = Some b" and "\<not> bounds_is_empty b"
    and "intersects b a"
  shows "\<exists>sc. replay_operations ops scene_default = Some sc \<and>
    (let i = length (filter recorded xs); j = length (filter recorded (xs @ p # ys)) in
     i < j \<and> j < length (paint_operations sc) \<and> erase_op (paint_operations sc ! i) = erase_op p \<and>
     erase_op (paint_operations sc ! j) = erase_op q \<and> op_order (paint_operations sc ! i) < op_order (paint_operations sc ! j))"
proof -
  obtain sc where sc: "replay_operations ops scene_default = Some sc"
    "map op_order (paint_operations sc) = spec_orders_of ([], []) ops"
    "map erase_op (paint_operations sc) = map erase_op (filter recorded ops)" using built_scene [OF assms(1)] by blast
  let ?i = "length (filter recorded xs)" and ?j = "length (filter recorded (xs @ p # ys))"
  have rec: "recorded p" "recorded q" using assms(5-8) by (simp_all add: recorded_def)
  have len: "length (paint_operations sc) = length (filter recorded ops)" using arg_cong [OF sc(3), of length] by simp
  have j: "?i < ?j" "?j < length (paint_operations sc)" using rec by (simp_all add: len assms(2))
  have nth: "op_order (paint_operations sc ! n) = spec_orders_of ([], []) ops ! n"
    "erase_op (paint_operations sc ! n) = erase_op (filter recorded ops ! n)" if "n < length (paint_operations sc)" for n
    using arg_cong [OF sc(2), of "\<lambda>xs. xs ! n"] arg_cong [OF sc(3), of "\<lambda>xs. xs ! n"] that len by simp_all
  have at: "filter recorded ops ! ?i = p" "filter recorded ops ! ?j = q"
    using rec by (simp_all add: assms(2) nth_append)
  have "snd (spec_state ([], []) xs) = []" "snd (spec_state ([], []) (xs @ p # ys)) = []"
    using spec_stack [of "([], [])" xs] spec_stack [of "([], [])" "xs @ p # ys"] assms(3,4) by simp_all
  from spec_orders_later [OF assms(2) this assms(5-9)]
  have "op_order (paint_operations sc ! ?i) < op_order (paint_operations sc ! ?j)"
    using nth(1) [of ?i] nth(1) [of ?j] j by simp
  then show ?thesis using sc(1) j nth(2) [of ?i] nth(2) [of ?j] at by (auto simp: Let_def)
qed

theorem scene_paint_above_witness:
  "\<exists>sc. replay_operations [quad (rect 0 0 10 10), Start_Layer (rect 0 0 50 50), End_Layer, quad (rect 9 9 10 10)] scene_default
     = Some sc \<and> op_order (paint_operations sc ! 0) < op_order (paint_operations sc ! 3)"
proof -
  let ?p = "quad (rect 0 0 10 10)" and ?q = "quad (rect 9 9 10 10)" and ?ys = "[Start_Layer (rect 0 0 50 50), End_Layer]"
  have "length ([] @ ?p # ?ys @ ?q # []) < U32_MAX" by (simp add: U32_MAX_def)
  moreover have "op_rect ?p = Some (rect 0 0 10 10)" "op_rect ?q = Some (rect 9 9 10 10)"
    by (simp_all add: quad_rect)
  moreover have e: "\<not> bounds_is_empty (rect 0 0 10 10)" "\<not> bounds_is_empty (rect 9 9 10 10)"
    by (simp_all add: rect_not_empty)
  moreover have "intersects (rect 9 9 10 10) (rect 0 0 10 10)"
    by (simp add: rect_meets)
  moreover have "layers_open 0 ([] :: (int, unit) paint_operation list) = 0" "layers_open 0 ([] @ ?p # ?ys) = 0"
    by (simp_all add: quad_def)
  ultimately obtain sc where "replay_operations ([] @ ?p # ?ys @ ?q # []) scene_default = Some sc"
    "op_order (paint_operations sc ! length (filter recorded [])) <
       op_order (paint_operations sc ! length (filter recorded ([] @ ?p # ?ys)))"
    using scene_paint_above [of "[] @ ?p # ?ys @ ?q # []" "[]" ?p ?ys ?q "[]" "rect 0 0 10 10" "rect 9 9 10 10"]
    by (auto simp: Let_def)
  moreover have "recorded ?p" using \<open>op_rect ?p = _\<close> e by (simp add: recorded_def)
  ultimately show ?thesis by (auto simp: recorded_def numeral_3_eq_3)
qed

section \<open>The batches\<close>

text \<open>
  C35. The batches of a finished scene, one after the other, paint every primitive of the scene
  exactly once, in the stable order of draw order and kind. Every batch is a nonempty range of one
  kind, a sprite batch has one texture and carries it, and no batch reaches across the order of a
  backdrop blur: a blur comes at or before its first primitive or after all of them.
\<close>

theorem scene_batches:
  fixes ops :: "('u::linordered_ab_group_add, 'd) paint_operation list"
  assumes "length ops < U32_MAX"
  shows "\<exists>sc. replay_operations ops scene_default = Some sc \<and>
    concat (map batch_items (batches (finish sc))) =
      sort_key (stream_key (kind_stream (finish sc))) (all_primitives (kind_stream (finish sc))) \<and>
    list_all (batch_fine (kind_stream (finish sc)) (map s_order (backdrop_blurs (finish sc)))) (batches (finish sc)) \<and>
    mset (kind_stream (finish sc) k) = mset (entries_of k (paint_operations sc))"
proof -
  from built_scene [OF assms] obtain sc where sc: "replay_operations ops scene_default = Some sc" "scene_ok sc"
    "length (leaves (primitive_bounds sc)) < U32_MAX" by blast
  show ?thesis
    using sc(1,2) batches_correct [OF finish_ok [OF sc(2,3)]] finish_stream(2) [of sc k]
    by (auto simp: scene_ok_def stored_def)
qed

theorem scene_batches_witness:
  "\<exists>sc. replay_operations [glyph (rect 0 0 9 9) 1 5, quad (rect 50 0 9 9), glyph (rect 20 0 9 9) 2 4] scene_default = Some sc \<and>
     mset (concat (map batch_items (batches (finish sc)))) = mset (all_primitives (kind_stream (finish sc)))"
proof -
  have "length [glyph (rect 0 0 9 9) 1 5, quad (rect 50 0 9 9), glyph (rect 20 0 9 9) 2 4] < U32_MAX"
    by (simp add: U32_MAX_def)
  from scene_batches [OF this] show ?thesis by fastforce
qed

section \<open>Replaying\<close>

text \<open>
  C36. Replaying all operations of a scene that was drawn by primitives, blurs, layers and
  reused ranges, finished or not, onto a cleared scene gives that scene again: the same primitives
  and blurs with the same orders, path numbers, open layers and tree of rectangles. Replaying a
  range of it onto any scene adds exactly the operations of the range, in order and unchanged but
  for the assigned order and path number, and a range that is not one of the scene panics.
\<close>

theorem scene_replay_roundtrip:
  assumes "scene_built sc"
  shows "scene_replay 0 (scene_len (finish sc)) (finish sc) (scene_clear old) = Some sc \<and>
    (scene_replay i j (finish sc) target = Some target' \<longrightarrow>
      map erase_op (paint_operations target') =
        map erase_op (paint_operations target) @ map erase_op (drop i (take j (paint_operations sc)))) \<and>
    (j < i \<or> length (paint_operations sc) < j \<longrightarrow> scene_replay i j (finish sc) target = None)"
proof -
  obtain ops where ops: "replay_operations ops scene_default = Some sc" using built_replays [OF assms] by blast
  have f: "paint_operations (finish sc) = paint_operations sc" by (simp add: finish_def)
  have "list_all recorded (paint_operations sc)"
    using built_recorded [OF ops] by (simp add: scene_default_facts)
  then have "list_all recorded (drop i (take j (paint_operations sc)))"
    unfolding list_all_iff by (meson in_set_dropD in_set_takeD)
  moreover have "scene_clear old = scene_default" by (simp add: scene_clear_def scene_default_def bt_clear_def bt_default_def)
  ultimately show ?thesis
    using replay_own_operations [OF ops] replay_appends by (auto simp: scene_replay_def scene_len_def f split: if_splits)
qed

text \<open>A quad, a blur over it and a quad in a layer.\<close>

theorem scene_replay_roundtrip_witness:
  "\<exists>sc :: (int, unit) scene. scene_built sc \<and> length (paint_operations sc) = 5 \<and>
     scene_replay 0 5 (finish sc) (scene_clear sc) = Some sc \<and> scene_replay 1 9 (finish sc) sc = None"
proof -
  let ?blur = "Paint_Backdrop_Blur \<lparr>s_order = 7, s_bounds = rect 0 0 10 10, s_mask = rect 0 0 100 100, s_data = ()\<rparr>"
  let ?ops = "[quad (rect 0 0 10 10), ?blur, Start_Layer (rect 0 0 50 50), quad (rect 5 5 10 10), End_Layer]"
  have "length ?ops < U32_MAX" by (simp add: U32_MAX_def)
  from built_scene [OF this] obtain sc where sc: "replay_operations ?ops scene_default = Some sc" "scene_ok sc"
    "map erase_op (paint_operations sc) = map erase_op (filter recorded ?ops)" by blast
  have built: "scene_built sc" by (rule replayed_built [OF scene_built.Empty_Scene sc(1)])
  have rec: "recorded (quad (rect 0 0 10 10))" "recorded (quad (rect 5 5 10 10))"
    by (simp_all add: recorded_def quad_rect rect_not_empty)
  have blur: "recorded ?blur"
    using rec(1) by (simp add: recorded_def quad_def prim_bounds_def prim_content_mask_def)
  have all: "filter recorded ?ops = ?ops"
    using rec blur by (simp add: recorded_def)
  have len: "length (paint_operations sc) = 5"
    using arg_cong [OF sc(3), of length] unfolding all by simp
  then have "scene_replay 0 5 (finish sc) (scene_clear sc) = Some sc" "scene_replay 1 9 (finish sc) sc = None"
    using scene_replay_roundtrip [OF built, of sc 1 9 sc sc] by (simp_all add: scene_len_def finish_def)
  then show ?thesis using built len by blast
qed

text \<open>
  Inside layers the order is that of the layer: what a layer paints after a nested layer has been
  closed gets a lower order than what the nested layer holds.
\<close>

lemma nested_layer_above:
  "spec_orders_of ([], []) [Start_Layer (rect 0 0 50 50), Start_Layer (rect 0 0 50 50), quad (rect 0 0 10 10), End_Layer,
     quad (rect 0 0 10 10)] = [0, 0, 2, 0, 1]"
proof -
  have r: "op_rect (quad (rect 0 0 10 10)) = Some (rect 0 0 10 10)" "\<not> bounds_is_empty (rect 0 0 10 10)"
    by (simp_all add: quad_rect rect_not_empty)
  show ?thesis
    by (simp add: spec_step_paint [OF r])
      (simp add: next_order_def orders_meeting_simps rect_meets)
qed

end
