(* ===== verification/Scene_Path.thy ===== *)
theory Scene_Path
  imports Bounds_Tree_Order
begin

text \<open>
  Transformations of sprites and the paths of a scene (\<open>gpui/src/scene.rs\<close>). Numbers are those
  of an ordered ring, so arithmetic is exact; sine and cosine are parameters.
\<close>

section \<open>Transformations\<close>

record 'u transformation_matrix =
  rotation_scale :: "('u \<times> 'u) \<times> 'u \<times> 'u"
  translation :: "'u \<times> 'u"

definition tm_unit :: "'u::comm_ring_1 transformation_matrix" where
  "tm_unit = \<lparr>rotation_scale = ((1, 0), (0, 1)), translation = (0, 0)\<rparr>"

definition tm_compose :: "'u::comm_ring_1 transformation_matrix \<Rightarrow> 'u transformation_matrix \<Rightarrow> 'u transformation_matrix" where
  "tm_compose m other =
     (if other = tm_unit then m
      else case (rotation_scale m, rotation_scale other, translation m, translation other) of
        (((a, b), (c, d)), ((a', b'), (c', d')), (x, y), (x', y')) \<Rightarrow>
          \<lparr>rotation_scale = ((a * a' + b * c', a * b' + b * d'), (c * a' + d * c', c * b' + d * d')),
           translation = (x + a * x' + b * y', y + c * x' + d * y')\<rparr>)"

definition tm_translate :: "'u::comm_ring_1 transformation_matrix \<Rightarrow> 'u point \<Rightarrow> 'u transformation_matrix" where
  "tm_translate m p = tm_compose m \<lparr>rotation_scale = ((1, 0), (0, 1)), translation = (px p, py p)\<rparr>"

definition tm_rotate ::
  "('r \<Rightarrow> 'u) \<Rightarrow> ('r \<Rightarrow> 'u) \<Rightarrow> 'u::comm_ring_1 transformation_matrix \<Rightarrow> 'r \<Rightarrow> 'u transformation_matrix" where
  "tm_rotate sine cosine m angle =
     tm_compose m \<lparr>rotation_scale = ((cosine angle, - sine angle), (sine angle, cosine angle)), translation = (0, 0)\<rparr>"

definition tm_scale :: "'u::comm_ring_1 transformation_matrix \<Rightarrow> 'u size \<Rightarrow> 'u transformation_matrix" where
  "tm_scale m s = tm_compose m \<lparr>rotation_scale = ((width s, 0), (0, height s)), translation = (0, 0)\<rparr>"

definition tm_apply :: "'u::comm_ring_1 transformation_matrix \<Rightarrow> 'u point \<Rightarrow> 'u point" where
  "tm_apply m p =
     (case (rotation_scale m, translation m) of
        (((a, b), (c, d)), (x, y)) \<Rightarrow> \<lparr>px = x + a * px p + b * py p, py = y + c * px p + d * py p\<rparr>)"

lemma tm_compose_apply: "tm_apply (tm_compose m other) p = tm_apply m (tm_apply other p)"
  by (auto simp: tm_compose_def tm_apply_def tm_unit_def algebra_simps split: prod.splits)

lemma tm_unit_apply: "tm_apply tm_unit p = p"
  by (simp add: tm_apply_def tm_unit_def)

lemma tm_eqI:
  assumes "\<And>p. tm_apply m p = tm_apply m' p"
  shows "m = (m' :: 'u::comm_ring_1 transformation_matrix)"
proof -
  obtain a b c d x y where m: "m = \<lparr>rotation_scale = ((a, b), (c, d)), translation = (x, y)\<rparr>"
    by (metis prod.collapse transformation_matrix.cases)
  obtain a' b' c' d' x' y' where m': "m' = \<lparr>rotation_scale = ((a', b'), (c', d')), translation = (x', y')\<rparr>"
    by (metis prod.collapse transformation_matrix.cases)
  from assms [of "\<lparr>px = 0, py = 0\<rparr>"] assms [of "\<lparr>px = 1, py = 0\<rparr>"] assms [of "\<lparr>px = 0, py = 1\<rparr>"]
  show ?thesis by (simp add: m m' tm_apply_def)
qed

text \<open>Composition is a monoid that acts on points: the other transformation is applied first.\<close>

lemma tm_monoid:
  "tm_compose (tm_compose m n) k = tm_compose m (tm_compose n k)" "tm_compose tm_unit m = m" "tm_compose m tm_unit = m"
  by (rule tm_eqI, simp add: tm_compose_apply tm_unit_apply)+

lemma tm_steps:
  "tm_apply (tm_translate m p) q = tm_apply m \<lparr>px = px p + px q, py = py p + py q\<rparr>"
  "tm_apply (tm_scale m s) q = tm_apply m \<lparr>px = width s * px q, py = height s * py q\<rparr>"
  "tm_apply (tm_rotate sine cosine m angle) q =
     tm_apply m \<lparr>px = cosine angle * px q - sine angle * py q, py = sine angle * px q + cosine angle * py q\<rparr>"
  by (simp_all only: tm_translate_def tm_scale_def tm_rotate_def tm_compose_apply) (simp_all add: tm_apply_def algebra_simps)

section \<open>Paths\<close>

text \<open>A vertex with its texture coordinates, over numbers that have a half.\<close>

record 'u path_vertex =
  xy_position :: "'u point"
  st_position :: "'u point"

record 'u path =
  p_bounds :: "'u bounds"
  vertices :: "'u path_vertex list"
  p_start :: "'u point"
  p_current :: "'u point"
  contour_count :: nat

definition zero_size :: "'u::zero size" where
  "zero_size = \<lparr>width = 0, height = 0\<rparr>"

definition path_new :: "'u::linordered_field point \<Rightarrow> 'u path" where
  "path_new start =
     \<lparr>p_bounds = \<lparr>origin = start, bsize = zero_size\<rparr>, vertices = [], p_start = start, p_current = start, contour_count = 0\<rparr>"

definition push_triangle ::
  "'u::linordered_field point \<times> 'u point \<times> 'u point \<Rightarrow> 'u point \<times> 'u point \<times> 'u point \<Rightarrow> 'u path \<Rightarrow> 'u path" where
  "push_triangle xy st p =
     (case (xy, st) of ((xy0, xy1, xy2), (st0, st1, st2)) \<Rightarrow>
        p\<lparr>p_bounds := bounds_union (bounds_union (bounds_union (p_bounds p)
            \<lparr>origin = xy0, bsize = zero_size\<rparr>) \<lparr>origin = xy1, bsize = zero_size\<rparr>) \<lparr>origin = xy2, bsize = zero_size\<rparr>,
          vertices := vertices p @ [\<lparr>xy_position = xy0, st_position = st0\<rparr>, \<lparr>xy_position = xy1, st_position = st1\<rparr>,
            \<lparr>xy_position = xy2, st_position = st2\<rparr>]\<rparr>)"

definition move_to :: "'u point \<Rightarrow> 'u path \<Rightarrow> 'u path" where
  "move_to to p = p\<lparr>contour_count := contour_count p + 1, p_start := to, p_current := to\<rparr>"

definition inner :: "'u::linordered_field point \<times> 'u point \<times> 'u point" where
  "inner = (\<lparr>px = 0, py = 1\<rparr>, \<lparr>px = 0, py = 1\<rparr>, \<lparr>px = 0, py = 1\<rparr>)"

definition line_to :: "'u::linordered_field point \<Rightarrow> 'u path \<Rightarrow> 'u path" where
  "line_to to p =
     (let p = p\<lparr>contour_count := contour_count p + 1\<rparr>;
          p = (if 1 < contour_count p then push_triangle (p_start p, p_current p, to) inner p else p) in
      p\<lparr>p_current := to\<rparr>)"

definition curve_to :: "'u::linordered_field point \<Rightarrow> 'u point \<Rightarrow> 'u path \<Rightarrow> 'u path" where
  "curve_to to ctrl p =
     (let p = p\<lparr>contour_count := contour_count p + 1\<rparr>;
          p = (if 1 < contour_count p then push_triangle (p_start p, p_current p, to) inner p else p);
          p = push_triangle (p_current p, ctrl, to)
            (\<lparr>px = 0, py = 0\<rparr>, \<lparr>px = 1 / 2, py = 0\<rparr>, \<lparr>px = 1, py = 1\<rparr>) p in
      p\<lparr>p_current := to\<rparr>)"

text \<open>Any sequence of calls.\<close>

datatype 'u path_op = Move_To "'u point" | Line_To "'u point" | Curve_To "'u point" "'u point"

fun path_step :: "'u::linordered_field path_op \<Rightarrow> 'u path \<Rightarrow> 'u path" where
  "path_step (Move_To to) p = move_to to p"
| "path_step (Line_To to) p = line_to to p"
| "path_step (Curve_To to ctrl) p = curve_to to ctrl p"

definition spot :: "'u::linordered_field point \<Rightarrow> 'u bounds" where
  "spot q = \<lparr>origin = q, bsize = zero_size\<rparr>"

definition tight :: "'u::linordered_field point \<Rightarrow> 'u path \<Rightarrow> bool" where
  "tight start p \<longleftrightarrow> (\<forall>c. covers c (p_bounds p) \<longleftrightarrow> covers c (spot start) \<and> (\<forall>v\<in>set (vertices p). covers c (spot (xy_position v))))"

lemma covers_union_iff: "covers c (bounds_union a b) \<longleftrightarrow> covers c a \<and> covers c b"
  using union_least covers_union covers_trans by blast

lemma push_triangle_tight: "tight start p \<Longrightarrow> tight start (push_triangle xy st p)"
  by (cases xy; cases st) (auto simp: push_triangle_def tight_def covers_union_iff spot_def)

lemma push_triangle_simps [simp]:
  "p_start (push_triangle xy st p) = p_start p" "p_current (push_triangle xy st p) = p_current p"
  "contour_count (push_triangle xy st p) = contour_count p"
  by (cases xy; cases st; simp add: push_triangle_def)+

lemma tight_update [simp]:
  "tight start (p\<lparr>contour_count := n\<rparr>) = tight start p" "tight start (p\<lparr>p_start := q\<rparr>) = tight start p"
  "tight start (p\<lparr>p_current := q\<rparr>) = tight start p"
  by (simp_all add: tight_def)

text \<open>The rectangle of a path is the least one that covers its first point and all its vertices.\<close>

lemma path_bounds_tight: "tight start (fold path_step ops (path_new start))"
proof -
  have "tight start p \<Longrightarrow> tight start (path_step op p)" for op p
    by (cases op) (simp_all add: move_to_def line_to_def curve_to_def Let_def push_triangle_tight)
  then have "tight start p \<Longrightarrow> tight start (fold path_step ops p)" for p by (induction ops arbitrary: p) simp_all
  moreover have "tight start (path_new start)" by (simp add: tight_def path_new_def spot_def)
  ultimately show ?thesis .
qed

text \<open>Twice the signed area of the triangles pushed, and of the closed polygon.\<close>

definition cross :: "'u::linordered_field point \<Rightarrow> 'u point \<Rightarrow> 'u" where
  "cross a b = px a * py b - py a * px b"

definition tri_area :: "'u::linordered_field point \<Rightarrow> 'u point \<Rightarrow> 'u point \<Rightarrow> 'u" where
  "tri_area a b c = cross a b + cross b c + cross c a"

fun path_area :: "'u::linordered_field path_vertex list \<Rightarrow> 'u" where
  "path_area (a # b # c # vs) = tri_area (xy_position a) (xy_position b) (xy_position c) + path_area vs"
| "path_area _ = 0"

fun border :: "'u::linordered_field point \<Rightarrow> 'u point list \<Rightarrow> 'u" where
  "border a [] = 0"
| "border a (b # ps) = cross a b + border b ps"

lemma path_area_append: "3 dvd length vs \<Longrightarrow> path_area (vs @ ws) = path_area vs + path_area ws"
proof (induction vs rule: path_area.induct)
  case (1 a b c vs)
  have "length (a # b # c # vs) = 3 + length vs" by simp
  then have "3 dvd length vs" using 1(2) by (metis dvd_add_triv_left_iff)
  then show ?case using 1(1) by simp
qed (auto dest: dvd_imp_le)

lemma tri_area_edges: "tri_area s q to = cross q to + cross to s - cross q s" "tri_area s s to = 0"
  by (simp_all add: tri_area_def cross_def algebra_simps)

lemma lines_area:
  "3 dvd length (vertices p) \<Longrightarrow> 0 < contour_count p \<or> p_current p = p_start p \<Longrightarrow>
   path_area (vertices (fold line_to ps p)) + cross (p_current p) (p_start p) =
     path_area (vertices p) + border (p_current p) (ps @ [p_start p])"
proof (induction ps arbitrary: p)
  case (Cons to ps)
  let ?p = "line_to to p"
  have p: "p_start ?p = p_start p" "p_current ?p = to" "0 < contour_count ?p" by (simp_all add: line_to_def Let_def)
  have "3 dvd length (vertices ?p) \<and> path_area (vertices ?p) = path_area (vertices p) + tri_area (p_start p) (p_current p) to"
  proof (cases "0 < contour_count p")
    case True
    then have "vertices ?p = vertices p @ map (\<lambda>q. \<lparr>xy_position = q, st_position = \<lparr>px = 0, py = 1\<rparr>\<rparr>) [p_start p, p_current p, to]"
      by (simp add: line_to_def push_triangle_def inner_def)
    moreover from this have "length (vertices ?p) = 3 + length (vertices p)" by simp
    then have "3 dvd length (vertices ?p)" using Cons.prems(1) by (metis dvd_add_triv_left_iff)
    ultimately show ?thesis using Cons.prems(1) by (simp add: path_area_append)
  next
    case False
    then show ?thesis using Cons.prems by (simp add: line_to_def tri_area_edges(2))
  qed
  then show ?case using Cons.IH [of ?p] p tri_area_edges(1) [of "p_start p" "p_current p" to] by (simp add: algebra_simps)
qed simp

text \<open>The fan of a polygon drawn with straight lines has the polygon's signed area, convex or not.\<close>

lemma polygon_area: "path_area (vertices (fold line_to ps (path_new start))) = border start (ps @ [start])"
  using lines_area [of "path_new start" ps] by (simp add: path_new_def cross_def)

end
