(* ===== verification/Text_Wrap.thy ===== *)
theory Text_Wrap
  imports Prelude
begin

text \<open>
  Wrapping a line of text (\<open>gpui/src/text_system/line_wrapper.rs\<close>). A string is a list of code
  points, and indices are byte offsets of its encoding in UTF-8. The width the platform's text
  system gives a character is a parameter.
\<close>

section \<open>Strings\<close>

type_synonym ucs = nat

definition len_utf8 :: "ucs \<Rightarrow> nat" where
  "len_utf8 c = (if c < 0x80 then 1 else if c < 0x800 then 2 else if c < 0x10000 then 3 else 4)"

definition byte_len :: "ucs list \<Rightarrow> nat" where
  "byte_len s = sum_list (map len_utf8 s)"

fun char_indices_from :: "nat \<Rightarrow> ucs list \<Rightarrow> (nat \<times> ucs) list" where
  "char_indices_from ix [] = []"
| "char_indices_from ix (c # s) = (ix, c) # char_indices_from (ix + len_utf8 c) s"

definition char_indices :: "ucs list \<Rightarrow> (nat \<times> ucs) list" where
  "char_indices s = char_indices_from 0 s"

definition space :: ucs where
  "space = 32"

definition newline :: ucs where
  "newline = 10"

definition between :: "ucs \<Rightarrow> ucs \<Rightarrow> ucs \<Rightarrow> bool" where
  "between a b c \<longleftrightarrow> a \<le> c \<and> c \<le> b"

definition is_ascii_alphanumeric :: "ucs \<Rightarrow> bool" where
  "is_ascii_alphanumeric c \<longleftrightarrow> between 48 57 c \<or> between 65 90 c \<or> between 97 122 c"

text \<open>The marks are \<open>- _ . ' \<close> with both curly quotes, \<open>$ % @ # ^ ~ , = : ;\<close>, the midline dots and the glue characters.\<close>

definition is_word_char :: "ucs \<Rightarrow> bool" where
  "is_word_char c \<longleftrightarrow> is_ascii_alphanumeric c \<or> between 0xC0 0xFF c \<or> between 0x100 0x17F c \<or> between 0x180 0x24F c \<or>
     between 0x400 0x4FF c \<or> between 0x1E00 0x1EFF c \<or> between 0x300 0x36F c \<or> between 0x980 0x9FF c \<or>
     c \<in> set [45, 95, 46, 39, 0x2019, 0x2018, 36, 37, 64, 35, 94, 126, 44, 61, 58, 59] \<or> c = 0x22EF \<or>
     c \<in> set [0x202F, 0xA0, 0x2011]"

section \<open>Widths of characters\<close>

record 'u line_wrapper =
  cached_ascii_char_widths :: "'u option list"
  cached_other_char_widths :: "ucs \<rightharpoonup> 'u"

definition line_wrapper_new :: "'u line_wrapper" where
  "line_wrapper_new = \<lparr>cached_ascii_char_widths = replicate 128 None, cached_other_char_widths = Map.empty\<rparr>"

definition width_for_char :: "(ucs \<Rightarrow> 'u) \<Rightarrow> ucs \<Rightarrow> 'u line_wrapper \<Rightarrow> 'u \<times> 'u line_wrapper" where
  "width_for_char layout_width c lw =
     (if c < 128
      then case cached_ascii_char_widths lw ! c of
             Some cached_width \<Rightarrow> (cached_width, lw)
           | None \<Rightarrow> (layout_width c,
               lw\<lparr>cached_ascii_char_widths := (cached_ascii_char_widths lw)[c := Some (layout_width c)]\<rparr>)
      else case cached_other_char_widths lw c of
             Some cached_width \<Rightarrow> (cached_width, lw)
           | None \<Rightarrow> (layout_width c,
               lw\<lparr>cached_other_char_widths := (cached_other_char_widths lw)(c \<mapsto> layout_width c)\<rparr>))"

text \<open>The cache never changes an answer, so the operations below take the widths as a function.\<close>

definition cache_ok :: "(ucs \<Rightarrow> 'u) \<Rightarrow> 'u line_wrapper \<Rightarrow> bool" where
  "cache_ok layout_width lw \<longleftrightarrow> length (cached_ascii_char_widths lw) = 128 \<and>
     (\<forall>c<128. cached_ascii_char_widths lw ! c \<in> {None, Some (layout_width c)}) \<and>
     (\<forall>c. cached_other_char_widths lw c \<in> {None, Some (layout_width c)})"

lemma width_for_char_ok:
  assumes "cache_ok layout_width lw"
  shows "fst (width_for_char layout_width c lw) = layout_width c" "cache_ok layout_width (snd (width_for_char layout_width c lw))"
proof -
  have "c < 128 \<Longrightarrow> cached_ascii_char_widths lw ! c \<in> {None, Some (layout_width c)}"
    "cached_other_char_widths lw c \<in> {None, Some (layout_width c)}" using assms by (simp_all add: cache_ok_def)
  then show "fst (width_for_char layout_width c lw) = layout_width c"
    by (auto simp: width_for_char_def split: option.splits)
  show "cache_ok layout_width (snd (width_for_char layout_width c lw))"
    using assms by (auto simp: width_for_char_def cache_ok_def nth_list_update split: option.splits)
qed

lemma line_wrapper_new_ok: "cache_ok layout_width line_wrapper_new"
  by (simp add: cache_ok_def line_wrapper_new_def)

section \<open>Wrapping\<close>

definition MAX_INDENT :: nat where
  "MAX_INDENT = 256"

datatype 'u line_fragment = Text "ucs list" | Element 'u nat

datatype 'u wrap_candidate = Char_Candidate ucs | Element_Candidate 'u nat

fun wrap_boundary_candidates :: "'u line_fragment \<Rightarrow> 'u wrap_candidate list" where
  "wrap_boundary_candidates (Text s) = map Char_Candidate s"
| "wrap_boundary_candidates (Element w len) = [Element_Candidate w len]"

fun candidate_len :: "'u wrap_candidate \<Rightarrow> nat" where
  "candidate_len (Char_Candidate c) = len_utf8 c"
| "candidate_len (Element_Candidate w len) = len"

record boundary =
  boundary_ix :: nat
  next_indent :: nat

record 'u wrap_state =
  ws_width :: 'u
  first_non_whitespace_ix :: "nat option"
  ws_indent :: "nat option"
  last_candidate_ix :: nat
  last_candidate_width :: 'u
  last_wrap_ix :: nat
  prev_c :: ucs
  ws_index :: nat

definition wrap_start :: "'u::linordered_idom wrap_state" where
  "wrap_start = \<lparr>ws_width = 0, first_non_whitespace_ix = None, ws_indent = None, last_candidate_ix = 0,
     last_candidate_width = 0, last_wrap_ix = 0, prev_c = 0, ws_index = 0\<rparr>"

definition set_candidate :: "nat \<Rightarrow> 'u wrap_state \<Rightarrow> 'u wrap_state" where
  "set_candidate ix s = s\<lparr>last_candidate_ix := ix, last_candidate_width := ws_width s\<rparr>"

text \<open>What an item does to the candidate; the result also has its width and the new previous character.\<close>

fun wrap_item :: "(ucs \<Rightarrow> 'u) \<Rightarrow> nat \<Rightarrow> 'u wrap_candidate \<Rightarrow> 'u wrap_state \<Rightarrow> 'u wrap_state \<times> 'u \<times> ucs" where
  "wrap_item cw ix (Char_Candidate c) s =
     (let s = (if is_word_char c
               then if prev_c s = space \<and> c \<noteq> space \<and> first_non_whitespace_ix s \<noteq> None then set_candidate ix s else s
               else if c \<noteq> space \<and> \<not> is_word_char (prev_c s) \<and> first_non_whitespace_ix s \<noteq> None
                    then set_candidate ix s else s);
          s = (if c \<noteq> space \<and> first_non_whitespace_ix s = None then s\<lparr>first_non_whitespace_ix := Some ix\<rparr> else s) in
      (s, cw c, c))"
| "wrap_item cw ix (Element_Candidate w len) s =
     (let s = (if prev_c s = space \<and> first_non_whitespace_ix s \<noteq> None then set_candidate ix s else s);
          s = (if first_non_whitespace_ix s = None then s\<lparr>first_non_whitespace_ix := Some ix\<rparr> else s) in
      (s, w, prev_c s))"

text \<open>
  An item that overflows the line ends it, at the last candidate or before the item; the previous
  character is then left as it was.
\<close>

definition wrap_overflow :: "(ucs \<Rightarrow> 'u::linordered_idom) \<Rightarrow> nat \<Rightarrow> 'u \<Rightarrow> 'u wrap_state \<Rightarrow> boundary \<times> 'u wrap_state" where
  "wrap_overflow cw ix item_width s =
     (let s = (case (ws_indent s, first_non_whitespace_ix s) of
                 (None, Some first) \<Rightarrow> s\<lparr>ws_indent := Some (min MAX_INDENT ((first - last_wrap_ix s) mod 2 ^ 32))\<rparr>
               | _ \<Rightarrow> s);
          s = (if 0 < last_candidate_ix s
               then s\<lparr>last_wrap_ix := last_candidate_ix s, ws_width := ws_width s - last_candidate_width s,
                      last_candidate_ix := 0\<rparr>
               else s\<lparr>last_wrap_ix := ix, ws_width := item_width\<rparr>);
          s = (case ws_indent s of
                 Some indent \<Rightarrow> s\<lparr>ws_width := ws_width s + cw space * of_nat indent\<rparr>
               | None \<Rightarrow> s) in
      (\<lparr>boundary_ix = last_wrap_ix s, next_indent = (case ws_indent s of Some indent \<Rightarrow> indent | None \<Rightarrow> 0)\<rparr>, s))"

definition wrap_step ::
  "(ucs \<Rightarrow> 'u::linordered_idom) \<Rightarrow> 'u \<Rightarrow> 'u wrap_candidate \<Rightarrow> 'u wrap_state \<Rightarrow> boundary option \<times> 'u wrap_state" where
  "wrap_step cw wrap_width candidate s =
     (let ix = ws_index s;
          s = s\<lparr>ws_index := ix + candidate_len candidate\<rparr> in
      if candidate = Char_Candidate newline then (None, s)
      else case wrap_item cw ix candidate s of
        (s, item_width, new_prev_c) \<Rightarrow>
          (let s = s\<lparr>ws_width := ws_width s + item_width\<rparr> in
           if wrap_width < ws_width s \<and> last_wrap_ix s < ix
           then (case wrap_overflow cw ix item_width s of (b, s) \<Rightarrow> (Some b, s))
           else (None, s\<lparr>prev_c := new_prev_c\<rparr>)))"

fun wrap_from ::
  "(ucs \<Rightarrow> 'u::linordered_idom) \<Rightarrow> 'u \<Rightarrow> 'u wrap_candidate list \<Rightarrow> 'u wrap_state \<Rightarrow> boundary list" where
  "wrap_from cw wrap_width [] s = []"
| "wrap_from cw wrap_width (candidate # cs) s =
     (case wrap_step cw wrap_width candidate s of
        (Some b, s) \<Rightarrow> b # wrap_from cw wrap_width cs s
      | (None, s) \<Rightarrow> wrap_from cw wrap_width cs s)"

definition wrap_line :: "(ucs \<Rightarrow> 'u::linordered_idom) \<Rightarrow> 'u line_fragment list \<Rightarrow> 'u \<Rightarrow> boundary list" where
  "wrap_line cw fragments wrap_width =
     wrap_from cw wrap_width (concat (map wrap_boundary_candidates fragments)) wrap_start"

end
