(* ===== verification/Text_Wrap_Correct.thy ===== *)
theory Text_Wrap_Correct
  imports Text_Wrap
begin

text \<open>
  The lines that wrapping gives with a font of one width: they fit, and each was broken because
  the text up to some later character did not.
\<close>

section \<open>Byte offsets\<close>

lemma len_utf8_pos [simp]: "0 < len_utf8 c" "len_utf8 c \<noteq> 0"
  by (simp_all add: len_utf8_def)

lemma byte_len_simps [simp]: "byte_len [] = 0" "byte_len (c # s) = len_utf8 c + byte_len s" "byte_len (s @ s') = byte_len s + byte_len s'"
  by (simp_all add: byte_len_def)

lemma byte_len_take_Suc: "n < length t \<Longrightarrow> byte_len (take (Suc n) t) = byte_len (take n t) + len_utf8 (t ! n)"
  by (simp add: take_Suc_conv_app_nth)

lemma byte_len_take_less: "i < j \<Longrightarrow> j \<le> length t \<Longrightarrow> byte_len (take i t) < byte_len (take j t)"
proof (induction j)
  case (Suc j)
  show ?case
  proof (cases "i = j")
    case False
    then have "byte_len (take i t) < byte_len (take j t)" using Suc by simp
    then show ?thesis using Suc.prems by (simp add: byte_len_take_Suc)
  qed (use Suc.prems in \<open>simp add: byte_len_take_Suc\<close>)
qed simp

lemma byte_len_take_pos: "0 < byte_len (take n t) \<longleftrightarrow> 0 < n \<and> t \<noteq> []"
  by (cases n; cases t) simp_all

lemma byte_len_spaces:
  "a \<le> b \<Longrightarrow> b \<le> length t \<Longrightarrow> (\<forall>j\<in>{a..<b}. t ! j = space) \<Longrightarrow> byte_len (take b t) = byte_len (take a t) + (b - a)"
proof (induction b)
  case (Suc b)
  show ?case
  proof (cases "a = Suc b")
    case False
    then have "byte_len (take b t) = byte_len (take a t) + (b - a)" using Suc by simp
    moreover have "t ! b = space" using Suc.prems(3) False Suc.prems(1) by simp
    ultimately show ?thesis using Suc.prems False by (simp add: byte_len_take_Suc space_def len_utf8_def)
  qed simp
qed simp

section \<open>The state between two characters\<close>

definition fits :: "'u::linordered_idom \<Rightarrow> 'u \<Rightarrow> nat \<Rightarrow> nat \<Rightarrow> bool" where
  "fits w wrap_width indent n \<longleftrightarrow> n \<le> 1 \<or> of_nat (indent + n) * w \<le> wrap_width"

definition line_indent :: "nat \<Rightarrow> nat option \<Rightarrow> nat" where
  "line_indent first indent = (if first = 0 then 0 else case indent of Some n \<Rightarrow> n | None \<Rightarrow> 0)"

definition first_ok :: "ucs list \<Rightarrow> nat \<Rightarrow> nat \<Rightarrow> nat option \<Rightarrow> nat option \<Rightarrow> bool" where
  "first_ok t n L first indent \<longleftrightarrow>
     (case first of
        None \<Rightarrow> indent = None \<and> (\<forall>j\<in>{L..<n}. t ! j = space)
      | Some x \<Rightarrow> \<exists>F<n. x = byte_len (take F t) \<and> (indent = None \<longrightarrow> L \<le> F \<and> (\<forall>j\<in>{L..<F}. t ! j = space)))"

definition cand_ok :: "ucs list \<Rightarrow> 'u::linordered_idom \<Rightarrow> nat \<Rightarrow> nat \<Rightarrow> nat \<Rightarrow> nat option \<Rightarrow> nat \<Rightarrow> 'u \<Rightarrow> bool" where
  "cand_ok t w n L ind first cand cand_width \<longleftrightarrow> cand \<noteq> 0 \<longrightarrow>
     (\<exists>C. L < C \<and> C < n \<and> cand = byte_len (take C t) \<and> cand_width = of_nat (ind + (C - L)) * w \<and>
        (\<exists>F<C. first = Some (byte_len (take F t))))"

definition wrap_inv :: "ucs list \<Rightarrow> 'u::linordered_idom \<Rightarrow> 'u \<Rightarrow> nat \<Rightarrow> nat \<Rightarrow> 'u wrap_state \<Rightarrow> bool" where
  "wrap_inv t w wrap_width n L s \<longleftrightarrow> n \<le> length t \<and> (L < n \<or> L = n \<and> ws_indent s = None) \<and>
     ws_index s = byte_len (take n t) \<and> last_wrap_ix s = byte_len (take L t) \<and>
     ws_width s = of_nat (line_indent L (ws_indent s) + (n - L)) * w \<and>
     cand_ok t w n L (line_indent L (ws_indent s)) (first_non_whitespace_ix s) (last_candidate_ix s) (last_candidate_width s) \<and>
     first_ok t n L (first_non_whitespace_ix s) (ws_indent s) \<and>
     (\<forall>i. ws_indent s = Some i \<longrightarrow> 0 < L \<and> i \<le> MAX_INDENT) \<and>
     fits w wrap_width (line_indent L (ws_indent s)) (n - L)"

lemma wrap_start_inv: "wrap_inv t w wrap_width 0 0 wrap_start"
  by (simp add: wrap_inv_def wrap_start_def cand_ok_def first_ok_def fits_def line_indent_def)

text \<open>An item moves the candidate to itself or leaves it, and notes the first character that is no space.\<close>

definition char_noted :: "nat \<Rightarrow> ucs \<Rightarrow> 'u wrap_state \<Rightarrow> 'u wrap_state \<Rightarrow> bool" where
  "char_noted ix c s s' \<longleftrightarrow>
     ws_width s' = ws_width s \<and> ws_indent s' = ws_indent s \<and> last_wrap_ix s' = last_wrap_ix s \<and> ws_index s' = ws_index s \<and>
     ((last_candidate_ix s' = last_candidate_ix s \<and> last_candidate_width s' = last_candidate_width s) \<or>
      (first_non_whitespace_ix s \<noteq> None \<and> last_candidate_ix s' = ix \<and> last_candidate_width s' = ws_width s)) \<and>
     first_non_whitespace_ix s' =
       (if c \<noteq> space \<and> first_non_whitespace_ix s = None then Some ix else first_non_whitespace_ix s)"

lemma char_noted_cases:
  assumes "char_noted ix c s s'"
  shows "ws_width s' = ws_width s" "ws_indent s' = ws_indent s" "last_wrap_ix s' = last_wrap_ix s"
    "ws_index s' = ws_index s"
    "(last_candidate_ix s' = last_candidate_ix s \<and> last_candidate_width s' = last_candidate_width s) \<or>
     (first_non_whitespace_ix s \<noteq> None \<and> last_candidate_ix s' = ix \<and> last_candidate_width s' = ws_width s)"
    "first_non_whitespace_ix s' =
       (if c \<noteq> space \<and> first_non_whitespace_ix s = None then Some ix else first_non_whitespace_ix s)"
  using assms unfolding char_noted_def by blast+

lemma wrap_item_noted:
  assumes "wrap_item cw ix (Char_Candidate c) s = (s', item_width, c')"
  shows "item_width = cw c" "char_noted ix c s s'"
  using assms by (auto simp: char_noted_def Let_def set_candidate_def split: if_splits)

lemma first_ok_next:
  assumes "first_ok t n L first indent" "L \<le> n" "n < length t"
  shows "first_ok t (Suc n) L (if t ! n \<noteq> space \<and> first = None then Some (byte_len (take n t)) else first) indent"
proof (cases first)
  case None
  then have "indent = None" "\<forall>j\<in>{L..<n}. t ! j = space" using assms(1) by (simp_all add: first_ok_def)
  then show ?thesis using None assms(2) by (auto simp: first_ok_def less_Suc_eq intro!: exI [of _ n])
next
  case (Some x)
  then obtain F where "F < n" "x = byte_len (take F t)" "indent = None \<longrightarrow> L \<le> F \<and> (\<forall>j\<in>{L..<F}. t ! j = space)"
    using assms(1) by (auto simp: first_ok_def)
  then show ?thesis using Some by (auto simp: first_ok_def intro!: exI [of _ F])
qed

lemma cand_ok_next:
  assumes inv: "wrap_inv t w wrap_width n L s" and n: "n < length t"
    and item: "char_noted (byte_len (take n t)) c s' s2"
    and s': "s' = s\<lparr>ws_index := m\<rparr>"
  shows "cand_ok t w (Suc n) L (line_indent L (ws_indent s)) (first_non_whitespace_ix s2) (last_candidate_ix s2)
    (last_candidate_width s2)"
proof -
  note f = char_noted_cases [OF item]
  have first: "first_non_whitespace_ix s = Some x \<Longrightarrow> first_non_whitespace_ix s2 = Some x" for x using f(6) s' by simp
  from f(5) show ?thesis
  proof
    assume same: "last_candidate_ix s2 = last_candidate_ix s' \<and> last_candidate_width s2 = last_candidate_width s'"
    have "cand_ok t w n L (line_indent L (ws_indent s)) (first_non_whitespace_ix s) (last_candidate_ix s) (last_candidate_width s)"
      using inv by (simp add: wrap_inv_def)
    then show ?thesis using same first s' unfolding cand_ok_def by (auto intro: less_SucI)
  next
    assume new: "first_non_whitespace_ix s' \<noteq> None \<and> last_candidate_ix s2 = byte_len (take n t) \<and>
      last_candidate_width s2 = ws_width s'"
    then obtain F where F: "F < n" "first_non_whitespace_ix s = Some (byte_len (take F t))" "ws_indent s = None \<longrightarrow> L \<le> F"
      using inv s' by (auto simp: wrap_inv_def first_ok_def split: option.splits)
    have "L < n" using inv F(1,3) by (auto simp: wrap_inv_def)
    moreover have "last_candidate_width s2 = of_nat (line_indent L (ws_indent s) + (n - L)) * w"
      using new inv s' by (simp add: wrap_inv_def)
    ultimately show ?thesis using new F first unfolding cand_ok_def by blast
  qed
qed

section \<open>A line is ended\<close>

text \<open>The indent kept after the first break of a line with text in it.\<close>

definition new_indent :: "nat option \<Rightarrow> nat option \<Rightarrow> nat \<Rightarrow> nat option" where
  "new_indent indent first last_wrap =
     (case (indent, first) of (None, Some x) \<Rightarrow> Some (min MAX_INDENT ((x - last_wrap) mod 2 ^ 32)) | _ \<Rightarrow> indent)"

lemma new_indent_bound:
  assumes "first_ok t n L first indent" "n \<le> length t" "\<And>i. indent = Some i \<Longrightarrow> i \<le> MAX_INDENT"
    and "new_indent indent first (byte_len (take L t)) = Some i"
  shows "i \<le> MAX_INDENT" "indent = None \<Longrightarrow> \<exists>F<n. first = Some (byte_len (take F t)) \<and> L \<le> F \<and> i \<le> F - L"
proof -
  show "i \<le> MAX_INDENT" using assms(3,4) by (auto simp: new_indent_def split: option.splits)
  assume none: "indent = None"
  then obtain x where x: "first = Some x" "i = min MAX_INDENT ((x - byte_len (take L t)) mod 2 ^ 32)"
    using assms(4) by (auto simp: new_indent_def split: option.splits)
  then obtain F where F: "F < n" "x = byte_len (take F t)" "L \<le> F" "\<forall>j\<in>{L..<F}. t ! j = space"
    using assms(1) none by (auto simp: first_ok_def)
  have "x - byte_len (take L t) = F - L" using byte_len_spaces [OF F(3) _ F(4)] F(1,2) assms(2) by simp
  then have "i \<le> F - L" using x(2) by (metis min.coboundedI2 mod_less_eq_dividend)
  then show "\<exists>F<n. first = Some (byte_len (take F t)) \<and> L \<le> F \<and> i \<le> F - L" using F x by blast
qed

lemma wrap_overflow_eq:
  "wrap_overflow cw ix item_width s =
     (let indent = new_indent (ws_indent s) (first_non_whitespace_ix s) (last_wrap_ix s);
          wrap = (if 0 < last_candidate_ix s then last_candidate_ix s else ix);
          width = (if 0 < last_candidate_ix s then ws_width s - last_candidate_width s else item_width) in
      (\<lparr>boundary_ix = wrap, next_indent = (case indent of Some i \<Rightarrow> i | None \<Rightarrow> 0)\<rparr>,
       s\<lparr>ws_indent := indent, last_wrap_ix := wrap, last_candidate_ix := 0,
         ws_width := width + (case indent of Some i \<Rightarrow> cw space * of_nat i | None \<Rightarrow> 0)\<rparr>))"
  by (cases s) (auto simp: wrap_overflow_def new_indent_def Let_def split: option.splits)

lemma byte_len_take_inj: "byte_len (take i t) = byte_len (take j t) \<Longrightarrow> i \<le> length t \<Longrightarrow> j \<le> length t \<Longrightarrow> i = j"
  using byte_len_take_less [of i j t] byte_len_take_less [of j i t] by (metis less_irrefl linorder_neqE_nat)

lemma of_nat_mono_mult: "m \<le> n \<Longrightarrow> 0 \<le> (w :: 'u::linordered_idom) \<Longrightarrow> of_nat m * w \<le> of_nat n * w"
  by (simp add: mult_right_mono)

lemma fits_shorter:
  assumes "fits w wrap_width ind n" "ind' + m \<le> ind + n" "n \<le> 1 \<longrightarrow> m \<le> 1" "0 \<le> w"
  shows "fits w wrap_width ind' m"
proof (cases "n \<le> 1")
  case False
  then have "of_nat (ind + n) * w \<le> wrap_width" using assms(1) by (simp add: fits_def)
  then have "of_nat (ind' + m) * w \<le> wrap_width" using of_nat_mono_mult [OF assms(2,4)] order_trans by blast
  then show ?thesis unfolding fits_def by blast
qed (use assms(3) in \<open>simp add: fits_def\<close>)

text \<open>Where a line is broken: after its start, at most at the character that did not fit.\<close>

definition line_broken :: "ucs list \<Rightarrow> 'u::linordered_idom \<Rightarrow> 'u \<Rightarrow> nat \<Rightarrow> nat \<Rightarrow> nat \<Rightarrow> bool" where
  "line_broken t w wrap_width a indent i \<longleftrightarrow> a < i \<and> i < length t \<and> fits w wrap_width indent (i - a) \<and>
     (\<exists>last. i \<le> last \<and> last < length t \<and> wrap_width < of_nat (indent + (Suc last - a)) * w)"

lemma wrap_overflow_ok:
  assumes inv: "wrap_inv t w wrap_width n L s" and n: "n < length t" and w: "0 \<le> w"
    and item: "char_noted (byte_len (take n t)) (t ! n) (s\<lparr>ws_index := byte_len (take (Suc n) t)\<rparr>) s2"
    and cw: "cw space = w" and full: "wrap_width < ws_width s2 + w" and L: "L < n"
    and over: "wrap_overflow cw (byte_len (take n t)) w (s2\<lparr>ws_width := ws_width s2 + w\<rparr>) = (b, s')"
  shows "\<exists>i. boundary_ix b = byte_len (take i t) \<and> line_broken t w wrap_width L (line_indent L (ws_indent s)) i \<and>
    next_indent b \<le> MAX_INDENT \<and> next_indent b = line_indent i (ws_indent s') \<and> wrap_inv t w wrap_width (Suc n) i s'"
proof -
  let ?s = "s\<lparr>ws_index := byte_len (take (Suc n) t)\<rparr>" and ?ind = "line_indent L (ws_indent s)"
  note f = char_noted_cases [OF item]
  have cand: "cand_ok t w (Suc n) L ?ind (first_non_whitespace_ix s2) (last_candidate_ix s2) (last_candidate_width s2)"
    by (rule cand_ok_next [OF inv n item]) simp
  have first: "first_ok t (Suc n) L (first_non_whitespace_ix s2) (ws_indent s)"
  proof -
    have eq: "first_non_whitespace_ix s2 =
        (if t ! n \<noteq> space \<and> first_non_whitespace_ix s = None then Some (byte_len (take n t)) else first_non_whitespace_ix s)"
      using f(6) by simp
    have "first_ok t n L (first_non_whitespace_ix s) (ws_indent s)" using inv by (simp add: wrap_inv_def)
    then show ?thesis unfolding eq by (rule first_ok_next) (use n L in simp_all)
  qed
  have s2: "ws_indent s2 = ws_indent s" "last_wrap_ix s2 = byte_len (take L t)" "ws_index s2 = byte_len (take (Suc n) t)"
    "ws_width s2 = of_nat (?ind + (n - L)) * w" using f inv by (simp_all add: wrap_inv_def)
  have fitn: "fits w wrap_width ?ind (n - L)" and bound: "\<And>i. ws_indent s = Some i \<Longrightarrow> 0 < L \<and> i \<le> MAX_INDENT"
    using inv by (simp_all add: wrap_inv_def)
  have full': "wrap_width < of_nat (?ind + (Suc n - L)) * w" using full L by (simp add: s2(4) Suc_diff_le algebra_simps)
  define indent where "indent = new_indent (ws_indent s) (first_non_whitespace_ix s2) (byte_len (take L t))"
  define i where "i = (case indent of Some i \<Rightarrow> i | None \<Rightarrow> 0)"
  have indent_bound: "indent = Some k \<Longrightarrow> k \<le> MAX_INDENT"
    "indent = Some k \<Longrightarrow> ws_indent s = None \<Longrightarrow>
       \<exists>F<Suc n. first_non_whitespace_ix s2 = Some (byte_len (take F t)) \<and> L \<le> F \<and> k \<le> F - L" for k
    using new_indent_bound [OF first, of k] n bound indent_def by auto
  have i_max: "i \<le> MAX_INDENT" using indent_bound(1) by (auto simp: i_def MAX_INDENT_def split: option.splits)
  have line: "line_indent k indent = i" if "0 < k" for k using that by (simp add: line_indent_def i_def)
  have broken: "line_broken t w wrap_width L ?ind k" if "L < k" "k \<le> n" for k
  proof -
    have "fits w wrap_width ?ind (k - L)"
      by (rule fits_shorter [OF fitn _ _ w]) (use that in auto)
    moreover have "k \<le> n \<and> n < length t \<and> wrap_width < of_nat (?ind + (Suc n - L)) * w" using that n full' by simp
    ultimately show ?thesis unfolding line_broken_def using that n by fastforce
  qed
  show ?thesis
  proof (cases "last_candidate_ix s2 = 0")
    case True
    then have b: "b = \<lparr>boundary_ix = byte_len (take n t), next_indent = i\<rparr>"
      "s' = s2\<lparr>ws_indent := indent, last_wrap_ix := byte_len (take n t), last_candidate_ix := 0,
         ws_width := w + of_nat i * w\<rparr>"
      using over s2(1,2) cw by (auto simp: wrap_overflow_eq Let_def indent_def i_def split: option.splits)
    have "first_ok t (Suc n) n (first_non_whitespace_ix s2) indent"
      using first L by (auto simp: first_ok_def indent_def new_indent_def split: option.splits)
    then have "wrap_inv t w wrap_width (Suc n) n s'"
      using n L s2(3) line [of n] indent_bound(1) by (auto simp: wrap_inv_def b(2) cand_ok_def fits_def algebra_simps)
    then show ?thesis using broken [of n] L i_max line [of n] unfolding b by (intro exI [of _ n]) (simp add: b)
  next
    case False
    then obtain C F where C: "L < C" "C < Suc n" "last_candidate_ix s2 = byte_len (take C t)"
      "last_candidate_width s2 = of_nat (?ind + (C - L)) * w" "F < C" "first_non_whitespace_ix s2 = Some (byte_len (take F t))"
      using cand unfolding cand_ok_def by blast
    have width: "ws_width s2 + w - last_candidate_width s2 = of_nat (Suc n - C) * w"
    proof -
      have "?ind + (n - L) + 1 = ?ind + (C - L) + (Suc n - C)" using C L by simp
      then have "of_nat (?ind + (n - L) + 1) * w = of_nat (?ind + (C - L) + (Suc n - C)) * w" by (simp only:)
      then have "ws_width s2 + w = last_candidate_width s2 + of_nat (Suc n - C) * w"
        unfolding s2(4) C(4) by (simp only: of_nat_add distrib_right of_nat_1 mult_1)
      then show ?thesis by simp
    qed
    obtain k where k: "indent = Some k"
      using C(6) by (cases "ws_indent s") (auto simp: indent_def new_indent_def)
    then have ki: "i = k" by (simp add: i_def)
    from False width C(3) have b: "b = \<lparr>boundary_ix = byte_len (take C t), next_indent = k\<rparr>"
      "s' = s2\<lparr>ws_indent := Some k, last_wrap_ix := byte_len (take C t), last_candidate_ix := 0,
         ws_width := of_nat (Suc n - C) * w + of_nat k * w\<rparr>"
      using over s2(1,2) cw k by (auto simp: wrap_overflow_eq Let_def indent_def [symmetric])
    have less: "k + (Suc n - C) \<le> ?ind + (n - L)"
    proof (cases "ws_indent s")
      case None
      then obtain F' where "F' < Suc n" "byte_len (take F t) = byte_len (take F' t)" "L \<le> F'" "k \<le> F' - L"
        using indent_bound(2) [OF k] C(6) by auto
      moreover from this have "F' = F" using C n by (intro byte_len_take_inj [of F' t F]) auto
      ultimately show ?thesis using C L by simp
    next
      case (Some k')
      then have "k' = k" "0 < L" using k bound by (auto simp: indent_def new_indent_def)
      then show ?thesis using C Some L by (simp add: line_indent_def)
    qed
    have "fits w wrap_width k (Suc n - C)"
    proof (cases "C = n")
      case False
      then have "\<not> n - L \<le> 1" using C L by simp
      then show ?thesis by (intro fits_shorter [OF fitn less _ w]) simp
    qed (simp add: fits_def)
    moreover have "first_ok t (Suc n) C (first_non_whitespace_ix s2) (Some k)"
      using first C(6) by (auto simp: first_ok_def)
    ultimately have "wrap_inv t w wrap_width (Suc n) C s'"
      using n C(1,2) s2(3) indent_bound(1) [OF k]
      by (auto simp: wrap_inv_def b(2) cand_ok_def line_indent_def algebra_simps)
    then show ?thesis
      using broken [of C] C i_max ki unfolding b by (intro exI [of _ C]) (simp add: line_indent_def)
  qed
qed

section \<open>All lines\<close>

text \<open>
  From the line that starts at character \<open>a\<close>: every line fits with its indent or is a single
  character, and every break is at the start of a character and was needed.
\<close>

fun lines_ok :: "ucs list \<Rightarrow> 'u::linordered_idom \<Rightarrow> 'u \<Rightarrow> nat \<Rightarrow> nat \<Rightarrow> boundary list \<Rightarrow> bool" where
  "lines_ok t w wrap_width a indent [] = fits w wrap_width indent (length t - a)"
| "lines_ok t w wrap_width a indent (b # bs) =
     (\<exists>i. boundary_ix b = byte_len (take i t) \<and> line_broken t w wrap_width a indent i \<and>
        next_indent b \<le> MAX_INDENT \<and> lines_ok t w wrap_width i (next_indent b) bs)"

lemma noted_width:
  assumes "wrap_inv t w wrap_width n L s" "char_noted ix c (s\<lparr>ws_index := k\<rparr>) s2"
  shows "ws_width s2 + w = of_nat (line_indent L (ws_indent s) + (Suc n - L)) * w"
proof -
  have "L \<le> n" using assms(1) by (auto simp: wrap_inv_def)
  then show ?thesis
    using assms(1) char_noted_cases(1) [OF assms(2)] by (simp add: wrap_inv_def Suc_diff_le algebra_simps)
qed

text \<open>A character that does not end the line stays on it.\<close>

lemma char_kept:
  assumes inv: "wrap_inv t w wrap_width n L s" and n: "n < length t"
    and item: "char_noted (byte_len (take n t)) (t ! n) (s\<lparr>ws_index := byte_len (take (Suc n) t)\<rparr>) s2"
    and room: "\<not> (wrap_width < ws_width s2 + w \<and> L < n)"
  shows "wrap_inv t w wrap_width (Suc n) L (s2\<lparr>ws_width := ws_width s2 + w, prev_c := c'\<rparr>)"
proof -
  let ?ind = "line_indent L (ws_indent s)"
  note f = char_noted_cases [OF item] and width = noted_width [OF inv item]
  have L: "L \<le> n" using inv by (auto simp: wrap_inv_def)
  have "fits w wrap_width ?ind (Suc n - L)"
    using room L width by (cases "L = n") (auto simp: fits_def not_less)
  moreover have "cand_ok t w (Suc n) L ?ind (first_non_whitespace_ix s2) (last_candidate_ix s2) (last_candidate_width s2)"
    by (rule cand_ok_next [OF inv n item]) simp
  moreover have "first_ok t (Suc n) L (first_non_whitespace_ix s2) (ws_indent s)"
  proof -
    have eq: "first_non_whitespace_ix s2 =
        (if t ! n \<noteq> space \<and> first_non_whitespace_ix s = None then Some (byte_len (take n t)) else first_non_whitespace_ix s)"
      using f(6) by simp
    have "first_ok t n L (first_non_whitespace_ix s) (ws_indent s)" using inv by (simp add: wrap_inv_def)
    then show ?thesis unfolding eq by (rule first_ok_next) (use n L in auto)
  qed
  ultimately show ?thesis
    using inv n f width L unfolding wrap_inv_def by auto
qed

lemma wrap_step_ok:
  assumes inv: "wrap_inv t w wrap_width n L s" and n: "n < length t" and w: "0 \<le> w" "\<And>c. cw c = w" and c: "t ! n \<noteq> newline"
    and step: "wrap_step cw wrap_width (Char_Candidate (t ! n)) s = (r, s')"
  shows "case r of
      None \<Rightarrow> wrap_inv t w wrap_width (Suc n) L s' \<and> line_indent L (ws_indent s') = line_indent L (ws_indent s)
    | Some b \<Rightarrow> \<exists>i. boundary_ix b = byte_len (take i t) \<and> line_broken t w wrap_width L (line_indent L (ws_indent s)) i \<and>
        next_indent b \<le> MAX_INDENT \<and> next_indent b = line_indent i (ws_indent s') \<and> wrap_inv t w wrap_width (Suc n) i s'"
proof -
  let ?s = "s\<lparr>ws_index := byte_len (take (Suc n) t)\<rparr>" and ?ind = "line_indent L (ws_indent s)"
  have ix: "ws_index s = byte_len (take n t)" "last_wrap_ix s = byte_len (take L t)" "L \<le> n"
    using inv by (auto simp: wrap_inv_def)
  obtain s2 iw c' where item0: "wrap_item cw (byte_len (take n t)) (Char_Candidate (t ! n)) ?s = (s2, iw, c')"
    by (metis prod_cases3)
  note noted = wrap_item_noted [OF item0]
  note f = char_noted_cases [OF noted(2)]
  have item: "wrap_item cw (byte_len (take n t)) (Char_Candidate (t ! n)) ?s = (s2, w, c')" using item0 noted(1) w(2) by simp
  have pos: "last_wrap_ix s2 < byte_len (take n t) \<longleftrightarrow> L < n"
    using ix f(3) byte_len_take_less [of L n t] n by (cases "L = n") auto
  have upd: "s\<lparr>ws_index := ws_index s + candidate_len (Char_Candidate (t ! n))\<rparr> = ?s"
    using n by (simp add: ix(1) byte_len_take_Suc)
  show ?thesis
  proof (cases "wrap_width < ws_width s2 + w \<and> L < n")
    case True
    obtain b s3 where over: "wrap_overflow cw (byte_len (take n t)) w (s2\<lparr>ws_width := ws_width s2 + w\<rparr>) = (b, s3)"
      by fastforce
    have "r = Some b" "s' = s3"
      using step True c item over pos unfolding wrap_step_def Let_def unfolding upd unfolding ix(1) by (auto simp del: wrap_item.simps)
    then show ?thesis
      using wrap_overflow_ok [OF inv n w(1) noted(2) w(2) _ _ over] True by auto
  next
    case False
    have rs: "r = None" "s' = s2\<lparr>ws_width := ws_width s2 + w, prev_c := c'\<rparr>"
      using step False c item pos unfolding wrap_step_def Let_def unfolding upd unfolding ix(1) by (auto simp del: wrap_item.simps)
    have "wrap_inv t w wrap_width (Suc n) L s'"
      using char_kept [OF inv n noted(2) False] by (simp add: rs)
    then show ?thesis using f(2) by (simp add: rs)
  qed
qed

lemma wrap_from_ok:
  assumes w: "0 \<le> w" "\<And>c. cw c = w" and t: "newline \<notin> set t"
  shows "wrap_inv t w wrap_width n L s \<Longrightarrow>
    lines_ok t w wrap_width L (line_indent L (ws_indent s)) (wrap_from cw wrap_width (map Char_Candidate (drop n t)) s)"
proof (induction "length t - n" arbitrary: n L s)
  case 0
  then have "n = length t" by (simp add: wrap_inv_def)
  then show ?case using 0 by (simp add: wrap_inv_def)
next
  case (Suc d)
  then have n: "n < length t" by simp
  have drop: "drop n t = t ! n # drop (Suc n) t" using n by (simp add: Cons_nth_drop_Suc)
  obtain r s' where step: "wrap_step cw wrap_width (Char_Candidate (t ! n)) s = (r, s')" by fastforce
  have "t ! n \<noteq> newline" using t n nth_mem by metis
  note ok = wrap_step_ok [OF Suc.prems n w this step]
  have d: "d = length t - Suc n" using Suc.hyps(2) by simp
  show ?case
  proof (cases r)
    case None
    then show ?thesis using ok Suc.hyps(1) [OF d, of L s'] step by (simp add: drop)
  next
    case (Some b)
    then obtain i where i: "boundary_ix b = byte_len (take i t)" "line_broken t w wrap_width L (line_indent L (ws_indent s)) i"
      "next_indent b \<le> MAX_INDENT" "next_indent b = line_indent i (ws_indent s')" "wrap_inv t w wrap_width (Suc n) i s'"
      using ok by auto
    from Suc.hyps(1) [OF d i(5)] i show ?thesis using step Some by (auto simp: drop)
  qed
qed

lemma wrap_line_ok:
  assumes "0 \<le> w" "\<And>c. cw c = w" "newline \<notin> set t"
  shows "lines_ok t w wrap_width 0 0 (wrap_line cw [Text t] wrap_width)"
  using wrap_from_ok [OF assms wrap_start_inv] by (simp add: wrap_line_def line_indent_def)

end
