(* ===== verification/Text_Truncate.thy ===== *)
theory Text_Truncate
  imports Text_Wrap_Correct Complex_Main
begin

text \<open>
  Truncating a line of text with an affix, and the style runs of the result
  (\<open>gpui/src/text_system/line_wrapper.rs\<close>).
\<close>

section \<open>Slices and trimming\<close>

text \<open>Cutting a string at a byte offset panics inside a character and beyond the end.\<close>

fun split_at :: "nat \<Rightarrow> ucs list \<Rightarrow> (ucs list \<times> ucs list) option" where
  "split_at ix [] = (if ix = 0 then Some ([], []) else None)"
| "split_at ix (c # s) =
     (if ix = 0 then Some ([], c # s)
      else if ix < len_utf8 c then None
      else do { (a, b) \<leftarrow> split_at (ix - len_utf8 c) s; Some (c # a, b) })"

definition str_to :: "ucs list \<Rightarrow> nat \<Rightarrow> ucs list option" where
  "str_to s ix = map_option fst (split_at ix s)"

definition str_from :: "ucs list \<Rightarrow> nat \<Rightarrow> ucs list option" where
  "str_from s ix = map_option snd (split_at ix s)"

definition ceil_char_boundary :: "ucs list \<Rightarrow> nat \<Rightarrow> nat" where
  "ceil_char_boundary s ix =
     (case filter (\<lambda>j. ix \<le> j) (map fst (char_indices s)) of [] \<Rightarrow> byte_len s | j # _ \<Rightarrow> j)"

definition char_is_whitespace :: "ucs \<Rightarrow> bool" where
  "char_is_whitespace c \<longleftrightarrow> between 9 13 c \<or> c \<in> set [0x20, 0x85, 0xA0, 0x1680, 0x2028, 0x2029, 0x202F, 0x205F, 0x3000] \<or>
     between 0x2000 0x200A c"

definition is_ascii_punctuation :: "ucs \<Rightarrow> bool" where
  "is_ascii_punctuation c \<longleftrightarrow> between 33 47 c \<or> between 58 64 c \<or> between 91 96 c \<or> between 123 126 c"

definition trim_end_matches :: "(ucs \<Rightarrow> bool) \<Rightarrow> ucs list \<Rightarrow> ucs list" where
  "trim_end_matches P s = rev (dropWhile P (rev s))"

definition trim_tail :: "ucs list \<Rightarrow> ucs list" where
  "trim_tail = trim_end_matches (\<lambda>c. char_is_whitespace c \<or> is_ascii_punctuation c)"

section \<open>Where to truncate\<close>

datatype truncate_from = Start | End | Middle

definition text_width :: "(ucs \<Rightarrow> 'u::floor_ceiling) \<Rightarrow> ucs list \<Rightarrow> 'u" where
  "text_width cw s = sum_list (map cw s)"

fun truncate_scan :: "(ucs \<Rightarrow> 'u::floor_ceiling) \<Rightarrow> 'u \<Rightarrow> 'u \<Rightarrow> (nat \<times> ucs) list \<Rightarrow> 'u \<Rightarrow> nat \<Rightarrow> nat option" where
  "truncate_scan cw truncate_width suffix_width [] width truncate_ix = None"
| "truncate_scan cw truncate_width suffix_width ((ix, c) # rest) width truncate_ix =
     (let truncate_ix = (if width + suffix_width < truncate_width then ix else truncate_ix);
          width = width + cw c in
      if truncate_width < of_int \<lfloor>width\<rfloor> then Some truncate_ix
      else truncate_scan cw truncate_width suffix_width rest width truncate_ix)"

definition should_truncate_line ::
  "(ucs \<Rightarrow> 'u::floor_ceiling) \<Rightarrow> ucs list \<Rightarrow> 'u \<Rightarrow> ucs list \<Rightarrow> truncate_from \<Rightarrow> nat option" where
  "should_truncate_line cw line truncate_width affix from =
     (let suffix_width = text_width cw affix in
      case from of
        Start \<Rightarrow> truncate_scan cw truncate_width suffix_width (rev (char_indices line)) 0 0
      | End \<Rightarrow> truncate_scan cw truncate_width suffix_width (char_indices line) 0 0
      | Middle \<Rightarrow> None)"

text \<open>The longest front, or back, within a budget.\<close>

fun front_scan :: "(ucs \<Rightarrow> 'u::floor_ceiling) \<Rightarrow> 'u \<Rightarrow> (nat \<times> ucs) list \<Rightarrow> 'u \<Rightarrow> nat \<Rightarrow> nat" where
  "front_scan cw budget [] width end_ix = end_ix"
| "front_scan cw budget ((ix, c) # rest) width end_ix =
     (if budget < width + cw c then end_ix else front_scan cw budget rest (width + cw c) (ix + len_utf8 c))"

fun back_scan :: "(ucs \<Rightarrow> 'u::floor_ceiling) \<Rightarrow> 'u \<Rightarrow> (nat \<times> ucs) list \<Rightarrow> 'u \<Rightarrow> nat \<Rightarrow> nat" where
  "back_scan cw budget [] width start_ix = start_ix"
| "back_scan cw budget ((ix, c) # rest) width start_ix =
     (if budget < width + cw c then start_ix else back_scan cw budget rest (width + cw c) ix)"

definition should_truncate_line_middle ::
  "(ucs \<Rightarrow> 'u::floor_ceiling) \<Rightarrow> ucs list \<Rightarrow> 'u \<Rightarrow> ucs list \<Rightarrow> (nat \<times> nat) option" where
  "should_truncate_line_middle cw line truncate_width affix =
     (let suffix_width = text_width cw affix; total_width = text_width cw line in
      if total_width \<le> truncate_width then None
      else let content_budget = truncate_width - suffix_width in
        if content_budget \<le> 0 then Some (0, byte_len line)
        else let front_budget = content_budget * (2 / 3);
                 back_budget = content_budget - front_budget;
                 front_end_ix = front_scan cw front_budget (char_indices line) 0 0;
                 back_start_ix = back_scan cw back_budget (rev (char_indices line)) 0 (byte_len line) in
          if back_start_ix \<le> front_end_ix then Some (0, byte_len line) else Some (front_end_ix, back_start_ix))"

section \<open>The runs of the result\<close>

record 'd text_run =
  run_len :: nat
  run_style :: 'd

text \<open>Walking over whole runs, and the run in which the truncation falls takes the affix.\<close>

fun truncate_runs :: "nat \<Rightarrow> nat \<Rightarrow> 'd text_run list \<Rightarrow> 'd text_run list" where
  "truncate_runs truncate_at affix [] = []"
| "truncate_runs truncate_at affix (run # runs) =
     (if run_len run \<le> truncate_at then run # truncate_runs (truncate_at - run_len run) affix runs
      else [run\<lparr>run_len := truncate_at + affix\<rparr>])"

definition update_runs_after_truncation ::
  "ucs list \<Rightarrow> ucs list \<Rightarrow> 'd text_run list \<Rightarrow> truncate_from \<Rightarrow> 'd text_run list option" where
  "update_runs_after_truncation result ellipsis runs from =
     (if byte_len result < byte_len ellipsis then None
      else let truncate_at = byte_len result - byte_len ellipsis in
        case from of
          Start \<Rightarrow> Some (rev (truncate_runs truncate_at (byte_len ellipsis) (rev runs)))
        | End \<Rightarrow> Some (truncate_runs truncate_at (byte_len ellipsis) runs)
        | Middle \<Rightarrow> None)"

fun front_runs :: "nat \<Rightarrow> nat \<Rightarrow> 'd text_run list \<Rightarrow> 'd text_run list \<Rightarrow> 'd text_run list \<times> bool" where
  "front_runs remaining affix [] acc = (acc, False)"
| "front_runs remaining affix (run # runs) acc =
     (if run_len run \<le> remaining then front_runs (remaining - run_len run) affix runs (acc @ [run])
      else (acc @ [run\<lparr>run_len := remaining + affix\<rparr>], True))"

fun back_runs :: "nat \<Rightarrow> nat \<Rightarrow> 'd text_run list \<Rightarrow> 'd text_run list" where
  "back_runs back_start byte_pos [] = []"
| "back_runs back_start byte_pos (run # runs) =
     (let run_end = byte_pos + run_len run in
      (if back_start < run_end
       then (if byte_pos < back_start then [run\<lparr>run_len := run_end - back_start\<rparr>] else [run])
       else []) @ back_runs back_start run_end runs)"

definition update_runs_after_middle_truncation ::
  "ucs list \<Rightarrow> 'd text_run list \<Rightarrow> nat \<Rightarrow> nat \<Rightarrow> 'd text_run list" where
  "update_runs_after_middle_truncation ellipsis runs front_end_ix back_start_ix =
     (let (result_runs, front_done) = front_runs front_end_ix (byte_len ellipsis) runs [];
          result_runs =
            (if front_done then result_runs
             else if result_runs \<noteq> []
             then butlast result_runs @ [(last result_runs)\<lparr>run_len := run_len (last result_runs) + byte_len ellipsis\<rparr>]
             else case runs of run # _ \<Rightarrow> [run\<lparr>run_len := byte_len ellipsis\<rparr>] | [] \<Rightarrow> []) in
      result_runs @ back_runs back_start_ix 0 runs)"

section \<open>Truncating\<close>

definition truncate_line ::
  "(ucs \<Rightarrow> 'u::floor_ceiling) \<Rightarrow> ucs list \<Rightarrow> 'u \<Rightarrow> ucs list \<Rightarrow> 'd text_run list \<Rightarrow> truncate_from \<Rightarrow>
   (ucs list \<times> 'd text_run list) option" where
  "truncate_line cw line truncate_width affix runs from =
     (if from = Middle
      then case should_truncate_line_middle cw line truncate_width affix of
             Some (front_end_ix, back_start_ix) \<Rightarrow>
               do { front \<leftarrow> str_to line front_end_ix;
                    back \<leftarrow> str_from line back_start_ix;
                    Some (front @ affix @ back, update_runs_after_middle_truncation affix runs front_end_ix back_start_ix) }
           | None \<Rightarrow> Some (line, runs)
      else case should_truncate_line cw line truncate_width affix from of
             Some truncate_ix \<Rightarrow>
               do { result \<leftarrow>
                      (if from = Start
                       then map_option (\<lambda>s. affix @ s) (str_from line (ceil_char_boundary line (truncate_ix + 1)))
                       else map_option (\<lambda>s. trim_tail s @ affix) (str_to line truncate_ix));
                    runs \<leftarrow> update_runs_after_truncation result affix runs from;
                    Some (result, runs) }
           | None \<Rightarrow> Some (line, runs))"

record 'u truncate_state =
  ts_width :: 'u
  ts_line :: nat
  ts_first :: "nat option"
  ts_candidate_ix :: nat
  ts_candidate_width :: 'u
  ts_wrap_ix :: nat
  ts_prev_c :: ucs
  ts_indent :: "nat option"
  ts_cut :: nat

definition truncate_start :: "'u::floor_ceiling truncate_state" where
  "truncate_start = \<lparr>ts_width = 0, ts_line = 0, ts_first = None, ts_candidate_ix = 0, ts_candidate_width = 0,
     ts_wrap_ix = 0, ts_prev_c = 0, ts_indent = None, ts_cut = 0\<rparr>"

text \<open>The end of a line before the last allowed one.\<close>

definition truncate_wrap :: "(ucs \<Rightarrow> 'u::floor_ceiling) \<Rightarrow> nat \<Rightarrow> 'u \<Rightarrow> 'u truncate_state \<Rightarrow> 'u truncate_state" where
  "truncate_wrap cw ix char_width s =
     (let s = (case (ts_indent s, ts_first s) of
                 (None, Some first) \<Rightarrow> s\<lparr>ts_indent := Some (min MAX_INDENT ((first - ts_wrap_ix s) mod 2 ^ 32))\<rparr>
               | _ \<Rightarrow> s);
          s = (if ts_wrap_ix s < ts_candidate_ix s
               then s\<lparr>ts_wrap_ix := ts_candidate_ix s, ts_width := ts_width s - ts_candidate_width s, ts_candidate_ix := 0\<rparr>
               else s\<lparr>ts_wrap_ix := ix, ts_width := char_width\<rparr>);
          s = (case ts_indent s of
                 Some indent \<Rightarrow> s\<lparr>ts_width := ts_width s + cw space * of_nat indent\<rparr>
               | None \<Rightarrow> s) in
      s\<lparr>ts_line := ts_line s + 1, ts_cut := ts_wrap_ix s\<rparr>)"

text \<open>One character: \<open>Inl\<close> answers where the text is to be cut.\<close>

definition truncate_char ::
  "(ucs \<Rightarrow> 'u::floor_ceiling) \<Rightarrow> 'u \<Rightarrow> nat \<Rightarrow> 'u \<Rightarrow> ucs list \<Rightarrow> nat \<Rightarrow> ucs \<Rightarrow> 'u truncate_state \<Rightarrow>
   (nat + 'u truncate_state) option" where
  "truncate_char cw wrap_width max_lines affix_width text ix c s =
     (if c = newline
      then do { rest \<leftarrow> str_from text (ix + 1);
                Some (if max_lines - 1 \<le> ts_line s \<and> \<not> list_all char_is_whitespace rest then Inl (ts_cut s)
                      else Inr (s\<lparr>ts_line := ts_line s + 1, ts_width := 0, ts_first := None, ts_candidate_ix := 0,
                        ts_candidate_width := 0, ts_wrap_ix := ix + 1, ts_prev_c := 0, ts_indent := None,
                        ts_cut := ix + 1\<rparr>)) }
      else
        (let char_width = cw c;
             s = (if is_word_char c
                  then if ts_prev_c s = space \<and> ts_first s \<noteq> None
                       then s\<lparr>ts_candidate_ix := ix, ts_candidate_width := ts_width s\<rparr> else s
                  else if c \<noteq> space \<and> ts_first s \<noteq> None
                       then s\<lparr>ts_candidate_ix := ix, ts_candidate_width := ts_width s\<rparr> else s);
             s = (if c \<noteq> space \<and> ts_first s = None then s\<lparr>ts_first := Some ix\<rparr> else s);
             s = s\<lparr>ts_width := ts_width s + char_width\<rparr> in
         if ts_line s < max_lines - 1
         then (let s = (if wrap_width < ts_width s \<and> ts_wrap_ix s < ix then truncate_wrap cw ix char_width s else s) in
               Some (Inr (s\<lparr>ts_prev_c := c\<rparr>)))
         else (let s = (if ts_width s + affix_width \<le> wrap_width then s\<lparr>ts_cut := ix + len_utf8 c\<rparr> else s) in
               Some (if wrap_width < ts_width s then Inl (ts_cut s) else Inr (s\<lparr>ts_prev_c := c\<rparr>)))))"

fun truncate_chars ::
  "(ucs \<Rightarrow> 'u::floor_ceiling) \<Rightarrow> 'u \<Rightarrow> nat \<Rightarrow> 'u \<Rightarrow> ucs list \<Rightarrow> (nat \<times> ucs) list \<Rightarrow> 'u truncate_state \<Rightarrow> nat option option" where
  "truncate_chars cw wrap_width max_lines affix_width text [] s = Some None"
| "truncate_chars cw wrap_width max_lines affix_width text ((ix, c) # rest) s =
     do { r \<leftarrow> truncate_char cw wrap_width max_lines affix_width text ix c s;
          case r of
            Inl cut_ix \<Rightarrow> Some (Some cut_ix)
          | Inr s \<Rightarrow> truncate_chars cw wrap_width max_lines affix_width text rest s }"

definition truncate_wrapped_line ::
  "(ucs \<Rightarrow> 'u::floor_ceiling) \<Rightarrow> ucs list \<Rightarrow> 'u \<Rightarrow> nat \<Rightarrow> ucs list \<Rightarrow> 'd text_run list \<Rightarrow> truncate_from \<Rightarrow>
   (ucs list \<times> 'd text_run list) option" where
  "truncate_wrapped_line cw text wrap_width max_lines affix runs from =
     (if max_lines \<le> 1 \<or> from = Start then truncate_line cw text (wrap_width * of_nat max_lines) affix runs from
      else if from = Middle then truncate_line cw text wrap_width affix runs from
      else do { r \<leftarrow> truncate_chars cw wrap_width max_lines (text_width cw affix) text (char_indices text) truncate_start;
                case r of
                  Some truncate_ix \<Rightarrow>
                    do { s \<leftarrow> str_to text truncate_ix;
                         (let result = trim_tail s @ affix in
                          do { runs \<leftarrow> update_runs_after_truncation result affix runs End; Some (result, runs) }) }
                | None \<Rightarrow> Some (text, runs) })"

end
