(* ===== verification/Text_Truncate_Correct.thy ===== *)
theory Text_Truncate_Correct
  imports Text_Truncate
begin

text \<open>
  A truncated line fits, and its runs still cover it: every byte kept has the style it had.
\<close>

section \<open>Slices at character boundaries\<close>

lemma split_at_append: "split_at (byte_len a) (a @ b) = Some (a, b)"
proof (induction a)
  case (Cons c a)
  have "byte_len (c # a) \<noteq> 0" "\<not> byte_len (c # a) < len_utf8 c" "byte_len (c # a) - len_utf8 c = byte_len a" by simp_all
  then show ?case using Cons by simp
qed (cases b; simp)

lemma str_to_append [simp]: "str_to (a @ b) (byte_len a) = Some a"
  by (simp add: str_to_def split_at_append)

lemma str_from_append [simp]: "str_from (a @ b) (byte_len a) = Some b"
  by (simp add: str_from_def split_at_append)

lemma char_indices_from_append:
  "char_indices_from ix (a @ b) = char_indices_from ix a @ char_indices_from (ix + byte_len a) b"
  by (induction a arbitrary: ix) (simp_all add: add.assoc)

lemma char_indices_snoc [simp]: "char_indices (a @ [c]) = char_indices a @ [(byte_len a, c)]"
  by (simp add: char_indices_def char_indices_from_append)

lemma char_indices_below: "j \<in> fst ` set (char_indices_from ix a) \<Longrightarrow> ix \<le> j \<and> j < ix + byte_len a"
proof (induction a arbitrary: ix)
  case (Cons c a)
  then have "j = ix \<or> j \<in> fst ` set (char_indices_from (ix + len_utf8 c) a)" by auto
  then show ?case using Cons.IH by fastforce
qed simp

lemma ceil_char_boundary_next: "ceil_char_boundary (a @ c # b) (byte_len a + 1) = byte_len (a @ [c])"
proof -
  have "filter (\<lambda>j. byte_len a + 1 \<le> j) (map fst (char_indices_from 0 a)) = []"
    using char_indices_below [of _ 0 a] by (force simp: filter_empty_conv)
  moreover have "1 \<le> len_utf8 c" using len_utf8_pos [of c] by linarith
  ultimately show ?thesis
    by (cases b) (simp_all add: ceil_char_boundary_def char_indices_def char_indices_from_append)
qed

lemma trim_tail_prefix: "\<exists>s. a = trim_tail a @ s"
proof
  show "a = trim_tail a @ rev (takeWhile (\<lambda>c. char_is_whitespace c \<or> is_ascii_punctuation c) (rev a))"
    unfolding trim_tail_def trim_end_matches_def by (metis rev_append rev_rev_ident takeWhile_dropWhile_id)
qed

section \<open>Widths\<close>

lemma text_width_simps [simp]:
  "text_width cw [] = 0" "text_width cw (c # s) = cw c + text_width cw s" "text_width cw (s @ s') = text_width cw s + text_width cw s'"
  by (simp_all add: text_width_def)

lemma text_width_nonneg: "(\<And>c. 0 \<le> cw c) \<Longrightarrow> 0 \<le> text_width cw s"
  by (induction s) simp_all

lemma front_scan_fits:
  assumes "text_width cw a \<le> budget"
  shows "\<exists>x y. b = x @ y \<and> front_scan cw budget (char_indices_from (byte_len a) b) (text_width cw a) (byte_len a) = byte_len (a @ x) \<and>
    text_width cw (a @ x) \<le> budget"
  using assms
proof (induction b arbitrary: a)
  case (Cons c b)
  show ?case
  proof (cases "budget < text_width cw a + cw c")
    case True
    then show ?thesis using Cons.prems by (intro exI [of _ "[]"] exI [of _ "c # b"]) simp
  next
    case False
    then obtain x y where "b = x @ y" "text_width cw ((a @ [c]) @ x) \<le> budget"
      "front_scan cw budget (char_indices_from (byte_len (a @ [c])) b) (text_width cw (a @ [c])) (byte_len (a @ [c])) =
        byte_len ((a @ [c]) @ x)"
      using Cons.IH [of "a @ [c]"] by auto
    then show ?thesis using False by (intro exI [of _ "c # x"] exI [of _ y]) (simp add: add.assoc)
  qed
qed simp

lemma back_scan_fits:
  assumes "text_width cw b \<le> budget"
  shows "\<exists>x y. a = x @ y \<and> back_scan cw budget (rev (char_indices a)) (text_width cw b) (byte_len a) = byte_len x \<and>
    text_width cw (y @ b) \<le> budget"
  using assms
proof (induction a arbitrary: b rule: rev_induct)
  case Nil
  then show ?case by (simp add: char_indices_def)
next
  case (snoc c a)
  show ?case
  proof (cases "budget < text_width cw b + cw c")
    case True
    then show ?thesis using snoc.prems by (intro exI [of _ "a @ [c]"] exI [of _ "[]"]) simp
  next
    case False
    then obtain x y where "a = x @ y" "text_width cw (y @ (c # b)) \<le> budget"
      "back_scan cw budget (rev (char_indices a)) (text_width cw (c # b)) (byte_len a) = byte_len x"
      using snoc.IH [of "c # b"] by (auto simp: add.commute)
    moreover have "back_scan cw budget (rev (char_indices (a @ [c]))) (text_width cw b) (byte_len (a @ [c])) =
        back_scan cw budget (rev (char_indices a)) (text_width cw (c # b)) (byte_len a)"
      using False by (simp add: add.commute)
    ultimately show ?thesis by (metis append.assoc append_Cons append_Nil)
  qed
qed

text \<open>Truncating at the end: the text before the cut fits with the affix.\<close>

lemma truncate_scan_end:
  assumes "0 \<le> sw" "\<And>c. 0 \<le> cw c"
  shows "truncate_scan cw tw sw (char_indices_from (byte_len a) b) (text_width cw a) cut_ix = Some r \<Longrightarrow>
    (\<exists>x y. a @ b = x @ y \<and> cut_ix = byte_len x \<and> length x \<le> length a \<and> (x = [] \<or> text_width cw x + sw < tw)) \<Longrightarrow>
    \<exists>x c y. a @ b = x @ c # y \<and> r = byte_len x \<and> (x = [] \<or> text_width cw x + sw < tw)"
proof (induction b arbitrary: a cut_ix)
  case (Cons c b)
  let ?cut = "if text_width cw a + sw < tw then byte_len a else cut_ix"
  have inv: "\<exists>x y. a @ c # b = x @ y \<and> ?cut = byte_len x \<and> length x \<le> length a \<and> (x = [] \<or> text_width cw x + sw < tw)"
  proof (cases "text_width cw a + sw < tw")
    case True
    then show ?thesis by (intro exI [of _ a] exI [of _ "c # b"]) simp
  qed (use Cons.prems(2) in auto)
  show ?case
  proof (cases "tw < of_int \<lfloor>text_width cw a + cw c\<rfloor>")
    case True
    then have "r = ?cut" using Cons.prems(1) by (simp add: Let_def)
    with inv obtain x y where "a @ c # b = x @ y" "r = byte_len x" "length x \<le> length a" "x = [] \<or> text_width cw x + sw < tw"
      by blast
    then show ?thesis by (cases y) fastforce+
  next
    case False
    have "truncate_scan cw tw sw (char_indices_from (byte_len (a @ [c])) b) (text_width cw (a @ [c])) ?cut = Some r"
      using Cons.prems(1) False by (simp add: Let_def)
    moreover have "\<exists>x y. (a @ [c]) @ b = x @ y \<and> ?cut = byte_len x \<and> length x \<le> length (a @ [c]) \<and> (x = [] \<or> text_width cw x + sw < tw)"
      using inv by (metis (no_types) append.assoc append_Cons append_Nil length_append_singleton le_SucI)
    ultimately show ?thesis using Cons.IH [of "a @ [c]" ?cut] by simp
  qed
qed simp

lemma truncate_scan_start:
  assumes "0 \<le> sw" "\<And>c. 0 \<le> cw c"
  shows "truncate_scan cw tw sw (rev (char_indices a)) (text_width cw b) cut_ix = Some r \<Longrightarrow>
    (\<exists>x c y. a @ b = x @ c # y \<and> cut_ix = byte_len x \<and> text_width cw y + sw < tw) \<or> text_width cw b + sw < tw \<Longrightarrow>
    \<exists>x c y. a @ b = x @ c # y \<and> r = byte_len x \<and> text_width cw y + sw < tw"
proof (induction a arbitrary: b cut_ix rule: rev_induct)
  case Nil
  then show ?case by (simp add: char_indices_def)
next
  case (snoc c a)
  let ?cut = "if text_width cw b + sw < tw then byte_len a else cut_ix"
  have inv: "\<exists>x c' y. (a @ [c]) @ b = x @ c' # y \<and> ?cut = byte_len x \<and> text_width cw y + sw < tw"
    using snoc.prems(2) by auto
  show ?case
  proof (cases "tw < of_int \<lfloor>text_width cw b + cw c\<rfloor>")
    case True
    then show ?thesis using snoc.prems(1) inv by (simp add: Let_def)
  next
    case False
    have "truncate_scan cw tw sw (rev (char_indices a)) (text_width cw (c # b)) ?cut = Some r"
      using snoc.prems(1) False by (simp add: Let_def add.commute)
    then show ?thesis using snoc.IH [of "c # b" ?cut] inv by simp
  qed
qed

text \<open>A line left alone is wider than the limit by less than one pixel.\<close>

lemma truncate_scan_none:
  "truncate_scan cw tw sw xs width cut_ix = None \<Longrightarrow> width + sum_list (map (cw \<circ> snd) xs) < tw + 1 \<or> xs = []"
proof (induction cw tw sw xs width cut_ix rule: truncate_scan.induct)
  case (2 cw tw sw ix c rest width cut_ix)
  have floor: "\<not> tw < of_int \<lfloor>width + cw c\<rfloor>" using 2(2) by (auto simp: Let_def split: if_splits)
  then have "width + cw c < tw + 1" by linarith
  then show ?case using 2 floor by (cases "rest = []") (auto simp: Let_def add.assoc)
qed simp

lemma map_snd_char_indices: "map snd (char_indices_from ix s) = s"
  by (induction s arbitrary: ix) simp_all

section \<open>Runs\<close>

text \<open>The style of every byte.\<close>

definition spread :: "'d text_run list \<Rightarrow> 'd list" where
  "spread runs = concat (map (\<lambda>r. replicate (run_len r) (run_style r)) runs)"

lemma spread_simps [simp]:
  "spread [] = []" "spread (r # rs) = replicate (run_len r) (run_style r) @ spread rs" "spread (rs @ rs') = spread rs @ spread rs'"
  by (simp_all add: spread_def)

lemma spread_rev: "spread (rev rs) = rev (spread rs)"
  by (induction rs) simp_all

lemma take_replicate_append: "m < n \<Longrightarrow> take m (replicate n x @ xs) = replicate m x"
  by simp

lemma truncate_runs_spread:
  "m < length (spread runs) \<Longrightarrow> spread (truncate_runs m k runs) = take m (spread runs) @ replicate k (spread runs ! m)"
proof (induction m k runs rule: truncate_runs.induct)
  case (2 m k run runs)
  then show ?case by (auto simp: nth_append replicate_add)
qed simp

lemma truncate_runs_rev_spread:
  assumes "m < length (spread runs)"
  shows "\<exists>st. spread (rev (truncate_runs m k (rev runs))) = replicate k st @ drop (length (spread runs) - m) (spread runs)"
proof -
  have "spread (truncate_runs m k (rev runs)) = take m (rev (spread runs)) @ replicate k (rev (spread runs) ! m)"
    using truncate_runs_spread [of m "rev runs" k] assms by (simp add: spread_rev)
  then show ?thesis by (auto simp: spread_rev rev_take)
qed

lemma front_runs_spread:
  "m < length (spread runs) \<Longrightarrow> \<exists>acc'. front_runs m k runs acc = (acc', True) \<and>
     spread acc' = spread acc @ take m (spread runs) @ replicate k (spread runs ! m)"
proof (induction m k runs acc rule: front_runs.induct)
  case (2 m k run runs acc)
  then show ?case by (auto simp: nth_append replicate_add)
qed simp

lemma back_runs_spread: "spread (back_runs b p runs) = drop (b - p) (spread runs)"
proof (induction b p runs rule: back_runs.induct)
  case (2 b p run runs)
  have "drop (b - (p + run_len run)) (spread runs) = spread runs" if "b \<le> p + run_len run" using that by simp
  then show ?case using 2 by (auto simp: Let_def diff_diff_add)
qed simp

text \<open>What truncation makes of a line: some front and back around the affix, with the runs to it.\<close>

definition truncated :: "ucs list \<Rightarrow> ucs list \<Rightarrow> 'd text_run list \<Rightarrow> ucs list \<Rightarrow> ucs list \<Rightarrow> ucs list \<times> 'd text_run list \<Rightarrow> bool" where
  "truncated line affix runs front back r \<longleftrightarrow> fst r = front @ affix @ back \<and> (\<exists>gone. gone \<noteq> [] \<and> line = front @ gone @ back) \<and>
     (length (spread runs) = byte_len line \<longrightarrow>
        (\<exists>st. spread (snd r) = take (byte_len front) (spread runs) @ replicate (byte_len affix) st @
           drop (byte_len line - byte_len back) (spread runs)))"

lemma truncated_end:
  assumes "line = x @ c # y"
  shows "\<exists>rs. do { result \<leftarrow> map_option (\<lambda>s. trim_tail s @ affix) (str_to line (byte_len x));
      rs \<leftarrow> update_runs_after_truncation result affix runs End; Some (result, rs) } = Some (trim_tail x @ affix, rs) \<and>
    truncated line affix runs (trim_tail x) [] (trim_tail x @ affix, rs)"
proof -
  obtain s where s: "x = trim_tail x @ s" using trim_tail_prefix by blast
  have "byte_len (trim_tail x) \<le> byte_len x" using arg_cong [OF s, of byte_len] by simp
  moreover have "byte_len x < byte_len line" using assms by simp
  ultimately have less: "byte_len (trim_tail x) < byte_len line" by simp
  have gone: "\<exists>gone. gone \<noteq> [] \<and> line = trim_tail x @ gone @ []"
  proof
    show "s @ c # y \<noteq> [] \<and> line = trim_tail x @ (s @ c # y) @ []" using s assms by (simp flip: append_assoc)
  qed
  have "str_to line (byte_len x) = Some x" using str_to_append [of x "c # y"] assms by simp
  moreover have "truncated line affix runs (trim_tail x) []
      (trim_tail x @ affix, truncate_runs (byte_len (trim_tail x)) (byte_len affix) runs)"
    using gone less truncate_runs_spread [of "byte_len (trim_tail x)" runs "byte_len affix"]
    unfolding truncated_def by auto
  ultimately show ?thesis by (simp add: update_runs_after_truncation_def)
qed

lemma truncated_start:
  assumes "line = x @ c # y"
  shows "\<exists>rs. do { result \<leftarrow> map_option (\<lambda>s. affix @ s) (str_from line (ceil_char_boundary line (byte_len x + 1)));
      rs \<leftarrow> update_runs_after_truncation result affix runs Start; Some (result, rs) } = Some (affix @ y, rs) \<and>
    truncated line affix runs [] y (affix @ y, rs)"
proof -
  have "str_from line (ceil_char_boundary line (byte_len x + 1)) = Some y"
    using str_from_append [of "x @ [c]" y] unfolding assms ceil_char_boundary_next by simp
  moreover have "byte_len y < byte_len line" using assms by simp
  moreover have "line = [] @ (x @ [c]) @ y" using assms by simp
  ultimately show ?thesis
    using truncate_runs_rev_spread [of "byte_len y" runs "byte_len affix"]
    by (auto simp: update_runs_after_truncation_def truncated_def)
qed

lemma truncated_middle:
  assumes "line = x @ g @ y" "g \<noteq> []"
  shows "truncated line affix runs x y
    (x @ affix @ y, update_runs_after_middle_truncation affix runs (byte_len x) (byte_len line - byte_len y))"
proof -
  have "byte_len x < byte_len line" using assms by (cases g) simp_all
  then show ?thesis
    using front_runs_spread [of "byte_len x" runs "byte_len affix" "[]"] assms
    by (auto simp: truncated_def update_runs_after_middle_truncation_def back_runs_spread)
qed

section \<open>A truncated line fits\<close>

definition fits_in :: "(ucs \<Rightarrow> 'u::floor_ceiling) \<Rightarrow> ucs list \<Rightarrow> 'u \<Rightarrow> ucs list \<Rightarrow> 'd text_run list \<Rightarrow> truncate_from \<Rightarrow>
    ucs list \<times> 'd text_run list \<Rightarrow> bool" where
  "fits_in cw line truncate_width affix runs from r \<longleftrightarrow>
     (r = (line, runs) \<and> text_width cw line < truncate_width + 1) \<or>
     (\<exists>front back. truncated line affix runs front back r \<and> (from = Start \<longrightarrow> front = []) \<and> (from = End \<longrightarrow> back = []) \<and>
        (text_width cw (fst r) \<le> truncate_width \<or> front = [] \<and> back = []))"

lemma scan_none_width:
  assumes "truncate_scan cw tw sw xs 0 0 = None" "map snd xs = s \<or> map snd xs = rev s" "0 \<le> tw"
  shows "text_width cw s < tw + 1"
proof -
  have "sum_list (map (cw \<circ> snd) xs) = text_width cw s"
    using assms(2) unfolding map_map [symmetric] text_width_def
    by (elim disjE) (simp_all only: rev_map [symmetric] sum_list_rev)
  moreover have "s = []" if "xs = []" using assms(2) that by auto
  ultimately show ?thesis using truncate_scan_none [OF assms(1)] assms(3) by fastforce
qed

lemma text_width_trim: "(\<And>c. 0 \<le> cw c) \<Longrightarrow> text_width cw (trim_tail x) \<le> text_width cw x"
  using trim_tail_prefix [of x] text_width_nonneg [of cw] by (metis le_add_same_cancel1 text_width_simps(3))

lemma truncate_end_fits:
  assumes "\<And>c. 0 \<le> cw c" "0 \<le> tw"
  shows "\<exists>r. truncate_line cw line tw affix runs End = Some r \<and> fits_in cw line tw affix runs End r"
proof (cases "should_truncate_line cw line tw affix End")
  case None
  then show ?thesis
    using scan_none_width [of cw tw _ "char_indices line" line] assms(2)
    by (auto simp: truncate_line_def fits_in_def should_truncate_line_def char_indices_def map_snd_char_indices)
next
  case (Some r)
  then obtain x c y where x: "line = x @ c # y" "r = byte_len x" "x = [] \<or> text_width cw x + text_width cw affix < tw"
    using truncate_scan_end [where sw = "text_width cw affix" and cw = cw and tw = tw and a = "[]" and b = line and cut_ix = 0 and r = r]
      text_width_nonneg [of cw affix] assms(1)
    by (auto simp: should_truncate_line_def char_indices_def)
  obtain rs where rs: "truncate_line cw line tw affix runs End = Some (trim_tail x @ affix, rs)"
    "truncated line affix runs (trim_tail x) [] (trim_tail x @ affix, rs)"
    using truncated_end [OF x(1), of affix runs] Some by (auto simp: truncate_line_def x(2))
  have "text_width cw (trim_tail x @ affix) \<le> tw \<or> trim_tail x = []"
    using x(3) text_width_trim [of cw x] assms(1) by (fastforce simp: trim_tail_def trim_end_matches_def)
  then have "fits_in cw line tw affix runs End (trim_tail x @ affix, rs)"
    using rs(2) unfolding fits_in_def by fastforce
  then show ?thesis using rs(1) by blast
qed

lemma truncate_start_fits:
  assumes "\<And>c. 0 \<le> cw c" "0 \<le> tw" "text_width cw affix < tw"
  shows "\<exists>r. truncate_line cw line tw affix runs Start = Some r \<and> fits_in cw line tw affix runs Start r"
proof (cases "should_truncate_line cw line tw affix Start")
  case None
  then show ?thesis
    using scan_none_width [of cw tw _ "rev (char_indices line)" line] assms(2)
    by (auto simp: truncate_line_def fits_in_def should_truncate_line_def char_indices_def map_snd_char_indices rev_map [symmetric])
next
  case (Some r)
  then obtain x c y where x: "line = x @ c # y" "r = byte_len x" "text_width cw y + text_width cw affix < tw"
    using truncate_scan_start [where sw = "text_width cw affix" and cw = cw and tw = tw and a = line and b = "[]" and cut_ix = 0 and r = r]
      text_width_nonneg [of cw affix] assms(1,3)
    by (auto simp: should_truncate_line_def)
  obtain rs where rs: "truncate_line cw line tw affix runs Start = Some (affix @ y, rs)"
    "truncated line affix runs [] y (affix @ y, rs)"
    using truncated_start [OF x(1), of affix runs] Some by (auto simp: truncate_line_def x(2))
  have "fits_in cw line tw affix runs Start (affix @ y, rs)"
    using rs(2) x(3) unfolding fits_in_def by (auto simp: add.commute)
  then show ?thesis using rs(1) by blast
qed

lemma truncate_middle_fits:
  assumes "\<And>c. 0 \<le> cw c" "0 \<le> tw"
  shows "\<exists>r. truncate_line cw line tw affix runs Middle = Some r \<and> fits_in cw line tw affix runs Middle r"
proof (cases "text_width cw line \<le> tw")
  case True
  then show ?thesis by (auto simp: truncate_line_def should_truncate_line_middle_def fits_in_def)
next
  case False
  let ?b = "tw - text_width cw affix"
  let ?f = "?b * (2 / 3)"
  have line: "line \<noteq> []" using False assms(2) by auto
  have all: ?thesis if "should_truncate_line_middle cw line tw affix = Some (0, byte_len line)"
  proof -
    have "str_to line 0 = Some []" "str_from line (byte_len line) = Some []"
      using str_to_append [of "[]" line] str_from_append [of line "[]"] by simp_all
    moreover have "truncated line affix runs [] []
        ([] @ affix @ [], update_runs_after_middle_truncation affix runs (byte_len []) (byte_len line - byte_len []))"
      by (rule truncated_middle [of line "[]" line "[]"]) (simp_all add: line)
    ultimately show ?thesis using that by (auto simp: truncate_line_def fits_in_def)
  qed
  show ?thesis
  proof (cases "?b \<le> 0")
    case True
    then show ?thesis using False by (intro all) (simp add: should_truncate_line_middle_def)
  next
    case b: False
    have budget: "0 \<le> ?f" "0 \<le> ?b - ?f" using b by (simp_all add: field_simps)
    from front_scan_fits [of cw "[]" ?f line] budget(1) obtain x x' where x: "line = x @ x'"
      "front_scan cw ?f (char_indices line) 0 0 = byte_len x" "text_width cw x \<le> ?f"
      by (auto simp: char_indices_def)
    from back_scan_fits [of cw "[]" "?b - ?f" line] budget(2) obtain y' y where y: "line = y' @ y"
      "back_scan cw (?b - ?f) (rev (char_indices line)) 0 (byte_len line) = byte_len y'" "text_width cw y \<le> ?b - ?f"
      by auto
    have m: "should_truncate_line_middle cw line tw affix =
        (if byte_len y' \<le> byte_len x then Some (0, byte_len line) else Some (byte_len x, byte_len y'))"
      using False b x(2) y(2) by (simp add: should_truncate_line_middle_def Let_def)
    show ?thesis
    proof (cases "byte_len y' \<le> byte_len x")
      case True
      then show ?thesis by (intro all) (simp add: m)
    next
      case False
      obtain us where us: "x = y' @ us \<and> us @ x' = y \<or> x @ us = y' \<and> x' = us @ y"
        using x(1) y(1) by (auto simp: append_eq_append_conv2)
      then have g: "y' = x @ us" "line = x @ us @ y" using False y(1) by auto
      have "us \<noteq> []" using False g(1) by auto
      then have t: "truncated line affix runs x y
          (x @ affix @ y, update_runs_after_middle_truncation affix runs (byte_len x) (byte_len line - byte_len y))"
        by (rule truncated_middle [OF g(2)])
      have e: "byte_len line - byte_len y = byte_len y'" "str_to line (byte_len x) = Some x" "str_from line (byte_len y') = Some y"
        using str_to_append [of x x'] str_from_append [of y' y] by (simp_all add: x(1) [symmetric] y(1) [symmetric])
          (simp add: y(1))
      have "text_width cw x + text_width cw y \<le> ?b" using x(3) y(3) by linarith
      then have "text_width cw (x @ affix @ y) \<le> tw" by (simp add: algebra_simps)
      then show ?thesis using t e m False by (auto simp: truncate_line_def fits_in_def)
    qed
  qed
qed

lemma truncate_line_ok:
  assumes "\<And>c. 0 \<le> cw c" "0 \<le> tw" "from = Start \<longrightarrow> text_width cw affix < tw"
  shows "\<exists>r. truncate_line cw line tw affix runs from = Some r \<and> fits_in cw line tw affix runs from r"
  using truncate_end_fits [of cw tw] truncate_start_fits [of cw tw] truncate_middle_fits [of cw tw] assms
  by (cases "from") auto

section \<open>Truncating to a number of lines\<close>

text \<open>A byte offset at a boundary among the first \<open>n\<close> characters.\<close>

definition cut_within :: "ucs list \<Rightarrow> nat \<Rightarrow> nat \<Rightarrow> bool" where
  "cut_within t n k \<longleftrightarrow> (\<exists>x y. t = x @ y \<and> k = byte_len x \<and> length x \<le> n)"

lemma cut_withinI: "t = x @ y \<Longrightarrow> length x \<le> n \<Longrightarrow> cut_within t n (byte_len x)"
  by (auto simp: cut_within_def)

lemma cut_within_0: "cut_within t n 0"
  using cut_withinI [of t "[]" t n] by simp

lemma cut_within_mono: "cut_within t n k \<Longrightarrow> n \<le> m \<Longrightarrow> cut_within t m k"
  unfolding cut_within_def using order_trans by blast

definition truncate_inv :: "ucs list \<Rightarrow> nat \<Rightarrow> 'u truncate_state \<Rightarrow> bool" where
  "truncate_inv t n s \<longleftrightarrow> cut_within t n (ts_cut s) \<and> cut_within t n (ts_wrap_ix s) \<and> cut_within t n (ts_candidate_ix s)"

lemma truncate_wrap_inv:
  assumes "cut_within t n ix" "cut_within t n (ts_wrap_ix s)" "cut_within t n (ts_candidate_ix s)"
  shows "truncate_inv t n (truncate_wrap cw ix w s)"
  using assms by (simp add: truncate_wrap_def truncate_inv_def Let_def cut_within_0 split: option.splits)

lemma truncate_char_ok:
  assumes t: "t = a @ c # b" and inv: "truncate_inv t (length a) s" and affix: "0 \<le> affix_width"
  shows "\<exists>r. truncate_char cw wrap_width max_lines affix_width t (byte_len a) c s = Some r \<and>
    (case r of Inl k \<Rightarrow> cut_within t (length a) k | Inr s' \<Rightarrow> truncate_inv t (Suc (length a)) s')"
proof -
  have here: "cut_within t (length a) (byte_len a)" using cut_withinI [of t a "c # b"] t by simp
  have after: "cut_within t (Suc (length a)) (byte_len a + len_utf8 c)"
    using cut_withinI [of t "a @ [c]" b "Suc (length a)"] t by simp
  note up = cut_within_mono [where m = "Suc (length a)" and n = "length a", simplified]
  show ?thesis
  proof (cases "c = newline")
    case True
    have "str_from t (byte_len a + 1) = Some b"
      using str_from_append [of "a @ [c]" b] by (simp add: t True newline_def len_utf8_def)
    moreover have "len_utf8 c = 1" by (simp add: True newline_def len_utf8_def)
    ultimately show ?thesis
      using True inv after by (auto simp: truncate_char_def truncate_inv_def cut_within_0)
  next
    case False
    define s1 where "s1 = (if is_word_char c
      then if ts_prev_c s = space \<and> ts_first s \<noteq> None
           then s\<lparr>ts_candidate_ix := byte_len a, ts_candidate_width := ts_width s\<rparr> else s
      else if c \<noteq> space \<and> ts_first s \<noteq> None
           then s\<lparr>ts_candidate_ix := byte_len a, ts_candidate_width := ts_width s\<rparr> else s)"
    define s2 where "s2 = (if c \<noteq> space \<and> ts_first s1 = None then s1\<lparr>ts_first := Some (byte_len a)\<rparr> else s1)
      \<lparr>ts_width := ts_width (if c \<noteq> space \<and> ts_first s1 = None then s1\<lparr>ts_first := Some (byte_len a)\<rparr> else s1) + cw c\<rparr>"
    have s1: "cut_within t (length a) (ts_cut s1)" "cut_within t (length a) (ts_wrap_ix s1)" "cut_within t (length a) (ts_candidate_ix s1)"
      using inv here by (simp_all add: s1_def truncate_inv_def)
    then have s2: "cut_within t (length a) (ts_cut s2)" "cut_within t (length a) (ts_wrap_ix s2)" "cut_within t (length a) (ts_candidate_ix s2)"
      by (simp_all add: s2_def)
    have eq: "truncate_char cw wrap_width max_lines affix_width t (byte_len a) c s =
        (if ts_line s2 < max_lines - 1
         then Some (Inr ((if wrap_width < ts_width s2 \<and> ts_wrap_ix s2 < byte_len a then truncate_wrap cw (byte_len a) (cw c) s2
           else s2)\<lparr>ts_prev_c := c\<rparr>))
         else let s3 = (if ts_width s2 + affix_width \<le> wrap_width then s2\<lparr>ts_cut := byte_len a + len_utf8 c\<rparr> else s2) in
           Some (if wrap_width < ts_width s3 then Inl (ts_cut s3) else Inr (s3\<lparr>ts_prev_c := c\<rparr>)))"
      using False unfolding truncate_char_def Let_def s1_def [symmetric] s2_def [symmetric] by simp
    have wrap: "truncate_inv t (length a) (truncate_wrap cw (byte_len a) (cw c) s2)"
      using here s2(2,3) by (rule truncate_wrap_inv)
    have s2': "truncate_inv t (Suc (length a)) s2" using s2 up by (simp add: truncate_inv_def)
    show ?thesis
      unfolding eq using wrap s2 s2' after up affix by (auto simp: Let_def truncate_inv_def)
  qed
qed

lemma truncate_chars_ok:
  assumes "0 \<le> affix_width"
  shows "t = a @ b \<Longrightarrow> truncate_inv t (length a) s \<Longrightarrow>
    \<exists>r. truncate_chars cw wrap_width max_lines affix_width t (char_indices_from (byte_len a) b) s = Some r \<and>
      (\<forall>k. r = Some k \<longrightarrow> (\<exists>x c y. t = x @ c # y \<and> k = byte_len x))"
proof (induction b arbitrary: a s)
  case (Cons c b)
  obtain r where r: "truncate_char cw wrap_width max_lines affix_width t (byte_len a) c s = Some r"
    "case r of Inl k \<Rightarrow> cut_within t (length a) k | Inr s' \<Rightarrow> truncate_inv t (Suc (length a)) s'"
    using truncate_char_ok [OF Cons.prems assms] by blast
  show ?case
  proof (cases r)
    case (Inl k)
    then obtain x y where x: "t = x @ y" "k = byte_len x" "length x \<le> length a" using r(2) by (auto simp: cut_within_def)
    then have "y \<noteq> []" using Cons.prems(1) by (cases y) (auto dest: arg_cong [of _ _ length])
    then show ?thesis using r(1) Inl x by (cases y) auto
  next
    case (Inr s')
    then show ?thesis using Cons.IH [of "a @ [c]" s'] Cons.prems(1) r by simp
  qed
qed simp

lemma truncate_wrapped_line_ok:
  assumes "\<And>c. 0 \<le> cw c" "2 \<le> max_lines" "from = End"
  shows "\<exists>r. truncate_wrapped_line cw text wrap_width max_lines affix runs from = Some r \<and>
    (r = (text, runs) \<or> (\<exists>front. truncated text affix runs front [] r))"
proof -
  have "truncate_inv text (length []) truncate_start"
    by (simp add: truncate_inv_def truncate_start_def cut_within_0)
  then obtain r where r:
    "truncate_chars cw wrap_width max_lines (text_width cw affix) text (char_indices text) truncate_start = Some r"
    "\<forall>k. r = Some k \<longrightarrow> (\<exists>x c y. text = x @ c # y \<and> k = byte_len x)"
    using truncate_chars_ok [where affix_width = "text_width cw affix" and t = "text" and a = "[]" and b = "text" and
        s = truncate_start and cw = cw and wrap_width = wrap_width and max_lines = max_lines] text_width_nonneg [of cw affix] assms(1)
    by (auto simp: char_indices_def)
  show ?thesis
  proof (cases r)
    case None
    then show ?thesis using r(1) assms(2,3) by (simp add: truncate_wrapped_line_def)
  next
    case (Some k)
    then obtain x c y where x: "text = x @ c # y" "k = byte_len x" using r(2) by blast
    have str: "str_to text k = Some x" using str_to_append [of x "c # y"] x by simp
    show ?thesis
      using truncated_end [OF x(1), of affix runs] r(1) Some str assms(2,3)
      unfolding truncate_wrapped_line_def x(2) by fastforce
  qed
qed

end
