(* ===== verification/Text_Wrap_Breaks.thy ===== *)
theory Text_Wrap_Breaks
  imports Text_Wrap_Correct
begin

text \<open>
  Exactly where a line of one width is broken: at the last place a word may start, up to the first
  character that does not fit, and at that character when there is none. The notions of places and
  kept indentation are shared with truncation, which has another rule for the places.
\<close>

section \<open>Places to break a line\<close>

text \<open>The places \<open>M\<close> behind the start \<open>L\<close> of a line, and the break when character \<open>n\<close> does not fit.\<close>

definition places :: "(nat \<Rightarrow> bool) \<Rightarrow> nat \<Rightarrow> nat \<Rightarrow> nat list" where
  "places M L n = filter M [Suc L..<n]"

definition break_at :: "(nat \<Rightarrow> bool) \<Rightarrow> nat \<Rightarrow> nat \<Rightarrow> nat" where
  "break_at M L n = (if places M L (Suc n) = [] then n else last (places M L (Suc n)))"

definition overflows :: "'u::linordered_idom \<Rightarrow> 'u \<Rightarrow> nat \<Rightarrow> nat \<Rightarrow> nat \<Rightarrow> bool" where
  "overflows w wrap_width L indent n \<longleftrightarrow> L < n \<and> wrap_width < of_nat (indent + (Suc n - L)) * w"

text \<open>The first character from \<open>q\<close> on that is no space.\<close>

definition text_start :: "ucs list \<Rightarrow> nat \<Rightarrow> nat" where
  "text_start t q = q + length (takeWhile (\<lambda>c. c = space) (drop q t))"

text \<open>
  The indentation of the lines after a break, in the paragraph from \<open>q\<close> on: that of its first text,
  and then always the same.
\<close>

definition kept_indent :: "ucs list \<Rightarrow> nat \<Rightarrow> nat \<Rightarrow> nat \<Rightarrow> nat option \<Rightarrow> nat option" where
  "kept_indent t q L n indent =
     (case indent of
        Some k \<Rightarrow> Some k
      | None \<Rightarrow> if text_start t q \<le> n then Some (min MAX_INDENT ((text_start t q - L) mod 2 ^ 32)) else None)"

section \<open>The rule of wrapping\<close>

text \<open>
  The character wrapping remembers before position \<open>n\<close>: the one before it, except that the
  characters in \<open>P\<close>, which overflowed a line, were never remembered.
\<close>

fun prev_seen :: "ucs list \<Rightarrow> nat set \<Rightarrow> nat \<Rightarrow> ucs" where
  "prev_seen t P 0 = 0"
| "prev_seen t P (Suc n) = (if n \<in> P then prev_seen t P n else t ! n)"

text \<open>
  A line may be broken before a character that is no space, behind some text: a word character
  after a space, or another character that does not follow a word character.
\<close>

definition may_break :: "ucs list \<Rightarrow> nat set \<Rightarrow> nat \<Rightarrow> bool" where
  "may_break t P n \<longleftrightarrow> (\<exists>j<n. t ! j \<noteq> space) \<and> t ! n \<noteq> space \<and>
     (if is_word_char (t ! n) then prev_seen t P n = space else \<not> is_word_char (prev_seen t P n))"

text \<open>Every line ends at the last such place before the first character that does not fit.\<close>

fun greedy_lines ::
  "ucs list \<Rightarrow> 'u::linordered_idom \<Rightarrow> 'u \<Rightarrow> nat set \<Rightarrow> nat \<Rightarrow> nat option \<Rightarrow> boundary list \<Rightarrow> bool" where
  "greedy_lines t w wrap_width P L indent [] =
     (\<forall>n<length t. \<not> overflows w wrap_width L (line_indent L indent) n)"
| "greedy_lines t w wrap_width P L indent (b # bs) =
     (\<exists>n<length t. overflows w wrap_width L (line_indent L indent) n \<and>
        (\<forall>m<n. \<not> overflows w wrap_width L (line_indent L indent) m) \<and>
        (let i = break_at (may_break t P) L n; indent' = kept_indent t 0 L n indent in
         b = \<lparr>boundary_ix = byte_len (take i t), next_indent = (case indent' of Some k \<Rightarrow> k | None \<Rightarrow> 0)\<rparr> \<and>
         greedy_lines t w wrap_width (insert n P) i indent' bs))"

section \<open>Facts on places\<close>

lemma leading_space:
  assumes "q \<le> j" "j < text_start t q"
  shows "t ! j = space"
proof -
  let ?xs = "takeWhile (\<lambda>c. c = space) (drop q t)"
  have j: "j - q < length ?xs" using assms by (simp add: text_start_def)
  have "length ?xs \<le> length (drop q t)" by (rule length_takeWhile_le)
  then have "?xs ! (j - q) = t ! j" using j assms(1) by (simp add: takeWhile_nth)
  moreover have "?xs ! (j - q) \<in> set ?xs" using j by (rule nth_mem)
  ultimately show ?thesis by (auto dest: set_takeWhileD)
qed

lemma first_text:
  assumes "text_start t q < length t"
  shows "t ! text_start t q \<noteq> space"
proof -
  let ?xs = "takeWhile (\<lambda>c. c = space) (drop q t)"
  have "length ?xs < length (drop q t)" using assms by (simp add: text_start_def)
  then have "drop q t ! length ?xs \<noteq> space" by (drule_tac nth_length_takeWhile) simp
  then show ?thesis using assms by (simp add: text_start_def)
qed

lemma text_start_ge: "q \<le> text_start t q"
  by (simp add: text_start_def)

lemma text_before: "n \<le> length t \<Longrightarrow> (\<exists>j<n. q \<le> j \<and> t ! j \<noteq> space) \<longleftrightarrow> text_start t q < n"
proof
  assume "\<exists>j<n. q \<le> j \<and> t ! j \<noteq> space"
  then obtain j where "j < n" "q \<le> j" "t ! j \<noteq> space" by blast
  then show "text_start t q < n" using leading_space [of q j t] by (cases "j < text_start t q") auto
next
  assume "n \<le> length t" "text_start t q < n"
  then show "\<exists>j<n. q \<le> j \<and> t ! j \<noteq> space" using first_text [of t q] text_start_ge by auto
qed

lemma prev_seen_insert: "n \<le> m \<Longrightarrow> prev_seen t (insert m P) n = prev_seen t P n"
  by (induction n) auto

lemma may_break_insert: "n \<le> m \<Longrightarrow> may_break t (insert m P) n = may_break t P n"
  by (simp add: may_break_def prev_seen_insert)

lemma places_insert: "n \<le> Suc m \<Longrightarrow> places (may_break t (insert m P)) L n = places (may_break t P) L n"
  unfolding places_def by (rule filter_cong) (auto simp: may_break_insert)

lemma places_Suc: "places M L (Suc n) = places M L n @ (if L < n \<and> M n then [n] else [])"
  by (cases "L < n") (simp_all add: places_def)

lemma places_less: "x \<in> set (places M L (Suc n)) \<Longrightarrow> L < x \<and> x \<le> n"
  by (auto simp: places_def)

lemma break_at_le: "break_at M L n \<le> n"
  using places_less [of "last (places M L (Suc n))" M L n] by (auto simp: break_at_def)

text \<open>After a break the places behind it are those to come.\<close>

lemma places_behind: "places M (break_at M L n) (Suc n) = []"
proof (cases "places M L (Suc n) = []")
  case True
  then show ?thesis by (simp add: break_at_def places_def)
next
  case False
  let ?xs = "places M L (Suc n)"
  have "sorted ?xs" unfolding places_def by (rule sorted_wrt_filter [OF sorted_upt])
  then have le: "x \<in> set ?xs \<Longrightarrow> x \<le> last ?xs" for x
  proof -
    assume x: "x \<in> set ?xs"
    have eq: "?xs = butlast ?xs @ [last ?xs]" using False by simp
    have "sorted (butlast ?xs @ [last ?xs])" using \<open>sorted ?xs\<close> unfolding eq [symmetric] .
    moreover have "x \<in> set (butlast ?xs @ [last ?xs])" using x unfolding eq [symmetric] .
    ultimately show ?thesis by (auto simp: sorted_append)
  qed
  have last: "last ?xs \<in> set ?xs" using False by simp
  have "\<not> M m" if "m \<in> set [Suc (last ?xs)..<Suc n]" for m
  proof
    assume may: "M m"
    have m: "last ?xs < m" "m < Suc n" using that by auto
    have "Suc L \<le> last ?xs" using last unfolding places_def by (simp del: upt_Suc)
    then have "m \<in> set ?xs" using m may unfolding places_def by (simp del: upt_Suc)
    then show False using le [of m] m by simp
  qed
  moreover have "break_at M L n = last ?xs" using False by (simp add: break_at_def)
  ultimately show ?thesis unfolding places_def [of M "break_at M L n"] by (simp add: filter_empty_conv del: upt_Suc)
qed

section \<open>The state knows the last place and the first text\<close>

definition places_inv :: "ucs list \<Rightarrow> nat \<Rightarrow> (nat \<Rightarrow> bool) \<Rightarrow> nat \<Rightarrow> nat \<Rightarrow> 'u wrap_state \<Rightarrow> bool" where
  "places_inv t q M n L s \<longleftrightarrow>
     last_candidate_ix s = (if places M L n = [] then 0 else byte_len (take (last (places M L n)) t)) \<and>
     first_non_whitespace_ix s = (if text_start t q < n then Some (byte_len (take (text_start t q) t)) else None)"

lemma places_noted:
  assumes inv: "places_inv t q M n L s" and n: "n < length t" "q \<le> n"
    and item: "char_noted (byte_len (take n t)) (t ! n) (s\<lparr>ws_index := k\<rparr>) s2"
    and cand: "last_candidate_ix s2 = (if M n then byte_len (take n t) else last_candidate_ix s)" and may: "M n \<Longrightarrow> L < n"
  shows "places_inv t q M (Suc n) L s2"
proof -
  have "t ! n = space \<longleftrightarrow> text_start t q \<noteq> n" if "\<not> text_start t q < n"
    using that leading_space [of q n t] first_text [of t q] n by (cases "text_start t q = n") auto
  then have "first_non_whitespace_ix s2 = (if text_start t q < Suc n then Some (byte_len (take (text_start t q) t)) else None)"
    using char_noted_cases(6) [OF item] inv by (auto simp: places_inv_def less_Suc_eq)
  moreover have "last_candidate_ix s2 = (if places M L (Suc n) = [] then 0 else byte_len (take (last (places M L (Suc n))) t))"
    using cand may inv by (auto simp: places_Suc places_inv_def)
  ultimately show ?thesis by (simp add: places_inv_def)
qed

lemma indent_kept:
  assumes inv: "wrap_inv t w wrap_width n L s" and n: "n < length t" and q: "q \<le> L"
    and first: "first_non_whitespace_ix s = (if text_start t q < n then Some (byte_len (take (text_start t q) t)) else None)"
  shows "new_indent (ws_indent s) (if text_start t q < Suc n then Some (byte_len (take (text_start t q) t)) else None)
    (byte_len (take L t)) = kept_indent t q L n (ws_indent s)"
proof (cases "ws_indent s = None \<and> text_start t q \<le> n")
  case True
  have ok: "first_ok t n L (first_non_whitespace_ix s) (ws_indent s)" and L: "L \<le> n"
    using inv by (auto simp: wrap_inv_def)
  have "L \<le> text_start t q"
  proof (cases "text_start t q < n")
    case lt: True
    then obtain F where F: "F < n" "byte_len (take (text_start t q) t) = byte_len (take F t)" "L \<le> F"
      using ok first True by (auto simp: first_ok_def)
    then have "text_start t q = F" using n lt by - (rule byte_len_take_inj [of _ t], auto)
    then show ?thesis using F(3) by simp
  qed (use L in simp)
  then have "byte_len (take (text_start t q) t) = byte_len (take L t) + (text_start t q - L)"
    using True n q leading_space [of q _ t] by (intro byte_len_spaces) auto
  then have "byte_len (take (text_start t q) t) - byte_len (take L t) = text_start t q - L" by simp
  moreover have "ws_indent s = None" "text_start t q \<le> n" using True by simp_all
  ultimately show ?thesis by (simp add: new_indent_def kept_indent_def less_Suc_eq_le)
next
  case False
  then show ?thesis by (cases "ws_indent s") (simp_all add: new_indent_def kept_indent_def less_Suc_eq_le)
qed

text \<open>The line ends at the last place.\<close>

lemma overflow_place:
  assumes inv: "wrap_inv t w wrap_width n L s" "places_inv t q M n L s" and n: "n < length t" "L < n" "q \<le> L"
    and item: "char_noted (byte_len (take n t)) (t ! n) (s\<lparr>ws_index := byte_len (take (Suc n) t)\<rparr>) s2"
    and s2: "places_inv t q M (Suc n) L s2"
    and over: "wrap_overflow cw (byte_len (take n t)) item_width (s2\<lparr>ws_width := width\<rparr>) = (b, s')"
  shows "b = \<lparr>boundary_ix = byte_len (take (break_at M L n) t),
      next_indent = (case kept_indent t q L n (ws_indent s) of Some k \<Rightarrow> k | None \<Rightarrow> 0)\<rparr>"
    "ws_indent s' = kept_indent t q L n (ws_indent s)" "prev_c s' = prev_c s2"
    "places_inv t q M (Suc n) (break_at M L n) s'"
proof -
  note f = char_noted_cases [OF item]
  have ix: "last_wrap_ix s = byte_len (take L t)" using inv by (simp add: wrap_inv_def)
  have first: "first_non_whitespace_ix s2 = (if text_start t q < Suc n then Some (byte_len (take (text_start t q) t)) else None)"
    using s2 by (simp add: places_inv_def)
  have ind: "new_indent (ws_indent s2) (first_non_whitespace_ix s2) (last_wrap_ix s2) = kept_indent t q L n (ws_indent s)"
    using indent_kept [OF inv(1) n(1,3)] inv(2) f(2,3) ix first by (simp add: places_inv_def)
  have at: "(if 0 < last_candidate_ix s2 then last_candidate_ix s2 else byte_len (take n t)) = byte_len (take (break_at M L n) t)"
  proof (cases "places M L (Suc n) = []")
    case False
    then have "0 < last (places M L (Suc n))" using places_less [of "last (places M L (Suc n))" M L n] by simp
    then show ?thesis using False s2 n by (auto simp: break_at_def places_inv_def byte_len_take_pos)
  qed (use s2 in \<open>simp add: break_at_def places_inv_def\<close>)
  show "b = \<lparr>boundary_ix = byte_len (take (break_at M L n) t),
      next_indent = (case kept_indent t q L n (ws_indent s) of Some k \<Rightarrow> k | None \<Rightarrow> 0)\<rparr>"
    "ws_indent s' = kept_indent t q L n (ws_indent s)" "prev_c s' = prev_c s2"
    using over ind at by (auto simp: wrap_overflow_eq Let_def)
  have "last_candidate_ix s' = 0" "first_non_whitespace_ix s' = first_non_whitespace_ix s2"
    using over by (auto simp: wrap_overflow_eq Let_def)
  then show "places_inv t q M (Suc n) (break_at M L n) s'"
    by (simp add: places_inv_def places_behind first)
qed

lemma fits_no_overflow:
  assumes "wrap_inv t w wrap_width n L s" "0 \<le> w" "m < n"
  shows "\<not> overflows w wrap_width L (line_indent L (ws_indent s)) m"
proof
  assume o: "overflows w wrap_width L (line_indent L (ws_indent s)) m"
  then have m: "L < m" "wrap_width < of_nat (line_indent L (ws_indent s) + (Suc m - L)) * w" unfolding overflows_def by blast+
  have "fits w wrap_width (line_indent L (ws_indent s)) (n - L)" using assms(1) unfolding wrap_inv_def by blast
  then have "of_nat (line_indent L (ws_indent s) + (n - L)) * w \<le> wrap_width"
    using m(1) assms(3) unfolding fits_def by auto
  moreover have "of_nat (line_indent L (ws_indent s) + (Suc m - L)) * w \<le> of_nat (line_indent L (ws_indent s) + (n - L)) * w"
    using assms(2,3) by (intro of_nat_mono_mult) auto
  ultimately show False using m(2) by (meson leD order_trans)
qed

section \<open>Wrapping follows its rule\<close>

definition greedy_inv ::
  "ucs list \<Rightarrow> 'u::linordered_idom \<Rightarrow> 'u \<Rightarrow> nat set \<Rightarrow> nat \<Rightarrow> nat \<Rightarrow> 'u wrap_state \<Rightarrow> bool" where
  "greedy_inv t w wrap_width P n L s \<longleftrightarrow> wrap_inv t w wrap_width n L s \<and> places_inv t 0 (may_break t P) n L s \<and>
     (L < n \<or> n = 0) \<and> (\<forall>p\<in>P. p < n) \<and> prev_c s = prev_seen t P n"

lemma greedy_start: "greedy_inv t w wrap_width {} 0 0 wrap_start"
  by (simp add: greedy_inv_def wrap_start_inv) (simp add: wrap_start_def places_inv_def places_def)

lemma greedy_item:
  assumes inv: "greedy_inv t w wrap_width P n L s" and n: "n < length t"
    and item: "wrap_item cw (byte_len (take n t)) (Char_Candidate (t ! n)) (s\<lparr>ws_index := k\<rparr>) = (s2, item_width, c')"
  shows "c' = t ! n" "prev_c s2 = prev_c s" "places_inv t 0 (may_break t P) (Suc n) L s2"
proof -
  have prev: "prev_c s = prev_seen t P n" and p: "places_inv t 0 (may_break t P) n L s" and L: "L < n \<or> n = 0"
    using inv by (auto simp: greedy_inv_def)
  show "c' = t ! n" "prev_c s2 = prev_c s" using item by (auto simp: Let_def set_candidate_def split: if_splits)
  have may: "may_break t P n \<longleftrightarrow> text_start t 0 < n \<and> t ! n \<noteq> space \<and>
      (if is_word_char (t ! n) then prev_c s = space else \<not> is_word_char (prev_c s))"
    using text_before [of n t 0] n by (simp add: may_break_def prev)
  have cand: "last_candidate_ix s2 = (if may_break t P n then byte_len (take n t) else last_candidate_ix s)"
    using item p unfolding may by (auto simp: Let_def set_candidate_def places_inv_def split: if_splits)
  have "may_break t P n \<Longrightarrow> L < n" using L may by auto
  from places_noted [OF p n _ wrap_item_noted(2) [OF item] cand this]
  show "places_inv t 0 (may_break t P) (Suc n) L s2" by simp
qed

lemma greedy_step:
  assumes inv: "greedy_inv t w wrap_width P n L s" and n: "n < length t" and w: "0 \<le> w" "\<And>c. cw c = w" and c: "t ! n \<noteq> newline"
    and step: "wrap_step cw wrap_width (Char_Candidate (t ! n)) s = (r, s')"
  shows "case r of
      None \<Rightarrow> greedy_inv t w wrap_width P (Suc n) L s' \<and> ws_indent s' = ws_indent s
    | Some b \<Rightarrow> overflows w wrap_width L (line_indent L (ws_indent s)) n \<and>
        (let i = break_at (may_break t P) L n; indent' = kept_indent t 0 L n (ws_indent s) in
         b = \<lparr>boundary_ix = byte_len (take i t), next_indent = (case indent' of Some k \<Rightarrow> k | None \<Rightarrow> 0)\<rparr> \<and>
         ws_indent s' = indent' \<and> greedy_inv t w wrap_width (insert n P) (Suc n) i s')"
proof -
  let ?s = "s\<lparr>ws_index := byte_len (take (Suc n) t)\<rparr>" and ?ind = "line_indent L (ws_indent s)"
  have wi: "wrap_inv t w wrap_width n L s" and pi: "places_inv t 0 (may_break t P) n L s" and P: "\<forall>p\<in>P. p < n"
    and prev: "prev_c s = prev_seen t P n"
    using inv by (simp_all add: greedy_inv_def)
  note ok = wrap_step_ok [OF wi n w c step]
  have ix: "ws_index s = byte_len (take n t)" "last_wrap_ix s = byte_len (take L t)" "L \<le> n"
    using wi by (auto simp: wrap_inv_def)
  obtain s2 iw c' where item0: "wrap_item cw (byte_len (take n t)) (Char_Candidate (t ! n)) ?s = (s2, iw, c')"
    by (metis prod_cases3)
  note noted = wrap_item_noted [OF item0]
  note f = char_noted_cases [OF noted(2)] and g = greedy_item [OF inv n item0]
  have item: "wrap_item cw (byte_len (take n t)) (Char_Candidate (t ! n)) ?s = (s2, w, t ! n)" using item0 noted(1) w(2) g(1) by simp
  have pos: "last_wrap_ix s2 < byte_len (take n t) \<longleftrightarrow> L < n"
    using ix f(3) byte_len_take_less [of L n t] n by (cases "L = n") auto
  have upd: "s\<lparr>ws_index := ws_index s + candidate_len (Char_Candidate (t ! n))\<rparr> = ?s"
    using n by (simp add: ix(1) byte_len_take_Suc)
  have over: "wrap_width < ws_width s2 + w \<and> L < n \<longleftrightarrow> overflows w wrap_width L ?ind n"
    unfolding noted_width [OF wi noted(2)] overflows_def by blast
  show ?thesis
  proof (cases "overflows w wrap_width L ?ind n")
    case True
    obtain b s3 where o: "wrap_overflow cw (byte_len (take n t)) w (s2\<lparr>ws_width := ws_width s2 + w\<rparr>) = (b, s3)"
      by fastforce
    have r: "r = Some b" "s' = s3"
      using step True over c item o pos unfolding wrap_step_def Let_def unfolding upd unfolding ix(1)
      by (auto simp del: wrap_item.simps)
    have L: "L < n" using True by (simp add: overflows_def)
    note place = overflow_place [OF wi pi n L _ noted(2) g(3) o, simplified]
    obtain i where i: "boundary_ix b = byte_len (take i t)" "i < length t" "wrap_inv t w wrap_width (Suc n) i s'"
      using ok r by (auto simp: line_broken_def)
    have "i = break_at (may_break t P) L n"
      using break_at_le [of "may_break t P" L n] i(1,2) place(1) n by - (rule byte_len_take_inj [of _ t], auto)
    moreover have "places_inv t 0 (may_break t (insert n P)) (Suc n) (break_at (may_break t P) L n) s'"
      using place(4) by (simp add: places_inv_def places_insert r)
    moreover have "break_at (may_break t P) L n < Suc n" "\<forall>p\<in>insert n P. p < Suc n"
      using break_at_le [of "may_break t P" L n] P by (auto simp: less_Suc_eq)
    ultimately have "greedy_inv t w wrap_width (insert n P) (Suc n) (break_at (may_break t P) L n) s'"
      using i(3) place(3) g(2) prev by (simp add: greedy_inv_def r prev_seen_insert)
    then show ?thesis using True r place(1,2) by (simp add: Let_def)
  next
    case False
    then have rs: "r = None" "s' = s2\<lparr>ws_width := ws_width s2 + w, prev_c := t ! n\<rparr>"
      using step over c item pos unfolding wrap_step_def Let_def unfolding upd unfolding ix(1) by (auto simp del: wrap_item.simps)
    have "n \<notin> P" "\<forall>p\<in>P. p < Suc n" using P by auto
    then show ?thesis using ok rs g f(2) ix(3) by (simp add: greedy_inv_def places_inv_def)
  qed
qed

lemma greedy_from:
  assumes w: "0 \<le> w" "\<And>c. cw c = w" and t: "newline \<notin> set t"
  shows "greedy_inv t w wrap_width P n L s \<Longrightarrow>
    greedy_lines t w wrap_width P L (ws_indent s) (wrap_from cw wrap_width (map Char_Candidate (drop n t)) s)"
proof (induction "length t - n" arbitrary: n L P s)
  case 0
  then have inv: "wrap_inv t w wrap_width n L s" by (simp add: greedy_inv_def)
  then have "n = length t" using 0 by (simp add: wrap_inv_def)
  then show ?case using fits_no_overflow [OF inv w(1)] by simp
next
  case (Suc d)
  then have n: "n < length t" by simp
  have drop: "drop n t = t ! n # drop (Suc n) t" using n by (simp add: Cons_nth_drop_Suc)
  obtain r s' where step: "wrap_step cw wrap_width (Char_Candidate (t ! n)) s = (r, s')" by fastforce
  have "t ! n \<noteq> newline" using t n nth_mem by metis
  note ok = greedy_step [OF Suc.prems n w this step]
  have d: "d = length t - Suc n" using Suc.hyps(2) by simp
  show ?case
  proof (cases r)
    case None
    then have "greedy_inv t w wrap_width P (Suc n) L s'" "ws_indent s' = ws_indent s" using ok by simp_all
    then show ?thesis using Suc.hyps(1) [OF d, of P L s'] step None by (simp add: drop)
  next
    case (Some b)
    let ?i = "break_at (may_break t P) L n" and ?indent = "kept_indent t 0 L n (ws_indent s)"
    have b: "overflows w wrap_width L (line_indent L (ws_indent s)) n"
      "b = \<lparr>boundary_ix = byte_len (take ?i t), next_indent = (case ?indent of Some k \<Rightarrow> k | None \<Rightarrow> 0)\<rparr>"
      "ws_indent s' = ?indent" "greedy_inv t w wrap_width (insert n P) (Suc n) ?i s'"
      using ok Some by (simp_all add: Let_def)
    have "\<forall>m<n. \<not> overflows w wrap_width L (line_indent L (ws_indent s)) m"
      using fits_no_overflow [OF _ w(1)] Suc.prems unfolding greedy_inv_def by blast
    moreover have "greedy_lines t w wrap_width (insert n P) ?i ?indent (wrap_from cw wrap_width (map Char_Candidate (drop (Suc n) t)) s')"
      using Suc.hyps(1) [OF d b(4)] b(3) by simp
    ultimately have "greedy_lines t w wrap_width P L (ws_indent s)
        (b # wrap_from cw wrap_width (map Char_Candidate (drop (Suc n) t)) s')"
      unfolding greedy_lines.simps Let_def using n b(1,2) by blast
    then show ?thesis using step Some by (simp add: drop del: greedy_lines.simps)
  qed
qed

lemma wrap_line_greedy:
  assumes "0 \<le> w" "\<And>c. cw c = w" "newline \<notin> set t"
  shows "greedy_lines t w wrap_width {} 0 None (wrap_line cw [Text t] wrap_width)"
  using greedy_from [OF assms greedy_start] by (simp add: wrap_line_def wrap_start_def)

end
