(* ===== verification/Text_Truncate_Lines.thy ===== *)
theory Text_Truncate_Lines
  imports Text_Truncate_Correct Text_Wrap_Breaks
begin

text \<open>
  Where a text of one width is cut when it is truncated to a number of lines: the lines before the
  last are broken as needed, and the last one keeps the longest part that fits with the affix.
\<close>

section \<open>The rule\<close>

text \<open>In the paragraph from \<open>q\<close> on, a line may end before a word after a space and before any mark behind some text.\<close>

definition prev_char :: "ucs list \<Rightarrow> nat \<Rightarrow> nat \<Rightarrow> ucs" where
  "prev_char t q n = (if n = q then 0 else t ! (n - 1))"

definition may_cut :: "ucs list \<Rightarrow> nat \<Rightarrow> nat \<Rightarrow> bool" where
  "may_cut t q n \<longleftrightarrow> (\<exists>j<n. q \<le> j \<and> t ! j \<noteq> space) \<and> t ! n \<noteq> space \<and> (is_word_char (t ! n) \<longrightarrow> prev_char t q n = space)"

text \<open>
  Line \<open>l\<close>, in the paragraph from \<open>q\<close> on, starts at character \<open>a\<close> with an indentation; the text before
  \<open>p\<close> had been seen by then. A new line is started by a character that does not fit, at the last
  place before it, and by a newline; on the last line only by one with nothing but blanks behind it.
\<close>

inductive line_starts ::
  "ucs list \<Rightarrow> 'u::linordered_idom \<Rightarrow> 'u \<Rightarrow> nat \<Rightarrow> nat \<Rightarrow> nat \<Rightarrow> nat \<Rightarrow> nat option \<Rightarrow> nat \<Rightarrow> bool"
  for t w wrap_width max_lines where
  line_first: "line_starts t w wrap_width max_lines 0 0 0 None 0"
| line_wrapped: "line_starts t w wrap_width max_lines l q a indent p \<Longrightarrow> l < max_lines - 1 \<Longrightarrow> p \<le> n \<Longrightarrow> n < length t \<Longrightarrow>
    \<forall>j. q \<le> j \<and> j \<le> n \<longrightarrow> t ! j \<noteq> newline \<Longrightarrow>
    overflows w wrap_width a (line_indent a indent) n \<Longrightarrow> \<forall>m<n. \<not> overflows w wrap_width a (line_indent a indent) m \<Longrightarrow>
    line_broken t w wrap_width a (line_indent a indent) (break_at (may_cut t q) a n) \<Longrightarrow>
    line_starts t w wrap_width max_lines (Suc l) q (break_at (may_cut t q) a n) (kept_indent t q a n indent) (Suc n)"
| line_ended: "line_starts t w wrap_width max_lines l q a indent p \<Longrightarrow> p \<le> n \<Longrightarrow> n < length t \<Longrightarrow>
    \<forall>j. q \<le> j \<and> j < n \<longrightarrow> t ! j \<noteq> newline \<Longrightarrow> t ! n = newline \<Longrightarrow> fits w wrap_width (line_indent a indent) (n - a) \<Longrightarrow>
    max_lines \<le> Suc l \<longrightarrow> list_all char_is_whitespace (drop (Suc n) t) \<Longrightarrow>
    line_starts t w wrap_width max_lines (Suc l) (Suc n) (Suc n) None (Suc n)"

text \<open>
  The cut on a last line from \<open>a\<close> on, of whose characters those from \<open>p\<close> to \<open>n\<close> were tried: the last
  of them that fits together with the affix, or the start of the line.
\<close>

definition last_cut :: "'u::linordered_idom \<Rightarrow> 'u \<Rightarrow> 'u \<Rightarrow> nat \<Rightarrow> nat \<Rightarrow> nat \<Rightarrow> nat \<Rightarrow> nat \<Rightarrow> bool" where
  "last_cut w wrap_width affix_width a indent p n K \<longleftrightarrow> a \<le> K \<and> K \<le> n \<and>
     (K \<noteq> a \<longrightarrow> p < K \<and> of_nat (indent + (K - a)) * w + affix_width \<le> wrap_width) \<and>
     (\<forall>k. max K p < k \<and> k \<le> n \<longrightarrow> wrap_width < of_nat (indent + (k - a)) * w + affix_width)"

definition cut_ok :: "ucs list \<Rightarrow> 'u::linordered_idom \<Rightarrow> 'u \<Rightarrow> nat \<Rightarrow> 'u \<Rightarrow> nat \<Rightarrow> bool" where
  "cut_ok t w wrap_width max_lines affix_width K \<longleftrightarrow>
     (\<exists>l q a indent p n. line_starts t w wrap_width max_lines l q a indent p \<and> max_lines \<le> Suc l \<and> p \<le> n \<and> n < length t \<and>
        (\<forall>j. q \<le> j \<and> j < n \<longrightarrow> t ! j \<noteq> newline) \<and>
        (if t ! n = newline then \<not> list_all char_is_whitespace (drop (Suc n) t)
         else wrap_width < of_nat (line_indent a indent + (Suc n - a)) * w) \<and>
        last_cut w wrap_width affix_width a (line_indent a indent) p n K)"

definition left_ok :: "ucs list \<Rightarrow> 'u::linordered_idom \<Rightarrow> 'u \<Rightarrow> nat \<Rightarrow> bool" where
  "left_ok t w wrap_width max_lines \<longleftrightarrow>
     (\<exists>l q a indent p. line_starts t w wrap_width max_lines l q a indent p \<and> p \<le> length t \<and>
        (\<forall>j. q \<le> j \<and> j < length t \<longrightarrow> t ! j \<noteq> newline) \<and> fits w wrap_width (line_indent a indent) (length t - a))"

section \<open>One character\<close>

definition note_char :: "nat \<Rightarrow> ucs \<Rightarrow> 'u truncate_state \<Rightarrow> 'u truncate_state" where
  "note_char ix c s =
     (let s = (if is_word_char c
               then if ts_prev_c s = space \<and> ts_first s \<noteq> None
                    then s\<lparr>ts_candidate_ix := ix, ts_candidate_width := ts_width s\<rparr> else s
               else if c \<noteq> space \<and> ts_first s \<noteq> None
                    then s\<lparr>ts_candidate_ix := ix, ts_candidate_width := ts_width s\<rparr> else s) in
      if c \<noteq> space \<and> ts_first s = None then s\<lparr>ts_first := Some ix\<rparr> else s)"

lemma note_char_simps [simp]:
  "ts_width (note_char ix c s) = ts_width s" "ts_line (note_char ix c s) = ts_line s" "ts_wrap_ix (note_char ix c s) = ts_wrap_ix s"
  "ts_prev_c (note_char ix c s) = ts_prev_c s" "ts_indent (note_char ix c s) = ts_indent s" "ts_cut (note_char ix c s) = ts_cut s"
  by (simp_all add: note_char_def Let_def)

lemma truncate_char_eq:
  assumes "c \<noteq> newline"
  shows "truncate_char cw wrap_width max_lines affix_width t ix c s =
    (let s = note_char ix c s; s = s\<lparr>ts_width := ts_width s + cw c\<rparr> in
     if ts_line s < max_lines - 1
     then Some (Inr ((if wrap_width < ts_width s \<and> ts_wrap_ix s < ix then truncate_wrap cw ix (cw c) s else s)\<lparr>ts_prev_c := c\<rparr>))
     else let s = (if ts_width s + affix_width \<le> wrap_width then s\<lparr>ts_cut := ix + len_utf8 c\<rparr> else s) in
       Some (if wrap_width < ts_width s then Inl (ts_cut s) else Inr (s\<lparr>ts_prev_c := c\<rparr>)))"
  using assms unfolding truncate_char_def note_char_def Let_def by simp

text \<open>A state of truncation as one of wrapping.\<close>

definition as_wrap :: "nat \<Rightarrow> 'u truncate_state \<Rightarrow> 'u wrap_state" where
  "as_wrap ix s = \<lparr>ws_width = ts_width s, first_non_whitespace_ix = ts_first s, ws_indent = ts_indent s,
     last_candidate_ix = ts_candidate_ix s, last_candidate_width = ts_candidate_width s, last_wrap_ix = ts_wrap_ix s,
     prev_c = ts_prev_c s, ws_index = ix\<rparr>"

lemma as_wrap_simps [simp]:
  "ws_width (as_wrap ix s) = ts_width s" "first_non_whitespace_ix (as_wrap ix s) = ts_first s"
  "ws_indent (as_wrap ix s) = ts_indent s" "last_candidate_ix (as_wrap ix s) = ts_candidate_ix s"
  "last_candidate_width (as_wrap ix s) = ts_candidate_width s" "last_wrap_ix (as_wrap ix s) = ts_wrap_ix s"
  "prev_c (as_wrap ix s) = ts_prev_c s" "ws_index (as_wrap ix s) = ix"
  by (simp_all add: as_wrap_def)

lemma as_wrap_update:
  "(as_wrap ix s)\<lparr>ws_index := ix'\<rparr> = as_wrap ix' s"
  "(as_wrap ix s)\<lparr>ws_width := x\<rparr> = as_wrap ix (s\<lparr>ts_width := x\<rparr>)"
  "(as_wrap ix s)\<lparr>ws_width := x, prev_c := c\<rparr> = as_wrap ix (s\<lparr>ts_width := x, ts_prev_c := c\<rparr>)"
  by (simp_all add: as_wrap_def)

lemma note_char_noted: "char_noted ix c (as_wrap k s) (as_wrap k (note_char ix c s))"
  by (simp add: char_noted_def note_char_def Let_def)

lemma truncate_wrap_overflow:
  assumes "ts_candidate_ix s \<noteq> 0 \<longrightarrow> ts_wrap_ix s < ts_candidate_ix s"
  shows "\<exists>b. wrap_overflow cw ix item_width (as_wrap k s) = (b, as_wrap k (truncate_wrap cw ix item_width s)) \<and>
    boundary_ix b = ts_cut (truncate_wrap cw ix item_width s)"
    "ts_line (truncate_wrap cw ix item_width s) = Suc (ts_line s)" "ts_prev_c (truncate_wrap cw ix item_width s) = ts_prev_c s"
  using assms by (auto simp: wrap_overflow_eq truncate_wrap_def new_indent_def as_wrap_def Let_def split: option.splits)

section \<open>The text up to a character\<close>

definition lines_inv ::
  "ucs list \<Rightarrow> 'u::floor_ceiling \<Rightarrow> 'u \<Rightarrow> nat \<Rightarrow> 'u \<Rightarrow> nat \<Rightarrow> nat \<Rightarrow> nat \<Rightarrow> nat \<Rightarrow> 'u truncate_state \<Rightarrow> bool" where
  "lines_inv t w wrap_width max_lines affix_width n q L p s \<longleftrightarrow>
     line_starts t w wrap_width max_lines (ts_line s) q L (ts_indent s) p \<and> p \<le> n \<and> q \<le> L \<and> (L < n \<or> L = q) \<and>
     wrap_inv t w wrap_width n L (as_wrap (byte_len (take n t)) s) \<and>
     places_inv t q (may_cut t q) n L (as_wrap (byte_len (take n t)) s) \<and>
     ts_prev_c s = prev_char t q n \<and> (\<forall>j. q \<le> j \<and> j < n \<longrightarrow> t ! j \<noteq> newline) \<and>
     (max_lines \<le> Suc (ts_line s) \<longrightarrow>
        (\<exists>K. ts_cut s = byte_len (take K t) \<and> last_cut w wrap_width affix_width L (line_indent L (ts_indent s)) p n K))"

lemma places_inv_index: "places_inv t q M n L (as_wrap k s) = places_inv t q M n L (as_wrap k' s)"
  by (simp add: places_inv_def)

lemma lines_start: "2 \<le> max_lines \<Longrightarrow> lines_inv t w wrap_width max_lines affix_width 0 0 0 0 truncate_start"
proof -
  assume "2 \<le> max_lines"
  moreover have "as_wrap (byte_len (take 0 t)) (truncate_start :: 'a truncate_state) = wrap_start"
    by (simp add: as_wrap_def truncate_start_def wrap_start_def)
  ultimately show ?thesis
    using line_first [of t w wrap_width max_lines] wrap_start_inv [of t w wrap_width]
    by (simp add: lines_inv_def) (simp add: truncate_start_def wrap_start_def places_inv_def places_def prev_char_def)
qed

lemma last_cut_start: "last_cut w wrap_width affix_width L indent n n L \<longleftrightarrow> L \<le> n"
  by (auto simp: last_cut_def)

lemma last_cut_next:
  assumes "last_cut w wrap_width affix_width L indent p n K" "p \<le> n" "L \<le> n"
  shows "last_cut w wrap_width affix_width L indent p (Suc n)
    (if of_nat (indent + (Suc n - L)) * w + affix_width \<le> wrap_width then Suc n else K)"
proof -
  define f where "f k = of_nat (indent + (k - L)) * w + affix_width" for k
  have eq: "last_cut w wrap_width affix_width L indent p n K \<longleftrightarrow> L \<le> K \<and> K \<le> n \<and> (K \<noteq> L \<longrightarrow> p < K \<and> f K \<le> wrap_width) \<and>
      (\<forall>k. max K p < k \<and> k \<le> n \<longrightarrow> wrap_width < f k)" for n K
    by (simp only: last_cut_def f_def)
  show ?thesis using assms unfolding f_def [symmetric] eq by (auto simp: le_Suc_eq not_le)
qed

lemma note_places:
  assumes inv: "lines_inv t w wrap_width max_lines affix_width n q L p s" and n: "n < length t" and c: "t ! n \<noteq> newline"
  shows "places_inv t q (may_cut t q) (Suc n) L (as_wrap k (note_char (byte_len (take n t)) (t ! n) s))"
proof -
  have p: "places_inv t q (may_cut t q) n L (as_wrap (byte_len (take n t)) s)" and q: "q \<le> n" and L: "L < n \<or> L = q"
    and prev: "ts_prev_c s = prev_char t q n"
    using inv by (auto simp: lines_inv_def wrap_inv_def)
  have first: "ts_first s = (if text_start t q < n then Some (byte_len (take (text_start t q) t)) else None)"
    using p by (simp add: places_inv_def)
  have may: "may_cut t q n \<longleftrightarrow> text_start t q < n \<and> t ! n \<noteq> space \<and> (is_word_char (t ! n) \<longrightarrow> ts_prev_c s = space)"
    using text_before [of n t q] n by (simp add: may_cut_def prev)
  have space: "\<not> is_word_char space" by code_simp
  have cand: "last_candidate_ix (as_wrap k (note_char (byte_len (take n t)) (t ! n) s)) =
      (if may_cut t q n then byte_len (take n t) else last_candidate_ix (as_wrap (byte_len (take n t)) s))"
    unfolding may using first space by (auto simp: note_char_def Let_def)
  have "may_cut t q n \<Longrightarrow> L < n" using L may text_start_ge [of q t] by auto
  from places_noted [OF p n q _ cand this, of k] show ?thesis
    using note_char_noted [of "byte_len (take n t)" "t ! n" k s] by (simp add: as_wrap_update)
qed

lemma char_eq:
  assumes "n < length t"
  shows "t = take n t @ t ! n # drop (Suc n) t" "byte_len (take n t) + len_utf8 (t ! n) = byte_len (take (Suc n) t)"
  using assms by (simp_all add: id_take_nth_drop [symmetric] byte_len_take_Suc)

lemma newline_step:
  assumes inv: "lines_inv t w wrap_width max_lines affix_width n q L p s" and n: "n < length t" and c: "t ! n = newline"
    and step: "truncate_char cw wrap_width max_lines affix_width t (byte_len (take n t)) (t ! n) s = Some r"
  shows "case r of
      Inl k \<Rightarrow> \<exists>K\<le>n. k = byte_len (take K t) \<and> cut_ok t w wrap_width max_lines affix_width K
    | Inr s' \<Rightarrow> lines_inv t w wrap_width max_lines affix_width (Suc n) (Suc n) (Suc n) (Suc n) s'"
proof -
  let ?rest = "drop (Suc n) t" and ?k = "byte_len (take (Suc n) t)"
  have len: "byte_len (take n t) + 1 = ?k" using char_eq(2) [OF n] by (simp add: c newline_def len_utf8_def)
  have "take (Suc n) t @ ?rest = t" by simp
  then have str: "str_from t ?k = Some ?rest" using str_from_append [of "take (Suc n) t" ?rest] by simp
  have starts: "line_starts t w wrap_width max_lines (ts_line s) q L (ts_indent s) p" and p: "p \<le> n"
    and before: "\<forall>j. q \<le> j \<and> j < n \<longrightarrow> t ! j \<noteq> newline"
    and fit: "fits w wrap_width (line_indent L (ts_indent s)) (n - L)"
    using inv by (simp_all add: lines_inv_def wrap_inv_def)
  show ?thesis
  proof (cases "max_lines \<le> Suc (ts_line s) \<and> \<not> list_all char_is_whitespace ?rest")
    case True
    then have r: "r = Inl (ts_cut s)" using step unfolding truncate_char_def c unfolding len str by auto
    obtain K where K: "ts_cut s = byte_len (take K t)" "last_cut w wrap_width affix_width L (line_indent L (ts_indent s)) p n K"
      using inv True by (auto simp: lines_inv_def)
    have "cut_ok t w wrap_width max_lines affix_width K"
      unfolding cut_ok_def using starts True p n before c K(2) by (intro exI [of _ "ts_line s"] exI conjI) auto
    then show ?thesis using K by (auto simp: r last_cut_def)
  next
    case False
    let ?s = "s\<lparr>ts_line := ts_line s + 1, ts_width := 0, ts_first := None, ts_candidate_ix := 0, ts_candidate_width := 0,
      ts_wrap_ix := ?k, ts_prev_c := 0, ts_indent := None, ts_cut := ?k\<rparr>"
    have r: "r = Inr ?s" using step False unfolding truncate_char_def c unfolding len str by auto
    have "line_starts t w wrap_width max_lines (ts_line ?s) (Suc n) (Suc n) (ts_indent ?s) (Suc n)"
      using line_ended [OF starts p n before c fit] False by auto
    moreover have "wrap_inv t w wrap_width (Suc n) (Suc n) (as_wrap ?k ?s)"
      using n by (simp add: wrap_inv_def line_indent_def cand_ok_def first_ok_def fits_def)
    moreover have "places_inv t (Suc n) (may_cut t (Suc n)) (Suc n) (Suc n) (as_wrap ?k ?s)"
      using text_start_ge [of "Suc n" t] by (simp add: places_inv_def places_def)
    ultimately have "lines_inv t w wrap_width max_lines affix_width (Suc n) (Suc n) (Suc n) (Suc n) ?s"
      by (auto simp: lines_inv_def prev_char_def last_cut_start intro!: exI [of _ "Suc n"])
    then show ?thesis by (simp add: r)
  qed
qed

lemma char_step:
  assumes inv: "lines_inv t w wrap_width max_lines affix_width n q L p s" and n: "n < length t" and c: "t ! n \<noteq> newline"
    and w: "0 \<le> w" "\<And>c. cw c = w" and affix: "0 \<le> affix_width"
    and step: "truncate_char cw wrap_width max_lines affix_width t (byte_len (take n t)) (t ! n) s = Some r"
  shows "case r of
      Inl k \<Rightarrow> \<exists>K\<le>n. k = byte_len (take K t) \<and> cut_ok t w wrap_width max_lines affix_width K
    | Inr s' \<Rightarrow> \<exists>L p. lines_inv t w wrap_width max_lines affix_width (Suc n) q L p s'"
proof -
  let ?ix = "byte_len (take n t)" and ?k = "byte_len (take (Suc n) t)" and ?ind = "line_indent L (ts_indent s)"
  let ?s = "note_char ?ix (t ! n) s" and ?M = "may_cut t q"
  have starts: "line_starts t w wrap_width max_lines (ts_line s) q L (ts_indent s) p" and p: "p \<le> n"
    and wi: "wrap_inv t w wrap_width n L (as_wrap ?ix s)" and pi: "places_inv t q ?M n L (as_wrap ?ix s)" and q: "q \<le> L"
    and before: "\<forall>j. q \<le> j \<and> j < n \<longrightarrow> t ! j \<noteq> newline"
    using inv by (simp_all add: lines_inv_def)
  have upto: "\<forall>j. q \<le> j \<and> j \<le> n \<longrightarrow> t ! j \<noteq> newline" using before c by (auto simp: le_less)
  have L: "L \<le> n" "ts_wrap_ix s = byte_len (take L t)" using wi by (auto simp: wrap_inv_def)
  have noted: "char_noted ?ix (t ! n) ((as_wrap ?ix s)\<lparr>ws_index := ?k\<rparr>) (as_wrap ?k ?s)"
    using note_char_noted by (simp add: as_wrap_update)
  have width: "ts_width s + w = of_nat (?ind + (Suc n - L)) * w"
    using noted_width [OF wi noted] unfolding as_wrap_simps note_char_simps .
  note mark = note_places [OF inv n c, of ?k]
  have prev: "t ! n = prev_char t q (Suc n)" using q L by (simp add: prev_char_def)
  have kept: "lines_inv t w wrap_width max_lines affix_width (Suc n) q L p s'"
    if "\<not> (wrap_width < ts_width s + w \<and> L < n)" and
      s': "s' = ?s\<lparr>ts_width := ts_width s + w, ts_prev_c := t ! n, ts_cut := k\<rparr>" and
      cut: "max_lines \<le> Suc (ts_line s) \<longrightarrow> (\<exists>K. k = byte_len (take K t) \<and> last_cut w wrap_width affix_width L ?ind p (Suc n) K)" for s' k
  proof -
    have "wrap_inv t w wrap_width (Suc n) L (as_wrap ?k s')"
      using char_kept [OF wi n noted, of "t ! n"] that(1) by (simp add: as_wrap_def s')
    moreover have "places_inv t q ?M (Suc n) L (as_wrap ?k s')"
      using mark by (simp add: places_inv_def s')
    ultimately show ?thesis
      using starts p q L upto prev cut by (simp add: lines_inv_def s' less_Suc_eq_le)
  qed
  show ?thesis
  proof (cases "ts_line s < max_lines - 1")
    case early: True
    then have last: "\<not> max_lines \<le> Suc (ts_line s)" by simp
    show ?thesis
    proof (cases "wrap_width < ts_width s + w \<and> L < n")
      case True
      let ?s2 = "?s\<lparr>ts_width := ts_width s + w\<rparr>"
      let ?s3 = "truncate_wrap cw ?ix w ?s2"
      have pos: "ts_wrap_ix s < ?ix" using L True n by (simp add: byte_len_take_less)
      have r: "r = Inr (?s3\<lparr>ts_prev_c := t ! n\<rparr>)"
        using step early True pos by (simp add: truncate_char_eq [OF c] Let_def w(2))
      have cand: "ts_candidate_ix ?s2 \<noteq> 0 \<longrightarrow> ts_wrap_ix ?s2 < ts_candidate_ix ?s2"
      proof -
        have "cand_ok t w (Suc n) L ?ind (ts_first ?s) (ts_candidate_ix ?s) (ts_candidate_width ?s)"
          using cand_ok_next [OF wi n noted refl] by simp
        then show ?thesis using n L by (auto simp: cand_ok_def byte_len_take_less)
      qed
      obtain b where b: "wrap_overflow cw ?ix w (as_wrap ?k ?s2) = (b, as_wrap ?k ?s3)" "boundary_ix b = ts_cut ?s3"
        using truncate_wrap_overflow(1) [OF cand] by blast
      have b': "wrap_overflow cw ?ix w ((as_wrap ?k ?s)\<lparr>ws_width := ts_width s + w\<rparr>) = (b, as_wrap ?k ?s3)"
        using b(1) by (simp add: as_wrap_update)
      note place = overflow_place [OF wi pi n _ q noted mark b', simplified]
      have over: "overflows w wrap_width L ?ind n"
        using True unfolding width overflows_def by blast
      obtain i where i: "boundary_ix b = byte_len (take i t)" "line_broken t w wrap_width L ?ind i"
        "wrap_inv t w wrap_width (Suc n) i (as_wrap ?k ?s3)"
        using wrap_overflow_ok [where cw = cw and b = b and s' = "as_wrap ?k ?s3", OF wi n w(1) noted w(2)] True b' by auto
      have at: "i = break_at ?M L n"
        using break_at_le [of ?M L n] i(1) place(1) True i(2) n
        by - (rule byte_len_take_inj [of _ t], auto simp: line_broken_def)
      have "line_starts t w wrap_width max_lines (ts_line ?s3) q i (ts_indent ?s3) (Suc n)"
        using line_wrapped [OF starts early p n upto over _ i(2) [unfolded at]] fits_no_overflow [OF wi w(1)] place(2)
          truncate_wrap_overflow(2) [OF cand] True by (simp add: at)
      moreover have "L < i" "i < Suc n" using i(2) break_at_le [of ?M L n] by (auto simp: line_broken_def at)
      moreover have "wrap_inv t w wrap_width (Suc n) i (as_wrap ?k (?s3\<lparr>ts_prev_c := t ! n\<rparr>))"
        using i(3) by (simp add: wrap_inv_def)
      moreover have "places_inv t q ?M (Suc n) i (as_wrap ?k (?s3\<lparr>ts_prev_c := t ! n\<rparr>))"
        using place(4) True by (simp add: places_inv_def at)
      ultimately have "lines_inv t w wrap_width max_lines affix_width (Suc n) q i (Suc n) (?s3\<lparr>ts_prev_c := t ! n\<rparr>)"
        using q upto prev i(1) b(2) by (auto simp: lines_inv_def last_cut_start less_Suc_eq_le intro!: exI [of _ i])
      then show ?thesis by (auto simp: r)
    next
      case False
      then have r: "r = Inr (?s\<lparr>ts_width := ts_width s + w, ts_prev_c := t ! n, ts_cut := ts_cut s\<rparr>)"
        using step early L n byte_len_take_less [of L n t]
        by (cases "L = n") (auto simp: truncate_char_eq [OF c] Let_def w(2))
      show ?thesis using kept [OF False refl] last by (auto simp: r)
    qed
  next
    case late: False
    then obtain K where K: "ts_cut s = byte_len (take K t)" "last_cut w wrap_width affix_width L ?ind p n K"
      using inv by (auto simp: lines_inv_def)
    let ?room = "ts_width s + w + affix_width \<le> wrap_width"
    let ?s3 = "?s\<lparr>ts_width := ts_width s + w, ts_prev_c := t ! n, ts_cut := (if ?room then ?k else ts_cut s)\<rparr>"
    have r: "r = (if wrap_width < ts_width s + w then Inl (if ?room then ?k else ts_cut s) else Inr ?s3)"
      using step late by (auto simp: truncate_char_eq [OF c] Let_def w(2) char_eq(2) [OF n])
    show ?thesis
    proof (cases "wrap_width < ts_width s + w")
      case True
      then have "\<not> ?room" using affix by linarith
      then have "r = Inl (byte_len (take K t))" using True by (simp add: r K(1))
      moreover have "cut_ok t w wrap_width max_lines affix_width K"
        unfolding cut_ok_def using starts late p n before c K(2) True unfolding width
        by (intro exI [of _ "ts_line s"] exI conjI) auto
      ultimately show ?thesis using K(2) by (auto simp: last_cut_def)
    next
      case False
      have "last_cut w wrap_width affix_width L ?ind p (Suc n) (if ?room then Suc n else K)"
        using last_cut_next [OF K(2) p L(1)] unfolding width .
      then have "\<exists>K'. (if ?room then ?k else ts_cut s) = byte_len (take K' t) \<and> last_cut w wrap_width affix_width L ?ind p (Suc n) K'"
        by (intro exI [of _ "if ?room then Suc n else K"]) (simp add: K(1))
      then have "lines_inv t w wrap_width max_lines affix_width (Suc n) q L p ?s3"
        using kept [of ?s3 "if ?room then ?k else ts_cut s"] False by blast
      then show ?thesis unfolding r using False by (simp only: if_False sum.case) blast
    qed
  qed
qed

lemma truncate_chars_lines:
  assumes w: "0 \<le> w" "\<And>c. cw c = w" and affix: "0 \<le> affix_width"
  shows "lines_inv t w wrap_width max_lines affix_width n q L p s \<Longrightarrow>
    truncate_chars cw wrap_width max_lines affix_width t (char_indices_from (byte_len (take n t)) (drop n t)) s = Some r \<Longrightarrow>
    case r of
      None \<Rightarrow> left_ok t w wrap_width max_lines
    | Some k \<Rightarrow> \<exists>K<length t. k = byte_len (take K t) \<and> cut_ok t w wrap_width max_lines affix_width K"
proof (induction "length t - n" arbitrary: n q L p s)
  case 0
  then have "n = length t" by (simp add: lines_inv_def wrap_inv_def)
  moreover from this have "r = None" using 0 by simp
  moreover have "left_ok t w wrap_width max_lines"
    using 0(2) unfolding left_ok_def lines_inv_def wrap_inv_def \<open>n = length t\<close>
    by (intro exI [of _ "ts_line s"] exI [of _ q] exI [of _ L] exI [of _ "ts_indent s"] exI [of _ p]) simp
  ultimately show ?case by simp
next
  case (Suc d)
  then have n: "n < length t" by simp
  have d: "d = length t - Suc n" using Suc.hyps(2) by simp
  have drop: "drop n t = t ! n # drop (Suc n) t" using n by (simp add: Cons_nth_drop_Suc)
  obtain c where c: "truncate_char cw wrap_width max_lines affix_width t (byte_len (take n t)) (t ! n) s = Some c"
    using Suc.prems(2) unfolding drop by (auto simp: bind_eq_Some_conv)
  have rest: "case c of Inl k \<Rightarrow> r = Some k
     | Inr s' \<Rightarrow> truncate_chars cw wrap_width max_lines affix_width t (char_indices_from (byte_len (take (Suc n) t)) (drop (Suc n) t)) s' = Some r"
    using Suc.prems(2) unfolding drop by (cases c) (simp_all add: c char_eq(2) [OF n])
  have step: "case c of
      Inl k \<Rightarrow> \<exists>K\<le>n. k = byte_len (take K t) \<and> cut_ok t w wrap_width max_lines affix_width K
    | Inr s' \<Rightarrow> \<exists>q L p. lines_inv t w wrap_width max_lines affix_width (Suc n) q L p s'"
    using newline_step [OF Suc.prems(1) n _ c] char_step [OF Suc.prems(1) n _ w affix c]
    by (cases "t ! n = newline") (cases c; auto)+
  show ?case
  proof (cases c)
    case (Inl k)
    then show ?thesis using step rest n by (auto dest: le_less_trans)
  next
    case (Inr s')
    then show ?thesis using step rest Suc.hyps(1) [OF d] by auto
  qed
qed

text \<open>The result of truncating to several lines, with a font of one width.\<close>

lemma truncate_wrapped_line_lines:
  assumes w: "0 \<le> w" "\<And>c. cw c = w" and lines: "2 \<le> max_lines"
    and r: "truncate_wrapped_line cw t wrap_width max_lines affix runs End = Some r"
  shows "r = (t, runs) \<and> left_ok t w wrap_width max_lines \<or>
    (\<exists>K<length t. fst r = trim_tail (take K t) @ affix \<and> cut_ok t w wrap_width max_lines (text_width cw affix) K)"
proof -
  have affix: "0 \<le> text_width cw affix" using w by (simp add: text_width_nonneg)
  obtain k where k: "truncate_chars cw wrap_width max_lines (text_width cw affix) t (char_indices t) truncate_start = Some k"
    using r lines by (auto simp: truncate_wrapped_line_def bind_eq_Some_conv)
  have ok: "case k of
      None \<Rightarrow> left_ok t w wrap_width max_lines
    | Some k \<Rightarrow> \<exists>K<length t. k = byte_len (take K t) \<and> cut_ok t w wrap_width max_lines (text_width cw affix) K"
    using truncate_chars_lines [OF w affix lines_start [OF lines], where r = k] k by (simp add: char_indices_def)
  show ?thesis
  proof (cases k)
    case None
    then show ?thesis using r lines k ok by (auto simp: truncate_wrapped_line_def)
  next
    case (Some x)
    then obtain K where K: "K < length t" "x = byte_len (take K t)" "cut_ok t w wrap_width max_lines (text_width cw affix) K"
      using ok by auto
    have "str_to t x = Some (take K t)" using str_to_append [of "take K t" "drop K t"] K(2) by simp
    then have "fst r = trim_tail (take K t) @ affix"
      using r lines k Some by (auto simp: truncate_wrapped_line_def Let_def bind_eq_Some_conv)
    then show ?thesis using K by blast
  qed
qed

end
