(* ===== verification/Line_Layout.thy ===== *)
theory Line_Layout
  imports Text_Truncate Geometry
begin

text \<open>
  Lines of shaped glyphs (\<open>gpui/src/text_system/line_layout.rs\<close>): the mapping between byte indices
  and positions, wrapping by glyph positions, and glyphs forced onto a grid of cells.
\<close>

section \<open>Lines\<close>

record 'u shaped_glyph =
  g_id :: nat
  g_position :: "'u point"
  g_index :: nat
  is_emoji :: bool

record 'u shaped_run =
  font_id :: nat
  glyphs :: "'u shaped_glyph list"

record 'u line_layout =
  font_size :: 'u
  ll_width :: 'u
  ascent :: 'u
  descent :: 'u
  ll_runs :: "'u shaped_run list"
  ll_len :: nat

text \<open>The glyphs in the order of the nested loops over runs and glyphs.\<close>

definition all_glyphs :: "'u line_layout \<Rightarrow> 'u shaped_glyph list" where
  "all_glyphs l = concat (map glyphs (ll_runs l))"

definition g_x :: "'u shaped_glyph \<Rightarrow> 'u" where
  "g_x g = px (g_position g)"

definition index_for_x :: "'u::floor_ceiling line_layout \<Rightarrow> 'u \<Rightarrow> nat option" where
  "index_for_x l x =
     (if ll_width l \<le> x then None
      else case find (\<lambda>g. g_x g \<le> x) (rev (all_glyphs l)) of Some g \<Rightarrow> Some (g_index g) | None \<Rightarrow> Some 0)"

fun closest_loop :: "'u::floor_ceiling \<Rightarrow> 'u shaped_glyph list \<Rightarrow> nat \<Rightarrow> 'u \<Rightarrow> nat option" where
  "closest_loop x [] prev_index prev_x = None"
| "closest_loop x (g # gs) prev_index prev_x =
     (if x \<le> g_x g then Some (if g_x g - x < x - prev_x then g_index g else prev_index)
      else closest_loop x gs (g_index g) (g_x g))"

definition closest_index_for_x :: "'u::floor_ceiling line_layout \<Rightarrow> 'u \<Rightarrow> nat" where
  "closest_index_for_x l x =
     (case closest_loop x (all_glyphs l) 0 0 of
        Some index \<Rightarrow> index
      | None \<Rightarrow> if ll_len l = 1 then if ll_width l / 2 < x then 1 else 0 else ll_len l)"

definition x_for_index :: "'u line_layout \<Rightarrow> nat \<Rightarrow> 'u" where
  "x_for_index l index = (case find (\<lambda>g. index \<le> g_index g) (all_glyphs l) of Some g \<Rightarrow> g_x g | None \<Rightarrow> ll_width l)"

definition font_id_for_index :: "'u line_layout \<Rightarrow> nat \<Rightarrow> nat option" where
  "font_id_for_index l index =
     map_option font_id (find (\<lambda>run. list_ex (\<lambda>g. index \<le> g_index g) (glyphs run)) (ll_runs l))"

section \<open>Wrapping\<close>

record wrap_boundary =
  run_ix :: nat
  glyph_ix :: nat

definition boundary_less :: "wrap_boundary \<Rightarrow> wrap_boundary \<Rightarrow> bool" where
  "boundary_less a b \<longleftrightarrow> run_ix a < run_ix b \<or> run_ix a = run_ix b \<and> glyph_ix a < glyph_ix b"

fun enumerate_from :: "nat \<Rightarrow> 'a list \<Rightarrow> (nat \<times> 'a) list" where
  "enumerate_from n [] = []"
| "enumerate_from n (x # xs) = (n, x) # enumerate_from (Suc n) xs"

definition boundary_glyphs :: "'u line_layout \<Rightarrow> (wrap_boundary \<times> 'u shaped_glyph) list" where
  "boundary_glyphs l =
     concat (map (\<lambda>(i, run). map (\<lambda>(j, g). (\<lparr>run_ix = i, glyph_ix = j\<rparr>, g)) (enumerate_from 0 (glyphs run)))
       (enumerate_from 0 (ll_runs l)))"

text \<open>The character a glyph starts at; an index inside a character or at the end panics.\<close>

definition glyph_char :: "ucs list \<Rightarrow> 'u shaped_glyph \<Rightarrow> ucs option" where
  "glyph_char s g = do { rest \<leftarrow> str_from s (g_index g); case rest of [] \<Rightarrow> None | c # _ \<Rightarrow> Some c }"

record 'u boundary_state =
  bs_first :: "wrap_boundary option"
  bs_candidate :: "wrap_boundary option"
  bs_candidate_x :: 'u
  bs_last :: wrap_boundary
  bs_last_x :: 'u
  bs_prev :: ucs
  bs_boundaries :: "wrap_boundary list"

definition boundary_start :: "'u::floor_ceiling boundary_state" where
  "boundary_start = \<lparr>bs_first = None, bs_candidate = None, bs_candidate_x = 0, bs_last = \<lparr>run_ix = 0, glyph_ix = 0\<rparr>,
     bs_last_x = 0, bs_prev = 0, bs_boundaries = []\<rparr>"

definition note_candidate ::
  "wrap_boundary \<Rightarrow> ucs \<Rightarrow> 'u \<Rightarrow> 'u boundary_state \<Rightarrow> 'u boundary_state" where
  "note_candidate b ch x s =
     (let s = (if is_word_char ch
               then if bs_prev s = space \<and> ch \<noteq> space \<and> bs_first s \<noteq> None
                    then s\<lparr>bs_candidate := Some b, bs_candidate_x := x\<rparr> else s
               else if ch \<noteq> space \<and> \<not> is_word_char (bs_prev s) \<and> bs_first s \<noteq> None
                    then s\<lparr>bs_candidate := Some b, bs_candidate_x := x\<rparr> else s) in
      if ch \<noteq> space \<and> bs_first s = None then s\<lparr>bs_first := Some b\<rparr> else s)"

definition push_boundary :: "wrap_boundary \<Rightarrow> 'u \<Rightarrow> 'u boundary_state \<Rightarrow> 'u boundary_state" where
  "push_boundary b x s =
     (let s = (case bs_candidate s of
                 Some c \<Rightarrow> s\<lparr>bs_candidate := None, bs_last := c, bs_last_x := bs_candidate_x s\<rparr>
               | None \<Rightarrow> s\<lparr>bs_last := b, bs_last_x := x\<rparr>) in
      s\<lparr>bs_boundaries := bs_boundaries s @ [bs_last s]\<rparr>)"

definition at_limit :: "nat option \<Rightarrow> 'b list \<Rightarrow> bool" where
  "at_limit max_lines boundaries = (case max_lines of Some n \<Rightarrow> n - 1 \<le> length boundaries | None \<Rightarrow> False)"

fun boundary_loop ::
  "ucs list \<Rightarrow> 'u::floor_ceiling \<Rightarrow> 'u \<Rightarrow> nat option \<Rightarrow> (wrap_boundary \<times> 'u shaped_glyph) list \<Rightarrow> 'u boundary_state \<Rightarrow>
   wrap_boundary list option" where
  "boundary_loop s line_width wrap_width max_lines [] st = Some (bs_boundaries st)"
| "boundary_loop s line_width wrap_width max_lines ((b, g) # rest) st =
     do { ch \<leftarrow> glyph_char s g;
          if ch = newline then boundary_loop s line_width wrap_width max_lines rest st
          else do {
            let st = note_candidate b ch (g_x g) st;
            next_x \<leftarrow> (case rest of
                          [] \<Rightarrow> Some line_width
                        | (_, g') # _ \<Rightarrow> do { _ \<leftarrow> glyph_char s g'; Some (g_x g') });
            (if wrap_width < next_x - bs_last_x st \<and> boundary_less (bs_last st) b
             then if at_limit max_lines (bs_boundaries st)
                  then Some (bs_boundaries st)
                  else boundary_loop s line_width wrap_width max_lines rest ((push_boundary b (g_x g) st)\<lparr>bs_prev := ch\<rparr>)
             else boundary_loop s line_width wrap_width max_lines rest (st\<lparr>bs_prev := ch\<rparr>)) } }"

definition compute_wrap_boundaries ::
  "'u::floor_ceiling line_layout \<Rightarrow> ucs list \<Rightarrow> 'u \<Rightarrow> nat option \<Rightarrow> wrap_boundary list option" where
  "compute_wrap_boundaries l s wrap_width max_lines =
     boundary_loop s (ll_width l) wrap_width max_lines (boundary_glyphs l) boundary_start"

section \<open>Wrapped lines\<close>

record 'u wrapped_line_layout =
  unwrapped_layout :: "'u line_layout"
  wrap_boundaries :: "wrap_boundary list"
  wl_wrap_width :: "'u option"

definition wl_len :: "'u wrapped_line_layout \<Rightarrow> nat" where
  "wl_len wl = ll_len (unwrapped_layout wl)"

text \<open>Without a wrap width the limit is the greatest number.\<close>

definition wl_width :: "'u::floor_ceiling wrapped_line_layout \<Rightarrow> 'u" where
  "wl_width wl =
     (case wl_wrap_width wl of Some w \<Rightarrow> min w (ll_width (unwrapped_layout wl)) | None \<Rightarrow> ll_width (unwrapped_layout wl))"

definition wl_size :: "'u::floor_ceiling wrapped_line_layout \<Rightarrow> 'u \<Rightarrow> 'u size" where
  "wl_size wl line_height = \<lparr>width = wl_width wl, height = line_height * of_nat (length (wrap_boundaries wl) + 1)\<rparr>"

definition boundary_glyph :: "'u line_layout \<Rightarrow> wrap_boundary \<Rightarrow> 'u shaped_glyph option" where
  "boundary_glyph l b =
     (if run_ix b < length (ll_runs l) \<and> glyph_ix b < length (glyphs (ll_runs l ! run_ix b))
      then Some (glyphs (ll_runs l ! run_ix b) ! glyph_ix b) else None)"

text \<open>\<open>Inr\<close> is an index on the line, \<open>Inl\<close> the end of the line nearest to the position.\<close>

definition index_for_position_mode ::
  "'u::floor_ceiling wrapped_line_layout \<Rightarrow> 'u point \<Rightarrow> 'u \<Rightarrow> bool \<Rightarrow> (nat + nat) option" where
  "index_for_position_mode wl position line_height closest =
     (let l = unwrapped_layout wl; bs = wrap_boundaries wl; line_ix = nat \<lfloor>py position / line_height\<rfloor> in
      if 0 < line_ix \<and> length bs < line_ix then Some (Inl 0)
      else do {
        (start_index, start_x) \<leftarrow>
          (if 0 < line_ix then map_option (\<lambda>g. (g_index g, g_x g)) (boundary_glyph l (bs ! (line_ix - 1))) else Some (0, 0));
        (end_index, end_x) \<leftarrow>
          (if line_ix < length bs then map_option (\<lambda>g. (g_index g, g_x g)) (boundary_glyph l (bs ! line_ix))
           else Some (ll_len l, ll_width l));
        (let x = px position + start_x in
         if x < start_x then Some (Inl start_index)
         else if end_x \<le> x then Some (Inl end_index)
         else if closest then Some (Inr (closest_index_for_x l x))
         else map_option Inr (index_for_x l x)) })"

definition index_for_position :: "'u::floor_ceiling wrapped_line_layout \<Rightarrow> 'u point \<Rightarrow> 'u \<Rightarrow> (nat + nat) option" where
  "index_for_position wl position line_height = index_for_position_mode wl position line_height False"

definition closest_index_for_position :: "'u::floor_ceiling wrapped_line_layout \<Rightarrow> 'u point \<Rightarrow> 'u \<Rightarrow> (nat + nat) option" where
  "closest_index_for_position wl position line_height = index_for_position_mode wl position line_height True"

text \<open>The outer option is a panic: a boundary that is not in the layout.\<close>

fun position_loop ::
  "'u::floor_ceiling line_layout \<Rightarrow> nat \<Rightarrow> 'u \<Rightarrow> nat \<Rightarrow> nat \<Rightarrow> wrap_boundary list \<Rightarrow> 'u point option option" where
  "position_loop l index line_height ix line_start_ix [] =
     (if index < line_start_ix \<or> ll_len l < index then Some None
      else Some (Some \<lparr>px = x_for_index l index - x_for_index l line_start_ix, py = of_nat ix * line_height\<rparr>))"
| "position_loop l index line_height ix line_start_ix (b # bs) =
     do { g \<leftarrow> boundary_glyph l b;
          if index < line_start_ix then Some None
          else if g_index g < index then position_loop l index line_height (Suc ix) (g_index g) bs
          else Some (Some \<lparr>px = x_for_index l index - x_for_index l line_start_ix, py = of_nat ix * line_height\<rparr>) }"

definition position_for_index :: "'u::floor_ceiling wrapped_line_layout \<Rightarrow> nat \<Rightarrow> 'u \<Rightarrow> 'u point option option" where
  "position_for_index wl index line_height =
     position_loop (unwrapped_layout wl) index line_height 0 0 (wrap_boundaries wl)"

section \<open>Forced widths\<close>

text \<open>The last base glyph is \<open>None\<close> at the start, where its shaped position is minus infinity.\<close>

record 'u force_state =
  glyph_pos :: nat
  last_base_shaped_x :: "'u option"
  last_base_actual_x :: 'u

definition set_x :: "'u \<Rightarrow> 'u shaped_glyph \<Rightarrow> 'u shaped_glyph" where
  "set_x x g = g\<lparr>g_position := (g_position g)\<lparr>px := x\<rparr>\<rparr>"

definition force_glyph ::
  "'u::floor_ceiling \<Rightarrow> 'u shaped_glyph \<Rightarrow> 'u force_state \<Rightarrow> 'u shaped_glyph \<times> 'u force_state" where
  "force_glyph force_width g st =
     (let shaped_x = g_x g in
      if (case last_base_shaped_x st of None \<Rightarrow> True | Some b \<Rightarrow> b + force_width * (1 / 2) < shaped_x)
      then (let forced_x = of_nat (glyph_pos st) * force_width;
                g = (if 1 < \<bar>shaped_x - forced_x\<bar> then set_x forced_x g else g) in
            (g, \<lparr>glyph_pos = glyph_pos st + 1, last_base_shaped_x = Some shaped_x, last_base_actual_x = g_x g\<rparr>))
      else (case last_base_shaped_x st of
              Some b \<Rightarrow> (set_x (last_base_actual_x st + (shaped_x - b)) g, st)
            | None \<Rightarrow> (g, st)))"

fun force_glyphs :: "'u::floor_ceiling \<Rightarrow> 'u shaped_glyph list \<Rightarrow> 'u force_state \<Rightarrow> 'u shaped_glyph list \<times> 'u force_state" where
  "force_glyphs force_width [] st = ([], st)"
| "force_glyphs force_width (g # gs) st =
     (let (g, st) = force_glyph force_width g st; (gs, st) = force_glyphs force_width gs st in (g # gs, st))"

fun force_runs :: "'u::floor_ceiling \<Rightarrow> 'u shaped_run list \<Rightarrow> 'u force_state \<Rightarrow> 'u shaped_run list" where
  "force_runs force_width [] st = []"
| "force_runs force_width (run # runs) st =
     (let (gs, st) = force_glyphs force_width (glyphs run) st in run\<lparr>glyphs := gs\<rparr> # force_runs force_width runs st)"

definition apply_force_width_to_layout :: "'u::floor_ceiling \<Rightarrow> 'u line_layout \<Rightarrow> 'u line_layout" where
  "apply_force_width_to_layout force_width l =
     l\<lparr>ll_runs := force_runs force_width (ll_runs l) \<lparr>glyph_pos = 0, last_base_shaped_x = None, last_base_actual_x = 0\<rparr>\<rparr>"

end
