(* ===== verification/Line_Layout_Correct.thy ===== *)
theory Line_Layout_Correct
  imports Line_Layout Text_Truncate_Correct
begin

text \<open>
  Wrapping a shaped line gives increasing boundaries, and indices and positions on the wrapped
  lines are inverse to each other.
\<close>

section \<open>Glyphs in order\<close>

lemma enumerate_from_nth: "k < length xs \<Longrightarrow> enumerate_from n xs ! k = (n + k, xs ! k)"
  by (induction n xs arbitrary: k rule: enumerate_from.induct) (auto simp: nth_Cons' )

lemma length_enumerate_from [simp]: "length (enumerate_from n xs) = length xs"
  by (induction n xs rule: enumerate_from.induct) simp_all

lemma enumerate_from_fst: "i \<in> fst ` set (enumerate_from n xs) \<Longrightarrow> n \<le> i"
  by (induction n xs rule: enumerate_from.induct) (auto dest: Suc_leD)

lemma map_snd_enumerate [simp]: "map snd (enumerate_from n xs) = xs"
  by (induction n xs rule: enumerate_from.induct) simp_all

lemma enumerate_sorted: "sorted_wrt (<) (map fst (enumerate_from n xs))"
proof (induction n xs rule: enumerate_from.induct)
  case (2 n x xs)
  then show ?case using enumerate_from_fst [of _ "Suc n" xs] by (auto simp: Suc_le_eq)
qed simp

definition run_glyphs :: "nat \<times> 'u shaped_run \<Rightarrow> (wrap_boundary \<times> 'u shaped_glyph) list" where
  "run_glyphs p = map (\<lambda>(j, g). (\<lparr>run_ix = fst p, glyph_ix = j\<rparr>, g)) (enumerate_from 0 (glyphs (snd p)))"

lemma boundary_glyphs_runs: "boundary_glyphs l = concat (map run_glyphs (enumerate_from 0 (ll_runs l)))"
  unfolding boundary_glyphs_def by (rule arg_cong [where f = concat], rule map_cong) (auto simp: run_glyphs_def)

lemma run_glyphs_snd: "map snd (run_glyphs p) = glyphs (snd p)"
  by (simp add: run_glyphs_def case_prod_beta comp_def)

lemma runs_snd: "map snd (concat (map run_glyphs ps)) = concat (map glyphs (map snd ps))"
  by (induction ps) (simp_all add: run_glyphs_snd)

lemma boundary_glyphs_snd: "map snd (boundary_glyphs l) = all_glyphs l"
  by (simp add: boundary_glyphs_runs runs_snd all_glyphs_def del: map_map)

lemma run_glyphs_fst: "b \<in> fst ` set (run_glyphs p) \<Longrightarrow> run_ix b = fst p"
  by (auto simp: run_glyphs_def)

lemma run_glyphs_sorted: "sorted_wrt boundary_less (map fst (run_glyphs p))"
proof -
  have "map fst (run_glyphs p) = map (\<lambda>j. \<lparr>run_ix = fst p, glyph_ix = j\<rparr>) (map fst (enumerate_from 0 (glyphs (snd p))))"
    by (simp add: run_glyphs_def case_prod_beta)
  then show ?thesis using enumerate_sorted [of 0 "glyphs (snd p)"] by (simp only: sorted_wrt_map) (simp add: boundary_less_def sorted_wrt_map)
qed

lemma runs_sorted: "sorted_wrt (<) (map fst ps) \<Longrightarrow> sorted_wrt boundary_less (map fst (concat (map run_glyphs ps)))"
proof (induction ps)
  case (Cons p ps)
  have "boundary_less a b" if a: "a \<in> fst ` set (run_glyphs p)" and b: "b \<in> fst ` (\<Union>q\<in>set ps. set (run_glyphs q))" for a b
  proof -
    obtain q where "q \<in> set ps" "b \<in> fst ` set (run_glyphs q)" using b by auto
    then show ?thesis using run_glyphs_fst [OF a] run_glyphs_fst [of b q] Cons.prems by (auto simp: boundary_less_def)
  qed
  then show ?case using Cons run_glyphs_sorted [of p] by (auto simp: sorted_wrt_append)
qed simp

lemma boundary_glyphs_sorted: "sorted_wrt boundary_less (map fst (boundary_glyphs l))"
  unfolding boundary_glyphs_runs by (rule runs_sorted) (rule enumerate_sorted)

definition bpos :: "'u line_layout \<Rightarrow> nat \<Rightarrow> wrap_boundary" where
  "bpos l k = fst (boundary_glyphs l ! k)"

lemma length_boundary_glyphs [simp]: "length (boundary_glyphs l) = length (all_glyphs l)"
  using arg_cong [OF boundary_glyphs_snd, of length l] by simp

lemma boundary_glyphs_nth: "k < length (all_glyphs l) \<Longrightarrow> boundary_glyphs l ! k = (bpos l k, all_glyphs l ! k)"
  using arg_cong [OF boundary_glyphs_snd [of l], of "\<lambda>xs. xs ! k"] by (simp add: bpos_def prod_eq_iff)

lemma bpos_less: "i < j \<Longrightarrow> j < length (all_glyphs l) \<Longrightarrow> boundary_less (bpos l i) (bpos l j)"
  using boundary_glyphs_sorted [of l] by (simp add: sorted_wrt_iff_nth_less bpos_def)

lemma boundary_less_irrefl: "\<not> boundary_less a a" "boundary_less a b \<Longrightarrow> \<not> boundary_less b a"
  by (auto simp: boundary_less_def)

lemma bpos_less_iff: "i < length (all_glyphs l) \<Longrightarrow> j < length (all_glyphs l) \<Longrightarrow> boundary_less (bpos l i) (bpos l j) \<longleftrightarrow> i < j"
  using bpos_less [of i j l] bpos_less [of j i l] boundary_less_irrefl by (metis linorder_neqE_nat)

lemma bpos_glyph:
  assumes "k < length (all_glyphs l)"
  shows "boundary_glyph l (bpos l k) = Some (all_glyphs l ! k)"
proof -
  have "(bpos l k, all_glyphs l ! k) \<in> set (boundary_glyphs l)"
    using boundary_glyphs_nth [OF assms] assms nth_mem [of k "boundary_glyphs l"] by simp
  then obtain p where p: "p \<in> set (enumerate_from 0 (ll_runs l))" "(bpos l k, all_glyphs l ! k) \<in> set (run_glyphs p)"
    by (auto simp: boundary_glyphs_runs)
  obtain i where i: "i < length (ll_runs l)" "p = (i, ll_runs l ! i)"
    using p(1) by (auto simp: in_set_conv_nth enumerate_from_nth)
  obtain j where "j < length (glyphs (ll_runs l ! i))" "bpos l k = \<lparr>run_ix = i, glyph_ix = j\<rparr>"
    "all_glyphs l ! k = glyphs (ll_runs l ! i) ! j"
    using p(2) unfolding run_glyphs_def i(2) by (auto simp: in_set_conv_nth enumerate_from_nth)
  then show ?thesis using i(1) by (simp add: boundary_glyph_def)
qed

section \<open>Wrapping\<close>

text \<open>
  A layout as the text system gives it: no empty runs, glyphs at increasing byte indices and
  positions from the start of the line, all before its end; without glyphs the line is empty.
\<close>

definition layout_ok :: "'u::floor_ceiling line_layout \<Rightarrow> bool" where
  "layout_ok l \<longleftrightarrow> list_all (\<lambda>run. glyphs run \<noteq> []) (ll_runs l) \<and>
     sorted_wrt (<) (map g_index (all_glyphs l)) \<and> sorted_wrt (<) (map g_x (all_glyphs l)) \<and>
     list_all (\<lambda>g. g_index g < ll_len l \<and> g_x g < ll_width l) (all_glyphs l) \<and>
     (case all_glyphs l of [] \<Rightarrow> ll_len l = 0 \<and> ll_width l = 0 | g # _ \<Rightarrow> g_index g = 0 \<and> g_x g = 0)"

lemma bpos_first: "layout_ok l \<Longrightarrow> all_glyphs l \<noteq> [] \<Longrightarrow> bpos l 0 = \<lparr>run_ix = 0, glyph_ix = 0\<rparr>"
proof -
  assume ok: "layout_ok l" and ne: "all_glyphs l \<noteq> []"
  then obtain run runs where runs: "ll_runs l = run # runs" by (cases "ll_runs l") (auto simp: all_glyphs_def)
  then obtain g gs where "glyphs run = g # gs" using ok by (cases "glyphs run") (auto simp: layout_ok_def)
  then show ?thesis using runs by (simp add: bpos_def boundary_glyphs_def)
qed

definition char_starts :: "ucs list \<Rightarrow> 'u line_layout \<Rightarrow> bool" where
  "char_starts s l \<longleftrightarrow> list_all (\<lambda>g. glyph_char s g \<noteq> None) (all_glyphs l)"

definition bounds_at :: "'u line_layout \<Rightarrow> nat \<Rightarrow> nat list \<Rightarrow> wrap_boundary list \<Rightarrow> bool" where
  "bounds_at l n ks bs \<longleftrightarrow> bs = map (bpos l) ks \<and> sorted_wrt (<) (0 # ks) \<and> (\<forall>k\<in>set ks. k < n)"

definition boundary_inv :: "'u::floor_ceiling line_layout \<Rightarrow> nat \<Rightarrow> 'u boundary_state \<Rightarrow> bool" where
  "boundary_inv l n st \<longleftrightarrow> (\<exists>ks. bounds_at l n ks (bs_boundaries st) \<and>
     (let L = last (0 # ks) in
      (L < n \<or> L = n \<and> n = 0) \<and> (all_glyphs l \<noteq> [] \<longrightarrow> bs_last st = bpos l L) \<and>
      (\<forall>c. bs_candidate st = Some c \<longrightarrow> (\<exists>C. c = bpos l C \<and> L < C \<and> C < n)) \<and>
      (bs_first st \<noteq> None \<longrightarrow> 0 < n)))"

lemma note_candidate_inv:
  assumes inv: "boundary_inv l n st" and n: "n < length (all_glyphs l)"
  shows "boundary_inv l (Suc n) (note_candidate (bpos l n) ch x st)" "bs_last (note_candidate (bpos l n) ch x st) = bs_last st"
    "bs_boundaries (note_candidate (bpos l n) ch x st) = bs_boundaries st"
proof -
  obtain ks where ks: "bounds_at l n ks (bs_boundaries st)" "last (0 # ks) < n \<or> last (0 # ks) = n \<and> n = 0"
    "bs_last st = bpos l (last (0 # ks))"
    "\<forall>c. bs_candidate st = Some c \<longrightarrow> (\<exists>C. c = bpos l C \<and> last (0 # ks) < C \<and> C < n)" "bs_first st \<noteq> None \<longrightarrow> 0 < n"
    using inv n unfolding boundary_inv_def Let_def by fastforce
  have b: "bounds_at l (Suc n) ks (bs_boundaries st)" using ks(1) by (auto simp: bounds_at_def)
  have "\<exists>C. c = bpos l C \<and> last (0 # ks) < C \<and> C < Suc n" if "bs_candidate st = Some c" for c
    using ks(4) that less_SucI by blast
  moreover have "bs_first st \<noteq> None \<Longrightarrow> last (0 # ks) < n" using ks(2,5) by auto
  ultimately show "boundary_inv l (Suc n) (note_candidate (bpos l n) ch x st)"
    using b ks(2,3) unfolding boundary_inv_def Let_def
    by (intro exI [of _ ks]) (auto simp: note_candidate_def Let_def simp del: last.simps)
  show "bs_last (note_candidate (bpos l n) ch x st) = bs_last st"
    "bs_boundaries (note_candidate (bpos l n) ch x st) = bs_boundaries st"
    by (simp_all add: note_candidate_def Let_def)
qed

lemma bounds_at_snoc: "bounds_at l n ks bs \<Longrightarrow> last (0 # ks) < k \<Longrightarrow> k < n \<Longrightarrow> bounds_at l n (ks @ [k]) (bs @ [bpos l k])"
proof -
  assume b: "bounds_at l n ks bs" and k: "last (0 # ks) < k" "k < n"
  have split: "0 # ks = butlast (0 # ks) @ [last (0 # ks)]" by (metis append_butlast_last_id list.distinct(1))
  have "sorted (0 # ks)" using b by (auto simp: bounds_at_def strict_sorted_iff simp del: sorted_wrt.simps)
  then have "sorted (butlast (0 # ks) @ [last (0 # ks)])" using split by metis
  then have "\<forall>j\<in>set (butlast (0 # ks) @ [last (0 # ks)]). j \<le> last (0 # ks)" by (auto simp: sorted_append)
  then have "\<forall>j\<in>set (0 # ks). j \<le> last (0 # ks)" using split by metis
  then have "\<forall>j\<in>set (0 # ks). j < k" using k(1) by fastforce
  then show ?thesis using b k(2) by (auto simp: bounds_at_def sorted_wrt_append)
qed

lemma push_boundary_inv:
  assumes inv: "boundary_inv l (Suc n) st" and n: "n < length (all_glyphs l)" and less: "boundary_less (bs_last st) (bpos l n)"
  shows "boundary_inv l (Suc n) ((push_boundary (bpos l n) x st)\<lparr>bs_prev := ch\<rparr>)"
    "length (bs_boundaries (push_boundary (bpos l n) x st)) = Suc (length (bs_boundaries st))"
proof -
  obtain ks where ks: "bounds_at l (Suc n) ks (bs_boundaries st)" "last (0 # ks) < Suc n" "bs_last st = bpos l (last (0 # ks))"
    "\<forall>c. bs_candidate st = Some c \<longrightarrow> (\<exists>C. c = bpos l C \<and> last (0 # ks) < C \<and> C < Suc n)"
    using inv n unfolding boundary_inv_def Let_def by fastforce
  have L: "last (0 # ks) < n"
    using less ks(2,3) n bpos_less_iff [of "last (0 # ks)" l n] by simp
  have "\<exists>C. bs_last (push_boundary (bpos l n) x st) = bpos l C \<and> last (0 # ks) < C \<and> C < Suc n"
    using L ks(4) by (cases "bs_candidate st") (auto simp: push_boundary_def)
  then obtain C where C: "bs_last (push_boundary (bpos l n) x st) = bpos l C" "last (0 # ks) < C" "C < Suc n" by blast
  have p: "bs_boundaries (push_boundary (bpos l n) x st) = bs_boundaries st @ [bpos l C]"
    "bs_candidate (push_boundary (bpos l n) x st) = None" "bs_first (push_boundary (bpos l n) x st) = bs_first st"
    using C(1) by (cases "bs_candidate st"; simp add: push_boundary_def)+
  show "boundary_inv l (Suc n) ((push_boundary (bpos l n) x st)\<lparr>bs_prev := ch\<rparr>)"
    using bounds_at_snoc [OF ks(1) C(2,3)] C unfolding boundary_inv_def Let_def
    by (intro exI [of _ "ks @ [C]"]) (simp add: p)
  show "length (bs_boundaries (push_boundary (bpos l n) x st)) = Suc (length (bs_boundaries st))" by (simp add: p)
qed

lemma boundary_inv_mono: "boundary_inv l n st \<Longrightarrow> boundary_inv l (Suc n) st"
proof -
  assume "boundary_inv l n st"
  then obtain ks where ks: "bounds_at l n ks (bs_boundaries st)" "last (0 # ks) < n \<or> last (0 # ks) = n \<and> n = 0"
    "all_glyphs l \<noteq> [] \<longrightarrow> bs_last st = bpos l (last (0 # ks))"
    "\<forall>c. bs_candidate st = Some c \<longrightarrow> (\<exists>C. c = bpos l C \<and> last (0 # ks) < C \<and> C < n)"
    unfolding boundary_inv_def Let_def by blast
  have "bounds_at l (Suc n) ks (bs_boundaries st)" using ks(1) by (auto simp: bounds_at_def)
  moreover have "\<exists>C. c = bpos l C \<and> last (0 # ks) < C \<and> C < Suc n" if "bs_candidate st = Some c" for c
    using ks(4) that less_SucI by blast
  moreover have "last (0 # ks) < Suc n" using ks(2) by auto
  ultimately show ?thesis using ks(3) unfolding boundary_inv_def Let_def by blast
qed

lemma boundary_inv_prev [simp]: "boundary_inv l n (st\<lparr>bs_prev := ch\<rparr>) = boundary_inv l n st"
  by (simp add: boundary_inv_def)

lemma boundary_loop_ok:
  assumes chars: "char_starts s l"
  shows "boundary_inv l n st \<Longrightarrow> n \<le> length (all_glyphs l) \<Longrightarrow>
    (\<And>m. max_lines = Some m \<Longrightarrow> length (bs_boundaries st) \<le> m - 1) \<Longrightarrow>
    \<exists>bs ks. boundary_loop s w wrap_width max_lines (drop n (boundary_glyphs l)) st = Some bs \<and>
      bounds_at l (length (all_glyphs l)) ks bs \<and> (\<forall>m. max_lines = Some m \<longrightarrow> length bs \<le> m - 1)"
proof (induction "length (all_glyphs l) - n" arbitrary: n st)
  case 0
  then have "bounds_at l (length (all_glyphs l)) ks bs" if "bounds_at l n ks bs" for ks bs using that by (auto simp: bounds_at_def)
  then show ?case using 0 by (auto simp: boundary_inv_def)
next
  case (Suc d)
  then have n: "n < length (all_glyphs l)" and d: "d = length (all_glyphs l) - Suc n" by simp_all
  let ?g = "all_glyphs l ! n"
  have drop: "drop n (boundary_glyphs l) = (bpos l n, ?g) # drop (Suc n) (boundary_glyphs l)"
    using n boundary_glyphs_nth [OF n] by (simp add: Cons_nth_drop_Suc [symmetric])
  have char: "glyph_char s (all_glyphs l ! k) \<noteq> None" if "k < length (all_glyphs l)" for k
    using chars that by (simp add: char_starts_def list_all_length)
  then obtain ch where ch: "glyph_char s ?g = Some ch" using n by blast
  note IH = Suc.hyps(1) [OF d]
  show ?case
  proof (cases "ch = newline")
    case True
    then show ?thesis using IH [of st] boundary_inv_mono [OF Suc.prems(1)] Suc.prems(3) n ch by (simp add: drop)
  next
    case False
    define st1 where "st1 = note_candidate (bpos l n) ch (g_x ?g) st"
    note f = note_candidate_inv [OF Suc.prems(1) n, of ch "g_x ?g", folded st1_def]
    obtain next_x where next_x: "(case drop (Suc n) (boundary_glyphs l) of [] \<Rightarrow> Some w
        | (_, g') # _ \<Rightarrow> do { _ \<leftarrow> glyph_char s g'; Some (g_x g') }) = Some next_x"
    proof (cases "drop (Suc n) (boundary_glyphs l)")
      case (Cons p ps)
      then have n': "Suc n < length (all_glyphs l)" by (metis drop_eq_Nil2 length_boundary_glyphs linorder_not_le list.distinct(1))
      then have "p = (bpos l (Suc n), all_glyphs l ! Suc n)"
        using Cons boundary_glyphs_nth [OF n'] by (metis hd_drop_conv_nth length_boundary_glyphs list.sel(1))
      then show ?thesis using that Cons char [OF n'] by auto
    qed (use that in auto)
    have eq: "boundary_loop s w wrap_width max_lines (drop n (boundary_glyphs l)) st =
        (if wrap_width < next_x - bs_last_x st1 \<and> boundary_less (bs_last st1) (bpos l n)
         then if at_limit max_lines (bs_boundaries st1)
              then Some (bs_boundaries st1)
              else boundary_loop s w wrap_width max_lines (drop (Suc n) (boundary_glyphs l))
                ((push_boundary (bpos l n) (g_x ?g) st1)\<lparr>bs_prev := ch\<rparr>)
         else boundary_loop s w wrap_width max_lines (drop (Suc n) (boundary_glyphs l)) (st1\<lparr>bs_prev := ch\<rparr>))"
      by (simp only: drop boundary_loop.simps ch Option.bind.simps Let_def st1_def [symmetric] next_x False if_False)
    show ?thesis
    proof (cases "wrap_width < next_x - bs_last_x st1 \<and> boundary_less (bs_last st1) (bpos l n)")
      case over: True
      show ?thesis
      proof (cases "at_limit max_lines (bs_boundaries st1)")
        case True
        obtain ks where "bounds_at l (Suc n) ks (bs_boundaries st1)" using f(1) by (auto simp: boundary_inv_def)
        then have "bounds_at l (length (all_glyphs l)) ks (bs_boundaries st1)" using n by (auto simp: bounds_at_def)
        then show ?thesis using eq over True f(3) Suc.prems(3) by (auto simp: at_limit_def)
      next
        case more: False
        note p = push_boundary_inv [OF f(1) n conjunct2 [OF over]]
        show ?thesis
          using IH [of "(push_boundary (bpos l n) (g_x ?g) st1)\<lparr>bs_prev := ch\<rparr>"] p(1) n p(2) more over
          unfolding eq by (auto simp: at_limit_def not_le Suc_le_eq split: option.splits)
      qed
    next
      case False
      then show ?thesis using IH [of "st1\<lparr>bs_prev := ch\<rparr>"] f(1,3) n Suc.prems(3) unfolding eq if_not_P [OF False] by simp
    qed
  qed
qed

lemma compute_wrap_boundaries_ok:
  assumes "layout_ok l" "char_starts s l"
  shows "\<exists>bs ks. compute_wrap_boundaries l s wrap_width max_lines = Some bs \<and>
    bounds_at l (length (all_glyphs l)) ks bs \<and> (\<forall>m. max_lines = Some m \<longrightarrow> length bs \<le> m - 1)"
proof -
  have "boundary_inv l 0 boundary_start"
    using bpos_first [OF assms(1)] unfolding boundary_inv_def Let_def
    by (intro exI [of _ "[]"]) (auto simp: bounds_at_def boundary_start_def)
  from boundary_loop_ok [OF assms(2) this, of max_lines] show ?thesis
    by (simp add: compute_wrap_boundaries_def boundary_start_def)
qed

section \<open>Indices and positions\<close>

text \<open>The places of a line: the start of each glyph, and the end.\<close>

definition place_index :: "'u line_layout \<Rightarrow> nat \<Rightarrow> nat" where
  "place_index l k = (if k < length (all_glyphs l) then g_index (all_glyphs l ! k) else ll_len l)"

definition place_x :: "'u line_layout \<Rightarrow> nat \<Rightarrow> 'u" where
  "place_x l k = (if k < length (all_glyphs l) then g_x (all_glyphs l ! k) else ll_width l)"

lemma place_0: "layout_ok l \<Longrightarrow> place_index l 0 = 0" "layout_ok l \<Longrightarrow> place_x l 0 = 0"
  by (cases "all_glyphs l"; simp add: layout_ok_def place_index_def place_x_def)+

lemma place_less:
  assumes "layout_ok l" "i < j" "j \<le> length (all_glyphs l)"
  shows "place_index l i < place_index l j" "place_x l i < place_x l j"
proof -
  have "sorted_wrt (<) (map g_index (all_glyphs l))" "sorted_wrt (<) (map g_x (all_glyphs l))"
    "list_all (\<lambda>g. g_index g < ll_len l \<and> g_x g < ll_width l) (all_glyphs l)"
    using assms(1) by (simp_all add: layout_ok_def)
  then show "place_index l i < place_index l j" "place_x l i < place_x l j"
    using assms(2,3) by (simp_all add: place_index_def place_x_def list_all_length sorted_wrt_iff_nth_less)
qed

lemma place_le:
  assumes "layout_ok l" "i \<le> j" "j \<le> length (all_glyphs l)"
  shows "place_index l i \<le> place_index l j" "place_x l i \<le> place_x l j"
proof -
  have "place_index l i \<le> place_index l j \<and> place_x l i \<le> place_x l j"
  proof (cases "i = j")
    case False
    then have "i < j" using assms(2) by simp
    from place_less [OF assms(1) this assms(3)] show ?thesis by simp
  qed simp
  then show "place_index l i \<le> place_index l j" "place_x l i \<le> place_x l j" by simp_all
qed

lemma find_first: "k < length xs \<Longrightarrow> P (xs ! k) \<Longrightarrow> (\<And>j. j < k \<Longrightarrow> \<not> P (xs ! j)) \<Longrightarrow> find P xs = Some (xs ! k)"
  by (auto simp: find_Some_iff)

lemma find_last: "k < length xs \<Longrightarrow> P (xs ! k) \<Longrightarrow> (\<And>j. k < j \<Longrightarrow> j < length xs \<Longrightarrow> \<not> P (xs ! j)) \<Longrightarrow> find P (rev xs) = Some (xs ! k)"
  using find_first [of "length xs - Suc k" "rev xs" P] by (simp add: rev_nth Suc_diff_Suc)

lemma x_for_place:
  assumes ok: "layout_ok l" and k: "k \<le> length (all_glyphs l)"
  shows "x_for_index l (place_index l k) = place_x l k"
proof (cases "k < length (all_glyphs l)")
  case True
  have "\<not> place_index l k \<le> g_index (all_glyphs l ! j)" if "j < k" for j
    using place_less(1) [OF ok that k] that True by (simp add: place_index_def)
  then have "find (\<lambda>g. place_index l k \<le> g_index g) (all_glyphs l) = Some (all_glyphs l ! k)"
    using True by (intro find_first) (auto simp: place_index_def)
  then show ?thesis using True by (simp add: x_for_index_def place_x_def)
next
  case False
  have "find (\<lambda>g. ll_len l \<le> g_index g) (all_glyphs l) = None"
    using ok by (auto simp: layout_ok_def find_None_iff list_all_iff)
  then show ?thesis using False by (simp add: x_for_index_def place_x_def place_index_def)
qed

lemma index_for_place:
  assumes ok: "layout_ok l" and k: "k < length (all_glyphs l)"
  shows "index_for_x l (place_x l k) = Some (place_index l k)"
proof -
  have "\<not> g_x (all_glyphs l ! j) \<le> place_x l k" if "k < j" "j < length (all_glyphs l)" for j
    using place_less(2) [OF ok, of k j] that k by (simp add: place_x_def)
  then have "find (\<lambda>g. g_x g \<le> place_x l k) (rev (all_glyphs l)) = Some (all_glyphs l ! k)"
    using k by (intro find_last) (auto simp: place_x_def)
  moreover have "place_x l k < ll_width l" using place_less(2) [OF ok k] by (simp add: place_x_def)
  ultimately show ?thesis using k by (simp add: index_for_x_def place_index_def)
qed

lemma closest_loop_at:
  "sorted_wrt (<) (map g_x gs) \<Longrightarrow> k < length gs \<Longrightarrow> k = 0 \<longrightarrow> prev_x < g_x (gs ! 0) \<or> prev_index = g_index (gs ! 0) \<Longrightarrow>
   closest_loop (g_x (gs ! k)) gs prev_index prev_x = Some (g_index (gs ! k))"
proof (induction gs arbitrary: k prev_index prev_x)
  case (Cons g gs)
  show ?case
  proof (cases k)
    case (Suc k')
    then have "g_x g < g_x (gs ! k')" using Cons.prems(1,2) by simp
    moreover have "closest_loop (g_x (gs ! k')) gs (g_index g) (g_x g) = Some (g_index (gs ! k'))"
    proof (rule Cons.IH)
      show "k' = 0 \<longrightarrow> g_x g < g_x (gs ! 0) \<or> g_index g = g_index (gs ! 0)" using calculation by blast
    qed (use Cons.prems(1,2) Suc in simp_all)
    ultimately show ?thesis using Suc by simp
  qed (use Cons.prems(3) in auto)
qed simp

lemma closest_for_place:
  assumes ok: "layout_ok l" and k: "k < length (all_glyphs l)"
  shows "closest_index_for_x l (place_x l k) = place_index l k"
proof -
  have "g_index (all_glyphs l ! 0) = 0" using place_0(1) [OF ok] k by (cases "all_glyphs l") (simp_all add: place_index_def)
  moreover have "sorted_wrt (<) (map g_x (all_glyphs l))" using ok by (simp add: layout_ok_def)
  ultimately show ?thesis
    using closest_loop_at [of "all_glyphs l" k 0 0] k by (simp add: closest_index_for_x_def place_index_def place_x_def)
qed

text \<open>The line a place is on: the first whose end is not before it.\<close>

lemma position_loop_place:
  assumes ok: "layout_ok l" and k: "k \<le> length (all_glyphs l)"
  shows "sorted_wrt (<) (s # ks) \<Longrightarrow> \<forall>j\<in>set ks. j < length (all_glyphs l) \<Longrightarrow> s \<le> k \<Longrightarrow>
    \<exists>i\<le>length ks. (s # ks) ! i \<le> k \<and> k \<le> (ks @ [length (all_glyphs l)]) ! i \<and>
      position_loop l (place_index l k) line_height ix (place_index l s) (map (bpos l) ks) =
        Some (Some \<lparr>px = place_x l k - place_x l ((s # ks) ! i), py = of_nat (ix + i) * line_height\<rparr>)"
proof (induction ks arbitrary: s ix)
  case Nil
  have "place_index l k \<le> ll_len l" using place_le(1) [OF ok k] by (simp add: place_index_def)
  then show ?case using Nil place_le(1) [OF ok Nil(3) k] x_for_place [OF ok] k by simp
next
  case (Cons j ks)
  have j: "j < length (all_glyphs l)" "s < j" using Cons.prems by simp_all
  have g: "boundary_glyph l (bpos l j) = Some (all_glyphs l ! j)" "g_index (all_glyphs l ! j) = place_index l j"
    using bpos_glyph [OF j(1)] j(1) by (simp_all add: place_index_def)
  have s: "\<not> place_index l k < place_index l s" using place_le(1) [OF ok Cons.prems(3) k] by simp
  show ?case
  proof (cases "k \<le> j")
    case True
    then have "\<not> place_index l j < place_index l k" using place_le(1) [OF ok True] j(1) by simp
    then show ?thesis
      using True g s Cons.prems(3) x_for_place [OF ok k] x_for_place [OF ok, of s] k by (intro exI [of _ 0]) simp
  next
    case False
    then have "place_index l j < place_index l k" using place_less(1) [OF ok _ k] by simp
    moreover obtain i where "i \<le> length ks" "(j # ks) ! i \<le> k" "k \<le> (ks @ [length (all_glyphs l)]) ! i"
      "position_loop l (place_index l k) line_height (Suc ix) (place_index l j) (map (bpos l) ks) =
        Some (Some \<lparr>px = place_x l k - place_x l ((j # ks) ! i), py = of_nat (Suc ix + i) * line_height\<rparr>)"
      using Cons.IH [of j "Suc ix"] Cons.prems False by auto
    ultimately show ?thesis using g s by (intro exI [of _ "Suc i"]) simp
  qed
qed

lemma position_roundtrip:
  assumes ok: "layout_ok l" and ks: "bounds_at l (length (all_glyphs l)) ks bs" and k: "k \<le> length (all_glyphs l)"
    and lh: "0 < line_height" and wl: "unwrapped_layout wl = l" "wrap_boundaries wl = bs"
  shows "\<exists>p. position_for_index wl (place_index l k) line_height = Some (Some p) \<and>
    index_for_position_mode wl p line_height closest \<in> {Some (Inl (place_index l k)), Some (Inr (place_index l k))}"
proof -
  let ?N = "length (all_glyphs l)"
  have bs: "bs = map (bpos l) ks" "sorted_wrt (<) (0 # ks)" "\<forall>j\<in>set ks. j < ?N" using ks by (simp_all add: bounds_at_def)
  obtain i where i: "i \<le> length ks" "(0 # ks) ! i \<le> k" "k \<le> (ks @ [?N]) ! i"
    "position_loop l (place_index l k) line_height 0 (place_index l 0) (map (bpos l) ks) =
      Some (Some \<lparr>px = place_x l k - place_x l ((0 # ks) ! i), py = of_nat (0 + i) * line_height\<rparr>)"
    using position_loop_place [OF ok k bs(2,3), of line_height 0] by auto
  let ?p = "\<lparr>px = place_x l k - place_x l ((0 # ks) ! i), py = of_nat i * line_height\<rparr>"
  have p: "position_for_index wl (place_index l k) line_height = Some (Some ?p)"
    using i(4) wl bs(1) place_0(1) [OF ok] by (simp add: position_for_index_def)
  have line: "nat \<lfloor>of_nat i * line_height / line_height\<rfloor> = i" using lh by simp
  have bound: "j < ?N" if "j \<in> set ks" for j using bs(3) that by blast
  have start: "(if 0 < i then map_option (\<lambda>g. (g_index g, g_x g)) (boundary_glyph l (bs ! (i - 1))) else Some (0, 0)) =
      Some (place_index l ((0 # ks) ! i), place_x l ((0 # ks) ! i))"
  proof (cases i)
    case (Suc i')
    then have "i' < length ks" using i(1) by simp
    then show ?thesis using Suc bs(1) bpos_glyph [OF bound] bound by (simp add: place_index_def place_x_def)
  qed (simp add: place_0 [OF ok])
  have stop: "(if i < length bs then map_option (\<lambda>g. (g_index g, g_x g)) (boundary_glyph l (bs ! i))
      else Some (ll_len l, ll_width l)) = Some (place_index l ((ks @ [?N]) ! i), place_x l ((ks @ [?N]) ! i))"
  proof (cases "i < length ks")
    case True
    then show ?thesis using bs(1) bpos_glyph [OF bound] bound by (simp add: nth_append place_index_def place_x_def)
  next
    case False
    then show ?thesis using i(1) bs(1) by (simp add: nth_append place_index_def place_x_def)
  qed
  have end_le: "(ks @ [?N]) ! i \<le> ?N" using i(1) bound by (auto simp: nth_append less_imp_le)
  have mode: "index_for_position_mode wl ?p line_height closest =
      (if place_x l k < place_x l ((0 # ks) ! i) then Some (Inl (place_index l ((0 # ks) ! i)))
       else if place_x l ((ks @ [?N]) ! i) \<le> place_x l k then Some (Inl (place_index l ((ks @ [?N]) ! i)))
       else if closest then Some (Inr (closest_index_for_x l (place_x l k)))
       else map_option Inr (index_for_x l (place_x l k)))"
  proof -
    have "\<not> (0 < i \<and> length bs < i)" using i(1) bs(1) by simp
    then show ?thesis unfolding index_for_position_mode_def Let_def wl by (simp only: point.simps line start stop if_False) simp
  qed
  have "\<not> place_x l k < place_x l ((0 # ks) ! i)" using place_le(2) [OF ok i(2) k] by simp
  moreover have "k = (ks @ [?N]) ! i" if "place_x l ((ks @ [?N]) ! i) \<le> place_x l k"
    using place_less(2) [OF ok _ end_le, of k] i(3) that by force
  moreover have "k < ?N" if "\<not> place_x l ((ks @ [?N]) ! i) \<le> place_x l k"
    using place_le(2) [OF ok _ k, of "(ks @ [?N]) ! i"] end_le that k by (cases "k = ?N") auto
  ultimately have "index_for_position_mode wl ?p line_height closest \<in> {Some (Inl (place_index l k)), Some (Inr (place_index l k))}"
    unfolding mode using index_for_place [OF ok] closest_for_place [OF ok] by auto
  then show ?thesis using p by blast
qed

section \<open>The nearest place\<close>

lemma closest_loop_nearest:
  "gs \<noteq> [] \<Longrightarrow> sorted_wrt (<) (map g_x gs) \<Longrightarrow> x \<le> g_x (last gs) \<Longrightarrow> prev_x \<le> g_x (hd gs) \<Longrightarrow> prev_x \<le> x \<Longrightarrow>
   \<exists>(i, y)\<in>set ((prev_index, prev_x) # map (\<lambda>g. (g_index g, g_x g)) gs).
     closest_loop x gs prev_index prev_x = Some i \<and> (\<forall>g\<in>set gs. \<bar>y - x\<bar> \<le> \<bar>g_x g - x\<bar>) \<and> \<bar>y - x\<bar> \<le> \<bar>prev_x - x\<bar>"
proof (induction gs arbitrary: prev_index prev_x)
  case (Cons g gs)
  show ?case
  proof (cases "x \<le> g_x g")
    case True
    have far: "g_x g \<le> g_x h" if "h \<in> set (g # gs)" for h using Cons.prems(2) that by (auto intro: less_imp_le)
    show ?thesis
    proof (cases "g_x g - x < x - prev_x")
      case near: True
      have "\<bar>g_x g - x\<bar> \<le> \<bar>g_x h - x\<bar>" if "h \<in> set (g # gs)" for h using far [OF that] True by simp
      then show ?thesis using True near by (intro bexI [of _ "(g_index g, g_x g)"]) auto
    next
      case near: False
      have "\<forall>h\<in>set (g # gs). \<bar>prev_x - x\<bar> \<le> \<bar>g_x h - x\<bar>"
      proof
        fix h
        assume "h \<in> set (g # gs)"
        from far [OF this] show "\<bar>prev_x - x\<bar> \<le> \<bar>g_x h - x\<bar>" using True near Cons.prems(5) by (simp add: abs_if)
      qed
      then show ?thesis using True near by (intro bexI [of _ "(prev_index, prev_x)"]) auto
    qed
  next
    case False
    then have ne: "gs \<noteq> []" using Cons.prems(3) by auto
    have "g_x g \<le> g_x (hd gs)" using Cons.prems(2) ne by (cases gs) (auto intro: less_imp_le)
    moreover have "sorted_wrt (<) (map g_x gs)" "x \<le> g_x (last gs)" "g_x g \<le> x" using Cons.prems(2,3) ne False by simp_all
    ultimately obtain p where p: "p \<in> set ((g_index g, g_x g) # map (\<lambda>g. (g_index g, g_x g)) gs)"
      "case p of (i, y) \<Rightarrow> closest_loop x gs (g_index g) (g_x g) = Some i \<and> (\<forall>h\<in>set gs. \<bar>y - x\<bar> \<le> \<bar>g_x h - x\<bar>) \<and>
        \<bar>y - x\<bar> \<le> \<bar>g_x g - x\<bar>"
      using Cons.IH [OF ne, of "g_x g" "g_index g"] by blast
    obtain i y where iy: "p = (i, y)" by fastforce
    have r: "(i, y) \<in> set ((g_index g, g_x g) # map (\<lambda>g. (g_index g, g_x g)) gs)"
      "closest_loop x gs (g_index g) (g_x g) = Some i" "\<forall>h\<in>set gs. \<bar>y - x\<bar> \<le> \<bar>g_x h - x\<bar>" "\<bar>y - x\<bar> \<le> \<bar>g_x g - x\<bar>"
      using p unfolding iy by simp_all
    have "\<bar>g_x g - x\<bar> \<le> \<bar>prev_x - x\<bar>" using False Cons.prems(4) by (simp add: abs_if)
    then show ?thesis using r False by (intro bexI [of _ "(i, y)"]) auto
  qed
qed simp

text \<open>Up to the last glyph the answer is the nearest one; beyond it, the end of the line.\<close>

lemma closest_nearest:
  assumes ok: "layout_ok l" and ne: "all_glyphs l \<noteq> []" and x: "0 \<le> x"
  shows "if x \<le> g_x (last (all_glyphs l))
    then \<exists>g\<in>set (all_glyphs l). closest_index_for_x l x = g_index g \<and> (\<forall>h\<in>set (all_glyphs l). \<bar>g_x g - x\<bar> \<le> \<bar>g_x h - x\<bar>)
    else ll_len l \<noteq> 1 \<longrightarrow> closest_index_for_x l x = ll_len l"
proof -
  obtain g gs where gs: "all_glyphs l = g # gs" "g_index g = 0" "g_x g = 0"
    using ok ne by (cases "all_glyphs l") (auto simp: layout_ok_def)
  have sorted: "sorted_wrt (<) (map g_x (all_glyphs l))" using ok by (simp add: layout_ok_def)
  show ?thesis
  proof (cases "x \<le> g_x (last (all_glyphs l))")
    case True
    have "0 \<le> g_x (hd (all_glyphs l))" by (simp add: gs)
    from closest_loop_nearest [OF ne sorted True this x, of 0]
    obtain p where p: "p \<in> set ((0, 0) # map (\<lambda>g. (g_index g, g_x g)) (all_glyphs l))"
      "case p of (i, y) \<Rightarrow> closest_loop x (all_glyphs l) 0 0 = Some i \<and> (\<forall>g\<in>set (all_glyphs l). \<bar>y - x\<bar> \<le> \<bar>g_x g - x\<bar>) \<and>
        \<bar>y - x\<bar> \<le> \<bar>0 - x\<bar>" by blast
    obtain i y where iy: "p = (i, y)" by fastforce
    have r: "(i, y) \<in> set ((0, 0) # map (\<lambda>g. (g_index g, g_x g)) (all_glyphs l))"
      "closest_loop x (all_glyphs l) 0 0 = Some i" "\<forall>h\<in>set (all_glyphs l). \<bar>y - x\<bar> \<le> \<bar>g_x h - x\<bar>"
      using p unfolding iy by simp_all
    have "\<exists>g\<in>set (all_glyphs l). i = g_index g \<and> y = g_x g" using r(1) gs by auto
    then show ?thesis using r(2,3) True by (auto simp: closest_index_for_x_def)
  next
    case False
    have "g_x h \<le> g_x (last (all_glyphs l))" if "h \<in> set (all_glyphs l)" for h
    proof -
      have "sorted (map g_x (butlast (all_glyphs l) @ [last (all_glyphs l)]))"
        using sorted ne by (simp add: strict_sorted_iff)
      moreover have "h \<in> set (butlast (all_glyphs l) @ [last (all_glyphs l)])" using that ne by simp
      ultimately show ?thesis by (auto simp: sorted_append)
    qed
    then have "\<forall>h\<in>set (all_glyphs l). \<not> x \<le> g_x h" using False by fastforce
    moreover have "(\<forall>h\<in>set hs. \<not> x \<le> g_x h) \<Longrightarrow> closest_loop x hs p q = None" for hs p q
      by (induction hs arbitrary: p q) simp_all
    ultimately show ?thesis using False by (simp add: closest_index_for_x_def)
  qed
qed

section \<open>Forced widths\<close>

text \<open>A base glyph ends within a pixel of its cell; a mark keeps its distance from its base.\<close>

lemma force_glyph_cell:
  assumes "force_glyph force_width g st = (g', st')"
  shows "g_index g' = g_index g" "g_id g' = g_id g"
    "glyph_pos st' = Suc (glyph_pos st) \<Longrightarrow> \<bar>g_x g' - of_nat (glyph_pos st) * force_width\<bar> \<le> 1 \<and>
       last_base_shaped_x st' = Some (g_x g) \<and> last_base_actual_x st' = g_x g'"
    "glyph_pos st' \<noteq> Suc (glyph_pos st) \<Longrightarrow> st' = st \<and>
       (\<forall>b. last_base_shaped_x st = Some b \<longrightarrow> g_x g' - last_base_actual_x st = g_x g - b)"
  using assms by (auto simp: force_glyph_def Let_def set_x_def g_x_def split: option.splits if_splits)

lemma force_glyphs_indices: "force_glyphs force_width gs st = (gs', st') \<Longrightarrow> map g_index gs' = map g_index gs"
  by (induction gs arbitrary: st gs') (auto split: prod.splits dest: force_glyph_cell(1))

end
