(* ===== verification/Layout_Cache.thy ===== *)
theory Layout_Cache
  imports Line_Layout
begin

text \<open>
  The cache of laid-out lines over two frames (\<open>gpui/src/text_system/line_layout.rs\<close>). The
  platform's shaping is the parameter \<open>shape\<close>. Locks are not modelled: every operation holds them
  until it is done.
\<close>

section \<open>Keys and frames\<close>

record font_run =
  fr_len :: nat
  fr_font_id :: nat

record 'u cache_key =
  ck_text :: "ucs list"
  ck_font_size :: 'u
  ck_runs :: "font_run list"
  ck_wrap_width :: "'u option"
  ck_force_width :: "'u option"

record 'u hashed_cache_key =
  hk_text_hash :: nat
  hk_text_len :: nat
  hk_font_size :: 'u
  hk_runs :: "font_run list"
  hk_wrap_width :: "'u option"
  hk_force_width :: "'u option"

record 'u frame_cache =
  fc_lines :: "'u cache_key \<rightharpoonup> 'u line_layout"
  fc_wrapped_lines :: "'u cache_key \<rightharpoonup> 'u wrapped_line_layout"
  used_lines :: "'u cache_key list"
  used_wrapped_lines :: "'u cache_key list"
  lines_by_hash :: "'u hashed_cache_key \<rightharpoonup> 'u line_layout"
  wrapped_lines_by_hash :: "'u hashed_cache_key \<rightharpoonup> 'u wrapped_line_layout"
  used_lines_by_hash :: "'u hashed_cache_key list"
  used_wrapped_lines_by_hash :: "'u hashed_cache_key list"

record line_layout_index =
  lines_index :: nat
  wrapped_lines_index :: nat
  lines_by_hash_index :: nat
  wrapped_lines_by_hash_index :: nat

record 'u layout_cache =
  previous_frame :: "'u frame_cache"
  current_frame :: "'u frame_cache"

definition frame_default :: "'u frame_cache" where
  "frame_default = \<lparr>fc_lines = Map.empty, fc_wrapped_lines = Map.empty, used_lines = [], used_wrapped_lines = [],
     lines_by_hash = Map.empty, wrapped_lines_by_hash = Map.empty, used_lines_by_hash = [], used_wrapped_lines_by_hash = []\<rparr>"

definition cache_new :: "'u layout_cache" where
  "cache_new = \<lparr>previous_frame = frame_default, current_frame = frame_default\<rparr>"

definition layout_index :: "'u layout_cache \<Rightarrow> line_layout_index" where
  "layout_index c =
     (let frame = current_frame c in
      \<lparr>lines_index = length (used_lines frame), wrapped_lines_index = length (used_wrapped_lines frame),
       lines_by_hash_index = length (used_lines_by_hash frame),
       wrapped_lines_by_hash_index = length (used_wrapped_lines_by_hash frame)\<rparr>)"

section \<open>Frames\<close>

text \<open>A slice panics when it is out of range.\<close>

definition slice :: "'a list \<Rightarrow> nat \<Rightarrow> nat \<Rightarrow> 'a list option" where
  "slice xs a b = (if a \<le> b \<and> b \<le> length xs then Some (drop a (take b xs)) else None)"

fun move_entries :: "'k list \<Rightarrow> ('k \<rightharpoonup> 'v) \<times> ('k \<rightharpoonup> 'v) \<Rightarrow> ('k \<rightharpoonup> 'v) \<times> ('k \<rightharpoonup> 'v)" where
  "move_entries [] (old, cur) = (old, cur)"
| "move_entries (key # keys) (old, cur) =
     (case old key of
        Some v \<Rightarrow> move_entries keys (old(key := None), cur(key \<mapsto> v))
      | None \<Rightarrow> move_entries keys (old, cur))"

definition reuse_layouts :: "line_layout_index \<Rightarrow> line_layout_index \<Rightarrow> 'u layout_cache \<Rightarrow> 'u layout_cache option" where
  "reuse_layouts range_start range_end c =
     (let p = previous_frame c; f = current_frame c in
      do { ks1 \<leftarrow> slice (used_lines p) (lines_index range_start) (lines_index range_end);
           ks2 \<leftarrow> slice (used_wrapped_lines p) (wrapped_lines_index range_start) (wrapped_lines_index range_end);
           ks3 \<leftarrow> slice (used_lines_by_hash p) (lines_by_hash_index range_start) (lines_by_hash_index range_end);
           ks4 \<leftarrow> slice (used_wrapped_lines_by_hash p) (wrapped_lines_by_hash_index range_start)
             (wrapped_lines_by_hash_index range_end);
           (let (p1, f1) = move_entries ks1 (fc_lines p, fc_lines f);
                (p2, f2) = move_entries ks2 (fc_wrapped_lines p, fc_wrapped_lines f);
                (p3, f3) = move_entries ks3 (lines_by_hash p, lines_by_hash f);
                (p4, f4) = move_entries ks4 (wrapped_lines_by_hash p, wrapped_lines_by_hash f) in
            Some \<lparr>previous_frame = p\<lparr>fc_lines := p1, fc_wrapped_lines := p2, lines_by_hash := p3, wrapped_lines_by_hash := p4\<rparr>,
                  current_frame = f\<lparr>fc_lines := f1, fc_wrapped_lines := f2, lines_by_hash := f3, wrapped_lines_by_hash := f4,
                    used_lines := used_lines f @ ks1, used_wrapped_lines := used_wrapped_lines f @ ks2,
                    used_lines_by_hash := used_lines_by_hash f @ ks3,
                    used_wrapped_lines_by_hash := used_wrapped_lines_by_hash f @ ks4\<rparr>\<rparr>) })"

definition truncate_layouts :: "line_layout_index \<Rightarrow> 'u layout_cache \<Rightarrow> 'u layout_cache" where
  "truncate_layouts index c =
     (let f = current_frame c in
      c\<lparr>current_frame := f\<lparr>used_lines := take (lines_index index) (used_lines f),
          used_wrapped_lines := take (wrapped_lines_index index) (used_wrapped_lines f),
          used_lines_by_hash := take (lines_by_hash_index index) (used_lines_by_hash f),
          used_wrapped_lines_by_hash := take (wrapped_lines_by_hash_index index) (used_wrapped_lines_by_hash f)\<rparr>\<rparr>)"

definition finish_frame :: "'u layout_cache \<Rightarrow> 'u layout_cache" where
  "finish_frame c = \<lparr>previous_frame = current_frame c, current_frame = frame_default\<rparr>"

section \<open>Layout\<close>

definition line_key :: "ucs list \<Rightarrow> 'u \<Rightarrow> font_run list \<Rightarrow> 'u option \<Rightarrow> 'u option \<Rightarrow> 'u cache_key" where
  "line_key s fs runs wrap_width force_width =
     \<lparr>ck_text = s, ck_font_size = fs, ck_runs = runs, ck_wrap_width = wrap_width, ck_force_width = force_width\<rparr>"

definition shape_line ::
  "(ucs list \<Rightarrow> 'u \<Rightarrow> font_run list \<Rightarrow> 'u line_layout) \<Rightarrow> ucs list \<Rightarrow> 'u \<Rightarrow> font_run list \<Rightarrow> 'u::floor_ceiling option \<Rightarrow>
   'u line_layout" where
  "shape_line shape s fs runs force_width =
     (let l = shape s fs runs in case force_width of Some w \<Rightarrow> apply_force_width_to_layout w l | None \<Rightarrow> l)"

definition cache_line :: "'u cache_key \<Rightarrow> 'u line_layout \<Rightarrow> 'u layout_cache \<Rightarrow> 'u layout_cache" where
  "cache_line key l c =
     (let f = current_frame c in
      c\<lparr>current_frame := f\<lparr>fc_lines := (fc_lines f)(key \<mapsto> l), used_lines := used_lines f @ [key]\<rparr>\<rparr>)"

definition layout_line ::
  "(ucs list \<Rightarrow> 'u \<Rightarrow> font_run list \<Rightarrow> 'u line_layout) \<Rightarrow> ucs list \<Rightarrow> 'u \<Rightarrow> font_run list \<Rightarrow> 'u::floor_ceiling option \<Rightarrow>
   'u layout_cache \<Rightarrow> 'u line_layout \<times> 'u layout_cache" where
  "layout_line shape s fs runs force_width c =
     (let key = line_key s fs runs None force_width; p = previous_frame c in
      case fc_lines (current_frame c) key of
        Some l \<Rightarrow> (l, c)
      | None \<Rightarrow>
          (case fc_lines p key of
             Some l \<Rightarrow> (l, cache_line key l (c\<lparr>previous_frame := p\<lparr>fc_lines := (fc_lines p)(key := None)\<rparr>\<rparr>))
           | None \<Rightarrow> (let l = shape_line shape s fs runs force_width in (l, cache_line key l c))))"

definition cache_wrapped :: "'u cache_key \<Rightarrow> 'u wrapped_line_layout \<Rightarrow> 'u layout_cache \<Rightarrow> 'u layout_cache" where
  "cache_wrapped key wl c =
     (let f = current_frame c in
      c\<lparr>current_frame := f\<lparr>fc_wrapped_lines := (fc_wrapped_lines f)(key \<mapsto> wl),
          used_wrapped_lines := used_wrapped_lines f @ [key]\<rparr>\<rparr>)"

definition layout_wrapped_line ::
  "(ucs list \<Rightarrow> 'u \<Rightarrow> font_run list \<Rightarrow> 'u line_layout) \<Rightarrow> ucs list \<Rightarrow> 'u \<Rightarrow> font_run list \<Rightarrow> 'u::floor_ceiling option \<Rightarrow>
   nat option \<Rightarrow> 'u layout_cache \<Rightarrow> ('u wrapped_line_layout \<times> 'u layout_cache) option" where
  "layout_wrapped_line shape s fs runs wrap_width max_lines c =
     (let key = line_key s fs runs wrap_width None; p = previous_frame c in
      case fc_wrapped_lines (current_frame c) key of
        Some wl \<Rightarrow> Some (wl, c)
      | None \<Rightarrow>
          (case fc_wrapped_lines p key of
             Some wl \<Rightarrow>
               Some (wl, cache_wrapped key wl (c\<lparr>previous_frame := p\<lparr>fc_wrapped_lines := (fc_wrapped_lines p)(key := None)\<rparr>\<rparr>))
           | None \<Rightarrow>
               do { let (l, c) = layout_line shape s fs runs None c;
                    boundaries \<leftarrow> (case wrap_width of
                                    Some w \<Rightarrow> compute_wrap_boundaries l s w max_lines
                                  | None \<Rightarrow> Some []);
                    (let wl = \<lparr>unwrapped_layout = l, wrap_boundaries = boundaries, wl_wrap_width = wrap_width\<rparr> in
                     Some (wl, cache_wrapped key wl c)) }))"

definition hashed_key :: "nat \<Rightarrow> nat \<Rightarrow> 'u \<Rightarrow> font_run list \<Rightarrow> 'u option \<Rightarrow> 'u hashed_cache_key" where
  "hashed_key text_hash text_len fs runs force_width =
     \<lparr>hk_text_hash = text_hash, hk_text_len = text_len, hk_font_size = fs, hk_runs = runs, hk_wrap_width = None,
      hk_force_width = force_width\<rparr>"

definition try_layout_line_by_hash ::
  "nat \<Rightarrow> nat \<Rightarrow> 'u \<Rightarrow> font_run list \<Rightarrow> 'u option \<Rightarrow> 'u layout_cache \<Rightarrow> 'u line_layout option" where
  "try_layout_line_by_hash text_hash text_len fs runs force_width c =
     (let key = hashed_key text_hash text_len fs runs force_width in
      case lines_by_hash (current_frame c) key of
        Some l \<Rightarrow> Some l
      | None \<Rightarrow> lines_by_hash (previous_frame c) key)"

definition cache_hashed :: "'u hashed_cache_key \<Rightarrow> 'u line_layout \<Rightarrow> 'u layout_cache \<Rightarrow> 'u layout_cache" where
  "cache_hashed key l c =
     (let f = current_frame c in
      c\<lparr>current_frame := f\<lparr>lines_by_hash := (lines_by_hash f)(key \<mapsto> l), used_lines_by_hash := used_lines_by_hash f @ [key]\<rparr>\<rparr>)"

text \<open>The text is only needed on a miss; an entry of the previous frame counts when that frame used it.\<close>

definition layout_line_by_hash ::
  "(ucs list \<Rightarrow> 'u \<Rightarrow> font_run list \<Rightarrow> 'u line_layout) \<Rightarrow> nat \<Rightarrow> nat \<Rightarrow> 'u \<Rightarrow> font_run list \<Rightarrow> 'u::floor_ceiling option \<Rightarrow>
   ucs list \<Rightarrow> 'u layout_cache \<Rightarrow> 'u line_layout \<times> 'u layout_cache" where
  "layout_line_by_hash shape text_hash text_len fs runs force_width s c =
     (let key = hashed_key text_hash text_len fs runs force_width; p = previous_frame c in
      case lines_by_hash (current_frame c) key of
        Some l \<Rightarrow> (l, c)
      | None \<Rightarrow>
          (case (if key \<in> set (used_lines_by_hash p) then lines_by_hash p key else None) of
             Some l \<Rightarrow> (l, cache_hashed key l (c\<lparr>previous_frame := p\<lparr>lines_by_hash := (lines_by_hash p)(key := None)\<rparr>\<rparr>))
           | None \<Rightarrow> (let l = shape_line shape s fs runs force_width in (l, cache_hashed key l c))))"

section \<open>Use of the cache\<close>

datatype 'u cache_op =
    Layout_Line "ucs list" 'u "font_run list" "'u option"
  | Layout_Wrapped "ucs list" 'u "font_run list" "'u option" "nat option"
  | Layout_By_Hash nat nat 'u "font_run list" "'u option" "ucs list"
  | Reuse line_layout_index line_layout_index
  | Truncate line_layout_index
  | Finish_Frame

fun cache_step ::
  "(ucs list \<Rightarrow> 'u \<Rightarrow> font_run list \<Rightarrow> 'u line_layout) \<Rightarrow> 'u::floor_ceiling cache_op \<Rightarrow> 'u layout_cache \<Rightarrow> 'u layout_cache option" where
  "cache_step shape (Layout_Line s fs runs force) c = Some (snd (layout_line shape s fs runs force c))"
| "cache_step shape (Layout_Wrapped s fs runs wrap_width max_lines) c =
     map_option snd (layout_wrapped_line shape s fs runs wrap_width max_lines c)"
| "cache_step shape (Layout_By_Hash h n fs runs force s) c = Some (snd (layout_line_by_hash shape h n fs runs force s c))"
| "cache_step shape (Reuse a b) c = reuse_layouts a b c"
| "cache_step shape (Truncate index) c = Some (truncate_layouts index c)"
| "cache_step shape Finish_Frame c = Some (finish_frame c)"

fun cache_ops ::
  "(ucs list \<Rightarrow> 'u \<Rightarrow> font_run list \<Rightarrow> 'u line_layout) \<Rightarrow> 'u::floor_ceiling cache_op list \<Rightarrow> 'u layout_cache \<Rightarrow> 'u layout_cache option" where
  "cache_ops shape [] c = Some c"
| "cache_ops shape (operation # ops) c = do { c \<leftarrow> cache_step shape operation c; cache_ops shape ops c }"

end
