(* ===== verification/Layout_Cache_Correct.thy ===== *)
theory Layout_Cache_Correct
  imports Layout_Cache
begin

text \<open>
  The cache gives what laying out anew would give, over all sequences of uses and frames; a
  wrapped line may be one that was cut to another number of lines.
\<close>

definition line_value :: "(ucs list \<Rightarrow> 'u \<Rightarrow> font_run list \<Rightarrow> 'u line_layout) \<Rightarrow> 'u::floor_ceiling cache_key \<Rightarrow> 'u line_layout" where
  "line_value shape key = shape_line shape (ck_text key) (ck_font_size key) (ck_runs key) (ck_force_width key)"

definition wrapped_value ::
  "(ucs list \<Rightarrow> 'u \<Rightarrow> font_run list \<Rightarrow> 'u line_layout) \<Rightarrow> 'u::floor_ceiling cache_key \<Rightarrow> nat option \<Rightarrow> 'u wrapped_line_layout option" where
  "wrapped_value shape key max_lines =
     (let l = shape_line shape (ck_text key) (ck_font_size key) (ck_runs key) None in
      map_option (\<lambda>bs. \<lparr>unwrapped_layout = l, wrap_boundaries = bs, wl_wrap_width = ck_wrap_width key\<rparr>)
        (case ck_wrap_width key of Some w \<Rightarrow> compute_wrap_boundaries l (ck_text key) w max_lines | None \<Rightarrow> Some []))"

definition hashed_value ::
  "(ucs list \<Rightarrow> 'u \<Rightarrow> font_run list \<Rightarrow> 'u line_layout) \<Rightarrow> (nat \<Rightarrow> nat \<Rightarrow> ucs list) \<Rightarrow> 'u::floor_ceiling hashed_cache_key \<Rightarrow>
   'u line_layout" where
  "hashed_value shape text_of key =
     shape_line shape (text_of (hk_text_hash key) (hk_text_len key)) (hk_font_size key) (hk_runs key) (hk_force_width key)"

definition entries_ok :: "('k \<Rightarrow> 'v \<Rightarrow> bool) \<Rightarrow> ('k \<rightharpoonup> 'v) \<Rightarrow> bool" where
  "entries_ok P m \<longleftrightarrow> (\<forall>k v. m k = Some v \<longrightarrow> P k v)"

lemma entries_okD: "entries_ok P m \<Longrightarrow> m k = Some v \<Longrightarrow> P k v"
  by (simp add: entries_ok_def)

lemma entries_ok_update [simp]: "entries_ok P m \<Longrightarrow> P k v \<Longrightarrow> entries_ok P (m(k \<mapsto> v))" "entries_ok P m \<Longrightarrow> entries_ok P (m(k := None))"
  "entries_ok P Map.empty"
  by (auto simp: entries_ok_def)

lemma move_entries_ok:
  "entries_ok P old \<Longrightarrow> entries_ok P cur \<Longrightarrow> move_entries keys (old, cur) = (old', cur') \<Longrightarrow> entries_ok P old' \<and> entries_ok P cur'"
proof (induction keys arbitrary: old cur)
  case (Cons key keys)
  show ?case
  proof (cases "old key")
    case (Some v)
    then have "P key v" using Cons.prems(1) by (rule entries_okD [rotated])
    then have "entries_ok P (old(key := None))" "entries_ok P (cur(key \<mapsto> v))" using Cons.prems(1,2) by simp_all
    moreover have "move_entries keys (old(key := None), cur(key \<mapsto> v)) = (old', cur')" using Cons.prems(3) Some by simp
    ultimately show ?thesis by (rule Cons.IH)
  qed (use Cons in simp)
qed simp

definition wrapped_ok ::
  "(ucs list \<Rightarrow> 'u \<Rightarrow> font_run list \<Rightarrow> 'u line_layout) \<Rightarrow> ('u::floor_ceiling cache_key \<Rightarrow> nat option set) \<Rightarrow> 'u cache_key \<Rightarrow>
   'u wrapped_line_layout \<Rightarrow> bool" where
  "wrapped_ok shape maxes key wl \<longleftrightarrow> (\<exists>m\<in>maxes key. wrapped_value shape key m = Some wl)"

text \<open>Laying out anew is laying out with an empty cache.\<close>

lemma wrapped_value_fresh:
  "wrapped_value shape (line_key s fs runs wrap_width None) max_lines =
     map_option fst (layout_wrapped_line shape s fs runs wrap_width max_lines cache_new)"
  by (cases wrap_width)
    (simp_all add: wrapped_value_def line_key_def layout_wrapped_line_def layout_line_def cache_new_def frame_default_def
      Let_def split: bind_splits)

lemma move_entries_none [simp]: "move_entries ks (\<lambda>x. None, cur) = (\<lambda>x. None, cur)"
  by (induction ks) simp_all

text \<open>Every entry is what laying out its key anew gives; \<open>maxes\<close> are the limits of lines used with a key.\<close>

definition frame_ok ::
  "(ucs list \<Rightarrow> 'u \<Rightarrow> font_run list \<Rightarrow> 'u line_layout) \<Rightarrow> (nat \<Rightarrow> nat \<Rightarrow> ucs list) \<Rightarrow>
   ('u::floor_ceiling cache_key \<Rightarrow> nat option set) \<Rightarrow> 'u frame_cache \<Rightarrow> bool" where
  "frame_ok shape text_of maxes f \<longleftrightarrow> entries_ok (\<lambda>key l. l = line_value shape key) (fc_lines f) \<and>
     entries_ok (wrapped_ok shape maxes) (fc_wrapped_lines f) \<and>
     entries_ok (\<lambda>key l. l = hashed_value shape text_of key) (lines_by_hash f) \<and> wrapped_lines_by_hash f = Map.empty"

definition coherent ::
  "(ucs list \<Rightarrow> 'u \<Rightarrow> font_run list \<Rightarrow> 'u line_layout) \<Rightarrow> (nat \<Rightarrow> nat \<Rightarrow> ucs list) \<Rightarrow>
   ('u::floor_ceiling cache_key \<Rightarrow> nat option set) \<Rightarrow> 'u layout_cache \<Rightarrow> bool" where
  "coherent shape text_of maxes c \<longleftrightarrow> frame_ok shape text_of maxes (previous_frame c) \<and> frame_ok shape text_of maxes (current_frame c)"

definition op_ok :: "(nat \<Rightarrow> nat \<Rightarrow> ucs list) \<Rightarrow> ('u cache_key \<Rightarrow> nat option set) \<Rightarrow> 'u cache_op \<Rightarrow> bool" where
  "op_ok text_of maxes operation =
     (case operation of
        Layout_Wrapped s fs runs wrap_width max_lines \<Rightarrow> max_lines \<in> maxes (line_key s fs runs wrap_width None)
      | Layout_By_Hash h n fs runs force s \<Rightarrow> text_of h n = s
      | _ \<Rightarrow> True)"

lemma cache_new_ok: "coherent shape text_of maxes cache_new"
  by (simp add: coherent_def cache_new_def frame_default_def frame_ok_def)

lemma layout_line_ok:
  assumes "coherent shape text_of maxes c" "layout_line shape s fs runs force c = (l, c')"
  shows "l = shape_line shape s fs runs force" "coherent shape text_of maxes c'"
proof -
  let ?key = "line_key s fs runs None force"
  have val: "line_value shape ?key = shape_line shape s fs runs force" by (simp add: line_value_def line_key_def)
  have prev: "fc_lines (previous_frame c) ?key = Some l' \<Longrightarrow> l' = line_value shape ?key"
    and cur: "fc_lines (current_frame c) ?key = Some l' \<Longrightarrow> l' = line_value shape ?key" for l'
    using assms(1) by (auto simp: coherent_def frame_ok_def dest: entries_okD)
  show "l = shape_line shape s fs runs force"
    using assms(2) prev cur val by (auto simp: layout_line_def Let_def split: option.splits)
  show "coherent shape text_of maxes c'"
    using assms prev val
    by (auto simp: layout_line_def Let_def cache_line_def coherent_def frame_ok_def split: option.splits)
qed

lemma layout_wrapped_line_ok:
  assumes ok: "coherent shape text_of maxes c" and m: "max_lines \<in> maxes (line_key s fs runs wrap_width None)"
    and r: "layout_wrapped_line shape s fs runs wrap_width max_lines c = Some (wl, c')"
  shows "wrapped_ok shape maxes (line_key s fs runs wrap_width None) wl"
    "coherent shape text_of maxes c'"
proof -
  let ?key = "line_key s fs runs wrap_width None"
  have prev: "fc_wrapped_lines (previous_frame c) ?key = Some wl' \<Longrightarrow> wrapped_ok shape maxes ?key wl'"
    and cur: "fc_wrapped_lines (current_frame c) ?key = Some wl' \<Longrightarrow> wrapped_ok shape maxes ?key wl'" for wl'
    using ok by (auto simp: coherent_def frame_ok_def dest: entries_okD)
  have "wrapped_ok shape maxes ?key wl \<and> coherent shape text_of maxes c'"
  proof (cases "fc_wrapped_lines (current_frame c) ?key")
    case (Some wl')
    then show ?thesis using cur ok r by (simp add: layout_wrapped_line_def)
  next
    case none: None
    show ?thesis
    proof (cases "fc_wrapped_lines (previous_frame c) ?key")
      case (Some wl')
      then show ?thesis
        using prev [OF Some] none ok r
        by (auto simp: layout_wrapped_line_def Let_def cache_wrapped_def coherent_def frame_ok_def)
    next
      case None
      obtain l c1 where l: "layout_line shape s fs runs None c = (l, c1)" by fastforce
      note f = layout_line_ok [OF ok l]
      obtain bs where bs: "(case wrap_width of Some w \<Rightarrow> compute_wrap_boundaries l s w max_lines | None \<Rightarrow> Some []) = Some bs"
        "wl = \<lparr>unwrapped_layout = l, wrap_boundaries = bs, wl_wrap_width = wrap_width\<rparr>" "c' = cache_wrapped ?key wl c1"
        using r none None l by (auto simp: layout_wrapped_line_def Let_def bind_eq_Some_conv)
      have "wrapped_value shape ?key max_lines = Some wl"
        using bs f(1) by (simp add: wrapped_value_def line_key_def split: option.splits)
      then have "wrapped_ok shape maxes ?key wl" using m by (auto simp: wrapped_ok_def)
      then show ?thesis
        using f(2) bs(3) by (auto simp: cache_wrapped_def coherent_def frame_ok_def Let_def)
    qed
  qed
  then show "wrapped_ok shape maxes (line_key s fs runs wrap_width None) wl"
    "coherent shape text_of maxes c'" by simp_all
qed

lemma layout_line_by_hash_ok:
  assumes "coherent shape text_of maxes c" "text_of h n = s" "layout_line_by_hash shape h n fs runs force s c = (l, c')"
  shows "l = shape_line shape s fs runs force" "coherent shape text_of maxes c'"
proof -
  let ?key = "hashed_key h n fs runs force"
  have val: "hashed_value shape text_of ?key = shape_line shape s fs runs force"
    using assms(2) by (simp add: hashed_value_def hashed_key_def)
  have prev: "lines_by_hash (previous_frame c) ?key = Some l' \<Longrightarrow> l' = hashed_value shape text_of ?key"
    and cur: "lines_by_hash (current_frame c) ?key = Some l' \<Longrightarrow> l' = hashed_value shape text_of ?key" for l'
    using assms(1) by (auto simp: coherent_def frame_ok_def dest: entries_okD)
  show "l = shape_line shape s fs runs force"
    using assms(3) prev cur val by (auto simp: layout_line_by_hash_def Let_def split: option.splits if_splits)
  show "coherent shape text_of maxes c'"
    using assms(1,3) prev val
    by (auto simp: layout_line_by_hash_def Let_def cache_hashed_def coherent_def frame_ok_def split: option.splits if_splits)
qed

lemma reuse_layouts_ok:
  assumes "coherent shape text_of maxes c" "reuse_layouts a b c = Some c'"
  shows "coherent shape text_of maxes c'"
proof -
  let ?p = "previous_frame c" and ?f = "current_frame c"
  obtain ks1 ks2 ks3 ks4 where ks: "slice (used_lines ?p) (lines_index a) (lines_index b) = Some ks1"
    "slice (used_wrapped_lines ?p) (wrapped_lines_index a) (wrapped_lines_index b) = Some ks2"
    "slice (used_lines_by_hash ?p) (lines_by_hash_index a) (lines_by_hash_index b) = Some ks3"
    "slice (used_wrapped_lines_by_hash ?p) (wrapped_lines_by_hash_index a) (wrapped_lines_by_hash_index b) = Some ks4"
    using assms(2) by (auto simp: reuse_layouts_def Let_def bind_eq_Some_conv)
  obtain p1 f1 p2 f2 p3 f3 where m: "move_entries ks1 (fc_lines ?p, fc_lines ?f) = (p1, f1)"
    "move_entries ks2 (fc_wrapped_lines ?p, fc_wrapped_lines ?f) = (p2, f2)"
    "move_entries ks3 (lines_by_hash ?p, lines_by_hash ?f) = (p3, f3)" by (meson surj_pair)
  have none: "wrapped_lines_by_hash ?p = (\<lambda>x. None)" "wrapped_lines_by_hash ?f = (\<lambda>x. None)"
    using assms(1) by (simp_all add: coherent_def frame_ok_def)
  have c': "c' = \<lparr>previous_frame = ?p\<lparr>fc_lines := p1, fc_wrapped_lines := p2, lines_by_hash := p3,
        wrapped_lines_by_hash := \<lambda>x. None\<rparr>,
      current_frame = ?f\<lparr>fc_lines := f1, fc_wrapped_lines := f2, lines_by_hash := f3,
        wrapped_lines_by_hash := \<lambda>x. None, used_lines := used_lines ?f @ ks1, used_wrapped_lines := used_wrapped_lines ?f @ ks2,
        used_lines_by_hash := used_lines_by_hash ?f @ ks3, used_wrapped_lines_by_hash := used_wrapped_lines_by_hash ?f @ ks4\<rparr>\<rparr>"
    using assms(2) unfolding reuse_layouts_def Let_def ks m none move_entries_none Option.bind.simps by simp
  show ?thesis
    using assms(1) move_entries_ok [OF _ _ m(1)] move_entries_ok [OF _ _ m(2)] move_entries_ok [OF _ _ m(3)]
    unfolding c' by (simp add: coherent_def frame_ok_def)
qed

lemma cache_step_ok: "coherent shape text_of maxes c \<Longrightarrow> op_ok text_of maxes operation \<Longrightarrow> cache_step shape operation c = Some c' \<Longrightarrow>
   coherent shape text_of maxes c'"
proof (cases operation)
  case (Layout_Line s fs runs force)
  assume "coherent shape text_of maxes c" "cache_step shape operation c = Some c'"
  then show ?thesis using layout_line_ok(2) Layout_Line by (metis cache_step.simps(1) option.inject prod.collapse)
next
  case (Layout_Wrapped s fs runs wrap_width max_lines)
  assume "coherent shape text_of maxes c" "op_ok text_of maxes operation" "cache_step shape operation c = Some c'"
  then show ?thesis using layout_wrapped_line_ok(2) Layout_Wrapped by (fastforce simp: op_ok_def)
next
  case (Layout_By_Hash h n fs runs force s)
  assume "coherent shape text_of maxes c" "op_ok text_of maxes operation" "cache_step shape operation c = Some c'"
  then show ?thesis
    using layout_line_by_hash_ok(2) [of shape text_of maxes c h n s fs runs force] Layout_By_Hash
    by (cases "layout_line_by_hash shape h n fs runs force s c") (auto simp: op_ok_def)
next
  case (Reuse a b)
  assume "coherent shape text_of maxes c" "cache_step shape operation c = Some c'"
  then show ?thesis using reuse_layouts_ok Reuse by auto
qed (auto simp: coherent_def truncate_layouts_def finish_frame_def frame_ok_def frame_default_def Let_def)

lemma cache_ops_ok:
  "coherent shape text_of maxes c \<Longrightarrow> list_all (op_ok text_of maxes) ops \<Longrightarrow> cache_ops shape ops c = Some c' \<Longrightarrow>
   coherent shape text_of maxes c'"
proof (induction ops arbitrary: c)
  case (Cons operation ops)
  then obtain c1 where "cache_step shape operation c = Some c1" "cache_ops shape ops c1 = Some c'"
    by (auto simp: bind_eq_Some_conv)
  then show ?case using Cons.IH [of c1] cache_step_ok [OF Cons.prems(1)] Cons.prems(2) by auto
qed simp

end
