(* ===== verification/Text_Theorems.thy ===== *)
theory Text_Theorems
  imports Text_Truncate_Lines Line_Layout_Correct Layout_Cache_Correct "HOL-Library.Code_Target_Nat"
begin

text \<open>
  The properties of wrapping, truncating and laying out text, with witnesses on a font whose
  characters are one wide.
\<close>

definition one :: "ucs \<Rightarrow> rat" where
  "one c = 1"

definition chars :: "string \<Rightarrow> ucs list" where
  "chars s = map of_char s"

lemma one_nonneg: "0 \<le> one c" "text_width one s = of_nat (length s)"
  by (simp add: one_def) (induction s; simp add: one_def)

section \<open>Wrapping\<close>



text \<open>
  When a space overflows the line, the character before it stays the previous one, so the start of
  the next word is no place to break: the last word is cut although it fits a line of its own.
\<close>

lemma wrap_breaks_word:
  "wrap_line one [Text (chars ''aa bbb ccc'')] 6 = [\<lparr>boundary_ix = 3, next_indent = 0\<rparr>, \<lparr>boundary_ix = 9, next_indent = 0\<rparr>]"
  by code_simp

text \<open>With characters of different widths, what is carried to the next line may be too wide for it.\<close>

lemma wrap_too_wide:
  "wrap_line (\<lambda>c. if c = 87 then 5 else 1 :: rat) [Text (chars ''i iiiiiiiiWx'')] 10 =
     [\<lparr>boundary_ix = 2, next_indent = 0\<rparr>, \<lparr>boundary_ix = 11, next_indent = 0\<rparr>] \<and>
   text_width (\<lambda>c. if c = 87 then 5 else 1 :: rat) (chars ''iiiiiiiiW'') = 13"
proof
  show "wrap_line (\<lambda>c. if c = 87 then 5 else 1 :: rat) [Text (chars ''i iiiiiiiiWx'')] 10 =
     [\<lparr>boundary_ix = 2, next_indent = 0\<rparr>, \<lparr>boundary_ix = 11, next_indent = 0\<rparr>]" by code_simp
qed (simp add: text_width_def chars_def)

section \<open>Truncating\<close>

text \<open>
  C38. Truncating a line never panics. Either the line is less than a pixel wider than the limit and
  left alone, or the result is a front and a back of the line around the affix, without the back at
  the end and the front at the start, and fits the limit unless only the affix is left; at the start
  this needs an affix narrower than the limit. The runs then cover exactly the result and every byte
  kept has its style. Truncating to several lines never panics and gives the text or a front of it
  with the affix and its runs. With a font of one width, the lines before the last are broken where
  the rule says and fit; the text is left alone only when its last line fits too. Otherwise something
  did not fit on the last line, or a newline with more text ended it, and the text is cut behind the
  last character tried there that fits together with the affix, or at the start of that line when
  none does, in which case the affix alone is on it. Blanks and punctuation before the cut are dropped.
\<close>

theorem truncate_line_fits:
  assumes "\<And>c. 0 \<le> cw c" and "0 \<le> limit" and "from = Start \<longrightarrow> text_width cw affix < limit"
  shows "(\<exists>r. truncate_line cw line limit affix runs from = Some r \<and> fits_in cw line limit affix runs from r) \<and>
    (\<exists>r. truncate_wrapped_line cw line limit (Suc (Suc n)) affix runs End = Some r \<and>
       (r = (line, runs) \<or> (\<exists>front. truncated line affix runs front [] r)) \<and>
       ((\<forall>c. cw c = w) \<longrightarrow>
          r = (line, runs) \<and> left_ok line w limit (Suc (Suc n)) \<or>
          (\<exists>K<length line. fst r = trim_tail (take K line) @ affix \<and>
             cut_ok line w limit (Suc (Suc n)) (text_width cw affix) K)))"
proof -
  obtain r where r: "truncate_wrapped_line cw line limit (Suc (Suc n)) affix runs End = Some r"
    "r = (line, runs) \<or> (\<exists>front. truncated line affix runs front [] r)"
    using truncate_wrapped_line_ok [of cw "Suc (Suc n)" End line limit affix runs] assms(1) by auto
  then show ?thesis
    using truncate_line_ok [of cw limit "from" affix line runs] truncate_wrapped_line_lines [of w cw "Suc (Suc n)" line limit affix runs r]
      assms by fastforce
qed

theorem truncate_line_fits_witness:
  "(\<exists>r. truncate_line one (chars ''abcdef'') 4 (chars ''.'') [\<lparr>run_len = 6, run_style = ()\<rparr>] Start = Some r \<and>
      fits_in one (chars ''abcdef'') 4 (chars ''.'') [\<lparr>run_len = 6, run_style = ()\<rparr>] Start r) \<and>
   map_option fst (truncate_line one (chars ''abcdef'') 4 (chars ''.'') [\<lparr>run_len = 6, run_style = ()\<rparr>] Start) = Some (chars ''.ef'') \<and>
   (\<exists>K<10. cut_ok (chars ''aaaaaaaaaa'') (1 :: rat) 3 2 1 K \<and> trim_tail (take K (chars ''aaaaaaaaaa'')) @ chars ''.'' = chars ''aaaaa.'')"
proof (intro conjI)
  show "\<exists>r. truncate_line one (chars ''abcdef'') 4 (chars ''.'') [\<lparr>run_len = 6, run_style = ()\<rparr>] Start = Some r \<and>
      fits_in one (chars ''abcdef'') 4 (chars ''.'') [\<lparr>run_len = 6, run_style = ()\<rparr>] Start r"
    using truncate_line_fits [of one 4 Start "chars ''.''" "chars ''abcdef''" "[\<lparr>run_len = 6, run_style = ()\<rparr>]" 0]
    by (simp only: one_nonneg) (simp add: chars_def)
  show "map_option fst (truncate_line one (chars ''abcdef'') 4 (chars ''.'') [\<lparr>run_len = 6, run_style = ()\<rparr>] Start) = Some (chars ''.ef'')"
    by code_simp
  let ?t = "chars ''aaaaaaaaaa''" and ?affix = "chars ''.''"
  have limit: "0 \<le> (3 :: rat)" "End = Start \<longrightarrow> text_width one ?affix < 3" by simp_all
  obtain r where r: "truncate_wrapped_line one ?t 3 (Suc (Suc 0)) ?affix ([] :: unit text_run list) End = Some r"
    "(\<forall>c. one c = 1) \<longrightarrow> r = (?t, []) \<and> left_ok ?t (1 :: rat) 3 (Suc (Suc 0)) \<or>
      (\<exists>K<length ?t. fst r = trim_tail (take K ?t) @ ?affix \<and> cut_ok ?t (1 :: rat) 3 (Suc (Suc 0)) (text_width one ?affix) K)"
    using conjunct2 [OF truncate_line_fits [of one 3 End ?affix ?t "[] :: unit text_run list" 0 1, OF one_nonneg(1) limit]] by blast
  have "map_option fst (truncate_wrapped_line one (chars ''aaaaaaaaaa'') 3 (Suc (Suc 0)) (chars ''.'') ([] :: unit text_run list) End) =
      Some (chars ''aaaaa.'')" by code_simp
  then have "fst r = chars ''aaaaa.''" using r(1) by simp
  moreover have "chars ''aaaaa.'' \<noteq> chars ''aaaaaaaaaa''" "length (chars ''aaaaaaaaaa'') = 10" "text_width one (chars ''.'') = 1"
    by code_simp+
  ultimately show "\<exists>K<10. cut_ok (chars ''aaaaaaaaaa'') (1 :: rat) 3 2 1 K \<and>
      trim_tail (take K (chars ''aaaaaaaaaa'')) @ chars ''.'' = chars ''aaaaa.''"
    using r(2) by (auto simp: one_def numeral_2_eq_2)
qed

text \<open>
  The characters carried to the last line are not tried again: the word is dropped although a part
  of it fits with the affix.
\<close>

lemma truncate_carried_word:
  "map_option fst (truncate_wrapped_line one (chars ''a bbbbbb'') 4 2 (chars ''.'') ([] :: unit text_run list) End) = Some (chars ''a.'')"
  by code_simp

text \<open>An affix as wide as the limit: all but the first character is kept.\<close>

lemma truncate_start_wide_affix:
  "map_option fst (truncate_line one (chars ''abcdef'') 1 (chars ''.'') ([] :: unit text_run list) Start) = Some (chars ''.bcdef'')"
  by code_simp

text \<open>
  Punctuation after a word is a place to break for the truncation to two lines, but not for
  wrapping: the text is left as it is and takes three lines.
\<close>

lemma truncate_lines_differ:
  "truncate_wrapped_line one (chars ''aaa bb'' @ [41] @ chars '' cccc'') 6 2 (chars ''.'') ([] :: unit text_run list) End =
     Some (chars ''aaa bb'' @ [41] @ chars '' cccc'', []) \<and>
   length (wrap_line one [Text (chars ''aaa bb'' @ [41] @ chars '' cccc'')] 6) = 2"
proof
  show "truncate_wrapped_line one (chars ''aaa bb'' @ [41] @ chars '' cccc'') 6 2 (chars ''.'') ([] :: unit text_run list) End =
     Some (chars ''aaa bb'' @ [41] @ chars '' cccc'', [])" by code_simp
  show "length (wrap_line one [Text (chars ''aaa bb'' @ [41] @ chars '' cccc'')] 6) = 2" by code_simp
qed

text \<open>At the end of a run the affix gets the style of the first byte removed.\<close>

lemma middle_affix_style:
  "update_runs_after_middle_truncation (chars ''.'')
     [\<lparr>run_len = 3, run_style = 1\<rparr>, \<lparr>run_len = 3, run_style = 2\<rparr>, \<lparr>run_len = 3, run_style = 3 :: nat\<rparr>] 3 6 =
   [\<lparr>run_len = 3, run_style = 1\<rparr>, \<lparr>run_len = 1, run_style = 2\<rparr>, \<lparr>run_len = 3, run_style = 3\<rparr>]"
  by code_simp

section \<open>Laid-out lines\<close>

text \<open>A line of glyphs of width one.\<close>

definition glyph_line :: "string \<Rightarrow> rat line_layout" where
  "glyph_line s = \<lparr>font_size = 1, ll_width = of_nat (length s), ascent = 1, descent = 0,
     ll_runs = [\<lparr>font_id = 0, glyphs = map (\<lambda>i. \<lparr>g_id = 0, g_position = \<lparr>px = of_nat i, py = 0\<rparr>, g_index = i, is_emoji = False\<rparr>)
       [0..<length s]\<rparr>], ll_len = length s\<rparr>"

text \<open>
  C39. Wrapping a well-formed line of glyphs never panics and gives increasing boundaries, fewer
  than the lines allowed. For every glyph, and for the end, the index has a position on the wrapped
  lines, and that position has this index: on the line, or as its end when the next line starts
  there. This holds for exact and for closest positions.
\<close>

theorem wrapped_positions:
  assumes "layout_ok l" and "char_starts s l" and "0 < line_height" and "k \<le> length (all_glyphs l)"
  shows "\<exists>bs ks. compute_wrap_boundaries l s wrap_width max_lines = Some bs \<and> bounds_at l (length (all_glyphs l)) ks bs \<and>
    (max_lines = Some m \<longrightarrow> length bs \<le> m - 1) \<and>
    (\<exists>p. position_for_index \<lparr>unwrapped_layout = l, wrap_boundaries = bs, wl_wrap_width = Some wrap_width\<rparr>
            (place_index l k) line_height = Some (Some p) \<and>
         index_for_position_mode \<lparr>unwrapped_layout = l, wrap_boundaries = bs, wl_wrap_width = Some wrap_width\<rparr> p line_height closest
           \<in> {Some (Inl (place_index l k)), Some (Inr (place_index l k))})"
proof -
  obtain bs ks where b: "compute_wrap_boundaries l s wrap_width max_lines = Some bs" "bounds_at l (length (all_glyphs l)) ks bs"
    "max_lines = Some m \<longrightarrow> length bs \<le> m - 1"
    using compute_wrap_boundaries_ok [OF assms(1,2)] by metis
  from position_roundtrip [OF assms(1) b(2) assms(4,3),
      of "\<lparr>unwrapped_layout = l, wrap_boundaries = bs, wl_wrap_width = Some wrap_width\<rparr>" closest] b
  show ?thesis by (intro exI [of _ bs] exI [of _ ks]) simp
qed

theorem wrapped_positions_witness:
  "\<exists>bs p. compute_wrap_boundaries (glyph_line ''aa bb'') (chars ''aa bb'') 3 (Some 2) = Some bs \<and> length bs \<le> 1 \<and>
     position_for_index \<lparr>unwrapped_layout = glyph_line ''aa bb'', wrap_boundaries = bs, wl_wrap_width = Some 3\<rparr> 4 10 = Some (Some p)"
proof -
  have "layout_ok (glyph_line ''aa bb'')" "char_starts (chars ''aa bb'') (glyph_line ''aa bb'')"
    "length (all_glyphs (glyph_line ''aa bb'')) = 5" "place_index (glyph_line ''aa bb'') 4 = 4"
    by code_simp+
  then show ?thesis
    using wrapped_positions [of "glyph_line ''aa bb''" "chars ''aa bb''" 10 4 3 "Some 2" 2 False] by auto
qed

text \<open>Right of the last glyph of several, the end of the line is answered even when the glyph is nearer.\<close>

lemma closest_last_glyph: "closest_index_for_x (glyph_line ''ab'') (11 / 10) = 2"
  by code_simp

section \<open>The cache\<close>

text \<open>
  C40. After any sequence of layouts, reuse and truncation over any number of frames, a line laid
  out through the cache is the line shaped anew, with its forced width; so is one found by its hash
  when equal hashes stand for equal texts. A wrapped line is the one that an empty cache gives,
  when only this limit of lines is used with its text, font and width; when several limits are, it
  is the one an empty cache gives for one of them, not always for the one asked for.
\<close>

theorem layout_cache_transparent:
  assumes "cache_ops shape ops cache_new = Some c" and "list_all (op_ok text_of maxes) ops"
    and "max_lines \<in> maxes (line_key s fs runs wrap_width None)"
  shows "fst (layout_line shape s fs runs force c) = shape_line shape s fs runs force \<and>
    (text_of h n = s \<longrightarrow> fst (layout_line_by_hash shape h n fs runs force s c) = shape_line shape s fs runs force) \<and>
    (\<forall>wl c'. layout_wrapped_line shape s fs runs wrap_width max_lines c = Some (wl, c') \<longrightarrow>
       (maxes (line_key s fs runs wrap_width None) = {max_lines} \<longrightarrow>
          map_option fst (layout_wrapped_line shape s fs runs wrap_width max_lines cache_new) = Some wl) \<and>
       (\<exists>m \<in> maxes (line_key s fs runs wrap_width None).
          map_option fst (layout_wrapped_line shape s fs runs wrap_width m cache_new) = Some wl))"
proof -
  have ok: "coherent shape text_of maxes c" by (rule cache_ops_ok [OF cache_new_ok assms(2,1)])
  have "\<exists>m \<in> maxes (line_key s fs runs wrap_width None).
      map_option fst (layout_wrapped_line shape s fs runs wrap_width m cache_new) = Some wl"
    if "layout_wrapped_line shape s fs runs wrap_width max_lines c = Some (wl, c')" for wl c'
    using layout_wrapped_line_ok(1) [of shape text_of maxes c max_lines s fs runs wrap_width, OF ok assms(3) that]
    by (simp add: wrapped_ok_def wrapped_value_fresh)
  then show ?thesis
    using layout_line_ok(1) [OF ok, of s fs runs force] layout_line_by_hash_ok(1) [OF ok, of h n s fs runs force]
    by (metis prod.collapse singletonD)
qed

text \<open>A line, a wrapped line and a line by hash, all found again in the next frame.\<close>

definition glyph_shape :: "ucs list \<Rightarrow> rat \<Rightarrow> font_run list \<Rightarrow> rat line_layout" where
  "glyph_shape s fs runs = glyph_line (map char_of s)"

theorem layout_cache_transparent_witness:
  "\<exists>c wl c'. cache_ops glyph_shape [Layout_Line (chars ''ab'') 1 [] (Some 2), Layout_By_Hash 7 2 1 [] None (chars ''ab''),
       Layout_Wrapped (chars ''aa bb'') 1 [] (Some 3) None, Finish_Frame] cache_new = Some c \<and>
     fst (layout_line glyph_shape (chars ''ab'') 1 [] (Some 2) c) = shape_line glyph_shape (chars ''ab'') 1 [] (Some 2) \<and>
     fst (layout_line_by_hash glyph_shape 7 2 1 [] None (chars ''ab'') c) = shape_line glyph_shape (chars ''ab'') 1 [] None \<and>
     layout_wrapped_line glyph_shape (chars ''aa bb'') 1 [] (Some 3) None c = Some (wl, c') \<and>
     map_option fst (layout_wrapped_line glyph_shape (chars ''aa bb'') 1 [] (Some 3) None cache_new) = Some wl"
proof -
  let ?ops = "[Layout_Line (chars ''ab'') 1 [] (Some 2), Layout_By_Hash 7 2 1 [] None (chars ''ab''),
      Layout_Wrapped (chars ''aa bb'') 1 [] (Some 3) None, Finish_Frame] :: rat cache_op list"
  let ?l = "shape_line glyph_shape (chars ''aa bb'') 1 [] None"
  note defs = layout_line_def layout_line_by_hash_def layout_wrapped_line_def cache_line_def cache_hashed_def cache_wrapped_def
    finish_frame_def cache_new_def frame_default_def line_key_def hashed_key_def
  have "compute_wrap_boundaries ?l (chars ''aa bb'') 3 None \<noteq> None" by code_simp
  then obtain bs where bs: "compute_wrap_boundaries ?l (chars ''aa bb'') 3 None = Some bs" by blast
  obtain c where c: "cache_ops glyph_shape ?ops cache_new = Some c"
    "fc_wrapped_lines (current_frame c) = Map.empty"
    "fc_wrapped_lines (previous_frame c) (line_key (chars ''aa bb'') 1 [] (Some 3) None) \<noteq> None"
    using bs by (simp add: defs Let_def)
  have ok: "list_all (op_ok (\<lambda>_ _. chars ''ab'') (\<lambda>_. {None})) ?ops"
    by (simp add: op_ok_def)
  obtain wl c' where wl: "layout_wrapped_line glyph_shape (chars ''aa bb'') 1 [] (Some 3) None c = Some (wl, c')"
    using c(2,3) by (auto simp: layout_wrapped_line_def Let_def)
  note cached = layout_cache_transparent [OF c(1) ok, where max_lines = None]
  have "map_option fst (layout_wrapped_line glyph_shape (chars ''aa bb'') 1 [] (Some 3) None cache_new) = Some wl"
    using cached [where s = "chars ''aa bb''" and fs = 1 and runs = "[]" and wrap_width = "Some 3"] wl by blast
  moreover have "fst (layout_line glyph_shape (chars ''ab'') 1 [] (Some 2) c) = shape_line glyph_shape (chars ''ab'') 1 [] (Some 2)"
    using cached [where s = "chars ''ab''" and fs = 1 and runs = "[]" and force = "Some 2"] by blast
  moreover have "fst (layout_line_by_hash glyph_shape 7 2 1 [] None (chars ''ab'') c) = shape_line glyph_shape (chars ''ab'') 1 [] None"
    using cached [where s = "chars ''ab''" and fs = 1 and runs = "[]" and force = None and h = 7 and n = 2] by blast
  ultimately show ?thesis using c(1) wl by blast
qed

text \<open>The limit of lines is not part of the key: a line cut to one line is found again without a limit.\<close>

lemma wrapped_limit_forgotten:
  assumes "layout_wrapped_line shape s fs runs wrap_width (Some 1) c = Some (wl, c')"
  shows "layout_wrapped_line shape s fs runs wrap_width None c' = Some (wl, c')"
  using assms
  by (auto simp: layout_wrapped_line_def cache_wrapped_def Let_def bind_eq_Some_conv split: option.splits prod.splits)

end
