(* ===== verification/Spec2Isabelle.thy ===== *)
theory Spec2Isabelle
  imports Sum_Tree_Theorems Keymap_Theorems Bounds_Theorems Priority_Queue_Theorems
    Subscription_Theorems Tab_Stop_Theorems Entity_Map_Theorems Key_Dispatch_Theorems List_Theorems
    Scene_Theorems Scene_Path Text_Theorems
begin

text \<open>
  A verification library for the core of the gpui framework: the data structures and state
  machines that its windows, elements and platforms are built on. Each component is
  translated from its source file into executable definitions, in the order of the source,
  and the theories named \<open>..._Theorems\<close> state what makes it correct.

  \<^bold>\<open>The program.\<close> An application owns entities and windows. Its state is ordered by sum trees
  (lists, tab order, text), key presses are matched by a keymap against the context stack of the focused
  element along the dispatch tree of the frame, what is drawn gets its order from a tree of rectangles, callbacks between
  entities are kept in subscriber sets, and work for background threads goes through a queue
  with priorities. Entities live in a map while handles to them exist, and long lists are laid out
  around the position scrolled to. The window, most elements, the text system and the platforms are built on
  these parts, and mostly consist of effects on objects of the operating system.

  \<^bold>\<open>Theories and sources.\<close>

  \<^item> \<open>Prelude\<close>: orderings, vectors of fixed capacity, generic lemmas and rule collections.
  \<^item> \<open>Sum_Tree\<close>, \<open>Sum_Tree_Append\<close>, \<open>Sum_Tree_Build\<close>, \<open>Sum_Tree_Find\<close>, \<open>Sum_Tree_Keyed\<close>
    (\<open>crates/sum_tree/src/sum_tree.rs\<close>): nodes with cached summaries, appending, building, updating, searching
    along a dimension, and keyed editing. \<open>Sum_Tree_Cursor\<close>, \<open>Sum_Tree_Seek\<close>, \<open>Sum_Tree_Walk\<close>,
    \<open>Sum_Tree_Back\<close>, \<open>Sum_Tree_Items\<close> (\<open>cursor.rs\<close>): the cursor with its stack, seeking, slicing, stepping and searching in both
    directions, and the iterator.
  \<^item> \<open>Tree_Map\<close>, \<open>Tree_Map_Correct\<close> (\<open>tree_map.rs\<close>): ordered maps and sets on the trees.
  \<^item> \<open>Key_Context\<close>, \<open>Key_Predicate\<close>, \<open>Key_Parser\<close> (\<open>crates/gpui/src/keymap/context.rs\<close>): contexts,
    predicates over context stacks, and the parsers and printers of both.
  \<^item> \<open>Keystroke\<close> (\<open>platform/keystroke.rs\<close>), \<open>Keymap\<close>, \<open>Keymap_Correct\<close> (\<open>keymap.rs\<close>,
    \<open>keymap/binding.rs\<close>, \<open>action.rs\<close>): keystrokes and their notation, bindings and the queries of the keymap.
  \<^item> \<open>Geometry\<close> (\<open>geometry.rs\<close>) and \<open>Bounds_Tree\<close>, \<open>Bounds_Tree_Correct\<close>, \<open>Bounds_Tree_Insert\<close>,
    \<open>Bounds_Tree_Order\<close> (\<open>bounds_tree.rs\<close>): rectangles, and the tree that gives each one drawn its order.
  \<^item> \<open>Priority_Queue\<close>, \<open>Priority_Queue_Threads\<close> (\<open>queue.rs\<close>, priorities of
    \<open>crates/scheduler/src/scheduler.rs\<close>): the dispatch queue, and the threads around it as a step relation.
  \<^item> \<open>Subscription\<close>, \<open>Subscription_Correct\<close> (\<open>subscription.rs\<close>): subscriber sets with callbacks that use the
    set, and the handles that cancel.
  \<^item> \<open>Tab_Stop\<close>, \<open>Tab_Stop_Correct\<close> (\<open>tab_stop.rs\<close>): the tab order on a keyed sum tree.
  \<^item> \<open>Entity_Map\<close>, \<open>Entity_Map_Correct\<close> (\<open>app/entity_map.rs\<close>): entities, leases, strong and weak handles,
    and the counters that decide when an entity is released, as a step relation.
  \<^item> \<open>Key_Dispatch\<close>, \<open>Key_Dispatch_Correct\<close>, \<open>Key_Dispatch_Stack\<close>, \<open>Key_Dispatch_Reuse\<close>
    (\<open>key_dispatch.rs\<close>): the tree of a frame with its stacks, reuse of the previous frame's subtrees, paths, and the
    matching of key presses with replay of those that did not match.
  \<^item> \<open>List_State\<close>, \<open>List_Scroll\<close>, \<open>List_Layout\<close>, \<open>List_State_Correct\<close>, \<open>List_Correct\<close>,
    \<open>List_Layout_Correct\<close> (\<open>elements/list.rs\<close>): the state of a list on a sum tree of items with cached sizes: splicing,
    remeasuring, scrolling, the scrollbar, and layout.
  \<^item> \<open>Scene\<close>, \<open>Scene_Correct\<close>, \<open>Scene_Build\<close>, \<open>Scene_Path\<close> (\<open>scene.rs\<close>): what a frame paints, ordered by the
    tree of rectangles and by layers, replayed from the frame before, and cut into batches; transformations and paths.
  \<^item> \<open>Text_Wrap\<close>, \<open>Text_Truncate\<close> (\<open>text_system/line_wrapper.rs\<close>), \<open>Line_Layout\<close>, \<open>Layout_Cache\<close>
    (\<open>text_system/line_layout.rs\<close>) and their \<open>..._Correct\<close> theories: wrapping and truncating text by widths, lines of
    shaped glyphs with indices and positions, and the cache of layouts over two frames. \<open>Text_Wrap_Breaks\<close> and
    \<open>Text_Truncate_Lines\<close> state as a rule where a line is broken and a text is cut, and that the code follows it.

  \<^bold>\<open>Interfaces.\<close> The locale \<open>summary_laws\<close> states what a summary owes the tree, \<open>dimension\<close> adds a
  dimension, \<open>keyed\<close> a key whose order the items follow, and \<open>seek_aggregate\<close> what is accumulated while the
  cursor seeks; the tree's lemmas are proved in them once. The tree map and the tab order
  interpret them with their own summaries, and the list with three dimensions of its own, so all of them inherit the cursor's correctness.

  \<^bold>\<open>What is shown.\<close> The tree operations keep the balance and the cached summaries and compute the list
  operations they stand for; the cursor is a position in that list; the map refines finite
  maps. Parsers read back what the printers write; a predicate without negation is entailed by those it is a
  superset of; the keymap's queries select exactly the visible bindings, in order of precedence.
  Draw orders are those of a linear scan. The queue is first in first out per priority
  in every reachable state of its threads and loses no wake-up; a receiver parked when its
  sender goes away waits forever. No retain calls a subscriber whose handle was dropped, be it by an earlier callback of the
  same retain. The focus moves along the sorted tab stops and around their ends. The counters of an entity are the numbers of its
  handles, and it is handed out for release once, after the last of them. The stacks of the dispatch tree are the path to its
  active node however it was reached, and a key press cuts the pending input greedily. A splice
  of a list keeps the view on the same rows and scrolling moves by the distance; a layout measures the items in the viewport and
  the overdraw and keeps the sizes of the others, and its elements fill the viewport when no tail is reserved. What is painted
  over something else outside layers gets a higher order, what a scene records paints it again, and its batches paint its
  primitives once, in their stable order. With a font of one width, wrapped lines fit and end at the last place for a break, and
  a text truncated to some lines keeps as much of the last one as was tried and fits with the affix; a single line is
  truncated to the limit with any font. The index of every glyph of a wrapped line is read back from its position. The cache of
  layouts answers as if empty, but for wrapped lines asked for with several limits of lines.

  \<^bold>\<open>Conventions.\<close> A panic is \<open>None\<close>; errors are values. Debug assertions are not modelled. Shared
  immutable data (\<open>Arc\<close>) is a value; vectors of fixed capacity are lists with a capacity
  check. Heights of trees are natural numbers, and subtracting from zero is a panic. The
  context argument of a summary is fixed in its record of operations, and filters are pure functions.
  The stack of a cursor is written with its top first. Trees built from an iterator have nodes with at least one child,
  appending and slicing keep at least any \<open>k \<le> TREE_BASE\<close>; the height stays below the capacity 16 of the cursor stack
  up to \<open>6 ^ 16\<close> items. Sorting functions of the standard library that are not stable are parameters.
  Strings are lists of characters below 256; the target system is a string parameter, and the
  display form of keystrokes is that of systems other than Windows.
  Coordinates are elements of a linearly ordered group, so their arithmetic is exact; orders are
  checked against the width of 32 bits. The random generator of the queue is a parameter
  whose coin is certain when numerator and denominator agree. Identifiers of subscribers and lengths of
  histories are natural numbers. The slot map of the entities is a function that never gives a key twice; listeners of the dispatch
  tree are data, and the registry of actions a parameter. The rendering of a list item, the focus of
  the window and requests to scroll are parameters; a list's tree is assumed to fit the cursor's stack.

  \<^bold>\<open>Termination.\<close> Loops over a stack or a tree of nodes are partial functions with an option result, and
  their lemmas show that they return: the cursor's loops on well-formed trees, the search and descent of
  the bounds tree on the trees its vector represents, the skipping of nodes that are no tab stops.
  Spinning for a lock returns exactly when some attempt succeeds. The parser of
  contexts has inputs on which it does not return, which is proved as well.

  \<^bold>\<open>Not modelled.\<close> The platform crates, the renderers and the web backend (bindings to systems), the
  macros (functions of the compiler), the other elements and the layout (built on a layout engine outside the
  repository), shaping of text, clients of HTTP, and the tests. Left for extensions: the arena, the
  effects of the application, the scheduler, and the path utilities.
\<close>

end
